(* ===== verification/Prelude.thy ===== *)
theory Prelude
  imports Main "HOL-Library.Word" "HOL-Library.Signed_Division" "HOL-Library.Monad_Syntax"
begin

unbundle bit_operations_syntax

text \<open>
  What the component theories share: the names of the C integer types, bounds-checked
  access to C arrays (an access outside the array is the value \<open>None\<close>, so a run that
  returns \<open>Some\<close> made none), \<open>for\<close> loops over such steps, the arithmetic of
  row-major indices, the shared interface of an erase-block flash device, and the
  collections of facts the proofs are driven by.
\<close>

type_synonym u8 = "8 word"
type_synonym u32 = "32 word"
type_synonym u64 = "64 word"

named_theorems bounds \<open>facts that discharge the bounds check of an array access\<close>

section \<open>Arrays with bounds checks\<close>

text \<open>
  A global array \<open>T a[n][m]\<close> is a function on its two indices. Reading or writing it
  outside \<open>n\<close> and \<open>m\<close> is undefined in C: the checked accessors return \<open>None\<close>.
\<close>

definition get1 :: "nat \<Rightarrow> (nat \<Rightarrow> 'a) \<Rightarrow> int \<Rightarrow> 'a option" where
  "get1 n a i = (if 0 \<le> i \<and> i < int n then Some (a (nat i)) else None)"

definition set1 :: "nat \<Rightarrow> (nat \<Rightarrow> 'a) \<Rightarrow> int \<Rightarrow> 'a \<Rightarrow> (nat \<Rightarrow> 'a) option" where
  "set1 n a i v = (if 0 \<le> i \<and> i < int n then Some (a(nat i := v)) else None)"

definition get2 :: "nat \<Rightarrow> nat \<Rightarrow> (nat \<Rightarrow> nat \<Rightarrow> 'a) \<Rightarrow> int \<Rightarrow> int \<Rightarrow> 'a option" where
  "get2 n m a i j =
     (if 0 \<le> i \<and> i < int n \<and> 0 \<le> j \<and> j < int m then Some (a (nat i) (nat j)) else None)"

definition set2 ::
  "nat \<Rightarrow> nat \<Rightarrow> (nat \<Rightarrow> nat \<Rightarrow> 'a) \<Rightarrow> int \<Rightarrow> int \<Rightarrow> 'a \<Rightarrow> (nat \<Rightarrow> nat \<Rightarrow> 'a) option" where
  "set2 n m a i j v =
     (if 0 \<le> i \<and> i < int n \<and> 0 \<le> j \<and> j < int m
      then Some (a(nat i := (a (nat i))(nat j := v))) else None)"

lemma get1_in [bounds]: "i < n \<Longrightarrow> get1 n a (int i) = Some (a i)"
  by (simp add: get1_def)

lemma set1_in [bounds]: "i < n \<Longrightarrow> set1 n a (int i) v = Some (a(i := v))"
  by (simp add: set1_def)

lemma get2_in [bounds]: "i < n \<Longrightarrow> j < m \<Longrightarrow> get2 n m a (int i) (int j) = Some (a i j)"
  by (simp add: get2_def)

lemma set2_in [bounds]:
  "i < n \<Longrightarrow> j < m \<Longrightarrow> set2 n m a (int i) (int j) v = Some (a(i := (a i)(j := v)))"
  by (simp add: set2_def)

lemma get2_in' [bounds]:
  "i < n \<Longrightarrow> 0 \<le> j \<Longrightarrow> j < int m \<Longrightarrow> get2 n m a (int i) j = Some (a i (nat j))"
  by (simp add: get2_def)

lemma set2_in' [bounds]:
  "i < n \<Longrightarrow> 0 \<le> j \<Longrightarrow> j < int m
    \<Longrightarrow> set2 n m a (int i) j v = Some (a(i := (a i)(nat j := v)))"
  by (simp add: set2_def)

lemma get2_out: "\<not> (0 \<le> j \<and> j < int m) \<Longrightarrow> get2 n m a i j = None"
  by (auto simp: get2_def)

lemma set2_out: "\<not> (0 \<le> j \<and> j < int m) \<Longrightarrow> set2 n m a i j v = None"
  by (auto simp: set2_def)

section \<open>Loops\<close>

text \<open>
  \<open>for_opt is f s\<close> runs the body \<open>f i\<close> for each index of \<open>is\<close> in order and stops at the
  first body that has no value: a \<open>for\<close> loop whose body can be undefined.
\<close>

fun for_opt :: "'i list \<Rightarrow> ('i \<Rightarrow> 's \<Rightarrow> 's option) \<Rightarrow> 's \<Rightarrow> 's option" where
  "for_opt [] f s = Some s"
| "for_opt (i # is) f s = Option.bind (f i s) (for_opt is f)"

lemma for_opt_append:
  "for_opt (xs @ ys) f s = Option.bind (for_opt xs f s) (for_opt ys f)"
  by (induction xs arbitrary: s) (auto split: bind_split)

lemma for_opt_snoc: "for_opt (xs @ [y]) f s = Option.bind (for_opt xs f s) (f y)"
  by (cases "for_opt xs f s") (auto simp: for_opt_append split: bind_split)

text \<open>The loop rule: an invariant indexed by the iterations done.\<close>

lemma for_opt_rule:
  assumes "J 0 s"
    and "\<And>i t. i < n \<Longrightarrow> J i t \<Longrightarrow> \<exists>t'. f i t = Some t' \<and> J (Suc i) t'"
  shows "\<exists>t. for_opt [0..<n] f s = Some t \<and> J n t"
  using assms(2)
proof (induction n)
  case 0
  then show ?case using assms(1) by simp
next
  case (Suc n)
  then obtain t where t: "for_opt [0..<n] f s = Some t" "J n t" by force
  with Suc.prems [of n t] show ?case by (auto simp: for_opt_snoc)
qed

text \<open>What no body changes, the loop does not change.\<close>

lemma for_opt_keeps:
  assumes "for_opt xs f s = Some t" and "\<And>i s t. f i s = Some t \<Longrightarrow> h t = h s"
  shows "h t = h s"
  using assms by (induction xs arbitrary: s) (auto split: bind_splits)

text \<open>A loop that never fails is a \<open>fold\<close>.\<close>

lemma for_opt_Some: "for_opt xs (\<lambda>i s. Some (g i s)) s = Some (fold g xs s)"
  by (induction xs arbitrary: s) auto

text \<open>Two loops whose bodies correspond through a function correspond through it.\<close>

lemma for_opt_sim:
  assumes "\<And>i s. i \<in> set xs \<Longrightarrow> map_option h (f i s) = g i (h s)"
  shows "map_option h (for_opt xs f s) = for_opt xs g (h s)"
  using assms
proof (induction xs arbitrary: s)
  case (Cons i xs)
  have "map_option h (f i s) = g i (h s)" using Cons.prems by simp
  moreover have "map_option h (for_opt xs f t) = for_opt xs g (h t)" for t
    using Cons by simp
  ultimately show ?case by (cases "f i s") (auto dest: sym)
qed simp

text \<open>A loop that replaces each element of a list by a function of it.\<close>

lemma for_opt_each:
  assumes "length t = n" and "\<And>i. i < n \<Longrightarrow> f (t ! i) = Some (h (t ! i))"
  shows "for_opt [0..<n] (\<lambda>i t. do { x \<leftarrow> f (t ! i); Some (t[i := x]) }) t = Some (map h t)"
proof -
  let ?f = "\<lambda>i t. do { x \<leftarrow> f (t ! i); Some (t[i := x]) }"
  have "\<exists>u. for_opt [0..<n] ?f t = Some u \<and>
      (length u = n \<and> (\<forall>i < n. u ! i = (if i < n then h (t ! i) else t ! i)))"
    by (rule for_opt_rule [where J = "\<lambda>k u. length u = n \<and>
          (\<forall>i < n. u ! i = (if i < k then h (t ! i) else t ! i))"])
      (use assms in \<open>auto simp: nth_list_update less_Suc_eq\<close>)
  then obtain u where u: "for_opt [0..<n] ?f t = Some u" "length u = n" "\<forall>i < n. u ! i = h (t ! i)"
    by auto
  then have "u = map h t" using assms(1) by (intro nth_equalityI) auto
  with u(1) show ?thesis by simp
qed

lemma fold_rule:
  assumes "J 0 s" and "\<And>i t. i < n \<Longrightarrow> J i t \<Longrightarrow> J (Suc i) (f i t)"
  shows "J n (fold f [0..<n] s)"
  using assms by (induction n) auto

lemma find_upt_Some:
  "find P [0..<n] = Some i \<Longrightarrow> i < n \<and> P i \<and> (\<forall>j < i. \<not> P j)"
  by (auto simp: find_Some_iff)

lemma find_upt_None: "find P [0..<n] = None \<longleftrightarrow> (\<forall>i < n. \<not> P i)"
  by (auto simp: find_None_iff)

section \<open>Buffers\<close>

text \<open>
  A buffer the C code reaches through a pointer is a list and the pointer's offset into it.
  \<open>copy_to\<close> and \<open>fill_to\<close> are the copying loops of the code, element by element.
\<close>

definition lget :: "'a list \<Rightarrow> int \<Rightarrow> 'a option" where
  "lget xs i = (if 0 \<le> i \<and> i < int (length xs) then Some (xs ! nat i) else None)"

definition lset :: "'a list \<Rightarrow> int \<Rightarrow> 'a \<Rightarrow> 'a list option" where
  "lset xs i v = (if 0 \<le> i \<and> i < int (length xs) then Some (xs[nat i := v]) else None)"

definition copy_to :: "'a list \<Rightarrow> int \<Rightarrow> 'a list \<Rightarrow> int \<Rightarrow> int \<Rightarrow> 'a list option" where
  "copy_to dst doff src soff n =
     for_opt [0..<nat n] (\<lambda>i d. do { v \<leftarrow> lget src (soff + int i); lset d (doff + int i) v }) dst"

definition fill_to :: "'a list \<Rightarrow> int \<Rightarrow> 'a \<Rightarrow> int \<Rightarrow> 'a list option" where
  "fill_to dst doff v n = for_opt [0..<nat n] (\<lambda>i d. lset d (doff + int i) v) dst"

lemma copy_to_run:
  assumes "a + n \<le> length dst" "c + n \<le> length src"
  shows "\<exists>dst'. copy_to dst (int a) src (int c) (int n) = Some dst' \<and> length dst' = length dst \<and>
    (\<forall>j < length dst. dst' ! j = (if a \<le> j \<and> j < a + n then src ! (c + (j - a)) else dst ! j))"
  using assms
proof (induction n)
  case (Suc n)
  then obtain d where d: "copy_to dst (int a) src (int c) (int n) = Some d" "length d = length dst"
    "\<forall>j < length dst. d ! j = (if a \<le> j \<and> j < a + n then src ! (c + (j - a)) else dst ! j)"
    by auto
  have "copy_to dst (int a) src (int c) (int (Suc n)) = Some (d[a + n := src ! (c + n)])"
    using d(1,2) Suc.prems by (simp add: copy_to_def for_opt_snoc lget_def lset_def nat_add_distrib)
  moreover have "\<forall>j < length dst. d[a + n := src ! (c + n)] ! j =
      (if a \<le> j \<and> j < a + Suc n then src ! (c + (j - a)) else dst ! j)"
    using d(2,3) Suc.prems by (auto simp: nth_list_update less_Suc_eq)
  ultimately show ?case using d(2) by simp
qed (auto simp: copy_to_def)

lemma fill_to_copy:
  assumes "0 \<le> n"
  shows "fill_to dst a v n = copy_to dst a (replicate (nat n) v) 0 n"
proof -
  have "m \<le> nat n \<Longrightarrow> for_opt [0..<m] (\<lambda>i d. lset d (a + int i) v) dst =
      for_opt [0..<m] (\<lambda>i d. do { w \<leftarrow> lget (replicate (nat n) v) (0 + int i); lset d (a + int i) w }) dst" for m
    by (induction m) (auto simp: for_opt_snoc lget_def split: bind_split)
  from this [of "nat n"] show ?thesis by (simp add: fill_to_def copy_to_def)
qed

lemma fill_to_run:
  assumes "a + n \<le> length dst"
  shows "\<exists>dst'. fill_to dst (int a) v (int n) = Some dst' \<and> length dst' = length dst \<and>
    (\<forall>j < length dst. dst' ! j = (if a \<le> j \<and> j < a + n then v else dst ! j))"
  using copy_to_run [of a n dst 0 "replicate n v"] assms by (simp add: fill_to_copy) fastforce

lemma sdiv_of_nat [simp]: "int a sdiv int b = int (a div b)"
  by (cases "a = 0 \<or> b = 0") (auto simp: signed_divide_int_def zdiv_int)

lemma smod_of_nat [simp]: "int a smod int b = int (a mod b)"
  by (cases "a = 0") (auto simp: signed_modulo_int_def zmod_int)

section \<open>Row-major indices\<close>

lemma row_major_inj:
  fixes a b m p q :: nat
  assumes "a * m + p = b * m + q" "p < m" "q < m"
  shows "a = b" "p = q"
proof -
  have "a = (a * m + p) div m" using assms(2) by simp
  also have "\<dots> = b" using assms(1,3) by simp
  finally show "a = b" .
  with assms(1) show "p = q" by simp
qed

lemma row_major_less:
  fixes a m n p :: nat
  assumes "a < n" "p < m"
  shows "a * m + p < n * m"
proof -
  have "a * m + p < Suc a * m" using assms(2) by simp
  also have "\<dots> \<le> n * m" using assms(1) by (intro mult_le_mono1) simp
  finally show ?thesis .
qed

lemma div_mod_split:
  fixes k m p :: nat
  assumes "p < m"
  shows "(k * m + p) div m = k" "(k * m + p) mod m = p"
  using assms by auto

lemma row_major_block:
  fixes k f p r :: nat
  assumes "f * p \<le> k * p + r" "k * p + r < f * p + p" "r < p"
  shows "k = f"
proof -
  have "k * p + r = f * p + (k * p + r - f * p)" using assms(1) by simp
  moreover have "k * p + r - f * p < p" using assms(1,2) by linarith
  ultimately show ?thesis using row_major_inj(1) assms(3) by blast
qed

section \<open>Positions of the selected elements of a range\<close>

lemma length_filter_upt_mono:
  "j \<le> n \<Longrightarrow> length (filter P [0..<j]) \<le> length (filter P [0..<n])"
  by (induction n) (auto simp: le_Suc_eq)

lemma length_filter_upt_less:
  assumes "P j" "j < n"
  shows "length (filter P [0..<j]) < length (filter P [0..<n])"
proof -
  have "length (filter P [0..<j]) < length (filter P [0..<Suc j])" using assms(1) by simp
  also have "\<dots> \<le> length (filter P [0..<n])" using assms(2) by (intro length_filter_upt_mono) simp
  finally show ?thesis .
qed

lemma filter_upt_nth:
  assumes "P j" "j < n"
  shows "filter P [0..<n] ! length (filter P [0..<j]) = j"
  using assms(2)
proof (induction n)
  case (Suc n)
  show ?case
  proof (cases "j = n")
    case True
    with assms(1) show ?thesis by simp
  next
    case False
    with Suc.prems have j: "j < n" by simp
    with Suc.IH length_filter_upt_less [of P j n] assms(1) show ?thesis
      by (simp add: nth_append)
  qed
qed simp

lemma filter_upt_surj:
  assumes "c < length (filter P [0..<n])"
  obtains j where "j < n" "P j" "c = length (filter P [0..<j])"
  using assms
proof (induction n arbitrary: thesis)
  case (Suc n)
  show ?case
  proof (cases "c < length (filter P [0..<n])")
    case True
    then obtain j where "j < n" "P j" "c = length (filter P [0..<j])" using Suc.IH by blast
    then show ?thesis using Suc.prems(1) [of j] by simp
  next
    case False
    with Suc.prems(2) have "P n" "c = length (filter P [0..<n])" by (auto split: if_splits)
    then show ?thesis using Suc.prems(1) [of n] by simp
  qed
qed simp

section \<open>Counting and maximising loops\<close>

lemma fold_count:
  "fold (\<lambda>i c. if P i then c + 1 else c) xs (m :: nat) = m + length (filter P xs)"
  by (induction xs arbitrary: m) auto

lemma argmax_fold:
  fixes f :: "'i \<Rightarrow> nat"
  assumes "fold (\<lambda>k (mx, r). let c = f k in if c \<ge> mx then (c, k) else (mx, r)) xs (m, r) = (m', r')"
  shows "m \<le> m' \<and> (\<forall>k \<in> set xs. f k \<le> m') \<and>
    (r' \<in> set xs \<and> f r' = m' \<or> r' = r \<and> m' = m \<and> (\<forall>k \<in> set xs. f k < m))"
  using assms
proof (induction xs arbitrary: m r)
  case (Cons k xs)
  show ?case
  proof (cases "m \<le> f k")
    case True
    with Cons.prems have "fold (\<lambda>k (mx, r). let c = f k in if c \<ge> mx then (c, k) else (mx, r)) xs
        (f k, k) = (m', r')" by simp
    from Cons.IH [OF this] True show ?thesis by auto
  next
    case False
    with Cons.prems have "fold (\<lambda>k (mx, r). let c = f k in if c \<ge> mx then (c, k) else (mx, r)) xs
        (m, r) = (m', r')" by simp
    from Cons.IH [OF this] False show ?thesis by auto
  qed
qed simp

section \<open>Words used as small integers\<close>

lemma sint_of_nat_small:
  assumes "n < 2 ^ 31"
  shows "sint (word_of_nat n :: u32) = int n"
proof -
  have "signed_take_bit 31 (int n) = int n"
    using assms by (intro signed_take_bit_int_eq_self) auto
  then show ?thesis by (simp add: signed_of_nat)
qed

lemma sint_small: "unat (w :: u32) < 2 ^ 31 \<Longrightarrow> sint w = int (unat w)"
  using sint_of_nat_small [of "unat w"] by simp

lemma sint_minus_small:
  assumes "n < 2 ^ 31"
  shows "sint (- word_of_nat n :: u32) = - int n"
proof -
  have "- word_of_nat n = (word_of_int (- int n) :: u32)" by simp
  then have "sint (- word_of_nat n :: u32) = signed_take_bit 31 (- int n)"
    by (simp only: signed_of_int) simp
  also have "\<dots> = - int n" using assms by (intro signed_take_bit_int_eq_self) auto
  finally show ?thesis .
qed

section \<open>The interface of a flash device\<close>

text \<open>
  What a client of a NAND device relies on, for both NAND simulators of the repository
  (\<open>HW1/nand.c\<close> and \<open>HW2/HW2_Submit/nand.c\<close>). A device state \<open>s\<close> that satisfies \<open>ok\<close>
  stands for the lists \<open>log s bank blk\<close> of the pages programmed in each erase block, in
  programming order; \<open>dims\<close> is the number of banks, of blocks per bank and of pages per
  block. A page is programmed at the end of its block's log only, and read back from it.
\<close>

definition in_dims :: "int \<times> int \<times> int \<Rightarrow> int \<Rightarrow> int \<Rightarrow> int \<Rightarrow> bool" where
  "in_dims d bank blk page \<longleftrightarrow>
     (case d of (nb, nk, np) \<Rightarrow> 0 \<le> bank \<and> bank < nb \<and> 0 \<le> blk \<and> blk < nk \<and> 0 \<le> page \<and> page < np)"

locale flash_log =
  fixes ok :: "'s \<Rightarrow> bool"
    and dims :: "'s \<Rightarrow> int \<times> int \<times> int"
    and log :: "'s \<Rightarrow> int \<Rightarrow> int \<Rightarrow> 'p list"
    and good :: "'p \<Rightarrow> bool"
    and wr :: "'s \<Rightarrow> int \<Rightarrow> int \<Rightarrow> int \<Rightarrow> 'p \<Rightarrow> 's \<times> int"
    and rd :: "'s \<Rightarrow> int \<Rightarrow> int \<Rightarrow> int \<Rightarrow> 'p \<Rightarrow> 'p \<times> int"
  assumes wr_next: "ok s \<Longrightarrow> good p \<Longrightarrow> in_dims (dims s) bank blk page \<Longrightarrow>
      page = int (length (log s bank blk)) \<Longrightarrow>
      \<exists>s'. wr s bank blk page p = (s', 0) \<and> ok s' \<and> dims s' = dims s \<and>
        (\<forall>b k. in_dims (dims s) b k 0 \<longrightarrow> log s' b k =
          (if b = bank \<and> k = blk then log s b k @ [p] else log s b k))"
    and rd_log: "ok s \<Longrightarrow> in_dims (dims s) bank blk page \<Longrightarrow>
      page < int (length (log s bank blk)) \<Longrightarrow>
      rd s bank blk page buf = (log s bank blk ! nat page, 0)"
    and wr_other: "ok s \<Longrightarrow> in_dims (dims s) bank blk page \<Longrightarrow>
      page \<noteq> int (length (log s bank blk)) \<Longrightarrow>
      fst (wr s bank blk page p) = s \<and> snd (wr s bank blk page p) < 0"
    and rd_unwritten: "ok s \<Longrightarrow> in_dims (dims s) bank blk page \<Longrightarrow>
      int (length (log s bank blk)) \<le> page \<Longrightarrow> rd s bank blk page buf = (buf, -4)"
    and log_len: "ok s \<Longrightarrow> dims s = (nb, nk, np) \<Longrightarrow> in_dims (dims s) bank blk 0 \<Longrightarrow>
      int (length (log s bank blk)) \<le> np"
    and log_good: "ok s \<Longrightarrow> in_dims (dims s) bank blk 0 \<Longrightarrow> p \<in> set (log s bank blk) \<Longrightarrow> good p"
begin

lemma wr_rd:
  assumes "ok s" "good p" "in_dims (dims s) bank blk page" "page = int (length (log s bank blk))"
  shows "rd (fst (wr s bank blk page p)) bank blk page buf = (p, 0)"
proof -
  obtain s' where s': "wr s bank blk page p = (s', 0)" "ok s'" "dims s' = dims s"
    "log s' bank blk = log s bank blk @ [p]"
    using wr_next [OF assms] assms(3) by (force simp: in_dims_def split: prod.splits)
  have "rd s' bank blk page buf = (log s' bank blk ! nat page, 0)"
    by (rule rd_log) (use assms s' in \<open>auto simp: in_dims_def\<close>)
  with s' assms(4) show ?thesis by simp
qed

text \<open>A page that was programmed cannot be programmed again: flash has no overwrite.\<close>

lemma wr_twice:
  assumes "ok s" "good p" "in_dims (dims s) bank blk page" "page = int (length (log s bank blk))"
  shows "fst (wr (fst (wr s bank blk page p)) bank blk page q) = fst (wr s bank blk page p)"
proof -
  obtain s' where s': "wr s bank blk page p = (s', 0)" "ok s'" "dims s' = dims s"
    "log s' bank blk = log s bank blk @ [p]"
    using wr_next [OF assms] assms(3) by (force simp: in_dims_def split: prod.splits)
  then show ?thesis using wr_other [of s' bank blk page q] assms(3,4) by simp
qed

end

locale flash = flash_log ok dims log good wr rd
  for ok :: "'s \<Rightarrow> bool"
    and dims :: "'s \<Rightarrow> int \<times> int \<times> int"
    and log :: "'s \<Rightarrow> int \<Rightarrow> int \<Rightarrow> 'p list"
    and good :: "'p \<Rightarrow> bool"
    and wr :: "'s \<Rightarrow> int \<Rightarrow> int \<Rightarrow> int \<Rightarrow> 'p \<Rightarrow> 's \<times> int"
    and rd :: "'s \<Rightarrow> int \<Rightarrow> int \<Rightarrow> int \<Rightarrow> 'p \<Rightarrow> 'p \<times> int" +
  fixes er :: "'s \<Rightarrow> int \<Rightarrow> int \<Rightarrow> 's \<times> int"
  assumes er_blk: "ok s \<Longrightarrow> in_dims (dims s) bank blk 0 \<Longrightarrow>
      ok (fst (er s bank blk)) \<and> dims (fst (er s bank blk)) = dims s \<and>
      (\<forall>b k. in_dims (dims s) b k 0 \<longrightarrow> log (fst (er s bank blk)) b k =
          (if b = bank \<and> k = blk then [] else log s b k))"
begin

text \<open>Erasing frees exactly the block it names: a block that was full can be programmed anew.\<close>

lemma er_wr:
  assumes "ok s" "good p" "in_dims (dims s) bank blk 0"
  shows "snd (wr (fst (er s bank blk)) bank blk 0 p) = 0"
proof -
  let ?t = "fst (er s bank blk)"
  have t: "ok ?t" "dims ?t = dims s" "log ?t bank blk = []"
    using er_blk [OF assms(1,3)] assms(3) by auto
  have "\<exists>s'. wr ?t bank blk 0 p = (s', 0) \<and> ok s' \<and> dims s' = dims ?t \<and>
        (\<forall>b k. in_dims (dims ?t) b k 0 \<longrightarrow> log s' b k =
          (if b = bank \<and> k = blk then log ?t b k @ [p] else log ?t b k))"
    by (rule wr_next) (use t assms in auto)
  then show ?thesis by auto
qed

end

end
