(* ===== verification/Bytes.thy ===== *)
theory Bytes
  imports Prelude
begin

text \<open>
  Arrays of bytes and the words in them, for the parts of the kernel that look at the same memory
  both ways: blocks on disk and physical memory.
\<close>

type_synonym bytes = "nat \<Rightarrow> u8"
type_synonym u16 = "16 word"

section \<open>Words in bytes\<close>

text \<open>The \<open>uint\<close> and the \<open>short\<close> that begin at a byte, least significant byte first.\<close>

definition load32 :: "bytes \<Rightarrow> nat \<Rightarrow> u32" where
  "load32 b i = ucast (b i) OR push_bit 8 (ucast (b (i + 1))) OR push_bit 16 (ucast (b (i + 2)))
     OR push_bit 24 (ucast (b (i + 3)))"

definition store32 :: "bytes \<Rightarrow> nat \<Rightarrow> u32 \<Rightarrow> bytes" where
  "store32 b i v = b(i := ucast v, i + 1 := ucast (drop_bit 8 v), i + 2 := ucast (drop_bit 16 v),
     i + 3 := ucast (drop_bit 24 v))"

definition load16 :: "bytes \<Rightarrow> nat \<Rightarrow> u16" where
  "load16 b i = ucast (b i) OR push_bit 8 (ucast (b (i + 1)))"

definition store16 :: "bytes \<Rightarrow> nat \<Rightarrow> u16 \<Rightarrow> bytes" where
  "store16 b i v = b(i := ucast v, i + 1 := ucast (drop_bit 8 v))"

text \<open>\<open>memmove\<close> of \<open>n\<close> bytes from the byte \<open>j\<close> of \<open>src\<close> to the byte \<open>i\<close> of \<open>dst\<close>.\<close>

definition memmove :: "bytes \<Rightarrow> nat \<Rightarrow> bytes \<Rightarrow> nat \<Rightarrow> nat \<Rightarrow> bytes" where
  "memmove dst i src j n = (\<lambda>k. if i \<le> k \<and> k < i + n then src (j + (k - i)) else dst k)"

section \<open>Loading and storing\<close>

lemma load_store32_same [simp]: "load32 (store32 b i v) i = v"
proof (rule bit_word_eqI)
  fix n assume n: "n < LENGTH(32)"
  then consider "n < 8" | "8 \<le> n" "n < 16" | "16 \<le> n" "n < 24" | "24 \<le> n" "n < 32" by fastforce
  then show "bit (load32 (store32 b i v) i) n \<longleftrightarrow> bit v n"
    by cases (simp_all add: load32_def store32_def bit_simps, linarith+)
qed

lemma load_store32_other:
  assumes "i + 4 \<le> j \<or> j + 4 \<le> i"
  shows "load32 (store32 b i v) j = load32 b j"
proof -
  have "store32 b i v (j + k) = b (j + k)" if "k < 4" for k
    using assms that by (auto simp: store32_def)
  from this [of 0] this [of 1] this [of 2] this [of 3] show ?thesis by (simp add: load32_def)
qed

lemma load_store_word: "load32 (store32 b (4 * i) v) (4 * j) = (if i = j then v else load32 b (4 * j))"
proof (cases "i = j")
  case False
  then have "4 * i + 4 \<le> 4 * j \<or> 4 * j + 4 \<le> 4 * i" by linarith
  from load_store32_other [OF this] False show ?thesis by simp
qed simp

lemma load32_cong: "(\<And>k. i \<le> k \<Longrightarrow> k < i + 4 \<Longrightarrow> b k = c k) \<Longrightarrow> load32 b i = load32 c i"
  by (simp add: load32_def)

lemma load16_cong: "(\<And>k. i \<le> k \<Longrightarrow> k < i + 2 \<Longrightarrow> b k = c k) \<Longrightarrow> load16 b i = load16 c i"
  by (simp add: load16_def)

lemma load_store16_same [simp]: "load16 (store16 b i v) i = v"
proof (rule bit_word_eqI)
  fix n assume n: "n < LENGTH(16)"
  then consider "n < 8" | "8 \<le> n" "n < 16" by fastforce
  then show "bit (load16 (store16 b i v) i) n \<longleftrightarrow> bit v n"
    by cases (simp_all add: load16_def store16_def bit_simps, linarith+)
qed

lemma halves: "ucast (ucast v :: u8) OR push_bit 8 (ucast (ucast (drop_bit 8 v) :: u8)) = (v :: u16)"
  using load_store16_same [of "\<lambda>_. 0" 0 v] by (simp add: load16_def store16_def del: load_store16_same)

lemma store32_other: "k < i \<or> i + 4 \<le> k \<Longrightarrow> store32 b i v k = b k"
  by (auto simp: store32_def)

lemma store16_other: "k < i \<or> i + 2 \<le> k \<Longrightarrow> store16 b i v k = b k"
  by (auto simp: store16_def)

lemma fold_store_other:
  "k < i \<or> i + 4 * n \<le> k \<Longrightarrow> fold (\<lambda>j b. store32 b (i + 4 * j) (f j)) [0..<n] b k = b k"
  by (induction n) (auto simp: store32_other)

lemma fold_store_at:
  assumes "j < n"
  shows "load32 (fold (\<lambda>j b. store32 b (i + 4 * j) (f j)) [0..<n] b) (i + 4 * j) = f j"
  using assms
proof (induction n)
  case (Suc n)
  let ?b = "fold (\<lambda>j b. store32 b (i + 4 * j) (f j)) [0..<n] b"
  show ?case
  proof (cases "j = n")
    case False
    have "load32 (store32 ?b (i + 4 * n) (f n)) (i + 4 * j) = load32 ?b (i + 4 * j)"
      using False Suc.prems by (intro load_store32_other) simp
    then show ?thesis using Suc False by simp
  qed simp
qed simp

end
