(* ===== verification/Nand.thy ===== *)
theory Nand
  imports Prelude
begin

text \<open>
  The NAND flash simulator of labs 2 to 5, \<open>3-2/EmbeddedSul/HW2/HW2_Submit/nand.c\<close>: one flat
  array of pages with a written flag each and, for every block, the index of the next page
  to program. The globals are the record \<open>nand_state\<close>; \<open>data\<close> and \<open>spare\<close>, which the C code
  passes by pointer, are passed as values and returned where the code writes through them.
  The state is a finite device exactly when \<open>nand_ok\<close> holds, and then it stands for one log
  of programmed pages per block (\<open>nand_log\<close>).
\<close>

section \<open>State\<close>

record nand_page =
  pg_data :: "u32 list"   \<comment> \<open>\<open>u32 data[8]\<close>\<close>
  pg_spare :: u32

record nand_state =
  nand_mem :: "nat \<Rightarrow> nand_page"   \<comment> \<open>\<open>struct Page *nand\<close>\<close>
  iswritten :: "nat \<Rightarrow> int"
  blk_index :: "nat \<Rightarrow> int"
  NBANKS :: int
  NBLKS :: int
  NPAGES :: int

abbreviation (input) "NAND_SUCCESS \<equiv> (0 :: int)"
abbreviation (input) "NAND_ERR_INVALID \<equiv> (-1 :: int)"
abbreviation (input) "NAND_ERR_OVERWRITE \<equiv> (-2 :: int)"
abbreviation (input) "NAND_ERR_POSITION \<equiv> (-3 :: int)"
abbreviation (input) "NAND_ERR_EMPTY \<equiv> (-4 :: int)"

section \<open>Operations\<close>

text \<open>
  \<open>malloc\<close> leaves the pages with arbitrary contents: \<open>junk\<close> is what it returns. The two
  \<open>memset\<close>s clear the flags and the indices.
\<close>

definition nand_init ::
  "(nat \<Rightarrow> nand_page) \<Rightarrow> int \<Rightarrow> int \<Rightarrow> int \<Rightarrow> nand_state \<Rightarrow> nand_state \<times> int" where
  "nand_init junk nbanks nblks npages st =
     (if nbanks \<le> 0 \<or> nblks \<le> 0 \<or> npages \<le> 0 then (st, NAND_ERR_INVALID)
      else (\<lparr>nand_mem = junk, iswritten = (\<lambda>_. 0), blk_index = (\<lambda>_. 0),
             NBANKS = nbanks, NBLKS = nblks, NPAGES = npages\<rparr>, NAND_SUCCESS))"

definition page_idx :: "nand_state \<Rightarrow> int \<Rightarrow> int \<Rightarrow> int \<Rightarrow> nat" where
  "page_idx st bank blk page = nat (bank * (NBLKS st * NPAGES st) + blk * NPAGES st + page)"

definition blk_idx :: "nand_state \<Rightarrow> int \<Rightarrow> int \<Rightarrow> nat" where
  "blk_idx st bank blk = nat (bank * NBLKS st + blk)"

definition nand_invalid :: "nand_state \<Rightarrow> int \<Rightarrow> int \<Rightarrow> int \<Rightarrow> bool" where
  "nand_invalid st bank blk page \<longleftrightarrow>
     bank \<ge> NBANKS st \<or> blk \<ge> NBLKS st \<or> page \<ge> NPAGES st \<or> bank < 0 \<or> blk < 0 \<or> page < 0"

definition nand_write ::
  "nand_state \<Rightarrow> int \<Rightarrow> int \<Rightarrow> int \<Rightarrow> u32 list \<times> u32 \<Rightarrow> nand_state \<times> int" where
  "nand_write st bank blk page ds =
     (if nand_invalid st bank blk page then (st, NAND_ERR_INVALID)
      else
        let p = page_idx st bank blk page; k = blk_idx st bank blk in
        if blk_index st k \<noteq> page then (st, NAND_ERR_POSITION)
        else if iswritten st p \<noteq> 0 then (st, NAND_ERR_OVERWRITE)
        else
          (st\<lparr>blk_index := (blk_index st)(k := blk_index st k + 1),
              iswritten := (iswritten st)(p := 1),
              nand_mem := (nand_mem st)
                (p := \<lparr>pg_data = map (\<lambda>i. fst ds ! i) [0..<8], pg_spare = snd ds\<rparr>)\<rparr>,
           NAND_SUCCESS))"

definition nand_read ::
  "nand_state \<Rightarrow> int \<Rightarrow> int \<Rightarrow> int \<Rightarrow> u32 list \<times> u32 \<Rightarrow> (u32 list \<times> u32) \<times> int" where
  "nand_read st bank blk page buf =
     (if nand_invalid st bank blk page then (buf, NAND_ERR_INVALID)
      else
        let p = page_idx st bank blk page in
        if iswritten st p = 0 then (buf, NAND_ERR_EMPTY)
        else ((map (\<lambda>i. pg_data (nand_mem st p) ! i) [0..<8], pg_spare (nand_mem st p)),
              NAND_SUCCESS))"

definition nand_erase :: "nand_state \<Rightarrow> int \<Rightarrow> int \<Rightarrow> nand_state \<times> int" where
  "nand_erase st bank blk =
     (if bank \<ge> NBANKS st \<or> blk \<ge> NBLKS st \<or> bank < 0 \<or> blk < 0 then (st, NAND_ERR_INVALID)
      else
        let k = blk_idx st bank blk in
        if blk_index st k = 0 then (st, NAND_ERR_EMPTY)
        else
          (st\<lparr>blk_index := (blk_index st)(k := 0),
              iswritten := fold (\<lambda>i w. w(nat (int k * NPAGES st) + i := 0))
                [0..<nat (NPAGES st)] (iswritten st)\<rparr>,
           NAND_SUCCESS))"

section \<open>The device as one log per block\<close>

text \<open>
  \<open>nand_ok\<close>: the dimensions are positive, a block's next page index lies in the block, a
  page is flagged as written exactly when it lies below that index, and a written page
  holds eight words.
\<close>

definition nand_ok :: "nand_state \<Rightarrow> bool" where
  "nand_ok st \<longleftrightarrow> 0 < NBANKS st \<and> 0 < NBLKS st \<and> 0 < NPAGES st \<and>
     (\<forall>bank blk page. \<not> nand_invalid st bank blk page \<longrightarrow>
        0 \<le> blk_index st (blk_idx st bank blk) \<and>
        blk_index st (blk_idx st bank blk) \<le> NPAGES st \<and>
        (iswritten st (page_idx st bank blk page) \<noteq> 0
           \<longleftrightarrow> page < blk_index st (blk_idx st bank blk)) \<and>
        (page < blk_index st (blk_idx st bank blk)
           \<longrightarrow> length (pg_data (nand_mem st (page_idx st bank blk page))) = 8))"

definition nand_dims :: "nand_state \<Rightarrow> int \<times> int \<times> int" where
  "nand_dims st = (NBANKS st, NBLKS st, NPAGES st)"

definition nand_log :: "nand_state \<Rightarrow> int \<Rightarrow> int \<Rightarrow> (u32 list \<times> u32) list" where
  "nand_log st bank blk =
     map (\<lambda>i. let p = nand_mem st (page_idx st bank blk (int i)) in (pg_data p, pg_spare p))
       [0..<nat (blk_index st (blk_idx st bank blk))]"

definition page_good :: "u32 list \<times> u32 \<Rightarrow> bool" where
  "page_good p \<longleftrightarrow> length (fst p) = 8"

lemma in_dims_nand: "in_dims (nand_dims st) bank blk page \<longleftrightarrow> \<not> nand_invalid st bank blk page"
  by (auto simp: in_dims_def nand_dims_def nand_invalid_def)

lemma nand_okD:
  assumes "nand_ok st" "\<not> nand_invalid st bank blk page"
  shows "0 \<le> blk_index st (blk_idx st bank blk)"
    and "blk_index st (blk_idx st bank blk) \<le> NPAGES st"
    and "iswritten st (page_idx st bank blk page) \<noteq> 0
           \<longleftrightarrow> page < blk_index st (blk_idx st bank blk)"
    and "page < blk_index st (blk_idx st bank blk)
           \<Longrightarrow> length (pg_data (nand_mem st (page_idx st bank blk page))) = 8"
  using assms by (auto simp: nand_ok_def)

text \<open>Two valid addresses have the same index only if they are the same address.\<close>

lemma valid_nats:
  assumes "\<not> nand_invalid st b k p"
  obtains bn kn pn kk pp where "b = int bn" "k = int kn" "p = int pn"
    "NBLKS st = int kk" "NPAGES st = int pp" "kn < kk" "pn < pp"
proof -
  have "0 \<le> b" "0 \<le> k" "0 \<le> p" "0 \<le> NBLKS st" "0 \<le> NPAGES st" "k < NBLKS st" "p < NPAGES st"
    using assms by (auto simp: nand_invalid_def)
  then show thesis using that [of "nat b" "nat k" "nat p" "nat (NBLKS st)" "nat (NPAGES st)"] by simp
qed

lemma blk_idx_inj:
  assumes v: "\<not> nand_invalid st b k p" and v': "\<not> nand_invalid st b' k' p'"
    and eq: "blk_idx st b k = blk_idx st b' k'"
  shows "b = b' \<and> k = k'"
proof -
  obtain bn kn kk where n: "b = int bn" "k = int kn" "NBLKS st = int kk" "kn < kk"
    using v by (auto elim: valid_nats)
  obtain bn' kn' kk' where n': "b' = int bn'" "k' = int kn'" "NBLKS st = int kk'" "kn' < kk'"
    using v' by (auto elim: valid_nats)
  have "bn * kk + kn = bn' * kk + kn'"
    using eq n n' by (simp add: blk_idx_def flip: of_nat_mult of_nat_add)
  with n n' show ?thesis using row_major_inj [of bn kk kn bn' kn'] by simp
qed

lemma page_idx_blk_idx:
  assumes "\<not> nand_invalid st b k p"
  shows "page_idx st b k p = blk_idx st b k * nat (NPAGES st) + nat p"
proof -
  obtain bn kn pn kk pp where n: "b = int bn" "k = int kn" "p = int pn"
    "NBLKS st = int kk" "NPAGES st = int pp"
    using assms by (auto elim: valid_nats)
  show ?thesis
    unfolding page_idx_def blk_idx_def n
    by (simp add: algebra_simps flip: of_nat_mult of_nat_add)
qed

lemma page_idx_inj:
  assumes "\<not> nand_invalid st b k p" "\<not> nand_invalid st b' k' p'"
  shows "page_idx st b k p = page_idx st b' k' p' \<longleftrightarrow> b = b' \<and> k = k' \<and> p = p'"
proof
  assume eq: "page_idx st b k p = page_idx st b' k' p'"
  have "blk_idx st b k = blk_idx st b' k'" "nat p = nat p'"
    using row_major_inj [of "blk_idx st b k" "nat (NPAGES st)" "nat p"
        "blk_idx st b' k'" "nat p'"] eq assms
    by (auto simp: page_idx_blk_idx nand_invalid_def)
  then show "b = b' \<and> k = k' \<and> p = p'"
    using blk_idx_inj [OF assms] assms by (auto simp: nand_invalid_def)
qed auto

lemma length_nand_log:
  "nand_ok st \<Longrightarrow> \<not> nand_invalid st bank blk page \<Longrightarrow>
     int (length (nand_log st bank blk)) = blk_index st (blk_idx st bank blk)"
  by (simp add: nand_log_def nand_okD(1))

lemma nand_invalid_0: "\<not> nand_invalid st bank blk page \<Longrightarrow> \<not> nand_invalid st bank blk 0"
  by (auto simp: nand_invalid_def)

section \<open>Every operation keeps the device well-formed and acts on the logs\<close>

lemma idx_update [simp]:
  "page_idx (st\<lparr>blk_index := a, iswritten := w, nand_mem := m\<rparr>) = page_idx st"
  "page_idx (st\<lparr>blk_index := a, iswritten := w\<rparr>) = page_idx st"
  "blk_idx (st\<lparr>blk_index := a, iswritten := w, nand_mem := m\<rparr>) = blk_idx st"
  "blk_idx (st\<lparr>blk_index := a, iswritten := w\<rparr>) = blk_idx st"
  "nand_invalid (st\<lparr>blk_index := a, iswritten := w, nand_mem := m\<rparr>) = nand_invalid st"
  "nand_invalid (st\<lparr>blk_index := a, iswritten := w\<rparr>) = nand_invalid st"
  "nand_dims (st\<lparr>blk_index := a, iswritten := w, nand_mem := m\<rparr>) = nand_dims st"
  "nand_dims (st\<lparr>blk_index := a, iswritten := w\<rparr>) = nand_dims st"
  by (auto simp: page_idx_def blk_idx_def nand_invalid_def nand_dims_def fun_eq_iff)

lemma copy8: "length d = 8 \<Longrightarrow> map (\<lambda>i. d ! i) [0..<8] = d"
  using map_nth [of d] by simp

lemma nand_init_ok:
  "0 < nb \<Longrightarrow> 0 < nk \<Longrightarrow> 0 < np \<Longrightarrow> nand_ok (fst (nand_init junk nb nk np st))"
  by (auto simp: nand_ok_def nand_init_def nand_invalid_def)

lemma nand_init_log: "0 < nb \<Longrightarrow> 0 < nk \<Longrightarrow> 0 < np \<Longrightarrow> nand_log (fst (nand_init junk nb nk np st)) b k = []"
  by (simp add: nand_log_def nand_init_def)

text \<open>Programming the next page of a block.\<close>

lemma nand_write_next:
  assumes ok: "nand_ok st" and good: "page_good p" and v: "\<not> nand_invalid st bank blk page"
    and nxt: "page = blk_index st (blk_idx st bank blk)"
  obtains st' where "nand_write st bank blk page p = (st', 0)" "nand_ok st'"
    "nand_dims st' = nand_dims st"
    "\<And>b k. \<not> nand_invalid st b k 0 \<Longrightarrow> nand_log st' b k =
       (if b = bank \<and> k = blk then nand_log st b k @ [p] else nand_log st b k)"
proof -
  let ?pi = "page_idx st bank blk page" and ?k = "blk_idx st bank blk"
  define st' where "st' = st\<lparr>blk_index := (blk_index st)(?k := blk_index st ?k + 1),
              iswritten := (iswritten st)(?pi := 1),
              nand_mem := (nand_mem st)(?pi := \<lparr>pg_data = fst p, pg_spare = snd p\<rparr>)\<rparr>"
  have c: "map (\<lambda>i. fst p ! i) [0..<8] = fst p"
    using good copy8 by (simp add: page_good_def)
  have unw: "iswritten st ?pi = 0" using nand_okD(3) [OF ok v] nxt by simp
  have "nand_write st bank blk page p = (st', 0)"
    unfolding nand_write_def Let_def using v nxt unw
    by (simp only: c if_False if_True st'_def simp_thms)
  moreover have len8: "length (fst p) = 8" using good by (simp add: page_good_def)
  have inv: "nand_invalid st' = nand_invalid st" and pi: "page_idx st' = page_idx st"
    and bi: "blk_idx st' = blk_idx st" and dims: "nand_dims st' = nand_dims st"
    by (simp_all add: st'_def)
  have fields: "blk_index st' = (blk_index st)(?k := page + 1)"
    "iswritten st' = (iswritten st)(?pi := 1)"
    "nand_mem st' = (nand_mem st)(?pi := \<lparr>pg_data = fst p, pg_spare = snd p\<rparr>)"
    by (simp_all add: st'_def nxt)
  have blk_index': "\<not> nand_invalid st b k q \<Longrightarrow> blk_index st' (blk_idx st b k) =
      (if b = bank \<and> k = blk then page + 1 else blk_index st (blk_idx st b k))" for b k q
    using blk_idx_inj [OF v, of b k q] by (auto simp: fields(1))
  have mem': "\<not> nand_invalid st b k q \<Longrightarrow> nand_mem st' (page_idx st b k q) =
      (if b = bank \<and> k = blk \<and> q = page then \<lparr>pg_data = fst p, pg_spare = snd p\<rparr>
       else nand_mem st (page_idx st b k q))" for b k q
    using page_idx_inj [OF v, of b k q] by (auto simp: fields(2,3))
  have wr': "\<not> nand_invalid st b k q \<Longrightarrow> iswritten st' (page_idx st b k q) =
      (if b = bank \<and> k = blk \<and> q = page then 1 else iswritten st (page_idx st b k q))" for b k q
    using page_idx_inj [OF v, of b k q] by (auto simp: fields(2,3))
  have pos: "0 < NBANKS st" "0 < NBLKS st" "0 < NPAGES st" and NP: "NPAGES st' = NPAGES st"
    "NBLKS st' = NBLKS st" "NBANKS st' = NBANKS st"
    using ok by (auto simp: nand_ok_def st'_def)
  have pg: "0 \<le> page" "page < NPAGES st" using v by (auto simp: nand_invalid_def)
  have "nand_ok st'"
    unfolding nand_ok_def inv pi bi NP
  proof (intro conjI allI impI)
    fix b k q assume w: "\<not> nand_invalid st b k q"
    note old = nand_okD [OF ok w]
    show "0 \<le> blk_index st' (blk_idx st b k)" "blk_index st' (blk_idx st b k) \<le> NPAGES st"
      using blk_index' [OF w] old(1,2) pg by auto
    show "(iswritten st' (page_idx st b k q) \<noteq> 0) = (q < blk_index st' (blk_idx st b k))"
      using wr' [OF w] blk_index' [OF w] old(3) nxt by auto
    assume "q < blk_index st' (blk_idx st b k)"
    then show "length (pg_data (nand_mem st' (page_idx st b k q))) = 8"
      using mem' [OF w] blk_index' [OF w] old(4) nxt len8 by (auto split: if_splits)
  qed (use pos in auto)
  moreover have "nand_log st' b k =
      (if b = bank \<and> k = blk then nand_log st b k @ [p] else nand_log st b k)"
    if w: "\<not> nand_invalid st b k 0" for b k
  proof -
    have bnd: "blk_index st (blk_idx st b k) \<le> NPAGES st" using nand_okD(2) [OF ok w] .
    have same: "nand_mem st' (page_idx st b k (int i)) = nand_mem st (page_idx st b k (int i))"
      if "i < nat (blk_index st (blk_idx st b k))" for i
    proof -
      have v': "\<not> nand_invalid st b k (int i)" using w that bnd by (auto simp: nand_invalid_def)
      have ne: "\<not> (b = bank \<and> k = blk \<and> int i = page)" using nxt that by auto
      show ?thesis unfolding mem' [OF v'] if_not_P [OF ne] ..
    qed
    show ?thesis
    proof (cases "b = bank \<and> k = blk")
      case True
      then have "nat (page + 1) = Suc (nat page)" using pg by simp
      with True show ?thesis
        using blk_index' [OF w] same nxt mem' [OF v] pg
        by (simp add: nand_log_def pi bi Let_def)
    next
      case False
      have "blk_index st' (blk_idx st b k) = blk_index st (blk_idx st b k)"
        unfolding blk_index' [OF w] if_not_P [OF False] ..
      then show ?thesis
        unfolding if_not_P [OF False] using same by (simp add: nand_log_def pi bi Let_def)
    qed
  qed
  ultimately show ?thesis using that dims by blast
qed

text \<open>
  Any other page of the block is refused and the device is unchanged. In a well-formed device
  the code is always \<open>NAND_ERR_POSITION\<close>: the test of the position comes first, and a page that
  is already written is never at the position.
\<close>

lemma nand_write_refused:
  assumes "nand_ok st" "\<not> nand_invalid st bank blk page"
    and "page \<noteq> blk_index st (blk_idx st bank blk)"
  shows "nand_write st bank blk page p = (st, NAND_ERR_POSITION)"
  using assms by (simp add: nand_write_def Let_def)

lemma nand_write_invalid:
  "nand_invalid st bank blk page \<Longrightarrow> nand_write st bank blk page p = (st, NAND_ERR_INVALID)"
  by (simp add: nand_write_def)

lemma nand_read_log:
  assumes ok: "nand_ok st" and v: "\<not> nand_invalid st bank blk page"
    and w: "page < blk_index st (blk_idx st bank blk)"
  shows "nand_read st bank blk page buf = (nand_log st bank blk ! nat page, 0)"
proof -
  note facts = nand_okD [OF ok v]
  have pg: "0 \<le> page" using v by (simp add: nand_invalid_def)
  have "iswritten st (page_idx st bank blk page) \<noteq> 0" using facts(3) w by simp
  with v have "nand_read st bank blk page buf =
      ((pg_data (nand_mem st (page_idx st bank blk page)),
        pg_spare (nand_mem st (page_idx st bank blk page))), 0)"
    by (simp add: nand_read_def Let_def copy8 [OF facts(4) [OF w]])
  moreover have "nat page < nat (blk_index st (blk_idx st bank blk))" using w pg by simp
  ultimately show ?thesis using pg by (simp add: nand_log_def Let_def)
qed

lemma nand_log_good:
  assumes ok: "nand_ok st" and v: "\<not> nand_invalid st bank blk 0" and p: "p \<in> set (nand_log st bank blk)"
  shows "page_good p"
proof -
  obtain i where i: "i < nat (blk_index st (blk_idx st bank blk))"
    "p = (pg_data (nand_mem st (page_idx st bank blk (int i))),
          pg_spare (nand_mem st (page_idx st bank blk (int i))))"
    using p by (auto simp: nand_log_def Let_def)
  have "\<not> nand_invalid st bank blk (int i)"
    using v i(1) nand_okD(2) [OF ok v] by (auto simp: nand_invalid_def)
  with i nand_okD(4) [OF ok this] show ?thesis by (simp add: page_good_def)
qed

lemma nand_read_unwritten:
  assumes "nand_ok st" "\<not> nand_invalid st bank blk page"
    and "blk_index st (blk_idx st bank blk) \<le> page"
  shows "nand_read st bank blk page buf = (buf, NAND_ERR_EMPTY)"
  using assms nand_okD(3) [OF assms(1,2)] by (simp add: nand_read_def Let_def)

lemma fold_clear:
  "fold (\<lambda>i w. w(f i := (0 :: int))) xs w0 j = (if j \<in> f ` set xs then 0 else w0 j)"
  by (induction xs arbitrary: w0) auto

lemma nand_erase_blk:
  assumes ok: "nand_ok st" and v: "\<not> nand_invalid st bank blk 0"
  shows "nand_ok (fst (nand_erase st bank blk)) \<and>
    nand_dims (fst (nand_erase st bank blk)) = nand_dims st \<and>
    (\<forall>b k. \<not> nand_invalid st b k 0 \<longrightarrow> nand_log (fst (nand_erase st bank blk)) b k =
      (if b = bank \<and> k = blk then [] else nand_log st b k))"
proof (cases "blk_index st (blk_idx st bank blk) = 0")
  case True
  then have "fst (nand_erase st bank blk) = st" by (simp add: nand_erase_def Let_def)
  with True ok show ?thesis by (simp add: nand_log_def)
next
  case False
  let ?k = "blk_idx st bank blk"
  define w where "w = fold (\<lambda>i w. w(nat (int ?k * NPAGES st) + i := 0))
    [0..<nat (NPAGES st)] (iswritten st)"
  define st' where "st' = st\<lparr>blk_index := (blk_index st)(?k := 0), iswritten := w\<rparr>"
  have st': "fst (nand_erase st bank blk) = st'"
    using v False by (simp add: nand_erase_def nand_invalid_def Let_def st'_def w_def)
  have fields: "blk_index st' = (blk_index st)(?k := 0)" "iswritten st' = w"
    "nand_mem st' = nand_mem st" "NPAGES st' = NPAGES st" "NBANKS st' = NBANKS st"
    "NBLKS st' = NBLKS st" and idx: "page_idx st' = page_idx st" "blk_idx st' = blk_idx st"
    "nand_invalid st' = nand_invalid st" and dims: "nand_dims st' = nand_dims st"
    by (simp_all add: st'_def)
  have blk': "\<not> nand_invalid st b k q \<Longrightarrow> blk_index st' (blk_idx st b k) =
      (if b = bank \<and> k = blk then 0 else blk_index st (blk_idx st b k))" for b k q
    using blk_idx_inj [OF v, of b k q] by (auto simp: fields(1))
  have wr': "iswritten st' (page_idx st b k q) =
      (if b = bank \<and> k = blk then 0 else iswritten st (page_idx st b k q))"
    if q: "\<not> nand_invalid st b k q" for b k q
  proof -
    have n: "nat (int ?k * NPAGES st) = ?k * nat (NPAGES st)" by (simp add: nat_mult_distrib)
    have qP: "nat q < nat (NPAGES st)" "0 \<le> q" using q by (auto simp: nand_invalid_def)
    have "page_idx st b k q \<in> (\<lambda>i. ?k * nat (NPAGES st) + i) ` set [0..<nat (NPAGES st)]
        \<longleftrightarrow> b = bank \<and> k = blk"
    proof
      assume "page_idx st b k q \<in> (\<lambda>i. ?k * nat (NPAGES st) + i) ` set [0..<nat (NPAGES st)]"
      then obtain i where "i < nat (NPAGES st)"
        "blk_idx st b k * nat (NPAGES st) + nat q = ?k * nat (NPAGES st) + i"
        unfolding page_idx_blk_idx [OF q] by fastforce
      then have "blk_idx st b k = ?k" using row_major_inj(1) qP by blast
      with blk_idx_inj [OF q v] show "b = bank \<and> k = blk" by simp
    next
      assume "b = bank \<and> k = blk"
      then show "page_idx st b k q \<in> (\<lambda>i. ?k * nat (NPAGES st) + i) ` set [0..<nat (NPAGES st)]"
        using qP unfolding page_idx_blk_idx [OF q] by auto
    qed
    then show ?thesis by (simp only: fields(2) w_def n fold_clear)
  qed
  have "nand_ok st'"
    unfolding nand_ok_def idx fields(3-6)
  proof (intro conjI allI impI)
    fix b k q assume q: "\<not> nand_invalid st b k q"
    note old = nand_okD [OF ok q]
    have "0 \<le> q" "q < NPAGES st" using q by (auto simp: nand_invalid_def)
    then show "0 \<le> blk_index st' (blk_idx st b k)" "blk_index st' (blk_idx st b k) \<le> NPAGES st"
      using blk' [OF q] old(1,2) by auto
    show "(iswritten st' (page_idx st b k q) \<noteq> 0) = (q < blk_index st' (blk_idx st b k))"
      using wr' [OF q] blk' [OF q] old(3) \<open>0 \<le> q\<close> by auto
    assume "q < blk_index st' (blk_idx st b k)"
    then show "length (pg_data (nand_mem st (page_idx st b k q))) = 8"
      using blk' [OF q] old(4) \<open>0 \<le> q\<close> by (auto split: if_splits)
  qed (use ok in \<open>auto simp: nand_ok_def\<close>)
  moreover have "nand_log st' b k = (if b = bank \<and> k = blk then [] else nand_log st b k)"
    if "\<not> nand_invalid st b k 0" for b k
    using blk' [OF that] by (simp add: nand_log_def idx fields(3))
  ultimately show ?thesis by (simp add: st' dims)
qed

section \<open>The simulator is a flash device\<close>

interpretation nd: flash nand_ok nand_dims nand_log page_good nand_write nand_read nand_erase
proof unfold_locales
  fix s p bank blk page
  assume a: "nand_ok s" "page_good p" "in_dims (nand_dims s) bank blk page"
    "page = int (length (nand_log s bank blk))"
  then have v: "\<not> nand_invalid s bank blk page" by (simp add: in_dims_nand)
  show "\<exists>s'. nand_write s bank blk page p = (s', 0) \<and> nand_ok s' \<and> nand_dims s' = nand_dims s \<and>
      (\<forall>b k. in_dims (nand_dims s) b k 0 \<longrightarrow> nand_log s' b k =
        (if b = bank \<and> k = blk then nand_log s b k @ [p] else nand_log s b k))"
    using nand_write_next [OF a(1,2) v] a(4) length_nand_log [OF a(1) v]
    by (metis in_dims_nand)
next
  fix s bank blk page buf
  assume a: "nand_ok s" "in_dims (nand_dims s) bank blk page"
    "page < int (length (nand_log s bank blk))"
  then show "nand_read s bank blk page buf = (nand_log s bank blk ! nat page, 0)"
    using nand_read_log length_nand_log in_dims_nand by metis
next
  fix s bank blk page p
  assume "nand_ok s" "in_dims (nand_dims s) bank blk page"
    "page \<noteq> int (length (nand_log s bank blk))"
  then show "fst (nand_write s bank blk page p) = s \<and> snd (nand_write s bank blk page p) < 0"
    using nand_write_refused length_nand_log by (simp add: in_dims_nand)
next
  fix s bank blk page buf
  assume "nand_ok s" "in_dims (nand_dims s) bank blk page"
    "int (length (nand_log s bank blk)) \<le> page"
  then show "nand_read s bank blk page buf = (buf, - 4)"
    using nand_read_unwritten length_nand_log by (simp add: in_dims_nand)
next
  fix s nb nk np bank blk
  assume a: "nand_ok s" "nand_dims s = (nb, nk, np)" "in_dims (nand_dims s) bank blk 0"
  then show "int (length (nand_log s bank blk)) \<le> np"
    using nand_okD(2) [of s bank blk 0] length_nand_log [of s bank blk 0]
    unfolding in_dims_nand by (simp add: nand_dims_def)
next
  fix s bank blk p
  assume "nand_ok s" "in_dims (nand_dims s) bank blk 0" "p \<in> set (nand_log s bank blk)"
  then show "page_good p" using nand_log_good by (simp add: in_dims_nand)
next
  fix s bank blk
  assume "nand_ok s" "in_dims (nand_dims s) bank blk 0"
  then show "nand_ok (fst (nand_erase s bank blk)) \<and>
      nand_dims (fst (nand_erase s bank blk)) = nand_dims s \<and>
      (\<forall>b k. in_dims (nand_dims s) b k 0 \<longrightarrow> nand_log (fst (nand_erase s bank blk)) b k =
        (if b = bank \<and> k = blk then [] else nand_log s b k))"
    using nand_erase_blk by (simp add: in_dims_nand)
qed


section \<open>The properties of the device\<close>

text \<open>A device of two blocks with four pages, after \<open>nand_init\<close>.\<close>

definition nand_dev :: nand_state where
  "nand_dev = fst (nand_init (\<lambda>_. \<lparr>pg_data = replicate 8 0, pg_spare = 0\<rparr>) 1 2 4
     \<lparr>nand_mem = (\<lambda>_. \<lparr>pg_data = [], pg_spare = 0\<rparr>), iswritten = (\<lambda>_. 0), blk_index = (\<lambda>_. 0),
      NBANKS = 0, NBLKS = 0, NPAGES = 0\<rparr>)"

lemma nand_dev_ok:
  "nand_ok nand_dev" "nand_dims nand_dev = (1, 2, 4)" "nand_log nand_dev b k = []"
  using nand_init_ok [of 1 2 4] nand_init_log [of 1 2 4]
  by (simp_all add: nand_dev_def) (simp add: nand_dims_def nand_init_def)

abbreviation page_a :: "u32 list \<times> u32" where "page_a \<equiv> ([1, 2, 3, 4, 5, 6, 7, 8], 9)"

text \<open>
  A page programmed at the next free position of its block is read back, data and spare,
  and reading it does not depend on what the caller's buffers held.
\<close>

theorem nand_program_readback:
  assumes "nand_ok st" "page_good p" "in_dims (nand_dims st) bank blk page"
    and "page = int (length (nand_log st bank blk))"
  shows "snd (nand_write st bank blk page p) = 0 \<and>
    nand_read (fst (nand_write st bank blk page p)) bank blk page buf = (p, 0)"
  using nd.wr_next [OF assms] nd.wr_rd [OF assms] by auto

lemma nand_program_readback_witness:
  "nand_read (fst (nand_write nand_dev 0 1 0 page_a)) 0 1 0 ([], 0) = (page_a, 0)"
  by (rule nand_program_readback [THEN conjunct2]) (simp_all add: nand_dev_ok page_good_def in_dims_def)

text \<open>
  Flash has no overwrite: programming a page that is not the next one of its block fails
  with a negative code and changes nothing; in particular programming a page twice.
\<close>

theorem nand_no_overwrite:
  assumes "nand_ok st" "in_dims (nand_dims st) bank blk page"
    and "page \<noteq> int (length (nand_log st bank blk))"
  shows "fst (nand_write st bank blk page p) = st \<and> snd (nand_write st bank blk page p) < 0"
  using nd.wr_other [OF assms] by blast

lemma nand_no_overwrite_witness:
  "fst (nand_write nand_dev 0 1 3 page_a) = nand_dev"
  using nand_no_overwrite [OF nand_dev_ok(1), of 0 1 3 page_a] by (simp add: nand_dev_ok in_dims_def)

text \<open>
  Erasing empties exactly the block it names and keeps the device well formed, whether the
  block held pages or not; the first page of the block can then be programmed.
\<close>

theorem nand_erase_reuse:
  assumes "nand_ok st" "page_good p" "in_dims (nand_dims st) bank blk 0"
  shows "nand_ok (fst (nand_erase st bank blk)) \<and>
    (\<forall>b k. in_dims (nand_dims st) b k 0 \<longrightarrow> nand_log (fst (nand_erase st bank blk)) b k =
       (if b = bank \<and> k = blk then [] else nand_log st b k)) \<and>
    snd (nand_write (fst (nand_erase st bank blk)) bank blk 0 p) = 0"
  using nd.er_blk [OF assms(1,3)] nd.er_wr [OF assms] by blast

lemma nand_erase_reuse_witness:
  "snd (nand_write (fst (nand_erase (fst (nand_write nand_dev 0 1 0 page_a)) 0 1)) 0 1 0 page_a) = 0"
proof -
  obtain s where s: "nand_write nand_dev 0 1 0 page_a = (s, 0)" "nand_ok s" "nand_dims s = (1, 2, 4)"
    using nd.wr_next [OF nand_dev_ok(1), of page_a 0 1 0]
    by (auto simp: nand_dev_ok page_good_def in_dims_def)
  from nand_erase_reuse [OF s(2), of page_a 0 1] s show ?thesis by (simp add: page_good_def in_dims_def)
qed

end
