(* ===== verification/Ftl.thy ===== *)
theory Ftl
  imports Nand
begin

text \<open>
  The page-mapping flash translation layer of lab 2, \<open>3-2/EmbeddedSul/HW2/HW2_Submit/ftl.c\<close>,
  over the NAND simulator of theory \<open>Nand\<close>: the map from logical to physical pages, the
  greedy choice of a victim block, garbage collection and the write of one page. The macros
  of \<open>ftl.h\<close> that give the sizes are the record \<open>geom\<close> (the header is replaced for each
  test), the globals are the record \<open>ftl\<close>. Indices that the code only ever computes as
  non-negative are natural numbers; \<open>L2P\<close> holds integers because \<open>-1\<close> marks an unmapped
  page. An access outside an array gives the value \<open>None\<close>. Local arrays that the code does
  not initialise are the argument \<open>d0\<close>, so every result holds for any contents.
\<close>

section \<open>Sizes\<close>

record geom =
  N_BANKS :: nat
  BLKS_PER_BANK :: nat
  PAGES_PER_BLK :: nat

definition N_PPNS_PB :: "geom \<Rightarrow> nat" where
  "N_PPNS_PB g = BLKS_PER_BANK g * PAGES_PER_BLK g"

definition N_USER_BLOCKS_PB :: "geom \<Rightarrow> nat" where
  "N_USER_BLOCKS_PB g = (BLKS_PER_BANK g - 1) * 100 div (100 + 7)"

definition N_LPNS_PB :: "geom \<Rightarrow> nat" where
  "N_LPNS_PB g = N_USER_BLOCKS_PB g * PAGES_PER_BLK g"

definition N_LPNS :: "geom \<Rightarrow> nat" where
  "N_LPNS g = N_LPNS_PB g * N_BANKS g"

text \<open>The sizes \<open>ftl.h\<close> has, and what the code needs of any: the integers of the code fit.\<close>

definition lab2_geom :: geom where
  "lab2_geom = \<lparr>N_BANKS = 2, BLKS_PER_BANK = 8, PAGES_PER_BLK = 4\<rparr>"

definition wf_geom :: "geom \<Rightarrow> bool" where
  "wf_geom g \<longleftrightarrow> 0 < N_BANKS g \<and> 2 \<le> BLKS_PER_BANK g \<and> 0 < PAGES_PER_BLK g \<and>
     N_BANKS g * (BLKS_PER_BANK g * PAGES_PER_BLK g) * 8 < 2 ^ 31"

section \<open>State\<close>

text \<open>The counters of \<open>struct ftl_stats\<close>. They are unbounded here; the layer only adds to them.\<close>

record ftl_stats =
  gc_cnt :: int
  host_write :: int
  nand_writes :: int   \<comment> \<open>the field \<open>nand_write\<close>\<close>
  gc_write :: int

record ftl =
  nand :: nand_state
  L2P :: "nat \<Rightarrow> nat \<Rightarrow> int"       \<comment> \<open>\<open>L2P[N_BANKS][N_LPNS_PB]\<close>\<close>
  isValid :: "nat \<Rightarrow> nat \<Rightarrow> int"   \<comment> \<open>\<open>isValid[N_BANKS][N_PPNS_PB]\<close>\<close>
  next_ppn :: "nat \<Rightarrow> nat"
  gc_trigger_ppn :: "nat \<Rightarrow> nat"
  free_pblk :: "nat \<Rightarrow> nat"
  stats :: ftl_stats

section \<open>Choosing the victim\<close>

text \<open>
  Every index \<open>pblk * PAGES_PER_BLK + i\<close> of the two loops is inside \<open>isValid[bank]\<close>. The
  variable \<open>ret_pblk\<close> is not initialised; the first iteration always sets it, since a count
  is at least the initial maximum 0.
\<close>

definition pblk_invalid_cnt :: "geom \<Rightarrow> 'a ftl_scheme \<Rightarrow> nat \<Rightarrow> nat \<Rightarrow> nat" where
  "pblk_invalid_cnt g s bank pblk =
     fold (\<lambda>i c. if isValid s bank (pblk * PAGES_PER_BLK g + i) = 0 then c + 1 else c)
       [0..<PAGES_PER_BLK g] 0"

definition get_victim_pblk :: "geom \<Rightarrow> 'a ftl_scheme \<Rightarrow> nat \<Rightarrow> nat" where
  "get_victim_pblk g s bank =
     snd (fold (\<lambda>pblk (max_invalid_cnt, ret_pblk).
            let c = pblk_invalid_cnt g s bank pblk in
            if c \<ge> max_invalid_cnt then (c, pblk) else (max_invalid_cnt, ret_pblk))
          (rev [0..<BLKS_PER_BANK g]) (0, 0))"

section \<open>Garbage collection\<close>

text \<open>The body of the copy loop: page \<open>i\<close> of the victim, \<open>cnt\<close> pages copied so far.\<close>

definition gc_page ::
  "geom \<Rightarrow> u32 list \<times> u32 \<Rightarrow> nat \<Rightarrow> nat \<Rightarrow> nat \<Rightarrow> ftl \<times> nat \<Rightarrow> (ftl \<times> nat) option" where
  "gc_page g d0 bank victim_pblk i = (\<lambda>(s, cnt).
     do {
       v \<leftarrow> get2 (N_BANKS g) (N_PPNS_PB g) (isValid s)
              (int bank) (int (victim_pblk * PAGES_PER_BLK g + i));
       if v = 1 then do {
         let buf = fst (nand_read (nand s) (int bank) (int victim_pblk) (int i) d0);
         let n' = fst (nand_write (nand s) (int bank) (int (free_pblk s bank)) (int cnt) buf);
         l2p \<leftarrow> set2 (N_BANKS g) (N_LPNS_PB g) (L2P s) (int bank) (sint (snd buf))
                  (int (free_pblk s bank * PAGES_PER_BLK g + cnt));
         Some (s\<lparr>nand := n', L2P := l2p,
                 stats := (stats s)\<lparr>gc_write := gc_write (stats s) + 1\<rparr>\<rparr>, cnt + 1)
       } else Some (s, cnt)
     })"

definition garbage_collection :: "geom \<Rightarrow> u32 list \<times> u32 \<Rightarrow> nat \<Rightarrow> ftl \<Rightarrow> ftl option" where
  "garbage_collection g d0 bank s0 =
     (if bank \<ge> N_BANKS g then None
      else
        let s1 = s0\<lparr>stats := (stats s0)\<lparr>gc_cnt := gc_cnt (stats s0) + 1\<rparr>\<rparr>;
            victim_pblk = get_victim_pblk g s1 bank;
            victim_first_ppn = victim_pblk * PAGES_PER_BLK g;
            free_first_ppn = free_pblk s1 bank * PAGES_PER_BLK g
        in do {
          (s2, cnt) \<leftarrow> for_opt [0..<PAGES_PER_BLK g] (gc_page g d0 bank victim_pblk) (s1, 0);
          valid \<leftarrow> for_opt [0..<PAGES_PER_BLK g]
            (\<lambda>i a. set2 (N_BANKS g) (N_PPNS_PB g) a (int bank) (int (victim_first_ppn + i)) 1)
            (isValid s2);
          Some (s2\<lparr>isValid := valid,
                  next_ppn := (next_ppn s2)(bank := free_first_ppn + cnt),
                  gc_trigger_ppn := (gc_trigger_ppn s2)
                    (bank := free_first_ppn + PAGES_PER_BLK g),
                  nand := fst (nand_erase (nand s2) (int bank) (int victim_pblk)),
                  free_pblk := (free_pblk s2)(bank := victim_pblk)\<rparr>)
        })"

section \<open>Opening the device, writing one page\<close>

definition ftl_open :: "geom \<Rightarrow> (nat \<Rightarrow> nand_page) \<Rightarrow> ftl \<Rightarrow> ftl" where
  "ftl_open g junk s =
     s\<lparr>nand := fst (nand_init junk (int (N_BANKS g)) (int (BLKS_PER_BANK g))
                 (int (PAGES_PER_BLK g)) (nand s)),
       free_pblk := (\<lambda>b. if b < N_BANKS g then BLKS_PER_BANK g - 1 else free_pblk s b),
       L2P := (\<lambda>b l. if b < N_BANKS g \<and> l < N_LPNS_PB g then -1 else L2P s b l),
       isValid := (\<lambda>b p. if b < N_BANKS g \<and> p < N_PPNS_PB g then 1 else isValid s b p),
       next_ppn := (\<lambda>b. if b < N_BANKS g then 0 else next_ppn s b),
       gc_trigger_ppn := (\<lambda>b. if b < N_BANKS g then (BLKS_PER_BANK g - 1) * PAGES_PER_BLK g
                              else gc_trigger_ppn s b)\<rparr>"

text \<open>
  \<open>data\<close> is the page; the code passes the address of \<open>halved_lpn\<close>, a \<open>u32\<close>, as the spare.
\<close>

definition write_through_lpn ::
  "geom \<Rightarrow> u32 list \<times> u32 \<Rightarrow> int \<Rightarrow> int \<Rightarrow> u32 list \<Rightarrow> ftl \<Rightarrow> ftl option" where
  "write_through_lpn g d0 bank halved_lpn data s0 =
     (if \<not> (0 \<le> bank \<and> bank < int (N_BANKS g)) then None
      else
        let b = nat bank in
        do {
          s \<leftarrow> (if next_ppn s0 b = gc_trigger_ppn s0 b then garbage_collection g d0 b s0
                else Some s0);
          let ppn = next_ppn s b;
          old \<leftarrow> get2 (N_BANKS g) (N_LPNS_PB g) (L2P s) bank halved_lpn;
          valid \<leftarrow> (if old \<noteq> -1
                    then set2 (N_BANKS g) (N_PPNS_PB g) (isValid s) bank old 0
                    else Some (isValid s));
          l2p \<leftarrow> set2 (N_BANKS g) (N_LPNS_PB g) (L2P s) bank halved_lpn (int ppn);
          Some (s\<lparr>isValid := valid, L2P := l2p,
                  nand := fst (nand_write (nand s) bank (int (ppn div PAGES_PER_BLK g))
                            (int (ppn mod PAGES_PER_BLK g)) (data, word_of_int halved_lpn)),
                  stats := (stats s)\<lparr>nand_writes := nand_writes (stats s) + 1\<rparr>,
                  next_ppn := (next_ppn s)(b := next_ppn s b + 1)\<rparr>)
        })"

section \<open>The invariant\<close>

text \<open>
  The log of a block and the page at a physical page number. \<open>written\<close> pages are exactly
  those outside the free block and outside the range from \<open>next_ppn\<close> to \<open>gc_trigger_ppn\<close>
  that is still to be filled.
\<close>

definition blk_log :: "ftl \<Rightarrow> nat \<Rightarrow> nat \<Rightarrow> (u32 list \<times> u32) list" where
  "blk_log s b k = nand_log (nand s) (int b) (int k)"

definition pg_at :: "geom \<Rightarrow> ftl \<Rightarrow> nat \<Rightarrow> nat \<Rightarrow> u32 list \<times> u32" where
  "pg_at g s b ppn = blk_log s b (ppn div PAGES_PER_BLK g) ! (ppn mod PAGES_PER_BLK g)"

definition written :: "geom \<Rightarrow> ftl \<Rightarrow> nat \<Rightarrow> nat \<Rightarrow> bool" where
  "written g s b ppn \<longleftrightarrow> ppn < N_PPNS_PB g \<and>
     ppn mod PAGES_PER_BLK g < length (blk_log s b (ppn div PAGES_PER_BLK g))"

definition frontier_ok :: "geom \<Rightarrow> ftl \<Rightarrow> nat \<Rightarrow> bool" where
  "frontier_ok g s b \<longleftrightarrow>
     free_pblk s b < BLKS_PER_BANK g \<and>
     next_ppn s b \<le> gc_trigger_ppn s b \<and> gc_trigger_ppn s b \<le> N_PPNS_PB g \<and>
     PAGES_PER_BLK g dvd gc_trigger_ppn s b \<and>
     (\<forall>ppn < N_PPNS_PB g. written g s b ppn \<longleftrightarrow>
        ppn div PAGES_PER_BLK g \<noteq> free_pblk s b \<and>
        \<not> (next_ppn s b \<le> ppn \<and> ppn < gc_trigger_ppn s b)) \<and>
     (\<forall>ppn. next_ppn s b \<le> ppn \<longrightarrow> ppn < gc_trigger_ppn s b
        \<longrightarrow> ppn div PAGES_PER_BLK g \<noteq> free_pblk s b)"

definition mapping_ok :: "geom \<Rightarrow> ftl \<Rightarrow> nat \<Rightarrow> bool" where
  "mapping_ok g s b \<longleftrightarrow>
     (\<forall>l < N_LPNS_PB g. L2P s b l = -1 \<or>
        (\<exists>ppn. L2P s b l = int ppn \<and> written g s b ppn \<and> isValid s b ppn = 1 \<and>
               snd (pg_at g s b ppn) = word_of_nat l)) \<and>
     (\<forall>ppn < N_PPNS_PB g. isValid s b ppn = 0 \<or> isValid s b ppn = 1) \<and>
     (\<forall>ppn < N_PPNS_PB g. \<not> written g s b ppn \<longrightarrow> isValid s b ppn = 1) \<and>
     (\<forall>ppn < N_PPNS_PB g. written g s b ppn \<longrightarrow> isValid s b ppn = 1 \<longrightarrow>
        (\<exists>l < N_LPNS_PB g. L2P s b l = int ppn))"

definition ftl_ok :: "geom \<Rightarrow> ftl \<Rightarrow> bool" where
  "ftl_ok g s \<longleftrightarrow> nand_ok (nand s) \<and>
     nand_dims (nand s) = (int (N_BANKS g), int (BLKS_PER_BANK g), int (PAGES_PER_BLK g)) \<and>
     (\<forall>b < N_BANKS g. frontier_ok g s b \<and> mapping_ok g s b)"

text \<open>What the layer promises: a store of pages, each present or not.\<close>

definition page_of :: "geom \<Rightarrow> ftl \<Rightarrow> nat \<Rightarrow> nat \<Rightarrow> u32 list option" where
  "page_of g s b l = (if L2P s b l = -1 then None else Some (fst (pg_at g s b (nat (L2P s b l)))))"

end
