(* ===== verification/FtlGc.thy ===== *)
theory FtlGc
  imports Ftl
begin

text \<open>
  Garbage collection and the write of one page keep the invariant of theory \<open>Ftl\<close>, never
  leave an array, always free at least one page, and act on the pages as the abstract store
  says: collection changes none, a write changes the page it names.
\<close>

section \<open>Sizes and addresses\<close>

lemma lt28: "x * 8 < (2 :: nat) ^ 31 \<Longrightarrow> x < 2 ^ 28"
  by simp

lemma wf_geomD:
  assumes "wf_geom g"
  shows "0 < PAGES_PER_BLK g" "0 < N_BANKS g" "2 \<le> BLKS_PER_BANK g"
    "N_LPNS_PB g < (BLKS_PER_BANK g - 1) * PAGES_PER_BLK g"
    "N_PPNS_PB g < 2 ^ 28" "N_LPNS_PB g < 2 ^ 28"
proof -
  let ?B = "BLKS_PER_BANK g" and ?P = "PAGES_PER_BLK g" and ?N = "N_BANKS g"
  from assms show p: "0 < ?P" "0 < ?N" "2 \<le> ?B" by (auto simp: wf_geom_def)
  have u: "N_USER_BLOCKS_PB g < ?B - 1" using p(3) by (simp add: N_USER_BLOCKS_PB_def)
  then show l: "N_LPNS_PB g < (?B - 1) * ?P" using p(1) by (simp add: N_LPNS_PB_def)
  have "1 * (?B * ?P) \<le> ?N * (?B * ?P)" using p(2) by (intro mult_le_mono1) simp
  moreover have "?N * (?B * ?P) * 8 < 2 ^ 31" using assms unfolding wf_geom_def by blast
  then have "?N * (?B * ?P) < 2 ^ 28" by (rule lt28)
  ultimately show n: "N_PPNS_PB g < 2 ^ 28" unfolding N_PPNS_PB_def by linarith
  have "(?B - 1) * ?P \<le> ?B * ?P" by simp
  with l n show "N_LPNS_PB g < 2 ^ 28" unfolding N_PPNS_PB_def by linarith
qed

lemma sint_lpn: "wf_geom g \<Longrightarrow> l < N_LPNS_PB g \<Longrightarrow> sint (word_of_nat l :: u32) = int l"
  using wf_geomD(6) [of g] by (intro sint_of_nat_small) simp

lemma ppn_in: "k < BLKS_PER_BANK g \<Longrightarrow> p < PAGES_PER_BLK g \<Longrightarrow> k * PAGES_PER_BLK g + p < N_PPNS_PB g"
  by (simp add: N_PPNS_PB_def row_major_less)

lemma ppn_div: "wf_geom g \<Longrightarrow> ppn < N_PPNS_PB g \<Longrightarrow>
    ppn div PAGES_PER_BLK g < BLKS_PER_BANK g \<and> ppn mod PAGES_PER_BLK g < PAGES_PER_BLK g"
  using wf_geomD(1) [of g] by (simp add: N_PPNS_PB_def less_mult_imp_div_less)

abbreviation geom_dims :: "geom \<Rightarrow> int \<times> int \<times> int" where
  "geom_dims g \<equiv> (int (N_BANKS g), int (BLKS_PER_BANK g), int (PAGES_PER_BLK g))"

lemma in_geom:
  "b < N_BANKS g \<Longrightarrow> k < BLKS_PER_BANK g \<Longrightarrow> p < PAGES_PER_BLK g \<Longrightarrow>
     in_dims (geom_dims g) (int b) (int k) (int p)"
  by (simp add: in_dims_def)

lemma in_geom_nat:
  assumes "in_dims (geom_dims g) b k 0"
  obtains bn kn where "b = int bn" "k = int kn" "bn < N_BANKS g" "kn < BLKS_PER_BANK g"
proof (rule that [of "nat b" "nat k"])
  show "b = int (nat b)" "k = int (nat k)" "nat b < N_BANKS g" "nat k < BLKS_PER_BANK g"
    using assms by (auto simp: in_dims_def)
qed

text \<open>The device's facts at natural-number addresses, from its interface.\<close>

lemma log_write:
  assumes "nand_ok n" "nand_dims n = geom_dims g" "page_good p"
    and b: "b < N_BANKS g" and k: "k < BLKS_PER_BANK g" and q: "q < PAGES_PER_BLK g"
    and len: "length (nand_log n (int b) (int k)) = q"
  defines "n' \<equiv> fst (nand_write n (int b) (int k) (int q) p)"
  shows "nand_ok n'" "nand_dims n' = geom_dims g"
    "b' < N_BANKS g \<Longrightarrow> k' < BLKS_PER_BANK g \<Longrightarrow> nand_log n' (int b') (int k') =
       (if b' = b \<and> k' = k then nand_log n (int b) (int k) @ [p] else nand_log n (int b') (int k'))"
proof -
  obtain s' where s': "nand_write n (int b) (int k) (int q) p = (s', 0)" "nand_ok s'"
    "nand_dims s' = nand_dims n"
    "\<And>b' k'. in_dims (geom_dims g) b' k' 0 \<Longrightarrow> nand_log s' b' k' =
       (if b' = int b \<and> k' = int k then nand_log n b' k' @ [p] else nand_log n b' k')"
    using nd.wr_next [OF assms(1,3), of "int b" "int k" "int q"] in_geom [OF b k q] assms(2) len
    by metis
  then show "nand_ok n'" "nand_dims n' = geom_dims g" using assms(2) by (simp_all add: n'_def)
  assume "b' < N_BANKS g" "k' < BLKS_PER_BANK g"
  then show "nand_log n' (int b') (int k') =
       (if b' = b \<and> k' = k then nand_log n (int b) (int k) @ [p] else nand_log n (int b') (int k'))"
    using s'(4) [of "int b'" "int k'"] in_geom [of b' g k' 0] q by (simp add: n'_def s'(1))
qed

lemma log_read:
  assumes "nand_ok n" "nand_dims n = geom_dims g" "b < N_BANKS g" "k < BLKS_PER_BANK g"
    "q < PAGES_PER_BLK g" "q < length (nand_log n (int b) (int k))"
  shows "nand_read n (int b) (int k) (int q) d = (nand_log n (int b) (int k) ! q, 0)"
  using nd.rd_log [of n "int b" "int k" "int q" d] assms in_geom [of b g k q] by simp

lemma log_erase:
  assumes "nand_ok n" "nand_dims n = geom_dims g" "b < N_BANKS g" "k < BLKS_PER_BANK g"
    "0 < PAGES_PER_BLK g"
  defines "n' \<equiv> fst (nand_erase n (int b) (int k))"
  shows "nand_ok n'" "nand_dims n' = geom_dims g"
    "b' < N_BANKS g \<Longrightarrow> k' < BLKS_PER_BANK g \<Longrightarrow> nand_log n' (int b') (int k') =
       (if b' = b \<and> k' = k then [] else nand_log n (int b') (int k'))"
  using nd.er_blk [of n "int b" "int k"] in_geom [of b g k 0] in_geom [of b' g k' 0] assms
  by auto

lemma log_bound:
  assumes "nand_ok n" "nand_dims n = geom_dims g" "b < N_BANKS g" "k < BLKS_PER_BANK g"
    "0 < PAGES_PER_BLK g"
  shows "length (nand_log n (int b) (int k)) \<le> PAGES_PER_BLK g"
  using nd.log_len [of n _ _ _ "int b" "int k"] in_geom [of b g k 0] assms by force

lemma log_page_good:
  assumes "nand_ok n" "nand_dims n = geom_dims g" "b < N_BANKS g" "k < BLKS_PER_BANK g"
    "q < length (nand_log n (int b) (int k))" "0 < PAGES_PER_BLK g"
  shows "page_good (nand_log n (int b) (int k) ! q)"
  using nd.log_good [of n "int b" "int k"] in_geom [of b g k 0] assms by simp

section \<open>A bank's facts depend on that bank alone\<close>

lemma bank_cong:
  assumes "\<And>k. k < BLKS_PER_BANK g \<Longrightarrow> blk_log t b k = blk_log s b k"
    and "\<And>l. l < N_LPNS_PB g \<Longrightarrow> L2P t b l = L2P s b l" "isValid t b = isValid s b"
    and "next_ppn t b = next_ppn s b" "gc_trigger_ppn t b = gc_trigger_ppn s b"
    and "free_pblk t b = free_pblk s b" "wf_geom g"
  shows "frontier_ok g t b = frontier_ok g s b" "mapping_ok g t b = mapping_ok g s b"
proof -
  have w: "written g t b ppn = written g s b ppn" for ppn
    using assms(1) [of "ppn div PAGES_PER_BLK g"] ppn_div [OF assms(7), of ppn]
    by (auto simp: written_def)
  have p: "ppn < N_PPNS_PB g \<Longrightarrow> pg_at g t b ppn = pg_at g s b ppn" for ppn
    using assms(1) [of "ppn div PAGES_PER_BLK g"] ppn_div [OF assms(7), of ppn]
    by (simp add: pg_at_def)
  have wp: "written g s b ppn \<Longrightarrow> pg_at g t b ppn = pg_at g s b ppn" for ppn
    by (rule p) (simp add: written_def)
  have ex: "(\<exists>l < N_LPNS_PB g. L2P t b l = x) = (\<exists>l < N_LPNS_PB g. L2P s b l = x)" for x
    using assms(2) by auto
  show "frontier_ok g t b = frontier_ok g s b"
    by (simp add: frontier_ok_def w assms)
  show "mapping_ok g t b = mapping_ok g s b"
    unfolding mapping_ok_def w assms(3) unfolding ex by (auto simp: assms(2) wp)
qed

section \<open>The victim has an invalid page\<close>

lemma get_victim_pblk_max:
  assumes "wf_geom g"
  shows "get_victim_pblk g s b < BLKS_PER_BANK g"
    and "k < BLKS_PER_BANK g \<Longrightarrow> pblk_invalid_cnt g s b k \<le> pblk_invalid_cnt g s b (get_victim_pblk g s b)"
proof -
  let ?f = "fold (\<lambda>pblk (max_invalid_cnt, ret_pblk). let c = pblk_invalid_cnt g s b pblk in
      if c \<ge> max_invalid_cnt then (c, pblk) else (max_invalid_cnt, ret_pblk))
      (rev [0..<BLKS_PER_BANK g]) (0, 0)"
  obtain m v where mv: "?f = (m, v)" by fastforce
  then have v: "get_victim_pblk g s b = v" by (simp add: get_victim_pblk_def)
  have "0 < BLKS_PER_BANK g" using wf_geomD(3) [OF assms] by simp
  with argmax_fold [OF mv] have "v < BLKS_PER_BANK g \<and> pblk_invalid_cnt g s b v = m"
    and all: "\<forall>k < BLKS_PER_BANK g. pblk_invalid_cnt g s b k \<le> m" by auto
  then show "get_victim_pblk g s b < BLKS_PER_BANK g"
    and "k < BLKS_PER_BANK g \<Longrightarrow> pblk_invalid_cnt g s b k \<le> pblk_invalid_cnt g s b (get_victim_pblk g s b)"
    using v by auto
qed

lemma pblk_invalid_cnt_eq:
  "pblk_invalid_cnt g s b k =
     length (filter (\<lambda>i. isValid s b (k * PAGES_PER_BLK g + i) = 0) [0..<PAGES_PER_BLK g])"
  by (simp add: pblk_invalid_cnt_def fold_count)

lemma pblk_invalid_cnt_pos:
  "0 < pblk_invalid_cnt g s b k \<longleftrightarrow> (\<exists>i < PAGES_PER_BLK g. isValid s b (k * PAGES_PER_BLK g + i) = 0)"
  by (auto simp: pblk_invalid_cnt_eq filter_empty_conv)

text \<open>
  When collection starts, every block but the free one is full, and they hold more pages
  than there are logical pages: some page is not the image of any of these.
\<close>

lemma full_has_invalid:
  assumes g: "wf_geom g" and f: "frontier_ok g s b" and m: "mapping_ok g s b"
    and full: "next_ppn s b = gc_trigger_ppn s b"
  obtains ppn where "ppn < N_PPNS_PB g" "written g s b ppn" "isValid s b ppn = 0"
proof (rule ccontr)
  assume none: "\<not> thesis"
  let ?P = "PAGES_PER_BLK g" and ?f = "free_pblk s b"
  let ?W = "{..<N_PPNS_PB g} - {?f * ?P..<?f * ?P + ?P}"
  have P: "0 < ?P" using wf_geomD(1) [OF g] .
  have fB: "?f < BLKS_PER_BANK g" using f by (simp add: frontier_ok_def)
  have "?W \<subseteq> (\<lambda>l. nat (L2P s b l)) ` {..<N_LPNS_PB g}"
  proof
    fix ppn assume ppn: "ppn \<in> ?W"
    have "ppn div ?P \<noteq> ?f"
      using ppn P by (metis DiffE atLeastLessThan_iff div_mult_mod_eq le_add1 mod_less_divisor
          mult.commute nat_add_left_cancel_less)
    then have "written g s b ppn" using f full ppn by (auto simp: frontier_ok_def)
    moreover from this none that have "isValid s b ppn = 1"
      using m ppn by (auto simp: mapping_ok_def)
    ultimately obtain l where "l < N_LPNS_PB g" "L2P s b l = int ppn"
      using m ppn by (auto simp: mapping_ok_def)
    then show "ppn \<in> (\<lambda>l. nat (L2P s b l)) ` {..<N_LPNS_PB g}" by force
  qed
  then have "card ?W \<le> N_LPNS_PB g"
    by (metis card_image_le card_lessThan card_mono finite_imageI finite_lessThan le_trans)
  moreover have "{?f * ?P..<?f * ?P + ?P} \<subseteq> {..<N_PPNS_PB g}"
  proof
    fix x assume "x \<in> {?f * ?P..<?f * ?P + ?P}"
    then have "x = ?f * ?P + (x - ?f * ?P)" "x - ?f * ?P < ?P" by auto
    with ppn_in [OF fB] show "x \<in> {..<N_PPNS_PB g}" by (metis lessThan_iff)
  qed
  then have "card ?W = N_PPNS_PB g - ?P"
    by (subst card_Diff_subset) auto
  ultimately show False
    using wf_geomD(4) [OF g] by (simp add: N_PPNS_PB_def diff_mult_distrib)
qed

lemma victim_props:
  assumes g: "wf_geom g" and f: "frontier_ok g s b" and m: "mapping_ok g s b"
    and full: "next_ppn s b = gc_trigger_ppn s b"
  defines "v \<equiv> get_victim_pblk g s b"
  shows "v < BLKS_PER_BANK g" "v \<noteq> free_pblk s b"
    "\<exists>i < PAGES_PER_BLK g. isValid s b (v * PAGES_PER_BLK g + i) = 0"
proof -
  let ?P = "PAGES_PER_BLK g"
  show vB: "v < BLKS_PER_BANK g" using get_victim_pblk_max(1) [OF g] by (simp add: v_def)
  obtain ppn where ppn: "ppn < N_PPNS_PB g" "isValid s b ppn = 0"
    using full_has_invalid [OF g f m full] by metis
  then have "0 < pblk_invalid_cnt g s b (ppn div ?P)"
    using ppn_div [OF g ppn(1)] unfolding pblk_invalid_cnt_pos
    by (intro exI [of _ "ppn mod ?P"]) simp
  then have "0 < pblk_invalid_cnt g s b v"
    using get_victim_pblk_max(2) [OF g, of "ppn div ?P" s b] ppn_div [OF g ppn(1)]
    by (simp add: v_def)
  then show ex: "\<exists>i < ?P. isValid s b (v * ?P + i) = 0"
    by (simp add: pblk_invalid_cnt_pos)
  show "v \<noteq> free_pblk s b"
  proof
    assume "v = free_pblk s b"
    then have "\<not> written g s b (v * ?P + i)" if "i < ?P" for i
      using f ppn_in [OF vB that] that by (auto simp: frontier_ok_def)
    with m ex ppn_in [OF vB] show False by (auto simp: mapping_ok_def)
  qed
qed

section \<open>The copy loop\<close>

text \<open>
  The loop's invariant after \<open>i\<close> pages of the victim \<open>v\<close>: the pages that were valid among them
  stand, in order, at the start of the block that was free, and the logical pages that were
  mapped to them follow.
\<close>

abbreviation vpage :: "geom \<Rightarrow> ftl \<Rightarrow> nat \<Rightarrow> nat \<Rightarrow> nat \<Rightarrow> bool" where
  "vpage g s b v j \<equiv> isValid s b (v * PAGES_PER_BLK g + j) = 1"

definition rank :: "geom \<Rightarrow> ftl \<Rightarrow> nat \<Rightarrow> nat \<Rightarrow> nat \<Rightarrow> nat" where
  "rank g s b v j = length (filter (vpage g s b v) [0..<j])"

definition moved :: "geom \<Rightarrow> ftl \<Rightarrow> nat \<Rightarrow> nat \<Rightarrow> nat \<Rightarrow> int \<Rightarrow> int" where
  "moved g s b v i x =
     (if int (v * PAGES_PER_BLK g) \<le> x \<and> x < int (v * PAGES_PER_BLK g + i)
      then int (free_pblk s b * PAGES_PER_BLK g + rank g s b v (nat x - v * PAGES_PER_BLK g))
      else x)"

definition copied :: "geom \<Rightarrow> ftl \<Rightarrow> nat \<Rightarrow> nat \<Rightarrow> nat \<Rightarrow> (u32 list \<times> u32) list" where
  "copied g s b v i = map (\<lambda>j. pg_at g s b (v * PAGES_PER_BLK g + j)) (filter (vpage g s b v) [0..<i])"

definition gc_inv :: "geom \<Rightarrow> ftl \<Rightarrow> nat \<Rightarrow> nat \<Rightarrow> nat \<Rightarrow> ftl \<times> nat \<Rightarrow> bool" where
  "gc_inv g s b v i tc \<longleftrightarrow> (case tc of (t, cnt) \<Rightarrow>
     nand_ok (nand t) \<and> nand_dims (nand t) = geom_dims g \<and>
     isValid t = isValid s \<and> next_ppn t = next_ppn s \<and> gc_trigger_ppn t = gc_trigger_ppn s \<and>
     free_pblk t = free_pblk s \<and>
     stats t = (stats s)\<lparr>gc_cnt := gc_cnt (stats s) + 1, gc_write := gc_write (stats s) + int cnt\<rparr> \<and>
     cnt = rank g s b v i \<and>
     (\<forall>b' l. b' \<noteq> b \<longrightarrow> L2P t b' l = L2P s b' l) \<and>
     (\<forall>l < N_LPNS_PB g. L2P t b l = moved g s b v i (L2P s b l)) \<and>
     (\<forall>b' < N_BANKS g. \<forall>k < BLKS_PER_BANK g. blk_log t b' k =
        (if b' = b \<and> k = free_pblk s b then copied g s b v i else blk_log s b' k)))"

lemma rank_le: "rank g s b v j \<le> j"
  using length_filter_le [of "vpage g s b v" "[0..<j]"] by (simp add: rank_def)

lemma rank_Suc: "rank g s b v (Suc j) = (if vpage g s b v j then Suc (rank g s b v j) else rank g s b v j)"
  by (simp add: rank_def)

lemma copied_Suc: "copied g s b v (Suc j) = (if vpage g s b v j
    then copied g s b v j @ [pg_at g s b (v * PAGES_PER_BLK g + j)] else copied g s b v j)"
  by (simp add: copied_def)

lemma length_copied: "length (copied g s b v i) = rank g s b v i"
  by (simp add: copied_def rank_def)

lemma moved_Suc: "moved g s b v (Suc i) x =
    (if x = int (v * PAGES_PER_BLK g + i) then int (free_pblk s b * PAGES_PER_BLK g + rank g s b v i)
     else moved g s b v i x)"
proof (cases "x = int (v * PAGES_PER_BLK g + i)")
  case True
  then have "nat x - v * PAGES_PER_BLK g = i" by (metis add_diff_cancel_left' nat_int)
  with True show ?thesis by (simp add: moved_def)
qed (auto simp: moved_def)

text \<open>What a bank looks like when collection starts in it.\<close>

lemma full_bank:
  assumes g: "wf_geom g" and ok: "ftl_ok g s" and b: "b < N_BANKS g"
    and full: "next_ppn s b = gc_trigger_ppn s b" and k: "k < BLKS_PER_BANK g"
  shows "length (blk_log s b k) = (if k = free_pblk s b then 0 else PAGES_PER_BLK g)"
proof -
  let ?P = "PAGES_PER_BLK g"
  have P: "0 < ?P" using wf_geomD(1) [OF g] .
  have f: "frontier_ok g s b" using ok b by (simp add: ftl_ok_def)
  have w: "i < ?P \<Longrightarrow> i < length (blk_log s b k) \<longleftrightarrow> k \<noteq> free_pblk s b" for i
    using f full ppn_in [OF k, of i] k by (auto simp: frontier_ok_def written_def)
  have "length (blk_log s b k) \<le> ?P"
    using log_bound [of "nand s" g b k] ok b k P by (simp add: ftl_ok_def blk_log_def)
  with w [of 0] w [of "?P - 1"] P show ?thesis by (cases "k = free_pblk s b") auto
qed

lemma mapped_page:
  assumes "mapping_ok g s b" "l < N_LPNS_PB g" "L2P s b l = int ppn"
  shows "written g s b ppn" "isValid s b ppn = 1" "snd (pg_at g s b ppn) = word_of_nat l"
  using assms unfolding mapping_ok_def by fastforce+

lemma valid_page:
  assumes g: "wf_geom g" and m: "mapping_ok g s b"
    and w: "written g s b ppn" "isValid s b ppn = 1"
  obtains l where "l < N_LPNS_PB g" "L2P s b l = int ppn" "sint (snd (pg_at g s b ppn)) = int l"
    "\<And>l'. l' < N_LPNS_PB g \<Longrightarrow> L2P s b l' = int ppn \<Longrightarrow> l' = l"
proof -
  have tag: "l < N_LPNS_PB g \<Longrightarrow> L2P s b l = int ppn \<Longrightarrow> sint (snd (pg_at g s b ppn)) = int l" for l
    using m sint_lpn [OF g, of l] unfolding mapping_ok_def by fastforce
  have "ppn < N_PPNS_PB g" using w by (simp add: written_def)
  with m w obtain l where l: "l < N_LPNS_PB g" "L2P s b l = int ppn" by (auto simp: mapping_ok_def)
  show ?thesis
  proof (rule that [OF l tag [OF l]])
    fix l' assume "l' < N_LPNS_PB g" "L2P s b l' = int ppn"
    from tag [OF this] tag [OF l] show "l' = l" by simp
  qed
qed

text \<open>One iteration.\<close>

lemma gc_page_step:
  assumes g: "wf_geom g" and ok: "ftl_ok g s" and b: "b < N_BANKS g"
    and full: "next_ppn s b = gc_trigger_ppn s b"
    and v: "v < BLKS_PER_BANK g" "v \<noteq> free_pblk s b" and i: "i < PAGES_PER_BLK g"
    and inv: "gc_inv g s b v i (t, cnt)"
  shows "\<exists>tc'. gc_page g d0 b v i (t, cnt) = Some tc' \<and> gc_inv g s b v (Suc i) tc'"
proof -
  let ?P = "PAGES_PER_BLK g" and ?f = "free_pblk s b"
  let ?q = "v * ?P + i"
  have P: "0 < ?P" and m: "mapping_ok g s b" and fB: "?f < BLKS_PER_BANK g"
    using wf_geomD(1) [OF g] ok b by (auto simp: ftl_ok_def frontier_ok_def)
  have t: "nand_ok (nand t)" "nand_dims (nand t) = geom_dims g"
    "isValid t = isValid s" "next_ppn t = next_ppn s" "gc_trigger_ppn t = gc_trigger_ppn s"
    "free_pblk t = free_pblk s"
    "stats t = (stats s)\<lparr>gc_cnt := gc_cnt (stats s) + 1, gc_write := gc_write (stats s) + int cnt\<rparr>"
    "cnt = rank g s b v i" "\<And>b' l. b' \<noteq> b \<Longrightarrow> L2P t b' l = L2P s b' l"
    "\<And>l. l < N_LPNS_PB g \<Longrightarrow> L2P t b l = moved g s b v i (L2P s b l)"
    "\<And>b' k. b' < N_BANKS g \<Longrightarrow> k < BLKS_PER_BANK g \<Longrightarrow> blk_log t b' k =
        (if b' = b \<and> k = free_pblk s b then copied g s b v i else blk_log s b' k)"
    using inv by (auto simp: gc_inv_def)
  have q: "?q < N_PPNS_PB g" using ppn_in v(1) i .
  have get: "get2 (N_BANKS g) (N_PPNS_PB g) (isValid t) (int b) (int (v * PAGES_PER_BLK g + i))
      = Some (isValid s b ?q)" by (simp only: get2_in [OF b q] t(3))
  have w: "written g s b ?q"
    using full_bank [OF g ok b full v(1)] v(2) q i P by (simp add: written_def div_mod_split)
  show ?thesis
  proof (cases "isValid s b ?q = 1")
    case False
    have "L2P s b l \<noteq> int ?q" if "l < N_LPNS_PB g" for l
    proof
      assume "L2P s b l = int ?q"
      with mapped_page(2) [OF m that] False show False by blast
    qed
    moreover have "gc_page g d0 b v i (t, cnt) = Some (t, cnt)"
      using False by (simp add: gc_page_def get del: of_nat_add of_nat_mult)
    ultimately show ?thesis
      using inv False by (simp add: gc_inv_def rank_Suc copied_Suc moved_Suc)
  next
    case True
    let ?pg = "pg_at g s b ?q"
    obtain l where l: "l < N_LPNS_PB g" "L2P s b l = int ?q" "sint (snd ?pg) = int l"
      and uniq: "\<And>l'. l' < N_LPNS_PB g \<Longrightarrow> L2P s b l' = int ?q \<Longrightarrow> l' = l"
      using valid_page [OF g m w True] by metis
    have logv: "nand_log (nand t) (int b) (int v) = blk_log s b v"
      using t(11) [OF b v(1)] v(2) by (simp add: blk_log_def)
    have lenv: "i < length (nand_log (nand t) (int b) (int v))"
      using full_bank [OF g ok b full v(1)] v(2) i by (simp add: logv)
    have pg: "?pg = nand_log (nand t) (int b) (int v) ! i"
      using i P by (simp add: pg_at_def logv div_mod_split)
    have rd: "nand_read (nand t) (int b) (int v) (int i) d0 = (?pg, 0)"
      using log_read [OF t(1,2) b v(1) i lenv] pg by simp
    have pgood: "page_good ?pg"
      using log_page_good [OF t(1,2) b v(1) lenv P] pg by simp
    have logf: "nand_log (nand t) (int b) (int ?f) = copied g s b v i"
      using t(11) [OF b fB] by (simp add: blk_log_def)
    have cP: "cnt < ?P" using rank_le [of g s b v i] i t(8) by simp
    note wr = log_write [OF t(1,2) pgood b fB cP, unfolded logf length_copied, OF t(8) [symmetric]]
    define t' where "t' = t\<lparr>nand := fst (nand_write (nand t) (int b) (int ?f) (int cnt) ?pg),
        L2P := (L2P t)(b := (L2P t b)(l := int (?f * ?P + cnt))),
        stats := (stats t)\<lparr>gc_write := gc_write (stats t) + 1\<rparr>\<rparr>"
    have run: "gc_page g d0 b v i (t, cnt) = Some (t', cnt + 1)"
      by (simp add: gc_page_def get rd True l(3) set2_in [OF b l(1)] t(6) t'_def Let_def
          del: of_nat_add of_nat_mult)
    have "gc_inv g s b v (Suc i) (t', cnt + 1)"
      unfolding gc_inv_def prod.case
    proof (intro conjI allI impI)
      show "nand_ok (nand t')" "nand_dims (nand t') = geom_dims g"
        using wr(1,2) by (simp_all add: t'_def)
      show "isValid t' = isValid s" "next_ppn t' = next_ppn s" "gc_trigger_ppn t' = gc_trigger_ppn s"
        "free_pblk t' = free_pblk s" using t by (simp_all add: t'_def)
      show "stats t' = (stats s)\<lparr>gc_cnt := gc_cnt (stats s) + 1,
          gc_write := gc_write (stats s) + int (cnt + 1)\<rparr>" by (simp add: t'_def t(7))
      show "cnt + 1 = rank g s b v (Suc i)" using True t(8) by (simp add: rank_Suc)
      show "L2P t' b' l' = L2P s b' l'" if "b' \<noteq> b" for b' l' using that t(9) by (simp add: t'_def)
      show "L2P t' b l' = moved g s b v (Suc i) (L2P s b l')" if l': "l' < N_LPNS_PB g" for l'
      proof (cases "l' = l")
        case True
        then show ?thesis by (simp add: t'_def moved_Suc l(2) t(8))
      next
        case False
        then have "L2P s b l' \<noteq> int ?q" using uniq [OF l'] by blast
        with False show ?thesis by (simp add: t'_def moved_Suc t(10) [OF l'] del: of_nat_add of_nat_mult)
      qed
      fix b' k assume bk: "b' < N_BANKS g" "k < BLKS_PER_BANK g"
      show "blk_log t' b' k = (if b' = b \<and> k = ?f then copied g s b v (Suc i) else blk_log s b' k)"
        using wr(3) [OF bk] t(11) [OF bk] True by (simp add: t'_def blk_log_def copied_Suc)
    qed
    with run show ?thesis by blast
  qed
qed

lemma gc_loop:
  assumes g: "wf_geom g" and ok: "ftl_ok g s" and b: "b < N_BANKS g"
    and full: "next_ppn s b = gc_trigger_ppn s b"
    and v: "v < BLKS_PER_BANK g" "v \<noteq> free_pblk s b"
  obtains t cnt where
    "for_opt [0..<PAGES_PER_BLK g] (gc_page g d0 b v)
       (s\<lparr>stats := (stats s)\<lparr>gc_cnt := gc_cnt (stats s) + 1\<rparr>\<rparr>, 0) = Some (t, cnt)"
    "gc_inv g s b v (PAGES_PER_BLK g) (t, cnt)"
proof -
  let ?s1 = "s\<lparr>stats := (stats s)\<lparr>gc_cnt := gc_cnt (stats s) + 1\<rparr>\<rparr>"
  have "\<exists>tc. for_opt [0..<PAGES_PER_BLK g] (gc_page g d0 b v) (?s1, 0) = Some tc \<and>
      gc_inv g s b v (PAGES_PER_BLK g) tc"
  proof (rule for_opt_rule)
    have "blk_log s b (free_pblk s b) = []"
      using full_bank [OF g ok b full, of "free_pblk s b"] ok b
      by (simp add: ftl_ok_def frontier_ok_def)
    then show "gc_inv g s b v 0 (?s1, 0)"
      using ok by (simp add: gc_inv_def rank_def copied_def moved_def ftl_ok_def blk_log_def)
    show "\<exists>t'. gc_page g d0 b v i t = Some t' \<and> gc_inv g s b v (Suc i) t'"
      if "i < PAGES_PER_BLK g" "gc_inv g s b v i t" for i t
      using gc_page_step [OF g ok b full v that(1), of "fst t" "snd t"] that(2) by simp
  qed
  then show ?thesis using that by auto
qed

lemma set_valid_loop:
  fixes a0 :: "nat \<Rightarrow> nat \<Rightarrow> int"
  assumes "b < n" "\<And>i. i < p \<Longrightarrow> base + i < m"
  shows "for_opt [0..<p] (\<lambda>i a. set2 n m a (int b) (int (base + i)) 1) a0 =
     Some (a0(b := (\<lambda>q. if base \<le> q \<and> q < base + p then 1 else a0 b q)))"
  using assms(2)
proof (induction p)
  case (Suc p)
  have "set2 n m a (int b) (int (base + p)) 1 = Some (a(b := (a b)(base + p := 1)))" for a :: "nat \<Rightarrow> nat \<Rightarrow> int"
    using Suc.prems [of p] by (intro set2_in [OF assms(1)]) simp
  moreover have "for_opt [0..<p] (\<lambda>i a. set2 n m a (int b) (int (base + i)) 1) a0 =
     Some (a0(b := (\<lambda>q. if base \<le> q \<and> q < base + p then 1 else a0 b q)))"
    by (rule Suc.IH) (use Suc.prems in simp)
  moreover have "[0..<Suc p] = [0..<p] @ [p]" by simp
  ultimately have "for_opt [0..<Suc p] (\<lambda>i a. set2 n m a (int b) (int (base + i)) 1) a0 =
      Some ((a0(b := (\<lambda>q. if base \<le> q \<and> q < base + p then 1 else a0 b q)))
        (b := ((a0(b := (\<lambda>q. if base \<le> q \<and> q < base + p then 1 else a0 b q))) b)(base + p := 1)))"
    by (simp only: for_opt_snoc Option.bind.bind_lunit)
  then show ?case by (auto simp: fun_eq_iff)
qed (simp add: fun_eq_iff)

section \<open>The effect of a collection\<close>

lemma moved_cases:
  assumes "x = -1 \<or> (\<exists>p. x = int p)"
  obtains "x = -1" "moved g s b v i x = -1"
  | j where "j < i" "x = int (v * PAGES_PER_BLK g + j)"
      "moved g s b v i x = int (free_pblk s b * PAGES_PER_BLK g + rank g s b v j)"
  | p where "x = int p" "\<not> (v * PAGES_PER_BLK g \<le> p \<and> p < v * PAGES_PER_BLK g + i)"
      "moved g s b v i x = x"
proof (cases "x = -1")
  case False
  then obtain p where p: "x = int p" using assms by blast
  show ?thesis
  proof (cases "v * PAGES_PER_BLK g \<le> p \<and> p < v * PAGES_PER_BLK g + i")
    case True
    then obtain j where "p = v * PAGES_PER_BLK g + j" "j < i" by (metis le_Suc_ex nat_add_left_cancel_less)
    moreover from this have "moved g s b v i x =
        int (free_pblk s b * PAGES_PER_BLK g + rank g s b v j)"
      using p by (simp add: moved_def del: of_nat_add of_nat_mult)
    ultimately show ?thesis using that(2) [of j] p by blast
  next
    case F: False
    then have "moved g s b v i x = x" using p by (auto simp: moved_def simp del: of_nat_add of_nat_mult)
    with F p that(3) show ?thesis by blast
  qed
next
  case True
  then have "moved g s b v i x = -1" by (simp add: moved_def del: of_nat_mult of_nat_add)
  with True that(1) show ?thesis by blast
qed

text \<open>The state collection leaves, field by field.\<close>

definition collected :: "geom \<Rightarrow> ftl \<Rightarrow> nat \<Rightarrow> ftl \<Rightarrow> bool" where
  "collected g s b t \<longleftrightarrow>
    (let v = get_victim_pblk g s b; P = PAGES_PER_BLK g; f = free_pblk s b; c = rank g s b v P in
     nand_ok (nand t) \<and> nand_dims (nand t) = geom_dims g \<and>
     isValid t = (isValid s)(b := (\<lambda>q. if v * P \<le> q \<and> q < v * P + P then 1 else isValid s b q)) \<and>
     next_ppn t = (next_ppn s)(b := f * P + c) \<and>
     gc_trigger_ppn t = (gc_trigger_ppn s)(b := f * P + P) \<and>
     free_pblk t = (free_pblk s)(b := v) \<and>
     stats t = (stats s)\<lparr>gc_cnt := gc_cnt (stats s) + 1, gc_write := gc_write (stats s) + int c\<rparr> \<and>
     (\<forall>b' l. b' \<noteq> b \<longrightarrow> L2P t b' l = L2P s b' l) \<and>
     (\<forall>l < N_LPNS_PB g. L2P t b l = moved g s b v P (L2P s b l)) \<and>
     (\<forall>b' < N_BANKS g. \<forall>k < BLKS_PER_BANK g. blk_log t b' k =
        (if b' = b \<and> k = f then copied g s b v P else if b' = b \<and> k = v then [] else blk_log s b' k)))"

lemma victim_stats: "get_victim_pblk g (s\<lparr>stats := x\<rparr>) b = get_victim_pblk g s b"
  by (simp add: get_victim_pblk_def pblk_invalid_cnt_def)

lemma garbage_collection_run:
  assumes g: "wf_geom g" and ok: "ftl_ok g s" and b: "b < N_BANKS g"
    and full: "next_ppn s b = gc_trigger_ppn s b"
  obtains t where "garbage_collection g d0 b s = Some t" "collected g s b t"
proof -
  let ?P = "PAGES_PER_BLK g" and ?f = "free_pblk s b" and ?v = "get_victim_pblk g s b"
  have P: "0 < ?P" using wf_geomD(1) [OF g] .
  have fm: "frontier_ok g s b" "mapping_ok g s b" using ok b by (auto simp: ftl_ok_def)
  note v = victim_props [OF g fm full]
  obtain t cnt where loop: "for_opt [0..<?P] (gc_page g d0 b ?v)
       (s\<lparr>stats := (stats s)\<lparr>gc_cnt := gc_cnt (stats s) + 1\<rparr>\<rparr>, 0) = Some (t, cnt)"
    and inv: "gc_inv g s b ?v ?P (t, cnt)"
    using gc_loop [OF g ok b full v(1,2)] by metis
  note iD = inv [unfolded gc_inv_def prod.case]
  have vin: "?v * ?P + i < N_PPNS_PB g" if "i < ?P" for i using ppn_in [OF v(1) that] .
  define t' where "t' = t\<lparr>isValid := (isValid t)(b := (\<lambda>q. if ?v * ?P \<le> q \<and> q < ?v * ?P + ?P then 1 else isValid t b q)),
     next_ppn := (next_ppn t)(b := ?f * ?P + cnt),
     gc_trigger_ppn := (gc_trigger_ppn t)(b := ?f * ?P + ?P),
     nand := fst (nand_erase (nand t) (int b) (int ?v)),
     free_pblk := (free_pblk t)(b := ?v)\<rparr>"
  have run: "garbage_collection g d0 b s = Some t'"
    using b loop set_valid_loop [OF b vin, of ?P "isValid t"]
    by (simp add: garbage_collection_def victim_stats Let_def t'_def)
  have er: "nand_ok (fst (nand_erase (nand t) (int b) (int ?v)))"
    "nand_dims (fst (nand_erase (nand t) (int b) (int ?v))) = geom_dims g"
    "\<And>b' k'. b' < N_BANKS g \<Longrightarrow> k' < BLKS_PER_BANK g \<Longrightarrow>
       nand_log (fst (nand_erase (nand t) (int b) (int ?v))) (int b') (int k') =
       (if b' = b \<and> k' = ?v then [] else nand_log (nand t) (int b') (int k'))"
    using log_erase [OF _ _ b v(1) P] iD by auto
  have "collected g s b t'"
    unfolding collected_def Let_def
  proof (intro conjI allI impI)
    show "nand_ok (nand t')" "nand_dims (nand t') = geom_dims g" using er by (simp_all add: t'_def)
    show "stats t' = (stats s)\<lparr>gc_cnt := gc_cnt (stats s) + 1,
        gc_write := gc_write (stats s) + int (rank g s b ?v ?P)\<rparr>" using iD by (simp add: t'_def)
    show "blk_log t' b' k = (if b' = b \<and> k = ?f then copied g s b ?v ?P
        else if b' = b \<and> k = ?v then [] else blk_log s b' k)"
      if "b' < N_BANKS g" "k < BLKS_PER_BANK g" for b' k
      using er(3) [OF that] v(2) iD that by (auto simp: t'_def blk_log_def)
    have "isValid t = isValid s" using iD by blast
    then show "isValid t' = (isValid s)(b := (\<lambda>q. if ?v * ?P \<le> q \<and> q < ?v * ?P + ?P then 1 else isValid s b q))"
      by (simp add: t'_def cong: if_cong)
  qed (use iD in \<open>simp_all add: t'_def\<close>)
  with run show ?thesis using that by blast
qed

text \<open>Which pages are programmed after a collection, and what they hold.\<close>

lemma full_written:
  assumes g: "wf_geom g" and ok: "ftl_ok g s" and b: "b < N_BANKS g"
    and full: "next_ppn s b = gc_trigger_ppn s b" and k: "k < BLKS_PER_BANK g" and r: "r < PAGES_PER_BLK g"
  shows "written g s b (k * PAGES_PER_BLK g + r) \<longleftrightarrow> k \<noteq> free_pblk s b"
  using full_bank [OF g ok b full k] ppn_in [OF k r] r by (simp add: written_def div_mod_split)

lemma collected_pages:
  assumes g: "wf_geom g" and ok: "ftl_ok g s" and b: "b < N_BANKS g"
    and full: "next_ppn s b = gc_trigger_ppn s b" and c: "collected g s b t"
    and k: "k < BLKS_PER_BANK g" and r: "r < PAGES_PER_BLK g"
  defines "v \<equiv> get_victim_pblk g s b"
  shows "written g t b (k * PAGES_PER_BLK g + r) \<longleftrightarrow>
      (if k = free_pblk s b then r < rank g s b v (PAGES_PER_BLK g) else k \<noteq> v)"
    and "k = free_pblk s b \<Longrightarrow> pg_at g t b (k * PAGES_PER_BLK g + r) = copied g s b v (PAGES_PER_BLK g) ! r"
    and "k \<noteq> free_pblk s b \<Longrightarrow> k \<noteq> v \<Longrightarrow>
      pg_at g t b (k * PAGES_PER_BLK g + r) = pg_at g s b (k * PAGES_PER_BLK g + r)"
proof -
  have log: "blk_log t b k = (if k = free_pblk s b then copied g s b v (PAGES_PER_BLK g)
      else if k = v then [] else blk_log s b k)"
    using c b k by (simp add: collected_def v_def Let_def)
  show "written g t b (k * PAGES_PER_BLK g + r) \<longleftrightarrow>
      (if k = free_pblk s b then r < rank g s b v (PAGES_PER_BLK g) else k \<noteq> v)"
    using full_bank [OF g ok b full k] ppn_in [OF k r] r
    by (simp add: written_def div_mod_split log length_copied)
  show "k = free_pblk s b \<Longrightarrow> pg_at g t b (k * PAGES_PER_BLK g + r) = copied g s b v (PAGES_PER_BLK g) ! r"
    "k \<noteq> free_pblk s b \<Longrightarrow> k \<noteq> v \<Longrightarrow>
      pg_at g t b (k * PAGES_PER_BLK g + r) = pg_at g s b (k * PAGES_PER_BLK g + r)"
    using r log by (simp_all add: pg_at_def div_mod_split)
qed

lemma copied_rank:
  assumes "vpage g s b v j" "j < i"
  shows "rank g s b v j < rank g s b v i"
    "copied g s b v i ! rank g s b v j = pg_at g s b (v * PAGES_PER_BLK g + j)"
proof -
  show *: "rank g s b v j < rank g s b v i"
    using length_filter_upt_less [of "vpage g s b v" j i] assms by (simp add: rank_def)
  have "filter (vpage g s b v) [0..<i] ! rank g s b v j = j"
    unfolding rank_def using assms by (intro filter_upt_nth)
  with * show "copied g s b v i ! rank g s b v j = pg_at g s b (v * PAGES_PER_BLK g + j)"
    by (simp add: copied_def rank_def)
qed

lemma rank_surj:
  assumes "c < rank g s b v i"
  obtains j where "j < i" "vpage g s b v j" "c = rank g s b v j"
  using filter_upt_surj [of c "vpage g s b v" i] assms unfolding rank_def by metis

text \<open>Collection moves a mapped page without changing what it holds.\<close>

lemma collected_map:
  assumes g: "wf_geom g" and ok: "ftl_ok g s" and b: "b < N_BANKS g"
    and full: "next_ppn s b = gc_trigger_ppn s b" and c: "collected g s b t" and l: "l < N_LPNS_PB g"
  shows "L2P s b l = -1 \<and> L2P t b l = -1 \<or>
    (\<exists>p q. L2P s b l = int p \<and> L2P t b l = int q \<and> written g t b q \<and> isValid t b q = 1 \<and>
       pg_at g t b q = pg_at g s b p \<and> snd (pg_at g s b p) = word_of_nat l)"
proof -
  let ?P = "PAGES_PER_BLK g" and ?f = "free_pblk s b" and ?v = "get_victim_pblk g s b"
  have fm: "frontier_ok g s b" "mapping_ok g s b" and fB: "?f < BLKS_PER_BANK g"
    using ok b by (auto simp: ftl_ok_def frontier_ok_def)
  note v = victim_props [OF g fm full]
  note cp = collected_pages [OF g ok b full c]
  have L: "L2P t b l = moved g s b ?v ?P (L2P s b l)"
    and V: "isValid t b q = (if ?v * ?P \<le> q \<and> q < ?v * ?P + ?P then 1 else isValid s b q)" for q
    using c l by (simp_all add: collected_def Let_def)
  have "L2P s b l = -1 \<or> (\<exists>p. L2P s b l = int p)" using fm(2) l by (auto simp: mapping_ok_def)
  then show ?thesis
  proof (cases rule: moved_cases [of _ g s b ?v ?P, consumes 1])
    case (2 j)
    note mp = mapped_page [OF fm(2) l 2(2)]
    have r: "rank g s b ?v j < ?P" "rank g s b ?v j < rank g s b ?v ?P"
      using copied_rank(1) [OF mp(2) 2(1)] rank_le [of g s b ?v j] 2(1) by simp_all
    let ?q = "?f * ?P + rank g s b ?v j"
    have "\<not> written g s b ?q" using full_written [OF g ok b full fB r(1)] by simp
    then have "isValid s b ?q = 1" using fm(2) ppn_in [OF fB r(1)] by (auto simp: mapping_ok_def)
    then have "written g t b ?q \<and> isValid t b ?q = 1 \<and> pg_at g t b ?q = pg_at g s b (?v * ?P + j)"
      using cp(1) [OF fB r(1)] cp(2) [OF fB r(1)] r(2) copied_rank(2) [OF mp(2) 2(1)] V [of ?q] by simp
    moreover have "L2P t b l = int ?q" using 2(3) L by (simp only:)
    ultimately show ?thesis using mp(3) 2(2) by blast
  next
    case (3 p)
    note mp = mapped_page [OF fm(2) l 3(1)]
    have pN: "p < N_PPNS_PB g" using mp(1) by (simp add: written_def)
    let ?k = "p div ?P" and ?r = "p mod ?P"
    have kr: "?k < BLKS_PER_BANK g" "?r < ?P" "p = ?k * ?P + ?r" using ppn_div [OF g pN] by auto
    have "?k \<noteq> ?f" using mp(1) full_written [OF g ok b full kr(1,2)] kr(3) by simp
    moreover have "?k \<noteq> ?v" using 3(2) kr by (metis le_add1 nat_add_left_cancel_less)
    ultimately have "written g t b p \<and> pg_at g t b p = pg_at g s b p"
      using cp(1,3) [OF kr(1,2)] kr(3) by simp
    moreover have "isValid t b p = 1" using V mp(2) by simp
    ultimately show ?thesis using mp(3) 3(1,3) L by auto
  qed (use L in simp)
qed

text \<open>The invariant after a collection, and what it means for the pages.\<close>

lemma collected_frontier:
  assumes g: "wf_geom g" and ok: "ftl_ok g s" and b: "b < N_BANKS g"
    and full: "next_ppn s b = gc_trigger_ppn s b" and c: "collected g s b t"
  shows "frontier_ok g t b" "next_ppn t b < gc_trigger_ppn t b"
proof -
  let ?P = "PAGES_PER_BLK g" and ?f = "free_pblk s b" and ?v = "get_victim_pblk g s b"
  let ?c = "rank g s b ?v ?P"
  have fm: "frontier_ok g s b" "mapping_ok g s b" and fB: "?f < BLKS_PER_BANK g"
    using ok b by (auto simp: ftl_ok_def frontier_ok_def)
  note v = victim_props [OF g fm full]
  have F: "next_ppn t b = ?f * ?P + ?c" "gc_trigger_ppn t b = ?f * ?P + ?P" "free_pblk t b = ?v"
    using c by (simp_all add: collected_def Let_def)
  obtain i where i: "i < ?P" "isValid s b (?v * ?P + i) = 0" using v(3) by blast
  have "length (filter (vpage g s b ?v) [0..<?P]) < length [0..<?P]"
    by (rule length_filter_less [of i]) (use i in simp_all)
  then have cP: "?c < ?P" by (simp add: rank_def)
  then show "next_ppn t b < gc_trigger_ppn t b" by (simp add: F)
  have range: "?f * ?P + ?c \<le> k * ?P + r \<and> k * ?P + r < ?f * ?P + ?P \<longleftrightarrow> k = ?f \<and> ?c \<le> r"
    if "r < ?P" for k r
  proof
    assume a: "?f * ?P + ?c \<le> k * ?P + r \<and> k * ?P + r < ?f * ?P + ?P"
    then have "k = ?f" using row_major_block [of ?f ?P k r] that by simp
    with a show "k = ?f \<and> ?c \<le> r" by simp
  qed (use that in simp)
  show "frontier_ok g t b"
    unfolding frontier_ok_def F
  proof (intro conjI allI impI)
    fix ppn assume p: "ppn < N_PPNS_PB g"
    let ?k = "ppn div ?P" and ?r = "ppn mod ?P"
    have kr: "?k < BLKS_PER_BANK g" "?r < ?P" "?k * ?P + ?r = ppn" using ppn_div [OF g p] by auto
    show "written g t b ppn \<longleftrightarrow> ?k \<noteq> ?v \<and> \<not> (?f * ?P + ?c \<le> ppn \<and> ppn < ?f * ?P + ?P)"
      using collected_pages(1) [OF g ok b full c kr(1,2)] range [OF kr(2), of ?k] v(2)
      unfolding kr(3) by auto
  next
    fix ppn assume a: "?f * ?P + ?c \<le> ppn" "ppn < ?f * ?P + ?P"
    have "ppn mod ?P < ?P" using cP by simp
    from range [OF this, of "ppn div ?P"] a show "ppn div ?P \<noteq> ?v" using v(2) by simp
  next
    have "Suc ?f * ?P \<le> BLKS_PER_BANK g * ?P" using fB by (intro mult_le_mono1) simp
    then show "?f * ?P + ?P \<le> N_PPNS_PB g" by (simp add: N_PPNS_PB_def)
  qed (use v(1) cP in simp_all)
qed

lemma collected_mapping:
  assumes g: "wf_geom g" and ok: "ftl_ok g s" and b: "b < N_BANKS g"
    and full: "next_ppn s b = gc_trigger_ppn s b" and c: "collected g s b t"
  shows "mapping_ok g t b"
proof -
  let ?P = "PAGES_PER_BLK g" and ?f = "free_pblk s b" and ?v = "get_victim_pblk g s b"
  have fm: "frontier_ok g s b" "mapping_ok g s b" and fB: "?f < BLKS_PER_BANK g"
    using ok b by (auto simp: ftl_ok_def frontier_ok_def)
  note v = victim_props [OF g fm full]
  have V: "isValid t b q = (if ?v * ?P \<le> q \<and> q < ?v * ?P + ?P then 1 else isValid s b q)" for q
    using c by (simp add: collected_def Let_def)
  have L: "l < N_LPNS_PB g \<Longrightarrow> L2P t b l = moved g s b ?v ?P (L2P s b l)" for l
    using c by (simp add: collected_def Let_def)
  show ?thesis
    unfolding mapping_ok_def
  proof (intro conjI allI impI)
    fix l assume "l < N_LPNS_PB g"
    from collected_map [OF g ok b full c this]
    show "L2P t b l = -1 \<or> (\<exists>ppn. L2P t b l = int ppn \<and> written g t b ppn \<and> isValid t b ppn = 1 \<and>
        snd (pg_at g t b ppn) = word_of_nat l)" by auto
  next
    fix ppn assume "ppn < N_PPNS_PB g"
    with fm(2) show "isValid t b ppn = 0 \<or> isValid t b ppn = 1" by (auto simp: V mapping_ok_def)
  next
    fix ppn assume p: "ppn < N_PPNS_PB g" and nw: "\<not> written g t b ppn"
    let ?k = "ppn div ?P" and ?r = "ppn mod ?P"
    have kr: "?k < BLKS_PER_BANK g" "?r < ?P" "?k * ?P + ?r = ppn" using ppn_div [OF g p] by auto
    have "?k = ?f \<or> ?k = ?v"
      using nw collected_pages(1) [OF g ok b full c kr(1,2)] unfolding kr(3) by (auto split: if_splits)
    then show "isValid t b ppn = 1"
    proof
      assume "?k = ?f"
      then have "\<not> written g s b ppn" using full_written [OF g ok b full kr(1,2)] unfolding kr(3) by simp
      with fm(2) p show ?thesis by (auto simp: V mapping_ok_def)
    next
      assume "?k = ?v"
      then have "?v * ?P \<le> ppn \<and> ppn < ?v * ?P + ?P" using kr(2,3) by (metis le_add1 nat_add_left_cancel_less)
      then show ?thesis by (simp add: V)
    qed
  next
    fix ppn assume p: "ppn < N_PPNS_PB g" and w: "written g t b ppn" and vl: "isValid t b ppn = 1"
    let ?k = "ppn div ?P" and ?r = "ppn mod ?P"
    have kr: "?k < BLKS_PER_BANK g" "?r < ?P" "?k * ?P + ?r = ppn" using ppn_div [OF g p] by auto
    note cw = collected_pages(1) [OF g ok b full c kr(1,2), unfolded kr(3)]
    show "\<exists>l < N_LPNS_PB g. L2P t b l = int ppn"
    proof (cases "?k = ?f")
      case True
      then obtain j where j: "j < ?P" "vpage g s b ?v j" "?r = rank g s b ?v j"
        using cw w rank_surj by metis
      have "written g s b (?v * ?P + j)" using full_written [OF g ok b full v(1) j(1)] v(2) by simp
      then obtain l where l: "l < N_LPNS_PB g" "L2P s b l = int (?v * ?P + j)"
        using valid_page [OF g fm(2) _ j(2)] by metis
      have "moved g s b ?v ?P (int (?v * ?P + j)) = int (?f * ?P + rank g s b ?v j)"
        using j(1) by (simp add: moved_def del: of_nat_add of_nat_mult)
      then have "L2P t b l = int ppn" using L [OF l(1)] l(2) j(3) True kr(3) by metis
      with l(1) show ?thesis by blast
    next
      case False
      with cw w have kv: "?k \<noteq> ?v" by simp
      have out: "\<not> (?v * ?P \<le> ppn \<and> ppn < ?v * ?P + ?P)"
      proof
        assume "?v * ?P \<le> ppn \<and> ppn < ?v * ?P + ?P"
        with row_major_block [of ?v ?P ?k ?r] kr kv show False by simp
      qed
      have "written g s b ppn" using False full_written [OF g ok b full kr(1,2)] unfolding kr(3) by simp
      moreover have "isValid s b ppn = 1" using vl out by (simp add: V)
      ultimately obtain l where l: "l < N_LPNS_PB g" "L2P s b l = int ppn"
        using valid_page [OF g fm(2)] by metis
      have "moved g s b ?v ?P (int ppn) = int ppn"
        using out by (auto simp: moved_def simp del: of_nat_add of_nat_mult)
      with l L [OF l(1)] show ?thesis by auto
    qed
  qed
qed

lemma other_bank:
  assumes g: "wf_geom g" and ok: "ftl_ok g s" and b': "b' < N_BANKS g"
    and logs: "\<And>k. k < BLKS_PER_BANK g \<Longrightarrow> blk_log t b' k = blk_log s b' k"
    and "\<And>l. L2P t b' l = L2P s b' l" "isValid t b' = isValid s b'"
    and "next_ppn t b' = next_ppn s b'" "gc_trigger_ppn t b' = gc_trigger_ppn s b'"
    and "free_pblk t b' = free_pblk s b'"
  shows "frontier_ok g t b' \<and> mapping_ok g t b'"
    and "l < N_LPNS_PB g \<Longrightarrow> page_of g t b' l = page_of g s b' l"
proof -
  have s: "frontier_ok g s b'" "mapping_ok g s b'" using ok b' by (auto simp: ftl_ok_def)
  show "frontier_ok g t b' \<and> mapping_ok g t b'"
    using bank_cong [of g t b' s] assms s by metis
  assume l: "l < N_LPNS_PB g"
  show "page_of g t b' l = page_of g s b' l"
  proof (cases "L2P s b' l = -1")
    case False
    then obtain p where "L2P s b' l = int p" using s(2) l by (auto simp: mapping_ok_def)
    moreover from mapped_page(1) [OF s(2) l this] have "p < N_PPNS_PB g" by (simp add: written_def)
    ultimately show ?thesis
      using assms(5) logs ppn_div [OF g] by (simp add: page_of_def pg_at_def)
  qed (simp add: page_of_def assms(5))
qed

text \<open>
  Collection returns, keeps the invariant, leaves every logical page as it was and frees at
  least one page of the bank.
\<close>

lemma garbage_collection_ok:
  assumes g: "wf_geom g" and ok: "ftl_ok g s" and b: "b < N_BANKS g"
    and full: "next_ppn s b = gc_trigger_ppn s b"
  obtains t where "garbage_collection g d0 b s = Some t" "ftl_ok g t" "collected g s b t"
    "next_ppn t b < gc_trigger_ppn t b"
    "\<And>b' l. b' < N_BANKS g \<Longrightarrow> l < N_LPNS_PB g \<Longrightarrow> page_of g t b' l = page_of g s b' l"
proof -
  obtain t where t: "garbage_collection g d0 b s = Some t" and c: "collected g s b t"
    using garbage_collection_run [OF g ok b full] by metis
  note oth = other_bank [OF g ok, of _ t]
  have eqs: "\<And>l. L2P t b' l = L2P s b' l" "isValid t b' = isValid s b'" "next_ppn t b' = next_ppn s b'"
    "gc_trigger_ppn t b' = gc_trigger_ppn s b'" "free_pblk t b' = free_pblk s b'"
    "\<And>k. k < BLKS_PER_BANK g \<Longrightarrow> blk_log t b' k = blk_log s b' k"
    if "b' \<noteq> b" "b' < N_BANKS g" for b'
    using c that by (simp_all add: collected_def Let_def)
  have "ftl_ok g t"
    unfolding ftl_ok_def
  proof (intro conjI allI impI)
    show "nand_ok (nand t)" "nand_dims (nand t) = geom_dims g" using c by (simp_all add: collected_def Let_def)
    fix b' assume b': "b' < N_BANKS g"
    show "frontier_ok g t b'" "mapping_ok g t b'"
      using collected_frontier(1) [OF g ok b full c] collected_mapping [OF g ok b full c]
        oth(1) [OF b'] eqs [OF _ b'] by (cases "b' = b"; simp)+
  qed
  moreover have "page_of g t b' l = page_of g s b' l" if b': "b' < N_BANKS g" and l: "l < N_LPNS_PB g" for b' l
  proof (cases "b' = b")
    case True
    then show ?thesis using collected_map [OF g ok b full c l] by (auto simp: page_of_def)
  next
    case False
    then show ?thesis using oth(2) [OF b'] eqs [OF _ b'] l by simp
  qed
  ultimately show ?thesis using that t c collected_frontier(2) [OF g ok b full c] by blast
qed

section \<open>The write of one page\<close>

lemma frontier_page:
  assumes g: "wf_geom g" and ok: "ftl_ok g s" and b: "b < N_BANKS g"
    and lt: "next_ppn s b < gc_trigger_ppn s b"
  defines "n \<equiv> next_ppn s b"
  shows "n < N_PPNS_PB g" "\<not> written g s b n"
    "length (blk_log s b (n div PAGES_PER_BLK g)) = n mod PAGES_PER_BLK g"
proof -
  let ?P = "PAGES_PER_BLK g" and ?k = "n div PAGES_PER_BLK g" and ?r = "n mod PAGES_PER_BLK g"
  have f: "frontier_ok g s b" using ok b by (simp add: ftl_ok_def)
  have w: "p < N_PPNS_PB g \<Longrightarrow> written g s b p \<longleftrightarrow>
      p div ?P \<noteq> free_pblk s b \<and> \<not> (n \<le> p \<and> p < gc_trigger_ppn s b)" for p
    using f by (simp add: frontier_ok_def n_def)
  have nf: "?k \<noteq> free_pblk s b" using f lt by (simp add: frontier_ok_def n_def)
  show n: "n < N_PPNS_PB g" using f lt by (simp add: frontier_ok_def n_def)
  show nw: "\<not> written g s b n" using w [OF n] lt by (simp add: n_def)
  have kr: "?k < BLKS_PER_BANK g" "?r < ?P" "?k * ?P + ?r = n" using ppn_div [OF g n] by auto
  from nw have "length (blk_log s b ?k) \<le> ?r" using n by (simp add: written_def)
  moreover have "?r \<le> length (blk_log s b ?k)"
  proof (cases ?r)
    case (Suc r)
    then have r: "r < ?P" "?k * ?P + r < n" using kr by simp_all
    have "written g s b (?k * ?P + r)"
      using w [of "?k * ?P + r"] ppn_in [OF kr(1) r(1)] r nf by (simp add: div_mod_split)
    with Suc r(1) show ?thesis by (simp add: written_def div_mod_split)
  qed simp
  ultimately show "length (blk_log s b ?k) = ?r" by simp
qed

text \<open>The part of \<open>write_through_lpn\<close> that follows the collection.\<close>

definition put_page :: "geom \<Rightarrow> ftl \<Rightarrow> nat \<Rightarrow> nat \<Rightarrow> u32 list \<Rightarrow> ftl" where
  "put_page g s b l data =
     s\<lparr>isValid := (if L2P s b l = -1 then isValid s
                   else (isValid s)(b := (isValid s b)(nat (L2P s b l) := 0))),
       L2P := (L2P s)(b := (L2P s b)(l := int (next_ppn s b))),
       nand := fst (nand_write (nand s) (int b) (int (next_ppn s b div PAGES_PER_BLK g))
                 (int (next_ppn s b mod PAGES_PER_BLK g)) (data, word_of_nat l)),
       stats := (stats s)\<lparr>nand_writes := nand_writes (stats s) + 1\<rparr>,
       next_ppn := (next_ppn s)(b := next_ppn s b + 1)\<rparr>"

lemma put_page_ok:
  assumes g: "wf_geom g" and ok: "ftl_ok g s" and b: "b < N_BANKS g"
    and lt: "next_ppn s b < gc_trigger_ppn s b" and l: "l < N_LPNS_PB g" and d: "length data = 8"
  defines "t \<equiv> put_page g s b l data"
  shows "ftl_ok g t"
    and "b' < N_BANKS g \<Longrightarrow> l' < N_LPNS_PB g \<Longrightarrow>
      page_of g t b' l' = (if b' = b \<and> l' = l then Some data else page_of g s b' l')"
proof -
  let ?P = "PAGES_PER_BLK g" and ?n = "next_ppn s b"
  let ?k = "?n div ?P" and ?r = "?n mod ?P"
  have s: "nand_ok (nand s)" "nand_dims (nand s) = geom_dims g" "frontier_ok g s b" "mapping_ok g s b"
    using ok b by (auto simp: ftl_ok_def)
  note n = frontier_page [OF g ok b lt]
  have kr: "?k < BLKS_PER_BANK g" "?r < ?P" "?k * ?P + ?r = ?n" using ppn_div [OF g n(1)] by auto
  have pg: "page_good (data, word_of_nat l)" using d by (simp add: page_good_def)
  have len: "length (nand_log (nand s) (int b) (int ?k)) = ?r" using n(3) by (simp add: blk_log_def)
  note wr = log_write [OF s(1,2) pg b kr(1,2) len]
  have log: "blk_log t b' k' = (if b' = b \<and> k' = ?k then blk_log s b ?k @ [(data, word_of_nat l)]
      else blk_log s b' k')" if "b' < N_BANKS g" "k' < BLKS_PER_BANK g" for b' k'
    using wr(3) [OF that] by (simp add: t_def put_page_def blk_log_def)
  have W: "written g t b q \<longleftrightarrow> written g s b q \<or> q = ?n" if "q < N_PPNS_PB g" for q
    using that log [OF b, of "q div ?P"] ppn_div [OF g that] n kr(3)
    by (auto simp: written_def less_Suc_eq) (metis div_mult_mod_eq)
  have PG: "pg_at g t b q = (if q = ?n then (data, word_of_nat l) else pg_at g s b q)"
    if q: "q < N_PPNS_PB g" "written g t b q" for q
  proof (cases "q = ?n")
    case True
    then show ?thesis using log [OF b kr(1)] n(3) by (simp add: pg_at_def nth_append)
  next
    case False
    with W q have "written g s b q" by simp
    with False show ?thesis using log [OF b, of "q div ?P"] ppn_div [OF g q(1)]
      by (auto simp: pg_at_def written_def nth_append)
  qed
  have F: "next_ppn t b = Suc ?n" "gc_trigger_ppn t = gc_trigger_ppn s" "free_pblk t = free_pblk s"
    "\<And>l'. L2P t b l' = (if l' = l then int ?n else L2P s b l')"
    "\<And>q. isValid t b q = (if L2P s b l = int q then 0 else isValid s b q)"
    "\<And>b'. b' \<noteq> b \<Longrightarrow> next_ppn t b' = next_ppn s b' \<and> L2P t b' = L2P s b' \<and> isValid t b' = isValid s b'"
    using s(4) l by (auto simp: t_def put_page_def mapping_ok_def)
  have old: "L2P s b l \<noteq> int ?n" using mapped_page(1) [OF s(4) l] n(2) by blast
  have uniq: "l' = l" if "l' < N_LPNS_PB g" "L2P s b l' = int q" "L2P s b l = int q" for l' q
    using valid_page [OF g s(4) mapped_page(1,2) [OF s(4) l that(3)]] that l by metis
  have kept: "written g s b q \<and> isValid s b q = 1 \<and> snd (pg_at g s b q) = word_of_nat l' \<and>
      L2P s b l \<noteq> int q \<and> q \<noteq> ?n \<and> q < N_PPNS_PB g"
    if "l' < N_LPNS_PB g" "L2P s b l' = int q" "l' \<noteq> l" for l' q
    using mapped_page [OF s(4) that(1,2)] uniq [OF that(1,2)] that(3) n(2) by (auto simp: written_def)
  have front: "frontier_ok g t b"
    using s(3) lt W unfolding frontier_ok_def F by (auto simp: Suc_le_eq le_less)
  have nv: "isValid s b ?n = 1" using s(4) n(1,2) by (auto simp: mapping_ok_def)
  have map: "mapping_ok g t b"
    unfolding mapping_ok_def
  proof (intro conjI allI impI)
    fix l' assume l': "l' < N_LPNS_PB g"
    show "L2P t b l' = -1 \<or> (\<exists>ppn. L2P t b l' = int ppn \<and> written g t b ppn \<and> isValid t b ppn = 1 \<and>
        snd (pg_at g t b ppn) = word_of_nat l')"
    proof (cases "l' = l")
      case True
      then show ?thesis using W [OF n(1)] PG [OF n(1)] nv old by (auto simp: F)
    next
      case False
      have "L2P s b l' = -1 \<or> (\<exists>q. L2P s b l' = int q)" using s(4) l' by (auto simp: mapping_ok_def)
      then show ?thesis using kept [OF l' _ False] W PG False by (auto simp: F)
    qed
  next
    fix q assume q: "q < N_PPNS_PB g"
    show "isValid t b q = 0 \<or> isValid t b q = 1" using s(4) q by (auto simp: F mapping_ok_def)
    show "isValid t b q = 1" if "\<not> written g t b q"
      using that W [OF q] s(4) q mapped_page(1) [OF s(4) l] by (auto simp: F mapping_ok_def)
    show "\<exists>l' < N_LPNS_PB g. L2P t b l' = int q" if w: "written g t b q" and v: "isValid t b q = 1"
    proof (cases "q = ?n")
      case True
      with l show ?thesis by (auto simp: F)
    next
      case False
      with w W [OF q] have "written g s b q" by simp
      moreover have v': "isValid s b q = 1" "L2P s b l \<noteq> int q" using v by (auto simp: F split: if_splits)
      ultimately obtain l' where "l' < N_LPNS_PB g" "L2P s b l' = int q"
        using valid_page [OF g s(4)] by metis
      with v'(2) show ?thesis by (intro exI [of _ l']) (auto simp: F)
    qed
  qed
  have oth: "frontier_ok g t b' \<and> mapping_ok g t b'"
      "l' < N_LPNS_PB g \<Longrightarrow> page_of g t b' l' = page_of g s b' l'"
    if "b' \<noteq> b" "b' < N_BANKS g" for b' l'
    using other_bank [OF g ok that(2), of t] F(2,3) F(6) [OF that(1)] log [OF that(2)] that(1) by auto
  show "ftl_ok g t"
    unfolding ftl_ok_def
  proof (intro conjI allI impI)
    show "nand_ok (nand t)" "nand_dims (nand t) = geom_dims g"
      using wr(1,2) by (simp_all add: t_def put_page_def)
    show "frontier_ok g t b'" "mapping_ok g t b'" if "b' < N_BANKS g" for b'
      using front map oth(1) [OF _ that] by (cases "b' = b"; simp)+
  qed
  assume b': "b' < N_BANKS g" and l': "l' < N_LPNS_PB g"
  show "page_of g t b' l' = (if b' = b \<and> l' = l then Some data else page_of g s b' l')"
  proof (cases "b' = b")
    case True
    have "L2P s b l' = -1 \<or> (\<exists>q. L2P s b l' = int q)" using s(4) l' by (auto simp: mapping_ok_def)
    then show ?thesis
      using kept [OF l'] W PG n(1) True by (cases "l' = l") (auto simp: F page_of_def)
  qed (use oth(2) [OF _ b' l'] in simp)
qed

lemma write_through_lpn_ok:
  assumes g: "wf_geom g" and ok: "ftl_ok g s" and b: "b < N_BANKS g" and l: "l < N_LPNS_PB g"
    and d: "length data = 8"
  obtains t where "write_through_lpn g d0 (int b) (int l) data s = Some t" "ftl_ok g t"
    "\<And>b' l'. b' < N_BANKS g \<Longrightarrow> l' < N_LPNS_PB g \<Longrightarrow>
      page_of g t b' l' = (if b' = b \<and> l' = l then Some data else page_of g s b' l')"
    "host_write (stats t) = host_write (stats s)" "nand_writes (stats t) = nand_writes (stats s) + 1"
proof -
  have "\<exists>s1. (if next_ppn s b = gc_trigger_ppn s b then garbage_collection g d0 b s else Some s) = Some s1 \<and>
      ftl_ok g s1 \<and> next_ppn s1 b < gc_trigger_ppn s1 b \<and>
      (\<forall>b' < N_BANKS g. \<forall>l' < N_LPNS_PB g. page_of g s1 b' l' = page_of g s b' l') \<and>
      host_write (stats s1) = host_write (stats s) \<and> nand_writes (stats s1) = nand_writes (stats s)"
  proof (cases "next_ppn s b = gc_trigger_ppn s b")
    case True
    show ?thesis by (rule garbage_collection_ok [OF g ok b True, of d0]) (use True in \<open>auto simp: collected_def Let_def\<close>)
  next
    case False
    moreover have "next_ppn s b \<le> gc_trigger_ppn s b" using ok b by (simp add: ftl_ok_def frontier_ok_def)
    ultimately show ?thesis using ok by simp
  qed
  then obtain s1 where gc: "(if next_ppn s b = gc_trigger_ppn s b then garbage_collection g d0 b s
      else Some s) = Some s1" and ok1: "ftl_ok g s1" and lt: "next_ppn s1 b < gc_trigger_ppn s1 b"
    and pages: "\<And>b' l'. b' < N_BANKS g \<Longrightarrow> l' < N_LPNS_PB g \<Longrightarrow> page_of g s1 b' l' = page_of g s b' l'"
    and st: "host_write (stats s1) = host_write (stats s)" "nand_writes (stats s1) = nand_writes (stats s)"
    by blast
  have m: "mapping_ok g s1 b" using ok1 b by (simp add: ftl_ok_def)
  have "L2P s1 b l = -1 \<or> (\<exists>q < N_PPNS_PB g. L2P s1 b l = int q)"
    using m l mapped_page(1) [OF m l] by (auto simp: mapping_ok_def written_def)
  then have "(if L2P s1 b l \<noteq> -1 then set2 (N_BANKS g) (N_PPNS_PB g) (isValid s1) (int b) (L2P s1 b l) 0
      else Some (isValid s1)) = Some (isValid (put_page g s1 b l data))"
    using b by (auto simp: put_page_def set2_in)
  then have "write_through_lpn g d0 (int b) (int l) data s = Some (put_page g s1 b l data)"
    using gc b l by (simp add: write_through_lpn_def Let_def get2_in set2_in put_page_def)
  then show ?thesis
    by (rule that) (use put_page_ok [OF g ok1 b lt l d] pages st in \<open>simp_all add: put_page_def\<close>)
qed

section \<open>Opening\<close>

lemma ftl_open_ok:
  assumes g: "wf_geom g"
  shows "ftl_ok g (ftl_open g junk s)"
    and "b < N_BANKS g \<Longrightarrow> l < N_LPNS_PB g \<Longrightarrow> page_of g (ftl_open g junk s) b l = None"
proof -
  let ?t = "ftl_open g junk s"
  note gD = wf_geomD [OF g]
  have n: "nand_ok (nand ?t)" "nand_dims (nand ?t) = geom_dims g" "blk_log ?t b k = []" for b k
    using gD nand_init_ok nand_init_log
    by (simp_all add: ftl_open_def blk_log_def nand_dims_def nand_init_def)
  have w: "\<not> written g ?t b q" for b q by (simp add: written_def n)
  have blk: "q div PAGES_PER_BLK g = BLKS_PER_BANK g - 1 \<longleftrightarrow> (BLKS_PER_BANK g - 1) * PAGES_PER_BLK g \<le> q"
    if "q < N_PPNS_PB g" for q
    using ppn_div [OF g that] less_eq_div_iff_mult_less_eq [OF gD(1), of "BLKS_PER_BANK g - 1" q]
    by linarith
  have "frontier_ok g ?t b \<and> mapping_ok g ?t b" if b: "b < N_BANKS g" for b
  proof
    have "(BLKS_PER_BANK g - 1) * PAGES_PER_BLK g \<le> N_PPNS_PB g" by (simp add: N_PPNS_PB_def)
    then show "frontier_ok g ?t b"
      unfolding frontier_ok_def using b gD blk w by (auto simp: ftl_open_def)
    show "mapping_ok g ?t b" unfolding mapping_ok_def using b w by (auto simp: ftl_open_def)
  qed
  with n show "ftl_ok g ?t" by (simp add: ftl_ok_def)
  show "b < N_BANKS g \<Longrightarrow> l < N_LPNS_PB g \<Longrightarrow> page_of g ?t b l = None"
    by (simp add: page_of_def ftl_open_def)
qed

end
