(* ===== verification/FtlIo.thy ===== *)
theory FtlIo
  imports FtlGc
begin

text \<open>
  The host interface of the lab 2 translation layer, \<open>ftl_read\<close> and \<open>ftl_write\<close> of
  \<open>HW2_Submit/ftl.c\<close>: requests of any number of sectors at any sector address, split into
  pages, with a read-modify-write of the pages that are covered in part. The buffer
  arguments are lists, \<open>current_read_buffer\<close> and \<open>current_write_buffer\<close> are offsets into them, the
  local arrays \<open>data\<close> and \<open>spare\<close> are threaded from page to page starting from arbitrary contents
  \<open>d0\<close>. \<open>SECTORS_PER_PAGE\<close> has the type \<open>size_t\<close>, so \<open>/\<close> and \<open>%\<close> by it round down.
\<close>

section \<open>Splitting a request\<close>

record span =
  first_lba_offset :: int
  first_page_first_lba :: int
  last_lba_offset :: int
  last_page_first_lba :: int
  send_kazu :: int

definition span_of :: "u32 \<Rightarrow> u32 \<Rightarrow> span" where
  "span_of lba nsect =
     (let first_lba = sint lba;
          first_lba_offset = first_lba mod 8;
          first_page_first_lba = first_lba - first_lba_offset;
          last_lba = sint (lba + nsect - 1);
          last_lba_offset = last_lba mod 8;
          last_page_first_lba = last_lba - last_lba_offset
      in \<lparr>first_lba_offset = first_lba_offset, first_page_first_lba = first_page_first_lba,
          last_lba_offset = last_lba_offset, last_page_first_lba = last_page_first_lba,
          send_kazu = 1 + (last_page_first_lba - first_page_first_lba) div 8\<rparr>)"

text \<open>Reading the page a logical page is mapped to, \<open>None\<close> inside when it is mapped to none.\<close>

definition fetch_page ::
  "geom \<Rightarrow> 'a ftl_scheme \<Rightarrow> int \<Rightarrow> int \<Rightarrow> u32 list \<times> u32 \<Rightarrow> (u32 list \<times> u32) option option" where
  "fetch_page g s bank halved_lpn d =
     do {
       ppn \<leftarrow> get2 (N_BANKS g) (N_LPNS_PB g) (L2P s) bank halved_lpn;
       Some (if ppn = -1 then None
             else Some (fst (nand_read (nand s) bank (ppn sdiv int (PAGES_PER_BLK g))
                              (ppn smod int (PAGES_PER_BLK g)) d)))
     }"

section \<open>Reading\<close>

definition read_single :: "geom \<Rightarrow> u32 list \<times> u32 \<Rightarrow> span \<Rightarrow> u32 \<Rightarrow> u32 list \<Rightarrow> ftl \<Rightarrow> u32 list option" where
  "read_single g d0 sp nsect buf s =
     (let lpn = first_page_first_lba sp div 8;
          bank = lpn smod int (N_BANKS g);
          halved_lpn = lpn sdiv int (N_BANKS g)
      in do {
        r \<leftarrow> fetch_page g s bank halved_lpn d0;
        case r of
          None \<Rightarrow> fill_to buf 0 0xFFFFFFFF (int (unat nsect))
        | Some (data, spare) \<Rightarrow>
            copy_to buf 0 data (first_lba_offset sp) (last_lba_offset sp + 1 - first_lba_offset sp)
      })"

text \<open>One iteration of the loop over the pages: the local array, the buffer, the offset in it.\<close>

definition read_page ::
  "geom \<Rightarrow> ftl \<Rightarrow> span \<Rightarrow> nat \<Rightarrow> (u32 list \<times> u32) \<times> u32 list \<times> int
     \<Rightarrow> ((u32 list \<times> u32) \<times> u32 list \<times> int) option" where
  "read_page g s sp pp = (\<lambda>(d, buf, cur).
     let lpn = int pp + first_page_first_lba sp div 8;
         bank = lpn smod int (N_BANKS g);
         halved_lpn = lpn sdiv int (N_BANKS g)
     in do {
       r \<leftarrow> fetch_page g s bank halved_lpn d;
       if pp = 0 then
         let sector_kazu = 8 - first_lba_offset sp in
         case r of
           None \<Rightarrow> do {
             buf' \<leftarrow> fill_to buf cur 0xFFFFFFFF sector_kazu;
             Some (d, buf', cur + sector_kazu) }
         | Some d' \<Rightarrow> do {
             buf' \<leftarrow> copy_to buf cur (fst d') (first_lba_offset sp) (8 - first_lba_offset sp);
             Some (d', buf', cur + sector_kazu) }
       else if int pp = send_kazu sp - 1 then
         let sector_kazu = last_lba_offset sp in
         case r of
           None \<Rightarrow> do {
             buf' \<leftarrow> fill_to buf cur 0xFFFFFFFF sector_kazu;
             Some (d, buf', cur + sector_kazu) }
         | Some d' \<Rightarrow> do {
             buf' \<leftarrow> copy_to buf cur (fst d') 0 (last_lba_offset sp + 1);
             Some (d', buf', cur + sector_kazu) }
       else
         case r of
           None \<Rightarrow> do {
             buf' \<leftarrow> fill_to buf cur 0xFFFFFFFF 8;
             Some (d, buf', cur + 8) }
         | Some d' \<Rightarrow> do {
             buf' \<leftarrow> copy_to buf cur (fst d') 0 8;
             Some (d', buf', cur + 8) }
     })"

definition ftl_read ::
  "geom \<Rightarrow> u32 list \<times> u32 \<Rightarrow> u32 \<Rightarrow> u32 \<Rightarrow> u32 list \<Rightarrow> ftl \<Rightarrow> u32 list option" where
  "ftl_read g d0 lba nsect buf s =
     (let sp = span_of lba nsect in
      if send_kazu sp = 1 then read_single g d0 sp nsect buf s
      else do {
        (d, buf', cur) \<leftarrow> for_opt [0..<nat (send_kazu sp)] (read_page g s sp) (d0, buf, 0);
        Some buf'
      })"

section \<open>Writing\<close>

definition write_single ::
  "geom \<Rightarrow> u32 list \<times> u32 \<Rightarrow> u32 list \<times> u32 \<Rightarrow> span \<Rightarrow> u32 list \<Rightarrow> ftl \<Rightarrow> ftl option" where
  "write_single g d0 gd0 sp buf s =
     (let lpn = first_page_first_lba sp div 8;
          bank = lpn smod int (N_BANKS g);
          halved_lpn = lpn sdiv int (N_BANKS g)
      in do {
        r \<leftarrow> fetch_page g s bank halved_lpn d0;
        d \<leftarrow> (case r of
               None \<Rightarrow> do {
                 d1 \<leftarrow> fill_to (fst d0) 0 0xFFFFFFFF (first_lba_offset sp);
                 fill_to d1 (last_lba_offset sp + 1) 0xFFFFFFFF (8 - (last_lba_offset sp + 1)) }
             | Some d' \<Rightarrow> Some (fst d'));
        d2 \<leftarrow> copy_to d (first_lba_offset sp) buf 0 (last_lba_offset sp - first_lba_offset sp + 1);
        write_through_lpn g gd0 bank halved_lpn d2 s
      })"

definition write_page ::
  "geom \<Rightarrow> u32 list \<times> u32 \<Rightarrow> span \<Rightarrow> u32 list \<Rightarrow> nat \<Rightarrow> (u32 list \<times> u32) \<times> ftl \<times> int
     \<Rightarrow> ((u32 list \<times> u32) \<times> ftl \<times> int) option" where
  "write_page g gd0 sp buf pp = (\<lambda>(d, s, cur).
     let lpn = int pp + first_page_first_lba sp div 8;
         bank = lpn smod int (N_BANKS g);
         halved_lpn = lpn sdiv int (N_BANKS g)
     in do {
       (d', sector_transferred) \<leftarrow>
         (if pp = 0 then do {
            r \<leftarrow> fetch_page g s bank halved_lpn d;
            d1 \<leftarrow> (case r of
                    None \<Rightarrow> do {
                      x \<leftarrow> fill_to (fst d) 0 0xFFFFFFFF (first_lba_offset sp);
                      Some (x, snd d) }
                  | Some d1 \<Rightarrow> Some d1);
            x \<leftarrow> copy_to (fst d1) (first_lba_offset sp) buf cur (8 - first_lba_offset sp);
            Some ((x, snd d1), 8 - first_lba_offset sp)
          } else if int pp = send_kazu sp - 1 then do {
            r \<leftarrow> fetch_page g s bank halved_lpn d;
            d1 \<leftarrow> (case r of
                    None \<Rightarrow> do {
                      x \<leftarrow> fill_to (fst d) (last_lba_offset sp + 1) 0xFFFFFFFF
                             (8 - (last_lba_offset sp + 1));
                      Some (x, snd d) }
                  | Some d1 \<Rightarrow> Some d1);
            x \<leftarrow> copy_to (fst d1) 0 buf cur (last_lba_offset sp + 1);
            Some ((x, snd d1), last_lba_offset sp + 1)
          } else do {
            x \<leftarrow> copy_to (fst d) 0 buf cur 8;
            Some ((x, snd d), 8)
          });
       s' \<leftarrow> write_through_lpn g gd0 bank halved_lpn (fst d') s;
       Some (d', s', cur + sector_transferred)
     })"

definition ftl_write ::
  "geom \<Rightarrow> u32 list \<times> u32 \<Rightarrow> u32 list \<times> u32 \<Rightarrow> u32 \<Rightarrow> u32 \<Rightarrow> u32 list \<Rightarrow> ftl \<Rightarrow> ftl option" where
  "ftl_write g d0 gd0 lba nsect buf s =
     (let sp = span_of lba nsect in do {
        s' \<leftarrow> (if send_kazu sp = 1 then write_single g d0 gd0 sp buf s
               else do {
                 (d, s', cur) \<leftarrow> for_opt [0..<nat (send_kazu sp)] (write_page g gd0 sp buf) (d0, s, 0);
                 Some s' });
        Some (s'\<lparr>stats := (stats s')\<lparr>host_write := host_write (stats s') + int (unat nsect)\<rparr>\<rparr>)
      })"

section \<open>The sectors the layer stores\<close>

text \<open>
  The abstract disk: the value of each sector, all ones while its page has not been written.
\<close>

definition sector :: "geom \<Rightarrow> ftl \<Rightarrow> nat \<Rightarrow> u32" where
  "sector g s x = (case page_of g s (x div 8 mod N_BANKS g) (x div 8 div N_BANKS g) of
     None \<Rightarrow> 0xFFFFFFFF | Some d \<Rightarrow> d ! (x mod 8))"

lemma lpn_addr:
  assumes "wf_geom g" "lpn < N_LPNS g"
  shows "lpn mod N_BANKS g < N_BANKS g" "lpn div N_BANKS g < N_LPNS_PB g"
  using assms wf_geomD(2) [OF assms(1)] by (simp_all add: N_LPNS_def less_mult_imp_div_less)

lemma page_of_length:
  assumes g: "wf_geom g" and ok: "ftl_ok g s" and b: "b < N_BANKS g" and l: "l < N_LPNS_PB g"
    and d: "page_of g s b l = Some d"
  shows "length d = 8"
proof -
  have s: "nand_ok (nand s)" "nand_dims (nand s) = geom_dims g" "mapping_ok g s b"
    using ok b by (auto simp: ftl_ok_def)
  obtain p where p: "L2P s b l = int p" using d s(3) l by (auto simp: page_of_def mapping_ok_def split: if_splits)
  have w: "written g s b p" using mapped_page(1) [OF s(3) l p] .
  have "page_good (pg_at g s b p)"
    using log_page_good [OF s(1,2) b, of "p div PAGES_PER_BLK g" "p mod PAGES_PER_BLK g"]
      ppn_div [OF g, of p] w wf_geomD(1) [OF g] by (simp add: written_def pg_at_def blk_log_def)
  with d p show ?thesis by (simp add: page_of_def page_good_def)
qed

lemma fetch_page_ok:
  assumes g: "wf_geom g" and ok: "ftl_ok g s" and b: "b < N_BANKS g" and l: "l < N_LPNS_PB g"
  shows "fetch_page g s (int b) (int l) d =
    Some (map_option (\<lambda>x. (x, word_of_nat l)) (page_of g s b l))"
proof (cases "L2P s b l = -1")
  case True
  then show ?thesis using b l by (simp add: fetch_page_def get2_in page_of_def)
next
  case False
  have s: "nand_ok (nand s)" "nand_dims (nand s) = geom_dims g" "mapping_ok g s b"
    using ok b by (auto simp: ftl_ok_def)
  obtain p where p: "L2P s b l = int p" using s(3) l False by (auto simp: mapping_ok_def)
  note mp = mapped_page [OF s(3) l p]
  have pN: "p < N_PPNS_PB g" using mp(1) by (simp add: written_def)
  have "nand_read (nand s) (int b) (int (p div PAGES_PER_BLK g)) (int (p mod PAGES_PER_BLK g)) d =
      (pg_at g s b p, 0)"
    using log_read [OF s(1,2) b] ppn_div [OF g pN] mp(1)
    by (simp add: written_def pg_at_def blk_log_def)
  then show ?thesis
    using b l p mp(3) by (simp add: fetch_page_def get2_in page_of_def prod_eq_iff)
qed

lemma sector_page:
  assumes "j < 8"
  shows "sector g s (8 * lpn + j) =
     (case page_of g s (lpn mod N_BANKS g) (lpn div N_BANKS g) of None \<Rightarrow> 0xFFFFFFFF | Some d \<Rightarrow> d ! j)"
proof -
  have "(8 * lpn + j) div 8 = lpn" "(8 * lpn + j) mod 8 = j"
    using div_mod_split [OF assms, of lpn] by (simp_all add: mult.commute)
  then show ?thesis by (simp only: sector_def)
qed

text \<open>A logical page that was written: the layer has a physical page for it.\<close>

definition mapped :: "geom \<Rightarrow> ftl \<Rightarrow> nat \<Rightarrow> bool" where
  "mapped g s lpn \<longleftrightarrow> page_of g s (lpn mod N_BANKS g) (lpn div N_BANKS g) \<noteq> None"

lemma write_sectors:
  assumes g: "wf_geom g" and ok: "ftl_ok g s" and lpn: "lpn < N_LPNS g" and x: "length x = 8"
  shows "\<exists>t. write_through_lpn g gd0 (int lpn smod int (N_BANKS g)) (int lpn sdiv int (N_BANKS g)) x s = Some t \<and>
    ftl_ok g t \<and> (\<forall>y < 8 * N_LPNS g. sector g t y = (if y div 8 = lpn then x ! (y mod 8) else sector g s y)) \<and>
    host_write (stats t) = host_write (stats s) \<and>
    (\<forall>k < N_LPNS g. mapped g t k \<longleftrightarrow> k = lpn \<or> mapped g s k)"
proof -
  note a = lpn_addr [OF g lpn]
  obtain t where t: "write_through_lpn g gd0 (int (lpn mod N_BANKS g)) (int (lpn div N_BANKS g)) x s = Some t"
    "ftl_ok g t" "host_write (stats t) = host_write (stats s)"
    "\<And>b' l'. b' < N_BANKS g \<Longrightarrow> l' < N_LPNS_PB g \<Longrightarrow> page_of g t b' l' =
      (if b' = lpn mod N_BANKS g \<and> l' = lpn div N_BANKS g then Some x else page_of g s b' l')"
    using write_through_lpn_ok [OF g ok a x] by metis
  have "sector g t y = (if y div 8 = lpn then x ! (y mod 8) else sector g s y)" if "y < 8 * N_LPNS g" for y
  proof -
    have y: "y div 8 < N_LPNS g" using that by (simp add: less_mult_imp_div_less mult.commute)
    have "y div 8 = lpn" if "y div 8 mod N_BANKS g = lpn mod N_BANKS g" "y div 8 div N_BANKS g = lpn div N_BANKS g"
      using that by (metis div_mult_mod_eq)
    then show ?thesis using t(4) [OF lpn_addr [OF g y]] by (auto simp: sector_def)
  qed
  moreover have "mapped g t k \<longleftrightarrow> k = lpn \<or> mapped g s k" if k: "k < N_LPNS g" for k
  proof -
    have "k = lpn" if "k mod N_BANKS g = lpn mod N_BANKS g" "k div N_BANKS g = lpn div N_BANKS g"
      using that by (metis div_mult_mod_eq)
    then show ?thesis using t(4) [OF lpn_addr [OF g k]] by (auto simp: mapped_def)
  qed
  ultimately show ?thesis using t(1-3) by auto
qed

text \<open>The local array after the old contents of a page are in it, at the positions kept.\<close>

lemma fetch_fill:
  assumes g: "wf_geom g" and ok: "ftl_ok g s" and lpn: "lpn < N_LPNS g"
    and d: "length (fst d) = 8" and am: "a + m \<le> 8"
  shows "\<exists>r d1. fetch_page g s (int lpn smod int (N_BANKS g)) (int lpn sdiv int (N_BANKS g)) d = Some r \<and>
    (case r of None \<Rightarrow> do { x \<leftarrow> fill_to (fst d) (int a) 0xFFFFFFFF (int m); Some (x, snd d) }
     | Some d1 \<Rightarrow> Some d1) = Some d1 \<and> length (fst d1) = 8 \<and>
    (\<forall>j. a \<le> j \<longrightarrow> j < a + m \<longrightarrow> fst d1 ! j = sector g s (8 * lpn + j))"
proof -
  note ad = lpn_addr [OF g lpn]
  note f = fetch_page_ok [OF g ok ad, of d]
  show ?thesis
  proof (cases "page_of g s (lpn mod N_BANKS g) (lpn div N_BANKS g)")
    case None
    obtain x where x: "fill_to (fst d) (int a) 0xFFFFFFFF (int m) = Some x" "length x = 8"
      "\<forall>j < 8. x ! j = (if a \<le> j \<and> j < a + m then 0xFFFFFFFF else fst d ! j)"
      using fill_to_run [of a m "fst d" "0xFFFFFFFF"] am d by auto
    show ?thesis
      using f None x am by (intro exI [of _ None] exI [of _ "(x, snd d)"]) (auto simp: sector_page)
  next
    case (Some p)
    have "length p = 8" using page_of_length [OF g ok ad Some] .
    then show ?thesis
      using f Some am
      by (intro exI [of _ "Some (p, word_of_nat (lpn div N_BANKS g))"]
          exI [of _ "(p, word_of_nat (lpn div N_BANKS g))"]) (auto simp: sector_page)
  qed
qed

text \<open>The arithmetic of a request that stays inside the disk.\<close>

definition req_ok :: "geom \<Rightarrow> u32 \<Rightarrow> u32 \<Rightarrow> bool" where
  "req_ok g lba nsect \<longleftrightarrow> 0 < unat nsect \<and> unat lba + unat nsect \<le> 8 * N_LPNS g"

lemma disk_bound:
  assumes "wf_geom g"
  shows "8 * N_LPNS g < 2 ^ 31"
proof -
  have "N_LPNS_PB g \<le> N_PPNS_PB g"
    using wf_geomD(3,4) [OF assms] by (simp add: N_PPNS_PB_def diff_mult_distrib)
  then have "N_LPNS_PB g * N_BANKS g * 8 \<le> N_PPNS_PB g * N_BANKS g * 8" by simp
  moreover have "N_PPNS_PB g * N_BANKS g * 8 < 2 ^ 31"
    using assms by (simp add: wf_geom_def N_PPNS_PB_def mult.commute mult.left_commute)
  ultimately show ?thesis unfolding N_LPNS_def by linarith
qed

lemma span_of_req:
  assumes g: "wf_geom g" and r: "req_ok g lba nsect"
  defines "A \<equiv> unat lba" and "E \<equiv> unat lba + unat nsect - 1"
  shows "span_of lba nsect = \<lparr>first_lba_offset = int (A mod 8), first_page_first_lba = int (8 * (A div 8)),
    last_lba_offset = int (E mod 8), last_page_first_lba = int (8 * (E div 8)),
    send_kazu = int (1 + E div 8 - A div 8)\<rparr>"
proof -
  have b: "unat lba + unat nsect < 2 ^ 31" "0 < unat nsect"
    using r disk_bound [OF g] by (auto simp: req_ok_def)
  have "lba + nsect - 1 = word_of_nat E"
    using b by (simp add: E_def of_nat_diff)
  then have e: "sint (lba + nsect - 1) = int E"
    using sint_of_nat_small [of E] b by (simp add: E_def)
  have f: "sint lba = int A" using sint_small [of lba] b by (simp add: A_def)
  have m: "int n - int (n mod 8) = int (8 * (n div 8))" for n
    by (simp add: minus_mod_eq_mult_div zdiv_int zmod_int)
  have AE: "A div 8 \<le> E div 8" using b(2) by (intro div_le_mono) (simp add: A_def E_def)
  then have k: "int (8 * (E div 8)) - int (8 * (A div 8)) = int (8 * (E div 8 - A div 8))"
    by (simp add: of_nat_diff)
  have k': "1 + int (8 * (E div 8 - A div 8)) div 8 = int (1 + E div 8 - A div 8)"
    using AE by (simp add: of_nat_diff)
  have z: "int n mod 8 = int (n mod 8)" for n by (simp add: zmod_int)
  show ?thesis
    unfolding span_of_def Let_def e f z m k k' ..
qed

section \<open>Writing stores the sectors of the request\<close>

text \<open>The image of the first, the last, a middle and the only page of a request.\<close>

lemma copy_page:
  assumes d: "length d = 8" and cd: "c + m \<le> length buf" and am: "a + m \<le> 8"
    and old: "\<And>j. j < 8 \<Longrightarrow> \<not> (a \<le> j \<and> j < a + m) \<Longrightarrow> d ! j = old (8 * lpn + j)"
    and A: "8 * lpn + a = A + c" and E: "a = 0 \<or> c = 0" "a + m = 8 \<or> c + m = n"
    and n: "c + m \<le> n"
  shows "\<exists>x. copy_to d (int a) buf (int c) (int m) = Some x \<and> length x = 8 \<and>
    (\<forall>j < 8. x ! j = (if A \<le> 8 * lpn + j \<and> 8 * lpn + j < A + n then buf ! (8 * lpn + j - A)
                      else old (8 * lpn + j)))"
proof -
  obtain x where x: "copy_to d (int a) buf (int c) (int m) = Some x" "length x = 8"
    "\<forall>j < 8. x ! j = (if a \<le> j \<and> j < a + m then buf ! (c + (j - a)) else d ! j)"
    using copy_to_run [of a m d c buf] am cd d by auto
  have "x ! j = (if A \<le> 8 * lpn + j \<and> 8 * lpn + j < A + n then buf ! (8 * lpn + j - A)
      else old (8 * lpn + j))" if "j < 8" for j
  proof (cases "a \<le> j \<and> j < a + m")
    case True
    then have "8 * lpn + j - A = c + (j - a)" "A \<le> 8 * lpn + j" "8 * lpn + j < A + n" using A n by linarith+
    with True x(3) that show ?thesis by simp
  next
    case False
    then have "\<not> (A \<le> 8 * lpn + j \<and> 8 * lpn + j < A + n)" using A E n that by linarith
    then have "(if A \<le> 8 * lpn + j \<and> 8 * lpn + j < A + n then buf ! (8 * lpn + j - A)
        else old (8 * lpn + j)) = old (8 * lpn + j)" by (rule if_not_P)
    moreover have "x ! j = d ! j" using x(3) that False by (simp only: if_False)
    ultimately show ?thesis using old [OF that False] by simp
  qed
  with x show ?thesis by blast
qed

text \<open>The sectors after a page with that image has been written.\<close>

definition overlay :: "nat \<Rightarrow> nat \<Rightarrow> u32 list \<Rightarrow> nat \<Rightarrow> (nat \<Rightarrow> u32) \<Rightarrow> nat \<Rightarrow> u32" where
  "overlay A n buf lim old y = (if A \<le> y \<and> y < A + n \<and> y < lim then buf ! (y - A) else old y)"

lemma overlay_page:
  assumes img: "\<forall>j < 8. x ! j = (if A \<le> 8 * lpn + j \<and> 8 * lpn + j < A + n then buf ! (8 * lpn + j - A)
      else overlay A n buf (8 * lpn) old (8 * lpn + j))"
  shows "(if y div 8 = lpn then x ! (y mod 8) else overlay A n buf (8 * lpn) old y) =
    overlay A n buf (8 * Suc lpn) old y"
proof (cases "y div 8 = lpn")
  case True
  then have y: "8 * lpn + y mod 8 = y" "y mod 8 < 8" by auto
  then have "y < 8 * Suc lpn" by simp
  with img y True show ?thesis by (auto simp: overlay_def)
next
  case False
  then have "y < 8 * lpn \<or> 8 * Suc lpn \<le> y" by auto
  with False show ?thesis by (auto simp: overlay_def)
qed

lemma split_req:
  assumes "0 < (n :: nat)"
  obtains k0 o0 k1 o1 where "A = 8 * k0 + o0" "A + n - 1 = 8 * k1 + o1" "o0 < 8" "o1 < 8" "k0 \<le> k1"
    "A div 8 = k0" "A mod 8 = o0" "(A + n - 1) div 8 = k1" "(A + n - 1) mod 8 = o1"
proof (rule that [of "A div 8" "A mod 8" "(A + n - 1) div 8" "(A + n - 1) mod 8"])
  show "A div 8 \<le> (A + n - 1) div 8" using assms by (intro div_le_mono) simp
qed simp_all

text \<open>One iteration of the writing loop.\<close>

definition wr_inv ::
  "geom \<Rightarrow> ftl \<Rightarrow> nat \<Rightarrow> nat \<Rightarrow> u32 list \<Rightarrow> nat \<Rightarrow> (u32 list \<times> u32) \<times> ftl \<times> int \<Rightarrow> bool" where
  "wr_inv g s0 A n buf pp dst \<longleftrightarrow> (case dst of (d, s, cur) \<Rightarrow>
     length (fst d) = 8 \<and> ftl_ok g s \<and> host_write (stats s) = host_write (stats s0) \<and>
     (pp \<le> (A + n - 1) div 8 - A div 8 \<longrightarrow> cur = int (8 * pp - A mod 8)) \<and>
     (\<forall>y < 8 * N_LPNS g. sector g s y = overlay A n buf (8 * (A div 8 + pp)) (sector g s0) y) \<and>
     (\<forall>k < N_LPNS g. A div 8 \<le> k \<and> k < A div 8 + pp \<longrightarrow> mapped g s k))"

lemma write_page_step:
  assumes g: "wf_geom g" and r: "req_ok g lba nsect" and buf: "unat nsect \<le> length buf"
    and multi: "send_kazu (span_of lba nsect) \<noteq> 1" and pp: "int pp < send_kazu (span_of lba nsect)"
    and inv: "wr_inv g s0 (unat lba) (unat nsect) buf pp dst"
  shows "\<exists>dst'. write_page g gd0 (span_of lba nsect) buf pp dst = Some dst' \<and>
    wr_inv g s0 (unat lba) (unat nsect) buf (Suc pp) dst'"
proof -
  define A n where "A = unat lba" and "n = unat nsect"
  have n0: "0 < n" and An: "A + n \<le> 8 * N_LPNS g" using r by (auto simp: req_ok_def A_def n_def)
  obtain k0 o0 k1 o1 where k: "A = 8 * k0 + o0" "A + n - 1 = 8 * k1 + o1" "o0 < 8" "o1 < 8" "k0 \<le> k1"
    and kd: "A div 8 = k0" "A mod 8 = o0" "(A + n - 1) div 8 = k1" "(A + n - 1) mod 8 = o1"
    using split_req [OF n0, of A] by metis
  note sp = span_of_req [OF g r, folded A_def n_def, unfolded kd]
  have ppk: "pp \<le> k1 - k0" and k01: "k0 < k1" using pp multi k(5) by (simp_all add: sp)
  let ?l = "k0 + pp"
  have l1: "?l \<le> k1" and l: "?l < N_LPNS g" using ppk k01 k(2,5) An n0 by linarith+
  obtain d s cur where dst: "dst = (d, s, cur)" by (cases dst)
  have d: "length (fst d) = 8" and ok: "ftl_ok g s" and hw: "host_write (stats s) = host_write (stats s0)"
    and cur: "cur = int (8 * pp - o0)"
    and sec: "\<And>y. y < 8 * N_LPNS g \<Longrightarrow> sector g s y = overlay A n buf (8 * ?l) (sector g s0) y"
    and mp: "\<And>k. k < N_LPNS g \<Longrightarrow> k0 \<le> k \<Longrightarrow> k < ?l \<Longrightarrow> mapped g s k"
    using inv ppk unfolding wr_inv_def dst prod.case A_def [symmetric] n_def [symmetric] kd by blast+
  have sec': "sector g s (8 * ?l + j) = overlay A n buf (8 * ?l) (sector g s0) (8 * ?l + j)" if "j < 8" for j
    using that l by (intro sec) presburger
  have lpn: "int pp + first_page_first_lba (span_of lba nsect) div 8 = int ?l" by (simp add: sp)
  have sps: "first_lba_offset (span_of lba nsect) = int o0" "last_lba_offset (span_of lba nsect) = int o1"
    "send_kazu (span_of lba nsect) = int (1 + k1 - k0)" by (simp_all add: sp)
  define c where "c = 8 * pp - o0"
  let ?prep = "if pp = 0 then do {
            r \<leftarrow> fetch_page g s (int ?l smod int (N_BANKS g)) (int ?l sdiv int (N_BANKS g)) d;
            d1 \<leftarrow> (case r of None \<Rightarrow> do { x \<leftarrow> fill_to (fst d) 0 0xFFFFFFFF (int o0); Some (x, snd d) }
                  | Some d1 \<Rightarrow> Some d1);
            x \<leftarrow> copy_to (fst d1) (int o0) buf cur (8 - int o0);
            Some ((x, snd d1), 8 - int o0)
          } else if int pp = int (1 + k1 - k0) - 1 then do {
            r \<leftarrow> fetch_page g s (int ?l smod int (N_BANKS g)) (int ?l sdiv int (N_BANKS g)) d;
            d1 \<leftarrow> (case r of None \<Rightarrow> do {
                      x \<leftarrow> fill_to (fst d) (int o1 + 1) 0xFFFFFFFF (8 - (int o1 + 1)); Some (x, snd d) }
                  | Some d1 \<Rightarrow> Some d1);
            x \<leftarrow> copy_to (fst d1) 0 buf cur (int o1 + 1);
            Some ((x, snd d1), int o1 + 1)
          } else do {
            x \<leftarrow> copy_to (fst d) 0 buf cur 8;
            Some ((x, snd d), 8)
          }"
  let ?img = "\<lambda>x. \<forall>j < 8. x ! j = (if A \<le> 8 * ?l + j \<and> 8 * ?l + j < A + n then buf ! (8 * ?l + j - A)
      else overlay A n buf (8 * ?l) (sector g s0) (8 * ?l + j))"
  have prep: "\<exists>x sp' m. ?prep = Some ((x, sp'), m) \<and> length x = 8 \<and> ?img x \<and>
      (Suc pp \<le> k1 - k0 \<longrightarrow> cur + m = int (8 * Suc pp - o0))"
  proof -
    consider (first) "pp = 0" | (last) "pp \<noteq> 0" "pp = k1 - k0" | (mid) "pp \<noteq> 0" "pp < k1 - k0"
      using ppk by linarith
    then show ?thesis
    proof cases
      case first
      obtain q d1 where q: "fetch_page g s (int ?l smod int (N_BANKS g)) (int ?l sdiv int (N_BANKS g)) d = Some q"
        "(case q of None \<Rightarrow> do { x \<leftarrow> fill_to (fst d) 0 0xFFFFFFFF (int o0); Some (x, snd d) }
          | Some d1 \<Rightarrow> Some d1) = Some d1" "length (fst d1) = 8"
        "\<forall>j. 0 \<le> j \<longrightarrow> j < o0 \<longrightarrow> fst d1 ! j = sector g s (8 * ?l + j)"
        using fetch_fill [OF g ok l d, of 0 o0] k(3) unfolding int_ops(1) add_0 by (metis less_imp_le_nat)
      have "\<exists>x. copy_to (fst d1) (int o0) buf (int 0) (int (8 - o0)) = Some x \<and> length x = 8 \<and> ?img x"
        by (rule copy_page) (use q(3,4) sec' k k01 buf first n_def in auto)
      then obtain x where "copy_to (fst d1) (int o0) buf cur (8 - int o0) = Some x" "length x = 8" "?img x"
        using first cur k(3) by (auto simp: of_nat_diff)
      then show ?thesis
        using first cur k(3) q(1) by (intro exI [of _ x] exI [of _ "snd d1"] exI [of _ "8 - int o0"])
          (simp add: q(2) of_nat_diff)
    next
      case last
      have e: "int (o1 + 1) = int o1 + 1" "int (8 - (o1 + 1)) = 8 - (int o1 + 1)" using k(4) by simp_all
      obtain q d1 where q: "fetch_page g s (int ?l smod int (N_BANKS g)) (int ?l sdiv int (N_BANKS g)) d = Some q"
        "(case q of None \<Rightarrow> do {
            x \<leftarrow> fill_to (fst d) (int o1 + 1) 0xFFFFFFFF (8 - (int o1 + 1)); Some (x, snd d) }
          | Some d1 \<Rightarrow> Some d1) = Some d1" "length (fst d1) = 8"
        "\<forall>j. o1 + 1 \<le> j \<longrightarrow> j < o1 + 1 + (8 - (o1 + 1)) \<longrightarrow> fst d1 ! j = sector g s (8 * ?l + j)"
        using fetch_fill [OF g ok l d, of "o1 + 1" "8 - (o1 + 1)"] k(4) unfolding e by auto
      have "\<exists>x. copy_to (fst d1) (int 0) buf (int c) (int (o1 + 1)) = Some x \<and> length x = 8 \<and> ?img x"
        by (rule copy_page) (use q(3,4) sec' k k01 buf last n_def c_def in auto)
      then obtain x where "copy_to (fst d1) 0 buf cur (int o1 + 1) = Some x" "length x = 8" "?img x"
        using cur unfolding c_def [symmetric] e int_ops(1) by blast
      then show ?thesis
        using last k(5) q(1) by (intro exI [of _ x] exI [of _ "snd d1"] exI [of _ "int o1 + 1"])
          (simp add: q(2) of_nat_diff del: smod_of_nat sdiv_of_nat of_nat_add)
    next
      case mid
      have "\<exists>x. copy_to (fst d) (int 0) buf (int c) (int 8) = Some x \<and> length x = 8 \<and> ?img x"
        by (rule copy_page) (use d k k01 buf mid n_def c_def in auto)
      then show ?thesis using mid cur k(3,5) by (auto simp: of_nat_diff c_def)
    qed
  qed
  then obtain x sp' m where x: "?prep = Some ((x, sp'), m)" "length x = 8" "?img x"
    "Suc pp \<le> k1 - k0 \<longrightarrow> cur + m = int (8 * Suc pp - o0)" by blast
  obtain t where t: "write_through_lpn g gd0 (int ?l smod int (N_BANKS g)) (int ?l sdiv int (N_BANKS g)) x s = Some t"
    "ftl_ok g t" "host_write (stats t) = host_write (stats s)"
    "\<forall>y < 8 * N_LPNS g. sector g t y = (if y div 8 = ?l then x ! (y mod 8) else sector g s y)"
    "\<forall>k < N_LPNS g. mapped g t k \<longleftrightarrow> k = ?l \<or> mapped g s k"
    using write_sectors [OF g ok l x(2)] by metis
  have "write_page g gd0 (span_of lba nsect) buf pp dst = Some ((x, sp'), t, cur + m)"
    using x(1) t(1) by (simp only: write_page_def dst prod.case lpn Let_def sps
        Option.bind.bind_lunit fst_conv)
  moreover have "\<forall>y < 8 * N_LPNS g. sector g t y = overlay A n buf (8 * (k0 + Suc pp)) (sector g s0) y"
  proof (intro allI impI)
    fix y assume y: "y < 8 * N_LPNS g"
    have "sector g t y = (if y div 8 = ?l then x ! (y mod 8) else overlay A n buf (8 * ?l) (sector g s0) y)"
      using t(4) y sec [OF y] by simp
    then show "sector g t y = overlay A n buf (8 * (k0 + Suc pp)) (sector g s0) y"
      unfolding overlay_page [OF x(3)] by simp
  qed
  moreover have "\<forall>k < N_LPNS g. k0 \<le> k \<and> k < k0 + Suc pp \<longrightarrow> mapped g t k"
    using t(5) mp by (auto simp: less_Suc_eq)
  ultimately show ?thesis
    using x(2,4) t(2,3) hw
    unfolding wr_inv_def A_def [symmetric] n_def [symmetric] kd by simp
qed

lemma write_single_ok:
  assumes g: "wf_geom g" and ok: "ftl_ok g s" and r: "req_ok g lba nsect"
    and buf: "unat nsect \<le> length buf" and d0: "length (fst d0) = 8"
    and single: "send_kazu (span_of lba nsect) = 1"
  shows "\<exists>t. write_single g d0 gd0 (span_of lba nsect) buf s = Some t \<and> ftl_ok g t \<and>
    host_write (stats t) = host_write (stats s) \<and>
    (\<forall>y < 8 * N_LPNS g. sector g t y =
       overlay (unat lba) (unat nsect) buf (8 * Suc (unat lba div 8)) (sector g s) y) \<and>
    mapped g t (unat lba div 8)"
proof -
  define A n where "A = unat lba" and "n = unat nsect"
  have n0: "0 < n" and An: "A + n \<le> 8 * N_LPNS g" using r by (auto simp: req_ok_def A_def n_def)
  obtain k0 o0 k1 o1 where k: "A = 8 * k0 + o0" "A + n - 1 = 8 * k1 + o1" "o0 < 8" "o1 < 8" "k0 \<le> k1"
    and kd: "A div 8 = k0" "A mod 8 = o0" "(A + n - 1) div 8 = k1" "(A + n - 1) mod 8 = o1"
    using split_req [OF n0, of A] by metis
  note sp = span_of_req [OF g r, folded A_def n_def, unfolded kd]
  have eq: "k1 = k0" using single k(5) by (simp add: sp)
  have on: "o0 + n = o1 + 1" using k(1,2) eq n0 by linarith
  have l: "k0 < N_LPNS g" using k(1) An n0 by linarith
  note ad = lpn_addr [OF g l]
  let ?old = "sector g s"
  have lpn: "first_page_first_lba (span_of lba nsect) div 8 = int k0"
    and offs: "first_lba_offset (span_of lba nsect) = int o0" "last_lba_offset (span_of lba nsect) = int o1"
    by (simp_all add: sp)
  have "\<exists>q d. fetch_page g s (int (k0 mod N_BANKS g)) (int (k0 div N_BANKS g)) d0 = Some q \<and>
     (case q of None \<Rightarrow> do {
                 d1 \<leftarrow> fill_to (fst d0) 0 0xFFFFFFFF (int o0);
                 fill_to d1 (int o1 + 1) 0xFFFFFFFF (8 - (int o1 + 1)) }
             | Some d' \<Rightarrow> Some (fst d')) = Some d \<and> length d = 8 \<and>
     (\<forall>j < 8. \<not> (o0 \<le> j \<and> j < o0 + n) \<longrightarrow> d ! j = ?old (8 * k0 + j))"
  proof (cases "page_of g s (k0 mod N_BANKS g) (k0 div N_BANKS g)")
    case None
    obtain d1 where d1: "fill_to (fst d0) (int 0) 0xFFFFFFFF (int o0) = Some d1" "length d1 = 8"
      "\<forall>j < 8. d1 ! j = (if 0 \<le> j \<and> j < 0 + o0 then 0xFFFFFFFF else fst d0 ! j)"
      using fill_to_run [of 0 o0 "fst d0" "0xFFFFFFFF"] k(3) d0 by auto
    obtain d where d: "fill_to d1 (int (o1 + 1)) 0xFFFFFFFF (int (8 - (o1 + 1))) = Some d" "length d = 8"
      "\<forall>j < 8. d ! j = (if o1 + 1 \<le> j \<and> j < o1 + 1 + (8 - (o1 + 1)) then 0xFFFFFFFF else d1 ! j)"
      using fill_to_run [of "o1 + 1" "8 - (o1 + 1)" d1 "0xFFFFFFFF"] k(4) d1(2) by auto
    have "fill_to d1 (int o1 + 1) 0xFFFFFFFF (8 - (int o1 + 1)) = Some d"
      using d(1) k(4) by (simp add: of_nat_diff add.commute)
    moreover have "d ! j = 0xFFFFFFFF" if "j < 8" "\<not> (o0 \<le> j \<and> j < o0 + n)" for j
      using that d(3) d1(3) on by auto
    ultimately show ?thesis
      using d(2) d1 None fetch_page_ok [OF g ok ad, of d0]
      by (intro exI [of _ None] exI [of _ d]) (simp add: sector_page)
  next
    case (Some p)
    with page_of_length [OF g ok ad] fetch_page_ok [OF g ok ad, of d0] show ?thesis
      by (intro exI [of _ "Some (p, word_of_nat (k0 div N_BANKS g))"] exI [of _ p]) (auto simp: sector_page)
  qed
  then obtain q d where q: "fetch_page g s (int (k0 mod N_BANKS g)) (int (k0 div N_BANKS g)) d0 = Some q"
    "(case q of None \<Rightarrow> do {
                 d1 \<leftarrow> fill_to (fst d0) 0 0xFFFFFFFF (int o0);
                 fill_to d1 (int o1 + 1) 0xFFFFFFFF (8 - (int o1 + 1)) }
             | Some d' \<Rightarrow> Some (fst d')) = Some d" "length d = 8"
    "\<forall>j < 8. \<not> (o0 \<le> j \<and> j < o0 + n) \<longrightarrow> d ! j = ?old (8 * k0 + j)" by blast
  have "\<exists>x. copy_to d (int o0) buf (int 0) (int n) = Some x \<and> length x = 8 \<and>
    (\<forall>j < 8. x ! j = (if A \<le> 8 * k0 + j \<and> 8 * k0 + j < A + n then buf ! (8 * k0 + j - A)
                      else ?old (8 * k0 + j)))"
    by (rule copy_page) (use q(3,4) k on buf in \<open>auto simp: n_def [symmetric]\<close>)
  then obtain x where x: "copy_to d (int o0) buf (int 0) (int n) = Some x" "length x = 8"
    "\<forall>j < 8. x ! j = (if A \<le> 8 * k0 + j \<and> 8 * k0 + j < A + n then buf ! (8 * k0 + j - A)
                      else ?old (8 * k0 + j))" by blast
  obtain t where t: "write_through_lpn g gd0 (int (k0 mod N_BANKS g)) (int (k0 div N_BANKS g)) x s = Some t"
    "ftl_ok g t" "host_write (stats t) = host_write (stats s)"
    "\<forall>y < 8 * N_LPNS g. sector g t y = (if y div 8 = k0 then x ! (y mod 8) else ?old y)"
    "\<forall>k < N_LPNS g. mapped g t k \<longleftrightarrow> k = k0 \<or> mapped g s k"
    using write_sectors [OF g ok l x(2), of gd0] by auto
  have no: "overlay A n buf (8 * k0) ?old y = ?old y" for y using k(1) by (auto simp: overlay_def)
  have "sector g t y = overlay A n buf (8 * Suc k0) ?old y" if "y < 8 * N_LPNS g" for y
    using overlay_page [of x A k0 n buf ?old y] x(3) t(4) that unfolding no by simp
  moreover have cnt: "int o1 - int o0 + 1 = int n" using on by linarith
  have "write_single g d0 gd0 (span_of lba nsect) buf s = Some t"
    using x(1) t(1) unfolding int_ops(1)
    by (simp only: write_single_def Let_def lpn offs cnt smod_of_nat sdiv_of_nat q(1,2) of_nat_0
        Option.bind.bind_lunit)
  ultimately show ?thesis
    using t(2,3,5) l by (simp add: kd A_def [symmetric] n_def [symmetric])
qed

text \<open>
  A write request stores its sectors, changes no other, keeps the invariant, and leaves every
  page it touches mapped.
\<close>

lemma ftl_write_maps:
  assumes g: "wf_geom g" and ok: "ftl_ok g s" and r: "req_ok g lba nsect"
    and buf: "unat nsect \<le> length buf" and d0: "length (fst d0) = 8"
  shows "\<exists>t. ftl_write g d0 gd0 lba nsect buf s = Some t \<and> ftl_ok g t \<and>
    host_write (stats t) = host_write (stats s) + int (unat nsect) \<and>
    (\<forall>y < 8 * N_LPNS g. sector g t y =
       (if unat lba \<le> y \<and> y < unat lba + unat nsect then buf ! (y - unat lba) else sector g s y)) \<and>
    mapped g t ((unat lba + unat nsect - 1) div 8)"
proof -
  define A n where "A = unat lba" and "n = unat nsect"
  define K where "K = (A + n - 1) div 8 - A div 8"
  have n0: "0 < n" using r by (auto simp: req_ok_def n_def)
  let ?sp = "span_of lba nsect"
  have kz: "send_kazu ?sp = int (Suc K)"
    using span_of_req [OF g r] n0 div_le_mono [of A "A + n - 1" 8]
    by (simp add: A_def [symmetric] n_def [symmetric] K_def)
  have lastk: "A div 8 + K = (A + n - 1) div 8"
    using n0 div_le_mono [of A "A + n - 1" 8] by (simp add: K_def)
  have lim: "overlay A n buf (8 * (A div 8 + Suc K)) f y =
      (if A \<le> y \<and> y < A + n then buf ! (y - A) else f y)" for f y
  proof -
    have "A div 8 \<le> (A + n - 1) div 8" using n0 by (intro div_le_mono) simp
    then have "A div 8 + Suc K = Suc ((A + n - 1) div 8)" unfolding K_def by linarith
    moreover have "A + n - 1 < 8 * Suc ((A + n - 1) div 8)" by (simp add: dividend_less_times_div)
    ultimately have "A + n \<le> 8 * (A div 8 + Suc K)" using n0 by simp
    then show ?thesis by (auto simp: overlay_def)
  qed
  have "\<exists>t. (if send_kazu ?sp = 1 then write_single g d0 gd0 ?sp buf s
      else do { (d, s', cur) \<leftarrow> for_opt [0..<nat (send_kazu ?sp)] (write_page g gd0 ?sp buf) (d0, s, 0);
                Some s' }) = Some t \<and> ftl_ok g t \<and> host_write (stats t) = host_write (stats s) \<and>
      (\<forall>y < 8 * N_LPNS g. sector g t y = overlay A n buf (8 * (A div 8 + Suc K)) (sector g s) y) \<and>
      mapped g t (A div 8 + K)"
  proof (cases "send_kazu ?sp = 1")
    case True
    then have "K = 0" using kz by simp
    with write_single_ok [OF g ok r buf d0 True, of gd0] True show ?thesis
      by (simp add: A_def n_def)
  next
    case False
    have "\<exists>dst. for_opt [0..<Suc K] (write_page g gd0 ?sp buf) (d0, s, 0) = Some dst \<and>
        wr_inv g s A n buf (Suc K) dst"
    proof (rule for_opt_rule)
      show "wr_inv g s A n buf 0 (d0, s, 0)"
        using d0 ok by (auto simp: wr_inv_def overlay_def)
      show "\<exists>t'. write_page g gd0 ?sp buf i t = Some t' \<and> wr_inv g s A n buf (Suc i) t'"
        if "i < Suc K" "wr_inv g s A n buf i t" for i t
        using write_page_step [OF g r buf False, of i] that kz by (simp add: A_def n_def)
    qed
    moreover have "nat (send_kazu ?sp) = Suc K" using kz by simp
    moreover have "A div 8 + K < N_LPNS g"
      using lastk r by (auto simp: req_ok_def A_def n_def less_mult_imp_div_less mult.commute)
    ultimately show ?thesis
      using False by (auto simp: wr_inv_def simp del: upt_Suc)
  qed
  then obtain t where t: "(if send_kazu ?sp = 1 then write_single g d0 gd0 ?sp buf s
      else do { (d, s', cur) \<leftarrow> for_opt [0..<nat (send_kazu ?sp)] (write_page g gd0 ?sp buf) (d0, s, 0);
                Some s' }) = Some t" "ftl_ok g t" "host_write (stats t) = host_write (stats s)"
    "\<forall>y < 8 * N_LPNS g. sector g t y = overlay A n buf (8 * (A div 8 + Suc K)) (sector g s) y"
    "mapped g t (A div 8 + K)" by blast
  let ?t = "t\<lparr>stats := (stats t)\<lparr>host_write := host_write (stats t) + int n\<rparr>\<rparr>"
  have "ftl_write g d0 gd0 lba nsect buf s = Some ?t"
    using t(1) by (simp add: ftl_write_def Let_def n_def)
  moreover have "ftl_ok g ?t = ftl_ok g t" "sector g ?t = sector g t" "mapped g ?t = mapped g t"
    by (simp_all add: ftl_ok_def frontier_ok_def mapping_ok_def written_def pg_at_def blk_log_def
        sector_def page_of_def mapped_def fun_eq_iff)
  ultimately show ?thesis using t(2-5) unfolding lim lastk by (simp add: A_def n_def)
qed

lemma ftl_write_ok:
  assumes "wf_geom g" "ftl_ok g s" "req_ok g lba nsect" "unat nsect \<le> length buf" "length (fst d0) = 8"
  shows "\<exists>t. ftl_write g d0 gd0 lba nsect buf s = Some t \<and> ftl_ok g t \<and>
    host_write (stats t) = host_write (stats s) + int (unat nsect) \<and>
    (\<forall>y < 8 * N_LPNS g. sector g t y =
       (if unat lba \<le> y \<and> y < unat lba + unat nsect then buf ! (y - unat lba) else sector g s y))"
  using ftl_write_maps [OF assms, of gd0] by blast

section \<open>Reading returns the sectors of the request, all but one\<close>

text \<open>
  The result of reading: the request's sectors, except that the last sector of a request over
  several pages is not filled in when its page was never written. The loop counts
  \<open>last_lba_offset\<close> sectors for that page, which is one less than there are.
\<close>

definition read_result :: "geom \<Rightarrow> ftl \<Rightarrow> nat \<Rightarrow> nat \<Rightarrow> u32 list \<Rightarrow> nat \<Rightarrow> u32" where
  "read_result g s A n buf i =
     (let E = A + n - 1 in
      if n \<le> i then buf ! i
      else if i = n - 1 \<and> A div 8 \<noteq> E div 8 \<and>
              page_of g s (E div 8 mod N_BANKS g) (E div 8 div N_BANKS g) = None then buf ! i
      else sector g s (A + i))"

lemma read_single_ok:
  assumes g: "wf_geom g" and ok: "ftl_ok g s" and r: "req_ok g lba nsect"
    and buf: "unat nsect \<le> length buf"
    and single: "send_kazu (span_of lba nsect) = 1"
  shows "\<exists>x. read_single g d0 (span_of lba nsect) nsect buf s = Some x \<and> length x = length buf \<and>
    (\<forall>i < length buf. x ! i = read_result g s (unat lba) (unat nsect) buf i)"
proof -
  define A n where "A = unat lba" and "n = unat nsect"
  have n0: "0 < n" and An: "A + n \<le> 8 * N_LPNS g" using r by (auto simp: req_ok_def A_def n_def)
  obtain k0 o0 k1 o1 where k: "A = 8 * k0 + o0" "A + n - 1 = 8 * k1 + o1" "o0 < 8" "o1 < 8" "k0 \<le> k1"
    and kd: "A div 8 = k0" "A mod 8 = o0" "(A + n - 1) div 8 = k1" "(A + n - 1) mod 8 = o1"
    using split_req [OF n0, of A] by metis
  note sp = span_of_req [OF g r, folded A_def n_def, unfolded kd]
  have eq: "k1 = k0" using single k(5) by (simp add: sp)
  have on: "o0 + n = o1 + 1" using k(1,2) eq n0 by linarith
  have l: "k0 < N_LPNS g" using k(1) An n0 by linarith
  note ad = lpn_addr [OF g l]
  note f = fetch_page_ok [OF g ok ad, of d0]
  have lpn: "first_page_first_lba (span_of lba nsect) div 8 = int k0"
    and offs: "first_lba_offset (span_of lba nsect) = int o0" "last_lba_offset (span_of lba nsect) = int o1"
    by (simp_all add: sp)
  have cnt: "int o1 + 1 - int o0 = int n" using on by linarith
  have nb: "n \<le> length buf" using buf by (simp add: n_def)
  have res: "read_result g s A n buf i = (if i < n then sector g s (8 * k0 + (o0 + i)) else buf ! i)" for i
    using eq by (simp only: read_result_def Let_def kd k(1) [symmetric] add.assoc [symmetric]) auto
  have "\<exists>x. read_single g d0 (span_of lba nsect) nsect buf s = Some x \<and> length x = length buf \<and>
    (\<forall>i < length buf. x ! i = (if i < n then sector g s (8 * k0 + (o0 + i)) else buf ! i))"
  proof (cases "page_of g s (k0 mod N_BANKS g) (k0 div N_BANKS g)")
    case None
    obtain x where "fill_to buf (int 0) 0xFFFFFFFF (int n) = Some x" "length x = length buf"
      "\<forall>i < length buf. x ! i = (if 0 \<le> i \<and> i < 0 + n then 0xFFFFFFFF else buf ! i)"
      using fill_to_run [of 0 n buf "0xFFFFFFFF"] nb by auto
    then show ?thesis
      using None f on k(4)
      by (intro exI [of _ x]) (auto simp: read_single_def lpn n_def [symmetric] sector_page)
  next
    case (Some p)
    have p: "length p = 8" using page_of_length [OF g ok ad Some] .
    obtain x where "copy_to buf (int 0) p (int o0) (int n) = Some x" "length x = length buf"
      "\<forall>i < length buf. x ! i = (if 0 \<le> i \<and> i < 0 + n then p ! (o0 + (i - 0)) else buf ! i)"
      using copy_to_run [of 0 n buf o0 p] nb p on k(4) by auto
    then show ?thesis
      using Some f on k(4)
      by (intro exI [of _ x]) (auto simp: read_single_def lpn offs cnt sector_page)
  qed
  then show ?thesis by (simp add: res A_def [symmetric] n_def [symmetric])
qed

definition rd_inv ::
  "geom \<Rightarrow> ftl \<Rightarrow> nat \<Rightarrow> nat \<Rightarrow> u32 list \<Rightarrow> nat \<Rightarrow> (u32 list \<times> u32) \<times> u32 list \<times> int \<Rightarrow> bool" where
  "rd_inv g s A n buf pp dbc \<longleftrightarrow> (case dbc of (d, x, cur) \<Rightarrow>
     length x = length buf \<and>
     (pp \<le> (A + n - 1) div 8 - A div 8 \<longrightarrow> cur = int (8 * pp - A mod 8)) \<and>
     (\<forall>i < length buf. x ! i = (if i < 8 * pp - A mod 8 then read_result g s A n buf i else buf ! i)))"

lemma read_page_step:
  assumes g: "wf_geom g" and ok: "ftl_ok g s" and r: "req_ok g lba nsect"
    and buf: "unat nsect \<le> length buf"
    and multi: "send_kazu (span_of lba nsect) \<noteq> 1" and pp: "int pp < send_kazu (span_of lba nsect)"
    and inv: "rd_inv g s (unat lba) (unat nsect) buf pp dbc"
  shows "\<exists>dbc'. read_page g s (span_of lba nsect) pp dbc = Some dbc' \<and>
    rd_inv g s (unat lba) (unat nsect) buf (Suc pp) dbc'"
proof -
  define A n where "A = unat lba" and "n = unat nsect"
  have n0: "0 < n" and An: "A + n \<le> 8 * N_LPNS g" using r by (auto simp: req_ok_def A_def n_def)
  obtain k0 o0 k1 o1 where k: "A = 8 * k0 + o0" "A + n - 1 = 8 * k1 + o1" "o0 < 8" "o1 < 8" "k0 \<le> k1"
    and kd: "A div 8 = k0" "A mod 8 = o0" "(A + n - 1) div 8 = k1" "(A + n - 1) mod 8 = o1"
    using split_req [OF n0, of A] by metis
  note sp = span_of_req [OF g r, folded A_def n_def, unfolded kd]
  have ppk: "pp \<le> k1 - k0" and k01: "k0 < k1" using pp multi k(5) by (simp_all add: sp)
  let ?l = "k0 + pp"
  have l1: "?l \<le> k1" and l: "?l < N_LPNS g" using ppk k01 k(2,5) An n0 by linarith+
  have nb: "n \<le> length buf" using buf by (simp add: n_def)
  obtain d x cur where dbc: "dbc = (d, x, cur)" by (cases dbc)
  have x: "length x = length buf" and cur: "cur = int (8 * pp - o0)"
    and xi: "\<And>i. i < length buf \<Longrightarrow> x ! i = (if i < 8 * pp - o0 then read_result g s A n buf i else buf ! i)"
    using inv ppk unfolding rd_inv_def dbc prod.case A_def [symmetric] n_def [symmetric] kd by blast+
  note ad = lpn_addr [OF g l]
  note f = fetch_page_ok [OF g ok ad, of d]
  have lpn: "int pp + first_page_first_lba (span_of lba nsect) div 8 = int ?l" by (simp add: sp)
  have sps: "first_lba_offset (span_of lba nsect) = int o0" "last_lba_offset (span_of lba nsect) = int o1"
    "send_kazu (span_of lba nsect) - 1 = int (k1 - k0)" using k(5) by (simp_all add: sp of_nat_diff)
  define c where "c = 8 * pp - o0"
  have st: "\<exists>q x'. fetch_page g s (int (?l mod N_BANKS g)) (int (?l div N_BANKS g)) d = Some q \<and>
      (case q of None \<Rightarrow> fill_to x cur 0xFFFFFFFF (int m) | Some d' \<Rightarrow> copy_to x cur (fst d') (int a) (int m)) = Some x' \<and>
      (q = None \<longleftrightarrow> page_of g s (?l mod N_BANKS g) (?l div N_BANKS g) = None) \<and>
      length x' = length buf \<and>
      (\<forall>i < length buf. x' ! i = (if c \<le> i \<and> i < c + m then sector g s (A + i) else x ! i))"
    if am: "a + m \<le> 8" "c + m \<le> length buf" and aA: "8 * ?l + a = A + c" for a m
  proof (cases "page_of g s (?l mod N_BANKS g) (?l div N_BANKS g)")
    case None
    obtain x' where x': "fill_to x (int c) 0xFFFFFFFF (int m) = Some x'" "length x' = length x"
      "\<forall>i < length x. x' ! i = (if c \<le> i \<and> i < c + m then 0xFFFFFFFF else x ! i)"
      using fill_to_run [of c m x] am x by auto
    have "sector g s (A + i) = 0xFFFFFFFF" if "c \<le> i" "i < c + m" for i
    proof -
      have "A + i = 8 * ?l + (a + (i - c))" "a + (i - c) < 8" using that am aA by linarith+
      from sector_page [OF this(2), of g s ?l] this(1) None show ?thesis by simp
    qed
    then show ?thesis using x' None f cur x by (intro exI [of _ None] exI [of _ x']) (auto simp: c_def)
  next
    case (Some p)
    have p: "length p = 8" using page_of_length [OF g ok ad Some] .
    obtain x' where x': "copy_to x (int c) p (int a) (int m) = Some x'" "length x' = length x"
      "\<forall>i < length x. x' ! i = (if c \<le> i \<and> i < c + m then p ! (a + (i - c)) else x ! i)"
      using copy_to_run [of c m x a p] am x p by auto
    have "sector g s (A + i) = p ! (a + (i - c))" if "c \<le> i" "i < c + m" for i
    proof -
      have "A + i = 8 * ?l + (a + (i - c))" "a + (i - c) < 8" using that am aA by linarith+
      from sector_page [OF this(2), of g s ?l] this(1) Some show ?thesis by simp
    qed
    then show ?thesis using x' Some f cur x
      by (intro exI [of _ "Some (p, word_of_nat (?l div N_BANKS g))"] exI [of _ x']) (auto simp: c_def)
  qed
  have inside: "read_result g s A n buf i = sector g s (A + i)" if "i < n - 1" for i
    using that by (auto simp: read_result_def Let_def)
  have lastE: "read_result g s A n buf (n - 1) =
      (if page_of g s (k1 mod N_BANKS g) (k1 div N_BANKS g) = None then buf ! (n - 1) else sector g s (A + (n - 1)))"
    using n0 k01 by (simp only: read_result_def Let_def kd) auto
  have beyond: "read_result g s A n buf i = buf ! i" if "n \<le> i" for i
    using that by (simp add: read_result_def)
  let ?go = "\<lambda>r lo na nc k. case r of
           None \<Rightarrow> do { buf' \<leftarrow> fill_to x cur 0xFFFFFFFF na; Some (d, buf', cur + k) }
         | Some d' \<Rightarrow> do { buf' \<leftarrow> copy_to x cur (fst d') lo nc; Some (d', buf', cur + k) }"
  have rp: "read_page g s (span_of lba nsect) pp dbc =
      do { r \<leftarrow> fetch_page g s (int (?l mod N_BANKS g)) (int (?l div N_BANKS g)) d;
           if pp = 0 then ?go r (int o0) (8 - int o0) (8 - int o0) (8 - int o0)
           else if pp = k1 - k0 then ?go r 0 (int o1) (int o1 + 1) (int o1)
           else ?go r 0 8 8 8 }"
    by (simp only: read_page_def dbc prod.case lpn sps Let_def smod_of_nat sdiv_of_nat of_nat_eq_iff)
  let ?post = "\<lambda>x' m. length x' = length buf \<and> (Suc pp \<le> k1 - k0 \<longrightarrow> cur + m = int (8 * Suc pp - o0)) \<and>
      (\<forall>i < length buf. x' ! i = (if i < 8 * Suc pp - o0 then read_result g s A n buf i else buf ! i))"
  have main: "\<exists>d' x' m. read_page g s (span_of lba nsect) pp dbc = Some (d', x', cur + m) \<and> ?post x' m"
  proof (cases "pp < k1 - k0")
    case True
    define a m where "a = (if pp = 0 then o0 else 0)" and "m = 8 - a"
    have am: "a + m \<le> 8" "c + m \<le> length buf" and aA: "8 * ?l + a = A + c" and cm: "c + m = 8 * Suc pp - o0"
      and lim: "c + m \<le> n - 1"
      using k True nb by (auto simp: a_def m_def c_def)
    obtain q x' where q: "fetch_page g s (int (?l mod N_BANKS g)) (int (?l div N_BANKS g)) d = Some q"
      "(case q of None \<Rightarrow> fill_to x cur 0xFFFFFFFF (int m) | Some d' \<Rightarrow> copy_to x cur (fst d') (int a) (int m)) = Some x'"
      "length x' = length buf"
      "\<forall>i < length buf. x' ! i = (if c \<le> i \<and> i < c + m then sector g s (A + i) else x ! i)"
      using st [OF am aA] by blast
    have mi: "int m = 8 - int a" using am k(3) by (simp add: m_def a_def of_nat_diff)
    have "\<exists>d'. read_page g s (span_of lba nsect) pp dbc = Some (d', x', cur + int m)"
    proof (cases q)
      case None
      then show ?thesis using q(1,2) True unfolding rp mi
        by (cases "pp = 0") (simp_all add: a_def)
    next
      case (Some d')
      then show ?thesis using q(1,2) True unfolding rp mi
        by (cases "pp = 0") (simp_all add: a_def)
    qed
    moreover have "?post x' (int m)"
      using q(3,4) xi inside lim cm cur by (auto simp: c_def)
    ultimately show ?thesis by blast
  next
    case False
    with ppk have pp: "pp = k1 - k0" and pp0: "pp \<noteq> 0" using k01 by simp_all
    have lk: "?l = k1" using pp k(5) by simp
    have co: "c + o1 = n - 1" "c + o1 + 1 = n" using k(1,2,3) pp k01 n0 by (auto simp: c_def)
    define m where "m = (if page_of g s (k1 mod N_BANKS g) (k1 div N_BANKS g) = None then o1 else o1 + 1)"
    have am: "0 + m \<le> 8" "c + m \<le> length buf" and aA: "8 * ?l + 0 = A + c"
      using k co nb pp k01 by (auto simp: c_def m_def)
    obtain q x' where q: "fetch_page g s (int (k1 mod N_BANKS g)) (int (k1 div N_BANKS g)) d = Some q"
      "(case q of None \<Rightarrow> fill_to x cur 0xFFFFFFFF (int m) | Some d' \<Rightarrow> copy_to x cur (fst d') (int 0) (int m)) = Some x'"
      "q = None \<longleftrightarrow> page_of g s (k1 mod N_BANKS g) (k1 div N_BANKS g) = None"
      "length x' = length buf"
      "\<forall>i < length buf. x' ! i = (if c \<le> i \<and> i < c + m then sector g s (A + i) else x ! i)"
      using st [OF am aA] unfolding lk by (elim exE conjE) (rule that)
    have rd: "\<exists>d'. read_page g s (span_of lba nsect) pp dbc = Some (d', x', cur + int o1)"
    proof (cases q)
      case None
      then show ?thesis using q(1-3) pp pp0 unfolding rp m_def lk
        by simp
    next
      case (Some d')
      then have "m = o1 + 1" using q(3) by (simp add: m_def)
      then show ?thesis using q(1,2) Some pp pp0 unfolding rp lk
        by (simp add: add.commute)
    qed
    have "x' ! i = (if i < 8 * Suc pp - o0 then read_result g s A n buf i else buf ! i)"
      if i: "i < length buf" for i
    proof -
      have c8: "8 * Suc pp - o0 = c + 8" using pp0 k(3) by (simp add: c_def)
      have xi': "x ! i = (if i < c then read_result g s A n buf i else buf ! i)"
        using xi [OF i] by (simp add: c_def)
      have x'i: "x' ! i = (if c \<le> i \<and> i < c + m then sector g s (A + i) else x ! i)" using q(5) i by blast
      consider "i < c" | "c \<le> i" "i < n - 1" | "i = n - 1" "c \<le> i" | "n \<le> i" "c \<le> i" using n0 by linarith
      then show ?thesis
      proof cases
        case 1
        then show ?thesis unfolding x'i c8 xi' by simp
      next
        case 2
        then have "i < c + m" "i < c + 8" using co k(4) by (auto simp: m_def)
        with 2 show ?thesis unfolding x'i c8 by (simp add: inside)
      next
        case 3
        then show ?thesis using lastE co k(4) unfolding x'i c8 xi' by (auto simp: m_def)
      next
        case 4
        then have "\<not> i < c + m" using co by (auto simp: m_def)
        with 4 beyond show ?thesis unfolding x'i c8 xi' by simp
      qed
    qed
    then have "?post x' (int o1)" using q(4) pp by simp
    moreover obtain d' where "read_page g s (span_of lba nsect) pp dbc = Some (d', x', cur + int o1)"
      using rd by blast
    ultimately show ?thesis by blast
  qed
  then show ?thesis
    unfolding rd_inv_def A_def [symmetric] n_def [symmetric] kd by force
qed

text \<open>The whole read.\<close>

lemma ftl_read_ok:
  assumes g: "wf_geom g" and ok: "ftl_ok g s" and r: "req_ok g lba nsect"
    and buf: "unat nsect \<le> length buf"
  shows "\<exists>x. ftl_read g d0 lba nsect buf s = Some x \<and> length x = length buf \<and>
    (\<forall>i < length buf. x ! i = read_result g s (unat lba) (unat nsect) buf i)"
proof -
  define A n where "A = unat lba" and "n = unat nsect"
  define K where "K = (A + n - 1) div 8 - A div 8"
  have n0: "0 < n" using r by (auto simp: req_ok_def n_def)
  let ?sp = "span_of lba nsect"
  have AE: "A div 8 \<le> (A + n - 1) div 8" using n0 by (intro div_le_mono) simp
  have kz: "send_kazu ?sp = int (Suc K)"
    using span_of_req [OF g r] AE by (simp add: A_def [symmetric] n_def [symmetric] K_def)
  show ?thesis
  proof (cases "send_kazu ?sp = 1")
    case True
    with read_single_ok [OF g ok r buf True] show ?thesis by (simp add: ftl_read_def)
  next
    case False
    have "\<exists>dbc. for_opt [0..<Suc K] (read_page g s ?sp) (d0, buf, 0) = Some dbc \<and>
        rd_inv g s A n buf (Suc K) dbc"
    proof (rule for_opt_rule)
      show "rd_inv g s A n buf 0 (d0, buf, 0)" by (auto simp: rd_inv_def)
      show "\<exists>t'. read_page g s ?sp i t = Some t' \<and> rd_inv g s A n buf (Suc i) t'"
        if "i < Suc K" "rd_inv g s A n buf i t" for i t
        using read_page_step [OF g ok r buf False, of i] that kz by (simp add: A_def n_def)
    qed
    then obtain d x cur where x: "for_opt [0..<Suc K] (read_page g s ?sp) (d0, buf, 0) = Some (d, x, cur)"
      "rd_inv g s A n buf (Suc K) (d, x, cur)" by auto
    obtain k0 o0 k1 o1 where k: "A = 8 * k0 + o0" "A + n - 1 = 8 * k1 + o1" "o0 < 8" "o1 < 8" "k0 \<le> k1"
      and kd: "A div 8 = k0" "A mod 8 = o0" "(A + n - 1) div 8 = k1"
      using split_req [OF n0, of A] by metis
    obtain m where "k1 = k0 + m" using k(5) le_Suc_ex by blast
    with k n0 have lim: "n \<le> 8 * Suc K - A mod 8" unfolding K_def kd by simp
    have "x ! i = read_result g s A n buf i" if "i < length buf" for i
      using x(2) that lim by (auto simp: rd_inv_def read_result_def)
    moreover have "nat (send_kazu ?sp) = Suc K" using kz by simp
    ultimately show ?thesis
      using False x by (auto simp: ftl_read_def Let_def rd_inv_def A_def n_def simp del: upt_Suc)
  qed
qed

end
