(* ===== verification/FtlSpec.thy ===== *)
theory FtlSpec
  imports FtlIo
begin

text \<open>
  The specification of the lab 2 translation layer as a disk: a function from sector numbers
  to words. A history of write requests on a device that was just opened leaves the disk the
  requests describe, whatever collections they caused. The properties of the layer are stated
  here, over the lemmas of theories \<open>FtlGc\<close> and \<open>FtlIo\<close>.
\<close>

section \<open>Histories of requests\<close>

type_synonym request = "u32 \<times> u32 \<times> u32 list"

definition good_request :: "geom \<Rightarrow> request \<Rightarrow> bool" where
  "good_request g r = (case r of (lba, nsect, buf) \<Rightarrow> req_ok g lba nsect \<and> unat nsect \<le> length buf)"

definition disk_write :: "request \<Rightarrow> (nat \<Rightarrow> u32) \<Rightarrow> nat \<Rightarrow> u32" where
  "disk_write r d y = (case r of (lba, nsect, buf) \<Rightarrow>
     if unat lba \<le> y \<and> y < unat lba + unat nsect then buf ! (y - unat lba) else d y)"

definition ftl_writes ::
  "geom \<Rightarrow> u32 list \<times> u32 \<Rightarrow> u32 list \<times> u32 \<Rightarrow> request list \<Rightarrow> ftl \<Rightarrow> ftl option" where
  "ftl_writes g d0 gd0 rs s = for_opt rs (\<lambda>(lba, nsect, buf) s. ftl_write g d0 gd0 lba nsect buf s) s"

lemma fold_disk_cong:
  assumes "\<forall>y < n. d y = e y" "y < n"
  shows "fold disk_write rs d y = fold disk_write rs e y"
  using assms
proof (induction rs arbitrary: d e)
  case (Cons a rs)
  have "disk_write a d y = disk_write a e y" if "y < n" for y
    using Cons.prems(1) that by (auto simp: disk_write_def split: prod.splits)
  with Cons.IH [of "disk_write a d" "disk_write a e"] Cons.prems(2) show ?case by simp
qed simp

lemma ftl_writes_run:
  assumes g: "wf_geom g" and d0: "length (fst d0) = 8"
    and "ftl_ok g s" and "\<forall>r \<in> set rs. good_request g r"
  shows "\<exists>t. ftl_writes g d0 gd0 rs s = Some t \<and> ftl_ok g t \<and>
    (\<forall>y < 8 * N_LPNS g. sector g t y = fold disk_write rs (sector g s) y)"
  using assms(3,4)
proof (induction rs arbitrary: s)
  case Nil
  then show ?case by (simp add: ftl_writes_def)
next
  case (Cons r rs)
  obtain lba nsect buf where r: "r = (lba, nsect, buf)" by (cases r)
  then have rq: "req_ok g lba nsect" "unat nsect \<le> length buf"
    using Cons.prems(2) by (auto simp: good_request_def)
  obtain u where u: "ftl_write g d0 gd0 lba nsect buf s = Some u" "ftl_ok g u"
    "\<forall>y < 8 * N_LPNS g. sector g u y = disk_write r (sector g s) y"
    using ftl_write_ok [OF g Cons.prems(1) rq d0, of gd0] by (auto simp: disk_write_def r)
  obtain t where t: "ftl_writes g d0 gd0 rs u = Some t" "ftl_ok g t"
    "\<forall>y < 8 * N_LPNS g. sector g t y = fold disk_write rs (sector g u) y"
    using Cons.IH [OF u(2)] Cons.prems(2) by auto
  have "ftl_writes g d0 gd0 (r # rs) s = Some t"
    using u(1) t(1) by (simp add: ftl_writes_def r)
  with t u(3) fold_disk_cong [of "8 * N_LPNS g"] show ?case by fastforce
qed

lemma sector_opened:
  assumes "wf_geom g" "y < 8 * N_LPNS g"
  shows "sector g (ftl_open g junk s) y = 0xFFFFFFFF"
proof -
  have "y div 8 < N_LPNS g" using assms(2) by auto
  from lpn_addr [OF assms(1) this] ftl_open_ok(2) [OF assms(1)] show ?thesis by (simp add: sector_def)
qed

section \<open>Reading what was written\<close>

lemma read_after_write:
  assumes g: "wf_geom g" and ok: "ftl_ok g s" and r: "req_ok g lba nsect"
    and buf: "unat nsect \<le> length buf" "unat nsect \<le> length x" and d0: "length (fst d0) = 8"
  shows "\<exists>t y. ftl_write g d0 gd0 lba nsect buf s = Some t \<and> ftl_read g d0' lba nsect x t = Some y \<and>
    take (unat nsect) y = take (unat nsect) buf"
proof -
  let ?A = "unat lba" and ?n = "unat nsect"
  obtain t where t: "ftl_write g d0 gd0 lba nsect buf s = Some t" "ftl_ok g t"
    and sec: "\<And>y. y < 8 * N_LPNS g \<Longrightarrow> sector g t y =
       (if ?A \<le> y \<and> y < ?A + ?n then buf ! (y - ?A) else sector g s y)"
    and m: "mapped g t ((?A + ?n - 1) div 8)"
    using ftl_write_maps [OF g ok r buf(1) d0, of gd0] by blast
  obtain y where y: "ftl_read g d0' lba nsect x t = Some y" "length y = length x"
    "\<And>i. i < length x \<Longrightarrow> y ! i = read_result g t ?A ?n x i"
    using ftl_read_ok [OF g t(2) r buf(2), of d0'] by blast
  have n: "0 < ?n" "?A + ?n \<le> 8 * N_LPNS g" using r by (auto simp: req_ok_def)
  have "y ! i = buf ! i" if i: "i < ?n" for i
  proof -
    have "y ! i = sector g t (?A + i)"
      using y(3) [of i] i buf(2) m by (auto simp: read_result_def mapped_def Let_def)
    also have "\<dots> = buf ! i" using sec [of "?A + i"] i n by simp
    finally show ?thesis .
  qed
  then have "take ?n y = take ?n buf" using y(2) buf by (intro nth_equalityI) auto
  with t(1) y(1) show ?thesis by blast
qed


section \<open>The properties of the lab 2 layer\<close>

text \<open>The globals at the start of the program are zero; the device is that of \<open>ftl.h\<close>.\<close>

definition ftl_start :: ftl where
  "ftl_start = \<lparr>nand = \<lparr>nand_mem = (\<lambda>_. \<lparr>pg_data = replicate 8 0, pg_spare = 0\<rparr>),
     iswritten = (\<lambda>_. 0), blk_index = (\<lambda>_. 0), NBANKS = 0, NBLKS = 0, NPAGES = 0\<rparr>,
     L2P = (\<lambda>_ _. 0), isValid = (\<lambda>_ _. 0), next_ppn = (\<lambda>_. 0), gc_trigger_ppn = (\<lambda>_. 0),
     free_pblk = (\<lambda>_. 0), stats = \<lparr>gc_cnt = 0, host_write = 0, nand_writes = 0, gc_write = 0\<rparr>\<rparr>"

abbreviation opened :: ftl where
  "opened \<equiv> ftl_open lab2_geom (\<lambda>_. \<lparr>pg_data = replicate 8 0, pg_spare = 0\<rparr>) ftl_start"

abbreviation page0 :: "u32 list \<times> u32" where "page0 \<equiv> (replicate 8 0, 0)"

lemma lab2_wf: "wf_geom lab2_geom"
  by (simp add: wf_geom_def lab2_geom_def)

lemma lab2_size: "N_LPNS lab2_geom = 48"
  by (simp add: N_LPNS_def N_LPNS_PB_def N_USER_BLOCKS_PB_def lab2_geom_def)

lemma lab2_req: "req_ok lab2_geom 6 4" "good_request lab2_geom (6, 4, [1, 2, 3, 4])"
  by (simp_all add: req_ok_def good_request_def lab2_size)

text \<open>
  C1. A history of write requests, each inside the device, run on the device that
  \<open>ftl_open\<close> prepared: every request returns, the layer's invariant holds at the end, and each
  sector has the last value written to it, or is all ones when it was never written. Garbage
  collection is invisible.
\<close>

theorem ftl_history:
  assumes "wf_geom g" "\<forall>r \<in> set rs. good_request g r" "length (fst d0) = 8"
  shows "\<exists>t. ftl_writes g d0 gd0 rs (ftl_open g junk s) = Some t \<and> ftl_ok g t \<and>
    (\<forall>y < 8 * N_LPNS g. sector g t y = fold disk_write rs (\<lambda>_. 0xFFFFFFFF) y)"
proof -
  show ?thesis
    using ftl_writes_run [OF assms(1,3) ftl_open_ok(1) [OF assms(1)] assms(2), of gd0 junk s]
      fold_disk_cong [of "8 * N_LPNS g" "sector g (ftl_open g junk s)" "\<lambda>_. 0xFFFFFFFF"]
      sector_opened [OF assms(1)] by auto
qed

lemma ftl_history_witness:
  "\<exists>t. ftl_writes lab2_geom page0 page0 [(6, 4, [1, 2, 3, 4]), (8, 1, [9])] opened = Some t \<and>
    sector lab2_geom t 7 = 2 \<and> sector lab2_geom t 8 = 9 \<and> sector lab2_geom t 10 = 0xFFFFFFFF"
proof -
  have "\<exists>t. ftl_writes lab2_geom page0 page0 [(6, 4, [1, 2, 3, 4]), (8, 1, [9])] opened = Some t \<and>
      ftl_ok lab2_geom t \<and> (\<forall>y < 8 * N_LPNS lab2_geom. sector lab2_geom t y =
        fold disk_write [(6, 4, [1, 2, 3, 4]), (8, 1, [9])] (\<lambda>_. 0xFFFFFFFF) y)"
    by (rule ftl_history) (auto simp: lab2_wf good_request_def req_ok_def lab2_size)
  then obtain t where t: "ftl_writes lab2_geom page0 page0 [(6, 4, [1, 2, 3, 4]), (8, 1, [9])] opened = Some t"
    "\<forall>y < 384. sector lab2_geom t y =
        fold disk_write [(6, 4, [1, 2, 3, 4]), (8, 1, [9])] (\<lambda>_. 0xFFFFFFFF) y"
    by (auto simp: lab2_size)
  show ?thesis using t(1) t(2) [rule_format, of 7] t(2) [rule_format, of 8] t(2) [rule_format, of 10]
    by (intro exI [of _ t]) (simp add: disk_write_def)
qed

text \<open>
  C2. \<open>ftl_write\<close> in any state of the layer that satisfies the invariant: it returns, keeps the
  invariant, counts the sectors, stores the request's sectors and changes no other.
\<close>

theorem ftl_write_stores:
  assumes "wf_geom g" "ftl_ok g s" "req_ok g lba nsect" "unat nsect \<le> length buf" "length (fst d0) = 8"
  shows "\<exists>t. ftl_write g d0 gd0 lba nsect buf s = Some t \<and> ftl_ok g t \<and>
    host_write (stats t) = host_write (stats s) + int (unat nsect) \<and>
    (\<forall>y < 8 * N_LPNS g. sector g t y =
       (if unat lba \<le> y \<and> y < unat lba + unat nsect then buf ! (y - unat lba) else sector g s y))"
  by (rule ftl_write_ok [OF assms])

lemma ftl_write_stores_witness:
  "\<exists>t. ftl_write lab2_geom page0 page0 6 4 [1, 2, 3, 4] opened = Some t \<and> sector lab2_geom t 9 = 4"
proof -
  have "\<exists>t. ftl_write lab2_geom page0 page0 6 4 [1, 2, 3, 4] opened = Some t \<and> ftl_ok lab2_geom t \<and>
    host_write (stats t) = host_write (stats opened) + int (unat (4 :: u32)) \<and>
    (\<forall>y < 8 * N_LPNS lab2_geom. sector lab2_geom t y =
       (if unat (6 :: u32) \<le> y \<and> y < unat (6 :: u32) + unat (4 :: u32)
        then [1, 2, 3, 4] ! (y - unat (6 :: u32)) else sector lab2_geom opened y))"
    by (rule ftl_write_stores) (simp_all add: lab2_wf lab2_req ftl_open_ok)
  then show ?thesis by (fastforce simp: lab2_size)
qed

text \<open>
  C3. \<open>ftl_read\<close> returns for every request, leaves the rest of the caller's buffer alone, and
  gives each sector of the request its value on the disk, except the last sector of a request
  over several pages when its page was never written: the buffer keeps what it held there.
\<close>

theorem ftl_read_returns:
  assumes "wf_geom g" "ftl_ok g s" "req_ok g lba nsect" "unat nsect \<le> length buf"
  shows "\<exists>x. ftl_read g d0 lba nsect buf s = Some x \<and> length x = length buf \<and>
    (\<forall>i < length buf. x ! i = read_result g s (unat lba) (unat nsect) buf i)"
  by (rule ftl_read_ok [OF assms])

lemma ftl_read_returns_witness:
  "\<exists>x. ftl_read lab2_geom page0 6 4 [5, 5, 5, 5, 5] opened = Some x \<and>
    x = [0xFFFFFFFF, 0xFFFFFFFF, 0xFFFFFFFF, 5, 5]"
proof -
  have ok: "ftl_ok lab2_geom opened" by (rule ftl_open_ok(1) [OF lab2_wf])
  have none: "page_of lab2_geom opened b l = None" if "b < 2" "l < 24" for b l
    using ftl_open_ok(2) [OF lab2_wf, of b l] that
    by (simp add: lab2_geom_def N_LPNS_PB_def N_USER_BLOCKS_PB_def)
  obtain x where x: "ftl_read lab2_geom page0 6 4 [5, 5, 5, 5, 5] opened = Some x" "length x = 5"
    "\<And>i. i < 5 \<Longrightarrow> x ! i = read_result lab2_geom opened 6 4 [5, 5, 5, 5, 5] i"
    using ftl_read_returns [OF lab2_wf ok lab2_req(1), of "[5, 5, 5, 5, 5]" page0] by auto
  have "x = map (\<lambda>i. x ! i) [0..<5]" using x(2) map_nth [of x] by simp
  also have "\<dots> = [0xFFFFFFFF, 0xFFFFFFFF, 0xFFFFFFFF, 5, 5]"
    using none by (simp add: x(3) upt_rec read_result_def sector_def Let_def) (simp add: lab2_geom_def)
  finally show ?thesis using x(1) by blast
qed

text \<open>
  C4. Round trip: reading the sectors of any request just written gives the data written. The
  write leaves the last page of the request mapped, so the exception of C3 does not apply, not
  even when the data are the ones that mark unwritten sectors.
\<close>

theorem ftl_read_after_write:
  assumes "wf_geom g" "ftl_ok g s" "req_ok g lba nsect"
    and "unat nsect \<le> length buf" "unat nsect \<le> length x" "length (fst d0) = 8"
  shows "\<exists>t y. ftl_write g d0 gd0 lba nsect buf s = Some t \<and> ftl_read g d0' lba nsect x t = Some y \<and>
    take (unat nsect) y = take (unat nsect) buf"
  by (rule read_after_write [OF assms])

lemma ftl_read_after_write_witness:
  "\<exists>t y. ftl_write lab2_geom page0 page0 6 4 [1, 2, 3, 0xFFFFFFFF] opened = Some t \<and>
    ftl_read lab2_geom page0 6 4 [0, 0, 0, 0] t = Some y \<and> take 4 y = [1, 2, 3, 0xFFFFFFFF]"
proof -
  have "\<exists>t y. ftl_write lab2_geom page0 page0 6 4 [1, 2, 3, 0xFFFFFFFF] opened = Some t \<and>
      ftl_read lab2_geom page0 6 4 [0, 0, 0, 0] t = Some y \<and>
      take (unat (4 :: u32)) y = take (unat (4 :: u32)) [1, 2, 3, 0xFFFFFFFF]"
    by (rule ftl_read_after_write) (simp_all add: lab2_wf lab2_req ftl_open_ok)
  then show ?thesis by simp
qed

text \<open>
  Garbage collection of a full bank: it returns, keeps the invariant, leaves every logical
  page of every bank as it was, and frees at least one page of the bank it collects.
\<close>

theorem gc_keeps_pages:
  assumes "wf_geom g" "ftl_ok g s" "b < N_BANKS g" "next_ppn s b = gc_trigger_ppn s b"
  shows "\<exists>t. garbage_collection g d0 b s = Some t \<and> ftl_ok g t \<and> next_ppn t b < gc_trigger_ppn t b \<and>
    (\<forall>b' < N_BANKS g. \<forall>l < N_LPNS_PB g. page_of g t b' l = page_of g s b' l)"
  by (rule garbage_collection_ok [OF assms, of d0]) blast


text \<open>A bank of three blocks with one page each is full after two writes.\<close>

definition tiny_geom :: geom where
  "tiny_geom = \<lparr>N_BANKS = 1, BLKS_PER_BANK = 3, PAGES_PER_BLK = 1\<rparr>"

definition tiny_full :: ftl where
  "tiny_full = the (write_through_lpn tiny_geom page0 0 0 [0, 1, 2, 3, 4, 5, 6, 7]
     (the (write_through_lpn tiny_geom page0 0 0 (replicate 8 0)
       (ftl_open tiny_geom (\<lambda>_. \<lparr>pg_data = replicate 8 0, pg_spare = 0\<rparr>) ftl_start))))"

lemma tiny_full_ok: "wf_geom tiny_geom" "ftl_ok tiny_geom tiny_full"
proof -
  show g: "wf_geom tiny_geom" by (simp add: wf_geom_def tiny_geom_def)
  have n: "0 < N_BANKS tiny_geom" "0 < N_LPNS_PB tiny_geom"
    by (simp_all add: tiny_geom_def N_LPNS_PB_def N_USER_BLOCKS_PB_def)
  let ?s = "ftl_open tiny_geom (\<lambda>_. \<lparr>pg_data = replicate 8 0, pg_spare = 0\<rparr>) ftl_start"
  have put: "\<exists>u. write_through_lpn tiny_geom page0 0 0 d s = Some u \<and> ftl_ok tiny_geom u"
    if "ftl_ok tiny_geom s" "length d = 8" for d s
    by (rule write_through_lpn_ok [OF g that(1) n that(2), of page0]) auto
  obtain t where t: "write_through_lpn tiny_geom page0 0 0 (replicate 8 0) ?s = Some t" "ftl_ok tiny_geom t"
    using put [OF ftl_open_ok(1) [OF g], of "replicate 8 0"] by auto
  obtain u where "write_through_lpn tiny_geom page0 0 0 [0, 1, 2, 3, 4, 5, 6, 7] t = Some u" "ftl_ok tiny_geom u"
    using put [OF t(2), of "[0, 1, 2, 3, 4, 5, 6, 7]"] by auto
  with t(1) show "ftl_ok tiny_geom tiny_full" by (simp add: tiny_full_def)
qed

lemma gc_keeps_pages_witness:
  "\<exists>t. garbage_collection tiny_geom page0 0 tiny_full = Some t \<and>
    page_of tiny_geom t 0 0 = page_of tiny_geom tiny_full 0 0"
proof -
  have f: "next_ppn tiny_full 0 = gc_trigger_ppn tiny_full 0" by code_simp
  have n: "0 < N_BANKS tiny_geom" "0 < N_LPNS_PB tiny_geom"
    by (simp_all add: tiny_geom_def N_LPNS_PB_def N_USER_BLOCKS_PB_def)
  from gc_keeps_pages [OF tiny_full_ok n(1) f, of page0] n show ?thesis by blast
qed

end
