(* ===== verification/Lab1Nand.thy ===== *)
theory Lab1Nand
  imports Prelude
begin

text \<open>
  The NAND flash simulator of lab 1, \<open>3-2/EmbeddedSul/HW1/nand.c\<close>: a static array of 64 banks
  of 64 blocks of 64 pages, each page with its data, its spare bytes and four bytes of
  metadata, of which two are used: \<open>WRITTEN\<close>, and \<open>BE_WRITTEN\<close> on the page that is next in its
  block. It provides the programming part of the interface of a flash device
  (\<open>flash_log\<close>), but its erase acts on a whole bank.
\<close>

section \<open>State\<close>

record page1 =
  pdata :: "u8 list"        \<comment> \<open>\<open>char _data[32]\<close>\<close>
  pspare :: "u8 list"       \<comment> \<open>\<open>char _spare[4]\<close>\<close>
  meta :: "nat \<Rightarrow> int"       \<comment> \<open>\<open>char _meta[4]\<close>\<close>

record nand1 =
  Nand_Flash :: "nat \<Rightarrow> nat \<Rightarrow> nat \<Rightarrow> page1"
  page_map_entry :: "nat \<Rightarrow> nat \<Rightarrow> int"
  NBANK :: int
  NBLOCK :: int
  NPAGE :: int

abbreviation (input) "WRITTEN \<equiv> (0 :: nat)"
abbreviation (input) "BE_WRITTEN \<equiv> (1 :: nat)"

section \<open>Operations\<close>

text \<open>
  The nested loops of \<open>nand_init\<close> and \<open>nand_erase\<close> assign every element of a range, each
  independently of the others: they are written as the function they leave.
\<close>

definition clear_meta :: "(nat \<Rightarrow> int) \<Rightarrow> nat \<Rightarrow> int" where
  "clear_meta m = (\<lambda>i. if i < 4 then 0 else m i)"

definition fresh_page :: "nat \<Rightarrow> page1 \<Rightarrow> page1" where
  "fresh_page page_idx p =
     \<lparr>pdata = replicate 32 0, pspare = replicate 4 0,
      meta = (clear_meta (meta p))(BE_WRITTEN := if page_idx = 0 then 1 else 0)\<rparr>"

definition nand1_init :: "int \<Rightarrow> int \<Rightarrow> int \<Rightarrow> nand1 \<Rightarrow> nand1 \<times> int" where
  "nand1_init nbanks nblks npages st =
     (if nbanks < 0 \<or> nbanks > 64 then (st, -1)
      else if nblks < 0 \<or> nblks > 64 then (st, -1)
      else if npages < 0 \<or> npages > 64 then (st, -1)
      else
        (\<lparr>Nand_Flash = (\<lambda>b k p.
             if int b < nbanks \<and> int k < nblks \<and> int p < npages
             then fresh_page p (Nand_Flash st b k p) else Nand_Flash st b k p),
          page_map_entry = (\<lambda>b ppn.
             if int b < nbanks \<and> int ppn < (nblks - 1) * npages then -1
             else page_map_entry st b ppn),
          NBANK = nbanks, NBLOCK = nblks, NPAGE = npages\<rparr>, 0))"

definition invalid1 :: "nand1 \<Rightarrow> int \<Rightarrow> int \<Rightarrow> int \<Rightarrow> bool" where
  "invalid1 st bank blk page \<longleftrightarrow>
     (bank < 0 \<or> bank \<ge> NBANK st) \<or> (blk < 0 \<or> blk \<ge> NBLOCK st) \<or> (page < 0 \<or> page \<ge> NPAGE st)"

definition upd_page :: "nand1 \<Rightarrow> nat \<Rightarrow> nat \<Rightarrow> nat \<Rightarrow> page1 \<Rightarrow> nand1" where
  "upd_page st b k p v =
     st\<lparr>Nand_Flash := (Nand_Flash st)(b := (Nand_Flash st b)(k := (Nand_Flash st b k)(p := v)))\<rparr>"

definition nand1_write ::
  "nand1 \<Rightarrow> int \<Rightarrow> int \<Rightarrow> int \<Rightarrow> u8 list \<times> u8 list \<Rightarrow> nand1 \<times> int" where
  "nand1_write st bank blk page ds =
     (if invalid1 st bank blk page then (st, -1)
      else
        let b = nat bank; k = nat blk; p = nat page; tmp = Nand_Flash st b k p in
        if meta tmp WRITTEN = 1 then (st, -2)
        else if meta tmp BE_WRITTEN \<noteq> 1 then (st, -3)
        else
          let st1 = upd_page st b k p
                \<lparr>pdata = map (\<lambda>i. fst ds ! i) [0..<32], pspare = map (\<lambda>i. snd ds ! i) [0..<4],
                 meta = (meta tmp)(WRITTEN := 1, BE_WRITTEN := 0)\<rparr>;
              st2 = (if page < NPAGE st - 1 then
                       let nxt = Nand_Flash st1 b k (p + 1) in
                       upd_page st1 b k (p + 1) (nxt\<lparr>meta := (meta nxt)(BE_WRITTEN := 1)\<rparr>)
                     else st1)
          in (st2, 0))"

definition nand1_read ::
  "nand1 \<Rightarrow> int \<Rightarrow> int \<Rightarrow> int \<Rightarrow> u8 list \<times> u8 list \<Rightarrow> (u8 list \<times> u8 list) \<times> int" where
  "nand1_read st bank blk page buf =
     (if invalid1 st bank blk page then (buf, -1)
      else
        let tmp = Nand_Flash st (nat bank) (nat blk) (nat page) in
        if meta tmp WRITTEN \<noteq> 1 then (buf, -4)
        else ((map (\<lambda>i. pdata tmp ! i) [0..<32], map (\<lambda>i. pspare tmp ! i) [0..<4]), 0))"

text \<open>
  The loops declare a pointer \<open>blk\<close> of their own and run over every block of the bank: the
  argument \<open>blk\<close> is only checked.
\<close>

definition nand1_erase :: "nand1 \<Rightarrow> int \<Rightarrow> int \<Rightarrow> nand1 \<times> int" where
  "nand1_erase st bank blk =
     (if bank < 0 \<or> bank \<ge> NBANK st then (st, -1)
      else if blk < 0 \<or> blk \<ge> NBLOCK st then (st, -1)
      else
        let b = nat bank;
            tobe_erased = fold (\<lambda>blk_idx e. if meta (Nand_Flash st b blk_idx 0) WRITTEN \<noteq> 0 then 1 else e)
                            [0..<nat (NBLOCK st)] (0 :: int)
        in if tobe_erased = 0 then (st, -4)
           else (st\<lparr>Nand_Flash := (Nand_Flash st)(b := (\<lambda>k.
                   if int k < NBLOCK st
                   then (\<lambda>p. let old = Nand_Flash st b k p;
                              pg = (if int p < NPAGE st
                                    then \<lparr>pdata = replicate 32 0, pspare = replicate 4 0,
                                          meta = clear_meta (meta old)\<rparr> else old)
                          in if p = 0 then pg\<lparr>meta := (meta pg)(BE_WRITTEN := 1)\<rparr> else pg)
                   else Nand_Flash st b k))\<rparr>, 0))"

section \<open>The device as one log per block\<close>

text \<open>
  A block is well formed with \<open>n\<close> pages programmed: these are flagged as written, the next
  one (if there is one) as the one to write.
\<close>

definition blk_ok :: "int \<Rightarrow> (nat \<Rightarrow> page1) \<Rightarrow> nat \<Rightarrow> bool" where
  "blk_ok np blk n \<longleftrightarrow> int n \<le> np \<and>
     (\<forall>p. int p < np \<longrightarrow>
        meta (blk p) WRITTEN = (if p < n then 1 else 0) \<and>
        meta (blk p) BE_WRITTEN = (if p = n then 1 else 0) \<and>
        length (pdata (blk p)) = 32 \<and> length (pspare (blk p)) = 4)"

definition programmed :: "nand1 \<Rightarrow> int \<Rightarrow> int \<Rightarrow> nat" where
  "programmed st bank blk =
     length (filter (\<lambda>p. meta (Nand_Flash st (nat bank) (nat blk) p) WRITTEN = 1) [0..<nat (NPAGE st)])"

definition nand1_ok :: "nand1 \<Rightarrow> bool" where
  "nand1_ok st \<longleftrightarrow> 0 \<le> NBANK st \<and> NBANK st \<le> 64 \<and> 0 \<le> NBLOCK st \<and> NBLOCK st \<le> 64 \<and>
     0 \<le> NPAGE st \<and> NPAGE st \<le> 64 \<and>
     (\<forall>b k. int b < NBANK st \<longrightarrow> int k < NBLOCK st \<longrightarrow> blk_ok (NPAGE st) (Nand_Flash st b k) (programmed st (int b) (int k)))"

definition nand1_log :: "nand1 \<Rightarrow> int \<Rightarrow> int \<Rightarrow> (u8 list \<times> u8 list) list" where
  "nand1_log st bank blk =
     map (\<lambda>i. let p = Nand_Flash st (nat bank) (nat blk) i in (pdata p, pspare p))
       [0..<programmed st bank blk]"

definition nand1_dims :: "nand1 \<Rightarrow> int \<times> int \<times> int" where
  "nand1_dims st = (NBANK st, NBLOCK st, NPAGE st)"

definition page1_good :: "u8 list \<times> u8 list \<Rightarrow> bool" where
  "page1_good p \<longleftrightarrow> length (fst p) = 32 \<and> length (snd p) = 4"

lemma in_dims_nand1: "in_dims (nand1_dims st) bank blk page \<longleftrightarrow> \<not> invalid1 st bank blk page"
  by (auto simp: in_dims_def nand1_dims_def invalid1_def)

lemma programmed_eq:
  assumes "blk_ok (NPAGE st) (Nand_Flash st b k) n"
  shows "programmed st (int b) (int k) = n"
proof -
  have n: "n \<le> nat (NPAGE st)" using assms by (auto simp: blk_ok_def)
  have "filter (\<lambda>p. meta (Nand_Flash st b k p) WRITTEN = 1) [0..<nat (NPAGE st)] =
      filter (\<lambda>p. p < n) [0..<nat (NPAGE st)]"
    using assms by (intro filter_cong) (auto simp: blk_ok_def)
  also have "\<dots> = [0..<n]"
  proof -
    have "[0..<nat (NPAGE st)] = [0..<n] @ [n..<nat (NPAGE st)]"
      using n by (metis le_add_diff_inverse upt_add_eq_append zero_le)
    then show ?thesis by (simp add: filter_empty_conv)
  qed
  finally show ?thesis by (simp add: programmed_def)
qed

lemma nand1_okI:
  assumes "0 \<le> NBANK st" "NBANK st \<le> 64" "0 \<le> NBLOCK st" "NBLOCK st \<le> 64" "0 \<le> NPAGE st" "NPAGE st \<le> 64"
    and "\<And>b k. int b < NBANK st \<Longrightarrow> int k < NBLOCK st \<Longrightarrow> \<exists>n. blk_ok (NPAGE st) (Nand_Flash st b k) n"
  shows "nand1_ok st"
  using assms programmed_eq unfolding nand1_ok_def by metis

lemma nand1_blk:
  assumes "nand1_ok st" "\<not> invalid1 st bank blk page"
  shows "blk_ok (NPAGE st) (Nand_Flash st (nat bank) (nat blk)) (programmed st bank blk)"
proof -
  have "0 \<le> bank" "0 \<le> blk" "bank < NBANK st" "blk < NBLOCK st" using assms(2) by (auto simp: invalid1_def)
  moreover have "\<And>b k. int b < NBANK st \<Longrightarrow> int k < NBLOCK st \<Longrightarrow>
      blk_ok (NPAGE st) (Nand_Flash st b k) (programmed st (int b) (int k))"
    using assms(1) unfolding nand1_ok_def by blast
  from this [of "nat bank" "nat blk"] calculation show ?thesis by simp
qed

lemma log_nth:
  "blk_ok (NPAGE st) (Nand_Flash st b k) n \<Longrightarrow> nand1_log st (int b) (int k) =
     map (\<lambda>i. (pdata (Nand_Flash st b k i), pspare (Nand_Flash st b k i))) [0..<n]"
  by (simp add: nand1_log_def programmed_eq Let_def)

lemma nand1_init_ok:
  "0 \<le> nb \<Longrightarrow> nb \<le> 64 \<Longrightarrow> 0 \<le> nk \<Longrightarrow> nk \<le> 64 \<Longrightarrow> 0 \<le> np \<Longrightarrow> np \<le> 64 \<Longrightarrow>
     nand1_ok (fst (nand1_init nb nk np st))"
  by (intro nand1_okI)
    (auto simp: nand1_init_def blk_ok_def fresh_page_def clear_meta_def intro!: exI [of _ "0 :: nat"])

lemma nand1_write_next:
  assumes ok: "nand1_ok st" and good: "page1_good p" and v: "\<not> invalid1 st bank blk page"
    and nxt: "page = int (length (nand1_log st bank blk))"
  shows "\<exists>st'. nand1_write st bank blk page p = (st', 0) \<and> nand1_ok st' \<and> nand1_dims st' = nand1_dims st \<and>
    (\<forall>b k. in_dims (nand1_dims st) b k 0 \<longrightarrow> nand1_log st' b k =
       (if b = bank \<and> k = blk then nand1_log st b k @ [p] else nand1_log st b k))"
proof -
  define B K n where "B = nat bank" and "K = nat blk" and "n = programmed st bank blk"
  have n: "nat page = n" "page = int n" using nxt by (simp_all add: n_def nand1_log_def)
  have bk: "bank = int B" "blk = int K" using v by (auto simp: B_def K_def invalid1_def)
  have blk: "blk_ok (NPAGE st) (Nand_Flash st B K) n" using nand1_blk [OF ok v] by (simp add: B_def K_def n_def)
  have nP: "int n < NPAGE st" using v n by (simp add: invalid1_def)
  have m: "meta (Nand_Flash st B K n) WRITTEN = 0" "meta (Nand_Flash st B K n) BE_WRITTEN = 1"
    using blk nP by (auto simp: blk_ok_def)
  have c: "map (\<lambda>i. fst p ! i) [0..<32] = fst p" "map (\<lambda>i. snd p ! i) [0..<4] = snd p"
    using good map_nth [of "fst p"] map_nth [of "snd p"] by (simp_all add: page1_good_def)
  obtain st' where run: "nand1_write st bank blk page p = (st', 0)"
    using v m by (auto simp: nand1_write_def B_def K_def n(1) Let_def)
  have st': "st' = (let st1 = upd_page st B K n \<lparr>pdata = fst p, pspare = snd p,
         meta = (meta (Nand_Flash st B K n))(WRITTEN := 1, BE_WRITTEN := 0)\<rparr> in
       if page < NPAGE st - 1 then
         let nxt = Nand_Flash st1 B K (n + 1) in
         upd_page st1 B K (n + 1) (nxt\<lparr>meta := (meta nxt)(BE_WRITTEN := 1)\<rparr>) else st1)"
    using run v m by (simp add: nand1_write_def B_def [symmetric] K_def [symmetric] n(1) Let_def c)
  have dims: "NBANK st' = NBANK st" "NBLOCK st' = NBLOCK st" "NPAGE st' = NPAGE st"
    by (simp_all add: st' Let_def upd_page_def)
  have oth: "Nand_Flash st' b k = Nand_Flash st b k" if "b \<noteq> B \<or> k \<noteq> K" for b k
    using that by (auto simp: st' Let_def upd_page_def)
  have pg: "Nand_Flash st' B K q = (if q = n then \<lparr>pdata = fst p, pspare = snd p,
         meta = (meta (Nand_Flash st B K n))(WRITTEN := 1, BE_WRITTEN := 0)\<rparr>
      else if q = n + 1 \<and> int n < NPAGE st - 1 then
        (Nand_Flash st B K q)\<lparr>meta := (meta (Nand_Flash st B K q))(BE_WRITTEN := 1)\<rparr>
      else Nand_Flash st B K q)" for q
    by (simp add: st' n(2) Let_def upd_page_def)
  have new: "blk_ok (NPAGE st) (Nand_Flash st' B K) (Suc n)"
    unfolding blk_ok_def
  proof (intro conjI allI impI)
    fix q assume q: "int q < NPAGE st"
    note old = blk [unfolded blk_ok_def, THEN conjunct2, rule_format, OF q]
    show "meta (Nand_Flash st' B K q) WRITTEN = (if q < Suc n then 1 else 0)"
      "meta (Nand_Flash st' B K q) BE_WRITTEN = (if q = Suc n then 1 else 0)"
      "length (pdata (Nand_Flash st' B K q)) = 32" "length (pspare (Nand_Flash st' B K q)) = 4"
      using old good q by (auto simp: pg page1_good_def)
  qed (use nP in simp)
  have "nand1_ok st'"
  proof (rule nand1_okI)
    fix b k assume "int b < NBANK st'" "int k < NBLOCK st'"
    then show "\<exists>n. blk_ok (NPAGE st') (Nand_Flash st' b k) n"
      using new oth [of b k] ok unfolding dims nand1_ok_def by (cases "b = B \<and> k = K") auto
  qed (use ok in \<open>auto simp: dims nand1_ok_def\<close>)
  moreover have "nand1_log st' b k = (if b = bank \<and> k = blk then nand1_log st b k @ [p] else nand1_log st b k)"
    if bk': "in_dims (nand1_dims st) b k 0" for b k
  proof -
    have b0: "0 \<le> b" "0 \<le> k" using bk' by (auto simp: in_dims_def nand1_dims_def)
    show ?thesis
    proof (cases "b = bank \<and> k = blk")
      case True
      have "map (\<lambda>i. (pdata (Nand_Flash st' B K i), pspare (Nand_Flash st' B K i))) [0..<n] =
          map (\<lambda>i. (pdata (Nand_Flash st B K i), pspare (Nand_Flash st B K i))) [0..<n]"
        by (simp add: pg)
      with True show ?thesis
        using new log_nth [of st' B K "Suc n"] log_nth [OF blk] by (simp add: dims bk pg)
    next
      case False
      then have "nat b \<noteq> B \<or> nat k \<noteq> K" using b0 bk by auto
      with oth have "Nand_Flash st' (nat b) (nat k) = Nand_Flash st (nat b) (nat k)" by blast
      with False show ?thesis by (auto simp: nand1_log_def programmed_def dims)
    qed
  qed
  ultimately show ?thesis using run by (simp add: nand1_dims_def dims)
qed

text \<open>
  A page that is written is refused with \<open>NAND_ERR_OVERWRITE\<close>, one further on with
  \<open>NAND_ERR_POSITION\<close>: here both codes occur, as the comments of the code say.
\<close>

lemma nand1_write_refused:
  assumes ok: "nand1_ok st" and v: "\<not> invalid1 st bank blk page"
    and ne: "page \<noteq> int (length (nand1_log st bank blk))"
  shows "nand1_write st bank blk page p =
    (st, if page < int (length (nand1_log st bank blk)) then -2 else -3)"
proof -
  have "0 \<le> page" "int (nat page) < NPAGE st" using v by (auto simp: invalid1_def)
  with nand1_blk [OF ok v] ne v show ?thesis
    by (auto simp: nand1_write_def Let_def blk_ok_def nand1_log_def)
qed

lemma nand1_read_log:
  assumes ok: "nand1_ok st" and v: "\<not> invalid1 st bank blk page"
  shows "nand1_read st bank blk page buf =
    (if page < int (length (nand1_log st bank blk)) then (nand1_log st bank blk ! nat page, 0) else (buf, -4))"
proof -
  have pg: "0 \<le> page" "int (nat page) < NPAGE st" using v by (auto simp: invalid1_def)
  have eqs: "xs = map ((!) xs) [0..<length xs]" for xs :: "u8 list" by (simp add: map_nth)
  show ?thesis
    using nand1_blk [OF ok v] pg v eqs [of "pdata (Nand_Flash st (nat bank) (nat blk) (nat page))"]
      eqs [of "pspare (Nand_Flash st (nat bank) (nat blk) (nat page))"]
    by (auto simp: nand1_read_def Let_def blk_ok_def nand1_log_def)
qed

section \<open>The simulator as a flash device that can be programmed\<close>

interpretation nd1: flash_log nand1_ok nand1_dims nand1_log page1_good nand1_write nand1_read
proof unfold_locales
  fix s p bank blk page
  assume a: "nand1_ok s" "page1_good p" "in_dims (nand1_dims s) bank blk page"
    "page = int (length (nand1_log s bank blk))"
  then show "\<exists>s'. nand1_write s bank blk page p = (s', 0) \<and> nand1_ok s' \<and> nand1_dims s' = nand1_dims s \<and>
      (\<forall>b k. in_dims (nand1_dims s) b k 0 \<longrightarrow> nand1_log s' b k =
        (if b = bank \<and> k = blk then nand1_log s b k @ [p] else nand1_log s b k))"
    using nand1_write_next by (simp add: in_dims_nand1)
next
  fix s bank blk page buf
  assume "nand1_ok s" "in_dims (nand1_dims s) bank blk page" "page < int (length (nand1_log s bank blk))"
  then show "nand1_read s bank blk page buf = (nand1_log s bank blk ! nat page, 0)"
    using nand1_read_log by (simp add: in_dims_nand1)
next
  fix s bank blk page p
  assume "nand1_ok s" "in_dims (nand1_dims s) bank blk page" "page \<noteq> int (length (nand1_log s bank blk))"
  then show "fst (nand1_write s bank blk page p) = s \<and> snd (nand1_write s bank blk page p) < 0"
    using nand1_write_refused by (simp add: in_dims_nand1)
next
  fix s bank blk page buf
  assume "nand1_ok s" "in_dims (nand1_dims s) bank blk page" "int (length (nand1_log s bank blk)) \<le> page"
  then show "nand1_read s bank blk page buf = (buf, - 4)"
    using nand1_read_log by (simp add: in_dims_nand1)
next
  fix s nb nk np bank blk
  assume a: "nand1_ok s" "nand1_dims s = (nb, nk, np)" "in_dims (nand1_dims s) bank blk 0"
  have "blk_ok (NPAGE s) (Nand_Flash s (nat bank) (nat blk)) (programmed s bank blk)"
    by (rule nand1_blk [OF a(1), of bank blk 0]) (use a(3) in \<open>simp add: in_dims_nand1\<close>)
  with a(2) show "int (length (nand1_log s bank blk)) \<le> np"
    by (auto simp: blk_ok_def nand1_log_def nand1_dims_def)
next
  fix s bank blk p
  assume a: "nand1_ok s" "in_dims (nand1_dims s) bank blk 0" "p \<in> set (nand1_log s bank blk)"
  then have "blk_ok (NPAGE s) (Nand_Flash s (nat bank) (nat blk)) (programmed s bank blk)"
    by (intro nand1_blk [of s bank blk 0]) (auto simp: in_dims_nand1)
  with a(3) show "page1_good p" by (auto simp: blk_ok_def nand1_log_def page1_good_def Let_def)
qed

section \<open>Erasing\<close>

lemma any_fold:
  "fold (\<lambda>k e. if P k then 1 else e) xs (e0 :: int) = 0 \<longleftrightarrow> e0 = 0 \<and> (\<forall>k \<in> set xs. \<not> P k)"
  by (induction xs arbitrary: e0) auto

lemma log_empty:
  assumes ok: "nand1_ok st" and v: "\<not> invalid1 st bank blk 0"
  shows "nand1_log st bank blk = [] \<longleftrightarrow> meta (Nand_Flash st (nat bank) (nat blk) 0) WRITTEN = 0"
  using nand1_blk [OF ok v] v by (auto simp: blk_ok_def nand1_log_def invalid1_def)

text \<open>
  What erasing does: with nothing programmed in the whole bank it reports \<open>NAND_ERR_EMPTY\<close>,
  otherwise it empties every block of the bank, whichever block it was given.
\<close>

lemma nand1_erase_bank:
  assumes ok: "nand1_ok st" and v: "\<not> invalid1 st bank blk 0"
  shows "(\<forall>k. in_dims (nand1_dims st) bank k 0 \<longrightarrow> nand1_log st bank k = []) \<longrightarrow> nand1_erase st bank blk = (st, -4)"
    and "(\<exists>k. in_dims (nand1_dims st) bank k 0 \<and> nand1_log st bank k \<noteq> []) \<longrightarrow>
      snd (nand1_erase st bank blk) = 0 \<and> nand1_ok (fst (nand1_erase st bank blk)) \<and>
      nand1_dims (fst (nand1_erase st bank blk)) = nand1_dims st \<and>
      (\<forall>b k. in_dims (nand1_dims st) b k 0 \<longrightarrow> nand1_log (fst (nand1_erase st bank blk)) b k =
         (if b = bank then [] else nand1_log st b k))"
proof -
  have B: "bank = int (nat bank)" "0 \<le> blk" "blk < NBLOCK st" "0 < NPAGE st" "bank < NBANK st" "0 \<le> bank"
    using v by (auto simp: invalid1_def)
  have all: "(\<forall>k. in_dims (nand1_dims st) bank k 0 \<longrightarrow> nand1_log st bank k = []) \<longleftrightarrow>
      (\<forall>k \<in> set [0..<nat (NBLOCK st)]. \<not> meta (Nand_Flash st (nat bank) k 0) WRITTEN \<noteq> 0)"
  proof
    assume a: "\<forall>k. in_dims (nand1_dims st) bank k 0 \<longrightarrow> nand1_log st bank k = []"
    have "meta (Nand_Flash st (nat bank) k 0) WRITTEN = 0" if "int k < NBLOCK st" for k
    proof -
      have "\<not> invalid1 st bank (int k) 0" using B that by (simp add: invalid1_def)
      with a log_empty [OF ok this] show ?thesis by (simp add: in_dims_nand1)
    qed
    then show "\<forall>k \<in> set [0..<nat (NBLOCK st)]. \<not> meta (Nand_Flash st (nat bank) k 0) WRITTEN \<noteq> 0" by auto
  next
    assume a: "\<forall>k \<in> set [0..<nat (NBLOCK st)]. \<not> meta (Nand_Flash st (nat bank) k 0) WRITTEN \<noteq> 0"
    show "\<forall>k. in_dims (nand1_dims st) bank k 0 \<longrightarrow> nand1_log st bank k = []"
    proof (intro allI impI)
      fix k assume k: "in_dims (nand1_dims st) bank k 0"
      then have "nat k \<in> set [0..<nat (NBLOCK st)]" by (auto simp: in_dims_def nand1_dims_def)
      with a log_empty [OF ok k [unfolded in_dims_nand1]] show "nand1_log st bank k = []" by blast
    qed
  qed
  show "(\<forall>k. in_dims (nand1_dims st) bank k 0 \<longrightarrow> nand1_log st bank k = []) \<longrightarrow> nand1_erase st bank blk = (st, -4)"
    using B by (simp only: all) (simp add: nand1_erase_def Let_def any_fold)
  show "(\<exists>k. in_dims (nand1_dims st) bank k 0 \<and> nand1_log st bank k \<noteq> []) \<longrightarrow>
      snd (nand1_erase st bank blk) = 0 \<and> nand1_ok (fst (nand1_erase st bank blk)) \<and>
      nand1_dims (fst (nand1_erase st bank blk)) = nand1_dims st \<and>
      (\<forall>b k. in_dims (nand1_dims st) b k 0 \<longrightarrow> nand1_log (fst (nand1_erase st bank blk)) b k =
         (if b = bank then [] else nand1_log st b k))"
  proof
    assume "\<exists>k. in_dims (nand1_dims st) bank k 0 \<and> nand1_log st bank k \<noteq> []"
    then have "\<not> (\<forall>k \<in> set [0..<nat (NBLOCK st)]. \<not> meta (Nand_Flash st (nat bank) k 0) WRITTEN \<noteq> 0)"
      using all by blast
    then have "fold (\<lambda>k e. if meta (Nand_Flash st (nat bank) k 0) WRITTEN \<noteq> 0 then 1 else e)
        [0..<nat (NBLOCK st)] (0 :: int) \<noteq> 0" unfolding any_fold by blast
    then obtain t where t: "nand1_erase st bank blk = (t, 0)"
      and F: "Nand_Flash t = (Nand_Flash st)(nat bank := (\<lambda>k.
                   if int k < NBLOCK st
                   then (\<lambda>p. let old = Nand_Flash st (nat bank) k p;
                              pg = (if int p < NPAGE st
                                    then \<lparr>pdata = replicate 32 0, pspare = replicate 4 0,
                                          meta = clear_meta (meta old)\<rparr> else old)
                          in if p = 0 then pg\<lparr>meta := (meta pg)(BE_WRITTEN := 1)\<rparr> else pg)
                   else Nand_Flash st (nat bank) k))"
      and dims: "NBANK t = NBANK st" "NBLOCK t = NBLOCK st" "NPAGE t = NPAGE st"
      using B by (simp add: nand1_erase_def Let_def)
    have e: "blk_ok (NPAGE st) (Nand_Flash t (nat bank) k) 0" if "int k < NBLOCK st" for k
      using that B(4) by (auto simp: F blk_ok_def Let_def clear_meta_def)
    have o: "Nand_Flash t b = Nand_Flash st b" if "b \<noteq> nat bank" for b using that by (simp add: F)
    have "nand1_ok t"
    proof (rule nand1_okI)
      fix b k assume "int b < NBANK t" "int k < NBLOCK t"
      then show "\<exists>n. blk_ok (NPAGE t) (Nand_Flash t b k) n"
        using e [of k] o [of b] ok unfolding dims nand1_ok_def by (cases "b = nat bank") auto
    qed (use ok in \<open>auto simp: dims nand1_ok_def\<close>)
    moreover have "nand1_log t b k = (if b = bank then [] else nand1_log st b k)"
      if bk: "in_dims (nand1_dims st) b k 0" for b k
    proof -
      have k: "k = int (nat k)" "0 \<le> b" "int (nat k) < NBLOCK st" using bk by (auto simp: in_dims_def nand1_dims_def)
      show ?thesis
      proof (cases "b = bank")
        case True
        have "blk_ok (NPAGE t) (Nand_Flash t (nat bank) (nat k)) 0" using e [OF k(3)] by (simp add: dims)
        from log_nth [OF this] True show ?thesis using B(1) k(1) by simp
      next
        case False
        with o [of "nat b"] k(2) B(6) show ?thesis by (simp add: nand1_log_def programmed_def dims)
      qed
    qed
    ultimately show "snd (nand1_erase st bank blk) = 0 \<and> nand1_ok (fst (nand1_erase st bank blk)) \<and>
      nand1_dims (fst (nand1_erase st bank blk)) = nand1_dims st \<and>
      (\<forall>b k. in_dims (nand1_dims st) b k 0 \<longrightarrow> nand1_log (fst (nand1_erase st bank blk)) b k =
         (if b = bank then [] else nand1_log st b k))"
      by (simp add: t nand1_dims_def dims)
  qed
qed


section \<open>The properties of the first device\<close>

definition nand1_dev :: nand1 where
  "nand1_dev = fst (nand1_init 2 2 4 \<lparr>Nand_Flash = (\<lambda>_ _ _. \<lparr>pdata = [], pspare = [], meta = (\<lambda>_. 0)\<rparr>),
     page_map_entry = (\<lambda>_ _. 0), NBANK = 0, NBLOCK = 0, NPAGE = 0\<rparr>)"

lemma nand1_dev_ok: "nand1_ok nand1_dev" "nand1_dims nand1_dev = (2, 2, 4)"
  using nand1_init_ok [of 2 2 4] by (simp_all add: nand1_dev_def) (simp add: nand1_dims_def nand1_init_def)

abbreviation page_b :: "u8 list \<times> u8 list" where "page_b \<equiv> (replicate 32 7, replicate 4 1)"

text \<open>
  The erase of the first lab empties every block of the bank it is given, not only the
  block it names, as soon as any block of that bank was programmed; with the whole bank empty it
  reports \<open>NAND_ERR_EMPTY\<close>. The other banks are kept.
\<close>

theorem nand1_erase_whole_bank:
  assumes "nand1_ok st" "in_dims (nand1_dims st) bank blk 0"
  shows "if \<exists>k. in_dims (nand1_dims st) bank k 0 \<and> nand1_log st bank k \<noteq> []
    then snd (nand1_erase st bank blk) = 0 \<and> nand1_ok (fst (nand1_erase st bank blk)) \<and>
      (\<forall>b k. in_dims (nand1_dims st) b k 0 \<longrightarrow> nand1_log (fst (nand1_erase st bank blk)) b k =
         (if b = bank then [] else nand1_log st b k))
    else nand1_erase st bank blk = (st, -4)"
proof -
  have v: "\<not> invalid1 st bank blk 0" using assms(2) by (simp add: in_dims_nand1)
  show ?thesis using nand1_erase_bank [OF assms(1) v] by auto
qed

text \<open>Block 0 loses its page when block 1 of the same bank is erased.\<close>

lemma nand1_erase_whole_bank_witness:
  "nand1_log (fst (nand1_write nand1_dev 0 0 0 page_b)) 0 0 = [page_b] \<and>
   nand1_log (fst (nand1_erase (fst (nand1_write nand1_dev 0 0 0 page_b)) 0 1)) 0 0 = []"
proof -
  have d: "nand1_log nand1_dev 0 0 = []" by code_simp
  obtain s where s: "nand1_write nand1_dev 0 0 0 page_b = (s, 0)" "nand1_ok s" "nand1_dims s = (2, 2, 4)"
    "nand1_log s 0 0 = [page_b]"
    using nd1.wr_next [OF nand1_dev_ok(1), of page_b 0 0 0]
    by (auto simp: nand1_dev_ok page1_good_def in_dims_def d)
  have "\<exists>k. in_dims (nand1_dims s) 0 k 0 \<and> nand1_log s 0 k \<noteq> []"
    using s(3,4) by (intro exI [of _ 0]) (simp add: in_dims_def)
  then have "\<forall>b k. in_dims (nand1_dims s) b k 0 \<longrightarrow> nand1_log (fst (nand1_erase s 0 1)) b k =
      (if b = 0 then [] else nand1_log s b k)"
    using nand1_erase_whole_bank [OF s(2), of 0 1] s(3) by (simp add: in_dims_def)
  then have "nand1_log (fst (nand1_erase s 0 1)) 0 0 = []" using s(3) by (simp add: in_dims_def)
  with s(1,4) show ?thesis by simp
qed

text \<open>
  Programming any page but the next one of its block is refused without a change: with
  \<open>NAND_ERR_OVERWRITE\<close> when the page was programmed, with \<open>NAND_ERR_POSITION\<close> when it lies further.
\<close>

theorem nand1_refuses:
  assumes "nand1_ok st" "in_dims (nand1_dims st) bank blk page"
    and "page \<noteq> int (length (nand1_log st bank blk))"
  shows "nand1_write st bank blk page p =
    (st, if page < int (length (nand1_log st bank blk)) then -2 else -3)"
  using nand1_write_refused assms by (simp add: in_dims_nand1)

lemma nand1_refuses_witness: "nand1_write nand1_dev 0 0 2 page_b = (nand1_dev, -3)"
proof -
  have "nand1_log nand1_dev 0 0 = []" by code_simp
  then show ?thesis
    using nand1_refuses [OF nand1_dev_ok(1), of 0 0 2 page_b] by (simp add: nand1_dev_ok in_dims_def)
qed

end
