(* ===== verification/Sfp.thy ===== *)
theory Sfp
  imports Prelude
begin

text \<open>
  The 24-bit floating point format of \<open>2-1/SKKU/SiPu/HW1/hw1_skeleton-3/sfp.c\<close>: 1 sign bit, 7
  exponent bits (bias 63), 16 fraction bits, in an \<open>unsigned\<close>. The unions that give access to
  the fields are records of words of the fields' widths, with the functions that read them
  from an \<open>unsigned\<close> and put them back, so an assignment to a field keeps its low bits as in
  C. The upper 8 bits of a result are those of an uninitialised local: they are the argument
  \<open>ret\<close>. A \<open>float\<close> is its bit pattern. Undefined shifts and overflows are \<open>None\<close>.
\<close>

section \<open>Representations\<close>

record mysfp =
  r_frac :: "16 word"
  r_exp :: "7 word"
  r_sign :: "1 word"
  r_top :: "8 word"     \<comment> \<open>the bits of \<open>u\<close> that no field covers\<close>

definition raw :: "u32 \<Rightarrow> mysfp" where
  "raw u = \<lparr>r_frac = ucast u, r_exp = ucast (drop_bit 16 u), r_sign = ucast (drop_bit 23 u),
            r_top = ucast (drop_bit 24 u)\<rparr>"

definition bits :: "mysfp \<Rightarrow> u32" where
  "bits m = ucast (r_frac m) OR push_bit 16 (ucast (r_exp m)) OR push_bit 23 (ucast (r_sign m))
            OR push_bit 24 (ucast (r_top m))"

record myfloat =
  f_frac :: "23 word"
  f_exp :: "8 word"
  f_sign :: "1 word"

definition fraw :: "u32 \<Rightarrow> myfloat" where
  "fraw u = \<lparr>f_frac = ucast u, f_exp = ucast (drop_bit 23 u), f_sign = ucast (drop_bit 31 u)\<rparr>"

definition fbits :: "myfloat \<Rightarrow> u32" where
  "fbits m = ucast (f_frac m) OR push_bit 23 (ucast (f_exp m)) OR push_bit 31 (ucast (f_sign m))"

text \<open>\<open>TMin\<close>, \<open>TMax\<close> and the fields of \<open>myint\<close>: 31 bits \<open>num\<close> and the sign bit.\<close>

definition TMin :: u32 where "TMin = 0x80000000"
definition TMax :: u32 where "TMax = 0x7FFFFFFF"

definition myint :: "u32 \<Rightarrow> 1 word \<Rightarrow> u32" where
  "myint num sign = (num AND 0x7FFFFFFF) OR push_bit 31 (ucast sign)"

section \<open>Integers\<close>

text \<open>A left shift of a 32-bit value by 32 or more is undefined.\<close>

definition fraclength :: "u32 \<Rightarrow> nat \<Rightarrow> bool option" where
  "fraclength n x =
     (if x + 1 \<ge> 32 then None
      else let lbound = push_bit x (0 :: u32); rbound = push_bit (x + 1) (1 :: u32)
           in Some (lbound \<le> n \<and> n < rbound))"

fun first_fraclength :: "u32 \<Rightarrow> nat list \<Rightarrow> int option" where
  "first_fraclength n [] = Some (-1)"
| "first_fraclength n (i # is) =
     (case fraclength n i of None \<Rightarrow> None
      | Some b \<Rightarrow> if b then Some (int i) else first_fraclength n is)"

definition getfraclength :: "u32 \<Rightarrow> int option" where
  "getfraclength n = first_fraclength n [1..<32]"

definition getfracbit :: "u32 \<Rightarrow> int \<Rightarrow> u32" where
  "getfracbit n s = (if s < 16 then push_bit (nat (16 - s)) n else n)"

definition int2sfp :: "mysfp \<Rightarrow> u32 \<Rightarrow> u32 option" where
  "int2sfp ret input =
     (if input = 0 then Some (bits (ret\<lparr>r_sign := 0, r_exp := 0, r_frac := 0\<rparr>))
      else if input = TMin then None
      else
        let sign = sint input < 0;
            n = (if sign then NOT input + 1 else input)
        in do {
          shiftnum \<leftarrow> (if n = 1 then Some 0 else getfraclength n);
          let exp = (word_of_int (shiftnum + 63) :: u32);
          let frac = getfracbit n shiftnum;
          Some (bits (ret\<lparr>r_sign := of_bool sign, r_exp := ucast exp, r_frac := ucast frac\<rparr>))
        })"

definition sfp2int :: "u32 \<Rightarrow> u32" where
  "sfp2int input =
     (let ms = raw input; sign = r_sign ms;
          exp = (ucast (r_exp ms) :: u32); frac = (ucast (r_frac ms) :: u32)
      in
        if exp = 0 then 0
        else if exp = 127 then
          (if frac = 0 then (if sign = 1 then TMin else TMax) else TMin)
        else if exp < 63 then 0
        else
          let e = exp - 63 in
          if 31 \<le> e then (if sign = 1 then TMin else TMax)
          else
            let f1 = (if e \<le> 16 then drop_bit (16 - unat e) frac else drop_bit 16 frac);
                f2 = f1 + push_bit (unat e) 1;
                f3 = (if sign = 1 then NOT f2 + 1 else f2)
            in myint f3 sign)"

section \<open>Single precision floats\<close>

definition float2sfp :: "mysfp \<Rightarrow> u32 \<Rightarrow> u32" where
  "float2sfp ret0 input =
     (let mf = fraw input;
          exp = (ucast (f_exp mf) :: u32); frac = (ucast (f_frac mf) :: u32);
          ret = ret0\<lparr>r_sign := f_sign mf\<rparr>
      in
        if exp = 255 then
          (if frac = 0 then bits (ret\<lparr>r_exp := 127, r_frac := 0\<rparr>)
           else bits (ret\<lparr>r_exp := 127, r_frac := 1\<rparr>))
        else if exp = 0 \<and> frac = 0 then bits (ret\<lparr>r_exp := ucast exp, r_frac := ucast frac\<rparr>)
        else if exp \<ge> 190 then bits (ret\<lparr>r_exp := 127, r_frac := 0\<rparr>)
        else if exp = 64 then
          bits (ret\<lparr>r_exp := 0, r_frac := ucast (drop_bit 8 frac OR push_bit 15 1)\<rparr>)
        else if exp < 64 then bits (ret\<lparr>r_exp := 0, r_frac := 0\<rparr>)
        else bits (ret\<lparr>r_exp := ucast (exp - 64), r_frac := ucast (drop_bit 7 frac)\<rparr>))"

text \<open>The loop that normalises a fraction: it does not end when the fraction is zero.\<close>

partial_function (option) float_norm :: "u32 \<times> 8 word \<Rightarrow> (u32 \<times> 8 word) option" where
  "float_norm se =
     (if fst se AND push_bit 23 1 = 0 then float_norm (push_bit 1 (fst se), snd se - 1) else Some se)"

definition sfp2float :: "u32 \<Rightarrow> u32 option" where
  "sfp2float input =
     (let ms = raw input;
          ret = \<lparr>f_frac = ucast (r_frac ms), f_exp = ucast (r_exp ms), f_sign = r_sign ms\<rparr>
      in
        if r_exp ms = 0 then
          (if r_frac ms = 0 then Some (fbits ret)
           else do {
             (signif, exp) \<leftarrow> float_norm (push_bit 8 (ucast (f_frac ret)), 64);
             Some (fbits (ret\<lparr>f_exp := exp, f_frac := ucast signif\<rparr>)) })
        else Some (fbits (ret\<lparr>f_exp := f_exp ret + 64, f_frac := push_bit 7 (f_frac ret)\<rparr>)))"

section \<open>Addition\<close>

definition is_inf :: "mysfp \<Rightarrow> bool" where "is_inf m \<longleftrightarrow> r_exp m = 127 \<and> r_frac m = 0"
definition is_zero :: "mysfp \<Rightarrow> bool" where "is_zero m \<longleftrightarrow> r_exp m = 0 \<and> r_frac m = 0"

definition significand :: "mysfp \<Rightarrow> u64" where
  "significand m = (if r_exp m \<noteq> 0 then ucast (r_frac m) OR 0x10000 else ucast (r_frac m))"

text \<open>
  The shift of the smaller significand with rounding. \<open>S\<close> is computed as
  \<open>(1 << (shiftnum - 1) - 1) & signif2\<close>, where \<open>-\<close> binds before \<open><<\<close>: it is one bit, not a mask.
\<close>

definition align :: "nat \<Rightarrow> u64 \<Rightarrow> u64" where
  "align shiftnum signif2 =
     (if shiftnum = 0 then signif2
      else if shiftnum = 1 then
        (let G = signif2 AND 2; R = signif2 AND 1 in
         if R \<noteq> 0 \<and> G \<noteq> 0 then drop_bit 1 signif2 + 1 else drop_bit 1 signif2)
      else if shiftnum < 18 then
        (let G = push_bit shiftnum 1 AND signif2; R = push_bit (shiftnum - 1) 1 AND signif2;
             S = push_bit (shiftnum - 1 - 1) 1 AND signif2
         in if R = 0 then drop_bit shiftnum signif2
            else if S \<noteq> 0 then drop_bit shiftnum signif2 + 1
            else if G \<noteq> 0 then drop_bit shiftnum signif2 + 1
            else drop_bit shiftnum signif2)
      else drop_bit 16 signif2)"

lemma unat_dec: "1 < (e :: 'a :: len word) \<Longrightarrow> unat (e - 1) < unat e"
proof -
  assume "1 < e"
  then have "e \<noteq> 0" by auto
  then show ?thesis by (simp add: unat_minus_one unat_gt_0)
qed

function norm_left :: "u64 \<Rightarrow> 7 word \<Rightarrow> u64 \<times> 7 word" where
  "norm_left signif exp =
     (if signif < 0x10000 \<and> exp > 1 then norm_left (push_bit 1 signif) (exp - 1) else (signif, exp))"
  by auto
termination
  by (relation "measure (\<lambda>(_, e). unat e)") (auto intro: unat_dec)

definition add_renorm :: "u64 \<Rightarrow> mysfp \<Rightarrow> u32" where
  "add_renorm signif ret =
     (if signif < 0x10000 then
        (let (sg, e) = norm_left signif (r_exp ret);
             sg1 = (if sg \<ge> 0x10000 \<and> e \<noteq> 0 then sg AND 0xFFFF else sg);
             e1 = (if sg1 < 0x10000 then 0 else e)
         in bits (ret\<lparr>r_exp := e1, r_frac := ucast sg1\<rparr>))
      else if signif \<ge> 0x20000 then
        (let G = signif AND 2; R = signif AND 1;
             sg = (if R \<noteq> 0 \<and> G \<noteq> 0 then drop_bit 1 signif + 1 else drop_bit 1 signif);
             e = r_exp ret + 1
         in if e = 127 then bits (ret\<lparr>r_exp := e, r_frac := 0\<rparr>)
            else bits (ret\<lparr>r_exp := e, r_frac := ucast sg\<rparr>))
      else if r_exp ret = 0 then bits (ret\<lparr>r_exp := 1, r_frac := ucast (signif AND 0xFFFF)\<rparr>)
      else bits (ret\<lparr>r_frac := ucast signif\<rparr>))"

definition add_finite :: "mysfp \<Rightarrow> u32 \<Rightarrow> u32 \<Rightarrow> u32" where
  "add_finite ret0 in1 in2 =
     (let tmp1 = bits ((raw in1)\<lparr>r_sign := 0\<rparr>); tmp2 = bits ((raw in2)\<lparr>r_sign := 0\<rparr>);
          (ms1, ms2) = (if tmp1 > tmp2 then (raw in1, raw in2) else (raw in2, raw in1));
          tmpexp1 = (if r_exp ms1 = 0 then 1 else ucast (r_exp ms1)) :: u32;
          tmpexp2 = (if r_exp ms2 = 0 then 1 else ucast (r_exp ms2)) :: u32;
          signif1 = significand ms1;
          signif2 = align (unat (tmpexp1 - tmpexp2)) (significand ms2);
          ret = ret0\<lparr>r_sign := r_sign ms1, r_exp := r_exp ms1\<rparr>;
          signif = (if r_sign ms1 = r_sign ms2 then signif1 + signif2 else signif1 - signif2)
      in add_renorm signif ret)"

definition sfp_add :: "mysfp \<Rightarrow> u32 \<Rightarrow> u32 \<Rightarrow> u32" where
  "sfp_add ret in1 in2 =
     (let ms1 = raw in1; ms2 = raw in2 in
      if r_exp ms1 = 127 then
        (if r_frac ms1 = 0 then
           (if r_sign ms1 = 1 then
              (if r_sign ms2 = 0 \<and> r_exp ms2 = 127 \<and> r_frac ms2 = 0
               then bits (ret\<lparr>r_sign := 0, r_exp := 127, r_frac := 1\<rparr>)
               else bits (ret\<lparr>r_sign := r_sign ms1, r_exp := 127, r_frac := 0\<rparr>))
            else
              (if r_sign ms2 = 1 \<and> r_exp ms2 = 127 \<and> r_frac ms2 = 0
               then bits (ret\<lparr>r_sign := 0, r_exp := 127, r_frac := 1\<rparr>)
               else bits (ret\<lparr>r_sign := r_sign ms1, r_exp := 127, r_frac := 0\<rparr>)))
         else in1)
      else if r_exp ms2 = 127 then
        (if r_frac ms2 = 0 then bits (ret\<lparr>r_sign := r_sign ms2, r_exp := 127, r_frac := 0\<rparr>) else in2)
      else if is_zero ms1 then in2
      else if is_zero ms2 then in1
      else add_finite ret in1 in2)"

section \<open>Multiplication\<close>

definition mul_round :: "u64 \<Rightarrow> u64" where
  "mul_round signif =
     (let G = push_bit 16 1 AND signif; R = push_bit 15 1 AND signif; S = (push_bit 15 1 - 1) AND signif
      in if R = 0 then drop_bit 16 signif
         else if S = 0 then (if G \<noteq> 0 then drop_bit 16 signif + 1 else drop_bit 16 signif)
         else drop_bit 16 signif + 1)"

text \<open>
  The product when neither operand is a NaN, a zero or caught as an infinity. The sum of the
  exponents is stored in the 7 bits of the field.
\<close>

definition mul_finite :: "mysfp \<Rightarrow> mysfp \<Rightarrow> mysfp \<Rightarrow> u32" where
  "mul_finite ms1 ms2 ret =
     (if int (unat (r_exp ms1)) + int (unat (r_exp ms2)) < 63 then bits (ret\<lparr>r_exp := 0, r_frac := 0\<rparr>)
      else
        let e0 = (word_of_int (int (unat (r_exp ms1)) + int (unat (r_exp ms2)) - 63) :: 7 word);
            signif0 = mul_round (significand ms1 * significand ms2);
            (signif1, e1) =
              (if signif0 \<ge> 0x20000 then
                 (drop_bit 1 (if signif0 AND 1 \<noteq> 0 \<and> signif0 AND 2 \<noteq> 0 then signif0 + 1 else signif0),
                  e0 + 1)
               else (signif0, e0));
            (signif2, e2) = norm_left signif1 e1
        in if e2 \<ge> 127 then bits (ret\<lparr>r_exp := 127, r_frac := 0\<rparr>)
           else bits (ret\<lparr>r_exp := e2, r_frac := ucast (signif2 AND 0xFFFF)\<rparr>))"

definition sfp_mul :: "mysfp \<Rightarrow> u32 \<Rightarrow> u32 \<Rightarrow> u32" where
  "sfp_mul ret0 in1 in2 =
     (let tmp1 = bits ((raw in1)\<lparr>r_sign := (if r_sign (raw in1) = 1 then 0 else 1)\<rparr>);
          tmp2 = bits ((raw in2)\<lparr>r_sign := (if r_sign (raw in2) = 1 then 0 else 1)\<rparr>);
          (ms1, ms2) = (if tmp1 > tmp2 then (raw in1, raw in2) else (raw in2, raw in1));
          ret = ret0\<lparr>r_sign := r_sign ms1 XOR r_sign ms2\<rparr>
      in
        if r_exp ms1 = 127 \<and> r_frac ms1 \<noteq> 0 \<or> r_exp ms2 = 127 \<and> r_frac ms2 \<noteq> 0
        then bits (ret\<lparr>r_exp := 127, r_frac := 1\<rparr>)
        else if is_zero ms1 \<or> is_zero ms2 then
          (if is_inf ms1 \<or> is_inf ms2 then bits (ret\<lparr>r_exp := 127, r_frac := 1\<rparr>)
           else bits (ret\<lparr>r_exp := 0, r_frac := 0\<rparr>))
        else if r_exp ms1 = 127 \<and> r_frac ms1 = 0 \<or> r_exp ms1 = 127 \<and> r_frac ms2 = 0
        then bits (ret\<lparr>r_exp := 127, r_frac := 0\<rparr>)
        else mul_finite ms1 ms2 ret)"

section \<open>Reading back the fields\<close>

lemma raw_bits [simp]: "raw (bits m) = m"
proof (cases m)
  case (fields f e s t)
  have "ucast (bits m) = f" "ucast (drop_bit 16 (bits m)) = e" "ucast (drop_bit 23 (bits m)) = s"
    "ucast (drop_bit 24 (bits m)) = t"
    unfolding bits_def fields
    by (rule bit_word_eqI; auto simp: bit_simps dest: bit_imp_le_length)+
  then show ?thesis by (simp add: raw_def fields)
qed

lemma bits_raw [simp]: "bits (raw u) = u"
proof (rule bit_word_eqI)
  fix n assume "n < LENGTH(32)"
  consider "n < 16" | m where "n = 16 + m" "m < 7" | "n = 23" | m where "n = 24 + m" "m < 8"
  proof -
    have "n < 32" using \<open>n < LENGTH(32)\<close> by simp
    then have "n < 16 \<or> (n = 16 + (n - 16) \<and> n - 16 < 7) \<or> n = 23 \<or> (n = 24 + (n - 24) \<and> n - 24 < 8)" by linarith
    with that show thesis by blast
  qed
  then show "bit (bits (raw u)) n = bit u n"
    by cases (auto simp: bits_def raw_def bit_simps)
qed

lemma fraw_fbits [simp]: "fraw (fbits m) = m"
proof (cases m)
  case (fields f e s)
  have "ucast (fbits m) = f" "ucast (drop_bit 23 (fbits m)) = e" "ucast (drop_bit 31 (fbits m)) = s"
    unfolding fbits_def fields
    by (rule bit_word_eqI; auto simp: bit_simps dest: bit_imp_le_length)+
  then show ?thesis by (simp add: fraw_def fields)
qed

section \<open>Integers: converting and converting back\<close>

lemma unat_pow2:
  assumes "m < 32"
  shows "unat (2 ^ m :: u32) = 2 ^ m"
proof -
  have "(2 :: nat) ^ m < 2 ^ 32" using assms by (intro power_strict_increasing) auto
  then have "unat (word_of_nat (2 ^ m) :: u32) = 2 ^ m"
    unfolding unat_of_nat by (simp add: take_bit_nat_eq_self)
  then show ?thesis by simp
qed

lemma less_push1: "m < 32 \<Longrightarrow> n < push_bit m (1 :: u32) \<longleftrightarrow> unat n < 2 ^ m"
  by (simp only: push_bit_of_1 word_less_nat_alt unat_pow2)

lemma first_fraclength_upt:
  assumes "a \<le> k" "k < 31" "unat n < 2 ^ (k + 1)" "\<forall>i. a \<le> i \<longrightarrow> i < k \<longrightarrow> 2 ^ (i + 1) \<le> unat n"
  shows "first_fraclength n [a..<32] = Some (int k)"
  using assms
proof (induction "k - a" arbitrary: a)
  case 0
  then have "a = k" by simp
  moreover have "n < push_bit (k + 1) 1"
    using 0 by (subst less_push1) auto
  ultimately show ?case using 0 by (simp add: upt_conv_Cons fraclength_def Let_def)
next
  case (Suc d)
  then have a: "a < k" "a < 31" by simp_all
  have "2 ^ (a + 1) \<le> unat n" using Suc.prems(4) a by auto
  then have "\<not> n < push_bit (a + 1) 1"
    using a by (subst less_push1) auto
  then have "first_fraclength n [a..<32] = first_fraclength n [Suc a..<32]"
    using a by (simp add: upt_conv_Cons fraclength_def Let_def)
  also have "\<dots> = Some (int k)" using Suc by (intro Suc.hyps(1)) auto
  finally show ?case .
qed

text \<open>The position of the leading one of a number that is at least 2.\<close>

lemma getfraclength_pos:
  assumes "2 ^ k \<le> unat n" "unat n < 2 ^ (k + 1)" "1 \<le> k" "k < 31"
  shows "getfraclength n = Some (int k)"
  unfolding getfraclength_def
proof (rule first_fraclength_upt [OF assms(3,4,2)], intro allI impI)
  fix i assume "1 \<le> i" "i < k"
  then have "(2 :: nat) ^ (i + 1) \<le> 2 ^ k" by (intro power_increasing) auto
  with assms(1) show "2 ^ (i + 1) \<le> unat n" by linarith
qed

text \<open>
  Converting an integer below \<open>2 ^ 17\<close> in absolute value and back gives the integer: its binary
  digits all fit in the fraction.
\<close>

lemma frac_back:
  assumes k: "k \<le> 16" and n: "2 ^ k \<le> n" "n < 2 ^ (k + 1)"
  shows "drop_bit (16 - k) (ucast (ucast (push_bit (16 - k) (word_of_nat n :: u32)) :: 16 word) :: u32)
    + push_bit k 1 = word_of_nat n"
proof -
  have e: "n = 2 ^ k + (n - 2 ^ k)" "n - 2 ^ k < 2 ^ k" using n by simp_all
  have kk: "k + (16 - k) = 16" using k by simp
  have low: "ucast (ucast (push_bit (16 - k) (word_of_nat n :: u32)) :: 16 word) =
      (take_bit 16 (push_bit (16 - k) (word_of_nat n)) :: u32)"
    by (rule bit_word_eqI) (auto simp: bit_simps)
  also have "\<dots> = push_bit (16 - k) (take_bit k (word_of_nat n))"
    using k by (simp add: take_bit_push_bit)
  finally have "drop_bit (16 - k) (ucast (ucast (push_bit (16 - k) (word_of_nat n :: u32)) :: 16 word) :: u32)
      = take_bit k (word_of_nat n)"
    using k by (intro bit_word_eqI) (auto simp: bit_simps)
  also have "\<dots> = word_of_nat (n - 2 ^ k)"
  proof -
    have "take_bit k n = n - 2 ^ k"
      using e by (metis add.commute mod_add_self1 mod_less take_bit_eq_mod)
    then show ?thesis by (simp add: take_bit_of_nat)
  qed
  finally show ?thesis using e(1) by (simp add: of_nat_diff n(1))
qed

lemma int2sfp_small:
  assumes k: "k \<le> 16" "2 ^ k \<le> n" "n < 2 ^ (k + 1)"
  shows "int2sfp ret (if neg then - word_of_nat n else word_of_nat n) =
    Some (bits (ret\<lparr>r_sign := of_bool neg, r_exp := word_of_nat (k + 63),
                   r_frac := ucast (push_bit (16 - k) (word_of_nat n :: u32))\<rparr>))"
proof -
  let ?w = "word_of_nat n :: u32"
  have "(2 :: nat) ^ (k + 1) \<le> 2 ^ 17" using k(1) by (intro power_increasing) auto
  with k(3) have n17: "n < 2 ^ 17" by linarith
  have n0: "0 < n" using k(2) by (rule less_le_trans [rotated]) simp
  have u: "unat ?w = n" using n17 by (simp add: unat_of_nat take_bit_nat_eq_self)
  have si: "sint ?w = int n" using n17 by (intro sint_of_nat_small) simp
  have sn: "sint (- ?w) = - int n" using n17 by (intro sint_minus_small) simp
  let ?i = "if neg then - ?w else ?w"
  have "sint ?i = (if neg then - int n else int n)" using si sn by simp
  then have ne: "?i \<noteq> 0" "?i \<noteq> TMin" "sint ?i < 0 \<longleftrightarrow> neg"
    using n0 n17 by (auto simp: TMin_def split: if_splits)
  have inv: "(if sint ?i < 0 then NOT ?i + 1 else ?i) = ?w"
    unfolding ne(3) by (simp add: minus_eq_not_plus_1 [symmetric])
  have sh: "(if ?w = 1 then Some 0 else getfraclength ?w) = Some (int k)"
  proof (cases "k = 0")
    case True
    then have "n = 1" using k(2,3) by simp
    with True show ?thesis by simp
  next
    case False
    have "(2 :: nat) ^ 1 \<le> 2 ^ k" using False by (intro power_increasing) auto
    then have "n \<noteq> 1" using k(2) by simp
    then have "?w \<noteq> 1" using u by (metis unat_1)
    then show ?thesis using getfraclength_pos [of k ?w] k False u by simp
  qed
  have ge: "getfracbit ?w (int k) = push_bit (16 - k) ?w"
    using k(1) by (auto simp: getfracbit_def nat_diff_distrib')
  have ex: "ucast (word_of_int (int k + 63) :: u32) = (word_of_nat (k + 63) :: 7 word)"
  proof -
    have "(word_of_int (int k + 63) :: u32) = word_of_nat (k + 63)" by simp
    then show ?thesis using k(1) by (simp only: unsigned_of_nat) (simp add: take_bit_nat_eq_self del: of_nat_add)
  qed
  show ?thesis
    unfolding int2sfp_def Let_def inv sh using ne ge ex by simp
qed

lemma myint_sign: "myint w (of_bool (sint w < 0)) = w"
proof (rule bit_word_eqI)
  fix n assume n: "n < LENGTH(32)"
  have last: "bit w 31 \<longleftrightarrow> sint w < 0" using bit_last_iff [of w] by simp
  have m: "(0x7FFFFFFF :: u32) = mask 31" by (simp add: mask_eq_exp_minus_1)
  consider "n < 31" | "n = 31" using n by fastforce
  then show "bit (myint w (of_bool (sint w < 0))) n = bit w n"
    unfolding myint_def m by cases (auto simp: bit_simps last)
qed

lemma sfp2int_small:
  assumes k: "k \<le> 16" "2 ^ k \<le> n" "n < 2 ^ (k + 1)"
  shows "sfp2int (bits (ret\<lparr>r_sign := of_bool neg, r_exp := word_of_nat (k + 63),
      r_frac := ucast (push_bit (16 - k) (word_of_nat n :: u32))\<rparr>)) =
    (if neg then - word_of_nat n else word_of_nat n)"
proof -
  let ?w = "word_of_nat n :: u32"
  have ex: "ucast (word_of_nat (k + 63) :: 7 word) = (word_of_nat (k + 63) :: u32)"
    using k(1) by (simp add: unsigned_of_nat take_bit_nat_eq_self del: of_nat_add)
  have uk: "unat (word_of_nat (k + 63) :: u32) = k + 63" "unat (word_of_nat k :: u32) = k"
    using k(1) by (simp_all add: unat_of_nat take_bit_nat_eq_self del: of_nat_add)
  have e: "(word_of_nat (k + 63) :: u32) - 63 = word_of_nat k" by simp
  have ne: "(word_of_nat (k + 63) :: u32) \<noteq> 0" "(word_of_nat (k + 63) :: u32) \<noteq> 127"
    "\<not> (word_of_nat (k + 63) :: u32) < 63" "\<not> 31 \<le> (word_of_nat k :: u32)" "(word_of_nat k :: u32) \<le> 16"
    using uk k(1) by (auto simp: word_less_nat_alt word_le_nat_alt dest: arg_cong [of _ _ unat])
  have n17: "n < 2 ^ 17"
  proof -
    have "(2 :: nat) ^ (k + 1) \<le> 2 ^ 17" using k(1) by (intro power_increasing) auto
    with k(3) show ?thesis by linarith
  qed
  have n0: "0 < n" using k(2) by (rule less_le_trans [rotated]) simp
  have si: "sint ?w = int n" using n17 by (intro sint_of_nat_small) simp
  have sn: "sint (- ?w) = - int n" using n17 by (intro sint_minus_small) simp
  have s: "sint (if neg then - ?w else ?w) < 0 \<longleftrightarrow> neg" using si sn n0 by simp
  have f: "(if (of_bool neg :: 1 word) = 1 then NOT ?w + 1 else ?w) = (if neg then - ?w else ?w)"
    by (simp add: minus_eq_not_plus_1 [symmetric])
  define r where "r = ret\<lparr>r_sign := of_bool neg, r_exp := word_of_nat (k + 63),
      r_frac := ucast (push_bit (16 - k) ?w)\<rparr>"
  have fields: "r_sign r = of_bool neg" "r_exp r = word_of_nat (k + 63)"
    "r_frac r = ucast (push_bit (16 - k) ?w)" by (simp_all add: r_def)
  have "sfp2int (bits r) = (if neg then - ?w else ?w)"
    using ne myint_sign [of "if neg then - ?w else ?w"]
    unfolding sfp2int_def Let_def raw_bits
    by (simp only: fields ex e if_False if_True uk frac_back [OF k] f s)
  then show ?thesis by (simp only: r_def)
qed

text \<open>Every integer up to that size has such a \<open>k\<close>.\<close>

lemma leading_one:
  assumes "0 < n" "n < 2 ^ (m + 1)"
  obtains k where "k \<le> m" "2 ^ k \<le> n" "n < (2 :: nat) ^ (k + 1)"
  using assms
proof (induction m arbitrary: thesis)
  case 0
  then show ?case by (intro "0.prems"(1) [of 0]) auto
next
  case (Suc m)
  show ?case
  proof (cases "n < 2 ^ (m + 1)")
    case True
    then show ?thesis using Suc.IH Suc.prems by (metis le_SucI)
  next
    case False
    then show ?thesis using Suc.prems by (intro Suc.prems(1) [of "Suc m"]) auto
  qed
qed

lemma int_roundtrip:
  assumes "\<bar>sint i\<bar> < 2 ^ 17"
  shows "\<exists>y. int2sfp ret i = Some y \<and> sfp2int y = i"
proof (cases "i = 0")
  case True
  have "sfp2int (bits (ret\<lparr>r_sign := 0, r_exp := 0, r_frac := 0\<rparr>)) = 0"
    by (simp add: sfp2int_def Let_def)
  with True show ?thesis by (simp add: int2sfp_def)
next
  case False
  define n where "n = nat \<bar>sint i\<bar>"
  have "sint i \<noteq> 0"
  proof
    assume "sint i = 0"
    then have "word_of_int (sint i) = (0 :: u32)" by simp
    with False show False by simp
  qed
  then have n: "0 < n" "n < 2 ^ (16 + 1)" using assms by (auto simp: n_def)
  obtain k where k: "k \<le> 16" "2 ^ k \<le> n" "n < 2 ^ (k + 1)" using leading_one [OF n] .
  have "i = word_of_int (sint i)" by simp
  also have "\<dots> = (if sint i < 0 then - word_of_nat n else word_of_nat n)"
    by (simp add: n_def)
  finally have i: "i = (if sint i < 0 then - word_of_nat n else word_of_nat n)" .
  show ?thesis
    using int2sfp_small [OF k, where ret = ret and neg = "sint i < 0"]
      sfp2int_small [OF k, where ret = ret and neg = "sint i < 0"]
    unfolding i [symmetric] by blast
qed

section \<open>Floats: converting and converting back\<close>

lemma float_roundtrip_normal:
  assumes "1 \<le> r_exp m" "r_exp m \<le> 125"
  shows "\<exists>y. sfp2float (bits m) = Some y \<and> float2sfp ret y = bits (m\<lparr>r_top := r_top ret\<rparr>)"
proof -
  define e where "e = unat (r_exp m)"
  have e: "1 \<le> e" "e \<le> 125" "r_exp m = word_of_nat e"
    using assms by (auto simp: e_def word_le_nat_alt)
  define mf where "mf = \<lparr>f_frac = push_bit 7 (ucast (r_frac m)), f_exp = word_of_nat (e + 64), f_sign = r_sign m\<rparr>"
  have "ucast (r_exp m) + 64 = (word_of_nat (e + 64) :: 8 word)"
    unfolding e(3) using e(2) by (simp add: unsigned_of_nat take_bit_nat_eq_self)
  moreover have "r_exp m \<noteq> 0" using assms(1) by auto
  ultimately have "sfp2float (bits m) = Some (fbits mf)"
    by (simp add: sfp2float_def Let_def mf_def add.commute)
  moreover have "float2sfp ret (fbits mf) = bits (m\<lparr>r_top := r_top ret\<rparr>)"
  proof -
    have x: "(ucast (f_exp mf) :: u32) = word_of_nat (e + 64)"
      using e(2) by (simp add: mf_def unsigned_of_nat take_bit_nat_eq_self del: of_nat_add)
    have u: "unat (word_of_nat (e + 64) :: u32) = e + 64"
      using e(2) by (simp add: unat_of_nat take_bit_nat_eq_self del: of_nat_add)
    have ne: "(word_of_nat (e + 64) :: u32) \<noteq> 255" "(word_of_nat (e + 64) :: u32) \<noteq> 0"
      "\<not> (word_of_nat (e + 64) :: u32) \<ge> 190" "(word_of_nat (e + 64) :: u32) \<noteq> 64"
      "\<not> (word_of_nat (e + 64) :: u32) < 64"
      using u e(1,2) by (auto simp: word_less_nat_alt word_le_nat_alt simp del: of_nat_add
          dest: arg_cong [of _ _ unat])
    have s: "(word_of_nat (e + 64) :: u32) - 64 = word_of_nat e" by simp
    have ex: "ucast (word_of_nat e :: u32) = r_exp m"
      unfolding e(3) using e(2) by (simp add: unsigned_of_nat take_bit_nat_eq_self)
    have fr: "ucast (drop_bit 7 (ucast (f_frac mf) :: u32)) = r_frac m"
      by (rule bit_word_eqI) (auto simp: mf_def bit_simps)
    have "f_sign mf = r_sign m" by (simp add: mf_def)
    then show ?thesis
      using ne unfolding float2sfp_def Let_def fraw_fbits x s ex fr
      by (cases m, cases ret) simp
  qed
  ultimately show ?thesis by blast
qed

section \<open>Addition of two numbers of one sign and exponent\<close>

text \<open>Rounding half a natural number to the nearest integer, ties to even.\<close>

definition half_even :: "nat \<Rightarrow> nat" where
  "half_even n = (if odd n \<and> odd (n div 2) then n div 2 + 1 else n div 2)"

lemma significand_unat:
  assumes "r_exp m \<noteq> 0"
  shows "unat (significand m) = 65536 + unat (r_frac m)"
proof -
  have "(ucast (r_frac m) :: u64) AND 0x10000 = 0"
  proof (rule bit_word_eqI)
    fix n
    have p: "(0x10000 :: u64) = 2 ^ 16" by simp
    have "bit (0x10000 :: u64) n \<Longrightarrow> n = 16" unfolding p by (simp only: bit_exp_iff)
    then show "bit ((ucast (r_frac m) :: u64) AND 0x10000) n = bit (0 :: u64) n"
      by (auto simp: bit_and_iff bit_unsigned_iff dest: bit_imp_le_length)
  qed
  then have "significand m = ucast (r_frac m) + 0x10000"
    using assms by (simp add: significand_def disjunctive_add_eq_or)
  moreover have "unat (r_frac m) < 2 ^ LENGTH(16)" by (rule unsigned_less)
  ultimately show ?thesis
    by (simp add: unat_word_ariths unsigned_ucast_eq take_bit_nat_eq_self)
qed

lemma unat_add_small: "unat (x :: u64) + unat y < 2 ^ 64 \<Longrightarrow> unat (x + y) = unat x + unat y"
  by (simp add: unat_word_ariths)

lemma align0: "align 0 x = x"
  by (simp add: align_def)

lemma rounded_half:
  assumes "unat (x :: u64) < 2 ^ 20"
  shows "unat (if x AND 1 \<noteq> 0 \<and> x AND 2 \<noteq> 0 then drop_bit 1 x + 1 else drop_bit 1 x) = half_even (unat x)"
proof -
  have bt: "bit x n \<longleftrightarrow> odd (unat x div 2 ^ n)" for n
  proof -
    have "bit (unat x) n \<longleftrightarrow> bit x n" by (auto simp: bit_unsigned_iff dest: bit_imp_le_length)
    then show ?thesis by (simp add: bit_iff_odd)
  qed
  have b: "x AND 1 \<noteq> 0 \<longleftrightarrow> odd (unat x)" "x AND 2 \<noteq> 0 \<longleftrightarrow> odd (unat x div 2)"
    using and_exp_eq_0_iff_not_bit [of x 0] and_exp_eq_0_iff_not_bit [of x 1] bt [of 0] bt [of 1]
    by simp_all
  have d: "unat (x div 2) = unat x div 2" by (simp add: unat_div)
  moreover have "unat (x div 2 + 1) = unat x div 2 + 1"
    using assms d by (subst unat_add_small) simp_all
  ultimately show ?thesis by (simp add: b half_even_def drop_bit_Suc)
qed

text \<open>
  Two numbers of the same sign and exponent: the sum has the next exponent, and its
  significand is half the sum of the significands, correctly rounded.
\<close>

lemma add_same_exp:
  assumes a: "r_sign a = r_sign b" "r_exp a = r_exp b" "1 \<le> r_exp a" "r_exp a \<le> 125"
  defines "q \<equiv> half_even ((65536 + unat (r_frac a)) + (65536 + unat (r_frac b)))"
  shows "65536 \<le> q" "q < 131072"
    "sfp_add ret (bits a) (bits b) =
      bits (ret\<lparr>r_sign := r_sign a, r_exp := r_exp a + 1, r_frac := word_of_nat (q - 65536)\<rparr>)"
proof -
  define N where "N = (65536 + unat (r_frac a)) + (65536 + unat (r_frac b))"
  have "unat (r_frac m) < 2 ^ LENGTH(16)" for m by (rule unsigned_less)
  then have fl: "unat (r_frac m) < 65536" for m by simp
  have N: "131072 \<le> N" "N \<le> 262142" using fl [of a] fl [of b] by (simp_all add: N_def)
  show q: "65536 \<le> q" "q < 131072"
    using N unfolding q_def N_def [symmetric] half_even_def by presburger+
  have n0: "r_exp a \<noteq> 0" "r_exp b \<noteq> 0" "r_exp a \<noteq> 127" "r_exp b \<noteq> 127" using a by auto
  define ms1 ms2 where "ms1 = (if bits (a\<lparr>r_sign := 0\<rparr>) > bits (b\<lparr>r_sign := 0\<rparr>) then a else b)"
    and "ms2 = (if bits (a\<lparr>r_sign := 0\<rparr>) > bits (b\<lparr>r_sign := 0\<rparr>) then b else a)"
  have m: "r_sign ms1 = r_sign a" "r_sign ms2 = r_sign a" "r_exp ms1 = r_exp a" "r_exp ms2 = r_exp a"
    using a by (auto simp: ms1_def ms2_def)
  have "unat (significand a) + unat (significand b) = N"
    by (simp add: significand_unat n0 N_def)
  moreover from this have "unat (significand ms1) + unat (significand ms2) = N"
    by (simp add: ms1_def ms2_def add.commute)
  ultimately have Nw: "unat (significand ms1 + significand ms2) = N"
    using N by (subst unat_add_small) simp_all
  let ?w = "significand ms1 + significand ms2"
  have big: "\<not> ?w < 0x10000" "?w \<ge> 0x20000" using Nw N by (simp_all add: word_less_nat_alt word_le_nat_alt)
  have ex: "r_exp a + 1 \<noteq> 127"
  proof
    assume "r_exp a + 1 = 127"
    then have "r_exp a + 1 - 1 = 127 - 1" by (rule arg_cong)
    then have "r_exp a = 126" by simp
    with a(4) show False by simp
  qed
  have z: "\<not> is_zero a" "\<not> is_zero b" using n0 by (simp_all add: is_zero_def)
  have fin: "sfp_add ret (bits a) (bits b) = add_finite ret (bits a) (bits b)"
    using n0 z by (simp add: sfp_add_def Let_def)
  have "add_finite ret (bits a) (bits b) = add_renorm ?w (ret\<lparr>r_sign := r_sign a, r_exp := r_exp a\<rparr>)"
  proof -
    have "(if bits (a\<lparr>r_sign := 0\<rparr>) > bits (b\<lparr>r_sign := 0\<rparr>) then (a, b) else (b, a)) = (ms1, ms2)"
      by (simp add: ms1_def ms2_def)
    then show ?thesis
      by (simp only: add_finite_def Let_def raw_bits prod.case m if_True align0 diff_self unat_0 simp_thms)
  qed
  also have "\<dots> = bits (ret\<lparr>r_sign := r_sign a, r_exp := r_exp a + 1, r_frac :=
      ucast (if ?w AND 1 \<noteq> 0 \<and> ?w AND 2 \<noteq> 0 then drop_bit 1 ?w + 1 else drop_bit 1 ?w)\<rparr>)"
    using big ex by (simp add: add_renorm_def Let_def conj_commute)
  also have "ucast (if ?w AND 1 \<noteq> 0 \<and> ?w AND 2 \<noteq> 0 then drop_bit 1 ?w + 1 else drop_bit 1 ?w) =
      (word_of_nat (q - 65536) :: 16 word)"
  proof -
    have "unat (if ?w AND 1 \<noteq> 0 \<and> ?w AND 2 \<noteq> 0 then drop_bit 1 ?w + 1 else drop_bit 1 ?w) = q"
      using rounded_half [of ?w] Nw N by (simp add: q_def N_def [symmetric])
    then have "ucast (if ?w AND 1 \<noteq> 0 \<and> ?w AND 2 \<noteq> 0 then drop_bit 1 ?w + 1 else drop_bit 1 ?w) =
        (word_of_nat q :: 16 word)" by (metis of_nat_unat)
    also have "q = (q - 65536) + 65536" using q by simp
    also have "(word_of_nat \<dots> :: 16 word) = word_of_nat (q - 65536) + word_of_nat 65536" by (simp only: of_nat_add)
    finally show ?thesis by simp
  qed
  finally show "sfp_add ret (bits a) (bits b) =
      bits (ret\<lparr>r_sign := r_sign a, r_exp := r_exp a + 1, r_frac := word_of_nat (q - 65536)\<rparr>)"
    unfolding fin .
qed

text \<open>
  The order of the operands does not matter for two finite non-zero numbers of different
  magnitude: the code sorts them first.
\<close>

lemma add_finite_swap:
  assumes "bits ((raw x)\<lparr>r_sign := 0\<rparr>) \<noteq> bits ((raw y)\<lparr>r_sign := 0\<rparr>)"
  shows "add_finite ret x y = add_finite ret y x"
  using assms unfolding add_finite_def Let_def by (auto simp: not_less_iff_gr_or_eq)

section \<open>What the code computes on some operands\<close>

definition sfp_val :: "1 word \<Rightarrow> 7 word \<Rightarrow> 16 word \<Rightarrow> u32" where
  "sfp_val s e f = bits \<lparr>r_frac = f, r_exp = e, r_sign = s, r_top = 0\<rparr>"

text \<open>\<open>1.5 - 1.0\<close> is \<open>0\<close>: after renormalising, the exponent is reset whenever the leading one was removed.\<close>

lemma sub_lost:
  "sfp_add (raw 0) (sfp_val 0 63 0x8000) (sfp_val 1 63 0) = sfp_val 0 0 0"
  by code_simp

text \<open>\<open>0.5 * (- \<infinity>)\<close> is a finite number: the test for an infinity names one operand twice.\<close>

lemma mul_inf_lost:
  "sfp_mul (raw 0) (sfp_val 0 62 0) (sfp_val 1 127 0) = sfp_val 1 126 0"
  by code_simp

text \<open>The exponents' sum wraps around: \<open>2 ^ 57 * 2 ^ 57\<close> is \<open>2 ^ (- 14)\<close>.\<close>

lemma mul_overflow_lost:
  "sfp_mul (raw 0) (sfp_val 0 120 0) (sfp_val 0 120 0) = sfp_val 0 49 0"
  by code_simp

text \<open>\<open>196608\<close> is converted to the number \<open>131072\<close>: above 16 bits the fraction is not shifted.\<close>

lemma int2sfp_lost:
  "int2sfp (raw 0) 196608 = int2sfp (raw 0) 131072"
  by code_simp

text \<open>An infinity becomes a finite float, and the largest finite numbers come back as an infinity.\<close>

lemma inf_to_finite: "sfp2float (sfp_val 0 127 0) = Some (fbits \<lparr>f_frac = 0, f_exp = 191, f_sign = 0\<rparr>)"
  by code_simp

lemma top_binade_lost:
  "map_option (float2sfp (raw 0)) (sfp2float (sfp_val 0 126 0)) = Some (sfp_val 0 127 0)"
  by code_simp

text \<open>\<open>1.0 + 9/8 * 2 ^ -17\<close>-like operands: a remainder above one half is dropped when its next bit is 0.\<close>

lemma sticky_lost:
  "sfp_add (raw 0) (sfp_val 0 67 0) (sfp_val 0 63 0x0009) = sfp_val 0 67 0x1000"
  by code_simp


section \<open>The properties of the number format\<close>

text \<open>
  Every \<open>int\<close> below \<open>2 ^ 17\<close> in absolute value survives the conversion to the small
  format and back, whatever the result variable held before.
\<close>

theorem sfp_int_roundtrip:
  assumes "\<bar>sint i\<bar> < 2 ^ 17"
  shows "Option.bind (int2sfp ret i) (\<lambda>y. Some (sfp2int y)) = Some i"
  using int_roundtrip [OF assms, of ret] by auto

lemma sfp_int_roundtrip_witness: "Option.bind (int2sfp (raw 5) (- 100000)) (\<lambda>y. Some (sfp2int y)) = Some (- 100000)"
  by (rule sfp_int_roundtrip) simp

text \<open>
  A number with an exponent from 1 to 125, that is every normal number but those of the top
  binade, becomes a \<open>float\<close> and comes back as it was.
\<close>

theorem sfp_float_roundtrip:
  assumes "1 \<le> r_exp m" "r_exp m \<le> 125"
  shows "\<exists>y. sfp2float (bits m) = Some y \<and> float2sfp ret y = bits (m\<lparr>r_top := r_top ret\<rparr>)"
  by (rule float_roundtrip_normal [OF assms])

lemma sfp_float_roundtrip_witness:
  "\<exists>y. sfp2float (bits \<lparr>r_frac = 0x8000, r_exp = 64, r_sign = 1, r_top = 0\<rparr>) = Some y \<and>
    float2sfp (raw 0) y = bits \<lparr>r_frac = 0x8000, r_exp = 64, r_sign = 1, r_top = 0\<rparr>"
proof -
  have "\<exists>y. sfp2float (bits \<lparr>r_frac = 0x8000, r_exp = 64, r_sign = 1, r_top = 0\<rparr>) = Some y \<and>
    float2sfp (raw 0) y = bits (\<lparr>r_frac = 0x8000, r_exp = 64, r_sign = 1, r_top = 0\<rparr>\<lparr>r_top := r_top (raw 0)\<rparr>)"
    by (rule sfp_float_roundtrip) simp_all
  then show ?thesis by (simp add: raw_def)
qed

text \<open>
  C32. The sum of two normal numbers of the same sign and exponent is the exact sum rounded to
  the nearest number of the format, ties to even.
\<close>

theorem sfp_add_rounds:
  assumes "r_sign a = r_sign b" "r_exp a = r_exp b" "1 \<le> r_exp a" "r_exp a \<le> 125"
  shows "sfp_add ret (bits a) (bits b) =
    bits (ret\<lparr>r_sign := r_sign a, r_exp := r_exp a + 1,
      r_frac := word_of_nat (half_even ((65536 + unat (r_frac a)) + (65536 + unat (r_frac b))) - 65536)\<rparr>)"
  by (rule add_same_exp(3) [OF assms])

lemma sfp_add_rounds_witness:
  "sfp_add (raw 0) (sfp_val 0 63 0x8001) (sfp_val 0 63 2) = sfp_val 0 64 0x4002"
  using sfp_add_rounds [of "\<lparr>r_frac = 0x8001, r_exp = 63, r_sign = 0, r_top = 0\<rparr>"
      "\<lparr>r_frac = 2, r_exp = 63, r_sign = 0, r_top = 0\<rparr>" "raw 0"]
  by (simp add: sfp_val_def half_even_def raw_def)

text \<open>
  Subtraction of close numbers is lost: \<open>1.5 - 1.0\<close> is computed as \<open>0\<close>, because the
  renormalisation resets the exponent whenever the leading bit was cancelled; and a product that
  overflows the exponent wraps around: \<open>2 ^ 57 * 2 ^ 57\<close> is computed as \<open>2 ^ (- 14)\<close>.
\<close>

theorem sfp_arithmetic_lost:
  "sfp_add (raw 0) (sfp_val 0 63 0x8000) (sfp_val 1 63 0) = sfp_val 0 0 0 \<and>
   sfp_mul (raw 0) (sfp_val 0 120 0) (sfp_val 0 120 0) = sfp_val 0 49 0"
  using sub_lost mul_overflow_lost by blast

end
