(* ===== verification/Lru.thy ===== *)
theory Lru
  imports Prelude
begin

text \<open>
  The page frame allocator with swapping of the xv6 kernel of project 4,
  \<open>3-1/OS/PRJ4/xv6/kalloc.c\<close>, with \<open>walkpgdir\<close> (\<open>vm.c\<close>) and \<open>swapwrite\<close> (\<open>fs.c\<close>) which it calls: the
  free list, the circular list of the user pages that can be evicted, the bitmap of the swap
  area, and the clock algorithm. Memory is a function from word addresses to words. The
  elements of the array \<open>linked_list\<close> are named by their index, \<open>None\<close> is the null pointer.
  The result is \<open>None\<close> where the kernel panics or follows a null pointer; the mutual
  recursion of \<open>kalloc\<close>, \<open>swapout\<close>, \<open>clock\<close> and \<open>walkpgdir\<close> runs on fuel, and no fuel is \<open>None\<close> too: the
  properties say which amounts are enough. \<open>acquire\<close> and \<open>release\<close> of \<open>kmem.lock\<close> are modelled on one
  processor, where a lock that is acquired twice, or released by a process that does not hold it, panics. Console
  output and the TLB flush have no effect on this state and are left out.
\<close>

section \<open>State\<close>

record kst =
  mem :: "u32 \<Rightarrow> u32"              \<comment> \<open>physical memory at its kernel addresses, by words\<close>
  freelist :: u32                  \<comment> \<open>\<open>kmem.freelist\<close>; \<open>next\<close> is the first word of a free page\<close>
  use_lock :: bool                 \<comment> \<open>\<open>kmem.use_lock\<close>\<close>
  kmem_locked :: bool              \<comment> \<open>\<open>kmem.lock\<close>\<close>
  kend :: u32                      \<comment> \<open>the address \<open>end\<close> of the linker script\<close>
  ll_base :: u32                   \<comment> \<open>the address of \<open>linked_list\<close>\<close>
  ll_next :: "nat \<Rightarrow> nat option"
  ll_prev :: "nat \<Rightarrow> nat option"
  ll_pgdir :: "nat \<Rightarrow> u32"
  ll_vaddr :: "nat \<Rightarrow> u32"
  head :: "nat option"
  num_free_pages :: int
  num_lru_pages :: int
  bitmap :: "nat \<Rightarrow> int"
  swap :: "int \<Rightarrow> nat \<Rightarrow> u32"        \<comment> \<open>the words of each slot of the swap area\<close>

definition LRU_LENGTH :: nat where "LRU_LENGTH = 1536"
definition BITMAP_SIZE :: nat where "BITMAP_SIZE = 32767"
definition SWAP_SLOTS :: int where "SWAP_SLOTS = (100000 - 500) div 8"

section \<open>The lock of the allocator\<close>

definition acquire_kmem :: "kst \<Rightarrow> kst option" where
  "acquire_kmem s =
     (if \<not> use_lock s then Some s else if kmem_locked s then None else Some (s\<lparr>kmem_locked := True\<rparr>))"

definition release_kmem :: "kst \<Rightarrow> kst option" where
  "release_kmem s =
     (if \<not> use_lock s then Some s else if \<not> kmem_locked s then None else Some (s\<lparr>kmem_locked := False\<rparr>))"

section \<open>The bitmap of the swap area\<close>

definition change_bitmap :: "int \<Rightarrow> int \<Rightarrow> kst \<Rightarrow> kst option" where
  "change_bitmap idx val s = do { b \<leftarrow> set1 BITMAP_SIZE (bitmap s) idx val; Some (s\<lparr>bitmap := b\<rparr>) }"

definition get_available_bitmap :: "kst \<Rightarrow> int" where
  "get_available_bitmap s =
     (case List.find (\<lambda>i. bitmap s i = 0) [1..<BITMAP_SIZE] of None \<Rightarrow> -1 | Some i \<Rightarrow> int i)"

definition init_bitmap :: "kst \<Rightarrow> kst" where
  "init_bitmap s = s\<lparr>bitmap := (\<lambda>i. if i < BITMAP_SIZE then 0 else bitmap s i)\<rparr>"

section \<open>The list of evictable pages\<close>

definition is_struct_page_available :: "kst \<Rightarrow> nat \<Rightarrow> bool" where
  "is_struct_page_available s i \<longleftrightarrow>
     ll_vaddr s i = 0 \<and> ll_pgdir s i = 0 \<and> ll_next s i = None \<and> ll_prev s i = None"

definition get_available_linked_list :: "kst \<Rightarrow> nat option" where
  "get_available_linked_list s = List.find (is_struct_page_available s) [0..<LRU_LENGTH]"

definition init_lru :: "kst \<Rightarrow> kst" where
  "init_lru s =
     s\<lparr>ll_next := (\<lambda>i. if i < LRU_LENGTH then None else ll_next s i),
       ll_prev := (\<lambda>i. if i < LRU_LENGTH then None else ll_prev s i),
       ll_pgdir := (\<lambda>i. if i < LRU_LENGTH then 0 else ll_pgdir s i),
       ll_vaddr := (\<lambda>i. if i < LRU_LENGTH then 0 else ll_vaddr s i),
       head := None, num_free_pages := int LRU_LENGTH, num_lru_pages := 0\<rparr>"

abbreviation (input) "set_next i p s \<equiv> s\<lparr>ll_next := (ll_next s)(i := p)\<rparr>"
abbreviation (input) "set_prev i p s \<equiv> s\<lparr>ll_prev := (ll_prev s)(i := p)\<rparr>"

definition lru_append :: "u32 \<Rightarrow> u32 \<Rightarrow> kst \<Rightarrow> (nat \<times> kst) option" where
  "lru_append pgdir vaddr s =
     do {
       idx \<leftarrow> get_available_linked_list s;
       if num_free_pages s = 0 then None
       else do {
         let s1 = s\<lparr>ll_pgdir := (ll_pgdir s)(idx := pgdir), ll_vaddr := (ll_vaddr s)(idx := vaddr)\<rparr>;
         s2 \<leftarrow>
           (if num_lru_pages s1 = 0 then
              Some (s1\<lparr>head := Some idx, ll_prev := (ll_prev s1)(idx := Some idx),
                       ll_next := (ll_next s1)(idx := Some idx)\<rparr>)
            else if num_lru_pages s1 = 1 then do {
              h \<leftarrow> head s1;
              let t = set_next h (Some idx) s1;
              let t = set_prev h (Some idx) t;
              let t = set_prev idx (Some h) t;
              let t = set_next idx (Some h) t;
              Some (t\<lparr>head := Some idx\<rparr>) }
            else do {
              h \<leftarrow> head s1;
              tmp \<leftarrow> ll_next s1 h;
              let t = set_next h (Some idx) s1;
              let t = set_prev idx (Some h) t;
              let t = set_prev tmp (Some idx) t;
              let t = set_next idx (Some tmp) t;
              Some (t\<lparr>head := Some idx\<rparr>) });
         Some (idx, s2\<lparr>num_free_pages := num_free_pages s2 - 1, num_lru_pages := num_lru_pages s2 + 1\<rparr>)
       }
     }"

definition lru_delete :: "nat \<Rightarrow> kst \<Rightarrow> kst option" where
  "lru_delete node s =
     (if num_lru_pages s = 0 then None
      else
        let s1 = (if Some node = head s then s\<lparr>head := ll_next s node\<rparr> else s) in do {
          s2 \<leftarrow>
            (if num_lru_pages s1 = 1 then Some (s1\<lparr>head := None\<rparr>)
             else do {
               p \<leftarrow> ll_prev s1 node;
               let t = set_next p (ll_next s1 node) s1;
               n \<leftarrow> ll_next t node;
               Some (set_prev n (ll_prev t node) t) });
          Some (s2\<lparr>num_free_pages := num_free_pages s2 + 1, num_lru_pages := num_lru_pages s2 - 1,
                   ll_vaddr := (ll_vaddr s2)(node := 0), ll_pgdir := (ll_pgdir s2)(node := 0),
                   ll_next := (ll_next s2)(node := None), ll_prev := (ll_prev s2)(node := None)\<rparr>)
        })"

section \<open>Addresses and page tables\<close>

definition V2P :: "u32 \<Rightarrow> u32" where "V2P a = a - 0x80000000"
definition P2V :: "u32 \<Rightarrow> u32" where "P2V a = a + 0x80000000"
definition PDX :: "u32 \<Rightarrow> u32" where "PDX va = drop_bit 22 va AND 0x3FF"
definition PTX :: "u32 \<Rightarrow> u32" where "PTX va = drop_bit 12 va AND 0x3FF"
definition PTE_ADDR :: "u32 \<Rightarrow> u32" where "PTE_ADDR pte = pte AND NOT 0xFFF"

abbreviation (input) "PTE_A \<equiv> (0x20 :: u32)"

text \<open>\<open>walkpgdir\<close> when it is not to allocate: the address of the entry, 0 when there is no page table.\<close>

definition pde_addr :: "u32 \<Rightarrow> u32 \<Rightarrow> u32" where
  "pde_addr pgdir va = pgdir + 4 * PDX va"

definition walk :: "kst \<Rightarrow> u32 \<Rightarrow> u32 \<Rightarrow> u32" where
  "walk s pgdir va =
     (if mem s (pde_addr pgdir va) AND 1 \<noteq> 0
      then P2V (PTE_ADDR (mem s (pde_addr pgdir va))) + 4 * PTX va else 0)"

text \<open>\<open>memset\<close> of one page at a page-aligned address; every byte is the same.\<close>

definition memset_page :: "u32 \<Rightarrow> u32 \<Rightarrow> kst \<Rightarrow> kst" where
  "memset_page a w s = s\<lparr>mem := (\<lambda>x. if PTE_ADDR x = a then w else mem s x)\<rparr>"

section \<open>Freeing a page\<close>

text \<open>The search of \<open>kfree\<close> through the list, \<open>n\<close> elements left; it reads through the entry it finds.\<close>

fun find_frame :: "kst \<Rightarrow> u32 \<Rightarrow> nat \<Rightarrow> nat option \<Rightarrow> nat option option" where
  "find_frame s v 0 cur = Some None"
| "find_frame s v (Suc n) cur =
     (case cur of None \<Rightarrow> None
      | Some c \<Rightarrow>
          let pte = walk s (ll_pgdir s c) (ll_vaddr s c) in
          if pte = 0 then None
          else if V2P v = PTE_ADDR (mem s pte) then Some (Some c)
          else find_frame s v n (ll_next s c))"

definition kfree :: "u32 \<Rightarrow> kst \<Rightarrow> kst option" where
  "kfree v s =
     (if v mod 4096 \<noteq> 0 then None
      else if v < kend s then None
      else if V2P v \<ge> 0x600000 then None
      else do {
        s1 \<leftarrow> (if head s \<noteq> None then do {
                 r \<leftarrow> find_frame s v (nat (num_lru_pages s)) (head s);
                 (case r of None \<Rightarrow> Some s | Some c \<Rightarrow> lru_delete c s) }
               else Some s);
        s2 \<leftarrow> acquire_kmem (memset_page v 0x01010101 s1);
        release_kmem (s2\<lparr>mem := (mem s2)(v := freelist s2), freelist := v\<rparr>)
      })"

text \<open>The pointer of \<open>freerange\<close> must not wrap around: that is undefined.\<close>

function freerange_loop :: "u32 \<Rightarrow> u32 \<Rightarrow> kst \<Rightarrow> kst option" where
  "freerange_loop p vend s =
     (if \<not> p < p + 4096 then None
      else if p + 4096 \<le> vend then do { s1 \<leftarrow> kfree p s; freerange_loop (p + 4096) vend s1 }
      else Some s)"
  by auto
termination
  by (relation "measure (\<lambda>(p, vend, s). unat vend - unat p)")
    (auto simp: word_less_nat_alt word_le_nat_alt)

definition PGROUNDUP :: "u32 \<Rightarrow> u32" where "PGROUNDUP sz = (sz + 4096 - 1) AND NOT (4096 - 1)"

definition freerange :: "u32 \<Rightarrow> u32 \<Rightarrow> kst \<Rightarrow> kst option" where
  "freerange vstart vend s = freerange_loop (PGROUNDUP vstart) vend s"

section \<open>Allocation, eviction, the clock\<close>

text \<open>
  The source of a write to the swap area is a kernel address or, as the code has it, an
  element of \<open>linked_list\<close>: \<open>ptr + 4 * j\<close> is then field \<open>j mod 4\<close> of the element \<open>j div 4\<close> further.
\<close>

datatype kptr = PageAt u32 | NodeAt nat

definition node_addr :: "kst \<Rightarrow> nat option \<Rightarrow> u32" where
  "node_addr s p = (case p of None \<Rightarrow> 0 | Some i \<Rightarrow> ll_base s + 16 * word_of_nat i)"

definition word_at :: "kst \<Rightarrow> kptr \<Rightarrow> nat \<Rightarrow> u32" where
  "word_at s p j =
     (case p of
        PageAt a \<Rightarrow> mem s (a + 4 * word_of_nat j)
      | NodeAt i \<Rightarrow>
          let k = i + j div 4 in
          if k < LRU_LENGTH then
            (if j mod 4 = 0 then node_addr s (ll_next s k)
             else if j mod 4 = 1 then node_addr s (ll_prev s k)
             else if j mod 4 = 2 then ll_pgdir s k else ll_vaddr s k)
          else mem s (ll_base s + 16 * word_of_nat i + 4 * word_of_nat j))"

definition swapwrite :: "kptr \<Rightarrow> int \<Rightarrow> kst \<Rightarrow> kst option" where
  "swapwrite ptr blkno s =
     (if blkno < 0 \<or> blkno \<ge> SWAP_SLOTS then None
      else Some (s\<lparr>swap := (swap s)(blkno := word_at s ptr)\<rparr>))"

fun walkpgdir :: "nat \<Rightarrow> u32 \<Rightarrow> u32 \<Rightarrow> kst \<Rightarrow> (u32 \<times> kst) option"
  and kalloc :: "nat \<Rightarrow> kst \<Rightarrow> (u32 \<times> kst) option"
  and swapout :: "nat \<Rightarrow> kst \<Rightarrow> (u32 \<times> kst) option"
  and clock :: "nat \<Rightarrow> kst \<Rightarrow> (nat \<times> kst) option"
where
  "walkpgdir 0 pgdir va s = None"
| "walkpgdir (Suc n) pgdir va s =
     (if mem s (pde_addr pgdir va) AND 1 \<noteq> 0 then Some (walk s pgdir va, s)
      else do {
        (pgtab, s1) \<leftarrow> kalloc n s;
        if pgtab = 0 then Some (0, s1)
        else
          let s2 = memset_page pgtab 0 s1 in
          Some (pgtab + 4 * PTX va, s2\<lparr>mem := (mem s2)(pde_addr pgdir va := V2P pgtab OR 7)\<rparr>)
      })"
| "kalloc 0 s = None"
| "kalloc (Suc n) s =
     do {
       s1 \<leftarrow> acquire_kmem s;
       (r, s2) \<leftarrow> (if freelist s1 \<noteq> 0 then Some (freelist s1, s1\<lparr>freelist := mem s1 (freelist s1)\<rparr>)
                   else swapout n s1);
       s3 \<leftarrow> release_kmem s2;
       Some (r, s3) }"
| "swapout 0 s = None"
| "swapout (Suc n) s =
     (if num_free_pages s = 0 then None
      else
        let block_number = get_available_bitmap s in do {
          (victim, s1) \<leftarrow> clock n s;
          (pte, s2) \<leftarrow> walkpgdir n (ll_pgdir s1 victim) (ll_vaddr s1 victim) s1;
          if pte = 0 then None
          else do {
            let kvaddr = P2V (PTE_ADDR (mem s2 pte));
            s2 \<leftarrow> release_kmem s2;
            s3 \<leftarrow> swapwrite (NodeAt victim) block_number s2;
            s3 \<leftarrow> acquire_kmem s3;
            s4 \<leftarrow> change_bitmap block_number 1 s3;
            s4 \<leftarrow> release_kmem s4;
            s5 \<leftarrow> kfree kvaddr s4;
            s5 \<leftarrow> acquire_kmem s5;
            let s6 = s5\<lparr>mem := (mem s5)
                  (pte := push_bit 12 (word_of_int block_number) OR (mem s5 pte AND 0xFFE))\<rparr>;
            Some (kvaddr, s6)
          }
        })"
| "clock 0 s = None"
| "clock (Suc n) s =
     (case head s of None \<Rightarrow> None
      | Some h \<Rightarrow>
          if ll_vaddr s h = 0 then None
          else do {
            (pte, s1) \<leftarrow> walkpgdir n (ll_pgdir s h) (ll_vaddr s h) s;
            if pte = 0 then None
            else if mem s1 pte AND PTE_A \<noteq> 0
            then do {
              let s2 = s1\<lparr>mem := (mem s1)(pte := mem s1 pte AND NOT PTE_A)\<rparr>;
              h' \<leftarrow> head s2;
              clock n (s2\<lparr>head := ll_prev s2 h'\<rparr>) }
            else do {
              h' \<leftarrow> head s1;
              Some (h', s1\<lparr>head := ll_prev s1 h'\<rparr>) }
          })"

section \<open>The list as a ring\<close>

text \<open>
  \<open>chain nx pv xs\<close>: each element of \<open>xs\<close> but the last points to the following one, which points
  back. A ring is a chain that returns to its first element, wherever one starts. In \<open>ring s xs\<close>
  the list \<open>xs\<close> holds the elements from the head, following \<open>next\<close>; the counters count it, and
  every other element of the array is available.
\<close>

fun chain :: "(nat \<Rightarrow> nat option) \<Rightarrow> (nat \<Rightarrow> nat option) \<Rightarrow> nat list \<Rightarrow> bool" where
  "chain nx pv (x # y # r) \<longleftrightarrow> nx x = Some y \<and> pv y = Some x \<and> chain nx pv (y # r)"
| "chain nx pv _ \<longleftrightarrow> True"

definition cyc :: "(nat \<Rightarrow> nat option) \<Rightarrow> (nat \<Rightarrow> nat option) \<Rightarrow> nat list \<Rightarrow> bool" where
  "cyc nx pv xs \<longleftrightarrow> (case xs of [] \<Rightarrow> True | x # r \<Rightarrow> chain nx pv (x # r @ [x]))"

definition ring :: "kst \<Rightarrow> nat list \<Rightarrow> bool" where
  "ring s xs \<longleftrightarrow>
     distinct xs \<and> set xs \<subseteq> {..<LRU_LENGTH} \<and>
     head s = (case xs of [] \<Rightarrow> None | x # _ \<Rightarrow> Some x) \<and>
     cyc (ll_next s) (ll_prev s) xs \<and>
     (\<forall>k < LRU_LENGTH. k \<notin> set xs \<longrightarrow> is_struct_page_available s k) \<and>
     num_lru_pages s = int (length xs) \<and> num_free_pages s = int LRU_LENGTH - int (length xs)"

lemma chain_append: "chain nx pv (xs @ m # ys) \<longleftrightarrow> chain nx pv (xs @ [m]) \<and> chain nx pv (m # ys)"
proof (induction xs)
  case (Cons x xs)
  then show ?case by (cases xs) auto
qed simp

lemma chain_cong:
  assumes "\<And>a. a \<in> set (butlast xs) \<Longrightarrow> nx' a = nx a" "\<And>a. a \<in> set (tl xs) \<Longrightarrow> pv' a = pv a"
  shows "chain nx' pv' xs = chain nx pv xs"
  using assms
proof (induction xs)
  case (Cons x xs)
  show ?case
  proof (cases xs)
    case (Cons y r)
    with Cons.IH Cons.prems show ?thesis by (auto split: if_splits)
  qed simp
qed simp

lemma cyc_rotate1: "cyc nx pv (a # l) = cyc nx pv (l @ [a])"
proof (cases l)
  case (Cons y r)
  have "chain nx pv (a # y # r @ [a]) \<longleftrightarrow> nx a = Some y \<and> pv y = Some a \<and> chain nx pv ((y # r) @ [a])" by simp
  also have "\<dots> \<longleftrightarrow> chain nx pv ((y # r) @ a # [y])"
    unfolding chain_append [of nx pv "y # r" a "[y]"] by (simp del: append_Cons) blast
  finally show ?thesis using Cons by (simp add: cyc_def)
qed simp

lemma cyc_rotate: "cyc nx pv (u @ w) = cyc nx pv (w @ u)"
proof (induction u arbitrary: w)
  case (Cons a u)
  have "cyc nx pv ((a # u) @ w) = cyc nx pv (u @ (w @ [a]))" by (simp add: cyc_rotate1)
  also have "\<dots> = cyc nx pv ((w @ [a]) @ u)" by (rule Cons.IH)
  finally show ?case by simp
qed simp

text \<open>An element used by the ring is not available, so a new one comes from outside it.\<close>

lemma cyc_used:
  assumes "cyc nx pv xs" "a \<in> set xs"
  shows "\<exists>b c. nx a = Some b \<and> pv a = Some c \<and> b \<in> set xs \<and> c \<in> set xs"
proof -
  obtain u w where xs: "xs = u @ a # w" using assms(2) by (meson split_list)
  then have "cyc nx pv (a # (w @ u))" using assms(1) cyc_rotate [of nx pv u "a # w"] by simp
  then have ch: "chain nx pv (a # (w @ u) @ [a])" by (simp add: cyc_def)
  obtain b r where b: "(w @ u) @ [a] = b # r" by (cases "w @ u") auto
  obtain q c where c: "a # (w @ u) = q @ [c]" by (metis append_butlast_last_id list.distinct(1))
  have "nx a = Some b" using ch b by simp
  moreover have "chain nx pv (q @ c # [a])" using ch c by (metis append.assoc append_Cons append_Nil)
  then have "pv a = Some c" using chain_append [of nx pv q c "[a]"] by simp
  moreover have bc: "b \<in> set ((w @ u) @ [a])" "c \<in> set (a # (w @ u))"
    by (subst b, simp) (subst c, simp)
  have "set xs = insert a (set w \<union> set u)" by (auto simp: xs)
  with bc have "b \<in> set xs" "c \<in> set xs" by simp_all
  ultimately show ?thesis by blast
qed

text \<open>Inserting in front of a ring, behind its first element.\<close>

lemma cyc_insert:
  assumes c: "cyc nx pv (h # ys)" and i: "i \<notin> set (h # ys)" and d: "distinct (h # ys)"
  defines "t \<equiv> hd (ys @ [h])"
  shows "cyc (nx(h := Some i, i := Some t)) ((pv(i := Some h))(t := Some i)) (i # ys @ [h])"
proof -
  let ?nx = "nx(h := Some i, i := Some t)" and ?pv = "(pv(i := Some h))(t := Some i)"
  have ch: "chain nx pv (h # ys @ [h])" using c by (simp add: cyc_def)
  obtain r where r: "ys @ [h] = t # r" using t_def by (cases "ys @ [h]") auto
  have "chain nx pv (t # r)" using ch r by simp
  moreover have "set (butlast (t # r)) = set ys" "t \<noteq> i"
    using i arg_cong [OF r, of butlast] arg_cong [OF r, of set] by auto
  moreover have "distinct (t # r)" using d unfolding r [symmetric] by auto
  ultimately have "chain ?nx ?pv (t # r)"
    using i d arg_cong [OF r, of set] by (subst chain_cong [of "t # r" ?nx nx ?pv pv]) auto
  then have "chain ?nx ?pv ((i # ys) @ [h])" unfolding append_Cons r using \<open>t \<noteq> i\<close> by simp
  then have "chain ?nx ?pv ((i # ys) @ h # [i])"
    unfolding chain_append [of _ _ "i # ys" h "[i]"] using i \<open>t \<noteq> i\<close> by auto
  then show ?thesis by (simp add: cyc_def)
qed

text \<open>Removing the first element of a ring.\<close>

lemma cyc_remove:
  assumes c: "cyc nx pv (a # ys)" and ys: "ys \<noteq> []" and d: "distinct (a # ys)"
  defines "p \<equiv> last ys" and "n \<equiv> hd ys"
  shows "nx a = Some n" "pv a = Some p" "cyc (nx(p := Some n)) (pv(n := Some p)) ys"
proof -
  obtain r where r: "ys = n # r" using ys n_def by (cases ys) auto
  obtain q where q: "ys = q @ [p]" using ys p_def by (metis append_butlast_last_id)
  have ch: "chain nx pv (a # ys @ [a])" using c by (simp add: cyc_def)
  then show "nx a = Some n" using r by simp
  from ch have "chain nx pv ((a # q) @ p # [a])" using q by simp
  then have "chain nx pv ((a # q) @ [p])" "pv a = Some p"
    using chain_append [of nx pv "a # q" p "[a]"] by simp_all
  then show "pv a = Some p" by simp
  have "chain nx pv ys" using \<open>chain nx pv ((a # q) @ [p])\<close> q r by (cases q) auto
  then have "chain (nx(p := Some n)) (pv(n := Some p)) ys"
  proof -
    have "tl ys = r" "n \<notin> set r" using d r by auto
    moreover have "butlast ys = q" "p \<notin> set q" using d q by auto
    moreover assume "chain nx pv ys"
    ultimately show ?thesis by (subst chain_cong [of ys _ nx _ pv]) auto
  qed
  then have "chain (nx(p := Some n)) (pv(n := Some p)) (q @ p # [n])"
    unfolding chain_append [of _ _ q p "[n]"] using q by simp
  moreover have "q @ p # [n] = n # r @ [n]" using r q by (metis append.assoc append_Cons append_Nil)
  ultimately show "cyc (nx(p := Some n)) (pv(n := Some p)) ys" using r by (simp add: cyc_def)
qed

section \<open>Appending and deleting refine the operations on the ring\<close>

lemma find_first:
  assumes "P k" "k < n"
  shows "\<exists>i. List.find P [0..<n] = Some i \<and> P i \<and> i < n \<and> (\<forall>j < i. \<not> P j)"
proof -
  have "List.find P [0..<n] \<noteq> None" using assms by (auto simp: find_None_iff)
  then obtain i where i: "List.find P [0..<n] = Some i" by blast
  then obtain m where "m < n" "P i" "i = [0..<n] ! m" "\<forall>j < m. \<not> P ([0..<n] ! j)"
    by (auto simp: find_Some_iff)
  then show ?thesis using i by auto
qed

lemma available_iff:
  assumes "ring s xs" "k < LRU_LENGTH"
  shows "is_struct_page_available s k \<longleftrightarrow> k \<notin> set xs"
  using assms cyc_used [of "ll_next s" "ll_prev s" xs k] by (auto simp: ring_def is_struct_page_available_def)

lemma lru_append_ring:
  assumes r: "ring s xs" and len: "length xs < LRU_LENGTH"
  shows "\<exists>i s'. lru_append pgdir vaddr s = Some (i, s') \<and> i < LRU_LENGTH \<and> i \<notin> set xs \<and>
    ring s' (case xs of [] \<Rightarrow> [i] | h # ys \<Rightarrow> i # ys @ [h]) \<and>
    ll_pgdir s' = (ll_pgdir s)(i := pgdir) \<and> ll_vaddr s' = (ll_vaddr s)(i := vaddr)"
proof -
  have "\<exists>k < LRU_LENGTH. k \<notin> set xs"
  proof (rule ccontr)
    assume "\<not> ?thesis"
    then have "{..<LRU_LENGTH} \<subseteq> set xs" by auto
    then have "LRU_LENGTH \<le> card (set xs)" by (metis card_lessThan card_mono finite_set)
    with len card_length [of xs] show False by linarith
  qed
  then obtain k where "k < LRU_LENGTH" "is_struct_page_available s k" using available_iff [OF r] by blast
  then obtain i where i: "get_available_linked_list s = Some i" "is_struct_page_available s i" "i < LRU_LENGTH"
    unfolding get_available_linked_list_def using find_first by metis
  then have ni: "i \<notin> set xs" using available_iff [OF r] by blast
  have d: "distinct xs" "set xs \<subseteq> {..<LRU_LENGTH}" "head s = (case xs of [] \<Rightarrow> None | x # _ \<Rightarrow> Some x)"
    "cyc (ll_next s) (ll_prev s) xs" "num_lru_pages s = int (length xs)"
    "num_free_pages s = int LRU_LENGTH - int (length xs)"
    "\<And>k. k < LRU_LENGTH \<Longrightarrow> k \<notin> set xs \<Longrightarrow> is_struct_page_available s k"
    using r by (auto simp: ring_def)
  have nf: "num_free_pages s \<noteq> 0" using len d(6) by simp
  show ?thesis
  proof (cases xs)
    case Nil
    then show ?thesis
      using i nf d by (auto simp: lru_append_def ring_def cyc_def is_struct_page_available_def Let_def)
  next
    case (Cons h ys)
    define t where "t = hd (ys @ [h])"
    have cy: "cyc ((ll_next s)(h := Some i, i := Some t)) ((ll_prev s)(i := Some h, t := Some i)) (i # ys @ [h])"
      unfolding t_def using cyc_insert [of "ll_next s" "ll_prev s" h ys i] d ni Cons by simp
    have hn: "ys \<noteq> [] \<Longrightarrow> ll_next s h = Some t" using d(4) Cons by (cases ys) (auto simp: cyc_def t_def)
    have "t \<noteq> i" "h \<noteq> i" using ni Cons by (cases ys; auto simp: t_def)+
    define s' where "s' = s\<lparr>ll_pgdir := (ll_pgdir s)(i := pgdir), ll_vaddr := (ll_vaddr s)(i := vaddr),
      ll_next := (ll_next s)(h := Some i, i := Some t), ll_prev := (ll_prev s)(i := Some h, t := Some i),
      head := Some i, num_free_pages := num_free_pages s - 1, num_lru_pages := num_lru_pages s + 1\<rparr>"
    have "lru_append pgdir vaddr s = Some (i, s')"
    proof (cases ys)
      case Nil
      then have "t = h" by (simp add: t_def)
      then show ?thesis using i nf d Cons Nil \<open>h \<noteq> i\<close>
        by (simp add: lru_append_def Let_def s'_def fun_upd_twist)
    next
      case (Cons y r)
      then show ?thesis using i nf d \<open>xs = h # ys\<close> hn
        by (simp add: lru_append_def Let_def s'_def)
    qed
    moreover have "ring s' (i # ys @ [h])"
      unfolding ring_def
    proof (intro conjI allI impI)
      show "is_struct_page_available s' k" if "k < LRU_LENGTH" "k \<notin> set (i # ys @ [h])" for k
      proof -
        have "t \<in> set (ys @ [h])" by (cases ys) (auto simp: t_def)
        with that have "k \<noteq> t" "k \<noteq> h" "k \<noteq> i" "k \<notin> set xs" using Cons by auto
        with d(7) [OF that(1)] show ?thesis by (simp add: is_struct_page_available_def s'_def)
      qed
    qed (use d ni i(3) Cons cy in \<open>auto simp: s'_def\<close>)
    ultimately show ?thesis using i(3) ni Cons by (simp add: s'_def)
  qed
qed

lemma lru_delete_ring:
  assumes r: "ring s xs" and a: "a \<in> set xs"
  shows "\<exists>s'. lru_delete a s = Some s' \<and> ring s' (remove1 a xs) \<and>
    ll_pgdir s' = (ll_pgdir s)(a := 0) \<and> ll_vaddr s' = (ll_vaddr s)(a := 0) \<and>
    mem s' = mem s \<and> freelist s' = freelist s \<and> bitmap s' = bitmap s"
proof -
  have d: "distinct xs" "set xs \<subseteq> {..<LRU_LENGTH}" "head s = (case xs of [] \<Rightarrow> None | x # _ \<Rightarrow> Some x)"
    "cyc (ll_next s) (ll_prev s) xs" "num_lru_pages s = int (length xs)"
    "num_free_pages s = int LRU_LENGTH - int (length xs)"
    "\<And>k. k < LRU_LENGTH \<Longrightarrow> k \<notin> set xs \<Longrightarrow> is_struct_page_available s k"
    using r by (auto simp: ring_def)
  obtain u w where xs: "xs = u @ a # w" using a by (meson split_list)
  have rem: "remove1 a xs = u @ w" using d(1) xs by (simp add: remove1_append)
  show ?thesis
  proof (cases "w @ u")
    case Nil
    then show ?thesis
      using d xs rem by (auto simp: lru_delete_def ring_def cyc_def is_struct_page_available_def Let_def)
  next
    case (Cons y r')
    then have ne: "w @ u \<noteq> []" by simp
    define p n where "p = last (w @ u)" and "n = hd (w @ u)"
    have "cyc (ll_next s) (ll_prev s) (a # (w @ u))" using d(4) cyc_rotate [of _ _ u "a # w"] xs by simp
    note cr = cyc_remove [OF this ne, folded p_def n_def]
    have da: "distinct (a # (w @ u))" using d(1) xs by auto
    have pn: "ll_next s a = Some n" "ll_prev s a = Some p" using cr(1,2) da by blast+
    have in_pn: "p \<in> set (w @ u)" "n \<in> set (w @ u)" using ne unfolding p_def n_def by (metis last_in_set hd_in_set)+
    then have pa: "p \<noteq> a" "n \<noteq> a" using da by auto
    let ?nx = "(ll_next s)(p := Some n)" and ?pv = "(ll_prev s)(n := Some p)"
    have cy: "cyc ?nx ?pv (w @ u)" using cr(3) da by blast
    have len: "length xs \<noteq> 1" "length xs \<noteq> 0" using xs ne by auto
    define s' where "s' = s\<lparr>head := (if head s = Some a then ll_next s a else head s),
      num_free_pages := num_free_pages s + 1, num_lru_pages := num_lru_pages s - 1,
      ll_vaddr := (ll_vaddr s)(a := 0), ll_pgdir := (ll_pgdir s)(a := 0),
      ll_next := ?nx(a := None), ll_prev := ?pv(a := None)\<rparr>"
    have "lru_delete a s = Some s'"
      using len d(5) pn pa by (auto simp: lru_delete_def Let_def s'_def)
    moreover have "ring s' (u @ w)"
      unfolding ring_def
    proof (intro conjI allI impI)
      have "cyc (?nx(a := None)) (?pv(a := None)) (w @ u)"
      proof -
        obtain y r' where yr: "w @ u = y # r'" using ne by (cases "w @ u") auto
        have "chain (?nx(a := None)) (?pv(a := None)) (y # r' @ [y]) = chain ?nx ?pv (y # r' @ [y])"
          using da unfolding yr by (intro chain_cong) auto
        with cy show ?thesis by (simp add: cyc_def yr)
      qed
      then show "cyc (ll_next s') (ll_prev s') (u @ w)" using cyc_rotate [of _ _ w u] by (simp add: s'_def)
      show "head s' = (case u @ w of [] \<Rightarrow> None | x # _ \<Rightarrow> Some x)"
      proof (cases u)
        case Nil
        then show ?thesis using d(3) xs pn ne by (cases w) (auto simp: s'_def n_def)
      next
        case (Cons z zs)
        then have "z \<noteq> a" using d(1) xs by auto
        with Cons show ?thesis using d(3) xs by (simp add: s'_def)
      qed
      show "is_struct_page_available s' k" if k: "k < LRU_LENGTH" "k \<notin> set (u @ w)" for k
      proof (cases "k = a")
        case True
        then show ?thesis by (simp add: is_struct_page_available_def s'_def)
      next
        case False
        with k d(7) [OF k(1)] xs in_pn show ?thesis by (auto simp: is_struct_page_available_def s'_def)
      qed
    qed (use d xs in \<open>auto simp: s'_def\<close>)
    ultimately show ?thesis by (simp add: rem s'_def)
  qed
qed

lemma init_lru_ring: "ring (init_lru s) []"
  by (simp add: ring_def init_lru_def cyc_def is_struct_page_available_def)

section \<open>The clock\<close>

text \<open>
  \<open>accessible\<close>: the list's elements are mapped user pages. Their page table entries are not
  page directory entries, so clearing a bit of one does not change where another is.
\<close>

definition pte_of :: "kst \<Rightarrow> nat \<Rightarrow> u32" where
  "pte_of s i = walk s (ll_pgdir s i) (ll_vaddr s i)"

definition accessible :: "kst \<Rightarrow> nat list \<Rightarrow> bool" where
  "accessible s xs \<longleftrightarrow>
     (\<forall>i \<in> set xs. ll_vaddr s i \<noteq> 0 \<and> mem s (pde_addr (ll_pgdir s i) (ll_vaddr s i)) AND 1 \<noteq> 0 \<and>
        pte_of s i \<noteq> 0) \<and>
     (\<forall>i \<in> set xs. \<forall>j \<in> set xs. pte_of s i \<noteq> pde_addr (ll_pgdir s j) (ll_vaddr s j))"

definition used :: "kst \<Rightarrow> nat \<Rightarrow> bool" where
  "used s i \<longleftrightarrow> mem s (pte_of s i) AND PTE_A \<noteq> 0"

definition clear_used :: "kst \<Rightarrow> nat list \<Rightarrow> kst" where
  "clear_used s xs = s\<lparr>mem := (\<lambda>a. if a \<in> pte_of s ` set xs then mem s a AND NOT PTE_A else mem s a)\<rparr>"

text \<open>The scan: along \<open>prev\<close> over \<open>bs\<close>, all used, up to \<open>v\<close>, which is not, or not any more.\<close>

fun backs :: "(nat \<Rightarrow> nat option) \<Rightarrow> nat list \<Rightarrow> bool" where
  "backs pv (x # y # r) \<longleftrightarrow> pv x = Some y \<and> backs pv (y # r)"
| "backs pv _ \<longleftrightarrow> True"

lemma clear_bit: "((w :: u32) AND NOT PTE_A) AND PTE_A = 0"
proof (rule bit_word_eqI)
  fix n
  show "bit ((w AND NOT PTE_A) AND PTE_A) n = bit (0 :: u32) n"
    by (simp only: bit_and_iff bit_not_iff) auto
qed

lemma clock_scan:
  assumes "head s = Some (hd (bs @ [v]))" "backs (ll_prev s) (bs @ [v])" "accessible s (bs @ [v])"
    and "\<forall>b \<in> set bs. used s b" "distinct (map (pte_of s) bs)"
    and "\<not> used s v \<or> pte_of s v \<in> pte_of s ` set bs"
  shows "clock (length bs + 2 + k) s = Some (v, (clear_used s bs)\<lparr>head := ll_prev s v\<rparr>)"
  using assms
proof (induction bs arbitrary: s)
  case Nil
  then have "walkpgdir (Suc k) (ll_pgdir s v) (ll_vaddr s v) s = Some (pte_of s v, s)"
    by (simp add: accessible_def pte_of_def)
  with Nil show ?case
    by (simp add: numeral_2_eq_2 accessible_def used_def clear_used_def)
next
  case (Cons b bs)
  have ab: "ll_vaddr s b \<noteq> 0" "mem s (pde_addr (ll_pgdir s b) (ll_vaddr s b)) AND 1 \<noteq> 0" "pte_of s b \<noteq> 0"
    using Cons.prems(3) by (auto simp: accessible_def)
  define h' where "h' = hd (bs @ [v])"
  have pb: "ll_prev s b = Some h'" "backs (ll_prev s) (bs @ [v])"
    using Cons.prems(2) by (cases bs; simp add: h'_def)+
  define t where "t = s\<lparr>mem := (mem s)(pte_of s b := mem s (pte_of s b) AND NOT PTE_A), head := Some h'\<rparr>"
  have wt: "pte_of t i = pte_of s i" "mem t (pde_addr (ll_pgdir s i) (ll_vaddr s i)) = mem s (pde_addr (ll_pgdir s i) (ll_vaddr s i))"
    if "i \<in> set (bs @ [v])" for i
  proof -
    have "pte_of s b \<noteq> pde_addr (ll_pgdir s i) (ll_vaddr s i)"
      using Cons.prems(3) that by (auto simp: accessible_def)
    then show "mem t (pde_addr (ll_pgdir s i) (ll_vaddr s i)) = mem s (pde_addr (ll_pgdir s i) (ll_vaddr s i))"
      by (simp add: t_def)
    then show "pte_of t i = pte_of s i" by (simp add: pte_of_def walk_def t_def)
  qed
  have im: "pte_of t ` set bs = pte_of s ` set bs" using wt(1) by (intro image_cong) auto
  have "clock (length bs + 2 + k) t = Some (v, (clear_used t bs)\<lparr>head := ll_prev t v\<rparr>)"
  proof (rule Cons.IH)
    show "head t = Some (hd (bs @ [v]))" "backs (ll_prev t) (bs @ [v])"
      using pb by (simp_all add: t_def h'_def)
    have "ll_vaddr t = ll_vaddr s" "ll_pgdir t = ll_pgdir s" by (simp_all add: t_def)
    then show "accessible t (bs @ [v])"
      using Cons.prems(3) wt unfolding accessible_def by (auto simp: ball_Un)
    have dp: "pte_of s b \<notin> pte_of s ` set bs" using Cons.prems(5) by auto
    have mt: "\<forall>i \<in> set bs. mem t (pte_of s i) = mem s (pte_of s i)"
    proof
      fix i assume "i \<in> set bs"
      then have "pte_of s i \<noteq> pte_of s b" using dp by (metis imageI)
      then show "mem t (pte_of s i) = mem s (pte_of s i)" by (simp add: t_def)
    qed
    then show "\<forall>b \<in> set bs. used t b" using Cons.prems(4) wt(1) by (auto simp: used_def)
    have "map (pte_of t) bs = map (pte_of s) bs" using wt(1) by auto
    moreover have "distinct (map (pte_of s) bs)" using Cons.prems(5) by simp
    ultimately show "distinct (map (pte_of t) bs)" by (simp only:)
    show "\<not> used t v \<or> pte_of t v \<in> pte_of t ` set bs"
    proof (cases "pte_of s v = pte_of s b")
      case True
      then have "mem t (pte_of t v) = mem s (pte_of s b) AND NOT PTE_A" using wt(1) [of v] by (simp add: t_def)
      then have "\<not> used t v" unfolding used_def by (simp only: clear_bit simp_thms)
      then show ?thesis by blast
    next
      case False
      then have "used t v = used s v" using wt(1) [of v] by (simp add: used_def t_def)
      then show ?thesis using Cons.prems(6) wt(1) [of v] False im by auto
    qed
  qed
  moreover have "clock (length (b # bs) + 2 + k) s = clock (length bs + 2 + k) t"
  proof -
    have "walkpgdir (Suc (length bs + 1 + k)) (ll_pgdir s b) (ll_vaddr s b) s = Some (pte_of s b, s)"
      using ab by (simp add: pte_of_def)
    moreover have "mem s (pte_of s b) AND PTE_A \<noteq> 0" using Cons.prems(4) by (simp add: used_def)
    ultimately show ?thesis
      using Cons.prems(1) ab pb(1) by (simp add: t_def Let_def numeral_2_eq_2)
  qed
  moreover have "(clear_used t bs)\<lparr>head := ll_prev t v\<rparr> = (clear_used s (b # bs))\<lparr>head := ll_prev s v\<rparr>"
    unfolding clear_used_def im using Cons.prems(5) by (auto simp: t_def fun_eq_iff)
  ultimately show ?case by simp
qed

lemma backs_prefix: "backs pv (xs @ ys) \<Longrightarrow> backs pv xs"
  by (induction pv xs rule: backs.induct) auto

lemma backs_snoc: "backs pv (xs @ [x, y]) \<longleftrightarrow> backs pv (xs @ [x]) \<and> pv x = Some y"
  by (induction pv xs rule: backs.induct) auto

lemma chain_backs: "chain nx pv xs \<Longrightarrow> backs pv (rev xs)"
proof (induction xs rule: chain.induct)
  case (1 nx pv x y r)
  then show ?case by (simp add: backs_snoc)
qed auto

definition scan_order :: "nat list \<Rightarrow> nat list" where
  "scan_order xs = (case xs of [] \<Rightarrow> [] | x # r \<Rightarrow> x # rev r)"

lemma ring_backs:
  assumes "ring s xs" "xs \<noteq> []"
  shows "head s = Some (hd xs)" "backs (ll_prev s) (scan_order xs @ [hd xs])" "set (scan_order xs) = set xs"
    "distinct (scan_order xs)" "hd (scan_order xs) = hd xs" "scan_order xs \<noteq> []" "length (scan_order xs) = length xs"
proof -
  obtain x r where xs: "xs = x # r" using assms(2) by (cases xs) auto
  have "chain (ll_next s) (ll_prev s) (x # r @ [x])" using assms(1) xs by (simp add: ring_def cyc_def)
  from chain_backs [OF this] show "backs (ll_prev s) (scan_order xs @ [hd xs])" by (simp add: scan_order_def xs)
qed (use assms in \<open>auto simp: ring_def scan_order_def split: list.splits\<close>)

text \<open>
  With some page unused since the last scan, the first such page is chosen; with all used,
  the head is. Both end within the fuel of one turn.
\<close>

lemma clock_victim:
  assumes r: "ring s xs" and a: "accessible s xs" and d: "inj_on (pte_of s) (set xs)"
    and o: "scan_order xs = pre @ v # post" and u: "\<forall>b \<in> set pre. used s b" and nu: "\<not> used s v"
  shows "clock (length xs + 2) s = Some (v, (clear_used s pre)\<lparr>head := ll_prev s v\<rparr>)"
proof -
  have ne: "xs \<noteq> []" using o by (auto simp: scan_order_def)
  note rb = ring_backs [OF r ne]
  have sub: "set (pre @ [v]) \<subseteq> set xs" using rb(3) o by auto
  have "distinct (map (pte_of s) pre)"
    using rb(4) o d sub by (auto simp: distinct_map intro: inj_on_subset)
  moreover have "accessible s (pre @ [v])" using a sub unfolding accessible_def by blast
  moreover have "backs (ll_prev s) (pre @ [v])"
    using rb(2) backs_prefix [of "ll_prev s" "pre @ [v]" "post @ [hd xs]"] o by simp
  moreover have "head s = Some (hd (pre @ [v]))" using rb(1,5) o by (cases pre) auto
  moreover have "length xs + 2 = length pre + 2 + (length xs - length pre)" using rb(7) o by simp
  ultimately show ?thesis using clock_scan [of s pre v "length xs - length pre"] u nu by simp
qed

lemma clock_victim_all_used:
  assumes r: "ring s xs" and ne: "xs \<noteq> []" and a: "accessible s xs" and d: "inj_on (pte_of s) (set xs)"
    and u: "\<forall>b \<in> set xs. used s b"
  shows "clock (length xs + 2) s = Some (hd xs, (clear_used s xs)\<lparr>head := ll_prev s (hd xs)\<rparr>)"
proof -
  note rb = ring_backs [OF r ne]
  have "hd xs \<in> set xs" using ne by simp
  then have "accessible s (scan_order xs @ [hd xs])" using a rb(3) unfolding accessible_def by auto
  moreover have "distinct (map (pte_of s) (scan_order xs))" using rb(3,4) d by (simp add: distinct_map)
  moreover have "head s = Some (hd (scan_order xs @ [hd xs]))" using rb(1,5,6) by simp
  moreover have "pte_of s (hd xs) \<in> pte_of s ` set (scan_order xs)" using \<open>hd xs \<in> set xs\<close> rb(3) by auto
  ultimately have "clock (length (scan_order xs) + 2 + 0) s =
      Some (hd xs, (clear_used s (scan_order xs))\<lparr>head := ll_prev s (hd xs)\<rparr>)"
    using rb(2,3) u by (intro clock_scan) auto
  then show ?thesis by (simp add: rb(3,7) clear_used_def)
qed

text \<open>Whatever was used, the clock ends with an element of the ring, and more fuel changes nothing.\<close>

lemma clock_any:
  assumes r: "ring s xs" and ne: "xs \<noteq> []" and a: "accessible s xs" and d: "inj_on (pte_of s) (set xs)"
  obtains v bs where "v \<in> set xs" "set bs \<subseteq> set xs"
    "\<And>k. clock (length xs + 2 + k) s = Some (v, (clear_used s bs)\<lparr>head := ll_prev s v\<rparr>)"
proof -
  note rb = ring_backs [OF r ne]
  show thesis
  proof (cases "\<forall>b \<in> set xs. used s b")
    case True
    have "hd xs \<in> set xs" using ne by simp
    then have "accessible s (scan_order xs @ [hd xs])" using a rb(3) unfolding accessible_def by auto
    moreover have "distinct (map (pte_of s) (scan_order xs))" using rb(3,4) d by (simp add: distinct_map)
    moreover have "head s = Some (hd (scan_order xs @ [hd xs]))" using rb(1,5,6) by simp
    moreover have "pte_of s (hd xs) \<in> pte_of s ` set (scan_order xs)" using \<open>hd xs \<in> set xs\<close> rb(3) by auto
    ultimately have "clock (length (scan_order xs) + 2 + k) s =
        Some (hd xs, (clear_used s (scan_order xs))\<lparr>head := ll_prev s (hd xs)\<rparr>)" for k
      using rb(2,3) True by (intro clock_scan) auto
    then show thesis using that [of "hd xs" "scan_order xs"] \<open>hd xs \<in> set xs\<close> rb(3,7) by simp
  next
    case False
    then have "\<exists>b \<in> set (scan_order xs). \<not> used s b" using rb(3) by blast
    then obtain pre v post where o: "scan_order xs = pre @ v # post" "\<not> used s v" "\<forall>b \<in> set pre. used s b"
      using split_list_first_prop [of "scan_order xs" "\<lambda>b. \<not> used s b"] by blast
    have sub: "set (pre @ [v]) \<subseteq> set xs" using rb(3) o(1) by auto
    have "distinct (map (pte_of s) pre)"
      using rb(4) o(1) d sub by (auto simp: distinct_map intro: inj_on_subset)
    moreover have "accessible s (pre @ [v])" using a sub unfolding accessible_def by blast
    moreover have "backs (ll_prev s) (pre @ [v])"
      using rb(2) backs_prefix [of "ll_prev s" "pre @ [v]" "post @ [hd xs]"] o(1) by simp
    moreover have "head s = Some (hd (pre @ [v]))" using rb(1,5) o(1) by (cases pre) auto
    ultimately have c: "clock (length pre + 2 + k) s = Some (v, (clear_used s pre)\<lparr>head := ll_prev s v\<rparr>)" for k
      using clock_scan [of s pre v k] o(2,3) by simp
    have "clock (length xs + 2 + k) s = Some (v, (clear_used s pre)\<lparr>head := ll_prev s v\<rparr>)" for k
    proof -
      have "length xs + 2 + k = length pre + 2 + (length xs - length pre + k)" using rb(7) o(1) by simp
      then show ?thesis using c [of "length xs - length pre + k"] by simp
    qed
    then show thesis using that [of v pre] sub by simp
  qed
qed

section \<open>Eviction leaves the page on the free list\<close>

text \<open>
  \<open>swapout\<close> frees the victim's frame with \<open>kfree\<close>, which puts it on the free list, and \<open>kalloc\<close>
  then also returns it: the caller's page is the next one to be allocated.
\<close>

lemma ring_rotated:
  assumes r: "ring s xs" and i: "i \<in> set xs"
  obtains ys where "ring (s\<lparr>head := Some i\<rparr>) ys" "set ys = set xs" "length ys = length xs"
proof -
  obtain u w where xs: "xs = u @ i # w" using i by (meson split_list)
  have "cyc (ll_next s) (ll_prev s) ((i # w) @ u)"
    using r cyc_rotate [of "ll_next s" "ll_prev s" u "i # w"] by (simp add: ring_def xs)
  then have "ring (s\<lparr>head := Some i\<rparr>) ((i # w) @ u)"
    using r by (auto simp: ring_def xs is_struct_page_available_def)
  then show thesis by (rule that) (auto simp: xs)
qed

lemma find_frame_ring:
  assumes "cyc (ll_next s) (ll_prev s) xs" "\<forall>i \<in> set xs. walk s (ll_pgdir s i) (ll_vaddr s i) \<noteq> 0" "c \<in> set xs"
  shows "\<exists>r. find_frame s v n (Some c) = Some r \<and> set_option r \<subseteq> set xs"
  using assms(3)
proof (induction n arbitrary: c)
  case (Suc n)
  obtain d where "ll_next s c = Some d" "d \<in> set xs" using cyc_used [OF assms(1) Suc.prems] by blast
  with Suc.IH [of d] assms(2) Suc.prems show ?case by (auto simp: Let_def)
qed simp

text \<open>The frame that an element of the list is about, at its kernel address.\<close>

definition frame_of :: "kst \<Rightarrow> nat \<Rightarrow> u32" where
  "frame_of s i = P2V (PTE_ADDR (mem s (pte_of s i)))"

lemma frame_aligned: "frame_of s i mod 4096 = 0"
proof -
  define x where "x = PTE_ADDR (mem s (pte_of s i))"
  have "take_bit 12 x = 0"
    by (rule bit_word_eqI) (simp add: x_def PTE_ADDR_def bit_simps; auto)
  then have "take_bit 12 (unat x) = 0" by (simp only: unsigned_take_bit_eq [symmetric] unsigned_0)
  then have "unat x mod 4096 = 0" by (simp add: take_bit_eq_mod)
  moreover have "unat (frame_of s i) mod 4096 = (unat x + 524288 * 4096) mod 4096"
    unfolding frame_of_def P2V_def x_def [symmetric] by (subst unat_word_ariths) (simp add: mod_mod_cancel)
  ultimately have "unat (frame_of s i) mod 4096 = 0" by (simp only: mod_mult_self1)
  then show ?thesis by (simp add: word_unat_eq_iff unat_mod)
qed

lemma kfree_ring:
  assumes r: "ring s xs" and w: "\<forall>i \<in> set xs. walk s (ll_pgdir s i) (ll_vaddr s i) \<noteq> 0"
    and v: "v mod 4096 = 0" "kend s \<le> v" "V2P v < 0x600000" and l: "use_lock s \<longrightarrow> \<not> kmem_locked s"
  obtains t where "kfree v s = Some t" "freelist t = v" "use_lock t = use_lock s" "kmem_locked t = kmem_locked s"
proof -
  have "\<exists>s1. (if head s \<noteq> None then do {
                 r \<leftarrow> find_frame s v (nat (num_lru_pages s)) (head s);
                 (case r of None \<Rightarrow> Some s | Some c \<Rightarrow> lru_delete c s) }
               else Some s) = Some s1 \<and> use_lock s1 = use_lock s \<and> kmem_locked s1 = kmem_locked s"
  proof (cases xs)
    case Nil
    then show ?thesis using r by (simp add: ring_def)
  next
    case (Cons h ys)
    have cy: "cyc (ll_next s) (ll_prev s) xs" and h: "head s = Some h" using r Cons by (simp_all add: ring_def)
    obtain q where q: "find_frame s v (nat (num_lru_pages s)) (Some h) = Some q" "set_option q \<subseteq> set xs"
      using find_frame_ring [OF cy w, of h v "nat (num_lru_pages s)"] Cons by force
    show ?thesis
    proof (cases q)
      case None
      with q h show ?thesis by simp
    next
      case (Some c)
      then obtain t where t: "lru_delete c s = Some t" using lru_delete_ring [OF r, of c] q(2) by auto
      have "use_lock t = use_lock s \<and> kmem_locked t = kmem_locked s"
        using t by (auto simp: lru_delete_def Let_def split: if_splits bind_splits)
      with t q h Some show ?thesis by simp
    qed
  qed
  then obtain s1 where s1: "(if head s \<noteq> None then do {
                 r \<leftarrow> find_frame s v (nat (num_lru_pages s)) (head s);
                 (case r of None \<Rightarrow> Some s | Some c \<Rightarrow> lru_delete c s) }
               else Some s) = Some s1" "use_lock s1 = use_lock s" "kmem_locked s1 = kmem_locked s" by blast
  define t where "t = (memset_page v 0x01010101 s1)\<lparr>mem := (mem (memset_page v 0x01010101 s1))(v := freelist s1), freelist := v\<rparr>"
  have "kfree v s = Some t"
    using v l s1 by (cases "use_lock s")
      (simp_all add: kfree_def acquire_kmem_def release_kmem_def memset_page_def t_def not_le not_less)
  then show thesis by (rule that) (use s1 in \<open>simp_all add: t_def memset_page_def\<close>)
qed

text \<open>The state with the lock as \<open>acquire\<close> and \<open>release\<close> leave it.\<close>

definition with_lock :: "bool \<Rightarrow> kst \<Rightarrow> kst" where
  "with_lock x s = (if use_lock s then s\<lparr>kmem_locked := x\<rparr> else s)"

lemma with_lock_simps [simp]:
  "mem (with_lock x s) = mem s" "freelist (with_lock x s) = freelist s" "use_lock (with_lock x s) = use_lock s"
  "kend (with_lock x s) = kend s" "ll_next (with_lock x s) = ll_next s" "ll_prev (with_lock x s) = ll_prev s"
  "ll_pgdir (with_lock x s) = ll_pgdir s" "ll_vaddr (with_lock x s) = ll_vaddr s" "head (with_lock x s) = head s"
  "num_free_pages (with_lock x s) = num_free_pages s" "num_lru_pages (with_lock x s) = num_lru_pages s"
  "bitmap (with_lock x s) = bitmap s" "use_lock s \<Longrightarrow> kmem_locked (with_lock x s) = x"
  by (simp_all add: with_lock_def)

lemma lock_kmem:
  "use_lock s \<longrightarrow> \<not> kmem_locked s \<Longrightarrow> acquire_kmem s = Some (with_lock True s)"
  "use_lock s \<longrightarrow> kmem_locked s \<Longrightarrow> release_kmem s = Some (with_lock False s)"
  by (simp_all add: acquire_kmem_def release_kmem_def with_lock_def)

text \<open>What \<open>ring\<close>, \<open>accessible\<close> and the other notions of the list read.\<close>

lemma ring_cong:
  assumes "ll_next t = ll_next s" "ll_prev t = ll_prev s" "ll_pgdir t = ll_pgdir s" "ll_vaddr t = ll_vaddr s"
    "head t = head s" "num_lru_pages t = num_lru_pages s" "num_free_pages t = num_free_pages s"
  shows "ring t xs = ring s xs"
  using assms by (simp add: ring_def is_struct_page_available_def)

lemma walk_cong: "mem t = mem s \<Longrightarrow> walk t = walk s"
  by (simp add: walk_def fun_eq_iff)

lemma clear_used_frames:
  assumes a: "accessible s xs" and b: "set bs \<subseteq> set xs" and i: "i \<in> set xs" and t: "t = (clear_used s bs)\<lparr>head := h\<rparr>"
  shows "mem t (pde_addr (ll_pgdir s i) (ll_vaddr s i)) = mem s (pde_addr (ll_pgdir s i) (ll_vaddr s i))"
    "pte_of t i = pte_of s i" "frame_of t i = frame_of s i"
proof -
  have "pde_addr (ll_pgdir s i) (ll_vaddr s i) \<notin> pte_of s ` set bs" using a b i unfolding accessible_def by force
  then show m: "mem t (pde_addr (ll_pgdir s i) (ll_vaddr s i)) = mem s (pde_addr (ll_pgdir s i) (ll_vaddr s i))"
    by (simp add: t clear_used_def)
  have eq: "ll_pgdir t = ll_pgdir s" "ll_vaddr t = ll_vaddr s" by (simp_all add: t clear_used_def)
  show p: "pte_of t i = pte_of s i" by (simp only: pte_of_def walk_def eq m)
  have "PTE_ADDR (w AND NOT PTE_A) = PTE_ADDR w" for w
    by (simp add: PTE_ADDR_def and.assoc)
  then show "frame_of t i = frame_of s i" by (simp add: frame_of_def p) (simp add: t clear_used_def)
qed

lemma swapout_ok:
  assumes r: "ring s xs" and ne: "xs \<noteq> []" and len: "length xs < LRU_LENGTH" and a: "accessible s xs"
    and d: "inj_on (pte_of s) (set xs)" and l: "use_lock s \<longrightarrow> kmem_locked s"
    and fr: "\<forall>i \<in> set xs. kend s \<le> frame_of s i \<and> V2P (frame_of s i) < 0x600000"
    and b: "0 \<le> get_available_bitmap s" "get_available_bitmap s < SWAP_SLOTS"
  obtains v t where "v \<in> set xs" "\<And>k. swapout (length xs + 3 + k) s = Some (frame_of s v, t)"
    "freelist t = frame_of s v" "use_lock t = use_lock s" "use_lock s \<longrightarrow> kmem_locked t"
proof -
  obtain v bs where v: "v \<in> set xs" "set bs \<subseteq> set xs"
    and c: "\<And>k. clock (length xs + 2 + k) s = Some (v, (clear_used s bs)\<lparr>head := ll_prev s v\<rparr>)"
    by (rule clock_any [OF r ne a d]) blast
  define s1 where "s1 = (clear_used s bs)\<lparr>head := ll_prev s v\<rparr>"
  note F = clear_used_frames [OF a v(2) _ s1_def]
  have s1: "ll_pgdir s1 = ll_pgdir s" "ll_vaddr s1 = ll_vaddr s" "use_lock s1 = use_lock s" "kmem_locked s1 = kmem_locked s"
    "kend s1 = kend s" "bitmap s1 = bitmap s" "ll_next s1 = ll_next s" "ll_prev s1 = ll_prev s"
    "num_free_pages s1 = num_free_pages s" "num_lru_pages s1 = num_lru_pages s"
    by (simp_all add: s1_def clear_used_def)
  obtain h where h: "ll_prev s v = Some h" "h \<in> set xs"
    using cyc_used [of "ll_next s" "ll_prev s" xs v] r v(1) by (auto simp: ring_def)
  obtain ys where "ring (s\<lparr>head := Some h\<rparr>) ys" and ys: "set ys = set xs" by (rule ring_rotated [OF r h(2)]) blast
  then have R1: "ring s1 ys"
    using h(1) by (subst ring_cong [of s1 "s\<lparr>head := Some h\<rparr>"]) (simp_all add: s1_def clear_used_def)
  have W1: "walk s1 (ll_pgdir s i) (ll_vaddr s i) = pte_of s i" "pte_of s i \<noteq> 0" if "i \<in> set xs" for i
    using F(2) [OF that] a that by (auto simp: pte_of_def accessible_def s1(1,2))
  have wk: "walkpgdir (Suc n) (ll_pgdir s1 v) (ll_vaddr s1 v) s1 = Some (pte_of s v, s1)" for n
    using a v(1) F(1) [OF v(1)] W1(1) [OF v(1)] by (simp add: s1 accessible_def)
  let ?v = "frame_of s v" and ?b = "get_available_bitmap s"
  have kv: "P2V (PTE_ADDR (mem s1 (pte_of s v))) = ?v" using F(2,3) [OF v(1)] by (simp add: frame_of_def)
  define s3 where "s3 = (with_lock False s1)\<lparr>swap := (swap (with_lock False s1))(?b := word_at (with_lock False s1) (NodeAt v))\<rparr>"
  define s4 where "s4 = (with_lock True s3)\<lparr>bitmap := (bitmap s3)(nat ?b := 1)\<rparr>"
  have sw: "swapwrite (NodeAt v) ?b (with_lock False s1) = Some s3" using b by (simp add: swapwrite_def s3_def)
  have cb: "change_bitmap ?b 1 (with_lock True s3) = Some s4"
    using b by (simp add: change_bitmap_def set1_def SWAP_SLOTS_def BITMAP_SIZE_def s4_def)
  have s3: "use_lock s3 = use_lock s" "use_lock s \<longrightarrow> \<not> kmem_locked s3" by (simp_all add: s3_def s1)
  have s4: "use_lock s4 = use_lock s" "use_lock s \<longrightarrow> kmem_locked s4" using s3 by (simp_all add: s4_def)
  have m4: "mem (with_lock False s4) = mem s1" by (simp add: s4_def s3_def)
  have R4: "ring (with_lock False s4) ys"
    using R1 by (subst ring_cong [of _ s1]) (simp_all add: s4_def s3_def)
  have W4: "\<forall>i \<in> set ys. walk (with_lock False s4) (ll_pgdir (with_lock False s4) i) (ll_vaddr (with_lock False s4) i) \<noteq> 0"
    unfolding walk_cong [OF m4] using W1 ys by (simp add: s4_def s3_def s1)
  have vv: "kend (with_lock False s4) \<le> ?v" "V2P ?v < 0x600000" using fr v(1) by (simp_all add: s4_def s3_def s1)
  have l4: "use_lock (with_lock False s4) \<longrightarrow> \<not> kmem_locked (with_lock False s4)" using s4 by simp
  obtain s5 where s5: "kfree ?v (with_lock False s4) = Some s5" "freelist s5 = ?v" "use_lock s5 = use_lock s"
    "use_lock s \<longrightarrow> \<not> kmem_locked s5"
    by (rule kfree_ring [OF R4 W4 frame_aligned vv l4]) (use s4 l4 in simp)
  define t where "t = (with_lock True s5)\<lparr>mem := (mem s5)
      (pte_of s v := push_bit 12 (word_of_int ?b) OR (mem s5 (pte_of s v) AND 0xFFE))\<rparr>"
  have nf: "num_free_pages s \<noteq> 0" using r len by (simp add: ring_def)
  have lk: "release_kmem s1 = Some (with_lock False s1)" "acquire_kmem s3 = Some (with_lock True s3)"
    "release_kmem s4 = Some (with_lock False s4)" "acquire_kmem s5 = Some (with_lock True s5)"
    using l s1 s3 s4 s5(3,4) by (simp_all add: lock_kmem)
  have "swapout (length xs + 3 + k) s = Some (?v, t)" for k
  proof -
    have n: "length xs + 3 + k = Suc (length xs + 2 + k)" by simp
    show ?thesis
      unfolding n swapout.simps Let_def c [folded s1_def]
      using nf W1(2) [OF v(1)] by (simp add: wk kv lk sw cb s5(1) t_def del: walkpgdir.simps)
  qed
  then show thesis by (rule that [OF v(1)]) (use s5 in \<open>simp_all add: t_def\<close>)
qed

lemma kalloc_evicts:
  assumes r: "ring s xs" and ne: "xs \<noteq> []" and len: "length xs < LRU_LENGTH" and a: "accessible s xs"
    and d: "inj_on (pte_of s) (set xs)" and l: "\<not> kmem_locked s" and fl: "freelist s = 0"
    and fr: "\<forall>i \<in> set xs. kend s \<le> frame_of s i \<and> V2P (frame_of s i) < 0x600000"
    and b: "0 \<le> get_available_bitmap s" "get_available_bitmap s < SWAP_SLOTS"
  shows "\<exists>v \<in> set xs. \<exists>t u. (\<forall>k. kalloc (length xs + 4 + k) s = Some (frame_of s v, t)) \<and>
    freelist t = frame_of s v \<and> (\<forall>k. kalloc (1 + k) t = Some (frame_of s v, u))"
proof -
  define s0 where "s0 = with_lock True s"
  have eq: "pte_of s0 = pte_of s" "frame_of s0 = frame_of s" "get_available_bitmap s0 = get_available_bitmap s"
    using walk_cong [of s0 s] by (simp_all add: s0_def pte_of_def frame_of_def get_available_bitmap_def fun_eq_iff)
  have "ring s0 xs" using r by (subst ring_cong [of s0 s]) (simp_all add: s0_def)
  moreover have "accessible s0 xs" "inj_on (pte_of s0) (set xs)" "use_lock s0 \<longrightarrow> kmem_locked s0"
    using a d eq by (simp_all add: accessible_def s0_def)
  moreover have "\<forall>i \<in> set xs. kend s0 \<le> frame_of s0 i \<and> V2P (frame_of s0 i) < 0x600000"
    "0 \<le> get_available_bitmap s0" "get_available_bitmap s0 < SWAP_SLOTS" using fr b eq by (simp_all add: s0_def)
  ultimately obtain v t where v: "v \<in> set xs" "\<And>k. swapout (length xs + 3 + k) s0 = Some (frame_of s0 v, t)"
    "freelist t = frame_of s0 v" "use_lock t = use_lock s0" "use_lock s0 \<longrightarrow> kmem_locked t"
    using swapout_ok [OF _ ne len] by metis
  let ?t = "with_lock False t"
  have al: "acquire_kmem s = Some s0" "release_kmem t = Some ?t"
    using l v(4,5) by (simp_all add: s0_def lock_kmem)
  have "kalloc (length xs + 4 + k) s = Some (frame_of s v, ?t)" for k
  proof -
    have n: "length xs + 4 + k = Suc (length xs + 3 + k)" by simp
    have "freelist s0 = 0" using fl by (simp add: s0_def)
    then show ?thesis unfolding n kalloc.simps al using v(2) al(2) eq(2) by simp
  qed
  moreover have p: "frame_of s v \<noteq> 0" using fr v(1) by (auto simp: V2P_def)
  moreover have "freelist ?t = frame_of s v" using v(3) eq(2) by simp
  moreover obtain u where "\<And>k. kalloc (1 + k) ?t = Some (frame_of s v, u)"
  proof -
    let ?a = "with_lock True ?t"
    have ul: "use_lock ?t \<longrightarrow> \<not> kmem_locked ?t" by simp
    let ?u = "with_lock False (?a\<lparr>freelist := mem ?a (freelist ?a)\<rparr>)"
    have "release_kmem (?a\<lparr>freelist := mem ?a (freelist ?a)\<rparr>) = Some ?u" by (rule lock_kmem) simp
    then have "kalloc (1 + k) ?t = Some (frame_of s v, ?u)" for k
      using p v(3) eq(2) lock_kmem(1) [OF ul] by simp
    then show thesis by (rule that)
  qed
  ultimately show ?thesis using v(1) by blast
qed

section \<open>The properties of the frame allocator\<close>

text \<open>A memory with one evictable page: the frame at \<open>0x80300000\<close>, mapped at \<open>0x1000\<close>.\<close>

definition one_page :: kst where
  "one_page = \<lparr>mem = (\<lambda>a. if a = 0x80100000 then 0x200001 else if a = 0x80200004 then 0x300007 else 0),
     freelist = 0, use_lock = True, kmem_locked = False, kend = 0x80100000, ll_base = 0x80110000,
     ll_next = (\<lambda>i. if i = 0 then Some 0 else None), ll_prev = (\<lambda>i. if i = 0 then Some 0 else None),
     ll_pgdir = (\<lambda>i. if i = 0 then 0x80100000 else 0), ll_vaddr = (\<lambda>i. if i = 0 then 0x1000 else 0),
     head = Some 0, num_free_pages = 1535, num_lru_pages = 1, bitmap = (\<lambda>_. 0), swap = (\<lambda>_ _. 0)\<rparr>"

lemma one_page_ring: "ring one_page [0]"
  by (simp add: ring_def one_page_def cyc_def LRU_LENGTH_def is_struct_page_available_def)

lemma one_page_pte: "pte_of one_page 0 = 0x80200004"
  by (simp add: pte_of_def walk_def one_page_def pde_addr_def PDX_def PTX_def P2V_def PTE_ADDR_def)

lemma one_page_accessible: "accessible one_page [0]"
proof -
  have "ll_vaddr one_page 0 = 0x1000" "ll_pgdir one_page 0 = 0x80100000"
    "mem one_page (pde_addr 0x80100000 0x1000) = 0x200001" "pde_addr 0x80100000 0x1000 = 0x80100000"
    by (simp_all add: one_page_def pde_addr_def PDX_def)
  then show ?thesis by (simp add: accessible_def one_page_pte)
qed

text \<open>
  \<open>lru_append\<close> on a list that is a well-formed ring takes a free element for the page and
  makes it the head; the rest of the ring follows in the old order, the old head last, and the
  counters count the ring.
\<close>

theorem lru_append_refines:
  assumes "ring s xs" "length xs < LRU_LENGTH"
  shows "\<exists>i s'. lru_append pgdir vaddr s = Some (i, s') \<and> i \<notin> set xs \<and>
    ring s' (case xs of [] \<Rightarrow> [i] | h # ys \<Rightarrow> i # ys @ [h]) \<and>
    ll_pgdir s' = (ll_pgdir s)(i := pgdir) \<and> ll_vaddr s' = (ll_vaddr s)(i := vaddr)"
  using lru_append_ring [OF assms] by blast

lemma lru_append_refines_witness:
  "\<exists>i s'. lru_append 0x80100000 0x2000 one_page = Some (i, s') \<and> ring s' [i, 0]"
  using lru_append_refines [OF one_page_ring, of "0x80100000" "0x2000"] by (force simp: LRU_LENGTH_def)

text \<open>
  \<open>lru_delete\<close> takes a given element out of the ring, which stays a ring of the others in
  their order, and makes the element available again; memory and the free list are untouched.
\<close>

theorem lru_delete_refines:
  assumes "ring s xs" "a \<in> set xs"
  shows "\<exists>s'. lru_delete a s = Some s' \<and> ring s' (remove1 a xs) \<and> is_struct_page_available s' a \<and>
    mem s' = mem s \<and> freelist s' = freelist s"
proof -
  obtain s' where s': "lru_delete a s = Some s'" "ring s' (remove1 a xs)" "mem s' = mem s" "freelist s' = freelist s"
    using lru_delete_ring [OF assms] by blast
  have "a \<notin> set (remove1 a xs)" "a < LRU_LENGTH" using assms by (auto simp: ring_def)
  then have "is_struct_page_available s' a" using available_iff [OF s'(2)] by blast
  with s' show ?thesis by blast
qed

lemma lru_delete_refines_witness: "\<exists>s'. lru_delete 0 one_page = Some s' \<and> ring s' []"
  using lru_delete_refines [OF one_page_ring, of 0] by auto

text \<open>
  C33. The clock: going back from the head, the first page that was not used since the last
  scan is the victim; the pages passed over have their accessed bit cleared and get a second
  chance, no other bit of memory changes, and the head moves behind the victim.
\<close>

theorem clock_second_chance:
  assumes "ring s xs" "accessible s xs" "inj_on (pte_of s) (set xs)"
    and "scan_order xs = pre @ v # post" "\<forall>b \<in> set pre. used s b" "\<not> used s v"
  shows "clock (length xs + 2) s = Some (v, (clear_used s pre)\<lparr>head := ll_prev s v\<rparr>)"
  by (rule clock_victim [OF assms])

lemma clock_second_chance_witness: "\<exists>t. clock 3 one_page = Some (0, t)"
proof -
  have "clock (length [0 :: nat] + 2) one_page = Some (0, (clear_used one_page [])\<lparr>head := ll_prev one_page 0\<rparr>)"
  proof (rule clock_second_chance [OF one_page_ring one_page_accessible])
    show "scan_order [0] = [] @ 0 # []" by (simp add: scan_order_def)
    have "mem one_page 0x80200004 = 0x300007" by (simp add: one_page_def)
    then show "\<not> used one_page 0" by (simp add: used_def one_page_pte)
  qed simp_all
  then show ?thesis by (simp add: eval_nat_numeral)
qed

text \<open>
  The clock ends also when every page was used: after one turn, in which every accessed
  bit is cleared, the head is the victim.
\<close>

theorem clock_full_turn:
  assumes "ring s xs" "xs \<noteq> []" "accessible s xs" "inj_on (pte_of s) (set xs)" "\<forall>b \<in> set xs. used s b"
  shows "clock (length xs + 2) s = Some (hd xs, (clear_used s xs)\<lparr>head := ll_prev s (hd xs)\<rparr>)"
  by (rule clock_victim_all_used [OF assms])

definition one_used :: kst where
  "one_used = one_page\<lparr>mem := (mem one_page)(0x80200004 := 0x300027)\<rparr>"

lemma clock_full_turn_witness: "\<exists>t. clock 3 one_used = Some (0, t) \<and> mem t 0x80200004 = 0x300007"
proof -
  have pd: "ll_vaddr one_used 0 = 0x1000" "ll_pgdir one_used 0 = 0x80100000"
    "pde_addr 0x80100000 0x1000 = 0x80100000" "mem one_used 0x80100000 = 0x200001"
    "mem one_used 0x80200004 = 0x300027"
    by (simp_all add: one_used_def one_page_def pde_addr_def PDX_def)
  have pte: "pte_of one_used 0 = 0x80200004"
    by (simp add: pte_of_def walk_def pd PTX_def P2V_def PTE_ADDR_def)
  have "clock (length [0 :: nat] + 2) one_used =
      Some (hd [0], (clear_used one_used [0])\<lparr>head := ll_prev one_used (hd [0])\<rparr>)"
  proof (rule clock_full_turn)
    show "ring one_used [0]"
      using one_page_ring by (simp add: one_used_def ring_def is_struct_page_available_def)
    show "accessible one_used [0]" by (simp add: accessible_def pte pd)
    show "\<forall>b \<in> set [0]. used one_used b" by (simp add: used_def pte pd)
  qed simp_all
  then show ?thesis by (simp add: eval_nat_numeral clear_used_def pte pd)
qed

text \<open>
  C34. A full memory (no frame on the free list) with a list of user pages that are mapped, whose frames the allocator
  may hand out, and a free slot in the swap area: \<open>kalloc\<close> evicts, with any fuel of at least the length of the list
  and 4, and the frame it returns is that of a page of the list and at the same time the first frame of the free
  list: \<open>swapout\<close> gave it to \<open>kfree\<close> before returning it. The next call of \<open>kalloc\<close> returns the same frame again.
\<close>

theorem kalloc_evicts_twice:
  assumes "ring s xs" "xs \<noteq> []" "length xs < LRU_LENGTH" "accessible s xs" "inj_on (pte_of s) (set xs)"
    and "\<not> kmem_locked s" "freelist s = 0"
    and "\<forall>i \<in> set xs. kend s \<le> frame_of s i \<and> V2P (frame_of s i) < 0x600000"
    and "0 \<le> get_available_bitmap s" "get_available_bitmap s < SWAP_SLOTS"
  shows "\<exists>v \<in> set xs. \<exists>t u. (\<forall>k. kalloc (length xs + 4 + k) s = Some (frame_of s v, t)) \<and>
    freelist t = frame_of s v \<and> (\<forall>k. kalloc (1 + k) t = Some (frame_of s v, u))"
  by (rule kalloc_evicts [OF assms])

lemma kalloc_evicts_twice_witness:
  "\<exists>t u. kalloc 5 one_page = Some (0x80300000, t) \<and> kalloc 1 t = Some (0x80300000, u)"
proof -
  have bm: "get_available_bitmap one_page = 1"
  proof -
    have "[1..<BITMAP_SIZE] = 1 # [Suc 1..<BITMAP_SIZE]"
      by (rule upt_conv_Cons) (simp add: BITMAP_SIZE_def)
    then show ?thesis by (simp only: get_available_bitmap_def) (simp add: one_page_def)
  qed
  have "mem one_page 0x80200004 = 0x300007" "kend one_page = 0x80100000" by (simp_all add: one_page_def)
  then have f: "frame_of one_page 0 = 0x80300000" "kend one_page \<le> 0x80300000"
    by (simp_all add: frame_of_def one_page_pte P2V_def PTE_ADDR_def)
  have "\<exists>v \<in> set [0]. \<exists>t u. (\<forall>k. kalloc (length [0 :: nat] + 4 + k) one_page = Some (frame_of one_page v, t)) \<and>
    freelist t = frame_of one_page v \<and> (\<forall>k. kalloc (1 + k) t = Some (frame_of one_page v, u))"
    by (rule kalloc_evicts_twice [OF one_page_ring _ _ one_page_accessible])
      (use f bm in \<open>simp_all add: V2P_def SWAP_SLOTS_def\<close>, simp_all add: one_page_def LRU_LENGTH_def)
  then obtain t u where k: "\<And>k. kalloc (5 + k) one_page = Some (0x80300000, t)" "\<And>k. kalloc (1 + k) t = Some (0x80300000, u)"
    using f(1) by (auto simp del: kalloc.simps)
  from k(1) [of 0] k(2) [of 0] show ?thesis by (simp del: kalloc.simps)
qed

end
