(* ===== verification/Zns.thy ===== *)
theory Zns
  imports Nand
begin

text \<open>
  The zoned storage simulator of lab 5 (ZNS+), \<open>3-2/EmbeddedSul/HW5/20211030_submit/zns.c\<close>, over
  the NAND simulator of theory \<open>Nand\<close>: the queues of free flash block groups, the zones with
  their write pointers and states, sequential writes through one page of buffer per zone,
  reads, resets, copies into another zone (\<open>zns_izc\<close>) and threaded-log zones (\<open>zns_tl_open\<close>).
  The constants of a device are the record \<open>zcfg\<close>, the globals the record \<open>zns\<close>. An operation
  on a zone that does not exist, or outside a caller's buffer, is \<open>None\<close>.
\<close>

section \<open>Sizes and state\<close>

abbreviation (input) "NSECT \<equiv> (8 :: int)"

record zcfg =
  zNBANK :: int
  zNBLK :: int
  zNPAGE :: int
  DEG_ZONE :: int
  MAX_OPEN_ZONE :: int

definition NUM_FCG :: "zcfg \<Rightarrow> int" where "NUM_FCG c = zNBANK c sdiv DEG_ZONE c"
definition MAX_ZONE :: "zcfg \<Rightarrow> int" where
  "MAX_ZONE c = zNBANK c sdiv DEG_ZONE c * (zNBLK c - MAX_OPEN_ZONE c)"
definition ZONE_SIZE :: "zcfg \<Rightarrow> int" where "ZONE_SIZE c = DEG_ZONE c * zNPAGE c * NSECT"

datatype zstate = ZONE_EMPTY | ZONE_OPEN | ZONE_FULL | ZONE_TLOPEN

record zone_desc =
  zd_state :: zstate
  slba :: int
  wp :: int

record zns =
  znand :: nand_state
  FBG_Queue :: "int \<Rightarrow> int \<Rightarrow> int"    \<comment> \<open>\<open>FBG_Queue[NUM_FCG][NBLK]\<close>\<close>
  Queue_cnt :: "int \<Rightarrow> int"
  Queue_Head :: "int \<Rightarrow> int"
  Queue_Tail :: "int \<Rightarrow> int"
  Open_Zone_Cnt :: int
  Z2FBG :: "int \<Rightarrow> int"
  Z2LogFBG :: "int \<Rightarrow> int"
  ZD :: "int \<Rightarrow> zone_desc"
  zbuffer :: "int \<Rightarrow> u32 list"          \<comment> \<open>\<open>buffer[MAX_ZONE][NSECT]\<close>\<close>
  zone_valid_map :: "int \<Rightarrow> int \<Rightarrow> int"

section \<open>The queues of free blocks\<close>

definition Queue_isEmpty :: "int \<Rightarrow> zns \<Rightarrow> bool" where
  "Queue_isEmpty fcg s \<longleftrightarrow> Queue_cnt s fcg = 0"

definition Queue_isFull :: "zcfg \<Rightarrow> int \<Rightarrow> zns \<Rightarrow> bool" where
  "Queue_isFull c fcg s \<longleftrightarrow> Queue_cnt s fcg = zNBLK c"

definition Queue_Push :: "zcfg \<Rightarrow> int \<Rightarrow> int \<Rightarrow> zns \<Rightarrow> zns \<times> int" where
  "Queue_Push c fcg data s =
     (if Queue_isFull c fcg s then (s, -1)
      else
        (s\<lparr>FBG_Queue := (FBG_Queue s)(fcg := (FBG_Queue s fcg)(Queue_Tail s fcg := data)),
           Queue_Tail := (Queue_Tail s)
             (fcg := if Queue_Tail s fcg + 1 = zNBLK c then 0 else Queue_Tail s fcg + 1),
           Queue_cnt := (Queue_cnt s)(fcg := Queue_cnt s fcg + 1)\<rparr>, 1))"

definition Queue_Pop :: "zcfg \<Rightarrow> int \<Rightarrow> zns \<Rightarrow> zns \<times> int" where
  "Queue_Pop c fcg s =
     (if Queue_isEmpty fcg s then (s, -1)
      else
        (s\<lparr>Queue_Head := (Queue_Head s)
             (fcg := if Queue_Head s fcg + 1 = zNBLK c then 0 else Queue_Head s fcg + 1),
           Queue_cnt := (Queue_cnt s)(fcg := Queue_cnt s fcg - 1)\<rparr>,
         FBG_Queue s fcg (Queue_Head s fcg)))"

definition Queue_Peek :: "int \<Rightarrow> zns \<Rightarrow> int" where
  "Queue_Peek fcg s = (if Queue_isEmpty fcg s then -1 else FBG_Queue s fcg (Queue_Head s fcg))"

text \<open>\<open>malloc\<close> gives the entries of \<open>FBG_Queue\<close> the arbitrary values they have in \<open>s\<close>.\<close>

definition Queue_init :: "zcfg \<Rightarrow> zns \<Rightarrow> zns" where
  "Queue_init c s =
     fold (\<lambda>fcg s. fold (\<lambda>fbg s. fst (Queue_Push c (int fcg) (int fbg) s)) [0..<nat (zNBLK c)] s)
       [0..<nat (NUM_FCG c)]
       (s\<lparr>Queue_cnt := (\<lambda>_. 0), Queue_Head := (\<lambda>_. 0), Queue_Tail := (\<lambda>_. 0)\<rparr>)"

definition Global_init :: "zcfg \<Rightarrow> zns \<Rightarrow> zns" where
  "Global_init c s =
     s\<lparr>zbuffer := (\<lambda>_. replicate 8 0), zone_valid_map := (\<lambda>_ _. 0), Z2FBG := (\<lambda>_. -1),
       Z2LogFBG := (\<lambda>_. -1),
       ZD := (\<lambda>mz. \<lparr>zd_state = ZONE_EMPTY, slba = mz * ZONE_SIZE c, wp = mz * ZONE_SIZE c\<rparr>)\<rparr>"

text \<open>\<open>Open_Zone_Cnt\<close> is not reset: it is 0 only because it is a global variable.\<close>

definition zns_init :: "zcfg \<Rightarrow> (nat \<Rightarrow> nand_page) \<Rightarrow> zns \<Rightarrow> zns" where
  "zns_init c junk s =
     Global_init c (Queue_init c
       (s\<lparr>znand := fst (nand_init junk (zNBANK c) (zNBLK c) (zNPAGE c) (znand s))\<rparr>))"

section \<open>Addresses\<close>

definition lba_to_zone :: "zcfg \<Rightarrow> int \<Rightarrow> int" where "lba_to_zone c lba = lba sdiv ZONE_SIZE c"
definition zone_to_fcg :: "zcfg \<Rightarrow> int \<Rightarrow> int" where "zone_to_fcg c zone = zone smod NUM_FCG c"
definition zone_to_fbg :: "int \<Rightarrow> zns \<Rightarrow> int" where "zone_to_fbg zone s = Z2FBG s zone"
definition lba_to_bank :: "zcfg \<Rightarrow> int \<Rightarrow> int \<Rightarrow> int" where
  "lba_to_bank c fcg lba = fcg * DEG_ZONE c + (lba sdiv NSECT) smod DEG_ZONE c"
definition lba_to_page :: "zcfg \<Rightarrow> int \<Rightarrow> int" where
  "lba_to_page c lba = (lba sdiv (DEG_ZONE c * NSECT)) smod zNPAGE c"

definition zone_in :: "zcfg \<Rightarrow> int \<Rightarrow> bool" where
  "zone_in c zone \<longleftrightarrow> 0 \<le> zone \<and> zone < MAX_ZONE c"

abbreviation (input) "upd_zd zone f s \<equiv> s\<lparr>ZD := (ZD s)(zone := f (ZD s zone))\<rparr>"

section \<open>Writing\<close>

definition buffer_flush :: "zcfg \<Rightarrow> int \<Rightarrow> zns \<Rightarrow> zns" where
  "buffer_flush c zone s =
     (let start_lba = wp (ZD s zone) - NSECT;
          bank = lba_to_bank c (zone_to_fcg c zone) start_lba;
          fbg = (if zd_state (ZD s zone) = ZONE_TLOPEN then Z2LogFBG s zone else zone_to_fbg zone s);
          page = lba_to_page c start_lba;
          s1 = s\<lparr>znand := fst (nand_write (znand s) bank fbg page (zbuffer s zone, word_of_int start_lba)),
                 zbuffer := (zbuffer s)(zone := map (\<lambda>_. 0) [0..<8])\<rparr>
      in if wp (ZD s1 zone) - slba (ZD s1 zone) = ZONE_SIZE c
         then (upd_zd zone (\<lambda>d. d\<lparr>zd_state := ZONE_FULL\<rparr>) s1)\<lparr>Open_Zone_Cnt := Open_Zone_Cnt s1 - 1\<rparr>
         else s1)"

text \<open>One sector put into the zone's buffer, which is flushed when it is full.\<close>

definition put_sector :: "zcfg \<Rightarrow> int \<Rightarrow> int \<Rightarrow> u32 \<Rightarrow> zns \<Rightarrow> zns option" where
  "put_sector c zone i v s =
     do {
       b \<leftarrow> lset (zbuffer s zone) i v;
       let s1 = upd_zd zone (\<lambda>d. d\<lparr>wp := wp d + 1\<rparr>) (s\<lparr>zbuffer := (zbuffer s)(zone := b)\<rparr>);
       Some (if wp (ZD s1 zone) smod NSECT = 0 then buffer_flush c zone s1 else s1)
     }"

definition write_sectors :: "zcfg \<Rightarrow> int \<Rightarrow> int \<Rightarrow> int \<Rightarrow> u32 list \<Rightarrow> zns \<Rightarrow> zns option" where
  "write_sectors c zone start_lba nsect data =
     for_opt [0..<nat nsect]
       (\<lambda>lba_offset s. do {
          v \<leftarrow> lget data (int lba_offset);
          put_sector c zone ((start_lba + int lba_offset) smod NSECT) v s })"

text \<open>
  The copy of the sectors at the write pointer of a threaded-log zone that are valid. The code
  stops at the end of the zone: \<open>n\<close> is what is left of it.
\<close>

fun copy_off :: "zcfg \<Rightarrow> int \<Rightarrow> int \<Rightarrow> nat \<Rightarrow> u32 list \<times> u32 \<Rightarrow> zns \<Rightarrow> zns option" where
  "copy_off c zone fbg 0 tmp s = Some s"
| "copy_off c zone fbg (Suc n) tmp s =
     (let w = wp (ZD s zone) in
      if zone_valid_map s zone (w smod ZONE_SIZE c) \<noteq> 1 then Some s
      else
        let bank = lba_to_bank c (zone_to_fcg c zone) w; page = lba_to_page c w;
            tmp' = fst (nand_read (znand s) bank fbg page tmp)
        in do {
          v \<leftarrow> lget (fst tmp') (w smod NSECT);
          s1 \<leftarrow> put_sector c zone (w smod NSECT) v s;
          copy_off c zone fbg n tmp' s1 })"

definition write_open :: "zcfg \<Rightarrow> int \<Rightarrow> int \<Rightarrow> int \<Rightarrow> u32 list \<Rightarrow> zns \<Rightarrow> (zns \<times> int) option" where
  "write_open c zone start_lba nsect data s =
     (if start_lba \<noteq> wp (ZD s zone) then Some (s, -1)
      else do { s1 \<leftarrow> write_sectors c zone start_lba nsect data s; Some (s1, 0) })"

definition zns_write ::
  "zcfg \<Rightarrow> u32 list \<times> u32 \<Rightarrow> int \<Rightarrow> int \<Rightarrow> u32 list \<Rightarrow> zns \<Rightarrow> (zns \<times> int) option" where
  "zns_write c tmp start_lba nsect data s =
     (let zone = lba_to_zone c start_lba in
      if \<not> zone_in c zone then None
      else
        let fbg = zone_to_fbg zone s; fcg = zone_to_fcg c zone in
        case zd_state (ZD s zone) of
          ZONE_EMPTY \<Rightarrow>
            if start_lba \<noteq> slba (ZD s zone) \<or> Open_Zone_Cnt s \<ge> MAX_OPEN_ZONE c then Some (s, -1)
            else
              let (s1, fbg) = Queue_Pop c fcg s;
                  s2 = s1\<lparr>Open_Zone_Cnt := Open_Zone_Cnt s1 + 1, Z2FBG := (Z2FBG s1)(zone := fbg)\<rparr>;
                  s3 = upd_zd zone (\<lambda>d. d\<lparr>zd_state := ZONE_OPEN, wp := slba d\<rparr>) s2
              in write_open c zone start_lba nsect data s3
        | ZONE_OPEN \<Rightarrow> write_open c zone start_lba nsect data s
        | ZONE_FULL \<Rightarrow> Some (s, -1)
        | ZONE_TLOPEN \<Rightarrow>
            if start_lba \<noteq> wp (ZD s zone) then Some (s, -1)
            else if \<exists>lba_offset \<in> set [0..<nat nsect].
                zone_valid_map s zone ((start_lba + int lba_offset) smod ZONE_SIZE c) = 1
            then Some (s, -1)
            else do {
              s1 \<leftarrow> write_sectors c zone start_lba nsect data s;
              s2 \<leftarrow> copy_off c zone fbg (nat (slba (ZD s1 zone) + ZONE_SIZE c - wp (ZD s1 zone))) tmp s1;
              Some (s2, 0) })"

section \<open>Reading\<close>

text \<open>
  The reader's locals: the offset of \<open>data\<close> in the caller's buffer, the counter \<open>cpy_cnt\<close>,
  \<open>lba_offset\<close>, the local page and the buffer.
\<close>

record rd =
  r_data :: int
  r_cnt :: int
  r_off :: int
  r_tmp :: "u32 list \<times> u32"
  r_buf :: "u32 list"

text \<open>
  One iteration of the loop for an open zone; \<open>Inl\<close> is a \<open>return\<close> out of the function. The
  inner loop over the buffered sectors is a recursion on what is left of it.
\<close>

fun read_buffered :: "u32 list \<Rightarrow> int \<Rightarrow> int \<Rightarrow> nat \<Rightarrow> rd \<Rightarrow> (rd + rd) option" where
  "read_buffered zb nsect i 0 r = Some (Inr r)"
| "read_buffered zb nsect i (Suc n) r =
     (if r_cnt r = nsect then Some (Inl r)
      else do {
        v \<leftarrow> lget zb i;
        b \<leftarrow> lset (r_buf r) (r_data r) v;
        read_buffered zb nsect (i + 1) n
          (r\<lparr>r_buf := b, r_data := r_data r + 1, r_cnt := r_cnt r + 1, r_off := r_off r + 1\<rparr>) })"

definition read_open_step :: "zcfg \<Rightarrow> zns \<Rightarrow> int \<Rightarrow> int \<Rightarrow> int \<Rightarrow> rd \<Rightarrow> (rd + rd) option" where
  "read_open_step c s zone start_lba nsect r =
     (let lba = start_lba + r_off r; w = wp (ZD s zone) in
      if lba < w then
        (if lba + NSECT - 1 < w then
           let bank = lba_to_bank c (zone_to_fcg c zone) lba; page = lba_to_page c lba;
               tmp = fst (nand_read (znand s) bank (zone_to_fbg zone s) page (r_tmp r))
           in do {
             b \<leftarrow> copy_to (r_buf r) (r_data r) (fst tmp) 0 NSECT;
             Some (Inr (r\<lparr>r_tmp := tmp, r_buf := b, r_data := r_data r + NSECT,
                           r_cnt := r_cnt r + NSECT, r_off := r_off r + NSECT\<rparr>)) }
         else read_buffered (zbuffer s zone) nsect (lba smod NSECT) (nat (w smod NSECT - lba smod NSECT)) r)
      else do {
        let n = (if r_cnt r < nsect then nsect - r_cnt r else 0);
        b \<leftarrow> fill_to (r_buf r) (r_data r) 0xFFFFFFFF n;
        Some (Inr (r\<lparr>r_buf := b, r_data := r_data r + n, r_cnt := r_cnt r + n, r_off := r_off r + n\<rparr>)) })"

partial_function (option) read_open_loop ::
  "zcfg \<Rightarrow> zns \<Rightarrow> int \<Rightarrow> int \<Rightarrow> int \<Rightarrow> rd \<Rightarrow> rd option" where
  "read_open_loop c s zone start_lba nsect r =
     (if r_off r < nsect then
        Option.bind (read_open_step c s zone start_lba nsect r)
          (\<lambda>x. case x of Inl r' \<Rightarrow> Some r' | Inr r' \<Rightarrow> read_open_loop c s zone start_lba nsect r')
      else Some r)"

text \<open>The loop for a full zone: one page each time.\<close>

fun read_page_sectors :: "int \<Rightarrow> u32 list \<Rightarrow> nat \<Rightarrow> rd \<Rightarrow> (rd + rd) option" where
  "read_page_sectors nsect tmp 0 r = Some (Inr r)"
| "read_page_sectors nsect tmp (Suc n) r =
     (if r_cnt r = nsect then Some (Inl r)
      else do {
        v \<leftarrow> lget tmp (NSECT - int (Suc n));
        b \<leftarrow> lset (r_buf r) (r_data r + (NSECT - int (Suc n))) v;
        read_page_sectors nsect tmp n (r\<lparr>r_buf := b, r_cnt := r_cnt r + 1\<rparr>) })"

fun read_full_loop :: "zcfg \<Rightarrow> zns \<Rightarrow> int \<Rightarrow> int \<Rightarrow> int \<Rightarrow> nat \<Rightarrow> rd \<Rightarrow> rd option" where
  "read_full_loop c s zone start_lba nsect 0 r = (if r_off r < nsect then None else Some r)"
| "read_full_loop c s zone start_lba nsect (Suc n) r =
     (if r_off r < nsect then
        let lba = start_lba + r_off r;
            bank = lba_to_bank c (zone_to_fcg c zone) lba; page = lba_to_page c lba;
            tmp = fst (nand_read (znand s) bank (zone_to_fbg zone s) page (r_tmp r))
        in do {
          x \<leftarrow> read_page_sectors nsect (fst tmp) 8 (r\<lparr>r_tmp := tmp\<rparr>);
          (case x of Inl r' \<Rightarrow> Some r'
           | Inr r' \<Rightarrow> read_full_loop c s zone start_lba nsect n
                        (r'\<lparr>r_off := r_off r' + NSECT, r_data := r_data r' + NSECT\<rparr>)) }
      else Some r)"

text \<open>One sector read from a threaded-log zone.\<close>

definition read_tl_sector :: "zcfg \<Rightarrow> zns \<Rightarrow> int \<Rightarrow> int \<Rightarrow> nat \<Rightarrow> rd \<Rightarrow> rd option" where
  "read_tl_sector c s zone start_lba lba_offset r =
     (let lba = start_lba + int lba_offset;
          bank = lba_to_bank c (zone_to_fcg c zone) lba; page = lba_to_page c lba;
          store = (\<lambda>src r. do {
            v \<leftarrow> lget src (lba smod NSECT);
            b \<leftarrow> lset (r_buf r) (r_data r) v;
            Some (r\<lparr>r_buf := b, r_data := r_data r + 1\<rparr>) })
      in
        if lba < wp (ZD s zone) then
          (if lba sdiv NSECT * NSECT + NSECT - 1 < wp (ZD s zone) then
             let tmp = fst (nand_read (znand s) bank (zone_to_fbg zone s) page (r_tmp r))
             in store (fst tmp) (r\<lparr>r_tmp := tmp\<rparr>)
           else store (zbuffer s zone) r)
        else if zone_valid_map s zone (lba smod ZONE_SIZE c) = 1 then
          let tmp = fst (nand_read (znand s) bank (Z2LogFBG s zone) page (r_tmp r))
          in store (fst tmp) (r\<lparr>r_tmp := tmp\<rparr>)
        else do {
          b \<leftarrow> lset (r_buf r) (r_data r) 0xFFFFFFFF;
          Some (r\<lparr>r_buf := b\<rparr>) })"

definition zns_read ::
  "zcfg \<Rightarrow> u32 list \<times> u32 \<Rightarrow> int \<Rightarrow> int \<Rightarrow> u32 list \<Rightarrow> zns \<Rightarrow> u32 list option" where
  "zns_read c tmp start_lba nsect buf s =
     (let zone = lba_to_zone c start_lba;
          r = \<lparr>r_data = 0, r_cnt = 0, r_off = 0, r_tmp = tmp, r_buf = buf\<rparr> in
      if \<not> zone_in c zone then None
      else case zd_state (ZD s zone) of
          ZONE_EMPTY \<Rightarrow> fill_to buf 0 0xFFFFFFFF nsect
        | ZONE_OPEN \<Rightarrow> map_option r_buf (read_open_loop c s zone start_lba nsect r)
        | ZONE_FULL \<Rightarrow> map_option r_buf (read_full_loop c s zone start_lba nsect (nat nsect) r)
        | ZONE_TLOPEN \<Rightarrow> map_option r_buf
            (for_opt [0..<nat nsect] (read_tl_sector c s zone start_lba) r))"

section \<open>Reset, descriptors\<close>

definition erase_fbg :: "zcfg \<Rightarrow> int \<Rightarrow> int \<Rightarrow> zns \<Rightarrow> zns" where
  "erase_fbg c fcg fbg s =
     fold (\<lambda>i s. s\<lparr>znand := fst (nand_erase (znand s) (fcg * DEG_ZONE c + int i) fbg)\<rparr>)
       [0..<nat (DEG_ZONE c)] s"

definition zns_reset :: "zcfg \<Rightarrow> int \<Rightarrow> zns \<Rightarrow> (zns \<times> int) option" where
  "zns_reset c lba s =
     (let zone = lba_to_zone c lba in
      if \<not> zone_in c zone then None
      else if zd_state (ZD s zone) \<noteq> ZONE_FULL then Some (s, -1)
      else
        let s1 = upd_zd zone (\<lambda>d. d\<lparr>wp := slba d, zd_state := ZONE_EMPTY\<rparr>) s;
            fcg = zone_to_fcg c zone;
            s2 = erase_fbg c fcg (Z2FBG s1 zone) (fst (Queue_Push c fcg (Z2FBG s1 zone) s1));
            s3 = s2\<lparr>Z2FBG := (Z2FBG s2)(zone := -1)\<rparr>;
            s4 = (if Z2LogFBG s3 zone \<noteq> -1 then
                    let t = erase_fbg c fcg (Z2LogFBG s3 zone)
                              (fst (Queue_Push c fcg (Z2LogFBG s3 zone) s3))
                    in t\<lparr>Z2LogFBG := (Z2LogFBG t)(zone := -1)\<rparr>
                  else s3)
        in Some (s4\<lparr>zone_valid_map := (zone_valid_map s4)
                   (zone := (\<lambda>i. if 0 \<le> i \<and> i < ZONE_SIZE c then 0 else zone_valid_map s4 zone i))\<rparr>, 0))"

definition zns_get_desc :: "zcfg \<Rightarrow> int \<Rightarrow> int \<Rightarrow> zone_desc list \<Rightarrow> zns \<Rightarrow> zone_desc list option" where
  "zns_get_desc c lba nzone descs s =
     for_opt [0..<nat nzone]
       (\<lambda>zone_offset ds.
          let zone = lba_to_zone c lba + int zone_offset in
          if zone_in c zone then lset ds (int zone_offset) (ZD s zone) else None) descs"

section \<open>Copying zones\<close>

definition zns_izc ::
  "zcfg \<Rightarrow> u32 list \<times> u32 \<Rightarrow> int \<Rightarrow> int \<Rightarrow> int \<Rightarrow> int list \<Rightarrow> zns \<Rightarrow> (zns \<times> int) option" where
  "zns_izc c tmp src_zone dest_zone copy_len copy_list s =
     (if \<not> (zone_in c src_zone \<and> zone_in c dest_zone) then None
      else if Open_Zone_Cnt s = MAX_OPEN_ZONE c \<or> zd_state (ZD s src_zone) \<noteq> ZONE_FULL \<or>
              zd_state (ZD s dest_zone) \<noteq> ZONE_EMPTY \<or> src_zone = dest_zone then Some (s, -1)
      else
        let fcg = zone_to_fcg c src_zone; fbg = zone_to_fbg src_zone s;
            (s1, dest_fbg) = Queue_Pop c (zone_to_fcg c dest_zone) s;
            s2 = s1\<lparr>Open_Zone_Cnt := Open_Zone_Cnt s1 + 1, Z2FBG := (Z2FBG s1)(dest_zone := dest_fbg),
                     Z2LogFBG := (Z2LogFBG s1)(dest_zone := -1)\<rparr>;
            s3 = upd_zd dest_zone (\<lambda>d. d\<lparr>zd_state := ZONE_OPEN, wp := slba d\<rparr>) s2
        in do {
          (s4, _) \<leftarrow> for_opt [0..<nat copy_len]
            (\<lambda>cpy_cnt (s, tmp). do {
               k \<leftarrow> lget copy_list (int cpy_cnt);
               let lba = src_zone * ZONE_SIZE c + k;
               let tmp' = fst (nand_read (znand s) (lba_to_bank c fcg lba) fbg (lba_to_page c lba) tmp);
               v \<leftarrow> lget (fst tmp') (k smod NSECT);
               s' \<leftarrow> put_sector c dest_zone (wp (ZD s dest_zone) smod NSECT) v s;
               Some (s', tmp') }) (s3, tmp);
          (s5, _) \<leftarrow> zns_reset c (src_zone * ZONE_SIZE c) s4;
          Some (s5, 0) })"

text \<open>The copy of the leading valid sectors when a zone is reopened as a threaded log, from sector \<open>i\<close>.\<close>

fun tl_copy :: "zcfg \<Rightarrow> int \<Rightarrow> int \<Rightarrow> int \<Rightarrow> nat \<Rightarrow> u32 list \<times> u32 \<Rightarrow> zns \<Rightarrow> zns option" where
  "tl_copy c zone src_fbg i 0 tmp s = Some s"
| "tl_copy c zone src_fbg i (Suc n) tmp s =
     (if zone_valid_map s zone i = 0 then Some s
      else
        let fcg = zone_to_fcg c zone; lba = zone * ZONE_SIZE c + i;
            tmp' = fst (nand_read (znand s) (lba_to_bank c fcg lba) src_fbg (lba_to_page c lba) tmp)
        in do {
          v \<leftarrow> lget (fst tmp') (i smod NSECT);
          b \<leftarrow> lset (zbuffer s zone) (wp (ZD s zone) smod NSECT) v;
          let s1 = upd_zd zone (\<lambda>d. d\<lparr>wp := wp d + 1\<rparr>) (s\<lparr>zbuffer := (zbuffer s)(zone := b)\<rparr>);
          let s2 = (if wp (ZD s1 zone) smod NSECT = 0 then
                      let t = buffer_flush c zone s1 in
                      if zd_state (ZD t zone) = ZONE_FULL then
                        let t1 = fst (Queue_Push c fcg (Z2LogFBG t zone) t);
                            t2 = t1\<lparr>Open_Zone_Cnt := Open_Zone_Cnt t1 - 1\<rparr>;
                            t3 = erase_fbg c fcg (Z2LogFBG t2 zone) t2
                        in t3\<lparr>Z2LogFBG := (Z2LogFBG t3)(zone := -1),
                              zone_valid_map := (zone_valid_map t3)(zone := (\<lambda>i.
                                if 0 \<le> i \<and> i < ZONE_SIZE c then 0 else zone_valid_map t3 zone i))\<rparr>
                      else t
                    else s1);
          tl_copy c zone src_fbg (i + 1) n tmp' s2 })"

definition zns_tl_open ::
  "zcfg \<Rightarrow> u32 list \<times> u32 \<Rightarrow> int \<Rightarrow> (int \<Rightarrow> u8) \<Rightarrow> zns \<Rightarrow> (zns \<times> int) option" where
  "zns_tl_open c tmp zone valid_arr s =
     (if \<not> zone_in c zone then None
      else if Open_Zone_Cnt s = MAX_OPEN_ZONE c \<or> zd_state (ZD s zone) \<noteq> ZONE_FULL then Some (s, -1)
      else
        let fcg = zone_to_fcg c zone; src_fbg = zone_to_fbg zone s;
            (s1, log_fbg) = Queue_Pop c fcg s;
            s2 = s1\<lparr>Open_Zone_Cnt := Open_Zone_Cnt s1 + 1, Z2LogFBG := (Z2LogFBG s1)(zone := log_fbg)\<rparr>;
            s3 = upd_zd zone (\<lambda>d. d\<lparr>zd_state := ZONE_TLOPEN, wp := slba d\<rparr>) s2;
            s4 = s3\<lparr>zone_valid_map := (zone_valid_map s3)(zone := (\<lambda>i.
                   if 0 \<le> i \<and> i < ZONE_SIZE c then uint (valid_arr i) else zone_valid_map s3 zone i))\<rparr>
        in do {
          s5 \<leftarrow> tl_copy c zone src_fbg 0 (nat (ZONE_SIZE c)) tmp s4;
          Some (s5, 0) })"

section \<open>The queues are first-in first-out\<close>

text \<open>
  What the zones rely on: a bounded queue for each flash channel group. \<open>Queue_Push\<close> and
  \<open>Queue_Pop\<close> provide it with a ring buffer.
\<close>

locale fifo =
  fixes ok :: "'s \<Rightarrow> int \<Rightarrow> bool"
    and contents :: "'s \<Rightarrow> int \<Rightarrow> 'a list"
    and cap :: nat
    and push :: "int \<Rightarrow> 'a \<Rightarrow> 's \<Rightarrow> 's \<times> int"
    and pop :: "int \<Rightarrow> 's \<Rightarrow> 's \<times> 'a"
    and none :: 'a
  assumes push_room: "ok s q \<Longrightarrow> length (contents s q) < cap \<Longrightarrow>
      snd (push q x s) = 1 \<and> ok (fst (push q x s)) q \<and> contents (fst (push q x s)) q = contents s q @ [x]"
    and push_full: "ok s q \<Longrightarrow> length (contents s q) = cap \<Longrightarrow> push q x s = (s, -1)"
    and pop_cons: "ok s q \<Longrightarrow> contents s q = x # xs \<Longrightarrow>
      snd (pop q s) = x \<and> ok (fst (pop q s)) q \<and> contents (fst (pop q s)) q = xs"
    and pop_empty: "ok s q \<Longrightarrow> contents s q = [] \<Longrightarrow> pop q s = (s, none)"
    and push_frame: "q' \<noteq> q \<Longrightarrow> ok (fst (push q x s)) q' = ok s q' \<and> contents (fst (push q x s)) q' = contents s q'"
    and pop_frame: "q' \<noteq> q \<Longrightarrow> ok (fst (pop q s)) q' = ok s q' \<and> contents (fst (pop q s)) q' = contents s q'"
begin

lemma pushes:
  "ok s q \<Longrightarrow> length (contents s q) + length xs \<le> cap \<Longrightarrow>
     ok (fold (\<lambda>x s. fst (push q x s)) xs s) q \<and>
     contents (fold (\<lambda>x s. fst (push q x s)) xs s) q = contents s q @ xs"
proof (induction xs arbitrary: s)
  case (Cons x xs)
  have "snd (push q x s) = 1 \<and> ok (fst (push q x s)) q \<and> contents (fst (push q x s)) q = contents s q @ [x]"
    by (rule push_room) (use Cons.prems in auto)
  then show ?case using Cons.IH [of "fst (push q x s)"] Cons.prems by simp
qed simp

lemma pushes_frame:
  "q' \<noteq> q \<Longrightarrow> ok (fold (\<lambda>x s. fst (push q x s)) xs s) q' = ok s q' \<and>
     contents (fold (\<lambda>x s. fst (push q x s)) xs s) q' = contents s q'"
  by (induction xs arbitrary: s) (simp_all add: push_frame)

text \<open>What was pushed first is popped first, and popping it makes room again.\<close>

lemma push_pop:
  assumes "ok s q" "length (contents s q) < cap"
  shows "snd (pop q (fst (push q x s))) = hd (contents s q @ [x])"
    "contents (fst (pop q (fst (push q x s)))) q = tl (contents s q @ [x])"
proof -
  have p: "ok (fst (push q x s)) q" "contents (fst (push q x s)) q = contents s q @ [x]"
    using push_room [OF assms, of x] by auto
  obtain y ys where y: "contents s q @ [x] = y # ys" by (cases "contents s q @ [x]") auto
  from pop_cons [OF p(1), of y ys] p(2) y
  show "snd (pop q (fst (push q x s))) = hd (contents s q @ [x])"
    "contents (fst (pop q (fst (push q x s)))) q = tl (contents s q @ [x])" by simp_all
qed

end

definition q_ok :: "zcfg \<Rightarrow> zns \<Rightarrow> int \<Rightarrow> bool" where
  "q_ok c s q \<longleftrightarrow> 0 < zNBLK c \<and> 0 \<le> Queue_cnt s q \<and> Queue_cnt s q \<le> zNBLK c \<and>
     0 \<le> Queue_Head s q \<and> Queue_Head s q < zNBLK c \<and>
     Queue_Tail s q = (Queue_Head s q + Queue_cnt s q) mod zNBLK c"

definition q_list :: "zcfg \<Rightarrow> zns \<Rightarrow> int \<Rightarrow> int list" where
  "q_list c s q =
     map (\<lambda>i. FBG_Queue s q ((Queue_Head s q + int i) mod zNBLK c)) [0..<nat (Queue_cnt s q)]"

lemma mod_wrap: "0 \<le> (x :: int) \<Longrightarrow> x < n \<Longrightarrow> (if x + 1 = n then 0 else x + 1) = (x + 1) mod n"
  by auto

lemma ring_slots:
  assumes "0 \<le> (i :: int)" "i < k" "k < n"
  shows "(h + i) mod n \<noteq> (h + k) mod n"
proof
  assume "(h + i) mod n = (h + k) mod n"
  then have "n dvd k - i" by (metis add_diff_cancel_left mod_eq_dvd_iff)
  with assms show False using zdvd_not_zless [of "k - i" n] by linarith
qed

lemma Queue_Push_room:
  assumes ok: "q_ok c s q" and room: "length (q_list c s q) < nat (zNBLK c)"
  shows "snd (Queue_Push c q x s) = 1 \<and> q_ok c (fst (Queue_Push c q x s)) q \<and>
    q_list c (fst (Queue_Push c q x s)) q = q_list c s q @ [x]"
proof -
  let ?n = "zNBLK c" and ?h = "Queue_Head s q" and ?k = "Queue_cnt s q"
  have k: "0 \<le> ?k" "?k < ?n" and t: "Queue_Tail s q = (?h + ?k) mod ?n" and n: "0 < ?n"
    using ok room by (auto simp: q_ok_def q_list_def)
  have t': "0 \<le> Queue_Tail s q" "Queue_Tail s q < ?n" using t n by auto
  have run: "Queue_Push c q x s = (s\<lparr>FBG_Queue := (FBG_Queue s)(q := (FBG_Queue s q)(Queue_Tail s q := x)),
      Queue_Tail := (Queue_Tail s)(q := (Queue_Tail s q + 1) mod ?n),
      Queue_cnt := (Queue_cnt s)(q := ?k + 1)\<rparr>, 1)"
    using k mod_wrap [OF t'] by (simp add: Queue_Push_def Queue_isFull_def)
  have "nat (?k + 1) = Suc (nat ?k)" using k by simp
  moreover have "(?h + int i) mod ?n \<noteq> (?h + ?k) mod ?n" if "i < nat ?k" for i
    using ring_slots [of "int i" ?k ?n ?h] that k by auto
  ultimately have "q_list c (fst (Queue_Push c q x s)) q = q_list c s q @ [x]"
    using k by (simp add: run q_list_def t)
  moreover have "q_ok c (fst (Queue_Push c q x s)) q"
    using ok k by (auto simp: run q_ok_def t mod_simps add.assoc)
  ultimately show ?thesis by (simp add: run)
qed

lemma Queue_Pop_cons:
  assumes ok: "q_ok c s q" and x: "q_list c s q = x # xs"
  shows "snd (Queue_Pop c q s) = x \<and> q_ok c (fst (Queue_Pop c q s)) q \<and> q_list c (fst (Queue_Pop c q s)) q = xs"
proof -
  let ?n = "zNBLK c" and ?h = "Queue_Head s q" and ?k = "Queue_cnt s q"
  have n: "0 < ?n" "0 \<le> ?h" "?h < ?n" using ok by (auto simp: q_ok_def)
  have "nat ?k = length (x # xs)" unfolding x [symmetric] by (simp add: q_list_def)
  then have k: "0 < ?k" "nat ?k = Suc (nat (?k - 1))" by auto
  have run: "Queue_Pop c q s = (s\<lparr>Queue_Head := (Queue_Head s)(q := (?h + 1) mod ?n),
      Queue_cnt := (Queue_cnt s)(q := ?k - 1)\<rparr>, FBG_Queue s q ?h)"
    using k(1) mod_wrap [OF n(2,3)] by (simp add: Queue_Pop_def Queue_isEmpty_def)
  have "q_list c s q = FBG_Queue s q (?h mod ?n) #
      map (\<lambda>i. FBG_Queue s q ((?h + 1 + int i) mod ?n)) [0..<nat (?k - 1)]"
    unfolding q_list_def k(2) upt_conv_Cons [OF zero_less_Suc] map_Suc_upt [symmetric]
    by (simp add: comp_def add.assoc)
  then have xs: "x = FBG_Queue s q ?h" "xs = map (\<lambda>i. FBG_Queue s q ((?h + 1 + int i) mod ?n)) [0..<nat (?k - 1)]"
    using x n by simp_all
  have "q_list c (fst (Queue_Pop c q s)) q = xs"
    by (simp add: run q_list_def xs(2) mod_simps)
  moreover have "q_ok c (fst (Queue_Pop c q s)) q"
    using ok k(1) n by (auto simp: run q_ok_def mod_simps)
  ultimately show ?thesis by (simp add: run xs(1))
qed

interpretation zq: fifo "q_ok c" "q_list c" "nat (zNBLK c)" "Queue_Push c" "Queue_Pop c" "-1" for c
proof unfold_locales
  fix s q x
  show "q_ok c s q \<Longrightarrow> length (q_list c s q) < nat (zNBLK c) \<Longrightarrow>
      snd (Queue_Push c q x s) = 1 \<and> q_ok c (fst (Queue_Push c q x s)) q \<and>
      q_list c (fst (Queue_Push c q x s)) q = q_list c s q @ [x]"
    by (rule Queue_Push_room)
  show "q_ok c s q \<Longrightarrow> length (q_list c s q) = nat (zNBLK c) \<Longrightarrow> Queue_Push c q x s = (s, - 1)"
    by (auto simp: q_ok_def q_list_def Queue_Push_def Queue_isFull_def)
  show "q_ok c s q \<Longrightarrow> q_list c s q = [] \<Longrightarrow> Queue_Pop c q s = (s, - 1)"
    by (auto simp: q_ok_def q_list_def Queue_Pop_def Queue_isEmpty_def)
next
  fix s q x xs
  show "q_ok c s q \<Longrightarrow> q_list c s q = x # xs \<Longrightarrow>
      snd (Queue_Pop c q s) = x \<and> q_ok c (fst (Queue_Pop c q s)) q \<and> q_list c (fst (Queue_Pop c q s)) q = xs"
    by (rule Queue_Pop_cons)
next
  fix q' q s x
  assume "(q' :: int) \<noteq> q"
  then show "q_ok c (fst (Queue_Push c q x s)) q' = q_ok c s q' \<and>
      q_list c (fst (Queue_Push c q x s)) q' = q_list c s q'"
    "q_ok c (fst (Queue_Pop c q s)) q' = q_ok c s q' \<and> q_list c (fst (Queue_Pop c q s)) q' = q_list c s q'"
    by (simp_all add: Queue_Push_def Queue_Pop_def q_ok_def q_list_def)
qed


section \<open>Initialisation\<close>

lemma Queue_init_contents:
  assumes c: "0 < zNBLK c" and q: "0 \<le> q" "q < NUM_FCG c"
  shows "q_ok c (Queue_init c s) q \<and> q_list c (Queue_init c s) q = map int [0..<nat (zNBLK c)]"
proof -
  let ?fill = "\<lambda>fcg s. fold (\<lambda>fbg s. fst (Queue_Push c (int fcg) (int fbg) s)) [0..<nat (zNBLK c)] s"
  let ?xs = "map int [0..<nat (zNBLK c)]"
  have fill: "?fill fcg s = fold (\<lambda>x s. fst (Queue_Push c (int fcg) x s)) ?xs s" for fcg s
    by (simp add: fold_map o_def)
  let ?s0 = "s\<lparr>Queue_cnt := (\<lambda>_. 0), Queue_Head := (\<lambda>_. 0), Queue_Tail := (\<lambda>_. 0)\<rparr>"
  have e: "q_ok c ?s0 j" "q_list c ?s0 j = []" for j using c by (simp_all add: q_ok_def q_list_def)
  let ?J = "\<lambda>n t. \<forall>j. q_ok c t j \<and> q_list c t j = (if 0 \<le> j \<and> j < int n then ?xs else [])"
  have "?J (nat (NUM_FCG c)) (fold ?fill [0..<nat (NUM_FCG c)] ?s0)"
  proof (rule fold_rule [where J = ?J])
    show "?J 0 ?s0" using e by simp
    show "?J (Suc n) (?fill n t)" if J: "?J n t" for n t
    proof
      fix j
      show "q_ok c (?fill n t) j \<and> q_list c (?fill n t) j = (if 0 \<le> j \<and> j < int (Suc n) then ?xs else [])"
      proof (cases "j = int n")
        case True
        have "q_ok c t (int n)" "q_list c t (int n) = []" using J by auto
        then show ?thesis
          using zq.pushes [of c t "int n" ?xs] True unfolding fill by simp
      next
        case False
        then show ?thesis using zq.pushes_frame [of j "int n" c ?xs t] J unfolding fill by auto
      qed
    qed
  qed
  then show ?thesis using q by (simp add: Queue_init_def)
qed

section \<open>A read that never ends\<close>

text \<open>
  The loop for an open zone at a sector below the write pointer in the last, not yet full, page,
  when the page's part in the buffer ends before that sector's place: nothing is copied, and no
  variable changes.
\<close>

definition stuck :: "zcfg \<Rightarrow> zns \<Rightarrow> int \<Rightarrow> int \<Rightarrow> int \<Rightarrow> rd \<Rightarrow> bool" where
  "stuck c s zone start_lba nsect r \<longleftrightarrow>
     (let lba = start_lba + r_off r; w = wp (ZD s zone) in
      r_off r < nsect \<and> lba < w \<and> w \<le> lba + NSECT - 1 \<and> w smod NSECT \<le> lba smod NSECT)"

lemma stuck_step:
  "stuck c s zone start_lba nsect r \<Longrightarrow> read_open_step c s zone start_lba nsect r = Some (Inr r)"
  by (simp add: stuck_def read_open_step_def Let_def)

text \<open>
  The first \<open>k\<close> iterations of the loop: \<open>Inr\<close> while it goes on, \<open>Inl\<close> when it has ended, \<open>None\<close> for an access
  outside an array.
\<close>

fun read_open_iter :: "zcfg \<Rightarrow> zns \<Rightarrow> int \<Rightarrow> int \<Rightarrow> int \<Rightarrow> nat \<Rightarrow> rd \<Rightarrow> (rd + rd) option" where
  "read_open_iter c s zone start_lba nsect 0 r = Some (Inr r)"
| "read_open_iter c s zone start_lba nsect (Suc k) r =
     (if r_off r < nsect then do {
        x \<leftarrow> read_open_step c s zone start_lba nsect r;
        (case x of Inl r' \<Rightarrow> Some (Inl r') | Inr r' \<Rightarrow> read_open_iter c s zone start_lba nsect k r') }
      else Some (Inl r))"

lemma read_open_iter_ends:
  "read_open_iter c s zone start_lba nsect k r = Some (Inl r') \<Longrightarrow> read_open_loop c s zone start_lba nsect r = Some r'"
proof (induction k arbitrary: r)
  case (Suc k)
  then show ?case
    by (subst read_open_loop.simps) (auto split: if_splits bind_splits sum.splits)
qed simp

lemma stuck_iter:
  assumes "stuck c s zone start_lba nsect r"
  shows "read_open_iter c s zone start_lba nsect k r = Some (Inr r)"
proof (induction k)
  case (Suc k)
  have "r_off r < nsect" using assms by (simp add: stuck_def Let_def)
  with Suc stuck_step [OF assms] show ?case by simp
qed simp

lemma stuck_loops:
  assumes "stuck c s zone start_lba nsect r"
  shows "read_open_loop c s zone start_lba nsect r = None"
proof -
  have "\<not> stuck c s zone start_lba nsect r" if "read_open_loop c s zone start_lba nsect r = Some y" for y
    using that
  proof (rule read_open_loop.raw_induct
      [where P = "\<lambda>c s zone start_lba nsect r y. \<not> stuck c s zone start_lba nsect r", rotated])
    fix f c s zone start_lba nsect r y
    assume IH: "\<And>c s zone start_lba nsect r y. f c s zone start_lba nsect r = Some y
        \<Longrightarrow> \<not> stuck c s zone start_lba nsect r"
      and body: "(if r_off r < nsect then
        Option.bind (read_open_step c s zone start_lba nsect r)
          (\<lambda>x. case x of Inl r' \<Rightarrow> Some r' | Inr r' \<Rightarrow> f c s zone start_lba nsect r')
        else Some r) = Some y"
    show "\<not> stuck c s zone start_lba nsect r"
    proof
      assume st: "stuck c s zone start_lba nsect r"
      then have "r_off r < nsect" by (simp add: stuck_def Let_def)
      with body stuck_step [OF st] have "f c s zone start_lba nsect r = Some y" by simp
      with IH st show False by blast
    qed
  qed
  then show ?thesis using assms by (cases "read_open_loop c s zone start_lba nsect r") auto
qed

end
