(* ===== verification/ZnsLog.thy ===== *)
theory ZnsLog
  imports Zns
begin

text \<open>
  A zone as an append-only log. An open or full zone stands for the list of the sectors written
  to it since it was opened: the full pages are spread over the banks of the zone's channel
  group, page \<open>p\<close> in bank \<open>p mod DEG_ZONE\<close>, the rest is in the zone's buffer. The sequential write
  of \<open>zns_write\<close> appends to that list.
\<close>

section \<open>Pages of a zone and their banks\<close>

definition wf_zcfg :: "zcfg \<Rightarrow> bool" where
  "wf_zcfg c \<longleftrightarrow> 0 < DEG_ZONE c \<and> DEG_ZONE c dvd zNBANK c \<and> 0 < zNBANK c \<and> 0 < zNPAGE c \<and>
     0 \<le> MAX_OPEN_ZONE c \<and> MAX_OPEN_ZONE c < zNBLK c \<and> zNBANK c * zNBLK c * zNPAGE c * NSECT + NSECT \<le> 2 ^ 31"

text \<open>
  The last conjunct is what the \<open>int\<close>s of the code need: every sector number of the device, the end of the last
  zone and the sum of a sector number and a page fit, see lemma \<open>sectors_fit\<close> below.
\<close>

text \<open>How many of the first \<open>k\<close> pages of a zone are in its bank \<open>d\<close>, of \<open>D\<close> banks.\<close>

definition pages_in :: "nat \<Rightarrow> nat \<Rightarrow> nat \<Rightarrow> nat" where
  "pages_in D d k = (k + (D - 1 - d)) div D"

lemma pages_in_next:
  assumes "0 < D"
  shows "pages_in D (k mod D) k = k div D"
proof -
  have "k + (D - 1 - k mod D) = D * (k div D) + (D - 1)"
    using assms mod_less_divisor [OF assms, of k] mult_div_mod_eq [of D k] by linarith
  then show ?thesis unfolding pages_in_def by (intro div_nat_eqI) (use assms in auto)
qed

lemma pages_in_Suc:
  assumes "d < D"
  shows "pages_in D d (Suc k) = (if d = k mod D then Suc (pages_in D d k) else pages_in D d k)"
proof -
  let ?x = "k + (D - 1 - d)"
  have D: "0 < D" using assms by simp
  have "Suc ?x div D = (if Suc ?x mod D = 0 then Suc (?x div D) else ?x div D)"
    by (rule div_Suc)
  moreover have "Suc ?x mod D = 0 \<longleftrightarrow> d = k mod D"
  proof -
    have "Suc ?x = k + (D - d)" using assms by simp
    then have "Suc ?x mod D = 0 \<longleftrightarrow> (k mod D + (D - d)) mod D = 0" by (simp only: mod_add_left_eq)
    also have "\<dots> \<longleftrightarrow> d = k mod D"
    proof -
      have "k mod D < D" using D by simp
      with assms show ?thesis
        by (cases "d \<le> k mod D") (auto simp: le_mod_geq mod_less)
    qed
    finally show ?thesis .
  qed
  ultimately show ?thesis by (simp add: pages_in_def)
qed

section \<open>The abstraction\<close>

abbreviation deg :: "zcfg \<Rightarrow> nat" where "deg c \<equiv> nat (DEG_ZONE c)"

definition zsize :: "zcfg \<Rightarrow> nat" where "zsize c = nat (ZONE_SIZE c)"

definition zpage :: "zcfg \<Rightarrow> int \<Rightarrow> u32 list \<Rightarrow> nat \<Rightarrow> u32 list \<times> u32" where
  "zpage c zone data p = (take 8 (drop (8 * p) data), word_of_int (zone * ZONE_SIZE c + 8 * int p))"

definition zbank :: "zcfg \<Rightarrow> int \<Rightarrow> nat \<Rightarrow> int" where
  "zbank c zone d = zone mod NUM_FCG c * DEG_ZONE c + int d"

text \<open>
  \<open>zone_log c s zone data\<close>: the zone is open, or full when \<open>data\<close> fills it, and \<open>data\<close> is what its
  flash blocks and its buffer hold.
\<close>

definition zone_log :: "zcfg \<Rightarrow> zns \<Rightarrow> int \<Rightarrow> u32 list \<Rightarrow> bool" where
  "zone_log c s zone data \<longleftrightarrow>
     zone_in c zone \<and> slba (ZD s zone) = zone * ZONE_SIZE c \<and>
     wp (ZD s zone) = zone * ZONE_SIZE c + int (length data) \<and> length data \<le> zsize c \<and>
     zd_state (ZD s zone) = (if length data = zsize c then ZONE_FULL else ZONE_OPEN) \<and>
     0 \<le> Z2FBG s zone \<and> Z2FBG s zone < zNBLK c \<and> length (zbuffer s zone) = 8 \<and>
     (\<forall>j < length data mod 8. zbuffer s zone ! j = data ! (8 * (length data div 8) + j)) \<and>
     nand_ok (znand s) \<and> nand_dims (znand s) = (zNBANK c, zNBLK c, zNPAGE c) \<and>
     (\<forall>d < deg c. nand_log (znand s) (zbank c zone d) (Z2FBG s zone) =
        map (\<lambda>i. zpage c zone data (d + deg c * i)) [0..<pages_in (deg c) d (length data div 8)])"

lemma wf_zcfgD:
  assumes "wf_zcfg c"
  obtains D N P where "DEG_ZONE c = int D" "zNBANK c = int (N * D)" "zNPAGE c = int P" "0 < D" "0 < N" "0 < P"
    "NUM_FCG c = int N" "ZONE_SIZE c = int (D * P * 8)" "zsize c = D * P * 8" "deg c = D"
proof -
  obtain D where D: "DEG_ZONE c = int D" "0 < D"
    using assms by (metis wf_zcfg_def zero_less_imp_eq_int)
  obtain P where P: "zNPAGE c = int P" "0 < P"
    using assms by (metis wf_zcfg_def zero_less_imp_eq_int)
  obtain B where B: "zNBANK c = int B" "0 < B"
    using assms by (metis wf_zcfg_def zero_less_imp_eq_int)
  have "D dvd B" using assms D B by (simp add: wf_zcfg_def)
  then obtain N where N: "B = N * D" by (metis dvd_def mult.commute)
  have "NUM_FCG c = int N" using D B N by (simp add: NUM_FCG_def del: of_nat_mult)
  moreover have "ZONE_SIZE c = int (D * P * 8)" using D P by (simp add: ZONE_SIZE_def)
  moreover have "zsize c = D * P * 8" using \<open>ZONE_SIZE c = int (D * P * 8)\<close> by (simp only: zsize_def nat_int)
  ultimately show ?thesis using that D P B N by simp
qed

text \<open>The sector numbers that the code computes are in the range of \<open>int\<close>, so that no operation on them overflows.\<close>

lemma sectors_fit:
  assumes c: "wf_zcfg c" and z: "zone_in c zone" and a: "0 \<le> a" "a \<le> ZONE_SIZE c"
  shows "0 \<le> zone * ZONE_SIZE c + a" "zone * ZONE_SIZE c + a + NSECT \<le> 2 ^ 31"
proof -
  obtain D N P where D: "DEG_ZONE c = int D" "zNBANK c = int (N * D)" "zNPAGE c = int P" "0 < D" "0 < N"
    "NUM_FCG c = int N" "ZONE_SIZE c = int (D * P * 8)"
    by (rule wf_zcfgD [OF c], rule that)
  obtain Z where Z: "zone = int Z" using z by (metis zone_in_def nonneg_int_cases)
  have B: "0 < zNBLK c" "0 \<le> MAX_OPEN_ZONE c" using c by (auto simp: wf_zcfg_def)
  then obtain K where K: "zNBLK c = int K" by (metis nonneg_int_cases less_imp_le)
  have "MAX_ZONE c = int N * (zNBLK c - MAX_OPEN_ZONE c)" using D(6) by (simp add: MAX_ZONE_def NUM_FCG_def)
  also have "\<dots> \<le> int N * int K" using B K by (intro mult_left_mono) simp_all
  finally have "int Z + 1 \<le> int (N * K)" using z by (simp add: zone_in_def Z)
  then have "(Z + 1) * (D * P * 8) \<le> (N * K) * (D * P * 8)" by (intro mult_right_mono) linarith+
  then have "zone * ZONE_SIZE c + ZONE_SIZE c \<le> int ((N * K) * (D * P * 8))"
    unfolding D(7) Z by (metis of_nat_le_iff of_nat_mult of_nat_add of_nat_1 distrib_right mult_1)
  also have "\<dots> = zNBANK c * zNBLK c * zNPAGE c * 8" by (simp add: D K)
  finally show "zone * ZONE_SIZE c + a + NSECT \<le> 2 ^ 31" using c a(2) by (simp add: wf_zcfg_def)
  show "0 \<le> zone * ZONE_SIZE c + a" using a(1) by (simp add: Z D(7))
qed

text \<open>Where the code puts page \<open>p\<close> of a zone.\<close>

lemma page_address:
  assumes c: "wf_zcfg c" and z: "zone_in c zone" and p: "8 * p < zsize c"
  shows "lba_to_bank c (zone_to_fcg c zone) (zone * ZONE_SIZE c + 8 * int p) = zbank c zone (p mod deg c)"
    "lba_to_page c (zone * ZONE_SIZE c + 8 * int p) = int (p div deg c)"
    "p div deg c < nat (zNPAGE c)"
proof -
  obtain D N P where D: "DEG_ZONE c = int D" "zNPAGE c = int P" "0 < D" "0 < N" "0 < P"
    "NUM_FCG c = int N" "ZONE_SIZE c = int (D * P * 8)" "zsize c = D * P * 8" "deg c = D"
    by (rule wf_zcfgD [OF c], rule that)
  obtain Z where Z: "zone = int Z" using z by (metis zone_in_def nonneg_int_cases)
  have lba: "zone * ZONE_SIZE c + 8 * int p = int (8 * (Z * D * P + p))"
    by (simp add: D(7) Z algebra_simps)
  have pD: "p div D < P" using p D(8) by (simp add: less_mult_imp_div_less mult.commute)
  have "lba_to_bank c (zone_to_fcg c zone) (int (8 * (Z * D * P + p))) =
      int (Z mod N) * int D + int ((8 * (Z * D * P + p)) div 8 mod D)"
    unfolding lba_to_bank_def zone_to_fcg_def D(1,6) Z
    using sdiv_of_nat [of "8 * (Z * D * P + p)" 8] by (simp del: of_nat_mult of_nat_add)
  also have "(8 * (Z * D * P + p)) div 8 mod D = p mod D"
    by (simp add: mult.assoc mult.left_commute)
  finally show "lba_to_bank c (zone_to_fcg c zone) (zone * ZONE_SIZE c + 8 * int p) = zbank c zone (p mod deg c)"
    unfolding lba by (simp add: zbank_def D(1,6,9) Z zmod_int)
  have "lba_to_page c (int (8 * (Z * D * P + p))) = int ((8 * (Z * D * P + p)) div (D * 8) mod P)"
    unfolding lba_to_page_def D(1,2)
    using sdiv_of_nat [of "8 * (Z * D * P + p)" "D * 8"] by (simp del: of_nat_add)
  also have "(8 * (Z * D * P + p)) div (D * 8) = Z * P + p div D"
  proof -
    have "(8 * (Z * D * P + p)) div (D * 8) = (Z * D * P + p) div D"
      by (metis div_mult_mult1 mult.commute zero_neq_numeral)
    also have "\<dots> = (p + Z * P * D) div D" by (simp add: ac_simps)
    finally show ?thesis using D(3) by simp
  qed
  also have "(Z * P + p div D) mod P = p div D" using pD by simp
  finally show "lba_to_page c (zone * ZONE_SIZE c + 8 * int p) = int (p div deg c)"
    by (simp only: lba D(9))
  show "p div deg c < nat (zNPAGE c)" using pD D by simp
qed


section \<open>Appending a sector\<close>

lemma zpage_append:
  assumes "8 * p + 8 \<le> length data"
  shows "zpage c zone (data @ ys) p = zpage c zone data p"
  using assms by (simp add: zpage_def)

lemma pages_in_bound:
  assumes "i < pages_in D d k" "d < D"
  shows "d + D * i < k"
proof -
  have "i * D + D \<le> k + (D - 1 - d)"
    using assms less_eq_div_iff_mult_less_eq [of D "Suc i" "k + (D - 1 - d)"] by (simp add: pages_in_def)
  then show ?thesis using assms(2) by (simp add: mult.commute)
qed

text \<open>A sector that does not fill the page stays in the buffer.\<close>

lemma page_end:
  assumes "x < n div 8"
  shows "8 * x + 8 \<le> (n :: nat)"
proof -
  have "8 * Suc x \<le> 8 * (n div 8)" using assms by (intro mult_le_mono2) simp
  also have "\<dots> \<le> n" by simp
  finally show ?thesis by simp
qed

lemma smod8: "int a smod 8 = int (a mod 8)"
  using smod_of_nat [of a 8] by simp

lemma put_sector_buffered:
  assumes c: "wf_zcfg c" and z: "zone_log c s zone data" and n: "Suc (length data) mod 8 \<noteq> 0"
    and room: "length data < zsize c"
  shows "\<exists>s'. put_sector c zone (int (length data mod 8)) v s = Some s' \<and> zone_log c s' zone (data @ [v])"
proof -
  obtain D P where D: "ZONE_SIZE c = int (D * P * 8)" "zsize c = D * P * 8" by (rule wf_zcfgD [OF c], rule that)
  let ?L = "length data"
  note zl = z [unfolded zone_log_def]
  have zn: "0 \<le> zone" using zl by (simp add: zone_in_def)
  have "Suc ?L mod 8 = Suc (?L mod 8)" using n mod_Suc [of ?L 8] by (simp split: if_splits)
  moreover have "Suc ?L div 8 = ?L div 8" using n div_Suc [of ?L 8] by simp
  ultimately have m: "Suc ?L mod 8 = Suc (?L mod 8)" "Suc ?L div 8 = ?L div 8" "?L mod 8 < 8" by simp_all
  let ?b = "(zbuffer s zone)[?L mod 8 := v]"
  define s' where "s' = s\<lparr>zbuffer := (zbuffer s)(zone := ?b),
      ZD := (ZD s)(zone := (ZD s zone)\<lparr>wp := wp (ZD s zone) + 1\<rparr>)\<rparr>"
  have w: "wp (ZD s zone) + 1 = int (8 * (nat zone * (D * P)) + Suc ?L)"
    using zl zn by (simp add: D(1))
  have "(wp (ZD s zone) + 1) smod 8 = int ((8 * (nat zone * (D * P)) + Suc ?L) mod 8)"
    unfolding w by (rule smod8)
  also have "(8 * (nat zone * (D * P)) + Suc ?L) mod 8 = Suc ?L mod 8" by (rule mod_mult_self4)
  also have "int \<dots> \<noteq> 0" using n by (simp del: of_nat_Suc)
  finally have "put_sector c zone (int (?L mod 8)) v s = Some s'"
    using zl m(3) by (simp add: put_sector_def lset_def s'_def)
  moreover have "zone_log c s' zone (data @ [v])"
  proof -
    have "?L \<noteq> zsize c" "Suc ?L \<noteq> zsize c" using room n D(2) by auto
    moreover have "\<forall>j < Suc ?L mod 8. ?b ! j = (data @ [v]) ! (8 * (Suc ?L div 8) + j)"
    proof (intro allI impI)
      fix j assume "j < Suc ?L mod 8"
      then consider "j < ?L mod 8" | "j = ?L mod 8" using m by force
      then show "?b ! j = (data @ [v]) ! (8 * (Suc ?L div 8) + j)"
      proof cases
        case 1
        then have "8 * (?L div 8) + j < ?L" using mult_div_mod_eq [of 8 ?L] by linarith
        with 1 zl m show ?thesis by (simp add: nth_append)
      next
        case 2
        then have "8 * (?L div 8) + j = ?L" by simp
        with 2 zl m show ?thesis by (simp add: nth_append)
      qed
    qed
    moreover have "map (\<lambda>i. zpage c zone (data @ [v]) (d + deg c * i)) [0..<pages_in (deg c) d (?L div 8)] =
        map (\<lambda>i. zpage c zone data (d + deg c * i)) [0..<pages_in (deg c) d (?L div 8)]" if "d < deg c" for d
    proof (rule map_cong [OF refl])
      fix i assume "i \<in> set [0..<pages_in (deg c) d (?L div 8)]"
      then have "d + deg c * i < ?L div 8" using pages_in_bound that by simp
      then show "zpage c zone (data @ [v]) (d + deg c * i) = zpage c zone data (d + deg c * i)"
        by (intro zpage_append page_end)
    qed
    ultimately show ?thesis
      using zl room unfolding zone_log_def s'_def by (simp add: m(2))
  qed
  ultimately show ?thesis by blast
qed


text \<open>The sector that fills the page programs it, at the next position of its bank's block.\<close>

lemma put_sector_flushed:
  assumes c: "wf_zcfg c" and z: "zone_log c s zone data" and n: "Suc (length data) mod 8 = 0"
    and room: "length data < zsize c"
  shows "\<exists>s'. put_sector c zone (int (length data mod 8)) v s = Some s' \<and> zone_log c s' zone (data @ [v])"
proof -
  obtain D N P where D: "ZONE_SIZE c = int (D * P * 8)" "zsize c = D * P * 8" "deg c = D" "0 < D"
    "DEG_ZONE c = int D" "zNBANK c = int (N * D)" "NUM_FCG c = int N" "0 < N" "zNPAGE c = int P" "0 < P"
    by (rule wf_zcfgD [OF c], rule that)
  let ?L = "length data" and ?p = "length data div 8"
  note zl = z [unfolded zone_log_def]
  have zn: "0 \<le> zone" and zi: "zone_in c zone" using zl by (auto simp: zone_in_def)
  have m: "?L mod 8 = 7" "Suc ?L div 8 = Suc ?p" "Suc ?L = 8 * ?p + 8"
  proof -
    show m: "?L mod 8 = 7" using n mod_Suc [of ?L 8] by (simp split: if_splits)
    show "Suc ?L div 8 = Suc ?p" using n div_Suc [of ?L 8] by simp
    show "Suc ?L = 8 * ?p + 8" using m mult_div_mod_eq [of 8 ?L] by linarith
  qed
  have pz: "8 * ?p < zsize c" using room m(3) by linarith
  note adr = page_address [OF c zi pz]
  let ?b = "(zbuffer s zone)[7 := v]" and ?fbg = "Z2FBG s zone"
  have blen: "length ?b = 8" using zl by simp
  have pg: "(?b, word_of_int (zone * ZONE_SIZE c + 8 * int ?p)) = zpage c zone (data @ [v]) ?p"
  proof -
    have "?b ! j = (data @ [v]) ! (8 * ?p + j)" if "j < 8" for j
    proof (cases "j = 7")
      case True
      then have "8 * ?p + j = ?L" using m(3) by linarith
      with True blen show ?thesis by (simp add: nth_append)
    next
      case False
      with that have "j < 7" "8 * ?p + j < ?L" using m(3) by linarith+
      with zl m(1) show ?thesis by (simp add: nth_append)
    qed
    then have "?b = take 8 (drop (8 * ?p) (data @ [v]))"
      using blen m(3) by (intro nth_equalityI) (auto simp del: take_append drop_append)
    then show ?thesis by (simp add: zpage_def)
  qed
  let ?bank = "zbank c zone (?p mod D)" and ?page = "int (?p div D)"
  have "?p mod D < D" using D(4) by simp
  have inb: "in_dims (nand_dims (znand s)) (zbank c zone d) ?fbg page \<longleftrightarrow> 0 \<le> page \<and> page < int P" if "d < D" for d page
  proof -
    have "zone mod int N \<le> int N - 1" using D(8) by (simp add: zle_diff1_eq)
    then have "zone mod int N * int D + int d < int N * int D"
      using that mult_right_mono [of "zone mod int N" "int N - 1" "int D"] by (simp add: algebra_simps)
    moreover have "0 \<le> zone mod int N * int D" using D(8) by simp
    ultimately show ?thesis using zl by (simp add: in_dims_def zbank_def D)
  qed
  have "length (nand_log (znand s) ?bank ?fbg) = ?p div D"
    using zl \<open>?p mod D < D\<close> by (simp add: D(3) pages_in_next [OF D(4)])
  then have nx: "?page = int (length (nand_log (znand s) ?bank ?fbg))" by simp
  have "?p div D < P" using adr(3) by (simp add: D)
  then have ind: "in_dims (nand_dims (znand s)) ?bank ?fbg ?page" using inb [OF \<open>?p mod D < D\<close>] by simp
  have good: "page_good (zpage c zone (data @ [v]) ?p)" unfolding pg [symmetric] using blen by (simp add: page_good_def)
  obtain n' where n': "nand_write (znand s) ?bank ?fbg ?page (zpage c zone (data @ [v]) ?p) = (n', 0)"
    "nand_ok n'" "nand_dims n' = nand_dims (znand s)"
    and logs: "\<And>b k. in_dims (nand_dims (znand s)) b k 0 \<Longrightarrow> nand_log n' b k =
      (if b = ?bank \<and> k = ?fbg then nand_log (znand s) b k @ [zpage c zone (data @ [v]) ?p]
       else nand_log (znand s) b k)"
    using nd.wr_next [OF _ good ind nx] zl by blast
  define s1 where "s1 = s\<lparr>zbuffer := (zbuffer s)(zone := ?b),
      ZD := (ZD s)(zone := (ZD s zone)\<lparr>wp := wp (ZD s zone) + 1\<rparr>)\<rparr>"
  have w: "wp (ZD s zone) + 1 = int (8 * (nat zone * (D * P)) + Suc ?L)"
    using zl zn by (simp add: D(1))
  have "(wp (ZD s zone) + 1) smod 8 = int ((8 * (nat zone * (D * P)) + Suc ?L) mod 8)"
    unfolding w by (rule smod8)
  also have "(8 * (nat zone * (D * P)) + Suc ?L) mod 8 = Suc ?L mod 8" by (rule mod_mult_self4)
  finally have "put_sector c zone (int (?L mod 8)) v s = Some (buffer_flush c zone s1)"
    using zl m(1) n by (simp add: put_sector_def lset_def s1_def)
  moreover have "zone_log c (buffer_flush c zone s1) zone (data @ [v])"
  proof -
    have L: "?L \<noteq> zsize c" using room by simp
    have s1: "zd_state (ZD s1 zone) = ZONE_OPEN" "wp (ZD s1 zone) - 8 = zone * ZONE_SIZE c + 8 * int ?p"
      "zone_to_fbg zone s1 = ?fbg" "zbuffer s1 zone = ?b" "znand s1 = znand s"
      "wp (ZD s1 zone) - slba (ZD s1 zone) = int (Suc ?L)" "slba (ZD s1 zone) = zone * ZONE_SIZE c"
      using zl L m(3) by (simp_all add: s1_def zone_to_fbg_def)
    let ?s2 = "s1\<lparr>znand := n', zbuffer := (zbuffer s1)(zone := map (\<lambda>_. 0) [0..<8])\<rparr>"
    have full: "int (Suc ?L) = ZONE_SIZE c \<longleftrightarrow> Suc ?L = zsize c"
      unfolding D(1,2) by (simp only: of_nat_eq_iff)
    have bf: "buffer_flush c zone s1 = (if Suc ?L = zsize c
        then (?s2\<lparr>ZD := (ZD ?s2)(zone := (ZD ?s2 zone)\<lparr>zd_state := ZONE_FULL\<rparr>)\<rparr>)
          \<lparr>Open_Zone_Cnt := Open_Zone_Cnt ?s2 - 1\<rparr> else ?s2)"
      unfolding buffer_flush_def Let_def s1(2,3,4,5) adr(1,2) D(3) pg n'(1) full [symmetric] s1(6) [symmetric]
      using s1(1) n'(1) by simp
    have new: "nand_log n' (zbank c zone d) ?fbg =
        map (\<lambda>i. zpage c zone (data @ [v]) (d + deg c * i)) [0..<pages_in (deg c) d (Suc ?p)]" if d: "d < D" for d
    proof -
      have A: "in_dims (nand_dims (znand s)) (zbank c zone d) ?fbg 0" using inb [OF d] D(10) by simp
      have B: "zbank c zone d = ?bank \<longleftrightarrow> d = ?p mod D" by (simp add: zbank_def)
      have C: "nand_log (znand s) (zbank c zone d) ?fbg =
          map (\<lambda>i. zpage c zone (data @ [v]) (d + deg c * i)) [0..<pages_in (deg c) d ?p]"
      proof -
        have "map (\<lambda>i. zpage c zone data (d + deg c * i)) [0..<pages_in (deg c) d ?p] =
            map (\<lambda>i. zpage c zone (data @ [v]) (d + deg c * i)) [0..<pages_in (deg c) d ?p]"
        proof (rule map_cong [OF refl])
          fix i assume "i \<in> set [0..<pages_in (deg c) d ?p]"
          then have "d + deg c * i < ?p" using pages_in_bound d by (simp add: D(3))
          then show "zpage c zone data (d + deg c * i) = zpage c zone (data @ [v]) (d + deg c * i)"
            by (intro zpage_append [symmetric] page_end)
        qed
        then show ?thesis using zl d by (simp add: D(3))
      qed
      have E: "nand_log n' (zbank c zone d) ?fbg = map (\<lambda>i. zpage c zone (data @ [v]) (d + D * i)) [0..<pages_in D d ?p] @
          (if d = ?p mod D then [zpage c zone (data @ [v]) ?p] else [])"
        unfolding logs [OF A] B C D(3) by simp
      show ?thesis
      proof (cases "d = ?p mod D")
        case True
        have "pages_in D d ?p = ?p div D" unfolding True by (rule pages_in_next [OF D(4)])
        then have "d + D * pages_in D d ?p = ?p" using True by simp
        then show ?thesis unfolding E D(3) pages_in_Suc [OF d] using True by simp
      next
        case False
        then show ?thesis unfolding E D(3) pages_in_Suc [OF d] by simp
      qed
    qed
    show ?thesis
      unfolding zone_log_def bf
      using zl room new n'(2,3) m(2) n L D(3) by (auto simp: s1_def)
  qed
  ultimately show ?thesis by blast
qed


lemma put_sector_log:
  assumes "wf_zcfg c" "zone_log c s zone data" "length data < zsize c"
  shows "\<exists>s'. put_sector c zone (int (length data mod 8)) v s = Some s' \<and> zone_log c s' zone (data @ [v])"
  using put_sector_buffered put_sector_flushed assms by (cases "Suc (length data) mod 8 = 0") blast+

section \<open>Writing appends\<close>

lemma write_sectors_log:
  assumes c: "wf_zcfg c" and z: "zone_log c s zone data"
    and n: "length data + n \<le> zsize c" "n \<le> length buf"
  shows "\<exists>s'. write_sectors c zone (zone * ZONE_SIZE c + int (length data)) (int n) buf s = Some s' \<and>
    zone_log c s' zone (data @ take n buf)"
proof -
  obtain D P where D: "ZONE_SIZE c = int (D * P * 8)" by (rule wf_zcfgD [OF c], rule that)
  have zn: "0 \<le> zone" using z by (simp add: zone_log_def zone_in_def)
  let ?J = "\<lambda>i s. zone_log c s zone (data @ take i buf)"
  have "\<exists>s'. write_sectors c zone (zone * ZONE_SIZE c + int (length data)) (int n) buf s = Some s' \<and> ?J n s'"
    unfolding write_sectors_def nat_int
  proof (rule for_opt_rule [where J = ?J])
    show "?J 0 s" using z by simp
    show "\<exists>t'. (do { v \<leftarrow> lget buf (int i);
        put_sector c zone ((zone * ZONE_SIZE c + int (length data) + int i) smod 8) v t }) = Some t' \<and> ?J (Suc i) t'"
      if i: "i < n" and J: "?J i t" for i t
    proof -
      have L: "length (data @ take i buf) = length data + i" using i n(2) by simp
      have "zone * ZONE_SIZE c + int (length data) + int i = int (8 * (nat zone * (D * P)) + (length data + i))"
        using zn by (simp add: D)
      then have "(zone * ZONE_SIZE c + int (length data) + int i) smod 8 =
          int ((8 * (nat zone * (D * P)) + (length data + i)) mod 8)" by (simp only: smod8)
      also have "(8 * (nat zone * (D * P)) + (length data + i)) mod 8 = (length data + i) mod 8"
        by (rule mod_mult_self4)
      finally have idx: "(zone * ZONE_SIZE c + int (length data) + int i) smod 8 = int (length (data @ take i buf) mod 8)"
        by (simp only: L)
      obtain t' where "put_sector c zone (int (length (data @ take i buf) mod 8)) (buf ! i) t = Some t'"
        "zone_log c t' zone ((data @ take i buf) @ [buf ! i])"
        using put_sector_log [OF c J, of "buf ! i"] L i n by auto
      moreover have "(data @ take i buf) @ [buf ! i] = data @ take (Suc i) buf"
        using i n(2) by (simp add: take_Suc_conv_app_nth)
      ultimately show ?thesis using i n(2) by (simp only: idx) (simp add: lget_def)
    qed
  qed
  then show ?thesis .
qed

lemma zns_write_appends:
  assumes c: "wf_zcfg c" and z: "zone_log c s zone data"
    and n: "length data + n \<le> zsize c" "n \<le> length buf" and room: "length data < zsize c"
  shows "\<exists>s'. zns_write c tmp (zone * ZONE_SIZE c + int (length data)) (int n) buf s = Some (s', 0) \<and>
    zone_log c s' zone (data @ take n buf)"
proof -
  obtain D P where D: "ZONE_SIZE c = int (D * P * 8)" "zsize c = D * P * 8" by (rule wf_zcfgD [OF c], rule that)
  note zl = z [unfolded zone_log_def]
  obtain Z where Z: "zone = int Z" using zl by (metis zone_in_def nonneg_int_cases)
  have "lba_to_zone c (zone * ZONE_SIZE c + int (length data)) = zone"
  proof -
    have "zone * ZONE_SIZE c + int (length data) = int (length data + Z * (D * P * 8))" by (simp add: Z D)
    then have "lba_to_zone c (zone * ZONE_SIZE c + int (length data)) =
        int ((length data + Z * (D * P * 8)) div (D * P * 8))"
      unfolding lba_to_zone_def D(1) by (simp only: sdiv_of_nat)
    also have "(length data + Z * (D * P * 8)) div (D * P * 8) = Z"
      using room unfolding D(2) by (cases "D * P * 8 = 0") (simp_all add: div_mult_self1)
    finally show ?thesis by (simp add: Z)
  qed
  moreover have "zd_state (ZD s zone) = ZONE_OPEN" "wp (ZD s zone) = zone * ZONE_SIZE c + int (length data)"
    "zone_in c zone"
    using zl room by auto
  ultimately show ?thesis
    using write_sectors_log [OF c z n] by (auto simp: zns_write_def Let_def write_open_def)
qed


section \<open>Reading a full zone\<close>

lemma pages_in_gt:
  assumes "p < k" "0 < D"
  shows "p div D < pages_in D (p mod D) k"
proof -
  have "p mod D < D" "p div D * D + p mod D = p" using assms(2) by simp_all
  then have "p div D * D + D \<le> k + (D - 1 - p mod D)" using assms(1) by linarith
  then have "Suc (p div D) * D \<le> k + (D - 1 - p mod D)" by simp
  then have "Suc (p div D) \<le> (k + (D - 1 - p mod D)) div D"
    using assms(2) by (simp only: less_eq_div_iff_mult_less_eq)
  then show ?thesis by (simp add: pages_in_def)
qed

text \<open>A page of the log is read back from the device.\<close>

lemma zone_page_read:
  assumes c: "wf_zcfg c" and z: "zone_log c s zone data" and p: "8 * p + 8 \<le> length data"
  shows "nand_read (znand s) (lba_to_bank c (zone_to_fcg c zone) (zone * ZONE_SIZE c + 8 * int p))
      (zone_to_fbg zone s) (lba_to_page c (zone * ZONE_SIZE c + 8 * int p)) tmp = (zpage c zone data p, 0)"
proof -
  obtain D N P where D: "deg c = D" "0 < D" "NUM_FCG c = int N" "0 < N" "DEG_ZONE c = int D"
    "zNBANK c = int (N * D)" "zNPAGE c = int P"
    by (rule wf_zcfgD [OF c], rule that)
  note zl = z [unfolded zone_log_def]
  have zi: "zone_in c zone" "8 * p < zsize c" using zl p by auto
  note adr = page_address [OF c zi]
  have pk: "p < length data div 8" using p by (simp add: less_eq_div_iff_mult_less_eq Suc_le_eq [symmetric])
  have pD: "p mod D < D" using D(2) by simp
  have log: "nand_log (znand s) (zbank c zone (p mod D)) (Z2FBG s zone) =
      map (\<lambda>i. zpage c zone data (p mod D + D * i)) [0..<pages_in D (p mod D) (length data div 8)]"
    using zl pD by (simp add: D(1))
  have gt: "p div D < pages_in D (p mod D) (length data div 8)" by (rule pages_in_gt [OF pk D(2)])
  have "zone mod int N \<le> int N - 1" using D(4) by (simp add: zle_diff1_eq)
  then have "zone mod int N * int D + int (p mod D) < int N * int D"
    using pD mult_right_mono [of "zone mod int N" "int N - 1" "int D"] by (simp add: algebra_simps)
  moreover have "0 \<le> zone mod int N * int D" using D(4) by simp
  ultimately have ind: "in_dims (nand_dims (znand s)) (zbank c zone (p mod D)) (Z2FBG s zone) (int (p div D))"
    using zl adr(3) by (simp add: in_dims_def zbank_def D)
  have "nand_read (znand s) (zbank c zone (p mod D)) (Z2FBG s zone) (int (p div D)) tmp =
      (nand_log (znand s) (zbank c zone (p mod D)) (Z2FBG s zone) ! nat (int (p div D)), 0)"
    by (rule nd.rd_log [OF _ ind]) (use zl gt log in simp_all)
  also have "nand_log (znand s) (zbank c zone (p mod D)) (Z2FBG s zone) ! nat (int (p div D)) = zpage c zone data p"
    unfolding log using gt by simp
  finally show ?thesis unfolding adr(1,2) D(1) zone_to_fbg_def .
qed

lemma read_page_sectors_run:
  assumes "m \<le> 8" "length tmp = 8" "r_cnt r = int k" "r_data r = int d" "k \<le> n"
    and "d + (8 - m) + min m (n - k) \<le> length (r_buf r)"
  shows "\<exists>b. read_page_sectors (int n) tmp m r =
      Some ((if n - k < m then Inl else Inr) (r\<lparr>r_buf := b, r_cnt := int (k + min m (n - k))\<rparr>)) \<and>
    length b = length (r_buf r) \<and>
    (\<forall>x < length b. b ! x = (if d + (8 - m) \<le> x \<and> x < d + (8 - m) + min m (n - k)
       then tmp ! (x - d) else r_buf r ! x))"
  using assms
proof (induction m arbitrary: r k)
  case 0
  then show ?case by (intro exI [of _ "r_buf r"]) (cases r, auto)
next
  case (Suc m)
  show ?case
  proof (cases "k = n")
    case True
    then show ?thesis using Suc.prems by (intro exI [of _ "r_buf r"]) auto
  next
    case False
    let ?i = "8 - Suc m" and ?r = "r\<lparr>r_buf := (r_buf r)[d + (8 - Suc m) := tmp ! (8 - Suc m)], r_cnt := int (Suc k)\<rparr>"
    have i: "8 - int (Suc m) = int ?i" "?i < 8" "8 - m = Suc ?i" using Suc.prems(1) by simp_all
    have q: "min (Suc m) (n - k) = Suc (min m (n - Suc k))" using False Suc.prems(5) by simp
    have st: "read_page_sectors (int n) tmp (Suc m) r = read_page_sectors (int n) tmp m ?r"
    proof -
      have "lget tmp (8 - int (Suc m)) = Some (tmp ! ?i)"
        unfolding i(1) using i(2) Suc.prems(2) by (simp add: lget_def)
      moreover have "lset (r_buf r) (r_data r + (8 - int (Suc m))) v = Some ((r_buf r)[d + ?i := v])" for v
      proof -
        have "r_data r + (8 - int (Suc m)) = int (d + ?i)" unfolding i(1) using Suc.prems(4) by simp
        moreover have "d + ?i < length (r_buf r)" using Suc.prems(6) unfolding q by simp
        ultimately show ?thesis by (simp only: lset_def nat_int) simp
      qed
      moreover have "r_cnt r + 1 = int (Suc k)" "r_cnt r \<noteq> int n" using Suc.prems(3) False by simp_all
      ultimately show ?thesis by (simp only: read_page_sectors.simps if_False bind.bind_lunit)
    qed
    have pre: "m \<le> 8" "r_cnt ?r = int (Suc k)" "r_data ?r = int d" "Suc k \<le> n" using Suc.prems False by simp_all
    have pre': "d + (8 - m) + min m (n - Suc k) \<le> length (r_buf ?r)"
      using Suc.prems(6) unfolding q i(3) by simp
    obtain b where b: "read_page_sectors (int n) tmp m ?r =
        Some ((if n - Suc k < m then Inl else Inr) (?r\<lparr>r_buf := b, r_cnt := int (Suc k + min m (n - Suc k))\<rparr>))"
      "length b = length (r_buf ?r)"
      "\<forall>x < length b. b ! x = (if d + (8 - m) \<le> x \<and> x < d + (8 - m) + min m (n - Suc k)
         then tmp ! (x - d) else r_buf ?r ! x)"
      using Suc.IH [OF pre(1) Suc.prems(2) pre(2-4) pre'] by blast
    have "b ! x = (if d + ?i \<le> x \<and> x < d + ?i + min (Suc m) (n - k) then tmp ! (x - d) else r_buf r ! x)"
      if "x < length b" for x
      using b(2,3) that unfolding q i(3) by (cases "x = d + ?i") auto
    moreover have "(n - Suc k < m) = (n - k < Suc m)" using False Suc.prems(5) by linarith
    ultimately show ?thesis using b(1,2) unfolding st q by (intro exI [of _ b]) simp
  qed
qed


lemma read_full_loop_run:
  assumes c: "wf_zcfg c" and z: "zone_log c s zone data" and full: "length data = zsize c"
    and "8 * a + n \<le> zsize c" and "n - 8 * j \<le> fuel" "n \<le> length (r_buf r)"
    and "r_off r = int (8 * j)" "r_data r = int (8 * j)" "r_cnt r = int (min n (8 * j))"
  shows "\<exists>r'. read_full_loop c s zone (zone * ZONE_SIZE c + 8 * int a) (int n) fuel r = Some r' \<and>
    length (r_buf r') = length (r_buf r) \<and>
    (\<forall>x < length (r_buf r). r_buf r' ! x = (if 8 * j \<le> x \<and> x < n then data ! (8 * a + x) else r_buf r ! x))"
  using assms(4-)
proof (induction fuel arbitrary: j r)
  case 0
  then show ?case by (intro exI [of _ r]) auto
next
  case (Suc fuel)
  show ?case
  proof (cases "8 * j < n")
    case False
    then show ?thesis using Suc.prems by (intro exI [of _ r]) auto
  next
    case True
    let ?p = "a + j" and ?S = "zone * ZONE_SIZE c + 8 * int a"
    obtain D P where "zsize c = D * P * 8" by (rule wf_zcfgD [OF c], rule that)
    then have "8 dvd zsize c" by simp
    then have p8: "8 * ?p + 8 \<le> length data" using full True Suc.prems(1) by presburger
    have adr: "?S + r_off r = zone * ZONE_SIZE c + 8 * int ?p" using Suc.prems(4) by simp
    note pr = zone_page_read [OF c z p8]
    let ?tmp = "zpage c zone data ?p" and ?q = "min 8 (n - 8 * j)"
    have tl: "length (fst ?tmp) = 8" using p8 by (simp add: zpage_def)
    have tn: "fst ?tmp ! x = data ! (8 * ?p + x)" if "x < 8" for x using that p8 by (simp add: zpage_def)
    have "8 * j + (8 - 8) + ?q \<le> length (r_buf (r\<lparr>r_tmp := ?tmp\<rparr>))" using True Suc.prems(3) by simp
    then obtain b where b: "read_page_sectors (int n) (fst ?tmp) 8 (r\<lparr>r_tmp := ?tmp\<rparr>) =
        Some ((if n - 8 * j < 8 then Inl else Inr) (r\<lparr>r_tmp := ?tmp, r_buf := b, r_cnt := int (8 * j + ?q)\<rparr>))"
      "length b = length (r_buf r)"
      "\<forall>x < length b. b ! x = (if 8 * j \<le> x \<and> x < 8 * j + ?q then fst ?tmp ! (x - 8 * j) else r_buf r ! x)"
      using read_page_sectors_run [OF le_refl tl, of "r\<lparr>r_tmp := ?tmp\<rparr>" "8 * j" "8 * j" n] Suc.prems True by auto
    have bx: "b ! x = (if 8 * j \<le> x \<and> x < 8 * j + ?q then data ! (8 * a + x) else r_buf r ! x)"
      if "x < length b" for x
      using b(3) that tn [of "x - 8 * j"] by auto
    have run: "read_full_loop c s zone ?S (int n) (Suc fuel) r =
        (if n - 8 * j < 8 then Some (r\<lparr>r_tmp := ?tmp, r_buf := b, r_cnt := int (8 * j + ?q)\<rparr>)
         else read_full_loop c s zone ?S (int n) fuel
           (r\<lparr>r_tmp := ?tmp, r_buf := b, r_cnt := int (8 * j + ?q), r_off := int (8 * Suc j), r_data := int (8 * Suc j)\<rparr>))"
      using True Suc.prems(4,5) b(1) unfolding read_full_loop.simps adr Let_def pr fst_conv
      by (auto simp: algebra_simps)
    show ?thesis
    proof (cases "n - 8 * j < 8")
      case True
      then show ?thesis using run b(2) bx by (auto simp: min_def)
    next
      case False
      let ?r = "r\<lparr>r_tmp := ?tmp, r_buf := b, r_cnt := int (8 * j + ?q), r_off := int (8 * Suc j), r_data := int (8 * Suc j)\<rparr>"
      obtain r' where r': "read_full_loop c s zone ?S (int n) fuel ?r = Some r'" "length (r_buf r') = length b"
        "\<forall>x < length b. r_buf r' ! x = (if 8 * Suc j \<le> x \<and> x < n then data ! (8 * a + x) else b ! x)"
      proof -
        have "n - 8 * Suc j \<le> fuel" using Suc.prems(2) True by simp
        from Suc.IH [OF Suc.prems(1) this, of ?r] Suc.prems(3) b(2) False that show ?thesis by auto
      qed
      have "r_buf r' ! x = (if 8 * j \<le> x \<and> x < n then data ! (8 * a + x) else r_buf r ! x)" if "x < length b" for x
        using r'(3) bx [OF that] that False by auto
      then show ?thesis using run False r'(1,2) b(2) by simp
    qed
  qed
qed

lemma zns_read_full:
  assumes c: "wf_zcfg c" and z: "zone_log c s zone data" and full: "length data = zsize c"
    and n: "8 * a + n \<le> zsize c" "8 * a < zsize c" "n \<le> length buf"
  shows "zns_read c tmp (zone * ZONE_SIZE c + 8 * int a) (int n) buf s =
    Some (take n (drop (8 * a) data) @ drop n buf)"
proof -
  obtain D P where D: "ZONE_SIZE c = int (D * P * 8)" "zsize c = D * P * 8" by (rule wf_zcfgD [OF c], rule that)
  note zl = z [unfolded zone_log_def]
  obtain Z where Z: "zone = int Z" using zl by (metis zone_in_def nonneg_int_cases)
  have "lba_to_zone c (zone * ZONE_SIZE c + 8 * int a) = zone"
  proof -
    have "zone * ZONE_SIZE c + 8 * int a = int (8 * a + Z * (D * P * 8))" by (simp add: Z D)
    then have "lba_to_zone c (zone * ZONE_SIZE c + 8 * int a) = int ((8 * a + Z * (D * P * 8)) div (D * P * 8))"
      unfolding lba_to_zone_def D(1) by (simp only: sdiv_of_nat)
    also have "(8 * a + Z * (D * P * 8)) div (D * P * 8) = Z"
      using n(2) unfolding D(2) by (cases "D * P * 8 = 0") (simp_all add: div_mult_self1)
    finally show ?thesis by (simp add: Z)
  qed
  moreover have "zone_in c zone" "zd_state (ZD s zone) = ZONE_FULL" using zl full by auto
  moreover obtain r' where r': "read_full_loop c s zone (zone * ZONE_SIZE c + 8 * int a) (int n) n
      \<lparr>r_data = 0, r_cnt = 0, r_off = 0, r_tmp = tmp, r_buf = buf\<rparr> = Some r'" "length (r_buf r') = length buf"
    "\<forall>x < length buf. r_buf r' ! x = (if x < n then data ! (8 * a + x) else buf ! x)"
    using read_full_loop_run [OF c z full n(1), of 0 n
        "\<lparr>r_data = 0, r_cnt = 0, r_off = 0, r_tmp = tmp, r_buf = buf\<rparr>"] n(3) by auto
  moreover have "r_buf r' = take n (drop (8 * a) data) @ drop n buf"
    using r'(2,3) n full by (intro nth_equalityI) (auto simp: nth_append)
  ultimately show ?thesis by (simp add: zns_read_def Let_def)
qed


section \<open>The first write to a zone\<close>

text \<open>The zone takes the first block group of its channel group's queue, which must be erased.\<close>

definition zone_idle :: "zcfg \<Rightarrow> zns \<Rightarrow> int \<Rightarrow> bool" where
  "zone_idle c s zone \<longleftrightarrow>
     zone_in c zone \<and> zd_state (ZD s zone) = ZONE_EMPTY \<and> slba (ZD s zone) = zone * ZONE_SIZE c \<and>
     Open_Zone_Cnt s < MAX_OPEN_ZONE c \<and> length (zbuffer s zone) = 8 \<and>
     q_ok c s (zone mod NUM_FCG c) \<and> nand_ok (znand s) \<and>
     nand_dims (znand s) = (zNBANK c, zNBLK c, zNPAGE c) \<and>
     (case q_list c s (zone mod NUM_FCG c) of [] \<Rightarrow> False
      | x # xs \<Rightarrow> 0 \<le> x \<and> x < zNBLK c \<and> (\<forall>d < deg c. nand_log (znand s) (zbank c zone d) x = []))"

lemma zns_write_opens:
  assumes c: "wf_zcfg c" and i: "zone_idle c s zone" and n: "n \<le> zsize c" "n \<le> length buf"
  shows "\<exists>s'. zns_write c tmp (zone * ZONE_SIZE c) (int n) buf s = Some (s', 0) \<and>
    zone_log c s' zone (take n buf) \<and> Z2FBG s' zone = hd (q_list c s (zone mod NUM_FCG c))"
proof -
  obtain D N P where D: "ZONE_SIZE c = int (D * P * 8)" "zsize c = D * P * 8" "0 < D" "0 < P" "NUM_FCG c = int N" "0 < N"
    "deg c = D"
    by (rule wf_zcfgD [OF c], rule that)
  note zi = i [unfolded zone_idle_def]
  let ?q = "zone mod NUM_FCG c"
  obtain x xs where x: "q_list c s ?q = x # xs" "0 \<le> x" "x < zNBLK c"
    "\<forall>d < deg c. nand_log (znand s) (zbank c zone d) x = []"
    using zi by (cases "q_list c s ?q") auto
  obtain Z where Z: "zone = int Z" using zi by (metis zone_in_def nonneg_int_cases)
  have fcg: "zone_to_fcg c zone = ?q" by (simp add: zone_to_fcg_def D(5) Z zmod_int)
  have lz: "lba_to_zone c (zone * ZONE_SIZE c) = zone"
  proof -
    have "zone * ZONE_SIZE c = int (Z * (D * P * 8))" by (simp add: Z D(1))
    then have "lba_to_zone c (zone * ZONE_SIZE c) = int (Z * (D * P * 8) div (D * P * 8))"
      unfolding lba_to_zone_def D(1) by (simp only: sdiv_of_nat)
    then show ?thesis using D(3,4) by (simp add: Z)
  qed
  obtain s1 where s1: "Queue_Pop c ?q s = (s1, x)"
    using zq.pop_cons [of c s ?q x xs] zi x(1) by (metis prod.collapse)
  have same: "ZD s1 = ZD s" "znand s1 = znand s" "zbuffer s1 = zbuffer s" "Open_Zone_Cnt s1 = Open_Zone_Cnt s"
    using s1 by (auto simp: Queue_Pop_def split: if_splits)
  define s3 where "s3 = s1\<lparr>Open_Zone_Cnt := Open_Zone_Cnt s1 + 1, Z2FBG := (Z2FBG s1)(zone := x),
      ZD := (ZD s1)(zone := (ZD s1 zone)\<lparr>zd_state := ZONE_OPEN, wp := slba (ZD s1 zone)\<rparr>)\<rparr>"
  have z3: "zone_log c s3 zone []"
    using zi x(2-4) D(2-4) by (simp add: zone_log_def s3_def same pages_in_def)
  obtain s' where s': "write_sectors c zone (zone * ZONE_SIZE c) (int n) buf s3 = Some s'" "zone_log c s' zone (take n buf)"
    using write_sectors_log [OF c z3, of n buf] n by auto
  have keep: "Z2FBG s' zone = x"
  proof -
    have "Z2FBG s' = Z2FBG s3"
      using s'(1) unfolding write_sectors_def
    proof (rule for_opt_keeps)
      fix i t u
      show "do { v \<leftarrow> lget buf (int i); put_sector c zone ((zone * ZONE_SIZE c + int i) smod 8) v t } = Some u \<Longrightarrow>
          Z2FBG u = Z2FBG t"
        by (auto simp: put_sector_def buffer_flush_def Let_def split: bind_splits if_splits)
    qed
    then show ?thesis by (simp add: s3_def)
  qed
  have "zns_write c tmp (zone * ZONE_SIZE c) (int n) buf s = Some (s', 0)"
    using zi s'(1) by (simp add: zns_write_def Let_def lz fcg s1 write_open_def same s3_def [symmetric])
      (simp add: s3_def same)
  with s'(2) keep x(1) show ?thesis by auto
qed


section \<open>The properties of the zoned device\<close>

text \<open>A device of one channel group with two banks of three blocks, as \<open>zns_init\<close> leaves it.\<close>

definition z_cfg :: zcfg where
  "z_cfg = \<lparr>zNBANK = 2, zNBLK = 3, zNPAGE = 2, DEG_ZONE = 2, MAX_OPEN_ZONE = 1\<rparr>"

definition z_dev :: zns where
  "z_dev = zns_init z_cfg (\<lambda>_. \<lparr>pg_data = replicate 8 0, pg_spare = 0\<rparr>)
     \<lparr>znand = nand_dev, FBG_Queue = (\<lambda>_ _. 0), Queue_cnt = (\<lambda>_. 0), Queue_Head = (\<lambda>_. 0),
      Queue_Tail = (\<lambda>_. 0), Open_Zone_Cnt = 0, Z2FBG = (\<lambda>_. 0), Z2LogFBG = (\<lambda>_. 0),
      ZD = (\<lambda>_. \<lparr>zd_state = ZONE_EMPTY, slba = 0, wp = 0\<rparr>), zbuffer = (\<lambda>_. []),
      zone_valid_map = (\<lambda>_ _. 0)\<rparr>"

lemma z_cfg_wf: "wf_zcfg z_cfg"
  by (simp add: wf_zcfg_def z_cfg_def)

lemma z_sizes: "ZONE_SIZE z_cfg = 32" "zsize z_cfg = 32" "NUM_FCG z_cfg = 1" "MAX_ZONE z_cfg = 2" "zNBLK z_cfg = 3"
  by (simp_all add: ZONE_SIZE_def zsize_def NUM_FCG_def MAX_ZONE_def z_cfg_def signed_divide_int_def)

lemma Queue_init_frame:
  "znand (Queue_init c s) = znand s" "Open_Zone_Cnt (Queue_init c s) = Open_Zone_Cnt s"
proof -
  have push: "znand (fold (\<lambda>fbg s. fst (Queue_Push c fcg (int fbg) s)) xs t) = znand t \<and>
      Open_Zone_Cnt (fold (\<lambda>fbg s. fst (Queue_Push c fcg (int fbg) s)) xs t) = Open_Zone_Cnt t" for fcg xs t
    by (induction xs arbitrary: t) (simp_all add: Queue_Push_def)
  have "znand (fold (\<lambda>fcg s. fold (\<lambda>fbg s. fst (Queue_Push c (int fcg) (int fbg) s)) ys s) xs t) = znand t \<and>
      Open_Zone_Cnt (fold (\<lambda>fcg s. fold (\<lambda>fbg s. fst (Queue_Push c (int fcg) (int fbg) s)) ys s) xs t) =
      Open_Zone_Cnt t" for xs ys t
    by (induction xs arbitrary: t) (simp_all add: push)
  then show "znand (Queue_init c s) = znand s" "Open_Zone_Cnt (Queue_init c s) = Open_Zone_Cnt s"
    by (simp_all add: Queue_init_def)
qed

text \<open>After initialisation every zone is idle, while an open zone is allowed at all.\<close>

lemma zns_init_idle:
  assumes c: "wf_zcfg c" and z: "zone_in c zone" and o: "Open_Zone_Cnt s < MAX_OPEN_ZONE c"
  shows "zone_idle c (zns_init c junk s) zone"
proof -
  obtain N where N: "NUM_FCG c = int N" "0 < N" by (rule wf_zcfgD [OF c], rule that)
  let ?n = "s\<lparr>znand := fst (nand_init junk (zNBANK c) (zNBLK c) (zNPAGE c) (znand s))\<rparr>"
  let ?t = "zns_init c junk s" and ?q = "zone mod NUM_FCG c"
  have pos: "0 < zNBANK c" "0 < zNBLK c" "0 < zNPAGE c" using c by (auto simp: wf_zcfg_def)
  have "q_ok c (Queue_init c ?n) ?q \<and> q_list c (Queue_init c ?n) ?q = map int [0..<nat (zNBLK c)]"
    by (rule Queue_init_contents) (use pos N in simp_all)
  moreover have "q_ok c ?t ?q = q_ok c (Queue_init c ?n) ?q" "q_list c ?t ?q = q_list c (Queue_init c ?n) ?q"
    by (simp_all add: zns_init_def Global_init_def q_ok_def q_list_def)
  moreover have "[0..<nat (zNBLK c)] = 0 # [1..<nat (zNBLK c)]" using pos(2) by (simp add: upt_conv_Cons)
  moreover have "nand_ok (znand ?t)" "nand_dims (znand ?t) = (zNBANK c, zNBLK c, zNPAGE c)"
    "nand_log (znand ?t) b k = []" for b k
    using pos nand_init_ok nand_init_log
    by (simp_all add: zns_init_def Global_init_def Queue_init_frame) (simp add: nand_dims_def nand_init_def)
  moreover have "Open_Zone_Cnt ?t = Open_Zone_Cnt s"
    by (simp add: zns_init_def Global_init_def Queue_init_frame)
  ultimately show ?thesis
    using z o pos by (simp add: zone_idle_def) (simp add: zns_init_def Global_init_def)
qed

lemma z_dev_idle: "zone_idle z_cfg z_dev 0"
  unfolding z_dev_def
  by (rule zns_init_idle [OF z_cfg_wf]) (simp_all add: zone_in_def z_sizes, simp add: z_cfg_def)

text \<open>
  \<open>zns_init\<close> prepares the device: every zone is empty and can be opened, its channel
  group's queue holds all the blocks, in order, and they are erased.
\<close>

theorem zns_init_prepares:
  assumes "wf_zcfg c" "zone_in c zone" "Open_Zone_Cnt s < MAX_OPEN_ZONE c"
  shows "zone_idle c (zns_init c junk s) zone"
  by (rule zns_init_idle [OF assms])

lemma zns_init_prepares_witness: "zone_idle z_cfg (zns_init z_cfg (\<lambda>_. \<lparr>pg_data = [], pg_spare = 0\<rparr>) z_dev) 1"
proof -
  have "Open_Zone_Cnt z_dev < MAX_OPEN_ZONE z_cfg" using z_dev_idle by (simp add: zone_idle_def)
  then show ?thesis by (intro zns_init_prepares z_cfg_wf) (simp_all add: zone_in_def z_sizes)
qed

text \<open>
  The first write to a zone opens it on the first block group of the queue, and the zone
  then holds exactly the sectors written.
\<close>

theorem zns_first_write:
  assumes "wf_zcfg c" "zone_idle c s zone" "n \<le> zsize c" "n \<le> length buf"
  shows "\<exists>s'. zns_write c tmp (zone * ZONE_SIZE c) (int n) buf s = Some (s', 0) \<and>
    zone_log c s' zone (take n buf) \<and> Z2FBG s' zone = hd (q_list c s (zone mod NUM_FCG c))"
  by (rule zns_write_opens [OF assms])

lemma zns_first_write_witness:
  "\<exists>s'. zns_write z_cfg ([], 0) 0 5 [1, 2, 3, 4, 5] z_dev = Some (s', 0) \<and> zone_log z_cfg s' 0 [1, 2, 3, 4, 5]"
  using zns_first_write [OF z_cfg_wf z_dev_idle, of 5 "[1, 2, 3, 4, 5]" "([], 0)"] by (auto simp: z_sizes)

text \<open>
  C35. A write at the write pointer of an open zone, up to the zone's end, succeeds and appends
  the sectors to the zone's log: pages are programmed in order over the banks of the channel
  group, the rest stays in the buffer, and the zone is full when its last sector was written.
\<close>

theorem zns_write_append:
  assumes "wf_zcfg c" "zone_log c s zone data" "length data + n \<le> zsize c" "n \<le> length buf"
    and "length data < zsize c"
  shows "\<exists>s'. zns_write c tmp (zone * ZONE_SIZE c + int (length data)) (int n) buf s = Some (s', 0) \<and>
    zone_log c s' zone (data @ take n buf)"
  by (rule zns_write_appends [OF assms])

lemma z_filled: "\<exists>s. zone_log z_cfg s 0 (replicate 32 7)"
  using zns_write_opens [OF z_cfg_wf z_dev_idle, of 32 "replicate 32 7" "([], 0)"] by (auto simp: z_sizes)

lemma zns_write_append_witness:
  "\<exists>s s'. zone_log z_cfg s 0 [1, 2, 3, 4, 5] \<and> zns_write z_cfg ([], 0) 5 4 [6, 7, 8, 9] s = Some (s', 0) \<and>
    zone_log z_cfg s' 0 [1, 2, 3, 4, 5, 6, 7, 8, 9]"
proof -
  obtain s where s: "zone_log z_cfg s 0 [1, 2, 3, 4, 5]"
    using zns_write_opens [OF z_cfg_wf z_dev_idle, of 5 "[1, 2, 3, 4, 5]" "([], 0)"] by (auto simp: z_sizes)
  from zns_write_append [OF z_cfg_wf this, of 4 "[6, 7, 8, 9]" "([], 0)"] s show ?thesis
    by (auto simp: z_sizes)
qed

text \<open>
  Reading a full zone from a page boundary returns what was written to it, for any number
  of sectors up to the zone's end, and leaves the rest of the caller's buffer alone.
\<close>

theorem zns_read_back:
  assumes "wf_zcfg c" "zone_log c s zone data" "length data = zsize c"
    and "8 * a + n \<le> zsize c" "8 * a < zsize c" "n \<le> length buf"
  shows "zns_read c tmp (zone * ZONE_SIZE c + 8 * int a) (int n) buf s =
    Some (take n (drop (8 * a) data) @ drop n buf)"
  by (rule zns_read_full [OF assms])

lemma zns_read_back_witness:
  "\<exists>s. zone_log z_cfg s 0 (replicate 32 7) \<and> zns_read z_cfg ([], 0) 8 3 [0, 0, 0, 0] s = Some [7, 7, 7, 0]"
proof -
  obtain s where s: "zone_log z_cfg s 0 (replicate 32 7)" using z_filled by blast
  have "zns_read z_cfg ([], 0) (0 * ZONE_SIZE z_cfg + 8 * int 1) (int 3) [0, 0, 0, 0] s =
      Some (take 3 (drop (8 * 1) (replicate 32 7)) @ drop 3 [0, 0, 0, 0])"
    by (rule zns_read_back [OF z_cfg_wf s]) (simp_all add: z_sizes)
  with s show ?thesis by (auto simp: numeral_eq_Suc)
qed

text \<open>
  C36. A read from an open zone that starts in a page that is already on the flash, but fewer than 8 sectors
  below the write pointer, never returns: each iteration of the loop runs without an access outside an array and
  leaves every variable as it was, so that after any number of iterations the loop is where it started.
\<close>

theorem zns_read_hangs:
  assumes "wf_zcfg c" "zone_log c s zone data" "length data < zsize c" "0 < nsect"
    and "a < length data" "length data < a + 8" "a div 8 < length data div 8"
    and r: "r = \<lparr>r_data = 0, r_cnt = 0, r_off = 0, r_tmp = tmp, r_buf = buf\<rparr>"
  shows "(\<forall>k. read_open_iter c s zone (zone * ZONE_SIZE c + int a) nsect k r = Some (Inr r)) \<and>
    zns_read c tmp (zone * ZONE_SIZE c + int a) nsect buf s = None"
proof -
  obtain D P where D: "ZONE_SIZE c = int (D * P * 8)" "zsize c = D * P * 8" by (rule wf_zcfgD [OF assms(1)], rule that)
  note zl = assms(2) [unfolded zone_log_def]
  obtain Z where Z: "zone = int Z" using zl by (metis zone_in_def nonneg_int_cases)
  have at: "zone * ZONE_SIZE c + int x = int (8 * (Z * D * P) + x)" for x
    by (simp add: Z D(1) algebra_simps)
  have "lba_to_zone c (zone * ZONE_SIZE c + int a) = int ((a + Z * (D * P * 8)) div (D * P * 8))"
    unfolding lba_to_zone_def D(1) Z using sdiv_of_nat [of "a + Z * (D * P * 8)" "D * P * 8"]
    by (simp add: add.commute)
  also have "(a + Z * (D * P * 8)) div (D * P * 8) = Z"
    using assms(3,5) unfolding D(2) by (cases "D * P * 8 = 0") (simp_all add: div_mult_self1)
  finally have lz: "lba_to_zone c (zone * ZONE_SIZE c + int a) = zone" by (simp add: Z)
  have w: "wp (ZD s zone) = zone * ZONE_SIZE c + int (length data)" using zl by simp
  have m: "(zone * ZONE_SIZE c + int x) smod 8 = int (x mod 8)" for x
    unfolding at smod8 by simp
  have "length data mod 8 \<le> a mod 8"
    using assms(5-7) div_mult_mod_eq [of a 8] div_mult_mod_eq [of "length data" 8] by linarith
  then have st: "stuck c s zone (zone * ZONE_SIZE c + int a) nsect r"
    using assms(4-6) by (simp add: stuck_def Let_def r w m)
  have "zd_state (ZD s zone) = ZONE_OPEN" "zone_in c zone" using zl assms(3) by simp_all
  then show ?thesis
    using stuck_iter [OF st] stuck_loops [OF st] by (simp add: zns_read_def Let_def lz r)
qed

lemma zns_read_hangs_witness:
  "\<exists>s. zone_log z_cfg s 0 [1, 2, 3, 4, 5, 6, 7, 8, 9] \<and> zns_read z_cfg ([], 0) 6 2 [0, 0] s = None"
proof -
  obtain s where s: "zone_log z_cfg s 0 [1, 2, 3, 4, 5, 6, 7, 8, 9]"
    using zns_write_opens [OF z_cfg_wf z_dev_idle, of 9 "[1, 2, 3, 4, 5, 6, 7, 8, 9]" "([], 0)"] by (auto simp: z_sizes)
  from zns_read_hangs [OF z_cfg_wf s _ _ _ _ _ refl, of 2 6 "([], 0)" "[0, 0]"] s show ?thesis by (auto simp: z_sizes)
qed

end
