(* ===== verification/BufFtl.thy ===== *)
theory BufFtl
  imports FtlSpec Complex_Main
begin

text \<open>
  The buffered flash translation layer of lab 3, \<open>3-2/EmbeddedSul/HW3/2300_submit/ftl.c\<close>: the layer
  of lab 2 with three policies for choosing the victim of a collection, ages and erase counts
  of the blocks, a write buffer of \<open>N_BUFFERS\<close> pages that is merged with flash on reads, flushes
  and trims. The globals extend those of theory \<open>Ftl\<close>. The arithmetic on \<open>double\<close>s of the
  policies is rational arithmetic: with a power of two pages in a block, as in \<open>ftl.h\<close>, every
  operation before the last division is exact, and the quotient is only truncated. Ages and erase
  counts are unbounded; the greedy policy, which the properties are about, does not read them.
\<close>

section \<open>State\<close>

record bftl = ftl +
  ages :: "nat \<Rightarrow> nat \<Rightarrow> int"            \<comment> \<open>\<open>age[N_BANKS][BLKS_PER_BANK]\<close>\<close>
  erase_count :: "nat \<Rightarrow> nat \<Rightarrow> int"
  buffer_L2P :: "nat \<Rightarrow> nat \<Rightarrow> int"      \<comment> \<open>\<open>buffer_L2P[N_BANKS][N_LPNS_PB]\<close>\<close>
  buffer_pblk :: "nat \<Rightarrow> nat \<Rightarrow> u32"     \<comment> \<open>\<open>buffer_pblk[N_BUFFERS][SECTORS_PER_PAGE]\<close>\<close>
  buffer_isValid :: "nat \<Rightarrow> nat \<Rightarrow> int"

definition N_BUFFERS :: nat where "N_BUFFERS = 10"
definition BUFFER_SIZE :: int where "BUFFER_SIZE = int N_BUFFERS * 8 * 4"

datatype gc_policy = gc_greedy | gc_cb | gc_cat

section \<open>Ages and victims\<close>

text \<open>The loop's test compares the age of a block with the number of the free block.\<close>

definition age_update :: "geom \<Rightarrow> nat \<Rightarrow> nat \<Rightarrow> bftl \<Rightarrow> bftl" where
  "age_update g bank target_pblk s =
     (if target_pblk \<ge> BLKS_PER_BANK g then s
      else
        let a = (\<lambda>blk. if blk < BLKS_PER_BANK g
                    then (if ages s bank blk = -1 \<or> ages s bank blk = int (free_pblk s bank)
                          then ages s bank blk else ages s bank blk + 1)
                    else ages s bank blk)
        in s\<lparr>ages := (ages s)(bank := a(target_pblk := 1))\<rparr>)"

definition valid_pages :: "geom \<Rightarrow> bftl \<Rightarrow> nat \<Rightarrow> nat \<Rightarrow> nat" where
  "valid_pages g s bank pblk =
     length (filter (\<lambda>offset. isValid s bank (pblk * PAGES_PER_BLK g + offset) \<noteq> 0)
       [0..<PAGES_PER_BLK g])"

definition get_u :: "geom \<Rightarrow> bftl \<Rightarrow> nat \<Rightarrow> nat \<Rightarrow> rat" where
  "get_u g s bank pblk =
     (if valid_pages g s bank pblk = 0 then 0
      else of_nat (valid_pages g s bank pblk) / of_nat (PAGES_PER_BLK g))"

text \<open>
  The conversion of a \<open>double\<close> quotient to \<open>int\<close>: undefined when the quotient is infinite, not
  a number or does not fit.
\<close>

definition to_int :: "rat \<Rightarrow> rat \<Rightarrow> int option" where
  "to_int x y =
     (if y = 0 then None
      else let q = (if 0 \<le> x / y then floor (x / y) else ceiling (x / y))
           in if - (2 ^ 31) \<le> q \<and> q < 2 ^ 31 then Some q else None)"

definition skipped :: "bftl \<Rightarrow> nat \<Rightarrow> nat \<Rightarrow> bool" where
  "skipped s bank pblk \<longleftrightarrow> ages s bank pblk = -1 \<or> pblk = free_pblk s bank"

text \<open>The loops keep the best score and its block; \<open>ret_pblk\<close> is not initialised.\<close>

definition get_victim_pblk_cb :: "geom \<Rightarrow> bftl \<Rightarrow> nat \<Rightarrow> nat option" where
  "get_victim_pblk_cb g s bank =
     do {
       (max_score, ret_pblk) \<leftarrow> for_opt (rev [0..<BLKS_PER_BANK g])
         (\<lambda>pblk (max_score, ret_pblk).
            if skipped s bank pblk then Some (max_score, ret_pblk)
            else do {
              let u = get_u g s bank pblk;
              score \<leftarrow> to_int ((1 - u) * of_int (ages s bank pblk)) (2 * u);
              Some (if score \<ge> max_score then (score, Some pblk) else (max_score, ret_pblk)) })
         (0, None);
       ret_pblk }"

definition get_victim_pblk_cat :: "geom \<Rightarrow> bftl \<Rightarrow> nat \<Rightarrow> nat option" where
  "get_victim_pblk_cat g s bank =
     do {
       (min_score, ret_pblk) \<leftarrow> for_opt (rev [0..<BLKS_PER_BANK g])
         (\<lambda>pblk (min_score, ret_pblk).
            if skipped s bank pblk then Some (min_score, ret_pblk)
            else do {
              let u = get_u g s bank pblk;
              score \<leftarrow> to_int (u * of_int (erase_count s bank pblk)) ((1 - u) * of_int (ages s bank pblk));
              Some (if (case min_score of None \<Rightarrow> True | Some m \<Rightarrow> score \<le> m)
                    then (Some score, Some pblk) else (min_score, ret_pblk)) })
         (None :: int option, None);
       ret_pblk }"

definition choose_victim :: "geom \<Rightarrow> gc_policy \<Rightarrow> bftl \<Rightarrow> nat \<Rightarrow> nat option" where
  "choose_victim g policy s bank =
     (case policy of
        gc_greedy \<Rightarrow> Some (get_victim_pblk g s bank)
      | gc_cb \<Rightarrow> get_victim_pblk_cb g s bank
      | gc_cat \<Rightarrow> get_victim_pblk_cat g s bank)"

section \<open>Collection and the write of one page\<close>

definition bgc_page ::
  "geom \<Rightarrow> u32 list \<times> u32 \<Rightarrow> nat \<Rightarrow> nat \<Rightarrow> nat \<Rightarrow> bftl \<times> nat \<Rightarrow> (bftl \<times> nat) option" where
  "bgc_page g d0 bank victim_pblk i = (\<lambda>(s, cnt).
     do {
       v \<leftarrow> get2 (N_BANKS g) (N_PPNS_PB g) (isValid s)
              (int bank) (int (victim_pblk * PAGES_PER_BLK g + i));
       if v = 1 then do {
         let buf = fst (nand_read (nand s) (int bank) (int victim_pblk) (int i) d0);
         let s = (if cnt = 0 then age_update g bank (free_pblk s bank) s else s);
         let n' = fst (nand_write (nand s) (int bank) (int (free_pblk s bank)) (int cnt) buf);
         l2p \<leftarrow> set2 (N_BANKS g) (N_LPNS_PB g) (L2P s) (int bank) (sint (snd buf))
                  (int (free_pblk s bank * PAGES_PER_BLK g + cnt));
         Some (s\<lparr>nand := n', L2P := l2p,
                 stats := (stats s)\<lparr>gc_write := gc_write (stats s) + 1\<rparr>\<rparr>, cnt + 1)
       } else Some (s, cnt)
     })"

definition bgarbage_collection ::
  "geom \<Rightarrow> gc_policy \<Rightarrow> u32 list \<times> u32 \<Rightarrow> nat \<Rightarrow> bftl \<Rightarrow> bftl option" where
  "bgarbage_collection g policy d0 bank s0 =
     (if bank \<ge> N_BANKS g then None
      else
        let s1 = s0\<lparr>stats := (stats s0)\<lparr>gc_cnt := gc_cnt (stats s0) + 1\<rparr>\<rparr> in
        do {
          victim_pblk \<leftarrow> choose_victim g policy s1 bank;
          let victim_first_ppn = victim_pblk * PAGES_PER_BLK g;
          let free_first_ppn = free_pblk s1 bank * PAGES_PER_BLK g;
          (s2, cnt) \<leftarrow> for_opt [0..<PAGES_PER_BLK g] (bgc_page g d0 bank victim_pblk) (s1, 0);
          valid \<leftarrow> for_opt [0..<PAGES_PER_BLK g]
            (\<lambda>i a. set2 (N_BANKS g) (N_PPNS_PB g) a (int bank) (int (victim_first_ppn + i)) 1)
            (isValid s2);
          Some (s2\<lparr>isValid := valid,
                  next_ppn := (next_ppn s2)(bank := free_first_ppn + cnt),
                  gc_trigger_ppn := (gc_trigger_ppn s2)
                    (bank := free_first_ppn + PAGES_PER_BLK g),
                  ages := (ages s2)(bank := (ages s2 bank)(victim_pblk := -1)),
                  erase_count := (erase_count s2)
                    (bank := (erase_count s2 bank)(victim_pblk := erase_count s2 bank victim_pblk + 1)),
                  nand := fst (nand_erase (nand s2) (int bank) (int victim_pblk)),
                  free_pblk := (free_pblk s2)(bank := victim_pblk)\<rparr>)
        })"

definition bftl_open :: "geom \<Rightarrow> (nat \<Rightarrow> nand_page) \<Rightarrow> bftl \<Rightarrow> bftl" where
  "bftl_open g junk s =
     s\<lparr>nand := fst (nand_init junk (int (N_BANKS g)) (int (BLKS_PER_BANK g))
                 (int (PAGES_PER_BLK g)) (nand s)),
       free_pblk := (\<lambda>b. if b < N_BANKS g then BLKS_PER_BANK g - 1 else free_pblk s b),
       L2P := (\<lambda>b l. if b < N_BANKS g \<and> l < N_LPNS_PB g then -1 else L2P s b l),
       buffer_L2P := (\<lambda>b l. if b < N_BANKS g \<and> l < N_LPNS_PB g then -1 else buffer_L2P s b l),
       isValid := (\<lambda>b p. if b < N_BANKS g \<and> p < N_PPNS_PB g then 1 else isValid s b p),
       ages := (\<lambda>b k. if b < N_BANKS g \<and> k < BLKS_PER_BANK g then -1 else ages s b k),
       erase_count := (\<lambda>b k. if b < N_BANKS g \<and> k < BLKS_PER_BANK g then 0 else erase_count s b k),
       next_ppn := (\<lambda>b. if b < N_BANKS g then 0 else next_ppn s b),
       gc_trigger_ppn := (\<lambda>b. if b < N_BANKS g then (BLKS_PER_BANK g - 1) * PAGES_PER_BLK g
                              else gc_trigger_ppn s b),
       buffer_pblk := (\<lambda>b i. if b < N_BUFFERS \<and> i < 8 then 0 else buffer_pblk s b i),
       buffer_isValid := (\<lambda>b i. if b < N_BUFFERS \<and> i < 8 then -1 else buffer_isValid s b i)\<rparr>"

definition bwrite_through_lpn ::
  "geom \<Rightarrow> gc_policy \<Rightarrow> u32 list \<times> u32 \<Rightarrow> int \<Rightarrow> int \<Rightarrow> u32 list \<Rightarrow> bftl \<Rightarrow> bftl option" where
  "bwrite_through_lpn g policy d0 bank halved_lpn data s0 =
     (if \<not> (0 \<le> bank \<and> bank < int (N_BANKS g)) then None
      else
        let b = nat bank in
        do {
          s \<leftarrow> (if next_ppn s0 b = gc_trigger_ppn s0 b then bgarbage_collection g policy d0 b s0
                else Some s0);
          let ppn = next_ppn s b;
          old \<leftarrow> get2 (N_BANKS g) (N_LPNS_PB g) (L2P s) bank halved_lpn;
          valid \<leftarrow> (if old \<noteq> -1
                    then set2 (N_BANKS g) (N_PPNS_PB g) (isValid s) bank old 0
                    else Some (isValid s));
          l2p \<leftarrow> set2 (N_BANKS g) (N_LPNS_PB g) (L2P s) bank halved_lpn (int ppn);
          let s = s\<lparr>isValid := valid, L2P := l2p\<rparr>;
          let s = (if ppn mod PAGES_PER_BLK g = 0 then age_update g b (ppn div PAGES_PER_BLK g) s else s);
          Some (s\<lparr>nand := fst (nand_write (nand s) bank (int (ppn div PAGES_PER_BLK g))
                            (int (ppn mod PAGES_PER_BLK g)) (data, word_of_int halved_lpn)),
                  stats := (stats s)\<lparr>nand_writes := nand_writes (stats s) + 1\<rparr>,
                  next_ppn := (next_ppn s)(b := next_ppn s b + 1)\<rparr>)
        })"


section \<open>Reading through the buffer\<close>

text \<open>The sectors of a buffer page that were written go over what was read from flash.\<close>

definition overlay_buffer ::
  "bftl \<Rightarrow> int \<Rightarrow> int \<Rightarrow> int \<Rightarrow> int \<Rightarrow> u32 list \<Rightarrow> u32 list option" where
  "overlay_buffer s row off cur n buf =
     for_opt [0..<nat n] (\<lambda>i d. do {
       v \<leftarrow> get2 N_BUFFERS 8 (buffer_isValid s) row (int i + off);
       if v \<noteq> -1 then do {
         x \<leftarrow> get2 N_BUFFERS 8 (buffer_pblk s) row (int i + off);
         lset d (cur + int i) x }
       else Some d }) buf"

definition buffered_over ::
  "geom \<Rightarrow> bftl \<Rightarrow> int \<Rightarrow> int \<Rightarrow> int \<Rightarrow> int \<Rightarrow> int \<Rightarrow> u32 list \<Rightarrow> u32 list option" where
  "buffered_over g s bank halved_lpn off cur n buf =
     do {
       row \<leftarrow> get2 (N_BANKS g) (N_LPNS_PB g) (buffer_L2P s) bank halved_lpn;
       if row \<noteq> -1 then overlay_buffer s row off cur n buf else Some buf }"

definition bread_single ::
  "geom \<Rightarrow> u32 list \<times> u32 \<Rightarrow> span \<Rightarrow> u32 \<Rightarrow> u32 list \<Rightarrow> bftl \<Rightarrow> u32 list option" where
  "bread_single g d0 sp nsect buf s =
     (let lpn = first_page_first_lba sp div 8;
          bank = lpn smod int (N_BANKS g);
          halved_lpn = lpn sdiv int (N_BANKS g)
      in do {
        r \<leftarrow> fetch_page g s bank halved_lpn d0;
        buf \<leftarrow> (case r of
          None \<Rightarrow> fill_to buf 0 0xFFFFFFFF (int (unat nsect))
        | Some (data, spare) \<Rightarrow>
            copy_to buf 0 data (first_lba_offset sp) (last_lba_offset sp + 1 - first_lba_offset sp));
        buffered_over g s bank halved_lpn (first_lba_offset sp) 0 (int (unat nsect)) buf
      })"

definition bread_page ::
  "geom \<Rightarrow> bftl \<Rightarrow> span \<Rightarrow> nat \<Rightarrow> (u32 list \<times> u32) \<times> u32 list \<times> int
     \<Rightarrow> ((u32 list \<times> u32) \<times> u32 list \<times> int) option" where
  "bread_page g s sp pp = (\<lambda>(d, buf, cur).
     let lpn = int pp + first_page_first_lba sp div 8;
         bank = lpn smod int (N_BANKS g);
         halved_lpn = lpn sdiv int (N_BANKS g);
         off = (if pp = 0 then first_lba_offset sp else 0);
         sector_kazu = (if pp = 0 then 8 - first_lba_offset sp
                        else if int pp = send_kazu sp - 1 then last_lba_offset sp + 1
                        else 8)
     in do {
       r \<leftarrow> fetch_page g s bank halved_lpn d;
       buf \<leftarrow> (case r of
         None \<Rightarrow> fill_to buf cur 0xFFFFFFFF sector_kazu
       | Some d' \<Rightarrow> copy_to buf cur (fst d') off sector_kazu);
       buf \<leftarrow> buffered_over g s bank halved_lpn off cur sector_kazu buf;
       Some (case r of None \<Rightarrow> d | Some d' \<Rightarrow> d', buf, cur + sector_kazu)
     })"

definition bftl_read ::
  "geom \<Rightarrow> u32 list \<times> u32 \<Rightarrow> u32 \<Rightarrow> u32 \<Rightarrow> u32 list \<Rightarrow> bftl \<Rightarrow> u32 list option" where
  "bftl_read g d0 lba nsect buf s =
     (let sp = span_of lba nsect in
      if send_kazu sp = 1 then bread_single g d0 sp nsect buf s
      else do {
        (d, buf', cur) \<leftarrow> for_opt [0..<nat (send_kazu sp)] (bread_page g s sp) (d0, buf, 0);
        Some buf'
      })"

section \<open>Writing directly\<close>

definition bwrite_single ::
  "geom \<Rightarrow> gc_policy \<Rightarrow> u32 list \<times> u32 \<Rightarrow> u32 list \<times> u32 \<Rightarrow> span \<Rightarrow> u32 list \<Rightarrow> bftl \<Rightarrow> bftl option" where
  "bwrite_single g policy d0 gd0 sp buf s =
     (let lpn = first_page_first_lba sp div 8;
          bank = lpn smod int (N_BANKS g);
          halved_lpn = lpn sdiv int (N_BANKS g)
      in do {
        r \<leftarrow> fetch_page g s bank halved_lpn d0;
        d \<leftarrow> (case r of
               None \<Rightarrow> do {
                 d1 \<leftarrow> fill_to (fst d0) 0 0xFFFFFFFF (first_lba_offset sp);
                 fill_to d1 (last_lba_offset sp + 1) 0xFFFFFFFF (8 - (last_lba_offset sp + 1)) }
             | Some d' \<Rightarrow> Some (fst d'));
        d2 \<leftarrow> copy_to d (first_lba_offset sp) buf 0 (last_lba_offset sp - first_lba_offset sp + 1);
        bwrite_through_lpn g policy gd0 bank halved_lpn d2 s
      })"

definition bwrite_page ::
  "geom \<Rightarrow> gc_policy \<Rightarrow> u32 list \<times> u32 \<Rightarrow> span \<Rightarrow> u32 list \<Rightarrow> nat \<Rightarrow> (u32 list \<times> u32) \<times> bftl \<times> int
     \<Rightarrow> ((u32 list \<times> u32) \<times> bftl \<times> int) option" where
  "bwrite_page g policy gd0 sp buf pp = (\<lambda>(d, s, cur).
     let lpn = int pp + first_page_first_lba sp div 8;
         bank = lpn smod int (N_BANKS g);
         halved_lpn = lpn sdiv int (N_BANKS g)
     in do {
       (d', sector_transferred) \<leftarrow>
         (if pp = 0 then do {
            r \<leftarrow> fetch_page g s bank halved_lpn d;
            d1 \<leftarrow> (case r of
                    None \<Rightarrow> do {
                      x \<leftarrow> fill_to (fst d) 0 0xFFFFFFFF (first_lba_offset sp);
                      Some (x, snd d) }
                  | Some d1 \<Rightarrow> Some d1);
            x \<leftarrow> copy_to (fst d1) (first_lba_offset sp) buf cur (8 - first_lba_offset sp);
            Some ((x, snd d1), 8 - first_lba_offset sp)
          } else if int pp = send_kazu sp - 1 then do {
            r \<leftarrow> fetch_page g s bank halved_lpn d;
            d1 \<leftarrow> (case r of
                    None \<Rightarrow> do {
                      x \<leftarrow> fill_to (fst d) (last_lba_offset sp + 1) 0xFFFFFFFF
                             (8 - (last_lba_offset sp + 1));
                      Some (x, snd d) }
                  | Some d1 \<Rightarrow> Some d1);
            x \<leftarrow> copy_to (fst d1) 0 buf cur (last_lba_offset sp + 1);
            Some ((x, snd d1), last_lba_offset sp + 1)
          } else do {
            x \<leftarrow> copy_to (fst d) 0 buf cur 8;
            Some ((x, snd d), 8)
          });
       s' \<leftarrow> bwrite_through_lpn g policy gd0 bank halved_lpn (fst d') s;
       Some (d', s', cur + sector_transferred)
     })"

definition write_directly_nand ::
  "geom \<Rightarrow> gc_policy \<Rightarrow> u32 list \<times> u32 \<Rightarrow> u32 list \<times> u32 \<Rightarrow> u32 \<Rightarrow> u32 \<Rightarrow> u32 list \<Rightarrow> bftl
     \<Rightarrow> bftl option" where
  "write_directly_nand g policy d0 gd0 lba nsect buf s =
     (let sp = span_of lba nsect in
      if send_kazu sp = 1 then bwrite_single g policy d0 gd0 sp buf s
      else do {
        (d, s', cur) \<leftarrow>
          for_opt [0..<nat (send_kazu sp)] (bwrite_page g policy gd0 sp buf) (d0, s, 0);
        Some s' })"

section \<open>The write buffer\<close>

definition needed_buffer_page_calculate :: "geom \<Rightarrow> bftl \<Rightarrow> int \<Rightarrow> int \<Rightarrow> int option" where
  "needed_buffer_page_calculate g s lpn_start kazu =
     for_opt [lpn_start..lpn_start + kazu - 1]
       (\<lambda>lpn ret. do {
          row \<leftarrow> get2 (N_BANKS g) (N_LPNS_PB g) (buffer_L2P s)
                   (lpn smod int (N_BANKS g)) (lpn sdiv int (N_BANKS g));
          Some (if row = -1 then ret + 1 else ret) }) 0"

definition buffer_page_free :: "bftl \<Rightarrow> nat \<Rightarrow> bool" where
  "buffer_page_free s i \<longleftrightarrow> list_all (\<lambda>sect. buffer_isValid s i sect = -1) [0..<8]"

definition usable_buffer_page_calculate :: "bftl \<Rightarrow> int" where
  "usable_buffer_page_calculate s =
     fold (\<lambda>i ret. if buffer_page_free s i then ret + 1 else ret) [0..<N_BUFFERS] 0"

definition INT32_MAX :: int where "INT32_MAX = 2 ^ 31 - 1"

definition frontend_buffer_page_calculate :: "bftl \<Rightarrow> int" where
  "frontend_buffer_page_calculate s =
     fold (\<lambda>i frontend. if buffer_page_free s i \<and> frontend > int i then int i else frontend)
       [0..<N_BUFFERS] INT32_MAX"

text \<open>
  \<open>ftl_flush\<close>: the first valid sector of a buffer page names the logical page it belongs to.
  The array \<open>buff\<close> is not initialised (\<open>b0\<close>).
\<close>

definition buffer_lpn :: "bftl \<Rightarrow> nat \<Rightarrow> int" where
  "buffer_lpn s row =
     (case dropWhile (\<lambda>sect. buffer_isValid s row sect = -1) [0..<8] of
        [] \<Rightarrow> -1
      | sect # _ \<Rightarrow> buffer_isValid s row sect)"

definition flush_page ::
  "geom \<Rightarrow> gc_policy \<Rightarrow> u32 list \<times> u32 \<Rightarrow> u32 list \<times> u32 \<Rightarrow> u32 list \<Rightarrow> nat \<Rightarrow> bftl \<Rightarrow> bftl option" where
  "flush_page g policy d0 gd0 b0 buffer_ppn s =
     (let lpn = buffer_lpn s buffer_ppn;
          bank = lpn smod int (N_BANKS g);
          halved_lpn = lpn sdiv int (N_BANKS g)
      in if lpn = -1 then Some s
         else do {
           ppn \<leftarrow> get2 (N_BANKS g) (N_LPNS_PB g) (L2P s) bank halved_lpn;
           buff \<leftarrow> (if ppn \<noteq> -1 then bftl_read g d0 (word_of_int (lpn * 8)) 8 b0 s
                   else Some b0);
           buff \<leftarrow> for_opt [0..<8] (\<lambda>sect b.
                      if buffer_isValid s buffer_ppn sect \<noteq> -1
                      then lset b (int sect) (buffer_pblk s buffer_ppn sect)
                      else if ppn \<noteq> -1 then Some b
                      else lset b (int sect) 0xFFFFFFFF) buff;
           let s = s\<lparr>buffer_isValid := (buffer_isValid s)
                       (buffer_ppn := (\<lambda>sect. if sect < 8 then -1
                                              else buffer_isValid s buffer_ppn sect))\<rparr>;
           s \<leftarrow> bwrite_through_lpn g policy gd0 bank halved_lpn buff s;
           rows \<leftarrow> set2 (N_BANKS g) (N_LPNS_PB g) (buffer_L2P s) bank halved_lpn (-1);
           Some (s\<lparr>buffer_L2P := rows\<rparr>)
         })"

definition ftl_flush ::
  "geom \<Rightarrow> gc_policy \<Rightarrow> u32 list \<times> u32 \<Rightarrow> u32 list \<times> u32 \<Rightarrow> u32 list \<Rightarrow> bftl \<Rightarrow> bftl option" where
  "ftl_flush g policy d0 gd0 b0 s = for_opt [0..<N_BUFFERS] (flush_page g policy d0 gd0 b0) s"

text \<open>
  \<open>write_to_buffer\<close>. A page number computed with \<open>/ SECTORS_PER_PAGE\<close> has the type \<open>size_t\<close>,
  which is what the loop's bound and the tests compare with. The value \<open>None\<close> of the inner
  result is the \<open>return\<close> when no buffer page is free: the states are paired with a flag that
  says the loop was left.
\<close>

definition page_no :: "int \<Rightarrow> int" where
  "page_no lba = uint (word_of_int lba :: u64) div 8"

definition put_sectors ::
  "bftl \<Rightarrow> int \<Rightarrow> int \<Rightarrow> nat list \<Rightarrow> u32 list \<Rightarrow> int \<Rightarrow> (bftl \<times> int) option" where
  "put_sectors s row lpn sects buf cur =
     for_opt sects (\<lambda>sect (s, cur). do {
       valid \<leftarrow> set2 N_BUFFERS 8 (buffer_isValid s) row (int sect) lpn;
       x \<leftarrow> lget buf cur;
       pblk \<leftarrow> set2 N_BUFFERS 8 (buffer_pblk s) row (int sect) x;
       Some (s\<lparr>buffer_isValid := valid, buffer_pblk := pblk\<rparr>, cur + 1) }) (s, cur)"

definition buffer_page ::
  "geom \<Rightarrow> span \<Rightarrow> u32 list \<Rightarrow> int \<Rightarrow> (bftl \<times> int) \<times> bool \<Rightarrow> ((bftl \<times> int) \<times> bool) option" where
  "buffer_page g sp buf lpn = (\<lambda>((s, cur), left).
     if left then Some ((s, cur), True)
     else do {
       let bank = lpn smod int (N_BANKS g);
       let halved_lpn = lpn sdiv int (N_BANKS g);
       let buffer_next_ppn = frontend_buffer_page_calculate s;
       row \<leftarrow> get2 (N_BANKS g) (N_LPNS_PB g) (buffer_L2P s) bank halved_lpn;
       if row = -1 \<and> buffer_next_ppn = INT32_MAX then Some ((s, cur), True)
       else do {
         let row' = (if row = -1 then buffer_next_ppn else row);
         rows \<leftarrow> set2 (N_BANKS g) (N_LPNS_PB g) (buffer_L2P s) bank halved_lpn row';
         let s = s\<lparr>buffer_L2P := rows\<rparr>;
         let sects = (if send_kazu sp = 1
                      then [nat (first_lba_offset sp)..<Suc (nat (last_lba_offset sp))]
                      else if lpn \<noteq> page_no (first_page_first_lba sp)
                              \<and> lpn \<noteq> page_no (last_page_first_lba sp) then [0..<8]
                      else if lpn = page_no (first_page_first_lba sp)
                      then [nat (first_lba_offset sp)..<8]
                      else [0..<Suc (nat (last_lba_offset sp))]);
         r \<leftarrow> put_sectors s row' lpn sects buf cur;
         Some (r, False) } })"

definition write_to_buffer ::
  "geom \<Rightarrow> gc_policy \<Rightarrow> u32 list \<times> u32 \<Rightarrow> u32 list \<times> u32 \<Rightarrow> u32 list \<Rightarrow> u32 \<Rightarrow> u32 \<Rightarrow> u32 list \<Rightarrow> bftl
     \<Rightarrow> bftl option" where
  "write_to_buffer g policy d0 gd0 b0 lba nsect buf s =
     (let sp = span_of lba nsect;
          first_lpn = first_page_first_lba sp div 8
      in do {
        buffer_page_needed \<leftarrow> needed_buffer_page_calculate g s first_lpn (send_kazu sp);
        s \<leftarrow> (if buffer_page_needed > usable_buffer_page_calculate s
              then ftl_flush g policy d0 gd0 b0 s else Some s);
        ((s', cur), left) \<leftarrow>
          for_opt (if first_lpn < 0 then []
                   else [first_lpn..min INT32_MAX (page_no (last_page_first_lba sp))])
            (buffer_page g sp buf) ((s, 0), False);
        Some s'
      })"

text \<open>The test compares a number of sectors with a size in bytes.\<close>

definition bftl_write ::
  "geom \<Rightarrow> gc_policy \<Rightarrow> u32 list \<times> u32 \<Rightarrow> u32 list \<times> u32 \<Rightarrow> u32 list \<Rightarrow> u32 \<Rightarrow> u32 \<Rightarrow> u32 list \<Rightarrow> bftl
     \<Rightarrow> bftl option" where
  "bftl_write g policy d0 gd0 b0 lba nsect buf s =
     do {
       s' \<leftarrow> (if int (unat nsect) > BUFFER_SIZE
              then write_directly_nand g policy d0 gd0 lba nsect buf s
              else write_to_buffer g policy d0 gd0 b0 lba nsect buf s);
       Some (s'\<lparr>stats := (stats s')\<lparr>host_write := host_write (stats s') + int (unat nsect)\<rparr>\<rparr>)
     }"

section \<open>Trimming\<close>

text \<open>The second index of \<open>buffer_L2P\<close> is the physical page the logical page is mapped to.\<close>

definition trim_page :: "geom \<Rightarrow> int \<Rightarrow> bftl \<Rightarrow> bftl option" where
  "trim_page g ll s =
     (let halved_lpn = ll sdiv int (N_BANKS g);
          bank = ll smod int (N_BANKS g)
      in do {
        ppn \<leftarrow> get2 (N_BANKS g) (N_LPNS_PB g) (L2P s) bank halved_lpn;
        valid \<leftarrow> set2 (N_BANKS g) (N_PPNS_PB g) (isValid s) bank ppn 0;
        row \<leftarrow> get2 (N_BANKS g) (N_LPNS_PB g) (buffer_L2P s) bank ppn;
        bvalid \<leftarrow> (if row \<noteq> -1
                   then for_opt [0..<8]
                          (\<lambda>i a. set2 N_BUFFERS 8 a row (int i) (-1)) (buffer_isValid s)
                   else Some (buffer_isValid s));
        rows \<leftarrow> set2 (N_BANKS g) (N_LPNS_PB g) (buffer_L2P s) bank ppn (-1);
        l2p \<leftarrow> set2 (N_BANKS g) (N_LPNS_PB g) (L2P s) bank halved_lpn (-1);
        Some (s\<lparr>isValid := valid, buffer_isValid := bvalid, buffer_L2P := rows, L2P := l2p\<rparr>)
      })"

definition ftl_trim :: "geom \<Rightarrow> u32 \<Rightarrow> u32 \<Rightarrow> bftl \<Rightarrow> bftl option" where
  "ftl_trim g lpn npage s =
     for_opt [unat lpn..<unat (lpn + npage)]
       (\<lambda>ll. trim_page g (sint (word_of_nat ll :: u32))) s"


section \<open>The lab 2 layer inside\<close>

text \<open>
  Forgetting the ages, the erase counts and the buffer leaves a state of the layer of theory
  \<open>Ftl\<close>. With the greedy policy, which \<open>ftl.h\<close> selects, every step on flash is the step of
  that layer, so what was proved of it holds here.
\<close>

abbreviation core :: "bftl \<Rightarrow> ftl" where "core \<equiv> ftl.truncate"

lemma core_simps [simp]:
  "nand (core s) = nand s" "L2P (core s) = L2P s" "isValid (core s) = isValid s"
  "next_ppn (core s) = next_ppn s" "gc_trigger_ppn (core s) = gc_trigger_ppn s"
  "free_pblk (core s) = free_pblk s" "stats (core s) = stats s"
  "core (age_update g b k s) = core s"
  by (simp_all add: ftl.truncate_def age_update_def Let_def)

lemma age_update_simps [simp]:
  "nand (age_update g b k s) = nand s" "L2P (age_update g b k s) = L2P s"
  "isValid (age_update g b k s) = isValid s" "next_ppn (age_update g b k s) = next_ppn s"
  "gc_trigger_ppn (age_update g b k s) = gc_trigger_ppn s"
  "free_pblk (age_update g b k s) = free_pblk s" "stats (age_update g b k s) = stats s"
  "erase_count (age_update g b k s) = erase_count s"
  "buffer_L2P (age_update g b k s) = buffer_L2P s"
  "buffer_pblk (age_update g b k s) = buffer_pblk s"
  "buffer_isValid (age_update g b k s) = buffer_isValid s"
  by (simp_all add: age_update_def Let_def)

lemma core_victim: "get_victim_pblk g (core s) b = get_victim_pblk g s b"
  by (simp add: get_victim_pblk_def pblk_invalid_cnt_def)

lemma fetch_page_core: "fetch_page g (core s) b l d = fetch_page g s b l d"
  by (simp add: fetch_page_def cong: if_cong)

lemma core_gc_page:
  "map_option (\<lambda>(s, c). (core s, c)) (bgc_page g d0 b v i (s, c)) = gc_page g d0 b v i (core s, c)"
  by (auto simp: bgc_page_def gc_page_def Let_def ftl.defs split: bind_split)

text \<open>The step keeps the buffer.\<close>

definition same_buffer :: "bftl \<Rightarrow> bftl \<Rightarrow> bool" where
  "same_buffer s t \<longleftrightarrow> buffer_L2P t = buffer_L2P s \<and> buffer_pblk t = buffer_pblk s \<and>
     buffer_isValid t = buffer_isValid s"

lemma same_buffer_gc_page:
  "bgc_page g d0 b v i (s, c) = Some (t, c') \<Longrightarrow> same_buffer s t"
  by (auto simp: bgc_page_def same_buffer_def Let_def split: bind_splits if_splits)

lemma core_garbage_collection:
  "map_option core (bgarbage_collection g gc_greedy d0 b s) = garbage_collection g d0 b (core s)"
proof (cases "b < N_BANKS g")
  case True
  let ?s = "s\<lparr>stats := (stats s)\<lparr>gc_cnt := gc_cnt (stats s) + 1\<rparr>\<rparr>"
  have s: "(core s)\<lparr>stats := (stats s)\<lparr>gc_cnt := gc_cnt (stats s) + 1\<rparr>\<rparr> = core ?s"
    by (simp add: ftl.defs)
  have "map_option (\<lambda>(s, c). (core s, c))
      (for_opt [0..<PAGES_PER_BLK g] (bgc_page g d0 b (get_victim_pblk g ?s b)) (?s, 0)) =
    for_opt [0..<PAGES_PER_BLK g] (gc_page g d0 b (get_victim_pblk g ?s b)) (core ?s, 0)"
    by (rule trans [OF for_opt_sim [where h = "\<lambda>(s, c). (core s, c)"]])
      (use core_gc_page in \<open>auto split: prod.splits\<close>)
  note loop = this [symmetric]
  show ?thesis
    using True
    apply (simp only: garbage_collection_def bgarbage_collection_def choose_victim_def
        gc_policy.case bind.bind_lunit core_simps s core_victim loop Let_def if_not_P not_le)
    apply (auto simp: ftl.defs split: bind_split option.splits)
    done
qed (simp add: garbage_collection_def bgarbage_collection_def)


lemma core_write_through_lpn:
  "map_option core (bwrite_through_lpn g gc_greedy d0 bank l data s) =
    write_through_lpn g d0 bank l data (core s)"
proof (cases "0 \<le> bank \<and> bank < int (N_BANKS g)")
  case True
  have gc: "(if next_ppn s (nat bank) = gc_trigger_ppn s (nat bank)
        then garbage_collection g d0 (nat bank) (core s) else Some (core s)) =
      map_option core (if next_ppn s (nat bank) = gc_trigger_ppn s (nat bank)
        then bgarbage_collection g gc_greedy d0 (nat bank) s else Some s)"
    by (simp add: core_garbage_collection)
  show ?thesis
    using True
    apply (simp only: write_through_lpn_def bwrite_through_lpn_def Let_def core_simps gc
        not_True_eq_False if_False simp_thms)
    apply (cases "if next_ppn s (nat bank) = gc_trigger_ppn s (nat bank)
        then bgarbage_collection g gc_greedy d0 (nat bank) s else Some s")
     apply (simp_all only: option.map bind.bind_lunit bind.bind_lzero core_simps)
    apply (auto simp: ftl.defs age_update_def Let_def split: bind_split option.splits)
    done
next
  case False
  then show ?thesis by (simp only: write_through_lpn_def bwrite_through_lpn_def if_True if_not_P) simp
qed

lemma same_buffer_refl: "same_buffer s s"
  by (simp add: same_buffer_def)

lemma same_buffer_trans: "same_buffer s t \<Longrightarrow> same_buffer t u \<Longrightarrow> same_buffer s u"
  by (simp add: same_buffer_def)

lemma same_buffer_gc_loop:
  "for_opt xs (bgc_page g d0 b v) (s, c) = Some (t, c') \<Longrightarrow> same_buffer s t"
proof (induction xs arbitrary: s c)
  case (Cons i xs)
  then obtain u k where "bgc_page g d0 b v i (s, c) = Some (u, k)"
    "for_opt xs (bgc_page g d0 b v) (u, k) = Some (t, c')" by (auto split: bind_splits)
  with Cons.IH same_buffer_gc_page same_buffer_trans show ?case by blast
qed (simp add: same_buffer_refl)

lemma same_buffer_gc:
  assumes "bgarbage_collection g policy d0 b s = Some t"
  shows "same_buffer s t"
proof -
  let ?s = "s\<lparr>stats := (stats s)\<lparr>gc_cnt := gc_cnt (stats s) + 1\<rparr>\<rparr>"
  obtain v u k where "for_opt [0..<PAGES_PER_BLK g] (bgc_page g d0 b v) (?s, 0) = Some (u, k)"
    "same_buffer u t"
    using assms unfolding bgarbage_collection_def Let_def
    by (auto simp: same_buffer_def split: bind_splits if_splits)
  from same_buffer_gc_loop [OF this(1)] this(2) show ?thesis by (simp add: same_buffer_def)
qed

lemma same_buffer_write_through:
  assumes "bwrite_through_lpn g policy d0 bank l data s = Some t"
  shows "same_buffer s t"
proof -
  let ?gc = "if next_ppn s (nat bank) = gc_trigger_ppn s (nat bank)
    then bgarbage_collection g policy d0 (nat bank) s else Some s"
  obtain u where u: "?gc = Some u" "same_buffer u t"
    using assms unfolding bwrite_through_lpn_def Let_def
    by (auto simp: same_buffer_def split: bind_splits if_splits)
  from u(1) same_buffer_gc have "same_buffer s u" by (auto simp: same_buffer_refl split: if_splits)
  with u(2) show ?thesis using same_buffer_trans by blast
qed

lemma core_write_page:
  "map_option (\<lambda>(d, s, cur). (d, core s, cur)) (bwrite_page g gc_greedy gd0 sp buf pp (d, s, cur)) =
    write_page g gd0 sp buf pp (d, core s, cur)"
proof -
  have w: "write_through_lpn g gd0 bank l data (core s) =
      map_option core (bwrite_through_lpn g gc_greedy gd0 bank l data s)" for bank l data
    by (simp add: core_write_through_lpn)
  show ?thesis
    unfolding write_page_def bwrite_page_def Let_def case_prod_conv fetch_page_core w
    by (simp add: map_option_bind bind_map_option o_def split_def)
qed

lemma core_write_directly:
  "map_option (\<lambda>t. (core t)\<lparr>stats := (stats t)\<lparr>host_write := host_write (stats t) + int (unat nsect)\<rparr>\<rparr>)
     (write_directly_nand g gc_greedy d0 gd0 lba nsect buf s) =
   ftl_write g d0 gd0 lba nsect buf (core s)"
proof -
  let ?sp = "span_of lba nsect"
  have single: "map_option core (bwrite_single g gc_greedy d0 gd0 ?sp buf s) =
      write_single g d0 gd0 ?sp buf (core s)"
    unfolding write_single_def bwrite_single_def Let_def fetch_page_core
      core_write_through_lpn [symmetric]
    by (simp add: map_option_bind o_def)
  have loop: "map_option (\<lambda>(d, s, cur). (d, core s, cur))
      (for_opt xs (bwrite_page g gc_greedy gd0 ?sp buf) (d0, s, 0)) =
      for_opt xs (write_page g gd0 ?sp buf) (d0, core s, 0)" for xs
    by (rule trans [OF for_opt_sim [where h = "\<lambda>(d, s, cur). (d, core s, cur)"]])
      (use core_write_page in \<open>auto split: prod.splits\<close>)
  show ?thesis
  proof (cases "send_kazu ?sp = 1")
    case True
    then show ?thesis
      by (simp add: ftl_write_def write_directly_nand_def Let_def single [symmetric] option.map_comp
          o_def split: option.splits) (cases "bwrite_single g gc_greedy d0 gd0 ?sp buf s"; simp)
  next
    case False
    then show ?thesis
      unfolding ftl_write_def write_directly_nand_def Let_def loop [symmetric]
      by (cases "for_opt [0..<nat (send_kazu ?sp)] (bwrite_page g gc_greedy gd0 ?sp buf) (d0, s, 0)")
        (auto split: prod.splits)
  qed
qed


lemma core_open: "core (bftl_open g junk s) = ftl_open g junk (core s)"
  by (simp add: bftl_open_def ftl_open_def ftl.truncate_def fun_eq_iff cong: if_cong)

section \<open>The free pages of the buffer\<close>

lemma frontend_ok:
  "if \<exists>i < N_BUFFERS. buffer_page_free s i
   then \<exists>i < N_BUFFERS. frontend_buffer_page_calculate s = int i \<and> buffer_page_free s i \<and>
     (\<forall>j < i. \<not> buffer_page_free s j)
   else frontend_buffer_page_calculate s = INT32_MAX"
proof -
  let ?f = "\<lambda>i frontend. if buffer_page_free s i \<and> frontend > int i then int i else frontend"
  let ?J = "\<lambda>n x. if \<exists>i < n. buffer_page_free s i
     then \<exists>i < n. x = int i \<and> buffer_page_free s i \<and> (\<forall>j < i. \<not> buffer_page_free s j) else x = INT32_MAX"
  have "?J N_BUFFERS (fold ?f [0..<N_BUFFERS] INT32_MAX)"
  proof (rule fold_rule [where J = ?J])
    show "?J 0 INT32_MAX" by simp
    show "?J (Suc n) (?f n x)" if n: "n < N_BUFFERS" and J: "?J n x" for n x
    proof (cases "\<exists>i < n. buffer_page_free s i")
      case True
      then obtain i where i: "i < n" "x = int i" "buffer_page_free s i" "\<forall>j < i. \<not> buffer_page_free s j"
        using J by auto
      then have "?f n x = x" by auto
      moreover have "\<exists>i < Suc n. x = int i \<and> buffer_page_free s i \<and> (\<forall>j < i. \<not> buffer_page_free s j)"
        using i by (intro exI [of _ i]) auto
      ultimately show ?thesis using True by (auto simp: less_Suc_eq)
    next
      case False
      then have x: "x = INT32_MAX" using J by simp
      then have "int n < x" using n by (simp add: INT32_MAX_def N_BUFFERS_def)
      then show ?thesis using False x by (auto simp: less_Suc_eq)
    qed
  qed
  then show ?thesis by (simp add: frontend_buffer_page_calculate_def)
qed

lemma usable_count:
  "usable_buffer_page_calculate s = int (length (filter (buffer_page_free s) [0..<N_BUFFERS]))"
proof -
  have "fold (\<lambda>i ret. if buffer_page_free s i then ret + 1 else ret) xs m =
      m + int (length (filter (buffer_page_free s) xs))" for xs m
    by (induction xs arbitrary: m) auto
  then show ?thesis by (simp add: usable_buffer_page_calculate_def)
qed

section \<open>The properties of the buffered layer\<close>

definition bftl_start :: bftl where
  "bftl_start = ftl.extend ftl_start \<lparr>ages = (\<lambda>_ _. 0), erase_count = (\<lambda>_ _. 0), buffer_L2P = (\<lambda>_ _. 0),
     buffer_pblk = (\<lambda>_ _. 0), buffer_isValid = (\<lambda>_ _. 0)\<rparr>"

abbreviation bopened :: bftl where
  "bopened \<equiv> bftl_open lab2_geom (\<lambda>_. \<lparr>pg_data = replicate 8 0, pg_spare = 0\<rparr>) bftl_start"

lemma bopened_ok: "ftl_ok lab2_geom (core bopened)"
  unfolding core_open by (rule ftl_open_ok [OF lab2_wf])

text \<open>
  C37. With the greedy policy of \<open>ftl.h\<close>, the page write of the buffered layer is the page write
  of the lab 2 layer on the part of the state they share, collections included, and it leaves
  the write buffer alone.
\<close>

theorem buffered_write_refines:
  assumes "bwrite_through_lpn g gc_greedy d0 bank l data s = r"
  shows "write_through_lpn g d0 bank l data (core s) = map_option core r \<and>
    (\<forall>t. r = Some t \<longrightarrow> same_buffer s t)"
  using core_write_through_lpn same_buffer_write_through assms by metis

lemma buffered_write_refines_witness:
  "write_through_lpn lab2_geom page0 0 0 [1] (core bopened) =
    map_option core (bwrite_through_lpn lab2_geom gc_greedy page0 0 0 [1] bopened)"
  using buffered_write_refines [OF refl] by blast

text \<open>
  A request that bypasses the buffer, whatever collections it causes, stores its sectors on
  flash, changes no other, and keeps the invariant of the lab 2 layer.
\<close>

theorem write_directly_stores:
  assumes "wf_geom g" "ftl_ok g (core s)" "req_ok g lba nsect" "unat nsect \<le> length buf" "length (fst d0) = 8"
  shows "\<exists>t. write_directly_nand g gc_greedy d0 gd0 lba nsect buf s = Some t \<and> ftl_ok g (core t) \<and>
    (\<forall>y < 8 * N_LPNS g. sector g (core t) y =
       (if unat lba \<le> y \<and> y < unat lba + unat nsect then buf ! (y - unat lba) else sector g (core s) y))"
proof -
  let ?h = "\<lambda>t. t\<lparr>stats := (stats t)\<lparr>host_write := host_write (stats t) + int (unat nsect)\<rparr>\<rparr>"
  obtain u where u: "ftl_write g d0 gd0 lba nsect buf (core s) = Some u" "ftl_ok g u"
    "\<forall>y < 8 * N_LPNS g. sector g u y =
       (if unat lba \<le> y \<and> y < unat lba + unat nsect then buf ! (y - unat lba) else sector g (core s) y)"
    using ftl_write_ok [OF assms, of gd0] by blast
  then obtain t where t: "write_directly_nand g gc_greedy d0 gd0 lba nsect buf s = Some t" "u = ?h (core t)"
    using core_write_directly [of nsect g d0 gd0 lba buf s]
    by (cases "write_directly_nand g gc_greedy d0 gd0 lba nsect buf s") auto
  have h: "ftl_ok g (?h x) = ftl_ok g x" "sector g (?h x) = sector g x" for x
    by (simp_all add: ftl_ok_def frontier_ok_def mapping_ok_def written_def pg_at_def blk_log_def
        sector_def page_of_def fun_eq_iff)
  show ?thesis
    using t(1) u(2,3) unfolding t(2) h by blast
qed

lemma write_directly_stores_witness:
  "\<exists>t. write_directly_nand lab2_geom gc_greedy page0 page0 6 4 [1, 2, 3, 4] bopened = Some t \<and>
    sector lab2_geom (core t) 9 = 4"
proof -
  have "\<exists>t. write_directly_nand lab2_geom gc_greedy page0 page0 6 4 [1, 2, 3, 4] bopened = Some t \<and>
      ftl_ok lab2_geom (core t) \<and> (\<forall>y < 8 * N_LPNS lab2_geom. sector lab2_geom (core t) y =
        (if unat (6 :: u32) \<le> y \<and> y < unat (6 :: u32) + unat (4 :: u32)
         then [1, 2, 3, 4] ! (y - unat (6 :: u32)) else sector lab2_geom (core bopened) y))"
    by (rule write_directly_stores) (simp_all add: lab2_wf lab2_req bopened_ok)
  then show ?thesis by (fastforce simp: lab2_size)
qed

text \<open>
  The search for a buffer page finds the free page with the lowest number, and
  \<open>__INT32_MAX__\<close> exactly when no page is free; the count of usable pages is the number of free
  ones.
\<close>

theorem buffer_page_search:
  "usable_buffer_page_calculate s = int (length (filter (buffer_page_free s) [0..<N_BUFFERS])) \<and>
   (if \<exists>i < N_BUFFERS. buffer_page_free s i
    then \<exists>i < N_BUFFERS. frontend_buffer_page_calculate s = int i \<and> buffer_page_free s i \<and>
      (\<forall>j < i. \<not> buffer_page_free s j)
    else frontend_buffer_page_calculate s = INT32_MAX)"
  by (intro conjI usable_count frontend_ok)

lemma buffer_page_search_witness: "frontend_buffer_page_calculate bopened = 0"
proof -
  have f: "buffer_page_free bopened i" if "i < N_BUFFERS" for i
    using that by (simp add: buffer_page_free_def bftl_open_def list_all_iff)
  have z: "0 < N_BUFFERS" by (simp add: N_BUFFERS_def)
  with f have ex: "\<exists>i < N_BUFFERS. buffer_page_free bopened i" by blast
  obtain i where i: "frontend_buffer_page_calculate bopened = int i" "\<forall>j < i. \<not> buffer_page_free bopened j"
    using conjunct2 [OF buffer_page_search [of bopened]] unfolding if_P [OF ex] by blast
  have "i = 0" using i(2) f [OF z] by blast
  with i(1) show ?thesis by simp
qed

text \<open>
  Trimming a logical page that was never written to flash is undefined: the code clears the
  validity of physical page \<open>-1\<close>, an access before the start of the array's row.
\<close>

theorem trim_unmapped_undefined:
  assumes "bank < N_BANKS g" "l < N_LPNS_PB g" "L2P s bank l = -1"
  shows "trim_page g (int (l * N_BANKS g + bank)) s = None"
proof -
  have "int (l * N_BANKS g + bank) sdiv int (N_BANKS g) = int l"
    "int (l * N_BANKS g + bank) smod int (N_BANKS g) = int bank"
    unfolding sdiv_of_nat smod_of_nat using assms(1) by simp_all
  then show ?thesis
    using assms by (simp add: trim_page_def Let_def bounds set2_out del: of_nat_add of_nat_mult)
qed

lemma trim_unmapped_undefined_witness: "trim_page lab2_geom (int (3 * 2 + 1)) bopened = None"
  using trim_unmapped_undefined [of 1 lab2_geom 3 bopened]
  by (simp add: lab2_geom_def bftl_open_def N_LPNS_PB_def N_USER_BLOCKS_PB_def)

end
