(* ===== verification/Cfs.thy ===== *)
theory Cfs
  imports Prelude
begin

text \<open>
  The process table and the completely fair scheduler of the second xv6 project,
  \<open>3-1/OS/xv6-sse-local/proc.c\<close> with the timer branch of \<open>trap\<close> in \<open>trap.c\<close>: allocation,
  \<open>fork\<close>, \<open>exit\<close>, \<open>wait\<close>, sleeping and waking, the choice of the process with the lowest
  virtual run time and its time slice, the accounting at every tick, nice values. The table
  is a list, a pointer to a process is its index; the C \<open>int\<close>s are integers, and an addition
  outside their range or an access outside an array gives the value \<open>None\<close>; the \<open>uint\<close>s are
  words. What the table operations call outside this file is an argument: \<open>kstk\<close> is what
  \<open>kalloc\<close> returns, \<open>pg\<close> what \<open>copyuvm\<close> returns, \<open>run\<close> what happens to the kernel between
  the switch to a process and the switch back. Open files, the working directory and the
  trap frame are left out.
\<close>

section \<open>State\<close>

definition NPROC :: nat where "NPROC = 64"
definition MINIMUM_INT :: int where "MINIMUM_INT = - (2 ^ 31)"
definition MAXIMUM_INT :: int where "MAXIMUM_INT = 2 ^ 31 - 1"

datatype procstate = UNUSED | EMBRYO | SLEEPING | RUNNABLE | RUNNING | ZOMBIE

text \<open>What a process can sleep on: nothing, a process, or another kernel object.\<close>

datatype channel = Nowhere | OnProc nat | OnTicks | OnObject u32

record proc =
  sz :: u32
  pgdir :: u32
  kstack :: u32
  state :: procstate
  pid :: int
  parent :: "nat option"
  chan :: channel
  killed :: int
  name :: string
  priority :: int
  weight :: int
  vruntime :: int
  runtime :: u32
  runtime_interval :: u32
  timeslice :: u32

type_synonym ptable = "proc list"

record kernel =
  ptable :: ptable
  nextpid :: int
  initproc :: nat
  ticks :: u32
  cpu_proc :: "nat option"     \<comment> \<open>\<open>mycpu()->proc\<close>\<close>

abbreviation upd :: "ptable \<Rightarrow> nat \<Rightarrow> (proc \<Rightarrow> proc) \<Rightarrow> ptable" where
  "upd t i f \<equiv> t[i := f (t ! i)]"

definition set_ptable :: "ptable \<Rightarrow> kernel \<Rightarrow> kernel" where
  "set_ptable t s = s\<lparr>ptable := t\<rparr>"

section \<open>Weights\<close>

definition nice2weight_arr :: "int list" where
  "nice2weight_arr = [3121, 2501, 1991, 1586, 1277, 1024, 820, 655, 526, 423, 335]"

definition nice2weight :: "int \<Rightarrow> int option" where
  "nice2weight nice = lget nice2weight_arr (nice + 5)"

definition total_weight_of_runnable_process :: "ptable \<Rightarrow> u32 option" where
  "total_weight_of_runnable_process t =
     for_opt [0..<NPROC] (\<lambda>p1 ret.
       if state (t ! p1) \<noteq> RUNNABLE then Some ret
       else do { w \<leftarrow> nice2weight (priority (t ! p1)); Some (ret + word_of_int w) }) 0"

section \<open>Overflow\<close>

definition is_overflow :: "int \<Rightarrow> int \<Rightarrow> bool" where
  "is_overflow a b =
     (if b > 0 then a > MAXIMUM_INT - b
      else if b < 0 then a < MINIMUM_INT - b
      else False)"

definition add_int :: "int \<Rightarrow> int \<Rightarrow> int option" where
  "add_int a b = (if MINIMUM_INT \<le> a + b \<and> a + b \<le> MAXIMUM_INT then Some (a + b) else None)"

definition live :: "proc \<Rightarrow> bool" where
  "live p \<longleftrightarrow> state p = RUNNABLE \<or> state p = RUNNING \<or> state p = SLEEPING"

definition overflow_shift :: "int \<Rightarrow> int \<Rightarrow> proc \<Rightarrow> proc option" where
  "overflow_shift diff limit p =
     (if live p
      then if is_overflow (vruntime p) diff then Some (p\<lparr>vruntime := limit\<rparr>)
           else do { v \<leftarrow> add_int (vruntime p) diff; Some (p\<lparr>vruntime := v\<rparr>) }
      else Some p)"

definition overflow_handler :: "int \<Rightarrow> ptable \<Rightarrow> ptable option" where
  "overflow_handler i t =
     (if i > 0 then
        for_opt [0..<NPROC]
          (\<lambda>p t. do { x \<leftarrow> overflow_shift (- 0x0FFFFFFF) MINIMUM_INT (t ! p); Some (t[p := x]) }) t
      else if i < 0 then
        for_opt [0..<NPROC]
          (\<lambda>p t. do { x \<leftarrow> overflow_shift 0x0FFFFFFF MAXIMUM_INT (t ! p); Some (t[p := x]) }) t
      else Some t)"

section \<open>Waking\<close>

definition awake :: "proc \<Rightarrow> bool" where
  "awake p \<longleftrightarrow> state p = RUNNING \<or> state p = RUNNABLE"

definition min_loop :: "ptable \<Rightarrow> int \<Rightarrow> int" where
  "min_loop t m = fold (\<lambda>p m. if awake (t ! p) \<and> m > vruntime (t ! p) then vruntime (t ! p) else m)
     [0..<NPROC] m"

text \<open>The inner loop of \<open>wakeup1\<close>: every other process that is awake.\<close>

definition wake_scan :: "ptable \<Rightarrow> nat \<Rightarrow> int \<times> bool \<Rightarrow> int \<times> bool" where
  "wake_scan t p = fold (\<lambda>p1 (min_vruntime, notempty).
       if pid (t ! p) = pid (t ! p1) then (min_vruntime, notempty)
       else if awake (t ! p1)
       then (if min_vruntime > vruntime (t ! p1) then vruntime (t ! p1) else min_vruntime, True)
       else (min_vruntime, notempty))
     [0..<NPROC]"

definition wake_one ::
  "channel \<Rightarrow> nat \<Rightarrow> ptable \<times> int \<times> bool \<Rightarrow> (ptable \<times> int \<times> bool) option" where
  "wake_one c p = (\<lambda>(t, min_vruntime, notempty).
     if state (t ! p) = SLEEPING \<and> chan (t ! p) = c then do {
       let t = upd t p (\<lambda>q. q\<lparr>state := RUNNABLE\<rparr>);
       let (min_vruntime, notempty) = wake_scan t p (min_vruntime, notempty);
       v \<leftarrow> (if notempty then do {
               w \<leftarrow> nice2weight (priority (t ! p));
               let one_tick_vruntime = (1000 * 1024) sdiv w;
               if is_overflow min_vruntime (- one_tick_vruntime) then Some MINIMUM_INT
               else add_int min_vruntime (- one_tick_vruntime) }
             else Some 0);
       Some (upd t p (\<lambda>q. q\<lparr>vruntime := v\<rparr>), min_vruntime, notempty)
     } else Some (t, min_vruntime, notempty))"

definition wakeup1 :: "channel \<Rightarrow> ptable \<Rightarrow> ptable option" where
  "wakeup1 c t =
     do {
       (t', m, ne) \<leftarrow> for_opt [0..<NPROC] (wake_one c) (t, min_loop t 0, False);
       Some t' }"

text \<open>\<open>wakeup\<close> is \<open>wakeup1\<close> under the table's lock.\<close>

definition wakeup :: "channel \<Rightarrow> kernel \<Rightarrow> kernel option" where
  "wakeup c s = do { t \<leftarrow> wakeup1 c (ptable s); Some (set_ptable t s) }"

section \<open>Processes\<close>

definition allocproc :: "u32 \<Rightarrow> kernel \<Rightarrow> (nat option \<times> kernel) option" where
  "allocproc kstk s =
     (case find (\<lambda>p. state (ptable s ! p) = UNUSED) [0..<NPROC] of
        None \<Rightarrow> Some (None, s)
      | Some p \<Rightarrow> do {
          n \<leftarrow> add_int (nextpid s) 1;
          let t = upd (ptable s) p
            (\<lambda>q. q\<lparr>state := EMBRYO, pid := nextpid s, priority := 0, runtime := 0, kstack := kstk\<rparr>);
          let s = s\<lparr>ptable := t, nextpid := n\<rparr>;
          Some (if kstk = 0
                then (None, set_ptable (upd (ptable s) p (\<lambda>q. q\<lparr>state := UNUSED\<rparr>)) s)
                else (Some p, s)) })"

text \<open>\<open>safestrcpy\<close> into an array of 16: the string, cut to 15 characters.\<close>

definition fork :: "u32 \<Rightarrow> u32 \<Rightarrow> nat \<Rightarrow> kernel \<Rightarrow> (int \<times> kernel) option" where
  "fork kstk pg curproc s =
     do {
       (np, s) \<leftarrow> allocproc kstk s;
       case np of
         None \<Rightarrow> Some (-1, s)
       | Some np \<Rightarrow>
           let s = set_ptable (upd (ptable s) np (\<lambda>q. q\<lparr>pgdir := pg\<rparr>)) s in
           if pg = 0 then
             Some (-1, set_ptable (upd (ptable s) np (\<lambda>q. q\<lparr>kstack := 0, state := UNUSED\<rparr>)) s)
           else
             let c = ptable s ! curproc in
             Some (pid (ptable s ! np),
               set_ptable (upd (ptable s) np
                 (\<lambda>q. q\<lparr>sz := sz c, parent := Some curproc, name := take 15 (name c),
                         state := RUNNABLE, priority := priority c, vruntime := vruntime c\<rparr>)) s)
     }"

definition chan_of :: "nat option \<Rightarrow> channel" where
  "chan_of q = (case q of None \<Rightarrow> Nowhere | Some p \<Rightarrow> OnProc p)"

text \<open>\<open>exit\<close> up to the call of \<open>sched\<close>, which does not return; \<open>Inl\<close> is the panic.\<close>

datatype panic = Panic string

definition exit_proc :: "nat \<Rightarrow> kernel \<Rightarrow> (panic + kernel) option" where
  "exit_proc curproc s =
     (if curproc = initproc s then Some (Inl (Panic ''init exiting''))
      else do {
        t \<leftarrow> wakeup1 (chan_of (parent (ptable s ! curproc))) (ptable s);
        t \<leftarrow> for_opt [0..<NPROC]
              (\<lambda>p t. if parent (t ! p) = Some curproc
                     then let t = upd t p (\<lambda>q. q\<lparr>parent := Some (initproc s)\<rparr>) in
                          if state (t ! p) = ZOMBIE then wakeup1 (OnProc (initproc s)) t else Some t
                     else Some t) t;
        Some (Inr (set_ptable (upd t curproc (\<lambda>q. q\<lparr>state := ZOMBIE\<rparr>)) s)) })"

text \<open>One scan of \<open>wait\<close>: a child is collected, there is none to wait for, or it sleeps.\<close>

datatype wait_result = Collected int | No_child | Sleeps

definition wait_scan :: "nat \<Rightarrow> ptable \<Rightarrow> wait_result \<times> ptable" where
  "wait_scan curproc t =
     (case find (\<lambda>p. parent (t ! p) = Some curproc \<and> state (t ! p) = ZOMBIE) [0..<NPROC] of
        Some p \<Rightarrow>
          (Collected (pid (t ! p)),
           upd t p (\<lambda>q. q\<lparr>kstack := 0, pid := 0, parent := None, name := '''', killed := 0,
                           state := UNUSED\<rparr>))
      | None \<Rightarrow>
          if \<not> list_ex (\<lambda>p. parent (t ! p) = Some curproc) [0..<NPROC] \<or> killed (t ! curproc) \<noteq> 0
          then (No_child, t)
          else (Sleeps, upd t curproc (\<lambda>q. q\<lparr>chan := OnProc curproc, state := SLEEPING\<rparr>)))"

text \<open>\<open>sleep\<close> before and after its call of \<open>sched\<close>.\<close>

definition sleep_enter :: "channel \<Rightarrow> nat \<Rightarrow> ptable \<Rightarrow> ptable" where
  "sleep_enter c p t = upd t p (\<lambda>q. q\<lparr>chan := c, state := SLEEPING\<rparr>)"

definition sleep_leave :: "nat \<Rightarrow> ptable \<Rightarrow> ptable" where
  "sleep_leave p t = upd t p (\<lambda>q. q\<lparr>chan := Nowhere\<rparr>)"

definition kill :: "int \<Rightarrow> ptable \<Rightarrow> int \<times> ptable" where
  "kill i t =
     (case find (\<lambda>p. pid (t ! p) = i) [0..<NPROC] of
        None \<Rightarrow> (-1, t)
      | Some p \<Rightarrow>
          (0, upd t p (\<lambda>q. q\<lparr>killed := 1,
                              state := (if state q = SLEEPING then RUNNABLE else state q)\<rparr>)))"

section \<open>Nice values\<close>

definition setnice :: "int \<Rightarrow> int \<Rightarrow> ptable \<Rightarrow> int \<times> ptable" where
  "setnice i nice t =
     (if nice < -5 \<or> nice > 5 then (-1, t)
      else case find (\<lambda>p. pid (t ! p) = i) [0..<NPROC] of
             None \<Rightarrow> (-1, t)
           | Some p \<Rightarrow> (0, upd t p (\<lambda>q. q\<lparr>priority := nice\<rparr>)))"

definition getnice :: "int \<Rightarrow> ptable \<Rightarrow> int" where
  "getnice i t =
     (let (ret, success) =
        fold (\<lambda>p (ret, success). if pid (t ! p) = i then (priority (t ! p), True) else (ret, success))
          [0..<NPROC] (0, False)
      in if success then ret else -1)"

section \<open>The scheduler\<close>

definition low_vruntime_p :: "ptable \<Rightarrow> nat \<Rightarrow> nat" where
  "low_vruntime_p t p =
     fold (\<lambda>p1 low. if state (t ! p1) \<noteq> RUNNABLE then low
                     else if vruntime (t ! low) > vruntime (t ! p1) then p1 else low) [0..<NPROC] p"

definition time_slice :: "u32 \<Rightarrow> int \<Rightarrow> u32 option" where
  "time_slice total_weight w =
     (let weight_by_10 = word_of_int (10 * w) :: u32
      in if total_weight = 0 then None
         else Some ((1000 * weight_by_10 + total_weight - 1) div total_weight))"

text \<open>The process chosen, made ready to run.\<close>

definition dispatch :: "nat \<Rightarrow> kernel \<Rightarrow> kernel option" where
  "dispatch p s =
     do {
       w \<leftarrow> nice2weight (priority (ptable s ! p));
       total_weight \<leftarrow> total_weight_of_runnable_process (ptable s);
       slice \<leftarrow> time_slice total_weight w;
       Some (s\<lparr>ptable := upd (ptable s) p
                 (\<lambda>q. q\<lparr>weight := w, runtime_interval := 0, timeslice := slice, state := RUNNING\<rparr>),
               cpu_proc := Some p\<rparr>)
     }"

text \<open>
  One iteration of the loop over the table. The loop's variable is set to the chosen process,
  so the scan goes on from there.
\<close>

definition scheduler_step ::
  "(nat \<Rightarrow> kernel \<Rightarrow> kernel option) \<Rightarrow> nat \<times> kernel \<Rightarrow> (nat \<times> kernel) option" where
  "scheduler_step run = (\<lambda>(p, s).
     if state (ptable s ! p) \<noteq> RUNNABLE then Some (p + 1, s)
     else do {
       let q = low_vruntime_p (ptable s) p;
       s \<leftarrow> dispatch q s;
       s \<leftarrow> run q s;
       Some (q + 1, s\<lparr>cpu_proc := None\<rparr>) })"

partial_function (option) scheduler_loop ::
  "(nat \<Rightarrow> kernel \<Rightarrow> kernel option) \<Rightarrow> nat \<times> kernel \<Rightarrow> kernel option" where
  "scheduler_loop run ps =
     (if fst ps < NPROC then Option.bind (scheduler_step run ps) (scheduler_loop run)
      else Some (snd ps))"

section \<open>The timer\<close>

partial_function (option) settle :: "int \<Rightarrow> nat \<Rightarrow> ptable \<Rightarrow> ptable option" where
  "settle delta p t =
     (if is_overflow (vruntime (t ! p)) delta
      then Option.bind (overflow_handler delta t) (settle delta p)
      else Some t)"

text \<open>The tick on the first processor: the running process is charged for it.\<close>

definition charge_process :: "nat \<Rightarrow> ptable \<Rightarrow> ptable option" where
  "charge_process p t =
     do {
       let t = upd t p (\<lambda>q. q\<lparr>runtime := runtime q + 1000,
                 runtime_interval := runtime_interval q + 1000\<rparr>);
       w \<leftarrow> nice2weight (priority (t ! p));
       let delta_vruntime = (1000 * 1024 + w - 1) sdiv w;
       t \<leftarrow> settle delta_vruntime p t;
       v \<leftarrow> add_int (vruntime (t ! p)) delta_vruntime;
       Some (upd t p (\<lambda>q. q\<lparr>vruntime := v\<rparr>))
     }"

definition timer_tick :: "kernel \<Rightarrow> kernel option" where
  "timer_tick s =
     do {
       let s = s\<lparr>ticks := ticks s + 1000\<rparr>;
       t \<leftarrow> (case cpu_proc s of
               None \<Rightarrow> Some (ptable s)
             | Some p \<Rightarrow>
                 if state (ptable s ! p) \<noteq> RUNNING then Some (ptable s)
                 else charge_process p (ptable s));
       wakeup OnTicks (set_ptable t s)
     }"

text \<open>\<open>yield\<close> up to \<open>sched\<close>, which \<open>sys_yield\<close> calls unconditionally.\<close>

definition yield_proc :: "nat \<Rightarrow> kernel \<Rightarrow> kernel" where
  "yield_proc p s = set_ptable (upd (ptable s) p (\<lambda>q. q\<lparr>state := RUNNABLE\<rparr>)) s"

text \<open>At the end of \<open>trap\<close>: when the slice is used up the process yields (up to \<open>sched\<close>).\<close>

definition timer_yield :: "kernel \<Rightarrow> kernel" where
  "timer_yield s =
     (case cpu_proc s of
        None \<Rightarrow> s
      | Some p \<Rightarrow>
          if state (ptable s ! p) = RUNNING
             \<and> runtime_interval (ptable s ! p) \<ge> timeslice (ptable s ! p)
          then set_ptable (upd (ptable s) p (\<lambda>q. q\<lparr>runtime_interval := 0, state := RUNNABLE\<rparr>)) s
          else s)"


section \<open>Weights, overflow\<close>

definition int_ok :: "int \<Rightarrow> bool" where
  "int_ok a \<longleftrightarrow> MINIMUM_INT \<le> a \<and> a \<le> MAXIMUM_INT"

lemma is_overflow_iff: "int_ok a \<Longrightarrow> int_ok b \<Longrightarrow> is_overflow a b \<longleftrightarrow> \<not> int_ok (a + b)"
  by (auto simp: is_overflow_def int_ok_def)

lemma add_int_ok: "int_ok (a + b) \<Longrightarrow> add_int a b = Some (a + b)"
  by (simp add: add_int_def int_ok_def)

lemma nice2weight_ok:
  assumes "-5 \<le> n" "n \<le> 5"
  obtains w where "nice2weight n = Some w" "335 \<le> w" "w \<le> 3121"
proof -
  obtain k where n: "n = int k - 5" "k \<le> 10" using assms by (intro that [of "nat (n + 5)"]) auto
  have "nice2weight n = Some (nice2weight_arr ! k)"
    using n by (simp add: nice2weight_def lget_def nice2weight_arr_def)
  moreover have "nice2weight_arr ! k \<in> set nice2weight_arr"
    using n(2) by (intro nth_mem) (simp add: nice2weight_arr_def)
  moreover have "\<forall>w \<in> set nice2weight_arr. 335 \<le> w \<and> w \<le> 3121"
    by (simp add: nice2weight_arr_def)
  ultimately show ?thesis using that by blast
qed

section \<open>The invariants of the table\<close>

definition proc_ok :: "proc \<Rightarrow> bool" where
  "proc_ok p \<longleftrightarrow> -5 \<le> priority p \<and> priority p \<le> 5 \<and> int_ok (vruntime p)"

definition table_ok :: "ptable \<Rightarrow> bool" where
  "table_ok t \<longleftrightarrow> length t = NPROC \<and> (\<forall>p \<in> set t. proc_ok p)"

lemma table_okD: "table_ok t \<Longrightarrow> i < NPROC \<Longrightarrow> proc_ok (t ! i)"
  by (auto simp: table_ok_def)

lemma table_ok_upd: "table_ok t \<Longrightarrow> proc_ok x \<Longrightarrow> table_ok (t[i := x])"
  by (auto simp: table_ok_def dest: set_update_subset_insert [THEN subsetD])

lemma nice2weight_table:
  assumes "table_ok t" "i < NPROC"
  obtains w where "nice2weight (priority (t ! i)) = Some w" "335 \<le> w" "w \<le> 3121"
  using nice2weight_ok table_okD [OF assms] by (metis proc_ok_def)

section \<open>The overflow handler\<close>

text \<open>What it does to one process: a shift that saturates.\<close>

definition shifted :: "int \<Rightarrow> proc \<Rightarrow> proc" where
  "shifted d p = (if live p
     then p\<lparr>vruntime := max MINIMUM_INT (min MAXIMUM_INT (vruntime p + d))\<rparr> else p)"

lemma overflow_shift_down:
  "int_ok (vruntime p) \<Longrightarrow> overflow_shift (- 0x0FFFFFFF) MINIMUM_INT p = Some (shifted (- 0x0FFFFFFF) p)"
  by (auto simp: overflow_shift_def shifted_def is_overflow_def add_int_def int_ok_def
      MINIMUM_INT_def MAXIMUM_INT_def min_def max_def)

lemma overflow_shift_up:
  "int_ok (vruntime p) \<Longrightarrow> overflow_shift 0x0FFFFFFF MAXIMUM_INT p = Some (shifted 0x0FFFFFFF p)"
  by (auto simp: overflow_shift_def shifted_def is_overflow_def add_int_def int_ok_def
      MINIMUM_INT_def MAXIMUM_INT_def min_def max_def)

lemma proc_ok_shifted: "proc_ok p \<Longrightarrow> proc_ok (shifted d p)"
  by (auto simp: proc_ok_def shifted_def int_ok_def MINIMUM_INT_def MAXIMUM_INT_def)

lemma overflow_handler_map:
  assumes "table_ok t"
  shows "overflow_handler i t =
    Some (if i = 0 then t else map (shifted (if i > 0 then - 0x0FFFFFFF else 0x0FFFFFFF)) t)"
proof -
  have n: "length t = NPROC" "\<And>i. i < NPROC \<Longrightarrow> int_ok (vruntime (t ! i))"
    using assms table_okD by (auto simp: table_ok_def proc_ok_def)
  have "for_opt [0..<NPROC]
      (\<lambda>p t. do { x \<leftarrow> overflow_shift (- 0x0FFFFFFF) MINIMUM_INT (t ! p); Some (t[p := x]) }) t =
      Some (map (shifted (- 0x0FFFFFFF)) t)"
    by (rule for_opt_each) (use n overflow_shift_down in auto)
  moreover have "for_opt [0..<NPROC]
      (\<lambda>p t. do { x \<leftarrow> overflow_shift 0x0FFFFFFF MAXIMUM_INT (t ! p); Some (t[p := x]) }) t =
      Some (map (shifted 0x0FFFFFFF) t)"
    by (rule for_opt_each) (use n overflow_shift_up in auto)
  ultimately show ?thesis by (auto simp: overflow_handler_def)
qed

lemma table_ok_shifted: "table_ok t \<Longrightarrow> table_ok (map (shifted d) t)"
  by (auto simp: table_ok_def proc_ok_shifted)

text \<open>The handler never reverses the order of two processes it shifts.\<close>

lemma shifted_mono:
  "live p \<Longrightarrow> live q \<Longrightarrow> vruntime p \<le> vruntime q \<Longrightarrow> vruntime (shifted d p) \<le> vruntime (shifted d q)"
  by (simp add: shifted_def)

text \<open>
  One pass of the handler makes room for the charge of a tick, so the loop of \<open>trap\<close> ends.
\<close>

lemma settle_ok:
  assumes t: "table_ok t" and p: "p < NPROC" and l: "live (t ! p)" and d: "0 < d" "d \<le> 4096"
  shows "settle d p t = Some (if int_ok (vruntime (t ! p) + d) then t else map (shifted (- 0x0FFFFFFF)) t)"
proof -
  have dok: "int_ok d" using d by (simp add: int_ok_def MINIMUM_INT_def MAXIMUM_INT_def)
  have v: "int_ok (vruntime (t ! p))" "p < length t"
    using table_okD [OF t p] t p by (auto simp: proc_ok_def table_ok_def)
  have stop: "settle d p u = Some u" if "\<not> is_overflow (vruntime (u ! p)) d" for u
    using that by (subst settle.simps) simp
  show ?thesis
  proof (cases "int_ok (vruntime (t ! p) + d)")
    case True
    then show ?thesis using stop [of t] is_overflow_iff v dok by simp
  next
    case False
    let ?u = "map (shifted (- 0x0FFFFFFF)) t"
    have "\<not> is_overflow (vruntime (?u ! p)) d"
      using False v l d by (auto simp: shifted_def is_overflow_def int_ok_def MINIMUM_INT_def MAXIMUM_INT_def)
    from stop [OF this] have "settle d p ?u = Some ?u" .
    moreover have "is_overflow (vruntime (t ! p)) d" using False is_overflow_iff v dok by simp
    ultimately show ?thesis
      using False d by (subst settle.simps) (simp add: overflow_handler_map [OF t])
  qed
qed


section \<open>Waking\<close>

lemma min_loop_le: "min_loop t m \<le> m"
  unfolding min_loop_def by (rule fold_rule [where J = "\<lambda>_ x. x \<le> m"]) auto

lemma wake_scan_le: "fst (wake_scan t p (m, ne)) \<le> m"
  unfolding wake_scan_def
  by (rule fold_rule [where J = "\<lambda>_ x. fst x \<le> m"]) (auto split: prod.splits)

lemma min_int_ok: "int_ok a \<Longrightarrow> int_ok b \<Longrightarrow> int_ok (min a b)"
  by (auto simp: int_ok_def)

lemma min_loop_ok: "table_ok t \<Longrightarrow> int_ok m \<Longrightarrow> int_ok (min_loop t m)"
  unfolding min_loop_def
  by (rule fold_rule [where J = "\<lambda>_. int_ok"]) (auto dest: table_okD simp: proc_ok_def)

lemma wake_scan_ok: "table_ok t \<Longrightarrow> int_ok m \<Longrightarrow> int_ok (fst (wake_scan t p (m, ne)))"
  unfolding wake_scan_def
  by (rule fold_rule [where J = "\<lambda>_ x. int_ok (fst x)"])
    (auto dest: table_okD simp: proc_ok_def split: prod.splits)

text \<open>What waking does to one process: it becomes runnable, and starts at or below zero.\<close>

definition woken :: "channel \<Rightarrow> proc \<Rightarrow> proc \<Rightarrow> bool" where
  "woken c p q \<longleftrightarrow>
     (if state p = SLEEPING \<and> chan p = c
      then \<exists>v. q = p\<lparr>state := RUNNABLE, vruntime := v\<rparr> \<and> int_ok v \<and> v \<le> 0
      else q = p)"

lemma wake_one_ok:
  assumes t: "table_ok t" and p: "p < NPROC" and m: "int_ok m" "m \<le> 0"
  shows "\<exists>x m' ne'. wake_one c p (t, m, ne) = Some (t[p := x], m', ne') \<and>
    woken c (t ! p) x \<and> proc_ok x \<and> int_ok m' \<and> m' \<le> 0"
proof (cases "state (t ! p) = SLEEPING \<and> chan (t ! p) = c")
  case False
  then show ?thesis
    using m table_okD [OF t p] by (auto simp: wake_one_def woken_def)
next
  case True
  let ?u = "upd t p (\<lambda>q. q\<lparr>state := RUNNABLE\<rparr>)"
  have pt: "p < length t" using t p by (simp add: table_ok_def)
  have u: "table_ok ?u" using table_ok_upd [OF t] table_okD [OF t p] by (simp add: proc_ok_def)
  obtain m' ne' where sc: "wake_scan ?u p (m, ne) = (m', ne')" by force
  then have m': "int_ok m'" "m' \<le> 0"
    using wake_scan_ok [OF u m(1), of p ne] wake_scan_le [of ?u p m ne] m(2) by simp_all
  obtain w where w: "nice2weight (priority (t ! p)) = Some w" "335 \<le> w" "w \<le> 3121"
    using nice2weight_table [OF t p] .
  have d: "1024000 sdiv w = 1024000 div w"
    using w(2) by (simp add: signed_divide_int_def)
  have d0: "0 \<le> 1024000 div w" "1024000 div w \<le> 3056"
    using w(2,3) zdiv_mono2 [of 1024000 335 w] by (simp_all add: pos_imp_zdiv_nonneg_iff)
  let ?d = "1024000 div w"
  have dok: "int_ok (- ?d)" using d0 by (simp add: int_ok_def MINIMUM_INT_def MAXIMUM_INT_def)
  obtain v where v: "(if ne' then if is_overflow m' (- ?d) then Some MINIMUM_INT else add_int m' (- ?d)
       else Some 0) = Some v" "int_ok v" "v \<le> 0"
  proof (cases "ne' \<and> int_ok (m' - ?d)")
    case True
    then show ?thesis
      using that [of "m' - ?d"] is_overflow_iff [OF m'(1) dok] add_int_ok [of m' "- ?d"] m' d0 by simp
  next
    case False
    then show ?thesis
      using that [of "if ne' then MINIMUM_INT else 0"] is_overflow_iff [OF m'(1) dok]
      by (auto simp: int_ok_def MINIMUM_INT_def MAXIMUM_INT_def)
  qed
  let ?x = "(t ! p)\<lparr>state := RUNNABLE, vruntime := v\<rparr>"
  have "wake_one c p (t, m, ne) = Some (t[p := ?x], m', ne')"
    using True sc pt w(1) v(1) by (simp add: wake_one_def Let_def d split: if_splits)
  moreover have "woken c (t ! p) ?x" using True v by (auto simp: woken_def)
  moreover have "proc_ok ?x" using table_okD [OF t p] v(2) by (simp add: proc_ok_def)
  ultimately show ?thesis using m' by blast
qed

lemma wakeup1_ok:
  assumes t: "table_ok t"
  shows "\<exists>t'. wakeup1 c t = Some t' \<and> table_ok t' \<and> (\<forall>i < NPROC. woken c (t ! i) (t' ! i))"
proof -
  let ?J = "\<lambda>k (u, m, ne). table_ok u \<and> int_ok m \<and> m \<le> 0 \<and>
    (\<forall>i < NPROC. if i < k then woken c (t ! i) (u ! i) else u ! i = t ! i)"
  have "\<exists>x. for_opt [0..<NPROC] (wake_one c) (t, min_loop t 0, False) = Some x \<and> ?J NPROC x"
  proof (rule for_opt_rule [where J = ?J])
    show "?J 0 (t, min_loop t 0, False)"
      using t min_loop_le min_loop_ok [OF t, of 0]
      by (simp add: int_ok_def MINIMUM_INT_def MAXIMUM_INT_def)
    show "\<exists>y. wake_one c i x = Some y \<and> ?J (Suc i) y" if i: "i < NPROC" and J: "?J i x" for i x
    proof -
      obtain u m ne where x: "x = (u, m, ne)" by (cases x)
      have u: "table_ok u" "int_ok m" "m \<le> 0" "u ! i = t ! i" using J i by (auto simp: x)
      obtain q m' ne' where q: "wake_one c i (u, m, ne) = Some (u[i := q], m', ne')"
        "woken c (u ! i) q" "proc_ok q" "int_ok m'" "m' \<le> 0"
        using wake_one_ok [OF u(1) i u(2,3)] by blast
      have "table_ok (u[i := q])" using table_ok_upd u(1) q(3) by simp
      moreover have "length u = NPROC" using u(1) by (simp add: table_ok_def)
      ultimately show ?thesis
        using q J u(4) i by (auto simp: x nth_list_update less_Suc_eq)
    qed
  qed
  then show ?thesis unfolding wakeup1_def by force
qed

section \<open>Choosing a process and its slice\<close>

lemma low_vruntime_p_ok:
  assumes "p < NPROC" "state (t ! p) = RUNNABLE"
  shows "low_vruntime_p t p < NPROC" "state (t ! low_vruntime_p t p) = RUNNABLE"
    "\<And>q. q < NPROC \<Longrightarrow> state (t ! q) = RUNNABLE \<Longrightarrow> vruntime (t ! low_vruntime_p t p) \<le> vruntime (t ! q)"
proof -
  let ?J = "\<lambda>k low. low < NPROC \<and> state (t ! low) = RUNNABLE \<and>
    (\<forall>q < k. state (t ! q) = RUNNABLE \<longrightarrow> vruntime (t ! low) \<le> vruntime (t ! q))"
  have "?J NPROC (low_vruntime_p t p)"
    unfolding low_vruntime_p_def
  proof (rule fold_rule [where J = ?J])
    show "?J 0 p" using assms by simp
  qed (fastforce simp: less_Suc_eq)
  then show "low_vruntime_p t p < NPROC" "state (t ! low_vruntime_p t p) = RUNNABLE"
    "\<And>q. q < NPROC \<Longrightarrow> state (t ! q) = RUNNABLE \<Longrightarrow> vruntime (t ! low_vruntime_p t p) \<le> vruntime (t ! q)"
    by auto
qed

text \<open>The weight of a process as a number, and the sum the scheduler computes.\<close>

definition weight_of :: "proc \<Rightarrow> nat" where
  "weight_of p = nat (nice2weight_arr ! nat (priority p + 5))"

definition runnable_weight :: "ptable \<Rightarrow> nat" where
  "runnable_weight t = (\<Sum>i < NPROC. if state (t ! i) = RUNNABLE then weight_of (t ! i) else 0)"

lemma weight_of_ok:
  assumes "proc_ok p"
  shows "nice2weight (priority p) = Some (int (weight_of p))" "335 \<le> weight_of p" "weight_of p \<le> 3121"
proof -
  obtain w where w: "nice2weight (priority p) = Some w" "335 \<le> w" "w \<le> 3121"
    using nice2weight_ok assms by (metis proc_ok_def)
  then have "weight_of p = nat w" by (simp add: nice2weight_def lget_def weight_of_def split: if_splits)
  with w show "nice2weight (priority p) = Some (int (weight_of p))" "335 \<le> weight_of p" "weight_of p \<le> 3121"
    by simp_all
qed

lemma total_weight_ok:
  assumes t: "table_ok t"
  shows "total_weight_of_runnable_process t = Some (word_of_nat (runnable_weight t))"
proof -
  let ?J = "\<lambda>k (r :: u32). r = word_of_nat (\<Sum>i < k. if state (t ! i) = RUNNABLE then weight_of (t ! i) else 0)"
  have "\<exists>r. total_weight_of_runnable_process t = Some r \<and> ?J NPROC r"
    unfolding total_weight_of_runnable_process_def
  proof (rule for_opt_rule [where J = ?J])
    show "\<exists>r'. (if state (t ! i) \<noteq> RUNNABLE then Some r
        else do { w \<leftarrow> nice2weight (priority (t ! i)); Some (r + word_of_int w) }) = Some r' \<and> ?J (Suc i) r'"
      if "i < NPROC" "?J i r" for i r
      using that weight_of_ok(1) [OF table_okD [OF t that(1)]] by (simp add: add.commute)
  qed simp
  then show ?thesis by (simp add: runnable_weight_def)
qed

lemma runnable_weight_le:
  assumes t: "table_ok t"
  shows "runnable_weight t \<le> 199744"
proof -
  have "runnable_weight t \<le> (\<Sum>i < NPROC. 3121)"
    unfolding runnable_weight_def
    by (rule sum_mono) (use weight_of_ok(3) table_okD [OF t] in \<open>auto intro: order_trans\<close>)
  then show ?thesis by (simp add: NPROC_def)
qed

lemma runnable_weight_ge:
  assumes "p < NPROC" "state (t ! p) = RUNNABLE"
  shows "weight_of (t ! p) \<le> runnable_weight t"
proof -
  let ?f = "\<lambda>i. if state (t ! i) = RUNNABLE then weight_of (t ! i) else 0"
  have "?f p \<le> sum ?f {..<NPROC}"
    by (rule member_le_sum) (use assms in auto)
  then show ?thesis using assms by (simp add: runnable_weight_def)
qed

text \<open>The slice is \<open>ceil (10000 * w / total)\<close>: the arithmetic on \<open>uint\<close>s does not wrap.\<close>

lemma time_slice_ok:
  assumes "0 < W" "W \<le> 199744" "w \<le> 3121"
  shows "time_slice (word_of_nat W) (int w) = Some (word_of_nat ((10000 * w + W - 1) div W))"
proof -
  have un: "unat (word_of_nat n :: u32) = n" if "n < 2 ^ 32" for n
    using that by (simp add: unat_of_nat take_bit_nat_eq_self)
  have uW: "unat (word_of_nat W :: u32) = W" using assms(2) by (intro un) simp
  then have nz: "(word_of_nat W :: u32) \<noteq> 0" using assms(1) by auto
  have "1000 * (word_of_int (10 * int w) :: u32) + word_of_nat W - 1 = word_of_nat (10000 * w + W - 1)"
    using assms(1) by (simp add: of_nat_diff)
  moreover have "(word_of_nat (10000 * w + W - 1) :: u32) div word_of_nat W =
      word_of_nat ((10000 * w + W - 1) div W)" (is "?l = word_of_nat ?q")
  proof -
    have "?q \<le> 10000 * w + W - 1" by simp
    also have le: "\<dots> < 2 ^ 32" using assms(2,3) by simp
    finally have q: "?q < 2 ^ 32" .
    have "unat ?l = unat (word_of_nat (10000 * w + W - 1) :: u32) div unat (word_of_nat W :: u32)"
      by (rule unat_div_distrib)
    also have "\<dots> = ?q" by (simp only: un [OF le] uW)
    finally have "unat ?l = unat (word_of_nat ?q :: u32)" by (simp only: un [OF q])
    then show ?thesis by (simp only: unsigned_word_eqI)
  qed
  ultimately show ?thesis using nz by (simp only: time_slice_def Let_def if_False)
qed


section \<open>The invariant of the kernel and its steps\<close>

text \<open>
  Nice values and virtual run times are in their ranges, process numbers are unique, parents
  are in the table, and a process is \<open>RUNNING\<close> only when it is the one on the processor.
\<close>

definition pids_ok :: "int \<Rightarrow> ptable \<Rightarrow> bool" where
  "pids_ok n t \<longleftrightarrow> 1 \<le> n \<and> (\<forall>i < NPROC. 0 \<le> pid (t ! i) \<and> pid (t ! i) < n) \<and>
     (\<forall>i < NPROC. \<forall>j < NPROC. pid (t ! i) = pid (t ! j) \<longrightarrow> pid (t ! i) \<noteq> 0 \<longrightarrow> i = j)"

definition parents_ok :: "ptable \<Rightarrow> bool" where
  "parents_ok t \<longleftrightarrow> (\<forall>i < NPROC. \<forall>j. parent (t ! i) = Some j \<longrightarrow> j < NPROC)"

definition running_ok :: "nat option \<Rightarrow> ptable \<Rightarrow> bool" where
  "running_ok c t \<longleftrightarrow> (\<forall>i < NPROC. state (t ! i) = RUNNING \<longrightarrow> c = Some i)"

definition kernel_ok :: "kernel \<Rightarrow> bool" where
  "kernel_ok s \<longleftrightarrow> table_ok (ptable s) \<and> pids_ok (nextpid s) (ptable s) \<and> parents_ok (ptable s) \<and>
     running_ok (cpu_proc s) (ptable s) \<and> initproc s < NPROC \<and>
     (\<forall>p. cpu_proc s = Some p \<longrightarrow> p < NPROC)"

text \<open>A change of the table, process by process, that keeps the invariant.\<close>

definition tame :: "nat option \<Rightarrow> nat \<Rightarrow> proc \<Rightarrow> proc \<Rightarrow> bool" where
  "tame c i p q \<longleftrightarrow> (pid q = pid p \<or> pid q = 0) \<and>
     (state q = RUNNING \<longrightarrow> state p = RUNNING \<or> c = Some i) \<and>
     (\<forall>j. parent q = Some j \<longrightarrow> parent p = Some j \<or> j < NPROC)"

lemma kernel_ok_pointwise:
  assumes "kernel_ok s" "table_ok t" "\<And>i. i < NPROC \<Longrightarrow> tame (cpu_proc s) i (ptable s ! i) (t ! i)"
  shows "kernel_ok (set_ptable t s)"
proof -
  have "pids_ok (nextpid s) t"
    using assms(1,3) unfolding kernel_ok_def pids_ok_def tame_def by (smt (verit))
  moreover have "parents_ok t" "running_ok (cpu_proc s) t"
    using assms(1,3) unfolding kernel_ok_def parents_ok_def running_ok_def tame_def by blast+
  ultimately show ?thesis using assms(1,2) by (simp add: kernel_ok_def set_ptable_def)
qed

lemma kernel_ok_upd:
  assumes "kernel_ok s" "p < NPROC" "proc_ok x" "tame (cpu_proc s) p (ptable s ! p) x"
  shows "kernel_ok (set_ptable ((ptable s)[p := x]) s)"
proof (rule kernel_ok_pointwise [OF assms(1)])
  have t: "table_ok (ptable s)" using assms(1) by (simp add: kernel_ok_def)
  then show "table_ok ((ptable s)[p := x])" using table_ok_upd assms(3) by simp
  show "tame (cpu_proc s) i (ptable s ! i) ((ptable s)[p := x] ! i)" if "i < NPROC" for i
    using assms(4) t that by (cases "i = p") (auto simp: table_ok_def tame_def)
qed

lemma kernel_okD:
  assumes "kernel_ok s"
  shows "table_ok (ptable s)" "initproc s < NPROC" "length (ptable s) = NPROC"
    "i < NPROC \<Longrightarrow> proc_ok (ptable s ! i)" "cpu_proc s = Some p \<Longrightarrow> p < NPROC"
  using assms table_okD by (auto simp: kernel_ok_def table_ok_def)

subsection \<open>Each operation keeps it, and returns\<close>

lemma woken_tame: "woken c p q \<Longrightarrow> tame r i p q"
  by (auto simp: woken_def tame_def split: if_splits)

lemma set_ptable_simps [simp]:
  "ptable (set_ptable t s) = t" "cpu_proc (set_ptable t s) = cpu_proc s"
  "initproc (set_ptable t s) = initproc s" "nextpid (set_ptable t s) = nextpid s"
  "set_ptable t (set_ptable u s) = set_ptable t s" "set_ptable (ptable s) s = s"
  by (simp_all add: set_ptable_def)

lemma wakeup1_kernel:
  assumes k: "kernel_ok (set_ptable t s)"
  shows "\<exists>v. wakeup1 c t = Some v \<and> kernel_ok (set_ptable v s) \<and> (\<forall>i < NPROC. woken c (t ! i) (v ! i))"
proof -
  obtain v where v: "wakeup1 c t = Some v" "table_ok v" "\<forall>i < NPROC. woken c (t ! i) (v ! i)"
    using wakeup1_ok kernel_okD(1) [OF k] by fastforce
  have "kernel_ok (set_ptable v (set_ptable t s))"
    by (rule kernel_ok_pointwise [OF k v(2)]) (use woken_tame v(3) in auto)
  with v show ?thesis by auto
qed

lemma wakeup_ok:
  assumes "kernel_ok s"
  obtains s' where "wakeup c s = Some s'" "kernel_ok s'" "cpu_proc s' = cpu_proc s"
    "\<And>i. i < NPROC \<Longrightarrow> woken c (ptable s ! i) (ptable s' ! i)"
proof -
  obtain t' where t': "wakeup1 c (ptable s) = Some t'" "table_ok t'"
    "\<forall>i < NPROC. woken c (ptable s ! i) (t' ! i)"
    using wakeup1_ok kernel_okD(1) [OF assms] by blast
  have "kernel_ok (set_ptable t' s)"
    using kernel_ok_pointwise [OF assms t'(2)] woken_tame t'(3) by blast
  then show ?thesis
    by (intro that [of "set_ptable t' s"]) (use t' in \<open>auto simp: wakeup_def set_ptable_def\<close>)
qed

lemma kill_ok:
  assumes "kernel_ok s"
  shows "kernel_ok (set_ptable (snd (kill i (ptable s))) s)"
proof (cases "find (\<lambda>p. pid (ptable s ! p) = i) [0..<NPROC]")
  case None
  then show ?thesis using assms by (simp add: kill_def set_ptable_def)
next
  case (Some p)
  then have p: "p < NPROC" using find_upt_Some by fastforce
  with kernel_ok_upd [OF assms p] kernel_okD(4) [OF assms] Some show ?thesis
    by (simp add: kill_def proc_ok_def tame_def)
qed

lemma setnice_ok:
  assumes "kernel_ok s"
  shows "kernel_ok (set_ptable (snd (setnice i nice (ptable s))) s)"
proof (cases "\<not> (nice < -5 \<or> nice > 5) \<and> find (\<lambda>p. pid (ptable s ! p) = i) [0..<NPROC] \<noteq> None")
  case False
  then have "snd (setnice i nice (ptable s)) = ptable s" by (auto simp: setnice_def split: option.splits)
  then show ?thesis using assms by (simp add: set_ptable_def)
next
  case True
  then obtain p where f: "find (\<lambda>p. pid (ptable s ! p) = i) [0..<NPROC] = Some p" by blast
  then have p: "p < NPROC" using find_upt_Some by fastforce
  with kernel_ok_upd [OF assms p] kernel_okD(4) [OF assms] f True show ?thesis
    by (simp add: setnice_def proc_ok_def tame_def)
qed

lemma sleep_enter_ok: "kernel_ok s \<Longrightarrow> p < NPROC \<Longrightarrow> kernel_ok (set_ptable (sleep_enter c p (ptable s)) s)"
  unfolding sleep_enter_def
  by (rule kernel_ok_upd) (auto simp: proc_ok_def tame_def dest: kernel_okD(4))

lemma sleep_leave_ok: "kernel_ok s \<Longrightarrow> p < NPROC \<Longrightarrow> kernel_ok (set_ptable (sleep_leave p (ptable s)) s)"
  unfolding sleep_leave_def
  by (rule kernel_ok_upd) (auto simp: proc_ok_def tame_def dest: kernel_okD(4))

lemma timer_yield_ok:
  assumes "kernel_ok s"
  shows "kernel_ok (timer_yield s)"
proof (cases "cpu_proc s")
  case (Some p)
  with kernel_ok_upd [OF assms kernel_okD(5) [OF assms]] kernel_okD(4,5) [OF assms] assms
  show ?thesis by (auto simp: timer_yield_def proc_ok_def tame_def)
qed (use assms in \<open>simp add: timer_yield_def\<close>)

lemma yield_proc_ok:
  assumes "kernel_ok s" "cpu_proc s = Some c"
  shows "kernel_ok (yield_proc c s)"
  using kernel_ok_upd [OF assms(1) kernel_okD(5) [OF assms(1)]] kernel_okD(4,5) [OF assms(1)] assms
  by (auto simp: yield_proc_def proc_ok_def tame_def)

lemma wait_scan_ok:
  assumes "kernel_ok s" "c < NPROC"
  shows "kernel_ok (set_ptable (snd (wait_scan c (ptable s))) s)"
proof (cases "find (\<lambda>p. parent (ptable s ! p) = Some c \<and> state (ptable s ! p) = ZOMBIE) [0..<NPROC]")
  case None
  then show ?thesis
    using assms kernel_ok_upd [OF assms] kernel_okD(4) [OF assms]
    by (auto simp: wait_scan_def proc_ok_def tame_def set_ptable_def)
next
  case (Some p)
  then have p: "p < NPROC" using find_upt_Some by fastforce
  with kernel_ok_upd [OF assms(1) p] kernel_okD(4) [OF assms(1)] Some show ?thesis
    by (simp add: wait_scan_def proc_ok_def tame_def)
qed


text \<open>Allocation: a slot that was unused gets the next process number.\<close>

lemma allocproc_ok:
  assumes k: "kernel_ok s" and n: "nextpid s < MAXIMUM_INT"
  shows "\<exists>r s'. allocproc kstk s = Some (r, s') \<and> kernel_ok s' \<and> cpu_proc s' = cpu_proc s \<and>
    initproc s' = initproc s \<and>
    (case r of
       None \<Rightarrow> kstk = 0 \<or> (\<forall>p < NPROC. state (ptable s ! p) \<noteq> UNUSED)
     | Some p \<Rightarrow> p < NPROC \<and> state (ptable s ! p) = UNUSED \<and> state (ptable s' ! p) = EMBRYO \<and>
         pid (ptable s' ! p) = nextpid s \<and> (\<forall>q < NPROC. q \<noteq> p \<longrightarrow> ptable s' ! q = ptable s ! q))"
proof (cases "find (\<lambda>p. state (ptable s ! p) = UNUSED) [0..<NPROC]")
  case None
  then have "\<forall>p < NPROC. state (ptable s ! p) \<noteq> UNUSED" by (simp add: find_upt_None)
  then show ?thesis using k None by (simp add: allocproc_def)
next
  case (Some p)
  then have p: "p < NPROC" "state (ptable s ! p) = UNUSED" using find_upt_Some by fastforce+
  note len = kernel_okD(3) [OF k]
  have n1: "1 \<le> nextpid s" "\<And>i. i < NPROC \<Longrightarrow> 0 \<le> pid (ptable s ! i) \<and> pid (ptable s ! i) < nextpid s"
    using k by (simp_all add: kernel_ok_def pids_ok_def)
  let ?x = "(ptable s ! p)\<lparr>state := EMBRYO, pid := nextpid s, priority := 0, runtime := 0, kstack := kstk\<rparr>"
  let ?s = "s\<lparr>ptable := (ptable s)[p := ?x], nextpid := nextpid s + 1\<rparr>"
  have pid: "pid (ptable ?s ! i) = (if i = p then nextpid s else pid (ptable s ! i))"
    if "i < NPROC" for i
    using that len by (simp add: nth_list_update)
  have "i = j" if "i < NPROC" "j < NPROC" "pid (ptable ?s ! i) = pid (ptable ?s ! j)"
    "pid (ptable ?s ! i) \<noteq> 0" for i j
  proof -
    have "pid (ptable s ! i) = pid (ptable s ! j) \<Longrightarrow> pid (ptable s ! i) \<noteq> 0 \<Longrightarrow> i = j"
      using k that(1,2) by (simp add: kernel_ok_def pids_ok_def)
    then show ?thesis using that n1(2) [OF that(1)] n1(2) [OF that(2)]
      unfolding pid [OF that(1)] pid [OF that(2)] by (simp split: if_splits)
  qed
  moreover have "0 \<le> pid (ptable ?s ! i) \<and> pid (ptable ?s ! i) < nextpid s + 1" if "i < NPROC" for i
    using n1(1) n1(2) [OF that] unfolding pid [OF that] by simp
  ultimately have "pids_ok (nextpid ?s) (ptable ?s)"
    unfolding pids_ok_def using n1(1) by simp
  moreover have "table_ok (ptable ?s)"
    using table_ok_upd kernel_okD(1,4) [OF k] p(1) by (simp add: proc_ok_def)
  moreover have "parents_ok (ptable ?s)" "running_ok (cpu_proc ?s) (ptable ?s)"
  proof -
    have nth: "ptable ?s ! i = (if i = p then ?x else ptable s ! i)" if "i < NPROC" for i
      using that len by (simp add: nth_list_update)
    have e: "parent (ptable ?s ! i) = parent (ptable s ! i)"
      "state (ptable ?s ! i) = RUNNING \<Longrightarrow> state (ptable s ! i) = RUNNING" if "i < NPROC" for i
      unfolding nth [OF that] by (simp_all split: if_splits)
    have old: "parents_ok (ptable s)" "running_ok (cpu_proc s) (ptable s)" "cpu_proc ?s = cpu_proc s"
      using k by (simp_all add: kernel_ok_def)
    show "parents_ok (ptable ?s)"
      unfolding parents_ok_def
    proof (intro allI impI)
      show "j < NPROC" if "i < NPROC" "parent (ptable ?s ! i) = Some j" for i j
        using old(1) that(1) that(2) [unfolded e(1) [OF that(1)]] unfolding parents_ok_def by blast
    qed
    show "running_ok (cpu_proc ?s) (ptable ?s)"
      using old(2) e(2) unfolding old(3) running_ok_def by blast
  qed
  ultimately have s: "kernel_ok ?s" using k by (simp add: kernel_ok_def)
  have a: "add_int (nextpid s) 1 = Some (nextpid s + 1)"
    using n n1 by (intro add_int_ok) (simp add: int_ok_def MINIMUM_INT_def MAXIMUM_INT_def)
  show ?thesis
  proof (cases "kstk = 0")
    case True
    have "kernel_ok (set_ptable (upd (ptable ?s) p (\<lambda>q. q\<lparr>state := UNUSED\<rparr>)) ?s)"
      by (rule kernel_ok_upd [OF s p(1)])
        (use kernel_okD(4) [OF s p(1)] in \<open>auto simp: proc_ok_def tame_def\<close>)
    then show ?thesis using Some True a by (simp add: allocproc_def set_ptable_def)
  next
    case False
    then show ?thesis using Some a s p len by (simp add: allocproc_def)
  qed
qed

text \<open>A fork by the process on the processor: the child is runnable and inherits its parent's values.\<close>

lemma fork_ok:
  assumes k: "kernel_ok s" and n: "nextpid s < MAXIMUM_INT" and c: "c < NPROC"
    "state (ptable s ! c) \<noteq> UNUSED"
  shows "\<exists>r s'. fork kstk pg c s = Some (r, s') \<and> kernel_ok s' \<and> cpu_proc s' = cpu_proc s \<and>
    (r = -1 \<and> (kstk = 0 \<or> pg = 0 \<or> (\<forall>p < NPROC. state (ptable s ! p) \<noteq> UNUSED)) \<or>
     r = nextpid s \<and> (\<exists>p < NPROC. state (ptable s ! p) = UNUSED \<and> pid (ptable s' ! p) = r \<and>
        state (ptable s' ! p) = RUNNABLE \<and> parent (ptable s' ! p) = Some c \<and>
        priority (ptable s' ! p) = priority (ptable s ! c) \<and>
        vruntime (ptable s' ! p) = vruntime (ptable s ! c)))"
proof -
  obtain r s1 where a: "allocproc kstk s = Some (r, s1)" "kernel_ok s1" "cpu_proc s1 = cpu_proc s"
    and r: "case r of
       None \<Rightarrow> kstk = 0 \<or> (\<forall>p < NPROC. state (ptable s ! p) \<noteq> UNUSED)
     | Some p \<Rightarrow> p < NPROC \<and> state (ptable s ! p) = UNUSED \<and> state (ptable s1 ! p) = EMBRYO \<and>
         pid (ptable s1 ! p) = nextpid s \<and> (\<forall>q < NPROC. q \<noteq> p \<longrightarrow> ptable s1 ! q = ptable s ! q)"
    using allocproc_ok [OF k n, of kstk] by blast
  show ?thesis
  proof (cases r)
    case None
    then show ?thesis using a r by (auto simp: fork_def)
  next
    case (Some p)
    then have p: "p < NPROC" "state (ptable s ! p) = UNUSED" "pid (ptable s1 ! p) = nextpid s"
      "ptable s1 ! c = ptable s ! c" "p \<noteq> c"
      using r c by auto
    let ?s2 = "set_ptable (upd (ptable s1) p (\<lambda>q. q\<lparr>pgdir := pg\<rparr>)) s1"
    have k2: "kernel_ok ?s2"
      by (rule kernel_ok_upd [OF a(2) p(1)])
        (use kernel_okD(4) [OF a(2) p(1)] in \<open>auto simp: proc_ok_def tame_def\<close>)
    have f: "ptable ?s2 ! p = (ptable s1 ! p)\<lparr>pgdir := pg\<rparr>" "ptable ?s2 ! c = ptable s ! c"
      "cpu_proc ?s2 = cpu_proc s" "length (ptable ?s2) = NPROC"
      using kernel_okD(3) [OF a(2)] p a(3) by (simp_all add: set_ptable_def)
    have st: "state (ptable s1 ! p) = EMBRYO" using r Some by simp
    show ?thesis
    proof (cases "pg = 0")
      case True
      have "kernel_ok (set_ptable (upd (ptable ?s2) p (\<lambda>q. q\<lparr>kstack := 0, state := UNUSED\<rparr>)) ?s2)"
        by (rule kernel_ok_upd [OF k2 p(1)])
          (use kernel_okD(4) [OF k2 p(1)] in \<open>auto simp: proc_ok_def tame_def\<close>)
      then show ?thesis using a Some True f(3) by (simp add: fork_def Let_def set_ptable_def)
    next
      case False
      let ?x = "(ptable ?s2 ! p)\<lparr>sz := sz (ptable s ! c), parent := Some c, name := take 15 (name (ptable s ! c)),
        state := RUNNABLE, priority := priority (ptable s ! c), vruntime := vruntime (ptable s ! c)\<rparr>"
      have "kernel_ok (set_ptable ((ptable ?s2)[p := ?x]) ?s2)"
        by (rule kernel_ok_upd [OF k2 p(1)])
          (use kernel_okD(4) [OF k c(1)] c(1) in \<open>auto simp: proc_ok_def tame_def\<close>)
      moreover have "fork kstk pg c s = Some (nextpid s, set_ptable ((ptable ?s2)[p := ?x]) ?s2)"
        using a(1) Some False p(1,3) f by (simp add: fork_def Let_def)
      ultimately show ?thesis
        using p f
        by (intro exI [of _ "nextpid s"] exI [of _ "set_ptable ((ptable ?s2)[p := ?x]) ?s2"] conjI disjI2
            exI [of _ p]) (simp_all add: set_ptable_def)
    qed
  qed
qed


text \<open>The end of a process: its children go to \<open>init\<close>, and it is a zombie.\<close>

lemma exit_proc_ok:
  assumes k: "kernel_ok s" and c: "c < NPROC" "c \<noteq> initproc s"
  shows "\<exists>s'. exit_proc c s = Some (Inr s') \<and> kernel_ok s' \<and> cpu_proc s' = cpu_proc s \<and>
    state (ptable s' ! c) = ZOMBIE \<and> (\<forall>i < NPROC. parent (ptable s' ! i) \<noteq> Some c)"
proof -
  let ?i = "initproc s"
  obtain t1 where t1: "wakeup1 (chan_of (parent (ptable s ! c))) (ptable s) = Some t1"
    and k1: "kernel_ok (set_ptable t1 s)"
    using wakeup1_kernel [of "ptable s" s] k by auto
  let ?f = "\<lambda>p t. if parent (t ! p) = Some c
      then let t = upd t p (\<lambda>q. q\<lparr>parent := Some ?i\<rparr>) in
           if state (t ! p) = ZOMBIE then wakeup1 (OnProc ?i) t else Some t
      else Some t"
  let ?J = "\<lambda>n t. kernel_ok (set_ptable t s) \<and> (\<forall>i < n. parent (t ! i) \<noteq> Some c)"
  have "\<exists>t2. for_opt [0..<NPROC] ?f t1 = Some t2 \<and> ?J NPROC t2"
  proof (rule for_opt_rule [where J = ?J])
    show "?J 0 t1" using k1 by simp
    show "\<exists>t'. ?f n t = Some t' \<and> ?J (Suc n) t'" if n: "n < NPROC" and J: "?J n t" for n t
    proof (cases "parent (t ! n) = Some c")
      case False
      then show ?thesis using J by (auto simp: less_Suc_eq)
    next
      case True
      let ?u = "upd t n (\<lambda>q. q\<lparr>parent := Some ?i\<rparr>)"
      have kt: "kernel_ok (set_ptable t s)" and pt: "\<forall>i < n. parent (t ! i) \<noteq> Some c" using J by blast+
      have len: "length t = NPROC" using kernel_okD(3) [OF kt] by (simp add: set_ptable_def)
      have ku: "kernel_ok (set_ptable ?u s)"
        using kernel_ok_upd [OF kt n] kernel_okD(2,4) [OF kt] n
        by (simp add: set_ptable_def proc_ok_def tame_def)
      have pu: "\<forall>i < Suc n. parent (?u ! i) \<noteq> Some c"
        using pt c(2) n len by (auto simp: less_Suc_eq)
      show ?thesis
      proof (cases "state (?u ! n) = ZOMBIE")
        case False
        then show ?thesis using True ku pu by (simp add: Let_def)
      next
        case z: True
        obtain v where v: "wakeup1 (OnProc ?i) ?u = Some v" "kernel_ok (set_ptable v s)"
          "\<forall>i < NPROC. woken (OnProc ?i) (?u ! i) (v ! i)"
          using wakeup1_kernel [OF ku] by blast
        moreover have "parent (v ! i) = parent (?u ! i)" if "i < NPROC" for i
          using v(3) that by (auto simp: woken_def split: if_splits)
        ultimately have "?J (Suc n) v" using v(2) pu n by simp
        moreover have "?f n t = Some v" using True z v(1) by (simp add: Let_def)
        ultimately show ?thesis by blast
      qed
    qed
  qed
  then obtain t2 where t2: "for_opt [0..<NPROC] ?f t1 = Some t2" "kernel_ok (set_ptable t2 s)"
    "\<forall>i < NPROC. parent (t2 ! i) \<noteq> Some c" by blast
  let ?t3 = "upd t2 c (\<lambda>q. q\<lparr>state := ZOMBIE\<rparr>)"
  have len: "length t2 = NPROC" using kernel_okD(3) [OF t2(2)] by (simp add: set_ptable_def)
  have "kernel_ok (set_ptable ?t3 s)"
    using kernel_ok_upd [OF t2(2) c(1)] kernel_okD(4) [OF t2(2) c(1)]
    by (simp add: set_ptable_def proc_ok_def tame_def)
  moreover have "exit_proc c s = Some (Inr (set_ptable ?t3 s))"
    unfolding exit_proc_def if_not_P [OF c(2)] t1 bind.bind_lunit t2(1) ..
  moreover have "parent (?t3 ! i) \<noteq> Some c" if "i < NPROC" for i
    using t2(3) that len by (cases "i = c") auto
  ultimately show ?thesis using c(1) len by (auto simp: set_ptable_def)
qed

text \<open>The scheduler's choice: the runnable process with the lowest virtual run time is made to run.\<close>

lemma dispatch_ok:
  assumes k: "kernel_ok s" and c: "cpu_proc s = None" and p: "p < NPROC" "state (ptable s ! p) = RUNNABLE"
  shows "\<exists>s'. dispatch p s = Some s' \<and> kernel_ok s' \<and> cpu_proc s' = Some p \<and>
    state (ptable s' ! p) = RUNNING \<and> weight (ptable s' ! p) = int (weight_of (ptable s ! p)) \<and>
    runtime_interval (ptable s' ! p) = 0 \<and>
    unat (timeslice (ptable s' ! p)) =
      (10000 * weight_of (ptable s ! p) + runnable_weight (ptable s) - 1) div runnable_weight (ptable s)"
proof -
  let ?t = "ptable s" and ?w = "weight_of (ptable s ! p)" and ?W = "runnable_weight (ptable s)"
  note t = kernel_okD(1) [OF k] and len = kernel_okD(3) [OF k]
  note w = weight_of_ok [OF table_okD [OF t p(1)]]
  have W: "?w \<le> ?W" "?W \<le> 199744" using runnable_weight_ge [of p ?t] p runnable_weight_le [OF t] by auto
  define q where "q = (10000 * ?w + ?W - 1) div ?W"
  have q: "time_slice (word_of_nat ?W) (int ?w) = Some (word_of_nat q)"
    unfolding q_def by (rule time_slice_ok) (use W w in auto)
  have "q \<le> 10000 * ?w + ?W - 1" unfolding q_def by simp
  then have "unat (word_of_nat q :: u32) = q"
    using W w(3) by (simp add: unat_of_nat take_bit_nat_eq_self)
  note uq = this
  let ?x = "(?t ! p)\<lparr>weight := int ?w, runtime_interval := 0, timeslice := word_of_nat q, state := RUNNING\<rparr>"
  let ?s = "s\<lparr>ptable := ?t[p := ?x], cpu_proc := Some p\<rparr>"
  have "kernel_ok (s\<lparr>cpu_proc := Some p\<rparr>)"
    using k c p(1) by (auto simp: kernel_ok_def running_ok_def)
  from kernel_ok_upd [OF this p(1), of ?x] kernel_okD(4) [OF k p(1)]
  have "kernel_ok (set_ptable (?t[p := ?x]) (s\<lparr>cpu_proc := Some p\<rparr>))"
    by (simp add: proc_ok_def tame_def)
  moreover have "set_ptable (?t[p := ?x]) (s\<lparr>cpu_proc := Some p\<rparr>) = ?s"
    by (simp add: set_ptable_def)
  ultimately have "kernel_ok ?s" by (simp only:)
  moreover have "dispatch p s = Some ?s"
    by (simp add: dispatch_def w(1) total_weight_ok [OF t] q)
  ultimately show ?thesis using len p(1) uq by (auto simp: q_def)
qed


subsection \<open>The tick\<close>

text \<open>The charge of a tick: \<open>ceil (1000 * 1024 / weight)\<close>.\<close>

definition charge :: "proc \<Rightarrow> int" where
  "charge p = (1024000 + int (weight_of p) - 1) div int (weight_of p)"

lemma charge_bound:
  assumes "proc_ok p"
  shows "0 < charge p" "charge p \<le> 4096"
proof -
  note w = weight_of_ok [OF assms]
  have "int (weight_of p) * 1 \<le> 1024000 + int (weight_of p) - 1" by simp
  then show "0 < charge p" using w(2) by (simp add: charge_def pos_imp_zdiv_pos_iff)
  have "charge p = (1024000 - 1) div int (weight_of p) + 1"
    unfolding charge_def using w(2) div_add_self2 [of "int (weight_of p)" "1024000 - 1"]
    by (simp add: algebra_simps)
  also have "(1024000 - 1) div int (weight_of p) \<le> (1024000 - 1) div 335"
    using w(2) by (intro zdiv_mono2) auto
  finally show "charge p \<le> 4096" by simp
qed

text \<open>The table after the running process \<open>p\<close> was charged.\<close>

definition charged :: "nat \<Rightarrow> ptable \<Rightarrow> ptable" where
  "charged p t =
     (let u = upd t p (\<lambda>q. q\<lparr>runtime := runtime q + 1000, runtime_interval := runtime_interval q + 1000\<rparr>);
          d = charge (t ! p);
          u' = (if int_ok (vruntime (t ! p) + d) then u else map (shifted (- 0x0FFFFFFF)) u)
      in upd u' p (\<lambda>q. q\<lparr>vruntime := vruntime q + d\<rparr>))"

lemma charged_simps:
  assumes "length t = NPROC" "i < NPROC" "p < NPROC"
  shows "state (charged p t ! i) = state (t ! i)" "pid (charged p t ! i) = pid (t ! i)"
    "parent (charged p t ! i) = parent (t ! i)" "priority (charged p t ! i) = priority (t ! i)"
  using assms by (cases "i = p"; simp add: charged_def Let_def shifted_def)+

lemma charged_ok:
  assumes t: "table_ok t" and p: "p < NPROC" "state (t ! p) = RUNNING"
  shows "table_ok (charged p t)"
    "vruntime (charged p t ! p) = (if int_ok (vruntime (t ! p) + charge (t ! p)) then vruntime (t ! p)
       else vruntime (t ! p) - 0x0FFFFFFF) + charge (t ! p)"
proof -
  let ?d = "charge (t ! p)"
  let ?u = "upd t p (\<lambda>q. q\<lparr>runtime := runtime q + 1000, runtime_interval := runtime_interval q + 1000\<rparr>)"
  let ?u' = "if int_ok (vruntime (t ! p) + ?d) then ?u else map (shifted (- 0x0FFFFFFF)) ?u"
  have d: "0 < ?d" "?d \<le> 4096" using charge_bound table_okD [OF t p(1)] by auto
  have len: "p < length t" using t p(1) by (simp add: table_ok_def)
  have v: "int_ok (vruntime (t ! p))" using table_okD [OF t p(1)] by (simp add: proc_ok_def)
  have u: "table_ok ?u" using table_ok_upd [OF t] table_okD [OF t p(1)] by (simp add: proc_ok_def)
  have u': "table_ok ?u'" using u table_ok_shifted [OF u] by simp
  have vr: "vruntime (?u' ! p) = (if int_ok (vruntime (t ! p) + ?d) then vruntime (t ! p)
       else vruntime (t ! p) - 0x0FFFFFFF)"
    using len v d p(2)
    by (auto simp: shifted_def live_def int_ok_def MINIMUM_INT_def MAXIMUM_INT_def)
  have ok: "int_ok (vruntime (?u' ! p) + ?d)"
    unfolding vr using v d by (auto simp: int_ok_def MINIMUM_INT_def MAXIMUM_INT_def)
  have c: "charged p t = upd ?u' p (\<lambda>q. q\<lparr>vruntime := vruntime q + ?d\<rparr>)"
    by (simp add: charged_def Let_def)
  show "table_ok (charged p t)"
    unfolding c using table_ok_upd [OF u'] table_okD [OF u' p(1)] ok by (simp add: proc_ok_def)
  show "vruntime (charged p t ! p) = (if int_ok (vruntime (t ! p) + ?d) then vruntime (t ! p)
       else vruntime (t ! p) - 0x0FFFFFFF) + ?d"
    unfolding c using len vr by simp
qed

lemma charge_process_ok:
  assumes t: "table_ok t" and pN: "p < NPROC" and p: "state (t ! p) = RUNNING"
  shows "charge_process p t = Some (charged p t)"
proof -
  let ?d = "charge (t ! p)"
  let ?u = "upd t p (\<lambda>q. q\<lparr>runtime := runtime q + 1000, runtime_interval := runtime_interval q + 1000\<rparr>)"
  let ?u' = "if int_ok (vruntime (t ! p) + ?d) then ?u else map (shifted (- 0x0FFFFFFF)) ?u"
  have len: "length t = NPROC" and po: "proc_ok (t ! p)" using t table_okD [OF t pN] by (simp_all add: table_ok_def)
  note ch = charged_ok [OF t pN p]
  have w: "nice2weight (priority (?u ! p)) = Some (int (weight_of (t ! p)))"
    using weight_of_ok(1) [OF po] pN len by simp
  have sd: "(1000 * 1024 + int (weight_of (t ! p)) - 1) sdiv int (weight_of (t ! p)) = ?d"
    using weight_of_ok(2) [OF po] by (simp add: charge_def signed_divide_int_def)
  have u: "table_ok ?u" using table_ok_upd [OF t] po by (simp add: proc_ok_def)
  have lv: "live (?u ! p)" and vu: "vruntime (?u ! p) = vruntime (t ! p)"
    using p pN len by (simp_all add: live_def)
  have st: "settle ?d p ?u = Some ?u'"
    using settle_ok [OF u pN lv charge_bound [OF po]] unfolding vu .
  have "length ?u' = NPROC" using len by simp
  then have "vruntime (charged p t ! p) = vruntime (?u' ! p) + ?d"
    using pN by (simp only: charged_def Let_def nth_list_update_eq) simp
  moreover have "int_ok (vruntime (charged p t ! p))"
    using table_okD [OF ch(1) pN] by (simp add: proc_ok_def)
  ultimately have ad: "add_int (vruntime (?u' ! p)) ?d = Some (vruntime (?u' ! p) + ?d)"
    by (intro add_int_ok) simp
  show ?thesis
    by (simp only: charge_process_def Let_def w sd st ad bind.bind_lunit charged_def)
qed

lemma timer_tick_ok:
  assumes k: "kernel_ok s"
  shows "\<exists>s'. timer_tick s = Some s' \<and> kernel_ok s' \<and> ticks s' = ticks s + 1000 \<and>
    cpu_proc s' = cpu_proc s \<and>
    (\<forall>i < NPROC. woken OnTicks
       ((case cpu_proc s of
           None \<Rightarrow> ptable s
         | Some p \<Rightarrow> if state (ptable s ! p) = RUNNING then charged p (ptable s) else ptable s) ! i)
       (ptable s' ! i))"
proof -
  let ?s = "s\<lparr>ticks := ticks s + 1000\<rparr>"
  have ks: "kernel_ok ?s" using k by (simp add: kernel_ok_def)
  let ?c = "case cpu_proc s of
      None \<Rightarrow> ptable s
    | Some p \<Rightarrow> if state (ptable s ! p) = RUNNING then charged p (ptable s) else ptable s"
  let ?charge = "case cpu_proc ?s of
      None \<Rightarrow> Some (ptable ?s)
    | Some p \<Rightarrow> if state (ptable ?s ! p) \<noteq> RUNNING then Some (ptable ?s) else charge_process p (ptable ?s)"
  have "?charge = Some ?c \<and> kernel_ok (set_ptable ?c ?s)"
  proof (cases "\<exists>p. cpu_proc s = Some p \<and> state (ptable s ! p) = RUNNING")
    case False
    then show ?thesis using ks by (auto simp: set_ptable_def split: option.splits)
  next
    case True
    then obtain p where p: "cpu_proc s = Some p" "state (ptable s ! p) = RUNNING" by blast
    have pN: "p < NPROC" using kernel_okD(5) [OF k p(1)] .
    note t = kernel_okD(1) [OF k] and len = kernel_okD(3) [OF k]
    have "kernel_ok (set_ptable (charged p (ptable s)) ?s)"
      by (rule kernel_ok_pointwise [OF ks charged_ok(1) [OF t pN p(2)]])
        (use charged_simps [OF len _ pN] in \<open>simp add: tame_def\<close>)
    then show ?thesis using p charge_process_ok [OF t pN p(2)] by simp
  qed
  then have c: "?charge = Some ?c" "kernel_ok (set_ptable ?c ?s)" by blast+
  have "timer_tick s = wakeup OnTicks (set_ptable ?c ?s)"
    unfolding timer_tick_def Let_def using c(1) by (simp only: bind.bind_lunit Let_def)
  moreover obtain s' where s': "wakeup OnTicks (set_ptable ?c ?s) = Some s'" "kernel_ok s'"
    "cpu_proc s' = cpu_proc (set_ptable ?c ?s)"
    and wk: "\<And>i. i < NPROC \<Longrightarrow> woken OnTicks (ptable (set_ptable ?c ?s) ! i) (ptable s' ! i)"
    using wakeup_ok [OF c(2), of OnTicks] by blast
  moreover have "ticks s' = ticks s + 1000"
    using s'(1) unfolding wakeup_def by (auto simp: set_ptable_def split: bind_splits)
  moreover have "cpu_proc s' = cpu_proc s" using s'(3) by simp
  ultimately show ?thesis using s'(1,2) wk unfolding set_ptable_simps by (intro exI [of _ s'] conjI allI impI) simp_all
qed


section \<open>The kernel as a state machine\<close>

text \<open>
  The steps of a kernel with one processor, which is what the \<open>Makefile\<close> runs (\<open>CPUS := 1\<close>): what the running process or an interrupt does to
  the table, the switch to the scheduler by a process that stopped running, and the dispatch.
\<close>

inductive kstep :: "kernel \<Rightarrow> kernel \<Rightarrow> bool" where
  step_fork: "cpu_proc s = Some c \<Longrightarrow> state (ptable s ! c) = RUNNING \<Longrightarrow> nextpid s < MAXIMUM_INT
    \<Longrightarrow> fork kstk pg c s = Some (r, s') \<Longrightarrow> kstep s s'"
| step_exit: "cpu_proc s = Some c \<Longrightarrow> state (ptable s ! c) = RUNNING
    \<Longrightarrow> exit_proc c s = Some (Inr s') \<Longrightarrow> kstep s s'"
| step_wait: "cpu_proc s = Some c \<Longrightarrow> state (ptable s ! c) = RUNNING
    \<Longrightarrow> kstep s (set_ptable (snd (wait_scan c (ptable s))) s)"
| step_sleep: "cpu_proc s = Some c \<Longrightarrow> state (ptable s ! c) = RUNNING
    \<Longrightarrow> kstep s (set_ptable (sleep_enter ch c (ptable s)) s)"
| step_sleep_leave: "cpu_proc s = Some c \<Longrightarrow> state (ptable s ! c) = RUNNING
    \<Longrightarrow> kstep s (set_ptable (sleep_leave c (ptable s)) s)"
| step_wakeup: "wakeup ch s = Some s' \<Longrightarrow> kstep s s'"
| step_kill: "kstep s (set_ptable (snd (kill i (ptable s))) s)"
| step_setnice: "kstep s (set_ptable (snd (setnice i n (ptable s))) s)"
| step_tick: "timer_tick s = Some s' \<Longrightarrow> kstep s s'"
| step_yield: "kstep s (timer_yield s)"
| step_sys_yield: "cpu_proc s = Some c \<Longrightarrow> state (ptable s ! c) = RUNNING \<Longrightarrow> kstep s (yield_proc c s)"
| step_switch: "cpu_proc s = Some c \<Longrightarrow> state (ptable s ! c) \<noteq> RUNNING \<Longrightarrow> kstep s (s\<lparr>cpu_proc := None\<rparr>)"
| step_dispatch: "cpu_proc s = None \<Longrightarrow> p < NPROC \<Longrightarrow> state (ptable s ! p) = RUNNABLE
    \<Longrightarrow> dispatch (low_vruntime_p (ptable s) p) s = Some s' \<Longrightarrow> kstep s s'"

lemma kstep_ok: "kstep s s' \<Longrightarrow> kernel_ok s \<Longrightarrow> kernel_ok s'"
proof (induction rule: kstep.induct)
  case (step_fork s c kstk pg r s')
  have "c < NPROC" using kernel_okD(5) step_fork by blast
  then show ?case using fork_ok [OF step_fork.prems step_fork.hyps(3), of c kstk pg] step_fork.hyps by auto
next
  case (step_exit s c s')
  have "c < NPROC" using kernel_okD(5) step_exit by blast
  moreover have "c \<noteq> initproc s" using step_exit.hyps(3) by (auto simp: exit_proc_def)
  ultimately show ?case using exit_proc_ok [OF step_exit.prems, of c] step_exit.hyps(3) \<open>c < NPROC\<close> by auto
next
  case (step_wakeup ch s s')
  then show ?case using wakeup_ok [of s ch] by force
next
  case (step_tick s s')
  then show ?case using timer_tick_ok [of s] by auto
next
  case (step_switch s c)
  then have "running_ok (Some c) (ptable s)" by (auto simp: kernel_ok_def)
  with step_switch.hyps(2) have "running_ok None (ptable s)"
    unfolding running_ok_def by (metis option.inject)
  with step_switch show ?case by (simp add: kernel_ok_def)
next
  case (step_dispatch s p s')
  then show ?case
    using dispatch_ok [OF step_dispatch.prems step_dispatch.hyps(1)
        low_vruntime_p_ok(1,2) [OF step_dispatch.hyps(2,3)]] by auto
next
  case (step_sys_yield s c)
  show ?case by (rule yield_proc_ok [OF step_sys_yield.prems step_sys_yield.hyps(1)])
next
  case (step_wait s c)
  show ?case by (rule wait_scan_ok) (use step_wait kernel_okD(5) in blast)+
next
  case (step_sleep s c ch)
  show ?case by (rule sleep_enter_ok) (use step_sleep kernel_okD(5) in blast)+
next
  case (step_sleep_leave s c)
  show ?case by (rule sleep_leave_ok) (use step_sleep_leave kernel_okD(5) in blast)+
qed (rule kill_ok setnice_ok timer_yield_ok; assumption)+

lemma kstep_reachable:
  assumes "kstep\<^sup>*\<^sup>* s s'" "kernel_ok s"
  shows "kernel_ok s'"
  using assms by (induction rule: rtranclp_induct) (auto intro: kstep_ok)

inductive_cases kstepE: "kstep s s'"

section \<open>Nice values\<close>

lemma getnice_unique:
  assumes p: "p < NPROC" "pid (t ! p) = i" and u: "\<And>q. q < NPROC \<Longrightarrow> pid (t ! q) = i \<Longrightarrow> q = p"
  shows "getnice i t = priority (t ! p)"
proof -
  let ?f = "\<lambda>p (ret, success). if pid (t ! p) = i then (priority (t ! p), True) else (ret, success)"
  let ?J = "\<lambda>n r. r = (if p < n then (priority (t ! p), True) else (0, False))"
  have "?J NPROC (fold ?f [0..<NPROC] (0, False))"
  proof (rule fold_rule [where J = ?J])
    show "?J 0 (0, False)" by simp
    show "?J (Suc n) (?f n r)" if "n < NPROC" "?J n r" for n r
    proof (cases "n = p")
      case True
      then show ?thesis using that p(2) by simp
    next
      case False
      with u that(1) have "pid (t ! n) \<noteq> i" by blast
      with False that(2) show ?thesis by (simp add: less_Suc_eq)
    qed
  qed
  then show ?thesis using p(1) by (simp add: getnice_def)
qed

lemma getnice_absent:
  assumes "\<And>q. q < NPROC \<Longrightarrow> pid (t ! q) \<noteq> i"
  shows "getnice i t = -1"
proof -
  let ?f = "\<lambda>p (ret, success). if pid (t ! p) = i then (priority (t ! p), True) else (ret, success)"
  have "fold ?f [0..<NPROC] (0, False) = (0, False)"
    by (rule fold_rule [where J = "\<lambda>n r. r = (0, False)"]) (use assms in auto)
  then show ?thesis by (simp add: getnice_def)
qed

lemma setnice_getnice_pid:
  assumes k: "kernel_ok s" and p: "p < NPROC" "pid (ptable s ! p) = i" "i \<noteq> 0" and n: "-5 \<le> nice" "nice \<le> 5"
  shows "fst (setnice i nice (ptable s)) = 0" "getnice i (snd (setnice i nice (ptable s))) = nice"
    "\<And>j. j \<noteq> i \<Longrightarrow> j \<noteq> 0 \<Longrightarrow> getnice j (snd (setnice i nice (ptable s))) = getnice j (ptable s)"
proof -
  let ?t = "ptable s"
  have uniq: "q = r" if "q < NPROC" "r < NPROC" "pid (?t ! q) = pid (?t ! r)" "pid (?t ! q) \<noteq> 0" for q r
    using k that unfolding kernel_ok_def pids_ok_def by blast
  have "find (\<lambda>p. pid (?t ! p) = i) [0..<NPROC] = Some p"
  proof (cases "find (\<lambda>p. pid (?t ! p) = i) [0..<NPROC]")
    case None
    with p show ?thesis unfolding find_upt_None by blast
  next
    case (Some q)
    have "q < NPROC" "pid (?t ! q) = i" using find_upt_Some [OF Some] by blast+
    with p have "q = p" by (intro uniq) simp_all
    with Some show ?thesis by simp
  qed
  then have s: "setnice i nice ?t = (0, upd ?t p (\<lambda>q. q\<lparr>priority := nice\<rparr>))"
    using n by (simp add: setnice_def)
  then show "fst (setnice i nice ?t) = 0" by simp
  let ?u = "upd ?t p (\<lambda>q. q\<lparr>priority := nice\<rparr>)"
  have len: "length ?t = NPROC" using kernel_okD(3) [OF k] .
  have pu: "pid (?u ! q) = pid (?t ! q)" "q \<noteq> p \<Longrightarrow> priority (?u ! q) = priority (?t ! q)"
    if "q < NPROC" for q
    using that len by (cases "q = p"; simp)+
  show "getnice i (snd (setnice i nice ?t)) = nice"
    using getnice_unique [of p ?u i] p pu uniq len s by simp
  show "getnice j (snd (setnice i nice ?t)) = getnice j ?t" if "j \<noteq> i" "j \<noteq> 0" for j
  proof (cases "\<exists>q < NPROC. pid (?t ! q) = j")
    case True
    then obtain q where q: "q < NPROC" "pid (?t ! q) = j" by blast
    then have "q \<noteq> p" using p that by auto
    have qu: "r = q" if "r < NPROC" "pid (?t ! r) = j" for r
      by (rule uniq [OF that(1) q(1)]) (use that q \<open>j \<noteq> 0\<close> in simp_all)
    have "getnice j ?t = priority (?t ! q)" by (rule getnice_unique [OF q]) (rule qu)
    moreover have "getnice j ?u = priority (?u ! q)"
    proof (rule getnice_unique)
      show "q < NPROC" "pid (?u ! q) = j" using q pu(1) by simp_all
      show "r = q" if "r < NPROC" "pid (?u ! r) = j" for r
        using that(2) unfolding pu(1) [OF that(1)] by (rule qu [OF that(1)])
    qed
    ultimately show ?thesis using s pu(2) [OF q(1) \<open>q \<noteq> p\<close>] by simp
  next
    case False
    then show ?thesis using getnice_absent [of ?t j] getnice_absent [of ?u j] pu s by simp
  qed
qed

section \<open>Properties\<close>

text \<open>
  A table for the examples: \<open>init\<close>, a shell with nice value \<open>-5\<close> and a lower virtual run time,
  a process sleeping on the ticks, and 61 unused slots. The state of \<open>init\<close> and the process on
  the processor are parameters.
\<close>

definition blank :: proc where
  "blank = \<lparr>sz = 0, pgdir = 0, kstack = 0, state = UNUSED, pid = 0, parent = None, chan = Nowhere,
     killed = 0, name = '''', priority = 0, weight = 0, vruntime = 0, runtime = 0,
     runtime_interval = 0, timeslice = 0\<rparr>"

definition sample :: "procstate \<Rightarrow> nat option \<Rightarrow> kernel" where
  "sample st c = \<lparr>
     ptable =
       blank\<lparr>state := st, pid := 1, vruntime := MAXIMUM_INT - 10\<rparr> #
       blank\<lparr>state := RUNNABLE, pid := 2, parent := Some 0, vruntime := 30, priority := -5\<rparr> #
       blank\<lparr>state := SLEEPING, pid := 3, parent := Some 1, chan := OnTicks, vruntime := 90\<rparr> #
       replicate 61 blank,
     nextpid = 4, initproc = 0, ticks = 0, cpu_proc = c\<rparr>"

lemma sample_nth:
  "i < NPROC \<Longrightarrow> ptable (sample st c) ! i =
    (if i = 0 then blank\<lparr>state := st, pid := 1, vruntime := MAXIMUM_INT - 10\<rparr>
     else if i = 1 then blank\<lparr>state := RUNNABLE, pid := 2, parent := Some 0, vruntime := 30, priority := -5\<rparr>
     else if i = 2 then blank\<lparr>state := SLEEPING, pid := 3, parent := Some 1, chan := OnTicks, vruntime := 90\<rparr>
     else blank)"
  by (auto simp: sample_def NPROC_def nth_Cons' intro: arg_cong [where f = "\<lambda>n. replicate 61 blank ! n"])

lemma sample_simps [simp]:
  "cpu_proc (sample st c) = c" "nextpid (sample st c) = 4" "initproc (sample st c) = 0"
  "ticks (sample st c) = 0"
  by (simp_all add: sample_def)

lemma sample_ok:
  assumes "st = RUNNING \<Longrightarrow> c = Some 0" "\<And>p. c = Some p \<Longrightarrow> p < NPROC"
  shows "kernel_ok (sample st c)"
  unfolding kernel_ok_def
proof (intro conjI)
  have "proc_ok (ptable (sample st c) ! i)" if "i < NPROC" for i
    using that by (simp add: sample_nth proc_ok_def blank_def int_ok_def MINIMUM_INT_def MAXIMUM_INT_def)
  moreover have "length (ptable (sample st c)) = NPROC" by (simp add: sample_def NPROC_def)
  ultimately show "table_ok (ptable (sample st c))"
    unfolding table_ok_def by (metis in_set_conv_nth)
  show "pids_ok (nextpid (sample st c)) (ptable (sample st c))"
    by (simp add: pids_ok_def sample_nth blank_def)
  show "parents_ok (ptable (sample st c))"
    by (simp add: parents_ok_def sample_nth blank_def NPROC_def)
  show "running_ok (cpu_proc (sample st c)) (ptable (sample st c))"
    using assms(1) by (simp add: running_ok_def sample_nth blank_def)
  show "initproc (sample st c) < NPROC" by (simp add: NPROC_def)
  show "\<forall>p. cpu_proc (sample st c) = Some p \<longrightarrow> p < NPROC" using assms(2) by simp
qed

lemma NPROC_pos [simp]: "0 < NPROC" "Suc 0 < NPROC" "2 < NPROC"
  by (simp_all add: NPROC_def)

lemma sample_running: "kernel_ok (sample RUNNING (Some 0))"
  by (rule sample_ok) auto

lemma sample_idle: "kernel_ok (sample RUNNABLE None)"
  by (rule sample_ok) auto

lemmas sample_state = sample_nth blank_def

text \<open>
  C38. Whatever the order of forks, exits, waits, sleeps, wake-ups, kills, changes of nice values,
  ticks, yields and dispatches, the kernel keeps its invariant: nice values between -5 and 5,
  virtual run times in the range of \<open>int\<close>, unique process numbers, parents in the table, and no
  process \<open>RUNNING\<close> but the one on the processor.
\<close>

theorem kernel_invariant:
  assumes "kernel_ok s" "kstep\<^sup>*\<^sup>* s s'"
  shows "kernel_ok s'"
  using kstep_reachable [OF assms(2,1)] .

lemma kernel_invariant_witness:
  "kernel_ok (set_ptable (snd (setnice 2 3 (ptable (timer_yield (sample RUNNING (Some 0))))))
     (timer_yield (sample RUNNING (Some 0))))"
  by (rule kernel_invariant [OF sample_running])
    (rule rtranclp.rtrancl_into_rtrancl, rule r_into_rtranclp, rule step_yield, rule step_setnice)

text \<open>
  C39. The scheduler dispatches a process whose virtual run time is lowest among the runnable
  ones, wherever its scan of the table stands, makes it the only \<open>RUNNING\<close> one and gives it the
  slice \<open>ceil (10 ticks * weight / total weight)\<close>; no arithmetic on the way wraps and no division
  is by zero.
\<close>

theorem dispatch_lowest:
  assumes "kernel_ok s" "cpu_proc s = None" "p < NPROC" "state (ptable s ! p) = RUNNABLE"
    "q = low_vruntime_p (ptable s) p"
  shows "\<exists>s'. dispatch q s = Some s' \<and> cpu_proc s' = Some q \<and> state (ptable s ! q) = RUNNABLE \<and>
    (\<forall>i < NPROC. state (ptable s ! i) = RUNNABLE \<longrightarrow> vruntime (ptable s ! q) \<le> vruntime (ptable s ! i)) \<and>
    state (ptable s' ! q) = RUNNING \<and> (\<forall>i < NPROC. state (ptable s' ! i) = RUNNING \<longrightarrow> i = q) \<and>
    unat (timeslice (ptable s' ! q)) =
      (10000 * weight_of (ptable s ! q) + runnable_weight (ptable s) - 1) div runnable_weight (ptable s)"
proof -
  note low = low_vruntime_p_ok [OF assms(3,4), folded assms(5)]
  obtain s' where s': "dispatch q s = Some s'" "kernel_ok s'" "cpu_proc s' = Some q"
    "state (ptable s' ! q) = RUNNING" "unat (timeslice (ptable s' ! q)) =
      (10000 * weight_of (ptable s ! q) + runnable_weight (ptable s) - 1) div runnable_weight (ptable s)"
    using dispatch_ok [OF assms(1,2) low(1,2)] by blast
  have "running_ok (Some q) (ptable s')" using s'(2) unfolding kernel_ok_def s'(3) by blast
  then have "\<forall>i < NPROC. state (ptable s' ! i) = RUNNING \<longrightarrow> i = q"
    unfolding running_ok_def by (metis option.inject)
  with s' low show ?thesis by blast
qed

lemma dispatch_lowest_witness:
  "\<exists>q s'. dispatch q (sample RUNNABLE None) = Some s' \<and> cpu_proc s' = Some q \<and>
     vruntime (ptable (sample RUNNABLE None) ! q) \<le> 30"
proof -
  have r: "state (ptable (sample RUNNABLE None) ! 0) = RUNNABLE"
    "state (ptable (sample RUNNABLE None) ! 1) = RUNNABLE"
    "vruntime (ptable (sample RUNNABLE None) ! 1) = 30"
    by (simp_all add: sample_state)
  obtain s' where "dispatch (low_vruntime_p (ptable (sample RUNNABLE None)) 0) (sample RUNNABLE None) = Some s'"
    "cpu_proc s' = Some (low_vruntime_p (ptable (sample RUNNABLE None)) 0)"
    "\<forall>i < NPROC. state (ptable (sample RUNNABLE None) ! i) = RUNNABLE \<longrightarrow>
      vruntime (ptable (sample RUNNABLE None) ! low_vruntime_p (ptable (sample RUNNABLE None)) 0) \<le>
      vruntime (ptable (sample RUNNABLE None) ! i)"
    using dispatch_lowest [OF sample_idle sample_simps(1) NPROC_pos(1) r(1) refl] by blast
  with r(2,3) NPROC_pos(2) show ?thesis unfolding One_nat_def by metis
qed

text \<open>
  C40. A tick returns, whatever the virtual run times are: the running process is charged
  \<open>ceil (1000 * 1024 / weight)\<close>, after one shift of all virtual run times when the charge would
  leave the range of \<open>int\<close>, the run times stay in range, and the processes sleeping on the ticks
  are woken.
\<close>

theorem tick_charges:
  assumes "kernel_ok s" "cpu_proc s = Some p" "state (ptable s ! p) = RUNNING"
  shows "\<exists>s'. timer_tick s = Some s' \<and> kernel_ok s' \<and> ticks s' = ticks s + 1000 \<and>
    vruntime (ptable s' ! p) = charge (ptable s ! p) + vruntime (ptable s ! p) -
      (if int_ok (vruntime (ptable s ! p) + charge (ptable s ! p)) then 0 else 0x0FFFFFFF) \<and>
    (\<forall>i < NPROC. state (ptable s ! i) = SLEEPING \<longrightarrow>
       state (ptable s' ! i) = (if chan (ptable s ! i) = OnTicks then RUNNABLE else SLEEPING))"
proof -
  note t = kernel_okD(1) [OF assms(1)] and len = kernel_okD(3) [OF assms(1)]
    and pN = kernel_okD(5) [OF assms(1,2)]
  obtain s' where s': "timer_tick s = Some s'" "kernel_ok s'" "ticks s' = ticks s + 1000"
    and wk: "\<And>i. i < NPROC \<Longrightarrow> woken OnTicks (charged p (ptable s) ! i) (ptable s' ! i)"
    using timer_tick_ok [OF assms(1)] assms(2,3) by auto
  have sc: "state (charged p (ptable s) ! i) = state (ptable s ! i)"
    "chan (charged p (ptable s) ! i) = chan (ptable s ! i)" if "i < NPROC" for i
    using charged_simps [OF len that pN] that len
    by (cases "i = p"; simp add: charged_def Let_def shifted_def)+
  have "ptable s' ! p = charged p (ptable s) ! p"
    using wk [OF pN] sc [OF pN] assms(3) by (simp add: woken_def)
  moreover have "state (ptable s' ! i) = (if chan (ptable s ! i) = OnTicks then RUNNABLE else SLEEPING)"
    if "i < NPROC" "state (ptable s ! i) = SLEEPING" for i
    using wk [OF that(1)] sc [OF that(1)] that(2) by (auto simp: woken_def split: if_splits)
  ultimately show ?thesis using s' charged_ok(2) [OF t pN assms(3)] by auto
qed

lemma tick_charges_witness:
  "\<exists>s'. timer_tick (sample RUNNING (Some 0)) = Some s' \<and> kernel_ok s' \<and>
     vruntime (ptable s' ! 0) = MAXIMUM_INT - 10 + 1000 - 0x0FFFFFFF \<and> state (ptable s' ! 2) = RUNNABLE"
proof -
  have c: "charge (ptable (sample RUNNING (Some 0)) ! 0) = 1000"
    by (simp add: sample_state charge_def weight_of_def nice2weight_arr_def)
  have "\<exists>s'. timer_tick (sample RUNNING (Some 0)) = Some s' \<and> kernel_ok s' \<and>
      ticks s' = ticks (sample RUNNING (Some 0)) + 1000 \<and>
      vruntime (ptable s' ! 0) = charge (ptable (sample RUNNING (Some 0)) ! 0) +
        vruntime (ptable (sample RUNNING (Some 0)) ! 0) -
        (if int_ok (vruntime (ptable (sample RUNNING (Some 0)) ! 0) +
          charge (ptable (sample RUNNING (Some 0)) ! 0)) then 0 else 0x0FFFFFFF) \<and>
      (\<forall>i < NPROC. state (ptable (sample RUNNING (Some 0)) ! i) = SLEEPING \<longrightarrow>
        state (ptable s' ! i) = (if chan (ptable (sample RUNNING (Some 0)) ! i) = OnTicks then RUNNABLE else SLEEPING))"
    by (rule tick_charges [OF sample_running]) (simp_all add: sample_state)
  then obtain s' where s': "timer_tick (sample RUNNING (Some 0)) = Some s'" "kernel_ok s'"
    "vruntime (ptable s' ! 0) = MAXIMUM_INT - 10 + 1000 - 0x0FFFFFFF"
    and w: "\<forall>i < NPROC. state (ptable (sample RUNNING (Some 0)) ! i) = SLEEPING \<longrightarrow>
        state (ptable s' ! i) = (if chan (ptable (sample RUNNING (Some 0)) ! i) = OnTicks then RUNNABLE else SLEEPING)"
    unfolding c by (auto simp: sample_state int_ok_def MINIMUM_INT_def MAXIMUM_INT_def)
  have "state (ptable s' ! 2) = RUNNABLE" using w NPROC_pos(3) by (simp add: sample_state)
  with s' show ?thesis by blast
qed

text \<open>
  A fork gives the child the next process number, the parent's nice value and virtual run
  time, and makes it runnable; it fails only when no slot, no stack page or no copy of the
  address space can be had.
\<close>

theorem fork_inherits:
  assumes "kernel_ok s" "nextpid s < MAXIMUM_INT" "c < NPROC" "state (ptable s ! c) \<noteq> UNUSED"
  shows "\<exists>r s'. fork kstk pg c s = Some (r, s') \<and> kernel_ok s' \<and> cpu_proc s' = cpu_proc s \<and>
    (r = -1 \<and> (kstk = 0 \<or> pg = 0 \<or> (\<forall>p < NPROC. state (ptable s ! p) \<noteq> UNUSED)) \<or>
     r = nextpid s \<and> (\<exists>p < NPROC. state (ptable s ! p) = UNUSED \<and> pid (ptable s' ! p) = r \<and>
        state (ptable s' ! p) = RUNNABLE \<and> parent (ptable s' ! p) = Some c \<and>
        priority (ptable s' ! p) = priority (ptable s ! c) \<and>
        vruntime (ptable s' ! p) = vruntime (ptable s ! c)))"
  using fork_ok [OF assms] .

lemma fork_inherits_witness:
  "\<exists>r s'. fork 4096 8192 0 (sample RUNNING (Some 0)) = Some (r, s') \<and> kernel_ok s' \<and> r = 4"
proof -
  have u: "state (ptable (sample RUNNING (Some 0)) ! 3) = UNUSED" "3 < NPROC"
    by (simp_all add: sample_nth NPROC_def) (simp add: blank_def)
  show ?thesis
    using fork_inherits [OF sample_running, of 0 4096 8192] u by (auto simp: sample_state MAXIMUM_INT_def)
qed

text \<open>
  A process that is not \<open>init\<close> and exits becomes a zombie, none of the table's processes has it
  as parent any more, and the invariant holds; \<open>init\<close> exiting panics.
\<close>

theorem exit_reparents:
  assumes "kernel_ok s" "c < NPROC"
  shows "exit_proc (initproc s) s = Some (Inl (Panic ''init exiting'')) \<and>
    (c \<noteq> initproc s \<longrightarrow> (\<exists>s'. exit_proc c s = Some (Inr s') \<and> kernel_ok s' \<and>
      state (ptable s' ! c) = ZOMBIE \<and> (\<forall>i < NPROC. parent (ptable s' ! i) \<noteq> Some c)))"
  using exit_proc_ok [OF assms] by (auto simp: exit_proc_def)

lemma exit_reparents_witness:
  "\<exists>s'. exit_proc 1 (sample RUNNABLE None) = Some (Inr s') \<and> parent (ptable s' ! 2) \<noteq> Some 1"
  using exit_reparents [OF sample_idle, of 1] NPROC_pos by auto

text \<open>
  A nice value that was set for a process number in use is the one \<open>getnice\<close> returns, no
  other process's changes, and values outside -5 to 5 are refused.
\<close>

theorem setnice_getnice:
  assumes "kernel_ok s" "p < NPROC" "pid (ptable s ! p) \<noteq> 0"
  shows "if -5 \<le> nice \<and> nice \<le> 5
    then fst (setnice (pid (ptable s ! p)) nice (ptable s)) = 0 \<and>
      getnice (pid (ptable s ! p)) (snd (setnice (pid (ptable s ! p)) nice (ptable s))) = nice \<and>
      (\<forall>j. j \<noteq> pid (ptable s ! p) \<longrightarrow> j \<noteq> 0 \<longrightarrow>
        getnice j (snd (setnice (pid (ptable s ! p)) nice (ptable s))) = getnice j (ptable s))
    else setnice (pid (ptable s ! p)) nice (ptable s) = (-1, ptable s)"
  using setnice_getnice_pid [OF assms(1,2) refl assms(3), of nice] by (auto simp: setnice_def)

lemma setnice_getnice_witness:
  "getnice 2 (snd (setnice 2 4 (ptable (sample RUNNING (Some 0))))) = 4 \<and>
   setnice 2 6 (ptable (sample RUNNING (Some 0))) = (-1, ptable (sample RUNNING (Some 0)))"
  using setnice_getnice [OF sample_running NPROC_pos(2), of 4]
    setnice_getnice [OF sample_running NPROC_pos(2), of 6] by (simp add: sample_state)

text \<open>
  A process that is woken never starts above zero: the search for the lowest virtual run time
  starts at \<open>min_vruntime = 0\<close>, so when every awake process is above zero the sleeper is put far
  below all of them, not beside the lowest one.
\<close>

theorem woken_below_zero:
  assumes "table_ok t"
  shows "\<exists>t'. wakeup1 c t = Some t' \<and> table_ok t' \<and>
    (\<forall>i < NPROC. state (t ! i) = SLEEPING \<and> chan (t ! i) = c \<longrightarrow>
       state (t' ! i) = RUNNABLE \<and> vruntime (t' ! i) \<le> 0) \<and>
    (\<forall>i < NPROC. \<not> (state (t ! i) = SLEEPING \<and> chan (t ! i) = c) \<longrightarrow> t' ! i = t ! i)"
proof -
  obtain t' where t': "wakeup1 c t = Some t'" "table_ok t'" "\<forall>i < NPROC. woken c (t ! i) (t' ! i)"
    using wakeup1_ok [OF assms] by blast
  then have w: "woken c (t ! i) (t' ! i)" if "i < NPROC" for i using that by blast
  have "state (t' ! i) = RUNNABLE \<and> vruntime (t' ! i) \<le> 0"
    if "i < NPROC" "state (t ! i) = SLEEPING \<and> chan (t ! i) = c" for i
    using w [OF that(1)] that(2) by (auto simp: woken_def)
  moreover have "t' ! i = t ! i" if "i < NPROC" "\<not> (state (t ! i) = SLEEPING \<and> chan (t ! i) = c)" for i
    using w [OF that(1)] that(2) by (simp add: woken_def)
  ultimately show ?thesis using t'(1,2) by blast
qed

lemma woken_below_zero_witness:
  "\<exists>t'. wakeup1 OnTicks (ptable (sample RUNNING (Some 0))) = Some t' \<and>
     state (t' ! 2) = RUNNABLE \<and> vruntime (t' ! 2) \<le> 0 \<and> vruntime (t' ! 1) = 30"
proof -
  obtain t' where "wakeup1 OnTicks (ptable (sample RUNNING (Some 0))) = Some t'"
    "\<forall>i < NPROC. state (ptable (sample RUNNING (Some 0)) ! i) = SLEEPING \<and>
       chan (ptable (sample RUNNING (Some 0)) ! i) = OnTicks \<longrightarrow>
       state (t' ! i) = RUNNABLE \<and> vruntime (t' ! i) \<le> 0"
    "\<forall>i < NPROC. \<not> (state (ptable (sample RUNNING (Some 0)) ! i) = SLEEPING \<and>
       chan (ptable (sample RUNNING (Some 0)) ! i) = OnTicks) \<longrightarrow>
       t' ! i = ptable (sample RUNNING (Some 0)) ! i"
    using woken_below_zero [OF kernel_okD(1) [OF sample_running], of OnTicks] by blast
  moreover note NPROC_pos(2,3)
  ultimately show ?thesis by (fastforce simp: sample_state)
qed

text \<open>
  The overflow handler saturates: every live process is shifted by \<open>0x0FFFFFFF\<close> against the sign of
  its argument, stays in the range of \<open>int\<close>, and the order of the live processes is kept.
\<close>

theorem overflow_handler_keeps_order:
  assumes "table_ok t"
  shows "\<exists>t'. overflow_handler d t = Some t' \<and> table_ok t' \<and>
    (\<forall>i < NPROC. \<forall>j < NPROC. live (t ! i) \<longrightarrow> live (t ! j) \<longrightarrow> vruntime (t ! i) \<le> vruntime (t ! j)
       \<longrightarrow> vruntime (t' ! i) \<le> vruntime (t' ! j)) \<and>
    (\<forall>i < NPROC. \<not> live (t ! i) \<longrightarrow> t' ! i = t ! i)"
proof (cases "d = 0")
  case True
  then show ?thesis using overflow_handler_map [OF assms, of d] assms by auto
next
  case False
  let ?k = "if d > 0 then - 0x0FFFFFFF else 0x0FFFFFFF"
  have "length t = NPROC" using assms by (simp add: table_ok_def)
  then show ?thesis
    using overflow_handler_map [OF assms, of d] False table_ok_shifted [OF assms, of ?k]
      shifted_mono [of _ _ ?k]
    by (intro exI [of _ "map (shifted ?k) t"]) (auto simp: shifted_def)
qed

lemma overflow_handler_keeps_order_witness:
  "\<exists>t'. overflow_handler 1 (ptable (sample RUNNING (Some 0))) = Some t' \<and>
     vruntime (t' ! 1) \<le> vruntime (t' ! 0)"
proof -
  have "live (ptable (sample RUNNING (Some 0)) ! 1)" "live (ptable (sample RUNNING (Some 0)) ! 0)"
    "vruntime (ptable (sample RUNNING (Some 0)) ! 1) \<le> vruntime (ptable (sample RUNNING (Some 0)) ! 0)"
    by (simp_all add: live_def sample_state MAXIMUM_INT_def)
  then show ?thesis
    using overflow_handler_keeps_order [OF kernel_okD(1) [OF sample_running], of 1]
      NPROC_pos(1,2) by (metis One_nat_def)
qed

end
