(* ===== verification/Dftl.thy ===== *)
theory Dftl
  imports FtlIo
begin

text \<open>
  The demand-based flash translation layer of the first project,
  \<open>3-2/EmbeddedSul/PRJ1/workspace/ftl.c\<close>: the table from logical to physical pages is itself
  kept in pages on flash (the map pages), a few of which are cached in the slots of the CMT;
  the table GTD holds where each map page lies. User data goes through a cache of
  \<open>N_BUFFERS\<close> pages per bank. Data blocks and map blocks have their own frontiers, triggers
  and collections. A failed \<open>assert\<close> and an access outside an array are the value \<open>None\<close>.
  The arrays of eight \<open>int\<close>s that are written to and read from flash are lists of words, read as
  \<open>int\<close>s with \<open>sint\<close>. \<open>rand\<close> is a stream of numbers in the state. The functions are those of
  one bank where the code has a parameter \<open>bank\<close>. The simulated chip is that of theory \<open>Nand\<close>:
  the project's \<open>nand.c\<close> differs from it in comments only.
\<close>

section \<open>Sizes\<close>

definition N_MAP_PAGES_PB :: "geom \<Rightarrow> nat" where
  "N_MAP_PAGES_PB g = N_PPNS_PB g div 8"

definition N_MAP_BLOCKS_PB :: "geom \<Rightarrow> nat" where
  "N_MAP_BLOCKS_PB g = N_MAP_PAGES_PB g div PAGES_PER_BLK g"

definition N_DATA_USER_BLOCKS_PB :: "geom \<Rightarrow> nat" where
  "N_DATA_USER_BLOCKS_PB g = (BLKS_PER_BANK g - N_MAP_BLOCKS_PB g) * 100 div (100 + 7)"

definition N_OP_BLOCKS_PB :: "geom \<Rightarrow> nat" where
  "N_OP_BLOCKS_PB g = BLKS_PER_BANK g - N_MAP_BLOCKS_PB g - N_DATA_USER_BLOCKS_PB g"

text \<open>The product with \<open>0.6\<close> is truncated; for the sizes of \<open>ftl.h\<close> it is that of the \<open>double\<close>s.\<close>

definition N_USER_OP_BLOCKS_PB :: "geom \<Rightarrow> nat" where
  "N_USER_OP_BLOCKS_PB g = N_OP_BLOCKS_PB g * 6 div 10"

definition CMT_SIZE_PB :: "geom \<Rightarrow> nat" where
  "CMT_SIZE_PB g = BLKS_PER_BANK g * PAGES_PER_BLK g * 4 * 5 div 100"

definition N_SLOT_PB :: "geom \<Rightarrow> nat" where
  "N_SLOT_PB g = (if 0 < CMT_SIZE_PB g div (4 * 8) then CMT_SIZE_PB g div (4 * 8) else 1)"

definition N_DATA_LPNS_PB :: "geom \<Rightarrow> nat" where
  "N_DATA_LPNS_PB g = N_DATA_USER_BLOCKS_PB g * PAGES_PER_BLK g"

definition N_DATA_BUFFERS :: nat where "N_DATA_BUFFERS = 10"

definition prj1_geom :: geom where
  "prj1_geom = \<lparr>N_BANKS = 8, BLKS_PER_BANK = 40, PAGES_PER_BLK = 16\<rparr>"

section \<open>State\<close>

abbreviation (input) "INVALID \<equiv> (0 :: int)"
abbreviation (input) "VALID \<equiv> (1 :: int)"
abbreviation (input) "CLEAN \<equiv> (0 :: int)"
abbreviation (input) "DIRTY \<equiv> (1 :: int)"

datatype blk_status = EMPTY | DATA | MAP

record dstats =
  gcs :: int             \<comment> \<open>\<open>gc_cnt\<close>\<close>
  map_gcs :: int         \<comment> \<open>\<open>map_gc_cnt\<close>\<close>
  host_writes :: int     \<comment> \<open>\<open>host_write\<close>\<close>
  data_writes :: int     \<comment> \<open>\<open>nand_write\<close>\<close>
  gc_writes :: int       \<comment> \<open>\<open>gc_write\<close>\<close>
  map_writes :: int      \<comment> \<open>\<open>map_write\<close>\<close>
  map_gc_writes :: int   \<comment> \<open>\<open>map_gc_write\<close>\<close>
  cache_hit :: int
  cache_miss :: int
  CMT_hit :: int
  CMT_miss :: int

record dftl =
  chip :: nand_state
  Next_Data_PPN :: "nat \<Rightarrow> int"
  GC_Trigger_Data_PPN :: "nat \<Rightarrow> int"
  Block_Status :: "nat \<Rightarrow> nat \<Rightarrow> blk_status"
  page_valid :: "nat \<Rightarrow> nat \<Rightarrow> int"            \<comment> \<open>\<open>isValid[N_BANKS][N_PPNS_PB]\<close>\<close>
  is_VPN_first_time :: "nat \<Rightarrow> nat \<Rightarrow> int"
  CMT_vpn :: "nat \<Rightarrow> nat \<Rightarrow> int"
  CMT_dirty :: "nat \<Rightarrow> nat \<Rightarrow> int"
  CMT_Data :: "nat \<Rightarrow> nat \<Rightarrow> u32 list"
  GTD :: "nat \<Rightarrow> nat \<Rightarrow> int"
  Next_Map_PPN :: "nat \<Rightarrow> int"
  GC_Trigger_Map_PPN :: "nat \<Rightarrow> int"
  buffer_S2L :: "nat \<Rightarrow> nat \<Rightarrow> int"
  buffer_Data :: "nat \<Rightarrow> nat \<Rightarrow> u32 list"
  buffer_Spare :: "nat \<Rightarrow> nat \<Rightarrow> int"
  counts :: dstats                           \<comment> \<open>\<open>stats\<close>\<close>
  rands :: "nat \<Rightarrow> nat"                      \<comment> \<open>the values of \<open>rand\<close> and how many were used\<close>
  rand_pos :: nat

definition assertion :: "bool \<Rightarrow> unit option" where
  "assertion b = (if b then Some () else None)"

definition count :: "(dstats \<Rightarrow> dstats) \<Rightarrow> dftl \<Rightarrow> dftl" where
  "count f s = s\<lparr>counts := f (counts s)\<rparr>"

definition stat_init :: "dftl \<Rightarrow> dftl" where
  "stat_init s = s\<lparr>counts := \<lparr>gcs = 0, map_gcs = 0, host_writes = 0, data_writes = 0, gc_writes = 0,
     map_writes = 0, map_gc_writes = 0, cache_hit = 0, cache_miss = 0, CMT_hit = 0, CMT_miss = 0\<rparr>\<rparr>"

definition rand_mod :: "nat \<Rightarrow> dftl \<Rightarrow> nat \<times> dftl" where
  "rand_mod n s = (rands s (rand_pos s) mod n, s\<lparr>rand_pos := rand_pos s + 1\<rparr>)"

text \<open>The first index of a loop over an array whose entry satisfies a condition, or \<open>-1\<close>.\<close>

definition first_index :: "(nat \<Rightarrow> bool) \<Rightarrow> nat list \<Rightarrow> int" where
  "first_index P is = (case find P is of None \<Rightarrow> -1 | Some i \<Rightarrow> int i)"

definition dftl_open :: "geom \<Rightarrow> (nat \<Rightarrow> nand_page) \<Rightarrow> dftl \<Rightarrow> dftl" where
  "dftl_open g junk s =
     (let user = N_DATA_USER_BLOCKS_PB g + N_USER_OP_BLOCKS_PB g;
          s = stat_init (s\<lparr>chip := fst (nand_init junk (int (N_BANKS g)) (int (BLKS_PER_BANK g))
                                     (int (PAGES_PER_BLK g)) (chip s))\<rparr>)
      in s\<lparr>
        buffer_S2L := (\<lambda>b i. if b < N_BANKS g \<and> i < N_DATA_BUFFERS then -1 else buffer_S2L s b i),
        buffer_Spare := (\<lambda>b i. if b < N_BANKS g \<and> i < N_DATA_BUFFERS then -1 else buffer_Spare s b i),
        buffer_Data := (\<lambda>b i. if b < N_BANKS g \<and> i < N_DATA_BUFFERS then replicate 8 (-1)
                              else buffer_Data s b i),
        is_VPN_first_time := (\<lambda>b v. if b < N_BANKS g \<and> v < N_MAP_PAGES_PB g then 1
                                    else is_VPN_first_time s b v),
        GC_Trigger_Map_PPN := (\<lambda>b. if b < N_BANKS g then int (PAGES_PER_BLK g) * (int (BLKS_PER_BANK g) - 1)
                                   else GC_Trigger_Map_PPN s b),
        GC_Trigger_Data_PPN := (\<lambda>b. if b < N_BANKS g then int (PAGES_PER_BLK g) * (int user - 1)
                                    else GC_Trigger_Data_PPN s b),
        Block_Status := (\<lambda>b blk. if b < N_BANKS g \<and> blk < BLKS_PER_BANK g
                                 then if blk + 1 < user then DATA
                                      else if blk + 1 = user then EMPTY
                                      else if blk + 1 = BLKS_PER_BANK g then EMPTY
                                      else MAP
                                 else Block_Status s b blk),
        page_valid := (\<lambda>b p. if b < N_BANKS g \<and> p < N_PPNS_PB g then VALID else page_valid s b p),
        Next_Data_PPN := (\<lambda>b. if b < N_BANKS g then 0 else Next_Data_PPN s b),
        Next_Map_PPN := (\<lambda>b. if b < N_BANKS g then int (user * PAGES_PER_BLK g) else Next_Map_PPN s b),
        CMT_vpn := (\<lambda>b i. if b < N_BANKS g \<and> i < N_SLOT_PB g then -1 else CMT_vpn s b i),
        CMT_dirty := (\<lambda>b i. if b < N_BANKS g \<and> i < N_SLOT_PB g then CLEAN else CMT_dirty s b i),
        CMT_Data := (\<lambda>b i. if b < N_BANKS g \<and> i < N_SLOT_PB g then replicate 8 (-1)
                           else CMT_Data s b i),
        GTD := (\<lambda>b v. if b < N_BANKS g \<and> v < N_MAP_PAGES_PB g then -1 else GTD s b v)\<rparr>)"

section \<open>The cached mapping table\<close>

text \<open>\<open>N_MAP_ENTRIES_PER_PAGE\<close> and \<open>CMT_NSECT\<close> have the type \<open>size_t\<close>.\<close>

definition lpn2vpn :: "int \<Rightarrow> int" where
  "lpn2vpn lpn = sint (word_of_int (uint (word_of_int lpn :: u64) div 8) :: u32)"

definition get_free_slot :: "geom \<Rightarrow> nat \<Rightarrow> dftl \<Rightarrow> int" where
  "get_free_slot g bank s = first_index (\<lambda>slot. CMT_vpn s bank slot = -1) [0..<N_SLOT_PB g]"

definition is_vpn_cached :: "geom \<Rightarrow> nat \<Rightarrow> int \<Rightarrow> dftl \<Rightarrow> int \<times> dftl" where
  "is_vpn_cached g bank vpn s =
     (let slot = first_index (\<lambda>offset. CMT_vpn s bank offset = vpn) [0..<N_SLOT_PB g] in
      (slot, count (\<lambda>c. if slot = -1 then c\<lparr>CMT_miss := CMT_miss c + 1\<rparr>
                        else c\<lparr>CMT_hit := CMT_hit c + 1\<rparr>) s))"

definition invalid_pages :: "geom \<Rightarrow> dftl \<Rightarrow> nat \<Rightarrow> nat \<Rightarrow> nat" where
  "invalid_pages g s bank pblk =
     length (filter (\<lambda>pg. page_valid s bank (pblk * PAGES_PER_BLK g + pg) = INVALID)
       [0..<PAGES_PER_BLK g])"

definition greedy_map_blk :: "geom \<Rightarrow> nat \<Rightarrow> dftl \<Rightarrow> int" where
  "greedy_map_blk g bank s =
     snd (fold (\<lambda>pblk (biggest_invalid, victim).
            if Block_Status s bank pblk \<noteq> MAP then (biggest_invalid, victim)
            else let invalid_cnt = int (invalid_pages g s bank pblk)
                 in if biggest_invalid < invalid_cnt then (invalid_cnt, int pblk)
                    else (biggest_invalid, victim))
          [0..<BLKS_PER_BANK g] (-1, -1))"

definition get_free_blk_map :: "geom \<Rightarrow> nat \<Rightarrow> dftl \<Rightarrow> int" where
  "get_free_blk_map g bank s =
     first_index (\<lambda>blk. Block_Status s bank blk = EMPTY) (rev [0..<BLKS_PER_BANK g])"

text \<open>
  The copy loop of the map collection: a page of the victim that is not invalid moves to the
  free block, with the cached content when its map page is cached. \<open>tmp\<close> is \<open>tmp_data\<close> and
  \<open>vpn\<close>, which keep their values from one iteration to the next.
\<close>

definition map_gc_page ::
  "geom \<Rightarrow> nat \<Rightarrow> int \<Rightarrow> int \<Rightarrow> nat \<Rightarrow> (u32 list \<times> u32) \<times> int \<times> dftl
     \<Rightarrow> ((u32 list \<times> u32) \<times> int \<times> dftl) option" where
  "map_gc_page g bank victim_blk free_blk pg = (\<lambda>(tmp, copy_cnt, s).
     do {
       v \<leftarrow> get2 (N_BANKS g) (N_PPNS_PB g) (page_valid s) (int bank)
              (victim_blk * int (PAGES_PER_BLK g) + int pg);
       if v = INVALID then Some (tmp, copy_cnt, s)
       else do {
         let tmp = fst (nand_read (chip s) (int bank) victim_blk (int pg) tmp);
         let vpn = sint (snd tmp);
         _ \<leftarrow> assertion (vpn \<noteq> -1);
         let (offset, s) = is_vpn_cached g bank vpn s;
         let data = (if offset \<noteq> -1 then CMT_Data s bank (nat offset) else fst tmp);
         let s = count (\<lambda>c. c\<lparr>map_gc_writes := map_gc_writes c + 1\<rparr>)
                   (s\<lparr>chip := fst (nand_write (chip s) (int bank) free_blk copy_cnt (data, snd tmp))\<rparr>);
         gtd \<leftarrow> set2 (N_BANKS g) (N_MAP_PAGES_PB g) (GTD s) (int bank) vpn
                  (free_blk * int (PAGES_PER_BLK g) + copy_cnt);
         Some (tmp, copy_cnt + 1, s\<lparr>GTD := gtd\<rparr>) } })"

definition map_garbage_collection ::
  "geom \<Rightarrow> u32 list \<times> u32 \<Rightarrow> nat \<Rightarrow> dftl \<Rightarrow> dftl option" where
  "map_garbage_collection g d0 bank s =
     do {
       _ \<leftarrow> assertion (Next_Map_PPN s bank = GC_Trigger_Map_PPN s bank);
       let s = count (\<lambda>c. c\<lparr>map_gcs := map_gcs c + 1\<rparr>) s;
       let victim_blk = greedy_map_blk g bank s;
       let free_blk = get_free_blk_map g bank s;
       (tmp, copy_cnt, s) \<leftarrow> for_opt [0..<PAGES_PER_BLK g] (map_gc_page g bank victim_blk free_blk) (d0, 0, s);
       let s = s\<lparr>Next_Map_PPN := (Next_Map_PPN s)
                   (bank := free_blk * int (PAGES_PER_BLK g) + copy_cnt),
                 GC_Trigger_Map_PPN := (GC_Trigger_Map_PPN s)
                   (bank := (free_blk + 1) * int (PAGES_PER_BLK g))\<rparr>;
       valid \<leftarrow> for_opt [0..<PAGES_PER_BLK g]
         (\<lambda>pg a. set2 (N_BANKS g) (N_PPNS_PB g) a (int bank)
                   (victim_blk * int (PAGES_PER_BLK g) + int pg) VALID) (page_valid s);
       let s = s\<lparr>page_valid := valid, chip := fst (nand_erase (chip s) (int bank) victim_blk)\<rparr>;
       st \<leftarrow> set2 (N_BANKS g) (BLKS_PER_BANK g) (Block_Status s) (int bank) victim_blk EMPTY;
       st \<leftarrow> set2 (N_BANKS g) (BLKS_PER_BANK g) st (int bank) free_blk MAP;
       Some (s\<lparr>Block_Status := st\<rparr>)
     }"

text \<open>\<open>make_free_slot\<close> passes the slot's map page to \<open>original_make_free_slot\<close>.\<close>

definition make_free_slot ::
  "geom \<Rightarrow> u32 list \<times> u32 \<Rightarrow> nat \<Rightarrow> nat \<Rightarrow> dftl \<Rightarrow> dftl option" where
  "make_free_slot g d0 bank victim_slot s =
     do {
       vpn \<leftarrow> get2 (N_BANKS g) (N_SLOT_PB g) (CMT_vpn s) (int bank) (int victim_slot);
       s \<leftarrow> (if CMT_dirty s bank victim_slot = DIRTY then do {
         _ \<leftarrow> assertion (Next_Map_PPN s bank \<le> int (PAGES_PER_BLK g * BLKS_PER_BANK g));
         _ \<leftarrow> assertion (GC_Trigger_Map_PPN s bank \<le> int (PAGES_PER_BLK g * BLKS_PER_BANK g));
         s \<leftarrow> (if Next_Map_PPN s bank = GC_Trigger_Map_PPN s bank
               then map_garbage_collection g d0 bank s else Some s);
         old \<leftarrow> get2 (N_BANKS g) (N_MAP_PAGES_PB g) (GTD s) (int bank) vpn;
         valid \<leftarrow> (if old \<ge> 0 then set2 (N_BANKS g) (N_PPNS_PB g) (page_valid s) (int bank) old INVALID
                   else Some (page_valid s));
         let ppn = Next_Map_PPN s bank;
         gtd \<leftarrow> set2 (N_BANKS g) (N_MAP_PAGES_PB g) (GTD s) (int bank) vpn ppn;
         v \<leftarrow> get2 (N_BANKS g) (N_PPNS_PB g) valid (int bank) ppn;
         _ \<leftarrow> assertion (v = VALID);
         Some (count (\<lambda>c. c\<lparr>map_writes := map_writes c + 1\<rparr>)
           (s\<lparr>page_valid := valid, GTD := gtd,
              chip := fst (nand_write (chip s) (int bank) (ppn sdiv int (PAGES_PER_BLK g))
                        (ppn smod int (PAGES_PER_BLK g)) (CMT_Data s bank victim_slot, word_of_int vpn)),
              Next_Map_PPN := (Next_Map_PPN s)(bank := ppn + 1)\<rparr>))
       } else Some s);
       Some (s\<lparr>CMT_vpn := (CMT_vpn s)(bank := (CMT_vpn s bank)(victim_slot := -1)),
               CMT_dirty := (CMT_dirty s)(bank := (CMT_dirty s bank)(victim_slot := CLEAN))\<rparr>)
     }"

definition use_free_slot ::
  "geom \<Rightarrow> u32 list \<times> u32 \<Rightarrow> nat \<Rightarrow> int \<Rightarrow> int \<Rightarrow> dftl \<Rightarrow> dftl option" where
  "use_free_slot g d0 bank vpn free_slot s =
     do {
       v \<leftarrow> get2 (N_BANKS g) (N_SLOT_PB g) (CMT_vpn s) (int bank) free_slot;
       _ \<leftarrow> assertion (v = -1);
       ppn \<leftarrow> get2 (N_BANKS g) (N_MAP_PAGES_PB g) (GTD s) (int bank) vpn;
       first \<leftarrow> get2 (N_BANKS g) (N_MAP_PAGES_PB g) (is_VPN_first_time s) (int bank) vpn;
       let slot = nat free_slot;
       s \<leftarrow> (if ppn \<ge> 0 then do {
               let tmp_data = fst (fst (nand_read (chip s) (int bank) (ppn sdiv int (PAGES_PER_BLK g))
                                     (ppn smod int (PAGES_PER_BLK g)) d0));
               _ \<leftarrow> assertion (list_all (\<lambda>x. sint x \<ge> -1) tmp_data);
               Some (s\<lparr>CMT_Data := (CMT_Data s)(bank := (CMT_Data s bank)(slot := tmp_data))\<rparr>) }
             else if first = 1 then do {
               ft \<leftarrow> set2 (N_BANKS g) (N_MAP_PAGES_PB g) (is_VPN_first_time s) (int bank) vpn 0;
               Some (s\<lparr>is_VPN_first_time := ft,
                       CMT_Data := (CMT_Data s)(bank := (CMT_Data s bank)(slot := replicate 8 (-1)))\<rparr>) }
             else Some s);
       Some (s\<lparr>CMT_vpn := (CMT_vpn s)(bank := (CMT_vpn s bank)(slot := vpn)),
               CMT_dirty := (CMT_dirty s)(bank := (CMT_dirty s bank)(slot := DIRTY))\<rparr>)
     }"

text \<open>What \<open>lpn2ppn\<close> and \<open>update_L2P\<close> begin with: the slot that caches the map page.\<close>

definition cached_slot ::
  "geom \<Rightarrow> u32 list \<times> u32 \<Rightarrow> nat \<Rightarrow> int \<Rightarrow> dftl \<Rightarrow> (nat \<times> dftl) option" where
  "cached_slot g d0 bank vpn s =
     (if bank \<ge> N_BANKS g then None
      else
        let (offset, s) = is_vpn_cached g bank vpn s in
        if offset = -1 then do {
          s \<leftarrow> (if get_free_slot g bank s = -1
                then let (victim, s) = rand_mod (N_SLOT_PB g) s in make_free_slot g d0 bank victim s
                else Some s);
          let free_slot = get_free_slot g bank s;
          _ \<leftarrow> assertion (free_slot \<noteq> -1);
          s \<leftarrow> use_free_slot g d0 bank vpn free_slot s;
          let (offset, s) = is_vpn_cached g bank vpn s;
          _ \<leftarrow> assertion (offset = free_slot);
          Some (nat offset, s) }
        else Some (nat offset, s))"

definition lpn2ppn :: "geom \<Rightarrow> u32 list \<times> u32 \<Rightarrow> nat \<Rightarrow> int \<Rightarrow> dftl \<Rightarrow> (int \<times> dftl) option" where
  "lpn2ppn g d0 bank lpn s =
     do {
       (offset, s) \<leftarrow> cached_slot g d0 bank (lpn2vpn lpn) s;
       x \<leftarrow> lget (CMT_Data s bank offset) (lpn mod 8);
       Some (sint x, s) }"

definition update_L2P ::
  "geom \<Rightarrow> u32 list \<times> u32 \<Rightarrow> nat \<Rightarrow> int \<Rightarrow> int \<Rightarrow> dftl \<Rightarrow> dftl option" where
  "update_L2P g d0 bank lpn ppn s =
     do {
       (offset, s) \<leftarrow> cached_slot g d0 bank (lpn2vpn lpn) s;
       first \<leftarrow> get2 (N_BANKS g) (N_MAP_PAGES_PB g) (is_VPN_first_time s) (int bank) (lpn2vpn lpn);
       let row = (if first = 1 then replicate 8 (-1) else CMT_Data s bank offset);
       ft \<leftarrow> (if first = 1
              then set2 (N_BANKS g) (N_MAP_PAGES_PB g) (is_VPN_first_time s) (int bank) (lpn2vpn lpn) 0
              else Some (is_VPN_first_time s));
       row \<leftarrow> lset row (lpn mod 8) (word_of_int ppn);
       _ \<leftarrow> assertion (ppn \<ge> 0);
       Some (s\<lparr>is_VPN_first_time := ft,
               CMT_Data := (CMT_Data s)(bank := (CMT_Data s bank)(offset := row)),
               CMT_dirty := (CMT_dirty s)(bank := (CMT_dirty s bank)(offset := DIRTY))\<rparr>)
     }"

section \<open>The collection of data blocks\<close>

definition greedy_data_blk :: "geom \<Rightarrow> nat \<Rightarrow> dftl \<Rightarrow> int" where
  "greedy_data_blk g bank s =
     snd (fold (\<lambda>pblk (biggest_invalid, victim).
            if Block_Status s bank pblk \<noteq> DATA then (biggest_invalid, victim)
            else let invalid_cnt = int (invalid_pages g s bank pblk)
                 in if biggest_invalid \<le> invalid_cnt then (invalid_cnt, int pblk)
                    else (biggest_invalid, victim))
          (rev [0..<BLKS_PER_BANK g]) (0, -1))"

definition get_free_blk_data :: "geom \<Rightarrow> nat \<Rightarrow> dftl \<Rightarrow> int" where
  "get_free_blk_data g bank s =
     first_index (\<lambda>blk. Block_Status s bank blk = EMPTY) [0..<BLKS_PER_BANK g]"

definition data_gc_page ::
  "geom \<Rightarrow> u32 list \<times> u32 \<Rightarrow> u32 list \<times> u32 \<Rightarrow> nat \<Rightarrow> int \<Rightarrow> int \<Rightarrow> nat \<Rightarrow> int \<times> dftl
     \<Rightarrow> (int \<times> dftl) option" where
  "data_gc_page g d0 m0 bank victim_pblk free_blk page_offset = (\<lambda>(immigrants_cnt, s).
     do {
       v \<leftarrow> get2 (N_BANKS g) (N_PPNS_PB g) (page_valid s) (int bank)
              (victim_pblk * int (PAGES_PER_BLK g) + int page_offset);
       if v = INVALID then Some (immigrants_cnt, s)
       else do {
         let tmp = fst (nand_read (chip s) (int bank) victim_pblk (int page_offset) d0);
         let s = count (\<lambda>c. c\<lparr>gc_writes := gc_writes c + 1\<rparr>)
                   (s\<lparr>chip := fst (nand_write (chip s) (int bank) free_blk immigrants_cnt tmp)\<rparr>);
         s \<leftarrow> update_L2P g m0 bank (sint (snd tmp)) (free_blk * int (PAGES_PER_BLK g) + immigrants_cnt) s;
         Some (immigrants_cnt + 1, s) } })"

definition data_garbage_collection ::
  "geom \<Rightarrow> u32 list \<times> u32 \<Rightarrow> u32 list \<times> u32 \<Rightarrow> nat \<Rightarrow> dftl \<Rightarrow> dftl option" where
  "data_garbage_collection g d0 m0 bank s =
     do {
       _ \<leftarrow> assertion (Next_Data_PPN s bank = GC_Trigger_Data_PPN s bank);
       let s = count (\<lambda>c. c\<lparr>gcs := gcs c + 1\<rparr>) s;
       let victim_pblk = greedy_data_blk g bank s;
       let free_blk = get_free_blk_data g bank s;
       _ \<leftarrow> assertion (victim_pblk \<noteq> -1 \<and> free_blk \<noteq> -1);
       (immigrants_cnt, s) \<leftarrow>
         for_opt [0..<PAGES_PER_BLK g] (data_gc_page g d0 m0 bank victim_pblk free_blk) (0, s);
       valid \<leftarrow> for_opt [0..<PAGES_PER_BLK g]
         (\<lambda>i a. set2 (N_BANKS g) (N_PPNS_PB g) a (int bank)
                  (victim_pblk * int (PAGES_PER_BLK g) + int i) VALID) (page_valid s);
       let s = s\<lparr>page_valid := valid,
                 Next_Data_PPN := (Next_Data_PPN s)
                   (bank := free_blk * int (PAGES_PER_BLK g) + immigrants_cnt),
                 GC_Trigger_Data_PPN := (GC_Trigger_Data_PPN s)
                   (bank := free_blk * int (PAGES_PER_BLK g) + int (PAGES_PER_BLK g)),
                 chip := fst (nand_erase (chip s) (int bank) victim_pblk)\<rparr>;
       st \<leftarrow> set2 (N_BANKS g) (BLKS_PER_BANK g) (Block_Status s) (int bank) victim_pblk EMPTY;
       st \<leftarrow> set2 (N_BANKS g) (BLKS_PER_BANK g) st (int bank) free_blk DATA;
       Some (s\<lparr>Block_Status := st\<rparr>)
     }"

section \<open>The cache of data pages\<close>

definition sim_buffer_L2S :: "nat \<Rightarrow> int \<Rightarrow> dftl \<Rightarrow> int" where
  "sim_buffer_L2S bank lpn s = first_index (\<lambda>slot. buffer_S2L s bank slot = lpn) [0..<N_DATA_BUFFERS]"

definition get_empty_data_slot :: "nat \<Rightarrow> dftl \<Rightarrow> int" where
  "get_empty_data_slot bank s = first_index (\<lambda>i. buffer_S2L s bank i = -1) [0..<N_DATA_BUFFERS]"

text \<open>The eviction of a page chosen at random: it is written to the data frontier.\<close>

definition evict_data ::
  "geom \<Rightarrow> u32 list \<times> u32 \<Rightarrow> u32 list \<times> u32 \<Rightarrow> nat \<Rightarrow> dftl \<Rightarrow> dftl option" where
  "evict_data g d0 m0 bank s =
     do {
       let (victim_slot, s) = rand_mod N_DATA_BUFFERS s;
       s \<leftarrow> (if Next_Data_PPN s bank = GC_Trigger_Data_PPN s bank
             then data_garbage_collection g d0 m0 bank s else Some s);
       let ppn = Next_Data_PPN s bank;
       let victim_lpn = buffer_S2L s bank victim_slot;
       (before_ppn, s) \<leftarrow> lpn2ppn g m0 bank victim_lpn s;
       valid \<leftarrow> (if before_ppn \<noteq> -1
                 then set2 (N_BANKS g) (N_PPNS_PB g) (page_valid s) (int bank) before_ppn INVALID
                 else Some (page_valid s));
       s \<leftarrow> update_L2P g m0 bank victim_lpn (Next_Data_PPN s bank) (s\<lparr>page_valid := valid\<rparr>);
       let s = count (\<lambda>c. c\<lparr>data_writes := data_writes c + 1\<rparr>)
                 (s\<lparr>chip := fst (nand_write (chip s) (int bank) (ppn sdiv int (PAGES_PER_BLK g))
                            (ppn smod int (PAGES_PER_BLK g))
                            (buffer_Data s bank victim_slot, word_of_int (buffer_S2L s bank victim_slot)))\<rparr>);
       Some (s\<lparr>Next_Data_PPN := (Next_Data_PPN s)(bank := Next_Data_PPN s bank + 1),
               buffer_S2L := (buffer_S2L s)(bank := (buffer_S2L s bank)(victim_slot := -1))\<rparr>)
     }"

definition dwrite_through_lpn ::
  "geom \<Rightarrow> u32 list \<times> u32 \<Rightarrow> u32 list \<times> u32 \<Rightarrow> nat \<Rightarrow> int \<Rightarrow> u32 list \<Rightarrow> dftl \<Rightarrow> dftl option" where
  "dwrite_through_lpn g d0 m0 bank lpn data s =
     (if bank \<ge> N_BANKS g then None
      else do {
        let dst_slot = sim_buffer_L2S bank lpn s;
        (dst_slot, s) \<leftarrow>
          (if dst_slot = -1 then do {
             let s = count (\<lambda>c. c\<lparr>cache_miss := cache_miss c + 1\<rparr>) s;
             s \<leftarrow> (if get_empty_data_slot bank s = -1 then evict_data g d0 m0 bank s else Some s);
             Some (get_empty_data_slot bank s, s) }
           else Some (dst_slot, count (\<lambda>c. c\<lparr>cache_hit := cache_hit c + 1\<rparr>) s));
        _ \<leftarrow> assertion (dst_slot \<noteq> -1);
        row \<leftarrow> copy_to (buffer_Data s bank (nat dst_slot)) 0 data 0 8;
        Some (s\<lparr>buffer_Data := (buffer_Data s)(bank := (buffer_Data s bank)(nat dst_slot := row)),
                buffer_Spare := (buffer_Spare s)(bank := (buffer_Spare s bank)(nat dst_slot := lpn)),
                buffer_S2L := (buffer_S2L s)(bank := (buffer_S2L s bank)(nat dst_slot := lpn))\<rparr>) })"

section \<open>Requests\<close>

text \<open>
  The page number of the \<open>k\<close>-th page of a request has the type \<open>size_t\<close>; bank and logical page
  are its remainder and quotient by \<open>N_BANKS\<close>, the latter converted to \<open>int\<close>.
\<close>

definition page_of_req :: "span \<Rightarrow> nat \<Rightarrow> nat" where
  "page_of_req sp k = unat (word_of_int (first_page_first_lba sp) :: u64) div 8 + k"

definition bank_of :: "geom \<Rightarrow> span \<Rightarrow> nat \<Rightarrow> nat" where
  "bank_of g sp k = page_of_req sp k mod N_BANKS g"

definition lpn_of :: "geom \<Rightarrow> span \<Rightarrow> nat \<Rightarrow> int" where
  "lpn_of g sp k = sint (word_of_nat (page_of_req sp k div N_BANKS g) :: u32)"

text \<open>Reading a physical page into the local array.\<close>

definition read_ppn :: "geom \<Rightarrow> nat \<Rightarrow> int \<Rightarrow> u32 list \<times> u32 \<Rightarrow> dftl \<Rightarrow> u32 list \<times> u32" where
  "read_ppn g bank ppn d s =
     fst (nand_read (chip s) (int bank) (ppn sdiv int (PAGES_PER_BLK g)) (ppn smod int (PAGES_PER_BLK g)) d)"

definition dread_single ::
  "geom \<Rightarrow> u32 list \<times> u32 \<Rightarrow> u32 list \<times> u32 \<Rightarrow> span \<Rightarrow> u32 \<Rightarrow> u32 list \<Rightarrow> dftl
     \<Rightarrow> (u32 list \<times> dftl) option" where
  "dread_single g d0 m0 sp nsect buf s =
     (let bank = bank_of g sp 0; lpn = lpn_of g sp 0;
          sector_kazu = sint nsect;
          dst_slot = sim_buffer_L2S bank lpn s
      in if dst_slot \<noteq> -1 then do {
           buf \<leftarrow> copy_to buf 0 (buffer_Data s bank (nat dst_slot)) (first_lba_offset sp) sector_kazu;
           Some (buf, count (\<lambda>c. c\<lparr>cache_hit := cache_hit c + 1\<rparr>) s) }
         else do {
           (ppn, s) \<leftarrow> lpn2ppn g m0 bank lpn s;
           let s = count (\<lambda>c. c\<lparr>cache_miss := cache_miss c + 1\<rparr>) s;
           buf \<leftarrow> (if ppn = -1 then fill_to buf 0 0xFFFFFFFF sector_kazu
                   else copy_to buf 0 (fst (read_ppn g bank ppn d0 s)) (first_lba_offset sp) sector_kazu);
           Some (buf, s) })"

text \<open>One page of the loop: the local array, the buffer, the offset in it, the state.\<close>

definition dread_page ::
  "geom \<Rightarrow> u32 list \<times> u32 \<Rightarrow> span \<Rightarrow> nat \<Rightarrow> (u32 list \<times> u32) \<times> u32 list \<times> int \<times> dftl
     \<Rightarrow> ((u32 list \<times> u32) \<times> u32 list \<times> int \<times> dftl) option" where
  "dread_page g m0 sp k = (\<lambda>(d, buf, cur, s).
     do {
       let bank = bank_of g sp k;
       let lpn = lpn_of g sp k;
       (ppn, s) \<leftarrow> lpn2ppn g m0 bank lpn s;
       let dst_slot = sim_buffer_L2S bank lpn s;
       let off = (if k = 0 then first_lba_offset sp else 0);
       let sector_kazu = (if k = 0 then 8 - first_lba_offset sp
                          else if int k = send_kazu sp - 1 then last_lba_offset sp + 1
                          else 8);
       if dst_slot \<noteq> -1 then do {
         buf \<leftarrow> copy_to buf cur (buffer_Data s bank (nat dst_slot)) off sector_kazu;
         Some (d, buf, cur + sector_kazu, count (\<lambda>c. c\<lparr>cache_hit := cache_hit c + 1\<rparr>) s) }
       else do {
         let s = count (\<lambda>c. c\<lparr>cache_miss := cache_miss c + 1\<rparr>) s;
         if ppn = -1 then do {
           buf \<leftarrow> fill_to buf cur 0xFFFFFFFF sector_kazu;
           Some (d, buf, cur + sector_kazu, s) }
         else do {
           let d = read_ppn g bank ppn d s;
           buf \<leftarrow> copy_to buf cur (fst d) off sector_kazu;
           Some (d, buf, cur + sector_kazu, s) } } })"

definition dftl_read ::
  "geom \<Rightarrow> u32 list \<times> u32 \<Rightarrow> u32 list \<times> u32 \<Rightarrow> u32 \<Rightarrow> u32 \<Rightarrow> u32 list \<Rightarrow> dftl
     \<Rightarrow> (u32 list \<times> dftl) option" where
  "dftl_read g d0 m0 lba nsect buf s =
     do {
       _ \<leftarrow> assertion (nsect > 0);
       let sp = span_of lba nsect;
       if send_kazu sp = 1 then dread_single g d0 m0 sp nsect buf s
       else do {
         (d, buf, cur, s) \<leftarrow> for_opt [0..<nat (send_kazu sp)] (dread_page g m0 sp) (d0, buf, 0, s);
         Some (buf, s) } }"

text \<open>
  The page a write starts from: the cached one, or the one on flash, or the local array with
  ones from \<open>a\<close> up to \<open>b\<close> when the logical page was never written.
\<close>

definition old_page ::
  "geom \<Rightarrow> nat \<Rightarrow> int \<Rightarrow> int \<Rightarrow> u32 list \<times> u32 \<Rightarrow> (u32 list \<Rightarrow> u32 list option) \<Rightarrow> dftl
     \<Rightarrow> (u32 list \<times> u32) option" where
  "old_page g bank lpn ppn d blank s =
     (if sim_buffer_L2S bank lpn s \<noteq> -1 then do {
        x \<leftarrow> copy_to (fst d) 0 (buffer_Data s bank (nat (sim_buffer_L2S bank lpn s))) 0 8;
        Some (x, snd d) }
      else if ppn = -1 then do { x \<leftarrow> blank (fst d); Some (x, snd d) }
      else Some (read_ppn g bank ppn d s))"

definition dwrite_single ::
  "geom \<Rightarrow> u32 list \<times> u32 \<Rightarrow> u32 list \<times> u32 \<Rightarrow> span \<Rightarrow> u32 \<Rightarrow> u32 list \<Rightarrow> dftl \<Rightarrow> dftl option" where
  "dwrite_single g d0 m0 sp nsect buf s =
     do {
       let bank = bank_of g sp 0;
       let lpn = lpn_of g sp 0;
       (ppn, s) \<leftarrow> lpn2ppn g m0 bank lpn s;
       d \<leftarrow> old_page g bank lpn ppn d0
              (\<lambda>x. do { x \<leftarrow> fill_to x 0 0xFFFFFFFF (first_lba_offset sp);
                        fill_to x (last_lba_offset sp + 1) 0xFFFFFFFF (7 - last_lba_offset sp) }) s;
       x \<leftarrow> copy_to (fst d) (first_lba_offset sp) buf 0 (sint nsect);
       dwrite_through_lpn g m0 m0 bank lpn x s }"

definition dwrite_page ::
  "geom \<Rightarrow> u32 list \<times> u32 \<Rightarrow> span \<Rightarrow> u32 list \<Rightarrow> nat \<Rightarrow> (u32 list \<times> u32) \<times> int \<times> dftl
     \<Rightarrow> ((u32 list \<times> u32) \<times> int \<times> dftl) option" where
  "dwrite_page g m0 sp buf k = (\<lambda>(d, cur, s).
     do {
       let bank = bank_of g sp k;
       let lpn = lpn_of g sp k;
       (ppn, s) \<leftarrow> lpn2ppn g m0 bank lpn s;
       (d, off, sector_kazu) \<leftarrow>
         (if k = 0 then do {
            d \<leftarrow> old_page g bank lpn ppn d (\<lambda>x. fill_to x 0 0xFFFFFFFF (first_lba_offset sp)) s;
            Some (d, first_lba_offset sp, 8 - first_lba_offset sp) }
          else if int k = send_kazu sp - 1 then do {
            d \<leftarrow> old_page g bank lpn ppn d
                   (\<lambda>x. fill_to x (last_lba_offset sp + 1) 0xFFFFFFFF (7 - last_lba_offset sp)) s;
            Some (d, 0, last_lba_offset sp + 1) }
          else do {
            d \<leftarrow> (if sim_buffer_L2S bank lpn s \<noteq> -1 then do {
                    x \<leftarrow> copy_to (fst d) 0 (buffer_Data s bank (nat (sim_buffer_L2S bank lpn s))) 0 8;
                    Some (x, snd d) }
                  else Some d);
            d \<leftarrow> (if ppn = -1 then do { x \<leftarrow> fill_to (fst d) 0 0xFFFFFFFF 8; Some (x, snd d) }
                  else Some (read_ppn g bank ppn d s));
            Some (d, 0, 8) });
       x \<leftarrow> copy_to (fst d) off buf cur sector_kazu;
       s \<leftarrow> dwrite_through_lpn g m0 m0 bank lpn x s;
       Some ((x, snd d), cur + sector_kazu, s) })"

definition dftl_write ::
  "geom \<Rightarrow> u32 list \<times> u32 \<Rightarrow> u32 list \<times> u32 \<Rightarrow> u32 \<Rightarrow> u32 \<Rightarrow> u32 list \<Rightarrow> dftl \<Rightarrow> dftl option" where
  "dftl_write g d0 m0 lba nsect buf s =
     do {
       let sp = span_of lba nsect;
       s \<leftarrow> (if send_kazu sp = 1 then dwrite_single g d0 m0 sp nsect buf s
             else do {
               (d, cur, s) \<leftarrow> for_opt [0..<nat (send_kazu sp)] (dwrite_page g m0 sp buf) (d0, 0, s);
               Some s });
       Some (count (\<lambda>c. c\<lparr>host_writes := host_writes c + int (unat nsect)\<rparr>) s) }"

end
