(* ===== verification/DftlMap.thy ===== *)
theory DftlMap
  imports Dftl FtlGc
begin

text \<open>
  The mapping table of the demand-based layer as what it stands for: an array from logical to
  physical pages. The table is spread over the slots of the CMT and over map pages on flash,
  which the GTD locates; pages move when slots are evicted and when map blocks are collected.
  Whatever moves, \<open>lpn2ppn\<close> returns the entry of the array and \<open>update_L2P\<close> changes one entry,
  and both always return: a collection of map blocks finds an invalid page.
\<close>

section \<open>Invariant\<close>

definition map_lo :: "geom \<Rightarrow> nat" where
  "map_lo g = N_DATA_USER_BLOCKS_PB g + N_USER_OP_BLOCKS_PB g"

text \<open>
  What the sizes of \<open>ftl.h\<close> satisfy: there are data blocks, and the map blocks other than the
  free one hold more pages than there are map pages.
\<close>

definition wf_dftl :: "geom \<Rightarrow> bool" where
  "wf_dftl g \<longleftrightarrow> wf_geom g \<and> 0 < map_lo g \<and> map_lo g + 1 < BLKS_PER_BANK g \<and>
     N_MAP_PAGES_PB g < (BLKS_PER_BANK g - map_lo g - 1) * PAGES_PER_BLK g"

definition dlog :: "dftl \<Rightarrow> nat \<Rightarrow> nat \<Rightarrow> (u32 list \<times> u32) list" where
  "dlog s b k = nand_log (chip s) (int b) (int k)"

definition chip_ok :: "geom \<Rightarrow> dftl \<Rightarrow> bool" where
  "chip_ok g s \<longleftrightarrow> nand_ok (chip s) \<and> nand_dims (chip s) = geom_dims g"

definition good_row :: "u32 list \<Rightarrow> bool" where
  "good_row r \<longleftrightarrow> length r = 8 \<and> list_all (\<lambda>x. -1 \<le> sint x) r"

text \<open>
  The block \<open>f\<close> is free; the pages of the other map blocks are programmed, except those from
  \<open>n\<close> up to the trigger.
\<close>

definition map_front :: "geom \<Rightarrow> dftl \<Rightarrow> nat \<Rightarrow> nat \<Rightarrow> nat \<Rightarrow> nat \<Rightarrow> bool" where
  "map_front g s b f n tr \<longleftrightarrow>
     map_lo g \<le> f \<and> f < BLKS_PER_BANK g \<and> Block_Status s b f = EMPTY \<and>
     (\<forall>k < BLKS_PER_BANK g. k \<noteq> f \<longrightarrow> (Block_Status s b k = MAP \<longleftrightarrow> map_lo g \<le> k)) \<and>
     Next_Map_PPN s b = int n \<and> GC_Trigger_Map_PPN s b = int tr \<and>
     map_lo g * PAGES_PER_BLK g \<le> n \<and> n \<le> tr \<and> tr \<le> N_PPNS_PB g \<and>
     (\<forall>k r. map_lo g \<le> k \<longrightarrow> k < BLKS_PER_BANK g \<longrightarrow> r < PAGES_PER_BLK g \<longrightarrow>
        (r < length (dlog s b k) \<longleftrightarrow>
         k \<noteq> f \<and> \<not> (n \<le> k * PAGES_PER_BLK g + r \<and> k * PAGES_PER_BLK g + r < tr))) \<and>
     (\<forall>r < PAGES_PER_BLK g. \<not> (n \<le> f * PAGES_PER_BLK g + r \<and> f * PAGES_PER_BLK g + r < tr))"

text \<open>The physical page \<open>r\<close> of block \<open>k\<close> is the map page \<open>w\<close> on flash.\<close>

definition map_page_at :: "geom \<Rightarrow> dftl \<Rightarrow> nat \<Rightarrow> nat \<Rightarrow> nat \<Rightarrow> nat \<Rightarrow> bool" where
  "map_page_at g s b w k r \<longleftrightarrow>
     map_lo g \<le> k \<and> k < BLKS_PER_BANK g \<and> r < PAGES_PER_BLK g \<and> r < length (dlog s b k) \<and>
     GTD s b w = int (k * PAGES_PER_BLK g + r) \<and> page_valid s b (k * PAGES_PER_BLK g + r) = 1 \<and>
     snd (dlog s b k ! r) = word_of_nat w \<and> good_row (fst (dlog s b k ! r))"

definition map_pages :: "geom \<Rightarrow> dftl \<Rightarrow> nat \<Rightarrow> bool" where
  "map_pages g s b \<longleftrightarrow>
     (\<forall>w < N_MAP_PAGES_PB g. GTD s b w = -1 \<or> (\<exists>k r. map_page_at g s b w k r)) \<and>
     (\<forall>k r. map_lo g \<le> k \<longrightarrow> k < BLKS_PER_BANK g \<longrightarrow> r < PAGES_PER_BLK g \<longrightarrow>
        (page_valid s b (k * PAGES_PER_BLK g + r) = 0 \<or> page_valid s b (k * PAGES_PER_BLK g + r) = 1) \<and>
        (if r < length (dlog s b k)
         then page_valid s b (k * PAGES_PER_BLK g + r) = 1 \<longrightarrow>
                (\<exists>w < N_MAP_PAGES_PB g. map_page_at g s b w k r)
         else page_valid s b (k * PAGES_PER_BLK g + r) = 1))"

definition cached_at :: "geom \<Rightarrow> dftl \<Rightarrow> nat \<Rightarrow> nat \<Rightarrow> nat \<Rightarrow> bool" where
  "cached_at g s b w i \<longleftrightarrow> i < N_SLOT_PB g \<and> CMT_vpn s b i = int w"

definition map_cache :: "geom \<Rightarrow> dftl \<Rightarrow> nat \<Rightarrow> bool" where
  "map_cache g s b \<longleftrightarrow>
     (\<forall>i < N_SLOT_PB g. CMT_vpn s b i = -1 \<or>
        (\<exists>w < N_MAP_PAGES_PB g. CMT_vpn s b i = int w \<and> CMT_dirty s b i = DIRTY \<and>
           good_row (CMT_Data s b i))) \<and>
     (\<forall>w i j. cached_at g s b w i \<longrightarrow> cached_at g s b w j \<longrightarrow> i = j) \<and>
     (\<forall>w < N_MAP_PAGES_PB g. is_VPN_first_time s b w = 1 \<longleftrightarrow>
        GTD s b w = -1 \<and> (\<forall>i. \<not> cached_at g s b w i))"

definition map_ok :: "geom \<Rightarrow> dftl \<Rightarrow> nat \<Rightarrow> bool" where
  "map_ok g s b \<longleftrightarrow> (\<exists>f n tr. map_front g s b f n tr) \<and> map_pages g s b \<and> map_cache g s b"

text \<open>The array: the entry is in the slot that caches its map page, or in the map page on flash.\<close>

definition map_row :: "geom \<Rightarrow> dftl \<Rightarrow> nat \<Rightarrow> nat \<Rightarrow> u32 list" where
  "map_row g s b w =
     (case find (\<lambda>i. CMT_vpn s b i = int w) [0..<N_SLOT_PB g] of
        Some i \<Rightarrow> CMT_Data s b i
      | None \<Rightarrow> if GTD s b w = -1 then replicate 8 (-1)
                else fst (dlog s b (nat (GTD s b w) div PAGES_PER_BLK g)
                            ! (nat (GTD s b w) mod PAGES_PER_BLK g)))"

definition mapped :: "geom \<Rightarrow> dftl \<Rightarrow> nat \<Rightarrow> nat \<Rightarrow> int" where
  "mapped g s b l = sint (map_row g s b (l div 8) ! (l mod 8))"

text \<open>What an operation on the map of bank \<open>b\<close> leaves alone: the data blocks and the other banks.\<close>

definition map_frame :: "geom \<Rightarrow> nat \<Rightarrow> dftl \<Rightarrow> dftl \<Rightarrow> bool" where
  "map_frame g b s t \<longleftrightarrow>
     (\<forall>b'. b' \<noteq> b \<longrightarrow> page_valid t b' = page_valid s b' \<and> Block_Status t b' = Block_Status s b' \<and>
        GTD t b' = GTD s b' \<and> CMT_vpn t b' = CMT_vpn s b' \<and> CMT_dirty t b' = CMT_dirty s b' \<and>
        CMT_Data t b' = CMT_Data s b' \<and> is_VPN_first_time t b' = is_VPN_first_time s b' \<and>
        Next_Map_PPN t b' = Next_Map_PPN s b' \<and> GC_Trigger_Map_PPN t b' = GC_Trigger_Map_PPN s b') \<and>
     (\<forall>b' k. b' < N_BANKS g \<longrightarrow> k < BLKS_PER_BANK g \<longrightarrow> b' \<noteq> b \<or> k < map_lo g \<longrightarrow>
        dlog t b' k = dlog s b' k) \<and>
     (\<forall>p < map_lo g * PAGES_PER_BLK g. page_valid t b p = page_valid s b p) \<and>
     (\<forall>k < map_lo g. Block_Status t b k = Block_Status s b k) \<and>
     Next_Data_PPN t = Next_Data_PPN s \<and> GC_Trigger_Data_PPN t = GC_Trigger_Data_PPN s \<and>
     buffer_S2L t = buffer_S2L s \<and> buffer_Data t = buffer_Data s \<and> buffer_Spare t = buffer_Spare s"

section \<open>First facts\<close>

lemma wf_dftlD:
  assumes "wf_dftl g"
  shows "wf_geom g" "0 < PAGES_PER_BLK g" "0 < N_BANKS g" "0 < map_lo g"
    "map_lo g + 1 < BLKS_PER_BANK g"
    "N_MAP_PAGES_PB g < (BLKS_PER_BANK g - map_lo g - 1) * PAGES_PER_BLK g"
    "N_PPNS_PB g < 2 ^ 28" "N_MAP_PAGES_PB g < 2 ^ 28" "8 * N_MAP_PAGES_PB g \<le> N_PPNS_PB g"
proof -
  show g: "wf_geom g" and "0 < map_lo g" "map_lo g + 1 < BLKS_PER_BANK g"
    "N_MAP_PAGES_PB g < (BLKS_PER_BANK g - map_lo g - 1) * PAGES_PER_BLK g"
    using assms by (simp_all add: wf_dftl_def)
  show "0 < PAGES_PER_BLK g" "0 < N_BANKS g" "N_PPNS_PB g < 2 ^ 28" using wf_geomD [OF g] by auto
  show "8 * N_MAP_PAGES_PB g \<le> N_PPNS_PB g" by (simp add: N_MAP_PAGES_PB_def)
  with \<open>N_PPNS_PB g < 2 ^ 28\<close> show "N_MAP_PAGES_PB g < 2 ^ 28" by linarith
qed

lemma map_frame_refl [simp]: "map_frame g b s s"
  by (simp add: map_frame_def)

lemma map_frame_trans: "map_frame g b s t \<Longrightarrow> map_frame g b t u \<Longrightarrow> map_frame g b s u"
  by (simp add: map_frame_def)

lemma count_simps [simp]:
  "chip (count h s) = chip s" "page_valid (count h s) = page_valid s"
  "Block_Status (count h s) = Block_Status s" "GTD (count h s) = GTD s"
  "CMT_vpn (count h s) = CMT_vpn s" "CMT_dirty (count h s) = CMT_dirty s"
  "CMT_Data (count h s) = CMT_Data s" "is_VPN_first_time (count h s) = is_VPN_first_time s"
  "Next_Map_PPN (count h s) = Next_Map_PPN s" "GC_Trigger_Map_PPN (count h s) = GC_Trigger_Map_PPN s"
  "Next_Data_PPN (count h s) = Next_Data_PPN s" "GC_Trigger_Data_PPN (count h s) = GC_Trigger_Data_PPN s"
  "buffer_S2L (count h s) = buffer_S2L s" "buffer_Data (count h s) = buffer_Data s"
  "buffer_Spare (count h s) = buffer_Spare s" "rands (count h s) = rands s" "rand_pos (count h s) = rand_pos s"
  by (simp_all add: count_def)

lemma invalid_pages_count [simp]: "invalid_pages g (count h s) = invalid_pages g s"
  by (simp add: invalid_pages_def fun_eq_iff)

lemma assertion_simps [simp]: "assertion True = Some ()" "assertion False = None"
  by (simp_all add: assertion_def)

lemma find_SomeD: "find P xs = Some x \<Longrightarrow> x \<in> set xs \<and> P x"
  by (auto simp: find_Some_iff)

lemma first_index_None: "first_index P is = -1 \<longleftrightarrow> (\<forall>i \<in> set is. \<not> P i)"
  by (auto simp: first_index_def find_None_iff dest: find_SomeD split: option.splits)

lemma first_index_Some:
  assumes "first_index P is \<noteq> -1"
  obtains i where "i \<in> set is" "P i" "first_index P is = int i"
  using assms by (auto simp: first_index_def dest: find_SomeD split: option.splits)

lemma first_index_unique:
  assumes "i \<in> set is" "P i" "\<And>j. j \<in> set is \<Longrightarrow> P j \<Longrightarrow> j = i"
  shows "first_index P is = int i"
proof -
  have "first_index P is \<noteq> -1" using assms(1,2) by (auto simp: first_index_None)
  then show ?thesis using assms(3) by (metis first_index_Some)
qed

lemma map_row_cached:
  assumes c: "map_cache g s b" and i: "cached_at g s b w i"
  shows "map_row g s b w = CMT_Data s b i"
proof -
  have "find (\<lambda>i. CMT_vpn s b i = int w) [0..<N_SLOT_PB g] \<noteq> None"
    using i by (auto simp: find_upt_None cached_at_def)
  then obtain j where j: "find (\<lambda>i. CMT_vpn s b i = int w) [0..<N_SLOT_PB g] = Some j" by blast
  then have "cached_at g s b w j" using find_upt_Some by (fastforce simp: cached_at_def)
  with c i have "j = i" by (auto simp: map_cache_def)
  with j show ?thesis by (simp add: map_row_def)
qed

lemma map_row_uncached:
  assumes "\<And>i. \<not> cached_at g s b w i"
  shows "map_row g s b w = (if GTD s b w = -1 then replicate 8 (-1)
    else fst (dlog s b (nat (GTD s b w) div PAGES_PER_BLK g) ! (nat (GTD s b w) mod PAGES_PER_BLK g)))"
proof -
  have "find (\<lambda>i. CMT_vpn s b i = int w) [0..<N_SLOT_PB g] = None"
    using assms by (auto simp: find_upt_None cached_at_def)
  then show ?thesis by (simp add: map_row_def)
qed

lemma map_row_flash:
  assumes "\<And>i. \<not> cached_at g s b w i" and "map_page_at g s b w k r"
  shows "map_row g s b w = fst (dlog s b k ! r)"
proof -
  have "GTD s b w = int (k * PAGES_PER_BLK g + r)" "r < PAGES_PER_BLK g"
    using assms(2) by (simp_all add: map_page_at_def)
  then show ?thesis using map_row_uncached [of g s b w, OF assms(1)] by (simp add: div_mod_split del: of_nat_add of_nat_mult)
qed

lemma map_page_unique:
  assumes "wf_dftl g" "map_page_at g s b w k r" "map_page_at g s b w' k r"
    "w < N_MAP_PAGES_PB g" "w' < N_MAP_PAGES_PB g"
  shows "w = w'"
proof -
  have "word_of_nat w = (word_of_nat w' :: u32)" using assms by (simp add: map_page_at_def)
  then have "sint (word_of_nat w :: u32) = sint (word_of_nat w' :: u32)" by simp
  then show ?thesis using sint_of_nat_small [of w] sint_of_nat_small [of w'] assms(4,5) wf_dftlD(8) [OF assms(1)] by simp
qed

lemma map_page_tag:
  assumes "wf_dftl g" "map_page_at g s b w k r" "w < N_MAP_PAGES_PB g"
  shows "sint (snd (dlog s b k ! r)) = int w"
  using assms wf_dftlD(8) [OF assms(1)] by (simp add: map_page_at_def sint_of_nat_small)

lemma map_page_inj:
  assumes "map_page_at g s b w k r" "map_page_at g s b w k' r'"
  shows "k' = k \<and> r' = r"
  using assms row_major_inj [of k "PAGES_PER_BLK g" r k' r']
  unfolding map_page_at_def by (metis of_nat_eq_iff)

lemma map_page_mapped: "map_page_at g s b w k r \<Longrightarrow> GTD s b w \<noteq> -1"
  by (simp add: map_page_at_def del: of_nat_add of_nat_mult)

lemma map_region_ppn:
  assumes "map_lo g \<le> k" "k < BLKS_PER_BANK g" "r < PAGES_PER_BLK g"
  shows "map_lo g * PAGES_PER_BLK g \<le> k * PAGES_PER_BLK g + r" "k * PAGES_PER_BLK g + r < N_PPNS_PB g"
  using assms by (simp_all add: trans_le_add1 ppn_in)

section \<open>The collection of map blocks\<close>

lemma greedy_fold:
  assumes "fold (\<lambda>k (mx, r). if Q k \<noteq> q then (mx, r)
      else let c = int (h k) in if mx < c then (c, int k) else (mx, r)) xs (m, r) = (m', r')"
  shows "m \<le> m' \<and> (\<forall>k \<in> set xs. Q k = q \<longrightarrow> int (h k) \<le> m') \<and>
    ((\<exists>k \<in> set xs. Q k = q \<and> r' = int k \<and> m' = int (h k)) \<or> m' = m \<and> r' = r)"
  using assms
proof (induction xs arbitrary: m r)
  case (Cons k xs)
  consider "Q k \<noteq> q" | "Q k = q" "m < int (h k)" | "Q k = q" "\<not> m < int (h k)" by blast
  then show ?case
  proof cases
    case 1
    with Cons.prems Cons.IH [of m r] show ?thesis by auto
  next
    case 2
    with Cons.prems Cons.IH [of "int (h k)" "int k"] show ?thesis by auto
  next
    case 3
    with Cons.prems Cons.IH [of m r] show ?thesis by auto
  qed
qed simp

lemma invalid_pages_pos:
  "0 < invalid_pages g s b k \<longleftrightarrow> (\<exists>r < PAGES_PER_BLK g. page_valid s b (k * PAGES_PER_BLK g + r) = 0)"
  by (auto simp: invalid_pages_def filter_empty_conv)

text \<open>
  When the frontier has reached its trigger, the map blocks but the free one are full, and they
  hold more pages than there are map pages.
\<close>

lemma map_full:
  assumes "map_front g s b f n n" "map_lo g \<le> k" "k < BLKS_PER_BANK g" "r < PAGES_PER_BLK g"
  shows "r < length (dlog s b k) \<longleftrightarrow> k \<noteq> f"
  using assms unfolding map_front_def by auto

lemma map_pages_page:
  assumes "map_pages g s b" "map_lo g \<le> k" "k < BLKS_PER_BANK g" "r < PAGES_PER_BLK g"
  shows "page_valid s b (k * PAGES_PER_BLK g + r) = 0 \<or> page_valid s b (k * PAGES_PER_BLK g + r) = 1"
    "\<not> r < length (dlog s b k) \<Longrightarrow> page_valid s b (k * PAGES_PER_BLK g + r) = 1"
  using assms unfolding map_pages_def by (blast, meson)

lemma map_pages_valid:
  assumes m: "map_pages g s b" and k: "map_lo g \<le> k" "k < BLKS_PER_BANK g" "r < PAGES_PER_BLK g"
    and "r < length (dlog s b k)" "page_valid s b (k * PAGES_PER_BLK g + r) \<noteq> 0"
  obtains w where "w < N_MAP_PAGES_PB g" "map_page_at g s b w k r"
proof -
  from m have "(page_valid s b (k * PAGES_PER_BLK g + r) = 0 \<or> page_valid s b (k * PAGES_PER_BLK g + r) = 1) \<and>
        (if r < length (dlog s b k)
         then page_valid s b (k * PAGES_PER_BLK g + r) = 1 \<longrightarrow>
                (\<exists>w < N_MAP_PAGES_PB g. map_page_at g s b w k r)
         else page_valid s b (k * PAGES_PER_BLK g + r) = 1)"
    unfolding map_pages_def using k by blast
  with assms(5,6) that show ?thesis by auto
qed

lemma map_invalid_exists:
  assumes g: "wf_dftl g" and f: "map_front g s b f n n" and m: "map_pages g s b"
  obtains k r where "map_lo g \<le> k" "k < BLKS_PER_BANK g" "k \<noteq> f" "r < PAGES_PER_BLK g"
    "page_valid s b (k * PAGES_PER_BLK g + r) = 0"
proof (rule ccontr)
  assume none: "\<not> thesis"
  let ?P = "PAGES_PER_BLK g" and ?B = "BLKS_PER_BANK g"
  let ?W = "({map_lo g..<?B} - {f}) \<times> {..<?P}"
  let ?at = "\<lambda>w. (nat (GTD s b w) div ?P, nat (GTD s b w) mod ?P)"
  have sub: "?W \<subseteq> ?at ` {..<N_MAP_PAGES_PB g}"
  proof
    fix x assume "x \<in> ?W"
    then obtain k r where x: "x = (k, r)" "map_lo g \<le> k" "k < ?B" "k \<noteq> f" "r < ?P"
      by (cases x) auto
    have v: "page_valid s b (k * ?P + r) \<noteq> 0" using none that [OF x(2-5)] by blast
    have len: "r < length (dlog s b k)" using map_full [OF f x(2,3,5)] x(4) by simp
    obtain w where w: "w < N_MAP_PAGES_PB g" "map_page_at g s b w k r"
      by (rule map_pages_valid [OF m x(2,3,5) len v])
    then have "GTD s b w = int (k * ?P + r)" by (simp add: map_page_at_def)
    then have "?at w = x" using x(1,5) by (simp add: div_mod_split del: of_nat_add of_nat_mult)
    moreover have "?at w \<in> ?at ` {..<N_MAP_PAGES_PB g}" by (rule imageI) (simp add: w(1))
    ultimately show "x \<in> ?at ` {..<N_MAP_PAGES_PB g}" by simp
  qed
  have "card ?W \<le> card (?at ` {..<N_MAP_PAGES_PB g})" by (rule card_mono [OF _ sub]) simp
  also have "\<dots> \<le> card {..<N_MAP_PAGES_PB g}" by (rule card_image_le) simp
  finally have "card ?W \<le> N_MAP_PAGES_PB g" by simp
  moreover have "f \<in> {map_lo g..<?B}" using f by (simp add: map_front_def)
  then have "card ?W = (?B - map_lo g - 1) * ?P" by (simp add: card_cartesian_product)
  ultimately show False using wf_dftlD(6) [OF g] by simp
qed

lemma map_victim:
  assumes g: "wf_dftl g" and f: "map_front g s b f n n" and m: "map_pages g s b"
  obtains v r where "greedy_map_blk g b s = int v" "map_lo g \<le> v" "v < BLKS_PER_BANK g" "v \<noteq> f"
    "r < PAGES_PER_BLK g" "page_valid s b (v * PAGES_PER_BLK g + r) = 0"
proof -
  obtain k r where k: "map_lo g \<le> k" "k < BLKS_PER_BANK g" "k \<noteq> f" "r < PAGES_PER_BLK g"
    "page_valid s b (k * PAGES_PER_BLK g + r) = 0" using map_invalid_exists [OF assms] by metis
  have st: "Block_Status s b j = MAP \<longleftrightarrow> map_lo g \<le> j" if "j < BLKS_PER_BANK g" "j \<noteq> f" for j
    using f that by (simp add: map_front_def)
  have sf: "Block_Status s b f \<noteq> MAP" using f by (simp add: map_front_def)
  let ?fd = "fold (\<lambda>pblk (biggest_invalid, victim).
            if Block_Status s b pblk \<noteq> MAP then (biggest_invalid, victim)
            else let invalid_cnt = int (invalid_pages g s b pblk)
                 in if biggest_invalid < invalid_cnt then (invalid_cnt, int pblk)
                    else (biggest_invalid, victim)) [0..<BLKS_PER_BANK g] (-1, -1)"
  obtain mx v where mv: "?fd = (mx, v)" by fastforce
  then have gr: "greedy_map_blk g b s = v" by (simp add: greedy_map_blk_def)
  have "0 < invalid_pages g s b k" using k by (auto simp: invalid_pages_pos)
  moreover have "int (invalid_pages g s b k) \<le> mx" using greedy_fold [OF mv] st k by auto
  ultimately obtain j where j: "j < BLKS_PER_BANK g" "Block_Status s b j = MAP" "v = int j"
    "mx = int (invalid_pages g s b j)" "0 < invalid_pages g s b j"
    using greedy_fold [OF mv] by auto
  then obtain r' where "r' < PAGES_PER_BLK g" "page_valid s b (j * PAGES_PER_BLK g + r') = 0"
    by (auto simp: invalid_pages_pos)
  with that [of j r'] gr j st [of j] sf show ?thesis by blast
qed

lemma free_map_blk:
  assumes "map_front g s b f n tr"
  shows "get_free_blk_map g b s = int f"
proof -
  have f: "map_lo g \<le> f" "f < BLKS_PER_BANK g" "Block_Status s b f = EMPTY"
    using assms unfolding map_front_def by auto
  have all: "Block_Status s b k \<noteq> EMPTY" if "k \<noteq> f" "map_lo g \<le> k" "k < BLKS_PER_BANK g" for k
    using assms that unfolding map_front_def by auto
  let ?L = "rev [0..<BLKS_PER_BANK g]"
  have split: "?L = rev [Suc f..<BLKS_PER_BANK g] @ f # rev [0..<f]"
  proof -
    have "[0..<BLKS_PER_BANK g] = [0..<f] @ f # [Suc f..<BLKS_PER_BANK g]"
      using f(2) upt_add_eq_append [of 0 f "BLKS_PER_BANK g - f"] by (simp add: upt_conv_Cons)
    then show ?thesis by simp
  qed
  have skip: "\<forall>k \<in> set xs. \<not> Q k \<Longrightarrow> find Q (xs @ ys) = find Q ys" for Q and xs ys :: "nat list"
    by (induction xs) auto
  have "\<forall>k \<in> set (rev [Suc f..<BLKS_PER_BANK g]). Block_Status s b k \<noteq> EMPTY"
    using all f(1) by auto
  from skip [OF this] have "find (\<lambda>blk. Block_Status s b blk = EMPTY) ?L = Some f"
    unfolding split using f(3) by simp
  then show ?thesis by (simp add: get_free_blk_map_def first_index_def)
qed

text \<open>
  After \<open>i\<close> pages of the victim \<open>v\<close>: the map pages that lay there are in the first \<open>cnt\<close> pages of
  the free block \<open>f\<close>, the others where they were.
\<close>

definition map_moved :: "geom \<Rightarrow> dftl \<Rightarrow> nat \<Rightarrow> nat \<Rightarrow> nat \<Rightarrow> nat \<Rightarrow> nat \<Rightarrow> dftl \<Rightarrow> bool" where
  "map_moved g s b f v i cnt t \<longleftrightarrow>
     chip_ok g t \<and> length (dlog t b f) = cnt \<and>
     cnt + (if \<exists>j < i. page_valid s b (v * PAGES_PER_BLK g + j) = 0 then 1 else 0) \<le> i \<and>
     (\<forall>b' k. b' < N_BANKS g \<longrightarrow> k < BLKS_PER_BANK g \<longrightarrow> b' \<noteq> b \<or> k \<noteq> f \<longrightarrow> dlog t b' k = dlog s b' k) \<and>
     (\<forall>b'. b' \<noteq> b \<longrightarrow> GTD t b' = GTD s b') \<and>
     (\<forall>w < N_MAP_PAGES_PB g.
        if \<exists>r < i. map_page_at g s b w v r
        then \<exists>r'. map_page_at g t b w f r' \<and>
               ((\<forall>j. \<not> cached_at g s b w j) \<longrightarrow> fst (dlog t b f ! r') = map_row g s b w)
        else GTD t b w = GTD s b w) \<and>
     (\<forall>r < cnt. \<exists>w < N_MAP_PAGES_PB g. map_page_at g t b w f r)"

lemma map_movedD:
  assumes "map_moved g s b f v i cnt t"
  shows "chip_ok g t" "length (dlog t b f) = cnt"
    "cnt + (if \<exists>j < i. page_valid s b (v * PAGES_PER_BLK g + j) = 0 then 1 else 0) \<le> i"
    "\<And>b' k. b' < N_BANKS g \<Longrightarrow> k < BLKS_PER_BANK g \<Longrightarrow> b' \<noteq> b \<or> k \<noteq> f \<Longrightarrow> dlog t b' k = dlog s b' k"
    "\<And>b'. b' \<noteq> b \<Longrightarrow> GTD t b' = GTD s b'"
    "\<And>w. w < N_MAP_PAGES_PB g \<Longrightarrow> if \<exists>r < i. map_page_at g s b w v r
        then \<exists>r'. map_page_at g t b w f r' \<and>
               ((\<forall>j. \<not> cached_at g s b w j) \<longrightarrow> fst (dlog t b f ! r') = map_row g s b w)
        else GTD t b w = GTD s b w"
    "\<And>r. r < cnt \<Longrightarrow> \<exists>w < N_MAP_PAGES_PB g. map_page_at g t b w f r"
  using assms unfolding map_moved_def by blast+

text \<open>The state the loop runs on differs from the first one in the chip, the GTD and the counters.\<close>

definition gc_state :: "dftl \<Rightarrow> dftl \<Rightarrow> bool" where
  "gc_state s t \<longleftrightarrow> page_valid t = page_valid s \<and> Block_Status t = Block_Status s \<and>
     CMT_vpn t = CMT_vpn s \<and> CMT_dirty t = CMT_dirty s \<and> CMT_Data t = CMT_Data s \<and>
     is_VPN_first_time t = is_VPN_first_time s \<and> Next_Map_PPN t = Next_Map_PPN s \<and>
     GC_Trigger_Map_PPN t = GC_Trigger_Map_PPN s \<and> Next_Data_PPN t = Next_Data_PPN s \<and>
     GC_Trigger_Data_PPN t = GC_Trigger_Data_PPN s \<and> buffer_S2L t = buffer_S2L s \<and>
     buffer_Data t = buffer_Data s \<and> buffer_Spare t = buffer_Spare s \<and> rands t = rands s \<and>
     rand_pos t = rand_pos s"

lemma gc_stateD:
  assumes "gc_state s t"
  shows "page_valid t = page_valid s" "Block_Status t = Block_Status s" "CMT_vpn t = CMT_vpn s"
    "CMT_dirty t = CMT_dirty s" "CMT_Data t = CMT_Data s" "is_VPN_first_time t = is_VPN_first_time s"
    "Next_Map_PPN t = Next_Map_PPN s" "GC_Trigger_Map_PPN t = GC_Trigger_Map_PPN s"
    "Next_Data_PPN t = Next_Data_PPN s" "GC_Trigger_Data_PPN t = GC_Trigger_Data_PPN s"
    "buffer_S2L t = buffer_S2L s" "buffer_Data t = buffer_Data s" "buffer_Spare t = buffer_Spare s"
    "rands t = rands s" "rand_pos t = rand_pos s" "cached_at g t b w i = cached_at g s b w i"
  using assms by (auto simp: gc_state_def cached_at_def)

lemma dlog_count [simp]: "dlog (count h s) = dlog s"
  by (simp add: dlog_def fun_eq_iff)

text \<open>Programming the page after the last one of a block.\<close>

lemma dlog_write:
  assumes "chip_ok g s" "page_good p" "b < N_BANKS g" "k < BLKS_PER_BANK g"
    "length (dlog s b k) = q" "q < PAGES_PER_BLK g"
    and u: "chip t = fst (nand_write (chip s) (int b) (int k) (int q) p)"
  shows "chip_ok g t"
    "b' < N_BANKS g \<Longrightarrow> k' < BLKS_PER_BANK g \<Longrightarrow>
       dlog t b' k' = (if b' = b \<and> k' = k then dlog s b k @ [p] else dlog s b' k')"
proof -
  have len: "length (nand_log (chip s) (int b) (int k)) = q" using assms(5) by (simp add: dlog_def)
  note wr = log_write [OF _ _ assms(2,3,4,6) len]
  show "chip_ok g t" using wr(1,2) assms(1) by (simp add: chip_ok_def u)
  show "b' < N_BANKS g \<Longrightarrow> k' < BLKS_PER_BANK g \<Longrightarrow>
       dlog t b' k' = (if b' = b \<and> k' = k then dlog s b k @ [p] else dlog s b' k')"
    using wr(3) assms(1) by (simp add: dlog_def chip_ok_def u)
qed

lemma dlog_read:
  assumes "chip_ok g s" "b < N_BANKS g" "k < BLKS_PER_BANK g" "q < PAGES_PER_BLK g" "q < length (dlog s b k)"
  shows "nand_read (chip s) (int b) (int k) (int q) d = (dlog s b k ! q, 0)"
  using assms log_read [of "chip s" g b k q d] by (simp add: dlog_def chip_ok_def)

lemma map_page_at_log:
  assumes "map_page_at g s b w k r" "dlog t b k ! r = dlog s b k ! r" "r < length (dlog t b k)"
    "GTD t b w = GTD s b w" "page_valid t b (k * PAGES_PER_BLK g + r) = page_valid s b (k * PAGES_PER_BLK g + r)"
  shows "map_page_at g t b w k r"
  using assms by (simp add: map_page_at_def)

lemma cached_slot_data:
  assumes c: "map_cache g s b" and i: "cached_at g s b w i"
  shows "good_row (CMT_Data s b i)" "w < N_MAP_PAGES_PB g" "CMT_dirty s b i = DIRTY"
    "first_index (\<lambda>j. CMT_vpn s b j = int w) [0..<N_SLOT_PB g] = int i"
proof -
  have "CMT_vpn s b i = -1 \<or> (\<exists>w < N_MAP_PAGES_PB g. CMT_vpn s b i = int w \<and> CMT_dirty s b i = DIRTY \<and>
           good_row (CMT_Data s b i))"
    using c i unfolding map_cache_def cached_at_def by blast
  then show "good_row (CMT_Data s b i)" "w < N_MAP_PAGES_PB g" "CMT_dirty s b i = DIRTY"
    using i by (auto simp: cached_at_def)
  show "first_index (\<lambda>j. CMT_vpn s b j = int w) [0..<N_SLOT_PB g] = int i"
    using c i by (intro first_index_unique) (auto simp: map_cache_def cached_at_def)
qed

lemma uncached_index:
  assumes "\<And>i. \<not> cached_at g s b w i"
  shows "first_index (\<lambda>j. CMT_vpn s b j = int w) [0..<N_SLOT_PB g] = -1"
  using assms by (auto simp: first_index_None cached_at_def)

lemma map_gc_page_step:
  assumes g: "wf_dftl g" and b: "b < N_BANKS g" and fr: "map_front g s b f n n"
    and m: "map_pages g s b" and c: "map_cache g s b"
    and v: "map_lo g \<le> v" "v < BLKS_PER_BANK g" "v \<noteq> f" and i: "i < PAGES_PER_BLK g"
    and inv: "map_moved g s b f v i cnt t" and st: "gc_state s t"
  shows "\<exists>tmp' cnt' t'. map_gc_page g b (int v) (int f) i (tmp, int cnt, t) = Some (tmp', int cnt', t') \<and>
    map_moved g s b f v (Suc i) cnt' t' \<and> gc_state s t'"
proof -
  let ?P = "PAGES_PER_BLK g"
  have P: "0 < ?P" and f: "map_lo g \<le> f" "f < BLKS_PER_BANK g"
    using wf_dftlD(2) [OF g] fr by (auto simp: map_front_def)
  note gs = gc_stateD [OF st]
  note mv = map_movedD [OF inv]
  have q: "v * ?P + i < N_PPNS_PB g" using ppn_in v(2) i .
  have get: "get2 (N_BANKS g) (N_PPNS_PB g) (page_valid t) (int b) (int v * int ?P + int i)
      = Some (page_valid s b (v * ?P + i))"
    using get2_in [OF b q, of "page_valid t"] gs(1) by simp
  have full: "i < length (dlog s b v)" using map_full [OF fr v(1,2) i] v(3) by simp
  show ?thesis
  proof (cases "page_valid s b (v * ?P + i) = 0")
    case True
    have "map_gc_page g b (int v) (int f) i (tmp, int cnt, t) = Some (tmp, int cnt, t)"
      using True by (simp add: map_gc_page_def get)
    moreover have "\<not> map_page_at g s b w v i" for w using True by (simp add: map_page_at_def)
    then have "(\<exists>r < Suc i. map_page_at g s b w v r) \<longleftrightarrow> (\<exists>r < i. map_page_at g s b w v r)" for w
      by (auto simp: less_Suc_eq)
    then have "map_moved g s b f v (Suc i) cnt t"
      unfolding map_moved_def using mv True by (auto simp: less_Suc_eq)
    ultimately show ?thesis using st by blast
  next
    case False
    obtain w where w: "w < N_MAP_PAGES_PB g" "map_page_at g s b w v i"
      by (rule map_pages_valid [OF m v(1,2) i full False])
    let ?pg = "dlog s b v ! i"
    have lv: "dlog t b v = dlog s b v" using mv(4) [OF b v(2)] v(3) by simp
    have rd: "nand_read (chip t) (int b) (int v) (int i) tmp = (?pg, 0)"
      using dlog_read [OF mv(1) b v(2) i] lv full by simp
    have tag: "sint (snd ?pg) = int w" using map_page_tag [OF g w(2,1)] .
    let ?o = "first_index (\<lambda>j. CMT_vpn t b j = int w) [0..<N_SLOT_PB g]"
    define data where "data = (if ?o \<noteq> -1 then CMT_Data t b (nat ?o) else fst ?pg)"
    have data: "good_row data \<and> ((\<forall>j. \<not> cached_at g s b w j) \<longrightarrow> data = map_row g s b w)"
    proof (cases "\<exists>j. cached_at g s b w j")
      case True
      then obtain j where j: "cached_at g s b w j" by blast
      with cached_slot_data [OF c j] gs show ?thesis by (auto simp: data_def)
    next
      case False
      then have "?o = -1" using uncached_index [of g s b w] gs by simp
      then show ?thesis using map_row_flash [OF _ w(2)] False w(2) by (auto simp: data_def map_page_at_def)
    qed
    have cP: "cnt < ?P" using mv(3) i by (auto split: if_splits)
    have pg: "page_good (data, snd ?pg)" using data by (simp add: page_good_def good_row_def)
    define u where "u = count (\<lambda>c. c\<lparr>map_gc_writes := map_gc_writes c + 1\<rparr>)
      ((snd (is_vpn_cached g b (int w) t))\<lparr>chip := fst (nand_write (chip t) (int b) (int f) (int cnt) (data, snd ?pg))\<rparr>)"
    define t' where "t' = u\<lparr>GTD := (GTD t)(b := (GTD t b)(w := int (f * ?P + cnt)))\<rparr>"
    have run: "map_gc_page g b (int v) (int f) i (tmp, int cnt, t) = Some (?pg, int (Suc cnt), t')"
      using False set2_in [OF b w(1), of "GTD t" "int (f * ?P + cnt)"]
      by (simp add: map_gc_page_def get rd tag is_vpn_cached_def Let_def t'_def u_def data_def)
    have st': "gc_state s t'"
      using st by (auto simp: gc_state_def t'_def u_def is_vpn_cached_def count_def Let_def)
    have "chip t' = fst (nand_write (chip t) (int b) (int f) (int cnt) (data, snd ?pg))"
      by (simp add: t'_def u_def)
    note wr = dlog_write [OF mv(1) pg b f(2) mv(2) cP this]
    have G: "GTD t' b w' = (if w' = w then int (f * ?P + cnt) else GTD t b w')"
      "b' \<noteq> b \<Longrightarrow> GTD t' b' = GTD s b'" for w' b' using mv(5) by (simp_all add: t'_def)
    have V: "page_valid t' = page_valid s" using gc_stateD(1) [OF st'] .
    have lf: "dlog t' b f = dlog t b f @ [(data, snd ?pg)]" using wr(2) [OF b f(2)] by simp
    have vf: "page_valid s b (f * ?P + cnt) = 1"
      using m f cP map_full [OF fr f cP] unfolding map_pages_def by meson
    have new: "map_page_at g t' b w f cnt"
      using f cP lf mv(2) G(1) V vf data w(2) by (simp add: map_page_at_def nth_append)
    have old: "map_page_at g t' b w' f r" if "map_page_at g t b w' f r" "w' \<noteq> w" for w' r
      by (rule map_page_at_log [OF that(1)])
        (use that lf gs V G(1) in \<open>simp_all add: map_page_at_def nth_append\<close>)
    have nw: "\<not> (\<exists>r < i. map_page_at g s b w v r)" using map_page_inj [OF w(2)] by blast
    have "GTD t b w = GTD s b w" using mv(6) [OF w(1)] unfolding if_not_P [OF nw] .
    then have Gw: "GTD t b w = int (v * ?P + i)" using w(2) by (simp add: map_page_at_def)
    have "map_moved g s b f v (Suc i) (Suc cnt) t'"
      unfolding map_moved_def
    proof (intro conjI allI impI)
      show "chip_ok g t'" "length (dlog t' b f) = Suc cnt" using wr(1) lf mv(2) by simp_all
      show "Suc cnt + (if \<exists>j < Suc i. page_valid s b (v * ?P + j) = 0 then 1 else 0) \<le> Suc i"
        using mv(3) False by (auto simp: less_Suc_eq split: if_splits)
      show "dlog t' b' k = dlog s b' k" if "b' < N_BANKS g" "k < BLKS_PER_BANK g" "b' \<noteq> b \<or> k \<noteq> f" for b' k
        using wr(2) [OF that(1,2)] mv(4) [OF that] that(3) by auto
      show "GTD t' b' = GTD s b'" if "b' \<noteq> b" for b' using G(2) that .
      show "\<exists>w < N_MAP_PAGES_PB g. map_page_at g t' b w f r" if "r < Suc cnt" for r
      proof (cases "r = cnt")
        case False
        with that have "r < cnt" by simp
        from mv(7) [OF this] obtain w' where w': "w' < N_MAP_PAGES_PB g" "map_page_at g t b w' f r" by blast
        have "w' \<noteq> w"
        proof
          assume "w' = w"
          then have "f * ?P + r = v * ?P + i" using w'(2) Gw by (simp add: map_page_at_def del: of_nat_add of_nat_mult)
          then show False using row_major_inj(1) [of f ?P r v i] w'(2) i v(3) by (simp add: map_page_at_def)
        qed
        then show ?thesis using old [OF w'(2)] w'(1) by blast
      qed (use new w(1) in blast)
      fix w' assume w': "w' < N_MAP_PAGES_PB g"
      show "if \<exists>r < Suc i. map_page_at g s b w' v r
        then \<exists>r'. map_page_at g t' b w' f r' \<and>
               ((\<forall>j. \<not> cached_at g s b w' j) \<longrightarrow> fst (dlog t' b f ! r') = map_row g s b w')
        else GTD t' b w' = GTD s b w'"
      proof (cases "w' = w")
        case True
        have ex: "\<exists>r < Suc i. map_page_at g s b w v r" using w(2) by blast
        have "fst (dlog t' b f ! cnt) = data" using lf mv(2) by (simp add: nth_append)
        with new data show ?thesis unfolding True if_P [OF ex] by blast
      next
        case ne: False
        then have eq: "(\<exists>r < Suc i. map_page_at g s b w' v r) \<longleftrightarrow> (\<exists>r < i. map_page_at g s b w' v r)"
          using map_page_unique [OF g _ w(2) w' w(1)] by (auto simp: less_Suc_eq)
        show ?thesis
        proof (cases "\<exists>r < i. map_page_at g s b w' v r")
          case True
          from mv(6) [OF w', unfolded if_P [OF True]] obtain r' where r': "map_page_at g t b w' f r'"
            "(\<forall>j. \<not> cached_at g s b w' j) \<longrightarrow> fst (dlog t b f ! r') = map_row g s b w'" by blast
          then have "dlog t' b f ! r' = dlog t b f ! r'" using lf by (simp add: nth_append map_page_at_def)
          with r' old [OF r'(1) ne] show ?thesis unfolding eq if_P [OF True] by auto
        next
          case no: False
          from mv(6) [OF w', unfolded if_not_P [OF no]] show ?thesis
            unfolding eq if_not_P [OF no] by (simp add: G(1) ne)
        qed
      qed
    qed
    with run st' show ?thesis by blast
  qed
qed

text \<open>The state a collection of the victim \<open>v\<close> leaves.\<close>

definition map_collected :: "geom \<Rightarrow> dftl \<Rightarrow> nat \<Rightarrow> nat \<Rightarrow> nat \<Rightarrow> nat \<Rightarrow> dftl \<Rightarrow> bool" where
  "map_collected g s b f v cnt t \<longleftrightarrow>
     chip_ok g t \<and> cnt < PAGES_PER_BLK g \<and> length (dlog t b f) = cnt \<and> dlog t b v = [] \<and>
     (\<forall>b' k. b' < N_BANKS g \<longrightarrow> k < BLKS_PER_BANK g \<longrightarrow> b' \<noteq> b \<or> k \<noteq> f \<and> k \<noteq> v \<longrightarrow>
        dlog t b' k = dlog s b' k) \<and>
     (\<forall>b'. b' \<noteq> b \<longrightarrow> GTD t b' = GTD s b') \<and>
     (\<forall>w < N_MAP_PAGES_PB g.
        if \<exists>r. map_page_at g s b w v r
        then \<exists>r'. map_page_at g t b w f r' \<and>
               ((\<forall>j. \<not> cached_at g s b w j) \<longrightarrow> fst (dlog t b f ! r') = map_row g s b w)
        else GTD t b w = GTD s b w) \<and>
     (\<forall>r < cnt. \<exists>w < N_MAP_PAGES_PB g. map_page_at g t b w f r) \<and>
     page_valid t = (page_valid s)(b := (\<lambda>q. if v * PAGES_PER_BLK g \<le> q \<and> q < v * PAGES_PER_BLK g + PAGES_PER_BLK g
                                              then 1 else page_valid s b q)) \<and>
     Block_Status t = (Block_Status s)(b := (Block_Status s b)(v := EMPTY, f := MAP)) \<and>
     Next_Map_PPN t = (Next_Map_PPN s)(b := int (f * PAGES_PER_BLK g + cnt)) \<and>
     GC_Trigger_Map_PPN t = (GC_Trigger_Map_PPN s)(b := int (f * PAGES_PER_BLK g + PAGES_PER_BLK g)) \<and>
     CMT_vpn t = CMT_vpn s \<and> CMT_dirty t = CMT_dirty s \<and> CMT_Data t = CMT_Data s \<and>
     is_VPN_first_time t = is_VPN_first_time s \<and> Next_Data_PPN t = Next_Data_PPN s \<and>
     GC_Trigger_Data_PPN t = GC_Trigger_Data_PPN s \<and> buffer_S2L t = buffer_S2L s \<and>
     buffer_Data t = buffer_Data s \<and> buffer_Spare t = buffer_Spare s \<and> rands t = rands s \<and>
     rand_pos t = rand_pos s"

lemma map_gc_loop:
  assumes g: "wf_dftl g" and ok: "chip_ok g s" and b: "b < N_BANKS g" and fr: "map_front g s b f n n"
    and m: "map_pages g s b" and c: "map_cache g s b"
    and v: "map_lo g \<le> v" "v < BLKS_PER_BANK g" "v \<noteq> f"
  obtains tmp cnt t where
    "for_opt [0..<PAGES_PER_BLK g] (map_gc_page g b (int v) (int f)) (d0, 0, count h s) = Some (tmp, int cnt, t)"
    "map_moved g s b f v (PAGES_PER_BLK g) cnt t" "gc_state s t"
proof -
  let ?J = "\<lambda>i (tmp :: u32 list \<times> u32, c, t). \<exists>cnt. c = int cnt \<and> map_moved g s b f v i cnt t \<and> gc_state s t"
  have "\<exists>x. for_opt [0..<PAGES_PER_BLK g] (map_gc_page g b (int v) (int f)) (d0, 0, count h s) = Some x \<and>
      ?J (PAGES_PER_BLK g) x"
  proof (rule for_opt_rule [where J = ?J])
    have f: "map_lo g \<le> f" "f < BLKS_PER_BANK g" using fr by (auto simp: map_front_def)
    have "\<not> 0 < length (dlog s b f)" using map_full [OF fr f wf_dftlD(2) [OF g]] by simp
    then have "map_moved g s b f v 0 0 (count h s)"
      using ok by (simp add: map_moved_def chip_ok_def)
    then show "?J 0 (d0, 0, count h s)" by (simp add: gc_state_def)
    fix i x assume i: "i < PAGES_PER_BLK g" and J: "?J i x"
    obtain tmp c t where x: "x = (tmp, c, t)" by (cases x)
    with J obtain cnt where "c = int cnt" "map_moved g s b f v i cnt t" "gc_state s t" by auto
    with map_gc_page_step [OF g b fr m c v i, of cnt t tmp] x
    show "\<exists>y. map_gc_page g b (int v) (int f) i x = Some y \<and> ?J (Suc i) y" by fastforce
  qed
  then show ?thesis using that by auto
qed

lemma map_collected_run:
  assumes g: "wf_dftl g" and ok: "chip_ok g s" and b: "b < N_BANKS g" and fr: "map_front g s b f n n"
    and m: "map_pages g s b" and c: "map_cache g s b"
  obtains v cnt t where "map_garbage_collection g d0 b s = Some t" "map_collected g s b f v cnt t"
    "map_lo g \<le> v" "v < BLKS_PER_BANK g" "v \<noteq> f"
proof -
  let ?P = "PAGES_PER_BLK g"
  have P: "0 < ?P" using wf_dftlD(2) [OF g] .
  obtain v r where v: "greedy_map_blk g b s = int v" "map_lo g \<le> v" "v < BLKS_PER_BANK g" "v \<noteq> f"
    and r: "r < ?P" "page_valid s b (v * ?P + r) = 0"
    using map_victim [OF g fr m] by metis
  have f: "map_lo g \<le> f" "f < BLKS_PER_BANK g" "Next_Map_PPN s b = GC_Trigger_Map_PPN s b"
    using fr by (auto simp: map_front_def)
  let ?h = "\<lambda>c :: dstats. c\<lparr>map_gcs := map_gcs c + 1\<rparr>"
  obtain tmp cnt t where loop: "for_opt [0..<?P] (map_gc_page g b (int v) (int f)) (d0, 0, count ?h s)
      = Some (tmp, int cnt, t)" and mm: "map_moved g s b f v ?P cnt t" and st: "gc_state s t"
    by (rule map_gc_loop [OF g ok b fr m c v(2-4)])
  note gs = gc_stateD [OF st]
  note mv = map_movedD [OF mm]
  have cnt: "cnt < ?P" using mv(3) r by (auto split: if_splits)
  note ct = mv(1)
  note er = log_erase [OF _ _ b v(3) P, of "chip t"]
  define u where "u = t\<lparr>Next_Map_PPN := (Next_Map_PPN s)(b := int (f * ?P + cnt)),
     GC_Trigger_Map_PPN := (GC_Trigger_Map_PPN s)(b := int (f * ?P + ?P)),
     page_valid := (page_valid s)(b := (\<lambda>q. if v * ?P \<le> q \<and> q < v * ?P + ?P then 1 else page_valid s b q)),
     chip := fst (nand_erase (chip t) (int b) (int v)),
     Block_Status := (Block_Status s)(b := (Block_Status s b)(v := EMPTY, f := MAP))\<rparr>"
  have valid: "for_opt [0..<?P] (\<lambda>pg a. set2 (N_BANKS g) (N_PPNS_PB g) a (int b) (int v * int ?P + int pg) 1) a0
      = Some (a0(b := (\<lambda>q. if v * ?P \<le> q \<and> q < v * ?P + ?P then 1 else a0 b q)))" for a0 :: "nat \<Rightarrow> nat \<Rightarrow> int"
    using set_valid_loop [OF b ppn_in [OF v(3)], of ?P a0] by simp
  have gr: "greedy_map_blk g b (count ?h s) = int v" "get_free_blk_map g b (count ?h s) = int f"
    using v(1) free_map_blk [OF fr] by (simp_all add: greedy_map_blk_def get_free_blk_map_def cong: if_cong)
  have tr: "(int f + 1) * int ?P = int f * int ?P + int ?P" by (simp add: algebra_simps)
  have run: "map_garbage_collection g d0 b s = Some u"
    by (simp add: map_garbage_collection_def Let_def f(3) gr loop valid gs set2_in [OF b v(3)]
        set2_in [OF b f(2)] u_def tr cong: if_cong)
  have dl: "dlog u b' k = (if b' = b \<and> k = v then [] else dlog t b' k)" if "b' < N_BANKS g" "k < BLKS_PER_BANK g" for b' k
    using er(3) [OF _ _ that] ct by (simp add: dlog_def u_def chip_ok_def)
  have lf: "dlog u b f = dlog t b f" using dl [OF b f(2)] v(4) by auto
  have pv: "page_valid u b (f * ?P + r) = page_valid s b (f * ?P + r)" if "r < ?P" for r
    using row_major_block [of v ?P f r] that v(4) by (auto simp: u_def)
  have at: "map_page_at g u b w f r" if "map_page_at g t b w f r" for w r
    by (rule map_page_at_log [OF that]) (use that lf pv gs in \<open>simp_all add: map_page_at_def u_def\<close>)
  have "map_collected g s b f v cnt u"
    unfolding map_collected_def
  proof (intro conjI allI impI)
    show "chip_ok g u" using er(1,2) ct by (simp add: chip_ok_def u_def)
    fix w assume w: "w < N_MAP_PAGES_PB g"
    have eq: "(\<exists>r. map_page_at g s b w v r) \<longleftrightarrow> (\<exists>r < ?P. map_page_at g s b w v r)"
      by (auto simp: map_page_at_def)
    have G: "GTD u = GTD t" by (simp add: u_def)
    show "if \<exists>r. map_page_at g s b w v r
        then \<exists>r'. map_page_at g u b w f r' \<and>
               ((\<forall>j. \<not> cached_at g s b w j) \<longrightarrow> fst (dlog u b f ! r') = map_row g s b w)
        else GTD u b w = GTD s b w"
    proof (cases "\<exists>r < ?P. map_page_at g s b w v r")
      case True
      from mv(6) [OF w, unfolded if_P [OF True]] at show ?thesis
        unfolding eq lf if_P [OF True] by blast
    next
      case no: False
      from mv(6) [OF w, unfolded if_not_P [OF no]] show ?thesis unfolding eq if_not_P [OF no] G .
    qed
  next
    show "\<exists>w < N_MAP_PAGES_PB g. map_page_at g u b w f r" if "r < cnt" for r
      using mv(7) [OF that] at by blast
    show "dlog u b' k = dlog s b' k"
      if "b' < N_BANKS g" "k < BLKS_PER_BANK g" "b' \<noteq> b \<or> k \<noteq> f \<and> k \<noteq> v" for b' k
      using dl [OF that(1,2)] mv(4) [OF that(1,2)] that(3) by auto
    show "dlog u b v = []" using dl [OF b v(3)] by simp
    show "length (dlog u b f) = cnt" using lf mv(2) by simp
    show "GTD u b' = GTD s b'" if "b' \<noteq> b" for b' using mv(5) [OF that] by (simp add: u_def)
  qed (use cnt gs in \<open>simp_all add: u_def\<close>)
  with run v(2-4) that show ?thesis by blast
qed

lemma map_collectedD:
  assumes "map_collected g s b f v cnt t"
  shows "chip_ok g t" "cnt < PAGES_PER_BLK g" "length (dlog t b f) = cnt" "dlog t b v = []"
    "\<And>b' k. b' < N_BANKS g \<Longrightarrow> k < BLKS_PER_BANK g \<Longrightarrow> b' \<noteq> b \<or> k \<noteq> f \<and> k \<noteq> v \<Longrightarrow> dlog t b' k = dlog s b' k"
    "\<And>b'. b' \<noteq> b \<Longrightarrow> GTD t b' = GTD s b'"
    "\<And>w. w < N_MAP_PAGES_PB g \<Longrightarrow> if \<exists>r. map_page_at g s b w v r
        then \<exists>r'. map_page_at g t b w f r' \<and>
               ((\<forall>j. \<not> cached_at g s b w j) \<longrightarrow> fst (dlog t b f ! r') = map_row g s b w)
        else GTD t b w = GTD s b w"
    "\<And>r. r < cnt \<Longrightarrow> \<exists>w < N_MAP_PAGES_PB g. map_page_at g t b w f r"
    "page_valid t = (page_valid s)(b := (\<lambda>q. if v * PAGES_PER_BLK g \<le> q \<and> q < v * PAGES_PER_BLK g + PAGES_PER_BLK g
                                              then 1 else page_valid s b q))"
    "Block_Status t = (Block_Status s)(b := (Block_Status s b)(v := EMPTY, f := MAP))"
    "Next_Map_PPN t = (Next_Map_PPN s)(b := int (f * PAGES_PER_BLK g + cnt))"
    "GC_Trigger_Map_PPN t = (GC_Trigger_Map_PPN s)(b := int (f * PAGES_PER_BLK g + PAGES_PER_BLK g))"
    "CMT_vpn t = CMT_vpn s" "CMT_dirty t = CMT_dirty s" "CMT_Data t = CMT_Data s"
    "is_VPN_first_time t = is_VPN_first_time s" "cached_at g t b w j = cached_at g s b w j"
  using assms unfolding map_collected_def cached_at_def by (blast | metis)+

text \<open>Where a map page is before and after the collection.\<close>

lemma map_collected_where:
  assumes g: "wf_dftl g" and fr: "map_front g s b f n n" and m: "map_pages g s b"
    and c: "map_collected g s b f v cnt t" and v: "map_lo g \<le> v" "v < BLKS_PER_BANK g" "v \<noteq> f"
    and b: "b < N_BANKS g" and w: "w < N_MAP_PAGES_PB g"
  obtains (absent) "GTD s b w = -1" "GTD t b w = -1"
  | (kept) k r where "map_page_at g s b w k r" "map_page_at g t b w k r" "k \<noteq> v" "k \<noteq> f"
      "dlog t b k ! r = dlog s b k ! r"
  | (moved) r r' where "map_page_at g s b w v r" "map_page_at g t b w f r'"
      "(\<forall>j. \<not> cached_at g s b w j) \<Longrightarrow> fst (dlog t b f ! r') = map_row g s b w"
proof (cases "\<exists>r. map_page_at g s b w v r")
  case True
  from map_collectedD(7) [OF c w, unfolded if_P [OF True]] True moved show ?thesis by blast
next
  case False
  then have G: "GTD t b w = GTD s b w" using map_collectedD(7) [OF c w, unfolded if_not_P [OF False]] by simp
  have "GTD s b w = -1 \<or> (\<exists>k r. map_page_at g s b w k r)" using m w by (simp add: map_pages_def)
  then show ?thesis
  proof
    assume "\<exists>k r. map_page_at g s b w k r"
    then obtain k r where k: "map_page_at g s b w k r" by blast
    then have kr: "map_lo g \<le> k" "k < BLKS_PER_BANK g" "r < PAGES_PER_BLK g" "r < length (dlog s b k)"
      by (simp_all add: map_page_at_def)
    have ne: "k \<noteq> v" "k \<noteq> f" using False k map_full [OF fr kr(1-3)] kr(4) by auto
    have log: "dlog t b k = dlog s b k" using map_collectedD(5) [OF c b kr(2)] ne by simp
    have "\<not> (v * PAGES_PER_BLK g \<le> k * PAGES_PER_BLK g + r \<and> k * PAGES_PER_BLK g + r < v * PAGES_PER_BLK g + PAGES_PER_BLK g)"
      using row_major_block [OF _ _ kr(3), of v k] ne(1) by blast
    then have pv: "page_valid t b (k * PAGES_PER_BLK g + r) = page_valid s b (k * PAGES_PER_BLK g + r)"
      unfolding map_collectedD(9) [OF c] by auto
    have "map_page_at g t b w k r" by (rule map_page_at_log [OF k]) (use log kr G pv in simp_all)
    with kept k ne log show ?thesis by simp
  qed (use absent G in simp)
qed

lemma map_collected_front:
  assumes g: "wf_dftl g" and fr: "map_front g s b f n n"
    and c: "map_collected g s b f v cnt t" and v: "map_lo g \<le> v" "v < BLKS_PER_BANK g" "v \<noteq> f"
    and b: "b < N_BANKS g"
  shows "map_front g t b v (f * PAGES_PER_BLK g + cnt) (f * PAGES_PER_BLK g + PAGES_PER_BLK g)"
proof -
  let ?P = "PAGES_PER_BLK g"
  have f: "map_lo g \<le> f" "f < BLKS_PER_BANK g" using fr by (auto simp: map_front_def)
  note cD = map_collectedD [OF c]
  have st: "Block_Status s b k = MAP \<longleftrightarrow> map_lo g \<le> k" if "k < BLKS_PER_BANK g" "k \<noteq> f" for k
    using fr that unfolding map_front_def by blast
  have range: "f * ?P + cnt \<le> k * ?P + r \<and> k * ?P + r < f * ?P + ?P \<longleftrightarrow> k = f \<and> cnt \<le> r"
    if r: "r < ?P" for k r
  proof
    assume a: "f * ?P + cnt \<le> k * ?P + r \<and> k * ?P + r < f * ?P + ?P"
    then have "k = f" using row_major_block [OF _ _ r, of f k] by simp
    with a show "k = f \<and> cnt \<le> r" by simp
  qed (use r in simp)
  have "Suc f * ?P \<le> BLKS_PER_BANK g * ?P" using f(2) by (intro mult_le_mono1) simp
  then have tr: "f * ?P + ?P \<le> N_PPNS_PB g" by (simp add: N_PPNS_PB_def)
  have lo: "map_lo g * ?P \<le> f * ?P + cnt" using f(1) by (simp add: trans_le_add1)
  have logs: "r < length (dlog t b k) \<longleftrightarrow> k \<noteq> v \<and> \<not> (f * ?P + cnt \<le> k * ?P + r \<and> k * ?P + r < f * ?P + ?P)"
    if k: "map_lo g \<le> k" "k < BLKS_PER_BANK g" "r < ?P" for k r
    unfolding range [OF k(3)] using cD(3,4) cD(5) [OF b k(2)] map_full [OF fr k] v(3)
    by (cases "k = f"; cases "k = v") auto
  show ?thesis
    unfolding map_front_def
  proof (intro conjI allI impI)
    show "Block_Status t b k = MAP \<longleftrightarrow> map_lo g \<le> k" if "k < BLKS_PER_BANK g" "k \<noteq> v" for k
      using st [OF that(1)] that f(1) by (simp add: cD(10))
    show "\<not> (f * ?P + cnt \<le> v * ?P + r \<and> v * ?P + r < f * ?P + ?P)" if "r < ?P" for r
      using range [OF that] v(3) by simp
  qed (use v tr lo logs cD(2) in \<open>simp_all add: cD(10-12)\<close>)
qed

lemma map_collected_pages:
  assumes g: "wf_dftl g" and fr: "map_front g s b f n n" and m: "map_pages g s b"
    and c: "map_collected g s b f v cnt t" and v: "map_lo g \<le> v" "v < BLKS_PER_BANK g" "v \<noteq> f"
    and b: "b < N_BANKS g"
  shows "map_pages g t b"
proof -
  let ?P = "PAGES_PER_BLK g"
  note cD = map_collectedD [OF c]
  have "GTD t b w = -1 \<or> (\<exists>k r. map_page_at g t b w k r)" if w: "w < N_MAP_PAGES_PB g" for w
    by (rule map_collected_where [OF g fr m c v b w]) blast+
  moreover have "page_valid t b (k * ?P + r) = 0 \<or> page_valid t b (k * ?P + r) = 1"
    "if r < length (dlog t b k)
         then page_valid t b (k * ?P + r) = 1 \<longrightarrow> (\<exists>w < N_MAP_PAGES_PB g. map_page_at g t b w k r)
         else page_valid t b (k * ?P + r) = 1"
    if k: "map_lo g \<le> k" "k < BLKS_PER_BANK g" "r < ?P" for k r
  proof -
    have s: "page_valid s b (k * ?P + r) = 0 \<or> page_valid s b (k * ?P + r) = 1"
      "if r < length (dlog s b k)
         then page_valid s b (k * ?P + r) = 1 \<longrightarrow> (\<exists>w < N_MAP_PAGES_PB g. map_page_at g s b w k r)
         else page_valid s b (k * ?P + r) = 1"
      using m k unfolding map_pages_def by blast+
    show "page_valid t b (k * ?P + r) = 0 \<or> page_valid t b (k * ?P + r) = 1"
      using s(1) by (simp add: cD(9))
    consider "k = v" | "k = f" | "k \<noteq> v" "k \<noteq> f" by blast
    then show "if r < length (dlog t b k)
         then page_valid t b (k * ?P + r) = 1 \<longrightarrow> (\<exists>w < N_MAP_PAGES_PB g. map_page_at g t b w k r)
         else page_valid t b (k * ?P + r) = 1"
    proof cases
      case 1
      then show ?thesis using k(3) by (simp add: cD(4,9))
    next
      case 2
      then have "page_valid s b (k * ?P + r) = 1" using s(2) map_full [OF fr k] by auto
      then show ?thesis using cD(3) cD(8) [of r] 2 by (simp add: cD(9))
    next
      case 3
      have len: "r < length (dlog t b k)" "r < length (dlog s b k)"
        using map_full [OF fr k] 3 cD(5) [OF b k(2)] by auto
      have "page_valid t b (k * ?P + r) = page_valid s b (k * ?P + r)"
        using row_major_block [OF _ _ k(3), of v k] 3(1) unfolding cD(9) by auto
      moreover have "map_page_at g t b w k r" if "w < N_MAP_PAGES_PB g" "map_page_at g s b w k r" for w
      proof (rule map_collected_where [OF g fr m c v b that(1)])
        fix k' r' assume "map_page_at g s b w k' r'" "map_page_at g t b w k' r'"
        with map_page_inj [OF that(2)] show ?thesis by blast
      next
        fix r' assume "map_page_at g s b w v r'"
        with map_page_inj [OF that(2)] 3(1) show ?thesis by blast
      qed (use map_page_mapped [OF that(2)] in blast)
      ultimately show ?thesis using s(2) len by auto
    qed
  qed
  ultimately show ?thesis unfolding map_pages_def by blast
qed

lemma map_collected_rows:
  assumes g: "wf_dftl g" and fr: "map_front g s b f n n" and m: "map_pages g s b" and ca: "map_cache g s b"
    and c: "map_collected g s b f v cnt t" and v: "map_lo g \<le> v" "v < BLKS_PER_BANK g" "v \<noteq> f"
    and b: "b < N_BANKS g"
  shows "map_cache g t b" "w < N_MAP_PAGES_PB g \<Longrightarrow> map_row g t b w = map_row g s b w"
proof -
  note cD = map_collectedD [OF c]
  have "GTD t b w = -1 \<longleftrightarrow> GTD s b w = -1" if w: "w < N_MAP_PAGES_PB g" for w
    by (rule map_collected_where [OF g fr m c v b w]) (use map_page_mapped in blast)+
  with ca show "map_cache g t b"
    unfolding map_cache_def cD(13-17) by simp
  assume w: "w < N_MAP_PAGES_PB g"
  show "map_row g t b w = map_row g s b w"
  proof (cases "\<exists>j. cached_at g s b w j")
    case True
    then obtain j where j: "cached_at g s b w j" by blast
    then have "cached_at g t b w j" by (simp add: cD(17))
    from map_row_cached [OF \<open>map_cache g t b\<close> this] map_row_cached [OF ca j] show ?thesis by (simp add: cD(15))
  next
    case False
    then have u: "\<And>j. \<not> cached_at g s b w j" "\<And>j. \<not> cached_at g t b w j" by (simp_all add: cD(17))
    show ?thesis
    proof (rule map_collected_where [OF g fr m c v b w])
      assume "GTD s b w = -1" "GTD t b w = -1"
      then show ?thesis using map_row_uncached [of g _ b w] u by simp
    next
      fix k r assume "map_page_at g s b w k r" "map_page_at g t b w k r" "dlog t b k ! r = dlog s b k ! r"
      then show ?thesis using map_row_flash [OF u(1)] map_row_flash [OF u(2)] by simp
    next
      fix r r' assume "map_page_at g t b w f r'"
        "(\<forall>j. \<not> cached_at g s b w j) \<Longrightarrow> fst (dlog t b f ! r') = map_row g s b w"
      then show ?thesis using map_row_flash [OF u(2)] u(1) by simp
    qed
  qed
qed

lemma map_collected_frame:
  assumes g: "wf_dftl g" and fr: "map_front g s b f n n"
    and c: "map_collected g s b f v cnt t" and v: "map_lo g \<le> v" "v \<noteq> f"
  shows "map_frame g b s t"
proof -
  have f: "map_lo g \<le> f" using fr by (simp add: map_front_def)
  note cD = map_collectedD [OF c]
  have "page_valid t b p = page_valid s b p" if "p < map_lo g * PAGES_PER_BLK g" for p
  proof -
    have "map_lo g * PAGES_PER_BLK g \<le> v * PAGES_PER_BLK g" using v(1) by (rule mult_le_mono1)
    with that have "\<not> v * PAGES_PER_BLK g \<le> p" by linarith
    then show ?thesis by (simp add: cD(9))
  qed
  moreover have "Next_Data_PPN t = Next_Data_PPN s" "GC_Trigger_Data_PPN t = GC_Trigger_Data_PPN s"
    "buffer_S2L t = buffer_S2L s" "buffer_Data t = buffer_Data s" "buffer_Spare t = buffer_Spare s"
    using c by (simp_all add: map_collected_def)
  ultimately show ?thesis
    unfolding map_frame_def using f v(1) cD(5,6) by (auto simp: cD(9-16))
qed

text \<open>
  The collection of map blocks returns, keeps the invariant and every row of the table, and
  leaves room for at least one page.
\<close>

lemma map_gc_ok:
  assumes g: "wf_dftl g" and ok: "chip_ok g s" and b: "b < N_BANKS g" and fr: "map_front g s b f n n"
    and m: "map_pages g s b" and ca: "map_cache g s b"
  obtains t f' n' tr' where "map_garbage_collection g d0 b s = Some t" "chip_ok g t"
    "map_front g t b f' n' tr'" "n' < tr'" "map_pages g t b" "map_cache g t b"
    "\<And>w. w < N_MAP_PAGES_PB g \<Longrightarrow> map_row g t b w = map_row g s b w" "map_frame g b s t"
    "CMT_vpn t = CMT_vpn s" "CMT_dirty t = CMT_dirty s" "CMT_Data t = CMT_Data s"
    "rands t = rands s" "rand_pos t = rand_pos s"
proof -
  obtain v cnt t where t: "map_garbage_collection g d0 b s = Some t" "map_collected g s b f v cnt t"
    and v: "map_lo g \<le> v" "v < BLKS_PER_BANK g" "v \<noteq> f"
    by (rule map_collected_run [OF assms])
  note cD = map_collectedD [OF t(2)]
  show ?thesis
  proof (rule that [OF t(1) cD(1) map_collected_front [OF g fr t(2) v b] _ map_collected_pages [OF g fr m t(2) v b]
        map_collected_rows(1) [OF g fr m ca t(2) v b] _ map_collected_frame [OF g fr t(2) v(1,3)] cD(13-15)])
    show "rands t = rands s" "rand_pos t = rand_pos s" using t(2) by (simp_all add: map_collected_def)
  qed (use cD(2) map_collected_rows(2) [OF g fr m ca t(2) v b] in simp_all)
qed

section \<open>The eviction of a slot\<close>

lemma map_frontier:
  assumes g: "wf_dftl g" and fr: "map_front g s b f n tr" and lt: "n < tr"
  defines "k \<equiv> n div PAGES_PER_BLK g" and "r \<equiv> n mod PAGES_PER_BLK g"
  shows "map_lo g \<le> k" "k < BLKS_PER_BANK g" "r < PAGES_PER_BLK g" "k * PAGES_PER_BLK g + r = n"
    "k \<noteq> f" "length (dlog s b k) = r"
proof -
  let ?P = "PAGES_PER_BLK g"
  have P: "0 < ?P" using wf_dftlD(2) [OF g] .
  have n: "map_lo g * ?P \<le> n" "tr \<le> N_PPNS_PB g" "Next_Map_PPN s b = int n"
    using fr by (simp_all add: map_front_def)
  show lo: "map_lo g \<le> k" using n(1) P by (simp add: k_def less_eq_div_iff_mult_less_eq)
  show kB: "k < BLKS_PER_BANK g" and r: "r < ?P"
    using ppn_div [OF wf_dftlD(1) [OF g], of n] n(2) lt by (simp_all add: k_def r_def)
  show kr: "k * ?P + r = n" by (simp add: k_def r_def)
  have w: "q < length (dlog s b k) \<longleftrightarrow> k \<noteq> f \<and> \<not> (n \<le> k * ?P + q \<and> k * ?P + q < tr)" if "q < ?P" for q
    using fr lo kB that unfolding map_front_def by blast
  have "\<forall>q < ?P. \<not> (n \<le> f * ?P + q \<and> f * ?P + q < tr)" using fr unfolding map_front_def by blast
  then show kf: "k \<noteq> f" using r kr lt by auto
  have "length (dlog s b k) \<le> r" using w [OF r] kr lt by auto
  moreover have "r \<le> length (dlog s b k)"
  proof (cases r)
    case (Suc q)
    then have "q < ?P" "k * ?P + q < n" using r kr by simp_all
    with w [of q] kf Suc show ?thesis by auto
  qed simp
  ultimately show "length (dlog s b k) = r" by simp
qed

text \<open>What \<open>make_free_slot\<close> does after the collection.\<close>

definition put_map_slot :: "geom \<Rightarrow> nat \<Rightarrow> nat \<Rightarrow> nat \<Rightarrow> nat \<Rightarrow> dftl \<Rightarrow> dftl" where
  "put_map_slot g b w i n s =
     (count (\<lambda>c. c\<lparr>map_writes := map_writes c + 1\<rparr>)
        (s\<lparr>page_valid := (if GTD s b w = -1 then page_valid s
                         else (page_valid s)(b := (page_valid s b)(nat (GTD s b w) := 0))),
           GTD := (GTD s)(b := (GTD s b)(w := int n)),
           chip := fst (nand_write (chip s) (int b) (int (n div PAGES_PER_BLK g))
                     (int (n mod PAGES_PER_BLK g)) (CMT_Data s b i, word_of_nat w)),
           Next_Map_PPN := (Next_Map_PPN s)(b := int n + 1)\<rparr>))
     \<lparr>CMT_vpn := (CMT_vpn s)(b := (CMT_vpn s b)(i := -1)),
      CMT_dirty := (CMT_dirty s)(b := (CMT_dirty s b)(i := CLEAN))\<rparr>"

lemma put_map_slot_simps:
  fixes g b w i n s
  defines "t \<equiv> put_map_slot g b w i n s"
  shows "page_valid t b' q = (if b' = b \<and> GTD s b w \<noteq> -1 \<and> q = nat (GTD s b w) then 0 else page_valid s b' q)"
    "GTD t b' w' = (if b' = b \<and> w' = w then int n else GTD s b' w')"
    "CMT_vpn t b' j = (if b' = b \<and> j = i then -1 else CMT_vpn s b' j)"
    "CMT_dirty t b' j = (if b' = b \<and> j = i then 0 else CMT_dirty s b' j)"
    "CMT_Data t = CMT_Data s" "is_VPN_first_time t = is_VPN_first_time s"
    "Next_Map_PPN t = (Next_Map_PPN s)(b := int n + 1)" "GC_Trigger_Map_PPN t = GC_Trigger_Map_PPN s"
    "Block_Status t = Block_Status s" "Next_Data_PPN t = Next_Data_PPN s"
    "GC_Trigger_Data_PPN t = GC_Trigger_Data_PPN s" "buffer_S2L t = buffer_S2L s"
    "buffer_Data t = buffer_Data s" "buffer_Spare t = buffer_Spare s" "rands t = rands s"
    "rand_pos t = rand_pos s"
    "chip t = fst (nand_write (chip s) (int b) (int (n div PAGES_PER_BLK g))
                     (int (n mod PAGES_PER_BLK g)) (CMT_Data s b i, word_of_nat w))"
  by (simp_all add: t_def put_map_slot_def count_def)

lemma gtd_cases:
  assumes "map_pages g s b" "w < N_MAP_PAGES_PB g"
  obtains "GTD s b w = -1" | k r where "map_page_at g s b w k r" "0 \<le> GTD s b w"
proof -
  have "GTD s b w = -1 \<or> (\<exists>k r. map_page_at g s b w k r)"
    using assms(1,2) unfolding map_pages_def by blast
  then show ?thesis using that by (auto simp: map_page_at_def)
qed

lemma gtd_page:
  assumes "map_pages g s b" "w < N_MAP_PAGES_PB g" "GTD s b w = int (k * PAGES_PER_BLK g + r)" "r < PAGES_PER_BLK g"
  shows "map_page_at g s b w k r"
proof -
  have "GTD s b w \<noteq> -1" using assms(3) by (simp del: of_nat_add of_nat_mult)
  then obtain k' r' where at: "map_page_at g s b w k' r'" using gtd_cases [OF assms(1,2)] by blast
  then have "int (k' * PAGES_PER_BLK g + r') = int (k * PAGES_PER_BLK g + r)" and r': "r' < PAGES_PER_BLK g"
    using assms(3) by (simp_all add: map_page_at_def del: of_nat_add of_nat_mult)
  then have "k' * PAGES_PER_BLK g + r' = k * PAGES_PER_BLK g + r" by (simp only: of_nat_eq_iff)
  from row_major_inj [OF this r' assms(4)] have "k' = k \<and> r' = r" by blast
  with at show ?thesis by simp
qed

text \<open>Where the map pages are after the eviction of the slot \<open>i\<close> that caches the map page \<open>w\<close>.\<close>

lemma put_map_slot_pages:
  assumes g: "wf_dftl g" and ok: "chip_ok g s" and b: "b < N_BANKS g" and fr: "map_front g s b f n tr"
    and lt: "n < tr" and m: "map_pages g s b" and ca: "map_cache g s b" and i: "cached_at g s b w i"
  defines "t \<equiv> put_map_slot g b w i n s" and "k0 \<equiv> n div PAGES_PER_BLK g" and "r0 \<equiv> n mod PAGES_PER_BLK g"
  shows "chip_ok g t"
    "b' < N_BANKS g \<Longrightarrow> k < BLKS_PER_BANK g \<Longrightarrow> dlog t b' k =
       (if b' = b \<and> k = k0 then dlog s b k0 @ [(CMT_Data s b i, word_of_nat w)] else dlog s b' k)"
    "map_page_at g t b w k0 r0"
    "map_page_at g s b w' k r \<Longrightarrow> w' < N_MAP_PAGES_PB g \<Longrightarrow> w' \<noteq> w \<Longrightarrow>
       map_page_at g t b w' k r \<and> dlog t b k ! r = dlog s b k ! r"
proof -
  note F = map_frontier [OF g fr lt, folded k0_def r0_def]
  note cs = cached_slot_data [OF ca i]
  note ts = put_map_slot_simps [of g b w i n s, folded t_def k0_def r0_def]
  have pg: "page_good (CMT_Data s b i, word_of_nat w)" using cs(1) by (simp add: page_good_def good_row_def)
  note wr = dlog_write [OF ok pg b F(2,6,3) ts(17)]
  show "chip_ok g t" using wr(1) .
  show log: "dlog t b' k = (if b' = b \<and> k = k0 then dlog s b k0 @ [(CMT_Data s b i, word_of_nat w)] else dlog s b' k)"
    if "b' < N_BANKS g" "k < BLKS_PER_BANK g" for b' k using wr(2) [OF that] .
  have free: "page_valid s b n = 1"
    using m F(1-3,6) unfolding map_pages_def F(4) [symmetric] by (metis less_irrefl)
  have old: "GTD s b w \<noteq> int n"
  proof
    assume "GTD s b w = int n"
    then have "GTD s b w = int (k0 * PAGES_PER_BLK g + r0)" by (simp only: F(4))
    then have "map_page_at g s b w k0 r0" by (rule gtd_page [OF m cs(2) _ F(3)])
    then show False using F(6) by (simp add: map_page_at_def)
  qed
  have "\<not> (GTD s b w \<noteq> -1 \<and> n = nat (GTD s b w))"
    by (rule gtd_cases [OF m cs(2)]) (use old in simp_all)
  then have "page_valid t b (k0 * PAGES_PER_BLK g + r0) = 1" unfolding F(4) ts(1) using free by simp
  moreover have "dlog t b k0 = dlog s b k0 @ [(CMT_Data s b i, word_of_nat w)]" using log [OF b F(2)] by simp
  moreover have "GTD t b w = int (k0 * PAGES_PER_BLK g + r0)" by (simp only: ts(2) F(4) if_True simp_thms)
  ultimately show "map_page_at g t b w k0 r0"
    unfolding map_page_at_def using F(1-3,6) cs(1) by (simp add: nth_append del: of_nat_add of_nat_mult)
  assume at: "map_page_at g s b w' k r" and w': "w' < N_MAP_PAGES_PB g" "w' \<noteq> w"
  then have kr: "k < BLKS_PER_BANK g" "r < length (dlog s b k)" "r < PAGES_PER_BLK g" by (simp_all add: map_page_at_def)
  have nth: "dlog t b k ! r = dlog s b k ! r" "r < length (dlog t b k)"
    using log [OF b kr(1)] kr(2) by (auto simp: nth_append)
  have "\<not> (GTD s b w \<noteq> -1 \<and> k * PAGES_PER_BLK g + r = nat (GTD s b w))"
  proof
    assume a: "GTD s b w \<noteq> -1 \<and> k * PAGES_PER_BLK g + r = nat (GTD s b w)"
    then have "GTD s b w \<ge> 0" using gtd_cases [OF m cs(2)] by blast
    with a have "GTD s b w = int (k * PAGES_PER_BLK g + r)" by simp
    from gtd_page [OF m cs(2) this kr(3)] map_page_unique [OF g _ at cs(2) w'(1)] w'(2) show False by blast
  qed
  then have "page_valid t b (k * PAGES_PER_BLK g + r) = page_valid s b (k * PAGES_PER_BLK g + r)"
    unfolding ts(1) by auto
  with nth show "map_page_at g t b w' k r \<and> dlog t b k ! r = dlog s b k ! r"
    using map_page_at_log [OF at] w'(2) ts(2) by simp
qed

lemma put_map_slot_front:
  assumes g: "wf_dftl g" and ok: "chip_ok g s" and b: "b < N_BANKS g" and fr: "map_front g s b f n tr"
    and lt: "n < tr" and m: "map_pages g s b" and ca: "map_cache g s b" and i: "cached_at g s b w i"
  defines "t \<equiv> put_map_slot g b w i n s"
  shows "map_front g t b f (Suc n) tr" "map_pages g t b"
proof -
  let ?P = "PAGES_PER_BLK g" and ?k = "n div PAGES_PER_BLK g" and ?r = "n mod PAGES_PER_BLK g"
  note F = map_frontier [OF g fr lt]
  note cs = cached_slot_data [OF ca i]
  note ts = put_map_slot_simps [of g b w i n s, folded t_def]
  note pp = put_map_slot_pages [OF g ok b fr lt m ca i, folded t_def]
  have len: "r < length (dlog t b k) \<longleftrightarrow> r < length (dlog s b k) \<or> k = ?k \<and> r = ?r"
    if "k < BLKS_PER_BANK g" for k r
    using pp(2) [OF b that] F(6) by auto
  have eqn: "k * ?P + r = n \<longleftrightarrow> k = ?k \<and> r = ?r" if "r < ?P" for k r
    using row_major_inj [of k ?P r ?k ?r] F(3,4) that by auto
  have frt: "map_lo g \<le> k \<Longrightarrow> k < BLKS_PER_BANK g \<Longrightarrow> r < ?P \<Longrightarrow>
      r < length (dlog s b k) \<longleftrightarrow> k \<noteq> f \<and> \<not> (n \<le> k * ?P + r \<and> k * ?P + r < tr)" for k r
    using fr unfolding map_front_def by blast
  show "map_front g t b f (Suc n) tr"
    unfolding map_front_def
  proof (intro conjI allI impI)
    fix k r assume k: "map_lo g \<le> k" "k < BLKS_PER_BANK g" "r < ?P"
    have "Suc n \<le> k * ?P + r \<longleftrightarrow> n \<le> k * ?P + r \<and> k * ?P + r \<noteq> n" by auto
    then show "r < length (dlog t b k) \<longleftrightarrow> k \<noteq> f \<and> \<not> (Suc n \<le> k * ?P + r \<and> k * ?P + r < tr)"
      unfolding len [OF k(2)] frt [OF k] eqn [OF k(3)] using F(5) by blast
  qed (use fr lt in \<open>auto simp: map_front_def ts(7-9)\<close>)
  have at: "map_page_at g t b w' k r \<and> dlog t b k ! r = dlog s b k ! r"
    if "map_page_at g s b w' k r" "w' < N_MAP_PAGES_PB g" "w' \<noteq> w" for w' k r
    using pp(4) [OF that] .
  show "map_pages g t b"
    unfolding map_pages_def
  proof (intro conjI allI impI)
    fix w' assume w': "w' < N_MAP_PAGES_PB g"
    show "GTD t b w' = -1 \<or> (\<exists>k r. map_page_at g t b w' k r)"
    proof (cases "w' = w")
      case False
      show ?thesis
        by (rule gtd_cases [OF m w']) (use False at [OF _ w' False] in \<open>auto simp: ts(2)\<close>)
    qed (use pp(3) in blast)
  next
    fix k r assume k: "map_lo g \<le> k" "k < BLKS_PER_BANK g" "r < ?P"
    have s: "page_valid s b (k * ?P + r) = 0 \<or> page_valid s b (k * ?P + r) = 1"
      "\<not> r < length (dlog s b k) \<Longrightarrow> page_valid s b (k * ?P + r) = 1"
      using map_pages_page [OF m k] by blast+
    show "page_valid t b (k * ?P + r) = 0 \<or> page_valid t b (k * ?P + r) = 1"
      using s(1) by (simp add: ts(1))
    show "if r < length (dlog t b k)
      then page_valid t b (k * ?P + r) = 1 \<longrightarrow> (\<exists>w < N_MAP_PAGES_PB g. map_page_at g t b w k r)
      else page_valid t b (k * ?P + r) = 1"
    proof (cases "r < length (dlog s b k)")
      case True
      have "\<exists>w < N_MAP_PAGES_PB g. map_page_at g t b w k r" if v: "page_valid t b (k * ?P + r) = 1"
      proof -
        have "page_valid s b (k * ?P + r) \<noteq> 0" using v unfolding ts(1) by (auto split: if_splits)
        then obtain w' where w': "w' < N_MAP_PAGES_PB g" "map_page_at g s b w' k r"
          by (rule map_pages_valid [OF m k True])
        have "w' \<noteq> w"
        proof
          assume "w' = w"
          then have "GTD s b w = int (k * ?P + r)" using w'(2) by (simp add: map_page_at_def)
          then have "page_valid t b (k * ?P + r) = 0"
            unfolding ts(1) by (simp del: of_nat_add of_nat_mult)
          with v show False by simp
        qed
        with at [OF w'(2,1)] w'(1) show ?thesis by blast
      qed
      with True len [OF k(2)] show ?thesis by simp
    next
      case False
      have "\<not> (GTD s b w \<noteq> -1 \<and> k * ?P + r = nat (GTD s b w))"
      proof
        assume a: "GTD s b w \<noteq> -1 \<and> k * ?P + r = nat (GTD s b w)"
        then have "GTD s b w = int (k * ?P + r)" using gtd_cases [OF m cs(2)] by fastforce
        from gtd_page [OF m cs(2) this k(3)] False show False by (simp add: map_page_at_def)
      qed
      then have "page_valid t b (k * ?P + r) = 1" unfolding ts(1) using s(2) [OF False] by auto
      moreover have "\<exists>w < N_MAP_PAGES_PB g. map_page_at g t b w k r" if "k = ?k \<and> r = ?r"
        using that pp(3) cs(2) by blast
      ultimately show ?thesis unfolding len [OF k(2)] using False by auto
    qed
  qed
qed

lemma put_map_slot_rows:
  assumes g: "wf_dftl g" and ok: "chip_ok g s" and b: "b < N_BANKS g" and fr: "map_front g s b f n tr"
    and lt: "n < tr" and m: "map_pages g s b" and ca: "map_cache g s b" and i: "cached_at g s b w i"
  defines "t \<equiv> put_map_slot g b w i n s"
  shows "map_cache g t b" "w' < N_MAP_PAGES_PB g \<Longrightarrow> map_row g t b w' = map_row g s b w'" "map_frame g b s t"
proof -
  note F = map_frontier [OF g fr lt]
  note cs = cached_slot_data [OF ca i]
  note ts = put_map_slot_simps [of g b w i n s, folded t_def]
  note pp = put_map_slot_pages [OF g ok b fr lt m ca i, folded t_def]
  have uniq: "cached_at g s b w' j \<Longrightarrow> cached_at g s b w' j' \<Longrightarrow> j = j'" for w' j j'
    using ca unfolding map_cache_def by blast
  have c: "cached_at g t b w' j \<longleftrightarrow> cached_at g s b w' j \<and> j \<noteq> i" for w' j
    by (auto simp: cached_at_def ts(3))
  have unc: "\<not> cached_at g t b w j" for j using c uniq [OF i] by blast
  have same: "cached_at g t b w' j \<longleftrightarrow> cached_at g s b w' j" if "w' \<noteq> w" for w' j
    using c that i by (auto simp: cached_at_def)
  show cache: "map_cache g t b"
    unfolding map_cache_def
  proof (intro conjI allI impI)
    fix j assume "j < N_SLOT_PB g"
    then have "CMT_vpn s b j = -1 \<or> (\<exists>w < N_MAP_PAGES_PB g. CMT_vpn s b j = int w \<and> CMT_dirty s b j = DIRTY \<and>
           good_row (CMT_Data s b j))" using ca unfolding map_cache_def by blast
    then show "CMT_vpn t b j = -1 \<or> (\<exists>w < N_MAP_PAGES_PB g. CMT_vpn t b j = int w \<and> CMT_dirty t b j = DIRTY \<and>
           good_row (CMT_Data t b j))" by (auto simp: ts(3-5))
  next
    fix w' j j' assume "cached_at g t b w' j" "cached_at g t b w' j'"
    then show "j = j'" using c uniq by blast
  next
    fix w' assume w': "w' < N_MAP_PAGES_PB g"
    have old: "is_VPN_first_time s b w' = 1 \<longleftrightarrow> GTD s b w' = -1 \<and> (\<forall>j. \<not> cached_at g s b w' j)"
      using ca w' unfolding map_cache_def by blast
    show "is_VPN_first_time t b w' = 1 \<longleftrightarrow> GTD t b w' = -1 \<and> (\<forall>j. \<not> cached_at g t b w' j)"
    proof (cases "w' = w")
      case True
      then show ?thesis using old i by (auto simp: ts(2,6))
    next
      case False
      then show ?thesis using old same by (simp add: ts(2,6))
    qed
  qed
  show "map_row g t b w' = map_row g s b w'" if w': "w' < N_MAP_PAGES_PB g"
  proof (cases "w' = w")
    case True
    have "fst (dlog t b (n div PAGES_PER_BLK g) ! (n mod PAGES_PER_BLK g)) = CMT_Data s b i"
      using pp(2) [OF b F(2)] F(6) by (simp add: nth_append)
    then show ?thesis using map_row_flash [OF unc pp(3)] map_row_cached [OF ca i] True by simp
  next
    case ne: False
    show ?thesis
    proof (cases "\<exists>j. cached_at g s b w' j")
      case True
      then obtain j where j: "cached_at g s b w' j" by blast
      with same [OF ne] have "cached_at g t b w' j" by simp
      from map_row_cached [OF cache this] map_row_cached [OF ca j] show ?thesis by (simp add: ts(5))
    next
      case False
      then have u: "\<And>j. \<not> cached_at g s b w' j" "\<And>j. \<not> cached_at g t b w' j" using same [OF ne] by simp_all
      show ?thesis
      proof (rule gtd_cases [OF m w'])
        assume "GTD s b w' = -1"
        then show ?thesis using map_row_uncached [of g _ b w'] u ne by (simp add: ts(2))
      next
        fix k r assume at: "map_page_at g s b w' k r"
        then show ?thesis using map_row_flash [OF u(1)] map_row_flash [OF u(2)] pp(4) [OF at w' ne] by metis
      qed
    qed
  qed
  have lo: "map_lo g \<le> n div PAGES_PER_BLK g" using F(1) .
  have "page_valid t b p = page_valid s b p" if p: "p < map_lo g * PAGES_PER_BLK g" for p
  proof -
    have "\<not> (GTD s b w \<noteq> -1 \<and> p = nat (GTD s b w))"
    proof (rule gtd_cases [OF m cs(2)])
      fix k r assume "map_page_at g s b w k r"
      then have "GTD s b w = int (k * PAGES_PER_BLK g + r)" "map_lo g * PAGES_PER_BLK g \<le> k * PAGES_PER_BLK g + r"
        using map_region_ppn(1) [of g k r] by (simp_all add: map_page_at_def)
      with p show ?thesis by (simp del: of_nat_add of_nat_mult)
    qed simp
    then show ?thesis unfolding ts(1) by auto
  qed
  then show "map_frame g b s t"
    unfolding map_frame_def using pp(2) lo by (auto simp: ts fun_eq_iff)
qed

lemma make_free_slot_ok:
  assumes g: "wf_dftl g" and ok: "chip_ok g s" and b: "b < N_BANKS g" and mo: "map_ok g s b"
    and i: "cached_at g s b w i"
  obtains t where "make_free_slot g d0 b i s = Some t" "chip_ok g t" "map_ok g t b"
    "\<And>w'. w' < N_MAP_PAGES_PB g \<Longrightarrow> map_row g t b w' = map_row g s b w'" "map_frame g b s t"
    "CMT_vpn t b = (CMT_vpn s b)(i := -1)" "rands t = rands s"
proof -
  let ?P = "PAGES_PER_BLK g"
  obtain f n tr where fr: "map_front g s b f n tr" and m: "map_pages g s b" and ca: "map_cache g s b"
    using mo by (auto simp: map_ok_def)
  note cs = cached_slot_data [OF ca i]
  have nt: "n \<le> tr" "tr \<le> N_PPNS_PB g" "Next_Map_PPN s b = int n" "GC_Trigger_Map_PPN s b = int tr"
    using fr by (simp_all add: map_front_def)
  have "\<exists>s1 f1 n1 tr1. (if Next_Map_PPN s b = GC_Trigger_Map_PPN s b then map_garbage_collection g d0 b s
        else Some s) = Some s1 \<and> chip_ok g s1 \<and> map_front g s1 b f1 n1 tr1 \<and> n1 < tr1 \<and> map_pages g s1 b \<and>
      map_cache g s1 b \<and> (\<forall>w < N_MAP_PAGES_PB g. map_row g s1 b w = map_row g s b w) \<and> map_frame g b s s1 \<and>
      CMT_vpn s1 = CMT_vpn s \<and> CMT_dirty s1 = CMT_dirty s \<and> CMT_Data s1 = CMT_Data s \<and> rands s1 = rands s"
  proof (cases "n = tr")
    case True
    show ?thesis
      by (rule map_gc_ok [OF g ok b fr [folded True] m ca, of d0]) (use True nt in auto)
  next
    case False
    then show ?thesis
      by (intro exI [of _ s] exI [of _ f] exI [of _ n] exI [of _ tr]) (use nt ok fr m ca in simp)
  qed
  then obtain s1 f1 n1 tr1 where gc: "(if Next_Map_PPN s b = GC_Trigger_Map_PPN s b
        then map_garbage_collection g d0 b s else Some s) = Some s1"
    and ok1: "chip_ok g s1" and fr1: "map_front g s1 b f1 n1 tr1" and lt: "n1 < tr1"
    and m1: "map_pages g s1 b" and ca1: "map_cache g s1 b"
    and rows: "\<forall>w < N_MAP_PAGES_PB g. map_row g s1 b w = map_row g s b w" and frm: "map_frame g b s s1"
    and cmt: "CMT_vpn s1 = CMT_vpn s" "CMT_dirty s1 = CMT_dirty s" "CMT_Data s1 = CMT_Data s" "rands s1 = rands s"
    by blast
  have i1: "cached_at g s1 b w i" using i cmt by (simp add: cached_at_def)
  let ?t = "put_map_slot g b w i n1 s1"
  note ts = put_map_slot_simps [of g b w i n1 s1]
  note pp = put_map_slot_pages [OF g ok1 b fr1 lt m1 ca1 i1]
  note pf = put_map_slot_front [OF g ok1 b fr1 lt m1 ca1 i1]
  note pr = put_map_slot_rows [OF g ok1 b fr1 lt m1 ca1 i1]
  have n1: "n1 < N_PPNS_PB g" "Next_Map_PPN s1 b = int n1" using fr1 lt by (auto simp: map_front_def)
  have v1: "page_valid ?t b n1 = 1"
    using pp(3) map_frontier(4) [OF g fr1 lt] by (simp add: map_page_at_def)
  have old: "GTD s1 b w = -1 \<or> 0 \<le> GTD s1 b w \<and> GTD s1 b w < int (N_PPNS_PB g)"
  proof (rule gtd_cases [OF m1 cs(2)])
    fix k r assume "map_page_at g s1 b w k r" "0 \<le> GTD s1 b w"
    then show ?thesis using map_region_ppn(2) [of g k r] by (simp add: map_page_at_def del: of_nat_add of_nat_mult)
  qed simp
  have valid: "(if GTD s1 b w \<ge> 0 then set2 (N_BANKS g) (N_PPNS_PB g) (page_valid s1) (int b) (GTD s1 b w) 0
      else Some (page_valid s1)) = Some (page_valid ?t)"
    using old b by (auto simp: put_map_slot_def set2_in')
  have asr: "n \<le> ?P * BLKS_PER_BANK g" "tr \<le> ?P * BLKS_PER_BANK g"
    using nt(1,2) by (simp_all add: N_PPNS_PB_def mult.commute)
  have "make_free_slot g d0 b i s = Some ?t"
    using i cs(3) nt gc valid v1 n1 b cs(2)
    by (simp add: make_free_slot_def cached_at_def Let_def get2_in set2_in cmt asr put_map_slot_def
        del: of_nat_mult)
  then show ?thesis
  proof (rule that)
    show "chip_ok g ?t" using pp(1) .
    show "map_ok g ?t b" using pf pr(1) by (auto simp: map_ok_def)
    show "map_frame g b s ?t" using map_frame_trans [OF frm pr(3)] .
    show "map_row g ?t b w' = map_row g s b w'" if "w' < N_MAP_PAGES_PB g" for w'
      using pr(2) [OF that] rows that by simp
    show "CMT_vpn ?t b = (CMT_vpn s b)(i := -1)" by (simp add: fun_eq_iff ts(3) cmt)
    show "rands ?t = rands s" by (simp add: ts cmt)
  qed
qed

section \<open>Loading a map page into a free slot\<close>

text \<open>The state \<open>use_free_slot\<close> leaves, when the map page \<open>w\<close> was not cached.\<close>

definition load_slot :: "geom \<Rightarrow> nat \<Rightarrow> nat \<Rightarrow> nat \<Rightarrow> dftl \<Rightarrow> dftl" where
  "load_slot g b w i s =
     s\<lparr>is_VPN_first_time := (if GTD s b w = -1
         then (is_VPN_first_time s)(b := (is_VPN_first_time s b)(w := 0)) else is_VPN_first_time s),
       CMT_Data := (CMT_Data s)(b := (CMT_Data s b)(i := map_row g s b w)),
       CMT_vpn := (CMT_vpn s)(b := (CMT_vpn s b)(i := int w)),
       CMT_dirty := (CMT_dirty s)(b := (CMT_dirty s b)(i := DIRTY))\<rparr>"

text \<open>The invariants of the pages depend on a few fields only.\<close>

lemma map_pages_cong:
  assumes "chip t = chip s" "page_valid t = page_valid s" "GTD t = GTD s" "Block_Status t = Block_Status s"
    "Next_Map_PPN t = Next_Map_PPN s" "GC_Trigger_Map_PPN t = GC_Trigger_Map_PPN s"
  shows "chip_ok g t = chip_ok g s" "map_front g t b f n tr = map_front g s b f n tr"
    "map_pages g t b = map_pages g s b" "map_page_at g t b w k r = map_page_at g s b w k r" "dlog t = dlog s"
proof -
  show d: "dlog t = dlog s" by (simp add: dlog_def fun_eq_iff assms(1))
  show a: "map_page_at g t b w k r = map_page_at g s b w k r" for w k r by (simp add: map_page_at_def d assms)
  show "chip_ok g t = chip_ok g s" "map_front g t b f n tr = map_front g s b f n tr"
    "map_pages g t b = map_pages g s b"
    by (simp_all add: chip_ok_def map_front_def map_pages_def d a assms)
qed

lemma map_ok_cong:
  assumes "chip t = chip s" "page_valid t = page_valid s" "GTD t = GTD s" "Block_Status t = Block_Status s"
    "Next_Map_PPN t = Next_Map_PPN s" "GC_Trigger_Map_PPN t = GC_Trigger_Map_PPN s"
    "CMT_vpn t = CMT_vpn s" "CMT_dirty t = CMT_dirty s" "CMT_Data t = CMT_Data s"
    "is_VPN_first_time t = is_VPN_first_time s"
  shows "map_ok g t b = map_ok g s b" "map_row g t b w = map_row g s b w" "cached_at g t b w i = cached_at g s b w i"
proof -
  note mc = map_pages_cong [OF assms(1-6)]
  show c: "cached_at g t b w i = cached_at g s b w i" for w i by (simp add: cached_at_def assms)
  show "map_row g t b w = map_row g s b w" unfolding map_row_def assms mc ..
  show "map_ok g t b = map_ok g s b" by (simp add: map_ok_def map_cache_def mc c assms)
qed

lemma good_row_blank: "good_row (replicate 8 (-1))"
  by (simp add: good_row_def list_all_iff)

lemma map_row_good:
  assumes "map_pages g s b" "map_cache g s b" "w < N_MAP_PAGES_PB g"
  shows "good_row (map_row g s b w)"
proof (cases "\<exists>i. cached_at g s b w i")
  case True
  then obtain i where i: "cached_at g s b w i" by blast
  then show ?thesis using map_row_cached [OF assms(2) i] cached_slot_data(1) [OF assms(2) i] by simp
next
  case False
  then have u: "\<And>i. \<not> cached_at g s b w i" by blast
  show ?thesis
  proof (rule gtd_cases [OF assms(1,3)])
    assume "GTD s b w = -1"
    then show ?thesis using map_row_uncached [OF u] good_row_blank by simp
  next
    fix k r assume at: "map_page_at g s b w k r"
    then show ?thesis using map_row_flash [OF u at] by (simp add: map_page_at_def)
  qed
qed

lemma load_slot_ok:
  assumes mo: "map_ok g s b" and u: "\<And>j. \<not> cached_at g s b w j" and w: "w < N_MAP_PAGES_PB g"
    and i: "i < N_SLOT_PB g" "CMT_vpn s b i = -1"
  defines "t \<equiv> load_slot g b w i s"
  shows "map_ok g t b" "cached_at g t b w i" "map_frame g b s t" "chip_ok g t = chip_ok g s"
    "w' < N_MAP_PAGES_PB g \<Longrightarrow> map_row g t b w' = map_row g s b w'"
proof -
  obtain f n tr where fr: "map_front g s b f n tr" and m: "map_pages g s b" and ca: "map_cache g s b"
    using mo by (auto simp: map_ok_def)
  have mc: "chip_ok g t = chip_ok g s" "map_front g t b f n tr = map_front g s b f n tr"
    "map_pages g t b = map_pages g s b" "dlog t = dlog s"
    using map_pages_cong [of t s] by (simp_all add: t_def load_slot_def)
  show "chip_ok g t = chip_ok g s" using mc(1) .
  have c: "cached_at g t b w' j \<longleftrightarrow> (if j = i then w' = w else cached_at g s b w' j)" for w' j
    using i by (auto simp: cached_at_def t_def load_slot_def)
  show ci: "cached_at g t b w i" using c by simp
  have ne: "\<not> cached_at g s b w' i" for w' using i(2) by (simp add: cached_at_def)
  have uniq: "cached_at g s b w' j \<Longrightarrow> cached_at g s b w' j' \<Longrightarrow> j = j'" for w' j j'
    using ca unfolding map_cache_def by blast
  have first: "is_VPN_first_time t b w' = 1 \<longleftrightarrow> GTD t b w' = -1 \<and> (\<forall>j. \<not> cached_at g t b w' j)"
    if w': "w' < N_MAP_PAGES_PB g" for w'
  proof -
    have old: "is_VPN_first_time s b w' = 1 \<longleftrightarrow> GTD s b w' = -1 \<and> (\<forall>j. \<not> cached_at g s b w' j)"
      using ca w' unfolding map_cache_def by blast
    have G: "GTD t = GTD s" by (simp add: t_def load_slot_def)
    show ?thesis
    proof (cases "w' = w")
      case True
      then show ?thesis using old ci by (auto simp: t_def load_slot_def)
    next
      case False
      then have "cached_at g t b w' j \<longleftrightarrow> cached_at g s b w' j" for j using c ne by auto
      with False old show ?thesis by (simp add: G) (simp add: t_def load_slot_def)
    qed
  qed
  have slots: "CMT_vpn t b j = -1 \<or> (\<exists>w < N_MAP_PAGES_PB g. CMT_vpn t b j = int w \<and> CMT_dirty t b j = DIRTY \<and>
           good_row (CMT_Data t b j))" if "j < N_SLOT_PB g" for j
  proof (cases "j = i")
    case True
    then show ?thesis using w map_row_good [OF m ca w] by (simp add: t_def load_slot_def)
  next
    case False
    have "CMT_vpn s b j = -1 \<or> (\<exists>w < N_MAP_PAGES_PB g. CMT_vpn s b j = int w \<and> CMT_dirty s b j = DIRTY \<and>
           good_row (CMT_Data s b j))" using ca that unfolding map_cache_def by blast
    with False show ?thesis by (simp add: t_def load_slot_def)
  qed
  have "map_cache g t b"
    unfolding map_cache_def
  proof (intro conjI allI impI)
    fix w' j j' assume "cached_at g t b w' j" "cached_at g t b w' j'"
    then show "j = j'" using c u uniq by (metis (full_types))
  qed (use slots first in blast)+
  with mc fr m show "map_ok g t b" by (auto simp: map_ok_def)
  show "map_frame g b s t" unfolding map_frame_def mc(4) by (simp add: t_def load_slot_def)
  show "map_row g t b w' = map_row g s b w'" if w': "w' < N_MAP_PAGES_PB g"
  proof (cases "w' = w")
    case True
    then show ?thesis using map_row_cached [OF \<open>map_cache g t b\<close> ci] by (simp add: t_def load_slot_def)
  next
    case False
    then have same: "cached_at g t b w' j \<longleftrightarrow> cached_at g s b w' j" for j using c ne by auto
    show ?thesis
    proof (cases "\<exists>j. cached_at g s b w' j")
      case True
      then obtain j where j: "cached_at g s b w' j" by blast
      have "cached_at g t b w' j" "j \<noteq> i" using j same ne by auto
      with map_row_cached [OF \<open>map_cache g t b\<close> this(1)] map_row_cached [OF ca j]
      show ?thesis by (simp add: t_def load_slot_def)
    next
      case no: False
      then have "\<And>j. \<not> cached_at g s b w' j" "\<And>j. \<not> cached_at g t b w' j" using same by simp_all
      from map_row_uncached [of g s b w', OF this(1)] map_row_uncached [of g t b w', OF this(2)]
      show ?thesis by (simp add: mc(4)) (simp add: t_def load_slot_def)
    qed
  qed
qed

lemma use_free_slot_run:
  assumes g: "wf_dftl g" and ok: "chip_ok g s" and b: "b < N_BANKS g" and mo: "map_ok g s b"
    and u: "\<And>j. \<not> cached_at g s b w j" and w: "w < N_MAP_PAGES_PB g"
    and i: "i < N_SLOT_PB g" "CMT_vpn s b i = -1"
  shows "use_free_slot g d0 b (int w) (int i) s = Some (load_slot g b w i s)"
proof -
  have m: "map_pages g s b" and ca: "map_cache g s b" using mo by (auto simp: map_ok_def)
  have first: "is_VPN_first_time s b w = 1 \<longleftrightarrow> GTD s b w = -1" using ca w u unfolding map_cache_def by blast
  show ?thesis
  proof (rule gtd_cases [OF m w])
    assume a: "GTD s b w = -1"
    then have "map_row g s b w = replicate 8 (-1)" using map_row_uncached [OF u] by simp
    with a first show ?thesis
      using b w i by (simp add: use_free_slot_def Let_def get2_in set2_in load_slot_def)
  next
    fix k r assume at: "map_page_at g s b w k r" and nn: "0 \<le> GTD s b w"
    then have kr: "k < BLKS_PER_BANK g" "r < PAGES_PER_BLK g" "r < length (dlog s b k)"
      "GTD s b w = int (k * PAGES_PER_BLK g + r)" by (simp_all add: map_page_at_def)
    have row: "map_row g s b w = fst (dlog s b k ! r)" using map_row_flash [OF u at] .
    have "GTD s b w sdiv int (PAGES_PER_BLK g) = int k" "GTD s b w smod int (PAGES_PER_BLK g) = int r"
      unfolding kr(4) using kr(2) by (simp_all only: sdiv_of_nat smod_of_nat div_mod_split)
    moreover have "list_all (\<lambda>x. sint x \<ge> -1) (fst (dlog s b k ! r))"
      using at by (simp add: map_page_at_def good_row_def)
    moreover have "GTD s b w \<noteq> -1" using nn by simp
    ultimately show ?thesis
      using b w i dlog_read [OF ok b kr(1-3), of d0] nn
      by (simp add: use_free_slot_def Let_def get2_in load_slot_def row)
  qed
qed

section \<open>The slot that caches a map page\<close>

lemma count_map [simp]:
  "map_ok g (count h s) b = map_ok g s b" "map_row g (count h s) b w = map_row g s b w"
  "cached_at g (count h s) b w i = cached_at g s b w i" "chip_ok g (count h s) = chip_ok g s"
  "map_frame g b s (count h t) = map_frame g b s t"
  by (simp_all add: map_ok_cong [of "count h s" s] chip_ok_def map_frame_def)

lemma N_SLOT_pos: "0 < N_SLOT_PB g"
  by (simp add: N_SLOT_PB_def)

lemma free_slot_ok:
  assumes g: "wf_dftl g" and ok: "chip_ok g s" and b: "b < N_BANKS g" and mo: "map_ok g s b"
  obtains t j where "(if get_free_slot g b s = -1
        then let (victim, s) = rand_mod (N_SLOT_PB g) s in make_free_slot g d0 b victim s
        else Some s) = Some t" "chip_ok g t" "map_ok g t b"
    "\<And>w. w < N_MAP_PAGES_PB g \<Longrightarrow> map_row g t b w = map_row g s b w" "map_frame g b s t"
    "get_free_slot g b t = int j" "j < N_SLOT_PB g" "CMT_vpn t b j = -1"
    "\<And>w i. cached_at g t b w i \<Longrightarrow> cached_at g s b w i"
proof -
  have free: "\<exists>j. get_free_slot g b u = int j \<and> j < N_SLOT_PB g \<and> CMT_vpn u b j = -1"
    if "CMT_vpn u b i = -1" "i < N_SLOT_PB g" for u i
  proof -
    have "first_index (\<lambda>slot. CMT_vpn u b slot = -1) [0..<N_SLOT_PB g] \<noteq> -1"
      using that by (auto simp: first_index_None)
    then show ?thesis by (rule first_index_Some) (auto simp: get_free_slot_def)
  qed
  show ?thesis
  proof (cases "get_free_slot g b s = -1")
    case False
    then obtain i where "i < N_SLOT_PB g" "CMT_vpn s b i = -1"
      unfolding get_free_slot_def by (auto simp: first_index_None)
    from free [OF this(2,1)] obtain j where "get_free_slot g b s = int j" "j < N_SLOT_PB g" "CMT_vpn s b j = -1"
      by blast
    with that [of s j] False ok mo show ?thesis by simp
  next
    case True
    define i where "i = rands s (rand_pos s) mod N_SLOT_PB g"
    define s1 where "s1 = s\<lparr>rand_pos := rand_pos s + 1\<rparr>"
    have same: "map_ok g s1 b = map_ok g s b" "\<And>w. map_row g s1 b w = map_row g s b w"
      "\<And>w i. cached_at g s1 b w i = cached_at g s b w i"
      by (rule map_ok_cong; simp add: s1_def)+
    have s1: "chip_ok g s1" "map_frame g b s s1" using ok by (simp_all add: s1_def chip_ok_def map_frame_def dlog_def)
    have i: "i < N_SLOT_PB g" using N_SLOT_pos by (simp add: i_def)
    then have "CMT_vpn s b i \<noteq> -1" using True by (auto simp: get_free_slot_def first_index_None)
    moreover have "map_cache g s b" using mo by (simp add: map_ok_def)
    then have "CMT_vpn s b i = -1 \<or> (\<exists>w < N_MAP_PAGES_PB g. CMT_vpn s b i = int w \<and> CMT_dirty s b i = DIRTY \<and>
           good_row (CMT_Data s b i))" using i unfolding map_cache_def by blast
    ultimately obtain w where "cached_at g s1 b w i" using i unfolding same(3) by (auto simp: cached_at_def)
    with mo s1 same obtain t where t: "make_free_slot g d0 b i s1 = Some t" "chip_ok g t" "map_ok g t b"
      "\<And>w. w < N_MAP_PAGES_PB g \<Longrightarrow> map_row g t b w = map_row g s b w" "map_frame g b s1 t"
      "CMT_vpn t b = (CMT_vpn s1 b)(i := -1)" "rands t = rands s1"
      using make_free_slot_ok [OF g s1(1) b, of w i d0] by metis
    have "CMT_vpn t b i = -1" using t(6) by simp
    from free [OF this i] obtain j where j: "get_free_slot g b t = int j" "j < N_SLOT_PB g" "CMT_vpn t b j = -1"
      by blast
    show ?thesis
    proof (rule that [of t, OF _ t(2-4) map_frame_trans [OF s1(2) t(5)] j])
      show "cached_at g s b w' i'" if "cached_at g t b w' i'" for w' i'
        using that t(6) by (auto simp: cached_at_def s1_def split: if_splits)
    qed (use True t in \<open>simp_all add: rand_mod_def i_def s1_def\<close>)
  qed
qed

lemma cached_slot_ok:
  assumes g: "wf_dftl g" and ok: "chip_ok g s" and b: "b < N_BANKS g" and mo: "map_ok g s b"
    and w: "w < N_MAP_PAGES_PB g"
  obtains i t where "cached_slot g d0 b (int w) s = Some (i, t)" "chip_ok g t" "map_ok g t b" "cached_at g t b w i"
    "\<And>w. w < N_MAP_PAGES_PB g \<Longrightarrow> map_row g t b w = map_row g s b w" "map_frame g b s t"
proof (cases "\<exists>i. cached_at g s b w i")
  case True
  then obtain i where i: "cached_at g s b w i" by blast
  have "map_cache g s b" using mo by (simp add: map_ok_def)
  from cached_slot_data(4) [OF this i] have "cached_slot g d0 b (int w) s =
      Some (i, count (\<lambda>c. c\<lparr>CMT_hit := CMT_hit c + 1\<rparr>) s)"
    using b by (simp add: cached_slot_def is_vpn_cached_def Let_def)
  then show ?thesis using that ok mo i by simp
next
  case False
  then have u: "\<And>i. \<not> cached_at g s b w i" by blast
  define s1 where "s1 = count (\<lambda>c. c\<lparr>CMT_miss := CMT_miss c + 1\<rparr>) s"
  have miss: "is_vpn_cached g b (int w) s = (-1, s1)"
    using uncached_index [OF u] by (simp add: is_vpn_cached_def s1_def Let_def)
  have s1: "chip_ok g s1" "map_ok g s1 b" "\<And>w. map_row g s1 b w = map_row g s b w"
    "\<And>w i. cached_at g s1 b w i = cached_at g s b w i" "map_frame g b s s1"
    using ok mo by (simp_all add: s1_def)
  obtain t j where t: "(if get_free_slot g b s1 = -1
        then let (victim, s) = rand_mod (N_SLOT_PB g) s1 in make_free_slot g d0 b victim s
        else Some s1) = Some t" "chip_ok g t" "map_ok g t b"
    "\<And>w. w < N_MAP_PAGES_PB g \<Longrightarrow> map_row g t b w = map_row g s1 b w" "map_frame g b s1 t"
    and j: "get_free_slot g b t = int j" "j < N_SLOT_PB g" "CMT_vpn t b j = -1"
    and c: "\<And>w i. cached_at g t b w i \<Longrightarrow> cached_at g s1 b w i"
    by (rule free_slot_ok [OF g s1(1) b s1(2), of d0]) (rule that)
  have ut: "\<not> cached_at g t b w i" for i using c u s1(4) by blast
  let ?l = "load_slot g b w j t"
  note use = use_free_slot_run [OF g t(2) b t(3) ut w j(2,3), of d0]
  note ld = load_slot_ok [OF t(3) ut w j(2,3)]
  have "map_cache g ?l b" using ld(1) by (simp add: map_ok_def)
  from cached_slot_data(4) [OF this ld(2)]
  have hit: "is_vpn_cached g b (int w) ?l = (int j, count (\<lambda>c. c\<lparr>CMT_hit := CMT_hit c + 1\<rparr>) ?l)"
    by (simp add: is_vpn_cached_def Let_def)
  have "cached_slot g d0 b (int w) s = Some (j, count (\<lambda>c. c\<lparr>CMT_hit := CMT_hit c + 1\<rparr>) ?l)"
    using b miss t(1) j(1) use hit by (simp add: cached_slot_def Let_def)
  then show ?thesis
    using that ld(1,2,4,5) t(2,4) s1(3) map_frame_trans [OF s1(5) map_frame_trans [OF t(5) ld(3)]] by simp
qed

section \<open>The array\<close>

lemma lpn2vpn_nat:
  assumes "wf_dftl g" "l < 8 * N_MAP_PAGES_PB g"
  shows "lpn2vpn (int l) = int (l div 8)" "l div 8 < N_MAP_PAGES_PB g" "l < 2 ^ 28"
proof -
  show l: "l < 2 ^ 28" using assms wf_dftlD(7,9) [OF assms(1)] by linarith
  then have "uint (word_of_int (int l) :: u64) = int l" by (simp add: unsigned_of_nat take_bit_nat_eq_self)
  then have "lpn2vpn (int l) = sint (word_of_int (int l div 8) :: u32)" by (simp only: lpn2vpn_def)
  also have "int l div 8 = int (l div 8)" by simp
  also have "sint (word_of_int (int (l div 8)) :: u32) = sint (word_of_nat (l div 8) :: u32)"
    by (simp only: of_int_of_nat_eq)
  also have "\<dots> = int (l div 8)" by (rule sint_of_nat_small) (use l in simp)
  finally show "lpn2vpn (int l) = int (l div 8)" .
  show "l div 8 < N_MAP_PAGES_PB g" using assms(2) by (simp add: less_mult_imp_div_less mult.commute)
qed

lemma lpn2ppn_ok:
  assumes g: "wf_dftl g" and ok: "chip_ok g s" and b: "b < N_BANKS g" and mo: "map_ok g s b"
    and l: "l < 8 * N_MAP_PAGES_PB g"
  obtains t where "lpn2ppn g d0 b (int l) s = Some (mapped g s b l, t)" "chip_ok g t" "map_ok g t b"
    "\<And>w. w < N_MAP_PAGES_PB g \<Longrightarrow> map_row g t b w = map_row g s b w" "map_frame g b s t"
proof -
  note v = lpn2vpn_nat [OF g l]
  obtain i t where t: "cached_slot g d0 b (int (l div 8)) s = Some (i, t)" "chip_ok g t" "map_ok g t b"
    "cached_at g t b (l div 8) i" "\<And>w. w < N_MAP_PAGES_PB g \<Longrightarrow> map_row g t b w = map_row g s b w" "map_frame g b s t"
    by (rule cached_slot_ok [OF g ok b mo v(2), of d0]) (rule that)
  have ca: "map_cache g t b" using t(3) by (simp add: map_ok_def)
  have row: "CMT_Data t b i = map_row g s b (l div 8)" using map_row_cached [OF ca t(4)] t(5) [OF v(2)] by simp
  have "length (CMT_Data t b i) = 8" using cached_slot_data(1) [OF ca t(4)] by (simp add: good_row_def)
  then have "lget (CMT_Data t b i) (int l mod 8) = Some (map_row g s b (l div 8) ! (l mod 8))"
    using row by (simp add: lget_def nat_mod_distrib)
  with t(1) v(1) have "lpn2ppn g d0 b (int l) s = Some (mapped g s b l, t)" by (simp add: lpn2ppn_def mapped_def)
  then show ?thesis using that t(2,3,5,6) by simp
qed

lemma set_entry_ok:
  assumes mo: "map_ok g s b" and i: "cached_at g s b w i" and row: "good_row row"
  defines "t \<equiv> s\<lparr>is_VPN_first_time := is_VPN_first_time s,
      CMT_Data := (CMT_Data s)(b := (CMT_Data s b)(i := row)),
      CMT_dirty := (CMT_dirty s)(b := (CMT_dirty s b)(i := DIRTY))\<rparr>"
  shows "map_ok g t b" "map_frame g b s t" "chip_ok g t = chip_ok g s"
    "map_row g t b w' = (if w' = w then row else map_row g s b w')"
proof -
  have ca: "map_cache g s b" using mo by (simp add: map_ok_def)
  have mc: "\<And>f n tr. map_front g t b f n tr = map_front g s b f n tr" "map_pages g t b = map_pages g s b"
    "dlog t = dlog s" "chip_ok g t = chip_ok g s"
    using map_pages_cong [of t s] by (simp_all add: t_def)
  show "chip_ok g t = chip_ok g s" using mc(4) .
  have c: "cached_at g t b w' j = cached_at g s b w' j" for w' j by (simp add: cached_at_def t_def)
  have slots: "CMT_vpn t b j = -1 \<or> (\<exists>w < N_MAP_PAGES_PB g. CMT_vpn t b j = int w \<and> CMT_dirty t b j = DIRTY \<and>
           good_row (CMT_Data t b j))" if "j < N_SLOT_PB g" for j
  proof -
    have "CMT_vpn s b j = -1 \<or> (\<exists>w < N_MAP_PAGES_PB g. CMT_vpn s b j = int w \<and> CMT_dirty s b j = DIRTY \<and>
           good_row (CMT_Data s b j))" using ca that unfolding map_cache_def by blast
    then show ?thesis using row by (auto simp: t_def)
  qed
  have cache: "map_cache g t b"
    unfolding map_cache_def c
  proof (intro conjI)
    show "\<forall>w < N_MAP_PAGES_PB g. is_VPN_first_time t b w = 1 \<longleftrightarrow> GTD t b w = -1 \<and> (\<forall>i. \<not> cached_at g s b w i)"
      using ca unfolding map_cache_def by (simp add: t_def)
  qed (use slots ca in \<open>unfold map_cache_def; blast\<close>)+
  then show "map_ok g t b" using mo mc by (simp add: map_ok_def)
  show "map_frame g b s t" unfolding map_frame_def mc(3) by (simp add: t_def)
  show "map_row g t b w' = (if w' = w then row else map_row g s b w')"
  proof (cases "\<exists>j. cached_at g s b w' j")
    case True
    then obtain j where j: "cached_at g s b w' j" by blast
    then have "w' = w \<longleftrightarrow> j = i" using i ca unfolding map_cache_def by (auto simp: cached_at_def)
    with map_row_cached [OF cache] map_row_cached [OF ca j] j c show ?thesis by (simp add: t_def)
  next
    case False
    then have "\<And>j. \<not> cached_at g s b w' j" "\<And>j. \<not> cached_at g t b w' j" "w' \<noteq> w" using c i by auto
    from map_row_uncached [of g s b w', OF this(1)] map_row_uncached [of g t b w', OF this(2)] this(3)
    show ?thesis by (simp add: mc(3)) (simp add: t_def)
  qed
qed

lemma update_L2P_ok:
  assumes g: "wf_dftl g" and ok: "chip_ok g s" and b: "b < N_BANKS g" and mo: "map_ok g s b"
    and l: "l < 8 * N_MAP_PAGES_PB g" and p: "p < 2 ^ 31"
  obtains t where "update_L2P g d0 b (int l) (int p) s = Some t" "chip_ok g t" "map_ok g t b" "map_frame g b s t"
    "\<And>l'. l' < 8 * N_MAP_PAGES_PB g \<Longrightarrow> mapped g t b l' = (if l' = l then int p else mapped g s b l')"
proof -
  note v = lpn2vpn_nat [OF g l]
  obtain i t where t: "cached_slot g d0 b (int (l div 8)) s = Some (i, t)" "chip_ok g t" "map_ok g t b"
    "cached_at g t b (l div 8) i" "\<And>w. w < N_MAP_PAGES_PB g \<Longrightarrow> map_row g t b w = map_row g s b w" "map_frame g b s t"
    by (rule cached_slot_ok [OF g ok b mo v(2), of d0]) (rule that)
  have ca: "map_cache g t b" using t(3) by (simp add: map_ok_def)
  have first: "is_VPN_first_time t b (l div 8) \<noteq> 1" using ca v(2) t(4) unfolding map_cache_def by blast
  have row: "CMT_Data t b i = map_row g t b (l div 8)" using map_row_cached [OF ca t(4)] by simp
  have gr: "good_row (CMT_Data t b i)" using cached_slot_data(1) [OF ca t(4)] .
  let ?x = "word_of_nat p :: u32"
  let ?row = "(CMT_Data t b i)[l mod 8 := ?x]"
  have sx: "sint ?x = int p" using p by (rule sint_of_nat_small)
  have gr': "good_row ?row"
    using gr sx set_update_subset_insert [of "CMT_Data t b i" "l mod 8" ?x] by (auto simp: good_row_def list_all_iff)
  let ?u = "t\<lparr>is_VPN_first_time := is_VPN_first_time t,
      CMT_Data := (CMT_Data t)(b := (CMT_Data t b)(i := ?row)),
      CMT_dirty := (CMT_dirty t)(b := (CMT_dirty t b)(i := DIRTY))\<rparr>"
  note se = set_entry_ok [OF t(3,4) gr']
  have "lset (CMT_Data t b i) (int l mod 8) ?x = Some ?row"
    using gr by (simp add: lset_def good_row_def nat_mod_distrib)
  then have run: "update_L2P g d0 b (int l) (int p) s = Some ?u"
    using t(1) v(1,2) first b by (simp add: update_L2P_def get2_in Let_def)
  have "mapped g ?u b l' = (if l' = l then int p else mapped g s b l')" if l': "l' < 8 * N_MAP_PAGES_PB g" for l'
  proof (cases "l' div 8 = l div 8")
    case False
    then show ?thesis using se(4) t(5) lpn2vpn_nat(2) [OF g l'] by (auto simp: mapped_def)
  next
    case True
    then have "l' = l \<longleftrightarrow> l' mod 8 = l mod 8" by (metis div_mult_mod_eq)
    then show ?thesis
      using True se(4) t(5) [OF v(2)] row gr sx by (auto simp: mapped_def good_row_def nth_list_update)
  qed
  with that run se(1-3) t(2) map_frame_trans [OF t(6) se(2)] show ?thesis by blast
qed

end
