(* ===== verification/DftlSpec.thy ===== *)
theory DftlSpec
  imports DftlMap
begin

text \<open>
  What the demand-based layer promises of its mapping table, for all banks at once: after any
  sequence of lookups and updates on the device that \<open>dftl_open\<close> prepared, each entry is the one
  last stored, or \<open>-1\<close>.
\<close>

section \<open>All banks\<close>

definition maps_ok :: "geom \<Rightarrow> dftl \<Rightarrow> bool" where
  "maps_ok g s \<longleftrightarrow> chip_ok g s \<and> (\<forall>b < N_BANKS g. map_ok g s b)"

lemma map_frame_other:
  assumes fr: "map_frame g b s t" and b': "b' < N_BANKS g" "b' \<noteq> b" and mo: "map_ok g s b'"
  shows "map_ok g t b'" "w < N_MAP_PAGES_PB g \<Longrightarrow> map_row g t b' w = map_row g s b' w"
proof -
  have log: "k < BLKS_PER_BANK g \<Longrightarrow> dlog t b' k = dlog s b' k" for k
    using fr b' unfolding map_frame_def by blast
  have fs: "page_valid t b' = page_valid s b'" "Block_Status t b' = Block_Status s b'"
    "GTD t b' = GTD s b'" "CMT_vpn t b' = CMT_vpn s b'" "CMT_dirty t b' = CMT_dirty s b'"
    "CMT_Data t b' = CMT_Data s b'" "is_VPN_first_time t b' = is_VPN_first_time s b'"
    "Next_Map_PPN t b' = Next_Map_PPN s b'" "GC_Trigger_Map_PPN t b' = GC_Trigger_Map_PPN s b'"
    using fr b'(2) unfolding map_frame_def by blast+
  have at: "map_page_at g t b' w k r = map_page_at g s b' w k r" for w k r
    unfolding map_page_at_def fs using log by (auto cong: conj_cong)
  have c: "cached_at g t b' w i = cached_at g s b' w i" for w i by (simp add: cached_at_def fs)
  have front: "map_front g t b' f n tr = map_front g s b' f n tr" for f n tr
    unfolding map_front_def fs using log by simp
  have "map_pages g t b' = map_pages g s b'"
    unfolding map_pages_def fs at using log by simp
  then show "map_ok g t b'" using mo by (simp add: map_ok_def map_cache_def front c fs)
  assume w: "w < N_MAP_PAGES_PB g"
  have m: "map_pages g s b'" using mo by (simp add: map_ok_def)
  have "dlog t b' (nat (GTD s b' w) div PAGES_PER_BLK g) = dlog s b' (nat (GTD s b' w) div PAGES_PER_BLK g)"
    if "GTD s b' w \<noteq> -1"
  proof (rule gtd_cases [OF m w])
    fix k r assume "map_page_at g s b' w k r"
    then show ?thesis using log by (simp add: map_page_at_def div_mod_split del: of_nat_add of_nat_mult)
  qed (use that in simp)
  then show "map_row g t b' w = map_row g s b' w" unfolding map_row_def fs by (simp cong: if_cong option.case_cong)
qed

lemma maps_step:
  assumes ok: "maps_ok g s" and t: "chip_ok g t" "map_ok g t b" "map_frame g b s t"
  shows "maps_ok g t"
  unfolding maps_ok_def
proof (intro conjI allI impI)
  fix b' assume b': "b' < N_BANKS g"
  show "map_ok g t b'"
    using t(2) map_frame_other(1) [OF t(3) b'] ok b' by (cases "b' = b") (auto simp: maps_ok_def)
qed (rule t(1))

lemma mapped_other:
  assumes "maps_ok g s" "map_frame g b s t" "b' < N_BANKS g" "b' \<noteq> b" "l < 8 * N_MAP_PAGES_PB g" "wf_dftl g"
  shows "mapped g t b' l = mapped g s b' l"
  using map_frame_other(2) [OF assms(2-4)] assms(1,3) lpn2vpn_nat(2) [OF assms(6,5)]
  by (simp add: mapped_def maps_ok_def)

section \<open>Opening\<close>

lemma dftl_open_simps:
  fixes g junk s
  assumes "b < N_BANKS g"
  defines "t \<equiv> dftl_open g junk s"
  shows "chip t = fst (nand_init junk (int (N_BANKS g)) (int (BLKS_PER_BANK g)) (int (PAGES_PER_BLK g)) (chip s))"
    "Next_Map_PPN t b = int (map_lo g * PAGES_PER_BLK g)"
    "GC_Trigger_Map_PPN t b = int (PAGES_PER_BLK g) * (int (BLKS_PER_BANK g) - 1)"
    "k < BLKS_PER_BANK g \<Longrightarrow> Block_Status t b k = (if k + 1 < map_lo g then DATA
        else if k + 1 = map_lo g then EMPTY else if k + 1 = BLKS_PER_BANK g then EMPTY else MAP)"
    "p < N_PPNS_PB g \<Longrightarrow> page_valid t b p = 1" "w < N_MAP_PAGES_PB g \<Longrightarrow> GTD t b w = -1"
    "w < N_MAP_PAGES_PB g \<Longrightarrow> is_VPN_first_time t b w = 1" "i < N_SLOT_PB g \<Longrightarrow> CMT_vpn t b i = -1"
  using assms(1) by (simp_all add: t_def dftl_open_def stat_init_def Let_def map_lo_def)

lemma dftl_open_ok:
  assumes g: "wf_dftl g"
  shows "maps_ok g (dftl_open g junk s)"
    and "b < N_BANKS g \<Longrightarrow> l < 8 * N_MAP_PAGES_PB g \<Longrightarrow> mapped g (dftl_open g junk s) b l = -1"
proof -
  let ?t = "dftl_open g junk s" and ?P = "PAGES_PER_BLK g" and ?B = "BLKS_PER_BANK g"
  note gD = wf_dftlD [OF g]
  note os = dftl_open_simps [where g = g and junk = junk and s = s]
  have ch: "chip_ok g ?t" and log: "dlog ?t b k = []" for b k
    using gD(2,3,5) nand_init_ok nand_init_log os(1) [OF gD(3)]
    by (simp_all add: chip_ok_def dlog_def nand_dims_def nand_init_def)
  have "map_ok g ?t b" if b: "b < N_BANKS g" for b
  proof -
    note os = os [OF b]
    have B: "1 \<le> ?B" "map_lo g \<le> ?B - 1" using gD(5) by simp_all
    have "(?B - 1) * ?P \<le> N_PPNS_PB g" by (simp add: N_PPNS_PB_def)
    moreover have "map_lo g * ?P \<le> (?B - 1) * ?P" using B(2) by (rule mult_le_mono1)
    moreover have "k * ?P + r < (?B - 1) * ?P" if "k < ?B" "k \<noteq> ?B - 1" "r < ?P" for k r
      using row_major_less [of k "?B - 1" r ?P] that by simp
    moreover have "map_lo g * ?P \<le> k * ?P + r" if "map_lo g \<le> k" for k r
      using mult_le_mono1 [OF that, of ?P] by (rule trans_le_add1)
    moreover have "GC_Trigger_Map_PPN ?t b = int ((?B - 1) * ?P)"
      using os(3) B(1) by (simp add: of_nat_diff)
    ultimately have "map_front g ?t b (?B - 1) (map_lo g * ?P) ((?B - 1) * ?P)"
      unfolding map_front_def log using os(2,4) B gD(4) by auto
    moreover have "map_pages g ?t b"
      unfolding map_pages_def log using os(5,6) ppn_in by auto
    moreover have "map_cache g ?t b"
      unfolding map_cache_def cached_at_def using os(6-8) by auto
    ultimately show ?thesis by (auto simp: map_ok_def)
  qed
  with ch show "maps_ok g ?t" by (simp add: maps_ok_def)
  assume b: "b < N_BANKS g" and l: "l < 8 * N_MAP_PAGES_PB g"
  have v: "l div 8 < N_MAP_PAGES_PB g" using lpn2vpn_nat(2) [OF g l] .
  have "\<not> cached_at g ?t b (l div 8) i" for i using os(8) [OF b, of i] by (auto simp: cached_at_def)
  from map_row_uncached [of g ?t b "l div 8", OF this] os(6) [OF b v]
  show "mapped g ?t b l = -1" by (simp add: mapped_def)
qed

section \<open>Sequences of lookups and updates\<close>

text \<open>An operation on the table of a bank: a lookup, or an update with a physical page.\<close>

definition map_op :: "geom \<Rightarrow> u32 list \<times> u32 \<Rightarrow> nat \<times> nat \<times> nat option \<Rightarrow> dftl \<Rightarrow> dftl option" where
  "map_op g d0 = (\<lambda>(b, l, p) s. case p of
       None \<Rightarrow> map_option snd (lpn2ppn g d0 b (int l) s)
     | Some ppn \<Rightarrow> update_L2P g d0 b (int l) (int ppn) s)"

definition good_map_op :: "geom \<Rightarrow> nat \<times> nat \<times> nat option \<Rightarrow> bool" where
  "good_map_op g = (\<lambda>(b, l, p). b < N_BANKS g \<and> l < 8 * N_MAP_PAGES_PB g \<and>
     (case p of None \<Rightarrow> True | Some ppn \<Rightarrow> ppn < 2 ^ 31))"

text \<open>The array the operations describe.\<close>

definition apply_op :: "nat \<times> nat \<times> nat option \<Rightarrow> (nat \<Rightarrow> nat \<Rightarrow> int) \<Rightarrow> nat \<Rightarrow> nat \<Rightarrow> int" where
  "apply_op = (\<lambda>(b, l, p) m. case p of None \<Rightarrow> m
     | Some ppn \<Rightarrow> (\<lambda>b' l'. if b' = b \<and> l' = l then int ppn else m b' l'))"

lemma map_op_ok:
  assumes g: "wf_dftl g" and ok: "maps_ok g s" and op: "good_map_op g op"
  obtains t where "map_op g d0 op s = Some t" "maps_ok g t"
    "\<And>b l. b < N_BANKS g \<Longrightarrow> l < 8 * N_MAP_PAGES_PB g \<Longrightarrow> mapped g t b l = apply_op op (mapped g s) b l"
proof -
  obtain b l p where o: "op = (b, l, p)" by (cases op)
  with op have b: "b < N_BANKS g" and l: "l < 8 * N_MAP_PAGES_PB g"
    and p: "p \<noteq> None \<Longrightarrow> the p < 2 ^ 31" by (auto simp: good_map_op_def split: option.splits)
  have s: "chip_ok g s" "map_ok g s b" using ok b by (auto simp: maps_ok_def)
  show ?thesis
  proof (cases p)
    case None
    obtain t where t: "lpn2ppn g d0 b (int l) s = Some (mapped g s b l, t)" "chip_ok g t" "map_ok g t b"
      "\<And>w. w < N_MAP_PAGES_PB g \<Longrightarrow> map_row g t b w = map_row g s b w" "map_frame g b s t"
      by (rule lpn2ppn_ok [OF g s(1) b s(2) l, of d0]) (rule that)
    have "mapped g t b' l' = mapped g s b' l'" if "b' < N_BANKS g" "l' < 8 * N_MAP_PAGES_PB g" for b' l'
      using mapped_other [OF ok t(5) that(1) _ that(2) g] t(4) lpn2vpn_nat(2) [OF g that(2)]
      by (cases "b' = b") (auto simp: mapped_def)
    then show ?thesis
      using that [of t] t(1) maps_step [OF ok t(2,3,5)] by (simp add: map_op_def apply_op_def o None)
  next
    case (Some ppn)
    with p have ppn: "ppn < 2 ^ 31" by simp
    obtain t where t: "update_L2P g d0 b (int l) (int ppn) s = Some t" "chip_ok g t" "map_ok g t b" "map_frame g b s t"
      "\<And>l'. l' < 8 * N_MAP_PAGES_PB g \<Longrightarrow> mapped g t b l' = (if l' = l then int ppn else mapped g s b l')"
      by (rule update_L2P_ok [OF g s(1) b s(2) l ppn, of d0]) (rule that)
    have "mapped g t b' l' = (if b' = b \<and> l' = l then int ppn else mapped g s b' l')"
      if "b' < N_BANKS g" "l' < 8 * N_MAP_PAGES_PB g" for b' l'
      using mapped_other [OF ok t(4) that(1) _ that(2) g] t(5) [OF that(2)] by (cases "b' = b") auto
    then show ?thesis
      using that [of t] t(1) maps_step [OF ok t(2,3,4)] by (simp add: map_op_def apply_op_def o Some)
  qed
qed

lemma apply_ops_cong:
  assumes "\<And>b l. b < N \<Longrightarrow> l < M \<Longrightarrow> m b l = m' b l" "b < N" "l < M"
  shows "fold apply_op ops m b l = fold apply_op ops m' b l"
  using assms
proof (induction ops arbitrary: m m')
  case (Cons op ops)
  have "fold apply_op ops (apply_op op m) b l = fold apply_op ops (apply_op op m') b l"
    by (rule Cons.IH) (use Cons.prems in \<open>simp_all add: apply_op_def split: option.splits prod.splits\<close>)
  then show ?case by simp
qed simp

lemma map_ops_ok:
  assumes g: "wf_dftl g" and ok: "maps_ok g s" and ops: "list_all (good_map_op g) ops"
  shows "\<exists>t. for_opt ops (map_op g d0) s = Some t \<and> maps_ok g t \<and>
    (\<forall>b < N_BANKS g. \<forall>l < 8 * N_MAP_PAGES_PB g. mapped g t b l = fold apply_op ops (mapped g s) b l)"
  using ok ops
proof (induction ops arbitrary: s)
  case (Cons op ops)
  obtain u where u: "map_op g d0 op s = Some u" "maps_ok g u"
    "\<And>b l. b < N_BANKS g \<Longrightarrow> l < 8 * N_MAP_PAGES_PB g \<Longrightarrow> mapped g u b l = apply_op op (mapped g s) b l"
    using map_op_ok [OF g Cons.prems(1), of op d0] Cons.prems(2) by auto
  from Cons.IH [OF u(2)] Cons.prems(2) obtain t where "for_opt ops (map_op g d0) u = Some t" "maps_ok g t"
    "\<forall>b < N_BANKS g. \<forall>l < 8 * N_MAP_PAGES_PB g. mapped g t b l = fold apply_op ops (mapped g u) b l" by auto
  moreover have "fold apply_op ops (mapped g u) b l = fold apply_op ops (apply_op op (mapped g s)) b l"
    if "b < N_BANKS g" "l < 8 * N_MAP_PAGES_PB g" for b l
    by (rule apply_ops_cong [OF u(3) that])
  ultimately show ?case using u(1) by auto
qed simp

section \<open>Concrete states\<close>

abbreviation blank_page :: "u32 list \<times> u32" where "blank_page \<equiv> (replicate 8 0, 0)"

text \<open>The globals at the start of the program.\<close>

definition dftl_zero :: dftl where
  "dftl_zero = \<lparr>chip = \<lparr>nand_mem = (\<lambda>_. \<lparr>pg_data = replicate 8 0, pg_spare = 0\<rparr>), iswritten = (\<lambda>_. 0),
       blk_index = (\<lambda>_. 0), NBANKS = 0, NBLKS = 0, NPAGES = 0\<rparr>,
     Next_Data_PPN = (\<lambda>_. 0), GC_Trigger_Data_PPN = (\<lambda>_. 0), Block_Status = (\<lambda>_ _. EMPTY),
     page_valid = (\<lambda>_ _. 0), is_VPN_first_time = (\<lambda>_ _. 0), CMT_vpn = (\<lambda>_ _. 0), CMT_dirty = (\<lambda>_ _. 0),
     CMT_Data = (\<lambda>_ _. replicate 8 0), GTD = (\<lambda>_ _. 0), Next_Map_PPN = (\<lambda>_. 0), GC_Trigger_Map_PPN = (\<lambda>_. 0),
     buffer_S2L = (\<lambda>_ _. 0), buffer_Data = (\<lambda>_ _. replicate 8 0), buffer_Spare = (\<lambda>_ _. 0),
     counts = \<lparr>gcs = 0, map_gcs = 0, host_writes = 0, data_writes = 0, gc_writes = 0, map_writes = 0,
       map_gc_writes = 0, cache_hit = 0, cache_miss = 0, CMT_hit = 0, CMT_miss = 0\<rparr>,
     rands = (\<lambda>i. i), rand_pos = 0\<rparr>"

definition prj1_open :: dftl where
  "prj1_open = dftl_open prj1_geom (\<lambda>_. \<lparr>pg_data = replicate 8 0, pg_spare = 0\<rparr>) dftl_zero"

lemma prj1_sizes:
  "wf_dftl prj1_geom" "N_MAP_PAGES_PB prj1_geom = 80" "N_BANKS prj1_geom = 8" "map_lo prj1_geom = 33"
  by (simp_all add: wf_dftl_def wf_geom_def map_lo_def prj1_geom_def N_MAP_PAGES_PB_def N_PPNS_PB_def
      N_DATA_USER_BLOCKS_PB_def N_USER_OP_BLOCKS_PB_def N_OP_BLOCKS_PB_def N_MAP_BLOCKS_PB_def)

lemma prj1_open_ok: "maps_ok prj1_geom prj1_open"
  "b < 8 \<Longrightarrow> l < 640 \<Longrightarrow> mapped prj1_geom prj1_open b l = -1"
  using dftl_open_ok [OF prj1_sizes(1)] by (simp_all add: prj1_open_def prj1_sizes)

text \<open>A bank of one-page blocks whose map blocks are full: five map pages, and one that is invalid.\<close>

definition tiny :: geom where
  "tiny = \<lparr>N_BANKS = 1, BLKS_PER_BANK = 40, PAGES_PER_BLK = 1\<rparr>"

definition full_map :: dftl where
  "full_map = dftl_zero\<lparr>
     chip := \<lparr>nand_mem = (\<lambda>i. \<lparr>pg_data = replicate 8 (-1), pg_spare = word_of_nat (i - 33)\<rparr>),
       iswritten = (\<lambda>i. if 33 \<le> i \<and> i < 39 then 1 else 0),
       blk_index = (\<lambda>i. if 33 \<le> i \<and> i < 39 then 1 else 0), NBANKS = 1, NBLKS = 40, NPAGES = 1\<rparr>,
     Block_Status := (\<lambda>_ k. if k < 32 then DATA else if k = 32 \<or> k = 39 then EMPTY else MAP),
     page_valid := (\<lambda>_ p. if p = 38 then 0 else 1), GTD := (\<lambda>_ w. int w + 33),
     CMT_vpn := (\<lambda>_ _. -1), Next_Map_PPN := (\<lambda>_. 39), GC_Trigger_Map_PPN := (\<lambda>_. 39)\<rparr>"

lemma tiny_sizes:
  "wf_dftl tiny" "N_MAP_PAGES_PB tiny = 5" "N_BANKS tiny = 1" "BLKS_PER_BANK tiny = 40" "PAGES_PER_BLK tiny = 1"
  "map_lo tiny = 33" "N_PPNS_PB tiny = 40" "N_SLOT_PB tiny = 1"
  by (simp_all add: wf_dftl_def wf_geom_def map_lo_def tiny_def N_MAP_PAGES_PB_def N_PPNS_PB_def N_SLOT_PB_def
      N_DATA_USER_BLOCKS_PB_def N_USER_OP_BLOCKS_PB_def N_OP_BLOCKS_PB_def N_MAP_BLOCKS_PB_def CMT_SIZE_PB_def)

lemma full_map_log:
  "dlog full_map 0 k = (if 33 \<le> k \<and> k < 39 then [(replicate 8 (-1), word_of_nat (k - 33))] else [])"
  by (simp add: dlog_def nand_log_def full_map_def page_idx_def blk_idx_def)

lemma full_map_ok: "maps_ok tiny full_map"
proof -
  have "chip_ok tiny full_map"
    unfolding chip_ok_def tiny_sizes
    by (auto simp: nand_ok_def nand_invalid_def nand_dims_def full_map_def page_idx_def blk_idx_def)
  moreover have "map_front tiny full_map 0 39 39 39"
    unfolding map_front_def tiny_sizes full_map_log by (auto simp: full_map_def)
  moreover have at: "map_page_at tiny full_map 0 w (w + 33) 0" if "w < 5" for w
    using that unfolding map_page_at_def tiny_sizes full_map_log
    by (simp add: full_map_def good_row_blank)
  have "map_pages tiny full_map 0"
    unfolding map_pages_def tiny_sizes
  proof (intro conjI allI impI)
    fix k r :: nat assume k: "33 \<le> k" "k < 40" "r < 1"
    show "page_valid full_map 0 (k * 1 + r) = 0 \<or> page_valid full_map 0 (k * 1 + r) = 1"
      by (simp add: full_map_def)
    have "\<exists>w < 5. map_page_at tiny full_map 0 w k r" if "k < 38"
      using at [of "k - 33"] k that by (intro exI [of _ "k - 33"]) auto
    moreover have "length (dlog full_map 0 k) = (if k < 39 then 1 else 0)"
      using k by (simp add: full_map_log)
    moreover have "page_valid full_map 0 (k * 1 + r) = (if k = 38 then 0 else 1)"
      using k by (simp add: full_map_def)
    ultimately show "if r < length (dlog full_map 0 k)
      then page_valid full_map 0 (k * 1 + r) = 1 \<longrightarrow> (\<exists>w < 5. map_page_at tiny full_map 0 w k r)
      else page_valid full_map 0 (k * 1 + r) = 1"
      using k by (cases "k < 38"; cases "k = 38") simp_all
  qed (use at in blast)
  moreover have "map_cache tiny full_map 0"
    unfolding map_cache_def cached_at_def tiny_sizes by (simp add: full_map_def dftl_zero_def)
  ultimately show ?thesis by (auto simp: maps_ok_def map_ok_def tiny_sizes)
qed

section \<open>The properties of the table\<close>

text \<open>
  C5. A sequence of lookups and updates of the mapping tables of all banks, run on the device
  that \<open>dftl_open\<close> prepared: every operation returns, and a lookup then gives the physical page
  last stored for the logical page, or \<open>-1\<close> when none was. Which map pages are cached, which slots
  were evicted at random and which map blocks were collected makes no difference.
\<close>

theorem dftl_map_history:
  assumes "wf_dftl g" "list_all (good_map_op g) ops" "b < N_BANKS g" "l < 8 * N_MAP_PAGES_PB g"
  shows "\<exists>t u. for_opt ops (map_op g d0) (dftl_open g junk s) = Some t \<and>
    lpn2ppn g d1 b (int l) t = Some (fold apply_op ops (\<lambda>_ _. -1) b l, u)"
proof -
  note op = dftl_open_ok [OF assms(1), where junk = junk and s = s]
  obtain t where t: "for_opt ops (map_op g d0) (dftl_open g junk s) = Some t" "maps_ok g t"
    "mapped g t b l = fold apply_op ops (mapped g (dftl_open g junk s)) b l"
    using map_ops_ok [OF assms(1) op(1) assms(2), of d0] assms(3,4) by blast
  have "fold apply_op ops (mapped g (dftl_open g junk s)) b l = fold apply_op ops (\<lambda>_ _. -1) b l"
    by (rule apply_ops_cong [OF op(2) assms(3,4)])
  moreover obtain u where "lpn2ppn g d1 b (int l) t = Some (mapped g t b l, u)"
    using lpn2ppn_ok [OF assms(1) _ assms(3) _ assms(4), of t d1] t(2) assms(3) by (metis maps_ok_def)
  ultimately show ?thesis using t by simp
qed

lemma dftl_map_history_witness:
  "\<exists>t u. for_opt [(3, 100, Some 7), (3, 5, None), (3, 100, Some 9)] (map_op prj1_geom blank_page) prj1_open = Some t \<and>
    lpn2ppn prj1_geom blank_page 3 100 t = Some (9, u)"
  using dftl_map_history [OF prj1_sizes(1), of "[(3, 100, Some 7), (3, 5, None), (3, 100, Some 9)]" 3 100 blank_page
      "\<lambda>_. \<lparr>pg_data = replicate 8 0, pg_spare = 0\<rparr>" dftl_zero blank_page]
  by (simp add: good_map_op_def apply_op_def prj1_sizes prj1_open_def)

text \<open>
  C6. An update of the mapping table changes the entry it names, in every bank, and no other
  entry; it returns whatever has to be evicted and collected, and touches neither the data
  blocks, nor the page cache, nor the other banks.
\<close>

theorem dftl_update_exact:
  assumes "wf_dftl g" "maps_ok g s" "b < N_BANKS g" "l < 8 * N_MAP_PAGES_PB g" "p < 2 ^ 31"
  shows "\<exists>t. update_L2P g d0 b (int l) (int p) s = Some t \<and> maps_ok g t \<and> map_frame g b s t \<and>
    (\<forall>b' < N_BANKS g. \<forall>l' < 8 * N_MAP_PAGES_PB g.
       mapped g t b' l' = (if b' = b \<and> l' = l then int p else mapped g s b' l'))"
proof -
  have s: "chip_ok g s" "map_ok g s b" using assms(2,3) by (simp_all add: maps_ok_def)
  obtain t where t: "update_L2P g d0 b (int l) (int p) s = Some t" "chip_ok g t" "map_ok g t b" "map_frame g b s t"
      "\<And>l'. l' < 8 * N_MAP_PAGES_PB g \<Longrightarrow> mapped g t b l' = (if l' = l then int p else mapped g s b l')"
    by (rule update_L2P_ok [OF assms(1) s(1) assms(3) s(2) assms(4,5), of d0]) (rule that)
  have "mapped g t b' l' = (if b' = b \<and> l' = l then int p else mapped g s b' l')"
    if "b' < N_BANKS g" "l' < 8 * N_MAP_PAGES_PB g" for b' l'
    using t(5) [OF that(2)] mapped_other [OF assms(2) t(4) that(1) _ that(2) assms(1)] by (cases "b' = b") auto
  then show ?thesis using t(1,4) maps_step [OF assms(2) t(2,3,4)] by blast
qed

lemma dftl_update_exact_witness:
  "\<exists>t. update_L2P tiny blank_page 0 12 34 full_map = Some t \<and> mapped tiny t 0 12 = 34"
  using dftl_update_exact [OF tiny_sizes(1) full_map_ok, of 0 12 34 blank_page] by (auto simp: tiny_sizes)

text \<open>
  The collection of map blocks, started when the frontier has reached its trigger: it returns,
  leaves room for at least one more map page, and keeps every entry of the table and the slots of
  the CMT, also for the map pages whose cached copy is newer than the one on flash.
\<close>

theorem dftl_map_gc:
  assumes "wf_dftl g" "maps_ok g s" "b < N_BANKS g" "Next_Map_PPN s b = GC_Trigger_Map_PPN s b"
  shows "\<exists>t. map_garbage_collection g d0 b s = Some t \<and> maps_ok g t \<and>
    Next_Map_PPN t b < GC_Trigger_Map_PPN t b \<and>
    CMT_vpn t = CMT_vpn s \<and> CMT_dirty t = CMT_dirty s \<and> CMT_Data t = CMT_Data s \<and>
    (\<forall>b' < N_BANKS g. \<forall>l < 8 * N_MAP_PAGES_PB g. mapped g t b' l = mapped g s b' l)"
proof -
  have s: "chip_ok g s" "map_ok g s b" using assms(2,3) by (simp_all add: maps_ok_def)
  obtain f n tr where f: "map_front g s b f n tr" and m: "map_pages g s b" "map_cache g s b"
    using s(2) by (auto simp: map_ok_def)
  then have "tr = n" using assms(4) by (simp add: map_front_def)
  with f have "map_front g s b f n n" by simp
  then obtain t f' n' tr' where t: "map_garbage_collection g d0 b s = Some t" "chip_ok g t"
    "map_front g t b f' n' tr'" "n' < tr'" "map_pages g t b" "map_cache g t b"
    "\<And>w. w < N_MAP_PAGES_PB g \<Longrightarrow> map_row g t b w = map_row g s b w" "map_frame g b s t"
    "CMT_vpn t = CMT_vpn s" "CMT_dirty t = CMT_dirty s" "CMT_Data t = CMT_Data s"
    by (rule map_gc_ok [OF assms(1) s(1) assms(3) _ m, of f n d0]) (rule that)
  have "map_ok g t b" using t(3,5,6) by (auto simp: map_ok_def)
  moreover have "mapped g t b' l = mapped g s b' l" if "b' < N_BANKS g" "l < 8 * N_MAP_PAGES_PB g" for b' l
    using mapped_other [OF assms(2) t(8) that(1) _ that(2) assms(1)] t(7) lpn2vpn_nat(2) [OF assms(1) that(2)]
    by (cases "b' = b") (auto simp: mapped_def)
  ultimately show ?thesis
    using t(1,3,4,9-11) maps_step [OF assms(2) t(2) _ t(8)] by (auto simp: map_front_def)
qed

lemma dftl_map_gc_witness:
  "\<exists>t. map_garbage_collection tiny blank_page 0 full_map = Some t \<and> Next_Map_PPN t 0 < GC_Trigger_Map_PPN t 0"
proof -
  have "Next_Map_PPN full_map 0 = GC_Trigger_Map_PPN full_map 0" by (simp add: full_map_def)
  from dftl_map_gc [OF tiny_sizes(1) full_map_ok _ this, of blank_page] show ?thesis by (auto simp: tiny_sizes)
qed

end
