(* ===== verification/Vm.thy ===== *)
theory Vm
  imports Bytes
begin

text \<open>
  Virtual memory of the xv6 kernel of project 3, \<open>3-1/OS/PRJ3/xv6-sse-local/vm.c\<close>, over the frame
  allocator \<open>kalloc.c\<close>: physical memory is an array of bytes, in which page directories and page
  tables are words like any others and the free frames form a linked list. The kernel reaches
  physical memory at \<open>KERNBASE\<close> and above; its pointers are words. The value \<open>None\<close> stands for a
  panic, for an access outside physical memory (also through a null pointer), and for a loop
  that never ends. Locks, the TLB and lines printed on the console are left out.
\<close>

section \<open>Addresses\<close>

abbreviation (input) "KERNBASE \<equiv> (0x80000000 :: u32)"
abbreviation (input) "PHYSTOP \<equiv> (0xE000000 :: u32)"
abbreviation (input) "DEVSPACE \<equiv> (0xFE000000 :: u32)"
abbreviation (input) "EXTMEM \<equiv> (0x100000 :: u32)"
abbreviation (input) "KERNLINK \<equiv> (0x80100000 :: u32)"
abbreviation (input) "PGSIZE \<equiv> (4096 :: u32)"
abbreviation (input) "PTE_P \<equiv> (1 :: u32)"
abbreviation (input) "PTE_W \<equiv> (2 :: u32)"
abbreviation (input) "PTE_U \<equiv> (4 :: u32)"

definition V2P :: "u32 \<Rightarrow> u32" where "V2P a = a - KERNBASE"
definition P2V :: "u32 \<Rightarrow> u32" where "P2V a = a + KERNBASE"
definition PDX :: "u32 \<Rightarrow> u32" where "PDX va = drop_bit 22 va AND 0x3FF"
definition PTX :: "u32 \<Rightarrow> u32" where "PTX va = drop_bit 12 va AND 0x3FF"
definition PGADDR :: "u32 \<Rightarrow> u32 \<Rightarrow> u32 \<Rightarrow> u32" where
  "PGADDR d t off = push_bit 22 d OR push_bit 12 t OR off"
definition PGROUNDUP :: "u32 \<Rightarrow> u32" where "PGROUNDUP sz = (sz + PGSIZE - 1) AND NOT (PGSIZE - 1)"
definition PGROUNDDOWN :: "u32 \<Rightarrow> u32" where "PGROUNDDOWN a = a AND NOT (PGSIZE - 1)"
definition PTE_ADDR :: "u32 \<Rightarrow> u32" where "PTE_ADDR pte = pte AND NOT 0xFFF"
definition PTE_FLAGS :: "u32 \<Rightarrow> u32" where "PTE_FLAGS pte = pte AND 0xFFF"

section \<open>Physical memory\<close>

record vm =
  pmem :: bytes            \<comment> \<open>indexed by physical addresses\<close>
  freelist :: u32          \<comment> \<open>\<open>kmem.freelist\<close>; the first word of a free frame is \<open>next\<close>\<close>
  kend :: u32              \<comment> \<open>the symbol \<open>end\<close> of \<open>kernel.ld\<close>\<close>
  kdata :: u32             \<comment> \<open>the symbol \<open>data\<close> of \<open>kernel.ld\<close>\<close>

text \<open>The \<open>n\<close> bytes at a kernel address, if all of them are in physical memory.\<close>

definition in_ram :: "u32 \<Rightarrow> nat \<Rightarrow> bool" where
  "in_ram a n \<longleftrightarrow> unat (V2P a) + n \<le> unat PHYSTOP"

definition ld :: "u32 \<Rightarrow> vm \<Rightarrow> u32 option" where
  "ld a s = (if in_ram a 4 then Some (load32 (pmem s) (unat (V2P a))) else None)"

definition st :: "u32 \<Rightarrow> u32 \<Rightarrow> vm \<Rightarrow> vm option" where
  "st a v s = (if in_ram a 4 then Some (s\<lparr>pmem := store32 (pmem s) (unat (V2P a)) v\<rparr>) else None)"

text \<open>\<open>n\<close> bytes of \<open>src\<close>, from its byte \<open>j\<close> on, to a kernel address.\<close>

definition put :: "u32 \<Rightarrow> bytes \<Rightarrow> nat \<Rightarrow> nat \<Rightarrow> vm \<Rightarrow> vm option" where
  "put a src j n s =
     (if in_ram a n then Some (s\<lparr>pmem := memmove (pmem s) (unat (V2P a)) src j n\<rparr>) else None)"

definition memset :: "u32 \<Rightarrow> u8 \<Rightarrow> nat \<Rightarrow> vm \<Rightarrow> vm option" where
  "memset a c n s = put a (\<lambda>_. c) 0 n s"

section \<open>The frame allocator\<close>

definition kfree :: "u32 \<Rightarrow> vm \<Rightarrow> vm option" where
  "kfree v s =
     (if v mod PGSIZE \<noteq> 0 then None
      else if V2P v \<ge> PHYSTOP then None
      else if v < kend s then None
      else do {
        s \<leftarrow> memset v 1 4096 s;
        s \<leftarrow> st v (freelist s) s;
        Some (s\<lparr>freelist := v\<rparr>) })"

definition kalloc :: "vm \<Rightarrow> (u32 \<times> vm) option" where
  "kalloc s =
     (let r = freelist s in
      if r \<noteq> 0 then do { n \<leftarrow> ld r s; Some (r, s\<lparr>freelist := n\<rparr>) } else Some (r, s))"

partial_function (option) free_range_loop :: "u32 \<Rightarrow> u32 \<Rightarrow> vm \<Rightarrow> vm option" where
  "free_range_loop p vend s =
     (if p + PGSIZE \<le> vend then do { s \<leftarrow> kfree p s; free_range_loop (p + PGSIZE) vend s }
      else Some s)"

definition freerange :: "u32 \<Rightarrow> u32 \<Rightarrow> vm \<Rightarrow> vm option" where
  "freerange vstart vend s = free_range_loop (PGROUNDUP vstart) vend s"

section \<open>Page tables\<close>

definition walkpgdir :: "u32 \<Rightarrow> u32 \<Rightarrow> bool \<Rightarrow> vm \<Rightarrow> (u32 \<times> vm) option" where
  "walkpgdir pgdir va alloc s =
     do {
       let pde = pgdir + 4 * PDX va;
       e \<leftarrow> ld pde s;
       if e AND PTE_P \<noteq> 0 then Some (P2V (PTE_ADDR e) + 4 * PTX va, s)
       else if \<not> alloc then Some (0, s)
       else do {
         r \<leftarrow> kalloc s;
         case r of (pgtab, s) \<Rightarrow>
           if pgtab = 0 then Some (0, s)
           else do {
             s \<leftarrow> memset pgtab 0 4096 s;
             s \<leftarrow> st pde (V2P pgtab OR PTE_P OR PTE_W OR PTE_U) s;
             Some (pgtab + 4 * PTX va, s) } } }"

partial_function (option) map_loop ::
    "u32 \<Rightarrow> u32 \<Rightarrow> u32 \<Rightarrow> u32 \<Rightarrow> u32 \<Rightarrow> vm \<Rightarrow> (int \<times> vm) option" where
  "map_loop pgdir stop perm a pa s =
     Option.bind (walkpgdir pgdir a True s) (\<lambda>r.
       if fst r = 0 then Some (-1, snd r)
       else Option.bind (ld (fst r) (snd r)) (\<lambda>e.
         if e AND PTE_P \<noteq> 0 then None
         else Option.bind (st (fst r) (pa OR perm OR PTE_P) (snd r)) (\<lambda>s.
           if a = stop then Some (0, s)
           else map_loop pgdir stop perm (a + PGSIZE) (pa + PGSIZE) s)))"

definition mappages :: "u32 \<Rightarrow> u32 \<Rightarrow> u32 \<Rightarrow> u32 \<Rightarrow> u32 \<Rightarrow> vm \<Rightarrow> (int \<times> vm) option" where
  "mappages pgdir va sz pa perm s =
     map_loop pgdir (PGROUNDDOWN (va + sz - 1)) perm (PGROUNDDOWN va) pa s"

section \<open>Growing and shrinking an address space\<close>

partial_function (option) dealloc_loop :: "u32 \<Rightarrow> u32 \<Rightarrow> u32 \<Rightarrow> vm \<Rightarrow> vm option" where
  "dealloc_loop pgdir oldsz a s =
     (if a < oldsz then
        Option.bind (walkpgdir pgdir a False s) (\<lambda>r.
          if fst r = 0 then dealloc_loop pgdir oldsz (PGADDR (PDX a + 1) 0 0 - PGSIZE + PGSIZE) s
          else Option.bind (ld (fst r) s) (\<lambda>e.
            if e AND PTE_P \<noteq> 0 then
              (if PTE_ADDR e = 0 then None
               else Option.bind (kfree (P2V (PTE_ADDR e)) s) (\<lambda>s.
                 Option.bind (st (fst r) 0 s) (\<lambda>s. dealloc_loop pgdir oldsz (a + PGSIZE) s)))
            else dealloc_loop pgdir oldsz (a + PGSIZE) s))
      else Some s)"

definition deallocuvm :: "u32 \<Rightarrow> u32 \<Rightarrow> u32 \<Rightarrow> vm \<Rightarrow> (u32 \<times> vm) option" where
  "deallocuvm pgdir oldsz newsz s =
     (if newsz \<ge> oldsz then Some (oldsz, s)
      else do { s \<leftarrow> dealloc_loop pgdir oldsz (PGROUNDUP newsz) s; Some (newsz, s) })"

partial_function (option) alloc_loop :: "u32 \<Rightarrow> u32 \<Rightarrow> u32 \<Rightarrow> u32 \<Rightarrow> vm \<Rightarrow> (u32 \<times> vm) option" where
  "alloc_loop pgdir oldsz newsz a s =
     (if a < newsz then
        Option.bind (kalloc s) (\<lambda>m.
          if fst m = 0 then
            Option.bind (deallocuvm pgdir newsz oldsz (snd m)) (\<lambda>r. Some (0, snd r))
          else Option.bind (memset (fst m) 0 4096 (snd m)) (\<lambda>s.
            Option.bind (mappages pgdir a PGSIZE (V2P (fst m)) (PTE_W OR PTE_U) s) (\<lambda>r.
              if fst r < 0 then
                Option.bind (deallocuvm pgdir newsz oldsz (snd r)) (\<lambda>r.
                  Option.bind (kfree (fst m) (snd r)) (\<lambda>s. Some (0, s)))
              else alloc_loop pgdir oldsz newsz (a + PGSIZE) (snd r))))
      else Some (newsz, s))"

definition allocuvm :: "u32 \<Rightarrow> u32 \<Rightarrow> u32 \<Rightarrow> vm \<Rightarrow> (u32 \<times> vm) option" where
  "allocuvm pgdir oldsz newsz s =
     (if newsz \<ge> KERNBASE then Some (0, s)
      else if newsz < oldsz then Some (oldsz, s)
      else alloc_loop pgdir oldsz newsz (PGROUNDUP oldsz) s)"

section \<open>Whole address spaces\<close>

definition freevm :: "u32 \<Rightarrow> vm \<Rightarrow> vm option" where
  "freevm pgdir s =
     (if pgdir = 0 then None
      else do {
        r \<leftarrow> deallocuvm pgdir KERNBASE 0 s;
        s \<leftarrow> for_opt [0..<1024] (\<lambda>i s. do {
               e \<leftarrow> ld (pgdir + 4 * word_of_nat i) s;
               if e AND PTE_P \<noteq> 0 then kfree (P2V (PTE_ADDR e)) s else Some s }) (snd r);
        kfree pgdir s })"

text \<open>The table \<open>kmap\<close>: virtual address, physical start and end, permissions.\<close>

definition kmap :: "vm \<Rightarrow> (u32 \<times> u32 \<times> u32 \<times> u32) list" where
  "kmap s = [(KERNBASE, 0, EXTMEM, PTE_W), (KERNLINK, V2P KERNLINK, V2P (kdata s), 0),
     (kdata s, V2P (kdata s), PHYSTOP, PTE_W), (DEVSPACE, DEVSPACE, 0, PTE_W)]"

fun map_kernel :: "u32 \<Rightarrow> (u32 \<times> u32 \<times> u32 \<times> u32) list \<Rightarrow> vm \<Rightarrow> (u32 \<times> vm) option" where
  "map_kernel pgdir [] s = Some (pgdir, s)"
| "map_kernel pgdir ((virt, start, stop, perm) # ks) s =
     do {
       r \<leftarrow> mappages pgdir virt (stop - start) start perm s;
       if fst r < 0 then do { s \<leftarrow> freevm pgdir (snd r); Some (0, s) }
       else map_kernel pgdir ks (snd r) }"

definition setupkvm :: "vm \<Rightarrow> (u32 \<times> vm) option" where
  "setupkvm s =
     do {
       r \<leftarrow> kalloc s;
       case r of (pgdir, s) \<Rightarrow>
         if pgdir = 0 then Some (0, s)
         else do {
           s \<leftarrow> memset pgdir 0 4096 s;
           if P2V PHYSTOP > DEVSPACE then None else map_kernel pgdir (kmap s) s } }"

definition inituvm :: "u32 \<Rightarrow> bytes \<Rightarrow> u32 \<Rightarrow> vm \<Rightarrow> vm option" where
  "inituvm pgdir init sz s =
     (if sz \<ge> PGSIZE then None
      else do {
        r \<leftarrow> kalloc s;
        case r of (mem, s) \<Rightarrow> do {
          s \<leftarrow> memset mem 0 4096 s;
          r \<leftarrow> mappages pgdir 0 PGSIZE (V2P mem) (PTE_W OR PTE_U) s;
          put mem init 0 (unat sz) (snd r) } })"

definition clearpteu :: "u32 \<Rightarrow> u32 \<Rightarrow> vm \<Rightarrow> vm option" where
  "clearpteu pgdir uva s =
     do {
       r \<leftarrow> walkpgdir pgdir uva False s;
       if fst r = 0 then None
       else do { e \<leftarrow> ld (fst r) s; st (fst r) (e AND NOT PTE_U) s } }"

text \<open>The loop of \<open>copyuvm\<close>; the result is \<open>d\<close>, or 0 after the label \<open>bad\<close>.\<close>

partial_function (option) copy_loop :: "u32 \<Rightarrow> u32 \<Rightarrow> u32 \<Rightarrow> u32 \<Rightarrow> vm \<Rightarrow> (u32 \<times> vm) option" where
  "copy_loop pgdir sz d i s =
     (if i < sz then
        Option.bind (walkpgdir pgdir i False s) (\<lambda>r.
          if fst r = 0 then None
          else Option.bind (ld (fst r) s) (\<lambda>e.
            if e AND PTE_P = 0 then None
            else Option.bind (kalloc s) (\<lambda>m.
              if fst m = 0 then Option.bind (freevm d (snd m)) (\<lambda>s. Some (0, s))
              else Option.bind (put (fst m) (pmem (snd m)) (unat (V2P (P2V (PTE_ADDR e)))) 4096 (snd m)) (\<lambda>s.
                Option.bind (mappages d i PGSIZE (V2P (fst m)) (PTE_FLAGS e) s) (\<lambda>r.
                  if fst r < 0 then
                    Option.bind (kfree (fst m) (snd r)) (\<lambda>s.
                      Option.bind (freevm d s) (\<lambda>s. Some (0, s)))
                  else copy_loop pgdir sz d (i + PGSIZE) (snd r))))))
      else Some (d, s))"

definition copyuvm :: "u32 \<Rightarrow> u32 \<Rightarrow> vm \<Rightarrow> (u32 \<times> vm) option" where
  "copyuvm pgdir sz s =
     do {
       r \<leftarrow> setupkvm s;
       case r of (d, s) \<Rightarrow> if d = 0 then Some (0, s) else copy_loop pgdir sz d 0 s }"

section \<open>Copying to user addresses\<close>

definition uva2ka :: "u32 \<Rightarrow> u32 \<Rightarrow> vm \<Rightarrow> u32 option" where
  "uva2ka pgdir uva s =
     do {
       r \<leftarrow> walkpgdir pgdir uva False s;
       e \<leftarrow> ld (fst r) s;
       if e AND PTE_P = 0 then Some 0
       else if e AND PTE_U = 0 then Some 0
       else Some (P2V (PTE_ADDR e)) }"

partial_function (option) copyout_loop ::
    "u32 \<Rightarrow> u32 \<Rightarrow> bytes \<Rightarrow> nat \<Rightarrow> u32 \<Rightarrow> vm \<Rightarrow> (int \<times> vm) option" where
  "copyout_loop pgdir va buf j len s =
     (if len > 0 then
        Option.bind (uva2ka pgdir (PGROUNDDOWN va) s) (\<lambda>pa0.
          if pa0 = 0 then Some (-1, s)
          else
            let va0 = PGROUNDDOWN va;
                n = PGSIZE - (va - va0);
                n = (if n > len then len else n)
            in Option.bind (put (pa0 + (va - va0)) buf j (unat n) s) (\<lambda>s.
                 copyout_loop pgdir (va0 + PGSIZE) buf (j + unat n) (len - n) s))
      else Some (0, s))"

definition copyout :: "u32 \<Rightarrow> u32 \<Rightarrow> bytes \<Rightarrow> u32 \<Rightarrow> vm \<Rightarrow> (int \<times> vm) option" where
  "copyout pgdir va p len s = copyout_loop pgdir va p 0 len s"

end
