(* ===== verification/VmMap.thy ===== *)
theory VmMap
  imports Vm
begin

text \<open>
  Who owns which frame of physical memory, and an address space as a map from pages to page table
  entries. The free list, the page directories, their tables and the pages of user memory are
  frames of their own; the operations of \<open>Vm\<close> move frames between these uses and change one
  entry of one map at a time.
\<close>

section \<open>Frames and pages\<close>

text \<open>
  The physical and the kernel address of a frame, the frame an entry points to, the page of a
  user address.
\<close>

definition pa :: "nat \<Rightarrow> u32" where "pa f = word_of_nat (4096 * f)"
definition kv :: "nat \<Rightarrow> u32" where "kv f = pa f + KERNBASE"
definition fr :: "u32 \<Rightarrow> nat" where "fr e = unat e div 4096"
definition vpn :: "u32 \<Rightarrow> nat" where "vpn a = unat a div 4096"

abbreviation present :: "u32 \<Rightarrow> bool" where "present e \<equiv> e AND 1 \<noteq> 0"

abbreviation (input) "FRAMES \<equiv> (57344 :: nat)"

lemma div1024: "v < 1048576 \<Longrightarrow> v div 1024 < (1024 :: nat)"
  by simp

lemma unat_less32: "unat (x :: u32) < 4294967296"
  using unsigned_less [of x] by simp

lemma vpn_less: "vpn a < 1048576"
  using unat_less32 [of a] by (simp add: vpn_def)

lemma fr_less: "fr e < 1048576"
  using unat_less32 [of e] by (simp add: fr_def)

lemma unat_pa [simp]: "f < 1048576 \<Longrightarrow> unat (pa f) = 4096 * f"
  unfolding pa_def by (subst unat_of_nat) (simp add: take_bit_nat_eq_self)

lemma V2P_kv [simp]: "V2P (kv f) = pa f"
  by (simp add: V2P_def kv_def)

lemma P2V_pa [simp]: "P2V (pa f) = kv f"
  by (simp add: P2V_def kv_def)

lemma unat_kv: "f < FRAMES \<Longrightarrow> unat (kv f) = 2147483648 + 4096 * f"
  by (simp add: kv_def unat_word_ariths)

lemma kv_nz [simp]: "f < FRAMES \<Longrightarrow> kv f \<noteq> 0"
  using unat_kv [of f] by (metis add_is_0 unat_0 zero_neq_numeral)

lemma kv_inj: "f < FRAMES \<Longrightarrow> g < FRAMES \<Longrightarrow> kv f = kv g \<longleftrightarrow> f = g"
  using unat_kv [of f] unat_kv [of g] by (metis add_left_cancel mult_left_cancel zero_neq_numeral)

lemma pa_inj: "f < 1048576 \<Longrightarrow> g < 1048576 \<Longrightarrow> pa f = pa g \<longleftrightarrow> f = g"
  using unat_pa [of f] unat_pa [of g] by (metis mult_left_cancel zero_neq_numeral)

lemma masks: "(0xFFF :: u32) = mask 12" "(0x3FF :: u32) = mask 10"
  by (simp_all add: mask_eq_exp_minus_1)

lemma low12: "unat (x AND NOT 0xFFF :: u32) = 4096 * (unat x div 4096)"
proof -
  have "x AND NOT (mask 12) = push_bit 12 (drop_bit 12 x)"
    by (rule bit_word_eqI) (auto simp: bit_simps)
  moreover have "unat (push_bit 12 (drop_bit 12 x)) = 4096 * (unat x div 4096)"
  proof -
    have "unat (push_bit 12 (drop_bit 12 x)) = take_bit 32 (push_bit 12 (unat (drop_bit 12 x)))"
      by (simp only: unsigned_push_bit_eq) simp
    moreover have "unat (drop_bit 12 x) = unat x div 4096"
      by (simp add: drop_bit_eq_div unat_div)
    ultimately show ?thesis
      using unat_less32 [of x] by (simp add: push_bit_eq_mult take_bit_nat_eq_self)
  qed
  ultimately show ?thesis by (simp add: masks(1))
qed

lemma PTE_ADDR_pa: "PTE_ADDR e = pa (fr e)"
proof (rule word_unat_eq_iff [THEN iffD2])
  have "unat (PTE_ADDR e) = 4096 * (unat e div 4096)" unfolding PTE_ADDR_def by (rule low12)
  then show "unat (PTE_ADDR e) = unat (pa (fr e))" using fr_less [of e] by (simp add: fr_def)
qed

lemma P2V_ADDR [simp]: "P2V (PTE_ADDR e) = kv (fr e)"
  by (simp add: PTE_ADDR_pa)

lemma ADDR_zero: "PTE_ADDR e = 0 \<longleftrightarrow> fr e = 0"
  using unat_pa [OF fr_less [of e]] by (auto simp: PTE_ADDR_pa pa_def word_unat_eq_iff)

lemma ROUNDDOWN_vpn: "PGROUNDDOWN a = pa (vpn a)"
  using PTE_ADDR_pa [of a] by (simp add: PGROUNDDOWN_def PTE_ADDR_def vpn_def fr_def)

lemma vpn_pa [simp]: "v < 1048576 \<Longrightarrow> vpn (pa v) = v"
  by (simp add: vpn_def)

lemma fr_pa [simp]: "f < 1048576 \<Longrightarrow> fr (pa f) = f"
  by (simp add: fr_def)

lemma unat_PDX: "unat (PDX a) = vpn a div 1024"
proof -
  have "PDX a = drop_bit 22 a"
    unfolding PDX_def masks by (rule bit_word_eqI) (auto simp: bit_simps dest: bit_imp_le_length)
  then show ?thesis by (simp add: drop_bit_eq_div unat_div vpn_def div_mult2_eq [symmetric])
qed

lemma unat_PTX: "unat (PTX a) = vpn a mod 1024"
proof -
  have "PTX a = take_bit 10 (drop_bit 12 a)"
    unfolding PTX_def masks by (simp add: take_bit_eq_mask)
  then show ?thesis
    by (simp add: drop_bit_eq_div take_bit_eq_mod unat_div unat_mod vpn_def)
qed

section \<open>Tables in memory\<close>

definition pde :: "bytes \<Rightarrow> nat \<Rightarrow> nat \<Rightarrow> u32" where
  "pde m d i = load32 m (4096 * d + 4 * i)"

text \<open>The entry of page \<open>v\<close> in the address space of the directory in frame \<open>d\<close>.\<close>

definition pte :: "bytes \<Rightarrow> nat \<Rightarrow> nat \<Rightarrow> u32" where
  "pte m d v = (if present (pde m d (v div 1024))
     then load32 m (4096 * fr (pde m d (v div 1024)) + 4 * (v mod 1024)) else 0)"

lemma unat_off:
  assumes "f < FRAMES" "unat k < 4096"
  shows "unat (V2P (kv f + k)) = 4096 * f + unat k"
proof -
  have "V2P (kv f + k) = pa f + k" by (simp add: V2P_def kv_def)
  then show ?thesis using assms by (simp add: unat_word_ariths)
qed

lemma unat_4: "unat i < 1024 \<Longrightarrow> unat (4 * i :: u32) = 4 * unat i"
  by (simp add: unat_word_ariths)

lemma ld_word:
  assumes "f < FRAMES" "unat i < 1024"
  shows "ld (kv f + 4 * i) s = Some (load32 (pmem s) (4096 * f + 4 * unat i))"
  using assms unat_off [of f "4 * i"] by (simp add: ld_def in_ram_def unat_4)

lemma st_word:
  assumes "f < FRAMES" "unat i < 1024"
  shows "st (kv f + 4 * i) v s = Some (s\<lparr>pmem := store32 (pmem s) (4096 * f + 4 * unat i) v\<rparr>)"
  using assms unat_off [of f "4 * i"] by (simp add: st_def in_ram_def unat_4)

lemma ld_frame: "f < FRAMES \<Longrightarrow> ld (kv f) s = Some (load32 (pmem s) (4096 * f))"
  using ld_word [of f 0 s] by simp

lemma st_frame: "f < FRAMES \<Longrightarrow> st (kv f) v s = Some (s\<lparr>pmem := store32 (pmem s) (4096 * f) v\<rparr>)"
  using st_word [of f 0 v s] by simp

lemma put_frame:
  "f < FRAMES \<Longrightarrow> n \<le> 4096 \<Longrightarrow> put (kv f) src j n s = Some (s\<lparr>pmem := memmove (pmem s) (4096 * f) src j n\<rparr>)"
  by (simp add: put_def in_ram_def)

lemma PTX_less: "unat (PTX a) < 1024" and PDX_less: "unat (PDX a) < 1024"
  using vpn_less [of a] by (simp_all add: unat_PTX unat_PDX)

lemma ld_pde:
  assumes "d < FRAMES" shows "ld (kv d + 4 * PDX va) s = Some (pde (pmem s) d (vpn va div 1024))"
  using ld_word [OF assms PDX_less, of va s] by (simp add: pde_def unat_PDX)

text \<open>The address of the entry that \<open>walkpgdir\<close> returns, and what is stored there.\<close>

definition entry_addr :: "bytes \<Rightarrow> nat \<Rightarrow> u32 \<Rightarrow> u32" where
  "entry_addr m d va = kv (fr (pde m d (vpn va div 1024))) + 4 * PTX va"

lemma walk_find:
  assumes "d < FRAMES"
  shows "walkpgdir (kv d) va False s =
    Some (if present (pde (pmem s) d (vpn va div 1024)) then entry_addr (pmem s) d va else 0, s)"
  by (simp add: walkpgdir_def ld_pde [OF assms] entry_addr_def)

lemma entry_addr_nz:
  assumes "fr (pde m d (vpn va div 1024)) < FRAMES" shows "entry_addr m d va \<noteq> 0"
proof
  assume "entry_addr m d va = 0"
  then have "unat (V2P (entry_addr m d va)) = 2147483648" by (simp add: V2P_def)
  moreover have "unat (4 * PTX va) < 4096" using PTX_less [of va] by (simp add: unat_4)
  ultimately show False using assms unat_off [of "fr (pde m d (vpn va div 1024))" "4 * PTX va"]
    by (simp add: entry_addr_def)
qed

lemma ld_entry:
  assumes "present (pde (pmem s) d (vpn va div 1024))" "fr (pde (pmem s) d (vpn va div 1024)) < FRAMES"
  shows "ld (entry_addr (pmem s) d va) s = Some (pte (pmem s) d (vpn va))"
  using assms ld_word [OF assms(2) PTX_less, of va s] by (simp add: entry_addr_def pte_def unat_PTX)

section \<open>Bytes of frames\<close>

text \<open>Two memories agree outside of some frames.\<close>

definition agree :: "nat set \<Rightarrow> bytes \<Rightarrow> bytes \<Rightarrow> bool" where
  "agree F m m' \<longleftrightarrow> (\<forall>f. f \<notin> F \<longrightarrow> (\<forall>k < 4096. m' (4096 * f + k) = m (4096 * f + k)))"

lemma agreeD: "agree F m m' \<Longrightarrow> f \<notin> F \<Longrightarrow> k < 4096 \<Longrightarrow> m' (4096 * f + k) = m (4096 * f + k)"
  by (simp add: agree_def)

lemma agree_refl [simp]: "agree F m m" by (simp add: agree_def)

lemma agree_trans: "agree F m m' \<Longrightarrow> agree G m' m'' \<Longrightarrow> agree (F \<union> G) m m''"
  by (simp add: agree_def)

lemma agree_mono: "agree F m m' \<Longrightarrow> F \<subseteq> G \<Longrightarrow> agree G m m'"
  by (auto simp: agree_def)

lemma frame_before: "f < g \<Longrightarrow> k < 4096 \<Longrightarrow> 4096 * f + k < 4096 * (g :: nat)"
  by linarith

lemma agree_store:
  assumes "i \<le> 4092" shows "agree {f} m (store32 m (4096 * f + i) v)"
  unfolding agree_def
proof (intro allI impI)
  fix g k :: nat assume g: "g \<notin> {f}" and k: "k < 4096"
  from g consider "g < f" | "f < g" by force
  then show "store32 m (4096 * f + i) v (4096 * g + k) = m (4096 * g + k)"
    using k assms frame_before [of g f k] by cases (simp_all add: store32_other)
qed

lemma agree_put:
  assumes "n \<le> 4096" shows "agree {f} m (memmove m (4096 * f) src j n)"
  unfolding agree_def
proof (intro allI impI)
  fix g k :: nat assume g: "g \<notin> {f}" and k: "k < 4096"
  from g consider "g < f" | "f < g" by force
  then show "memmove m (4096 * f) src j n (4096 * g + k) = m (4096 * g + k)"
    using k assms frame_before [of g f k] by cases (simp_all add: memmove_def)
qed

lemma load_agree:
  assumes "agree F m m'" "f \<notin> F" "i \<le> 4092"
  shows "load32 m' (4096 * f + i) = load32 m (4096 * f + i)"
proof (rule load32_cong)
  fix k assume k: "4096 * f + i \<le> k" "k < 4096 * f + i + 4"
  then have "k = 4096 * f + (k - 4096 * f)" "k - 4096 * f < 4096" using assms(3) by linarith+
  with agreeD [OF assms(1,2), of "k - 4096 * f"] show "m' k = m k" by metis
qed

lemma pde_agree: "agree F m m' \<Longrightarrow> d \<notin> F \<Longrightarrow> i < 1024 \<Longrightarrow> pde m' d i = pde m d i"
  by (simp add: pde_def load_agree)

lemma pte_agree:
  assumes "agree F m m'" "d \<notin> F" "v < 1048576"
    and "present (pde m d (v div 1024)) \<Longrightarrow> fr (pde m d (v div 1024)) \<notin> F"
  shows "pte m' d v = pte m d v"
proof -
  have "v div 1024 < 1024" "v mod 1024 < 1024" using assms(3) by simp_all
  then show ?thesis using assms pde_agree [OF assms(1,2), of "v div 1024"] by (auto simp: pte_def load_agree)
qed

lemma pde_store:
  assumes "i < 1024" "j < 1024"
  shows "pde (store32 m (4096 * f + 4 * i) e) d j = (if d = f \<and> j = i then e else pde m d j)"
proof (cases "d = f")
  case True
  have "4096 * f + 4 * i = 4 * (1024 * f + i)" "4096 * d + 4 * j = 4 * (1024 * d + j)" by simp_all
  then show ?thesis unfolding pde_def using load_store_word [of m "1024 * f + i" e "1024 * d + j"] True by auto
next
  case False
  have "agree {f} m (store32 m (4096 * f + 4 * i) e)" by (rule agree_store) (use assms in simp)
  from pde_agree [OF this, of d j] False assms show ?thesis by simp
qed

section \<open>Who owns a frame\<close>

text \<open>
  A frame is free, a page directory, table \<open>i\<close> of the directory in frame \<open>d\<close>, page \<open>v\<close> of its user
  memory, or in some other use that the operations here leave alone. User memory are the
  pages below \<open>KERNBASE\<close>; the entries above map all of physical memory and own nothing.
\<close>

datatype use = Free | Dir | Table nat nat | Page nat nat | Taken

type_synonym owners = "nat \<Rightarrow> use"

abbreviation (input) "USER \<equiv> (524288 :: nat)"

fun chain :: "bytes \<Rightarrow> u32 \<Rightarrow> nat list \<Rightarrow> bool" where
  "chain m a [] \<longleftrightarrow> a = 0"
| "chain m a (f # fs) \<longleftrightarrow> a = kv f \<and> chain m (load32 m (4096 * f)) fs"

definition ram_frame :: "vm \<Rightarrow> nat \<Rightarrow> bool" where
  "ram_frame s f \<longleftrightarrow> f < FRAMES \<and> kend s \<le> kv f"

definition free_ok :: "vm \<Rightarrow> owners \<Rightarrow> bool" where
  "free_ok s ow \<longleftrightarrow> KERNBASE < kend s \<and> (\<forall>f. ow f \<noteq> Taken \<longrightarrow> ram_frame s f) \<and>
     (\<exists>fl. chain (pmem s) (freelist s) fl \<and> distinct fl \<and> set fl = {f. ow f = Free})"

definition space_ok :: "bytes \<Rightarrow> owners \<Rightarrow> bool" where
  "space_ok m ow \<longleftrightarrow>
     (\<forall>d i. ow d = Dir \<longrightarrow> i < 1024 \<longrightarrow> present (pde m d i) \<longrightarrow> ow (fr (pde m d i)) = Table d i) \<and>
     (\<forall>f d i. ow f = Table d i \<longrightarrow> ow d = Dir \<and> i < 1024 \<and> present (pde m d i) \<and> fr (pde m d i) = f) \<and>
     (\<forall>d v. ow d = Dir \<longrightarrow> v < USER \<longrightarrow> present (pte m d v) \<longrightarrow> ow (fr (pte m d v)) = Page d v) \<and>
     (\<forall>f d v. ow f = Page d v \<longrightarrow> ow d = Dir \<and> v < USER \<and> present (pte m d v) \<and> fr (pte m d v) = f)"

definition mem_ok :: "vm \<Rightarrow> owners \<Rightarrow> bool" where
  "mem_ok s ow \<longleftrightarrow> free_ok s ow \<and> space_ok (pmem s) ow"

lemma space_okD:
  assumes "space_ok m ow"
  shows "ow d = Dir \<Longrightarrow> i < 1024 \<Longrightarrow> present (pde m d i) \<Longrightarrow> ow (fr (pde m d i)) = Table d i"
    and "ow f = Table d i \<Longrightarrow> ow d = Dir \<and> i < 1024 \<and> present (pde m d i) \<and> fr (pde m d i) = f"
    and "ow d = Dir \<Longrightarrow> v < USER \<Longrightarrow> present (pte m d v) \<Longrightarrow> ow (fr (pte m d v)) = Page d v"
    and "ow f = Page d v \<Longrightarrow> ow d = Dir \<and> v < USER \<and> present (pte m d v) \<and> fr (pte m d v) = f"
  using assms unfolding space_ok_def by blast+

lemma free_okD:
  assumes "free_ok s ow"
  shows "ow f \<noteq> Taken \<Longrightarrow> ram_frame s f" "ow f \<noteq> Taken \<Longrightarrow> f < FRAMES" "KERNBASE < kend s"
  using assms by (auto simp: free_ok_def ram_frame_def)

lemma frame_nz: "ram_frame s f \<Longrightarrow> KERNBASE < kend s \<Longrightarrow> f \<noteq> 0"
  by (cases "f = 0") (auto simp: ram_frame_def kv_def pa_def)

lemma chain_agree: "chain m a fl \<Longrightarrow> agree F m m' \<Longrightarrow> set fl \<inter> F = {} \<Longrightarrow> chain m' a fl"
proof (induction fl arbitrary: a)
  case (Cons f fl)
  then have "load32 m' (4096 * f) = load32 m (4096 * f)" using load_agree [of F m m' f 0] by simp
  with Cons show ?case by auto
qed simp

lemma free_agree:
  assumes "free_ok s ow" "agree F (pmem s) (pmem t)" "freelist t = freelist s" "kend t = kend s"
    and "\<forall>f \<in> F. ow f \<noteq> Free"
  shows "free_ok t ow"
proof -
  obtain fl where fl: "chain (pmem s) (freelist s) fl" "distinct fl" "set fl = {f. ow f = Free}"
    using assms(1) by (auto simp: free_ok_def)
  have "set fl \<inter> F = {}" using fl(3) assms(5) by blast
  from chain_agree [OF fl(1) assms(2) this] fl(2,3) assms(1,3,4) show ?thesis
    by (auto simp: free_ok_def ram_frame_def)
qed

lemma free_other: "free_ok s ow \<Longrightarrow> ram_frame s f \<Longrightarrow> ow f \<noteq> Free \<Longrightarrow> u \<noteq> Free \<Longrightarrow> free_ok s (ow(f := u))"
proof -
  assume a: "free_ok s ow" "ram_frame s f" "ow f \<noteq> Free" "u \<noteq> Free"
  then have "{g. (ow(f := u)) g = Free} = {g. ow g = Free}" by auto
  with a show ?thesis by (simp add: free_ok_def)
qed

lemma kalloc_cases:
  assumes "free_ok s ow"
  obtains (none) "kalloc s = Some (0, s)" "\<And>f. ow f \<noteq> Free"
    | (frame) f t where "kalloc s = Some (kv f, t)" "ow f = Free" "ram_frame s f" "kv f \<noteq> 0"
        "free_ok t (ow(f := Taken))" "pmem t = pmem s" "kend t = kend s" "kdata t = kdata s"
proof -
  obtain fl where fl: "chain (pmem s) (freelist s) fl" "distinct fl" "set fl = {f. ow f = Free}"
    using assms by (auto simp: free_ok_def)
  show thesis
  proof (cases fl)
    case Nil
    with fl show thesis by (intro none) (auto simp: kalloc_def)
  next
    case (Cons f fs)
    then have f: "ow f = Free" using fl(3) by auto
    then have r: "ram_frame s f" using free_okD(1) [OF assms] by simp
    then have lt: "f < FRAMES" by (simp add: ram_frame_def)
    define t where "t = s\<lparr>freelist := load32 (pmem s) (4096 * f)\<rparr>"
    have "freelist s = kv f" using fl(1) Cons by simp
    then have "kalloc s = Some (kv f, t)" using lt by (simp add: kalloc_def ld_frame t_def)
    moreover have "free_ok t (ow(f := Taken))"
    proof -
      have "chain (pmem t) (freelist t) fs" "distinct fs" using fl Cons by (simp_all add: t_def)
      moreover have "set fs = {g. (ow(f := Taken)) g = Free}" using fl(2,3) Cons by auto
      moreover have "KERNBASE < kend t" "\<forall>g. (ow(f := Taken)) g \<noteq> Taken \<longrightarrow> ram_frame t g"
        using assms by (auto simp: free_ok_def t_def ram_frame_def)
      ultimately show ?thesis unfolding free_ok_def by blast
    qed
    ultimately show thesis using frame [of f t] f r lt by (simp add: t_def)
  qed
qed

lemma kfree_ok:
  assumes "free_ok s ow" "ow f \<noteq> Free" "ram_frame s f"
  obtains t where "kfree (kv f) s = Some t" "free_ok t (ow(f := Free))" "agree {f} (pmem s) (pmem t)"
    "kend t = kend s" "kdata t = kdata s"
proof -
  have lt: "f < FRAMES" and ke: "\<not> kv f < kend s" using assms(3) by (auto simp: ram_frame_def)
  have al: "kv f mod 4096 = 0" by (simp add: word_unat_eq_iff unat_mod unat_kv [OF lt])
  have ph: "\<not> PHYSTOP \<le> pa f" using lt by (simp add: word_le_nat_alt)
  define m where "m = memmove (pmem s) (4096 * f) (\<lambda>_. 1) 0 4096"
  define t where "t = s\<lparr>pmem := store32 m (4096 * f) (freelist s), freelist := kv f\<rparr>"
  have run: "kfree (kv f) s = Some t"
    using lt ke al ph by (simp add: kfree_def memset_def put_frame st_frame m_def t_def)
  have ag: "agree {f} (pmem s) (pmem t)"
    using agree_trans [OF agree_put [of 4096 f "pmem s" "\<lambda>_. 1" 0, OF order_refl]
      agree_store [of 0 f m "freelist s", unfolded m_def]] by (simp add: t_def m_def)
  obtain fl where fl: "chain (pmem s) (freelist s) fl" "distinct fl" "set fl = {f. ow f = Free}"
    using assms(1) by (auto simp: free_ok_def)
  have nf: "f \<notin> set fl" using fl(3) assms(2) by simp
  then have "chain (pmem t) (freelist s) fl" using chain_agree [OF fl(1) ag] by simp
  then have "chain (pmem t) (freelist t) (f # fl)" by (simp add: t_def)
  moreover have "set (f # fl) = {g. (ow(f := Free)) g = Free}" using fl(3) by auto
  moreover have "KERNBASE < kend t" "\<forall>g. (ow(f := Free)) g \<noteq> Taken \<longrightarrow> ram_frame t g"
    using assms(1,3) by (auto simp: free_ok_def t_def ram_frame_def)
  ultimately have "free_ok t (ow(f := Free))" using nf fl(2) unfolding free_ok_def by (metis distinct.simps(2))
  from that [OF run this ag] show thesis by (simp add: t_def)
qed

section \<open>One entry of one table\<close>

lemma table_frame:
  assumes "space_ok m ow" "ow d = Dir" "v < 1048576" "present (pde m d (v div 1024))"
  shows "ow (fr (pde m d (v div 1024))) = Table d (v div 1024)"
proof -
  have "v div 1024 < 1024" using assms(3) by simp
  from space_okD(1) [OF assms(1,2) this assms(4)] show ?thesis .
qed

text \<open>Frames that belong to no address space may change hands.\<close>

lemma space_retake:
  assumes sp: "space_ok m ow" and "ow f \<in> {Free, Taken}" "u \<in> {Free, Taken}"
  shows "space_ok m (ow(f := u))"
proof -
  have "(ow(f := u)) g = w \<longleftrightarrow> ow g = w" if "w \<noteq> Free" "w \<noteq> Taken" for g w
    using assms(2,3) that by auto
  then have eq: "(ow(f := u)) g = Dir \<longleftrightarrow> ow g = Dir" "(ow(f := u)) g = Table d i \<longleftrightarrow> ow g = Table d i"
    "(ow(f := u)) g = Page d i \<longleftrightarrow> ow g = Page d i" for g d i by blast+
  have "space_ok m (ow(f := u)) \<longleftrightarrow> space_ok m ow" unfolding space_ok_def by (simp only: eq)
  with sp show ?thesis by simp
qed

text \<open>A memory that differs in no directory and no table describes the same address spaces.\<close>

lemma space_agree:
  assumes sp: "space_ok m ow" and ag: "agree F m m'"
    and F: "\<forall>f \<in> F. ow f \<noteq> Dir \<and> (\<forall>d i. ow f \<noteq> Table d i)"
  shows "space_ok m' ow" and "\<And>d v. ow d = Dir \<Longrightarrow> v < 1048576 \<Longrightarrow> pte m' d v = pte m d v"
    and "\<And>d i. ow d = Dir \<Longrightarrow> i < 1024 \<Longrightarrow> pde m' d i = pde m d i"
proof -
  show pd: "pde m' d i = pde m d i" if "ow d = Dir" "i < 1024" for d i
    using pde_agree [OF ag, of d i] F that by blast
  show pt: "pte m' d v = pte m d v" if "ow d = Dir" "v < 1048576" for d v
    using pte_agree [OF ag _ that(2), of d] table_frame [OF sp that] F that(1) by metis
  show "space_ok m' ow"
    unfolding space_ok_def
  proof (intro conjI allI impI)
    fix d i assume "ow d = Dir" "i < 1024" "present (pde m' d i)"
    then show "ow (fr (pde m' d i)) = Table d i" using space_okD(1) [OF sp, of d i] pd [of d i] by auto
  next
    fix f d i assume "ow f = Table d i"
    from space_okD(2) [OF sp this] show "ow d = Dir" "i < 1024" "present (pde m' d i)" "fr (pde m' d i) = f"
      using pd [of d i] by auto
  next
    fix d v assume a: "ow d = Dir" "v < USER" "present (pte m' d v)"
    then have "pte m' d v = pte m d v" using pt [of d v] by simp
    then show "ow (fr (pte m' d v)) = Page d v" using space_okD(3) [OF sp, of d v] a by simp
  next
    fix f d v assume "ow f = Page d v"
    from space_okD(4) [OF sp this] show "ow d = Dir" "v < USER" "present (pte m' d v)" "fr (pte m' d v) = f"
      using pt [of d v] by auto
  qed
qed

text \<open>The general rule for a store to an entry of a table of \<open>d\<close>.\<close>

lemma store_entry:
  assumes sp: "space_ok m ow" and d: "ow d = Dir" and v: "v < 1048576"
    and pr: "present (pde m d (v div 1024))"
    and m': "m' = store32 m (4096 * fr (pde m d (v div 1024)) + 4 * (v mod 1024)) e"
  shows "\<And>d' i. ow d' = Dir \<Longrightarrow> i < 1024 \<Longrightarrow> pde m' d' i = pde m d' i"
    and "\<And>d' v'. ow d' = Dir \<Longrightarrow> v' < 1048576 \<Longrightarrow>
      pte m' d' v' = (if d' = d \<and> v' = v then e else pte m d' v')"
proof -
  let ?t = "fr (pde m d (v div 1024))"
  have t: "ow ?t = Table d (v div 1024)" by (rule table_frame [OF sp d v pr])
  have ag: "agree {?t} m m'" unfolding m' by (rule agree_store) simp
  show pd: "pde m' d' i = pde m d' i" if "ow d' = Dir" "i < 1024" for d' i
    using pde_agree [OF ag _ that(2), of d'] that(1) t by force
  show "pte m' d' v' = (if d' = d \<and> v' = v then e else pte m d' v')"
    if d': "ow d' = Dir" and v': "v' < 1048576" for d' v'
  proof (cases "present (pde m d' (v' div 1024)) \<and> d' = d \<and> v' div 1024 = v div 1024")
    case True
    have "load32 m' (4096 * ?t + 4 * (v' mod 1024)) =
        (if v' mod 1024 = v mod 1024 then e else load32 m (4096 * ?t + 4 * (v' mod 1024)))"
      using pde_store [of "v mod 1024" "v' mod 1024" m ?t e ?t] by (simp add: pde_def m' pr)
    moreover have "v' mod 1024 = v mod 1024 \<longleftrightarrow> v' = v" using True by (metis div_mult_mod_eq)
    moreover have "pde m' d' (v' div 1024) = pde m d (v div 1024)" using pd [OF d', of "v' div 1024"] v' True
      by (metis div1024)
    ultimately show ?thesis using True pr by (simp add: pte_def)
  next
    case False
    have ne: "\<not> (d' = d \<and> v' = v)" using False pr by auto
    show ?thesis
    proof (cases "present (pde m d' (v' div 1024))")
      case True
      from table_frame [OF sp d' v' True] t False True have "fr (pde m d' (v' div 1024)) \<noteq> ?t" by auto
      moreover have "d' \<noteq> ?t" using d' t by auto
      ultimately show ?thesis using pte_agree [OF ag _ v', of d'] ne by auto
    next
      case F: False
      have "pde m' d' (v' div 1024) = pde m d' (v' div 1024)" using pd [OF d', of "v' div 1024"] v' by simp
      with F ne show ?thesis by (auto simp: pte_def)
    qed
  qed
qed

text \<open>
  Then the frames change hands: \<open>Page d v\<close> is the frame the new entry points to, if it points to
  one and \<open>v\<close> is a user page.
\<close>

lemma store_entry_space:
  assumes sp: "space_ok m ow" and d: "ow d = Dir" and v: "v < 1048576"
    and pr: "present (pde m d (v div 1024))"
    and m': "m' = store32 m (4096 * fr (pde m d (v div 1024)) + 4 * (v mod 1024)) e"
    and new: "\<And>f. ow' f = Page d v \<longleftrightarrow> v < USER \<and> present e \<and> fr e = f"
    and moved: "\<And>f. ow' f \<noteq> ow f \<Longrightarrow> ow f \<in> {Free, Taken, Page d v} \<and> ow' f \<in> {Free, Taken, Page d v}"
  shows "space_ok m' ow'"
proof -
  note st = store_entry [OF sp d v pr m']
  have dir: "ow' f = Dir \<longleftrightarrow> ow f = Dir" for f using moved [of f] by (cases "ow' f = ow f") auto
  have tab: "ow' f = Table d' i \<longleftrightarrow> ow f = Table d' i" for f d' i using moved [of f] by (cases "ow' f = ow f") auto
  have page: "ow' f = Page d' v' \<longleftrightarrow> ow f = Page d' v'" if "\<not> (d' = d \<and> v' = v)" for f d' v'
    using moved [of f] that by (cases "ow' f = ow f") auto
  show ?thesis
    unfolding space_ok_def
  proof (intro conjI allI impI)
    fix d' i assume a: "ow' d' = Dir" "i < 1024" "present (pde m' d' i)"
    with st(1) [of d' i] dir have "ow (fr (pde m d' i)) = Table d' i" by (intro space_okD(1) [OF sp]) auto
    then show "ow' (fr (pde m' d' i)) = Table d' i" using a st(1) [of d' i] dir tab by simp
  next
    fix f d' i assume "ow' f = Table d' i"
    then have "ow f = Table d' i" by (simp add: tab)
    from space_okD(2) [OF sp this] st(1) [of d' i] dir
    show "ow' d' = Dir" "i < 1024" "present (pde m' d' i)" "fr (pde m' d' i) = f" by auto
  next
    fix d' v' assume a: "ow' d' = Dir" "v' < USER" "present (pte m' d' v')"
    then have pt: "pte m' d' v' = (if d' = d \<and> v' = v then e else pte m d' v')" using st(2) [of d' v'] dir by simp
    show "ow' (fr (pte m' d' v')) = Page d' v'"
    proof (cases "d' = d \<and> v' = v")
      case True
      with pt a(2,3) have "present e" "v < USER" "pte m' d' v' = e" by auto
      with new [of "fr e"] True show ?thesis by simp
    next
      case False
      with pt have q: "pte m' d' v' = pte m d' v'" by auto
      with a dir have "ow (fr (pte m d' v')) = Page d' v'" by (intro space_okD(3) [OF sp]) auto
      then show ?thesis using page [OF False] q by simp
    qed
  next
    fix f d' v' assume a: "ow' f = Page d' v'"
    have "ow' d' = Dir \<and> v' < USER \<and> present (pte m' d' v') \<and> fr (pte m' d' v') = f"
    proof (cases "d' = d \<and> v' = v")
      case True
      then have "v < USER" "present e" "fr e = f" using new [of f] a by auto
      then show ?thesis using True d dir st(2) [OF d v] by simp
    next
      case False
      then have "ow f = Page d' v'" using page [OF False] a by simp
      from space_okD(4) [OF sp this] have o: "ow d' = Dir" "v' < USER" "present (pte m d' v')" "fr (pte m d' v') = f" by auto
      moreover have "pte m' d' v' = pte m d' v'" using st(2) [of d' v'] o(1,2) False by auto
      ultimately show ?thesis using dir by simp
    qed
    then show "ow' d' = Dir" "v' < USER" "present (pte m' d' v')" "fr (pte m' d' v') = f" by auto
  qed
qed

section \<open>A new table\<close>

lemma load_zeros: "(\<And>k. i \<le> k \<Longrightarrow> k < i + 4 \<Longrightarrow> b k = 0) \<Longrightarrow> load32 b i = 0"
  by (simp add: load32_def)

lemma link_table:
  assumes sp: "space_ok m ow" and d: "ow d = Dir" and i: "i < 1024" and np: "\<not> present (pde m d i)"
    and x: "ow x = Taken" and zero: "\<forall>k < 4096. m (4096 * x + k) = 0"
    and e: "present e" "fr e = x" and m': "m' = store32 m (4096 * d + 4 * i) e"
  shows "space_ok m' (ow(x := Table d i))"
    and "\<And>d' j. j < 1024 \<Longrightarrow> pde m' d' j = (if d' = d \<and> j = i then e else pde m d' j)"
    and "\<And>d' v. ow d' = Dir \<Longrightarrow> v < 1048576 \<Longrightarrow> pte m' d' v = pte m d' v"
proof -
  have xd: "x \<noteq> d" using d x by auto
  have ag: "agree {d} m m'" unfolding m' by (rule agree_store) (use i in simp)
  show pd: "pde m' d' j = (if d' = d \<and> j = i then e else pde m d' j)" if "j < 1024" for d' j
    unfolding m' by (rule pde_store [OF i that])
  show pt: "pte m' d' v = pte m d' v" if d': "ow d' = Dir" and v: "v < 1048576" for d' v
  proof (cases "d' = d \<and> v div 1024 = i")
    case True
    have "load32 m' (4096 * x + 4 * (v mod 1024)) = load32 m (4096 * x + 4 * (v mod 1024))"
      by (rule load_agree [OF ag]) (use xd in auto)
    also have "\<dots> = 0"
    proof (rule load_zeros)
      fix k assume k: "4096 * x + 4 * (v mod 1024) \<le> k" "k < 4096 * x + 4 * (v mod 1024) + 4"
      have "v mod 1024 < 1024" by simp
      with k have "k = 4096 * x + (k - 4096 * x)" "k - 4096 * x < 4096" by linarith+
      with zero show "m k = 0" by metis
    qed
    finally show ?thesis using True np e pd [OF i, of d] by (simp add: pte_def)
  next
    case False
    then have q: "pde m' d' (v div 1024) = pde m d' (v div 1024)" using pd [OF div1024 [OF v], of d'] by auto
    show ?thesis
    proof (cases "present (pde m d' (v div 1024))")
      case True
      from table_frame [OF sp d' v True] d have "fr (pde m d' (v div 1024)) \<noteq> d" by auto
      then show ?thesis using True q load_agree [OF ag, of "fr (pde m d' (v div 1024))" "4 * (v mod 1024)"]
        by (simp add: pte_def)
    next
      case False
      then show ?thesis using q by (simp add: pte_def)
    qed
  qed
  let ?ow = "ow(x := Table d i)"
  have notx: "ow f \<noteq> Taken \<Longrightarrow> f \<noteq> x" for f using x by auto
  show "space_ok m' ?ow"
    unfolding space_ok_def
  proof (intro conjI allI impI)
    fix d' j assume a: "?ow d' = Dir" "j < 1024" "present (pde m' d' j)"
    then have "ow d' = Dir" by (auto split: if_splits)
    then show "?ow (fr (pde m' d' j)) = Table d' j"
      using space_okD(1) [OF sp, of d' j] a(2,3) pd [OF a(2), of d'] e x by (auto split: if_splits)
  next
    fix f d' j assume a: "?ow f = Table d' j"
    have "?ow d' = Dir \<and> j < 1024 \<and> present (pde m' d' j) \<and> fr (pde m' d' j) = f"
    proof (cases "f = x")
      case True
      then show ?thesis using a d i e xd pd [OF i, of d] by auto
    next
      case False
      with a have "ow f = Table d' j" by simp
      from space_okD(2) [OF sp this] np have "ow d' = Dir" "j < 1024" "present (pde m d' j)" "fr (pde m d' j) = f"
        "\<not> (d' = d \<and> j = i)" by auto
      then show ?thesis using pd [of j d'] notx [of d'] by auto
    qed
    then show "?ow d' = Dir" "j < 1024" "present (pde m' d' j)" "fr (pde m' d' j) = f" by auto
  next
    fix d' v assume a: "?ow d' = Dir" "v < USER" "present (pte m' d' v)"
    then have "ow d' = Dir" by (auto split: if_splits)
    moreover from this a have "pte m' d' v = pte m d' v" using pt [of d' v] by simp
    ultimately have "ow (fr (pte m' d' v)) = Page d' v" using space_okD(3) [OF sp, of d' v] a by simp
    then show "?ow (fr (pte m' d' v)) = Page d' v" using notx by force
  next
    fix f d' v assume a: "?ow f = Page d' v"
    then have "ow f = Page d' v" by (auto split: if_splits)
    from space_okD(4) [OF sp this] pt [of d' v] notx [of d']
    show "?ow d' = Dir" "v < USER" "present (pte m' d' v)" "fr (pte m' d' v) = f" by auto
  qed
qed

section \<open>Mapping a page\<close>

text \<open>
  What the operations do that give frames to the address space \<open>d\<close>: no frame in use changes its
  use, pages keep their bytes, other address spaces keep their entries.
\<close>

fun belongs :: "nat \<Rightarrow> use \<Rightarrow> bool" where
  "belongs d (Table d' i) \<longleftrightarrow> d' = d"
| "belongs d (Page d' v) \<longleftrightarrow> d' = d"
| "belongs d u \<longleftrightarrow> False"

fun data :: "use \<Rightarrow> bool" where
  "data Taken \<longleftrightarrow> True"
| "data (Page d v) \<longleftrightarrow> True"
| "data u \<longleftrightarrow> False"

definition grows :: "nat \<Rightarrow> vm \<Rightarrow> owners \<Rightarrow> vm \<Rightarrow> owners \<Rightarrow> bool" where
  "grows d s ow t ow' \<longleftrightarrow> kend t = kend s \<and> kdata t = kdata s \<and>
     (\<forall>f. ow f \<noteq> Free \<longrightarrow> ow' f = ow f) \<and>
     (\<forall>f. ow f = Free \<longrightarrow> ow' f = Free \<or> belongs d (ow' f)) \<and>
     (\<forall>f k. data (ow f) \<longrightarrow> k < 4096 \<longrightarrow> pmem t (4096 * f + k) = pmem s (4096 * f + k)) \<and>
     (\<forall>d' v. d' \<noteq> d \<longrightarrow> ow d' = Dir \<longrightarrow> v < 1048576 \<longrightarrow> pte (pmem t) d' v = pte (pmem s) d' v)"

lemma growsD:
  assumes "grows d s ow t ow'"
  shows "kend t = kend s" "kdata t = kdata s" "ow f \<noteq> Free \<Longrightarrow> ow' f = ow f"
    and "ow f = Free \<Longrightarrow> ow' f = Free \<or> belongs d (ow' f)"
    and "data (ow f) \<Longrightarrow> k < 4096 \<Longrightarrow> pmem t (4096 * f + k) = pmem s (4096 * f + k)"
    and "d' \<noteq> d \<Longrightarrow> ow d' = Dir \<Longrightarrow> v < 1048576 \<Longrightarrow> pte (pmem t) d' v = pte (pmem s) d' v"
  using assms unfolding grows_def by blast+

lemma grows_refl: "grows d s ow s ow" by (simp add: grows_def)

lemma grows_trans:
  assumes g: "grows d s ow t ow'" and h: "grows d t ow' u ow''" shows "grows d s ow u ow''"
  unfolding grows_def
proof (intro conjI allI impI)
  show "kend u = kend s" "kdata u = kdata s" using growsD(1,2) [OF g] growsD(1,2) [OF h] by simp_all
  show "ow'' f = ow f" if "ow f \<noteq> Free" for f using growsD(3) [OF g that] growsD(3) [OF h, of f] that by simp
  show "ow'' f = Free \<or> belongs d (ow'' f)" if "ow f = Free" for f
    using growsD(4) [OF g that] growsD(3,4) [OF h, of f] by (cases "ow' f = Free") auto
  show "pmem u (4096 * f + k) = pmem s (4096 * f + k)" if "data (ow f)" "k < 4096" for f k
  proof -
    have "ow f \<noteq> Free" using that(1) by auto
    then show ?thesis using growsD(5) [OF g that] growsD(5) [OF h, of f k] growsD(3) [OF g, of f] that by simp
  qed
  show "pte (pmem u) d' v = pte (pmem s) d' v" if "d' \<noteq> d" "ow d' = Dir" "v < 1048576" for d' v
    using growsD(6) [OF g that] growsD(6) [OF h, of d' v] growsD(3) [OF g, of d'] that by simp
qed

lemma mem_okD: "mem_ok s ow \<Longrightarrow> free_ok s ow" "mem_ok s ow \<Longrightarrow> space_ok (pmem s) ow"
  by (simp_all add: mem_ok_def)

lemma dir_frame: "mem_ok s ow \<Longrightarrow> ow d = Dir \<Longrightarrow> d < FRAMES"
  using free_okD(2) [OF mem_okD(1), of s ow d] by simp

lemma table_less:
  assumes "mem_ok s ow" "ow d = Dir" "v < 1048576" "present (pde (pmem s) d (v div 1024))"
  shows "fr (pde (pmem s) d (v div 1024)) < FRAMES"
  using table_frame [OF mem_okD(2) [OF assms(1)] assms(2-4)] free_okD(2) [OF mem_okD(1) [OF assms(1)]] by simp

text \<open>An entry is a frame and its flags.\<close>

lemma fr_or:
  assumes "f < 1048576" "PTE_ADDR perm = 0"
  shows "fr (pa f OR perm) = f"
proof -
  have "PTE_ADDR (pa f) = pa f" using PTE_ADDR_pa [of "pa f"] assms(1) by simp
  then have "PTE_ADDR (pa f OR perm) = pa f"
    using assms(2) by (simp add: PTE_ADDR_def bit.conj_disj_distrib2)
  then have "pa (fr (pa f OR perm)) = pa f" by (simp add: PTE_ADDR_pa)
  then show ?thesis using pa_inj [OF fr_less assms(1)] by simp
qed

lemma present_bit: "present e \<longleftrightarrow> bit e 0"
  by (simp add: and_one_eq bit_0 odd_iff_mod_2_eq_one)

lemma present_or: "present (x OR y) \<longleftrightarrow> present x \<or> present y"
  by (simp only: present_bit bit_or_iff)

lemma ADDR_or: "PTE_ADDR (x OR y) = PTE_ADDR x OR PTE_ADDR y"
  by (simp add: PTE_ADDR_def bit.conj_disj_distrib2)

lemma ADDR_flags [simp]: "PTE_ADDR 1 = 0" "PTE_ADDR 2 = 0" "PTE_ADDR 4 = 0" "PTE_ADDR 0 = 0" "PTE_ADDR (PTE_FLAGS e) = 0"
proof -
  show "PTE_ADDR 1 = 0" "PTE_ADDR 2 = 0" "PTE_ADDR 4 = 0" "PTE_ADDR 0 = 0" by (simp_all add: PTE_ADDR_def)
  have "(e AND mask 12) AND NOT (mask 12) = 0" by (rule bit_word_eqI) (auto simp: bit_simps)
  then show "PTE_ADDR (PTE_FLAGS e) = 0" by (simp only: PTE_ADDR_def PTE_FLAGS_def masks)
qed

lemma walk_alloc:
  assumes ok: "mem_ok s ow" and d: "ow d = Dir"
  obtains (none) "walkpgdir (kv d) va True s = Some (0, s)" "\<And>f. ow f \<noteq> Free"
    | (entry) t ow' where "walkpgdir (kv d) va True s = Some (entry_addr (pmem t) d va, t)"
        "mem_ok t ow'" "grows d s ow t ow'" "present (pde (pmem t) d (vpn va div 1024))"
        "\<And>v. v < 1048576 \<Longrightarrow> pte (pmem t) d v = pte (pmem s) d v"
proof -
  let ?i = "vpn va div 1024"
  have dl: "d < FRAMES" by (rule dir_frame [OF ok d])
  have i: "?i < 1024" using vpn_less [of va] by simp
  note fo = mem_okD(1) [OF ok] and sp = mem_okD(2) [OF ok]
  show thesis
  proof (cases "present (pde (pmem s) d ?i)")
    case True
    then have "walkpgdir (kv d) va True s = Some (entry_addr (pmem s) d va, s)"
      by (simp add: walkpgdir_def ld_pde [OF dl] entry_addr_def)
    from entry [OF this ok grows_refl True] show thesis by simp
  next
    case False
    from fo show thesis
    proof (cases rule: kalloc_cases)
      case none
      then have "walkpgdir (kv d) va True s = Some (0, s)"
        using False by (simp add: walkpgdir_def ld_pde [OF dl])
      from that(1) [OF this none(2)] show thesis .
    next
      case (frame x s1)
      have xl: "x < FRAMES" using frame(3) by (simp add: ram_frame_def)
      define ow1 where "ow1 = ow(x := Taken)"
      define m2 where "m2 = memmove (pmem s1) (4096 * x) (\<lambda>_. 0) 0 4096"
      define e where "e = pa x OR 7"
      define t where "t = s1\<lparr>pmem := store32 m2 (4096 * d + 4 * ?i) e\<rparr>"
      define ow' where "ow' = ow1(x := Table d ?i)"
      have xd: "x \<noteq> d" using frame(2) d by auto
      have ag2: "agree {x} (pmem s) m2" using agree_put [of 4096 x "pmem s1" "\<lambda>_. 0" 0] frame(6) by (simp add: m2_def)
      have sp1: "space_ok (pmem s) ow1" unfolding ow1_def by (rule space_retake [OF sp]) (use frame(2) in simp_all)
      have d1: "ow1 d = Dir" using d xd by (simp add: ow1_def)
      have F: "\<forall>f \<in> {x}. ow1 f \<noteq> Dir \<and> (\<forall>d i. ow1 f \<noteq> Table d i)" by (simp add: ow1_def)
      note sp2 = space_agree [OF sp1 ag2 F]
      have np2: "\<not> present (pde m2 d ?i)" using False sp2(3) [OF d1 i] by simp
      have e: "present e" "fr e = x"
      proof -
        show "present e" unfolding e_def by (simp only: present_or) simp
        show "fr e = x" unfolding e_def by (rule fr_or) (use xl in \<open>simp_all add: PTE_ADDR_def\<close>)
      qed
      have zero: "\<forall>k < 4096. m2 (4096 * x + k) = 0" by (simp add: m2_def memmove_def)
      have x1: "ow1 x = Taken" by (simp add: ow1_def)
      have mt: "pmem t = store32 m2 (4096 * d + 4 * ?i) e" by (simp add: t_def)
      note L = link_table [OF sp2(1) d1 i np2 x1 zero e mt]
      have run: "walkpgdir (kv d) va True s = Some (kv x + 4 * PTX va, t)"
        using False frame(4) st_word [OF dl PDX_less, of va e "s1\<lparr>pmem := m2\<rparr>"]
        by (simp add: walkpgdir_def ld_pde [OF dl] frame(1) memset_def put_frame [OF xl] t_def unat_PDX
            e_def [symmetric] m2_def [symmetric])
      have pdt: "pde (pmem t) d ?i = e" using L(2) [OF i, of d] by simp
      have ea: "entry_addr (pmem t) d va = kv x + 4 * PTX va" by (simp add: entry_addr_def pdt e)
      have fo_t: "free_ok t ow'"
      proof -
        have "agree {x} (pmem s1) m2" using ag2 frame(6) by simp
        moreover have "agree {d} m2 (pmem t)" unfolding mt by (rule agree_store) (use i in simp)
        ultimately have "agree ({x} \<union> {d}) (pmem s1) (pmem t)" by (rule agree_trans)
        from free_agree [OF frame(5) this] d xd have "free_ok t (ow(x := Taken))" by (auto simp: t_def)
        moreover have "ram_frame t x" using frame(3,7) by (simp add: ram_frame_def t_def)
        ultimately show ?thesis using free_other [of t "ow(x := Taken)" x "Table d ?i"] by (simp add: ow'_def ow1_def)
      qed
      have pt: "pte (pmem t) d' v = pte (pmem s) d' v" if "ow d' = Dir" "v < 1048576" for d' v
      proof -
        have "ow1 d' = Dir" using that(1) frame(2) by (auto simp: ow1_def)
        then show ?thesis using L(3) [of d' v] sp2(2) [of d' v] that(2) by simp
      qed
      have gr: "grows d s ow t ow'"
        unfolding grows_def
      proof (intro conjI allI impI)
        show "kend t = kend s" "kdata t = kdata s" using frame(7,8) by (simp_all add: t_def)
        show "ow' f = ow f" if "ow f \<noteq> Free" for f using that frame(2) by (auto simp: ow'_def ow1_def)
        show "ow' f = Free \<or> belongs d (ow' f)" if "ow f = Free" for f
          using that by (auto simp: ow'_def ow1_def)
        show "pmem t (4096 * f + k) = pmem s (4096 * f + k)" if f: "data (ow f)" and k: "k < 4096" for f k
        proof -
          have ne: "f \<noteq> x" "f \<noteq> d" using f frame(2) d by auto
          have "agree {d} m2 (pmem t)" unfolding mt by (rule agree_store) (use i in simp)
          from agreeD [OF this _ k, of f] agreeD [OF ag2 _ k, of f] ne show ?thesis by simp
        qed
        show "pte (pmem t) d' v = pte (pmem s) d' v" if "d' \<noteq> d" "ow d' = Dir" "v < 1048576" for d' v
          by (rule pt [OF that(2,3)])
      qed
      have okt: "mem_ok t ow'" using fo_t L(1) by (simp add: mem_ok_def ow'_def)
      have prt: "present (pde (pmem t) d ?i)" using pdt e(1) by simp
      from entry [OF run [folded ea] okt gr prt] pt [OF d] show thesis by blast
    qed
  qed
qed

end
