(* ===== verification/VmSpace.thy ===== *)
theory VmSpace
  imports VmMap
begin

text \<open>
  The operations on address spaces: mapping and unmapping pages, growing and shrinking, a new
  kernel space, a copy of a whole space, its destruction.
\<close>

section \<open>One step of the mapping loop\<close>

lemma st_entry:
  assumes "fr (pde (pmem s) d (vpn va div 1024)) < FRAMES"
  shows "st (entry_addr (pmem s) d va) e s = Some (s\<lparr>pmem :=
    store32 (pmem s) (4096 * fr (pde (pmem s) d (vpn va div 1024)) + 4 * (vpn va mod 1024)) e\<rparr>)"
  using st_word [OF assms PTX_less, of va e s] by (simp add: entry_addr_def unat_PTX)

lemma map_step:
  assumes ok: "mem_ok s ow" and d: "ow d = Dir" and np: "\<not> present (pte (pmem s) d (vpn a))"
    and e: "present e" and own: "vpn a < USER \<longrightarrow> ow (fr e) = Taken \<and> ram_frame s (fr e)"
  obtains (none) "walkpgdir (kv d) a True s = Some (0, s)" "\<And>f. ow f \<noteq> Free"
    | (mapped) x t1 t ow1 where "walkpgdir (kv d) a True s = Some (x, t1)" "x \<noteq> 0"
        "ld x t1 = Some (pte (pmem s) d (vpn a))" "st x e t1 = Some t" "grows d s ow t ow1"
        "mem_ok t (if vpn a < USER then ow1(fr e := Page d (vpn a)) else ow1)"
        "\<And>v. v < 1048576 \<Longrightarrow> pte (pmem t) d v = (if v = vpn a then e else pte (pmem s) d v)"
  using ok d
proof (cases rule: walk_alloc [where va = a])
  case none
  from that(1) [OF this] show thesis .
next
  case (entry t1 ow1)
  let ?v = "vpn a"
  note fo = mem_okD(1) [OF entry(2)] and sp = mem_okD(2) [OF entry(2)]
  have d1: "ow1 d = Dir" using growsD(3) [OF entry(3), of d] d by simp
  have pd: "present (pde (pmem t1) d (?v div 1024))" by (rule entry(4))
  have less: "fr (pde (pmem t1) d (?v div 1024)) < FRAMES" by (rule table_less [OF entry(2) d1 vpn_less pd])
  define t where "t = t1\<lparr>pmem := store32 (pmem t1) (4096 * fr (pde (pmem t1) d (?v div 1024)) + 4 * (?v mod 1024)) e\<rparr>"
  have mt: "pmem t = store32 (pmem t1) (4096 * fr (pde (pmem t1) d (?v div 1024)) + 4 * (?v mod 1024)) e"
    by (simp add: t_def)
  have st_t: "st (entry_addr (pmem t1) d a) e t1 = Some t" unfolding t_def by (rule st_entry [OF less])
  have nz: "entry_addr (pmem t1) d a \<noteq> 0" by (rule entry_addr_nz [OF less])
  have ldt: "ld (entry_addr (pmem t1) d a) t1 = Some (pte (pmem s) d ?v)"
    using ld_entry [OF pd less] entry(5) [OF vpn_less] by simp
  have np1: "\<not> present (pte (pmem t1) d ?v)" using np entry(5) [OF vpn_less] by simp
  let ?ow = "if ?v < USER then ow1(fr e := Page d ?v) else ow1"
  have own1: "ow1 (fr e) = Taken" "ram_frame t1 (fr e)" if "?v < USER"
    using own that growsD(1) [OF entry(3)] growsD(3) [OF entry(3), of "fr e"] by (simp_all add: ram_frame_def)
  have nopage: "ow1 f \<noteq> Page d ?v" for f using space_okD(4) [OF sp, of f d ?v] np1 by blast
  have new: "?ow f = Page d ?v \<longleftrightarrow> ?v < USER \<and> present e \<and> fr e = f" for f using nopage e by simp
  have moved: "ow1 f \<in> {Free, Taken, Page d ?v} \<and> ?ow f \<in> {Free, Taken, Page d ?v}" if "?ow f \<noteq> ow1 f" for f
    using that own1 by (auto split: if_splits)
  note S = store_entry [OF sp d1 vpn_less pd mt]
  have spt: "space_ok (pmem t) ?ow" by (rule store_entry_space [OF sp d1 vpn_less pd mt new moved])
  have tab: "ow1 (fr (pde (pmem t1) d (?v div 1024))) = Table d (?v div 1024)"
    by (rule table_frame [OF sp d1 vpn_less pd])
  have ag: "agree {fr (pde (pmem t1) d (?v div 1024))} (pmem t1) (pmem t)" unfolding mt by (rule agree_store) simp
  have fo1: "free_ok t ow1" by (rule free_agree [OF fo ag]) (use tab in \<open>simp_all add: t_def\<close>)
  have fot: "free_ok t ?ow"
    using free_other [OF fo1, of "fr e" "Page d ?v"] own1 fo1 by (auto simp: ram_frame_def t_def)
  have gr: "grows d t1 ow1 t ow1"
    unfolding grows_def
  proof (intro conjI allI impI)
    show "kend t = kend t1" "kdata t = kdata t1" by (simp_all add: t_def)
    show "ow1 f = Free \<or> belongs d (ow1 f)" if "ow1 f = Free" for f using that by simp
    show "pmem t (4096 * f + k) = pmem t1 (4096 * f + k)" if "data (ow1 f)" "k < 4096" for f k
    proof -
      have "f \<noteq> fr (pde (pmem t1) d (?v div 1024))" using that(1) tab by auto
      then show ?thesis using agreeD [OF ag _ that(2), of f] by simp
    qed
    show "pte (pmem t) d' v = pte (pmem t1) d' v" if "d' \<noteq> d" "ow1 d' = Dir" "v < 1048576" for d' v
      using S(2) [OF that(2,3)] that(1) by simp
  qed simp
  have pt: "pte (pmem t) d v = (if v = ?v then e else pte (pmem s) d v)" if "v < 1048576" for v
    using S(2) [OF d1 that] entry(5) [OF that] by simp
  show thesis
    by (rule that(2) [OF entry(1) nz ldt st_t grows_trans [OF entry(3) gr] _ pt])
      (use spt fot in \<open>simp_all add: mem_ok_def\<close>)
qed

section \<open>Mapping one page\<close>

lemma PGROUND_pa [simp]: "v < 1048576 \<Longrightarrow> PGROUNDDOWN (pa v) = pa v"
  by (simp add: ROUNDDOWN_vpn)

lemma last_byte: "v < 1048576 \<Longrightarrow> PGROUNDDOWN (4095 + pa v) = pa v"
proof -
  assume v: "v < 1048576"
  have "unat (4095 + pa v) = 4095 + 4096 * v" using v by (simp add: unat_word_ariths)
  then have "vpn (4095 + pa v) = v" by (simp add: vpn_def)
  then show ?thesis by (simp add: ROUNDDOWN_vpn)
qed

text \<open>Mapping the frame \<open>f\<close> at the user page \<open>v\<close>.\<close>

lemma map_page:
  assumes ok: "mem_ok s ow" and d: "ow d = Dir" and v: "v < USER" and np: "\<not> present (pte (pmem s) d v)"
    and f: "ow f = Taken" "ram_frame s f" and perm: "PTE_ADDR perm = 0"
  obtains (none) "mappages (kv d) (pa v) 4096 (pa f) perm s = Some (-1, s)" "\<And>g. ow g \<noteq> Free"
    | (mapped) t ow1 where "mappages (kv d) (pa v) 4096 (pa f) perm s = Some (0, t)"
        "grows d s ow t ow1" "ow1 f = Taken" "mem_ok t (ow1(f := Page d v))"
        "\<And>v'. v' < 1048576 \<Longrightarrow>
          pte (pmem t) d v' = (if v' = v then pa f OR (perm OR 1) else pte (pmem s) d v')"
proof -
  let ?e = "pa f OR (perm OR 1)"
  have v2: "v < 1048576" using v by simp
  have fl: "f < 1048576" using f(2) by (simp add: ram_frame_def)
  have e: "present ?e" by (simp add: present_or)
  have fre: "fr ?e = f" by (rule fr_or [OF fl]) (simp add: ADDR_or perm)
  have np': "\<not> present (pte (pmem s) d (vpn (pa v)))" using np v2 by simp
  have own: "vpn (pa v) < USER \<longrightarrow> ow (fr ?e) = Taken \<and> ram_frame s (fr ?e)" using f fre by simp
  have unf: "mappages (kv d) (pa v) 4096 (pa f) perm s = map_loop (kv d) (pa v) perm (pa v) (pa f) s"
    using v2 by (simp add: mappages_def last_byte)
  from ok d np' e own show thesis
  proof (cases rule: map_step [where a = "pa v" and e = ?e])
    case none
    then show thesis using that(1) unf by (simp add: map_loop.simps)
  next
    case (mapped x t1 t ow1)
    have run: "mappages (kv d) (pa v) 4096 (pa f) perm s = Some (0, t)"
      using mapped(1-4) np v2 unf by (simp add: map_loop.simps)
    have "ow1 f = Taken" using growsD(3) [OF mapped(5), of f] f(1) by simp
    from that(2) [OF run mapped(5) this] mapped(6,7) v v2 fre show thesis by simp
  qed
qed

section \<open>Unmapping pages\<close>

text \<open>
  The pages \<open>P\<close> of the space \<open>d\<close> are gone and their frames are free; nothing else has changed,
  the tables of \<open>d\<close> included.
\<close>

definition unmaps :: "nat \<Rightarrow> nat set \<Rightarrow> vm \<Rightarrow> owners \<Rightarrow> vm \<Rightarrow> owners \<Rightarrow> bool" where
  "unmaps d P s ow t ow' \<longleftrightarrow> kend t = kend s \<and> kdata t = kdata s \<and>
     (\<forall>f. ow' f = (if \<exists>v \<in> P. ow f = Page d v then Free else ow f)) \<and>
     (\<forall>f k. data (ow' f) \<longrightarrow> k < 4096 \<longrightarrow> pmem t (4096 * f + k) = pmem s (4096 * f + k)) \<and>
     (\<forall>d' v. ow d' = Dir \<longrightarrow> v < 1048576 \<longrightarrow>
        pte (pmem t) d' v = (if d' = d \<and> v \<in> P \<and> present (pte (pmem s) d v) then 0 else pte (pmem s) d' v)) \<and>
     (\<forall>d' i. ow d' = Dir \<longrightarrow> i < 1024 \<longrightarrow> pde (pmem t) d' i = pde (pmem s) d' i)"

lemma unmapsD:
  assumes "unmaps d P s ow t ow'"
  shows "kend t = kend s" "kdata t = kdata s"
    and "ow' f = (if \<exists>v \<in> P. ow f = Page d v then Free else ow f)"
    and "data (ow' f) \<Longrightarrow> k < 4096 \<Longrightarrow> pmem t (4096 * f + k) = pmem s (4096 * f + k)"
    and "ow d' = Dir \<Longrightarrow> v < 1048576 \<Longrightarrow>
      pte (pmem t) d' v = (if d' = d \<and> v \<in> P \<and> present (pte (pmem s) d v) then 0 else pte (pmem s) d' v)"
    and "ow d' = Dir \<Longrightarrow> i < 1024 \<Longrightarrow> pde (pmem t) d' i = pde (pmem s) d' i"
  using assms unfolding unmaps_def by blast+

lemma unmaps_nothing:
  assumes sp: "space_ok (pmem s) ow" and "\<forall>v \<in> P. \<not> present (pte (pmem s) d v)"
  shows "unmaps d P s ow s ow"
proof -
  have "\<not> (\<exists>v \<in> P. ow f = Page d v)" for f using space_okD(4) [OF sp, of f d] assms(2) by blast
  then show ?thesis using assms(2) by (auto simp: unmaps_def)
qed

lemma unmaps_trans:
  assumes a: "unmaps d P s ow t ow'" and b: "unmaps d Q t ow' u ow''"
  shows "unmaps d (P \<union> Q) s ow u ow''"
proof -
  have dir: "ow' g = Dir" if "ow g = Dir" for g using unmapsD(3) [OF a, of g] that by simp
  have own: "ow'' f = (if \<exists>v \<in> P \<union> Q. ow f = Page d v then Free else ow f)" for f
    using unmapsD(3) [OF a, of f] unmapsD(3) [OF b, of f] by auto
  have bytes: "pmem u (4096 * f + k) = pmem s (4096 * f + k)" if "data (ow'' f)" "k < 4096" for f k
  proof -
    have "data (ow' f)" using unmapsD(3) [OF b, of f] that(1) by (auto split: if_splits)
    then show ?thesis using unmapsD(4) [OF a _ that(2)] unmapsD(4) [OF b that] by simp
  qed
  have ptes: "pte (pmem u) d' v =
      (if d' = d \<and> v \<in> P \<union> Q \<and> present (pte (pmem s) d v) then 0 else pte (pmem s) d' v)"
    if "ow d' = Dir" "v < 1048576" for d' v
    using unmapsD(5) [OF a that] unmapsD(5) [OF b dir [OF that(1)] that(2)] by (auto split: if_splits)
  show ?thesis
    unfolding unmaps_def
  proof (intro conjI allI impI)
    show "kend u = kend s" "kdata u = kdata s" using unmapsD(1,2) [OF a] unmapsD(1,2) [OF b] by simp_all
    show "pde (pmem u) d' i = pde (pmem s) d' i" if "ow d' = Dir" "i < 1024" for d' i
      using unmapsD(6) [OF a that] unmapsD(6) [OF b dir [OF that(1)] that(2)] by simp
  qed (fact own bytes ptes)+
qed

lemma unmap_page:
  assumes ok: "mem_ok s ow" and d: "ow d = Dir" and v: "v < USER" and pr: "present (pte (pmem s) d v)"
  obtains t1 t ow' where "kfree (kv (fr (pte (pmem s) d v))) s = Some t1"
    "st (entry_addr (pmem s) d (pa v)) 0 t1 = Some t" "mem_ok t ow'" "unmaps d {v} s ow t ow'"
proof -
  let ?f = "fr (pte (pmem s) d v)"
  define ow' where "ow' = ow(?f := Free)"
  have v2: "v < 1048576" using v by simp
  note fo = mem_okD(1) [OF ok] and sp = mem_okD(2) [OF ok]
  have f: "ow ?f = Page d v" by (rule space_okD(3) [OF sp d v pr])
  have nf: "ow ?f \<noteq> Free" using f by simp
  have rf: "ram_frame s ?f" using free_okD(1) [OF fo, of ?f] f by simp
  obtain t1 where t1: "kfree (kv ?f) s = Some t1" "free_ok t1 ow'" "agree {?f} (pmem s) (pmem t1)"
    "kend t1 = kend s" "kdata t1 = kdata s"
    using kfree_ok [OF fo nf rf] unfolding ow'_def by metis
  have F: "\<forall>g \<in> {?f}. ow g \<noteq> Dir \<and> (\<forall>d i. ow g \<noteq> Table d i)" using f by simp
  note A = space_agree [OF sp t1(3) F]
  have pd: "present (pde (pmem s) d (v div 1024))" using pr by (auto simp: pte_def split: if_splits)
  have pdt: "pde (pmem t1) d (v div 1024) = pde (pmem s) d (v div 1024)" by (rule A(3) [OF d div1024 [OF v2]])
  have less: "fr (pde (pmem s) d (v div 1024)) < FRAMES" by (rule table_less [OF ok d v2 pd])
  have ea: "entry_addr (pmem s) d (pa v) = entry_addr (pmem t1) d (pa v)" using v2 pdt by (simp add: entry_addr_def)
  define t where "t = t1\<lparr>pmem := store32 (pmem t1) (4096 * fr (pde (pmem t1) d (v div 1024)) + 4 * (v mod 1024)) 0\<rparr>"
  have mt: "pmem t = store32 (pmem t1) (4096 * fr (pde (pmem t1) d (v div 1024)) + 4 * (v mod 1024)) 0"
    by (simp add: t_def)
  have st_t: "st (entry_addr (pmem s) d (pa v)) 0 t1 = Some t"
    unfolding ea t_def using st_entry [of t1 d "pa v" 0] less v2 by (simp add: pdt)
  have pd1: "present (pde (pmem t1) d (v div 1024))" using pd pdt by simp
  note S = store_entry [OF A(1) d v2 pd1 mt]
  have uniq: "ow g = Page d v \<longleftrightarrow> g = ?f" for g using space_okD(4) [OF sp, of g d v] f by auto
  have new: "ow' g = Page d v \<longleftrightarrow> v < USER \<and> present 0 \<and> fr 0 = g" for g
    using uniq by (simp add: ow'_def)
  have moved: "ow g \<in> {Free, Taken, Page d v} \<and> ow' g \<in> {Free, Taken, Page d v}" if "ow' g \<noteq> ow g" for g
    using that f by (auto simp: ow'_def split: if_splits)
  have spt: "space_ok (pmem t) ow'" by (rule store_entry_space [OF A(1) d v2 pd1 mt new moved])
  have tab: "ow (fr (pde (pmem t1) d (v div 1024))) = Table d (v div 1024)" by (rule table_frame [OF A(1) d v2 pd1])
  have tf: "fr (pde (pmem t1) d (v div 1024)) \<noteq> ?f" using tab f by auto
  have ag: "agree {fr (pde (pmem t1) d (v div 1024))} (pmem t1) (pmem t)" unfolding mt by (rule agree_store) simp
  have fot: "free_ok t ow'" by (rule free_agree [OF t1(2) ag]) (use tab tf in \<open>simp_all add: t_def ow'_def\<close>)
  have "unmaps d {v} s ow t ow'"
    unfolding unmaps_def
  proof (intro conjI allI impI)
    show "kend t = kend s" "kdata t = kdata s" using t1(4,5) by (simp_all add: t_def)
    show "ow' g = (if \<exists>v \<in> {v}. ow g = Page d v then Free else ow g)" for g using uniq by (auto simp: ow'_def)
    show "pmem t (4096 * g + k) = pmem s (4096 * g + k)" if "data (ow' g)" "k < 4096" for g k
    proof -
      have "g \<noteq> ?f" "g \<noteq> fr (pde (pmem t1) d (v div 1024))" using that(1) tab tf by (auto simp: ow'_def split: if_splits)
      then show ?thesis using agreeD [OF ag _ that(2), of g] agreeD [OF t1(3) _ that(2), of g] by simp
    qed
    show "pte (pmem t) d' w = (if d' = d \<and> w \<in> {v} \<and> present (pte (pmem s) d w) then 0 else pte (pmem s) d' w)"
      if "ow d' = Dir" "w < 1048576" for d' w
      using S(2) [OF that] A(2) [OF that] pr by auto
    show "pde (pmem t) d' i = pde (pmem s) d' i" if "ow d' = Dir" "i < 1024" for d' i
      using S(1) [OF that] A(3) [OF that] by simp
  qed
  moreover have "mem_ok t ow'" using spt fot by (simp add: mem_ok_def)
  ultimately show thesis using that t1(1) st_t by blast
qed

lemma pa_Suc: "pa u + 4096 = pa (Suc u)"
  by (simp add: pa_def)

lemma PDX_pa: "u < 1048576 \<Longrightarrow> PDX (pa u) = word_of_nat (u div 1024)"
  by (rule word_unat_eq_iff [THEN iffD2]) (simp add: unat_PDX unat_of_nat take_bit_nat_eq_self)

text \<open>The jump over a whole table.\<close>

lemma next_table:
  assumes "u < 1048576"
  shows "PGADDR (PDX (pa u) + 1) 0 0 - PGSIZE + PGSIZE = pa (1024 * (u div 1024 + 1))"
proof -
  have "PDX (pa u) + 1 = word_of_nat (u div 1024 + 1)" by (simp only: PDX_pa [OF assms] of_nat_add of_nat_1)
  then have "PGADDR (PDX (pa u) + 1) 0 0 = word_of_nat (u div 1024 + 1) * 4194304"
    by (simp only: PGADDR_def push_bit_eq_mult) simp
  also have "\<dots> = pa (1024 * (u div 1024 + 1))"
    by (simp only: pa_def of_nat_mult of_nat_numeral) (simp add: ac_simps)
  finally show ?thesis by simp
qed

lemma pa_less: "u < 1048576 \<Longrightarrow> pa u < n \<longleftrightarrow> 4096 * u < unat n"
  by (simp add: word_less_nat_alt)

lemma ld_same_frame: "agree {f} (pmem s) (pmem t) \<Longrightarrow> g \<noteq> f \<Longrightarrow> i \<le> 4092 \<Longrightarrow>
    load32 (pmem t) (4096 * g + i) = load32 (pmem s) (4096 * g + i)"
  by (simp add: load_agree)

abbreviation pages :: "nat \<Rightarrow> u32 \<Rightarrow> nat set" where
  "pages u n \<equiv> {v. u \<le> v \<and> 4096 * v < unat n}"

lemma dealloc_loop_ok:
  assumes "mem_ok s ow" "ow d = Dir" "unat n \<le> 2147483648" "u \<le> USER"
  shows "\<exists>t ow'. dealloc_loop (kv d) n (pa u) s = Some t \<and> mem_ok t ow' \<and> unmaps d (pages u n) s ow t ow'"
  using assms
proof (induction "USER - u" arbitrary: u s ow rule: less_induct)
  case less
  note ok = less.prems(1) and d = less.prems(2) and n = less.prems(3)
  have dl: "d < FRAMES" by (rule dir_frame [OF ok d])
  have u2: "u < 1048576" using less.prems(4) by simp
  note sp = mem_okD(2) [OF ok]
  show ?case
  proof (cases "4096 * u < unat n")
    case False
    then have "dealloc_loop (kv d) n (pa u) s = Some s" using u2 by (simp add: dealloc_loop.simps pa_less)
    moreover have "pages u n = {}" using False by auto
    ultimately show ?thesis using ok unmaps_nothing [OF sp, of "pages u n" d] by auto
  next
    case True
    then have uU: "u < USER" using n by linarith
    have lt: "pa u < n" using True u2 by (simp add: pa_less)
    note wk = walk_find [OF dl, of "pa u" s, unfolded vpn_pa [OF u2]]
    show ?thesis
    proof (cases "present (pde (pmem s) d (u div 1024))")
      case False
      define w where "w = 1024 * (u div 1024 + 1)"
      have uw: "u < w" using dividend_less_times_div [of 1024 u] by (simp add: w_def)
      have "u div 1024 < 512" using uU by simp
      then have wU: "w \<le> USER" by (simp add: w_def)
      have none: "\<forall>v \<in> pages u n - pages w n. \<not> present (pte (pmem s) d v)"
      proof
        fix v assume "v \<in> pages u n - pages w n"
        then have "u \<le> v" "v < w" by auto
        moreover have "1024 * (u div 1024) \<le> u" by simp
        ultimately have "v div 1024 = u div 1024" by (intro div_nat_eqI) (simp_all add: w_def)
        then show "\<not> present (pte (pmem s) d v)" using False by (simp add: pte_def)
      qed
      have "USER - w < USER - u" using uw uU by simp
      from less.hyps [OF this ok d n wU]
      obtain t ow' where t: "dealloc_loop (kv d) n (pa w) s = Some t" "mem_ok t ow'" "unmaps d (pages w n) s ow t ow'"
        by blast
      have "dealloc_loop (kv d) n (pa u) s = Some t"
        using lt wk False t(1) next_table [OF u2] by (subst dealloc_loop.simps) (simp add: w_def)
      moreover have "pages u n - pages w n \<union> pages w n = pages u n" using uw by auto
      ultimately show ?thesis using unmaps_trans [OF unmaps_nothing [OF sp none] t(3)] t(2) by auto
    next
      case pd: True
      let ?x = "entry_addr (pmem s) d (pa u)"
      have less_f: "fr (pde (pmem s) d (u div 1024)) < FRAMES" by (rule table_less [OF ok d u2 pd])
      have x: "?x \<noteq> 0" using entry_addr_nz [of "pmem s" d "pa u"] less_f u2 by simp
      have ldx: "ld ?x s = Some (pte (pmem s) d u)" using ld_entry [of s d "pa u"] pd less_f u2 by simp
      have dec: "USER - Suc u < USER - u" and sU: "Suc u \<le> USER" using uU by simp_all
      have split: "pages u n = {u} \<union> pages (Suc u) n" using True by auto
      show ?thesis
      proof (cases "present (pte (pmem s) d u)")
        case False
        obtain t ow' where t: "dealloc_loop (kv d) n (pa (Suc u)) s = Some t" "mem_ok t ow'" "unmaps d (pages (Suc u) n) s ow t ow'"
          using less.hyps [OF dec ok d n sU] by blast
        have "dealloc_loop (kv d) n (pa u) s = Some t"
          using lt wk pd False x ldx t(1) by (subst dealloc_loop.simps) (simp add: pa_Suc)
        moreover have "unmaps d {u} s ow s ow" using unmaps_nothing [OF sp, of "{u}" d] False by simp
        ultimately show ?thesis using unmaps_trans [OF _ t(3), of "{u}" s ow] t(2) unfolding split by blast
      next
        case pr: True
        let ?f = "fr (pte (pmem s) d u)"
        obtain t1 s2 ow2 where s2: "kfree (kv ?f) s = Some t1" "st ?x 0 t1 = Some s2" "mem_ok s2 ow2" "unmaps d {u} s ow s2 ow2"
          using unmap_page [OF ok d uU pr] by metis
        have d2: "ow2 d = Dir" using unmapsD(3) [OF s2(4), of d] d by simp
        obtain t ow' where t: "dealloc_loop (kv d) n (pa (Suc u)) s2 = Some t" "mem_ok t ow'" "unmaps d (pages (Suc u) n) s2 ow2 t ow'"
          using less.hyps [OF dec s2(3) d2 n sU] by blast
        have "ow ?f = Page d u" by (rule space_okD(3) [OF sp d uU pr])
        then have "?f \<noteq> 0"
          using frame_nz [of s ?f] free_okD(1) [OF mem_okD(1) [OF ok], of ?f] free_okD(3) [OF mem_okD(1) [OF ok]] by simp
        then have "dealloc_loop (kv d) n (pa u) s = Some t"
          using lt wk pd pr x ldx t(1) s2(1,2) by (subst dealloc_loop.simps) (simp add: pa_Suc ADDR_zero)
        then show ?thesis using unmaps_trans [OF s2(4) t(3)] t(2) split by auto
      qed
    qed
  qed
qed

definition up :: "u32 \<Rightarrow> nat" where "up n = (unat n + 4095) div 4096"

lemma ROUNDUP_up: "unat n \<le> 4294963200 \<Longrightarrow> PGROUNDUP n = pa (up n)"
proof -
  assume n: "unat n \<le> 4294963200"
  have "unat (4095 + n) = unat n + 4095" using n by (subst unat_word_ariths) simp
  then have "vpn (4095 + n) = up n" by (simp add: vpn_def up_def)
  then show ?thesis using ROUNDDOWN_vpn [of "4095 + n"] by (simp add: PGROUNDUP_def PGROUNDDOWN_def)
qed

lemma up_le: "unat n \<le> 2147483648 \<Longrightarrow> up n \<le> USER"
proof -
  assume "unat n \<le> 2147483648"
  then have "unat n + 4095 < 4096 * 524289" by simp
  then have "(unat n + 4095) div 4096 < 524289" by (simp only: less_mult_imp_div_less mult.commute)
  then show ?thesis by (simp add: up_def)
qed

lemma up_iff: "v < up n \<longleftrightarrow> 4096 * v < unat n"
proof -
  have "v < up n \<longleftrightarrow> \<not> (unat n + 4095) div 4096 < Suc v" by (auto simp: up_def)
  also have "\<dots> \<longleftrightarrow> \<not> unat n + 4095 < Suc v * 4096" by (simp add: div_less_iff_less_mult)
  finally show ?thesis by auto
qed

lemma deallocuvm_ok:
  assumes ok: "mem_ok s ow" and d: "ow d = Dir" and old: "unat old \<le> 2147483648" and le: "new < old"
  shows "\<exists>t ow'. deallocuvm (kv d) old new s = Some (new, t) \<and> mem_ok t ow' \<and> unmaps d (pages (up new) old) s ow t ow'"
proof -
  have n: "unat new \<le> 2147483648" using old le by (simp add: word_less_nat_alt)
  obtain t ow' where t: "dealloc_loop (kv d) old (pa (up new)) s = Some t" "mem_ok t ow'"
    "unmaps d (pages (up new) old) s ow t ow'"
    using dealloc_loop_ok [OF ok d old up_le [OF n]] by blast
  have "deallocuvm (kv d) old new s = Some (new, t)"
    using t(1) n ROUNDUP_up [of new] unfolding deallocuvm_def if_not_P [OF linorder_not_le [THEN iffD2, OF le]] by simp
  with t show ?thesis by blast
qed

section \<open>Growing a space\<close>

text \<open>An address space as a map from pages to entries.\<close>

definition lookup :: "bytes \<Rightarrow> nat \<Rightarrow> nat \<Rightarrow> u32 option" where
  "lookup m d v = (if present (pte m d v) then Some (pte m d v) else None)"

definition zero_frame :: "vm \<Rightarrow> nat \<Rightarrow> bool" where
  "zero_frame s f \<longleftrightarrow> (\<forall>k < 4096. pmem s (4096 * f + k) = 0)"

text \<open>Since \<open>s0\<close>, the pages \<open>P\<close> of \<open>d\<close> have become zero pages, in frames that were free.\<close>

definition filled :: "nat \<Rightarrow> nat set \<Rightarrow> vm \<Rightarrow> owners \<Rightarrow> vm \<Rightarrow> owners \<Rightarrow> bool" where
  "filled d P s0 ow0 s ow \<longleftrightarrow> grows d s0 ow0 s ow \<and>
     (\<forall>v < 1048576. v \<notin> P \<longrightarrow> lookup (pmem s) d v = lookup (pmem s0) d v) \<and>
     (\<forall>v \<in> P. \<exists>f. lookup (pmem s) d v = Some (pa f OR 7) \<and> f < FRAMES \<and> ow0 f = Free \<and> zero_frame s f)"

lemma filledD:
  assumes "filled d P s0 ow0 s ow"
  shows "grows d s0 ow0 s ow" "v < 1048576 \<Longrightarrow> v \<notin> P \<Longrightarrow> lookup (pmem s) d v = lookup (pmem s0) d v"
    and "v \<in> P \<Longrightarrow> \<exists>f. lookup (pmem s) d v = Some (pa f OR 7) \<and> f < FRAMES \<and> ow0 f = Free \<and> zero_frame s f"
  using assms unfolding filled_def by blast+

lemma lookup_present: "lookup m d v = None \<longleftrightarrow> \<not> present (pte m d v)" "lookup m d v = Some e \<longleftrightarrow> present (pte m d v) \<and> pte m d v = e"
  by (auto simp: lookup_def)

lemma present_7 [simp]: "present (x OR 7)" and present_1 [simp]: "present (x OR (perm OR 1))"
  by (simp_all only: present_or) simp_all

lemma filled_nothing: "filled d {} s ow s ow"
  by (simp add: filled_def grows_refl)

text \<open>A frame taken off the free list and filled, still mapped nowhere.\<close>

definition taken :: "nat \<Rightarrow> vm \<Rightarrow> owners \<Rightarrow> vm \<Rightarrow> bool" where
  "taken f s ow t \<longleftrightarrow> ow f = Free \<and> ram_frame s f \<and> mem_ok t (ow(f := Taken)) \<and> agree {f} (pmem s) (pmem t) \<and>
     kend t = kend s \<and> kdata t = kdata s \<and>
     (\<forall>d v. ow d = Dir \<longrightarrow> v < 1048576 \<longrightarrow> pte (pmem t) d v = pte (pmem s) d v)"

lemma takenD:
  assumes "taken f s ow t"
  shows "ow f = Free" "ram_frame s f" "mem_ok t (ow(f := Taken))" "agree {f} (pmem s) (pmem t)"
    "kend t = kend s" "kdata t = kdata s"
    "ow d = Dir \<Longrightarrow> v < 1048576 \<Longrightarrow> pte (pmem t) d v = pte (pmem s) d v"
    "f < FRAMES" "ram_frame t f"
  using assms by (simp_all add: taken_def ram_frame_def)

lemma take_frame:
  assumes ok: "mem_ok s ow"
  obtains (none) "kalloc s = Some (0, s)" "\<And>f. ow f \<noteq> Free"
    | (frame) f s1 where "kalloc s = Some (kv f, s1)" "kv f \<noteq> 0" "f < FRAMES" "pmem s1 = pmem s"
        "\<And>src j. taken f s ow (s1\<lparr>pmem := memmove (pmem s) (4096 * f) src j 4096\<rparr>)"
  using mem_okD(1) [OF ok]
proof (cases rule: kalloc_cases)
  case none
  then show thesis by (rule that(1))
next
  case (frame f s1)
  note sp = mem_okD(2) [OF ok]
  have sp1: "space_ok (pmem s) (ow(f := Taken))" by (rule space_retake [OF sp]) (use frame(2) in simp_all)
  have "taken f s ow (s1\<lparr>pmem := memmove (pmem s) (4096 * f) src j 4096\<rparr>)" for src j
  proof -
    let ?t = "s1\<lparr>pmem := memmove (pmem s) (4096 * f) src j 4096\<rparr>"
    have ag: "agree {f} (pmem s) (pmem ?t)" using agree_put [of 4096 f "pmem s" src j] by simp
    have F: "\<forall>g \<in> {f}. (ow(f := Taken)) g \<noteq> Dir \<and> (\<forall>d i. (ow(f := Taken)) g \<noteq> Table d i)" by simp
    note A = space_agree [OF sp1 ag F]
    have "free_ok ?t (ow(f := Taken))"
      by (rule free_agree [OF frame(5), of "{f}"]) (use ag frame(6) in simp_all)
    moreover have "pte (pmem ?t) d v = pte (pmem s) d v" if "ow d = Dir" "v < 1048576" for d v
      using A(2) [of d v] that frame(2) by (cases "d = f") simp_all
    moreover have "space_ok (pmem ?t) (ow(f := Taken))" by (rule space_agree(1) [OF sp1 ag F])
    ultimately show ?thesis
      using frame(2,3,7,8) ag unfolding taken_def mem_ok_def by simp
  qed
  moreover have "f < FRAMES" using frame(3) by (simp add: ram_frame_def)
  ultimately show thesis using that(2) frame(1,4,6) by blast
qed

lemma grows_new_page:
  assumes tk: "taken f s ow s2" and gr: "grows d s2 (ow(f := Taken)) t ow1"
  shows "grows d s ow t (ow1(f := Page d v))"
  unfolding grows_def
proof (intro conjI allI impI)
  show "kend t = kend s" "kdata t = kdata s" using growsD(1,2) [OF gr] takenD(5,6) [OF tk] by simp_all
  show "(ow1(f := Page d v)) g = ow g" if "ow g \<noteq> Free" for g
    using growsD(3) [OF gr, of g] that takenD(1) [OF tk] by (cases "g = f") simp_all
  show "(ow1(f := Page d v)) g = Free \<or> belongs d ((ow1(f := Page d v)) g)" if "ow g = Free" for g
    using growsD(4) [OF gr, of g] that by (cases "g = f") simp_all
  show "pmem t (4096 * g + k) = pmem s (4096 * g + k)" if "data (ow g)" "k < 4096" for g k
  proof -
    have "g \<noteq> f" using that(1) takenD(1) [OF tk] by auto
    then show ?thesis
      using growsD(5) [OF gr, of g k] agreeD [OF takenD(4) [OF tk] _ that(2), of g] that by simp
  qed
  show "pte (pmem t) d' w = pte (pmem s) d' w" if "d' \<noteq> d" "ow d' = Dir" "w < 1048576" for d' w
    using growsD(6) [OF gr that(1), of w] takenD(7) [OF tk that(2,3)] takenD(1) [OF tk] that
    by (cases "d' = f") simp_all
qed

text \<open>Mapping a frame that was taken at a user page.\<close>

lemma map_taken:
  assumes tk: "taken f s ow s2" and d: "ow d = Dir" and v: "v < USER" and np: "\<not> present (pte (pmem s) d v)"
    and perm: "PTE_ADDR perm = 0"
  obtains (none) "mappages (kv d) (pa v) 4096 (pa f) perm s2 = Some (-1, s2)" "\<And>g. g \<noteq> f \<Longrightarrow> ow g \<noteq> Free"
    | (mapped) t ow' where "mappages (kv d) (pa v) 4096 (pa f) perm s2 = Some (0, t)" "mem_ok t ow'"
        "grows d s ow t ow'" "ow' f = Page d v"
        "\<And>v'. v' < 1048576 \<Longrightarrow> pte (pmem t) d v' = (if v' = v then pa f OR (perm OR 1) else pte (pmem s) d v')"
        "\<And>k. k < 4096 \<Longrightarrow> pmem t (4096 * f + k) = pmem s2 (4096 * f + k)"
proof -
  have df: "d \<noteq> f" using d takenD(1) [OF tk] by auto
  have d2: "(ow(f := Taken)) d = Dir" using d df by simp
  have v2: "v < 1048576" using v by simp
  have np2: "\<not> present (pte (pmem s2) d v)" using np takenD(7) [OF tk d v2] by simp
  have f2: "(ow(f := Taken)) f = Taken" by simp
  from takenD(3) [OF tk] d2 v np2 f2 takenD(9) [OF tk] perm show thesis
  proof (cases rule: map_page)
    case none
    have "ow g \<noteq> Free" if "g \<noteq> f" for g using none(2) [of g] that by simp
    with none(1) show thesis by (rule that(1))
  next
    case (mapped t ow1)
    have g: "grows d s ow t (ow1(f := Page d v))" by (rule grows_new_page [OF tk mapped(2)])
    have p: "pte (pmem t) d v' = (if v' = v then pa f OR (perm OR 1) else pte (pmem s) d v')" if "v' < 1048576" for v'
      using mapped(5) [OF that] takenD(7) [OF tk d that] by simp
    have b: "pmem t (4096 * f + k) = pmem s2 (4096 * f + k)" if "k < 4096" for k
      using growsD(5) [OF mapped(2), of f k] that by simp
    show thesis by (rule that(2) [OF mapped(1,4) g _ p b]) simp_all
  qed
qed

text \<open>Freeing a frame that is mapped nowhere.\<close>

lemma kfree_taken:
  assumes ok: "mem_ok s ow" and f: "ow f = Taken" "ram_frame s f"
  obtains t where "kfree (kv f) s = Some t" "mem_ok t (ow(f := Free))" "agree {f} (pmem s) (pmem t)"
    "kend t = kend s" "kdata t = kdata s"
    "\<And>d v. ow d = Dir \<Longrightarrow> v < 1048576 \<Longrightarrow> pte (pmem t) d v = pte (pmem s) d v"
    "\<And>d i. ow d = Dir \<Longrightarrow> i < 1024 \<Longrightarrow> pde (pmem t) d i = pde (pmem s) d i"
proof -
  have nf: "ow f \<noteq> Free" using f by simp
  obtain t where t: "kfree (kv f) s = Some t" "free_ok t (ow(f := Free))" "agree {f} (pmem s) (pmem t)"
    "kend t = kend s" "kdata t = kdata s"
    using kfree_ok [OF mem_okD(1) [OF ok] nf f(2)] by metis
  have F: "\<forall>g \<in> {f}. ow g \<noteq> Dir \<and> (\<forall>d i. ow g \<noteq> Table d i)" using f by simp
  note A = space_agree [OF mem_okD(2) [OF ok] t(3) F]
  have "space_ok (pmem t) (ow(f := Free))" by (rule space_retake [OF A(1)]) (use f in simp_all)
  then have "mem_ok t (ow(f := Free))" using t(2) by (simp add: mem_ok_def)
  from that [OF t(1) this t(3-5) A(2,3)] show thesis .
qed

text \<open>Giving up after a frame was taken: unmapping the pages and freeing the frame undoes both.\<close>

lemma unmaps_taken:
  assumes tk: "taken f s ow s2" and un: "unmaps d Q s2 (ow(f := Taken)) t ow'" and ok: "mem_ok t ow'"
  obtains t2 where "kfree (kv f) t = Some t2" "mem_ok t2 (ow'(f := Free))" "unmaps d Q s ow t2 (ow'(f := Free))"
proof -
  have f': "ow' f = Taken" using unmapsD(3) [OF un, of f] by simp
  have rf: "ram_frame t f" using takenD(2,5) [OF tk] unmapsD(1) [OF un] by (simp add: ram_frame_def)
  obtain t2 where t2: "kfree (kv f) t = Some t2" "mem_ok t2 (ow'(f := Free))" "agree {f} (pmem t) (pmem t2)"
    "kend t2 = kend t" "kdata t2 = kdata t"
    "\<And>d v. ow' d = Dir \<Longrightarrow> v < 1048576 \<Longrightarrow> pte (pmem t2) d v = pte (pmem t) d v"
    "\<And>d i. ow' d = Dir \<Longrightarrow> i < 1024 \<Longrightarrow> pde (pmem t2) d i = pde (pmem t) d i"
    using kfree_taken [OF ok f' rf] by metis
  have ff: "ow f = Free" by (rule takenD(1) [OF tk])
  have dir: "(ow(f := Taken)) d' = Dir" "ow' d' = Dir" "d' \<noteq> f" if "ow d' = Dir" for d'
    using that ff unmapsD(3) [OF un, of d'] by (cases "d' = f"; simp)+
  have "unmaps d Q s ow t2 (ow'(f := Free))"
    unfolding unmaps_def
  proof (intro conjI allI impI)
    show "kend t2 = kend s" "kdata t2 = kdata s"
      using t2(4,5) unmapsD(1,2) [OF un] takenD(5,6) [OF tk] by simp_all
    show "(ow'(f := Free)) g = (if \<exists>v \<in> Q. ow g = Page d v then Free else ow g)" for g
      using unmapsD(3) [OF un, of g] ff by (cases "g = f") simp_all
    show "pmem t2 (4096 * g + k) = pmem s (4096 * g + k)" if "data ((ow'(f := Free)) g)" "k < 4096" for g k
    proof -
      have g: "g \<noteq> f" "data (ow' g)" using that(1) by (cases "g = f"; simp)+
      then show ?thesis
        using agreeD [OF t2(3) _ that(2), of g] unmapsD(4) [OF un _ that(2), of g]
          agreeD [OF takenD(4) [OF tk] _ that(2), of g] by simp
    qed
    show "pte (pmem t2) d' v = (if d' = d \<and> v \<in> Q \<and> present (pte (pmem s) d v) then 0 else pte (pmem s) d' v)"
      if "ow d' = Dir" "v < 1048576" for d' v
      using t2(6) [OF dir(2) [OF that(1)] that(2)] unmapsD(5) [OF un dir(1) [OF that(1)] that(2)]
        takenD(7) [OF tk that] by auto
    show "pde (pmem t2) d' i = pde (pmem s) d' i" if "ow d' = Dir" "i < 1024" for d' i
      using t2(7) [OF dir(2) [OF that(1)] that(2)] unmapsD(6) [OF un dir(1) [OF that(1)] that(2)]
        pde_agree [OF takenD(4) [OF tk] _ that(2), of d'] dir(3) [OF that(1)] by simp
  qed
  with t2(1,2) show thesis by (rule that)
qed

text \<open>What is left when the growth of a space is undone: at most some empty tables.\<close>

lemma unfilled:
  assumes ok: "mem_ok s0 ow0" and d: "ow0 d = Dir" and np: "\<forall>v \<in> Q. lookup (pmem s0) d v = None"
    and fl: "filled d P s0 ow0 s ow" and PQ: "P \<subseteq> Q" and un: "unmaps d Q s ow t ow'"
  shows "grows d s0 ow0 t ow'" "v < 1048576 \<Longrightarrow> lookup (pmem t) d v = lookup (pmem s0) d v"
proof -
  note gr = filledD(1) [OF fl]
  have keep: "ow' g = ow0 g" if "ow0 g \<noteq> Free" for g
  proof -
    have "ow g = ow0 g" by (rule growsD(3) [OF gr that])
    moreover have "\<not> (\<exists>v \<in> Q. ow0 g = Page d v)"
      using space_okD(4) [OF mem_okD(2) [OF ok], of g d] np unfolding lookup_present by blast
    ultimately show ?thesis using unmapsD(3) [OF un, of g] by simp
  qed
  have ds: "ow d = Dir" using growsD(3) [OF gr, of d] d by simp
  show "grows d s0 ow0 t ow'"
    unfolding grows_def
  proof (intro conjI allI impI)
    show "kend t = kend s0" "kdata t = kdata s0" using growsD(1,2) [OF gr] unmapsD(1,2) [OF un] by simp_all
    show "ow' g = ow0 g" if "ow0 g \<noteq> Free" for g by (rule keep [OF that])
    show "ow' g = Free \<or> belongs d (ow' g)" if "ow0 g = Free" for g
      using growsD(4) [OF gr that] unmapsD(3) [OF un, of g] by auto
    show "pmem t (4096 * g + k) = pmem s0 (4096 * g + k)" if "data (ow0 g)" "k < 4096" for g k
    proof -
      have "ow0 g \<noteq> Free" using that(1) by auto
      then have "data (ow' g)" using keep that(1) by simp
      from unmapsD(4) [OF un this that(2)] growsD(5) [OF gr that] show ?thesis by simp
    qed
    show "pte (pmem t) d' w = pte (pmem s0) d' w" if "d' \<noteq> d" "ow0 d' = Dir" "w < 1048576" for d' w
      using growsD(6) [OF gr that] unmapsD(5) [OF un _ that(3), of d'] growsD(3) [OF gr, of d'] that by simp
  qed
  show "lookup (pmem t) d v = lookup (pmem s0) d v" if v: "v < 1048576"
  proof (cases "v \<in> Q")
    case True
    then show ?thesis using unmapsD(5) [OF un ds v] np by (auto simp: lookup_def)
  next
    case False
    then have "lookup (pmem t) d v = lookup (pmem s) d v" using unmapsD(5) [OF un ds v] by (simp add: lookup_def)
    then show ?thesis using filledD(2) [OF fl v] False PQ by auto
  qed
qed

lemma filled_more:
  assumes fl: "filled d P s0 ow0 s ow" and ok: "mem_ok s ow" and d: "ow d = Dir"
    and P: "\<forall>v \<in> P. v < u" and u: "u < USER" and f: "ow f = Free" "f < FRAMES"
    and gr: "grows d s ow t ow'" and pt: "\<And>v. v < 1048576 \<Longrightarrow> pte (pmem t) d v = (if v = u then pa f OR 7 else pte (pmem s) d v)"
    and z: "zero_frame t f"
  shows "filled d (P \<union> {u}) s0 ow0 t ow'"
  unfolding filled_def
proof (intro conjI allI impI ballI)
  note g0 = filledD(1) [OF fl]
  show "grows d s0 ow0 t ow'" by (rule grows_trans [OF g0 gr])
  show "lookup (pmem t) d v = lookup (pmem s0) d v" if "v < 1048576" "v \<notin> P \<union> {u}" for v
  proof -
    have "lookup (pmem t) d v = lookup (pmem s) d v" using pt [OF that(1)] that(2) by (simp add: lookup_def)
    then show ?thesis using filledD(2) [OF fl that(1)] that(2) by simp
  qed
  show "\<exists>f. lookup (pmem t) d v = Some (pa f OR 7) \<and> f < FRAMES \<and> ow0 f = Free \<and> zero_frame t f"
    if v: "v \<in> P \<union> {u}" for v
  proof (cases "v = u")
    case True
    have "ow0 f = Free" using growsD(3) [OF g0, of f] f by auto
    then show ?thesis using pt [of v] True u f z by (auto simp: lookup_def present_bit bit_simps)
  next
    case False
    with v have vP: "v \<in> P" by simp
    obtain h where h: "lookup (pmem s) d v = Some (pa h OR 7)" "h < FRAMES" "ow0 h = Free" "zero_frame s h"
      using filledD(3) [OF fl vP] by blast
    have vU: "v < USER" using P vP u by force
    have "fr (pte (pmem s) d v) = h" "present (pte (pmem s) d v)"
      using h(1,2) fr_or [of h 7] by (simp_all add: lookup_present PTE_ADDR_def)
    then have "ow h = Page d v" using space_okD(3) [OF mem_okD(2) [OF ok] d vU] by simp
    then have "zero_frame t h" using h(4) growsD(5) [OF gr, of h] by (simp add: zero_frame_def)
    moreover have "lookup (pmem t) d v = lookup (pmem s) d v" using pt [of v] vU False by (simp add: lookup_def)
    ultimately show ?thesis using h by auto
  qed
qed

text \<open>
  How much memory is enough: a space has at most 1024 tables, so when it has used up the free
  frames, all but 1025 of them (a directory's worth of tables, and one in hand) are new pages.
\<close>

definition nfree :: "owners \<Rightarrow> nat" where "nfree ow = card {f. ow f = Free}"

lemma used_up:
  assumes g: "grows d s ow t ow'" and ok: "mem_ok t ow'" and last_one: "\<And>f. f \<noteq> x \<Longrightarrow> ow' f \<noteq> Free"
    and new: "\<And>f v. ow f = Free \<Longrightarrow> ow' f = Page d v \<Longrightarrow> f \<in> h ` V" and V: "finite V"
  shows "nfree ow \<le> 1025 + card V"
proof -
  let ?T = "(\<lambda>i. fr (pde (pmem t) d i)) ` {..<1024}"
  have "{f. ow f = Free} \<subseteq> {x} \<union> ?T \<union> h ` V"
  proof
    fix f assume f: "f \<in> {f. ow f = Free}"
    show "f \<in> {x} \<union> ?T \<union> h ` V"
    proof (cases "f = x")
      case False
      with f have b: "belongs d (ow' f)" using growsD(4) [OF g, of f] last_one [of f] by auto
      show ?thesis
      proof (cases "ow' f")
        case (Table d' i)
        then have "ow' f = Table d i" using b by simp
        from space_okD(2) [OF mem_okD(2) [OF ok] this] show ?thesis by force
      next
        case (Page d' v)
        then show ?thesis using b f new [of f v] by simp
      qed (use b in simp_all)
    qed simp
  qed
  then have "card {f. ow f = Free} \<le> card ({x} \<union> ?T \<union> h ` V)" by (rule card_mono [rotated]) (use V in simp)
  also have "\<dots> \<le> 1 + card ?T + card (h ` V)"
    by (rule order_trans [OF card_Un_le]) (use card_Un_le [of "{x}" ?T] in simp)
  also have "\<dots> \<le> 1 + 1024 + card V"
    using card_image_le [of "{..<1024 :: nat}" "\<lambda>i. fr (pde (pmem t) d i)"] card_image_le [OF V, of h] by simp
  finally show ?thesis by (simp add: nfree_def)
qed

lemma filled_short:
  assumes fl: "filled d {u0..<u} s0 ow0 s ow" and ok: "mem_ok s ow" and none: "\<And>f. f \<noteq> x \<Longrightarrow> ow f \<noteq> Free"
    and ok0: "mem_ok s0 ow0" and d0: "ow0 d = Dir"
  shows "nfree ow0 \<le> 1025 + (u - u0)"
proof -
  have "f \<in> (\<lambda>v. fr (pte (pmem s) d v)) ` {u0..<u}" if f: "ow0 f = Free" "ow f = Page d v" for f v
  proof (cases "v \<in> {u0..<u}")
    case True
    then show ?thesis using space_okD(4) [OF mem_okD(2) [OF ok] f(2)] by force
  next
    case False
    note p = space_okD(4) [OF mem_okD(2) [OF ok] f(2)]
    then have "lookup (pmem s) d v = Some (pte (pmem s) d v)" by (simp add: lookup_present)
    then have "lookup (pmem s0) d v = Some (pte (pmem s) d v)" using filledD(2) [OF fl _ False] p by simp
    then have "ow0 f = Page d v" using space_okD(3) [OF mem_okD(2) [OF ok0] d0, of v] p by (auto simp: lookup_present)
    then show ?thesis using f by simp
  qed
  from used_up [OF filledD(1) [OF fl] ok none this, of x] show ?thesis by simp
qed

lemma alloc_loop_ok:
  assumes ok0: "mem_ok s0 ow0" and d0: "ow0 d = Dir" and n: "unat n < 2147483648" and old: "old \<le> n"
    and np0: "\<forall>v \<in> pages (up old) n. lookup (pmem s0) d v = None"
    and "mem_ok s ow" "filled d {up old..<u} s0 ow0 s ow" "up old \<le> u" "u \<le> USER"
    and "{up old..<u} \<subseteq> pages (up old) n"
  shows "\<exists>r t ow'. alloc_loop (kv d) old n (pa u) s = Some (r, t) \<and> mem_ok t ow' \<and>
    (r = n \<and> filled d (pages (up old) n) s0 ow0 t ow' \<or>
     r = 0 \<and> grows d s0 ow0 t ow' \<and> (\<forall>v < 1048576. lookup (pmem t) d v = lookup (pmem s0) d v) \<and>
     nfree ow0 \<le> 1024 + card (pages (up old) n))"
  using assms(6-)
proof (induction "USER - u" arbitrary: u s ow rule: less_induct)
  case less
  note ok = less.prems(1) and fl = less.prems(2) and uu = less.prems(3,4) and sub = less.prems(5)
  let ?Q = "pages (up old) n"
  have d: "ow d = Dir" using growsD(3) [OF filledD(1) [OF fl], of d] d0 by simp
  have u2: "u < 1048576" using uu by simp
  have n': "unat n \<le> 2147483648" using n by simp
  show ?case
  proof (cases "4096 * u < unat n")
    case False
    then have "alloc_loop (kv d) old n (pa u) s = Some (n, s)" using u2 by (simp add: alloc_loop.simps pa_less)
    moreover have "{up old..<u} = ?Q" using sub False by auto
    ultimately show ?thesis using ok fl by auto
  next
    case True
    have uU: "u < USER" using True n by linarith
    have lt: "pa u < n" using True u2 by (simp add: pa_less)
    have "old < n"
    proof -
      have "up old < up n" using True uu(1) up_iff [of u n] by linarith
      then show ?thesis using old by (cases "old = n") auto
    qed
    note undo = deallocuvm_ok [OF _ _ n' this]
    have fin: "finite ?Q" by (rule finite_subset [of _ "{..<USER}"]) (use n in auto)
    have "{up old..<Suc u} \<subseteq> ?Q" using True by auto
    from card_mono [OF fin this] have cQ: "Suc (u - up old) \<le> card ?Q" using uu by simp
    have uQ: "u \<in> ?Q" using uu True by simp
    have "lookup (pmem s) d u = None" using filledD(2) [OF fl u2] np0 uQ by simp
    then have np: "\<not> present (pte (pmem s) d u)" by (simp add: lookup_present)
    from ok show ?thesis
    proof (cases rule: take_frame)
      case none
      obtain t ow' where t: "deallocuvm (kv d) n old s = Some (old, t)" "mem_ok t ow'" "unmaps d ?Q s ow t ow'"
        using undo [OF ok d] by blast
      have "alloc_loop (kv d) old n (pa u) s = Some (0, t)" using none(1) lt t(1) by (simp add: alloc_loop.simps)
      moreover have "nfree ow0 \<le> 1025 + (u - up old)" using filled_short [OF fl ok none(2) ok0 d0] by simp
      then have "nfree ow0 \<le> 1024 + card ?Q" using cQ by linarith
      ultimately show ?thesis using t(2) unfilled [OF ok0 d0 np0 fl sub t(3)] by blast
    next
      case (frame f s1)
      define s2 where "s2 = s1\<lparr>pmem := memmove (pmem s) (4096 * f) (\<lambda>_. 0) 0 4096\<rparr>"
      have tk: "taken f s ow s2" unfolding s2_def by (rule frame(5))
      have ms: "memset (kv f) 0 4096 s1 = Some s2" using frame(3,4) by (simp add: memset_def put_frame s2_def)
      have p6: "PTE_ADDR 6 = 0" by (simp add: PTE_ADDR_def)
      have head: "alloc_loop (kv d) old n (pa u) s = Option.bind (mappages (kv d) (pa u) 4096 (pa f) 6 s2) (\<lambda>r.
          if fst r < 0 then Option.bind (deallocuvm (kv d) n old (snd r)) (\<lambda>r. Option.bind (kfree (kv f) (snd r)) (\<lambda>s. Some (0, s)))
          else alloc_loop (kv d) old n (pa (Suc u)) (snd r))"
        using frame(1,2) lt ms by (subst alloc_loop.simps) (simp add: pa_Suc cong: if_cong)
      from tk d uU np p6 show ?thesis
      proof (cases rule: map_taken)
        case none
        have df: "(ow(f := Taken)) d = Dir" using d takenD(1) [OF tk] by (cases "d = f") simp_all
        obtain t ow' where t: "deallocuvm (kv d) n old s2 = Some (old, t)" "mem_ok t ow'" "unmaps d ?Q s2 (ow(f := Taken)) t ow'"
          using undo [OF takenD(3) [OF tk] df] by blast
        obtain t2 where t2: "kfree (kv f) t = Some t2" "mem_ok t2 (ow'(f := Free))" "unmaps d ?Q s ow t2 (ow'(f := Free))"
          using unmaps_taken [OF tk t(3,2)] by metis
        have "alloc_loop (kv d) old n (pa u) s = Some (0, t2)" using head none(1) t(1) t2(1) by simp
        moreover have "nfree ow0 \<le> 1025 + (u - up old)" using filled_short [OF fl ok none(2) ok0 d0] by simp
        then have "nfree ow0 \<le> 1024 + card ?Q" using cQ by linarith
        ultimately show ?thesis using t2(2) unfilled [OF ok0 d0 np0 fl sub t2(3)] by blast
      next
        case (mapped t ow')
        have z: "zero_frame t f" using mapped(6) by (simp add: zero_frame_def s2_def memmove_def)
        have P: "\<forall>v \<in> {up old..<u}. v < u" by simp
        have pt: "pte (pmem t) d v = (if v = u then pa f OR 7 else pte (pmem s) d v)" if "v < 1048576" for v
          using mapped(5) [OF that] by simp
        have fl': "filled d ({up old..<u} \<union> {u}) s0 ow0 t ow'"
          by (rule filled_more [OF fl ok d P uU takenD(1,8) [OF tk] mapped(3) pt z])
        have ins: "{up old..<u} \<union> {u} = {up old..<Suc u}" using uu by auto
        have "USER - Suc u < USER - u" "Suc u \<le> USER" using uU by simp_all
        moreover have "{up old..<Suc u} \<subseteq> ?Q" "up old \<le> Suc u" using sub uQ ins uu by auto
        ultimately obtain r t3 ow3 where t3: "alloc_loop (kv d) old n (pa (Suc u)) t = Some (r, t3)" "mem_ok t3 ow3"
          "r = n \<and> filled d ?Q s0 ow0 t3 ow3 \<or>
           r = 0 \<and> grows d s0 ow0 t3 ow3 \<and> (\<forall>v < 1048576. lookup (pmem t3) d v = lookup (pmem s0) d v) \<and>
           nfree ow0 \<le> 1024 + card ?Q"
          using less.hyps [of "Suc u" t ow'] mapped(2) fl'[unfolded ins] by blast
        have "alloc_loop (kv d) old n (pa u) s = Some (r, t3)" using head mapped(1) t3(1) by simp
        then show ?thesis using t3(2,3) by blast
      qed
    qed
  qed
qed

text \<open>\<open>allocuvm\<close> as a whole: it fills the pages between the sizes, or it changes no page.\<close>

lemma allocuvm_ok:
  assumes ok: "mem_ok s ow" and d: "ow d = Dir" and n: "new < KERNBASE" and old: "old \<le> new"
    and np: "\<forall>v \<in> pages (up old) new. lookup (pmem s) d v = None"
  shows "\<exists>r t ow'. allocuvm (kv d) old new s = Some (r, t) \<and> mem_ok t ow' \<and>
    (r = new \<and> filled d (pages (up old) new) s ow t ow' \<or>
     r = 0 \<and> grows d s ow t ow' \<and> (\<forall>v < 1048576. lookup (pmem t) d v = lookup (pmem s) d v) \<and>
     nfree ow \<le> 1024 + card (pages (up old) new))"
proof -
  have n': "unat new < 2147483648" using n by (simp add: word_less_nat_alt)
  have o': "unat old \<le> unat new" using old by (simp add: word_le_nat_alt)
  have u: "up old \<le> USER" by (rule up_le) (use n' o' in linarith)
  have "PGROUNDUP old = pa (up old)" by (rule ROUNDUP_up) (use n' o' in linarith)
  then have run: "allocuvm (kv d) old new s = alloc_loop (kv d) old new (pa (up old)) s"
    using n old by (simp add: allocuvm_def leD not_le [symmetric])
  have e: "{up old..<up old} = {}" by simp
  show ?thesis unfolding run
    by (rule alloc_loop_ok [OF ok d n' old np ok _ order_refl u]) (simp_all add: e filled_nothing)
qed

end
