(* ===== verification/VmCopy.thy ===== *)
theory VmCopy
  imports VmSpace
begin

text \<open>
  Whole address spaces: \<open>freevm\<close> gives every frame of a space back, \<open>setupkvm\<close> makes a space that
  maps the kernel and no user page, \<open>copyuvm\<close> copies the user pages of another space into it.
\<close>

section \<open>Destroying a space\<close>

definition drops :: "nat \<Rightarrow> vm \<Rightarrow> owners \<Rightarrow> vm \<Rightarrow> owners \<Rightarrow> bool" where
  "drops d s ow t ow' \<longleftrightarrow> kend t = kend s \<and> kdata t = kdata s \<and>
     (\<forall>f. ow' f = (if f = d \<or> belongs d (ow f) then Free else ow f)) \<and>
     (\<forall>f k. data (ow' f) \<longrightarrow> k < 4096 \<longrightarrow> pmem t (4096 * f + k) = pmem s (4096 * f + k)) \<and>
     (\<forall>d' v. d' \<noteq> d \<longrightarrow> ow d' = Dir \<longrightarrow> v < 1048576 \<longrightarrow> pte (pmem t) d' v = pte (pmem s) d' v)"

lemma dropsD:
  assumes "drops d s ow t ow'"
  shows "kend t = kend s" "kdata t = kdata s"
    and "ow' f = (if f = d \<or> belongs d (ow f) then Free else ow f)"
    and "data (ow' f) \<Longrightarrow> k < 4096 \<Longrightarrow> pmem t (4096 * f + k) = pmem s (4096 * f + k)"
    and "d' \<noteq> d \<Longrightarrow> ow d' = Dir \<Longrightarrow> v < 1048576 \<Longrightarrow> pte (pmem t) d' v = pte (pmem s) d' v"
  using assms unfolding drops_def by blast+

text \<open>A directory without user pages can be forgotten; its tables are then frames in no use.\<close>

definition forget :: "nat \<Rightarrow> owners \<Rightarrow> owners" where
  "forget d ow = (\<lambda>f. if f = d \<or> belongs d (ow f) then Taken else ow f)"

lemma forget_ok:
  assumes ok: "mem_ok s ow" and d: "ow d = Dir"
  shows "mem_ok s (forget d ow)"
proof -
  note fo = mem_okD(1) [OF ok] and sp = mem_okD(2) [OF ok]
  have eq: "forget d ow f = u \<longleftrightarrow> ow f = u \<and> f \<noteq> d \<and> \<not> belongs d u" if "u \<noteq> Taken" for f u
    using that by (auto simp: forget_def)
  have "{f. forget d ow f = Free} = {f. ow f = Free}" using d eq by auto
  then have "free_ok s (forget d ow)" using fo unfolding free_ok_def by (auto simp: forget_def)
  moreover have "space_ok (pmem s) (forget d ow)"
    unfolding space_ok_def
  proof (intro conjI allI impI)
    fix d' i assume a: "forget d ow d' = Dir" "i < 1024" "present (pde (pmem s) d' i)"
    then have "d' \<noteq> d" "ow (fr (pde (pmem s) d' i)) = Table d' i" using space_okD(1) [OF sp, of d' i] by (simp_all add: eq)
    then show "forget d ow (fr (pde (pmem s) d' i)) = Table d' i" using d by (auto simp: eq)
  next
    fix f d' i assume "forget d ow f = Table d' i"
    then have a: "ow f = Table d' i" "d' \<noteq> d" by (simp_all add: eq)
    from space_okD(2) [OF sp a(1)] a(2)
    show "forget d ow d' = Dir" "i < 1024" "present (pde (pmem s) d' i)" "fr (pde (pmem s) d' i) = f"
      by (auto simp: eq)
  next
    fix d' v assume a: "forget d ow d' = Dir" "v < USER" "present (pte (pmem s) d' v)"
    then have "d' \<noteq> d" "ow (fr (pte (pmem s) d' v)) = Page d' v" using space_okD(3) [OF sp, of d' v] by (simp_all add: eq)
    then show "forget d ow (fr (pte (pmem s) d' v)) = Page d' v" using d by (auto simp: eq)
  next
    fix f d' v assume "forget d ow f = Page d' v"
    then have a: "ow f = Page d' v" "d' \<noteq> d" by (simp_all add: eq)
    from space_okD(4) [OF sp a(1)] a(2)
    show "forget d ow d' = Dir" "v < USER" "present (pte (pmem s) d' v)" "fr (pte (pmem s) d' v) = f"
      by (auto simp: eq)
  qed
  ultimately show ?thesis by (simp add: mem_ok_def)
qed

text \<open>The state of the loop over the directory when the tables below \<open>k\<close> are free.\<close>

definition freed :: "nat \<Rightarrow> owners \<Rightarrow> nat \<Rightarrow> owners" where
  "freed d ow k = (\<lambda>f. if \<exists>i < k. ow f = Table d i then Free else forget d ow f)"

lemma freed_0: "freed d ow 0 = forget d ow"
  by (simp add: freed_def)

lemma free_tables:
  assumes ok: "mem_ok s ow" and d: "ow d = Dir"
  shows "\<exists>t. for_opt [0..<1024] (\<lambda>i s. do {
      e \<leftarrow> ld (kv d + 4 * word_of_nat i) s;
      if e AND PTE_P \<noteq> 0 then kfree (P2V (PTE_ADDR e)) s else Some s }) s = Some t \<and>
    mem_ok t (freed d ow 1024) \<and> kend t = kend s \<and> kdata t = kdata s \<and>
    (\<forall>f k. data (freed d ow 1024 f) \<longrightarrow> k < 4096 \<longrightarrow> pmem t (4096 * f + k) = pmem s (4096 * f + k)) \<and>
    (\<forall>d' v. d' \<noteq> d \<longrightarrow> ow d' = Dir \<longrightarrow> v < 1048576 \<longrightarrow> pte (pmem t) d' v = pte (pmem s) d' v)"
proof -
  have dl: "d < FRAMES" by (rule dir_frame [OF ok d])
  note sp = mem_okD(2) [OF ok]
  define J where "J k t \<longleftrightarrow> mem_ok t (freed d ow k) \<and> kend t = kend s \<and> kdata t = kdata s \<and>
    (\<forall>f k'. data (freed d ow k f) \<longrightarrow> k' < 4096 \<longrightarrow> pmem t (4096 * f + k') = pmem s (4096 * f + k')) \<and>
    (\<forall>d' v. d' \<noteq> d \<longrightarrow> ow d' = Dir \<longrightarrow> v < 1048576 \<longrightarrow> pte (pmem t) d' v = pte (pmem s) d' v)" for k t
  have "\<exists>t. for_opt [0..<1024] (\<lambda>i s. do {
      e \<leftarrow> ld (kv d + 4 * word_of_nat i) s;
      if e AND PTE_P \<noteq> 0 then kfree (P2V (PTE_ADDR e)) s else Some s }) s = Some t \<and> J 1024 t"
  proof (rule for_opt_rule [where J = J])
    show "J 0 s" using forget_ok [OF ok d] by (simp add: J_def freed_0)
    fix i t assume i: "i < 1024" and J: "J i t"
    have Jt: "mem_ok t (freed d ow i)" "kend t = kend s" "kdata t = kdata s" using J by (simp_all add: J_def)
    have fd: "freed d ow i d = Taken" using d by (simp add: freed_def forget_def)
    have pd: "pde (pmem t) d i = pde (pmem s) d i"
      unfolding pde_def
    proof (rule load32_cong)
      fix k assume k: "4096 * d + 4 * i \<le> k" "k < 4096 * d + 4 * i + 4"
      then have "k = 4096 * d + (k - 4096 * d)" "k - 4096 * d < 4096" using i by linarith+
      then show "pmem t k = pmem s k" using J fd unfolding J_def by (metis data.simps(1))
    qed
    have ldt: "ld (kv d + 4 * word_of_nat i) t = Some (pde (pmem s) d i)"
      using ld_word [OF dl, of "word_of_nat i" t] i pd
      by (simp add: pde_def unat_of_nat take_bit_nat_eq_self)
    show "\<exists>u. do { e \<leftarrow> ld (kv d + 4 * word_of_nat i) t;
        if e AND PTE_P \<noteq> 0 then kfree (P2V (PTE_ADDR e)) t else Some t } = Some u \<and> J (Suc i) u"
    proof (cases "present (pde (pmem s) d i)")
      case False
      have "ow f \<noteq> Table d i" for f using space_okD(2) [OF sp, of f d i] False by blast
      then have "freed d ow (Suc i) = freed d ow i" unfolding freed_def by (metis less_Suc_eq)
      then show ?thesis using J False ldt by (simp add: J_def)
    next
      case True
      let ?f = "fr (pde (pmem s) d i)"
      have f: "ow ?f = Table d i" by (rule space_okD(1) [OF sp d i True])
      have tk: "freed d ow i ?f = Taken" using f by (simp add: freed_def forget_def)
      have "ram_frame s ?f" using free_okD(1) [OF mem_okD(1) [OF ok], of ?f] f by simp
      then have rf: "ram_frame t ?f" using Jt(2) by (simp add: ram_frame_def)
      obtain u where u: "kfree (kv ?f) t = Some u" "mem_ok u ((freed d ow i)(?f := Free))" "agree {?f} (pmem t) (pmem u)"
        "kend u = kend t" "kdata u = kdata t"
        "\<And>d' v. freed d ow i d' = Dir \<Longrightarrow> v < 1048576 \<Longrightarrow> pte (pmem u) d' v = pte (pmem t) d' v"
        using kfree_taken [OF Jt(1) tk rf] by metis
      have uniq: "ow g = Table d i \<longleftrightarrow> g = ?f" for g using space_okD(2) [OF sp, of g d i] f by auto
      have step: "(freed d ow i)(?f := Free) = freed d ow (Suc i)"
        using uniq by (auto simp: freed_def less_Suc_eq fun_eq_iff)
      have "J (Suc i) u"
        unfolding J_def
      proof (intro conjI allI impI)
        show "mem_ok u (freed d ow (Suc i))" using u(2) unfolding step .
        show "kend u = kend s" "kdata u = kdata s" using u(4,5) Jt(2,3) by simp_all
        show "pmem u (4096 * g + k') = pmem s (4096 * g + k')" if "data (freed d ow (Suc i) g)" "k' < 4096" for g k'
        proof -
          have "g \<noteq> ?f" "data (freed d ow i g)" using that(1) unfolding step [symmetric] by (cases "g = ?f"; simp)+
          then show ?thesis using agreeD [OF u(3) _ that(2), of g] J that(2) by (simp add: J_def)
        qed
        show "pte (pmem u) d' v = pte (pmem s) d' v" if "d' \<noteq> d" "ow d' = Dir" "v < 1048576" for d' v
        proof -
          have "freed d ow i d' = Dir" using that by (simp add: freed_def forget_def)
          then show ?thesis using u(6) [of d' v] J that by (simp add: J_def)
        qed
      qed
      then show ?thesis using u(1) ldt True by simp
    qed
  qed
  then show ?thesis unfolding J_def by blast
qed

lemma freevm_ok:
  assumes ok: "mem_ok s ow" and d: "ow d = Dir"
  obtains t ow' where "freevm (kv d) s = Some t" "mem_ok t ow'" "drops d s ow t ow'"
proof -
  note sp = mem_okD(2) [OF ok]
  have dl: "d < FRAMES" by (rule dir_frame [OF ok d])
  have "up 0 = 0" by (simp add: up_def)
  then obtain s1 ow1 where s1: "deallocuvm (kv d) KERNBASE 0 s = Some (0, s1)" "mem_ok s1 ow1"
    "unmaps d (pages 0 KERNBASE) s ow s1 ow1"
    using deallocuvm_ok [OF ok d, of KERNBASE 0] by auto
  have d1: "ow1 d = Dir" using unmapsD(3) [OF s1(3), of d] d by simp
  have ow1: "ow1 f = (if \<exists>v. ow f = Page d v then Free else ow f)" for f
  proof -
    have "ow f = Page d v \<Longrightarrow> v \<in> pages 0 KERNBASE" for v using space_okD(4) [OF sp, of f d v] by simp
    then show ?thesis using unmapsD(3) [OF s1(3), of f] by auto
  qed
  obtain s2 where s2: "for_opt [0..<1024] (\<lambda>i s. do {
      e \<leftarrow> ld (kv d + 4 * word_of_nat i) s;
      if e AND PTE_P \<noteq> 0 then kfree (P2V (PTE_ADDR e)) s else Some s }) s1 = Some s2"
    and ok2: "mem_ok s2 (freed d ow1 1024)" and k2: "kend s2 = kend s1" "kdata s2 = kdata s1"
    and b2: "\<forall>f k. data (freed d ow1 1024 f) \<longrightarrow> k < 4096 \<longrightarrow> pmem s2 (4096 * f + k) = pmem s1 (4096 * f + k)"
    and p2: "\<forall>d' v. d' \<noteq> d \<longrightarrow> ow1 d' = Dir \<longrightarrow> v < 1048576 \<longrightarrow> pte (pmem s2) d' v = pte (pmem s1) d' v"
    using free_tables [OF s1(2) d1] by blast
  have tk: "freed d ow1 1024 d = Taken" using d1 by (simp add: freed_def forget_def)
  have "ram_frame s d" using free_okD(1) [OF mem_okD(1) [OF ok], of d] d by simp
  then have rf: "ram_frame s2 d" using k2(1) unmapsD(1) [OF s1(3)] by (simp add: ram_frame_def)
  define ow' where "ow' = (freed d ow1 1024)(d := Free)"
  obtain t where t: "kfree (kv d) s2 = Some t" "mem_ok t ow'" "agree {d} (pmem s2) (pmem t)"
    "kend t = kend s2" "kdata t = kdata s2"
    "\<And>d' v. freed d ow1 1024 d' = Dir \<Longrightarrow> v < 1048576 \<Longrightarrow> pte (pmem t) d' v = pte (pmem s2) d' v"
    using kfree_taken [OF ok2 tk rf] unfolding ow'_def by metis
  have run: "freevm (kv d) s = Some t"
    using dl s1(1) s2 t(1) by (simp add: freevm_def)
  have own: "ow' f = (if f = d \<or> belongs d (ow f) then Free else ow f)" for f
  proof -
    have "ow f = Table d i \<Longrightarrow> i < 1024" for i using space_okD(2) [OF sp, of f d i] by simp
    then show ?thesis using ow1 [of f] by (cases "ow f") (auto simp: ow'_def freed_def forget_def)
  qed
  have "drops d s ow t ow'"
    unfolding drops_def
  proof (intro conjI allI impI)
    show "kend t = kend s" "kdata t = kdata s" using t(4,5) k2 unmapsD(1,2) [OF s1(3)] by simp_all
    show "ow' f = (if f = d \<or> belongs d (ow f) then Free else ow f)" for f by (rule own)
    show "pmem t (4096 * f + k) = pmem s (4096 * f + k)" if "data (ow' f)" "k < 4096" for f k
    proof -
      have f: "f \<noteq> d" "data (freed d ow1 1024 f)" using that(1) by (cases "f = d"; simp add: ow'_def)+
      have "data (ow1 f)" using that(1) own [of f] ow1 [of f] by (auto split: if_splits)
      then show ?thesis
        using agreeD [OF t(3) _ that(2), of f] b2 f unmapsD(4) [OF s1(3) _ that(2), of f] that(2) by simp
    qed
    show "pte (pmem t) d' v = pte (pmem s) d' v" if a: "d' \<noteq> d" "ow d' = Dir" "v < 1048576" for d' v
    proof -
      have "ow1 d' = Dir" "freed d ow1 1024 d' = Dir" using a ow1 [of d'] by (simp_all add: freed_def forget_def)
      then show ?thesis using t(6) [of d' v] p2 unmapsD(5) [OF s1(3) a(2,3)] a by simp
    qed
  qed
  with run t(2) show thesis by (rule that)
qed

section \<open>A new space\<close>

lemma new_dir:
  assumes tk: "taken f s ow t" and z: "zero_frame t f"
  shows "mem_ok t (ow(f := Dir))" and "\<And>v. v < 1048576 \<Longrightarrow> pte (pmem t) f v = 0"
proof -
  note fo = mem_okD(1) [OF takenD(3) [OF tk]] and sp = mem_okD(2) [OF takenD(3) [OF tk]]
  have pd: "pde (pmem t) f i = 0" if "i < 1024" for i
    unfolding pde_def
  proof (rule load_zeros)
    fix k assume k: "4096 * f + 4 * i \<le> k" "k < 4096 * f + 4 * i + 4"
    then have "k = 4096 * f + (k - 4096 * f)" "k - 4096 * f < 4096" using that by linarith+
    then show "pmem t k = 0" using z unfolding zero_frame_def by metis
  qed
  show pt: "pte (pmem t) f v = 0" if "v < 1048576" for v using pd [OF div1024 [OF that]] by (simp add: pte_def)
  have ff: "ow f = Free" by (rule takenD(1) [OF tk])
  have "free_ok t ((ow(f := Taken))(f := Dir))" by (rule free_other [OF fo takenD(9) [OF tk]]) simp_all
  then have "free_ok t (ow(f := Dir))" by simp
  moreover have "space_ok (pmem t) (ow(f := Dir))"
    unfolding space_ok_def
  proof (intro conjI allI impI)
    fix d i assume a: "(ow(f := Dir)) d = Dir" "i < 1024" "present (pde (pmem t) d i)"
    then have "d \<noteq> f" using pd by auto
    then have "(ow(f := Taken)) (fr (pde (pmem t) d i)) = Table d i" using a by (intro space_okD(1) [OF sp]) simp_all
    then show "(ow(f := Dir)) (fr (pde (pmem t) d i)) = Table d i" by (auto split: if_splits)
  next
    fix g d i assume "(ow(f := Dir)) g = Table d i"
    then have a: "(ow(f := Taken)) g = Table d i" by (auto split: if_splits)
    from space_okD(2) [OF sp a] show "(ow(f := Dir)) d = Dir" "i < 1024" "present (pde (pmem t) d i)" "fr (pde (pmem t) d i) = g"
      by (auto split: if_splits)
  next
    fix d v assume a: "(ow(f := Dir)) d = Dir" "v < USER" "present (pte (pmem t) d v)"
    then have "d \<noteq> f" using pt [of v] by auto
    then have "(ow(f := Taken)) (fr (pte (pmem t) d v)) = Page d v" using a by (intro space_okD(3) [OF sp]) simp_all
    then show "(ow(f := Dir)) (fr (pte (pmem t) d v)) = Page d v" by (auto split: if_splits)
  next
    fix g d v assume "(ow(f := Dir)) g = Page d v"
    then have a: "(ow(f := Taken)) g = Page d v" by (auto split: if_splits)
    from space_okD(4) [OF sp a] show "(ow(f := Dir)) d = Dir" "v < USER" "present (pte (pmem t) d v)" "fr (pte (pmem t) d v) = g"
      by (auto split: if_splits)
  qed
  ultimately show "mem_ok t (ow(f := Dir))" by (simp add: mem_ok_def)
qed

lemma new_dir_grows:
  assumes tk: "taken f s ow t"
  shows "grows f s (ow(f := Dir)) t (ow(f := Dir))"
  unfolding grows_def
proof (intro conjI allI impI)
  show "kend t = kend s" "kdata t = kdata s" by (rule takenD(5,6) [OF tk])+
  show "(ow(f := Dir)) g = Free \<or> belongs f ((ow(f := Dir)) g)" if "(ow(f := Dir)) g = Free" for g using that by simp
  show "pmem t (4096 * g + k) = pmem s (4096 * g + k)" if "data ((ow(f := Dir)) g)" "k < 4096" for g k
    using agreeD [OF takenD(4) [OF tk] _ that(2), of g] that(1) by (cases "g = f") simp_all
  show "pte (pmem t) d v = pte (pmem s) d v" if "d \<noteq> f" "(ow(f := Dir)) d = Dir" "v < 1048576" for d v
    using takenD(7) [OF tk, of d v] that by simp
qed simp

text \<open>Mapping the kernel pages \<open>u\<close> to \<open>w\<close>, which belong to no address space, at the frames from \<open>p\<close> on.\<close>

lemma map_region:
  assumes "mem_ok s ow" "ow d = Dir" "USER \<le> u" "u \<le> w" "w < 1048576"
    and "\<forall>v \<in> {u..w}. \<not> present (pte (pmem s) d v)"
  shows "\<exists>r t ow'. map_loop (kv d) (pa w) perm (pa u) (pa p) s = Some (r, t) \<and> mem_ok t ow' \<and> grows d s ow t ow' \<and>
    (\<forall>v < 1048576. v \<notin> {u..w} \<longrightarrow> pte (pmem t) d v = pte (pmem s) d v) \<and>
    (r = -1 \<and> (\<forall>f. ow' f \<noteq> Free) \<or>
     r = 0 \<and> (\<forall>v \<in> {u..w}. pte (pmem t) d v = pa (p + (v - u)) OR (perm OR 1)))"
  using assms
proof (induction "w - u" arbitrary: u p s ow)
  case step: (0 u p s ow)
  then have uw: "u = w" by simp
  have u2: "u < 1048576" using step by simp
  have np: "\<not> present (pte (pmem s) d (vpn (pa u)))" using step u2 by simp
  have e: "present (pa p OR (perm OR 1))" by (simp add: present_or)
  have own: "vpn (pa u) < USER \<longrightarrow> ow (fr (pa p OR (perm OR 1))) = Taken \<and> ram_frame s (fr (pa p OR (perm OR 1)))"
    using u2 step by simp
  from step.prems(1,2) np e own show ?case
  proof (cases rule: map_step)
    case none
    then have "map_loop (kv d) (pa w) perm (pa u) (pa p) s = Some (-1, s)" by (simp add: map_loop.simps)
    then show ?thesis using step.prems(1) grows_refl none(2) by auto
  next
    case (mapped x t1 t ow1)
    have "map_loop (kv d) (pa w) perm (pa u) (pa p) s = Some (0, t)"
      using mapped(1-4) np u2 uw by (simp add: map_loop.simps)
    moreover have "mem_ok t ow1" using mapped(6) u2 step by simp
    ultimately show ?thesis using mapped(5,7) u2 uw by auto
  qed
next
  case step: (Suc n u p s ow)
  then have uw: "u < w" by simp
  have u2: "u < 1048576" using step uw by simp
  have np: "\<not> present (pte (pmem s) d (vpn (pa u)))" using step u2 by simp
  have e: "present (pa p OR (perm OR 1))" by (simp add: present_or)
  have own: "vpn (pa u) < USER \<longrightarrow> ow (fr (pa p OR (perm OR 1))) = Taken \<and> ram_frame s (fr (pa p OR (perm OR 1)))"
    using u2 step by simp
  from step.prems(1,2) np e own show ?case
  proof (cases rule: map_step)
    case none
    then have "map_loop (kv d) (pa w) perm (pa u) (pa p) s = Some (-1, s)" by (simp add: map_loop.simps)
    then show ?thesis using step.prems(1) grows_refl none(2) by auto
  next
    case (mapped x t1 t ow1)
    have ne: "pa u \<noteq> pa w" using pa_inj [OF u2 step.prems(5)] uw by simp
    have run: "map_loop (kv d) (pa w) perm (pa u) (pa p) s = map_loop (kv d) (pa w) perm (pa (Suc u)) (pa (Suc p)) t"
      using mapped(1-4) np u2 ne by (subst map_loop.simps) (simp add: pa_Suc)
    have okt: "mem_ok t ow1" using mapped(6) u2 step by simp
    have dt: "ow1 d = Dir" using growsD(3) [OF mapped(5), of d] step.prems(2) by simp
    have npt: "\<forall>v \<in> {Suc u..w}. \<not> present (pte (pmem t) d v)"
      using mapped(7) step.prems(5,6) u2 by auto
    have "n = w - Suc u" "USER \<le> Suc u" "Suc u \<le> w" using step.hyps(2) step.prems(3) uw by simp_all
    from step.hyps(1) [OF this(1) okt dt this(2,3) step.prems(5) npt, of "Suc p"]
    obtain r t' ow' where t': "map_loop (kv d) (pa w) perm (pa (Suc u)) (pa (Suc p)) t = Some (r, t')" "mem_ok t' ow'"
      "grows d t ow1 t' ow'" "\<forall>v < 1048576. v \<notin> {Suc u..w} \<longrightarrow> pte (pmem t') d v = pte (pmem t) d v"
      "r = -1 \<and> (\<forall>f. ow' f \<noteq> Free) \<or>
       r = 0 \<and> (\<forall>v \<in> {Suc u..w}. pte (pmem t') d v = pa (Suc p + (v - Suc u)) OR (perm OR 1))"
      by blast
    have pt: "pte (pmem t) d v = (if v = u then pa p OR (perm OR 1) else pte (pmem s) d v)" if "v < 1048576" for v
      using mapped(7) [OF that] u2 by simp
    have "pte (pmem t') d v = pte (pmem s) d v" if "v < 1048576" "v \<notin> {u..w}" for v
      using t'(4) that pt [OF that(1)] uw by auto
    moreover have "pte (pmem t') d v = pa (p + (v - u)) OR (perm OR 1)" if r: "r = 0" and v: "v \<in> {u..w}" for v
    proof (cases "v = u")
      case True
      then show ?thesis using t'(4) pt [OF u2] u2 by auto
    next
      case False
      then have "u < v" using v by simp
      then have "Suc p + (v - Suc u) = p + (v - u)" by linarith
      moreover have "v \<in> {Suc u..w}" using v \<open>u < v\<close> by simp
      moreover have "\<forall>v \<in> {Suc u..w}. pte (pmem t') d v = pa (Suc p + (v - Suc u)) OR (perm OR 1)" using t'(5) r by simp
      ultimately show ?thesis by metis
    qed
    ultimately show ?thesis using run t'(1,2,5) grows_trans [OF mapped(5) t'(3)] by metis
  qed
qed

text \<open>Growing a space and dropping it is dropping what it was.\<close>

lemma grows_drops:
  assumes g: "grows d s ow t ow1" and dr: "drops d t ow1 u ow'" and d: "ow d = Dir"
  shows "drops d s ow u ow'"
proof -
  have own: "ow' f = (if f = d \<or> belongs d (ow f) then Free else ow f)" for f
    using dropsD(3) [OF dr, of f] growsD(3,4) [OF g, of f] by (cases "ow f = Free") auto
  show ?thesis
    unfolding drops_def
  proof (intro conjI allI impI)
    show "kend u = kend s" "kdata u = kdata s" using growsD(1,2) [OF g] dropsD(1,2) [OF dr] by simp_all
    show "ow' f = (if f = d \<or> belongs d (ow f) then Free else ow f)" for f by (rule own)
    show "pmem u (4096 * f + k) = pmem s (4096 * f + k)" if "data (ow' f)" "k < 4096" for f k
    proof -
      have "data (ow f)" using that(1) own [of f] by (auto split: if_splits)
      then show ?thesis using dropsD(4) [OF dr that] growsD(5) [OF g _ that(2), of f] by simp
    qed
    show "pte (pmem u) d' v = pte (pmem s) d' v" if "d' \<noteq> d" "ow d' = Dir" "v < 1048576" for d' v
      using dropsD(5) [OF dr that(1) _ that(3)] growsD(6) [OF g that] growsD(3) [OF g, of d'] that by simp
  qed
qed

text \<open>A list of regions: first and last page, first frame, permissions.\<close>

type_synonym region = "nat \<times> nat \<times> nat \<times> u32"

fun region_words :: "region \<Rightarrow> u32 \<times> u32 \<times> u32 \<times> u32" where
  "region_words (u, w, p, perm) = (pa u, pa p, pa p + (pa (Suc w) - pa u), perm)"

fun regions_ok :: "nat \<Rightarrow> region list \<Rightarrow> bool" where
  "regions_ok lo [] \<longleftrightarrow> True"
| "regions_ok lo ((u, w, p, perm) # rs) \<longleftrightarrow> lo \<le> u \<and> u \<le> w \<and> w < 1048576 \<and> regions_ok (Suc w) rs"

fun region_pte :: "region list \<Rightarrow> nat \<Rightarrow> u32 option" where
  "region_pte [] v = None"
| "region_pte ((u, w, p, perm) # rs) v =
     (if u \<le> v \<and> v \<le> w then Some (pa (p + (v - u)) OR (perm OR 1)) else region_pte rs v)"

lemma region_pte_before: "regions_ok lo rs \<Longrightarrow> v < lo \<Longrightarrow> region_pte rs v = None"
  by (induction rs v arbitrary: lo rule: region_pte.induct) auto

lemma mappages_region:
  assumes "w < 1048576"
  shows "mappages (kv d) (pa u) (pa p + (pa (Suc w) - pa u) - pa p) (pa p) perm s =
    map_loop (kv d) (pa w) perm (PGROUNDDOWN (pa u)) (pa p) s"
proof -
  have "pa u + (pa p + (pa (Suc w) - pa u) - pa p) - 1 = 4095 + pa w" by (simp flip: pa_Suc)
  then show ?thesis using last_byte [OF assms] by (simp only: mappages_def)
qed

text \<open>Mapping has used up the free frames without adding a user page.\<close>

definition exhausted :: "nat \<Rightarrow> vm \<Rightarrow> owners \<Rightarrow> bool" where
  "exhausted d s ow \<longleftrightarrow> (\<exists>t ow'. mem_ok t ow' \<and> grows d s ow t ow' \<and> (\<forall>f. ow' f \<noteq> Free) \<and>
     (\<forall>v < USER. pte (pmem t) d v = pte (pmem s) d v))"

lemma exhausted_trans:
  assumes "grows d s ow t ow'" "\<forall>v < USER. pte (pmem t) d v = pte (pmem s) d v" "exhausted d t ow'"
  shows "exhausted d s ow"
  using assms grows_trans [OF assms(1)] unfolding exhausted_def by metis

lemma exhausted_short:
  assumes "exhausted d s ow" "mem_ok s ow" "ow d = Dir"
  shows "nfree ow \<le> 1025"
proof -
  obtain t ow' where t: "mem_ok t ow'" "grows d s ow t ow'" "\<And>f. ow' f \<noteq> Free"
    "\<And>v. v < USER \<Longrightarrow> pte (pmem t) d v = pte (pmem s) d v"
    using assms(1) unfolding exhausted_def by blast
  have "False" if f: "ow f = Free" "ow' f = Page d v" for f v
    using space_okD(4) [OF mem_okD(2) [OF t(1)] f(2)] space_okD(3) [OF mem_okD(2) [OF assms(2)] assms(3), of v] t(4) [of v] f(1)
    by auto
  then have "nfree ow \<le> 1025 + card ({} :: nat set)" by (intro used_up [OF t(2,1)]) (use t(3) in auto)
  then show ?thesis by simp
qed

lemma nfree_less: "nfree ow \<le> Suc (nfree (ow(d := u)))"
proof (cases "finite {f. ow f = Free}")
  case True
  let ?B = "{f. (ow(d := u)) f = Free}"
  have "?B \<subseteq> insert d {f. ow f = Free}" by auto
  then have B: "finite ?B" by (rule finite_subset) (use True in simp)
  have "card {f. ow f = Free} \<le> card (insert d ?B)" by (rule card_mono) (use B in auto)
  also have "\<dots> \<le> Suc (card ?B)" using B by (simp only: card_insert_if) simp
  finally show ?thesis by (simp add: nfree_def)
qed (simp add: nfree_def)

lemma map_kernel_ok:
  assumes "mem_ok s ow" "ow d = Dir" "regions_ok lo rs" "USER \<le> lo"
    and "\<forall>v < 1048576. lo \<le> v \<longrightarrow> \<not> present (pte (pmem s) d v)"
  shows "\<exists>r t ow'. map_kernel (kv d) (map region_words rs) s = Some (r, t) \<and> mem_ok t ow' \<and>
    (r = 0 \<and> drops d s ow t ow' \<and> exhausted d s ow \<or>
     r = kv d \<and> grows d s ow t ow' \<and>
     (\<forall>v < 1048576. pte (pmem t) d v = (case region_pte rs v of None \<Rightarrow> pte (pmem s) d v | Some e \<Rightarrow> e)))"
  using assms
proof (induction rs arbitrary: s ow lo)
  case Nil
  then show ?case using grows_refl by auto
next
  case (Cons x rs)
  obtain u w p perm where x: "x = (u, w, p, perm)" by (metis prod_cases4)
  have r: "lo \<le> u" "u \<le> w" "w < 1048576" "regions_ok (Suc w) rs" using Cons.prems(3) by (simp_all add: x)
  have uU: "USER \<le> u" using r(1) Cons.prems(4) by simp
  have u2: "u < 1048576" using r by simp
  have np: "\<forall>v \<in> {u..w}. \<not> present (pte (pmem s) d v)" using Cons.prems(5) r by auto
  from map_region [OF Cons.prems(1,2) uU r(2,3) np, of perm p]
  obtain c t ow1 where c: "map_loop (kv d) (pa w) perm (pa u) (pa p) s = Some (c, t)" and okt: "mem_ok t ow1"
    and g: "grows d s ow t ow1" and out: "\<forall>v < 1048576. v \<notin> {u..w} \<longrightarrow> pte (pmem t) d v = pte (pmem s) d v"
    and cc: "c = -1 \<and> (\<forall>f. ow1 f \<noteq> Free) \<or> c = 0 \<and> (\<forall>v \<in> {u..w}. pte (pmem t) d v = pa (p + (v - u)) OR (perm OR 1))"
    by blast
  have mp: "mappages (kv d) (pa u) (pa p + (pa (Suc w) - pa u) - pa p) (pa p) perm s = Some (c, t)"
    using mappages_region [OF r(3)] c u2 by simp
  have dt: "ow1 d = Dir" using growsD(3) [OF g, of d] Cons.prems(2) by simp
  have run: "map_kernel (kv d) (map region_words (x # rs)) s =
      (if c < 0 then Option.bind (freevm (kv d) t) (\<lambda>s. Some (0, s)) else map_kernel (kv d) (map region_words rs) t)"
    unfolding x list.map region_words.simps map_kernel.simps mp by simp
  have user: "\<forall>v < USER. pte (pmem t) d v = pte (pmem s) d v" using out uU by auto
  show ?case
  proof (cases "c = -1")
    case True
    then have "exhausted d s ow" using okt g user cc unfolding exhausted_def by auto
    moreover     obtain t2 ow2 where t2: "freevm (kv d) t = Some t2" "mem_ok t2 ow2" "drops d t ow1 t2 ow2"
      by (rule freevm_ok [OF okt dt])
    ultimately show ?thesis using run True grows_drops [OF g t2(3) Cons.prems(2)] by auto
  next
    case False
    then have in_t: "\<forall>v \<in> {u..w}. pte (pmem t) d v = pa (p + (v - u)) OR (perm OR 1)" and c0: "c = 0" using cc by auto
    have "\<forall>v < 1048576. Suc w \<le> v \<longrightarrow> \<not> present (pte (pmem t) d v)" using out Cons.prems(5) r by auto
    moreover have "USER \<le> Suc w" using uU r by simp
    ultimately obtain q t2 ow2 where t2: "map_kernel (kv d) (map region_words rs) t = Some (q, t2)" "mem_ok t2 ow2"
      "q = 0 \<and> drops d t ow1 t2 ow2 \<and> exhausted d t ow1 \<or> q = kv d \<and> grows d t ow1 t2 ow2 \<and>
        (\<forall>v < 1048576. pte (pmem t2) d v = (case region_pte rs v of None \<Rightarrow> pte (pmem t) d v | Some e \<Rightarrow> e))"
      using Cons.IH [OF okt dt r(4)] by blast
    have "pte (pmem t2) d v = (case region_pte (x # rs) v of None \<Rightarrow> pte (pmem s) d v | Some e \<Rightarrow> e)"
      if eq: "pte (pmem t2) d v = (case region_pte rs v of None \<Rightarrow> pte (pmem t) d v | Some e \<Rightarrow> e)" and v: "v < 1048576" for v
    proof (cases "u \<le> v \<and> v \<le> w")
      case True
      then have "region_pte rs v = None" using region_pte_before [OF r(4)] by simp
      then show ?thesis using eq True in_t by (simp add: x)
    next
      case False
      then have "pte (pmem t) d v = pte (pmem s) d v" using out v by auto
      then show ?thesis using eq False by (auto simp: x split: option.split)
    qed
    then show ?thesis
      using run c0 t2 grows_trans [OF g] grows_drops [OF g _ Cons.prems(2)] exhausted_trans [OF g user] by auto
  qed
qed

text \<open>
  The kernel's half of every space, from \<open>kmap\<close>: where the kernel's data begins is the frame \<open>q\<close>
  of the symbol \<open>data\<close>, which \<open>kernel.ld\<close> aligns to a page.
\<close>

definition kernel_regions :: "nat \<Rightarrow> region list" where
  "kernel_regions q = [(524288, 524543, 0, 2), (524544, 524287 + q, 256, 0),
     (524288 + q, 581631, q, 2), (1040384, 1048575, 1040384, 2)]"

definition kernel_map :: "nat \<Rightarrow> nat \<Rightarrow> u32 option" where
  "kernel_map q = region_pte (kernel_regions q)"

definition data_frame :: "vm \<Rightarrow> nat \<Rightarrow> bool" where
  "data_frame s q \<longleftrightarrow> kdata s = kv q \<and> 256 < q \<and> q < FRAMES"

lemma kmap_regions:
  assumes "data_frame s q"
  shows "kmap s = map region_words (kernel_regions q)" "regions_ok 524288 (kernel_regions q)"
proof -
  have q: "kdata s = kv q" "256 < q" "q < 57344" using assms by (auto simp: data_frame_def)
  have add: "pa (a + b) = pa a + pa b" for a b by (simp add: pa_def)
  have k: "kv q = pa (524288 + q)" by (simp add: kv_def add) (simp add: pa_def)
  have s: "Suc (524287 + q) = 524288 + q" using q by simp
  show "kmap s = map region_words (kernel_regions q)"
    unfolding kmap_def kernel_regions_def list.map region_words.simps s q(1) V2P_kv k
    by (simp add: add) (simp add: pa_def V2P_def)
  show "regions_ok 524288 (kernel_regions q)" using q by (simp add: kernel_regions_def)
qed

text \<open>A frame that is free names no table or page.\<close>

lemma no_belongings: "mem_ok s ow \<Longrightarrow> ow d = Free \<Longrightarrow> \<not> belongs d (ow f)"
  using space_okD(2,4) [OF mem_okD(2), of s ow f d] by (cases "ow f") auto

text \<open>What an operation that fails leaves: every frame in its use and every page in its place.\<close>

definition undone :: "vm \<Rightarrow> owners \<Rightarrow> vm \<Rightarrow> bool" where
  "undone s ow t \<longleftrightarrow> mem_ok t ow \<and> kend t = kend s \<and> kdata t = kdata s \<and>
     (\<forall>f k. data (ow f) \<longrightarrow> k < 4096 \<longrightarrow> pmem t (4096 * f + k) = pmem s (4096 * f + k)) \<and>
     (\<forall>d v. ow d = Dir \<longrightarrow> v < 1048576 \<longrightarrow> pte (pmem t) d v = pte (pmem s) d v)"

lemma undone_refl: "mem_ok s ow \<Longrightarrow> undone s ow s"
  by (simp add: undone_def)

lemma drops_undone:
  assumes ok: "mem_ok s ow" and f: "ow d = Free" and dr: "drops d s (ow(d := Dir)) t ow'" and okt: "mem_ok t ow'"
  shows "undone s ow t"
proof -
  have own: "ow' = ow"
  proof
    show "ow' g = ow g" for g
      using dropsD(3) [OF dr, of g] no_belongings [OF ok f, of g] f by (cases "g = d") auto
  qed
  show ?thesis
    unfolding undone_def
  proof (intro conjI allI impI)
    show "mem_ok t ow" using okt own by simp
    show "kend t = kend s" "kdata t = kdata s" by (rule dropsD(1,2) [OF dr])+
    show "pmem t (4096 * g + k) = pmem s (4096 * g + k)" if "data (ow g)" "k < 4096" for g k
      using dropsD(4) [OF dr _ that(2), of g] that own by simp
    show "pte (pmem t) d' v = pte (pmem s) d' v" if "ow d' = Dir" "v < 1048576" for d' v
      using dropsD(5) [OF dr, of d' v] that f by (cases "d' = d") simp_all
  qed
qed

lemma setupkvm_ok:
  assumes ok: "mem_ok s ow" and q: "data_frame s q"
  shows "\<exists>r t. setupkvm s = Some (r, t) \<and>
    (r = 0 \<and> undone s ow t \<and> nfree ow \<le> 1026 \<or>
     (\<exists>d ow'. r = kv d \<and> d < FRAMES \<and> ow d = Free \<and> mem_ok t ow' \<and> grows d s (ow(d := Dir)) t ow' \<and>
       (\<forall>v < 1048576. lookup (pmem t) d v = kernel_map q v)))"
  using ok
proof (cases rule: take_frame)
  case none
  then show ?thesis using undone_refl [OF ok] by (simp add: setupkvm_def nfree_def)
next
  case (frame d s1)
  define s2 where "s2 = s1\<lparr>pmem := memmove (pmem s) (4096 * d) (\<lambda>_. 0) 0 4096\<rparr>"
  have tk: "taken d s ow s2" unfolding s2_def by (rule frame(5))
  have ms: "memset (kv d) 0 4096 s1 = Some s2" using frame(3,4) by (simp add: memset_def put_frame s2_def)
  have z: "zero_frame s2 d" by (simp add: zero_frame_def s2_def memmove_def)
  note N = new_dir [OF tk z]
  have q2: "data_frame s2 q" using q takenD(6) [OF tk] by (simp add: data_frame_def)
  have d2: "(ow(d := Dir)) d = Dir" by simp
  have "\<forall>v < 1048576. 524288 \<le> v \<longrightarrow> \<not> present (pte (pmem s2) d v)" using N(2) by simp
  then obtain r t ow' where t: "map_kernel (kv d) (kmap s2) s2 = Some (r, t)" "mem_ok t ow'"
    "r = 0 \<and> drops d s2 (ow(d := Dir)) t ow' \<and> exhausted d s2 (ow(d := Dir)) \<or> r = kv d \<and> grows d s2 (ow(d := Dir)) t ow' \<and>
      (\<forall>v < 1048576. pte (pmem t) d v = (case region_pte (kernel_regions q) v of None \<Rightarrow> pte (pmem s2) d v | Some e \<Rightarrow> e))"
    using map_kernel_ok [OF N(1) d2 kmap_regions(2) [OF q2] order_refl] unfolding kmap_regions(1) [OF q2] by blast
  have c: "\<not> DEVSPACE < P2V PHYSTOP" by (simp add: P2V_def)
  have run: "setupkvm s = Some (r, t)"
    using frame(1,2) ms t(1) c by (simp add: setupkvm_def)
  from t(3) show ?thesis
  proof (elim disjE conjE)
    assume r: "r = 0" and dr: "drops d s2 (ow(d := Dir)) t ow'" and ex: "exhausted d s2 (ow(d := Dir))"
    have "nfree (ow(d := Dir)) \<le> 1025" by (rule exhausted_short [OF ex N(1)]) simp
    then have "nfree ow \<le> 1026" using nfree_less [of ow d Dir] by linarith
    moreover     have "undone s ow t"
      by (rule drops_undone [OF ok takenD(1) [OF tk] grows_drops [OF new_dir_grows [OF tk] dr d2] t(2)])
    ultimately show ?thesis using run r by blast
  next
    assume r: "r = kv d" and g: "grows d s2 (ow(d := Dir)) t ow'"
      and p: "\<forall>v < 1048576. pte (pmem t) d v = (case region_pte (kernel_regions q) v of None \<Rightarrow> pte (pmem s2) d v | Some e \<Rightarrow> e)"
    have pr: "region_pte rs v = Some e \<Longrightarrow> present e" for rs v e
      by (induction rs v rule: region_pte.induct) (auto simp: present_or split: if_splits)
    have "lookup (pmem t) d v = kernel_map q v" if "v < 1048576" for v
      using p that N(2) [OF that] pr [of "kernel_regions q" v]
      by (cases "region_pte (kernel_regions q) v") (simp_all add: lookup_def kernel_map_def)
    moreover have "grows d s (ow(d := Dir)) t ow'" by (rule grows_trans [OF new_dir_grows [OF tk] g])
    ultimately show ?thesis using run r frame(3) takenD(1) [OF tk] t(2) by blast
  qed
qed

section \<open>Copying a space\<close>

text \<open>Page \<open>v\<close> of the new space \<open>d\<close> is a copy, in a frame that was free, of page \<open>v\<close> of \<open>p\<close>.\<close>

definition same_page :: "vm \<Rightarrow> owners \<Rightarrow> nat \<Rightarrow> vm \<Rightarrow> nat \<Rightarrow> nat \<Rightarrow> bool" where
  "same_page s0 ow0 p s d v \<longleftrightarrow> (\<exists>e f. lookup (pmem s0) p v = Some e \<and> lookup (pmem s) d v = Some (pa f OR PTE_FLAGS e) \<and>
     f < FRAMES \<and> ow0 f = Free \<and> (\<forall>k < 4096. pmem s (4096 * f + k) = pmem s0 (4096 * fr e + k)))"

definition copied :: "nat \<Rightarrow> nat \<Rightarrow> nat \<Rightarrow> vm \<Rightarrow> owners \<Rightarrow> vm \<Rightarrow> owners \<Rightarrow> bool" where
  "copied p d u s0 ow0 s ow \<longleftrightarrow> grows d s0 (ow0(d := Dir)) s ow \<and>
     (\<forall>v < u. same_page s0 ow0 p s d v) \<and> (\<forall>v. u \<le> v \<longrightarrow> v < USER \<longrightarrow> lookup (pmem s) d v = None)"

lemma copiedD:
  assumes "copied p d u s0 ow0 s ow"
  shows "grows d s0 (ow0(d := Dir)) s ow" "v < u \<Longrightarrow> same_page s0 ow0 p s d v"
    "u \<le> v \<Longrightarrow> v < USER \<Longrightarrow> lookup (pmem s) d v = None"
  using assms unfolding copied_def by blast+

lemma flags_present: "present e \<Longrightarrow> PTE_FLAGS e OR 1 = PTE_FLAGS e"
  unfolding PTE_FLAGS_def masks present_bit by (rule bit_word_eqI) (auto simp: bit_simps)

lemma present_flags: "present e \<Longrightarrow> present (x OR PTE_FLAGS e)"
  using flags_present [of e] by (metis present_1)

lemma copied_more:
  assumes cp: "copied p d u s0 ow0 s ow" and ok: "mem_ok s ow" and u: "u < USER" and f: "ow f = Free" "f < FRAMES"
    and d0: "ow0 d = Free" and e: "lookup (pmem s0) p u = Some e"
    and gr: "grows d s ow t ow'"
    and pt: "\<And>v. v < 1048576 \<Longrightarrow> pte (pmem t) d v = (if v = u then pa f OR PTE_FLAGS e else pte (pmem s) d v)"
    and b: "\<forall>k < 4096. pmem t (4096 * f + k) = pmem s0 (4096 * fr e + k)"
  shows "copied p d (Suc u) s0 ow0 t ow'"
  unfolding copied_def
proof (intro conjI allI impI)
  note g0 = copiedD(1) [OF cp]
  have d: "ow d = Dir" using growsD(3) [OF g0, of d] by simp
  show "grows d s0 (ow0(d := Dir)) t ow'" by (rule grows_trans [OF g0 gr])
  show "lookup (pmem t) d v = None" if "Suc u \<le> v" "v < USER" for v
    using copiedD(3) [OF cp _ that(2)] that pt [of v] by (auto simp: lookup_def split: if_splits)
  show "same_page s0 ow0 p t d v" if v: "v < Suc u" for v
  proof (cases "v = u")
    case True
    have ff: "ow0 f = Free" using growsD(3) [OF g0, of f] f(1) by (cases "f = d"; cases "ow0 f = Free") auto
    have "present e" using e by (auto simp: lookup_present)
    then have "lookup (pmem t) d u = Some (pa f OR PTE_FLAGS e)"
      using pt [of u] u present_flags [of e "pa f"] by (simp add: lookup_def)
    then show ?thesis using True e f(2) ff b unfolding same_page_def by blast
  next
    case False
    with v have vu: "v < u" by simp
    from copiedD(2) [OF cp vu] obtain e' h where h: "lookup (pmem s0) p v = Some e'" "lookup (pmem s) d v = Some (pa h OR PTE_FLAGS e')"
      "h < FRAMES" "ow0 h = Free" "\<forall>k < 4096. pmem s (4096 * h + k) = pmem s0 (4096 * fr e' + k)"
      unfolding same_page_def by blast
    have "fr (pte (pmem s) d v) = h" "present (pte (pmem s) d v)"
      using h(2,3) fr_or [of h "PTE_FLAGS e'"] by (auto simp: lookup_present)
    then have "ow h = Page d v" using space_okD(3) [OF mem_okD(2) [OF ok] d, of v] vu u by simp
    then have "\<forall>k < 4096. pmem t (4096 * h + k) = pmem s0 (4096 * fr e' + k)" using h(5) growsD(5) [OF gr, of h] by simp
    moreover have "lookup (pmem t) d v = Some (pa h OR PTE_FLAGS e')"
      using pt [of v] vu u h(2) by (auto simp: lookup_def split: if_splits)
    ultimately show ?thesis using h(1,3,4) unfolding same_page_def by blast
  qed
qed

text \<open>A frame that was taken and given back.\<close>

lemma put_back:
  assumes ok: "mem_ok s ow" and tk: "taken f s ow s2"
  obtains t where "kfree (kv f) s2 = Some t" "mem_ok t ow" "grows d s ow t ow"
proof -
  have f: "(ow(f := Taken)) f = Taken" by simp
  obtain t where t: "kfree (kv f) s2 = Some t" "mem_ok t ((ow(f := Taken))(f := Free))" "agree {f} (pmem s2) (pmem t)"
    "kend t = kend s2" "kdata t = kdata s2"
    "\<And>d v. (ow(f := Taken)) d = Dir \<Longrightarrow> v < 1048576 \<Longrightarrow> pte (pmem t) d v = pte (pmem s2) d v"
    using kfree_taken [OF takenD(3) [OF tk] f takenD(9) [OF tk]] by metis
  have ff: "ow f = Free" by (rule takenD(1) [OF tk])
  then have eq: "(ow(f := Taken))(f := Free) = ow" by auto
  have "grows d s ow t ow"
    unfolding grows_def
  proof (intro conjI allI impI)
    show "kend t = kend s" "kdata t = kdata s" using t(4,5) takenD(5,6) [OF tk] by simp_all
    show "ow g = Free \<or> belongs d (ow g)" if "ow g = Free" for g using that by simp
    show "pmem t (4096 * g + k) = pmem s (4096 * g + k)" if "data (ow g)" "k < 4096" for g k
    proof -
      have "g \<noteq> f" using that(1) ff by auto
      then show ?thesis using agreeD [OF t(3) _ that(2), of g] agreeD [OF takenD(4) [OF tk] _ that(2), of g] by simp
    qed
    show "pte (pmem t) d' v = pte (pmem s) d' v" if "d' \<noteq> d" "ow d' = Dir" "v < 1048576" for d' v
    proof -
      have "(ow(f := Taken)) d' = Dir" using that ff by (cases "d' = f") simp_all
      then show ?thesis using t(6) [of d' v] takenD(7) [OF tk that(2,3)] that(3) by simp
    qed
  qed simp
  with t(1,2) show thesis unfolding eq by (rule that)
qed

lemma copied_short:
  assumes cp: "copied p d u s0 ow0 s ow" and ok: "mem_ok s ow" and none: "\<And>f. f \<noteq> x \<Longrightarrow> ow f \<noteq> Free"
  shows "nfree ow0 \<le> 1026 + u"
proof -
  have new: "f \<in> (\<lambda>v. fr (pte (pmem s) d v)) ` {..<u}" if f: "(ow0(d := Dir)) f = Free" "ow f = Page d v" for f v
  proof -
    note p = space_okD(4) [OF mem_okD(2) [OF ok] f(2)]
    then have "v < u" using copiedD(3) [OF cp, of v] by (auto simp: lookup_present not_le [symmetric])
    then show ?thesis using p by force
  qed
  have "nfree (ow0(d := Dir)) \<le> 1025 + card {..<u}" by (rule used_up [OF copiedD(1) [OF cp] ok none new]) simp_all
  then show ?thesis using nfree_less [of ow0 d Dir] by simp
qed

lemma copy_loop_ok:
  assumes ok0: "mem_ok s0 ow0" and p0: "ow0 p = Dir" and d0: "ow0 d = Free" and n: "unat sz \<le> 2147483648"
    and pages: "\<forall>v. 4096 * v < unat sz \<longrightarrow> lookup (pmem s0) p v \<noteq> None"
    and "mem_ok s ow" "copied p d u s0 ow0 s ow" "u \<le> up sz"
  shows "\<exists>r t. copy_loop (kv p) sz (kv d) (pa u) s = Some (r, t) \<and>
    (r = 0 \<and> undone s0 ow0 t \<and> nfree ow0 \<le> 1026 + up sz \<or> r = kv d \<and> (\<exists>ow'. mem_ok t ow' \<and> copied p d (up sz) s0 ow0 t ow' \<and>
      (\<forall>v < 1048576. USER \<le> v \<longrightarrow> lookup (pmem t) d v = lookup (pmem s) d v)))"
  using assms(6-)
proof (induction "up sz - u" arbitrary: u s ow rule: less_induct)
  case less
  note ok = less.prems(1) and cp = less.prems(2) and uu = less.prems(3)
  note g0 = copiedD(1) [OF cp]
  have upU: "up sz \<le> USER" by (rule up_le [OF n])
  have u2: "u < 1048576" using uu upU by simp
  have pd: "p \<noteq> d" using p0 d0 by auto
  have p: "ow p = Dir" and d: "ow d = Dir" using growsD(3) [OF g0, of p] growsD(3) [OF g0, of d] p0 pd by simp_all
  have dropped: "\<exists>t2. freevm (kv d) t = Some t2 \<and> undone s0 ow0 t2" if okt: "mem_ok t ow" and gt: "grows d s ow t ow" for t
  proof -
    obtain t2 ow2 where t2: "freevm (kv d) t = Some t2" "mem_ok t2 ow2" "drops d t ow t2 ow2"
      by (rule freevm_ok [OF okt d])
    have "drops d s0 (ow0(d := Dir)) t2 ow2" by (rule grows_drops [OF grows_trans [OF g0 gt] t2(3)]) simp
    from drops_undone [OF ok0 d0 this t2(2)] t2(1) show ?thesis by blast
  qed
  show ?case
  proof (cases "4096 * u < unat sz")
    case False
    then have "u = up sz" using uu up_iff [of u sz] by linarith
    moreover have "copy_loop (kv p) sz (kv d) (pa u) s = Some (kv d, s)" using False u2 by (simp add: copy_loop.simps pa_less)
    ultimately show ?thesis using ok cp by auto
  next
    case True
    have ut: "u < up sz" using True up_iff by simp
    have uU: "u < USER" using ut upU by simp
    obtain e where e: "lookup (pmem s0) p u = Some e" using pages True by blast
    have pte_p: "pte (pmem s) p u = e" "present e"
      using growsD(6) [OF g0 pd _ u2] p0 pd e by (auto simp: lookup_present)
    have pd_p: "present (pde (pmem s) p (u div 1024))" using pte_p by (auto simp: pte_def split: if_splits)
    have less_f: "fr (pde (pmem s) p (u div 1024)) < FRAMES" by (rule table_less [OF ok p u2 pd_p])
    let ?x = "entry_addr (pmem s) p (pa u)"
    have x: "?x \<noteq> 0" using entry_addr_nz [of "pmem s" p "pa u"] less_f u2 by simp
    have ldx: "ld ?x s = Some e" using ld_entry [of s p "pa u"] pd_p less_f u2 pte_p(1) by simp
    have wk: "walkpgdir (kv p) (pa u) False s = Some (?x, s)"
      using walk_find [OF dir_frame [OF ok p], of "pa u" s] pd_p u2 by simp
    have ofr: "ow0 (fr e) = Page p u"
      using space_okD(3) [OF mem_okD(2) [OF ok0] p0 uU] e by (auto simp: lookup_present)
    have src: "unat (V2P (P2V (PTE_ADDR e))) = 4096 * fr e" using fr_less [of e] by (simp add: PTE_ADDR_pa)
    have lt: "pa u < sz" using True u2 by (simp add: pa_less)
    have np: "\<not> present (pte (pmem s) d u)" using copiedD(3) [OF cp order_refl uU] by (simp add: lookup_present)
    from ok show ?thesis
    proof (cases rule: take_frame)
      case none
      obtain t2 where "freevm (kv d) s = Some t2" "undone s0 ow0 t2" using dropped [OF ok grows_refl] by blast
      moreover from this none(1) lt wk x ldx pte_p(2) have "copy_loop (kv p) sz (kv d) (pa u) s = Some (0, t2)"
        by (simp add: copy_loop.simps)
      moreover have "nfree ow0 \<le> 1026 + u" using copied_short [OF cp ok none(2)] by simp
      ultimately show ?thesis using ut by (intro exI [of _ 0] exI [of _ t2]) simp
    next
      case (frame f s1)
      define s2 where "s2 = s1\<lparr>pmem := memmove (pmem s) (4096 * f) (pmem s) (4096 * fr e) 4096\<rparr>"
      have tk: "taken f s ow s2" unfolding s2_def by (rule frame(5))
      have ps: "put (kv f) (pmem s1) (unat (V2P (P2V (PTE_ADDR e)))) 4096 s1 = Some s2"
        unfolding src using frame(3,4) by (simp add: put_frame s2_def)
      have head: "copy_loop (kv p) sz (kv d) (pa u) s =
          Option.bind (mappages (kv d) (pa u) 4096 (pa f) (PTE_FLAGS e) s2) (\<lambda>r.
            if fst r < 0 then Option.bind (kfree (kv f) (snd r)) (\<lambda>s. Option.bind (freevm (kv d) s) (\<lambda>s. Some (0, s)))
            else copy_loop (kv p) sz (kv d) (pa (Suc u)) (snd r))"
        using frame(1,2) lt wk x ldx pte_p(2) ps by (subst copy_loop.simps) (simp add: pa_Suc cong: if_cong)
      have pf: "PTE_ADDR (PTE_FLAGS e) = 0" by simp
      from tk d uU np pf show ?thesis
      proof (cases rule: map_taken)
        case none
        obtain t where t: "kfree (kv f) s2 = Some t" "mem_ok t ow" "grows d s ow t ow" by (rule put_back [OF ok tk])
        obtain t2 where t2: "freevm (kv d) t = Some t2" "undone s0 ow0 t2" using dropped [OF t(2,3)] by blast
        then have "copy_loop (kv p) sz (kv d) (pa u) s = Some (0, t2)" using head none(1) t(1) by simp
        moreover have "nfree ow0 \<le> 1026 + u" using copied_short [OF cp ok none(2)] by simp
        ultimately show ?thesis using t2(2) ut by (intro exI [of _ 0] exI [of _ t2]) simp
      next
        case (mapped t ow')
        have pt: "pte (pmem t) d v = (if v = u then pa f OR PTE_FLAGS e else pte (pmem s) d v)" if "v < 1048576" for v
          using mapped(5) [OF that] flags_present [OF pte_p(2)] by simp
        have b: "\<forall>k < 4096. pmem t (4096 * f + k) = pmem s0 (4096 * fr e + k)"
          using mapped(6) growsD(5) [OF g0, of "fr e"] ofr d0 by (cases "fr e = d") (simp_all add: s2_def memmove_def)
        have cp': "copied p d (Suc u) s0 ow0 t ow'"
          by (rule copied_more [OF cp ok uU takenD(1,8) [OF tk] d0 e mapped(3) pt b])
        have "up sz - Suc u < up sz - u" "Suc u \<le> up sz" using ut by simp_all
        from less.hyps [OF this(1) mapped(2) cp' this(2)] obtain r t3 where
          t3: "copy_loop (kv p) sz (kv d) (pa (Suc u)) t = Some (r, t3)"
          "r = 0 \<and> undone s0 ow0 t3 \<and> nfree ow0 \<le> 1026 + up sz \<or> r = kv d \<and> (\<exists>ow'. mem_ok t3 ow' \<and> copied p d (up sz) s0 ow0 t3 ow' \<and>
             (\<forall>v < 1048576. USER \<le> v \<longrightarrow> lookup (pmem t3) d v = lookup (pmem t) d v))" by blast
        have k: "lookup (pmem t) d v = lookup (pmem s) d v" if "v < 1048576" "USER \<le> v" for v
          using pt [OF that(1)] that(2) uU by (auto simp: lookup_def)
        have "copy_loop (kv p) sz (kv d) (pa u) s = Some (r, t3)" using head mapped(1) t3(1) by simp
        then show ?thesis using t3(2) k by auto
      qed
    qed
  qed
qed

lemma copyuvm_ok:
  assumes ok: "mem_ok s ow" and p: "ow p = Dir" and n: "sz \<le> KERNBASE" and q: "data_frame s q"
    and pages: "\<forall>v. 4096 * v < unat sz \<longrightarrow> lookup (pmem s) p v \<noteq> None"
  shows "\<exists>r t. copyuvm (kv p) sz s = Some (r, t) \<and>
    (r = 0 \<and> undone s ow t \<and> nfree ow \<le> 1026 + up sz \<or>
     (\<exists>d ow'. r = kv d \<and> ow d = Free \<and> mem_ok t ow' \<and> copied p d (up sz) s ow t ow' \<and>
       (\<forall>v < 1048576. USER \<le> v \<longrightarrow> lookup (pmem t) d v = kernel_map q v)))"
proof -
  have n': "unat sz \<le> 2147483648" using n by (simp add: word_le_nat_alt)
  have km: "kernel_map q v = None" if "v < USER" for v
    using that region_pte_before [OF kmap_regions(2) [OF q]] by (simp add: kernel_map_def)
  obtain r t where t: "setupkvm s = Some (r, t)" and c: "r = 0 \<and> undone s ow t \<and> nfree ow \<le> 1026 \<or>
     (\<exists>d ow'. r = kv d \<and> d < FRAMES \<and> ow d = Free \<and> mem_ok t ow' \<and> grows d s (ow(d := Dir)) t ow' \<and>
       (\<forall>v < 1048576. lookup (pmem t) d v = kernel_map q v))"
    using setupkvm_ok [OF ok q] by blast
  show ?thesis
  proof (cases "r = 0")
    case True
    then have "undone s ow t \<and> nfree ow \<le> 1026" using c by (metis kv_nz)
    then show ?thesis using t True by (simp add: copyuvm_def)
  next
    case False
    then obtain d ow' where d: "r = kv d" "ow d = Free" "mem_ok t ow'" "grows d s (ow(d := Dir)) t ow'"
      and k: "\<forall>v < 1048576. lookup (pmem t) d v = kernel_map q v" using c by blast
    have cp: "copied p d 0 s ow t ow'" using d(4) k km by (simp add: copied_def)
    have "pa 0 = 0" by (simp add: pa_def)
    then have "copyuvm (kv p) sz s = copy_loop (kv p) sz (kv d) (pa 0) t"
      using t False d(1) by (simp add: copyuvm_def)
    then show ?thesis
      using copy_loop_ok [OF ok p d(2) n' pages d(3) cp] d(1,2) k by (metis le0)
  qed
qed

end
