(* ===== verification/VmSpec.thy ===== *)
theory VmSpec
  imports VmCopy
begin

text \<open>
  What the virtual memory of the kernel promises: memory given to the allocator at boot is free,
  a space grows by zero pages or not at all, a copy of a space has the same contents in frames of
  its own, a destroyed space gives every frame back, and \<open>copyout\<close> writes the user memory of one
  space and nothing else.
\<close>

section \<open>Filling the free list\<close>

definition range_free :: "nat \<Rightarrow> nat \<Rightarrow> owners \<Rightarrow> owners" where
  "range_free u w ow = (\<lambda>f. if u \<le> f \<and> f < w then Free else ow f)"

lemma kv_add: "u < FRAMES \<Longrightarrow> unat (kv u + 4096) = 2147483648 + 4096 * Suc u"
  by (simp add: unat_word_ariths unat_kv)

lemma kv_Suc: "kv u + 4096 = kv (Suc u)"
  by (simp add: kv_def flip: pa_Suc)

lemma free_range_loop_ok:
  assumes "mem_ok s ow" "u \<le> w" "w \<le> FRAMES" "\<forall>f. u \<le> f \<and> f < w \<longrightarrow> ow f = Taken \<and> kend s \<le> kv f"
  shows "\<exists>t. free_range_loop (kv u) (kv w) s = Some t \<and> mem_ok t (range_free u w ow) \<and> kend t = kend s \<and> kdata t = kdata s \<and>
    (\<forall>f k. \<not> (u \<le> f \<and> f < w) \<longrightarrow> k < 4096 \<longrightarrow> pmem t (4096 * f + k) = pmem s (4096 * f + k))"
  using assms
proof (induction "w - u" arbitrary: u s ow)
  case base: (0 u s ow)
  then have uw: "u = w" by simp
  have "unat (kv w + 4096) = (if w < FRAMES then 2147483648 + 4096 * Suc w else 2147483648 + 4096 * Suc FRAMES)"
    using base.prems(3) by (auto simp: unat_word_ariths kv_def)
  moreover have "unat (kv w) = 2147483648 + 4096 * w"
    using base.prems(3) by (simp add: kv_def unat_word_ariths)
  ultimately have "\<not> kv w + 4096 \<le> kv w" using base.prems(3) by (auto simp: word_le_nat_alt)
  then have "free_range_loop (kv u) (kv w) s = Some s" using uw by (simp add: free_range_loop.simps)
  moreover have "range_free u w ow = ow" using uw by (auto simp: range_free_def fun_eq_iff)
  ultimately show ?case using base.prems(1) by simp
next
  case step: (Suc n u s ow)
  then have uw: "u < w" by simp
  have ul: "u < FRAMES" using uw step.prems(3) by simp
  have "unat (kv w) = 2147483648 + 4096 * w" using step.prems(3) by (simp add: kv_def unat_word_ariths)
  then have le: "kv u + 4096 \<le> kv w" using kv_add [OF ul] uw by (simp add: word_le_nat_alt)
  have u: "ow u = Taken" "ram_frame s u" using step.prems(4) uw ul by (simp_all add: ram_frame_def)
  obtain s1 where s1: "kfree (kv u) s = Some s1" "mem_ok s1 (ow(u := Free))" "agree {u} (pmem s) (pmem s1)"
    "kend s1 = kend s" "kdata s1 = kdata s"
    using kfree_taken [OF step.prems(1) u] by metis
  have "n = w - Suc u" "Suc u \<le> w" using step.hyps(2) uw by simp_all
  moreover have "\<forall>f. Suc u \<le> f \<and> f < w \<longrightarrow> (ow(u := Free)) f = Taken \<and> kend s1 \<le> kv f"
    using step.prems(4) s1(4) by auto
  ultimately obtain t where t: "free_range_loop (kv (Suc u)) (kv w) s1 = Some t"
    "mem_ok t (range_free (Suc u) w (ow(u := Free)))" "kend t = kend s1" "kdata t = kdata s1"
    "\<forall>f k. \<not> (Suc u \<le> f \<and> f < w) \<longrightarrow> k < 4096 \<longrightarrow> pmem t (4096 * f + k) = pmem s1 (4096 * f + k)"
    using step.hyps(1) [OF _ s1(2) _ step.prems(3), of "Suc u"] by blast
  have "free_range_loop (kv u) (kv w) s = Some t"
    using le s1(1) t(1) by (subst free_range_loop.simps) (simp add: kv_Suc)
  moreover have "range_free (Suc u) w (ow(u := Free)) = range_free u w ow" using uw by (auto simp: range_free_def)
  moreover have "pmem t (4096 * f + k) = pmem s (4096 * f + k)" if "\<not> (u \<le> f \<and> f < w)" "k < 4096" for f k
  proof -
    have "f \<noteq> u" using that(1) uw by auto
    then show ?thesis using t(5) that agreeD [OF s1(3) _ that(2), of f] by auto
  qed
  ultimately show ?case using t(2-4) s1(4,5) by auto
qed

lemma ROUNDUP_kv: "u < FRAMES \<Longrightarrow> PGROUNDUP (kv u) = kv u"
proof -
  assume u: "u < FRAMES"
  have "up (kv u) = 524288 + u" using unat_kv [OF u] by (simp add: up_def)
  moreover have "PGROUNDUP (kv u) = pa (up (kv u))" by (rule ROUNDUP_up) (use unat_kv [OF u] u in simp)
  ultimately show ?thesis by (simp add: kv_def pa_def)
qed

lemma freerange_ok:
  assumes "mem_ok s ow" "u \<le> w" "u < FRAMES" "w \<le> FRAMES" "\<forall>f. u \<le> f \<and> f < w \<longrightarrow> ow f = Taken \<and> kend s \<le> kv f"
  shows "\<exists>t. freerange (kv u) (kv w) s = Some t \<and> mem_ok t (range_free u w ow) \<and> kend t = kend s \<and> kdata t = kdata s \<and>
    (\<forall>f k. \<not> (u \<le> f \<and> f < w) \<longrightarrow> k < 4096 \<longrightarrow> pmem t (4096 * f + k) = pmem s (4096 * f + k))"
  using free_range_loop_ok [OF assms(1,2,4,5)] ROUNDUP_kv [OF assms(3)] by (simp add: freerange_def)

section \<open>A machine with one process\<close>

text \<open>
  A directory in frame 600 whose table in frame 601 maps page 0 to frame 602; frames from 1000 up
  to the end of memory are given to the allocator.
\<close>

definition first_space :: vm where
  "first_space = \<lparr>pmem = store32 (store32 (\<lambda>_. 0) (4096 * 600 + 4 * 0) (pa 601 OR 7)) (4096 * 601 + 4 * 0) (pa 602 OR 7),
     freelist = 0, kend = kv 512, kdata = kv 300\<rparr>"

definition first_owners :: owners where
  "first_owners = ((\<lambda>_. Taken)(600 := Dir, 601 := Table 600 0, 602 := Page 600 0))"

definition machine :: vm where
  "machine = the (freerange (kv 1000) (kv 57344) first_space)"

definition machine_owners :: owners where
  "machine_owners = range_free 1000 57344 first_owners"

lemma first_space_ok: "mem_ok first_space first_owners" "lookup (pmem first_space) 600 0 = Some (pa 602 OR 7)"
proof -
  define m0 :: bytes where "m0 = (\<lambda>_. 0)"
  define ow0 :: owners where "ow0 = (\<lambda>_. Taken)(600 := Dir)"
  define m1 where "m1 = store32 m0 (4096 * 600 + 4 * 0) (pa 601 OR 7)"
  have z: "pde m0 d i = 0" "pte m0 d v = 0" for d i v by (simp_all add: pde_def pte_def m0_def load_zeros)
  have sp0: "space_ok m0 ow0" unfolding space_ok_def by (simp add: z ow0_def)
  have e: "present (pa 601 OR 7)" "fr (pa 601 OR 7) = 601" by (simp, rule fr_or) (simp_all add: PTE_ADDR_def)
  have f: "present (pa 602 OR 7)" "fr (pa 602 OR 7) = 602" by (simp, rule fr_or) (simp_all add: PTE_ADDR_def)
  have d0: "ow0 600 = Dir" "ow0 601 = Taken" "ow0 602 = Taken" by (simp_all add: ow0_def)
  have np: "\<not> present (pde m0 600 0)" by (simp add: z)
  have zf: "\<forall>k < 4096. m0 (4096 * 601 + k) = 0" by (simp add: m0_def)
  note L = link_table [OF sp0 d0(1) _ np d0(2) zf e m1_def, simplified]
  define ow1 where "ow1 = ow0(601 := Table 600 0)"
  have d1: "ow1 600 = Dir" by (simp add: ow1_def ow0_def)
  have sp1: "space_ok m1 ow1" using L(1) by (simp add: ow1_def)
  have pd1: "pde m1 600 (0 div 1024) = pa 601 OR 7" using L(2) [of 0 600] by simp
  have pr1: "present (pde m1 600 (0 div 1024))" using pd1 e by simp
  define m2 where "m2 = store32 m1 (4096 * fr (pde m1 600 (0 div 1024)) + 4 * (0 mod 1024)) (pa 602 OR 7)"
  have m2: "m2 = pmem first_space" using pd1 e(2) by (simp add: m2_def first_space_def m1_def m0_def)
  have pt1: "pte m1 600 0 = 0" using L(3) [of 600 0] d0(1) z by simp
  have nopage: "ow1 g \<noteq> Page 600 0" for g by (simp add: ow1_def ow0_def)
  have "space_ok m2 first_owners"
    by (rule store_entry_space [OF sp1 d1 _ pr1 m2_def])
      (use nopage f in \<open>auto simp: first_owners_def ow1_def ow0_def split: if_splits\<close>)
  moreover have "free_ok first_space first_owners"
  proof -
    have ram: "ram_frame first_space g" if "first_owners g \<noteq> Taken" for g
    proof -
      have "g = 600 \<or> g = 601 \<or> g = 602" using that by (auto simp: first_owners_def split: if_splits)
      then show ?thesis by (auto simp: ram_frame_def first_space_def word_le_nat_alt unat_kv)
    qed
    have "kend first_space = kv 512" by (simp add: first_space_def)
    then have "KERNBASE < kend first_space" by (simp add: word_less_nat_alt unat_kv)
    moreover have "{g. first_owners g = Free} = {}" by (auto simp: first_owners_def)
    moreover have "chain (pmem first_space) (freelist first_space) []" by (simp add: first_space_def)
    ultimately show ?thesis using ram unfolding free_ok_def by (metis distinct.simps(1) list.set(1))
  qed
  ultimately show "mem_ok first_space first_owners" by (simp add: mem_ok_def m2)
  have "pte m2 600 0 = pa 602 OR 7" using store_entry(2) [OF sp1 d1 _ pr1 m2_def, of 600 0] d1 by simp
  then show "lookup (pmem first_space) 600 0 = Some (pa 602 OR 7)" by (simp add: lookup_def m2)
qed

lemma machine_ok:
  "mem_ok machine machine_owners" "machine_owners 600 = Dir" "machine_owners 602 = Page 600 0"
  "lookup (pmem machine) 600 0 = Some (pa 602 OR 7)" "data_frame machine 300" "kend machine = kv 512"
proof -
  have "\<forall>f. 1000 \<le> f \<and> f < 57344 \<longrightarrow> first_owners f = Taken \<and> kend first_space \<le> kv f"
    by (auto simp: first_owners_def first_space_def word_le_nat_alt unat_kv)
  then obtain t where t: "freerange (kv 1000) (kv 57344) first_space = Some t" "mem_ok t machine_owners"
    "kend t = kend first_space" "kdata t = kdata first_space"
    "\<forall>f k. \<not> (1000 \<le> f \<and> f < 57344) \<longrightarrow> k < 4096 \<longrightarrow> pmem t (4096 * f + k) = pmem first_space (4096 * f + k)"
    using freerange_ok [OF first_space_ok(1), of 1000 57344] unfolding machine_owners_def by auto
  have m: "machine = t" by (simp add: machine_def t(1))
  show "mem_ok machine machine_owners" using t(2) by (simp add: m)
  show d: "machine_owners 600 = Dir" "machine_owners 602 = Page 600 0" by (simp_all add: machine_owners_def range_free_def first_owners_def)
  show "data_frame machine 300" "kend machine = kv 512" using t(3,4) by (simp_all add: m data_frame_def first_space_def)
  have ag: "agree {f. 1000 \<le> f \<and> f < 57344} (pmem first_space) (pmem t)" using t(5) by (auto simp: agree_def)
  have "\<forall>f \<in> {f. 1000 \<le> f \<and> f < 57344}. first_owners f \<noteq> Dir \<and> (\<forall>d i. first_owners f \<noteq> Table d i)"
    by (auto simp: first_owners_def)
  from space_agree(2) [OF mem_okD(2) [OF first_space_ok(1)] ag this, of 600 0]
  have "pte (pmem t) 600 0 = pte (pmem first_space) 600 0" by (simp add: first_owners_def)
  then have "lookup (pmem machine) 600 0 = lookup (pmem first_space) 600 0" by (simp add: lookup_def m)
  then show "lookup (pmem machine) 600 0 = Some (pa 602 OR 7)" using first_space_ok(2) by simp
qed

section \<open>Writing user memory\<close>

text \<open>The byte at a user address, and the addresses that are mapped for the user.\<close>

definition ubyte :: "vm \<Rightarrow> nat \<Rightarrow> nat \<Rightarrow> u8" where
  "ubyte s d x = pmem s (4096 * fr (pte (pmem s) d (x div 4096)) + x mod 4096)"

definition umapped :: "vm \<Rightarrow> nat \<Rightarrow> nat \<Rightarrow> bool" where
  "umapped s d x \<longleftrightarrow> x < 2147483648 \<and> (\<exists>e. lookup (pmem s) d (x div 4096) = Some e \<and> e AND 4 \<noteq> 0)"

text \<open>Only the bytes from \<open>a\<close> to \<open>a + l\<close> of the space \<open>d\<close> have changed, to those of \<open>src\<close>.\<close>

definition wrote :: "nat \<Rightarrow> nat \<Rightarrow> nat \<Rightarrow> bytes \<Rightarrow> vm \<Rightarrow> owners \<Rightarrow> vm \<Rightarrow> bool" where
  "wrote d a l src s ow t \<longleftrightarrow> mem_ok t ow \<and> (\<forall>d' v. ow d' = Dir \<longrightarrow> v < 1048576 \<longrightarrow> pte (pmem t) d' v = pte (pmem s) d' v) \<and>
     (\<forall>d' x. ow d' = Dir \<longrightarrow> umapped s d' x \<longrightarrow>
        ubyte t d' x = (if d' = d \<and> a \<le> x \<and> x < a + l then src (x - a) else ubyte s d' x))"

lemma wroteD:
  assumes "wrote d a l src s ow t"
  shows "mem_ok t ow" "ow d' = Dir \<Longrightarrow> v < 1048576 \<Longrightarrow> pte (pmem t) d' v = pte (pmem s) d' v"
    "ow d' = Dir \<Longrightarrow> umapped s d' x \<Longrightarrow>
       ubyte t d' x = (if d' = d \<and> a \<le> x \<and> x < a + l then src (x - a) else ubyte s d' x)"
  using assms unfolding wrote_def by blast+

lemma umapped_same:
  assumes "wrote d a l src s ow t" "ow d' = Dir"
  shows "umapped t d' x = umapped s d' x"
proof -
  have "lookup (pmem t) d' (x div 4096) = lookup (pmem s) d' (x div 4096)" if "x < 2147483648"
    using wroteD(2) [OF assms, of "x div 4096"] that by (simp add: lookup_def)
  then show ?thesis by (cases "x < 2147483648") (simp_all add: umapped_def)
qed

lemma wrote_trans:
  assumes w: "wrote d a n src s ow t" and v: "wrote d (a + n) m (\<lambda>k. src (n + k)) t ow u"
  shows "wrote d a (n + m) src s ow u"
  unfolding wrote_def
proof (intro conjI allI impI)
  show "mem_ok u ow" by (rule wroteD(1) [OF v])
  show "pte (pmem u) d' v' = pte (pmem s) d' v'" if "ow d' = Dir" "v' < 1048576" for d' v'
    using wroteD(2) [OF w that] wroteD(2) [OF v that] by simp
  show "ubyte u d' x = (if d' = d \<and> a \<le> x \<and> x < a + (n + m) then src (x - a) else ubyte s d' x)"
    if "ow d' = Dir" "umapped s d' x" for d' x
    using wroteD(3) [OF w that] wroteD(3) [OF v that(1)] umapped_same [OF w that(1)] that(2) by auto
qed

text \<open>One page of \<open>copyout\<close>: a user address has a kernel address, and a store there changes its page.\<close>

lemma found_entry:
  assumes ok: "mem_ok s ow" and d: "ow d = Dir" and e: "lookup (pmem s) d (vpn a) = Some e"
  shows "walkpgdir (kv d) a False s = Some (entry_addr (pmem s) d a, s)" "entry_addr (pmem s) d a \<noteq> 0"
    "ld (entry_addr (pmem s) d a) s = Some e" "present e"
proof -
  have p: "pte (pmem s) d (vpn a) = e" "present e" using e by (auto simp: lookup_present)
  have pd: "present (pde (pmem s) d (vpn a div 1024))" using p by (auto simp: pte_def split: if_splits)
  have less: "fr (pde (pmem s) d (vpn a div 1024)) < FRAMES" by (rule table_less [OF ok d vpn_less pd])
  show "walkpgdir (kv d) a False s = Some (entry_addr (pmem s) d a, s)"
    using walk_find [OF dir_frame [OF ok d], of a s] pd by simp
  show "entry_addr (pmem s) d a \<noteq> 0" by (rule entry_addr_nz [OF less])
  show "ld (entry_addr (pmem s) d a) s = Some e" using ld_entry [OF pd less] p(1) by simp
  show "present e" by (rule p(2))
qed

lemma uva2ka_ok:
  assumes ok: "mem_ok s ow" and d: "ow d = Dir" and v: "v < 1048576" and e: "lookup (pmem s) d v = Some e" "e AND 4 \<noteq> 0"
  shows "uva2ka (kv d) (pa v) s = Some (kv (fr e))"
  using found_entry [OF ok d, of "pa v" e] v e by (simp add: uva2ka_def)

lemma put_page:
  assumes ok: "mem_ok s ow" and f: "ow f = Page d v" and n: "k + n \<le> 4096"
    and t: "t = s\<lparr>pmem := memmove (pmem s) (4096 * f + k) src j n\<rparr>"
  shows "wrote d (4096 * v + k) n (\<lambda>i. src (j + i)) s ow t"
proof -
  note sp = mem_okD(2) [OF ok]
  have ag: "agree {f} (pmem s) (pmem t)"
    unfolding agree_def
  proof (intro allI impI)
    fix g i :: nat assume g: "g \<notin> {f}" and i: "i < 4096"
    from g consider "g < f" | "f < g" by force
    then show "pmem t (4096 * g + i) = pmem s (4096 * g + i)"
      using i n frame_before [of g f i] by cases (simp_all add: t memmove_def)
  qed
  have F: "\<forall>g \<in> {f}. ow g \<noteq> Dir \<and> (\<forall>d i. ow g \<noteq> Table d i)" using f by simp
  note A = space_agree [OF sp ag F]
  have "free_ok t ow" by (rule free_agree [OF mem_okD(1) [OF ok] ag]) (use f in \<open>simp_all add: t\<close>)
  then have okt: "mem_ok t ow" using A(1) by (simp add: mem_ok_def)
  have "ubyte t d' x = (if d' = d \<and> 4096 * v + k \<le> x \<and> x < 4096 * v + k + n then src (j + (x - (4096 * v + k))) else ubyte s d' x)"
    if d': "ow d' = Dir" and x: "umapped s d' x" for d' x
  proof -
    let ?w = "x div 4096"
    have w: "?w < USER" using x by (auto simp: umapped_def)
    then have w2: "?w < 1048576" by simp
    have pr: "present (pte (pmem s) d' ?w)" using x by (auto simp: umapped_def lookup_present)
    have o: "ow (fr (pte (pmem s) d' ?w)) = Page d' ?w" by (rule space_okD(3) [OF sp d' w pr])
    have pt: "pte (pmem t) d' ?w = pte (pmem s) d' ?w" by (rule A(2) [OF d' w2])
    have xs: "x = 4096 * ?w + x mod 4096" by simp
    show ?thesis
    proof (cases "fr (pte (pmem s) d' ?w) = f")
      case True
      with o f have dw: "d' = d" "?w = v" by auto
      have in_page: "4096 * v + k \<le> x \<and> x < 4096 * v + k + n \<longleftrightarrow> k \<le> x mod 4096 \<and> x mod 4096 < k + n"
        using xs dw(2) by linarith
      have "x - (4096 * v + k) = x mod 4096 - k" using xs dw(2) by linarith
      then show ?thesis using True dw in_page pt by (simp add: ubyte_def t memmove_def)
    next
      case False
      have "\<not> (d' = d \<and> 4096 * v + k \<le> x \<and> x < 4096 * v + k + n)"
      proof
        assume a: "d' = d \<and> 4096 * v + k \<le> x \<and> x < 4096 * v + k + n"
        then have "?w = v" using n by (intro div_nat_eqI) simp_all
        with a f space_okD(4) [OF sp f] False show False by simp
      qed
      moreover have "pmem t (4096 * fr (pte (pmem s) d' ?w) + x mod 4096) = pmem s (4096 * fr (pte (pmem s) d' ?w) + x mod 4096)"
        by (rule agreeD [OF ag]) (use False in simp_all)
      ultimately show ?thesis using pt by (auto simp: ubyte_def)
    qed
  qed
  then show ?thesis using okt A(2) unfolding wrote_def by blast
qed

lemma copyout_loop_ok:
  assumes "mem_ok s ow" "ow d = Dir" "unat va + unat len \<le> 2147483648"
    and "\<forall>x. unat va \<le> x \<and> x < unat va + unat len \<longrightarrow> umapped s d x"
  shows "\<exists>t. copyout_loop (kv d) va buf j len s = Some (0, t) \<and> wrote d (unat va) (unat len) (\<lambda>i. buf (j + i)) s ow t"
  using assms
proof (induction "unat len" arbitrary: va len j s rule: less_induct)
  case less
  note ok = less.prems(1) and d = less.prems(2) and bound = less.prems(3) and mapped = less.prems(4)
  show ?case
  proof (cases "len = 0")
    case True
    have "wrote d (unat va) 0 (\<lambda>i. buf (j + i)) s ow s" using ok by (auto simp: wrote_def)
    then show ?thesis using True by (simp add: copyout_loop.simps)
  next
    case False
    then have pos: "0 < unat len" by (simp add: unat_gt_0)
    let ?v = "vpn va"
    define k where "k = unat va mod 4096"
    define n where "n = min (4096 - k) (unat len)"
    have a: "unat va = 4096 * ?v + k" by (simp add: vpn_def k_def)
    have k: "k < 4096" by (simp add: k_def)
    have n: "0 < n" "n \<le> unat len" "k + n \<le> 4096" using k pos by (auto simp: n_def)
    have vU: "?v < USER" using a bound pos by linarith
    have v2: "?v < 1048576" using vU by simp
    have sub: "unat (va - pa ?v) = k" using a v2 by (subst unat_sub) (simp_all add: word_le_nat_alt)
    have sub2: "unat (PGSIZE - (va - pa ?v)) = 4096 - k" using sub k by (subst unat_sub) (simp_all add: word_le_nat_alt)
    define m where "m = (if PGSIZE - (va - pa ?v) > len then len else PGSIZE - (va - pa ?v))"
    have nw: "unat m = n" using sub2 by (auto simp: m_def n_def word_less_nat_alt)
    have um: "umapped s d (4096 * ?v + k)" using mapped pos by (simp add: a)
    have "(4096 * ?v + k) div 4096 = ?v" using k by simp
    then obtain e where e: "lookup (pmem s) d ?v = Some e" "e AND 4 \<noteq> 0" using um by (auto simp: umapped_def)
    have "uva2ka (kv d) (PGROUNDDOWN va) s = Some (kv (fr e))"
      unfolding ROUNDDOWN_vpn by (rule uva2ka_ok [OF ok d v2 e])
    note ka = this [unfolded ROUNDDOWN_vpn]
    have fr_e: "ow (fr e) = Page d ?v"
      using space_okD(3) [OF mem_okD(2) [OF ok] d vU] e(1) by (auto simp: lookup_present)
    have fl: "fr e < FRAMES" using free_okD(2) [OF mem_okD(1) [OF ok], of "fr e"] fr_e by simp
    define t where "t = s\<lparr>pmem := memmove (pmem s) (4096 * fr e + k) buf j n\<rparr>"
    have "unat (V2P (kv (fr e) + (va - pa ?v))) = 4096 * fr e + k" using unat_off [OF fl, of "va - pa ?v"] sub k by simp
    moreover from this have "in_ram (kv (fr e) + (va - pa ?v)) n" using n(3) fl by (simp add: in_ram_def)
    ultimately have pt: "put (kv (fr e) + (va - pa ?v)) buf j n s = Some t" by (simp add: put_def t_def)
    have w: "wrote d (unat va) n (\<lambda>i. buf (j + i)) s ow t"
      unfolding a by (rule put_page [OF ok fr_e n(3)]) (simp add: t_def)
    define len' where "len' = len - m"
    have l': "unat len' = unat len - n" unfolding len'_def using n(2) nw
      by (subst unat_sub) (simp_all add: word_le_nat_alt)
    have step: "copyout_loop (kv d) va buf j len s = copyout_loop (kv d) (pa ?v + PGSIZE) buf (j + n) len' t"
      using False ka pt nw fl by (subst copyout_loop.simps)
        (simp add: Let_def ROUNDDOWN_vpn word_gt_0 len'_def flip: m_def)
    show ?thesis
    proof (cases "len' = 0")
      case True
      have "copyout_loop (kv d) (pa ?v + PGSIZE) buf (j + n) len' t = Some (0, t)" using True by (simp add: copyout_loop.simps)
      moreover have "unat len = n" using True l' n(2) by simp
      ultimately show ?thesis using step w by auto
    next
      case nz: False
      then have "n < unat len" using l' unat_gt_0 [of len'] by simp
      then have kn: "k + n = 4096" using k by (simp add: n_def)
      have vS: "Suc ?v < 1048576" using vU by simp
      have va': "unat (pa ?v + PGSIZE) = unat va + n" using kn a unat_pa [OF vS] by (simp add: pa_Suc)
      have dec: "unat len' < unat len" using l' n by simp
      have b': "unat (pa ?v + PGSIZE) + unat len' \<le> 2147483648" using va' l' n(2) bound by simp
      have m': "\<forall>x. unat (pa ?v + PGSIZE) \<le> x \<and> x < unat (pa ?v + PGSIZE) + unat len' \<longrightarrow> umapped t d x"
        using mapped va' l' n(2) umapped_same [OF w d] by simp
      obtain u where u: "copyout_loop (kv d) (pa ?v + PGSIZE) buf (j + n) len' t = Some (0, u)"
        "wrote d (unat (pa ?v + PGSIZE)) (unat len') (\<lambda>i. buf (j + n + i)) t ow u"
        using less.hyps [OF dec wroteD(1) [OF w] d b' m'] by blast
      have "wrote d (unat va + n) (unat len') (\<lambda>i. buf (j + (n + i))) t ow u" using u(2) by (simp add: va' add.assoc)
      from wrote_trans [OF w this] show ?thesis using step u(1) l' n(2) by simp
    qed
  qed
qed

section \<open>Properties\<close>

lemma machine_free: "nfree machine_owners = 56344"
proof -
  have "{f. machine_owners f = Free} = {1000..<57344}"
    by (auto simp: machine_owners_def range_free_def first_owners_def)
  then show ?thesis by (simp add: nfree_def)
qed

lemma machine_pages: "v < USER \<Longrightarrow> v \<noteq> 0 \<Longrightarrow> lookup (pmem machine) 600 v = None"
proof (rule ccontr)
  assume v: "v < USER" "v \<noteq> 0" and n: "lookup (pmem machine) 600 v \<noteq> None"
  then have "machine_owners (fr (pte (pmem machine) 600 v)) = Page 600 v"
    using space_okD(3) [OF mem_okD(2) [OF machine_ok(1)] machine_ok(2) v(1)] by (simp add: lookup_present)
  then show False using v by (simp add: machine_owners_def range_free_def first_owners_def split: if_splits)
qed

lemma machine_user: "x < 4096 \<Longrightarrow> umapped machine 600 x"
  using machine_ok(4) by (simp add: umapped_def pa_def)

text \<open>
  C18. \<open>allocuvm\<close> on pages that are not mapped: it returns the new size and each page between the
  sizes is a zero page in a frame that was free, readable and writable by the user, or it returns 0
  and no page has changed; every other page, the bytes of every other frame in use and every other
  address space are as before. It succeeds when more frames are free than the pages and a full
  set of tables need.
\<close>

theorem allocuvm_grows:
  assumes "mem_ok s ow" "ow d = Dir" "old \<le> new" "new < KERNBASE"
    and "\<forall>v \<in> pages (up old) new. lookup (pmem s) d v = None"
  shows "\<exists>r t ow'. allocuvm (kv d) old new s = Some (r, t) \<and> mem_ok t ow' \<and> grows d s ow t ow' \<and>
    (r = new \<and> (\<forall>v \<in> pages (up old) new. \<exists>f. lookup (pmem t) d v = Some (pa f OR 7) \<and> ow f = Free \<and> zero_frame t f) \<and>
       (\<forall>v < 1048576. v \<notin> pages (up old) new \<longrightarrow> lookup (pmem t) d v = lookup (pmem s) d v) \<or>
     r = 0 \<and> (\<forall>v < 1048576. lookup (pmem t) d v = lookup (pmem s) d v)) \<and>
    (1024 + card (pages (up old) new) < nfree ow \<longrightarrow> r = new)"
proof -
  obtain r t ow' where r: "allocuvm (kv d) old new s = Some (r, t)" "mem_ok t ow'"
    "r = new \<and> filled d (pages (up old) new) s ow t ow' \<or>
     r = 0 \<and> grows d s ow t ow' \<and> (\<forall>v < 1048576. lookup (pmem t) d v = lookup (pmem s) d v) \<and>
     nfree ow \<le> 1024 + card (pages (up old) new)"
    using allocuvm_ok [OF assms(1,2,4,3,5)] by blast
  from r(3) show ?thesis
  proof (elim disjE conjE)
    assume n: "r = new" and f: "filled d (pages (up old) new) s ow t ow'"
    have "\<forall>v \<in> pages (up old) new. \<exists>f. lookup (pmem t) d v = Some (pa f OR 7) \<and> ow f = Free \<and> zero_frame t f"
      using filledD(3) [OF f] by blast
    moreover have "\<forall>v < 1048576. v \<notin> pages (up old) new \<longrightarrow> lookup (pmem t) d v = lookup (pmem s) d v"
      using filledD(2) [OF f] by blast
    ultimately show ?thesis using n r(1,2) filledD(1) [OF f] by blast
  next
    assume "r = 0" "grows d s ow t ow'" "\<forall>v < 1048576. lookup (pmem t) d v = lookup (pmem s) d v"
      and "nfree ow \<le> 1024 + card (pages (up old) new)"
    then show ?thesis using r(1,2) by (intro exI [of _ r] exI [of _ t] exI [of _ ow']) simp
  qed
qed

lemma pages_machine: "pages (up 4096) 8192 = {1}"
  by (auto simp: up_def)

lemma allocuvm_grows_witness: "\<exists>t. allocuvm (kv 600) 4096 8192 machine = Some (8192, t)"
proof -
  have "\<forall>v \<in> pages (up 4096) 8192. lookup (pmem machine) 600 v = None"
    unfolding pages_machine using machine_pages [of 1] by simp
  from allocuvm_grows [OF machine_ok(1,2) _ _ this] show ?thesis
    unfolding pages_machine machine_free by auto
qed

text \<open>
  C17. \<open>copyuvm\<close> for a process whose pages below \<open>sz\<close> are all present: it returns 0 and every frame, page
  and address space is as before, or the address of a new directory whose pages below \<open>sz\<close> have
  the bytes and the permissions of the parent's pages, in frames that were free, and whose other
  entries are the kernel's; parent and other spaces are unchanged. It succeeds when more than
  1026 frames and the pages to copy are free.
\<close>

theorem copyuvm_copies:
  assumes "mem_ok s ow" "ow p = Dir" "sz \<le> KERNBASE" "data_frame s q"
    and "\<forall>v. 4096 * v < unat sz \<longrightarrow> lookup (pmem s) p v \<noteq> None"
  shows "\<exists>r t. copyuvm (kv p) sz s = Some (r, t) \<and>
    (r = 0 \<and> undone s ow t \<or>
     (\<exists>d ow'. r = kv d \<and> ow d = Free \<and> ow' d = Dir \<and> mem_ok t ow' \<and>
       (\<forall>v. 4096 * v < unat sz \<longrightarrow> same_page s ow p t d v) \<and>
       (\<forall>v < 1048576. \<not> 4096 * v < unat sz \<longrightarrow> lookup (pmem t) d v = kernel_map q v) \<and>
       (\<forall>d' v. ow d' = Dir \<longrightarrow> v < 1048576 \<longrightarrow> pte (pmem t) d' v = pte (pmem s) d' v) \<and>
       (\<forall>f k. data (ow f) \<longrightarrow> k < 4096 \<longrightarrow> pmem t (4096 * f + k) = pmem s (4096 * f + k)))) \<and>
    (1026 + up sz < nfree ow \<longrightarrow> r \<noteq> 0)"
proof -
  obtain r t where r: "copyuvm (kv p) sz s = Some (r, t)"
    "r = 0 \<and> undone s ow t \<and> nfree ow \<le> 1026 + up sz \<or>
     (\<exists>d ow'. r = kv d \<and> ow d = Free \<and> mem_ok t ow' \<and> copied p d (up sz) s ow t ow' \<and>
       (\<forall>v < 1048576. USER \<le> v \<longrightarrow> lookup (pmem t) d v = kernel_map q v))"
    using copyuvm_ok [OF assms] by blast
  from r(2) show ?thesis
  proof (elim disjE exE conjE)
    assume "r = 0" "undone s ow t" "nfree ow \<le> 1026 + up sz"
    then show ?thesis using r(1) by (intro exI [of _ r] exI [of _ t]) simp
  next
    fix d ow' assume d: "r = kv d" "ow d = Free" "mem_ok t ow'" and c: "copied p d (up sz) s ow t ow'"
      and k: "\<forall>v < 1048576. USER \<le> v \<longrightarrow> lookup (pmem t) d v = kernel_map q v"
    note g = copiedD(1) [OF c]
    have d': "ow' d = Dir" using growsD(3) [OF g, of d] by simp
    have ker: "lookup (pmem t) d v = kernel_map q v" if v: "v < 1048576" "\<not> 4096 * v < unat sz" for v
    proof (cases "v < USER")
      case True
      then have "kernel_map q v = None" using region_pte_before [OF kmap_regions(2) [OF assms(4)]] by (simp add: kernel_map_def)
      then show ?thesis using copiedD(3) [OF c _ True] v(2) up_iff [of v sz] by simp
    next
      case False
      then show ?thesis using k v by simp
    qed
    have "pte (pmem t) d' v = pte (pmem s) d' v" if "ow d' = Dir" "v < 1048576" for d' v
      using growsD(6) [OF g, of d' v] that d(2) by (cases "d' = d") simp_all
    moreover have "pmem t (4096 * f + k) = pmem s (4096 * f + k)" if "data (ow f)" "k < 4096" for f k
      using growsD(5) [OF g, of f k] that d(2) by (cases "f = d") simp_all
    moreover have "\<forall>v. 4096 * v < unat sz \<longrightarrow> same_page s ow p t d v" using copiedD(2) [OF c] up_iff by blast
    moreover have "r \<noteq> 0" using dir_frame [OF d(3) d'] d(1) by simp
    ultimately show ?thesis using r(1) d d' ker by (intro exI [of _ r] exI [of _ t]) blast
  qed
qed

lemma copyuvm_copies_witness:
  "\<exists>d t. copyuvm (kv 600) 4096 machine = Some (kv d, t) \<and> same_page machine machine_owners 600 t d 0"
proof -
  have "\<forall>v. 4096 * v < unat (4096 :: u32) \<longrightarrow> lookup (pmem machine) 600 v \<noteq> None" using machine_ok(4) by simp
  moreover have "up 4096 = 1" by (simp add: up_def)
  ultimately show ?thesis using copyuvm_copies [OF machine_ok(1,2) _ machine_ok(5), of 4096] machine_free by auto
qed

text \<open>
  C19. \<open>freevm\<close> gives back the directory, the tables and the pages of the space it destroys and nothing
  else; every other space and the bytes of every other frame in use stay.
\<close>

theorem freevm_gives_back:
  assumes "mem_ok s ow" "ow d = Dir"
  shows "\<exists>t. freevm (kv d) s = Some t \<and> mem_ok t (\<lambda>f. if f = d \<or> belongs d (ow f) then Free else ow f) \<and>
    (\<forall>d' v. d' \<noteq> d \<longrightarrow> ow d' = Dir \<longrightarrow> v < 1048576 \<longrightarrow> pte (pmem t) d' v = pte (pmem s) d' v) \<and>
    (\<forall>f k. data (ow f) \<longrightarrow> \<not> belongs d (ow f) \<longrightarrow> k < 4096 \<longrightarrow> pmem t (4096 * f + k) = pmem s (4096 * f + k))"
proof -
  obtain t ow' where t: "freevm (kv d) s = Some t" "mem_ok t ow'" "drops d s ow t ow'"
    by (rule freevm_ok [OF assms])
  have ow': "ow' = (\<lambda>f. if f = d \<or> belongs d (ow f) then Free else ow f)" using dropsD(3) [OF t(3)] by blast
  have "pmem t (4096 * f + k) = pmem s (4096 * f + k)" if "data (ow f)" "\<not> belongs d (ow f)" "k < 4096" for f k
  proof -
    have "f \<noteq> d" using that(1) assms(2) by auto
    then show ?thesis using dropsD(4) [OF t(3) _ that(3), of f] that ow' by simp
  qed
  then show ?thesis using t(1,2) dropsD(5) [OF t(3)] unfolding ow' by blast
qed

lemma freevm_gives_back_witness:
  "\<exists>t. freevm (kv 600) machine = Some t \<and>
    mem_ok t (\<lambda>f. if f = 600 \<or> belongs 600 (machine_owners f) then Free else machine_owners f)"
  using freevm_gives_back [OF machine_ok(1,2)] by blast

text \<open>
  C20. \<open>copyout\<close> to addresses that are all mapped for the user: it returns 0, the bytes at the addresses
  are those of the buffer, and no other byte that a user reaches in this or another address space changes.
\<close>

theorem copyout_writes:
  assumes "mem_ok s ow" "ow d = Dir" "unat va + unat len \<le> 2147483648"
    and "\<forall>x. unat va \<le> x \<and> x < unat va + unat len \<longrightarrow> umapped s d x"
  shows "\<exists>t. copyout (kv d) va buf len s = Some (0, t) \<and> mem_ok t ow \<and>
    (\<forall>d' v. ow d' = Dir \<longrightarrow> v < 1048576 \<longrightarrow> pte (pmem t) d' v = pte (pmem s) d' v) \<and>
    (\<forall>d' x. ow d' = Dir \<longrightarrow> umapped s d' x \<longrightarrow>
      ubyte t d' x = (if d' = d \<and> unat va \<le> x \<and> x < unat va + unat len then buf (x - unat va) else ubyte s d' x))"
  using copyout_loop_ok [OF assms, of buf 0, unfolded wrote_def add_0] unfolding copyout_def by blast

lemma copyout_writes_witness:
  "\<exists>t. copyout (kv 600) 100 (\<lambda>i. of_nat i) 8 machine = Some (0, t) \<and> ubyte t 600 103 = 3"
proof -
  have "\<forall>x. unat (100 :: u32) \<le> x \<and> x < unat (100 :: u32) + unat (8 :: u32) \<longrightarrow> umapped machine 600 x"
    using machine_user by simp
  from copyout_writes [OF machine_ok(1,2) _ this, of "\<lambda>i. of_nat i"] machine_user [of 103] machine_ok(2)
  show ?thesis by fastforce
qed

text \<open>Where a page of the range has no page table, \<open>uva2ka\<close> reads through a null pointer.\<close>

lemma copyout_no_table:
  assumes "mem_ok s ow" "ow d = Dir" "0 < len" "\<not> present (pde (pmem s) d (vpn va div 1024))"
  shows "copyout (kv d) va p len s = None"
proof -
  have "ld 0 s = None" by (simp add: ld_def in_ram_def V2P_def)
  then have "uva2ka (kv d) (PGROUNDDOWN va) s = None"
    using assms(4) walk_find [OF dir_frame [OF assms(1,2)], of "pa (vpn va)" s]
    by (simp add: uva2ka_def ROUNDDOWN_vpn vpn_less)
  then show ?thesis using assms(3) by (simp add: copyout_def copyout_loop.simps)
qed

end
