(* ===== verification/Mmap.thy ===== *)
theory Mmap
  imports Vm
begin

text \<open>
  Memory mapped files of the xv6 kernel of project 3, \<open>3-1/OS/PRJ3/xv6-sse-local\<close>: \<open>mmap\<close>, \<open>munmap\<close>,
  \<open>growproc\<close> and the regions in \<open>exit\<close> of \<open>proc.c\<close>, the page fault handler of \<open>trap.c\<close>, over the
  virtual memory of theory \<open>Vm\<close>, with \<open>fileread\<close> and \<open>fileclose\<close> of \<open>file.c\<close> and the tests of
  \<open>readi\<close> and \<open>writei\<close> of \<open>fs.c\<close>. A file's contents are its bytes. What happens in the code of
  pipes and devices is the argument \<open>other\<close>. A null pointer to a \<open>struct file\<close> is \<open>None\<close>: its
  fields are words of user memory, which the kernel reaches through the page table of the process.
\<close>

section \<open>State\<close>

datatype filetype = FD_NONE | FD_PIPE | FD_INODE

record file3 =
  f_type :: filetype
  f_ref :: int
  readable :: bool
  writable :: bool
  f_pipe :: nat
  f_ip :: nat              \<comment> \<open>the inode\<close>
  f_off :: u32

record inode3 =
  i_isdev :: bool          \<comment> \<open>\<open>type == T_DEV\<close>\<close>
  i_size :: u32
  i_bytes :: bytes

record mmap_region =
  r_fd :: int
  start_va :: u32
  end_va :: u32
  r_f :: "nat option"      \<comment> \<open>the index in \<open>ftable\<close>\<close>
  r_offset :: u32
  r_flags :: u32

record proc3 =
  sz :: u32
  pgdir :: u32
  killed :: u32
  ofile :: "nat \<Rightarrow> nat option"     \<comment> \<open>16 entries\<close>
  mm_sz :: u32
  mm_arr :: "nat \<Rightarrow> mmap_region"   \<comment> \<open>100 entries\<close>
  mm_cnt :: int

record kernel3 =
  mem :: vm
  ftable :: "nat \<Rightarrow> file3"
  inodes :: "nat \<Rightarrow> inode3"
  cp :: proc3              \<comment> \<open>\<open>myproc()\<close>\<close>

abbreviation (input) "MARGIN \<equiv> (0x1000000 :: u32)"
abbreviation (input) "MAP_PROT_READ \<equiv> (1 :: u32)"
abbreviation (input) "MAP_PROT_WRITE \<equiv> (2 :: u32)"
abbreviation (input) "MAP_POPULATE \<equiv> (16 :: u32)"
abbreviation (input) "MAP_FAILED \<equiv> (-1 :: u32)"
abbreviation (input) "PTE_D \<equiv> (0x40 :: u32)"
abbreviation (input) "REGIONS \<equiv> (100 :: nat)"
abbreviation (input) "NOFILE \<equiv> (16 :: nat)"

text \<open>What is outside: reads and writes of \<open>n\<close> bytes at a kernel address.\<close>

datatype channel = PipeRead nat | DevRead nat | DevWrite nat

type_synonym outside = "channel \<Rightarrow> u32 \<Rightarrow> u32 \<Rightarrow> vm \<Rightarrow> (int \<times> vm) option"

definition set_off :: "nat \<Rightarrow> u32 \<Rightarrow> kernel3 \<Rightarrow> kernel3" where
  "set_off i v s = s\<lparr>ftable := (ftable s)(i := (ftable s i)\<lparr>f_off := v\<rparr>)\<rparr>"

definition set_region :: "nat \<Rightarrow> mmap_region \<Rightarrow> kernel3 \<Rightarrow> kernel3" where
  "set_region i r s = s\<lparr>cp := (cp s)\<lparr>mm_arr := (mm_arr (cp s))(i := r)\<rparr>\<rparr>"

section \<open>User addresses that the kernel uses\<close>

text \<open>
  The processor's translation of a user address below \<open>KERNBASE\<close> in kernel mode; a write needs
  \<open>PTE_W\<close> because \<open>entry.S\<close> sets \<open>CR0_WP\<close>. A fault there is a kernel panic.
\<close>

definition user_addr :: "u32 \<Rightarrow> bool \<Rightarrow> kernel3 \<Rightarrow> u32 option" where
  "user_addr a write s =
     do {
       r \<leftarrow> walkpgdir (pgdir (cp s)) a False (mem s);
       if fst r = 0 then None
       else do {
         e \<leftarrow> ld (fst r) (mem s);
         if e AND PTE_P = 0 then None
         else if write \<and> e AND PTE_W = 0 then None
         else Some (P2V (PTE_ADDR e) + (a AND 0xFFF)) } }"

definition user_byte :: "u32 \<Rightarrow> kernel3 \<Rightarrow> u8 option" where
  "user_byte a s = do { p \<leftarrow> user_addr a False s;
     if in_ram p 1 then Some (pmem (mem s) (unat (V2P p))) else None }"

text \<open>The fields of a \<open>struct file\<close>: \<open>readable\<close> is its byte 8, \<open>writable\<close> its byte 9, \<open>off\<close> its word at 20.\<close>

definition get_readable :: "nat option \<Rightarrow> kernel3 \<Rightarrow> bool option" where
  "get_readable f s = (case f of Some i \<Rightarrow> Some (readable (ftable s i))
     | None \<Rightarrow> do { b \<leftarrow> user_byte 8 s; Some (b \<noteq> 0) })"

definition get_writable :: "nat option \<Rightarrow> kernel3 \<Rightarrow> bool option" where
  "get_writable f s = (case f of Some i \<Rightarrow> Some (writable (ftable s i))
     | None \<Rightarrow> do { b \<leftarrow> user_byte 9 s; Some (b \<noteq> 0) })"

definition get_off :: "nat option \<Rightarrow> kernel3 \<Rightarrow> u32 option" where
  "get_off f s = (case f of Some i \<Rightarrow> Some (f_off (ftable s i))
     | None \<Rightarrow> do { p \<leftarrow> user_addr 20 False s; ld p (mem s) })"

definition put_off :: "nat option \<Rightarrow> u32 \<Rightarrow> kernel3 \<Rightarrow> kernel3 option" where
  "put_off f v s = (case f of Some i \<Rightarrow> Some (set_off i v s)
     | None \<Rightarrow> do { p \<leftarrow> user_addr 20 True s; m \<leftarrow> st p v (mem s); Some (s\<lparr>mem := m\<rparr>) })"

section \<open>Files\<close>

definition readi :: "outside \<Rightarrow> nat \<Rightarrow> u32 \<Rightarrow> u32 \<Rightarrow> u32 \<Rightarrow> kernel3 \<Rightarrow> (int \<times> kernel3) option" where
  "readi other ip dst off n s =
     (let i = inodes s ip in
      if i_isdev i then do { r \<leftarrow> other (DevRead ip) dst n (mem s); Some (fst r, s\<lparr>mem := snd r\<rparr>) }
      else if off > i_size i \<or> off + n < off then Some (-1, s)
      else
        let n = (if off + n > i_size i then i_size i - off else n) in
        do { m \<leftarrow> put dst (i_bytes i) (unat off) (unat n) (mem s); Some (sint n, s\<lparr>mem := m\<rparr>) })"

text \<open>
  \<open>writei\<close> as \<open>exit\<close> calls it, outside of a transaction: when it gets as far as \<open>log_write\<close>, that
  panics.
\<close>

definition writei :: "outside \<Rightarrow> nat \<Rightarrow> u32 \<Rightarrow> u32 \<Rightarrow> u32 \<Rightarrow> kernel3 \<Rightarrow> (int \<times> kernel3) option" where
  "writei other ip src off n s =
     (let i = inodes s ip in
      if i_isdev i then do { r \<leftarrow> other (DevWrite ip) src n (mem s); Some (fst r, s\<lparr>mem := snd r\<rparr>) }
      else if off + n < off then Some (-1, s)
      else if off > i_size i then Some (-1, s)
      else if off + n > 140 * 512 then Some (-1, s)
      else if n = 0 then Some (0, s)
      else None)"

text \<open>\<open>fileread\<close>; through a null pointer it reads \<open>readable\<close>, and what \<open>type\<close> is then is not followed.\<close>

definition fileread :: "outside \<Rightarrow> nat option \<Rightarrow> u32 \<Rightarrow> u32 \<Rightarrow> kernel3 \<Rightarrow> (int \<times> kernel3) option" where
  "fileread other fp addr n s =
     do {
       rd \<leftarrow> get_readable fp s;
       if \<not> rd then Some (-1, s)
       else do {
         i \<leftarrow> fp;
         let f = ftable s i;
         case f_type f of
           FD_PIPE \<Rightarrow> do { r \<leftarrow> other (PipeRead (f_pipe f)) addr n (mem s); Some (fst r, s\<lparr>mem := snd r\<rparr>) }
         | FD_INODE \<Rightarrow> do {
             r \<leftarrow> readi other (f_ip f) addr (f_off f) n s;
             Some (fst r, if fst r > 0 then set_off i (f_off f + word_of_int (fst r)) (snd r) else snd r) }
         | FD_NONE \<Rightarrow> None } }"

text \<open>\<open>fileclose\<close>; the release of the pipe or the inode after the last reference is left out.\<close>

definition fileclose :: "nat \<Rightarrow> kernel3 \<Rightarrow> kernel3 option" where
  "fileclose i s =
     (let f = ftable s i; r = f_ref f - 1 in
      if f_ref f < 1 then None
      else if r > 0 then Some (s\<lparr>ftable := (ftable s)(i := f\<lparr>f_ref := r\<rparr>)\<rparr>)
      else Some (s\<lparr>ftable := (ftable s)(i := f\<lparr>f_ref := 0, f_type := FD_NONE\<rparr>)\<rparr>))"

section \<open>Mapping\<close>

text \<open>
  \<open>ofile[fd]\<close>: the word in front of the array is the field \<open>killed\<close>, which is 0 while a process
  runs. Beyond the array there is no model.
\<close>

definition file_of :: "int \<Rightarrow> proc3 \<Rightarrow> nat option option" where
  "file_of fd p =
     (if fd = -1 then (if killed p = 0 then Some None else None)
      else if 0 \<le> fd \<and> fd < int NOFILE then Some (ofile p (nat fd))
      else None)"

definition is_mmap_available :: "int \<Rightarrow> u32 \<Rightarrow> nat option \<Rightarrow> kernel3 \<Rightarrow> int option" where
  "is_mmap_available fd flags fp s =
     (if \<not> (flags AND MAP_PROT_READ \<noteq> 0 \<or> flags AND MAP_PROT_WRITE \<noteq> 0) then Some (-1)
      else if fd \<noteq> -1 then do {
        rd \<leftarrow> get_readable fp s;
        wr \<leftarrow> get_writable fp s;
        if rd \<and> \<not> wr then
          (if flags AND MAP_PROT_READ \<noteq> 0 \<and> \<not> flags AND MAP_PROT_WRITE \<noteq> 0 then Some (-1) else Some 0)
        else if rd \<and> wr then
          (if \<not> (flags AND MAP_PROT_READ \<noteq> 0 \<or> flags AND MAP_PROT_WRITE \<noteq> 0) then Some (-1) else Some 0)
        else Some 0 }
      else Some 0)"

definition get_valid_mmarr :: "proc3 \<Rightarrow> nat option" where
  "get_valid_mmarr p = List.find (\<lambda>i. r_fd (mm_arr p i) = 0) [0..<REGIONS]"

text \<open>The bookkeeping at the end of both kinds of mapping.\<close>

definition add_region :: "nat \<Rightarrow> int \<Rightarrow> u32 \<Rightarrow> u32 \<Rightarrow> u32 \<Rightarrow> nat option \<Rightarrow> u32 \<Rightarrow> u32 \<Rightarrow> kernel3 \<Rightarrow> kernel3" where
  "add_region i fd old_start new_start len fp offset flags s =
     set_region i \<lparr>r_fd = fd, start_va = old_start, end_va = new_start, r_f = fp, r_offset = offset, r_flags = flags\<rparr>
       (s\<lparr>cp := (cp s)\<lparr>mm_cnt := mm_cnt (cp s) + 1, mm_sz := mm_sz (cp s) + len\<rparr>\<rparr>)"

text \<open>
  One page of a mapping, as \<open>mmap_eager\<close> and the fault handler enter it: the frame is cleared, read from
  the file unless the mapping is anonymous, and mapped; what \<open>fileread\<close> and \<open>mappages\<close> return is
  not tested.
\<close>

definition enter_page :: "outside \<Rightarrow> int \<Rightarrow> nat option \<Rightarrow> u32 \<Rightarrow> u32 \<Rightarrow> u32 \<Rightarrow> kernel3 \<Rightarrow> kernel3 option" where
  "enter_page other fd fp frame va flags s =
     do {
       m \<leftarrow> memset frame 0 4096 (mem s);
       let s = s\<lparr>mem := m\<rparr>;
       s \<leftarrow> (if fd \<noteq> -1 then do { r \<leftarrow> fileread other fp frame PGSIZE s; Some (snd r) } else Some s);
       let new_flag = (if flags AND MAP_PROT_WRITE \<noteq> 0 then MAP_PROT_WRITE else 0);
       r \<leftarrow> mappages (pgdir (cp s)) va PGSIZE (V2P frame) (new_flag OR PTE_U) (mem s);
       Some (s\<lparr>mem := snd r\<rparr>) }"

text \<open>The loop of \<open>mmap_eager\<close>; the first component is false when there is no memory.\<close>

partial_function (option) eager_loop ::
    "outside \<Rightarrow> int \<Rightarrow> u32 \<Rightarrow> nat option \<Rightarrow> u32 \<Rightarrow> u32 \<Rightarrow> kernel3 \<Rightarrow> (bool \<times> kernel3) option" where
  "eager_loop other fd flags fp new_start tmp s =
     (if tmp < new_start then
        Option.bind (kalloc (mem s)) (\<lambda>k.
          if fst k = 0 then
            Option.bind (user_byte 0 s) (\<lambda>_. Some (False, s\<lparr>mem := snd k\<rparr>))   \<comment> \<open>\<open>*mem\<close> is printed\<close>
          else Option.bind (enter_page other fd fp (fst k) tmp flags (s\<lparr>mem := snd k\<rparr>)) (\<lambda>s.
            eager_loop other fd flags fp new_start (tmp + PGSIZE) s))
      else Some (True, s))"

definition mmap_eager :: "outside \<Rightarrow> int \<Rightarrow> u32 \<Rightarrow> u32 \<Rightarrow> u32 \<Rightarrow> nat option \<Rightarrow> kernel3 \<Rightarrow> (u32 \<times> kernel3) option" where
  "mmap_eager other fd offset len flags fp s =
     (let old_start = sz (cp s) + mm_sz (cp s) + MARGIN;
          new_start = sz (cp s) + mm_sz (cp s) + MARGIN + len in
      case get_valid_mmarr (cp s) of
        None \<Rightarrow> Some (MAP_FAILED, s)
      | Some i \<Rightarrow> do {
          saved_offset \<leftarrow> get_off fp s;
          s \<leftarrow> put_off fp offset s;
          r \<leftarrow> eager_loop other fd flags fp new_start (PGROUNDDOWN old_start) s;
          if \<not> fst r then Some (MAP_FAILED, snd r)
          else do {
            s \<leftarrow> put_off fp saved_offset (snd r);
            Some (old_start, add_region i fd old_start new_start len fp offset flags s) } })"

definition mmap_lazy :: "int \<Rightarrow> u32 \<Rightarrow> u32 \<Rightarrow> u32 \<Rightarrow> nat option \<Rightarrow> kernel3 \<Rightarrow> (u32 \<times> kernel3) option" where
  "mmap_lazy fd offset len flags fp s =
     (case get_valid_mmarr (cp s) of
        None \<Rightarrow> Some (MAP_FAILED, s)
      | Some i \<Rightarrow>
          let old_start = sz (cp s) + mm_sz (cp s) + MARGIN;
              new_start = sz (cp s) + mm_sz (cp s) + MARGIN + len
          in Some (old_start, add_region i fd old_start new_start len fp offset flags s))"

definition mmap :: "outside \<Rightarrow> int \<Rightarrow> u32 \<Rightarrow> u32 \<Rightarrow> u32 \<Rightarrow> kernel3 \<Rightarrow> (u32 \<times> kernel3) option" where
  "mmap other fd offset len flags s =
     (if len mod 4096 \<noteq> 0 then Some (MAP_FAILED, s)
      else
        let offset = (if fd = -1 then 0 else offset) in
        do {
          fp \<leftarrow> file_of fd (cp s);
          a \<leftarrow> is_mmap_available fd flags fp s;
          if a = -1 then Some (MAP_FAILED, s)
          else if flags AND MAP_POPULATE \<noteq> 0 then mmap_eager other fd offset len flags fp s
          else mmap_lazy fd offset len flags fp s })"

section \<open>Page faults\<close>

definition fault_region :: "u32 \<Rightarrow> proc3 \<Rightarrow> nat option" where
  "fault_region addr p = List.find (\<lambda>i. r_fd (mm_arr p i) \<noteq> 0 \<and>
     start_va (mm_arr p i) \<le> addr \<and> end_va (mm_arr p i) > addr) [0..<REGIONS]"

definition page_fault_handler :: "outside \<Rightarrow> u32 \<Rightarrow> u32 \<Rightarrow> kernel3 \<Rightarrow> (int \<times> kernel3) option" where
  "page_fault_handler other addr err s =
     (if addr \<ge> KERNBASE then Some (-1, s)
      else case fault_region addr (cp s) of
        None \<Rightarrow> Some (-1, s)
      | Some i \<Rightarrow>
          let r = mm_arr (cp s) i in
          if err AND 2 \<noteq> 0 \<and> r_flags r AND 2 = 0 then Some (-1, s)
          else do {
            s \<leftarrow> put_off (r_f r) (r_offset r) s;
            k \<leftarrow> kalloc (mem s);
            let s = s\<lparr>mem := snd k\<rparr>;
            if fst k = 0 then Some (-1, s)
            else do {
              s \<leftarrow> enter_page other (r_fd r) (r_f r) (fst k) (PGROUNDDOWN addr) (r_flags r) s;
              Some (0, s) } })"

text \<open>The branch of \<open>trap\<close> for a page fault in user mode: what is not handled kills the process.\<close>

definition trap_pgflt :: "outside \<Rightarrow> u32 \<Rightarrow> u32 \<Rightarrow> kernel3 \<Rightarrow> kernel3 option" where
  "trap_pgflt other addr err s =
     do {
       r \<leftarrow> page_fault_handler other addr err s;
       if fst r \<noteq> -1 then Some (snd r) else Some ((snd r)\<lparr>cp := (cp (snd r))\<lparr>killed := 1\<rparr>\<rparr>) }"

section \<open>Unmapping\<close>

definition covering_region :: "u32 \<Rightarrow> u32 \<Rightarrow> proc3 \<Rightarrow> nat option" where
  "covering_region start fin p = List.find (\<lambda>i. r_fd (mm_arr p i) \<noteq> 0 \<and>
     start_va (mm_arr p i) \<le> start \<and> fin \<le> end_va (mm_arr p i)) [0..<REGIONS]"

text \<open>The loop of \<open>munmap\<close> over the pages; false when a page has no entry.\<close>

partial_function (option) unmap_loop ::
    "mmap_region \<Rightarrow> u32 \<Rightarrow> u32 \<Rightarrow> kernel3 \<Rightarrow> (bool \<times> kernel3) option" where
  "unmap_loop r fin va s =
     (if va < fin then
        Option.bind (walkpgdir (pgdir (cp s)) va False (mem s)) (\<lambda>x.
          if fst x = 0 then Some (False, s)
          else Option.bind (ld (fst x) (mem s)) (\<lambda>e.
            if e AND PTE_P = 0 then Some (False, s)
            else if e AND PTE_D \<noteq> 0 \<and> r_fd r > 0 \<and> r_f r = None then None   \<comment> \<open>\<open>fp->ip->size\<close>\<close>
            else Option.bind (kfree (P2V (PTE_ADDR e)) (mem s)) (\<lambda>m.
              unmap_loop r fin (va + PGSIZE) (s\<lparr>mem := m\<rparr>))))
      else Some (True, s))"

text \<open>The four cases at the end of \<open>munmap\<close>.\<close>

definition cut_region :: "nat \<Rightarrow> u32 \<Rightarrow> u32 \<Rightarrow> u32 \<Rightarrow> kernel3 \<Rightarrow> kernel3 option" where
  "cut_region i start fin len s =
     (let p = cp s; r = mm_arr p i in
      if start_va r = start \<and> fin = end_va r then
        Some (set_region i (r\<lparr>r_fd := 0\<rparr>) (s\<lparr>cp := p\<lparr>mm_cnt := mm_cnt p - 1\<rparr>\<rparr>))
      else if start_va r = start then Some (set_region i (r\<lparr>end_va := end_va r - len\<rparr>) s)
      else if fin = end_va r then Some (set_region i (r\<lparr>start_va := start_va r + len\<rparr>) s)
      else do {
        j \<leftarrow> get_valid_mmarr p;
        let r2 = r\<lparr>start_va := fin, end_va := end_va r\<rparr>;
        let s = set_region j r2 (set_region i (r\<lparr>end_va := start\<rparr>) s);
        Some (s\<lparr>cp := (cp s)\<lparr>mm_cnt := mm_cnt (cp s) + 1, mm_sz := mm_sz (cp s) + (end_va r2 - start_va r2)\<rparr>\<rparr>) })"

definition munmap :: "u32 \<Rightarrow> u32 \<Rightarrow> kernel3 \<Rightarrow> (int \<times> kernel3) option" where
  "munmap addr len s =
     (if addr mod 4096 \<noteq> 0 then Some (-1, s)
      else if len mod 4096 \<noteq> 0 then Some (-1, s)
      else
        let start = PGROUNDDOWN addr; fin = PGROUNDDOWN (addr + len) in
        case covering_region start fin (cp s) of
          None \<Rightarrow> Some (0, s)
        | Some i \<Rightarrow> do {
            let r = mm_arr (cp s) i;
            saved_offset \<leftarrow> get_off (r_f r) s;
            s \<leftarrow> put_off (r_f r) (r_offset r) s;
            x \<leftarrow> unmap_loop r fin start s;
            if \<not> fst x then Some (-1, snd x)
            else do {
              s \<leftarrow> put_off (r_f r) saved_offset (snd x);
              s \<leftarrow> cut_region i start fin len s;
              Some (0, s) } })"

section \<open>The end of a process\<close>

partial_function (option) exit_loop :: "outside \<Rightarrow> mmap_region \<Rightarrow> u32 \<Rightarrow> kernel3 \<Rightarrow> kernel3 option" where
  "exit_loop other r va s =
     (if va < end_va r then
        Option.bind (walkpgdir (pgdir (cp s)) va False (mem s)) (\<lambda>x.
          if fst x = 0 then exit_loop other r (va + PGSIZE) s
          else Option.bind (ld (fst x) (mem s)) (\<lambda>e.
            if e AND PTE_P = 0 then exit_loop other r (va + PGSIZE) s
            else Option.bind
              (if e AND PTE_D \<noteq> 0 \<and> r_fd r > 0 then
                 Option.bind (r_f r) (\<lambda>i.
                   Option.bind (writei other (f_ip (ftable s i)) (P2V (PTE_ADDR e)) (P2V (PTE_ADDR e) - start_va r)
                       (if end_va r - va > PGSIZE then PGSIZE else end_va r - va) s) (\<lambda>w.
                     Some (set_off i (f_off (ftable (snd w) i) + word_of_int (fst w)) (snd w))))
               else Some s) (\<lambda>s.
              Option.bind (kfree (P2V (PTE_ADDR e)) (mem s)) (\<lambda>m.
                Option.bind (st (fst x) 0 m) (\<lambda>m. exit_loop other r (va + PGSIZE) (s\<lparr>mem := m\<rparr>))))))
      else Some s)"

definition close_files :: "kernel3 \<Rightarrow> kernel3 option" where
  "close_files = for_opt [0..<NOFILE] (\<lambda>fd s.
     case ofile (cp s) fd of
       None \<Rightarrow> Some s
     | Some i \<Rightarrow> do { s \<leftarrow> fileclose i s; Some (s\<lparr>cp := (cp s)\<lparr>ofile := (ofile (cp s))(fd := None)\<rparr>\<rparr>) })"

text \<open>
  \<open>exit\<close> up to the release of the working directory, for one region and for all of them: the loop that
  closes the files is inside the loop over the regions.
\<close>

definition exit_region :: "outside \<Rightarrow> nat \<Rightarrow> kernel3 \<Rightarrow> kernel3 option" where
  "exit_region other i s =
     (let r = mm_arr (cp s) i in
      if r_fd r = 0 then Some s
      else do {
        s \<leftarrow> put_off (r_f r) (r_offset r) s;
        s \<leftarrow> exit_loop other r (start_va r) s;
        s \<leftarrow> close_files s;
        Some (set_region i ((mm_arr (cp s) i)\<lparr>r_fd := 0\<rparr>) (s\<lparr>cp := (cp s)\<lparr>mm_cnt := mm_cnt (cp s) - 1\<rparr>\<rparr>)) })"

definition exit_regions :: "outside \<Rightarrow> kernel3 \<Rightarrow> kernel3 option" where
  "exit_regions other = for_opt [0..<REGIONS] (exit_region other)"

definition growproc :: "u32 \<Rightarrow> kernel3 \<Rightarrow> (int \<times> kernel3) option" where
  "growproc n s =
     (let p = cp s in
      if sint n > 0 then do {
        r \<leftarrow> allocuvm (pgdir p) (sz p) (sz p + n) (mem s);
        if fst r = 0 then Some (-1, s\<lparr>mem := snd r\<rparr>)
        else Some (0, s\<lparr>mem := snd r, cp := p\<lparr>sz := fst r\<rparr>\<rparr>) }
      else if sint n < 0 then do {
        r \<leftarrow> deallocuvm (pgdir p) (sz p) (sz p + n) (mem s);
        if fst r = 0 then Some (-1, s\<lparr>mem := snd r\<rparr>)
        else Some (0, s\<lparr>mem := snd r, cp := p\<lparr>sz := fst r\<rparr>\<rparr>) }
      else Some (0, s))"

text \<open>The fields of a new process that belong to its mappings, from \<open>allocproc\<close>.\<close>

definition new_regions :: "proc3 \<Rightarrow> proc3" where
  "new_regions p = p\<lparr>mm_arr := (\<lambda>i. if i < REGIONS then (mm_arr p i)\<lparr>r_fd := 0\<rparr> else mm_arr p i), mm_cnt := 0, mm_sz := 0\<rparr>"

end
