(* ===== verification/MmapPages.thy ===== *)
theory MmapPages
  imports Mmap VmSpec
begin

text \<open>
  The pages of mappings: what a page that is entered holds, what the loops over the pages of a region
  do to the address space.
\<close>

section \<open>Entering a page\<close>

text \<open>The process runs on the directory in frame \<open>d\<close> of a well-formed memory.\<close>

definition runs_on :: "nat \<Rightarrow> kernel3 \<Rightarrow> owners \<Rightarrow> bool" where
  "runs_on d s ow \<longleftrightarrow> mem_ok (mem s) ow \<and> ow d = Dir \<and> pgdir (cp s) = kv d"

lemma runs_onD:
  assumes "runs_on d s ow"
  shows "mem_ok (mem s) ow" "ow d = Dir" "pgdir (cp s) = kv d"
  using assms by (simp_all add: runs_on_def)

text \<open>The flags of a page of a mapping.\<close>

definition map_flags :: "u32 \<Rightarrow> u32" where
  "map_flags flags = (if flags AND MAP_PROT_WRITE \<noteq> 0 then 7 else 5)"

lemma map_flags_perm:
  "(if flags AND MAP_PROT_WRITE \<noteq> 0 then MAP_PROT_WRITE else 0) OR PTE_U OR 1 = map_flags flags"
  "PTE_ADDR ((if flags AND MAP_PROT_WRITE \<noteq> 0 then MAP_PROT_WRITE else 0) OR PTE_U) = 0"
  by (auto simp: map_flags_def PTE_ADDR_def)

lemma present_map_flags [simp]: "present (x OR map_flags flags)"
  unfolding map_flags_perm(1) [symmetric] by (simp add: or.assoc [symmetric] present_or)

text \<open>
  Page \<open>v\<close> of \<open>d\<close> is new: a frame that was free, holding the bytes \<open>b\<close>; no other page of any space and
  no other frame in use has changed.
\<close>

definition new_page :: "nat \<Rightarrow> nat \<Rightarrow> u32 \<Rightarrow> (nat \<Rightarrow> u8) \<Rightarrow> vm \<Rightarrow> owners \<Rightarrow> vm \<Rightarrow> owners \<Rightarrow> bool" where
  "new_page d v flags b s ow t ow' \<longleftrightarrow> mem_ok t ow' \<and> grows d s ow t ow' \<and>
     (\<exists>f. ow f = Free \<and> ow' f = Page d v \<and> f < FRAMES \<and>
       (\<forall>w < 1048576. lookup (pmem t) d w = (if w = v then Some (pa f OR map_flags flags) else lookup (pmem s) d w)) \<and>
       (\<forall>k < 4096. pmem t (4096 * f + k) = b k))"

lemma new_pageD:
  assumes "new_page d v flags b s ow t ow'"
  shows "mem_ok t ow'" "grows d s ow t ow'"
    "\<exists>f. ow f = Free \<and> ow' f = Page d v \<and> f < FRAMES \<and>
       (\<forall>w < 1048576. lookup (pmem t) d w = (if w = v then Some (pa f OR map_flags flags) else lookup (pmem s) d w)) \<and>
       (\<forall>k < 4096. pmem t (4096 * f + k) = b k)"
  using assms unfolding new_page_def by blast+

lemma nfree_one: "(\<And>g. g \<noteq> f \<Longrightarrow> ow g \<noteq> Free) \<Longrightarrow> nfree ow \<le> 1"
proof -
  assume n: "\<And>g. g \<noteq> f \<Longrightarrow> ow g \<noteq> Free"
  have "{g. ow g = Free} \<subseteq> {f}" using n by blast
  then show ?thesis using card_mono [of "{f}" "{g. ow g = Free}"] by (simp add: nfree_def)
qed

lemma map_flags_or: "x OR (((if flags AND MAP_PROT_WRITE \<noteq> 0 then MAP_PROT_WRITE else 0) OR PTE_U) OR 1) = x OR map_flags flags"
  by (simp only: map_flags_perm(1) [symmetric] or.assoc)

text \<open>The frame from \<open>kalloc\<close> is filled with \<open>src\<close> and mapped.\<close>

lemma enter_filled:
  assumes run: "runs_on d s ow" and v: "v < USER" and np: "lookup (pmem (mem s)) d v = None" and room: "2 \<le> nfree ow"
  obtains f k1 where "kalloc (mem s) = Some (kv f, k1)" "kv f \<noteq> 0" "f < FRAMES" "pmem k1 = pmem (mem s)"
    "\<And>src. \<exists>t ow'. mappages (kv d) (pa v) 4096 (pa f)
        ((if flags AND MAP_PROT_WRITE \<noteq> 0 then MAP_PROT_WRITE else 0) OR PTE_U)
        (k1\<lparr>pmem := memmove (pmem (mem s)) (4096 * f) src 0 4096\<rparr>) = Some (0, t) \<and>
      new_page d v flags src (mem s) ow t ow'"
proof -
  let ?perm = "(if flags AND MAP_PROT_WRITE \<noteq> 0 then MAP_PROT_WRITE else 0) OR PTE_U"
  note ok = runs_onD(1) [OF run] and d = runs_onD(2) [OF run]
  have np': "\<not> present (pte (pmem (mem s)) d v)" using np by (simp add: lookup_present)
  from ok show thesis
  proof (cases rule: take_frame)
    case none
    then show thesis using room by (simp add: nfree_def)
  next
    case (frame f k1)
    have "\<exists>t ow'. mappages (kv d) (pa v) 4096 (pa f) ?perm
        (k1\<lparr>pmem := memmove (pmem (mem s)) (4096 * f) src 0 4096\<rparr>) = Some (0, t) \<and>
      new_page d v flags src (mem s) ow t ow'" for src
    proof -
      define s2 where "s2 = k1\<lparr>pmem := memmove (pmem (mem s)) (4096 * f) src 0 4096\<rparr>"
      have tk: "taken f (mem s) ow s2" unfolding s2_def by (rule frame(5))
      show ?thesis
      proof (rule map_taken [OF tk d v np' map_flags_perm(2) [of flags]])
        assume "\<And>g. g \<noteq> f \<Longrightarrow> ow g \<noteq> Free"
        then have "nfree ow \<le> 1" by (rule nfree_one)
        with room show ?thesis by linarith
      next
        fix t ow'
        assume mp: "mappages (kv d) (pa v) 4096 (pa f) ?perm s2 = Some (0, t)"
          and mo: "mem_ok t ow'" "grows d (mem s) ow t ow'" "ow' f = Page d v"
          and pt: "\<And>w. w < 1048576 \<Longrightarrow> pte (pmem t) d w = (if w = v then pa f OR (?perm OR 1) else pte (pmem (mem s)) d w)"
          and bt: "\<And>k. k < 4096 \<Longrightarrow> pmem t (4096 * f + k) = pmem s2 (4096 * f + k)"
        have "pte (pmem t) d w = (if w = v then pa f OR map_flags flags else pte (pmem (mem s)) d w)" if "w < 1048576" for w
          using pt [OF that] unfolding map_flags_or .
        then have "lookup (pmem t) d w = (if w = v then Some (pa f OR map_flags flags) else lookup (pmem (mem s)) d w)"
          if "w < 1048576" for w using that by (simp add: lookup_def)
        moreover have "pmem t (4096 * f + k) = src k" if "k < 4096" for k
          using bt [OF that] that by (simp add: s2_def memmove_def)
        ultimately have "new_page d v flags src (mem s) ow t ow'"
          using mo takenD(1,8) [OF tk] unfolding new_page_def by blast
        then show ?thesis using mp by (auto simp: s2_def)
      qed
    qed
    then show thesis using that [OF frame(1-4)] by blast
  qed
qed

section \<open>Reading a page of a file\<close>

text \<open>The bytes from offset \<open>off\<close> of an inode, zero beyond its end.\<close>

definition file_at :: "inode3 \<Rightarrow> nat \<Rightarrow> nat \<Rightarrow> u8" where
  "file_at i off k = (if off + k < unat (i_size i) then i_bytes i (off + k) else 0)"

abbreviation file_bytes :: "inode3 \<Rightarrow> u32 \<Rightarrow> nat \<Rightarrow> u8" where
  "file_bytes i off \<equiv> file_at i (unat off)"

definition page_size :: "inode3 \<Rightarrow> u32 \<Rightarrow> nat" where
  "page_size i off = min 4096 (unat (i_size i) - unat off)"

text \<open>A regular file that is open for reading.\<close>

definition regular :: "kernel3 \<Rightarrow> nat \<Rightarrow> bool" where
  "regular s i \<longleftrightarrow> readable (ftable s i) \<and> f_type (ftable s i) = FD_INODE \<and> \<not> i_isdev (inodes s (f_ip (ftable s i)))"

lemma fileread_page:
  assumes reg: "regular s i" and off: "unat (f_off (ftable s i)) + 4096 < 4294967296" and f: "f < FRAMES"
    and z: "pmem (mem s) = memmove m (4096 * f) (\<lambda>_. 0) 0 4096"
  shows "\<exists>r. fileread other (Some i) (kv f) 4096 s =
    Some (r, set_off i (f_off (ftable s i) + word_of_nat (page_size (inodes s (f_ip (ftable s i))) (f_off (ftable s i))))
      (s\<lparr>mem := (mem s)\<lparr>pmem := memmove m (4096 * f) (file_bytes (inodes s (f_ip (ftable s i))) (f_off (ftable s i))) 0 4096\<rparr>\<rparr>))"
proof -
  define x where "x = ftable s i"
  define n where "n = inodes s (f_ip x)"
  define q where "q = f_off x"
  have q4: "unat (q + 4096) = unat q + 4096" using off by (subst unat_word_ariths) (simp add: q_def x_def)
  have nw: "\<not> q + 4096 < q" using q4 by (simp add: word_less_nat_alt)
  have rd: "readable x" "f_type x = FD_INODE" "\<not> i_isdev n" using reg by (simp_all add: regular_def x_def n_def)
  have same: "set_off i q s = s" by (simp add: set_off_def q_def x_def)
  show ?thesis
  proof (cases "q > i_size n")
    case True
    then have "unat (i_size n) < unat q" by (simp add: word_less_nat_alt)
    then have p: "page_size n q = 0" and b: "file_bytes n q = (\<lambda>_. 0)" by (auto simp: page_size_def file_at_def)
    have "fileread other (Some i) (kv f) 4096 s = Some (-1, s)"
      using rd True by (simp add: fileread_def get_readable_def readi_def flip: x_def n_def q_def)
    moreover have "s\<lparr>mem := (mem s)\<lparr>pmem := memmove m (4096 * f) (\<lambda>_. 0) 0 4096\<rparr>\<rparr> = s" using z by simp
    ultimately show ?thesis unfolding x_def [symmetric] n_def [symmetric] q_def [symmetric] p b
      using same by (intro exI [of _ "-1"]) simp
  next
    case False
    then have le: "unat q \<le> unat (i_size n)" by (simp add: word_less_nat_alt not_less)
    define c where "c = (if q + 4096 > i_size n then i_size n - q else 4096)"
    have c: "unat c = page_size n q"
      using q4 le by (auto simp: c_def page_size_def word_less_nat_alt unat_sub word_le_nat_alt)
    have c4: "unat c \<le> 4096" using c by (simp add: page_size_def)
    then have sc: "sint c = int (unat c)" by (intro sint_small) simp
    have "memmove (pmem (mem s)) (4096 * f) (i_bytes n) (unat q) (unat c) = memmove m (4096 * f) (file_bytes n q) 0 4096"
    proof
      fix k
      show "memmove (pmem (mem s)) (4096 * f) (i_bytes n) (unat q) (unat c) k = memmove m (4096 * f) (file_bytes n q) 0 4096 k"
        unfolding z memmove_def c using le by (auto simp: page_size_def file_at_def)
    qed
    then have p: "put (kv f) (i_bytes n) (unat q) (unat c) (mem s) =
        Some ((mem s)\<lparr>pmem := memmove m (4096 * f) (file_bytes n q) 0 4096\<rparr>)"
      using put_frame [OF f c4] by simp
    have "readi other (f_ip x) (kv f) q 4096 s =
        Some (sint c, s\<lparr>mem := (mem s)\<lparr>pmem := memmove m (4096 * f) (file_bytes n q) 0 4096\<rparr>\<rparr>)"
      using rd(3) False nw p unfolding readi_def n_def [symmetric] Let_def c_def [symmetric] by simp
    moreover have "(word_of_int (sint c) :: u32) = word_of_nat (page_size n q)"
      unfolding sc c by simp
    moreover have "page_size n q = 0" if "\<not> 0 < sint c" using that sc c by simp
    ultimately show ?thesis
      unfolding x_def [symmetric] n_def [symmetric] q_def [symmetric]
      using rd by (simp add: fileread_def get_readable_def flip: x_def q_def) (auto simp: set_off_def q_def x_def)
  qed
qed

text \<open>A page of a file is entered: the offset of the open file moves by the bytes read.\<close>

abbreviation (input) "node s i \<equiv> inodes s (f_ip (ftable s i))"

lemma enter_file:
  assumes run: "runs_on d s ow" and v: "v < USER" and np: "lookup (pmem (mem s)) d v = None" and room: "2 \<le> nfree ow"
    and fd: "fd \<noteq> -1" and reg: "regular s i" and off: "unat (f_off (ftable s i)) + 4096 < 4294967296"
  obtains fa k1 t ow' where "kalloc (mem s) = Some (fa, k1)" "fa \<noteq> 0"
    "new_page d v flags (file_bytes (node s i) (f_off (ftable s i))) (mem s) ow t ow'"
    "enter_page other fd (Some i) fa (pa v) flags (s\<lparr>mem := k1\<rparr>) =
       Some (set_off i (f_off (ftable s i) + word_of_nat (page_size (node s i) (f_off (ftable s i)))) (s\<lparr>mem := t\<rparr>))"
proof -
  define b where "b = file_bytes (node s i) (f_off (ftable s i))"
  define m where "m = pmem (mem s)"
  obtain f k1 where k: "kalloc (mem s) = Some (kv f, k1)" "kv f \<noteq> 0" "f < FRAMES" "pmem k1 = m"
    and ex: "\<And>src. \<exists>t ow'. mappages (kv d) (pa v) 4096 (pa f)
        ((if flags AND MAP_PROT_WRITE \<noteq> 0 then MAP_PROT_WRITE else 0) OR PTE_U)
        (k1\<lparr>pmem := memmove m (4096 * f) src 0 4096\<rparr>) = Some (0, t) \<and>
      new_page d v flags src (mem s) ow t ow'"
    unfolding m_def by (rule enter_filled [OF run v np room, where flags = flags]) blast
  define s1 where "s1 = s\<lparr>mem := k1\<lparr>pmem := memmove m (4096 * f) (\<lambda>_. 0) 0 4096\<rparr>\<rparr>"
  have ms: "memset (kv f) 0 4096 k1 = Some (k1\<lparr>pmem := memmove m (4096 * f) (\<lambda>_. 0) 0 4096\<rparr>)"
    using k(3,4) by (simp add: memset_def put_frame)
  have "regular s1 i" "unat (f_off (ftable s1 i)) + 4096 < 4294967296"
    "pmem (mem s1) = memmove m (4096 * f) (\<lambda>_. 0) 0 4096"
    using reg off by (simp_all add: regular_def s1_def)
  from fileread_page [OF this(1,2) k(3) this(3), of other]
  obtain r where r: "fileread other (Some i) (kv f) 4096 s1 =
    Some (r, set_off i (f_off (ftable s i) + word_of_nat (page_size (node s i) (f_off (ftable s i))))
      (s\<lparr>mem := k1\<lparr>pmem := memmove m (4096 * f) b 0 4096\<rparr>\<rparr>))"
    by (auto simp: s1_def b_def)
  obtain t ow' where t: "mappages (kv d) (pa v) 4096 (pa f)
        ((if flags AND MAP_PROT_WRITE \<noteq> 0 then MAP_PROT_WRITE else 0) OR PTE_U)
        (k1\<lparr>pmem := memmove m (4096 * f) b 0 4096\<rparr>) = Some (0, t)" "new_page d v flags b (mem s) ow t ow'"
    using ex by blast
  have "enter_page other fd (Some i) (kv f) (pa v) flags (s\<lparr>mem := k1\<rparr>) =
       Some (set_off i (f_off (ftable s i) + word_of_nat (page_size (node s i) (f_off (ftable s i)))) (s\<lparr>mem := t\<rparr>))"
    using ms r t(1) fd runs_onD(3) [OF run]
    by (cases "flags AND MAP_PROT_WRITE = 0") (simp_all add: enter_page_def Let_def set_off_def flip: s1_def)
  then show thesis using that [OF k(1,2)] t(2) unfolding b_def by blast
qed

lemma enter_anonymous:
  assumes run: "runs_on d s ow" and v: "v < USER" and np: "lookup (pmem (mem s)) d v = None" and room: "2 \<le> nfree ow"
  obtains fa k1 t ow' where "kalloc (mem s) = Some (fa, k1)" "fa \<noteq> 0"
    "new_page d v flags (\<lambda>_. 0) (mem s) ow t ow'"
    "enter_page other (-1) fp fa (pa v) flags (s\<lparr>mem := k1\<rparr>) = Some (s\<lparr>mem := t\<rparr>)"
proof -
  obtain f k1 where k: "kalloc (mem s) = Some (kv f, k1)" "kv f \<noteq> 0" "f < FRAMES" "pmem k1 = pmem (mem s)"
    and ex: "\<And>src. \<exists>t ow'. mappages (kv d) (pa v) 4096 (pa f)
        ((if flags AND MAP_PROT_WRITE \<noteq> 0 then MAP_PROT_WRITE else 0) OR PTE_U)
        (k1\<lparr>pmem := memmove (pmem (mem s)) (4096 * f) src 0 4096\<rparr>) = Some (0, t) \<and>
      new_page d v flags src (mem s) ow t ow'"
    by (rule enter_filled [OF run v np room, where flags = flags]) blast
  have ms: "memset (kv f) 0 4096 k1 = Some (k1\<lparr>pmem := memmove (pmem (mem s)) (4096 * f) (\<lambda>_. 0) 0 4096\<rparr>)"
    using k(3,4) by (simp add: memset_def put_frame)
  obtain t ow' where t: "mappages (kv d) (pa v) 4096 (pa f)
        ((if flags AND MAP_PROT_WRITE \<noteq> 0 then MAP_PROT_WRITE else 0) OR PTE_U)
        (k1\<lparr>pmem := memmove (pmem (mem s)) (4096 * f) (\<lambda>_. 0) 0 4096\<rparr>) = Some (0, t)"
      "new_page d v flags (\<lambda>_. 0) (mem s) ow t ow'"
    using ex by blast
  have "enter_page other (-1) fp (kv f) (pa v) flags (s\<lparr>mem := k1\<rparr>) = Some (s\<lparr>mem := t\<rparr>)"
    using ms t(1) runs_onD(3) [OF run] by (cases "flags AND MAP_PROT_WRITE = 0") (simp_all add: enter_page_def Let_def)
  then show thesis using that [OF k(1,2) t(2)] by blast
qed

section \<open>Entering the pages of a region\<close>

text \<open>
  Since \<open>s0\<close>, the pages \<open>V\<close> of \<open>d\<close> have been entered, page \<open>v\<close> with the bytes \<open>c v\<close>, in frames that were
  free; nothing else has changed.
\<close>

definition entered :: "nat \<Rightarrow> nat set \<Rightarrow> u32 \<Rightarrow> (nat \<Rightarrow> nat \<Rightarrow> u8) \<Rightarrow> vm \<Rightarrow> owners \<Rightarrow> vm \<Rightarrow> owners \<Rightarrow> bool" where
  "entered d V flags c s0 ow0 s ow \<longleftrightarrow> mem_ok s ow \<and> grows d s0 ow0 s ow \<and>
     (\<forall>v < 1048576. v \<notin> V \<longrightarrow> lookup (pmem s) d v = lookup (pmem s0) d v) \<and>
     (\<forall>v \<in> V. \<exists>f. ow0 f = Free \<and> ow f = Page d v \<and> lookup (pmem s) d v = Some (pa f OR map_flags flags) \<and>
       (\<forall>k < 4096. pmem s (4096 * f + k) = c v k))"

lemma enteredD:
  assumes "entered d V flags c s0 ow0 s ow"
  shows "mem_ok s ow" "grows d s0 ow0 s ow" "v < 1048576 \<Longrightarrow> v \<notin> V \<Longrightarrow> lookup (pmem s) d v = lookup (pmem s0) d v"
    "v \<in> V \<Longrightarrow> \<exists>f. ow0 f = Free \<and> ow f = Page d v \<and> lookup (pmem s) d v = Some (pa f OR map_flags flags) \<and>
       (\<forall>k < 4096. pmem s (4096 * f + k) = c v k)"
  using assms unfolding entered_def by blast+

lemma entered_none: "mem_ok s ow \<Longrightarrow> entered d {} flags c s ow s ow"
  by (simp add: entered_def grows_refl)

lemma entered_next:
  assumes e: "entered d V flags c s0 ow0 s ow" and n: "new_page d v flags (c v) s ow t ow'" and V: "\<forall>w \<in> V. w < v"
    and v: "v < USER"
  shows "entered d (insert v V) flags c s0 ow0 t ow'"
proof -
  note g = new_pageD(2) [OF n] and g0 = enteredD(2) [OF e]
  obtain f where f: "ow f = Free" "ow' f = Page d v" "\<forall>k < 4096. pmem t (4096 * f + k) = c v k"
    and lk: "\<forall>w < 1048576. lookup (pmem t) d w = (if w = v then Some (pa f OR map_flags flags) else lookup (pmem s) d w)"
    using new_pageD(3) [OF n] by blast
  have f0: "ow0 f = Free" using growsD(3) [OF g0, of f] f(1) by auto
  have old: "\<exists>f. ow0 f = Free \<and> ow' f = Page d w \<and> lookup (pmem t) d w = Some (pa f OR map_flags flags) \<and>
       (\<forall>k < 4096. pmem t (4096 * f + k) = c w k)" if w: "w \<in> V" for w
  proof -
    obtain h where h: "ow0 h = Free" "ow h = Page d w" "lookup (pmem s) d w = Some (pa h OR map_flags flags)"
        "\<forall>k < 4096. pmem s (4096 * h + k) = c w k" using enteredD(4) [OF e w] by blast
    have "ow' h = Page d w" using growsD(3) [OF g, of h] h(2) by simp
    moreover have "lookup (pmem t) d w = lookup (pmem s) d w" using lk V w v by force
    moreover have "pmem t (4096 * h + k) = pmem s (4096 * h + k)" if "k < 4096" for k
      using growsD(5) [OF g, of h k] h(2) that by simp
    ultimately show ?thesis using h by (intro exI [of _ h]) simp
  qed
  show ?thesis
    unfolding entered_def
  proof (intro conjI allI impI ballI)
    show "mem_ok t ow'" by (rule new_pageD(1) [OF n])
    show "grows d s0 ow0 t ow'" by (rule grows_trans [OF g0 g])
    show "lookup (pmem t) d w = lookup (pmem s0) d w" if "w < 1048576" "w \<notin> insert v V" for w
      using that lk enteredD(3) [OF e that(1)] by auto
    show "\<exists>f. ow0 f = Free \<and> ow' f = Page d w \<and> lookup (pmem t) d w = Some (pa f OR map_flags flags) \<and>
       (\<forall>k < 4096. pmem t (4096 * f + k) = c w k)" if w: "w \<in> insert v V" for w
    proof (cases "w = v")
      case True
      have "lookup (pmem t) d v = Some (pa f OR map_flags flags)" using lk v by simp
      then show ?thesis using f0 f True by blast
    next
      case False
      then show ?thesis using old w by blast
    qed
  qed
qed

lemma few_free: "mem_ok s ow \<Longrightarrow> nfree ow \<le> 1 \<Longrightarrow> \<exists>x. \<forall>f. f \<noteq> x \<longrightarrow> ow f \<noteq> Free"
proof -
  assume ok: "mem_ok s ow" and n: "nfree ow \<le> 1"
  have "{f. ow f = Free} \<subseteq> {..<FRAMES}" using free_okD(2) [OF mem_okD(1) [OF ok]] by auto
  then have fin: "finite {f. ow f = Free}" by (rule finite_subset) simp
  show ?thesis
  proof (cases "{f. ow f = Free} = {}")
    case False
    then have "card {f. ow f = Free} = 1" using n card_0_eq [OF fin] unfolding nfree_def by linarith
    then show ?thesis by (auto simp: card_1_singleton_iff)
  qed blast
qed

lemma entered_room:
  assumes e: "entered d V flags c s0 ow0 s ow" and ok0: "mem_ok s0 ow0" and d0: "ow0 d = Dir" and V: "finite V"
    and room: "1025 + card V < nfree ow0"
  shows "2 \<le> nfree ow"
proof (rule ccontr)
  assume "\<not> 2 \<le> nfree ow"
  then obtain x where x: "\<forall>f. f \<noteq> x \<longrightarrow> ow f \<noteq> Free" using few_free [OF enteredD(1) [OF e]] by auto
  note sp = mem_okD(2) [OF enteredD(1) [OF e]]
  have new: "f \<in> (\<lambda>v. fr (pte (pmem s) d v)) ` V" if f: "ow0 f = Free" "ow f = Page d v" for f v
  proof (cases "v \<in> V")
    case True
    then show ?thesis using space_okD(4) [OF sp f(2)] by force
  next
    case False
    note p = space_okD(4) [OF sp f(2)]
    then have "lookup (pmem s) d v = Some (pte (pmem s) d v)" by (simp add: lookup_present)
    then have "lookup (pmem s0) d v = Some (pte (pmem s) d v)" using enteredD(3) [OF e _ False] p by simp
    then have "ow0 f = Page d v" using space_okD(3) [OF mem_okD(2) [OF ok0] d0, of v] p by (auto simp: lookup_present)
    then show ?thesis using f by simp
  qed
  have "nfree ow0 \<le> 1025 + card V"
    by (rule used_up [OF enteredD(2,1) [OF e], where x = x]) (use x new V in blast)+
  then show False using room by simp
qed

text \<open>Positions from which a file reads the same: equal, or both beyond its end.\<close>

definition same_pos :: "inode3 \<Rightarrow> nat \<Rightarrow> nat \<Rightarrow> bool" where
  "same_pos i p n \<longleftrightarrow> p = n \<or> unat (i_size i) \<le> p \<and> unat (i_size i) \<le> n"

lemma same_pos_bytes: "same_pos i p n \<Longrightarrow> file_at i p = file_at i n"
  by (auto simp: same_pos_def file_at_def)

lemma same_pos_page: "same_pos i p n \<Longrightarrow> same_pos i (p + min 4096 (unat (i_size i) - p)) (n + 4096)"
  by (auto simp: same_pos_def)

text \<open>The offset after a page has been read.\<close>

lemma offset_step:
  assumes "unat q + 4096 < 4294967296" "unat (i_size i) + 4096 < 4294967296"
  shows "unat (q + word_of_nat (page_size i q)) = unat q + min 4096 (unat (i_size i) - unat q)"
    "unat (q + word_of_nat (page_size i q)) + 4096 < 4294967296"
proof -
  have "page_size i q < 4294967296" by (simp add: page_size_def)
  then have w: "unat (word_of_nat (page_size i q) :: u32) = page_size i q" by (simp add: unat_of_nat)
  have "unat q + page_size i q + 4096 < 4294967296" using assms by (auto simp: page_size_def min_def)
  then show "unat (q + word_of_nat (page_size i q)) = unat q + min 4096 (unat (i_size i) - unat q)"
    "unat (q + word_of_nat (page_size i q)) + 4096 < 4294967296"
    using w by (simp_all add: unat_word_ariths page_size_def)
qed

lemma eager_loop_ok:
  assumes "runs_on d s ow" "mem_ok s0 ow0" "ow0 d = Dir"
    and "entered d {u0..<u} flags (\<lambda>v. file_at (node s j) (n + 4096 * (v - u0))) s0 ow0 (mem s) ow"
    and "u0 \<le> u" "u \<le> max u0 (up new)" "unat new \<le> 2147483648" "u0 \<le> USER"
    and "\<forall>v \<in> {u0..<up new}. lookup (pmem s0) d v = None" "1025 + (up new - u0) < nfree ow0"
    and "fd \<noteq> -1" "regular s j" "unat (f_off (ftable s j)) + 4096 < 4294967296"
    and "unat (i_size (node s j)) + 4096 < 4294967296"
    and "same_pos (node s j) (unat (f_off (ftable s j))) (n + 4096 * (u - u0))"
  shows "\<exists>q t ow'. eager_loop other fd flags (Some j) new (pa u) s = Some (True, set_off j q (s\<lparr>mem := t\<rparr>)) \<and>
    entered d {u0..<max u0 (up new)} flags (\<lambda>v. file_at (node s j) (n + 4096 * (v - u0))) s0 ow0 t ow' \<and>
    runs_on d (set_off j q (s\<lparr>mem := t\<rparr>)) ow'"
  using assms
proof (induction "up new - u" arbitrary: u s ow)
  case (0 u s ow)
  have "u \<le> USER" using 0(7-9) up_le [of new] 0(1) by auto
  then have "\<not> pa u < new" using 0(1) up_iff [of u new] by (subst pa_less) simp_all
  then have l: "eager_loop other fd flags (Some j) new (pa u) s = Some (True, s)" by (subst eager_loop.simps) simp
  have same: "set_off j (f_off (ftable s j)) (s\<lparr>mem := mem s\<rparr>) = s" by (simp add: set_off_def)
  have "u = max u0 (up new)" using 0(1,6,7) by simp
  then show ?case using l same 0(2,5) by (intro exI [of _ "f_off (ftable s j)"] exI [of _ "mem s"] exI [of _ ow]) simp
next
  case (Suc x u s ow)
  note run = Suc(3)
  have u: "u < up new" "u < USER" using Suc(2) up_le [OF Suc(9)] by simp_all
  then have lt: "pa u < new" using up_iff [of u new] by (subst pa_less) simp_all
  let ?c = "\<lambda>v. file_at (node s j) (n + 4096 * (v - u0))"
  have "lookup (pmem (mem s)) d u = lookup (pmem s0) d u" using enteredD(3) [OF Suc(6), of u] u(2) by simp
  then have np: "lookup (pmem (mem s)) d u = None" using Suc(11,7) u(1) by simp
  have "1025 + card {u0..<u} < nfree ow0" using Suc(12) u(1) by simp
  from entered_room [OF Suc(6,4,5) _ this] have room: "2 \<le> nfree ow" by simp
  obtain fa k1 t ow' where k: "kalloc (mem s) = Some (fa, k1)" "fa \<noteq> 0"
    and nw: "new_page d u flags (file_bytes (node s j) (f_off (ftable s j))) (mem s) ow t ow'"
    and en: "enter_page other fd (Some j) fa (pa u) flags (s\<lparr>mem := k1\<rparr>) =
       Some (set_off j (f_off (ftable s j) + word_of_nat (page_size (node s j) (f_off (ftable s j)))) (s\<lparr>mem := t\<rparr>))"
    by (rule enter_file [OF run u(2) np room Suc(13,14,15)])
  define q where "q = f_off (ftable s j) + word_of_nat (page_size (node s j) (f_off (ftable s j)))"
  define s1 where "s1 = set_off j q (s\<lparr>mem := t\<rparr>)"
  note os = offset_step [OF Suc(15,16), folded q_def]
  have s1: "f_off (ftable s1 j) = q" "node s1 j = node s j" "regular s1 j" "mem s1 = t" "cp s1 = cp s"
    using Suc(14) by (simp_all add: s1_def set_off_def regular_def)
  have c: "file_bytes (node s j) (f_off (ftable s j)) = ?c u" using same_pos_bytes [OF Suc(17)] .
  have "entered d (insert u {u0..<u}) flags ?c s0 ow0 t ow'"
    by (rule entered_next [OF Suc(6) nw [unfolded c] _ u(2)]) simp
  moreover have "insert u {u0..<u} = {u0..<Suc u}" using Suc(7) by auto
  ultimately have e1: "entered d {u0..<Suc u} flags (\<lambda>v. file_at (node s1 j) (n + 4096 * (v - u0))) s0 ow0 (mem s1) ow'"
    using s1 by simp
  have run1: "runs_on d s1 ow'"
    using enteredD(1) [OF e1] growsD(3) [OF new_pageD(2) [OF nw], of d] runs_onD(2,3) [OF run] s1 by (simp add: runs_on_def)
  have "same_pos (node s j) (unat q) (n + 4096 * (u - u0) + 4096)" using same_pos_page [OF Suc(17)] os(1) by simp
  moreover have "n + 4096 * (u - u0) + 4096 = n + 4096 * (Suc u - u0)" using Suc(7) by simp
  ultimately have p1: "same_pos (node s1 j) (unat (f_off (ftable s1 j))) (n + 4096 * (Suc u - u0))" using s1 by simp
  have "x = up new - Suc u" "u0 \<le> Suc u" "Suc u \<le> max u0 (up new)" using Suc(2,7) u(1) by simp_all
  from Suc(1) [OF this(1) run1 Suc(4,5) e1 this(2,3) Suc(9-13) s1(3)] os(2) Suc(16) p1
  obtain q' t' ow2 where r: "eager_loop other fd flags (Some j) new (pa (Suc u)) s1 = Some (True, set_off j q' (s1\<lparr>mem := t'\<rparr>))"
    "entered d {u0..<max u0 (up new)} flags (\<lambda>v. file_at (node s1 j) (n + 4096 * (v - u0))) s0 ow0 t' ow2"
    "runs_on d (set_off j q' (s1\<lparr>mem := t'\<rparr>)) ow2"
    using s1 by auto
  have st: "set_off j q' (s1\<lparr>mem := t'\<rparr>) = set_off j q' (s\<lparr>mem := t'\<rparr>)" by (simp add: s1_def set_off_def)
  have "eager_loop other fd flags (Some j) new (pa u) s = eager_loop other fd flags (Some j) new (pa (Suc u)) s1"
    using lt k en by (subst eager_loop.simps) (simp add: pa_Suc s1_def q_def)
  then show ?case using r s1(2) unfolding st by auto
qed

end
