(* ===== verification/MmapRegions.thy ===== *)
theory MmapRegions
  imports Mmap VmMap
begin

text \<open>
  The regions of a process over the system calls and page faults that change them: which fields each
  operation leaves alone, and the invariant that regions in use do not overlap.
\<close>

section \<open>What leaves the process alone\<close>

lemma set_off_simps [simp]: "cp (set_off i v s) = cp s" "mem (set_off i v s) = mem s" "inodes (set_off i v s) = inodes s"
  by (simp_all add: set_off_def)

lemma set_region_cp [simp]: "cp (set_region i r s) = (cp s)\<lparr>mm_arr := (mm_arr (cp s))(i := r)\<rparr>"
  by (simp add: set_region_def)

lemma bind_SomeE: "Option.bind m f = Some y \<Longrightarrow> (\<And>x. m = Some x \<Longrightarrow> f x = Some y \<Longrightarrow> P) \<Longrightarrow> P"
  by (cases m) auto

lemma put_off_cp: "put_off f v s = Some t \<Longrightarrow> cp t = cp s"
  by (auto simp: put_off_def split: option.splits elim!: bind_SomeE)

lemma readi_cp: "readi other ip dst off n s = Some (r, t) \<Longrightarrow> cp t = cp s"
  by (auto simp: readi_def Let_def split: if_splits elim!: bind_SomeE)

lemma fileread_cp: "fileread other fp a n s = Some (r, t) \<Longrightarrow> cp t = cp s"
  by (auto simp: fileread_def Let_def split: if_splits filetype.splits elim!: bind_SomeE dest!: readi_cp)

lemma enter_page_cp: "enter_page other fd fp fa va flags s = Some t \<Longrightarrow> cp t = cp s"
  by (auto simp: enter_page_def Let_def split: if_splits elim!: bind_SomeE dest!: fileread_cp)

lemma eager_loop_cp:
  assumes "eager_loop other fd flags fp new a s = Some r" shows "cp (snd r) = cp s"
proof (rule eager_loop.raw_induct [where P = "\<lambda>other fd flags fp new a s r. cp (snd r) = cp s", OF _ assms])
  fix rec other fd flags fp new a s r
  assume IH: "\<And>other fd flags fp new a s r. rec other fd flags fp new a s = Some r \<Longrightarrow> cp (snd r) = cp s"
    and body: "(if a < new then
        Option.bind (kalloc (mem s)) (\<lambda>k.
          if fst k = 0 then Option.bind (user_byte 0 s) (\<lambda>_. Some (False, s\<lparr>mem := snd k\<rparr>))
          else Option.bind (enter_page other fd fp (fst k) a flags (s\<lparr>mem := snd k\<rparr>)) (\<lambda>s.
            rec other fd flags fp new (a + PGSIZE) s))
      else Some (True, s)) = Some r"
  show "cp (snd r) = cp s"
    using body by (auto split: if_splits elim!: bind_SomeE dest!: IH enter_page_cp)
qed

lemma unmap_loop_cp:
  assumes "unmap_loop r fin va s = Some x" shows "cp (snd x) = cp s"
proof (rule unmap_loop.raw_induct [where P = "\<lambda>r fin va s x. cp (snd x) = cp s", OF _ assms])
  fix rec r fin va s x
  assume IH: "\<And>r fin va s x. rec r fin va s = Some x \<Longrightarrow> cp (snd x) = cp s"
    and body: "(if va < fin then
        Option.bind (walkpgdir (pgdir (cp s)) va False (mem s)) (\<lambda>x.
          if fst x = 0 then Some (False, s)
          else Option.bind (ld (fst x) (mem s)) (\<lambda>e.
            if e AND PTE_P = 0 then Some (False, s)
            else if e AND PTE_D \<noteq> 0 \<and> r_fd r > 0 \<and> r_f r = None then None
            else Option.bind (kfree (P2V (PTE_ADDR e)) (mem s)) (\<lambda>m.
              rec r fin (va + PGSIZE) (s\<lparr>mem := m\<rparr>))))
      else Some (True, s)) = Some x"
  show "cp (snd x) = cp s"
    using body by (auto split: if_splits elim!: bind_SomeE dest!: IH)
qed

lemma page_fault_cp: "page_fault_handler other addr err s = Some (r, t) \<Longrightarrow> cp t = cp s"
  by (auto simp: page_fault_handler_def Let_def split: if_splits option.splits elim!: bind_SomeE dest!: put_off_cp enter_page_cp)

section \<open>Regions in use\<close>

definition used :: "proc3 \<Rightarrow> nat \<Rightarrow> bool" where
  "used p i \<longleftrightarrow> i < REGIONS \<and> r_fd (mm_arr p i) \<noteq> 0"

text \<open>The end of the part of the address space that \<open>mmap\<close> counts as taken.\<close>

definition top_va :: "proc3 \<Rightarrow> nat" where
  "top_va p = unat (sz p) + unat (mm_sz p) + 0x1000000"

definition regions_ok :: "proc3 \<Rightarrow> bool" where
  "regions_ok p \<longleftrightarrow> top_va p < 2 ^ 32 \<and>
     (\<forall>i. used p i \<longrightarrow> unat (start_va (mm_arr p i)) \<le> unat (end_va (mm_arr p i)) \<and> unat (end_va (mm_arr p i)) \<le> top_va p) \<and>
     (\<forall>i j. used p i \<longrightarrow> used p j \<longrightarrow> i \<noteq> j \<longrightarrow>
       unat (end_va (mm_arr p i)) \<le> unat (start_va (mm_arr p j)) \<or> unat (end_va (mm_arr p j)) \<le> unat (start_va (mm_arr p i)))"

lemma regions_okD:
  assumes "regions_ok p"
  shows "top_va p < 2 ^ 32"
    "used p i \<Longrightarrow> unat (start_va (mm_arr p i)) \<le> unat (end_va (mm_arr p i))"
    "used p i \<Longrightarrow> unat (end_va (mm_arr p i)) \<le> top_va p"
    "used p i \<Longrightarrow> used p j \<Longrightarrow> i \<noteq> j \<Longrightarrow>
       unat (end_va (mm_arr p i)) \<le> unat (start_va (mm_arr p j)) \<or> unat (end_va (mm_arr p j)) \<le> unat (start_va (mm_arr p i))"
  using assms unfolding regions_ok_def by blast+

lemma find_index:
  "List.find P [0..<n] = Some i \<Longrightarrow> i < n \<and> P i \<and> (\<forall>j < i. \<not> P j)"
  by (auto simp: find_Some_iff)

lemma free_slot: "get_valid_mmarr p = Some i \<Longrightarrow> i < REGIONS \<and> \<not> used p i"
  unfolding get_valid_mmarr_def by (drule find_index) (simp add: used_def)

lemma covering: "covering_region a b p = Some i \<Longrightarrow>
    used p i \<and> start_va (mm_arr p i) \<le> a \<and> b \<le> end_va (mm_arr p i)"
  unfolding covering_region_def by (drule find_index) (simp add: used_def)

text \<open>Changing one slot: the region there must end up apart from the others.\<close>

lemma regions_ok_apart:
  assumes ok: "regions_ok p" and i: "i < REGIONS" and top: "top_va p \<le> top_va q" "top_va q < 2 ^ 32"
    and arr: "mm_arr q = (mm_arr p)(i := r)"
    and r: "unat (start_va r) \<le> unat (end_va r)" "unat (end_va r) \<le> top_va q"
    and apart: "\<And>j. used p j \<Longrightarrow> j \<noteq> i \<Longrightarrow>
      unat (end_va r) \<le> unat (start_va (mm_arr p j)) \<or> unat (end_va (mm_arr p j)) \<le> unat (start_va r)"
  shows "regions_ok q"
proof -
  have u: "used q j \<longleftrightarrow> used p j" if "j \<noteq> i" for j using that by (simp add: used_def arr)
  show ?thesis
    unfolding regions_ok_def
  proof (intro conjI allI impI)
    fix j assume j: "used q j"
    show "unat (start_va (mm_arr q j)) \<le> unat (end_va (mm_arr q j))"
      using r(1) j u regions_okD(2) [OF ok, of j] by (cases "j = i") (simp_all add: arr)
    show "unat (end_va (mm_arr q j)) \<le> top_va q"
      using r(2) j u top(1) regions_okD(3) [OF ok, of j] by (cases "j = i") (simp_all add: arr)
  next
    fix j k assume j: "used q j" "used q k" "j \<noteq> k"
    then show "unat (end_va (mm_arr q j)) \<le> unat (start_va (mm_arr q k)) \<or> unat (end_va (mm_arr q k)) \<le> unat (start_va (mm_arr q j))"
      using u apart [of j] apart [of k] regions_okD(4) [OF ok, of j k] by (cases "j = i"; cases "k = i") (auto simp: arr)
  qed (rule top(2))
qed

lemma regions_ok_slot:
  assumes ok: "regions_ok p" and i: "i < REGIONS" and top: "top_va p \<le> top_va q" "top_va q < 2 ^ 32"
    and arr: "mm_arr q = (mm_arr p)(i := r)"
    and r: "unat (start_va r) \<le> unat (end_va r)" "unat (end_va r) \<le> top_va q"
    and new: "top_va p \<le> unat (start_va r) \<or>
      used p i \<and> unat (start_va (mm_arr p i)) \<le> unat (start_va r) \<and> unat (end_va r) \<le> unat (end_va (mm_arr p i))"
  shows "regions_ok q"
proof (rule regions_ok_apart [OF ok i top arr r])
  fix j assume j: "used p j" "j \<noteq> i"
  show "unat (end_va r) \<le> unat (start_va (mm_arr p j)) \<or> unat (end_va (mm_arr p j)) \<le> unat (start_va r)"
    using new regions_okD(3) [OF ok j(1)] regions_okD(4) [OF ok j(1), of i] j(2) by linarith
qed

lemma regions_ok_same: "regions_ok p \<Longrightarrow> mm_arr q = mm_arr p \<Longrightarrow> top_va p \<le> top_va q \<Longrightarrow> top_va q < 2 ^ 32 \<Longrightarrow> regions_ok q"
  unfolding regions_ok_def used_def by (simp add: order_trans [of _ "top_va p" "top_va q"])

section \<open>Mapping\<close>

text \<open>The mappings that the process asks for stay below the kernel.\<close>

definition below :: "kernel3 \<Rightarrow> nat \<Rightarrow> bool" where
  "below s n \<longleftrightarrow> top_va (cp s) + n \<le> 0x80000000"

definition next_va :: "proc3 \<Rightarrow> u32" where
  "next_va p = sz p + mm_sz p + MARGIN"

lemma unat_plus: "unat a + unat b < 4294967296 \<Longrightarrow> unat (a + b :: u32) = unat a + unat b"
  by (subst unat_word_ariths) simp

lemma next_va_top: "top_va p + unat n < 2 ^ 32 \<Longrightarrow> unat (next_va p) = top_va p" "top_va p + unat n < 2 ^ 32 \<Longrightarrow> unat (next_va p + n) = top_va p + unat n"
  "top_va p + unat n < 2 ^ 32 \<Longrightarrow> unat (mm_sz p + n) = unat (mm_sz p) + unat n"
  by (simp_all add: next_va_def top_va_def unat_plus)

text \<open>Both ways of mapping add one region above all others, or leave the regions alone.\<close>

definition with_region :: "proc3 \<Rightarrow> nat \<Rightarrow> u32 \<Rightarrow> mmap_region \<Rightarrow> proc3" where
  "with_region p i len r = p\<lparr>mm_cnt := mm_cnt p + 1, mm_sz := mm_sz p + len, mm_arr := (mm_arr p)(i := r)\<rparr>"

lemma with_region_simps [simp]:
  "sz (with_region p i len r) = sz p" "mm_sz (with_region p i len r) = mm_sz p + len"
  "mm_arr (with_region p i len r) = (mm_arr p)(i := r)" "pgdir (with_region p i len r) = pgdir p"
  by (simp_all add: with_region_def)

lemma add_region_cp: "cp (add_region i fd a b len fp off flags s) = with_region (cp s) i len
    \<lparr>r_fd = fd, start_va = a, end_va = b, r_f = fp, r_offset = off, r_flags = flags\<rparr>"
  by (simp add: add_region_def with_region_def)

definition new_region :: "proc3 \<Rightarrow> int \<Rightarrow> u32 \<Rightarrow> mmap_region \<Rightarrow> bool" where
  "new_region p fd len r \<longleftrightarrow> r_fd r = fd \<and> start_va r = next_va p \<and> end_va r = next_va p + len"

definition maps_region :: "int \<Rightarrow> u32 \<Rightarrow> proc3 \<Rightarrow> proc3 \<Rightarrow> bool" where
  "maps_region fd len p q \<longleftrightarrow> q = p \<or>
     (\<exists>i x. get_valid_mmarr p = Some i \<and> new_region p fd len x \<and> q = with_region p i len x)"

lemma maps_region_same [simp]: "maps_region fd len p p"
  by (simp add: maps_region_def)

lemma maps_region_new [simp]:
  assumes "get_valid_mmarr p = Some i"
  shows "maps_region fd len p (with_region p i len
    \<lparr>r_fd = fd, start_va = sz p + mm_sz p + MARGIN, end_va = sz p + mm_sz p + MARGIN + len, r_f = fp, r_offset = off, r_flags = flags\<rparr>)"
    (is "maps_region fd len p (with_region p i len ?x)")
proof -
  have "new_region p fd len ?x" by (simp add: new_region_def next_va_def)
  then show ?thesis unfolding maps_region_def using assms by blast
qed

lemma mmap_lazy_effect:
  "mmap_lazy fd offset len flags fp s = Some (r, t) \<Longrightarrow> maps_region fd len (cp s) (cp t)"
  by (auto simp: mmap_lazy_def add_region_cp Let_def split: option.splits)

lemma mmap_eager_effect:
  "mmap_eager other fd offset len flags fp s = Some (r, t) \<Longrightarrow> maps_region fd len (cp s) (cp t)"
  by (auto simp: mmap_eager_def Let_def add_region_cp split: option.splits if_splits
      elim!: bind_SomeE dest!: put_off_cp eager_loop_cp)

lemma mmap_effect:
  "mmap other fd offset len flags s = Some (r, t) \<Longrightarrow> maps_region fd len (cp s) (cp t)"
  by (auto simp: mmap_def Let_def split: if_splits elim!: bind_SomeE dest!: mmap_lazy_effect mmap_eager_effect)

lemma mmap_regions:
  assumes ok: "regions_ok (cp s)" and m: "mmap other fd offset len flags s = Some (r, t)" and n: "below s (unat len)"
  shows "regions_ok (cp t)"
  using mmap_effect [OF m] unfolding maps_region_def
proof (elim disjE exE conjE)
  fix i x
  assume i: "get_valid_mmarr (cp s) = Some i" and x: "new_region (cp s) fd len x" and c: "cp t = with_region (cp s) i len x"
  have b: "top_va (cp s) + unat len < 2 ^ 32" using n by (simp add: below_def)
  note nx = next_va_top [OF b]
  have top: "top_va (cp t) = top_va (cp s) + unat len" using nx(3) by (simp add: c top_va_def)
  show ?thesis
    by (rule regions_ok_slot [OF ok, where i = i and r = x])
      (use free_slot [OF i] top b nx x in \<open>simp_all add: c new_region_def\<close>)
qed (use ok in simp)

section \<open>Unmapping\<close>

lemma cut_region_ok:
  assumes ok: "regions_ok (cp s)" and n: "below s 0" and u: "used (cp s) i"
    and a: "unat (start_va (mm_arr (cp s) i)) \<le> unat a" "unat (a + len) \<le> unat (end_va (mm_arr (cp s) i))"
    and l: "unat (a + len) = unat a + unat len"
    and t: "cut_region i a (a + len) len s = Some t"
  shows "regions_ok (cp t)"
proof -
  define p where "p = cp s"
  define x where "x = mm_arr p i"
  note ok = ok [folded p_def] and u = u [folded p_def] and a = a [folded p_def, folded x_def]
  have i: "i < REGIONS" using u by (simp add: used_def)
  have x: "unat (start_va x) \<le> unat (end_va x)" "unat (end_va x) \<le> top_va p"
    using regions_okD(2,3) [OF ok u] by (simp_all add: x_def)
  have top: "top_va p < 2 ^ 32" by (rule regions_okD(1) [OF ok])
  consider (whole) "start_va x = a" "a + len = end_va x"
    | (head) "start_va x = a" "a + len \<noteq> end_va x"
    | (tail) "start_va x \<noteq> a" "a + len = end_va x"
    | (middle) "start_va x \<noteq> a" "a + len \<noteq> end_va x" by blast
  then show ?thesis
  proof cases
    case whole
    have c: "cp t = p\<lparr>mm_cnt := mm_cnt p - 1, mm_arr := (mm_arr p)(i := x\<lparr>r_fd := 0\<rparr>)\<rparr>"
      using t whole by (auto simp: cut_region_def Let_def p_def x_def)
    show ?thesis
      by (rule regions_ok_slot [OF ok i, where r = "x\<lparr>r_fd := 0\<rparr>"]) (use u x top in \<open>simp_all add: c top_va_def x_def\<close>)
  next
    case head
    have c: "cp t = p\<lparr>mm_arr := (mm_arr p)(i := x\<lparr>end_va := end_va x - len\<rparr>)\<rparr>"
      using t head by (auto simp: cut_region_def Let_def p_def x_def)
    have e: "unat (end_va x - len) = unat (end_va x) - unat len"
      using a(2) l by (subst unat_sub) (simp_all add: word_le_nat_alt)
    show ?thesis
      by (rule regions_ok_slot [OF ok i, where r = "x\<lparr>end_va := end_va x - len\<rparr>"]) (use u x top a l e head in \<open>simp_all add: c top_va_def x_def\<close>)
  next
    case tail
    have c: "cp t = p\<lparr>mm_arr := (mm_arr p)(i := x\<lparr>start_va := start_va x + len\<rparr>)\<rparr>"
      using t tail by (auto simp: cut_region_def Let_def p_def x_def)
    have "unat (start_va x) + unat len < 4294967296" using a(1) l unat_less32 [of "a + len"] by linarith
    then have e: "unat (start_va x + len) = unat (start_va x) + unat len" by (rule unat_plus)
    show ?thesis
      by (rule regions_ok_slot [OF ok i, where r = "x\<lparr>start_va := start_va x + len\<rparr>"]) (use u x top a l e tail in \<open>simp_all add: c top_va_def x_def\<close>)
  next
    case middle
    obtain j where j: "get_valid_mmarr p = Some j"
      using t middle by (auto simp: cut_region_def Let_def p_def x_def elim!: bind_SomeE)
    note fj = free_slot [OF j]
    have ji: "j \<noteq> i" using fj u by auto
    define y where "y = x\<lparr>start_va := a + len, end_va := end_va x\<rparr>"
    define p1 where "p1 = p\<lparr>mm_arr := (mm_arr p)(i := x\<lparr>end_va := a\<rparr>)\<rparr>"
    define z where "z = mm_sz p + (end_va x - (a + len))"
    have c: "cp t = p\<lparr>mm_arr := (mm_arr p)(i := x\<lparr>end_va := a\<rparr>, j := y), mm_cnt := mm_cnt p + 1, mm_sz := z\<rparr>"
      using t [symmetric] middle by (simp add: cut_region_def Let_def j y_def z_def flip: p_def x_def)
    have "unat (start_va x) \<noteq> unat a" using middle(1) unfolding word_unat_eq_iff .
    then have pos: "0 < unat a" using a(1) by linarith
    have "unat (end_va x - (a + len)) = unat (end_va x) - unat (a + len)"
      using a(2) by (subst unat_sub) (simp_all add: word_le_nat_alt)
    moreover have "top_va p \<le> 2147483648" using n by (simp add: below_def p_def)
    ultimately have "unat (mm_sz p) + unat (end_va x - (a + len)) + (unat (sz p) + 0x1000000) < 2 ^ 32"
      using x(2) l pos a(2) by (simp add: top_va_def)
    then have tt: "top_va p \<le> top_va (cp t)" "top_va (cp t) < 2 ^ 32"
      by (simp_all add: c z_def top_va_def unat_plus)
    have ok1: "regions_ok p1"
      by (rule regions_ok_slot [OF ok i, where r = "x\<lparr>end_va := a\<rparr>"])
        (use u x top a l in \<open>simp_all add: p1_def top_va_def x_def\<close>)
    have used1: "used p1 k \<Longrightarrow> used p k" for k
      using u by (cases "k = i") (simp_all add: used_def p1_def)
    have tp: "top_va p1 = top_va p" by (simp add: p1_def top_va_def)
    show ?thesis
    proof (rule regions_ok_apart [OF ok1, where i = j and r = y])
      fix k assume k: "used p1 k" "k \<noteq> j"
      show "unat (end_va y) \<le> unat (start_va (mm_arr p1 k)) \<or> unat (end_va (mm_arr p1 k)) \<le> unat (start_va y)"
      proof (cases "k = i")
        case True
        then show ?thesis using l by (simp add: p1_def y_def)
      next
        case False
        then show ?thesis
          using regions_okD(4) [OF ok used1 [OF k(1)] u] a l by (auto simp: p1_def y_def simp flip: x_def)
      qed
    qed (use fj tt tp a x in \<open>simp_all add: c p1_def y_def\<close>)
  qed
qed

lemma page_aligned: "unat a mod 4096 = 0 \<Longrightarrow> PGROUNDDOWN a = a"
proof -
  assume "unat a mod 4096 = 0"
  then have "unat (PGROUNDDOWN a) = unat a" using low12 [of a] by (auto simp: PGROUNDDOWN_def)
  then show ?thesis unfolding word_unat_eq_iff .
qed

text \<open>A range that \<open>munmap\<close> accepts, and what it does to the region that covers it.\<close>

lemma range_pages:
  assumes "addr mod 4096 = 0" "len mod 4096 = 0" "unat addr + unat len \<le> 0x80000000"
  shows "PGROUNDDOWN addr = addr" "PGROUNDDOWN (addr + len) = addr + len" "unat (addr + len) = unat addr + unat len"
proof -
  have mods: "unat addr mod 4096 = 0" "unat len mod 4096 = 0" using assms(1,2) by (simp_all add: word_unat_eq_iff unat_mod)
  show sum: "unat (addr + len) = unat addr + unat len" using assms(3) by (simp add: unat_plus)
  show "PGROUNDDOWN addr = addr" "PGROUNDDOWN (addr + len) = addr + len"
    using mods sum by (auto intro!: page_aligned simp: mod_add_eq [symmetric])
qed

lemma munmap_effect:
  assumes "munmap addr len s = Some (r, t)" "addr mod 4096 = 0" "len mod 4096 = 0" "unat addr + unat len \<le> 0x80000000"
    and "covering_region addr (addr + len) (cp s) = Some i"
  shows "r = -1 \<and> cp t = cp s \<or> (\<exists>u. cp u = cp s \<and> cut_region i addr (addr + len) len u = Some t)"
  using assms(1-3,5) range_pages(1,2) [OF assms(2-4)]
  by (auto simp: munmap_def Let_def split: if_splits elim!: bind_SomeE dest!: put_off_cp unmap_loop_cp)

lemma munmap_regions:
  assumes ok: "regions_ok (cp s)" and m: "munmap addr len s = Some (r, t)" and n: "below s 0"
    and l: "unat addr + unat len \<le> 0x80000000"
  shows "regions_ok (cp t)"
proof (cases "addr mod 4096 = 0 \<and> len mod 4096 = 0")
  case False
  then show ?thesis using m ok by (cases "addr mod 4096 = 0") (simp_all add: munmap_def split: if_splits)
next
  case True
  then have al: "addr mod 4096 = 0" "len mod 4096 = 0" by simp_all
  note rp = range_pages [OF al l]
  show ?thesis
  proof (cases "covering_region addr (addr + len) (cp s)")
    case None
    then show ?thesis using m ok al rp by (simp add: munmap_def Let_def)
  next
    case (Some i)
    note cov = covering [OF Some]
    from munmap_effect [OF m al l Some] show ?thesis
    proof (elim disjE exE conjE)
      fix u assume u: "cp u = cp s" and c: "cut_region i addr (addr + len) len u = Some t"
      show ?thesis
        by (rule cut_region_ok [OF _ _ _ _ _ rp(3) c]) (use ok n cov u in \<open>simp_all add: below_def word_le_nat_alt\<close>)
    qed (use ok in simp)
  qed
qed

section \<open>Growing the heap, page faults\<close>

lemma alloc_loop_result:
  assumes "alloc_loop dir old new a s = Some r" shows "fst r = 0 \<or> fst r = new"
proof (rule alloc_loop.raw_induct [where P = "\<lambda>dir old new a s r. fst r = 0 \<or> fst r = new", OF _ assms])
  fix rec dir old new a s r
  assume IH: "\<And>dir old new a s r. rec dir old new a s = Some r \<Longrightarrow> fst r = 0 \<or> fst r = new"
    and body: "(if a < new then
        Option.bind (kalloc s) (\<lambda>m.
          if fst m = 0 then
            Option.bind (deallocuvm dir new old (snd m)) (\<lambda>r. Some (0, snd r))
          else Option.bind (memset (fst m) 0 4096 (snd m)) (\<lambda>s.
            Option.bind (mappages dir a PGSIZE (V2P (fst m)) (PTE_W OR PTE_U) s) (\<lambda>r.
              if fst r < 0 then
                Option.bind (deallocuvm dir new old (snd r)) (\<lambda>r.
                  Option.bind (kfree (fst m) (snd r)) (\<lambda>s. Some (0, s)))
              else rec dir old new (a + PGSIZE) (snd r))))
      else Some (new, s)) = Some r"
  show "fst r = 0 \<or> fst r = new"
    using body by (auto split: if_splits elim!: bind_SomeE dest!: IH)
qed

lemma allocuvm_result: "allocuvm dir old new s = Some (r, t) \<Longrightarrow> r \<noteq> 0 \<Longrightarrow> r = new \<or> r = old"
  by (auto simp: allocuvm_def split: if_splits dest: alloc_loop_result)

lemma growproc_regions:
  assumes ok: "regions_ok (cp s)" and m: "growproc n s = Some (r, t)" and n: "0 \<le> sint n" "below s (unat n)"
  shows "regions_ok (cp t)"
proof (cases "cp t = cp s")
  case True
  then show ?thesis using ok by simp
next
  case False
  then obtain z where z: "cp t = (cp s)\<lparr>sz := z\<rparr>" "z = sz (cp s) + n \<or> z = sz (cp s)"
    using m n(1) by (auto simp: growproc_def Let_def split: if_splits elim!: bind_SomeE dest!: allocuvm_result)
  have b: "top_va (cp s) + unat n < 2 ^ 32" using n(2) by (simp add: below_def)
  then have "unat (sz (cp s) + n) = unat (sz (cp s)) + unat n" by (simp add: unat_plus top_va_def)
  then have "top_va (cp s) \<le> top_va (cp t)" "top_va (cp t) < 2 ^ 32"
    using z b by (auto simp: top_va_def)
  then show ?thesis by (intro regions_ok_same [OF ok]) (simp_all add: z(1))
qed

lemma trap_regions:
  assumes ok: "regions_ok (cp s)" and m: "trap_pgflt other addr err s = Some t"
  shows "regions_ok (cp t)"
proof -
  have "mm_arr (cp t) = mm_arr (cp s)" "top_va (cp t) = top_va (cp s)"
    using m by (auto simp: trap_pgflt_def top_va_def split: if_splits elim!: bind_SomeE dest!: page_fault_cp)
  then show ?thesis using regions_okD(1) [OF ok] by (intro regions_ok_same [OF ok]) simp_all
qed

section \<open>A running process\<close>

text \<open>What a process asks of the kernel that can change its regions, and the kernel after it.\<close>

datatype mm_request =
    Ask_mmap int u32 u32 u32     \<comment> \<open>descriptor, offset, length, flags\<close>
  | Ask_munmap u32 u32           \<comment> \<open>address, length\<close>
  | Page_fault u32 u32           \<comment> \<open>address, error code\<close>
  | Ask_sbrk u32

primrec mm_serve :: "outside \<Rightarrow> mm_request \<Rightarrow> kernel3 \<Rightarrow> kernel3 option" where
  "mm_serve other (Ask_mmap fd offset len flags) s = map_option snd (mmap other fd offset len flags s)"
| "mm_serve other (Ask_munmap addr len) s = map_option snd (munmap addr len s)"
| "mm_serve other (Page_fault addr err) s = trap_pgflt other addr err s"
| "mm_serve other (Ask_sbrk n) s = map_option snd (growproc n s)"

abbreviation mm_run :: "outside \<Rightarrow> mm_request list \<Rightarrow> kernel3 \<Rightarrow> kernel3 option" where
  "mm_run other qs \<equiv> for_opt qs (mm_serve other)"

text \<open>
  What the kernel does not test: the mappings stay below it, what is unmapped is a range of user
  addresses, and the heap does not shrink.
\<close>

primrec orderly :: "kernel3 \<Rightarrow> mm_request \<Rightarrow> bool" where
  "orderly s (Ask_mmap fd offset len flags) = below s (unat len)"
| "orderly s (Ask_munmap addr len) = (below s 0 \<and> unat addr + unat len \<le> 0x80000000)"
| "orderly s (Page_fault addr err) = True"
| "orderly s (Ask_sbrk n) = (0 \<le> sint n \<and> below s (unat n))"

lemma mm_serve_regions: "mm_serve other q s = Some t \<Longrightarrow> orderly s q \<Longrightarrow> regions_ok (cp s) \<Longrightarrow> regions_ok (cp t)"
  by (cases q) (auto intro: mmap_regions munmap_regions trap_regions growproc_regions)

lemma mm_run_regions:
  assumes "mm_run other qs s = Some t" "regions_ok (cp s)"
    and "\<And>k u. k < length qs \<Longrightarrow> mm_run other (take k qs) s = Some u \<Longrightarrow> orderly u (qs ! k)"
  shows "regions_ok (cp t)"
  using assms
proof (induction qs arbitrary: t rule: rev_induct)
  case (snoc q qs)
  obtain u where u: "mm_run other qs s = Some u" "mm_serve other q u = Some t"
    using snoc.prems(1) by (auto simp: for_opt_append elim!: bind_SomeE)
  have "orderly v (qs ! k)" if "k < length qs" "mm_run other (take k qs) s = Some v" for k v
    using snoc.prems(3) [of k v] that by (simp add: nth_append)
  from snoc.IH [OF u(1) snoc.prems(2) this] have ok: "regions_ok (cp u)" .
  have "orderly u q" using snoc.prems(3) [of "length qs" u] u(1) by (simp add: nth_append)
  from mm_serve_regions [OF u(2) this ok] show ?case .
qed simp

lemma new_regions_ok: "unat (sz p) + 0x1000000 < 2 ^ 32 \<Longrightarrow> regions_ok (new_regions p)"
  by (simp add: regions_ok_def new_regions_def used_def top_va_def)

section \<open>The end of a process\<close>

lemma writei_cp: "writei other ip src off n s = Some (r, t) \<Longrightarrow> cp t = cp s"
  by (auto simp: writei_def Let_def split: if_splits elim!: bind_SomeE)

lemma exit_loop_cp:
  assumes "exit_loop other r va s = Some t" shows "cp t = cp s"
proof (rule exit_loop.raw_induct [where P = "\<lambda>other r va s t. cp t = cp s", OF _ assms])
  fix rec other r va s t
  assume IH: "\<And>other r va s t. rec other r va s = Some t \<Longrightarrow> cp t = cp s"
    and body: "(if va < end_va r then
        Option.bind (walkpgdir (pgdir (cp s)) va False (mem s)) (\<lambda>x.
          if fst x = 0 then rec other r (va + PGSIZE) s
          else Option.bind (ld (fst x) (mem s)) (\<lambda>e.
            if e AND PTE_P = 0 then rec other r (va + PGSIZE) s
            else Option.bind
              (if e AND PTE_D \<noteq> 0 \<and> r_fd r > 0 then
                 Option.bind (r_f r) (\<lambda>i.
                   Option.bind (writei other (f_ip (ftable s i)) (P2V (PTE_ADDR e)) (P2V (PTE_ADDR e) - start_va r)
                       (if end_va r - va > PGSIZE then PGSIZE else end_va r - va) s) (\<lambda>w.
                     Some (set_off i (f_off (ftable (snd w) i) + word_of_int (fst w)) (snd w))))
               else Some s) (\<lambda>s.
              Option.bind (kfree (P2V (PTE_ADDR e)) (mem s)) (\<lambda>m.
                Option.bind (st (fst x) 0 m) (\<lambda>m. rec other r (va + PGSIZE) (s\<lparr>mem := m\<rparr>))))))
      else Some s) = Some t"
  show "cp t = cp s"
    using body by (auto split: if_splits elim!: bind_SomeE dest!: IH writei_cp)
qed

lemma fileclose_cp: "fileclose i s = Some t \<Longrightarrow> cp t = cp s"
  by (auto simp: fileclose_def Let_def split: if_splits)

text \<open>The references to the open files change only where \<open>exit\<close> closes descriptors.\<close>

abbreviation refs :: "kernel3 \<Rightarrow> nat \<Rightarrow> int" where
  "refs s i \<equiv> f_ref (ftable s i)"

lemma put_off_refs: "put_off f v s = Some t \<Longrightarrow> refs t i = refs s i \<and> cp t = cp s"
  by (auto simp: put_off_def set_off_def split: option.splits elim!: bind_SomeE)

lemma writei_refs: "writei other ip src off n s = Some (r, t) \<Longrightarrow> refs t i = refs s i"
  by (auto simp: writei_def Let_def split: if_splits elim!: bind_SomeE)

lemma exit_loop_refs:
  assumes "exit_loop other r va s = Some t" shows "refs t i = refs s i"
proof (rule exit_loop.raw_induct [where P = "\<lambda>other r va s t. refs t i = refs s i", OF _ assms])
  fix rec other r va s t
  assume IH: "\<And>other r va s t. rec other r va s = Some t \<Longrightarrow> refs t i = refs s i"
    and body: "(if va < end_va r then
        Option.bind (walkpgdir (pgdir (cp s)) va False (mem s)) (\<lambda>x.
          if fst x = 0 then rec other r (va + PGSIZE) s
          else Option.bind (ld (fst x) (mem s)) (\<lambda>e.
            if e AND PTE_P = 0 then rec other r (va + PGSIZE) s
            else Option.bind
              (if e AND PTE_D \<noteq> 0 \<and> r_fd r > 0 then
                 Option.bind (r_f r) (\<lambda>i.
                   Option.bind (writei other (f_ip (ftable s i)) (P2V (PTE_ADDR e)) (P2V (PTE_ADDR e) - start_va r)
                       (if end_va r - va > PGSIZE then PGSIZE else end_va r - va) s) (\<lambda>w.
                     Some (set_off i (f_off (ftable (snd w) i) + word_of_int (fst w)) (snd w))))
               else Some s) (\<lambda>s.
              Option.bind (kfree (P2V (PTE_ADDR e)) (mem s)) (\<lambda>m.
                Option.bind (st (fst x) 0 m) (\<lambda>m. rec other r (va + PGSIZE) (s\<lparr>mem := m\<rparr>))))))
      else Some s) = Some t"
  show "refs t i = refs s i"
    using body by (auto simp: set_off_def split: if_splits elim!: bind_SomeE dest!: IH writei_refs [of _ _ _ _ _ _ _ _ i])
qed

lemma fileclose_refs: "fileclose i s = Some t \<Longrightarrow> refs t j = refs s j - (if j = i then 1 else 0)"
  by (auto simp: fileclose_def Let_def split: if_splits)

text \<open>How many of the first \<open>n\<close> descriptors of the process are for file \<open>i\<close>.\<close>

definition uses :: "nat \<Rightarrow> kernel3 \<Rightarrow> nat \<Rightarrow> nat" where
  "uses n s i = length (filter (\<lambda>fd. ofile (cp s) fd = Some i) [0..<n])"

text \<open>Closing the files empties the table of descriptors and touches no region.\<close>

lemma close_some_files:
  "for_opt [0..<n] (\<lambda>fd s. case ofile (cp s) fd of None \<Rightarrow> Some s
     | Some i \<Rightarrow> do { s \<leftarrow> fileclose i s; Some (s\<lparr>cp := (cp s)\<lparr>ofile := (ofile (cp s))(fd := None)\<rparr>\<rparr>) }) s = Some t \<Longrightarrow>
   mm_arr (cp t) = mm_arr (cp s) \<and> ofile (cp t) = (\<lambda>fd. if fd < n then None else ofile (cp s) fd) \<and>
   refs t i = refs s i - int (uses n s i)"
proof (induction n arbitrary: t)
  case (Suc n)
  then obtain u where u: "for_opt [0..<n] (\<lambda>fd s. case ofile (cp s) fd of None \<Rightarrow> Some s
     | Some i \<Rightarrow> do { s \<leftarrow> fileclose i s; Some (s\<lparr>cp := (cp s)\<lparr>ofile := (ofile (cp s))(fd := None)\<rparr>\<rparr>) }) s = Some u"
    "(case ofile (cp u) n of None \<Rightarrow> Some u
     | Some i \<Rightarrow> do { s \<leftarrow> fileclose i u; Some (s\<lparr>cp := (cp s)\<lparr>ofile := (ofile (cp s))(n := None)\<rparr>\<rparr>) }) = Some t"
    by (auto simp: for_opt_snoc elim!: bind_SomeE)
  note IH = Suc.IH [OF u(1)]
  have "uses (Suc n) s i = uses n s i + (if ofile (cp s) n = Some i then 1 else 0)" by (simp add: uses_def)
  moreover have "ofile (cp u) n = ofile (cp s) n" using IH by simp
  ultimately show ?case
    using IH u(2) by (auto split: option.splits elim!: bind_SomeE dest: fileclose_cp fileclose_refs [where j = i]
        simp: fun_eq_iff less_Suc_eq)
qed (simp add: uses_def)

lemma close_files_cp: "close_files s = Some t \<Longrightarrow>
    mm_arr (cp t) = mm_arr (cp s) \<and> ofile (cp t) = (\<lambda>fd. if fd < NOFILE then None else ofile (cp s) fd) \<and>
    refs t i = refs s i - int (uses NOFILE s i)"
  unfolding close_files_def by (rule close_some_files)

definition all_closed :: "kernel3 \<Rightarrow> bool" where
  "all_closed s \<longleftrightarrow> (\<forall>fd < NOFILE. ofile (cp s) fd = None)"

lemma closed_uses: "all_closed s \<Longrightarrow> uses NOFILE s i = 0"
  by (simp add: all_closed_def uses_def)

lemma exit_region_cp:
  assumes "exit_region other i s = Some t"
  shows "if r_fd (mm_arr (cp s) i) = 0 then t = s else all_closed t \<and> refs t f = refs s f - int (uses NOFILE s f)"
    "j \<noteq> i \<Longrightarrow> mm_arr (cp t) j = mm_arr (cp s) j"
proof -
  have "if r_fd (mm_arr (cp s) i) = 0 then t = s
    else \<exists>u v w. put_off (r_f (mm_arr (cp s) i)) (r_offset (mm_arr (cp s) i)) s = Some u \<and>
      exit_loop other (mm_arr (cp s) i) (start_va (mm_arr (cp s) i)) u = Some v \<and> close_files v = Some w \<and>
      ofile (cp t) = ofile (cp w) \<and> ftable t = ftable w \<and> (\<forall>j. j \<noteq> i \<longrightarrow> mm_arr (cp t) j = mm_arr (cp w) j)"
    using assms by (auto simp: exit_region_def Let_def set_region_def split: if_splits elim!: bind_SomeE)
  then have "(if r_fd (mm_arr (cp s) i) = 0 then t = s else all_closed t \<and> refs t f = refs s f - int (uses NOFILE s f)) \<and>
    (\<forall>j. j \<noteq> i \<longrightarrow> mm_arr (cp t) j = mm_arr (cp s) j)"
  proof (cases "r_fd (mm_arr (cp s) i) = 0")
    case False
    with \<open>if _ then _ else _\<close> obtain u v w
      where u: "put_off (r_f (mm_arr (cp s) i)) (r_offset (mm_arr (cp s) i)) s = Some u"
        and v: "exit_loop other (mm_arr (cp s) i) (start_va (mm_arr (cp s) i)) u = Some v" and w: "close_files v = Some w"
        and t: "ofile (cp t) = ofile (cp w)" "ftable t = ftable w" "\<forall>j. j \<noteq> i \<longrightarrow> mm_arr (cp t) j = mm_arr (cp w) j"
      by auto
    have c: "cp v = cp s" using put_off_refs [OF u] exit_loop_cp [OF v] by simp
    have "refs v f = refs s f" using put_off_refs [OF u, of f] exit_loop_refs [OF v, of f] by simp
    with close_files_cp [OF w, of f] t c False show ?thesis by (simp add: all_closed_def uses_def)
  qed simp
  then show "if r_fd (mm_arr (cp s) i) = 0 then t = s else all_closed t \<and> refs t f = refs s f - int (uses NOFILE s f)"
    "j \<noteq> i \<Longrightarrow> mm_arr (cp t) j = mm_arr (cp s) j" by blast+
qed

lemma exit_some_regions:
  "for_opt [0..<n] (exit_region other) s = Some t \<Longrightarrow>
   (if \<exists>i < n. r_fd (mm_arr (cp s) i) \<noteq> 0 then all_closed t \<and> refs t f = refs s f - int (uses NOFILE s f) else t = s) \<and>
   (\<forall>j \<ge> n. mm_arr (cp t) j = mm_arr (cp s) j)"
proof (induction n arbitrary: t)
  case (Suc n)
  then obtain u where u: "for_opt [0..<n] (exit_region other) s = Some u" "exit_region other n u = Some t"
    by (auto simp: for_opt_snoc elim!: bind_SomeE)
  note IH = Suc.IH [OF u(1)]
  have e: "if r_fd (mm_arr (cp u) n) = 0 then t = u else all_closed t \<and> refs t f = refs u f - int (uses NOFILE u f)"
    "\<And>j. j \<noteq> n \<Longrightarrow> mm_arr (cp t) j = mm_arr (cp u) j" using exit_region_cp [OF u(2)] by blast+
  show ?case
    using IH e closed_uses [of u f] by (cases "r_fd (mm_arr (cp s) n) = 0") (auto simp: less_Suc_eq split: if_splits)
qed simp

end
