(* ===== verification/MmapSpec.thy ===== *)
theory MmapSpec
  imports MmapPages MmapRegions
begin

text \<open>
  What the memory mappings of project 3 do: the regions of a process stay apart, a page fault in a
  mapping of a file brings a page of the file, \<open>munmap\<close> frees frames that stay mapped, and \<open>exit\<close>
  closes files only for processes with a mapping.
\<close>

section \<open>A process with a mapped file\<close>

text \<open>
  It runs on the directory of \<open>machine\<close> with one page; file 3 of the table is inode 1 with 5000 bytes,
  open for reading and writing as descriptor 3.
\<close>

definition data_file :: file3 where
  "data_file = \<lparr>f_type = FD_INODE, f_ref = 1, readable = True, writable = True, f_pipe = 0, f_ip = 1, f_off = 0\<rparr>"

definition data_node :: inode3 where
  "data_node = \<lparr>i_isdev = False, i_size = 5000, i_bytes = (\<lambda>k. of_nat (k mod 7))\<rparr>"

definition no_region :: mmap_region where
  "no_region = \<lparr>r_fd = 0, start_va = 0, end_va = 0, r_f = None, r_offset = 0, r_flags = 0\<rparr>"

definition proc_one :: proc3 where
  "proc_one = \<lparr>sz = 4096, pgdir = kv 600, killed = 0, ofile = (\<lambda>fd. if fd = 3 then Some 3 else None),
     mm_sz = 0, mm_arr = (\<lambda>_. no_region), mm_cnt = 0\<rparr>"

definition kernel_one :: kernel3 where
  "kernel_one = \<lparr>mem = machine, ftable = (\<lambda>_. data_file), inodes = (\<lambda>_. data_node), cp = proc_one\<rparr>"

text \<open>No pipe and no device.\<close>

definition no_other :: outside where
  "no_other = (\<lambda>_ _ _ _. None)"

text \<open>Descriptor 3 is mapped from offset 4096 on, at 16 MB above the heap, for reading and writing.\<close>

definition kernel_mapped :: kernel3 where
  "kernel_mapped = set_region 0 \<lparr>r_fd = 3, start_va = 0x1001000, end_va = 0x1003000, r_f = Some 3, r_offset = 4096, r_flags = 3\<rparr>
     (kernel_one\<lparr>cp := proc_one\<lparr>mm_cnt := 1, mm_sz := 8192\<rparr>\<rparr>)"

lemma kernel_map_mapped: "mmap other 3 4096 8192 3 kernel_one = Some (0x1001000, kernel_mapped)"
  by (simp add: mmap_def file_of_def kernel_one_def proc_one_def is_mmap_available_def get_readable_def get_writable_def
      data_file_def mmap_lazy_def get_valid_mmarr_def upt_rec [of 0] no_region_def add_region_def kernel_mapped_def set_region_def)

lemma kernel_map_second:
  "\<exists>t. mmap other 3 0 4096 3 kernel_mapped = Some (0x1003000, t) \<and> used (cp t) 0 \<and> used (cp t) 1"
  by (simp add: mmap_def file_of_def kernel_mapped_def kernel_one_def proc_one_def is_mmap_available_def get_readable_def
      get_writable_def data_file_def mmap_lazy_def get_valid_mmarr_def upt_rec [of 0] upt_rec [of "Suc 0"] no_region_def
      add_region_def set_region_def used_def)

lemma kernel_map_runs: "runs_on 600 kernel_mapped machine_owners"
  using machine_ok(1,2) by (simp add: runs_on_def kernel_mapped_def kernel_one_def proc_one_def set_region_def)

section \<open>Properties\<close>

text \<open>
  C21. Regions of a process, over any sequence of \<open>mmap\<close>, \<open>munmap\<close>, page faults and growth of the heap from
  its creation in which each request is orderly where it is made: mappings and heap stay below the kernel, the
  address and the length of an \<open>munmap\<close> are a range of user addresses, and the heap does not shrink. Each region in
  use is then a range and no address is in two of them. The kernel tests none of these conditions, and lemma
  \<open>munmap_negative\<close> shows what the one on the length prevents.
\<close>

theorem mappings_apart:
  assumes "mm_run other qs s = Some t" "cp s = new_regions p" "unat (sz p) + 0x1000000 < 2 ^ 32"
    and "\<forall>k < length qs. \<forall>u. mm_run other (take k qs) s = Some u \<longrightarrow> orderly u (qs ! k)"
  shows "(used (cp t) i \<longrightarrow> start_va (mm_arr (cp t) i) \<le> end_va (mm_arr (cp t) i)) \<and>
    (used (cp t) i \<longrightarrow> used (cp t) j \<longrightarrow> i \<noteq> j \<longrightarrow>
      \<not> (start_va (mm_arr (cp t) i) \<le> a \<and> a < end_va (mm_arr (cp t) i) \<and>
         start_va (mm_arr (cp t) j) \<le> a \<and> a < end_va (mm_arr (cp t) j)))"
proof -
  have ok: "regions_ok (cp t)"
    by (rule mm_run_regions [OF assms(1)]) (use new_regions_ok [OF assms(3)] assms(2,4) in simp_all)
  show ?thesis
    using regions_okD(2) [OF ok, of i] regions_okD(4) [OF ok, of i j]
    by (auto simp: word_le_nat_alt word_less_nat_alt)
qed

lemma mappings_apart_witness:
  "\<exists>t. mm_run (\<lambda>_ _ _ _. None) [Ask_mmap 3 4096 8192 3, Ask_mmap 3 0 4096 3] kernel_one = Some t \<and>
    used (cp t) 0 \<and> used (cp t) 1 \<and>
    (\<forall>a. \<not> (start_va (mm_arr (cp t) 0) \<le> a \<and> a < end_va (mm_arr (cp t) 0) \<and>
       start_va (mm_arr (cp t) 1) \<le> a \<and> a < end_va (mm_arr (cp t) 1)))"
proof -
  let ?o = "\<lambda>_ _ _ _. None" and ?qs = "[Ask_mmap 3 4096 8192 3, Ask_mmap 3 0 4096 3]"
  obtain t where t: "mmap ?o 3 0 4096 3 kernel_mapped = Some (0x1003000, t)" and u: "used (cp t) 0" "used (cp t) 1"
    using kernel_map_second by blast
  have one: "mm_serve ?o (Ask_mmap 3 4096 8192 3) kernel_one = Some kernel_mapped" by (simp add: kernel_map_mapped)
  have r: "mm_run ?o ?qs kernel_one = Some t"
    using one t by (simp del: mm_serve.simps) simp
  have c: "cp kernel_one = new_regions proc_one"
    by (simp add: kernel_one_def new_regions_def proc_one_def no_region_def fun_eq_iff)
  have z: "unat (sz proc_one) + 0x1000000 < 2 ^ 32" by (simp add: proc_one_def)
  have b: "below kernel_one 8192" "below kernel_mapped 4096"
    by (simp_all add: below_def top_va_def kernel_mapped_def kernel_one_def proc_one_def)
  have "orderly u (?qs ! k)" if "k < length ?qs" "mm_run ?o (take k ?qs) kernel_one = Some u" for k u
  proof -
    from that(1) have "k = 0 \<or> k = 1" by auto
    then show ?thesis using that(2) b one by (elim disjE) (simp_all del: mm_serve.simps)
  qed
  then have "\<forall>k < length ?qs. \<forall>u. mm_run ?o (take k ?qs) kernel_one = Some u \<longrightarrow> orderly u (?qs ! k)" by blast
  from mappings_apart [OF r c z this, where i = 0 and j = 1] u
  have "\<forall>a. \<not> (start_va (mm_arr (cp t) 0) \<le> a \<and> a < end_va (mm_arr (cp t) 0) \<and>
       start_va (mm_arr (cp t) 1) \<le> a \<and> a < end_va (mm_arr (cp t) 1))" by fastforce
  then show ?thesis using r u by blast
qed

text \<open>
  The length of \<open>munmap\<close> is not tested: with two mappings, one after the other, unmapping -4096 bytes at the start
  of the first returns 0 and makes it 4096 bytes longer, into the second.
\<close>

lemma munmap_negative:
  "\<exists>t u. mmap other 3 0 4096 3 kernel_mapped = Some (0x1003000, t) \<and> munmap 0x1001000 (- 4096) t = Some (0, u) \<and>
    used (cp u) 0 \<and> used (cp u) 1 \<and>
    start_va (mm_arr (cp u) 0) = 0x1001000 \<and> end_va (mm_arr (cp u) 0) = 0x1004000 \<and>
    start_va (mm_arr (cp u) 1) = 0x1003000 \<and> end_va (mm_arr (cp u) 1) = 0x1004000"
  by (simp add: mmap_def file_of_def kernel_mapped_def kernel_one_def proc_one_def is_mmap_available_def get_readable_def
      get_writable_def data_file_def mmap_lazy_def get_valid_mmarr_def upt_rec [of 0] upt_rec [of "Suc 0"] no_region_def
      add_region_def set_region_def used_def munmap_def covering_region_def cut_region_def unmap_loop.simps
      PGROUNDDOWN_def get_off_def put_off_def set_off_def)

text \<open>
  C23. A user page fault at an address of a mapping of a regular file that is open for reading, at a page that
  is not mapped, with two frames free: the page appears in a fresh frame with the user's permissions of
  the mapping and holds the bytes of the file from the offset of the mapping on, zeros after its end,
  whichever page of the mapping it is; no other page of any space changes and the process goes on.
\<close>

theorem fault_maps_file:
  assumes "runs_on d s ow" "addr < KERNBASE" "lookup (pmem (mem s)) d (vpn addr) = None" "2 \<le> nfree ow"
    and "fault_region addr (cp s) = Some i" "r_fd (mm_arr (cp s) i) \<noteq> -1" "r_f (mm_arr (cp s) i) = Some j"
    and "regular s j" "unat (r_offset (mm_arr (cp s) i)) + 4096 < 4294967296"
    and "err AND 2 = 0 \<or> r_flags (mm_arr (cp s) i) AND 2 \<noteq> 0"
  shows "\<exists>t ow'. trap_pgflt other addr err s = Some t \<and> cp t = cp s \<and>
    new_page d (vpn addr) (r_flags (mm_arr (cp s) i)) (file_bytes (node s j) (r_offset (mm_arr (cp s) i))) (mem s) ow (mem t) ow'"
proof -
  define r where "r = mm_arr (cp s) i"
  define s1 where "s1 = set_off j (r_offset r) s"
  have run: "runs_on d s1 ow" using assms(1) by (simp add: runs_on_def s1_def)
  have v: "vpn addr < USER" using assms(2) by (simp add: vpn_def word_less_nat_alt)
  have o1: "f_off (ftable s1 j) = r_offset r" "node s1 j = node s j" "regular s1 j"
    using assms(8) by (simp_all add: s1_def set_off_def regular_def)
  have np: "lookup (pmem (mem s1)) d (vpn addr) = None" using assms(3) by (simp add: s1_def)
  have fd: "r_fd r \<noteq> -1" using assms(6) by (simp add: r_def)
  have off: "unat (f_off (ftable s1 j)) + 4096 < 4294967296" using assms(9) o1(1) by (simp add: r_def)
  obtain fa k1 t ow' where k: "kalloc (mem s1) = Some (fa, k1)" "fa \<noteq> 0"
    and nw: "new_page d (vpn addr) (r_flags r) (file_bytes (node s1 j) (f_off (ftable s1 j))) (mem s1) ow t ow'"
    and e: "enter_page other (r_fd r) (Some j) fa (pa (vpn addr)) (r_flags r) (s1\<lparr>mem := k1\<rparr>) =
       Some (set_off j (f_off (ftable s1 j) + word_of_nat (page_size (node s1 j) (f_off (ftable s1 j)))) (s1\<lparr>mem := t\<rparr>))"
    by (rule enter_file [OF run v np assms(4) fd o1(3) off])
  have "put_off (r_f r) (r_offset r) s = Some s1" using assms(7) by (simp add: put_off_def s1_def r_def)
  moreover have "\<not> addr \<ge> KERNBASE" "\<not> (err AND 2 \<noteq> 0 \<and> r_flags r AND 2 = 0)" using assms(2,10) by (auto simp: r_def)
  ultimately have "page_fault_handler other addr err s = Some (0,
      set_off j (f_off (ftable s1 j) + word_of_nat (page_size (node s1 j) (f_off (ftable s1 j)))) (s1\<lparr>mem := t\<rparr>))"
    using assms(5,7) k e by (simp add: page_fault_handler_def Let_def ROUNDDOWN_vpn flip: r_def)
  then show ?thesis
    using nw o1 by (auto simp: trap_pgflt_def s1_def r_def)
qed

text \<open>The second page of the mapping of \<open>kernel_mapped\<close> shows the same bytes as the first: its fourth byte is that of offset 4099.\<close>

lemma fault_maps_file_witness:
  "\<exists>t ow'. trap_pgflt no_other 0x1002004 4 kernel_mapped = Some t \<and>
    new_page 600 (vpn 0x1002004) 3 (file_bytes data_node 4096) machine machine_owners (mem t) ow' \<and> file_at data_node 4096 3 = 4"
proof -
  have r: "mm_arr (cp kernel_mapped) 0 = \<lparr>r_fd = 3, start_va = 0x1001000, end_va = 0x1003000, r_f = Some 3, r_offset = 4096, r_flags = 3\<rparr>"
    by (simp add: kernel_mapped_def)
  have m: "mem kernel_mapped = machine" by (simp add: kernel_mapped_def kernel_one_def set_region_def)
  have f: "fault_region 0x1002004 (cp kernel_mapped) = Some 0"
    by (simp add: fault_region_def upt_rec [of 0] r)
  have reg: "regular kernel_mapped 3" "node kernel_mapped 3 = data_node"
    by (simp_all add: regular_def kernel_mapped_def kernel_one_def set_region_def data_file_def data_node_def)
  have np: "lookup (pmem (mem kernel_mapped)) 600 (vpn 0x1002004) = None"
    unfolding m by (rule machine_pages) (simp_all add: vpn_def)
  have "file_at data_node 4096 3 = 4" by (simp add: file_at_def data_node_def)
  moreover have "2 \<le> nfree machine_owners" by (simp add: machine_free)
  ultimately show ?thesis
    using fault_maps_file [OF kernel_map_runs _ np _ f, where j = 3 and err = 4 and other = no_other] reg r m by simp blast
qed

text \<open>
  C22. \<open>mmap\<close> with \<open>MAP_POPULATE\<close> of a regular file: with more frames free than a full set of tables and the
  pages need, it returns the first address above all mappings; each page of the range is in a fresh
  frame with the bytes of the file at the offset plus its distance from the start, zeros after the
  end of the file; the offset of the open file is as before and no other page of any space changes.
\<close>

theorem eager_maps_file:
  assumes "runs_on d s ow" "file_of fd (cp s) = Some (Some j)" "fd \<noteq> -1" "regular s j"
    and "is_mmap_available fd flags (Some j) s = Some 0" "flags AND MAP_POPULATE \<noteq> 0" "len mod 4096 = 0"
    and "get_valid_mmarr (cp s) = Some i" "below s (unat len)" "unat offset + 4096 < 4294967296"
    and "unat (i_size (node s j)) + 4096 < 4294967296"
    and "\<forall>v \<in> {vpn (next_va (cp s))..<up (next_va (cp s) + len)}. lookup (pmem (mem s)) d v = None"
    and "1025 + (up (next_va (cp s) + len) - vpn (next_va (cp s))) < nfree ow"
  shows "\<exists>t ow'. mmap other fd offset len flags s = Some (next_va (cp s), t) \<and> ftable t = ftable s \<and> runs_on d t ow' \<and>
    cp t = with_region (cp s) i len \<lparr>r_fd = fd, start_va = next_va (cp s), end_va = next_va (cp s) + len,
      r_f = Some j, r_offset = offset, r_flags = flags\<rparr> \<and>
    entered d {vpn (next_va (cp s))..<up (next_va (cp s) + len)} flags
      (\<lambda>v. file_at (node s j) (unat offset + 4096 * (v - vpn (next_va (cp s))))) (mem s) ow (mem t) ow'"
proof -
  define a where "a = next_va (cp s)"
  define e where "e = a + len"
  note fold = a_def [symmetric] e_def [symmetric]
  define s1 where "s1 = set_off j offset s"
  have top: "top_va (cp s) + unat len \<le> 2147483648" using assms(9) by (simp add: below_def)
  then have ends: "unat a \<le> 2147483648" "unat e \<le> 2147483648" "unat a \<le> unat e"
    using next_va_top(1,2) [of "cp s" len] by (simp_all add: a_def e_def)
  have run: "runs_on d s1 ow" using assms(1) by (simp add: runs_on_def s1_def)
  have s1: "f_off (ftable s1 j) = offset" "node s1 j = node s j" "regular s1 j" "mem s1 = mem s" "cp s1 = cp s"
    using assms(4) by (simp_all add: s1_def set_off_def regular_def)
  have vU: "vpn a \<le> USER" using ends(1) by (simp add: vpn_def)
  have set: "{vpn a..<max (vpn a) (up e)} = {vpn a..<up e}" by auto
  obtain q t ow' where l: "eager_loop other fd flags (Some j) e (pa (vpn a)) s1 = Some (True, set_off j q (s1\<lparr>mem := t\<rparr>))"
    and en: "entered d {vpn a..<max (vpn a) (up e)} flags (\<lambda>v. file_at (node s1 j) (unat offset + 4096 * (v - vpn a))) (mem s) ow t ow'"
    and ru: "runs_on d (set_off j q (s1\<lparr>mem := t\<rparr>)) ow'"
  proof -
    have "entered d {vpn a..<vpn a} flags (\<lambda>v. file_at (node s1 j) (unat offset + 4096 * (v - vpn a))) (mem s) ow (mem s1) ow"
      using entered_none [OF runs_onD(1) [OF assms(1)]] s1(4) by simp
    from eager_loop_ok [OF run runs_onD(1,2) [OF assms(1)] this order_refl _ ends(2) vU _ _ assms(3) s1(3)]
    show thesis using that assms(10-13) s1 unfolding fold by (auto simp: same_pos_def)
  qed
  define t1 where "t1 = set_off j (f_off (ftable s j)) (set_off j q (s1\<lparr>mem := t\<rparr>))"
  have t1: "ftable t1 = ftable s" "mem t1 = t" "cp t1 = cp s" by (simp_all add: t1_def set_off_def s1_def)
  let ?r = "\<lparr>r_fd = fd, start_va = a, end_va = e, r_f = Some j, r_offset = offset, r_flags = flags\<rparr>"
  have "mmap_eager other fd offset len flags (Some j) s = Some (a, add_region i fd a e len (Some j) offset flags t1)"
    using assms(8) l unfolding mmap_eager_def Let_def next_va_def [symmetric] fold ROUNDDOWN_vpn
    by (simp add: get_off_def put_off_def t1_def flip: s1_def)
  then have m: "mmap other fd offset len flags s = Some (a, add_region i fd a e len (Some j) offset flags t1)"
    using assms(2,3,5-7) by (simp add: mmap_def Let_def)
  have c: "cp (add_region i fd a e len (Some j) offset flags t1) = with_region (cp s) i len ?r"
    by (simp add: add_region_cp t1)
  have ot: "ftable (add_region i fd a e len (Some j) offset flags t1) = ftable s"
    "mem (add_region i fd a e len (Some j) offset flags t1) = t"
    by (simp_all add: add_region_def set_region_def t1)
  have "runs_on d (add_region i fd a e len (Some j) offset flags t1) ow'"
    using ru s1(5) by (simp add: runs_on_def c ot)
  then show ?thesis
    unfolding fold using m en s1(2) unfolding set
    by (intro exI [of _ "add_region i fd a e len (Some j) offset flags t1"] exI [of _ ow']) (simp add: c ot)
qed

text \<open>Two pages of the file of 5000 bytes from its start.\<close>

lemma eager_maps_file_witness:
  "\<exists>t ow'. mmap no_other 3 0 8192 19 kernel_one = Some (0x1001000, t) \<and>
    entered 600 {4097..<4099} 19 (\<lambda>v. file_at data_node (4096 * (v - 4097))) machine machine_owners (mem t) ow' \<and>
    file_at data_node 4096 3 = 4"
proof -
  have c: "cp kernel_one = proc_one" "mem kernel_one = machine" "node kernel_one 3 = data_node"
    by (simp_all add: kernel_one_def data_file_def)
  have a: "next_va proc_one = 0x1001000" by (simp add: next_va_def proc_one_def)
  have vs: "vpn 0x1001000 = 4097" "up (0x1001000 + 8192) = 4099" by (simp_all add: vpn_def up_def)
  have "file_of 3 (cp kernel_one) = Some (Some 3)" by (simp add: c file_of_def proc_one_def)
  moreover have "regular kernel_one 3" by (simp add: regular_def kernel_one_def data_file_def data_node_def)
  moreover have "is_mmap_available 3 19 (Some 3) kernel_one = Some 0"
    by (simp add: is_mmap_available_def get_readable_def get_writable_def kernel_one_def data_file_def)
  moreover have "get_valid_mmarr (cp kernel_one) = Some 0"
    by (simp add: c get_valid_mmarr_def upt_rec [of 0] proc_one_def no_region_def)
  moreover have "below kernel_one (unat (8192 :: u32))" by (simp add: below_def top_va_def c proc_one_def)
  moreover have "\<forall>v \<in> {4097..<4099}. lookup (pmem machine) 600 v = None" by (auto intro: machine_pages)
  moreover have "runs_on 600 kernel_one machine_owners" using machine_ok(1,2) by (simp add: runs_on_def c proc_one_def)
  moreover have "unat (i_size data_node) + 4096 < 4294967296" "file_at data_node 4096 3 = 4"
    by (simp_all add: data_node_def file_at_def)
  ultimately show ?thesis
    using eager_maps_file [of 600 kernel_one machine_owners 3 3 19 8192 0 0 no_other]
    unfolding c a vs by (simp add: machine_free) blast
qed

section \<open>Unmapping, anonymous mappings\<close>

lemma kfree_first: "kfree a s = Some t \<Longrightarrow> freelist t = a"
  by (auto simp: kfree_def split: if_splits elim!: bind_SomeE)

text \<open>One page of a mapping of a file.\<close>

lemma munmap_page:
  assumes "runs_on d s ow" "v < USER" "lookup (pmem (mem s)) d v = Some e"
    and "covering_region (pa v) (pa (Suc v)) (cp s) = Some i" "r_f (mm_arr (cp s) i) = Some j"
    and "get_valid_mmarr (cp s) \<noteq> None"
  obtains t m where "munmap (pa v) 4096 s = Some (0, t)" "lookup (pmem (mem t)) d v = Some e"
    "kalloc (mem t) = Some (kv (fr e), m)"
proof -
  define r where "r = mm_arr (cp s) i"
  define s1 where "s1 = set_off j (r_offset r) s"
  note ok = runs_onD(1) [OF assms(1)] and d = runs_onD(2) [OF assms(1)]
  have v2: "v < 1048576" "Suc v < 1048576" using assms(2) by simp_all
  have e1: "lookup (pmem (mem s)) d (vpn (pa v)) = Some e" using assms(3) v2 by simp
  note fe = found_entry [OF ok d e1]
  have fr_e: "ow (fr e) = Page d v"
    using space_okD(3) [OF mem_okD(2) [OF ok] d assms(2)] assms(3) by (auto simp: lookup_present)
  have rf: "ram_frame (mem s) (fr e)" using free_okD(1) [OF mem_okD(1) [OF ok], of "fr e"] fr_e by simp
  have nf: "ow (fr e) \<noteq> Free" using fr_e by simp
  obtain m where m: "kfree (kv (fr e)) (mem s) = Some m" "agree {fr e} (pmem (mem s)) (pmem m)"
    by (rule kfree_ok [OF mem_okD(1) [OF ok] nf rf])
  have F: "\<forall>g \<in> {fr e}. ow g \<noteq> Dir \<and> (\<forall>d i. ow g \<noteq> Table d i)" using fr_e by simp
  have same: "lookup (pmem m) d v = Some e"
    using space_agree(2) [OF mem_okD(2) [OF ok] m(2) F d v2(1)] assms(3) by (auto simp: lookup_present)
  have mods: "pa v mod 4096 = 0" using v2 by (simp add: word_unat_eq_iff unat_mod)
  have lt: "pa v < pa (Suc v)" "\<not> pa (Suc v) < pa (Suc v)" using v2 by (simp_all add: word_less_nat_alt)
  have loop: "unmap_loop r (pa (Suc v)) (pa v) s1 = Some (True, s1\<lparr>mem := m\<rparr>)"
    using fe m(1) lt assms(5) runs_onD(3) [OF assms(1)]
    by (subst unmap_loop.simps, subst unmap_loop.simps) (simp add: s1_def pa_Suc r_def)
  define s2 where "s2 = set_off j (f_off (ftable s j)) (s1\<lparr>mem := m\<rparr>)"
  have s2: "cp s2 = cp s" "mem s2 = m" by (simp_all add: s2_def s1_def)
  have "cut_region i (pa v) (pa (Suc v)) 4096 s2 \<noteq> None" using assms(6) s2(1) by (auto simp: cut_region_def Let_def)
  then obtain t where t: "cut_region i (pa v) (pa (Suc v)) 4096 s2 = Some t" by blast
  have tm: "mem t = m"
    using t s2(2) by (auto simp: cut_region_def Let_def set_region_def split: if_splits elim!: bind_SomeE)
  have "munmap (pa v) 4096 s = Some (0, t)"
    using assms(4,5) loop t mods v2 unfolding r_def s1_def
    by (simp add: munmap_def Let_def pa_Suc get_off_def put_off_def s2_def s1_def r_def)
  moreover have "freelist m = kv (fr e)" using kfree_first [OF m(1)] .
  moreover have "fr e < FRAMES" using rf by (simp add: ram_frame_def)
  ultimately show thesis using that same tm by (auto simp: kalloc_def ld_frame)
qed

text \<open>
  C24. \<open>munmap\<close> of a page of a mapping of a file returns 0 and leaves the page mapped as before, while its frame
  is on the free list: the next allocation hands out the memory that the process can still use.
\<close>

theorem munmap_dangling:
  assumes "runs_on d s ow" "v < USER" "lookup (pmem (mem s)) d v = Some e"
    and "covering_region (pa v) (pa (Suc v)) (cp s) = Some i" "r_f (mm_arr (cp s) i) = Some j"
    and "get_valid_mmarr (cp s) \<noteq> None"
  shows "\<exists>t m. munmap (pa v) 4096 s = Some (0, t) \<and> lookup (pmem (mem t)) d v = Some e \<and>
    kalloc (mem t) = Some (kv (fr e), m)"
  by (rule munmap_page [OF assms]) blast

text \<open>A region over the page of \<open>machine\<close> and the one after it.\<close>

definition kernel_low :: kernel3 where
  "kernel_low = set_region 0 \<lparr>r_fd = 3, start_va = 0, end_va = 8192, r_f = Some 3, r_offset = 0, r_flags = 3\<rparr> kernel_one"

lemma kernel_low_simps:
  "mem kernel_low = machine" "mm_arr (cp kernel_low) 0 =
      \<lparr>r_fd = 3, start_va = 0, end_va = 8192, r_f = Some 3, r_offset = 0, r_flags = 3\<rparr>"
  "i \<noteq> 0 \<Longrightarrow> \<not> used (cp kernel_low) i"
  by (simp_all add: kernel_low_def kernel_one_def set_region_def proc_one_def no_region_def used_def)

lemma kernel_low_page:
  "runs_on 600 kernel_low machine_owners" "covering_region (pa 0) (pa (Suc 0)) (cp kernel_low) = Some 0"
  "get_valid_mmarr (cp kernel_low) \<noteq> None" "lookup (pmem (mem kernel_low)) 600 0 = Some (pa 602 OR 7)"
proof -
  show "runs_on 600 kernel_low machine_owners"
    using machine_ok(1,2) by (simp add: runs_on_def kernel_low_def kernel_one_def proc_one_def set_region_def)
  show "covering_region (pa 0) (pa (Suc 0)) (cp kernel_low) = Some 0"
    by (simp add: covering_region_def upt_rec [of 0] kernel_low_simps pa_def)
  show "get_valid_mmarr (cp kernel_low) \<noteq> None"
    by (simp add: get_valid_mmarr_def upt_rec [of 0] upt_rec [of "Suc 0"] kernel_low_def kernel_one_def proc_one_def no_region_def)
  show "lookup (pmem (mem kernel_low)) 600 0 = Some (pa 602 OR 7)" using machine_ok(4) by (simp add: kernel_low_simps)
qed

lemma munmap_dangling_witness:
  "\<exists>t m. munmap (pa 0) 4096 kernel_low = Some (0, t) \<and> lookup (pmem (mem t)) 600 0 = Some (pa 602 OR 7) \<and>
    kalloc (mem t) = Some (kv (fr (pa 602 OR 7)), m)"
  using munmap_dangling [OF kernel_low_page(1) _ kernel_low_page(4,2) _ kernel_low_page(3), of 3] by (simp add: kernel_low_simps)

text \<open>
  C25. \<open>munmap\<close> of the first part of a mapping gives up the wrong end of it: the addresses that were
  unmapped still belong to the mapping, and a page fault at an address of the last \<open>len\<close> bytes, which
  were not unmapped, kills the process.
\<close>

theorem munmap_head:
  assumes "munmap addr len s = Some (0, t)" "addr mod 4096 = 0" "len mod 4096 = 0" "unat addr + unat len \<le> 0x80000000"
    and "covering_region addr (addr + len) (cp s) = Some i" "regions_ok (cp s)"
    and "start_va (mm_arr (cp s) i) = addr" "end_va (mm_arr (cp s) i) \<noteq> addr + len"
    and "end_va (mm_arr (cp s) i) - len \<le> a" "a < end_va (mm_arr (cp s) i)"
  shows "mm_arr (cp t) i = (mm_arr (cp s) i)\<lparr>end_va := end_va (mm_arr (cp s) i) - len\<rparr> \<and>
    trap_pgflt other a err t = Some (t\<lparr>cp := (cp t)\<lparr>killed := 1\<rparr>\<rparr>)"
proof -
  define r where "r = mm_arr (cp s) i"
  note cov = covering [OF assms(5)]
  have ul: "unat (addr + len) = unat addr + unat len" by (rule range_pages(3) [OF assms(2-4)])
  obtain u where u: "cp u = cp s" "cut_region i addr (addr + len) len u = Some t"
    using munmap_effect [OF assms(1-5)] by auto
  have c: "cp t = (cp s)\<lparr>mm_arr := (mm_arr (cp s))(i := r\<lparr>end_va := end_va r - len\<rparr>)\<rparr>"
    using u(2) [symmetric] assms(7,8) unfolding cut_region_def Let_def u(1) by (simp flip: r_def add: u(1))
  have le: "unat len \<le> unat (end_va r)" using cov ul by (simp add: word_le_nat_alt r_def)
  then have e: "unat (end_va r - len) = unat (end_va r) - unat len" by (subst unat_sub) (simp_all add: word_le_nat_alt)
  have "\<not> (r_fd (mm_arr (cp t) j) \<noteq> 0 \<and> start_va (mm_arr (cp t) j) \<le> a \<and> end_va (mm_arr (cp t) j) > a)" if "j < REGIONS" for j
  proof (cases "j = i")
    case True
    then show ?thesis using assms(9) by (simp add: c r_def not_less)
  next
    case False
    have "used (cp s) j \<Longrightarrow> unat (end_va (mm_arr (cp s) j)) \<le> unat (start_va r) \<or> unat (end_va r) \<le> unat (start_va (mm_arr (cp s) j))"
      using regions_okD(4) [OF assms(6), of j i] cov False by (auto simp: r_def)
    moreover have "unat (start_va r) \<le> unat a" "unat a < unat (end_va r)"
      using assms(7,9,10) e ul cov by (auto simp: word_le_nat_alt word_less_nat_alt r_def)
    ultimately show ?thesis using that False by (auto simp: c used_def word_le_nat_alt word_less_nat_alt)
  qed
  then have "fault_region a (cp t) = None" by (auto simp: fault_region_def find_None_iff)
  then have "page_fault_handler other a err t = Some (-1, t)" by (simp add: page_fault_handler_def)
  then show ?thesis by (simp add: trap_pgflt_def c r_def)
qed

lemma munmap_head_witness:
  "\<exists>t. munmap (pa 0) 4096 kernel_low = Some (0, t) \<and> end_va (mm_arr (cp t) 0) = 4096 \<and>
    trap_pgflt no_other 0x1000 4 t = Some (t\<lparr>cp := (cp t)\<lparr>killed := 1\<rparr>\<rparr>)"
proof -
  obtain t m where t: "munmap (pa 0) 4096 kernel_low = Some (0, t)"
    by (rule munmap_page [OF kernel_low_page(1) _ kernel_low_page(4,2) _ kernel_low_page(3), of 3]) (simp_all add: kernel_low_simps)
  have "regions_ok (cp kernel_low)"
    unfolding regions_ok_def using kernel_low_simps(3)
    by (auto simp: top_va_def kernel_low_def kernel_one_def proc_one_def set_region_def used_def no_region_def split: if_splits)
  moreover have "covering_region (pa 0) (pa 0 + 4096) (cp kernel_low) = Some 0" using kernel_low_page(2) by (simp add: pa_Suc)
  ultimately show ?thesis
    using munmap_head [OF t, where i = 0 and a = "0x1000" and err = 4 and other = no_other] t by (simp add: kernel_low_simps pa_def)
qed

text \<open>A store to a page of a user changes its bytes and nothing else.\<close>

lemma zero_word: "store32 b i 0 = memmove b i (\<lambda>_. 0) 0 4"
proof
  fix k
  show "store32 b i 0 k = memmove b i (\<lambda>_. 0) 0 4 k"
    by (auto simp: store32_def memmove_def)
qed

lemma null_file_store:
  assumes run: "runs_on d s ow" and e: "lookup (pmem (mem s)) d 0 = Some e" "e AND 2 \<noteq> 0"
  obtains m where "put_off None 0 s = Some (s\<lparr>mem := m\<rparr>)" "wrote d 20 4 (\<lambda>_. 0) (mem s) ow m"
proof -
  note ok = runs_onD(1) [OF run] and d = runs_onD(2) [OF run]
  have e0: "lookup (pmem (mem s)) d (vpn 20) = Some e" using e(1) by (simp add: vpn_def)
  note fe = found_entry [OF ok d e0]
  have fr_e: "ow (fr e) = Page d 0"
    using space_okD(3) [OF mem_okD(2) [OF ok] d, of 0] e(1) by (auto simp: lookup_present)
  have fl: "fr e < FRAMES" using free_okD(2) [OF mem_okD(1) [OF ok], of "fr e"] fr_e by simp
  define m where "m = (mem s)\<lparr>pmem := memmove (pmem (mem s)) (4096 * fr e + 20) (\<lambda>_. 0) 0 4\<rparr>"
  have "user_addr 20 True s = Some (kv (fr e) + 4 * 5)"
    using fe e(2) runs_onD(3) [OF run] by (simp add: user_addr_def)
  moreover have "st (kv (fr e) + 4 * 5) 0 (mem s) = Some m"
    using st_word [OF fl, of 5 0 "mem s"] by (simp add: m_def zero_word)
  ultimately have "put_off None 0 s = Some (s\<lparr>mem := m\<rparr>)" by (simp add: put_off_def)
  moreover have "wrote d 20 4 (\<lambda>_. 0) (mem s) ow m"
    using put_page [OF ok fr_e, of 20 4 m "\<lambda>_. 0" 0] by (simp add: m_def)
  ultimately show thesis by (rule that)
qed

text \<open>
  A page fault in an anonymous mapping, where the user can write to its first page: the page appears with
  zeros, and the four bytes from address 20 of the process are overwritten with zeros, since the
  handler stores the offset through the null pointer to the file.
\<close>

theorem anonymous_fault:
  assumes "runs_on d s ow" "addr < KERNBASE" "lookup (pmem (mem s)) d (vpn addr) = None" "2 \<le> nfree ow"
    and "fault_region addr (cp s) = Some i" "r_fd (mm_arr (cp s) i) = -1" "r_f (mm_arr (cp s) i) = None"
    and "r_offset (mm_arr (cp s) i) = 0" "err AND 2 = 0 \<or> r_flags (mm_arr (cp s) i) AND 2 \<noteq> 0"
    and "lookup (pmem (mem s)) d 0 = Some e" "e AND 2 \<noteq> 0"
  shows "\<exists>m t ow'. trap_pgflt other addr err s = Some t \<and> cp t = cp s \<and> wrote d 20 4 (\<lambda>_. 0) (mem s) ow m \<and>
    new_page d (vpn addr) (r_flags (mm_arr (cp s) i)) (\<lambda>_. 0) m ow (mem t) ow'"
proof -
  define r where "r = mm_arr (cp s) i"
  have v: "vpn addr < USER" using assms(2) by (simp add: vpn_def word_less_nat_alt)
  obtain m where m: "put_off None 0 s = Some (s\<lparr>mem := m\<rparr>)" "wrote d 20 4 (\<lambda>_. 0) (mem s) ow m"
    by (rule null_file_store [OF assms(1,10,11)])
  have run: "runs_on d (s\<lparr>mem := m\<rparr>) ow"
    using wroteD(1) [OF m(2)] runs_onD(2,3) [OF assms(1)] by (simp add: runs_on_def)
  have "pte (pmem m) d (vpn addr) = pte (pmem (mem s)) d (vpn addr)"
    using wroteD(2) [OF m(2) runs_onD(2) [OF assms(1)] vpn_less] .
  then have np: "lookup (pmem (mem (s\<lparr>mem := m\<rparr>))) d (vpn addr) = None" using assms(3) by (simp add: lookup_present)
  obtain fa k1 t ow' where k: "kalloc (mem (s\<lparr>mem := m\<rparr>)) = Some (fa, k1)" "fa \<noteq> 0"
    and nw: "new_page d (vpn addr) (r_flags r) (\<lambda>_. 0) (mem (s\<lparr>mem := m\<rparr>)) ow t ow'"
    and en: "enter_page other (-1) None fa (pa (vpn addr)) (r_flags r) (s\<lparr>mem := m\<rparr>\<lparr>mem := k1\<rparr>) = Some (s\<lparr>mem := m\<rparr>\<lparr>mem := t\<rparr>)"
    by (rule enter_anonymous [OF run v np assms(4)])
  have "\<not> addr \<ge> KERNBASE" "\<not> (err AND 2 \<noteq> 0 \<and> r_flags r AND 2 = 0)" using assms(2,9) by (auto simp: r_def)
  then have "page_fault_handler other addr err s = Some (0, s\<lparr>mem := t\<rparr>)"
    using assms(5-8) m(1) k en by (simp add: page_fault_handler_def Let_def ROUNDDOWN_vpn flip: r_def)
  then show ?thesis using nw m(2) by (auto simp: trap_pgflt_def r_def)
qed

text \<open>An anonymous mapping of one page.\<close>

definition kernel_anonymous :: kernel3 where
  "kernel_anonymous = set_region 0 \<lparr>r_fd = -1, start_va = 0x1001000, end_va = 0x1002000, r_f = None, r_offset = 0, r_flags = 3\<rparr>
     (kernel_one\<lparr>cp := proc_one\<lparr>mm_cnt := 1, mm_sz := 4096\<rparr>\<rparr>)"

lemma anonymous_fault_witness:
  "\<exists>m t ow'. mmap no_other (-1) 0 4096 3 kernel_one = Some (0x1001000, kernel_anonymous) \<and>
    trap_pgflt no_other 0x1001000 6 kernel_anonymous = Some t \<and> wrote 600 20 4 (\<lambda>_. 0) machine machine_owners m \<and>
    new_page 600 4097 3 (\<lambda>_. 0) m machine_owners (mem t) ow'"
proof -
  have "mmap no_other (-1) 0 4096 3 kernel_one = Some (0x1001000, kernel_anonymous)"
    by (simp add: mmap_def file_of_def kernel_one_def proc_one_def is_mmap_available_def
      mmap_lazy_def get_valid_mmarr_def upt_rec [of 0] no_region_def add_region_def kernel_anonymous_def set_region_def)
  moreover have r: "mm_arr (cp kernel_anonymous) 0 =
      \<lparr>r_fd = -1, start_va = 0x1001000, end_va = 0x1002000, r_f = None, r_offset = 0, r_flags = 3\<rparr>"
    by (simp add: kernel_anonymous_def)
  moreover have m: "mem kernel_anonymous = machine" by (simp add: kernel_anonymous_def kernel_one_def set_region_def)
  moreover have "runs_on 600 kernel_anonymous machine_owners"
    using machine_ok(1,2) by (simp add: runs_on_def kernel_anonymous_def kernel_one_def proc_one_def set_region_def)
  moreover have "fault_region 0x1001000 (cp kernel_anonymous) = Some 0"
    by (simp add: fault_region_def upt_rec [of 0] r)
  moreover have "lookup (pmem machine) 600 4097 = None" by (rule machine_pages) simp_all
  moreover have "vpn 0x1001000 = 4097" by (simp add: vpn_def)
  ultimately show ?thesis
    using anonymous_fault [where d = 600 and s = kernel_anonymous and ow = machine_owners and addr = "0x1001000" and i = 0 and err = 6 and e = "pa 602 OR 7" and other = no_other] machine_ok(4)
    by (simp add: machine_free pa_def) blast
qed

section \<open>The mapping of a read-only file, exit\<close>

text \<open>
  \<open>mmap\<close> of a file that is open only for reading: a mapping for reading is refused, and a mapping
  for writing, which the file does not allow, is made; only the mapping of descriptor 0 is not in the
  table of regions afterwards, as its slot counts as free.
\<close>

theorem readonly_refused:
  assumes "file_of fd (cp s) = Some (Some j)" "fd \<noteq> -1" "readable (ftable s j)" "\<not> writable (ftable s j)"
    and "get_valid_mmarr (cp s) = Some i" "len mod 4096 = 0" "flags AND MAP_POPULATE = 0"
  shows "(flags AND MAP_PROT_READ \<noteq> 0 \<and> flags AND MAP_PROT_WRITE = 0 \<longrightarrow>
      mmap other fd offset len flags s = Some (MAP_FAILED, s)) \<and>
    (flags AND MAP_PROT_WRITE \<noteq> 0 \<longrightarrow>
      (\<exists>t. mmap other fd offset len flags s = Some (next_va (cp s), t) \<and> (used (cp t) i \<longleftrightarrow> fd \<noteq> 0)))"
  using assms free_slot [OF assms(5)]
  by (auto simp: mmap_def is_mmap_available_def get_readable_def get_writable_def mmap_lazy_def Let_def add_region_def
      set_region_def next_va_def used_def)

definition kernel_readonly :: kernel3 where
  "kernel_readonly = kernel_one\<lparr>ftable := (\<lambda>_. data_file\<lparr>writable := False\<rparr>)\<rparr>"

lemma readonly_refused_witness:
  "mmap no_other 3 0 4096 1 kernel_readonly = Some (MAP_FAILED, kernel_readonly) \<and>
   (\<exists>t. mmap no_other 3 0 4096 2 kernel_readonly = Some (0x1001000, t) \<and> used (cp t) 0)"
proof -
  have f: "file_of 3 (cp kernel_readonly) = Some (Some 3)" "readable (ftable kernel_readonly 3)"
    "\<not> writable (ftable kernel_readonly 3)" "next_va (cp kernel_readonly) = 0x1001000"
    by (simp_all add: file_of_def kernel_readonly_def kernel_one_def proc_one_def data_file_def next_va_def)
  have i: "get_valid_mmarr (cp kernel_readonly) = Some 0"
    by (simp add: get_valid_mmarr_def upt_rec [of 0] kernel_readonly_def kernel_one_def proc_one_def no_region_def)
  show ?thesis
    using readonly_refused [OF f(1) _ f(2,3) i, of 4096 1 no_other 0] readonly_refused [OF f(1) _ f(2,3) i, of 4096 2 no_other 0] f(4) by simp
qed

text \<open>
  C26. The end of a process, when \<open>exit\<close> gets past its mappings: if the process has a mapping all its files
  are closed, each descriptor giving back one reference to its file; otherwise nothing has been done, so that every
  file it had open stays open for ever.
\<close>

theorem exit_keeps_files:
  assumes "exit_regions other s = Some t"
  shows "if \<exists>i < REGIONS. r_fd (mm_arr (cp s) i) \<noteq> 0
    then all_closed t \<and> (\<forall>f. f_ref (ftable t f) = f_ref (ftable s f) - int (uses NOFILE s f)) else t = s"
  using exit_some_regions [OF assms [unfolded exit_regions_def]] by (auto split: if_splits)

lemma no_regions_exit: "(\<And>i. i < n \<Longrightarrow> r_fd (mm_arr (cp s) i) = 0) \<Longrightarrow> for_opt [0..<n] (exit_region other) s = Some s"
  by (induction n) (simp_all add: for_opt_snoc exit_region_def)

lemma exit_keeps_files_witness:
  "\<exists>t. exit_regions no_other kernel_one = Some t \<and> t = kernel_one \<and> ofile (cp t) 3 = Some 3"
proof -
  have r: "r_fd (mm_arr (cp kernel_one) i) = 0" for i by (simp add: kernel_one_def proc_one_def no_region_def)
  have e: "exit_regions no_other kernel_one = Some kernel_one" unfolding exit_regions_def by (rule no_regions_exit) (rule r)
  have "ofile (cp kernel_one) 3 = Some 3" by (simp add: kernel_one_def proc_one_def)
  then show ?thesis using exit_keeps_files [OF e] e r by simp
qed

end
