(* ===== verification/Fs.thy ===== *)
theory Fs
  imports Bytes
begin

text \<open>
  The file system of xv6 as project 5 extends it, \<open>3-1/OS/PRJ5/xv6-sse-local/fs.c\<close> with \<open>fs.h\<close>
  and \<open>strncmp\<close> and \<open>strncpy\<close> of \<open>string.c\<close>: the block allocator, the cache of inodes, the
  blocks of a file (eleven direct ones, one indirect block and one doubly indirect block),
  reading and writing, directories and paths. A block is its bytes; \<open>disk\<close> is what the buffer
  cache holds for each block. A buffer is locked from \<open>bread\<close> to \<open>brelse\<close>: the blocks
  whose buffers are locked are the set \<open>held\<close>. The value \<open>None\<close> stands for a call that does not
  return: a panic, or a wait for a lock that the caller itself holds. Of the log (\<open>log.c\<close>) the file system
  sees \<open>log_write\<close> with its panics: the header of the current transaction, the size of the log and the number
  of operations are part of the state; commits are in theory \<open>Log\<close>. The size of the buffer cache is left out.
\<close>

section \<open>State\<close>

record superblock =
  sb_size :: u32
  sb_nblocks :: u32
  sb_ninodes :: u32
  sb_nlog :: u32
  sb_logstart :: u32
  sb_inodestart :: u32
  sb_bmapstart :: u32

record dinode =
  d_type :: u16
  d_major :: u16
  d_minor :: u16
  d_nlink :: u16
  d_size :: u32
  d_addrs :: "nat \<Rightarrow> u32"   \<comment> \<open>\<open>addrs[NDIRECT+2]\<close>\<close>

record inode =
  i_dev :: u32
  i_inum :: u32
  i_ref :: int
  i_locked :: bool           \<comment> \<open>\<open>lock\<close>\<close>
  i_valid :: bool
  i_node :: dinode           \<comment> \<open>the copy of the disk inode\<close>

record fs =
  sb :: superblock
  disk :: "u32 \<Rightarrow> bytes"
  held :: "u32 set"
  icache :: "nat \<Rightarrow> inode"   \<comment> \<open>\<open>icache.inode[NINODE]\<close>\<close>
  fl_blocks :: "u32 list"   \<comment> \<open>\<open>log.lh.block\<close>, of length \<open>log.lh.n\<close>\<close>
  fl_size :: u32            \<comment> \<open>\<open>log.size\<close>, an \<open>int\<close>\<close>
  fl_ops :: int             \<comment> \<open>\<open>log.outstanding\<close>\<close>

abbreviation (input) "BSIZE \<equiv> (512 :: u32)"
abbreviation (input) "BPB \<equiv> (4096 :: nat)"
abbreviation (input) "NDIRECT \<equiv> (11 :: nat)"
abbreviation (input) "NINDIRECT \<equiv> (128 :: nat)"
abbreviation (input) "DINDIRECT \<equiv> (128 * 128 :: nat)"
abbreviation (input) "MAXFILE \<equiv> (11 + 128 + 128 * 128 :: u32)"
abbreviation (input) "NINODE \<equiv> (50 :: nat)"
abbreviation (input) "DIRSIZ \<equiv> (14 :: nat)"
abbreviation (input) "T_DIR \<equiv> (1 :: u16)"
abbreviation (input) "T_DEV \<equiv> (3 :: u16)"

text \<open>\<open>struct dinode\<close> has 64 bytes, eight of them fill a block.\<close>

definition get_dinode :: "bytes \<Rightarrow> nat \<Rightarrow> dinode" where
  "get_dinode b k =
     \<lparr>d_type = load16 b (64 * k), d_major = load16 b (64 * k + 2), d_minor = load16 b (64 * k + 4),
      d_nlink = load16 b (64 * k + 6), d_size = load32 b (64 * k + 8),
      d_addrs = (\<lambda>i. if i < 13 then load32 b (64 * k + 12 + 4 * i) else 0)\<rparr>"

definition put_dinode :: "bytes \<Rightarrow> nat \<Rightarrow> dinode \<Rightarrow> bytes" where
  "put_dinode b k d =
     fold (\<lambda>i b. store32 b (64 * k + 12 + 4 * i) (d_addrs d i)) [0..<13]
       (store32 (store16 (store16 (store16 (store16 b (64 * k) (d_type d)) (64 * k + 2) (d_major d))
          (64 * k + 4) (d_minor d)) (64 * k + 6) (d_nlink d)) (64 * k + 8) (d_size d))"

definition upd_inode :: "nat \<Rightarrow> (inode \<Rightarrow> inode) \<Rightarrow> fs \<Rightarrow> fs" where
  "upd_inode ip f s = s\<lparr>icache := (icache s)(ip := f (icache s ip))\<rparr>"

definition upd_node :: "nat \<Rightarrow> (dinode \<Rightarrow> dinode) \<Rightarrow> fs \<Rightarrow> fs" where
  "upd_node ip f = upd_inode ip (\<lambda>i. i\<lparr>i_node := f (i_node i)\<rparr>)"

section \<open>Buffers\<close>

text \<open>What the buffer cache provides: \<open>bread\<close> waits for the buffer's lock, \<open>brelse\<close> gives it back.\<close>

definition bread :: "u32 \<Rightarrow> fs \<Rightarrow> (bytes \<times> fs) option" where
  "bread b s = (if b \<in> held s then None else Some (disk s b, s\<lparr>held := insert b (held s)\<rparr>))"

definition brelse :: "u32 \<Rightarrow> fs \<Rightarrow> fs option" where
  "brelse b s = (if b \<in> held s then Some (s\<lparr>held := held s - {b}\<rparr>) else None)"

text \<open>
  \<open>log_write\<close> panics when the log is full, even for a block that is in it, and outside of an operation; a
  block that is in it already is not entered again.
\<close>

definition log_write :: "u32 \<Rightarrow> bytes \<Rightarrow> fs \<Rightarrow> fs option" where
  "log_write b data s =
     (if int (length (fl_blocks s)) \<ge> 30 \<or> int (length (fl_blocks s)) \<ge> sint (fl_size s) - 1 then None
      else if fl_ops s < 1 then None
      else Some (s\<lparr>disk := (disk s)(b := data),
        fl_blocks := (if b \<in> set (fl_blocks s) then fl_blocks s else fl_blocks s @ [b])\<rparr>))"

definition readsb :: "fs \<Rightarrow> fs option" where
  "readsb s = do {
     (d, s) \<leftarrow> bread 1 s;
     brelse 1 (s\<lparr>sb := \<lparr>sb_size = load32 d 0, sb_nblocks = load32 d 4, sb_ninodes = load32 d 8,
       sb_nlog = load32 d 12, sb_logstart = load32 d 16, sb_inodestart = load32 d 20,
       sb_bmapstart = load32 d 24\<rparr>\<rparr>) }"

definition bzero :: "u32 \<Rightarrow> fs \<Rightarrow> fs option" where
  "bzero bno s = do {
     (d, s) \<leftarrow> bread bno s;
     s \<leftarrow> log_write bno (memmove d 0 (\<lambda>_. 0) 0 512) s;
     brelse bno s }"

section \<open>Blocks\<close>

definition BBLOCK :: "nat \<Rightarrow> fs \<Rightarrow> u32" where
  "BBLOCK b s = word_of_nat (b div BPB) + sb_bmapstart (sb s)"

text \<open>The bit of a block in its bitmap block.\<close>

definition bit_clear :: "bytes \<Rightarrow> nat \<Rightarrow> bool" where
  "bit_clear d bi \<longleftrightarrow> d (bi div 8) AND push_bit (bi mod 8) 1 = 0"

definition mark_bit :: "bytes \<Rightarrow> nat \<Rightarrow> bytes" where
  "mark_bit d bi = d(bi div 8 := d (bi div 8) OR push_bit (bi mod 8) 1)"

definition unmark_bit :: "bytes \<Rightarrow> nat \<Rightarrow> bytes" where
  "unmark_bit d bi = d(bi div 8 := d (bi div 8) AND NOT (push_bit (bi mod 8) 1))"

text \<open>The loop over the bitmap blocks; the list holds the first block of each.\<close>

fun balloc_from :: "nat list \<Rightarrow> fs \<Rightarrow> (u32 \<times> fs) option" where
  "balloc_from [] s = None"
| "balloc_from (b # bs) s = do {
     let bb = BBLOCK b s;
     (d, s) \<leftarrow> bread bb s;
     case find (bit_clear d) [0..<min BPB (unat (sb_size (sb s)) - b)] of
       Some bi \<Rightarrow> do {
         s \<leftarrow> log_write bb (mark_bit d bi) s;
         s \<leftarrow> brelse bb s;
         s \<leftarrow> bzero (word_of_nat (b + bi)) s;
         Some (word_of_nat (b + bi), s) }
     | None \<Rightarrow> do {
         s \<leftarrow> brelse bb s;
         balloc_from bs s } }"

definition balloc :: "fs \<Rightarrow> (u32 \<times> fs) option" where
  "balloc s = balloc_from (map (\<lambda>k. k * BPB) [0..<(unat (sb_size (sb s)) + (BPB - 1)) div BPB]) s"

definition bfree :: "u32 \<Rightarrow> fs \<Rightarrow> fs option" where
  "bfree b s = do {
     s \<leftarrow> readsb s;
     let bb = BBLOCK (unat b) s;
     (d, s) \<leftarrow> bread bb s;
     let bi = unat b mod BPB;
     if bit_clear d bi then None
     else do { s \<leftarrow> log_write bb (unmark_bit d bi) s; brelse bb s } }"

section \<open>The blocks of a file\<close>

text \<open>An entry of an inode, and of the indirect block \<open>blk\<close>, allocated when it is 0.\<close>

definition inode_entry :: "nat \<Rightarrow> nat \<Rightarrow> fs \<Rightarrow> (u32 \<times> fs) option" where
  "inode_entry ip i s =
     (let a = d_addrs (i_node (icache s ip)) i in
      if a = 0 then do {
        (a, s) \<leftarrow> balloc s;
        Some (a, upd_node ip (\<lambda>d. d\<lparr>d_addrs := (d_addrs d)(i := a)\<rparr>) s) }
      else Some (a, s))"

definition block_entry :: "u32 \<Rightarrow> nat \<Rightarrow> fs \<Rightarrow> (u32 \<times> fs) option" where
  "block_entry blk i s = do {
     (d, s) \<leftarrow> bread blk s;
     let a = load32 d (4 * i);
     (a, s) \<leftarrow> (if a = 0 then do {
                  (a, s) \<leftarrow> balloc s;
                  s \<leftarrow> log_write blk (store32 d (4 * i) a) s;
                  Some (a, s) }
                else Some (a, s));
     s \<leftarrow> brelse blk s;
     Some (a, s) }"

definition bmap :: "nat \<Rightarrow> u32 \<Rightarrow> fs \<Rightarrow> (u32 \<times> fs) option" where
  "bmap ip bn0 s =
     (let bn = unat bn0 in
      if bn < NDIRECT then inode_entry ip bn s
      else let bn = bn - NDIRECT in
      if bn < NINDIRECT then do {
        (a, s) \<leftarrow> inode_entry ip NDIRECT s;
        block_entry a bn s }
      else let bn = bn - NINDIRECT in
      if bn < DINDIRECT then do {
        (a, s) \<leftarrow> inode_entry ip (NDIRECT + 1) s;
        (a, s) \<leftarrow> block_entry a (bn div 128) s;
        block_entry a (bn mod 128) s }
      else None)"

text \<open>
  \<open>bmap2\<close> looks a block up and does not allocate: \<open>-1\<close> when there is none. In that case it does
  not release the buffer it has read.
\<close>

definition find_entry :: "u32 \<Rightarrow> nat \<Rightarrow> fs \<Rightarrow> (u32 \<times> fs) option" where
  "find_entry blk i s = do {
     (d, s) \<leftarrow> bread blk s;
     let a = load32 d (4 * i);
     if a = 0 then Some (0, s)
     else do { s \<leftarrow> brelse blk s; Some (a, s) } }"

definition bmap2 :: "nat \<Rightarrow> u32 \<Rightarrow> fs \<Rightarrow> (u32 \<times> fs) option" where
  "bmap2 ip bn0 s =
     (let bn = unat bn0; addrs = d_addrs (i_node (icache s ip)) in
      if bn < NDIRECT then Some (if addrs bn = 0 then -1 else addrs bn, s)
      else let bn = bn - NDIRECT in
      if bn < NINDIRECT then
        if addrs NDIRECT = 0 then Some (-1, s)
        else do {
          (a, s) \<leftarrow> find_entry (addrs NDIRECT) bn s;
          Some (if a = 0 then -1 else a, s) }
      else let bn = bn - NINDIRECT in
      if bn < DINDIRECT then
        if addrs (NDIRECT + 1) = 0 then Some (-1, s)
        else do {
          (a, s) \<leftarrow> find_entry (addrs (NDIRECT + 1)) (bn div 128) s;
          if a = 0 then Some (-1, s)
          else do {
            (a, s) \<leftarrow> find_entry a (bn mod 128) s;
            Some (if a = 0 then -1 else a, s) } }
      else None)"

text \<open>\<open>ofile\<close> gives the inode of an open file of the process; the quotient and remainder are those of \<open>int\<close>s.\<close>

definition baddr :: "(int \<Rightarrow> nat option) \<Rightarrow> int \<Rightarrow> int \<Rightarrow> fs \<Rightarrow> (u32 \<times> fs) option" where
  "baddr ofile fd offset s = do {
     ip \<leftarrow> ofile fd;
     let block_number = (if offset smod 512 \<noteq> 0 then offset sdiv 512 + 1 else offset sdiv 512);
     bmap2 ip (word_of_int block_number) s }"

section \<open>Inodes\<close>

definition IBLOCK :: "nat \<Rightarrow> fs \<Rightarrow> u32" where
  "IBLOCK i s = word_of_nat (i div 8) + sb_inodestart (sb s)"

definition iupdate :: "nat \<Rightarrow> fs \<Rightarrow> fs option" where
  "iupdate ip s = do {
     let inum = unat (i_inum (icache s ip));
     let ib = IBLOCK inum s;
     (d, s) \<leftarrow> bread ib s;
     s \<leftarrow> log_write ib (put_dinode d (inum mod 8) (i_node (icache s ip))) s;
     brelse ib s }"

text \<open>
  \<open>itrunc\<close> frees the direct blocks, the blocks of the indirect block and the indirect block
  itself. The doubly indirect block is not mentioned.
\<close>

definition itrunc :: "nat \<Rightarrow> fs \<Rightarrow> fs option" where
  "itrunc ip s = do {
     s \<leftarrow> for_opt [0..<NDIRECT] (\<lambda>i s.
            let a = d_addrs (i_node (icache s ip)) i in
            if a \<noteq> 0 then do {
              s \<leftarrow> bfree a s;
              Some (upd_node ip (\<lambda>d. d\<lparr>d_addrs := (d_addrs d)(i := 0)\<rparr>) s) }
            else Some s) s;
     s \<leftarrow> (let a = d_addrs (i_node (icache s ip)) NDIRECT in
           if a \<noteq> 0 then do {
             (d, s) \<leftarrow> bread a s;
             s \<leftarrow> for_opt [0..<NINDIRECT] (\<lambda>j s.
                    if load32 d (4 * j) \<noteq> 0 then bfree (load32 d (4 * j)) s else Some s) s;
             s \<leftarrow> brelse a s;
             s \<leftarrow> bfree a s;
             Some (upd_node ip (\<lambda>d. d\<lparr>d_addrs := (d_addrs d)(NDIRECT := 0)\<rparr>) s) }
           else Some s);
     iupdate ip (upd_node ip (\<lambda>d. d\<lparr>d_size := 0\<rparr>) s) }"

definition iget :: "u32 \<Rightarrow> u32 \<Rightarrow> fs \<Rightarrow> (nat \<times> fs) option" where
  "iget dev inum s =
     (case find (\<lambda>ip. 0 < i_ref (icache s ip) \<and> i_dev (icache s ip) = dev \<and> i_inum (icache s ip) = inum)
             [0..<NINODE] of
        Some ip \<Rightarrow> Some (ip, upd_inode ip (\<lambda>i. i\<lparr>i_ref := i_ref i + 1\<rparr>) s)
      | None \<Rightarrow>
          (case find (\<lambda>ip. i_ref (icache s ip) = 0) [0..<NINODE] of
             None \<Rightarrow> None
           | Some ip \<Rightarrow> Some (ip, upd_inode ip
               (\<lambda>i. i\<lparr>i_dev := dev, i_inum := inum, i_ref := 1, i_valid := False\<rparr>) s)))"

fun ialloc_from :: "u32 \<Rightarrow> u16 \<Rightarrow> nat list \<Rightarrow> fs \<Rightarrow> (nat \<times> fs) option" where
  "ialloc_from dev type [] s = None"
| "ialloc_from dev type (inum # inums) s = do {
     let ib = IBLOCK inum s;
     (d, s) \<leftarrow> bread ib s;
     if d_type (get_dinode d (inum mod 8)) = 0 then do {
       let zero = memmove d (64 * (inum mod 8)) (\<lambda>_. 0) 0 64;
       s \<leftarrow> log_write ib (store16 zero (64 * (inum mod 8)) type) s;
       s \<leftarrow> brelse ib s;
       iget dev (word_of_nat inum) s }
     else do {
       s \<leftarrow> brelse ib s;
       ialloc_from dev type inums s } }"

definition ialloc :: "u32 \<Rightarrow> u16 \<Rightarrow> fs \<Rightarrow> (nat \<times> fs) option" where
  "ialloc dev type s = ialloc_from dev type [1..<unat (sb_ninodes (sb s))] s"

definition idup :: "nat \<Rightarrow> fs \<Rightarrow> nat \<times> fs" where
  "idup ip s = (ip, upd_inode ip (\<lambda>i. i\<lparr>i_ref := i_ref i + 1\<rparr>) s)"

text \<open>\<open>acquiresleep\<close> on a lock that is taken waits for ever; \<open>holdingsleep\<close> asks whether it is taken.\<close>

definition acquiresleep :: "nat \<Rightarrow> fs \<Rightarrow> fs option" where
  "acquiresleep ip s = (if i_locked (icache s ip) then None else Some (upd_inode ip (\<lambda>i. i\<lparr>i_locked := True\<rparr>) s))"

definition ilock :: "nat \<Rightarrow> fs \<Rightarrow> fs option" where
  "ilock ip s =
     (if i_ref (icache s ip) < 1 then None
      else do {
        s \<leftarrow> acquiresleep ip s;
        if \<not> i_valid (icache s ip) then do {
          let inum = unat (i_inum (icache s ip));
          let ib = IBLOCK inum s;
          (d, s) \<leftarrow> bread ib s;
          let s = upd_node ip (\<lambda>_. get_dinode d (inum mod 8)) s;
          s \<leftarrow> brelse ib s;
          let s = upd_inode ip (\<lambda>i. i\<lparr>i_valid := True\<rparr>) s;
          if d_type (i_node (icache s ip)) = 0 then None else Some s }
        else Some s })"

definition iunlock :: "nat \<Rightarrow> fs \<Rightarrow> fs option" where
  "iunlock ip s =
     (if \<not> i_locked (icache s ip) \<or> i_ref (icache s ip) < 1 then None
      else Some (upd_inode ip (\<lambda>i. i\<lparr>i_locked := False\<rparr>) s))"

definition iput :: "nat \<Rightarrow> fs \<Rightarrow> fs option" where
  "iput ip s = do {
     s \<leftarrow> acquiresleep ip s;
     s \<leftarrow> (if i_valid (icache s ip) \<and> d_nlink (i_node (icache s ip)) = 0 \<and> i_ref (icache s ip) = 1 then do {
             s \<leftarrow> itrunc ip s;
             s \<leftarrow> iupdate ip (upd_node ip (\<lambda>d. d\<lparr>d_type := 0\<rparr>) s);
             Some (upd_inode ip (\<lambda>i. i\<lparr>i_valid := False\<rparr>) s) }
           else Some s);
     Some (upd_inode ip (\<lambda>i. i\<lparr>i_locked := False, i_ref := i_ref i - 1\<rparr>) s) }"

definition iunlockput :: "nat \<Rightarrow> fs \<Rightarrow> fs option" where
  "iunlockput ip s = do { s \<leftarrow> iunlock ip s; iput ip s }"

record stat =
  st_dev :: int
  st_ino :: u32
  st_type :: u16
  st_nlink :: u16
  st_size :: u32

definition stati :: "nat \<Rightarrow> fs \<Rightarrow> stat" where
  "stati ip s = \<lparr>st_dev = sint (i_dev (icache s ip)), st_ino = i_inum (icache s ip),
     st_type = d_type (i_node (icache s ip)), st_nlink = d_nlink (i_node (icache s ip)),
     st_size = d_size (i_node (icache s ip))\<rparr>"

section \<open>Reading and writing a file\<close>

definition chunk :: "u32 \<Rightarrow> u32 \<Rightarrow> u32 \<Rightarrow> u32" where
  "chunk n tot off = min (n - tot) (BSIZE - off mod BSIZE)"

lemma chunk_progress: "tot < n \<Longrightarrow> unat (n - (tot + chunk n tot off)) < unat (n - tot)"
proof -
  assume lt: "tot < n"
  have "0 < n - tot" using lt by (simp add: word_gt_0)
  moreover have "off mod 512 < 512" by (rule word_mod_less_divisor) simp
  then have "0 < BSIZE - off mod 512" by (simp add: word_gt_0 less_le)
  ultimately have pos: "0 < chunk n tot off" by (simp add: chunk_def)
  have le: "chunk n tot off \<le> n - tot" by (simp add: chunk_def)
  have "n - (tot + chunk n tot off) = (n - tot) - chunk n tot off" by simp
  also have "unat \<dots> = unat (n - tot) - unat (chunk n tot off)" using le by (rule unat_sub)
  also have "\<dots> < unat (n - tot)"
  proof -
    have "0 < unat (chunk n tot off)" using pos by (simp add: unat_gt_0)
    moreover have "unat (chunk n tot off) \<le> unat (n - tot)" using le by (simp add: word_le_nat_alt)
    ultimately show ?thesis by linarith
  qed
  finally show ?thesis .
qed

text \<open>The loop of \<open>readi\<close>; \<open>dst\<close> has been advanced by \<open>tot\<close>.\<close>

function read_loop :: "nat \<Rightarrow> u32 \<Rightarrow> u32 \<Rightarrow> u32 \<Rightarrow> bytes \<Rightarrow> fs \<Rightarrow> (bytes \<times> fs) option" where
  "read_loop ip n tot off dst s =
     (if tot < n then do {
        (a, s) \<leftarrow> bmap ip (off div BSIZE) s;
        (d, s) \<leftarrow> bread a s;
        let m = chunk n tot off;
        let dst = memmove dst (unat tot) d (unat (off mod BSIZE)) (unat m);
        s \<leftarrow> brelse a s;
        read_loop ip n (tot + m) (off + m) dst s }
      else Some (dst, s))"
  by pat_completeness auto
termination
  by (relation "measure (\<lambda>(ip, n, tot, off, dst, s). unat (n - tot))") (auto simp: chunk_progress)

declare read_loop.simps [simp del]

text \<open>
  The table \<open>devsw\<close> of device functions is the argument \<open>dev\<close>; a function takes the inode, the
  buffer and the number of bytes.
\<close>

type_synonym device = "nat \<Rightarrow> bytes \<Rightarrow> u32 \<Rightarrow> fs \<Rightarrow> (int \<times> bytes \<times> fs) option"

definition devsw_at :: "(int \<Rightarrow> device option) \<Rightarrow> nat \<Rightarrow> fs \<Rightarrow> device option" where
  "devsw_at dev ip s =
     (let major = sint (d_major (i_node (icache s ip))) in
      if major < 0 \<or> major \<ge> 10 then None else dev major)"

definition readi ::
  "(int \<Rightarrow> device option) \<Rightarrow> nat \<Rightarrow> bytes \<Rightarrow> u32 \<Rightarrow> u32 \<Rightarrow> fs \<Rightarrow> (int \<times> bytes \<times> fs) option" where
  "readi dev ip dst off n s =
     (let size = d_size (i_node (icache s ip)) in
      if d_type (i_node (icache s ip)) = T_DEV then
        (case devsw_at dev ip s of None \<Rightarrow> Some (-1, dst, s) | Some f \<Rightarrow> f ip dst n s)
      else if off > size \<or> off + n < off then Some (-1, dst, s)
      else
        let n = (if off + n > size then size - off else n) in
        do { (dst, s) \<leftarrow> read_loop ip n 0 off dst s; Some (sint n, dst, s) })"

function write_loop :: "nat \<Rightarrow> u32 \<Rightarrow> u32 \<Rightarrow> u32 \<Rightarrow> bytes \<Rightarrow> fs \<Rightarrow> (u32 \<times> fs) option" where
  "write_loop ip n tot off src s =
     (if tot < n then do {
        (a, s) \<leftarrow> bmap ip (off div BSIZE) s;
        (d, s) \<leftarrow> bread a s;
        let m = chunk n tot off;
        let d = memmove d (unat (off mod BSIZE)) src (unat tot) (unat m);
        s \<leftarrow> log_write a d s;
        s \<leftarrow> brelse a s;
        write_loop ip n (tot + m) (off + m) src s }
      else Some (off, s))"
  by pat_completeness auto
termination
  by (relation "measure (\<lambda>(ip, n, tot, off, src, s). unat (n - tot))") (auto simp: chunk_progress)

declare write_loop.simps [simp del]

definition writei ::
  "(int \<Rightarrow> device option) \<Rightarrow> nat \<Rightarrow> bytes \<Rightarrow> u32 \<Rightarrow> u32 \<Rightarrow> fs \<Rightarrow> (int \<times> fs) option" where
  "writei dev ip src off n s =
     (let size = d_size (i_node (icache s ip)) in
      if d_type (i_node (icache s ip)) = T_DEV then
        (case devsw_at dev ip s of None \<Rightarrow> Some (-1, s)
         | Some f \<Rightarrow> do { (r, _, s) \<leftarrow> f ip src n s; Some (r, s) })
      else if off > size \<or> off + n < off then Some (-1, s)
      else if off + n > MAXFILE * BSIZE then Some (-1, s)
      else do {
        (off, s) \<leftarrow> write_loop ip n 0 off src s;
        s \<leftarrow> (if n > 0 \<and> off > size
              then iupdate ip (upd_node ip (\<lambda>d. d\<lparr>d_size := off\<rparr>) s) else Some s);
        Some (sint n, s) })"

section \<open>Directories\<close>

fun strncmp :: "bytes \<Rightarrow> bytes \<Rightarrow> nat \<Rightarrow> nat \<Rightarrow> int" where
  "strncmp p q i 0 = 0"
| "strncmp p q i (Suc n) =
     (if p i \<noteq> 0 \<and> p i = q i then strncmp p q (i + 1) n else uint (p i) - uint (q i))"

text \<open>The two loops: copying up to the end of the string, then zeros.\<close>

fun strncpy :: "bytes \<Rightarrow> bytes \<Rightarrow> nat \<Rightarrow> nat \<Rightarrow> bytes" where
  "strncpy s t i 0 = s"
| "strncpy s t i (Suc n) =
     (if t i \<noteq> 0 then strncpy (s(i := t i)) t (i + 1) n else memmove s i (\<lambda>_. 0) 0 (Suc n))"

definition namecmp :: "bytes \<Rightarrow> bytes \<Rightarrow> int" where
  "namecmp s t = strncmp s t 0 DIRSIZ"

text \<open>
  A directory entry \<open>de\<close> has 16 bytes: the inode number and the name. \<open>junk\<close> is what the local
  variable \<open>de\<close> holds before.
\<close>

definition de_inum :: "bytes \<Rightarrow> u16" where "de_inum de = load16 de 0"
definition de_name :: "bytes \<Rightarrow> bytes" where "de_name de = (\<lambda>i. de (i + 2))"

text \<open>The loop of \<open>dirlookup\<close>: the offset of the entry with that name, and its inode number.\<close>

fun dirlookup_from ::
  "(int \<Rightarrow> device option) \<Rightarrow> nat \<Rightarrow> bytes \<Rightarrow> bytes \<Rightarrow> nat list \<Rightarrow> fs \<Rightarrow> ((nat \<times> u16) option \<times> fs) option" where
  "dirlookup_from dev dp name de [] s = Some (None, s)"
| "dirlookup_from dev dp name de (off # offs) s = do {
     (r, de, s) \<leftarrow> readi dev dp de (word_of_nat off) 16 s;
     if r \<noteq> 16 then None
     else if de_inum de \<noteq> 0 \<and> namecmp name (de_name de) = 0 then Some (Some (off, de_inum de), s)
     else dirlookup_from dev dp name de offs s }"

definition dir_offsets :: "nat \<Rightarrow> fs \<Rightarrow> nat list" where
  "dir_offsets dp s = map (\<lambda>k. k * 16) [0..<(unat (d_size (i_node (icache s dp))) + 15) div 16]"

definition dirlookup ::
  "(int \<Rightarrow> device option) \<Rightarrow> bytes \<Rightarrow> nat \<Rightarrow> bytes \<Rightarrow> fs \<Rightarrow> ((nat \<times> nat) option \<times> fs) option" where
  "dirlookup dev junk dp name s =
     (if d_type (i_node (icache s dp)) \<noteq> T_DIR then None
      else do {
        (r, s) \<leftarrow> dirlookup_from dev dp name junk (dir_offsets dp s) s;
        case r of
          None \<Rightarrow> Some (None, s)
        | Some (off, inum) \<Rightarrow> do {
            (ip, s) \<leftarrow> iget (i_dev (icache s dp)) (ucast inum) s;
            Some (Some (ip, off), s) } })"

text \<open>The loop of \<open>dirlink\<close>: the offset of the first free entry, or the end of the directory.\<close>

fun free_dirent ::
  "(int \<Rightarrow> device option) \<Rightarrow> nat \<Rightarrow> bytes \<Rightarrow> nat \<Rightarrow> nat list \<Rightarrow> fs \<Rightarrow> (nat \<times> bytes \<times> fs) option" where
  "free_dirent dev dp de cur [] s = Some (cur, de, s)"
| "free_dirent dev dp de cur (off # offs) s = do {
     (r, de, s) \<leftarrow> readi dev dp de (word_of_nat off) 16 s;
     if r \<noteq> 16 then None
     else if de_inum de = 0 then Some (off, de, s)
     else free_dirent dev dp de (off + 16) offs s }"

definition dirlink ::
  "(int \<Rightarrow> device option) \<Rightarrow> bytes \<Rightarrow> nat \<Rightarrow> bytes \<Rightarrow> u32 \<Rightarrow> fs \<Rightarrow> (int \<times> fs) option" where
  "dirlink dev junk dp name inum s = do {
     (r, s) \<leftarrow> dirlookup dev junk dp name s;
     case r of
       Some (ip, _) \<Rightarrow> do { s \<leftarrow> iput ip s; Some (-1, s) }
     | None \<Rightarrow> do {
         (off, de, s) \<leftarrow> free_dirent dev dp junk 0 (dir_offsets dp s) s;
         let de = memmove de 2 (strncpy (de_name de) name 0 DIRSIZ) 0 DIRSIZ;
         let de = store16 de 0 (ucast inum);
         (r, s) \<leftarrow> writei dev dp de (word_of_nat off) 16 s;
         if r \<noteq> 16 then None else Some (0, s) } }"

section \<open>Paths\<close>

text \<open>
  A path is the list of its bytes before the terminating zero, \<open>name\<close> an array of \<open>DIRSIZ\<close> bytes.
  \<open>47\<close> is the character \<open>/\<close>.
\<close>

definition skipelem :: "u8 list \<Rightarrow> bytes \<Rightarrow> (u8 list \<times> bytes) option" where
  "skipelem path name =
     (let path = dropWhile (\<lambda>c. c = 47) path in
      if path = [] then None
      else
        let elem = takeWhile (\<lambda>c. c \<noteq> 47) path;
            rest = dropWhile (\<lambda>c. c \<noteq> 47) path;
            len = length elem;
            name = (if len \<ge> DIRSIZ then memmove name 0 (\<lambda>i. elem ! i) 0 DIRSIZ
                    else (memmove name 0 (\<lambda>i. elem ! i) 0 len)(len := 0))
        in Some (dropWhile (\<lambda>c. c = 47) rest, name))"

lemma skipelem_shorter:
  assumes "skipelem path name = Some (path', name')"
  shows "length path' < length path"
proof -
  let ?p = "dropWhile (\<lambda>c. c = 47) path"
  have ne: "?p \<noteq> []" and p': "path' = dropWhile (\<lambda>c. c = 47) (dropWhile (\<lambda>c. c \<noteq> 47) ?p)"
    using assms by (auto simp: skipelem_def Let_def split: if_splits)
  have "hd ?p \<noteq> 47" using hd_dropWhile [OF ne] by simp
  then have "length (dropWhile (\<lambda>c. c \<noteq> 47) ?p) < length ?p"
    using ne by (cases ?p) (auto simp: length_dropWhile_le le_imp_less_Suc)
  then show ?thesis
    using length_dropWhile_le [of "\<lambda>c. c = 47" "dropWhile (\<lambda>c. c \<noteq> 47) ?p"]
      length_dropWhile_le [of "\<lambda>c. c = 47" path] by (simp add: p')
qed

function namex_loop ::
  "(int \<Rightarrow> device option) \<Rightarrow> bytes \<Rightarrow> bool \<Rightarrow> nat \<Rightarrow> u8 list \<Rightarrow> bytes \<Rightarrow> fs
     \<Rightarrow> (nat option \<times> bytes \<times> fs) option" where
  "namex_loop dev junk nameiparent ip path name s =
     (case skipelem path name of
        None \<Rightarrow>
          if nameiparent then do { s \<leftarrow> iput ip s; Some (None, name, s) }
          else Some (Some ip, name, s)
      | Some (path', name') \<Rightarrow> do {
          s \<leftarrow> ilock ip s;
          if d_type (i_node (icache s ip)) \<noteq> T_DIR
          then do { s \<leftarrow> iunlockput ip s; Some (None, name', s) }
          else if nameiparent \<and> path' = []
          then do { s \<leftarrow> iunlock ip s; Some (Some ip, name', s) }
          else do {
            (r, s) \<leftarrow> dirlookup dev junk ip name' s;
            case r of
              None \<Rightarrow> do { s \<leftarrow> iunlockput ip s; Some (None, name', s) }
            | Some (nxt, off) \<Rightarrow> do {
                s \<leftarrow> iunlockput ip s;
                namex_loop dev junk nameiparent nxt path' name' s } } })"
  by pat_completeness auto
termination
  by (relation "measure (\<lambda>(dev, junk, nameiparent, ip, path, name, s). length path)")
    (auto dest: skipelem_shorter)

declare namex_loop.simps [simp del]

text \<open>\<open>cwd\<close> is the current directory of the process; the root is inode 1 of device 1.\<close>

definition namex ::
  "(int \<Rightarrow> device option) \<Rightarrow> bytes \<Rightarrow> nat \<Rightarrow> u8 list \<Rightarrow> bool \<Rightarrow> bytes \<Rightarrow> fs
     \<Rightarrow> (nat option \<times> bytes \<times> fs) option" where
  "namex dev junk cwd path nameiparent name s = do {
     (ip, s) \<leftarrow> (if path \<noteq> [] \<and> hd path = 47 then iget 1 1 s else Some (idup cwd s));
     namex_loop dev junk nameiparent ip path name s }"

definition namei ::
  "(int \<Rightarrow> device option) \<Rightarrow> bytes \<Rightarrow> nat \<Rightarrow> u8 list \<Rightarrow> bytes \<Rightarrow> fs \<Rightarrow> (nat option \<times> fs) option" where
  "namei dev junk cwd path name s = do {
     (r, _, s) \<leftarrow> namex dev junk cwd path False name s;
     Some (r, s) }"

definition nameiparent ::
  "(int \<Rightarrow> device option) \<Rightarrow> bytes \<Rightarrow> nat \<Rightarrow> u8 list \<Rightarrow> bytes \<Rightarrow> fs \<Rightarrow> (nat option \<times> bytes \<times> fs) option" where
  "nameiparent dev junk cwd path name s = namex dev junk cwd path True name s"

end
