(* ===== verification/FsMap.thy ===== *)
theory FsMap
  imports Fs
begin

text \<open>
  The bitmap as the set of blocks that are taken: \<open>balloc\<close> takes the first free block and clears it,
  and panics only when there is none.
\<close>

lemma load_zero:
  assumes "i + 4 \<le> 512"
  shows "load32 (memmove b 0 (\<lambda>_. 0) 0 512) i = 0"
  using assms by (simp add: load32_def memmove_def)

section \<open>Room in the log\<close>

text \<open>The state after a \<open>log_write\<close> that does not panic.\<close>

definition put_log :: "u32 \<Rightarrow> bytes \<Rightarrow> fs \<Rightarrow> fs" where
  "put_log b data s = s\<lparr>disk := (disk s)(b := data),
     fl_blocks := (if b \<in> set (fl_blocks s) then fl_blocks s else fl_blocks s @ [b])\<rparr>"

lemma put_log_simps [simp]:
  "disk (put_log b d s) = (disk s)(b := d)" "sb (put_log b d s) = sb s" "held (put_log b d s) = held s"
  "icache (put_log b d s) = icache s" "fl_size (put_log b d s) = fl_size s" "fl_ops (put_log b d s) = fl_ops s"
  "set (fl_blocks (put_log b d s)) = insert b (set (fl_blocks s))"
  by (auto simp: put_log_def)

text \<open>
  \<open>room s A k\<close>: within an operation, the log has room for the blocks \<open>A\<close>, whichever of them it has already, and
  for \<open>k\<close> others.
\<close>

definition room :: "fs \<Rightarrow> u32 set \<Rightarrow> nat \<Rightarrow> bool" where
  "room s A k \<longleftrightarrow> 1 \<le> fl_ops s \<and> distinct (fl_blocks s) \<and>
     int (card (set (fl_blocks s) \<union> A) + k) < min 30 (sint (fl_size s) - 1)"

lemma room_cong:
  "fl_ops t = fl_ops s \<Longrightarrow> fl_blocks t = fl_blocks s \<Longrightarrow> fl_size t = fl_size s \<Longrightarrow> room t A k = room s A k"
  by (simp add: room_def)

lemma room_mono: "room s A k \<Longrightarrow> B \<subseteq> A \<Longrightarrow> j \<le> k \<Longrightarrow> room s B j"
proof -
  assume r: "room s A k" and "B \<subseteq> A" "j \<le> k"
  then have "card (set (fl_blocks s) \<union> B) \<le> card (set (fl_blocks s) \<union> A)" by (intro card_mono) auto
  then show ?thesis using r \<open>j \<le> k\<close> unfolding room_def by linarith
qed

lemma room_insert: "room s A (Suc k) \<Longrightarrow> room s (insert b A) k"
proof -
  assume r: "room s A (Suc k)"
  have "card (set (fl_blocks s) \<union> insert b A) \<le> Suc (card (set (fl_blocks s) \<union> A))" by (simp add: card_insert_if)
  then show ?thesis using r unfolding room_def by linarith
qed

lemma log_write_room:
  assumes r: "room s A k" and b: "b \<in> A"
  shows "log_write b d s = Some (put_log b d s)" "room (put_log b d s) A k"
proof -
  have "length (fl_blocks s) = card (set (fl_blocks s))" using r by (simp add: room_def distinct_card)
  also have "\<dots> \<le> card (set (fl_blocks s) \<union> A)" by (intro card_mono) auto
  finally show "log_write b d s = Some (put_log b d s)"
    using r unfolding log_write_def put_log_def room_def by simp
  have "insert b (set (fl_blocks s)) \<union> A = set (fl_blocks s) \<union> A" using b by auto
  moreover have "distinct (fl_blocks (put_log b d s))" using r by (simp add: put_log_def room_def)
  ultimately show "room (put_log b d s) A k" using r by (simp add: room_def)
qed

section \<open>The bitmap\<close>

definition n_blocks :: "fs \<Rightarrow> nat" where "n_blocks s = unat (sb_size (sb s))"

definition used :: "fs \<Rightarrow> nat \<Rightarrow> bool" where
  "used s n \<longleftrightarrow> \<not> bit_clear (disk s (BBLOCK n s)) (n mod BPB)"

definition bitmap_block :: "fs \<Rightarrow> u32 \<Rightarrow> bool" where
  "bitmap_block s a \<longleftrightarrow> (\<exists>n < n_blocks s. a = BBLOCK n s)"

text \<open>The boot block and the blocks of the bitmap are never handed out.\<close>

definition bitmap_ok :: "fs \<Rightarrow> bool" where
  "bitmap_ok s \<longleftrightarrow> used s 0 \<and>
     (\<forall>n < n_blocks s. unat (BBLOCK n s) < n_blocks s \<and> used s (unat (BBLOCK n s)))"

lemma bit_clear_iff: "bit_clear d bi \<longleftrightarrow> \<not> bit (d (bi div 8)) (bi mod 8)"
proof -
  have "d (bi div 8) AND push_bit (bi mod 8) 1 = 0 \<longleftrightarrow> \<not> bit (d (bi div 8)) (bi mod 8)"
  proof
    assume a: "d (bi div 8) AND push_bit (bi mod 8) 1 = 0"
    show "\<not> bit (d (bi div 8)) (bi mod 8)"
    proof
      assume "bit (d (bi div 8)) (bi mod 8)"
      then have "bit (d (bi div 8) AND push_bit (bi mod 8) 1) (bi mod 8)" by (simp add: bit_simps)
      with a show False by simp
    qed
  next
    assume "\<not> bit (d (bi div 8)) (bi mod 8)"
    then show "d (bi div 8) AND push_bit (bi mod 8) 1 = 0"
      by (intro bit_word_eqI) (auto simp: bit_simps bit_1_iff)
  qed
  then show ?thesis by (simp add: bit_clear_def)
qed

lemma bit_index: "i div 8 = j div 8 \<Longrightarrow> i mod 8 = j mod 8 \<Longrightarrow> i = (j :: nat)"
  by (metis div_mult_mod_eq)

lemma mark_bit_clear: "bit_clear (mark_bit d i) j \<longleftrightarrow> bit_clear d j \<and> j \<noteq> i"
  using bit_index [of j i]
  by (auto simp: bit_clear_iff mark_bit_def bit_simps bit_1_iff)

lemma unmark_bit_clear: "bit_clear (unmark_bit d i) j \<longleftrightarrow> bit_clear d j \<or> j = i"
  using bit_index [of j i]
  by (auto simp: bit_clear_iff unmark_bit_def bit_simps bit_1_iff)

lemma BBLOCK_eq:
  assumes "n < 2 ^ 32" "m < 2 ^ 32"
  shows "BBLOCK n s = BBLOCK m s \<longleftrightarrow> n div BPB = m div BPB"
proof -
  have "word_of_nat (n div BPB) = (word_of_nat (m div BPB) :: u32) \<longleftrightarrow> n div BPB = m div BPB"
    using assms by (simp add: word_of_nat_eq_iff take_bit_nat_eq_self)
  then show ?thesis by (simp add: BBLOCK_def)
qed

text \<open>The bits depend on the bitmap blocks and the superblock only.\<close>

lemma used_cong:
  assumes "sb t = sb s" "disk t (BBLOCK n s) = disk s (BBLOCK n s)"
  shows "used t n = used s n"
proof -
  have "BBLOCK n t = BBLOCK n s" by (simp add: BBLOCK_def assms(1))
  with assms(2) show ?thesis by (simp add: used_def)
qed

text \<open>The blocks of the bitmap.\<close>

abbreviation bitmap :: "fs \<Rightarrow> u32 set" where
  "bitmap s \<equiv> {a. bitmap_block s a}"

lemma bitmap_block_cong: "sb t = sb s \<Longrightarrow> bitmap_block t = bitmap_block s"
  by (simp add: fun_eq_iff bitmap_block_def n_blocks_def BBLOCK_def)

lemma unat_block: "n < n_blocks s \<Longrightarrow> unat (word_of_nat n :: u32) = n" "n < n_blocks s \<Longrightarrow> n < 2 ^ 32"
proof -
  have "unat (sb_size (sb s)) < 2 ^ 32" using unsigned_less [of "sb_size (sb s)"] by simp
  then show "n < n_blocks s \<Longrightarrow> unat (word_of_nat n :: u32) = n" "n < n_blocks s \<Longrightarrow> n < 2 ^ 32"
    by (simp_all add: n_blocks_def unat_of_nat take_bit_nat_eq_self)
qed

section \<open>Allocating a block\<close>

lemma find_upt_eq: "i < n \<Longrightarrow> P i \<Longrightarrow> (\<And>j. j < i \<Longrightarrow> \<not> P j) \<Longrightarrow> find P [0..<n] = Some i"
  by (auto simp: find_Some_iff intro!: exI [of _ i])

text \<open>What \<open>balloc\<close> leaves when it hands out the block \<open>n\<close>.\<close>

definition allocated :: "fs \<Rightarrow> nat \<Rightarrow> fs \<Rightarrow> bool" where
  "allocated s n t \<longleftrightarrow>
     n < n_blocks s \<and> \<not> used s n \<and> (\<forall>m < n. used s m) \<and>
     sb t = sb s \<and> held t = held s \<and> icache t = icache s \<and>
     disk t (word_of_nat n) = memmove (disk s (word_of_nat n)) 0 (\<lambda>_. 0) 0 512 \<and>
     (\<forall>a. a \<noteq> word_of_nat n \<longrightarrow> \<not> bitmap_block s a \<longrightarrow> disk t a = disk s a) \<and>
     (\<forall>m < n_blocks s. used t m \<longleftrightarrow> used s m \<or> m = n)"

lemma div_block: "n div BPB * BPB + n mod BPB = n" by simp

lemma bitmap_block_BBLOCK [intro]: "n < n_blocks s \<Longrightarrow> bitmap_block s (BBLOCK n s)"
  by (auto simp: bitmap_block_def)

text \<open>No locked buffer is one that \<open>balloc\<close> needs.\<close>

definition held_ok :: "fs \<Rightarrow> bool" where
  "held_ok s \<longleftrightarrow> (\<forall>a \<in> held s. used s (unat a) \<and> \<not> bitmap_block s a)"

lemma balloc_here:
  assumes ok: "bitmap_ok s" and hd: "held_ok s"
    and n: "n < n_blocks s" "\<not> used s n" "\<And>m. m < n \<Longrightarrow> used s m"
    and rm: "room s A (Suc k)" "bitmap s \<subseteq> A"
  shows "\<exists>t. balloc_from (n div BPB * BPB # bs) s = Some (word_of_nat n, t) \<and> allocated s n t \<and>
    room t (insert (word_of_nat n) A) k"
proof -
  define b where "b = n div BPB * BPB"
  define bb where "bb = BBLOCK n s"
  define d where "d = disk s bb"
  define i where "i = n mod BPB"
  define x where "x = (word_of_nat n :: u32)"
  have bn: "b + i = n" by (simp add: b_def i_def)
  have BB: "BBLOCK b s = bb" by (simp add: BBLOCK_def b_def bb_def)
  have ux: "unat x = n" using unat_block(1) [OF n(1)] by (simp add: x_def)
  have bbu: "used s (unat bb)" using ok n(1) by (simp add: bitmap_ok_def bb_def)
  have bbm: "bitmap_block s bb" using n(1) by (auto simp: bb_def)
  have nh: "bb \<notin> held s" "x \<notin> held s" using hd n(2) bbm ux by (auto simp: held_ok_def)
  have ne: "x \<noteq> bb" using bbu n(2) ux by auto
  have ci: "bit_clear d i" using n(2) by (simp add: used_def d_def bb_def i_def)
  have cj: "\<not> bit_clear d j" if "j < i" for j
  proof -
    have j: "b + j < n" "j < BPB" using that bn mod_less_divisor [of BPB n] by (auto simp: i_def)
    have "BBLOCK (b + j) s = bb" using j(2) by (simp add: BBLOCK_def b_def bb_def)
    moreover have "(b + j) mod BPB = j" using j(2) by (simp add: b_def)
    ultimately show ?thesis using n(3) [OF j(1)] by (simp add: used_def d_def)
  qed
  have "i < min BPB (n_blocks s - b)" using n(1) bn by (simp add: i_def)
  then have f: "find (bit_clear d) [0..<min BPB (unat (sb_size (sb s)) - b)] = Some i"
    using ci cj unfolding n_blocks_def by (rule find_upt_eq)
  define s1 where "s1 = put_log bb (mark_bit d i) s"
  define t where "t = put_log x (memmove (disk s1 x) 0 (\<lambda>_. 0) 0 512) s1"
  have bA: "bb \<in> A" using rm(2) bbm by blast
  have h0: "room (s\<lparr>held := insert bb (held s)\<rparr>) A (Suc k)" using rm(1) by (simp add: room_def)
  have l1: "log_write bb (mark_bit d i) (s\<lparr>held := insert bb (held s)\<rparr>) = Some (s1\<lparr>held := insert bb (held s)\<rparr>)"
    using log_write_room(1) [OF h0 bA] by (simp add: s1_def put_log_def)
  have r1: "brelse bb (s1\<lparr>held := insert bb (held s)\<rparr>) = Some s1"
    using nh(1) by (simp add: brelse_def s1_def put_log_def)
  have R1: "room s1 (insert x A) k" unfolding s1_def by (rule room_insert [OF log_write_room(2) [OF rm(1) bA]])
  have h1: "room (s1\<lparr>held := insert x (held s1)\<rparr>) (insert x A) k" using R1 by (simp add: room_def)
  have l2: "log_write x (memmove (disk s1 x) 0 (\<lambda>_. 0) 0 512) (s1\<lparr>held := insert x (held s1)\<rparr>) = Some (t\<lparr>held := insert x (held s1)\<rparr>)"
    using log_write_room(1) [OF h1 insertI1] by (simp add: t_def put_log_def)
  have r2: "bzero x s1 = Some t"
    using nh(2) l2 by (simp add: bzero_def bread_def brelse_def s1_def t_def put_log_def)
  have Rt: "room t (insert x A) k" unfolding t_def by (rule log_write_room(2) [OF R1 insertI1])
  have "balloc_from (b # bs) s = Some (x, t)"
    using f l1 r1 r2 nh(1) bn by (simp add: bread_def BB Let_def flip: d_def x_def)
  moreover have "used t m \<longleftrightarrow> used s m \<or> m = n" if m: "m < n_blocks s" for m
  proof (cases "BBLOCK m s = bb")
    case True
    have "m div BPB = n div BPB"
      using True BBLOCK_eq unat_block(2) [OF m] unat_block(2) [OF n(1)] by (simp add: bb_def)
    then have "m = n \<longleftrightarrow> m mod BPB = i" by (metis div_block i_def)
    moreover have "disk t bb = mark_bit d i" using ne by (simp add: t_def s1_def)
    moreover have "BBLOCK m t = bb" using True by (simp add: BBLOCK_def t_def s1_def)
    ultimately show ?thesis using True by (auto simp: used_def mark_bit_clear d_def)
  next
    case False
    have "used s (unat (BBLOCK m s))" using ok m by (simp add: bitmap_ok_def)
    then have "BBLOCK m s \<noteq> x" using n(2) ux by auto
    then have "used t m = used s m" using False by (intro used_cong) (simp_all add: t_def s1_def)
    moreover have "m \<noteq> n" using False by (auto simp: bb_def)
    ultimately show ?thesis by simp
  qed
  moreover have "a \<noteq> x \<Longrightarrow> \<not> bitmap_block s a \<Longrightarrow> disk t a = disk s a" for a
    using bbm by (auto simp: t_def s1_def)
  moreover have "disk t x = memmove (disk s x) 0 (\<lambda>_. 0) 0 512" using ne by (simp add: t_def s1_def)
  moreover have "sb t = sb s" "held t = held s" "icache t = icache s" by (simp_all add: t_def s1_def)
  ultimately show ?thesis using n Rt by (auto simp: allocated_def b_def x_def)
qed

lemma balloc_from_ok:
  assumes ok: "bitmap_ok s" and hd: "held_ok s"
    and n: "n < n_blocks s" "\<not> used s n" "\<And>m. m < n \<Longrightarrow> used s m"
    and rm: "room s A (Suc j)" "bitmap s \<subseteq> A"
    and k: "k \<le> n div BPB" "n div BPB < N"
  shows "\<exists>t. balloc_from (map (\<lambda>k. k * BPB) [k..<N]) s = Some (word_of_nat n, t) \<and> allocated s n t \<and>
    room t (insert (word_of_nat n) A) j"
  using k(1)
proof (induction rule: inc_induct)
  case base
  have "[n div BPB..<N] = n div BPB # [Suc (n div BPB)..<N]" using k(2) by (simp add: upt_conv_Cons)
  then show ?case using balloc_here [OF ok hd n rm] by simp
next
  case (step k)
  let ?b = "k * BPB" and ?bb = "BBLOCK (k * BPB) s"
  have "(k + 1) * BPB \<le> n div BPB * BPB" using step.hyps(2) by (intro mult_le_mono1) simp
  also have "\<dots> \<le> n" by simp
  finally have bn: "?b + BPB \<le> n" by simp
  have "bitmap_block s ?bb" using bn n(1) by auto
  then have nh: "?bb \<notin> held s" using hd by (auto simp: held_ok_def)
  have "\<not> bit_clear (disk s ?bb) j" if j: "j < BPB" for j
  proof -
    have "BBLOCK (?b + j) s = ?bb" "(?b + j) mod BPB = j" using j by (simp_all add: BBLOCK_def)
    then show ?thesis using n(3) [of "?b + j"] j bn by (simp add: used_def)
  qed
  then have "find (bit_clear (disk s ?bb)) [0..<min BPB (unat (sb_size (sb s)) - ?b)] = None"
    by (auto simp: find_None_iff)
  moreover have "[k..<N] = k # [Suc k..<N]" using step.hyps(2) k(2) by (simp add: upt_conv_Cons)
  ultimately show ?case using nh step.IH by (simp add: bread_def brelse_def Let_def)
qed

lemma balloc_ok:
  assumes "bitmap_ok s" "held_ok s" "n < n_blocks s" "\<not> used s n" "\<And>m. m < n \<Longrightarrow> used s m"
    and "room s A (Suc j)" "bitmap s \<subseteq> A"
  shows "\<exists>t. balloc s = Some (word_of_nat n, t) \<and> allocated s n t \<and> room t (insert (word_of_nat n) A) j"
proof -
  have "Suc (n div BPB) * BPB \<le> unat (sb_size (sb s)) + (BPB - 1)"
    using assms(3) div_block [of n] by (simp add: n_blocks_def)
  then have "n div BPB < (unat (sb_size (sb s)) + (BPB - 1)) div BPB"
    by (simp add: less_eq_div_iff_mult_less_eq flip: Suc_le_eq)
  with balloc_from_ok [OF assms, of 0] show ?thesis unfolding balloc_def by blast
qed

end
