(* ===== verification/FsFile.thy ===== *)
theory FsFile
  imports FsMap
begin

text \<open>
  The blocks of a file as a tree of pointers, and the file as the bytes in its data blocks. An
  allocation fills one empty pointer and leaves every other pointer of the tree, and every byte
  of every file, as it was, because the blocks in the tree are distinct and marked as used.
\<close>

section \<open>The pointers of an inode\<close>

text \<open>
  \<open>Top i\<close> is \<open>addrs[i]\<close>, \<open>Ind j\<close> an entry of the indirect block, \<open>Dbl j\<close> an entry of the doubly
  indirect block and \<open>Leaf j k\<close> an entry of the block to which \<open>Dbl j\<close> points.
\<close>

datatype slot = Top nat | Ind nat | Dbl nat | Leaf nat nat

fun good :: "slot \<Rightarrow> bool" where
  "good (Top i) \<longleftrightarrow> i < 13"
| "good (Ind j) \<longleftrightarrow> j < 128"
| "good (Dbl j) \<longleftrightarrow> j < 128"
| "good (Leaf j k) \<longleftrightarrow> j < 128 \<and> k < 128"

text \<open>The pointer to the block that holds a pointer, and its index there.\<close>

fun parent :: "slot \<Rightarrow> slot option" where
  "parent (Top i) = None"
| "parent (Ind j) = Some (Top 11)"
| "parent (Dbl j) = Some (Top 12)"
| "parent (Leaf j k) = Some (Dbl j)"

fun idx :: "slot \<Rightarrow> nat" where
  "idx (Top i) = i"
| "idx (Ind j) = j"
| "idx (Dbl j) = j"
| "idx (Leaf j k) = k"

definition addrs :: "fs \<Rightarrow> nat \<Rightarrow> nat \<Rightarrow> u32" where
  "addrs s ip i = d_addrs (i_node (icache s ip)) i"

definition word_at :: "fs \<Rightarrow> u32 \<Rightarrow> nat \<Rightarrow> u32" where
  "word_at s a j = (if a = 0 then 0 else load32 (disk s a) (4 * j))"

fun ptr :: "fs \<Rightarrow> nat \<Rightarrow> slot \<Rightarrow> u32" where
  "ptr s ip (Top i) = addrs s ip i"
| "ptr s ip (Ind j) = word_at s (addrs s ip 11) j"
| "ptr s ip (Dbl j) = word_at s (addrs s ip 12) j"
| "ptr s ip (Leaf j k) = word_at s (word_at s (addrs s ip 12) j) k"

lemma ptr_parent: "parent L = Some P \<Longrightarrow> ptr s ip L = word_at s (ptr s ip P) (idx L)"
  by (cases L) auto

lemma good_parent: "good L \<Longrightarrow> parent L = Some P \<Longrightarrow> good P"
  by (cases L) auto

lemma good_idx: "good L \<Longrightarrow> parent L = Some P \<Longrightarrow> idx L < 128"
  by (cases L) auto

lemma parent_idx_inj: "parent L = Some P \<Longrightarrow> parent L' = Some P \<Longrightarrow> idx L = idx L' \<Longrightarrow> L = L'"
  by (cases L; cases L') auto

lemma parent_irrefl: "parent L \<noteq> Some L"
  by (cases L) auto

lemma slot_induct [case_names top below]:
  assumes "\<And>i. Q (Top i)" and "\<And>L P. parent L = Some P \<Longrightarrow> Q P \<Longrightarrow> Q L"
  shows "Q L"
proof -
  have d: "Q (Ind j)" "Q (Dbl j)" for j
    using assms(1) [of 11] assms(1) [of 12] assms(2) [of "Ind j"] assms(2) [of "Dbl j"] by auto
  show ?thesis using assms(1) d assms(2) [of L] by (cases L) auto
qed

text \<open>The pointer to the block \<open>bn\<close> of a file.\<close>

definition slot_of :: "nat \<Rightarrow> slot" where
  "slot_of bn = (if bn < 11 then Top bn else if bn < 139 then Ind (bn - 11)
     else Leaf ((bn - 139) div 128) ((bn - 139) mod 128))"

abbreviation (input) "FILE_BLOCKS \<equiv> (16523 :: nat)"

fun is_data :: "slot \<Rightarrow> bool" where
  "is_data (Top i) \<longleftrightarrow> i < 11"
| "is_data (Dbl j) \<longleftrightarrow> False"
| "is_data _ \<longleftrightarrow> True"

lemma slot_of_good: "bn < FILE_BLOCKS \<Longrightarrow> good (slot_of bn)"
  by (auto simp: slot_of_def less_mult_imp_div_less)

lemma slot_of_data: "is_data (slot_of bn)"
  by (simp add: slot_of_def)

lemma slot_of_inj: "slot_of bn = slot_of bm \<Longrightarrow> bn = bm"
  by (auto simp: slot_of_def split: if_splits) (metis diff_diff_cancel div_mult_mod_eq linorder_not_less diff_diff_left eq_diff_iff)

lemma parent_not_data: "parent L = Some P \<Longrightarrow> \<not> is_data P"
  by (cases L) auto

section \<open>A well-formed file\<close>

text \<open>A block that is marked as used and is no bitmap block.\<close>

definition reserved :: "fs \<Rightarrow> u32 \<Rightarrow> bool" where
  "reserved s a \<longleftrightarrow> unat a < n_blocks s \<and> used s (unat a) \<and> \<not> bitmap_block s a"

definition iblk :: "fs \<Rightarrow> nat \<Rightarrow> u32" where
  "iblk s ip = IBLOCK (unat (i_inum (icache s ip))) s"

definition file_ok :: "fs \<Rightarrow> nat \<Rightarrow> bool" where
  "file_ok s ip \<longleftrightarrow>
     (\<forall>L. good L \<longrightarrow> ptr s ip L \<noteq> 0 \<longrightarrow> reserved s (ptr s ip L)) \<and>
     (\<forall>L L'. good L \<longrightarrow> good L' \<longrightarrow> ptr s ip L \<noteq> 0 \<longrightarrow> ptr s ip L = ptr s ip L' \<longrightarrow> L = L') \<and>
     reserved s (iblk s ip) \<and> (\<forall>L. good L \<longrightarrow> ptr s ip L \<noteq> iblk s ip)"

lemma file_okD:
  assumes "file_ok s ip" "good L"
  shows "ptr s ip L \<noteq> 0 \<Longrightarrow> reserved s (ptr s ip L)"
    and "good L' \<Longrightarrow> ptr s ip L \<noteq> 0 \<Longrightarrow> ptr s ip L = ptr s ip L' \<Longrightarrow> L = L'"
    and "ptr s ip L \<noteq> iblk s ip" and "reserved s (iblk s ip)"
  using assms by (auto simp: file_ok_def)

text \<open>The file as bytes; a block that is not allocated reads as zeros.\<close>

definition fbyte :: "fs \<Rightarrow> nat \<Rightarrow> nat \<Rightarrow> u8" where
  "fbyte s ip k =
     (let a = ptr s ip (slot_of (k div 512)) in if a = 0 then 0 else disk s a (k mod 512))"

section \<open>Filling an empty pointer\<close>

text \<open>\<open>u\<close> is \<open>s\<close> with the fresh block \<open>x\<close> in the empty pointer \<open>L\<close>.\<close>

definition assigned :: "fs \<Rightarrow> nat \<Rightarrow> slot \<Rightarrow> u32 \<Rightarrow> fs \<Rightarrow> bool" where
  "assigned s ip L x u \<longleftrightarrow>
     sb u = sb s \<and> held u = held s \<and>
     icache u = icache (case L of Top i \<Rightarrow> upd_node ip (\<lambda>d. d\<lparr>d_addrs := (d_addrs d)(i := x)\<rparr>) s | _ \<Rightarrow> s) \<and>
     unat x < n_blocks s \<and> \<not> used s (unat x) \<and>
     (\<forall>m < n_blocks s. used u m \<longleftrightarrow> used s m \<or> m = unat x) \<and>
     disk u x = memmove (disk s x) 0 (\<lambda>_. 0) 0 512 \<and>
     (\<forall>a. reserved s a \<longrightarrow> disk u a =
        (case parent L of None \<Rightarrow> disk s a
         | Some P \<Rightarrow> if a = ptr s ip P then store32 (disk s a) (4 * idx L) x else disk s a))"

lemma assignedD:
  assumes "assigned s ip L x u"
  shows "sb u = sb s" "held u = held s" "unat x < n_blocks s" "\<not> used s (unat x)"
    and "m < n_blocks s \<Longrightarrow> used u m \<longleftrightarrow> used s m \<or> m = unat x"
    and "disk u x = memmove (disk s x) 0 (\<lambda>_. 0) 0 512"
    and "reserved s a \<Longrightarrow> disk u a = (case parent L of None \<Rightarrow> disk s a
         | Some P \<Rightarrow> if a = ptr s ip P then store32 (disk s a) (4 * idx L) x else disk s a)"
    and "icache u = icache (case L of Top i \<Rightarrow> upd_node ip (\<lambda>d. d\<lparr>d_addrs := (d_addrs d)(i := x)\<rparr>) s | _ \<Rightarrow> s)"
  using assms unfolding assigned_def by blast+

lemma reserved_cong:
  "sb u = sb s \<Longrightarrow> (\<And>m. m < n_blocks s \<Longrightarrow> used s m \<Longrightarrow> used u m) \<Longrightarrow> reserved s a \<Longrightarrow> reserved u a"
  using bitmap_block_cong [of u s] by (auto simp: reserved_def n_blocks_def)

lemma assigned_addrs:
  "assigned s ip L x u \<Longrightarrow> addrs u ip i = (if L = Top i then x else addrs s ip i)"
  by (cases L) (auto simp: assigned_def addrs_def upd_node_def upd_inode_def)

lemma fresh:
  assumes "bitmap_ok s" "assigned s ip L x u"
  shows "x \<noteq> 0" and "reserved s a \<Longrightarrow> a \<noteq> x"
  using assignedD(4) [OF assms(2)] assms(1) by (auto simp: bitmap_ok_def reserved_def)

text \<open>The hypotheses of an allocation for the pointer \<open>L\<close>.\<close>

definition fillable :: "fs \<Rightarrow> nat \<Rightarrow> slot \<Rightarrow> bool" where
  "fillable s ip L \<longleftrightarrow> file_ok s ip \<and> bitmap_ok s \<and> good L \<and> ptr s ip L = 0 \<and>
     (\<forall>P. parent L = Some P \<longrightarrow> ptr s ip P \<noteq> 0)"

lemma ptr_assigned:
  assumes fi: "fillable s ip L" and as: "assigned s ip L x u"
  shows "good L' \<Longrightarrow> ptr u ip L' = (if L' = L then x else ptr s ip L')"
proof (induction L' rule: slot_induct)
  case (top i)
  then show ?case using assigned_addrs [OF as] by auto
next
  case (below L' P')
  have fo: "file_ok s ip" and gL: "good L" and empty: "ptr s ip L = 0"
    and par: "\<And>P. parent L = Some P \<Longrightarrow> ptr s ip P \<noteq> 0"
    using fi by (auto simp: fillable_def)
  let ?a = "ptr s ip P'"
  have gP: "good P'" using below.hyps(1) below.prems by (rule good_parent [rotated])
  note IH = below.IH [OF gP]
  note pu = ptr_parent [OF below.hyps(1), of u ip] and ps = ptr_parent [OF below.hyps(1), of s ip]
  have i: "idx L' < 128" using below.prems below.hyps(1) by (rule good_idx)
  show ?case
  proof (cases "P' = L")
    case True
    have "load32 (disk u x) (4 * idx L') = 0"
      using i by (simp add: assignedD(6) [OF as] load_zero)
    moreover have "L' \<noteq> L" using True below.hyps(1) parent_irrefl by auto
    ultimately show ?thesis using True IH pu ps empty by (simp add: word_at_def)
  next
    case False
    show ?thesis
    proof (cases "?a = 0")
      case True
      then have "L' \<noteq> L" using par below.hyps(1) by auto
      with True False IH pu ps show ?thesis by (simp add: word_at_def)
    next
      case a: False
      have r: "reserved s ?a" using fo gP a by (rule file_okD(1))
      have "load32 (disk u ?a) (4 * idx L') = (if L' = L then x else load32 (disk s ?a) (4 * idx L'))"
      proof (cases "parent L")
        case None
        then have "L' \<noteq> L" using below.hyps(1) by auto
        then show ?thesis using assignedD(7) [OF as r] None by simp
      next
        case (Some P)
        have "good P" using gL Some by (rule good_parent)
        then have "?a = ptr s ip P \<longleftrightarrow> P' = P" using file_okD(2) [OF fo gP _ a] by auto
        moreover have "P' = P \<Longrightarrow> idx L = idx L' \<longleftrightarrow> L' = L"
          using parent_idx_inj [OF Some, of L'] below.hyps(1) by auto
        moreover have "L' = L \<Longrightarrow> P' = P" using Some below.hyps(1) by simp
        ultimately show ?thesis using assignedD(7) [OF as r] Some by (auto simp: load_store_word)
      qed
      then show ?thesis using a False IH pu ps by (simp add: word_at_def)
    qed
  qed
qed

lemma assigned_bitmap:
  assumes bo: "bitmap_ok s" and as: "assigned s ip L x u"
  shows "bitmap_ok u"
proof -
  note [simp] = assignedD(1) [OF as]
  have nb: "n_blocks u = n_blocks s" by (simp add: n_blocks_def)
  have bb: "BBLOCK n u = BBLOCK n s" for n by (simp add: BBLOCK_def)
  have "0 < n_blocks s" using assignedD(3) [OF as] by simp
  then have "used u 0" using bo assignedD(5) [OF as] by (simp add: bitmap_ok_def)
  moreover have "used u (unat (BBLOCK n u))" if "n < n_blocks s" for n
    using bo that assignedD(5) [OF as] by (simp add: bitmap_ok_def bb)
  ultimately show ?thesis using bo by (simp add: bitmap_ok_def bb nb)
qed

lemma assigned_iblk: "assigned s ip L x u \<Longrightarrow> iblk u ip = iblk s ip"
  by (cases L) (auto simp: assigned_def iblk_def IBLOCK_def upd_node_def upd_inode_def)

lemma assigned_reserved:
  assumes as: "assigned s ip L x u" and r: "reserved s a"
  shows "reserved u a"
  by (rule reserved_cong [OF assignedD(1) [OF as] _ r]) (simp add: assignedD(5) [OF as])

lemma not_bitmap_fresh:
  assumes "bitmap_ok s" "\<not> used s (unat x)" shows "\<not> bitmap_block s x"
  using assms unfolding bitmap_block_def bitmap_ok_def by blast

lemma assigned_reserved_new:
  assumes bo: "bitmap_ok s" and as: "assigned s ip L x u"
  shows "reserved u x"
proof -
  have "\<not> bitmap_block u x"
    using not_bitmap_fresh [OF bo assignedD(4) [OF as]] bitmap_block_cong [OF assignedD(1) [OF as]] by simp
  moreover have "n_blocks u = n_blocks s" using assignedD(1) [OF as] by (simp add: n_blocks_def)
  moreover have "used u (unat x)" using assignedD(3) [OF as] assignedD(5) [OF as, of "unat x"] by simp
  ultimately show ?thesis using assignedD(3) [OF as] by (simp add: reserved_def)
qed

lemma assigned_file_ok:
  assumes fi: "fillable s ip L" and as: "assigned s ip L x u"
  shows "file_ok u ip"
proof -
  have fo: "file_ok s ip" and bo: "bitmap_ok s" using fi by (auto simp: fillable_def)
  note p = ptr_assigned [OF fi as]
  have fr: "ptr s ip M \<noteq> 0 \<Longrightarrow> good M \<Longrightarrow> ptr s ip M \<noteq> x" for M
    using fresh(2) [OF bo as] file_okD(1) [OF fo] by blast
  have i: "reserved s (iblk s ip)" using fo by (simp add: file_ok_def)
  have "reserved u (ptr u ip M)" if "good M" "ptr u ip M \<noteq> 0" for M
    using that p [of M] file_okD(1) [OF fo that(1)] assigned_reserved [OF as]
      assigned_reserved_new [OF bo as] by (cases "M = L") auto
  moreover have "M = N" if "good M" "good N" "ptr u ip M \<noteq> 0" "ptr u ip M = ptr u ip N" for M N
  proof -
    have "x \<noteq> 0" using fresh(1) [OF bo as] .
    then have "M = L \<longleftrightarrow> N = L" using that p [OF that(1)] p [OF that(2)] fr by metis
    then show ?thesis using that p [OF that(1)] p [OF that(2)] file_okD(2) [OF fo that(1,2)] by metis
  qed
  moreover have "ptr u ip M \<noteq> iblk s ip" if "good M" for M
    using p [OF that] file_okD(3) [OF fo that] fresh(2) [OF bo as i] by (cases "M = L") auto
  ultimately show ?thesis
    using assigned_reserved [OF as i] by (auto simp: file_ok_def assigned_iblk [OF as])
qed

lemma block_of_byte: "k < FILE_BLOCKS * 512 \<Longrightarrow> good (slot_of (k div 512))"
  by (rule slot_of_good) (rule less_mult_imp_div_less)

text \<open>A reserved block keeps its bytes unless it is the block that holds the pointer.\<close>

lemma assigned_disk:
  assumes "assigned s ip L x u" "reserved s a" "\<And>P. parent L = Some P \<Longrightarrow> a \<noteq> ptr s ip P"
  shows "disk u a = disk s a"
  using assignedD(7) [OF assms(1,2)] assms(3) by (auto split: option.splits)

lemma assigned_fbyte:
  assumes fi: "fillable s ip L" and as: "assigned s ip L x u" and k: "k < FILE_BLOCKS * 512"
  shows "fbyte u ip k = fbyte s ip k"
proof -
  let ?M = "slot_of (k div 512)"
  have fo: "file_ok s ip" and bo: "bitmap_ok s" and gL: "good L" and e: "ptr s ip L = 0"
    using fi by (auto simp: fillable_def)
  have g: "good ?M" using k by (rule block_of_byte)
  note p = ptr_assigned [OF fi as g]
  show ?thesis
  proof (cases "?M = L")
    case True
    then show ?thesis using p e fresh(1) [OF bo as] assignedD(6) [OF as]
      by (simp add: fbyte_def memmove_def)
  next
    case False
    show ?thesis
    proof (cases "ptr s ip ?M = 0")
      case True
      then show ?thesis using False p by (simp add: fbyte_def)
    next
      case nz: False
      have "ptr s ip ?M \<noteq> ptr s ip P" if P: "parent L = Some P" for P
      proof
        assume "ptr s ip ?M = ptr s ip P"
        then have "?M = P" using file_okD(2) [OF fo g good_parent [OF gL P] nz] by blast
        then show False using parent_not_data [OF P] slot_of_data [of "k div 512"] by metis
      qed
      then have "disk u (ptr s ip ?M) = disk s (ptr s ip ?M)"
        using file_okD(1) [OF fo g nz] by (intro assigned_disk [OF as])
      then show ?thesis using False p by (simp add: fbyte_def Let_def)
    qed
  qed
qed

text \<open>The blocks that are free, and those of a file.\<close>

definition free :: "fs \<Rightarrow> nat set" where
  "free s = {n. n < n_blocks s \<and> \<not> used s n}"

lemma finite_free [simp]: "finite (free s)"
  by (simp add: free_def)

lemma assigned_free:
  assumes as: "assigned s ip L x u"
  shows "free u = free s - {unat x}" "unat x \<in> free s"
proof -
  have "n_blocks u = n_blocks s" using assignedD(1) [OF as] by (simp add: n_blocks_def)
  then show "free u = free s - {unat x}" using assignedD(5) [OF as] by (auto simp: free_def)
  show "unat x \<in> free s" using assignedD(3,4) [OF as] by (simp add: free_def)
qed

lemma assigned_card:
  assumes "assigned s ip L x u"
  shows "card (free s) = Suc (card (free u))"
  using assigned_free [OF assms] by (metis card.remove finite_free)

section \<open>Growing a file\<close>

text \<open>
  \<open>t\<close> is \<open>s\<close> with the bytes \<open>F\<close> in the file and perhaps more blocks: the old pointers are the same,
  the new blocks were free, and a block of something else keeps its bytes.
\<close>

definition updated :: "fs \<Rightarrow> nat \<Rightarrow> (nat \<Rightarrow> u8) \<Rightarrow> fs \<Rightarrow> bool" where
  "updated s ip F t \<longleftrightarrow>
     sb t = sb s \<and> held t = held s \<and>
     (\<exists>A. icache t = icache (upd_node ip (\<lambda>d. d\<lparr>d_addrs := A\<rparr>) s)) \<and>
     (\<forall>L. good L \<longrightarrow> ptr s ip L \<noteq> 0 \<longrightarrow> ptr t ip L = ptr s ip L) \<and>
     (\<forall>L. good L \<longrightarrow> ptr s ip L = 0 \<longrightarrow> ptr t ip L = 0 \<or> \<not> used s (unat (ptr t ip L))) \<and>
     (\<forall>m < n_blocks s. used s m \<longrightarrow> used t m) \<and>
     (\<forall>a. reserved s a \<longrightarrow> (\<forall>L. good L \<longrightarrow> ptr s ip L \<noteq> a) \<longrightarrow> disk t a = disk s a) \<and>
     (\<forall>k < FILE_BLOCKS * 512. fbyte t ip k = F k) \<and>
     file_ok t ip \<and> bitmap_ok t"

lemma updatedD:
  assumes "updated s ip F t"
  shows "sb t = sb s" "held t = held s"
    and "\<exists>A. icache t = icache (upd_node ip (\<lambda>d. d\<lparr>d_addrs := A\<rparr>) s)"
    and "good L \<Longrightarrow> ptr s ip L \<noteq> 0 \<Longrightarrow> ptr t ip L = ptr s ip L"
    and "good L \<Longrightarrow> ptr s ip L = 0 \<Longrightarrow> ptr t ip L = 0 \<or> \<not> used s (unat (ptr t ip L))"
    and "m < n_blocks s \<Longrightarrow> used s m \<Longrightarrow> used t m"
    and "reserved s a \<Longrightarrow> (\<And>L. good L \<Longrightarrow> ptr s ip L \<noteq> a) \<Longrightarrow> disk t a = disk s a"
    and "k < FILE_BLOCKS * 512 \<Longrightarrow> fbyte t ip k = F k"
    and "file_ok t ip" "bitmap_ok t"
  using assms unfolding updated_def by blast+

text \<open>More blocks and the same bytes.\<close>

abbreviation grown :: "fs \<Rightarrow> nat \<Rightarrow> fs \<Rightarrow> bool" where
  "grown s ip t \<equiv> updated s ip (fbyte s ip) t"

lemma updated_bytes:
  "updated s ip F t \<Longrightarrow> (\<And>k. k < FILE_BLOCKS * 512 \<Longrightarrow> F k = G k) \<Longrightarrow> updated s ip G t"
  unfolding updated_def by simp

lemma grown_refl: "file_ok s ip \<Longrightarrow> bitmap_ok s \<Longrightarrow> grown s ip s"
  unfolding updated_def
  by (auto intro!: exI [of _ "d_addrs (i_node (icache s ip))"] simp: upd_node_def upd_inode_def)

lemma updated_reserved: "updated s ip F t \<Longrightarrow> reserved s a \<Longrightarrow> reserved t a"
  using reserved_cong updatedD(1,6) by blast

lemma updated_trans:
  assumes st: "updated s ip F t" and tu: "updated t ip G u"
  shows "updated s ip G u"
proof -
  note S = updatedD [OF st] and T = updatedD [OF tu]
  have n: "n_blocks t = n_blocks s" by (simp add: n_blocks_def S(1))
  obtain A where A: "icache t = icache (upd_node ip (\<lambda>d. d\<lparr>d_addrs := A\<rparr>) s)" using S(3) by blast
  obtain B where B: "icache u = icache (upd_node ip (\<lambda>d. d\<lparr>d_addrs := B\<rparr>) t)" using T(3) by blast
  have c: "icache u = icache (upd_node ip (\<lambda>d. d\<lparr>d_addrs := B\<rparr>) s)"
    using A B by (auto simp: upd_node_def upd_inode_def)
  have d: "disk u a = disk s a" if r: "reserved s a" and o: "\<And>L. good L \<Longrightarrow> ptr s ip L \<noteq> a" for a
  proof -
    have "ptr t ip L \<noteq> a" if g: "good L" for L
      using S(4) [OF g] S(5) [OF g] o [OF g] r unfolding reserved_def by (cases "ptr s ip L = 0") (auto dest: o)
    then show ?thesis using T(7) [OF updated_reserved [OF st r]] S(7) [OF r o] by metis
  qed
  have p: "ptr u ip L = 0 \<or> \<not> used s (unat (ptr u ip L))" if g: "good L" "ptr s ip L = 0" for L
  proof (cases "ptr t ip L = 0")
    case True
    have "unat (ptr u ip L) < n_blocks s" if "ptr u ip L \<noteq> 0"
      using file_okD(1) [OF T(9) g(1) that] T(1) S(1) by (simp add: reserved_def n_blocks_def)
    then show ?thesis using T(5) [OF g(1) True] S(6) by blast
  next
    case False
    then show ?thesis using T(4) [OF g(1)] S(5) [OF g] by simp
  qed
  have q: "ptr u ip L = ptr s ip L" if "good L" "ptr s ip L \<noteq> 0" for L
    using S(4) [OF that] T(4) [of L] that by simp
  have m: "used u m" if "m < n_blocks s" "used s m" for m
    using S(6) [OF that] T(6) [of m] that n by simp
  have "sb u = sb s" "held u = held s" using S(1,2) T(1,2) by simp_all
  then show ?thesis unfolding updated_def using c d p q T(8) m T(9,10) by blast
qed

lemma grown_trans:
  assumes "grown s ip t" "grown t ip u" shows "grown s ip u"
  using updated_trans [OF assms] updatedD(8) [OF assms(1)] by (rule updated_bytes) simp

lemma assigned_grown:
  assumes fi: "fillable s ip L" and as: "assigned s ip L x u"
  shows "grown s ip u"
proof -
  have bo: "bitmap_ok s" and gL: "good L" and e: "ptr s ip L = 0" using fi by (auto simp: fillable_def)
  note p = ptr_assigned [OF fi as]
  have "\<exists>A. icache u = icache (upd_node ip (\<lambda>d. d\<lparr>d_addrs := A\<rparr>) s)"
  proof (cases L)
    case (Top i)
    then show ?thesis using assignedD(8) [OF as]
      by (auto intro!: exI [of _ "(d_addrs (i_node (icache s ip)))(i := x)"] simp: upd_node_def upd_inode_def)
  qed (use assignedD(8) [OF as] in \<open>auto intro!: exI [of _ "d_addrs (i_node (icache s ip))"]
    simp: upd_node_def upd_inode_def\<close>)
  moreover have "disk u a = disk s a" if "reserved s a" "\<And>M. good M \<Longrightarrow> ptr s ip M \<noteq> a" for a
    using that good_parent [OF gL] by (intro assigned_disk [OF as]) auto
  moreover have "ptr u ip M = ptr s ip M" if "good M" "ptr s ip M \<noteq> 0" for M
    using p [OF that(1)] that(2) e by auto
  moreover have "ptr u ip M = 0 \<or> \<not> used s (unat (ptr u ip M))" if "good M" "ptr s ip M = 0" for M
    using p [OF that(1)] that(2) assignedD(4) [OF as] by auto
  moreover have "used u m" if "m < n_blocks s" "used s m" for m
    using assignedD(5) [OF as that(1)] that(2) by simp
  ultimately show ?thesis unfolding updated_def
    using assignedD(1,2) [OF as] assigned_fbyte [OF fi as] assigned_file_ok [OF fi as]
      assigned_bitmap [OF bo as] by blast
qed

end
