(* ===== verification/FsBmap.thy ===== *)
theory FsBmap
  imports FsFile
begin

text \<open>
  \<open>bmap\<close> gives every block of a file an address: it fills the empty pointers on the way to the
  block and changes nothing else of the file. \<open>bmap2\<close> finds the same address and fills nothing.
\<close>

section \<open>One pointer\<close>

lemma free_least:
  assumes "free s \<noteq> {}"
  obtains n where "n < n_blocks s" "\<not> used s n" "\<And>m. m < n \<Longrightarrow> used s m"
proof -
  from assms obtain n where "n \<in> free s" and l: "\<And>m. m < n \<Longrightarrow> m \<notin> free s"
    using exists_least_iff [of "\<lambda>n. n \<in> free s"] by blast
  then have n: "n < n_blocks s" "\<not> used s n" by (simp_all add: free_def)
  have "used s m" if "m < n" for m using l [OF that] n(1) that by (simp add: free_def)
  with n that show thesis by blast
qed

lemma balloc_any:
  assumes "bitmap_ok s" "held_ok s" "free s \<noteq> {}" and rm: "room s A (Suc k)" "bitmap s \<subseteq> A"
  obtains n t where "balloc s = Some (word_of_nat n, t)" "allocated s n t" "unat (word_of_nat n :: u32) = n"
    "room t (insert (word_of_nat n) A) k"
proof -
  obtain n where n: "n < n_blocks s" "\<not> used s n" "\<And>m. m < n \<Longrightarrow> used s m"
    using assms(3) by (rule free_least) blast
  from balloc_ok [OF assms(1,2) n rm] unat_block(1) [OF n(1)] that show thesis by blast
qed

lemma allocatedD:
  assumes "allocated s n t"
  shows "n < n_blocks s" "\<not> used s n" "sb t = sb s" "held t = held s" "icache t = icache s"
    and "disk t (word_of_nat n) = memmove (disk s (word_of_nat n)) 0 (\<lambda>_. 0) 0 512"
    and "a \<noteq> word_of_nat n \<Longrightarrow> \<not> bitmap_block s a \<Longrightarrow> disk t a = disk s a"
    and "m < n_blocks s \<Longrightarrow> used t m \<longleftrightarrow> used s m \<or> m = n"
  using assms unfolding allocated_def by blast+

lemma used_upd: "used (upd_node ip f s) = used s"
  by (simp add: used_def fun_eq_iff upd_node_def upd_inode_def BBLOCK_def)

lemma inode_entry_new:
  assumes fi: "fillable s ip (Top i)" and hd: "held_ok s" and fr: "free s \<noteq> {}"
    and rm: "room s A (Suc k)" "bitmap s \<subseteq> A"
  shows "\<exists>x u. inode_entry ip i s = Some (x, u) \<and> assigned s ip (Top i) x u \<and> room u (insert x A) k"
proof -
  have bo: "bitmap_ok s" and z: "d_addrs (i_node (icache s ip)) i = 0"
    using fi by (auto simp: fillable_def addrs_def)
  obtain n t where b: "balloc s = Some (word_of_nat n, t)" and al: "allocated s n t"
    and n: "unat (word_of_nat n :: u32) = n" and rt: "room t (insert (word_of_nat n) A) k"
    using balloc_any [OF bo hd fr rm] by blast
  let ?u = "upd_node ip (\<lambda>d. d\<lparr>d_addrs := (d_addrs d)(i := word_of_nat n)\<rparr>) t"
  note A = allocatedD [OF al]
  have u: "sb ?u = sb t" "held ?u = held t" "disk ?u = disk t" by (simp_all add: upd_node_def upd_inode_def)
  have c: "icache ?u = icache (upd_node ip (\<lambda>d. d\<lparr>d_addrs := (d_addrs d)(i := word_of_nat n)\<rparr>) s)"
    by (simp add: upd_node_def upd_inode_def A(5))
  have "disk t a = disk s a" if "reserved s a" for a
  proof -
    have "a \<noteq> word_of_nat n" using that A(2) n by (auto simp: reserved_def)
    then show ?thesis using A(7) that by (simp add: reserved_def)
  qed
  moreover have "used ?u m \<longleftrightarrow> used s m \<or> m = n" if "m < n_blocks s" for m
    using A(8) [OF that] by (simp add: used_upd)
  ultimately have "assigned s ip (Top i) (word_of_nat n) ?u"
    unfolding assigned_def using A(1,2,3,4,6) n u c by simp
  moreover have "inode_entry ip i s = Some (word_of_nat n, ?u)"
    using z b by (simp add: inode_entry_def)
  moreover have "room ?u (insert (word_of_nat n) A) k"
    using rt by (simp add: room_def upd_node_def upd_inode_def)
  ultimately show ?thesis by blast
qed

lemma block_entry_old:
  assumes "blk \<notin> held s" "load32 (disk s blk) (4 * i) \<noteq> 0"
  shows "block_entry blk i s = Some (load32 (disk s blk) (4 * i), s)"
  using assms by (simp add: block_entry_def bread_def brelse_def)

lemma block_entry_new:
  assumes fi: "fillable s ip L" and hd: "held_ok s" and fr: "free s \<noteq> {}"
    and P: "parent L = Some P" and nh: "ptr s ip P \<notin> held s"
    and rm: "room s A (Suc k)" "bitmap s \<subseteq> A" "ptr s ip P \<in> A"
  shows "\<exists>x u. block_entry (ptr s ip P) (idx L) s = Some (x, u) \<and> assigned s ip L x u \<and> room u (insert x A) k"
proof -
  define c where "c = ptr s ip P"
  have fo: "file_ok s ip" and bo: "bitmap_ok s" and gL: "good L" and cz: "c \<noteq> 0"
    using fi P by (auto simp: fillable_def c_def)
  have z: "load32 (disk s c) (4 * idx L) = 0"
    using fi ptr_parent [OF P, of s ip] cz by (simp add: fillable_def word_at_def c_def)
  have rc: "reserved s c" using file_okD(1) [OF fo good_parent [OF gL P]] cz by (simp add: c_def)
  define s1 where "s1 = s\<lparr>held := insert c (held s)\<rparr>"
  have us: "used s1 = used s" and bb: "bitmap_block s1 = bitmap_block s" and nb: "n_blocks s1 = n_blocks s"
    by (auto simp: fun_eq_iff used_def s1_def BBLOCK_def bitmap_block_def n_blocks_def)
  have "held s1 = insert c (held s)" by (simp add: s1_def)
  then have "held_ok s1" using hd rc by (auto simp: held_ok_def us bb reserved_def)
  moreover have "bitmap_ok s1" using bo by (auto simp: bitmap_ok_def us nb) (simp_all add: BBLOCK_def s1_def)
  moreover have "free s1 \<noteq> {}" using fr by (simp add: free_def us nb)
  moreover have "room s1 A (Suc k)" "bitmap s1 \<subseteq> A" using rm(1,2) by (simp_all add: room_def s1_def bb [unfolded s1_def])
  ultimately obtain n t where b: "balloc s1 = Some (word_of_nat n, t)" and al: "allocated s1 n t"
    and n: "unat (word_of_nat n :: u32) = n" and rt: "room t (insert (word_of_nat n) A) k"
    using balloc_any by blast
  define x where "x = (word_of_nat n :: u32)"
  note A = allocatedD [OF al, unfolded us bb nb, folded x_def]
  have cx: "c \<noteq> x" using rc A(2) n by (auto simp: reserved_def x_def)
  define w where "w = put_log c (store32 (disk s c) (4 * idx L) x) t"
  define u where "u = w\<lparr>held := held s\<rparr>"
  have cA: "c \<in> insert x A" using rm(3) by (simp add: c_def)
  note lw = log_write_room [OF rt [folded x_def] cA, of "store32 (disk s c) (4 * idx L) x", folded w_def]
  have ru: "room u (insert x A) k" using lw(2) by (simp add: u_def room_def)
  have hu: "held t - {c} = held s" using nh A(4) by (auto simp: s1_def c_def)
  have e: "block_entry c (idx L) s = Some (x, u)"
    using z b nh A(4) hu lw(1) by (simp add: block_entry_def bread_def brelse_def Let_def
      u_def w_def flip: c_def s1_def x_def) (simp add: s1_def put_log_def)
  have "used u m \<longleftrightarrow> used s m \<or> m = n" if m: "m < n_blocks s" for m
  proof -
    have "BBLOCK m t = BBLOCK m s" using A(3) by (simp add: BBLOCK_def s1_def)
    then have "BBLOCK m t \<noteq> c" using rc m by (auto simp: reserved_def)
    then have "used u m = used t m" by (intro used_cong) (simp_all add: u_def w_def)
    then show ?thesis using A(8) [OF m] by simp
  qed
  moreover have "disk u a = (if a = c then store32 (disk s a) (4 * idx L) x else disk s a)"
    if "reserved s a" for a
  proof -
    have "a \<noteq> x" using that A(2) n by (auto simp: reserved_def x_def)
    then show ?thesis using A(7) that by (simp add: reserved_def u_def w_def s1_def)
  qed
  moreover have "disk u x = memmove (disk s x) 0 (\<lambda>_. 0) 0 512" using cx A(6) by (simp add: u_def w_def s1_def)
  moreover have "\<And>i. L \<noteq> Top i" using P by auto
  then have "(case L of Top i \<Rightarrow> upd_node ip (\<lambda>d. d\<lparr>d_addrs := (d_addrs d)(i := x)\<rparr>) s | _ \<Rightarrow> s) = s"
    by (cases L) auto
  moreover have "icache u = icache s" "sb u = sb s" "held u = held s"
    using A(3,5) by (simp_all add: u_def w_def s1_def)
  ultimately have "assigned s ip L x u"
    unfolding assigned_def P using A(1,2) n by (simp add: x_def flip: c_def)
  then show ?thesis using e ru by (auto simp: c_def)
qed

text \<open>The entry of a pointer, as the code reaches it.\<close>

definition entry :: "nat \<Rightarrow> slot \<Rightarrow> fs \<Rightarrow> (u32 \<times> fs) option" where
  "entry ip L s = (case parent L of None \<Rightarrow> inode_entry ip (idx L) s
     | Some P \<Rightarrow> block_entry (ptr s ip P) (idx L) s)"

definition ready :: "fs \<Rightarrow> nat \<Rightarrow> bool" where
  "ready s ip \<longleftrightarrow> file_ok s ip \<and> bitmap_ok s \<and> held s = {}"

lemma updated_ready: "ready s ip \<Longrightarrow> updated s ip F t \<Longrightarrow> ready t ip"
  using updatedD(2,9,10) by (simp add: ready_def)

definition lacks :: "fs \<Rightarrow> nat \<Rightarrow> slot \<Rightarrow> nat" where
  "lacks s ip L = (if ptr s ip L = 0 then 1 else 0)"

lemma entry_ok:
  assumes rd: "ready s ip" and gL: "good L" and par: "\<And>P. parent L = Some P \<Longrightarrow> ptr s ip P \<noteq> 0"
    and fr: "lacks s ip L \<le> card (free s)"
    and rm: "0 < lacks s ip L \<longrightarrow> room s A (Suc k)" "bitmap s \<subseteq> A" "\<And>P. parent L = Some P \<Longrightarrow> ptr s ip P \<in> A"
  obtains a u where "entry ip L s = Some (a, u)" "a = ptr u ip L" "a \<noteq> 0" "grown s ip u"
    "card (free s) = card (free u) + lacks s ip L" "lacks s ip L = 0 \<Longrightarrow> u = s"
    "\<And>M. good M \<Longrightarrow> M \<noteq> L \<Longrightarrow> ptr u ip M = ptr s ip M" "room s A (Suc k) \<Longrightarrow> room u (insert a A) k"
proof (cases "ptr s ip L = 0")
  case True
  have ho: "held_ok s" and nh: "\<And>a. a \<notin> held s" using rd by (simp_all add: ready_def held_ok_def)
  have fi: "fillable s ip L" using rd gL par True by (simp add: ready_def fillable_def)
  have fe: "free s \<noteq> {}" using fr True by (auto simp: lacks_def)
  have rs: "room s A (Suc k)" using rm(1) True by (simp add: lacks_def)
  have "\<exists>x u. entry ip L s = Some (x, u) \<and> assigned s ip L x u \<and> room u (insert x A) k"
  proof (cases "parent L")
    case None
    then obtain i where "L = Top i" by (cases L) auto
    then show ?thesis using inode_entry_new [OF _ ho fe rs rm(2), of ip i] fi by (simp add: entry_def)
  next
    case (Some P)
    then show ?thesis using block_entry_new [OF fi ho fe Some nh rs rm(2) rm(3) [OF Some]] by (simp add: entry_def)
  qed
  then obtain x u where e: "entry ip L s = Some (x, u)" and as: "assigned s ip L x u" and ru: "room u (insert x A) k"
    by blast
  have bo: "bitmap_ok s" using rd by (simp add: ready_def)
  note p = ptr_assigned [OF fi as]
  show thesis
  proof (rule that [OF e])
    show "x = ptr u ip L" using p [OF gL] by simp
    show "x \<noteq> 0" using bo as by (rule fresh)
    show "grown s ip u" using fi as by (rule assigned_grown)
    show "card (free s) = card (free u) + lacks s ip L"
      using assigned_card [OF as] True by (simp add: lacks_def)
  qed (use True p ru in \<open>simp_all add: lacks_def\<close>)
next
  case False
  have nh: "\<And>a. a \<notin> held s" using rd by (simp add: ready_def)
  have "entry ip L s = Some (ptr s ip L, s)"
  proof (cases "parent L")
    case None
    then obtain i where "L = Top i" by (cases L) auto
    then show ?thesis using False by (simp add: entry_def inode_entry_def addrs_def)
  next
    case (Some P)
    have "ptr s ip L = load32 (disk s (ptr s ip P)) (4 * idx L)"
      using ptr_parent [OF Some, of s ip] par [OF Some] by (simp add: word_at_def)
    with block_entry_old [of "ptr s ip P" s "idx L"] False nh Some show ?thesis by (simp add: entry_def)
  qed
  moreover have "grown s ip s" using rd by (intro grown_refl) (simp_all add: ready_def)
  ultimately show thesis using False room_insert by (intro that) (simp_all add: lacks_def)
qed

section \<open>The block of a file\<close>

text \<open>The pointers on the way to a block, and how many of them are empty.\<close>

definition path :: "nat \<Rightarrow> slot list" where
  "path bn = (if bn < 11 then [Top bn] else if bn < 139 then [Top 11, Ind (bn - 11)]
     else [Top 12, Dbl ((bn - 139) div 128), Leaf ((bn - 139) div 128) ((bn - 139) mod 128)])"

definition missing :: "fs \<Rightarrow> nat \<Rightarrow> nat \<Rightarrow> nat" where
  "missing s ip bn = sum_list (map (lacks s ip) (path bn))"

lemma missing_le: "missing s ip bn \<le> 3"
  by (simp add: missing_def path_def lacks_def)

text \<open>What a call that looks for the block \<open>bn\<close> achieves.\<close>

definition mapped :: "fs \<Rightarrow> nat \<Rightarrow> slot \<Rightarrow> nat \<Rightarrow> u32 \<times> fs \<Rightarrow> bool" where
  "mapped s ip L m r \<longleftrightarrow> (case r of (a, t) \<Rightarrow>
     a = ptr t ip L \<and> a \<noteq> 0 \<and> grown s ip t \<and> card (free s) = card (free t) + m \<and>
     (m = 0 \<longrightarrow> t = s))"

lemma entry_mapped:
  assumes "ready s ip" "good L" "\<And>P. parent L = Some P \<Longrightarrow> ptr s ip P \<noteq> 0" "lacks s ip L \<le> card (free s)"
    and "0 < lacks s ip L \<longrightarrow> room s A (Suc k)" "bitmap s \<subseteq> A" "\<And>P. parent L = Some P \<Longrightarrow> ptr s ip P \<in> A"
  shows "\<exists>a u. entry ip L s = Some (a, u) \<and> mapped s ip L (lacks s ip L) (a, u) \<and>
    (\<forall>M. good M \<longrightarrow> M \<noteq> L \<longrightarrow> ptr u ip M = ptr s ip M) \<and> (room s A (Suc k) \<longrightarrow> room u (insert a A) k)"
  using assms by (rule entry_ok) (auto simp: mapped_def)

lemma mapped_trans:
  assumes "mapped s ip P m (a, t)" "mapped t ip L m' (b, u)"
  shows "mapped s ip L (m + m') (b, u)"
  using assms grown_trans [of s ip t u] unfolding mapped_def by auto

lemma mapped_ready: "ready s ip \<Longrightarrow> mapped s ip L m (a, t) \<Longrightarrow> ready t ip"
  using updated_ready by (auto simp: mapped_def)

lemma mapped_bitmap: "mapped s ip L m (a, t) \<Longrightarrow> bitmap t = bitmap s"
proof -
  assume "mapped s ip L m (a, t)"
  then have "grown s ip t" by (simp add: mapped_def)
  from bitmap_block_cong [OF updatedD(1) [OF this]] show ?thesis by simp
qed

text \<open>One more step down the tree.\<close>

lemma mapped_step:
  assumes rd: "ready s ip" and m: "mapped s ip P m (a, t)" and keep: "ptr t ip L = ptr s ip L"
    and P: "parent L = Some P" and gL: "good L" and fr: "m + lacks s ip L \<le> card (free s)"
    and rm: "0 < lacks s ip L \<longrightarrow> room t A (Suc k)" "bitmap s \<subseteq> A" "a \<in> A"
  shows "\<exists>b u. block_entry a (idx L) t = Some (b, u) \<and> mapped s ip L (m + lacks s ip L) (b, u) \<and>
    (\<forall>M. good M \<longrightarrow> M \<noteq> L \<longrightarrow> ptr u ip M = ptr t ip M) \<and> (room t A (Suc k) \<longrightarrow> room u (insert b A) k)"
proof -
  have a: "a = ptr t ip P" "a \<noteq> 0" "card (free s) = card (free t) + m"
    using m unfolding mapped_def prod.case by blast+
  have l: "lacks t ip L = lacks s ip L" using keep by (simp add: lacks_def)
  have pa: "ptr t ip Q \<noteq> 0" if "parent L = Some Q" for Q using that P a by simp
  have pA: "ptr t ip Q \<in> A" if "parent L = Some Q" for Q using that P a rm(3) by simp
  have fl: "lacks t ip L \<le> card (free t)" using fr a(3) l by simp
  have r1: "0 < lacks t ip L \<longrightarrow> room t A (Suc k)" using rm(1) l by simp
  have bt: "bitmap t \<subseteq> A" using rm(2) mapped_bitmap [OF m] by simp
  obtain b u where e: "entry ip L t = Some (b, u)" and n: "mapped t ip L (lacks t ip L) (b, u)"
    and o: "\<forall>M. good M \<longrightarrow> M \<noteq> L \<longrightarrow> ptr u ip M = ptr t ip M" and ru: "room t A (Suc k) \<longrightarrow> room u (insert b A) k"
    using entry_mapped [OF mapped_ready [OF rd m] gL pa fl r1 bt pA] by blast
  have "block_entry a (idx L) t = Some (b, u)" using e P a(1) by (simp add: entry_def)
  with mapped_trans [OF m n] l o ru show ?thesis by auto
qed

text \<open>The log needs room for the blocks on the way, at most three, and the bitmap.\<close>

lemma bmap_mapped:
  assumes rd: "ready s ip" and bn: "unat bn < FILE_BLOCKS"
    and fr: "missing s ip (unat bn) \<le> card (free s)"
    and rm: "0 < missing s ip (unat bn) \<longrightarrow> room s A (k + 3)" "bitmap s \<subseteq> A"
  shows "\<exists>a t. bmap ip bn s = Some (a, t) \<and> mapped s ip (slot_of (unat bn)) (missing s ip (unat bn)) (a, t) \<and>
    (room s A (k + 3) \<longrightarrow> room t (insert a A) k)"
proof -
  define n where "n = unat bn"
  consider "n < 11" | "11 \<le> n" "n < 139" | "139 \<le> n" by linarith
  then show ?thesis
  proof cases
    case 1
    have w: "room s A (k + 3) \<longleftrightarrow> room s A (Suc (k + 2))" by (simp add: eval_nat_numeral)
    have m: "missing s ip n = lacks s ip (Top n)" using 1 by (simp add: missing_def path_def)
    have "bmap ip bn s = entry ip (Top n) s" using 1 by (simp add: bmap_def Let_def entry_def n_def)
    moreover obtain a t where "entry ip (Top n) s = Some (a, t)" "mapped s ip (Top n) (lacks s ip (Top n)) (a, t)"
      "room s A (Suc (k + 2)) \<longrightarrow> room t (insert a A) (k + 2)"
      using entry_mapped [OF rd, of "Top n" A "k + 2"] 1 fr rm m w by (auto simp: n_def)
    moreover have "slot_of n = Top n" using 1 by (simp add: slot_of_def)
    moreover have "room t (insert a A) (k + 2) \<Longrightarrow> room t (insert a A) k" for a t by (rule room_mono) auto
    ultimately show ?thesis using m w by (simp add: n_def [symmetric] del: ptr.simps)
  next
    case 2
    let ?L = "Ind (n - 11)"
    have i: "n - 11 < 128" using 2 by linarith
    have m: "missing s ip n = lacks s ip (Top 11) + lacks s ip ?L"
      using 2 by (simp add: missing_def path_def)
    have w: "room s A (k + 3) \<Longrightarrow> room s A (Suc (Suc k))" by (rule room_mono) auto
    obtain a t where e: "entry ip (Top 11) s = Some (a, t)"
      and mp: "mapped s ip (Top 11) (lacks s ip (Top 11)) (a, t)"
      and o: "\<forall>M. good M \<longrightarrow> M \<noteq> Top 11 \<longrightarrow> ptr t ip M = ptr s ip M"
      and r1: "room s A (Suc (Suc k)) \<longrightarrow> room t (insert a A) (Suc k)"
      using entry_mapped [OF rd, of "Top 11" A "Suc k"] fr m rm w by (auto simp: n_def)
    have bA: "bitmap s \<subseteq> insert a A" using rm(2) by blast
    have rr: "0 < lacks s ip ?L \<longrightarrow> room t (insert a A) (Suc k)" using rm(1) r1 w m by (simp add: n_def)
    have keep: "ptr t ip ?L = ptr s ip ?L" using o i by (simp del: ptr.simps)
    obtain b u where f: "block_entry a (n - 11) t = Some (b, u)"
      and "mapped s ip ?L (missing s ip n) (b, u)"
      and r2: "room t (insert a A) (Suc k) \<longrightarrow> room u (insert b (insert a A)) k"
      using mapped_step [OF rd mp _ _ _ _ rr bA insertI1] keep i fr m by (auto simp: n_def simp del: ptr.simps)
    moreover have "bmap ip bn s = Some (b, u)"
      using 2 i e f by (simp add: bmap_def Let_def entry_def n_def)
    moreover have "room u (insert b (insert a A)) k \<Longrightarrow> room u (insert b A) k" by (rule room_mono) auto
    ultimately show ?thesis using 2 r1 w by (simp add: slot_of_def n_def)
  next
    case 3
    let ?j = "(n - 139) div 128" and ?k = "(n - 139) mod 128"
    have j: "?j < 128" using bn 3 by (simp add: n_def less_mult_imp_div_less)
    have m: "missing s ip n = lacks s ip (Top 12) + lacks s ip (Dbl ?j) + lacks s ip (Leaf ?j ?k)"
      using 3 by (simp add: missing_def path_def)
    have w: "room s A (k + 3) \<longleftrightarrow> room s A (Suc (Suc (Suc k)))" by (simp add: eval_nat_numeral)
    obtain a t where e: "entry ip (Top 12) s = Some (a, t)"
      and mp: "mapped s ip (Top 12) (lacks s ip (Top 12)) (a, t)"
      and o: "\<forall>M. good M \<longrightarrow> M \<noteq> Top 12 \<longrightarrow> ptr t ip M = ptr s ip M"
      and r1: "room s A (Suc (Suc (Suc k))) \<longrightarrow> room t (insert a A) (Suc (Suc k))"
      using entry_mapped [OF rd, of "Top 12" A "Suc (Suc k)"] fr m rm w by (auto simp: n_def)
    have bA: "bitmap s \<subseteq> insert a A" using rm(2) by blast
    have rr: "0 < lacks s ip (Dbl ?j) \<longrightarrow> room t (insert a A) (Suc (Suc k))" using rm(1) r1 w m by (simp add: n_def)
    have keep: "ptr t ip (Dbl ?j) = ptr s ip (Dbl ?j)" "ptr t ip (Leaf ?j ?k) = ptr s ip (Leaf ?j ?k)"
      using o j by (simp_all del: ptr.simps)
    obtain b u where f: "block_entry a ?j t = Some (b, u)"
      and mq: "mapped s ip (Dbl ?j) (lacks s ip (Top 12) + lacks s ip (Dbl ?j)) (b, u)"
      and q: "\<forall>M. good M \<longrightarrow> M \<noteq> Dbl ?j \<longrightarrow> ptr u ip M = ptr t ip M"
      and r2: "room t (insert a A) (Suc (Suc k)) \<longrightarrow> room u (insert b (insert a A)) (Suc k)"
      using mapped_step [OF rd mp _ _ _ _ rr bA insertI1] keep(1) j fr m by (auto simp: n_def simp del: ptr.simps)
    have bB: "bitmap s \<subseteq> insert b (insert a A)" using rm(2) by blast
    have rs: "0 < lacks s ip (Leaf ?j ?k) \<longrightarrow> room u (insert b (insert a A)) (Suc k)"
      using rm(1) r1 r2 w m by (simp add: n_def)
    have keep2: "ptr u ip (Leaf ?j ?k) = ptr s ip (Leaf ?j ?k)" using keep(2) q j by (simp del: ptr.simps)
    obtain c v where g: "block_entry b ?k u = Some (c, v)"
      and "mapped s ip (Leaf ?j ?k) (missing s ip n) (c, v)"
      and r3: "room u (insert b (insert a A)) (Suc k) \<longrightarrow> room v (insert c (insert b (insert a A))) k"
      using mapped_step [OF rd mq _ _ _ _ rs bB insertI1] keep2 j fr m by (auto simp: n_def simp del: ptr.simps)
    moreover have "bmap ip bn s = Some (c, v)"
    proof -
      have "\<not> n < 11" "\<not> n - 11 < 128" "n - 11 - 128 = n - 139" "n - 139 < 128 * 128"
        using 3 bn unfolding n_def by linarith+
      then show ?thesis using e f g by (simp add: bmap_def Let_def entry_def flip: n_def)
    qed
    moreover have "room v (insert c (insert b (insert a A))) k \<Longrightarrow> room v (insert c A) k" by (rule room_mono) auto
    ultimately show ?thesis using 3 r1 r2 w by (simp add: slot_of_def n_def)
  qed
qed

text \<open>
  A small disk: a hundred blocks, the bitmap in block 5, the first ten blocks in use, the log behind them; one
  operation has begun.
\<close>

definition small_sb :: superblock where
  "small_sb = \<lparr>sb_size = 100, sb_nblocks = 90, sb_ninodes = 32, sb_nlog = 30, sb_logstart = 100,
     sb_inodestart = 3, sb_bmapstart = 5\<rparr>"

definition small_fs :: fs where
  "small_fs = \<lparr>sb = small_sb,
     disk = (\<lambda>b. if b = 1 then (\<lambda>i. if i = 0 then 100 else if i = 4 then 90 else if i = 8 then 32
                    else if i = 12 then 30 else if i = 16 then 100 else if i = 20 then 3 else if i = 24 then 5 else 0)
                 else if b = 5 then (\<lambda>i. if i = 0 then 255 else if i = 1 then 3 else 0)
                 else (\<lambda>_. 0)),
     held = {},
     icache = (\<lambda>i. \<lparr>i_dev = 1, i_inum = word_of_nat (i + 1), i_ref = 1, i_locked = False, i_valid = True,
       i_node = \<lparr>d_type = 2, d_major = 0, d_minor = 0, d_nlink = 1, d_size = 0, d_addrs = (\<lambda>_. 0)\<rparr>\<rparr>),
     fl_blocks = [], fl_size = 30, fl_ops = 1\<rparr>"

lemma small_used: "n < 100 \<Longrightarrow> used small_fs n \<longleftrightarrow> n < 10"
proof -
  assume "n < 100"
  then have u: "used small_fs n \<longleftrightarrow>
      bit (if n div 8 = 0 then 255 else if n div 8 = 1 then 3 else 0 :: u8) (n mod 8)"
    by (simp add: used_def bit_clear_iff BBLOCK_def small_fs_def small_sb_def)
  consider "n < 8" | "8 \<le> n" "n < 16" | "16 \<le> n" by linarith
  then show ?thesis
  proof cases
    case 1
    then have "n \<in> {0, 1, 2, 3, 4, 5, 6, 7}" by auto
    then show ?thesis using u by auto
  next
    case 2
    then have "n \<in> {8, 9, 10, 11, 12, 13, 14, 15}" by auto
    then show ?thesis using u by auto
  next
    case 3
    then have "n div 8 \<noteq> 0" "n div 8 \<noteq> 1" by linarith+
    then show ?thesis using u 3 by simp
  qed
qed

lemma small_blocks: "n_blocks small_fs = 100" "n < 100 \<Longrightarrow> BBLOCK n small_fs = 5"
  by (simp_all add: n_blocks_def small_fs_def small_sb_def BBLOCK_def)

lemma small_bitmap: "bitmap_ok small_fs" "bitmap_block small_fs a \<longleftrightarrow> a = 5"
proof -
  show "bitmap_block small_fs a \<longleftrightarrow> a = 5"
    using small_blocks by (auto simp: bitmap_block_def intro: exI [of _ 0])
  show "bitmap_ok small_fs" by (simp add: bitmap_ok_def small_blocks small_used)
qed

lemma small_ptr: "ptr small_fs ip L = 0"
  by (cases L) (simp_all add: addrs_def small_fs_def word_at_def)

lemma small_ready: "ready small_fs 0"
proof -
  have "iblk small_fs 0 = 3" by (simp add: iblk_def IBLOCK_def small_fs_def small_sb_def)
  moreover have "reserved small_fs 3" by (simp add: reserved_def small_blocks small_used small_bitmap)
  ultimately have "file_ok small_fs 0" by (simp add: file_ok_def small_ptr)
  moreover have "held small_fs = {}" by (simp add: small_fs_def)
  ultimately show ?thesis by (simp add: ready_def small_bitmap)
qed

lemma small_room: "card A + k < 29 \<Longrightarrow> room small_fs A k"
  by (simp add: room_def small_fs_def)

lemma small_free: "card (free small_fs) = 90"
proof -
  have "free small_fs = {10..<100}" by (auto simp: free_def small_blocks small_used)
  then show ?thesis by simp
qed

end
