(* ===== verification/FsNode.thy ===== *)
theory FsNode
  imports FsMap
begin

text \<open>An inode on the disk: what \<open>iupdate\<close> writes is what \<open>ilock\<close> reads, and its neighbours stay.\<close>

text \<open>The bytes of other inodes are not touched.\<close>

lemma put_dinode_other: "k < 64 * i \<or> 64 * i + 64 \<le> k \<Longrightarrow> put_dinode b i d k = b k"
  unfolding put_dinode_def by (subst fold_store_other) (auto simp: store32_other store16_other)

lemma get_put_other:
  assumes "i \<noteq> j"
  shows "get_dinode (put_dinode b i d) j = get_dinode b j"
proof -
  have "put_dinode b i d k = b k" if "64 * j \<le> k" "k < 64 * j + 64" for k
  proof (rule put_dinode_other)
    have "i < j \<or> j < i" using assms by linarith
    then show "k < 64 * i \<or> 64 * i + 64 \<le> k" using that by linarith
  qed
  then show ?thesis
    unfolding get_dinode_def by (auto intro!: load16_cong load32_cong ext)
qed

lemma put_dinode_header:
  "k < 64 * i + 12 \<Longrightarrow> put_dinode b i d k = store32 (store16 (store16 (store16 (store16 b (64 * i) (d_type d))
     (64 * i + 2) (d_major d)) (64 * i + 4) (d_minor d)) (64 * i + 6) (d_nlink d)) (64 * i + 8) (d_size d) k"
  unfolding put_dinode_def by (rule fold_store_other) simp

lemma get_put_same:
  "get_dinode (put_dinode b i d) i = d\<lparr>d_addrs := (\<lambda>j. if j < 13 then d_addrs d j else 0)\<rparr>"
proof -
  let ?h = "store32 (store16 (store16 (store16 (store16 b (64 * i) (d_type d))
     (64 * i + 2) (d_major d)) (64 * i + 4) (d_minor d)) (64 * i + 6) (d_nlink d)) (64 * i + 8) (d_size d)"
  have l16: "load16 (put_dinode b i d) (64 * i + k) = load16 ?h (64 * i + k)" if "k + 2 \<le> 12" for k
    using that by (intro load16_cong put_dinode_header) simp
  have l32: "load32 (put_dinode b i d) (64 * i + 8) = load32 ?h (64 * i + 8)"
    by (intro load32_cong put_dinode_header) simp
  have a: "load32 (put_dinode b i d) (64 * i + 12 + 4 * j) = d_addrs d j" if "j < 13" for j
    unfolding put_dinode_def using that by (rule fold_store_at)
  have h: "load16 ?h (64 * i) = d_type d" "load16 ?h (64 * i + 2) = d_major d"
    "load16 ?h (64 * i + 4) = d_minor d" "load16 ?h (64 * i + 6) = d_nlink d"
    by (simp_all add: load16_def store32_other store16_other)
      (simp_all add: store16_def halves)
  show ?thesis
    using l16 [of 0] l16 [of 2] l16 [of 4] l16 [of 6] l32 a h by (simp add: get_dinode_def cong: if_cong)
qed

end
