(* ===== verification/FsRw.thy ===== *)
theory FsRw
  imports FsBmap FsNode
begin

text \<open>
  Reading and writing a file, against the file as its bytes: \<open>readi\<close> returns the bytes at the
  offset, \<open>writei\<close> replaces them, and the loop over the blocks cannot be seen from outside.
\<close>

section \<open>Writing one block\<close>

text \<open>Writing a block that holds no pointer leaves the pointers.\<close>

lemma ptr_write:
  assumes a: "\<And>i. addrs t ip i = addrs s ip i" and d: "disk t = (disk s)(b := w)"
    and b: "\<And>P. good P \<Longrightarrow> \<not> is_data P \<Longrightarrow> ptr s ip P \<noteq> b"
  shows "good L \<Longrightarrow> ptr t ip L = ptr s ip L"
proof (induction L rule: slot_induct)
  case (top i)
  then show ?case by (simp add: a)
next
  case (below L P)
  have "good P" using below.prems below.hyps by (rule good_parent)
  then show ?case
    using below.IH b [OF _ parent_not_data [OF below.hyps]] ptr_parent [OF below.hyps]
    by (simp add: word_at_def d)
qed

lemma used_write:
  assumes "sb t = sb s" "disk t = (disk s)(b := w)" "\<not> bitmap_block s b" "m < n_blocks s"
  shows "used t m \<longleftrightarrow> used s m"
  using assms by (intro used_cong) auto

lemma reserved_write:
  assumes sb: "sb t = sb s" and d: "disk t = (disk s)(b := w)" and nb: "\<not> bitmap_block s b"
  shows "reserved t a \<longleftrightarrow> reserved s a"
  using bitmap_block_cong [OF sb] used_write [OF sb d nb, of "unat a"] sb
  by (auto simp: reserved_def n_blocks_def)

lemma bitmap_write:
  assumes sb: "sb t = sb s" and d: "disk t = (disk s)(b := w)" and nb: "\<not> bitmap_block s b"
    and ok: "bitmap_ok s" "reserved s b"
  shows "bitmap_ok t"
proof -
  have n: "n_blocks t = n_blocks s" "\<And>n. BBLOCK n t = BBLOCK n s" using sb by (simp_all add: n_blocks_def BBLOCK_def)
  have "0 < n_blocks s" using ok(2) by (auto simp: reserved_def)
  then show ?thesis using ok(1) by (simp add: bitmap_ok_def n used_write [OF sb d nb])
qed

lemma fbyte_cong:
  assumes "ptr t ip (slot_of (k div 512)) = ptr s ip (slot_of (k div 512))"
    and "disk t (ptr s ip (slot_of (k div 512))) = disk s (ptr s ip (slot_of (k div 512)))"
  shows "fbyte t ip k = fbyte s ip k"
  using assms by (simp add: fbyte_def Let_def)

lemma data_write:
  assumes rd: "ready s ip" and M: "good (slot_of n)" "ptr s ip (slot_of n) \<noteq> 0"
    and t: "t = put_log (ptr s ip (slot_of n)) w s"
  shows "updated s ip (\<lambda>k. if k div 512 = n then w (k mod 512) else fbyte s ip k) t"
    and "free t = free s"
proof -
  let ?b = "ptr s ip (slot_of n)"
  have fo: "file_ok s ip" and bo: "bitmap_ok s" using rd by (simp_all add: ready_def)
  have r: "reserved s ?b" using fo M by (rule file_okD(1))
  then have nb: "\<not> bitmap_block s ?b" by (simp add: reserved_def)
  have d: "disk t = (disk s)(?b := w)" and sb: "sb t = sb s" by (simp_all add: t)
  have ic: "iblk t ip = iblk s ip" by (simp add: t iblk_def IBLOCK_def)
  have "ptr s ip P \<noteq> ?b" if "good P" "\<not> is_data P" for P
    using file_okD(2) [OF fo M(1) that(1) M(2)] that(2) slot_of_data by metis
  then have p: "ptr t ip L = ptr s ip L" if "good L" for L
    using that by (intro ptr_write [OF _ d]) (simp_all add: t addrs_def)
  have rt: "reserved t a \<longleftrightarrow> reserved s a" for a using sb d nb by (rule reserved_write)
  have "file_ok t ip" using fo by (simp add: file_ok_def p rt ic)
  moreover have "bitmap_ok t" using sb d nb bo r by (rule bitmap_write)
  moreover have "fbyte t ip k = (if k div 512 = n then w (k mod 512) else fbyte s ip k)"
    if k: "k < FILE_BLOCKS * 512" for k
  proof (cases "k div 512 = n")
    case True
    then show ?thesis using M by (simp add: fbyte_def Let_def p d)
  next
    case False
    have g: "good (slot_of (k div 512))" using k by (rule block_of_byte)
    have "ptr s ip (slot_of (k div 512)) = 0 \<or> ptr s ip (slot_of (k div 512)) \<noteq> ?b"
      using file_okD(2) [OF fo g M(1)] slot_of_inj False by metis
    then show ?thesis using False g p by (auto simp: fbyte_def Let_def d)
  qed
  moreover have "disk t a = disk s a" if "\<And>L. good L \<Longrightarrow> ptr s ip L \<noteq> a" for a
    using that [OF M(1)] by (auto simp: d)
  moreover have "used t m \<longleftrightarrow> used s m" if "m < n_blocks s" for m
    using sb d nb that by (rule used_write)
  moreover have "\<exists>A. icache t = icache (upd_node ip (\<lambda>d. d\<lparr>d_addrs := A\<rparr>) s)"
    by (auto intro!: exI [of _ "d_addrs (i_node (icache s ip))"] simp: t upd_node_def upd_inode_def)
  moreover have "held t = held s" by (simp add: t)
  ultimately show "updated s ip (\<lambda>k. if k div 512 = n then w (k mod 512) else fbyte s ip k) t"
    unfolding updated_def using sb p by auto
  show "free t = free s"
    using used_write [OF sb d nb] by (auto simp: free_def t n_blocks_def)
qed

section \<open>The loops\<close>

text \<open>The blocks that \<open>r\<close> bytes from the offset \<open>o\<close> can touch.\<close>

definition span :: "nat \<Rightarrow> nat \<Rightarrow> nat" where
  "span off r = (off + r + 511) div 512 - off div 512"

lemma unat_sub_le: "a \<le> b \<Longrightarrow> unat (b - a) = unat b - unat (a :: u32)"
  by (rule unat_sub)

lemma unat_add_fits: "unat a + unat b < 2 ^ 32 \<Longrightarrow> unat (a + b) = unat a + unat (b :: u32)"
  by (simp add: unat_word_ariths)

lemma chunk_unat:
  assumes "tot \<le> n"
  shows "unat (chunk n tot off) = min (unat n - unat tot) (512 - unat off mod 512)"
proof -
  have m: "unat (off mod 512) = unat off mod 512" by (simp add: unat_mod)
  have "off mod 512 \<le> 512" by (simp add: word_le_nat_alt m)
  then have "unat (BSIZE - off mod BSIZE) = 512 - unat off mod 512" by (simp add: unat_sub_le m)
  then show ?thesis
    using unat_sub_le [OF assms] by (auto simp: chunk_def min_def word_le_nat_alt)
qed

text \<open>One iteration, in numbers.\<close>

lemma chunk_step:
  assumes lt: "tot < n" and fits: "unat off + (unat n - unat tot) < 2 ^ 32"
  defines "m \<equiv> chunk n tot off"
  shows "unat (tot + m) = unat tot + unat m" "unat (off + m) = unat off + unat m"
    "0 < unat m" "unat off mod 512 + unat m \<le> 512" "tot + m \<le> n"
    "tot + m < n \<Longrightarrow> Suc (span (unat (off + m)) (unat n - unat (tot + m))) \<le> span (unat off) (unat n - unat tot)"
    "1 \<le> span (unat off) (unat n - unat tot)"
proof -
  have u: "unat m = min (unat n - unat tot) (512 - unat off mod 512)"
    unfolding m_def using lt by (intro chunk_unat) simp
  have lt': "unat tot < unat n" using lt by (simp add: word_less_nat_alt)
  have nb: "unat n < 2 ^ 32" using unsigned_less [of n] by simp
  show t: "unat (tot + m) = unat tot + unat m" using lt' u nb by (intro unat_add_fits) simp
  show o: "unat (off + m) = unat off + unat m" using u fits by (intro unat_add_fits) simp
  have md: "unat off mod 512 < 512" by simp
  show "0 < unat m" using u lt' md by simp
  show "unat off mod 512 + unat m \<le> 512" using u md by simp
  have "unat m \<le> unat n - unat tot" using u by simp
  then show "tot + m \<le> n" using t lt' unfolding word_le_nat_alt by linarith
  have "(unat off + 512) div 512 \<le> (unat off + (unat n - unat tot) + 511) div 512"
    using lt' by (intro div_le_mono) simp
  then show "1 \<le> span (unat off) (unat n - unat tot)" by (simp add: span_def)
  show "Suc (span (unat (off + m)) (unat n - unat (tot + m))) \<le> span (unat off) (unat n - unat tot)"
    if r: "tot + m < n"
  proof -
    have "unat m \<noteq> unat n - unat tot" using r t lt' by (auto simp: word_less_nat_alt)
    then have "unat m = 512 - unat off mod 512" using u by (simp add: min_def split: if_splits)
    then have "unat off + unat m = (unat off div 512 + 1) * 512"
      using md div_mult_mod_eq [of "unat off" 512] unfolding add_mult_distrib by linarith
    then have d: "unat (off + m) div 512 = unat off div 512 + 1" using o by simp
    have e: "unat (off + m) + (unat n - unat (tot + m)) = unat off + (unat n - unat tot)"
      using o t \<open>unat m \<le> unat n - unat tot\<close> lt' by linarith
    have "(unat off div 512 + 1) * 512 \<le> unat off + (unat n - unat tot)"
      using \<open>unat off + unat m = _\<close> \<open>unat m \<le> unat n - unat tot\<close> by linarith
    then have "unat off div 512 + 1 \<le> (unat off + (unat n - unat tot) + 511) div 512"
      by (simp add: less_eq_div_iff_mult_less_eq)
    then show ?thesis unfolding span_def e d by linarith
  qed
qed

lemma same_block: "o1 mod 512 + j < (512 :: nat) \<Longrightarrow> (o1 + j) div 512 = o1 div 512 \<and> (o1 + j) mod 512 = o1 mod 512 + j"
proof -
  assume a: "o1 mod 512 + j < 512"
  have "o1 + j = o1 div 512 * 512 + (o1 mod 512 + j)" by simp
  then show ?thesis using a by (metis add.commute add_cancel_left_right div_less div_mult_self1 mod_less mod_mult_self1 zero_neq_numeral)
qed

lemma byte_bound: "o1 + j < FILE_BLOCKS * 512 \<Longrightarrow> (o1 + j) div 512 < FILE_BLOCKS"
  by (rule less_mult_imp_div_less)

text \<open>The block that holds the byte at the offset, as \<open>bmap\<close> finds or makes it.\<close>

lemma bmap_offset:
  assumes rd: "ready s ip" and b: "unat off < FILE_BLOCKS * 512" and fr: "3 \<le> card (free s)"
    and rm: "room s A (k + 3)" "bitmap s \<subseteq> A"
  obtains a u where "bmap ip (off div 512) s = Some (a, u)" "a = ptr u ip (slot_of (unat off div 512))"
    "a \<noteq> 0" "grown s ip u" "card (free s) \<le> card (free u) + 3" "ready u ip" "a \<notin> held u"
    "room u (insert a A) k"
proof -
  have n: "unat (off div 512) = unat off div 512" by (simp add: unat_div)
  then have bn: "unat (off div 512) < FILE_BLOCKS" using b by (simp add: less_mult_imp_div_less)
  have "missing s ip (unat (off div 512)) \<le> card (free s)" using missing_le fr order_trans by blast
  from bmap_mapped [OF rd bn this _ rm(2)] rm(1) obtain a u where r: "bmap ip (off div 512) s = Some (a, u)"
    and m: "mapped s ip (slot_of (unat (off div 512))) (missing s ip (unat (off div 512))) (a, u)"
    and ra: "room u (insert a A) k"
    by blast
  have "ready u ip" using rd m by (rule mapped_ready)
  moreover have "card (free s) \<le> card (free u) + 3"
    using m missing_le [of s ip "unat (off div 512)"] by (simp add: mapped_def)
  ultimately show thesis using m n ra by (intro that [OF r]) (auto simp: mapped_def ready_def)
qed

lemma fbyte_block:
  assumes "ptr s ip (slot_of (o1 div 512)) \<noteq> 0" "o1 mod 512 + j < 512"
  shows "fbyte s ip (o1 + j) = disk s (ptr s ip (slot_of (o1 div 512))) (o1 mod 512 + j)"
  using assms same_block [OF assms(2)] by (simp add: fbyte_def Let_def)

text \<open>The bytes from \<open>off\<close> to \<open>off + r\<close> have their blocks.\<close>

definition present :: "fs \<Rightarrow> nat \<Rightarrow> nat \<Rightarrow> nat \<Rightarrow> bool" where
  "present s ip off r \<longleftrightarrow> (\<forall>k. off \<le> k \<longrightarrow> k < off + r \<longrightarrow> ptr s ip (slot_of (k div 512)) \<noteq> 0)"

lemma not_missing: "ptr s ip (slot_of bn) \<noteq> 0 \<Longrightarrow> missing s ip bn = 0"
  by (auto simp: missing_def path_def slot_of_def lacks_def word_at_def split: if_splits)

lemma bmap_present:
  assumes rd: "ready s ip" and bn: "unat bn < FILE_BLOCKS" and p: "ptr s ip (slot_of (unat bn)) \<noteq> 0"
  shows "bmap ip bn s = Some (ptr s ip (slot_of (unat bn)), s)"
  using bmap_mapped [OF rd bn _ _ order_refl] not_missing [OF p] by (auto simp: mapped_def)

lemma read_loop_ok:
  assumes rd: "ready s ip"
    and "tot \<le> n" "unat off + (unat n - unat tot) \<le> FILE_BLOCKS * 512"
    and "present s ip (unat off) (unat n - unat tot)"
  shows "read_loop ip n tot off dst s = Some (\<lambda>i. if unat tot \<le> i \<and> i < unat n
      then fbyte s ip (unat off + (i - unat tot)) else dst i, s)"
  using assms(2-)
proof (induction "unat n - unat tot" arbitrary: tot off dst rule: less_induct)
  case less
  show ?case
  proof (cases "tot < n")
    case False
    then have "dst = (\<lambda>i. if unat tot \<le> i \<and> i < unat n then fbyte s ip (unat off + (i - unat tot)) else dst i)"
      using less.prems(1) by (auto simp: word_less_nat_alt fun_eq_iff)
    then show ?thesis using False by (auto simp: read_loop.simps [of ip n tot off])
  next
    case True
    define m where "m = chunk n tot off"
    have fits: "unat off + (unat n - unat tot) < 2 ^ 32" using less.prems(2) by simp
    note c = chunk_step [OF True fits, folded m_def]
    define a where "a = ptr s ip (slot_of (unat off div 512))"
    have az: "a \<noteq> 0" using less.prems(3) True by (simp add: a_def present_def word_less_nat_alt)
    have ud: "unat (off div 512) = unat off div 512" by (simp add: unat_div)
    have "unat (off div 512) < FILE_BLOCKS"
      unfolding ud using less.prems(2) True by (intro less_mult_imp_div_less) (simp add: word_less_nat_alt)
    then have b: "bmap ip (off div 512) s = Some (a, s)"
      using bmap_present [OF rd] az ud by (simp add: a_def)
    have nh: "a \<notin> held s" using rd by (simp add: ready_def)
    then have rel: "brelse a (s\<lparr>held := insert a (held s)\<rparr>) = Some s" by (simp add: brelse_def)
    define d where "d = memmove dst (unat tot) (disk s a) (unat (off mod 512)) (unat m)"
    have e: "read_loop ip n tot off dst s = read_loop ip n (tot + m) (off + m) d s"
      using True b nh rel by (simp add: read_loop.simps [of ip n tot] bread_def Let_def flip: m_def d_def)
    have mono: "unat tot + unat m \<le> unat n" using c(1,5) by (simp add: word_le_nat_alt)
    have r: "read_loop ip n (tot + m) (off + m) d s = Some (\<lambda>i. if unat (tot + m) \<le> i \<and> i < unat n
        then fbyte s ip (unat (off + m) + (i - unat (tot + m))) else d i, s)"
    proof (rule less.hyps [OF _ c(5)])
      show "unat n - unat (tot + m) < unat n - unat tot" using c(1,3) mono by linarith
      show "unat (off + m) + (unat n - unat (tot + m)) \<le> FILE_BLOCKS * 512"
        using less.prems(2) c(1,2) mono by linarith
      show "present s ip (unat (off + m)) (unat n - unat (tot + m))"
        using less.prems(3) c(1,2) mono by (simp add: present_def)
    qed
    have du: "d i = fbyte s ip (unat off + (i - unat tot))" if "unat tot \<le> i" "i < unat (tot + m)" for i
    proof -
      have j: "unat off mod 512 + (i - unat tot) < 512" using that c(1,4) by linarith
      show ?thesis using fbyte_block [OF _ j, of s ip] az that c(1)
        by (simp add: d_def memmove_def unat_mod flip: a_def)
    qed
    have do: "d i = dst i" if "i < unat tot \<or> unat n \<le> i" for i
      using that c(1) mono by (auto simp: d_def memmove_def)
    have "(if unat (tot + m) \<le> i \<and> i < unat n
        then fbyte s ip (unat (off + m) + (i - unat (tot + m))) else d i) =
      (if unat tot \<le> i \<and> i < unat n then fbyte s ip (unat off + (i - unat tot)) else dst i)" for i
    proof -
      consider "i < unat tot \<or> unat n \<le> i" | "unat tot \<le> i" "i < unat n" "i < unat (tot + m)"
        | "unat (tot + m) \<le> i" "i < unat n" by linarith
      then show ?thesis using do du c(1,2) by cases auto
    qed
    then show ?thesis using e r by simp
  qed
qed

text \<open>One block of a file with the bytes from \<open>o1\<close> replaced.\<close>

lemma block_replace:
  assumes p: "ptr s ip (slot_of (o1 div 512)) \<noteq> 0" and b: "o1 mod 512 + m \<le> 512"
  shows "(if k div 512 = o1 div 512
      then memmove (disk s (ptr s ip (slot_of (o1 div 512)))) (o1 mod 512) src j m (k mod 512)
      else fbyte s ip k) = (if o1 \<le> k \<and> k < o1 + m then src (j + (k - o1)) else fbyte s ip k)"
proof (cases "o1 \<le> k \<and> k < o1 + m")
  case True
  then have i: "o1 mod 512 + (k - o1) < 512" and k: "k = o1 + (k - o1)" using b by linarith+
  have "k div 512 = o1 div 512" "k mod 512 = o1 mod 512 + (k - o1)"
    using same_block [OF i] k by simp_all
  moreover have "k mod 512 - o1 mod 512 = k - o1" "k mod 512 < o1 mod 512 + m" "o1 mod 512 \<le> k mod 512"
    using calculation(2) True by linarith+
  ultimately show ?thesis using True by (simp add: memmove_def)
next
  case False
  show ?thesis
  proof (cases "k div 512 = o1 div 512")
    case True
    have "\<not> (o1 mod 512 \<le> k mod 512 \<and> k mod 512 < o1 mod 512 + m)"
      using False True div_mult_mod_eq [of k 512] div_mult_mod_eq [of o1 512] by linarith
    with True p False show ?thesis by (auto simp: memmove_def fbyte_def Let_def)
  qed (use False in auto)
qed

lemma write_loop_ok:
  assumes "ready s ip" "tot \<le> n" "unat off + (unat n - unat tot) \<le> FILE_BLOCKS * 512"
    and "tot < n \<Longrightarrow> 3 * span (unat off) (unat n - unat tot) \<le> card (free s)"
    and "room s A 0" "tot < n \<Longrightarrow> room s A (3 * span (unat off) (unat n - unat tot))" "bitmap s \<subseteq> A"
  shows "\<exists>t. write_loop ip n tot off src s = Some (off + (n - tot), t) \<and>
    updated s ip (\<lambda>k. if unat off \<le> k \<and> k < unat off + (unat n - unat tot)
      then src (unat tot + (k - unat off)) else fbyte s ip k) t \<and>
    present t ip (unat off) (unat n - unat tot) \<and> room t A 0"
  using assms
proof (induction "unat n - unat tot" arbitrary: tot off s rule: less_induct)
  case less
  note rd = less.prems(1)
  show ?case
  proof (cases "tot < n")
    case False
    then have "n - tot = 0" "unat n - unat tot = 0" using less.prems(2) by auto
    moreover have "grown s ip s" using rd by (intro grown_refl) (simp_all add: ready_def)
    then have "updated s ip (\<lambda>k. if unat off \<le> k \<and> k < unat off + 0
        then src (unat tot + (k - unat off)) else fbyte s ip k) s" by (rule updated_bytes) auto
    ultimately show ?thesis using False less.prems(5) by (auto simp: write_loop.simps present_def)
  next
    case True
    define m where "m = chunk n tot off"
    have fits: "unat off + (unat n - unat tot) < 2 ^ 32" using less.prems(3) by simp
    note c = chunk_step [OF True fits, folded m_def]
    have off: "unat off < FILE_BLOCKS * 512" using less.prems(3) True by (simp add: word_less_nat_alt)
    have "3 \<le> card (free s)" using less.prems(4) [OF True] c(7) by linarith
    moreover obtain k where k: "3 * span (unat off) (unat n - unat tot) = k + 3"
      using c(7) by (intro that [of "3 * span (unat off) (unat n - unat tot) - 3"]) linarith
    then have "room s A (k + 3)" using less.prems(6) [OF True] by simp
    ultimately obtain a u where b: "bmap ip (off div 512) s = Some (a, u)"
      and a: "a = ptr u ip (slot_of (unat off div 512))" "a \<noteq> 0" and g: "grown s ip u"
      and fr: "card (free s) \<le> card (free u) + 3" and ru: "ready u ip" and nh: "a \<notin> held u"
      and rmu: "room u (insert a A) k"
      using bmap_offset [OF rd off _ _ less.prems(7)] by blast
    define w where "w = memmove (disk u a) (unat off mod 512) src (unat tot) (unat m)"
    define v where "v = put_log a w u"
    have hu: "room (u\<lparr>held := insert a (held u)\<rparr>) (insert a A) k" using rmu by (simp add: room_def)
    have lw: "log_write a w (u\<lparr>held := insert a (held u)\<rparr>) = Some (v\<lparr>held := insert a (held u)\<rparr>)"
      using log_write_room(1) [OF hu insertI1] by (simp add: v_def put_log_def)
    have rel: "brelse a (v\<lparr>held := insert a (held u)\<rparr>) = Some v"
      using nh by (simp add: brelse_def v_def put_log_def)
    have rmv: "room v A k"
      unfolding v_def by (rule room_mono [OF log_write_room(2) [OF rmu insertI1]]) auto
    have wm: "w = memmove (disk u a) (unat (off mod 512)) src (unat tot) (unat m)"
      by (simp add: w_def unat_mod)
    have e: "write_loop ip n tot off src s = write_loop ip n (tot + m) (off + m) src v"
      using True b nh lw rel by (simp add: write_loop.simps [of ip n tot] bread_def Let_def
          flip: m_def wm)
    have gd: "good (slot_of (unat off div 512))" using off by (rule block_of_byte)
    have v: "v = put_log (ptr u ip (slot_of (unat off div 512))) w u" by (simp add: v_def a(1))
    have "ptr u ip (slot_of (unat off div 512)) \<noteq> 0" using a by simp
    note dw = data_write [OF ru gd this v]
    have F: "(if k div 512 = unat off div 512 then w (k mod 512) else fbyte u ip k) =
        (if unat off \<le> k \<and> k < unat off + unat m then src (unat tot + (k - unat off)) else fbyte u ip k)" for k
      unfolding w_def a(1) using a c(4) by (intro block_replace) auto
    have sv: "updated s ip (\<lambda>k. if unat off \<le> k \<and> k < unat off + unat m
        then src (unat tot + (k - unat off)) else fbyte s ip k) v"
      using updated_trans [OF g dw(1)] by (rule updated_bytes) (simp add: F updatedD(8) [OF g])
    have rv: "ready v ip" using ru dw(1) by (rule updated_ready)
    have mono: "unat tot + unat m \<le> unat n" using c(1,5) by (simp add: word_le_nat_alt)
    have "\<exists>t. write_loop ip n (tot + m) (off + m) src v = Some (off + m + (n - (tot + m)), t) \<and>
      updated v ip (\<lambda>k. if unat (off + m) \<le> k \<and> k < unat (off + m) + (unat n - unat (tot + m))
        then src (unat (tot + m) + (k - unat (off + m))) else fbyte v ip k) t \<and>
      present t ip (unat (off + m)) (unat n - unat (tot + m)) \<and> room t A 0"
    proof (rule less.hyps [OF _ rv c(5)])
      show "unat n - unat (tot + m) < unat n - unat tot" using c(1,3) mono by linarith
      show "unat (off + m) + (unat n - unat (tot + m)) \<le> FILE_BLOCKS * 512"
        using less.prems(3) c(1,2) mono by linarith
      show "3 * span (unat (off + m)) (unat n - unat (tot + m)) \<le> card (free v)" if "tot + m < n"
        unfolding dw(2) using c(6) [OF that] less.prems(4) [OF True] fr by linarith
      show "room v A 0" by (rule room_mono [OF rmv]) auto
      show "room v A (3 * span (unat (off + m)) (unat n - unat (tot + m)))" if "tot + m < n"
        by (rule room_mono [OF rmv order_refl]) (use c(6) [OF that] k in linarith)
      have "bitmap v = bitmap s" using bitmap_block_cong [OF updatedD(1) [OF sv]] by simp
      then show "bitmap v \<subseteq> A" using less.prems(7) by simp
    qed
    then obtain t where r: "write_loop ip n (tot + m) (off + m) src v = Some (off + m + (n - (tot + m)), t)"
      and vt: "updated v ip (\<lambda>k. if unat (off + m) \<le> k \<and> k < unat (off + m) + (unat n - unat (tot + m))
        then src (unat (tot + m) + (k - unat (off + m))) else fbyte v ip k) t"
      and pt: "present t ip (unat (off + m)) (unat n - unat (tot + m))" and rt: "room t A 0" by blast
    have "present t ip (unat off) (unat n - unat tot)" unfolding present_def
    proof (intro allI impI)
      fix k assume k: "unat off \<le> k" "k < unat off + (unat n - unat tot)"
      show "ptr t ip (slot_of (k div 512)) \<noteq> 0"
      proof (cases "k < unat off + unat m")
        case True
        have j: "unat off mod 512 + (k - unat off) < 512" using True k c(4) by linarith
        have "k div 512 = unat off div 512" using same_block [OF j] k by simp
        then show ?thesis using updatedD(4) [OF vt gd] updatedD(4) [OF dw(1) gd] a by simp
      next
        case False
        then show ?thesis using pt k c(1,2) mono by (simp add: present_def)
      qed
    qed
    moreover have "updated s ip (\<lambda>k. if unat off \<le> k \<and> k < unat off + (unat n - unat tot)
        then src (unat tot + (k - unat off)) else fbyte s ip k) t"
    proof (rule updated_bytes [OF updated_trans [OF sv vt]])
      fix k assume k: "k < FILE_BLOCKS * 512"
      consider "unat (off + m) \<le> k" "k < unat (off + m) + (unat n - unat (tot + m))"
        | "unat off \<le> k" "k < unat off + unat m" | "k < unat off"
        | "unat (off + m) + (unat n - unat (tot + m)) \<le> k" using c(2) by linarith
      then show "(if unat (off + m) \<le> k \<and> k < unat (off + m) + (unat n - unat (tot + m))
          then src (unat (tot + m) + (k - unat (off + m))) else fbyte v ip k) =
        (if unat off \<le> k \<and> k < unat off + (unat n - unat tot)
          then src (unat tot + (k - unat off)) else fbyte s ip k)"
        using c(1,2) mono updatedD(8) [OF sv k] by cases auto
    qed
    moreover have "off + m + (n - (tot + m)) = off + (n - tot)" by simp
    ultimately show ?thesis using e r rt by auto
  qed
qed

section \<open>The inode\<close>

text \<open>Writing a block outside the file.\<close>

lemma outside_write:
  assumes rd: "ready s ip" and b: "reserved s b" "\<And>L. good L \<Longrightarrow> ptr s ip L \<noteq> b"
    and t: "sb t = sb s" "disk t = (disk s)(b := w)" "held t = held s"
      "\<And>i. addrs t ip i = addrs s ip i" "iblk t ip = iblk s ip"
  shows "ready t ip" "k < FILE_BLOCKS * 512 \<Longrightarrow> fbyte t ip k = fbyte s ip k"
    "good L \<Longrightarrow> ptr t ip L = ptr s ip L"
proof -
  have fo: "file_ok s ip" and bo: "bitmap_ok s" and h: "held s = {}" using rd by (simp_all add: ready_def)
  have nb: "\<not> bitmap_block s b" using b(1) by (simp add: reserved_def)
  have p: "ptr t ip L = ptr s ip L" if "good L" for L
    using that b(2) by (intro ptr_write [OF t(4,2)]) auto
  then show "good L \<Longrightarrow> ptr t ip L = ptr s ip L" .
  have rt: "reserved t a \<longleftrightarrow> reserved s a" for a using t(1,2) nb by (rule reserved_write)
  have "file_ok t ip" using fo by (simp add: file_ok_def p rt t(5))
  moreover have "bitmap_ok t" using t(1,2) nb bo b(1) by (rule bitmap_write)
  ultimately show "ready t ip" using h t(3) by (simp add: ready_def)
  show "fbyte t ip k = fbyte s ip k" if "k < FILE_BLOCKS * 512"
    using p [OF block_of_byte [OF that]] b(2) [OF block_of_byte [OF that]]
    by (intro fbyte_cong) (simp_all add: t(2))
qed

text \<open>The fields of an inode other than its pointers do not matter to the file's bytes.\<close>

lemma upd_node_same:
  assumes "\<And>d. d_addrs (f d) = d_addrs d"
  shows "ptr (upd_node ip f s) ip L = ptr s ip L" "fbyte (upd_node ip f s) ip k = fbyte s ip k"
    "iblk (upd_node ip f s) jp = iblk s jp" "reserved (upd_node ip f s) a = reserved s a"
    "ready (upd_node ip f s) ip = ready s ip" "free (upd_node ip f s) = free s"
proof -
  let ?t = "upd_node ip f s"
  have a: "addrs ?t ip i = addrs s ip i" for i
    using assms by (simp add: addrs_def upd_node_def upd_inode_def)
  have d: "disk ?t = disk s" "sb ?t = sb s" "held ?t = held s" by (simp_all add: upd_node_def upd_inode_def)
  have w: "word_at ?t = word_at s" by (simp add: fun_eq_iff word_at_def d)
  show p: "ptr ?t ip L = ptr s ip L" for L by (cases L) (simp_all add: a w)
  show "fbyte ?t ip k = fbyte s ip k" by (simp add: fbyte_def p d Let_def)
  show i: "iblk ?t jp = iblk s jp" for jp by (simp add: iblk_def IBLOCK_def upd_node_def upd_inode_def)
  have u: "used ?t = used s" "n_blocks ?t = n_blocks s" "bitmap_block ?t = bitmap_block s"
    using bitmap_block_cong [OF d(2)] d(2) by (simp_all add: used_upd n_blocks_def)
  show r: "reserved ?t a = reserved s a" for a by (simp add: reserved_def u)
  have "BBLOCK n ?t = BBLOCK n s" for n by (simp add: BBLOCK_def d)
  then have "bitmap_ok ?t = bitmap_ok s" by (simp add: bitmap_ok_def u)
  then show "ready ?t ip = ready s ip" by (simp add: ready_def file_ok_def p r i d)
  show "free ?t = free s" by (simp add: free_def u)
qed

lemma iupdate_eq:
  assumes h: "held s = {}" and rm: "room s A k" "iblk s ip \<in> A"
  shows "iupdate ip s = Some (put_log (iblk s ip)
    (put_dinode (disk s (iblk s ip)) (unat (i_inum (icache s ip)) mod 8) (i_node (icache s ip))) s)"
proof -
  let ?b = "iblk s ip"
  let ?d = "put_dinode (disk s ?b) (unat (i_inum (icache s ip)) mod 8) (i_node (icache s ip))"
  have "room (s\<lparr>held := {?b}\<rparr>) A k" using rm(1) by (simp add: room_def)
  from log_write_room(1) [OF this rm(2)] have "log_write ?b ?d (s\<lparr>held := {?b}\<rparr>) = Some ((put_log ?b ?d s)\<lparr>held := {?b}\<rparr>)"
    by (simp add: put_log_def)
  then show ?thesis
    using h by (simp add: iupdate_def bread_def brelse_def iblk_def Let_def put_log_def)
qed

text \<open>The inode is on the disk as it is in the cache.\<close>

definition clip :: "dinode \<Rightarrow> dinode" where
  "clip d = d\<lparr>d_addrs := (\<lambda>j. if j < 13 then d_addrs d j else 0)\<rparr>"

definition disk_inode :: "fs \<Rightarrow> nat \<Rightarrow> dinode" where
  "disk_inode s ip = get_dinode (disk s (iblk s ip)) (unat (i_inum (icache s ip)) mod 8)"

lemma iupdate_ok:
  assumes rd: "ready s ip" and rm: "room s A k" "iblk s ip \<in> A"
  shows "\<exists>t. iupdate ip s = Some t \<and> room t A k \<and> ready t ip \<and> disk_inode t ip = clip (i_node (icache s ip)) \<and>
    icache t = icache s \<and> sb t = sb s \<and> (\<forall>k < FILE_BLOCKS * 512. fbyte t ip k = fbyte s ip k) \<and>
    (\<forall>L. good L \<longrightarrow> ptr t ip L = ptr s ip L) \<and>
    (\<forall>a. a \<noteq> iblk s ip \<longrightarrow> disk t a = disk s a)"
proof -
  let ?i = "unat (i_inum (icache s ip)) mod 8" and ?d = "i_node (icache s ip)"
  define t where "t = put_log (iblk s ip) (put_dinode (disk s (iblk s ip)) ?i ?d) s"
  have rt: "room t A k" unfolding t_def by (rule log_write_room(2) [OF rm])
  have i: "iblk t ip = iblk s ip" by (simp add: t_def iblk_def IBLOCK_def)
  have h: "held s = {}" and fo: "file_ok s ip" using rd by (simp_all add: ready_def)
  have b: "reserved s (iblk s ip)" "\<And>L. good L \<Longrightarrow> ptr s ip L \<noteq> iblk s ip" using fo by (auto simp: file_ok_def)
  have "sb t = sb s" "disk t = (disk s)(iblk s ip := put_dinode (disk s (iblk s ip)) ?i ?d)"
    "held t = held s" "\<And>i. addrs t ip i = addrs s ip i" by (simp_all add: t_def addrs_def)
  note o = outside_write [OF rd b this i]
  have e: "iupdate ip s = Some t" using iupdate_eq [OF h rm] by (simp add: t_def)
  have "disk_inode t ip = clip ?d"
    unfolding disk_inode_def i by (simp add: clip_def t_def get_put_same)
  moreover have "icache t = icache s" "sb t = sb s" by (simp_all add: t_def)
  moreover have "ready t ip" "\<And>k. k < FILE_BLOCKS * 512 \<Longrightarrow> fbyte t ip k = fbyte s ip k"
    "\<And>L. good L \<Longrightarrow> ptr t ip L = ptr s ip L"
    using o by blast+
  moreover have "\<And>a. a \<noteq> iblk s ip \<Longrightarrow> disk t a = disk s a" by (simp add: t_def)
  ultimately show ?thesis using e rt by blast
qed

end
