(* ===== verification/FsTrunc.thy ===== *)
theory FsTrunc
  imports FsRw
begin

text \<open>
  Giving the blocks of a file back: \<open>bfree\<close> clears one bit of the bitmap, \<open>itrunc\<close> clears those of
  the direct blocks and of the indirect block with its entries.
\<close>

section \<open>Freeing blocks\<close>

text \<open>The superblock that \<open>bfree\<close> reads again is the one in memory.\<close>

definition sb_ok :: "fs \<Rightarrow> bool" where
  "sb_ok s \<longleftrightarrow> \<not> bitmap_block s 1 \<and>
     sb s = \<lparr>sb_size = load32 (disk s 1) 0, sb_nblocks = load32 (disk s 1) 4, sb_ninodes = load32 (disk s 1) 8,
       sb_nlog = load32 (disk s 1) 12, sb_logstart = load32 (disk s 1) 16,
       sb_inodestart = load32 (disk s 1) 20, sb_bmapstart = load32 (disk s 1) 24\<rparr>"

text \<open>\<open>t\<close> is \<open>s\<close> with the blocks \<open>F\<close> marked as free.\<close>

definition freed :: "fs \<Rightarrow> nat set \<Rightarrow> fs \<Rightarrow> bool" where
  "freed s F t \<longleftrightarrow> sb t = sb s \<and> held t = held s \<and>
     (\<forall>a. \<not> bitmap_block s a \<longrightarrow> disk t a = disk s a) \<and>
     (\<forall>m < n_blocks s. used t m \<longleftrightarrow> used s m \<and> m \<notin> F)"

lemma freedD:
  assumes "freed s F t"
  shows "sb t = sb s" "held t = held s" "\<not> bitmap_block s a \<Longrightarrow> disk t a = disk s a"
    and "m < n_blocks s \<Longrightarrow> used t m \<longleftrightarrow> used s m \<and> m \<notin> F"
  using assms unfolding freed_def by blast+

lemma freed_refl: "freed s {} s"
  by (simp add: freed_def)

lemma freed_trans:
  assumes "freed s F t" "freed t G u"
  shows "freed s (F \<union> G) u"
  using freedD [OF assms(1)] freedD [OF assms(2)] bitmap_block_cong [OF freedD(1) [OF assms(1)]]
  unfolding freed_def n_blocks_def by auto

lemma sb_ok_freed: "sb_ok s \<Longrightarrow> freed s F t \<Longrightarrow> sb_ok t"
  using bitmap_block_cong [of t s] freedD(1,3) [of s F t] by (auto simp: sb_ok_def)

lemma bfree_ok:
  assumes sb: "sb_ok s" and h: "1 \<notin> held s" "\<And>a. a \<in> held s \<Longrightarrow> \<not> bitmap_block s a"
    and b: "unat b < n_blocks s" "used s (unat b)" and rm: "room s A k" "bitmap s \<subseteq> A"
  shows "\<exists>t. bfree b s = Some t \<and> freed s {unat b} t \<and> icache t = icache s \<and> room t A k"
proof -
  define bb where "bb = BBLOCK (unat b) s"
  define i where "i = unat b mod BPB"
  have bm: "bitmap_block s bb" using b(1) by (auto simp: bb_def)
  then have nh: "bb \<notin> held s" using h(2) by blast
  define t where "t = put_log bb (unmark_bit (disk s bb) i) s"
  have bA: "bb \<in> A" using rm(2) bm by blast
  have "room (s\<lparr>held := insert bb (held s)\<rparr>) A k" using rm(1) by (simp add: room_def)
  from log_write_room(1) [OF this bA]
  have lw: "log_write bb (unmark_bit (disk s bb) i) (s\<lparr>held := insert bb (held s)\<rparr>) = Some (t\<lparr>held := insert bb (held s)\<rparr>)"
    by (simp add: t_def put_log_def)
  have rt: "room t A k" unfolding t_def by (rule log_write_room(2) [OF rm(1) bA])
  have "sb s = \<lparr>sb_size = load32 (disk s 1) 0, sb_nblocks = load32 (disk s 1) 4, sb_ninodes = load32 (disk s 1) 8,
       sb_nlog = load32 (disk s 1) 12, sb_logstart = load32 (disk s 1) 16,
       sb_inodestart = load32 (disk s 1) 20, sb_bmapstart = load32 (disk s 1) 24\<rparr>"
    using sb by (simp add: sb_ok_def)
  then have r: "readsb s = Some s"
    using h(1) by (simp add: readsb_def bread_def brelse_def)
  have "\<not> bit_clear (disk s bb) i" using b(2) by (simp add: used_def bb_def i_def)
  then have e: "bfree b s = Some t"
    using nh lw by (simp add: bfree_def r bread_def brelse_def Let_def flip: bb_def i_def) (simp add: t_def put_log_def)
  have "used t m \<longleftrightarrow> used s m \<and> m \<noteq> unat b" if m: "m < n_blocks s" for m
  proof (cases "BBLOCK m s = bb")
    case True
    have "m div BPB = unat b div BPB"
      using True BBLOCK_eq unat_block(2) [OF m] unat_block(2) [OF b(1)] by (simp add: bb_def)
    then have "m = unat b \<longleftrightarrow> m mod BPB = i" by (metis div_block i_def)
    moreover have "BBLOCK m t = bb" using True by (simp add: BBLOCK_def t_def)
    ultimately show ?thesis using True by (auto simp: used_def unmark_bit_clear t_def)
  next
    case False
    then have "used t m = used s m" by (intro used_cong) (simp_all add: t_def)
    moreover have "m \<noteq> unat b" using False by (auto simp: bb_def)
    ultimately show ?thesis by simp
  qed
  then have "freed s {unat b} t" using bm by (auto simp: freed_def t_def)
  then show ?thesis using e rt by (auto simp: t_def)
qed

section \<open>The loops of \<open>itrunc\<close>\<close>

text \<open>The blocks of a list of pointers.\<close>

definition blocks :: "fs \<Rightarrow> nat \<Rightarrow> slot set \<Rightarrow> nat set" where
  "blocks s ip Ls = (\<lambda>L. unat (ptr s ip L)) ` {L \<in> Ls. ptr s ip L \<noteq> 0}"

lemma blocks_insert:
  "blocks s ip (insert L Ls) = (if ptr s ip L \<noteq> 0 then {unat (ptr s ip L)} else {}) \<union> blocks s ip Ls"
  by (auto simp: blocks_def)

lemma blocks_other:
  assumes fo: "file_ok s ip" and L: "good L" "ptr s ip L \<noteq> 0" "L \<notin> Ls" and g: "\<And>M. M \<in> Ls \<Longrightarrow> good M"
  shows "unat (ptr s ip L) \<notin> blocks s ip Ls"
proof
  assume "unat (ptr s ip L) \<in> blocks s ip Ls"
  then obtain M where M: "M \<in> Ls" "unat (ptr s ip L) = unat (ptr s ip M)" by (auto simp: blocks_def)
  then have "ptr s ip L = ptr s ip M" by (simp add: word_unat_eq_iff)
  then have "L = M" using file_okD(2) [OF fo L(1) g [OF M(1)] L(2)] by simp
  then show False using L(3) M(1) by simp
qed

text \<open>What the caller of \<open>itrunc\<close> provides: the superblock is no part of the file.\<close>

definition trunc_ready :: "fs \<Rightarrow> nat \<Rightarrow> bool" where
  "trunc_ready s ip \<longleftrightarrow> ready s ip \<and> sb_ok s \<and> (\<forall>L. good L \<longrightarrow> ptr s ip L \<noteq> 1)"

lemma free_one:
  assumes tr: "trunc_ready s ip" and fr: "freed s (blocks s ip Ls) t"
    and L: "good L" "ptr s ip L \<noteq> 0" "L \<notin> Ls" and g: "\<And>M. M \<in> Ls \<Longrightarrow> good M"
    and h: "1 \<notin> held u" "\<And>a. a \<in> held u \<Longrightarrow> \<not> bitmap_block s a" and u: "u = t\<lparr>held := H\<rparr>"
    and rm: "room u A k" "bitmap s \<subseteq> A"
  shows "\<exists>v. bfree (ptr s ip L) u = Some v \<and> freed s (blocks s ip (insert L Ls)) (v\<lparr>held := held s\<rparr>) \<and>
    held v = held u \<and> icache v = icache t \<and> room v A k"
proof -
  have fo: "file_ok s ip" using tr by (simp add: trunc_ready_def ready_def)
  have r: "reserved s (ptr s ip L)" using fo L(1,2) by (rule file_okD(1))
  have sbt: "sb_ok t" using tr fr by (auto simp: trunc_ready_def intro: sb_ok_freed)
  have bb: "bitmap_block t = bitmap_block s" using bitmap_block_cong [OF freedD(1) [OF fr]] .
  have same: "used u = used t" "bitmap_block u = bitmap_block t" "n_blocks u = n_blocks t"
    by (simp_all add: u used_def fun_eq_iff BBLOCK_def bitmap_block_def n_blocks_def)
  have nb: "n_blocks t = n_blocks s" using freedD(1) [OF fr] by (simp add: n_blocks_def)
  have sbu: "sb_ok u" using sbt by (simp add: sb_ok_def same) (simp add: u)
  have "used t (unat (ptr s ip L))"
    using freedD(4) [OF fr] r blocks_other [OF fo L g] by (auto simp: reserved_def)
  moreover have "bitmap u \<subseteq> A" using rm(2) by (simp add: same bb)
  ultimately have "\<exists>v. bfree (ptr s ip L) u = Some v \<and> freed u {unat (ptr s ip L)} v \<and> icache v = icache u \<and> room v A k"
    using sbu h r rm(1) by (intro bfree_ok) (auto simp: same bb nb reserved_def)
  then obtain v where v: "bfree (ptr s ip L) u = Some v" "freed u {unat (ptr s ip L)} v" "icache v = icache u" "room v A k"
    by blast
  have sv: "used (v\<lparr>held := held s\<rparr>) = used v" by (simp add: used_def fun_eq_iff BBLOCK_def)
  have "freed t {unat (ptr s ip L)} (v\<lparr>held := held s\<rparr>)"
    using v(2) freedD(2) [OF fr] unfolding freed_def same sv by (simp add: u)
  from freed_trans [OF fr this] have "freed s (blocks s ip (insert L Ls)) (v\<lparr>held := held s\<rparr>)"
    using L(2) by (simp add: blocks_insert)
  then show ?thesis using v freedD(2) [OF v(2)] by (auto simp: u)
qed

lemma direct_loop:
  assumes tr: "trunc_ready s ip" and rm: "room s A k" "bitmap s \<subseteq> A"
  shows "\<exists>t. for_opt [0..<NDIRECT] (\<lambda>i s.
      let a = d_addrs (i_node (icache s ip)) i in
      if a \<noteq> 0 then do {
        s \<leftarrow> bfree a s;
        Some (upd_node ip (\<lambda>d. d\<lparr>d_addrs := (d_addrs d)(i := 0)\<rparr>) s) }
      else Some s) s = Some t \<and>
    freed s (blocks s ip (Top ` {0..<11})) t \<and>
    icache t = icache (upd_node ip (\<lambda>d. d\<lparr>d_addrs := (\<lambda>j. if j < 11 then 0 else d_addrs d j)\<rparr>) s) \<and> room t A k"
proof (rule for_opt_rule [where J = "\<lambda>i t. freed s (blocks s ip (Top ` {0..<i})) t \<and>
    icache t = icache (upd_node ip (\<lambda>d. d\<lparr>d_addrs := (\<lambda>j. if j < i then 0 else d_addrs d j)\<rparr>) s) \<and> room t A k"])
  show "freed s (blocks s ip (Top ` {0..<0})) s \<and>
    icache s = icache (upd_node ip (\<lambda>d. d\<lparr>d_addrs := (\<lambda>j. if j < 0 then 0 else d_addrs d j)\<rparr>) s) \<and> room s A k"
    using rm(1) by (simp add: freed_refl blocks_def upd_node_def upd_inode_def)
next
  fix i t
  assume i: "i < 11" and J: "freed s (blocks s ip (Top ` {0..<i})) t \<and>
    icache t = icache (upd_node ip (\<lambda>d. d\<lparr>d_addrs := (\<lambda>j. if j < i then 0 else d_addrs d j)\<rparr>) s) \<and> room t A k"
  have ins: "Top ` {0..<Suc i} = insert (Top i) (Top ` {0..<i})" by (simp add: atLeastLessThanSuc)
  have a: "d_addrs (i_node (icache t ip)) i = ptr s ip (Top i)"
    using J by (simp add: upd_node_def upd_inode_def addrs_def)
  have step: "(\<lambda>j. if j < Suc i then 0 else f j) = (\<lambda>j. if j < i then 0 else f j)(i := 0)" for f :: "nat \<Rightarrow> u32"
    by auto
  show "\<exists>t'. (let a = d_addrs (i_node (icache t ip)) i in
      if a \<noteq> 0 then do {
        s \<leftarrow> bfree a t;
        Some (upd_node ip (\<lambda>d. d\<lparr>d_addrs := (d_addrs d)(i := 0)\<rparr>) s) }
      else Some t) = Some t' \<and> freed s (blocks s ip (Top ` {0..<Suc i})) t' \<and>
    icache t' = icache (upd_node ip (\<lambda>d. d\<lparr>d_addrs := (\<lambda>j. if j < Suc i then 0 else d_addrs d j)\<rparr>) s) \<and> room t' A k"
  proof (cases "ptr s ip (Top i) = 0")
    case True
    have "(\<lambda>j. if j < Suc i then 0 else d_addrs (i_node (icache s ip)) j) =
        (\<lambda>j. if j < i then 0 else d_addrs (i_node (icache s ip)) j)"
      using True by (auto simp: less_Suc_eq addrs_def)
    then show ?thesis using J True unfolding a
      by (simp add: ins blocks_insert addrs_def upd_node_def upd_inode_def Let_def)
  next
    case False
    have ht: "held t = {}" "t\<lparr>held := {}\<rparr> = t"
      using freedD(2) [of s _ t] J tr by (auto simp: trunc_ready_def ready_def)
    have ni: "Top i \<notin> Top ` {0..<i}" and gi: "\<And>M. M \<in> Top ` {0..<i} \<Longrightarrow> good M" using i by auto
    obtain v where v: "bfree (ptr s ip (Top i)) t = Some v"
      "freed s (blocks s ip (insert (Top i) (Top ` {0..<i}))) (v\<lparr>held := held s\<rparr>)"
      "held v = held t" "icache v = icache t" "room v A k"
      using free_one [OF tr, of "Top ` {0..<i}" t "Top i" t "{}" A k] J False i ht ni gi rm(2) by auto
    let ?w = "upd_node ip (\<lambda>d. d\<lparr>d_addrs := (d_addrs d)(i := 0)\<rparr>) v"
    have "held v = held s" using v(3) ht tr by (simp add: trunc_ready_def ready_def)
    then have "v\<lparr>held := held s\<rparr> = v" by simp
    then have "freed s (blocks s ip (Top ` {0..<Suc i})) v" using v(2) by (simp add: ins)
    then have "freed s (blocks s ip (Top ` {0..<Suc i})) ?w"
      unfolding freed_def by (simp add: used_upd) (simp add: upd_node_def upd_inode_def)
    moreover have "icache ?w = icache (upd_node ip (\<lambda>d. d\<lparr>d_addrs := (\<lambda>j. if j < Suc i then 0 else d_addrs d j)\<rparr>) s)"
      using J v(4) by (simp add: upd_node_def upd_inode_def step)
    moreover have "room ?w A k" using v(5) by (simp add: room_def upd_node_def upd_inode_def)
    ultimately show ?thesis using False v(1) unfolding a by (auto simp: Let_def)
  qed
qed

text \<open>The pointers that \<open>itrunc\<close> follows.\<close>

definition short_slots :: "slot set" where
  "short_slots = Top ` {0..<12} \<union> Ind ` {0..<128}"

lemma indirect_loop:
  assumes tr: "trunc_ready s ip" and fr: "freed s (blocks s ip Ls) t" and a: "a = ptr s ip (Top 11)" "a \<noteq> 0"
    and Ls: "Ls = Top ` {0..<11}" and u: "u = t\<lparr>held := {a}\<rparr>" and rm: "room t A k" "bitmap s \<subseteq> A"
  shows "\<exists>v. for_opt [0..<NINDIRECT] (\<lambda>j r.
      if load32 (disk s a) (4 * j) \<noteq> 0 then bfree (load32 (disk s a) (4 * j)) r else Some r) u = Some v \<and>
    freed s (blocks s ip (Ls \<union> Ind ` {0..<128})) (v\<lparr>held := {}\<rparr>) \<and> held v = {a} \<and> icache v = icache t \<and> room v A k"
proof -
  have h: "held s = {}" and fo: "file_ok s ip" using tr by (simp_all add: trunc_ready_def ready_def)
  have ra: "reserved s a" using file_okD(1) [OF fo, of "Top 11"] a by simp
  have a1: "a \<noteq> 1" using tr a(1) by (auto simp: trunc_ready_def simp del: ptr.simps)
  have tt: "t\<lparr>held := {}\<rparr> = t" using freedD(2) [OF fr] h by simp
  have w: "load32 (disk s a) (4 * j) = ptr s ip (Ind j)" for j
    using a by (simp add: word_at_def)
  show ?thesis unfolding w
  proof (rule for_opt_rule [where J = "\<lambda>i v. freed s (blocks s ip (Ls \<union> Ind ` {0..<i})) (v\<lparr>held := {}\<rparr>) \<and>
      held v = {a} \<and> icache v = icache t \<and> room v A k"])
    show "freed s (blocks s ip (Ls \<union> Ind ` {0..<0})) (u\<lparr>held := {}\<rparr>) \<and> held u = {a} \<and> icache u = icache t \<and> room u A k"
      using fr tt rm(1) by (simp add: u room_def)
  next
    fix i v
    assume i: "i < 128" and J: "freed s (blocks s ip (Ls \<union> Ind ` {0..<i})) (v\<lparr>held := {}\<rparr>) \<and>
      held v = {a} \<and> icache v = icache t \<and> room v A k"
    let ?I = "Ls \<union> Ind ` {0..<i}"
    have ins: "Ls \<union> Ind ` {0..<Suc i} = insert (Ind i) ?I" by (auto simp: atLeastLessThanSuc)
    have ni: "Ind i \<notin> ?I" and gi: "\<And>M. M \<in> ?I \<Longrightarrow> good M" using i by (auto simp: Ls)
    have hv: "1 \<notin> held v" "\<And>b. b \<in> held v \<Longrightarrow> \<not> bitmap_block s b" "v = v\<lparr>held := {}\<rparr>\<lparr>held := {a}\<rparr>"
      using J a1 ra by (auto simp: reserved_def)
    show "\<exists>v'. (if ptr s ip (Ind i) \<noteq> 0 then bfree (ptr s ip (Ind i)) v else Some v) = Some v' \<and>
      freed s (blocks s ip (Ls \<union> Ind ` {0..<Suc i})) (v'\<lparr>held := {}\<rparr>) \<and> held v' = {a} \<and> icache v' = icache t \<and> room v' A k"
    proof (cases "ptr s ip (Ind i) = 0")
      case True
      then show ?thesis using J unfolding ins by (simp add: blocks_insert del: ptr.simps)
    next
      case False
      have "\<exists>w. bfree (ptr s ip (Ind i)) v = Some w \<and> freed s (blocks s ip (insert (Ind i) ?I)) (w\<lparr>held := held s\<rparr>) \<and>
          held w = held v \<and> icache w = icache (v\<lparr>held := {}\<rparr>) \<and> room w A k"
        using J i rm(2) by (intro free_one [OF tr _ _ False ni gi hv]) auto
      then show ?thesis using J False h unfolding ins by (auto simp del: ptr.simps)
    qed
  qed
qed

definition truncated :: "dinode \<Rightarrow> dinode" where
  "truncated d = d\<lparr>d_addrs := (\<lambda>j. if j < 12 then 0 else d_addrs d j), d_size := 0\<rparr>"

lemma short_slots_split: "short_slots = insert (Top 11) (Top ` {0..<11} \<union> Ind ` {0..<128})"
proof -
  have "{0..<12} = insert 11 {0..<11 :: nat}" by auto
  then show ?thesis by (simp add: short_slots_def)
qed

text \<open>The pointers below an empty one are empty.\<close>

lemma blocks_no_indirect:
  assumes "ptr s ip (Top 11) = 0"
  shows "blocks s ip short_slots = blocks s ip (Top ` {0..<11})"
  using assms by (auto simp: blocks_def short_slots_split word_at_def)

lemma itrunc_tail:
  assumes tr: "trunc_ready s ip" and fr: "freed s (blocks s ip short_slots) t"
    and ic: "icache t = icache (upd_node ip (\<lambda>d. d\<lparr>d_addrs := (\<lambda>j. if j < 12 then 0 else d_addrs d j)\<rparr>) s)"
    and rm: "room t A k" "iblk s ip \<in> A"
  shows "\<exists>u. iupdate ip (upd_node ip (\<lambda>d. d\<lparr>d_size := 0\<rparr>) t) = Some u \<and>
    (\<forall>m < n_blocks s. used u m \<longleftrightarrow> used s m \<and> m \<notin> blocks s ip short_slots) \<and>
    sb u = sb s \<and> held u = {} \<and> icache u = icache (upd_node ip truncated s) \<and>
    disk_inode u ip = clip (i_node (icache u ip)) \<and>
    (\<forall>a. \<not> bitmap_block s a \<longrightarrow> a \<noteq> iblk s ip \<longrightarrow> disk u a = disk s a) \<and> room u A k"
proof -
  let ?v = "upd_node ip (\<lambda>d. d\<lparr>d_size := 0\<rparr>) t"
  have h: "held s = {}" and ri: "reserved s (iblk s ip)"
    using tr by (simp_all add: trunc_ready_def ready_def file_ok_def)
  have hv: "held ?v = {}" using freedD(2) [OF fr] h by (simp add: upd_node_def upd_inode_def)
  have icv: "icache ?v = icache (upd_node ip truncated s)"
    by (simp add: truncated_def upd_node_def upd_inode_def ic)
  have sbv: "sb ?v = sb s" using freedD(1) [OF fr] by (simp add: upd_node_def upd_inode_def)
  have ib: "iblk ?v ip = iblk s ip"
    unfolding iblk_def IBLOCK_def icv sbv by (simp add: upd_node_def upd_inode_def)
  have rv: "room ?v A k" using rm(1) by (simp add: room_def upd_node_def upd_inode_def)
  have iA: "iblk ?v ip \<in> A" using rm(2) by (simp add: ib)
  define u where "u = put_log (iblk s ip)
    (put_dinode (disk ?v (iblk s ip)) (unat (i_inum (icache ?v ip)) mod 8) (i_node (icache ?v ip))) ?v"
  have ru: "room u A k" unfolding u_def by (rule log_write_room(2) [OF rv rm(2)])
  have e: "iupdate ip ?v = Some u" using iupdate_eq [OF hv rv iA] by (simp only: u_def ib)
  have u: "sb u = sb s" "held u = {}" "icache u = icache ?v" "disk u = (disk ?v)(iblk s ip :=
    put_dinode (disk ?v (iblk s ip)) (unat (i_inum (icache ?v ip)) mod 8) (i_node (icache ?v ip)))"
    using sbv hv by (simp_all add: u_def)
  have dv: "disk ?v = disk t" by (simp add: upd_node_def upd_inode_def)
  have nb: "\<not> bitmap_block s (iblk s ip)" using ri by (simp add: reserved_def)
  have "used u m \<longleftrightarrow> used s m \<and> m \<notin> blocks s ip short_slots" if m: "m < n_blocks s" for m
  proof -
    have "BBLOCK m ?v = BBLOCK m s" unfolding BBLOCK_def sbv ..
    then have "BBLOCK m ?v \<noteq> iblk s ip" using nb bitmap_block_BBLOCK [OF m] by metis
    then have "used u m = used ?v m" by (intro used_cong) (simp_all add: u sbv)
    then show ?thesis using freedD(4) [OF fr m] by (simp add: used_upd)
  qed
  moreover have "disk_inode u ip = clip (i_node (icache u ip))"
  proof -
    have "iblk u ip = iblk s ip" using ib by (simp add: iblk_def IBLOCK_def u(1,3) sbv)
    then show ?thesis unfolding disk_inode_def by (simp add: u(3,4) get_put_same clip_def)
  qed
  moreover have "disk u a = disk s a" if "\<not> bitmap_block s a" "a \<noteq> iblk s ip" for a
    using that freedD(3) [OF fr] by (simp add: u(4) dv)
  ultimately show ?thesis using e u icv ru by auto
qed

lemma itrunc_ok:
  assumes tr: "trunc_ready s ip" and rm: "room s A k" "bitmap s \<subseteq> A" "iblk s ip \<in> A"
  shows "\<exists>u. itrunc ip s = Some u \<and>
    (\<forall>m < n_blocks s. used u m \<longleftrightarrow> used s m \<and> m \<notin> blocks s ip short_slots) \<and>
    sb u = sb s \<and> held u = {} \<and> icache u = icache (upd_node ip truncated s) \<and>
    disk_inode u ip = clip (i_node (icache u ip)) \<and>
    (\<forall>a. \<not> bitmap_block s a \<longrightarrow> a \<noteq> iblk s ip \<longrightarrow> disk u a = disk s a) \<and> room u A k"
proof -
  have h: "held s = {}" and fo: "file_ok s ip" using tr by (simp_all add: trunc_ready_def ready_def)
  obtain t where t: "for_opt [0..<NDIRECT] (\<lambda>i s.
      let a = d_addrs (i_node (icache s ip)) i in
      if a \<noteq> 0 then do {
        s \<leftarrow> bfree a s;
        Some (upd_node ip (\<lambda>d. d\<lparr>d_addrs := (d_addrs d)(i := 0)\<rparr>) s) }
      else Some s) s = Some t"
    and fr: "freed s (blocks s ip (Top ` {0..<11})) t"
    and ic: "icache t = icache (upd_node ip (\<lambda>d. d\<lparr>d_addrs := (\<lambda>j. if j < 11 then 0 else d_addrs d j)\<rparr>) s)"
    and rt: "room t A k"
    using direct_loop [OF tr rm(1,2)] by blast
  define a where "a = ptr s ip (Top 11)"
  have ai: "d_addrs (i_node (icache t ip)) 11 = a"
    by (simp add: ic a_def addrs_def) (simp add: upd_node_def upd_inode_def)
  have step: "(\<lambda>j. if j < 12 then 0 else f j) = (\<lambda>j. if j < 11 then 0 else f j)(11 := 0)" for f :: "nat \<Rightarrow> u32"
    by (auto simp: fun_eq_iff)
  have ht: "held t = {}" using freedD(2) [OF fr] h by simp
  show ?thesis
  proof (cases "a = 0")
    case True
    have "(\<lambda>j. if j < 12 then 0 else d_addrs (i_node (icache s ip)) j) =
        (\<lambda>j. if j < 11 then 0 else d_addrs (i_node (icache s ip)) j)"
      using True unfolding step by (auto simp: a_def addrs_def fun_eq_iff)
    then have "icache t = icache (upd_node ip (\<lambda>d. d\<lparr>d_addrs := (\<lambda>j. if j < 12 then 0 else d_addrs d j)\<rparr>) s)"
      by (simp add: ic) (simp add: upd_node_def upd_inode_def)
    moreover have "freed s (blocks s ip short_slots) t"
      using fr blocks_no_indirect True by (simp add: a_def)
    moreover have "itrunc ip s = iupdate ip (upd_node ip (\<lambda>d. d\<lparr>d_size := 0\<rparr>) t)"
      unfolding itrunc_def t by (simp add: ai True)
    ultimately show ?thesis using itrunc_tail [OF tr, of t] rt rm(3) by simp
  next
    case False
    have ra: "reserved s a" using file_okD(1) [OF fo, of "Top 11"] False by (simp add: a_def)
    have da: "disk t a = disk s a" using freedD(3) [OF fr] ra by (simp add: reserved_def)
    have b: "bread a t = Some (disk s a, t\<lparr>held := {a}\<rparr>)" using ht da by (simp add: bread_def)
    obtain v where v: "for_opt [0..<NINDIRECT] (\<lambda>j r.
        if load32 (disk s a) (4 * j) \<noteq> 0 then bfree (load32 (disk s a) (4 * j)) r else Some r)
        (t\<lparr>held := {a}\<rparr>) = Some v"
      "freed s (blocks s ip (Top ` {0..<11} \<union> Ind ` {0..<128})) (v\<lparr>held := {}\<rparr>)" "held v = {a}"
      "icache v = icache t" "room v A k"
      using indirect_loop [OF tr fr a_def False refl refl rt rm(2)] by blast
    have rv: "room (v\<lparr>held := {}\<rparr>) A k" using v(5) by (simp add: room_def)
    have r: "brelse a v = Some (v\<lparr>held := {}\<rparr>)" using v(3) by (simp add: brelse_def)
    have ni: "Top 11 \<notin> Top ` {0..<11} \<union> Ind ` {0..<128}"
      and gi: "\<And>M. M \<in> Top ` {0..<11} \<union> Ind ` {0..<128} \<Longrightarrow> good M" by auto
    obtain w where w: "bfree a (v\<lparr>held := {}\<rparr>) = Some w" "freed s (blocks s ip short_slots) (w\<lparr>held := held s\<rparr>)"
      "held w = {}" "icache w = icache v" "room w A k"
      using free_one [OF tr v(2), of "Top 11" "v\<lparr>held := {}\<rparr>" "{}" A k] False ni gi rv rm(2)
      by (auto simp: short_slots_split a_def)
    let ?x = "upd_node ip (\<lambda>d. d\<lparr>d_addrs := (d_addrs d)(NDIRECT := 0)\<rparr>) w"
    have ww: "w\<lparr>held := held s\<rparr> = w" using w(3) h by simp
    have "freed s (blocks s ip short_slots) ?x"
      using w(2) unfolding ww freed_def by (simp add: used_upd) (simp add: upd_node_def upd_inode_def)
    moreover have "icache ?x = icache (upd_node ip (\<lambda>d. d\<lparr>d_addrs := (\<lambda>j. if j < 12 then 0 else d_addrs d j)\<rparr>) s)"
      using w(4) v(4) ic by (simp add: upd_node_def upd_inode_def step)
    moreover have "itrunc ip s = iupdate ip (upd_node ip (\<lambda>d. d\<lparr>d_size := 0\<rparr>) ?x)"
      unfolding itrunc_def t using False b v(1) r w(1) by (simp add: ai)
    moreover have "room ?x A k" using w(5) by (simp add: room_def upd_node_def upd_inode_def)
    ultimately show ?thesis using itrunc_tail [OF tr, of ?x] rm(3) by simp
  qed
qed

end
