(* ===== verification/FsSpec.thy ===== *)
theory FsSpec
  imports FsRw FsTrunc
begin

text \<open>
  The file system against its specification: a file is a sequence of bytes, its pointers a
  finite map from block numbers to disk blocks, the bitmap the set of blocks that are taken.
\<close>

section \<open>Reading and writing\<close>

abbreviation fsize :: "fs \<Rightarrow> nat \<Rightarrow> nat" where
  "fsize s ip \<equiv> unat (d_size (i_node (icache s ip)))"

text \<open>A file all of whose bytes have their blocks.\<close>

definition whole :: "fs \<Rightarrow> nat \<Rightarrow> bool" where
  "whole s ip \<longleftrightarrow> ready s ip \<and> fsize s ip \<le> FILE_BLOCKS * 512 \<and> present s ip 0 (fsize s ip)"

text \<open>
  What an operation on a file logs besides blocks of the file: the bitmap and the block of the inode. A
  write logs at most three other blocks for each block that it touches: the block, and on the way to
  it the indirect block or the doubly indirect block and an entry of it.
\<close>

abbreviation meta :: "fs \<Rightarrow> nat \<Rightarrow> u32 set" where
  "meta s ip \<equiv> insert (iblk s ip) (bitmap s)"

lemma unat_le: "a \<le> b \<longleftrightarrow> unat a \<le> unat (b :: u32)"
  by (rule word_le_nat_alt)

lemma readi_ok:
  assumes w: "whole s ip" and ty: "d_type (i_node (icache s ip)) \<noteq> T_DEV"
    and off: "unat off \<le> fsize s ip" and n: "unat off + unat n < 2 ^ 32"
  defines "m \<equiv> min (unat n) (fsize s ip - unat off)"
  shows "readi dev ip dst off n s =
    Some (int m, \<lambda>i. if i < m then fbyte s ip (unat off + i) else dst i, s)"
proof -
  define r where "r = (if off + n > d_size (i_node (icache s ip)) then d_size (i_node (icache s ip)) - off else n)"
  have s: "unat (off + n) = unat off + unat n" using n by (rule unat_add_fits)
  have nov: "\<not> off + n < off" using s by (simp add: word_less_nat_alt)
  have le: "\<not> off > d_size (i_node (icache s ip))" using off by (simp add: word_less_nat_alt)
  have r: "unat r = m"
    using s le by (auto simp: r_def m_def unat_sub_le unat_le word_less_nat_alt)
  have sz: "fsize s ip \<le> FILE_BLOCKS * 512" and p: "present s ip 0 (fsize s ip)" and rd: "ready s ip"
    using w by (simp_all add: whole_def)
  have b: "unat off + m \<le> fsize s ip" using off by (simp add: m_def)
  have "read_loop ip r 0 off dst s = Some (\<lambda>i. if unat (0 :: u32) \<le> i \<and> i < unat r
      then fbyte s ip (unat off + (i - unat (0 :: u32))) else dst i, s)"
    using r b sz p by (intro read_loop_ok [OF rd]) (simp_all add: present_def)
  then have "read_loop ip r 0 off dst s = Some (\<lambda>i. if i < m then fbyte s ip (unat off + i) else dst i, s)"
    by (simp add: r cong: if_cong)
  moreover have "sint r = int m"
  proof -
    have "m < 2 ^ 31" using b sz by simp
    then have "sint r = int (unat r)" using r by (intro sint_small) simp
    then show ?thesis by (simp only: r)
  qed
  ultimately show ?thesis
    using ty nov le r by (simp add: readi_def Let_def flip: r_def)
qed

lemma writei_ok:
  assumes w: "whole s ip" and ty: "d_type (i_node (icache s ip)) \<noteq> T_DEV"
    and off: "unat off \<le> fsize s ip" and n: "unat off + unat n \<le> FILE_BLOCKS * 512"
    and fr: "3 * span (unat off) (unat n) \<le> card (free s)"
    and rm: "room s (meta s ip) (3 * span (unat off) (unat n))"
  shows "\<exists>t. writei dev ip src off n s = Some (int (unat n), t) \<and> whole t ip \<and>
    fsize t ip = max (fsize s ip) (unat off + unat n) \<and>
    d_type (i_node (icache t ip)) = d_type (i_node (icache s ip)) \<and>
    (\<forall>k < FILE_BLOCKS * 512. fbyte t ip k =
      (if unat off \<le> k \<and> k < unat off + unat n then src (k - unat off) else fbyte s ip k)) \<and>
    (fsize s ip < fsize t ip \<longrightarrow> disk_inode t ip = clip (i_node (icache t ip))) \<and>
    (\<forall>jp. jp \<noteq> ip \<longrightarrow> icache t jp = icache s jp) \<and>
    (\<forall>a. reserved s a \<longrightarrow> (\<forall>L. good L \<longrightarrow> ptr s ip L \<noteq> a) \<longrightarrow> a \<noteq> iblk s ip \<longrightarrow> disk t a = disk s a)"
proof -
  let ?size = "d_size (i_node (icache s ip))"
  have sz: "fsize s ip \<le> FILE_BLOCKS * 512" and p: "present s ip 0 (fsize s ip)" and rd: "ready s ip"
    using w by (simp_all add: whole_def)
  have s: "unat (off + n) = unat off + unat n" using n by (intro unat_add_fits) simp
  have nov: "\<not> off + n < off" using s by (simp add: word_less_nat_alt)
  have le: "\<not> off > ?size" using off by (simp add: word_less_nat_alt)
  have fit: "\<not> off + n > MAXFILE * BSIZE" using s n by (simp add: word_less_nat_alt)
  have sn: "sint n = int (unat n)"
    using n by (intro sint_small) simp
  let ?F = "\<lambda>k. if unat off \<le> k \<and> k < unat off + unat n then src (k - unat off) else fbyte s ip k"
  obtain u where l: "write_loop ip n 0 off src s = Some (off + n, u)" and u: "updated s ip ?F u"
    and pu: "present u ip (unat off) (unat n)"
    and ro: "room u (meta s ip) 0"
    using write_loop_ok [OF rd, of 0 n off "meta s ip" src] n fr rm room_mono [OF rm order_refl, of 0] by (auto cong: if_cong)
  note U = updatedD [OF u]
  have ru: "ready u ip" using rd u by (rule updated_ready)
  obtain A where A: "icache u = icache (upd_node ip (\<lambda>d. d\<lparr>d_addrs := A\<rparr>) s)" using U(3) by blast
  have nu: "i_node (icache u ip) = (i_node (icache s ip))\<lparr>d_addrs := A\<rparr>"
    by (simp add: A upd_node_def upd_inode_def)
  have ou: "icache u jp = icache s jp" if "jp \<noteq> ip" for jp
    using that by (simp add: A upd_node_def upd_inode_def)
  have iu: "iblk u ip = iblk s ip" using U(1) by (simp add: iblk_def IBLOCK_def A upd_node_def upd_inode_def)
  have pm: "present u ip 0 (max (fsize s ip) (unat off + unat n))" unfolding present_def
  proof (intro allI impI)
    fix k assume k: "k < 0 + max (fsize s ip) (unat off + unat n)"
    have g: "good (slot_of (k div 512))" using k n sz by (intro block_of_byte) (simp add: max_def split: if_splits)
    show "ptr u ip (slot_of (k div 512)) \<noteq> 0"
    proof (cases "k < fsize s ip")
      case True
      then show ?thesis using p U(4) [OF g] by (simp add: present_def)
    next
      case False
      then show ?thesis using pu k off by (simp add: present_def max_def split: if_splits)
    qed
  qed
  show ?thesis
  proof (cases "n > 0 \<and> off + n > ?size")
    case True
    let ?f = "\<lambda>d :: dinode. d\<lparr>d_size := off + n\<rparr>"
    note q = upd_node_same [of ?f ip u]
    have rv: "ready (upd_node ip ?f u) ip" using ru q by simp
    have rov: "room (upd_node ip ?f u) (meta s ip) 0" using ro by (simp add: room_def upd_node_def upd_inode_def)
    have iA: "iblk (upd_node ip ?f u) ip \<in> meta s ip" using q iu by simp
    obtain t where t: "iupdate ip (upd_node ip ?f u) = Some t" "ready t ip"
      "disk_inode t ip = clip (i_node (icache (upd_node ip ?f u) ip))" "icache t = icache (upd_node ip ?f u)"
      "\<forall>k < FILE_BLOCKS * 512. fbyte t ip k = fbyte (upd_node ip ?f u) ip k"
      "\<forall>L. good L \<longrightarrow> ptr t ip L = ptr (upd_node ip ?f u) ip L"
      "\<forall>a. a \<noteq> iblk (upd_node ip ?f u) ip \<longrightarrow> disk t a = disk (upd_node ip ?f u) a"
      using iupdate_ok [OF rv rov iA] by blast
    have nt: "i_node (icache t ip) = (i_node (icache s ip))\<lparr>d_addrs := A, d_size := off + n\<rparr>"
      using nu by (simp add: t(4)) (simp add: upd_node_def upd_inode_def)
    have sz_t: "fsize t ip = unat off + unat n" "unat ?size < unat off + unat n"
      using nt s True by (simp_all add: word_less_nat_alt)
    have "present t ip 0 (fsize t ip)" unfolding present_def
    proof (intro allI impI)
      fix k assume k: "k < 0 + fsize t ip"
      then have "good (slot_of (k div 512))" using sz_t n by (intro block_of_byte) simp
      then show "ptr t ip (slot_of (k div 512)) \<noteq> 0"
        using pm k sz_t t(6) q by (simp add: present_def)
    qed
    then have "whole t ip" using t(2) sz_t n by (simp add: whole_def)
    moreover have "\<forall>k < FILE_BLOCKS * 512. fbyte t ip k = ?F k" using t(5) q U(8) by simp
    moreover have "disk_inode t ip = clip (i_node (icache t ip))" using t(3,4) by simp
    moreover have "icache t jp = icache s jp" if "jp \<noteq> ip" for jp
      using that ou by (simp add: t(4)) (simp add: upd_node_def upd_inode_def)
    moreover have "disk t a = disk s a"
      if "reserved s a" "\<forall>L. good L \<longrightarrow> ptr s ip L \<noteq> a" "a \<noteq> iblk s ip" for a
      using that t(7) U(7) [of a] q iu by (simp add: upd_node_def upd_inode_def)
    moreover have "writei dev ip src off n s = Some (int (unat n), t)"
      using ty nov le fit l t(1) True sn by (simp add: writei_def Let_def)
    ultimately show ?thesis using sz_t nt by (auto simp: max_def)
  next
    case False
    have sz_u: "fsize u ip = fsize s ip" using nu by simp
    have "max (fsize s ip) (unat off + unat n) = fsize s ip"
      using False s off by (auto simp: word_less_nat_alt max_def word_gt_0_no word_neq_0_conv)
    moreover from this have "whole u ip" using ru pm sz sz_u by (simp add: whole_def)
    moreover have "(0 < n \<and> ?size < off + n) = False" using False by simp
    then have "writei dev ip src off n s = Some (int (unat n), u)"
      using ty nov le fit l sn by (simp only: writei_def Let_def simp_thms if_False Option.bind.simps prod.case)
    ultimately show ?thesis using sz_u nu U(8) ou U(7) by auto
  qed
qed

text \<open>
  The contract of a file: \<open>wr off n src\<close> replaces the bytes from \<open>off\<close> and may extend the file,
  \<open>rd off n dst\<close> copies those that exist, both return how many, and reading changes nothing.
\<close>

locale byte_file =
  fixes ok :: "'s \<Rightarrow> bool" and len :: "'s \<Rightarrow> nat" and byte :: "'s \<Rightarrow> nat \<Rightarrow> 'b"
    and room :: "'s \<Rightarrow> nat \<Rightarrow> nat \<Rightarrow> bool" and limit :: nat
    and wr :: "nat \<Rightarrow> nat \<Rightarrow> (nat \<Rightarrow> 'b) \<Rightarrow> 's \<Rightarrow> (int \<times> 's) option"
    and rd :: "nat \<Rightarrow> nat \<Rightarrow> (nat \<Rightarrow> 'b) \<Rightarrow> 's \<Rightarrow> (int \<times> (nat \<Rightarrow> 'b) \<times> 's) option"
  assumes stores: "ok s \<Longrightarrow> off \<le> len s \<Longrightarrow> off + n \<le> limit \<Longrightarrow> room s off n \<Longrightarrow>
      \<exists>t. wr off n src s = Some (int n, t) \<and> ok t \<and> len t = max (len s) (off + n) \<and>
        (\<forall>k < limit. byte t k = (if off \<le> k \<and> k < off + n then src (k - off) else byte s k))"
    and fetches: "ok s \<Longrightarrow> off \<le> len s \<Longrightarrow> off + n \<le> limit \<Longrightarrow>
      rd off n dst s = Some (int (min n (len s - off)),
        \<lambda>i. if i < min n (len s - off) then byte s (off + i) else dst i, s)"
begin

lemma read_back:
  assumes "ok s" "off \<le> len s" "off + n \<le> limit" "room s off n"
  shows "\<exists>t. wr off n src s = Some (int n, t) \<and>
    rd off n dst t = Some (int n, \<lambda>i. if i < n then src i else dst i, t)"
proof -
  obtain t where t: "wr off n src s = Some (int n, t)" "ok t" "len t = max (len s) (off + n)"
    and b: "\<forall>k < limit. byte t k = (if off \<le> k \<and> k < off + n then src (k - off) else byte s k)"
    using stores [OF assms] by blast
  have m: "min n (len t - off) = n" using t(3) by simp
  have "(\<lambda>i. if i < n then byte t (off + i) else dst i) = (\<lambda>i. if i < n then src i else dst i)"
    using b assms(3) by auto
  then show ?thesis using t(1) fetches [OF t(2) _ assms(3), of dst] t(3) by (simp add: m)
qed

text \<open>A write elsewhere in the file does not change what is read.\<close>

lemma read_unaffected:
  assumes "ok s" "off \<le> len s" "off + n \<le> limit" "room s off n" and "o2 + m \<le> len s" "o2 + m \<le> limit"
    and "o2 + m \<le> off \<or> off + n \<le> o2"
  shows "\<exists>t. wr off n src s = Some (int n, t) \<and> map_option (fst \<circ> snd) (rd o2 m dst t) = map_option (fst \<circ> snd) (rd o2 m dst s)"
proof -
  obtain t where t: "wr off n src s = Some (int n, t)" "ok t" "len t = max (len s) (off + n)"
    and b: "\<forall>k < limit. byte t k = (if off \<le> k \<and> k < off + n then src (k - off) else byte s k)"
    using stores [OF assms(1-4)] by blast
  have m: "min m (len t - o2) = m" "min m (len s - o2) = m" using t(3) assms(5) by simp_all
  have "(\<lambda>i. if i < m then byte t (o2 + i) else dst i) = (\<lambda>i. if i < m then byte s (o2 + i) else dst i)"
    using b assms(6,7) by auto
  then show ?thesis using t(1) fetches [OF t(2) _ assms(6), of dst] fetches [OF assms(1) _ assms(6), of dst] t(3) assms(5)
    by (simp add: m)
qed

end

lemma unat_offset: "a \<le> FILE_BLOCKS * 512 \<Longrightarrow> unat (word_of_nat a :: u32) = a"
  by (simp add: unat_of_nat take_bit_nat_eq_self)

interpretation xv6: byte_file "\<lambda>s. whole s ip \<and> d_type (i_node (icache s ip)) \<noteq> T_DEV"
  "\<lambda>s. fsize s ip" "\<lambda>s. fbyte s ip" "\<lambda>s off n. 3 * span off n \<le> card (free s) \<and> room s (meta s ip) (3 * span off n)" "FILE_BLOCKS * 512"
  "\<lambda>off n src. writei dev ip src (word_of_nat off) (word_of_nat n)"
  "\<lambda>off n dst. readi dev ip dst (word_of_nat off) (word_of_nat n)" for dev ip
proof
  fix s off n and src :: bytes
  assume ok: "whole s ip \<and> d_type (i_node (icache s ip)) \<noteq> T_DEV" and off: "off \<le> fsize s ip"
    and n: "off + n \<le> FILE_BLOCKS * 512" and room: "3 * span off n \<le> card (free s) \<and> room s (meta s ip) (3 * span off n)"
  have u: "unat (word_of_nat off :: u32) = off" "unat (word_of_nat n :: u32) = n"
    using n by (intro unat_offset; simp)+
  show "\<exists>t. writei dev ip src (word_of_nat off) (word_of_nat n) s = Some (int n, t) \<and>
      (whole t ip \<and> d_type (i_node (icache t ip)) \<noteq> T_DEV) \<and> fsize t ip = max (fsize s ip) (off + n) \<and>
      (\<forall>k < FILE_BLOCKS * 512. fbyte t ip k = (if off \<le> k \<and> k < off + n then src (k - off) else fbyte s ip k))"
    using writei_ok [of s ip "word_of_nat off" "word_of_nat n" dev src, unfolded u] ok off n room by auto
next
  fix s off n and dst :: bytes
  assume ok: "whole s ip \<and> d_type (i_node (icache s ip)) \<noteq> T_DEV" and off: "off \<le> fsize s ip"
    and n: "off + n \<le> FILE_BLOCKS * 512"
  have u: "unat (word_of_nat off :: u32) = off" "unat (word_of_nat n :: u32) = n"
    using n by (intro unat_offset; simp)+
  show "readi dev ip dst (word_of_nat off) (word_of_nat n) s = Some (int (min n (fsize s ip - off)),
      \<lambda>i. if i < min n (fsize s ip - off) then fbyte s ip (off + i) else dst i, s)"
    using readi_ok [of s ip "word_of_nat off" "word_of_nat n" dev dst, unfolded u] ok off n by simp
qed

section \<open>Looking up without allocating\<close>

lemma find_entry_found:
  assumes "held s = {}" "load32 (disk s b) (4 * i) \<noteq> 0"
  shows "find_entry b i s = Some (load32 (disk s b) (4 * i), s)"
  using assms by (simp add: find_entry_def bread_def brelse_def Let_def)

lemma find_entry_hole:
  assumes "held s = {}" "load32 (disk s b) (4 * i) = 0"
  shows "find_entry b i s = Some (0, s\<lparr>held := {b}\<rparr>)"
  using assms by (simp add: find_entry_def bread_def Let_def)

lemma bmap2_found:
  assumes h: "held s = {}" and bn: "unat bn < FILE_BLOCKS" and p: "ptr s ip (slot_of (unat bn)) \<noteq> 0"
  shows "bmap2 ip bn s = Some (ptr s ip (slot_of (unat bn)), s)"
proof -
  define n where "n = unat bn"
  consider "n < 11" | "11 \<le> n" "n < 139" | "139 \<le> n" by linarith
  then show ?thesis
  proof cases
    case 1
    then show ?thesis using p by (simp add: bmap2_def slot_of_def addrs_def Let_def n_def)
  next
    case 2
    then have i: "\<not> n < 11" "n - 11 < 128" by linarith+
    have w: "ptr s ip (slot_of n) = word_at s (addrs s ip 11) (n - 11)" using 2 by (simp add: slot_of_def)
    then have "addrs s ip 11 \<noteq> 0" "load32 (disk s (addrs s ip 11)) (4 * (n - 11)) \<noteq> 0"
      using p by (auto simp: word_at_def n_def split: if_splits)
    then show ?thesis using find_entry_found [OF h] i w
      by (simp add: bmap2_def Let_def word_at_def addrs_def flip: n_def)
  next
    case 3
    then have i: "\<not> n < 11" "\<not> n - 11 < 128" "n - 11 - 128 = n - 139" "n - 139 < 128 * 128"
      using bn unfolding n_def by linarith+
    let ?a = "addrs s ip 12" and ?j = "(n - 139) div 128" and ?k = "(n - 139) mod 128"
    have w: "ptr s ip (slot_of n) = word_at s (word_at s ?a ?j) ?k" using 3 by (simp add: slot_of_def)
    then have b: "?a \<noteq> 0" "load32 (disk s ?a) (4 * ?j) \<noteq> 0"
      "load32 (disk s (load32 (disk s ?a) (4 * ?j))) (4 * ?k) \<noteq> 0"
      using p by (auto simp: word_at_def n_def split: if_splits)
    show ?thesis using find_entry_found [OF h b(2)] find_entry_found [OF h b(3)] b i w
      by (simp add: bmap2_def Let_def word_at_def addrs_def flip: n_def)
  qed
qed

lemma bread_held: "b \<in> held s \<Longrightarrow> bread b s = None"
  by (simp add: bread_def)

lemma bmap2_hole:
  assumes h: "held s = {}" and bn: "11 \<le> unat bn" "unat bn < 139"
    and a: "ptr s ip (Top 11) \<noteq> 0" and z: "ptr s ip (Ind (unat bn - 11)) = 0"
  shows "bmap2 ip bn s = Some (-1, s\<lparr>held := {ptr s ip (Top 11)}\<rparr>)"
proof -
  define n where "n = unat bn"
  have i: "\<not> n < 11" "n - 11 < 128" using bn unfolding n_def by linarith+
  have "load32 (disk s (addrs s ip 11)) (4 * (n - 11)) = 0" using a z by (simp add: word_at_def n_def)
  then show ?thesis using find_entry_hole [OF h] i a
    by (simp add: bmap2_def Let_def addrs_def flip: n_def)
qed

lemma bmap_waits:
  assumes bn: "11 \<le> unat bn" "unat bn < 139" and a: "addrs s ip 11 \<noteq> 0" "addrs s ip 11 \<in> held s"
  shows "bmap ip bn s = None"
proof -
  define n where "n = unat bn"
  have i: "\<not> n < 11" "n - 11 < 128" using bn unfolding n_def by linarith+
  then show ?thesis using a bread_held [OF a(2)]
    by (simp add: bmap_def Let_def inode_entry_def block_entry_def addrs_def flip: n_def)
qed

section \<open>Inodes\<close>

text \<open>The pointers depend on the disk and on the addresses of the inode.\<close>

lemma trunc_ready_lock: "trunc_ready (upd_inode ip (\<lambda>i. i\<lparr>i_locked := b\<rparr>) s) ip \<longleftrightarrow> trunc_ready s ip"
proof -
  let ?t = "upd_inode ip (\<lambda>i. i\<lparr>i_locked := b\<rparr>) s"
  have d: "disk ?t = disk s" "sb ?t = sb s" "held ?t = held s" by (simp_all add: upd_inode_def)
  have a: "addrs ?t ip i = addrs s ip i" for i by (simp add: addrs_def upd_inode_def)
  have w: "word_at ?t = word_at s" by (simp add: fun_eq_iff word_at_def d)
  have p: "ptr ?t ip L = ptr s ip L" for L by (cases L) (simp_all add: a w)
  have bb: "BBLOCK n ?t = BBLOCK n s" for n by (simp add: BBLOCK_def d)
  have u: "used ?t = used s" "n_blocks ?t = n_blocks s" "bitmap_block ?t = bitmap_block s"
    by (auto simp: fun_eq_iff used_def n_blocks_def bitmap_block_def bb d)
  have i: "iblk ?t ip = iblk s ip" by (simp add: iblk_def IBLOCK_def upd_inode_def)
  have r: "reserved ?t x = reserved s x" for x by (simp add: reserved_def u)
  have "bitmap_ok ?t = bitmap_ok s" by (simp add: bitmap_ok_def u bb)
  moreover have "file_ok ?t ip = file_ok s ip" by (simp add: file_ok_def p r i)
  moreover have "sb_ok ?t = sb_ok s" by (simp add: sb_ok_def u d)
  ultimately show ?thesis by (simp add: trunc_ready_def ready_def p d)
qed

lemma ptr_lock: "ptr (upd_inode ip (\<lambda>i. i\<lparr>i_locked := b\<rparr>) s) ip L = ptr s ip L"
  by (cases L) (simp_all add: addrs_def word_at_def upd_inode_def)

lemma used_lock: "used (upd_inode jp f s) = used s"
  by (simp add: used_def fun_eq_iff upd_inode_def BBLOCK_def)

text \<open>The last reference to a file without links goes away.\<close>

lemma iput_last:
  assumes tr: "trunc_ready s ip" and l: "\<not> i_locked (icache s ip)" and v: "i_valid (icache s ip)"
    and nl: "d_nlink (i_node (icache s ip)) = 0" and ref: "i_ref (icache s ip) = 1"
    and rm: "room s (meta s ip) 0"
  shows "\<exists>t. iput ip s = Some t \<and> d_type (disk_inode t ip) = 0 \<and> i_ref (icache t ip) = 0 \<and>
    (\<forall>m < n_blocks s. used t m \<longleftrightarrow> used s m \<and> m \<notin> blocks s ip short_slots)"
proof -
  define r where "r = upd_inode ip (\<lambda>i. i\<lparr>i_locked := True\<rparr>) s"
  have trr: "trunc_ready r ip" using tr trunc_ready_lock by (simp add: r_def)
  have nr: "n_blocks r = n_blocks s" by (simp add: r_def n_blocks_def upd_inode_def)
  have bl: "blocks r ip Ls = blocks s ip Ls" for Ls by (simp add: blocks_def r_def ptr_lock)
  have ur: "used r = used s" by (simp add: r_def used_lock)
  have mr: "meta r ip = meta s ip"
    by (simp add: r_def upd_inode_def iblk_def IBLOCK_def bitmap_block_def n_blocks_def BBLOCK_def)
  have rmr: "room r (meta s ip) 0" using rm by (simp add: r_def room_def upd_inode_def)
  obtain u where u: "itrunc ip r = Some u"
    "\<forall>m < n_blocks r. used u m \<longleftrightarrow> used r m \<and> m \<notin> blocks r ip short_slots"
    "sb u = sb r" "held u = {}" "icache u = icache (upd_node ip truncated r)" "room u (meta s ip) 0"
    using itrunc_ok [OF trr rmr] mr by auto
  let ?v = "upd_node ip (\<lambda>d. d\<lparr>d_type := 0\<rparr>) u"
  have hv: "held ?v = {}" using u(4) by (simp add: upd_node_def upd_inode_def)
  have sbv: "sb ?v = sb s" using u(3) by (simp add: r_def upd_node_def upd_inode_def)
  have iv: "iblk ?v ip = iblk s ip"
    unfolding iblk_def IBLOCK_def sbv by (simp add: upd_node_def upd_inode_def u(5) r_def)
  have rv: "room ?v (meta s ip) 0" using u(6) by (simp add: room_def upd_node_def upd_inode_def)
  have iA: "iblk ?v ip \<in> meta s ip" by (simp add: iv)
  define w where "w = put_log (iblk s ip)
    (put_dinode (disk ?v (iblk s ip)) (unat (i_inum (icache ?v ip)) mod 8) (i_node (icache ?v ip))) ?v"
  have e: "iupdate ip ?v = Some w" using iupdate_eq [OF hv rv iA] by (simp only: w_def iv)
  define t where "t = upd_inode ip (\<lambda>i. i\<lparr>i_locked := False, i_ref := i_ref i - 1\<rparr>)
    (upd_inode ip (\<lambda>i. i\<lparr>i_valid := False\<rparr>) w)"
  have "acquiresleep ip s = Some r" using l by (simp add: acquiresleep_def r_def)
  moreover have "i_valid (icache r ip) \<and> d_nlink (i_node (icache r ip)) = 0 \<and> i_ref (icache r ip) = 1"
    using v nl ref by (simp add: r_def upd_inode_def)
  ultimately have i: "iput ip s = Some t" using u(1) e by (simp add: iput_def t_def)
  have icw: "icache w = icache ?v" by (simp add: w_def)
  have "iblk t ip = iblk s ip"
    using iv by (simp add: iblk_def IBLOCK_def t_def upd_inode_def icw) (simp add: w_def)
  moreover have "i_inum (icache t ip) = i_inum (icache ?v ip)" by (simp add: t_def upd_inode_def icw)
  moreover have "disk t = disk w" by (simp add: t_def upd_inode_def)
  ultimately have "disk_inode t ip = clip (i_node (icache ?v ip))"
    by (simp add: disk_inode_def w_def get_put_same clip_def)
  then have ty: "d_type (disk_inode t ip) = 0"
    by (simp add: clip_def) (simp add: upd_node_def upd_inode_def)
  have rf: "i_ref (icache t ip) = 0"
    using ref by (simp add: t_def upd_inode_def icw) (simp add: upd_node_def upd_inode_def u(5) r_def)
  have "used t m \<longleftrightarrow> used s m \<and> m \<notin> blocks s ip short_slots" if m: "m < n_blocks s" for m
  proof -
    have "\<not> bitmap_block s (iblk s ip)" using tr by (simp add: trunc_ready_def ready_def file_ok_def reserved_def)
    moreover have "BBLOCK m ?v = BBLOCK m s" unfolding BBLOCK_def sbv ..
    ultimately have "BBLOCK m ?v \<noteq> iblk s ip" using bitmap_block_BBLOCK [OF m] by metis
    then have "used w m = used ?v m" by (intro used_cong) (simp_all add: w_def)
    then show ?thesis using u(2) m by (simp add: t_def used_lock used_upd nr ur bl)
  qed
  then show ?thesis using i ty rf by blast
qed

text \<open>A second file on the small disk: a direct block, an indirect block with no entry, a doubly
  indirect block with no entry.\<close>

definition small_file :: fs where
  "small_file = upd_node 0 (\<lambda>d. d\<lparr>d_nlink := 0, d_addrs := (\<lambda>i. if i = 0 then 9 else if i = 11 then 8
     else if i = 12 then 7 else 0)\<rparr>) small_fs"

lemma small_file_simps:
  "sb small_file = sb small_fs" "disk small_file = disk small_fs" "held small_file = {}"
  by (simp_all add: small_file_def upd_node_def upd_inode_def small_fs_def)

lemma small_file_ptr:
  "ptr small_file 0 L = (if L = Top 0 then 9 else if L = Top 11 then 8 else if L = Top 12 then 7 else 0)"
proof -
  have "load32 (disk small_fs a) (4 * j) = 0" if "a = 7 \<or> a = 8" for a j
    using that by (auto simp: load32_def small_fs_def)
  moreover have "addrs small_file 0 i = (if i = 0 then 9 else if i = 11 then 8 else if i = 12 then 7 else 0)" for i
    by (simp add: addrs_def small_file_def upd_node_def upd_inode_def small_fs_def)
  ultimately show ?thesis by (cases L) (simp_all add: word_at_def small_file_simps)
qed

lemma small_file_used: "used small_file = used small_fs" "bitmap_block small_file = bitmap_block small_fs"
  "n_blocks small_file = n_blocks small_fs" "BBLOCK n small_file = BBLOCK n small_fs"
proof -
  show b: "BBLOCK n small_file = BBLOCK n small_fs" for n by (simp add: BBLOCK_def small_file_simps)
  show n: "n_blocks small_file = n_blocks small_fs" by (simp add: n_blocks_def small_file_simps)
  show "used small_file = used small_fs" by (rule ext) (simp add: used_def b small_file_simps)
  show "bitmap_block small_file = bitmap_block small_fs" by (rule ext) (simp add: bitmap_block_def b n)
qed

lemma small_file_reserved: "reserved small_file a \<longleftrightarrow> unat a < 10 \<and> a \<noteq> 5"
proof -
  have "unat a < 10 \<Longrightarrow> unat a < 100" by simp
  then show ?thesis using small_used [of "unat a"]
    by (auto simp: reserved_def small_file_used small_blocks small_bitmap)
qed

lemma small_file_ready: "trunc_ready small_file 0"
proof -
  have "iblk small_file 0 = 3"
    by (simp add: iblk_def IBLOCK_def small_file_simps) (simp add: small_file_def upd_node_def upd_inode_def small_fs_def small_sb_def)
  then have "file_ok small_file 0"
    unfolding file_ok_def by (auto simp: small_file_ptr small_file_reserved split: if_splits)
  moreover have "bitmap_ok small_file"
    using small_bitmap(1) by (simp add: bitmap_ok_def small_file_used)
  moreover have "sb_ok small_file"
    by (simp add: sb_ok_def small_file_used small_bitmap small_file_simps)
      (simp add: small_fs_def small_sb_def load32_def)
  ultimately show ?thesis by (simp add: trunc_ready_def ready_def small_file_simps small_file_ptr)
qed

section \<open>Properties\<close>

lemma small_whole: "whole small_fs 0"
proof -
  have "fsize small_fs 0 = 0" by (simp add: small_fs_def)
  then show ?thesis by (simp add: whole_def small_ready present_def)
qed

lemma small_meta: "meta small_fs 0 = {3, 5}"
  by (auto simp: small_bitmap iblk_def IBLOCK_def) (simp_all add: small_fs_def small_sb_def)

lemma small_meta_room: "k < 27 \<Longrightarrow> room small_fs (meta small_fs 0) k"
  unfolding small_meta by (rule small_room) simp

lemma small_file_room: "card A + k < 29 \<Longrightarrow> room small_file A k"
  using small_room [of A k] by (simp add: room_def small_file_def upd_node_def upd_inode_def)

lemma small_type: "d_type (i_node (icache small_fs 0)) \<noteq> T_DEV"
  by (simp add: small_fs_def)

text \<open>A piece of \<open>filewrite\<close> (\<open>file.c\<close>), at most 1536 bytes, fits an empty log of the size that \<open>mkfs\<close> makes.\<close>

lemma filewrite_piece_fits:
  assumes "n \<le> 1536" "fl_blocks s = []" "fl_size s = 30" "1 \<le> fl_ops s" "card (bitmap s) \<le> 5"
  shows "room s (meta s ip) (3 * span off n)"
proof -
  have "(off + n + 511) div 512 \<le> (off div 512 * 512 + 511 + 1536 + 511) div 512"
    using assms(1) div_mult_mod_eq [of off 512] mod_less_divisor [of 512 off] by (intro div_le_mono) linarith
  also have "\<dots> = off div 512 + 4" by simp
  finally have "span off n \<le> 4" by (simp add: span_def)
  moreover have "card (meta s ip) \<le> 6" using assms(5) by (simp add: card_insert_if)
  ultimately show ?thesis using assms(2-4) by (simp add: room_def)
qed

text \<open>
  C7. \<open>writei\<close> refines writing into a sequence of bytes. For a file all of whose bytes have blocks,
  an offset in the file, enough free blocks, and room in the log for the bitmap, the inode and three blocks
  for each block touched, it returns the number of bytes; the bytes at the
  offset are the new ones and all others of the file as before, the size is the larger of the
  old size and the end of the write, an inode that has grown is on the disk as in memory, other
  inodes and the blocks outside the file are untouched, and all bytes have blocks again.
\<close>

theorem fs_write:
  assumes "whole s ip" "d_type (i_node (icache s ip)) \<noteq> T_DEV"
    and "unat off \<le> fsize s ip" "unat off + unat n \<le> FILE_BLOCKS * 512"
    and "3 * span (unat off) (unat n) \<le> card (free s)"
    and "room s (meta s ip) (3 * span (unat off) (unat n))"
  shows "\<exists>t. writei dev ip src off n s = Some (int (unat n), t) \<and> whole t ip \<and>
    fsize t ip = max (fsize s ip) (unat off + unat n) \<and>
    (\<forall>k < FILE_BLOCKS * 512. fbyte t ip k =
      (if unat off \<le> k \<and> k < unat off + unat n then src (k - unat off) else fbyte s ip k)) \<and>
    (fsize s ip < fsize t ip \<longrightarrow> disk_inode t ip = clip (i_node (icache t ip))) \<and>
    (\<forall>jp. jp \<noteq> ip \<longrightarrow> icache t jp = icache s jp) \<and>
    (\<forall>a. reserved s a \<longrightarrow> (\<forall>L. good L \<longrightarrow> ptr s ip L \<noteq> a) \<longrightarrow> a \<noteq> iblk s ip \<longrightarrow> disk t a = disk s a)"
  using writei_ok [OF assms, of dev src] by blast

lemma fs_write_witness:
  "\<exists>t. writei (\<lambda>_. None) 0 (\<lambda>_. 7) 0 600 small_fs = Some (600, t) \<and> fsize t 0 = 600 \<and> fbyte t 0 599 = 7"
proof -
  have "fsize small_fs 0 = 0" by (simp add: small_fs_def)
  with fs_write [OF small_whole small_type, of 0 600 "\<lambda>_. None" "\<lambda>_. 7"] small_meta_room [of 6]
  show ?thesis by (auto simp: span_def small_free)
qed

text \<open>
  C8. What \<open>writei\<close> has written, with free blocks and room in the log as in C7, \<open>readi\<close> at the same offset
  returns: a buffer of as many bytes as asked gets exactly the bytes written, and reading changes nothing.
\<close>

theorem fs_read_after_write:
  assumes "whole s ip" "d_type (i_node (icache s ip)) \<noteq> T_DEV"
    and "unat off \<le> fsize s ip" "unat off + unat n \<le> FILE_BLOCKS * 512"
    and "3 * span (unat off) (unat n) \<le> card (free s)"
    and "room s (meta s ip) (3 * span (unat off) (unat n))"
  shows "\<exists>t. writei dev ip src off n s = Some (int (unat n), t) \<and>
    readi dev ip dst off n t = Some (int (unat n), \<lambda>i. if i < unat n then src i else dst i, t)"
  using xv6.read_back [of s ip "unat off" "unat n" dev src dst] assms by simp

lemma fs_read_after_write_witness:
  "\<exists>t. writei (\<lambda>_. None) 0 (\<lambda>i. word_of_nat i) 0 600 small_fs = Some (600, t) \<and>
    readi (\<lambda>_. None) 0 (\<lambda>_. 0) 0 600 t = Some (600, \<lambda>i. if i < 600 then word_of_nat i else 0, t)"
proof -
  have "fsize small_fs 0 = 0" by (simp add: small_fs_def)
  with fs_read_after_write [OF small_whole small_type, of 0 600 "\<lambda>_. None" "\<lambda>i. word_of_nat i" "\<lambda>_. 0"] small_meta_room [of 6]
  show ?thesis by (simp add: span_def small_free)
qed

text \<open>
  \<open>bmap\<close> for a block in range returns a block number that is not 0 and is from then on the
  address of that block of the file. It takes as many free blocks as pointers were missing on
  the way, none when the block is there; the bytes of the file, its other pointers, the blocks
  outside the file and the locked buffers stay the same.
\<close>

theorem bmap_allocates:
  assumes "ready s ip" "unat bn < FILE_BLOCKS" "missing s ip (unat bn) \<le> card (free s)"
    and "room s (bitmap s) (k + 3)"
  shows "\<exists>a t. bmap ip bn s = Some (a, t) \<and> a = ptr t ip (slot_of (unat bn)) \<and> a \<noteq> 0 \<and>
    card (free s) = card (free t) + missing s ip (unat bn) \<and> (missing s ip (unat bn) = 0 \<longrightarrow> t = s) \<and>
    ready t ip \<and> (\<forall>k < FILE_BLOCKS * 512. fbyte t ip k = fbyte s ip k) \<and>
    (\<forall>L. good L \<longrightarrow> ptr s ip L \<noteq> 0 \<longrightarrow> ptr t ip L = ptr s ip L) \<and>
    (\<forall>b. reserved s b \<longrightarrow> (\<forall>L. good L \<longrightarrow> ptr s ip L \<noteq> b) \<longrightarrow> disk t b = disk s b)"
proof -
  obtain a t where b: "bmap ip bn s = Some (a, t)"
    and m: "mapped s ip (slot_of (unat bn)) (missing s ip (unat bn)) (a, t)"
    using bmap_mapped [OF assms(1-3) _ order_refl] assms(4) by blast
  have g: "grown s ip t" using m by (simp add: mapped_def)
  have "ready t ip" using assms(1) g by (rule updated_ready)
  with b m updatedD(4,7,8) [OF g] show ?thesis by (auto simp: mapped_def)
qed

lemma bmap_allocates_witness:
  "\<exists>a t. bmap 0 200 small_fs = Some (a, t) \<and> a = ptr t 0 (Leaf 0 61) \<and> a \<noteq> 0 \<and> card (free t) = 87"
proof -
  have "missing small_fs 0 200 = 3" by (simp add: missing_def path_def lacks_def small_ptr del: ptr.simps)
  moreover have "room small_fs (bitmap small_fs) (0 + 3)" by (rule room_mono [OF small_meta_room [of 3]]) auto
  ultimately show ?thesis using bmap_allocates [OF small_ready, of 200 0]
    by (auto simp: small_free slot_of_def)
qed

text \<open>
  \<open>bmap2\<close> is \<open>bmap\<close> on the blocks that a file has: both return the address of the block and
  change nothing.
\<close>

theorem bmap2_agrees:
  assumes "ready s ip" "unat bn < FILE_BLOCKS" "ptr s ip (slot_of (unat bn)) \<noteq> 0"
  shows "bmap2 ip bn s = bmap ip bn s \<and> bmap2 ip bn s = Some (ptr s ip (slot_of (unat bn)), s)"
proof -
  have "held s = {}" using assms(1) by (simp add: ready_def)
  then have "bmap2 ip bn s = Some (ptr s ip (slot_of (unat bn)), s)" using assms(2,3) by (rule bmap2_found)
  then show ?thesis using bmap_present [OF assms] by simp
qed

lemma bmap2_agrees_witness: "bmap2 0 0 small_file = bmap 0 0 small_file \<and> bmap2 0 0 small_file = Some (9, small_file)"
proof -
  have "ready small_file 0" using small_file_ready by (simp add: trunc_ready_def)
  then have "bmap2 0 0 small_file = bmap 0 0 small_file \<and>
      bmap2 0 0 small_file = Some (ptr small_file 0 (slot_of (unat (0 :: u32))), small_file)"
    by (rule bmap2_agrees) (simp_all add: slot_of_def small_file_ptr del: ptr.simps)
  moreover have p: "ptr small_file 0 (slot_of (unat (0 :: u32))) = 9"
    by (simp add: slot_of_def small_file_ptr del: ptr.simps)
  ultimately show ?thesis unfolding p by blast
qed

text \<open>
  C9. A hole below the indirect block of a file is fatal to \<open>bmap2\<close>, which \<open>baddr\<close> calls: it
  returns \<open>-1\<close> and leaves the buffer of the indirect block locked, so that the next \<open>bmap\<close> of any
  block below it waits for ever.
\<close>

theorem bmap2_keeps_lock:
  assumes "held s = {}" "11 \<le> unat bn" "unat bn < 139"
    and "ptr s ip (Top 11) \<noteq> 0" "ptr s ip (Ind (unat bn - 11)) = 0"
  shows "\<exists>t. bmap2 ip bn s = Some (-1, t) \<and> held t = {ptr s ip (Top 11)} \<and>
    (\<forall>bm. 11 \<le> unat bm \<longrightarrow> unat bm < 139 \<longrightarrow> bmap ip bm t = None)"
proof -
  let ?t = "s\<lparr>held := {ptr s ip (Top 11)}\<rparr>"
  have "addrs ?t ip 11 = ptr s ip (Top 11)" by (simp add: addrs_def)
  then have "bmap ip bm ?t = None" if "11 \<le> unat bm" "unat bm < 139" for bm
    using that assms(4) by (intro bmap_waits) auto
  then show ?thesis using bmap2_hole [OF assms] by auto
qed

lemma bmap2_keeps_lock_witness:
  "\<exists>t. bmap2 0 20 small_file = Some (-1, t) \<and> held t = {8} \<and>
    (\<forall>bm. 11 \<le> unat bm \<longrightarrow> unat bm < 139 \<longrightarrow> bmap 0 bm t = None)"
  using bmap2_keeps_lock [of small_file 20 0] by (simp add: small_file_simps small_file_ptr del: ptr.simps)

text \<open>
  C10. When the last reference to a file without links goes away, within an operation whose log has room for
  the bitmap and the inode, its inode is free on the disk, and its direct blocks, its indirect block and the entries of that are free in the bitmap. The
  doubly indirect block and everything below it stay marked as used though nothing points to
  them any more: they are lost.
\<close>

theorem iput_leaks:
  assumes tr: "trunc_ready s ip" and "\<not> i_locked (icache s ip)" "i_valid (icache s ip)"
    and "d_nlink (i_node (icache s ip)) = 0" "i_ref (icache s ip) = 1"
    and rm: "room s (meta s ip) 0"
  shows "\<exists>t. iput ip s = Some t \<and> i_ref (icache t ip) = 0 \<and> d_type (disk_inode t ip) = 0 \<and>
    (\<forall>L \<in> short_slots. ptr s ip L \<noteq> 0 \<longrightarrow> \<not> used t (unat (ptr s ip L))) \<and>
    (\<forall>L. good L \<longrightarrow> L \<notin> short_slots \<longrightarrow> ptr s ip L \<noteq> 0 \<longrightarrow> used t (unat (ptr s ip L)))"
proof -
  obtain t where t: "iput ip s = Some t" "d_type (disk_inode t ip) = 0" "i_ref (icache t ip) = 0"
    and u: "\<forall>m < n_blocks s. used t m \<longleftrightarrow> used s m \<and> m \<notin> blocks s ip short_slots"
    using iput_last [OF assms] by blast
  have fo: "file_ok s ip" using tr by (simp add: trunc_ready_def ready_def)
  have gs: "good L" if "L \<in> short_slots" for L using that by (auto simp: short_slots_def)
  have r: "reserved s (ptr s ip L)" if "good L" "ptr s ip L \<noteq> 0" for L using fo that by (rule file_okD(1))
  have "\<not> used t (unat (ptr s ip L))" if L: "L \<in> short_slots" "ptr s ip L \<noteq> 0" for L
    using u r [OF gs [OF L(1)] L(2)] L by (auto simp: reserved_def blocks_def simp del: ptr.simps)
  moreover have "used t (unat (ptr s ip L))" if L: "good L" "L \<notin> short_slots" "ptr s ip L \<noteq> 0" for L
    using u r [OF L(1,3)] blocks_other [OF fo L(1,3,2) gs] by (auto simp: reserved_def)
  ultimately show ?thesis using t by blast
qed

lemma iput_leaks_witness: "\<exists>t. iput 0 small_file = Some t \<and> \<not> used t 9 \<and> \<not> used t 8 \<and> used t 7"
proof -
  have "\<not> i_locked (icache small_file 0)" "i_valid (icache small_file 0)"
    "d_nlink (i_node (icache small_file 0)) = 0" "i_ref (icache small_file 0) = 1"
    by (simp_all add: small_file_def upd_node_def upd_inode_def small_fs_def)
  moreover have "card (meta small_file 0) \<le> 2"
  proof -
    have "meta small_file 0 = {3, 5}"
      by (auto simp: small_file_used small_bitmap iblk_def IBLOCK_def small_file_simps)
        (simp_all add: small_file_def upd_node_def upd_inode_def small_fs_def small_sb_def)
    then show ?thesis by simp
  qed
  then have "room small_file (meta small_file 0) 0" by (intro small_file_room) simp
  ultimately obtain t where t: "iput 0 small_file = Some t"
    and a: "\<And>L. L \<in> short_slots \<Longrightarrow> ptr small_file 0 L \<noteq> 0 \<Longrightarrow> \<not> used t (unat (ptr small_file 0 L))"
    and b: "\<And>L. good L \<Longrightarrow> L \<notin> short_slots \<Longrightarrow> ptr small_file 0 L \<noteq> 0 \<Longrightarrow> used t (unat (ptr small_file 0 L))"
    using iput_leaks [OF small_file_ready] by blast
  have "Top 0 \<in> short_slots" "Top 11 \<in> short_slots" "Top 12 \<notin> short_slots" by (auto simp: short_slots_def)
  with a [of "Top 0"] a [of "Top 11"] b [of "Top 12"] t show ?thesis
    by (auto simp: small_file_ptr simp del: ptr.simps)
qed

text \<open>
  An inode written by \<open>iupdate\<close> comes back when it is loaded: another entry of the cache for
  the same number, not valid yet, holds after \<open>ilock\<close> the type, the numbers of the device, the
  links, the size and the thirteen addresses that were written.
\<close>

theorem inode_roundtrip:
  assumes h: "held s = {}" and jp: "jp \<noteq> ip" "i_inum (icache s jp) = i_inum (icache s ip)"
    and l: "\<not> i_locked (icache s jp)" "\<not> i_valid (icache s jp)" "i_ref (icache s jp) \<ge> 1"
    and ty: "d_type (i_node (icache s ip)) \<noteq> 0" and rm: "room s {iblk s ip} 0"
  shows "\<exists>t u. iupdate ip s = Some t \<and> ilock jp t = Some u \<and> i_valid (icache u jp) \<and>
    i_node (icache u jp) = (i_node (icache s ip))\<lparr>d_addrs := (\<lambda>j. if j < 13 then d_addrs (i_node (icache s ip)) j else 0)\<rparr>"
proof -
  let ?i = "unat (i_inum (icache s ip)) mod 8"
  define t where "t = put_log (iblk s ip) (put_dinode (disk s (iblk s ip)) ?i (i_node (icache s ip))) s"
  have t: "iupdate ip s = Some t" using iupdate_eq [OF h rm insertI1] by (simp add: t_def)
  have ib: "IBLOCK (unat (i_inum (icache s ip))) (upd_inode jp f t) = iblk s ip" for f
    by (simp add: iblk_def IBLOCK_def upd_inode_def t_def)
  have d: "get_dinode (disk t (iblk s ip)) ?i = clip (i_node (icache s ip))"
    by (simp add: t_def get_put_same clip_def)
  have "\<exists>u. ilock jp t = Some u \<and> i_valid (icache u jp) \<and> i_node (icache u jp) = clip (i_node (icache s ip))"
    using l jp h d ty ib
    by (simp add: ilock_def acquiresleep_def bread_def brelse_def Let_def t_def upd_node_def upd_inode_def clip_def)
  with t show ?thesis by (auto simp: clip_def)
qed

lemma inode_roundtrip_witness:
  "\<exists>t u. iupdate 0 (upd_inode 1 (\<lambda>i. i\<lparr>i_inum := 1, i_valid := False\<rparr>) small_file) = Some t \<and>
    ilock 1 t = Some u \<and> d_addrs (i_node (icache u 1)) 11 = 8"
proof -
  let ?s = "upd_inode 1 (\<lambda>i. i\<lparr>i_inum := 1, i_valid := False\<rparr>) small_file"
  have "held ?s = {}" "i_inum (icache ?s 1) = i_inum (icache ?s 0)" "\<not> i_locked (icache ?s 1)"
    "\<not> i_valid (icache ?s 1)" "i_ref (icache ?s 1) \<ge> 1" "d_type (i_node (icache ?s 0)) \<noteq> 0"
    "d_addrs (i_node (icache ?s 0)) 11 = 8"
    by (simp_all add: upd_inode_def upd_node_def small_file_def small_fs_def)
  moreover have "room ?s {iblk ?s 0} 0" using small_file_room [of "{iblk ?s 0}" 0] by (simp add: room_def upd_inode_def)
  ultimately show ?thesis using inode_roundtrip [of ?s 1 0] by auto
qed

end
