(* ===== verification/FsDir.thy ===== *)
theory FsDir
  imports FsSpec
begin

text \<open>
  Directories as clients of \<open>readi\<close> and \<open>writei\<close>: a directory is a sequence of entries of 16 bytes,
  \<open>dirlookup\<close> searches it, \<open>dirlink\<close> puts an entry into the first free place or at the end.
\<close>

section \<open>Names\<close>

lemma strncmp_cong:
  "(\<And>k. i \<le> k \<Longrightarrow> k < i + n \<Longrightarrow> q k = r k) \<Longrightarrow> strncmp p q i n = strncmp p r i n"
proof (induction n arbitrary: i)
  case (Suc n)
  have "strncmp p q (i + 1) n = strncmp p r (i + 1) n" using Suc.prems by (intro Suc.IH) simp
  then show ?case using Suc.prems [of i] by simp
qed simp

lemma strncpy_before: "k < i \<Longrightarrow> strncpy s t i n k = s k"
  by (induction n arbitrary: i s) (auto simp: memmove_def)

lemma strncpy_at:
  "0 < n \<Longrightarrow> strncpy s t i n i = t i"
  by (cases n) (auto simp: strncpy_before memmove_def)

text \<open>A name compares equal to its copy.\<close>

lemma strncmp_strncpy: "strncmp t (strncpy s t i n) i n = 0"
proof (induction n arbitrary: s i)
  case (Suc n)
  have "strncpy s t i (Suc n) i = t i" by (rule strncpy_at) simp
  moreover have "strncpy s t i (Suc n) = strncpy (s(i := t i)) t (i + 1) n" if "t i \<noteq> 0" using that by simp
  ultimately show ?case using Suc.IH [of "s(i := t i)" "i + 1"]
    by (cases "t i = 0") (simp_all del: strncpy.simps fun_upd_apply)
qed simp

section \<open>Entries\<close>

definition dirent :: "fs \<Rightarrow> nat \<Rightarrow> nat \<Rightarrow> bytes" where
  "dirent s dp off = (\<lambda>i. fbyte s dp (off + i))"

definition matches :: "fs \<Rightarrow> nat \<Rightarrow> bytes \<Rightarrow> nat \<Rightarrow> bool" where
  "matches s dp name off \<longleftrightarrow>
     de_inum (dirent s dp off) \<noteq> 0 \<and> namecmp name (de_name (dirent s dp off)) = 0"

text \<open>A directory that can be read: its bytes are there, in whole entries.\<close>

definition dir_ok :: "fs \<Rightarrow> nat \<Rightarrow> bool" where
  "dir_ok s dp \<longleftrightarrow> whole s dp \<and> d_type (i_node (icache s dp)) = T_DIR \<and> 16 dvd fsize s dp"

lemma entry_bytes:
  assumes "\<And>i. i < 16 \<Longrightarrow> d i = e i"
  shows "de_inum d = de_inum e" "namecmp name (de_name d) = namecmp name (de_name e)"
proof -
  show "de_inum d = de_inum e" unfolding de_inum_def by (rule load16_cong) (simp add: assms)
  show "namecmp name (de_name d) = namecmp name (de_name e)"
    unfolding namecmp_def by (rule strncmp_cong) (simp add: de_name_def assms)
qed

lemma read_entry:
  assumes ok: "dir_ok s dp" and off: "off + 16 \<le> fsize s dp"
  shows "readi dev dp de (word_of_nat off) 16 s =
    Some (16, \<lambda>i. if i < 16 then dirent s dp off i else de i, s)"
proof -
  have w: "whole s dp" and ty: "d_type (i_node (icache s dp)) \<noteq> T_DEV" using ok by (simp_all add: dir_ok_def)
  have "fsize s dp < 2 ^ 32" using unsigned_less [of "d_size (i_node (icache s dp))"] by simp
  then have o: "unat (word_of_nat off :: u32) = off"
    using off by (simp add: unat_of_nat take_bit_nat_eq_self)
  have sz: "fsize s dp \<le> FILE_BLOCKS * 512" using w by (simp add: whole_def)
  show ?thesis
    using readi_ok [OF w ty, of "word_of_nat off" 16 dev de] off sz by (simp add: o dirent_def cong: if_cong)
qed

lemma dirlookup_from_eq:
  assumes ok: "dir_ok s dp" and offs: "\<And>off. off \<in> set offs \<Longrightarrow> off + 16 \<le> fsize s dp"
  shows "dirlookup_from dev dp name de offs s =
    Some (map_option (\<lambda>off. (off, de_inum (dirent s dp off))) (find (matches s dp name) offs), s)"
  using offs
proof (induction offs arbitrary: de)
  case (Cons off offs)
  let ?d = "\<lambda>i. if i < 16 then dirent s dp off i else de i"
  have e: "de_inum ?d = de_inum (dirent s dp off)"
    "namecmp name (de_name ?d) = namecmp name (de_name (dirent s dp off))"
    by (rule entry_bytes, simp)+
  have "readi dev dp de (word_of_nat off) 16 s = Some (16, ?d, s)"
    using read_entry [OF ok] Cons.prems by simp
  then show ?case using Cons.IH [of ?d] Cons.prems by (simp add: e matches_def)
qed simp

lemma dir_offsets_in:
  assumes "dir_ok s dp" "off \<in> set (dir_offsets dp s)"
  shows "off + 16 \<le> fsize s dp"
proof -
  obtain n where n: "fsize s dp = 16 * n" using assms(1) by (auto simp: dir_ok_def)
  then have "(fsize s dp + 15) div 16 = n" by simp
  with assms(2) n show ?thesis by (auto simp: dir_offsets_def)
qed

lemma dirlookup_eq:
  assumes ok: "dir_ok s dp"
  shows "dirlookup dev junk dp name s =
    (case find (matches s dp name) (dir_offsets dp s) of
       None \<Rightarrow> Some (None, s)
     | Some off \<Rightarrow> map_option (\<lambda>(ip, t). (Some (ip, off), t))
         (iget (i_dev (icache s dp)) (ucast (de_inum (dirent s dp off))) s))"
proof -
  have "d_type (i_node (icache s dp)) = T_DIR" using ok by (simp add: dir_ok_def)
  then show ?thesis
    using dirlookup_from_eq [OF ok dir_offsets_in [OF ok], of _ dev name junk]
    by (simp add: dirlookup_def split: option.splits) (auto split: bind_splits)
qed

text \<open>The place that \<open>dirlink\<close> chooses.\<close>

definition free_place :: "fs \<Rightarrow> nat \<Rightarrow> nat" where
  "free_place s dp = (case find (\<lambda>off. de_inum (dirent s dp off) = 0) (dir_offsets dp s) of
     Some off \<Rightarrow> off | None \<Rightarrow> fsize s dp)"

lemma free_dirent_eq:
  assumes ok: "dir_ok s dp" and n: "16 * n \<le> fsize s dp"
  shows "\<exists>de'. free_dirent dev dp de (16 * k) (map (\<lambda>k. k * 16) [k..<n]) s =
    Some (case find (\<lambda>off. de_inum (dirent s dp off) = 0) (map (\<lambda>k. k * 16) [k..<n]) of
       Some off \<Rightarrow> off | None \<Rightarrow> 16 * max k n, de', s)"
proof (induction "n - k" arbitrary: k de)
  case 0
  then show ?case by (simp add: max_def)
next
  case (Suc m)
  then have k: "k < n" by simp
  let ?d = "\<lambda>i. if i < 16 then dirent s dp (k * 16) i else de i"
  have e: "de_inum ?d = de_inum (dirent s dp (k * 16))" by (rule entry_bytes) simp
  have r: "readi dev dp de (word_of_nat (k * 16)) 16 s = Some (16, ?d, s)"
    using read_entry [OF ok, of "k * 16"] k n by (simp del: of_nat_mult)
  have l: "[k..<n] = k # [Suc k..<n]" using k by (rule upt_conv_Cons)
  have IH: "\<exists>de'. free_dirent dev dp ?d (16 * Suc k) (map (\<lambda>k. k * 16) [Suc k..<n]) s =
    Some (case find (\<lambda>off. de_inum (dirent s dp off) = 0) (map (\<lambda>k. k * 16) [Suc k..<n]) of
       Some off \<Rightarrow> off | None \<Rightarrow> 16 * max (Suc k) n, de', s)"
    using Suc.hyps by (intro Suc.hyps(1)) simp
  show ?case
  proof (cases "de_inum (dirent s dp (k * 16)) = 0")
    case True
    then show ?thesis using r e by (simp add: l)
  next
    case False
    have "max (Suc k) n = max k n" using k by simp
    from IH [unfolded this] show ?thesis using False r e by (simp add: l algebra_simps)
  qed
qed

lemma dir_offsets_eq:
  assumes "fsize s dp = 16 * n"
  shows "dir_offsets dp s = map (\<lambda>k. k * 16) [0..<n]"
  using assms by (simp add: dir_offsets_def)

lemma free_place_bound:
  assumes "dir_ok s dp"
  shows "free_place s dp \<le> fsize s dp" "16 dvd free_place s dp"
proof -
  obtain n where n: "fsize s dp = 16 * n" using assms by (auto simp: dir_ok_def)
  then show "free_place s dp \<le> fsize s dp" "16 dvd free_place s dp"
    by (auto simp: free_place_def dir_offsets_eq find_Some_iff split: option.splits)
qed

section \<open>Linking a name\<close>

lemma span_entry: "span off 16 \<le> 2"
proof -
  have "(off + 16 + 511) div 512 \<le> (off div 512 * 512 + 511 + 527) div 512"
    using div_mult_mod_eq [of off 512] mod_less_divisor [of 512 off]
    by (intro div_le_mono) linarith
  also have "\<dots> = off div 512 + 2" by simp
  finally show ?thesis by (simp add: span_def)
qed

definition new_entry :: "bytes \<Rightarrow> u32 \<Rightarrow> bytes \<Rightarrow> bytes" where
  "new_entry name inum de = store16 (memmove de 2 (strncpy (de_name de) name 0 DIRSIZ) 0 DIRSIZ) 0 (ucast inum)"

lemma new_entry_inum: "de_inum (new_entry name inum de) = ucast inum"
  by (simp add: new_entry_def de_inum_def)

lemma new_entry_name: "namecmp name (de_name (new_entry name inum de)) = 0"
proof -
  have "namecmp name (de_name (new_entry name inum de)) = namecmp name (strncpy (de_name de) name 0 DIRSIZ)"
    unfolding namecmp_def
    by (rule strncmp_cong) (simp add: de_name_def new_entry_def store16_other memmove_def)
  also have "\<dots> = 0" unfolding namecmp_def by (rule strncmp_strncpy)
  finally show ?thesis .
qed

lemma dirlink_ok:
  assumes ok: "dir_ok s dp" and sz: "fsize s dp + 16 \<le> FILE_BLOCKS * 512" and fr: "6 \<le> card (free s)"
    and rm: "room s (meta s dp) 6"
    and absent: "find (matches s dp name) (dir_offsets dp s) = None"
  shows "\<exists>t. dirlink dev junk dp name inum s = Some (0, t) \<and> dir_ok t dp \<and>
    (\<forall>jp. jp \<noteq> dp \<longrightarrow> icache t jp = icache s jp) \<and>
    fsize t dp = max (fsize s dp) (free_place s dp + 16) \<and>
    de_inum (dirent t dp (free_place s dp)) = ucast inum \<and>
    namecmp name (de_name (dirent t dp (free_place s dp))) = 0 \<and>
    (\<forall>off < fsize t dp. 16 dvd off \<longrightarrow> off \<noteq> free_place s dp \<longrightarrow>
      (\<forall>i < 16. dirent t dp off i = dirent s dp off i))"
proof -
  define p where "p = free_place s dp"
  have w: "whole s dp" and ty: "d_type (i_node (icache s dp)) = T_DIR" using ok by (simp_all add: dir_ok_def)
  have tn: "d_type (i_node (icache s dp)) \<noteq> T_DEV" using ty by simp
  have p: "p \<le> fsize s dp" "16 dvd p" using free_place_bound [OF ok] by (simp_all add: p_def)
  have pu: "unat (word_of_nat p :: u32) = p"
    using p(1) sz by (simp add: unat_of_nat take_bit_nat_eq_self)
  obtain n where n: "fsize s dp = 16 * n" using ok by (auto simp: dir_ok_def)
  obtain de' where fd: "free_dirent dev dp junk 0 (dir_offsets dp s) s = Some (p, de', s)"
    using free_dirent_eq [OF ok, of n dev junk 0] n
    by (auto simp: p_def free_place_def dir_offsets_eq split: option.splits)
  have dl: "dirlookup dev junk dp name s = Some (None, s)"
    using dirlookup_eq [OF ok] absent by simp
  have room: "3 * span p 16 \<le> card (free s)" using span_entry [of p] fr by linarith
  have rw: "room s (meta s dp) (3 * span p 16)"
    by (rule room_mono [OF rm order_refl]) (use span_entry [of p] in linarith)
  obtain t where t: "writei dev dp (new_entry name inum de') (word_of_nat p) 16 s = Some (16, t)"
    and wt: "whole t dp" and ft: "fsize t dp = max (fsize s dp) (p + 16)"
    and tt: "d_type (i_node (icache t dp)) = d_type (i_node (icache s dp))"
    and b: "\<forall>k < FILE_BLOCKS * 512. fbyte t dp k =
      (if p \<le> k \<and> k < p + 16 then new_entry name inum de' (k - p) else fbyte s dp k)"
    and oth: "\<forall>jp. jp \<noteq> dp \<longrightarrow> icache t jp = icache s jp"
    using writei_ok [OF w tn, of "word_of_nat p" 16 dev "new_entry name inum de'"] p(1) sz room rw
    by (auto simp: pu)
  have dt: "dir_ok t dp" using wt tt ty ft p n by (auto simp: dir_ok_def max_def)
  have e: "dirlink dev junk dp name inum s = Some (0, t)"
    using dl fd t by (simp add: dirlink_def new_entry_def Let_def)
  have at: "dirent t dp p i = new_entry name inum de' i" if "i < 16" for i
    using b that p(1) sz by (simp add: dirent_def)
  have e1: "de_inum (dirent t dp p) = ucast inum"
    using entry_bytes(1) [OF at] by (simp add: new_entry_inum)
  have e2: "namecmp name (de_name (dirent t dp p)) = 0"
    using entry_bytes(2) [OF at] by (simp add: new_entry_name)
  have "dirent t dp off i = dirent s dp off i"
    if off: "off < fsize t dp" "16 dvd off" "off \<noteq> p" and i: "i < 16" for off i
  proof -
    obtain a c where ac: "off = 16 * a" "p = 16 * c" using off(2) p(2) by (auto elim!: dvdE)
    have "a < c \<or> c < a" using ac off(3) by auto
    then have "\<not> (p \<le> off + i \<and> off + i < p + 16)" using i unfolding ac by linarith
    moreover have "16 dvd fsize t dp" "fsize t dp \<le> FILE_BLOCKS * 512"
      using dt wt by (simp_all add: dir_ok_def whole_def)
    then have "off + i < FILE_BLOCKS * 512" using off(1) i ac(1) by (auto elim!: dvdE)
    ultimately show ?thesis using b by (auto simp: dirent_def)
  qed
  then show ?thesis using e dt oth ft e1 e2 unfolding p_def by blast
qed

lemma find_upt_first:
  assumes "c < n" "P (c * 16)" "\<And>k. k < c \<Longrightarrow> \<not> P (k * 16)"
  shows "find P (map (\<lambda>k. k * 16) [0..<n]) = Some (c * (16 :: nat))"
  using assms by (auto simp: find_Some_iff intro!: exI [of _ c])

text \<open>
  C11. \<open>dirlookup\<close> finds what \<open>dirlink\<close> has linked. In a directory without the name, with room for
  an entry, room in the log for what the write logs and a free entry in the cache of inodes, \<open>dirlink\<close>
  succeeds, keeps all other entries, and a lookup of the name then returns an inode with the number that was linked.
\<close>

theorem dirlink_dirlookup:
  assumes ok: "dir_ok s dp" and sz: "fsize s dp + 16 \<le> FILE_BLOCKS * 512" and fr: "6 \<le> card (free s)"
    and rm: "room s (meta s dp) 6"
    and absent: "find (matches s dp name) (dir_offsets dp s) = None"
    and inum: "inum \<noteq> 0" "unat inum < 2 ^ 16"
    and slot: "k < NINODE" "k \<noteq> dp" "i_ref (icache s k) = 0"
  shows "\<exists>t ip off u. dirlink dev junk dp name inum s = Some (0, t) \<and>
    dirlookup dev junk dp name t = Some (Some (ip, off), u) \<and>
    i_inum (icache u ip) = inum \<and> i_dev (icache u ip) = i_dev (icache t dp) \<and>
    (\<forall>o1 < fsize t dp. 16 dvd o1 \<longrightarrow> o1 \<noteq> off \<longrightarrow> (\<forall>i < 16. dirent t dp o1 i = dirent s dp o1 i))"
proof -
  define p where "p = free_place s dp"
  obtain t where t: "dirlink dev junk dp name inum s = Some (0, t)" and dt: "dir_ok t dp"
    and oth: "\<forall>jp. jp \<noteq> dp \<longrightarrow> icache t jp = icache s jp" and ft: "fsize t dp = max (fsize s dp) (p + 16)"
    and e1: "de_inum (dirent t dp p) = ucast inum" and e2: "namecmp name (de_name (dirent t dp p)) = 0"
    and keep: "\<forall>off < fsize t dp. 16 dvd off \<longrightarrow> off \<noteq> p \<longrightarrow> (\<forall>i < 16. dirent t dp off i = dirent s dp off i)"
    using dirlink_ok [OF ok sz fr rm absent, of dev junk inum] unfolding p_def by blast
  have p: "p \<le> fsize s dp" "16 dvd p" using free_place_bound [OF ok] by (simp_all add: p_def)
  obtain n where n: "fsize t dp = 16 * n" using dt by (auto simp: dir_ok_def)
  obtain m where m: "fsize s dp = 16 * m" using ok by (auto simp: dir_ok_def)
  obtain c where c: "p = c * 16" using p(2) by (auto elim!: dvdE)
  have cn: "c < n" using ft n c by (simp add: max_def split: if_splits)
  have ui: "ucast (ucast inum :: u16) = inum"
    using inum(2) by (simp add: word_unat_eq_iff unsigned_ucast_eq unsigned_take_bit_eq take_bit_nat_eq_self)
  have "(ucast inum :: u16) \<noteq> 0" using ui inum(1) by auto
  then have mp: "matches t dp name (c * 16)" using e1 e2 by (simp add: matches_def flip: c)
  have nm: "\<not> matches t dp name (k * 16)" if k: "k < c" for k
  proof -
    have "dirent t dp (k * 16) i = dirent s dp (k * 16) i" if "i < 16" for i
      using keep that k cn n c by simp
    from entry_bytes [OF this] have "matches t dp name (k * 16) \<longleftrightarrow> matches s dp name (k * 16)"
      by (simp add: matches_def)
    moreover have "k * 16 \<in> set (dir_offsets dp s)" using k c p(1) m by (simp add: dir_offsets_eq)
    ultimately show ?thesis using absent by (simp add: find_None_iff)
  qed
  have f: "find (matches t dp name) (dir_offsets dp t) = Some p"
    unfolding dir_offsets_eq [OF n] c using cn mp nm by (rule find_upt_first)
  have "i_ref (icache t k) = 0" using oth slot by simp
  then have "\<exists>ip u. iget (i_dev (icache t dp)) inum t = Some (ip, u) \<and> i_inum (icache u ip) = inum \<and>
      i_dev (icache u ip) = i_dev (icache t dp)"
    using slot(1) unfolding iget_def
    by (auto simp: find_None_iff find_Some_iff upd_inode_def split: option.splits)
  then obtain ip u where u: "iget (i_dev (icache t dp)) inum t = Some (ip, u)" "i_inum (icache u ip) = inum"
    "i_dev (icache u ip) = i_dev (icache t dp)" by blast
  have "dirlookup dev junk dp name t = Some (Some (ip, p), u)"
    using dirlookup_eq [OF dt, of dev junk name] f u(1) by (simp add: e1 ui)
  then show ?thesis using t u keep by blast
qed

text \<open>An empty directory on the small disk; the second entry of the cache is free.\<close>

definition small_dir :: fs where
  "small_dir = upd_inode 1 (\<lambda>i. i\<lparr>i_ref := 0\<rparr>) (upd_node 0 (\<lambda>d. d\<lparr>d_type := T_DIR\<rparr>) small_fs)"

lemma small_dir_ok: "dir_ok small_dir 0" "free small_dir = free small_fs" "fsize small_dir 0 = 0"
proof -
  have d: "sb small_dir = sb small_fs" "disk small_dir = disk small_fs" "held small_dir = {}"
    by (simp_all add: small_dir_def upd_node_def upd_inode_def small_fs_def)
  have b: "BBLOCK n small_dir = BBLOCK n small_fs" for n by (simp add: BBLOCK_def d)
  have n: "n_blocks small_dir = n_blocks small_fs" by (simp add: n_blocks_def d)
  have u: "used small_dir = used small_fs" by (rule ext) (simp add: used_def b d)
  have m: "bitmap_block small_dir = bitmap_block small_fs" by (rule ext) (simp add: bitmap_block_def b n)
  have r: "reserved small_dir a = reserved small_fs a" for a by (simp add: reserved_def u m n)
  show f: "free small_dir = free small_fs" by (simp add: free_def u n)
  have "addrs small_dir 0 i = 0" for i
    by (simp add: addrs_def small_dir_def upd_node_def upd_inode_def small_fs_def)
  then have p: "ptr small_dir 0 L = 0" for L by (cases L) (simp_all add: word_at_def)
  have "i_inum (icache small_dir 0) = i_inum (icache small_fs 0)"
    by (simp add: small_dir_def upd_node_def upd_inode_def)
  then have i: "iblk small_dir 0 = iblk small_fs 0" by (simp add: iblk_def IBLOCK_def d)
  have s: "file_ok small_fs 0" "bitmap_ok small_fs" using small_ready by (simp_all add: ready_def)
  have "reserved small_fs (iblk small_fs 0)" "iblk small_fs 0 \<noteq> 0"
    using s(1) small_ptr [of 0 "Top 0"] by (auto simp: file_ok_def small_ptr simp del: ptr.simps) (metis good.simps(1) zero_less_numeral)
  then have "file_ok small_dir 0" by (simp add: file_ok_def p r i)
  moreover have "bitmap_ok small_dir" using s(2) by (simp add: bitmap_ok_def b n u)
  ultimately have "ready small_dir 0" by (simp add: ready_def d)
  moreover show z: "fsize small_dir 0 = 0" by (simp add: small_dir_def upd_node_def upd_inode_def small_fs_def)
  moreover have "d_type (i_node (icache small_dir 0)) = T_DIR"
    by (simp add: small_dir_def upd_node_def upd_inode_def)
  ultimately show "dir_ok small_dir 0" by (simp add: dir_ok_def whole_def present_def)
qed

lemma dirlink_dirlookup_witness:
  "\<exists>t ip off u. dirlink (\<lambda>_. None) (\<lambda>_. 0) 0 (\<lambda>i. if i < 3 then 97 else 0) 2 small_dir = Some (0, t) \<and>
    dirlookup (\<lambda>_. None) (\<lambda>_. 0) 0 (\<lambda>i. if i < 3 then 97 else 0) t = Some (Some (ip, off), u) \<and>
    i_inum (icache u ip) = 2"
proof -
  have "find (matches small_dir 0 (\<lambda>i. if i < 3 then 97 else 0)) (dir_offsets 0 small_dir) = None"
    using small_dir_ok(3) by (simp add: dir_offsets_def)
  moreover have "room small_dir (meta small_dir 0) 6"
  proof -
    have "room small_dir A k = room small_fs A k" for A k by (simp add: room_def small_dir_def upd_node_def upd_inode_def)
    moreover have "meta small_dir 0 = meta small_fs 0"
      by (simp add: small_dir_def upd_node_def upd_inode_def iblk_def IBLOCK_def bitmap_block_def n_blocks_def BBLOCK_def)
    ultimately show ?thesis using small_meta_room [of 6] by simp
  qed
  moreover have "i_ref (icache small_dir 1) = 0" by (simp add: small_dir_def upd_inode_def)
  ultimately show ?thesis
    using dirlink_dirlookup [OF small_dir_ok(1), of "\<lambda>i. if i < 3 then 97 else 0" 2 1 "\<lambda>_. None" "\<lambda>_. 0"]
      small_dir_ok(2,3) by (auto simp: small_free)
qed

end
