(* ===== verification/Bio.thy ===== *)
theory Bio
  imports Bytes
begin

text \<open>
  The buffer cache of the xv6 kernel of project 5, \<open>3-1/OS/PRJ5/xv6-sse-local/bio.c\<close>, over the disk
  requests of \<open>ide.c\<close>. The list of buffers is the list of their indices, the most recently used one
  first. A request waits until the disk has served it; the disk serves requests in order and one
  block at a time, which is a sector. \<open>served\<close> is the history of the writes. The value \<open>None\<close> stands for a
  panic and for a lock that the process waits for although nobody will release it.
\<close>

abbreviation (input) "NBUF \<equiv> (30 :: nat)"
abbreviation (input) "FSSIZE \<equiv> (20000 :: u32)"
abbreviation (input) "BSIZE \<equiv> (512 :: nat)"

record buf =
  b_dev :: u32
  blockno :: u32
  b_valid :: bool          \<comment> \<open>\<open>B_VALID\<close>\<close>
  b_dirty :: bool          \<comment> \<open>\<open>B_DIRTY\<close>\<close>
  refcnt :: u32
  locked :: bool           \<comment> \<open>by the process that runs\<close>
  b_data :: bytes

record io =
  buf :: "nat \<Rightarrow> buf"       \<comment> \<open>\<open>bcache.buf\<close>\<close>
  order :: "nat list"      \<comment> \<open>from \<open>bcache.head.next\<close> to \<open>bcache.head.prev\<close>\<close>
  disks :: "nat \<Rightarrow> u32 \<Rightarrow> bytes"       \<comment> \<open>the two drives\<close>
  served :: "(nat \<times> u32 \<times> bytes) list"
  havedisk1 :: bool

definition drive :: "u32 \<Rightarrow> nat" where "drive dev = unat dev mod 2"

definition upd_buf :: "nat \<Rightarrow> (buf \<Rightarrow> buf) \<Rightarrow> io \<Rightarrow> io" where
  "upd_buf i f s = s\<lparr>buf := (buf s)(i := f (buf s i))\<rparr>"

text \<open>\<open>idestart\<close> and \<open>ideintr\<close> for one request: what the disk does with it.\<close>

definition put_disk :: "nat \<times> u32 \<times> bytes \<Rightarrow> (nat \<Rightarrow> u32 \<Rightarrow> bytes) \<Rightarrow> nat \<Rightarrow> u32 \<Rightarrow> bytes" where
  "put_disk w d = (case w of (k, b, v) \<Rightarrow> d(k := (d k)(b := v)))"

definition ide_serve :: "nat \<Rightarrow> io \<Rightarrow> io option" where
  "ide_serve i s =
     (let b = buf s i in
      if blockno b \<ge> FSSIZE then None
      else
        let s = (if b_dirty b then
                   let w = (drive (b_dev b), blockno b, b_data b)
                   in s\<lparr>disks := put_disk w (disks s), served := served s @ [w]\<rparr>
                 else upd_buf i (\<lambda>b. b\<lparr>b_data := disks s (drive (b_dev b)) (blockno b)\<rparr>) s)
        in Some (upd_buf i (\<lambda>b. b\<lparr>b_valid := True, b_dirty := False\<rparr>) s))"

definition iderw :: "nat \<Rightarrow> io \<Rightarrow> io option" where
  "iderw i s =
     (let b = buf s i in
      if \<not> locked b then None
      else if b_valid b \<and> \<not> b_dirty b then None
      else if b_dev b \<noteq> 0 \<and> \<not> havedisk1 s then None
      else ide_serve i s)"

definition binit :: "io \<Rightarrow> io" where
  "binit s = s\<lparr>order := rev [0..<NBUF]\<rparr>"

definition bget :: "u32 \<Rightarrow> u32 \<Rightarrow> io \<Rightarrow> (nat \<times> io) option" where
  "bget dev bno s =
     (case List.find (\<lambda>i. b_dev (buf s i) = dev \<and> blockno (buf s i) = bno) (order s) of
        Some i \<Rightarrow> if locked (buf s i) then None
                  else Some (i, upd_buf i (\<lambda>b. b\<lparr>refcnt := refcnt b + 1, locked := True\<rparr>) s)
      | None \<Rightarrow>
          (case List.find (\<lambda>i. refcnt (buf s i) = 0 \<and> \<not> b_dirty (buf s i)) (rev (order s)) of
             None \<Rightarrow> None
           | Some i \<Rightarrow> if locked (buf s i) then None
                       else Some (i, upd_buf i (\<lambda>b. b\<lparr>b_dev := dev, blockno := bno, b_valid := False, b_dirty := False,
                              refcnt := 1, locked := True\<rparr>) s)))"

definition bread :: "u32 \<Rightarrow> u32 \<Rightarrow> io \<Rightarrow> (nat \<times> io) option" where
  "bread dev bno s =
     do {
       (i, s) \<leftarrow> bget dev bno s;
       if \<not> b_valid (buf s i) then do { s \<leftarrow> iderw i s; Some (i, s) } else Some (i, s) }"

definition bwrite :: "nat \<Rightarrow> io \<Rightarrow> io option" where
  "bwrite i s =
     (if \<not> locked (buf s i) then None
      else iderw i (upd_buf i (\<lambda>b. b\<lparr>b_dirty := True\<rparr>) s))"

definition brelse :: "nat \<Rightarrow> io \<Rightarrow> io option" where
  "brelse i s =
     (if \<not> locked (buf s i) then None
      else
        let s = upd_buf i (\<lambda>b. b\<lparr>locked := False, refcnt := refcnt b - 1\<rparr>) s in
        if refcnt (buf s i) = 0 then Some (s\<lparr>order := i # remove1 i (order s)\<rparr>) else Some s)"

section \<open>What a block holds\<close>

text \<open>A block is 512 bytes.\<close>

definition sector :: "bytes \<Rightarrow> bool" where
  "sector d \<longleftrightarrow> (\<forall>k \<ge> BSIZE. d k = 0)"

lemma copy_sector: "sector d \<Longrightarrow> sector e \<Longrightarrow> memmove d 0 e 0 BSIZE = e"
  by (auto simp: memmove_def sector_def fun_eq_iff)

lemma store_sector: "sector d \<Longrightarrow> i \<le> 508 \<Longrightarrow> sector (store32 d i v)"
  by (auto simp: sector_def store32_def)

text \<open>The contents of a block of a device: those of its buffer, or those on the disk.\<close>

definition holds :: "io \<Rightarrow> u32 \<Rightarrow> u32 \<Rightarrow> nat \<Rightarrow> bool" where
  "holds s d b i \<longleftrightarrow> i < NBUF \<and> b_dev (buf s i) = d \<and> blockno (buf s i) = b"

definition view :: "io \<Rightarrow> u32 \<Rightarrow> u32 \<Rightarrow> bytes" where
  "view s d b = (case List.find (\<lambda>i. b_dev (buf s i) = d \<and> blockno (buf s i) = b \<and> b_valid (buf s i)) (order s) of
      Some i \<Rightarrow> b_data (buf s i) | None \<Rightarrow> disks s (drive d) b)"

text \<open>
  Buffers \<open>L\<close> are held. Device \<open>d\<close> is in use, no block of it has two buffers, and a buffer that is not
  held and not dirty agrees with the disk.
\<close>

definition io_ok :: "u32 \<Rightarrow> io \<Rightarrow> nat set \<Rightarrow> bool" where
  "io_ok d s L \<longleftrightarrow> distinct (order s) \<and> set (order s) = {..<NBUF} \<and> d \<noteq> 0 \<and> havedisk1 s \<and>
     (\<forall>i \<in> L. i < NBUF \<and> locked (buf s i) \<and> refcnt (buf s i) = 1) \<and>
     (\<forall>i < NBUF. i \<notin> L \<longrightarrow> \<not> locked (buf s i) \<and> refcnt (buf s i) = 0) \<and>
     (\<forall>b i. holds s d b i \<longrightarrow> b_valid (buf s i)) \<and>
     (\<forall>b i j. holds s d b i \<longrightarrow> holds s d b j \<longrightarrow> i = j) \<and>
     (\<forall>b i. i \<notin> L \<longrightarrow> holds s d b i \<longrightarrow> \<not> b_dirty (buf s i) \<longrightarrow> b_data (buf s i) = disks s (drive d) b)"

lemma io_okD:
  assumes "io_ok d s L"
  shows "distinct (order s)" "set (order s) = {..<NBUF}" "d \<noteq> 0" "havedisk1 s"
    "i \<in> L \<Longrightarrow> i < NBUF" "i \<in> L \<Longrightarrow> locked (buf s i)" "i \<in> L \<Longrightarrow> refcnt (buf s i) = 1"
    "i < NBUF \<Longrightarrow> i \<notin> L \<Longrightarrow> \<not> locked (buf s i)" "i < NBUF \<Longrightarrow> i \<notin> L \<Longrightarrow> refcnt (buf s i) = 0"
    "holds s d b i \<Longrightarrow> b_valid (buf s i)" "holds s d b i \<Longrightarrow> holds s d b j \<Longrightarrow> i = j"
    "i \<notin> L \<Longrightarrow> holds s d b i \<Longrightarrow> \<not> b_dirty (buf s i) \<Longrightarrow> b_data (buf s i) = disks s (drive d) b"
  using assms unfolding io_ok_def by blast+

lemma upd_buf_simps [simp]:
  "buf (upd_buf i f s) j = (if j = i then f (buf s i) else buf s j)" "order (upd_buf i f s) = order s"
  "disks (upd_buf i f s) = disks s" "served (upd_buf i f s) = served s" "havedisk1 (upd_buf i f s) = havedisk1 s"
  by (simp_all add: upd_buf_def)

lemma find_member: "List.find P xs = Some i \<Longrightarrow> P i \<and> i \<in> set xs"
  by (induction xs) (auto split: if_splits)

lemma find_only: "P i \<Longrightarrow> i \<in> set xs \<Longrightarrow> (\<And>j. j \<in> set xs \<Longrightarrow> P j \<Longrightarrow> j = i) \<Longrightarrow> List.find P xs = Some i"
proof (cases "List.find P xs")
  case None
  assume "P i" "i \<in> set xs"
  with None show ?thesis by (auto simp: find_None_iff)
next
  case (Some j)
  assume only: "\<And>j. j \<in> set xs \<Longrightarrow> P j \<Longrightarrow> j = i"
  from find_member [OF Some] show ?thesis using only [of j] Some by simp
qed

text \<open>The view of a block, by its buffer.\<close>

lemma view_held:
  assumes ok: "io_ok d s L" and h: "holds s d b i"
  shows "view s d b = b_data (buf s i)"
proof -
  have "List.find (\<lambda>j. b_dev (buf s j) = d \<and> blockno (buf s j) = b \<and> b_valid (buf s j)) (order s) = Some i"
    using io_okD(2,11) [OF ok] io_okD(10) [OF ok h] h by (intro find_only) (auto simp: holds_def)
  then show ?thesis by (simp add: view_def)
qed

lemma view_free: "io_ok d s L \<Longrightarrow> \<forall>i. \<not> holds s d b i \<Longrightarrow> view s d b = disks s (drive d) b"
proof -
  assume ok: "io_ok d s L" and n: "\<forall>i. \<not> holds s d b i"
  have "List.find (\<lambda>i. b_dev (buf s i) = d \<and> blockno (buf s i) = b \<and> b_valid (buf s i)) (order s) = None"
    using io_okD(2) [OF ok] n by (auto simp: find_None_iff holds_def)
  then show ?thesis by (simp add: view_def)
qed

definition dirty_at :: "io \<Rightarrow> u32 \<Rightarrow> u32 \<Rightarrow> bool" where
  "dirty_at s d b \<longleftrightarrow> (\<exists>i. holds s d b i \<and> b_dirty (buf s i))"

lemma view_clean: "io_ok d s {} \<Longrightarrow> \<not> dirty_at s d b \<Longrightarrow> view s d b = disks s (drive d) b"
  using view_free [of d s "{}" b] view_held [of d s "{}" b] io_okD(12) [of d s "{}" _ b] by (auto simp: dirty_at_def)

text \<open>A buffer that is dirty in \<open>t\<close> was dirty in \<open>s\<close> and held the same block.\<close>

definition keeps :: "io \<Rightarrow> io \<Rightarrow> bool" where
  "keeps s t \<longleftrightarrow> (\<forall>j. b_dirty (buf t j) \<longrightarrow>
     b_dirty (buf s j) \<and> b_dev (buf t j) = b_dev (buf s j) \<and> blockno (buf t j) = blockno (buf s j))"

lemma keeps_refl: "keeps s s" by (simp add: keeps_def)

lemma keeps_trans: "keeps s t \<Longrightarrow> keeps t u \<Longrightarrow> keeps s u" by (simp add: keeps_def)

lemma keeps_dirty: "keeps s t \<Longrightarrow> b_dirty (buf t j) \<Longrightarrow> b_dirty (buf s j)" by (simp add: keeps_def)

lemma keeps_holds: "keeps s t \<Longrightarrow> b_dirty (buf t j) \<Longrightarrow> holds t d c j = holds s d c j"
  by (simp add: keeps_def holds_def)

section \<open>Reading, writing and releasing a buffer\<close>

text \<open>In \<open>t\<close> the buffer \<open>i\<close> is held for block \<open>b\<close>, and nothing that can be seen has changed since \<open>s\<close>.\<close>

definition opened :: "u32 \<Rightarrow> nat set \<Rightarrow> io \<Rightarrow> u32 \<Rightarrow> nat \<Rightarrow> io \<Rightarrow> bool" where
  "opened d L s b i t \<longleftrightarrow> io_ok d t (insert i L) \<and> i \<notin> L \<and> holds t d b i \<and> b_data (buf t i) = view s d b \<and>
     b_dirty (buf t i) = dirty_at s d b \<and> disks t = disks s \<and> served t = served s \<and> (\<forall>j. j \<noteq> i \<longrightarrow> buf t j = buf s j) \<and>
     (\<forall>j. b_dirty (buf t j) = b_dirty (buf s j)) \<and>
     keeps s t \<and> (\<forall>c. view t d c = view s d c) \<and> (\<forall>c. dirty_at t d c = dirty_at s d c)"

lemma openedD:
  assumes "opened d L s b i t"
  shows "io_ok d t (insert i L)" "i \<notin> L" "holds t d b i" "b_data (buf t i) = view s d b" "b_dirty (buf t i) = dirty_at s d b"
    "disks t = disks s" "served t = served s" "j \<noteq> i \<Longrightarrow> buf t j = buf s j" "view t d c = view s d c"
    "dirty_at t d c = dirty_at s d c" "b_dirty (buf t j) = b_dirty (buf s j)"
    "keeps s t"
  using assms unfolding opened_def by blast+

lemma bread_hit:
  assumes ok: "io_ok d s L" and h: "holds s d b i" and n: "i \<notin> L"
  shows "\<exists>t. bread d b s = Some (i, t) \<and> opened d L s b i t"
proof -
  let ?f = "\<lambda>x. x\<lparr>refcnt := refcnt x + 1, locked := True\<rparr>"
  have i: "i < NBUF" using h by (simp add: holds_def)
  have f: "List.find (\<lambda>j. b_dev (buf s j) = d \<and> blockno (buf s j) = b) (order s) = Some i"
    using io_okD(2,11) [OF ok] h by (intro find_only) (auto simp: holds_def)
  define t where "t = upd_buf i ?f s"
  have v: "b_valid (buf s i)" by (rule io_okD(10) [OF ok h])
  have run: "bread d b s = Some (i, t)"
    using f io_okD(8) [OF ok i n] v by (simp add: bread_def bget_def t_def)
  have hs: "holds t d' c j = holds s d' c j" for d' c j by (simp add: holds_def t_def)
  have okt: "io_ok d t (insert i L)"
    unfolding io_ok_def hs
    using io_okD [OF ok] i n by (simp add: t_def)
  have vw: "view t d c = view s d c" for c
  proof (cases "\<exists>j. holds s d c j")
    case True
    then obtain j where j: "holds s d c j" by blast
    then show ?thesis using view_held [OF ok j] view_held [OF okt, of c j] hs by (simp add: t_def)
  next
    case False
    then show ?thesis using view_free [OF ok, of c] view_free [OF okt, of c] hs by (simp add: t_def)
  qed
  have bd: "b_dirty (buf t j) = b_dirty (buf s j)" for j by (simp add: t_def)
  have dr: "dirty_at t d c = dirty_at s d c" for c by (simp add: dirty_at_def hs bd)
  have "b_dirty (buf s i) = dirty_at s d b" unfolding dirty_at_def using io_okD(11) [OF ok h] h by metis
  moreover have "\<forall>j. j \<noteq> i \<longrightarrow> buf t j = buf s j" by (simp add: t_def)
  moreover have "b_data (buf t i) = view s d b" using view_held [OF ok h] by (simp add: t_def)
  moreover have "disks t = disks s" "served t = served s" "keeps s t" by (simp_all add: t_def keeps_def)
  ultimately have "opened d L s b i t"
    using okt n h by (simp add: opened_def hs vw dr bd)
  then show ?thesis using run by blast
qed

lemma bread_miss:
  assumes ok: "io_ok d s L" and h: "\<forall>i. \<not> holds s d b i" and b: "b < FSSIZE"
    and room: "\<exists>i < NBUF. i \<notin> L \<and> \<not> b_dirty (buf s i)"
  shows "\<exists>i t. bread d b s = Some (i, t) \<and> opened d L s b i t"
proof -
  let ?P = "\<lambda>i. refcnt (buf s i) = 0 \<and> \<not> b_dirty (buf s i)"
  obtain r where r: "r < NBUF" "r \<notin> L" "\<not> b_dirty (buf s r)" using room by blast
  have "List.find ?P (rev (order s)) \<noteq> None"
    using r io_okD(9) [OF ok r(1,2)] io_okD(2) [OF ok] by (auto simp: find_None_iff)
  then obtain i where i: "List.find ?P (rev (order s)) = Some i" by blast
  from find_member [OF this] have Pi: "?P i" "i \<in> set (order s)" by simp_all
  then have il: "i < NBUF" using io_okD(2) [OF ok] by simp
  have iL: "i \<notin> L" using Pi(1) io_okD(7) [OF ok, of i] by auto
  have f: "List.find (\<lambda>j. b_dev (buf s j) = d \<and> blockno (buf s j) = b) (order s) = None"
    using io_okD(2) [OF ok] h by (auto simp: find_None_iff holds_def)
  define t where "t = upd_buf i (\<lambda>x. x\<lparr>b_dev := d, blockno := b, refcnt := 1, locked := True,
    b_data := disks s (drive d) b, b_valid := True, b_dirty := False\<rparr>) s"
  have run: "bread d b s = Some (i, t)"
    using f i io_okD(8) [OF ok il iL] io_okD(3,4) [OF ok] b
    by (simp add: bread_def bget_def iderw_def ide_serve_def Let_def t_def not_le) (simp add: upd_buf_def)
  have hs: "holds t d c j \<longleftrightarrow> (if j = i then c = b else holds s d c j)" for c j using il by (auto simp: holds_def t_def)
  have okt: "io_ok d t (insert i L)"
    unfolding io_ok_def hs
    using io_okD [OF ok] il h by (simp add: t_def) metis
  have vw: "view t d c = view s d c" for c
  proof (cases "c = b")
    case True
    have "holds t d b i" by (simp add: hs)
    then show ?thesis using True view_held [OF okt, of b i] view_free [OF ok h] by (simp add: t_def)
  next
    case False
    show ?thesis
    proof (cases "\<exists>j. j \<noteq> i \<and> holds s d c j")
      case True
      then obtain j where j: "j \<noteq> i" "holds s d c j" by blast
      then show ?thesis using view_held [OF ok j(2)] view_held [OF okt, of c j] hs False by (simp add: t_def)
    next
      case nj: False
      have "\<forall>j. \<not> holds t d c j" unfolding hs using False nj by auto
      from view_free [OF okt this] have "view t d c = disks s (drive d) c" by (simp add: t_def)
      moreover have "view s d c = disks s (drive d) c"
        using nj view_free [OF ok, of c] view_held [OF ok, of c i] io_okD(12) [OF ok iL, of c] Pi(1) by metis
      ultimately show ?thesis by simp
    qed
  qed
  have dr: "dirty_at t d c = dirty_at s d c" for c using h Pi(1) by (auto simp: dirty_at_def hs) (auto simp: t_def)
  have "\<not> dirty_at s d b" using h by (auto simp: dirty_at_def)
  moreover have "\<forall>j. j \<noteq> i \<longrightarrow> buf t j = buf s j" "\<forall>j. b_dirty (buf t j) = b_dirty (buf s j)"
    using Pi(1) by (simp_all add: t_def)
  moreover have "b_data (buf t i) = view s d b" "b_dirty (buf t i) = False" "disks t = disks s" "served t = served s" "keeps s t"
    using view_free [OF ok h] by (simp_all add: t_def keeps_def)
  ultimately have "opened d L s b i t"
    using okt iL by (simp add: opened_def hs vw dr)
  then show ?thesis using run by blast
qed

lemma bread_ok:
  assumes ok: "io_ok d s L" and n: "\<forall>i \<in> L. \<not> holds s d b i" and b: "b < FSSIZE"
    and room: "dirty_at s d b \<or> (\<exists>i < NBUF. i \<notin> L \<and> \<not> b_dirty (buf s i))"
  obtains i t where "bread d b s = Some (i, t)" "opened d L s b i t"
proof (cases "\<exists>i. holds s d b i")
  case True
  then obtain i where "holds s d b i" by blast
  then show thesis using bread_hit [OF ok, of b i] n that by blast
next
  case False
  then have "\<not> dirty_at s d b" by (auto simp: dirty_at_def)
  then show thesis using bread_miss [OF ok _ b] room False that by blast
qed

text \<open>A buffer that is held is written: disk and view of its block are its data.\<close>

lemma bwrite_ok:
  assumes ok: "io_ok d s L" and i: "i \<in> L" "holds s d b i" and b: "b < FSSIZE"
  obtains t where "bwrite i s = Some t" "io_ok d t L" "buf t = (buf s)(i := (buf s i)\<lparr>b_dirty := False\<rparr>)"
    "disks t = put_disk (drive d, b, b_data (buf s i)) (disks s)"
    "served t = served s @ [(drive d, b, b_data (buf s i))]" "\<And>c. view t d c = view s d c"
    "\<And>c. dirty_at t d c \<longleftrightarrow> dirty_at s d c \<and> c \<noteq> b"
proof -
  define t where "t = s\<lparr>buf := (buf s)(i := (buf s i)\<lparr>b_dirty := False\<rparr>),
    disks := put_disk (drive d, b, b_data (buf s i)) (disks s), served := served s @ [(drive d, b, b_data (buf s i))]\<rparr>"
  have v: "b_valid (buf s i)" by (rule io_okD(10) [OF ok i(2)])
  have di: "b_dev (buf s i) = d" "blockno (buf s i) = b" using i(2) by (simp_all add: holds_def)
  have vt: "(buf s i)\<lparr>b_valid := True, b_dirty := False\<rparr> = (buf s i)\<lparr>b_dirty := False\<rparr>"
    using v by (cases "buf s i") simp
  have run: "bwrite i s = Some t"
    using io_okD(6) [OF ok i(1)] io_okD(3,4) [OF ok] b v di
    by (simp add: bwrite_def iderw_def ide_serve_def Let_def not_le t_def) (simp add: upd_buf_def vt)
  have hs: "holds t d c j = holds s d c j" for c j by (simp add: holds_def t_def)
  have other: "disks t (drive d) c = (if c = b then b_data (buf s i) else disks s (drive d) c)" for c
    by (simp add: t_def put_disk_def)
  have okt: "io_ok d t L"
    unfolding io_ok_def hs other
    using io_okD [OF ok] i by (simp add: t_def)
  have vw: "view t d c = view s d c" for c
  proof (cases "\<exists>j. holds s d c j")
    case True
    then obtain j where j: "holds s d c j" by blast
    then show ?thesis using view_held [OF ok j] view_held [OF okt, of c j] hs by (simp add: t_def)
  next
    case False
    then have "c \<noteq> b" using i(2) by blast
    then show ?thesis using view_free [OF ok, of c] view_free [OF okt, of c] hs other False by simp
  qed
  have bd: "b_dirty (buf t j) \<longleftrightarrow> b_dirty (buf s j) \<and> j \<noteq> i" for j by (simp add: t_def)
  have "dirty_at t d c \<longleftrightarrow> dirty_at s d c \<and> c \<noteq> b" for c
  proof -
    have "holds s d c j \<Longrightarrow> j \<noteq> i \<longleftrightarrow> c \<noteq> b" for j using io_okD(11) [OF ok i(2), of j] i(2) by (metis holds_def)
    then show ?thesis unfolding dirty_at_def hs bd by metis
  qed
  from that [OF run okt _ _ _ vw this] show thesis by (simp add: t_def)
qed

lemma brelse_ok:
  assumes ok: "io_ok d s L" and i: "i \<in> L"
    and clean: "\<And>b. holds s d b i \<Longrightarrow> \<not> b_dirty (buf s i) \<Longrightarrow> b_data (buf s i) = disks s (drive d) b"
  obtains t where "brelse i s = Some t" "io_ok d t (L - {i})" "disks t = disks s" "served t = served s"
    "\<And>c. view t d c = view s d c" "\<And>c. dirty_at t d c = dirty_at s d c" "\<And>j. j \<noteq> i \<Longrightarrow> buf t j = buf s j"
    "\<And>c j. holds t d c j = holds s d c j" "keeps s t"
proof -
  define t where "t = (upd_buf i (\<lambda>x. x\<lparr>locked := False, refcnt := 0\<rparr>) s)\<lparr>order := i # remove1 i (order s)\<rparr>"
  have il: "i < NBUF" by (rule io_okD(5) [OF ok i])
  have run: "brelse i s = Some t"
    using io_okD(6,7) [OF ok i] by (simp add: brelse_def Let_def t_def upd_buf_def)
  have hs: "holds t d c j = holds s d c j" for c j by (simp add: holds_def t_def)
  have od: "distinct (order t)" "set (order t) = {..<NBUF}"
    using io_okD(1,2) [OF ok] il by (auto simp: t_def)
  have okt: "io_ok d t (L - {i})"
    unfolding io_ok_def hs
  proof (intro conjI allI impI ballI)
    fix c j assume j: "j \<notin> L - {i}" "holds s d c j" "\<not> b_dirty (buf t j)"
    show "b_data (buf t j) = disks t (drive d) c"
      using j clean [of c] io_okD(12) [OF ok, of j c] by (cases "j = i") (simp_all add: t_def)
  qed (use od io_okD [OF ok] in \<open>auto simp: t_def\<close>)
  have bd: "b_dirty (buf t j) = b_dirty (buf s j)" "b_data (buf t j) = b_data (buf s j)" for j by (simp_all add: t_def)
  have vw: "view t d c = view s d c" for c
  proof (cases "\<exists>j. holds s d c j")
    case True
    then obtain j where j: "holds s d c j" by blast
    then show ?thesis using view_held [OF ok j] view_held [OF okt, of c j] hs bd by simp
  next
    case False
    then have "\<forall>j. \<not> holds s d c j" "\<forall>j. \<not> holds t d c j" by (simp_all add: hs)
    then show ?thesis using view_free [OF ok] view_free [OF okt] by (simp add: t_def)
  qed
  have kp: "keeps s t" by (simp add: keeps_def t_def)
  from that [OF run okt _ _ vw _ _ hs kp] show thesis by (simp add: dirty_at_def hs bd) (simp add: t_def)
qed

text \<open>Changing the data of a buffer that is held changes the view of its block.\<close>

definition set_data :: "nat \<Rightarrow> bytes \<Rightarrow> io \<Rightarrow> io" where
  "set_data i v = upd_buf i (\<lambda>b. b\<lparr>b_data := v\<rparr>)"

lemma set_data_ok:
  assumes ok: "io_ok d s L" and i: "i \<in> L" "holds s d b i"
  shows "io_ok d (set_data i v s) L" "view (set_data i v s) d c = (if c = b then v else view s d c)"
    "dirty_at (set_data i v s) d c = dirty_at s d c" "holds (set_data i v s) d c j = holds s d c j"
proof -
  let ?t = "set_data i v s"
  show hs: "holds ?t d c j = holds s d c j" for c j by (simp add: holds_def set_data_def)
  show okt: "io_ok d ?t L"
    unfolding io_ok_def hs using io_okD [OF ok] i by (simp add: set_data_def)
  show "view ?t d c = (if c = b then v else view s d c)"
  proof (cases "\<exists>j. holds s d c j")
    case True
    then obtain j where j: "holds s d c j" by blast
    have "j = i \<longleftrightarrow> c = b" using j i(2) io_okD(11) [OF ok, of b] by (auto simp: holds_def)
    then show ?thesis using view_held [OF ok j] view_held [OF okt, of c j] hs j by (simp add: set_data_def)
  next
    case False
    then have "\<forall>j. \<not> holds s d c j" "\<forall>j. \<not> holds ?t d c j" by (simp_all add: hs)
    then show ?thesis using view_free [OF ok] view_free [OF okt] i(2) by (auto simp: set_data_def)
  qed
  have "b_dirty (buf ?t j) = b_dirty (buf s j)" for j by (simp add: set_data_def)
  then show "dirty_at ?t d c = dirty_at s d c" by (simp add: dirty_at_def hs)
qed

lemma set_data_simps [simp]: "disks (set_data i v s) = disks s" "served (set_data i v s) = served s"
  "b_data (buf (set_data i v s) j) = (if j = i then v else b_data (buf s j))"
  "b_dirty (buf (set_data i v s) j) = b_dirty (buf s j)"
  by (simp_all add: set_data_def)

text \<open>A block is copied to another through their buffers \<open>i\<close> and \<open>j\<close>, and both are released.\<close>

lemma copy_held:
  assumes ok: "io_ok d s {p, q}" and h: "holds s d a p" "holds s d b q" "p \<noteq> q" and b: "b < FSSIZE"
    and cl: "\<not> b_dirty (buf s p) \<longrightarrow> b_data (buf s p) = disks s (drive d) a"
    and sec: "sector (b_data (buf s p))" "sector (b_data (buf s q))"
  obtains t u v where "bwrite q (set_data q (memmove (b_data (buf s q)) 0 (b_data (buf s p)) 0 BSIZE) s) = Some t"
    "brelse p t = Some u" "brelse q u = Some v" "io_ok d v {}"
    "disks v = put_disk (drive d, b, b_data (buf s p)) (disks s)"
    "served v = served s @ [(drive d, b, b_data (buf s p))]"
    "\<And>c. view v d c = (if c = b then b_data (buf s p) else view s d c)"
    "\<And>c. dirty_at v d c \<longleftrightarrow> dirty_at s d c \<and> c \<noteq> b" "keeps s v"
proof -
  define x where "x = b_data (buf s p)"
  define s1 where "s1 = set_data q x s"
  have cp: "memmove (b_data (buf s q)) 0 (b_data (buf s p)) 0 BSIZE = x" using copy_sector [OF sec(2,1)] by (simp add: x_def)
  have q: "q \<in> {p, q}" and p: "p \<in> {p, q}" by simp_all
  note sd = set_data_ok [OF ok q h(2), of x, folded s1_def]
  have ab: "a \<noteq> b" using h io_okD(11) [OF ok h(1), of q] by auto
  have hq: "holds s1 d b q" and hp: "holds s1 d a p" using h sd(4) by simp_all
  obtain t where t: "bwrite q s1 = Some t" "io_ok d t {p, q}" "buf t = (buf s1)(q := (buf s1 q)\<lparr>b_dirty := False\<rparr>)"
    "disks t = put_disk (drive d, b, b_data (buf s1 q)) (disks s1)"
    "served t = served s1 @ [(drive d, b, b_data (buf s1 q))]" "\<And>c. view t d c = view s1 d c"
    "\<And>c. dirty_at t d c \<longleftrightarrow> dirty_at s1 d c \<and> c \<noteq> b"
    by (rule bwrite_ok [OF sd(1) q hq b]) blast
  have dt: "b_data (buf s1 q) = x" "b_data (buf s1 p) = x" using h(3) by (simp_all add: s1_def x_def)
  have ht: "holds t d c j = holds s d c j" for c j using sd(4) t(3) by (simp add: holds_def)
  have cp1: "b_data (buf t p) = disks t (drive d) c" if "holds t d c p" "\<not> b_dirty (buf t p)" for c
  proof -
    have "c = a" using that(1) h(1) ht by (simp add: holds_def)
    then show ?thesis using that(2) cl h(3) ab by (simp add: t(3,4) s1_def put_disk_def x_def)
  qed
  obtain u where u: "brelse p t = Some u" "io_ok d u ({p, q} - {p})" "disks u = disks t" "served u = served t"
    "\<And>c. view u d c = view t d c" "\<And>c. dirty_at u d c = dirty_at t d c" "\<And>j. j \<noteq> p \<Longrightarrow> buf u j = buf t j"
    "\<And>c j. holds u d c j = holds t d c j" "keeps t u"
    by (rule brelse_ok [OF t(2) p cp1]) blast+
  have q2: "q \<in> {p, q} - {p}" using h(3) by simp
  have cq: "b_data (buf u q) = disks u (drive d) c" if "holds u d c q" "\<not> b_dirty (buf u q)" for c
  proof -
    have "c = b" using that(1) h(2) u(8) ht by (simp add: holds_def)
    then show ?thesis using u(3,7) t(3,4) h(3) dt by (simp add: put_disk_def)
  qed
  obtain v where v: "brelse q u = Some v" "io_ok d v ({p, q} - {p} - {q})" "disks v = disks u" "served v = served u"
    "\<And>c. view v d c = view u d c" "\<And>c. dirty_at v d c = dirty_at u d c" "keeps u v"
    by (rule brelse_ok [OF u(2) q2 cq]) blast+
  have e: "{p, q} - {p} - {q} = {}" by auto
  have "keeps s t" using t(3) by (simp add: keeps_def s1_def set_data_def)
  then have fin: "keeps s v" using keeps_trans u(9) v(7) by blast
  have bw: "bwrite q (set_data q (memmove (b_data (buf s q)) 0 (b_data (buf s p)) 0 BSIZE) s) = Some t"
    unfolding cp s1_def [symmetric] by (rule t(1))
  have ds: "disks s1 = disks s" "served s1 = served s" by (simp_all add: s1_def)
  show thesis
    by (rule that [OF bw u(1) v(1) v(2) [unfolded e]])
      (use v(3-6) u(3-6) t(4-7) sd(2,3) dt fin ds in \<open>simp_all add: x_def\<close>)
qed

end
