(* ===== verification/Log.thy ===== *)
theory Log
  imports Bio
begin

text \<open>
  The log of the file system of project 5, \<open>3-1/OS/PRJ5/xv6-sse-local/log.c\<close>, over the buffer cache
  of theory \<open>Bio\<close>. System calls mark what belongs together with \<open>begin_op\<close> and \<open>end_op\<close> and record the blocks
  they change with \<open>log_write\<close>; the last \<open>end_op\<close> commits. \<open>None\<close> stands for a panic and for a process
  that sleeps; the spin lock and \<open>wakeup\<close> are left out.
\<close>

abbreviation (input) "MAXOPBLOCKS \<equiv> (10 :: int)"
abbreviation (input) "LOGSIZE \<equiv> (30 :: int)"

record log =
  io_of :: io
  l_start :: u32
  l_size :: u32            \<comment> \<open>an \<open>int\<close>\<close>
  outstanding :: int
  committing :: bool
  l_dev :: u32
  lh_n :: int              \<comment> \<open>\<open>lh.n\<close>\<close>
  lh_block :: "nat \<Rightarrow> u32"  \<comment> \<open>\<open>lh.block\<close>, 30 entries\<close>

text \<open>The block of the log that belongs to an entry of the header.\<close>

definition log_block :: "log \<Rightarrow> nat \<Rightarrow> u32" where
  "log_block s tail = l_start s + word_of_nat tail + 1"

text \<open>\<open>memmove\<close> of a whole block to a buffer.\<close>

definition copy_buf :: "nat \<Rightarrow> nat \<Rightarrow> io \<Rightarrow> io" where
  "copy_buf dst src m = set_data dst (memmove (b_data (buf m dst)) 0 (b_data (buf m src)) 0 BSIZE) m"

definition install_trans :: "log \<Rightarrow> log option" where
  "install_trans s =
     do {
       m \<leftarrow> for_opt [0..<nat (lh_n s)] (\<lambda>tail m. do {
         (lbuf, m) \<leftarrow> bread (l_dev s) (log_block s tail) m;
         (dbuf, m) \<leftarrow> bread (l_dev s) (lh_block s tail) m;
         m \<leftarrow> bwrite dbuf (copy_buf dbuf lbuf m);
         m \<leftarrow> brelse lbuf m;
         brelse dbuf m }) (io_of s);
       Some (s\<lparr>io_of := m\<rparr>) }"

definition read_head :: "log \<Rightarrow> log option" where
  "read_head s =
     do {
       (i, m) \<leftarrow> bread (l_dev s) (l_start s) (io_of s);
       let h = b_data (buf m i);
       let n = sint (load32 h 0);
       if n > LOGSIZE then None   \<comment> \<open>outside of \<open>lh.block\<close>\<close>
       else do {
         m \<leftarrow> brelse i m;
         Some (s\<lparr>io_of := m, lh_n := n,
           lh_block := (\<lambda>k. if k < nat n then load32 h (4 + 4 * k) else lh_block s k)\<rparr>) } }"

definition write_head :: "log \<Rightarrow> log option" where
  "write_head s =
     do {
       (i, m) \<leftarrow> bread (l_dev s) (l_start s) (io_of s);
       let h = store32 (b_data (buf m i)) 0 (word_of_int (lh_n s));
       let h = fold (\<lambda>k h. store32 h (4 + 4 * k) (lh_block s k)) [0..<nat (lh_n s)] h;
       m \<leftarrow> bwrite i (set_data i h m);
       m \<leftarrow> brelse i m;
       Some (s\<lparr>io_of := m\<rparr>) }"

definition recover_from_log :: "log \<Rightarrow> log option" where
  "recover_from_log s =
     do {
       s \<leftarrow> read_head s;
       s \<leftarrow> install_trans s;
       write_head (s\<lparr>lh_n := 0\<rparr>) }"

text \<open>\<open>initlog\<close>, with \<open>readsb\<close> of \<open>fs.c\<close>: of the superblock it uses \<open>nlog\<close> and \<open>logstart\<close>.\<close>

definition initlog :: "u32 \<Rightarrow> log \<Rightarrow> log option" where
  "initlog dev s =
     do {
       (i, m) \<leftarrow> bread dev 1 (io_of s);
       let sb = b_data (buf m i);
       m \<leftarrow> brelse i m;
       recover_from_log (s\<lparr>io_of := m, l_start := load32 sb 16, l_size := load32 sb 12, l_dev := dev\<rparr>) }"

definition write_log :: "log \<Rightarrow> log option" where
  "write_log s =
     do {
       m \<leftarrow> for_opt [0..<nat (lh_n s)] (\<lambda>tail m. do {
         (to, m) \<leftarrow> bread (l_dev s) (log_block s tail) m;
         (from, m) \<leftarrow> bread (l_dev s) (lh_block s tail) m;
         m \<leftarrow> bwrite to (copy_buf to from m);
         m \<leftarrow> brelse from m;
         brelse to m }) (io_of s);
       Some (s\<lparr>io_of := m\<rparr>) }"

definition commit :: "log \<Rightarrow> log option" where
  "commit s =
     (if lh_n s > 0 then do {
        s \<leftarrow> write_log s;
        s \<leftarrow> write_head s;
        s \<leftarrow> install_trans s;
        write_head (s\<lparr>lh_n := 0\<rparr>) }
      else Some s)"

definition begin_op :: "log \<Rightarrow> log option" where
  "begin_op s =
     (if committing s then None
      else if lh_n s + (outstanding s + 1) * MAXOPBLOCKS > LOGSIZE then None
      else Some (s\<lparr>outstanding := outstanding s + 1\<rparr>))"

definition end_op :: "log \<Rightarrow> log option" where
  "end_op s =
     (let s = s\<lparr>outstanding := outstanding s - 1\<rparr> in
      if committing s then None
      else if outstanding s = 0 then do {
        s \<leftarrow> commit (s\<lparr>committing := True\<rparr>);
        Some (s\<lparr>committing := False\<rparr>) }
      else Some s)"

text \<open>\<open>log_write\<close> of a buffer; \<open>i\<close> is the place of its block in the header, or the first free one.\<close>

definition log_write :: "nat \<Rightarrow> log \<Rightarrow> log option" where
  "log_write b s =
     (if lh_n s \<ge> LOGSIZE \<or> lh_n s \<ge> sint (l_size s) - 1 then None
      else if outstanding s < 1 then None
      else
        let bno = blockno (buf (io_of s) b);
            i = (case List.find (\<lambda>i. lh_block s i = bno) [0..<nat (lh_n s)] of Some i \<Rightarrow> i | None \<Rightarrow> nat (lh_n s))
        in Some (s\<lparr>lh_block := (lh_block s)(i := bno), lh_n := (if int i = lh_n s then lh_n s + 1 else lh_n s),
             io_of := upd_buf b (\<lambda>x. x\<lparr>b_dirty := True\<rparr>) (io_of s)\<rparr>))"

text \<open>
  What a file system operation does with one block: it reads it, changes it, logs it and releases it.
\<close>

definition change_block :: "u32 \<Rightarrow> bytes \<Rightarrow> log \<Rightarrow> log option" where
  "change_block bno v s =
     do {
       (b, m) \<leftarrow> bread (l_dev s) bno (io_of s);
       s \<leftarrow> log_write b (s\<lparr>io_of := set_data b v m\<rparr>);
       m \<leftarrow> brelse b (io_of s);
       Some (s\<lparr>io_of := m\<rparr>) }"

end
