(* ===== verification/LogLoops.thy ===== *)
theory LogLoops
  imports Log
begin

text \<open>
  The loops of the log as sequences of disk writes: what each of them writes, in which order, and what
  the blocks hold afterwards.
\<close>

section \<open>Writes in order\<close>

abbreviation writes :: "(nat \<times> u32 \<times> bytes) list \<Rightarrow> (nat \<Rightarrow> u32 \<Rightarrow> bytes) \<Rightarrow> nat \<Rightarrow> u32 \<Rightarrow> bytes" where
  "writes ws \<equiv> fold put_disk ws"

text \<open>The blocks \<open>g 0\<close>, \<open>g 1\<close>, ... of a drive get the contents \<open>f 0\<close>, \<open>f 1\<close>, ...\<close>

definition block_writes :: "nat \<Rightarrow> (nat \<Rightarrow> u32) \<Rightarrow> (nat \<Rightarrow> bytes) \<Rightarrow> nat \<Rightarrow> (nat \<times> u32 \<times> bytes) list" where
  "block_writes k g f n = map (\<lambda>t. (k, g t, f t)) [0..<n]"

lemma block_writes_Suc: "block_writes k g f (Suc n) = block_writes k g f n @ [(k, g n, f n)]"
  by (simp add: block_writes_def)

lemma length_block_writes [simp]: "length (block_writes k g f n) = n"
  by (simp add: block_writes_def)

lemma take_block_writes: "m \<le> n \<Longrightarrow> take m (block_writes k g f n) = block_writes k g f m"
  by (simp add: block_writes_def take_map)

lemma writes_other: "\<forall>t < n. g t \<noteq> c \<Longrightarrow> writes (block_writes k g f n) D k c = D k c"
  by (induction n) (auto simp: block_writes_Suc put_disk_def, simp add: block_writes_def)

lemma writes_at: "t < n \<Longrightarrow> inj_on g {..<n} \<Longrightarrow> writes (block_writes k g f n) D k (g t) = f t"
proof (induction n)
  case (Suc n)
  show ?case
  proof (cases "t = n")
    case True
    then show ?thesis by (simp add: block_writes_Suc put_disk_def)
  next
    case False
    then have "g t \<noteq> g n" "t < n" using Suc.prems by (auto dest: inj_onD)
    then show ?thesis using Suc by (simp add: block_writes_Suc put_disk_def inj_on_def)
  qed
qed simp

section \<open>Two blocks\<close>

text \<open>
  Buffers for two blocks at once: there must be a buffer that is not dirty, and the second block must
  be in a buffer already, or no buffer is dirty.
\<close>

lemma two_open:
  assumes ok: "io_ok d m {}" and ab: "a \<noteq> b" "a < FSSIZE" "b < FSSIZE"
    and room: "\<exists>i < NBUF. \<not> b_dirty (buf m i)" "dirty_at m d b \<or> (\<forall>i < NBUF. \<not> b_dirty (buf m i))"
  obtains i m1 j m2 where "bread d a m = Some (i, m1)" "bread d b m1 = Some (j, m2)" "i \<noteq> j" "io_ok d m2 {i, j}"
    "holds m2 d a i" "holds m2 d b j" "b_data (buf m2 i) = view m d a" "b_data (buf m2 j) = view m d b"
    "disks m2 = disks m" "served m2 = served m" "\<And>c. view m2 d c = view m d c" "\<And>c. dirty_at m2 d c = dirty_at m d c"
    "keeps m m2"
    "\<not> b_dirty (buf m2 i) \<longrightarrow> b_data (buf m2 i) = disks m2 (drive d) a"
    "\<not> b_dirty (buf m2 j) \<longrightarrow> b_data (buf m2 j) = disks m2 (drive d) b"
proof -
  have n0: "\<forall>i \<in> {}. \<not> holds m d a i" by simp
  have r0: "dirty_at m d a \<or> (\<exists>i < NBUF. i \<notin> {} \<and> \<not> b_dirty (buf m i))" using room(1) by auto
  obtain i m1 where o1: "bread d a m = Some (i, m1)" "opened d {} m a i m1" by (rule bread_ok [OF ok n0 ab(2) r0])
  note D1 = openedD [OF o1(2)]
  have ok1: "io_ok d m1 {i}" using D1(1) by simp
  have n1: "\<forall>k \<in> {i}. \<not> holds m1 d b k" using D1(3) ab(1) by (auto simp: holds_def)
  have r1: "dirty_at m1 d b \<or> (\<exists>k < NBUF. k \<notin> {i} \<and> \<not> b_dirty (buf m1 k))"
  proof (cases "dirty_at m d b")
    case True
    then show ?thesis using D1(10) by simp
  next
    case False
    then have "\<forall>k < NBUF. \<not> b_dirty (buf m1 k)" using room(2) D1(11) by simp
    moreover have "(if i = 0 then 1 else 0) < NBUF" "(if i = 0 then 1 else 0) \<noteq> i" by auto
    ultimately show ?thesis by blast
  qed
  obtain j m2 where o2: "bread d b m1 = Some (j, m2)" "opened d {i} m1 b j m2" by (rule bread_ok [OF ok1 n1 ab(3) r1])
  note D2 = openedD [OF o2(2)]
  have ij: "i \<noteq> j" using D2(2) by simp
  have hi: "holds m2 d a i" using D1(3) D2(8) [OF ij] by (simp add: holds_def)
  have di: "b_data (buf m2 i) = view m d a" using D1(4) D2(8) [OF ij] by simp
  have dj: "b_data (buf m2 j) = view m d b" using D2(4) D1(9) by simp
  have ci: "\<not> b_dirty (buf m2 i) \<longrightarrow> b_data (buf m2 i) = disks m2 (drive d) a"
    using view_clean [OF ok, of a] D1(5,6) D2(6,8) ij di by simp
  have cj: "\<not> b_dirty (buf m2 j) \<longrightarrow> b_data (buf m2 j) = disks m2 (drive d) b"
    using view_clean [OF ok, of b] D1(6,10) D2(5,6) dj by simp
  show thesis
    using that [OF o1(1) o2(1) ij _ hi D2(3) di dj _ _ _ _ keeps_trans [OF D1(12) D2(12)] ci cj]
      D2(1) D1(6,7,9,10) D2(6,7,9,10) by (simp add: insert_commute)
qed

text \<open>The block \<open>b\<close> has been written with \<open>x\<close>, or with a copy of the block \<open>a\<close>; all else is as before.\<close>

definition wrote_block :: "u32 \<Rightarrow> u32 \<Rightarrow> bytes \<Rightarrow> io \<Rightarrow> io \<Rightarrow> bool" where
  "wrote_block d b x m v \<longleftrightarrow> io_ok d v {} \<and> disks v = put_disk (drive d, b, x) (disks m) \<and>
     served v = served m @ [(drive d, b, x)] \<and> (\<forall>c. view v d c = (if c = b then x else view m d c)) \<and>
     (\<forall>c. dirty_at v d c \<longleftrightarrow> dirty_at m d c \<and> c \<noteq> b) \<and> keeps m v"

abbreviation copied_block :: "u32 \<Rightarrow> u32 \<Rightarrow> u32 \<Rightarrow> io \<Rightarrow> io \<Rightarrow> bool" where
  "copied_block d a b m v \<equiv> wrote_block d b (view m d a) m v"

lemma wrote_blockD:
  assumes "wrote_block d b x m v"
  shows "io_ok d v {}" "disks v = put_disk (drive d, b, x) (disks m)"
    "served v = served m @ [(drive d, b, x)]" "view v d c = (if c = b then x else view m d c)"
    "dirty_at v d c \<longleftrightarrow> dirty_at m d c \<and> c \<noteq> b" "b_dirty (buf v j) \<Longrightarrow> b_dirty (buf m j)" "keeps m v"
  using assms keeps_dirty unfolding wrote_block_def by blast+

lemma install_step:
  assumes ok: "io_ok d m {}" and ab: "a \<noteq> b" "a < FSSIZE" "b < FSSIZE"
    and room: "\<exists>i < NBUF. \<not> b_dirty (buf m i)" "dirty_at m d b \<or> (\<forall>i < NBUF. \<not> b_dirty (buf m i))"
    and sec: "sector (view m d a)" "sector (view m d b)"
  obtains v where "do { (i, m) \<leftarrow> bread d a m; (j, m) \<leftarrow> bread d b m; m \<leftarrow> bwrite j (copy_buf j i m); m \<leftarrow> brelse i m; brelse j m } = Some v"
    "copied_block d a b m v"
proof -
  obtain i m1 j m2 where h: "bread d a m = Some (i, m1)" "bread d b m1 = Some (j, m2)" "i \<noteq> j" "io_ok d m2 {i, j}"
    "holds m2 d a i" "holds m2 d b j" "b_data (buf m2 i) = view m d a" "b_data (buf m2 j) = view m d b"
    "disks m2 = disks m" "served m2 = served m" "\<And>c. view m2 d c = view m d c" "\<And>c. dirty_at m2 d c = dirty_at m d c"
    "keeps m m2"
    "\<not> b_dirty (buf m2 i) \<longrightarrow> b_data (buf m2 i) = disks m2 (drive d) a"
    "\<not> b_dirty (buf m2 j) \<longrightarrow> b_data (buf m2 j) = disks m2 (drive d) b"
    by (rule two_open [OF ok ab room]) blast
  have sc: "sector (b_data (buf m2 i))" "sector (b_data (buf m2 j))" using sec h(7,8) by simp_all
  obtain t u v where w: "bwrite j (set_data j (memmove (b_data (buf m2 j)) 0 (b_data (buf m2 i)) 0 BSIZE) m2) = Some t"
    "brelse i t = Some u" "brelse j u = Some v" "io_ok d v {}"
    "disks v = put_disk (drive d, b, b_data (buf m2 i)) (disks m2)"
    "served v = served m2 @ [(drive d, b, b_data (buf m2 i))]"
    "\<And>c. view v d c = (if c = b then b_data (buf m2 i) else view m2 d c)"
    "\<And>c. dirty_at v d c \<longleftrightarrow> dirty_at m2 d c \<and> c \<noteq> b" "keeps m2 v"
    by (rule copy_held [OF h(4-6,3) ab(3) h(14) sc]) blast
  have "copied_block d a b m v" using w(4-8) h(7,9-12) keeps_trans [OF h(13) w(9)] by (simp add: wrote_block_def)
  then show thesis using that h(1,2) w(1-3) by (simp add: copy_buf_def)
qed

lemma save_step:
  assumes ok: "io_ok d m {}" and ab: "a \<noteq> b" "a < FSSIZE" "b < FSSIZE"
    and room: "\<exists>i < NBUF. \<not> b_dirty (buf m i)" "dirty_at m d b \<or> (\<forall>i < NBUF. \<not> b_dirty (buf m i))"
    and sec: "sector (view m d a)" "sector (view m d b)"
  obtains v where "do { (i, m) \<leftarrow> bread d a m; (j, m) \<leftarrow> bread d b m; m \<leftarrow> bwrite i (copy_buf i j m); m \<leftarrow> brelse j m; brelse i m } = Some v"
    "copied_block d b a m v"
proof -
  obtain i m1 j m2 where h: "bread d a m = Some (i, m1)" "bread d b m1 = Some (j, m2)" "i \<noteq> j" "io_ok d m2 {i, j}"
    "holds m2 d a i" "holds m2 d b j" "b_data (buf m2 i) = view m d a" "b_data (buf m2 j) = view m d b"
    "disks m2 = disks m" "served m2 = served m" "\<And>c. view m2 d c = view m d c" "\<And>c. dirty_at m2 d c = dirty_at m d c"
    "keeps m m2"
    "\<not> b_dirty (buf m2 i) \<longrightarrow> b_data (buf m2 i) = disks m2 (drive d) a"
    "\<not> b_dirty (buf m2 j) \<longrightarrow> b_data (buf m2 j) = disks m2 (drive d) b"
    by (rule two_open [OF ok ab room]) blast
  have sc: "sector (b_data (buf m2 i))" "sector (b_data (buf m2 j))" using sec h(7,8) by simp_all
  have ji: "io_ok d m2 {j, i}" "j \<noteq> i" using h(3,4) by (simp_all add: insert_commute)
  obtain t u v where w: "bwrite i (set_data i (memmove (b_data (buf m2 i)) 0 (b_data (buf m2 j)) 0 BSIZE) m2) = Some t"
    "brelse j t = Some u" "brelse i u = Some v" "io_ok d v {}"
    "disks v = put_disk (drive d, a, b_data (buf m2 j)) (disks m2)"
    "served v = served m2 @ [(drive d, a, b_data (buf m2 j))]"
    "\<And>c. view v d c = (if c = a then b_data (buf m2 j) else view m2 d c)"
    "\<And>c. dirty_at v d c \<longleftrightarrow> dirty_at m2 d c \<and> c \<noteq> a" "keeps m2 v"
    by (rule copy_held [OF ji(1) h(6,5) ji(2) ab(2) h(15) sc(2,1)]) blast
  have "copied_block d b a m v" using w(4-8) h(8,9-12) keeps_trans [OF h(13) w(9)] by (simp add: wrote_block_def)
  then show thesis using that h(1,2) w(1-3) by (simp add: copy_buf_def)
qed

section \<open>The loops\<close>

text \<open>In \<open>v\<close>, since \<open>m\<close>, the blocks \<open>src t\<close> have been copied to \<open>dst t\<close> for \<open>t\<close> below \<open>k\<close>, in this order.\<close>

definition copies :: "u32 \<Rightarrow> (nat \<Rightarrow> u32) \<Rightarrow> (nat \<Rightarrow> u32) \<Rightarrow> io \<Rightarrow> nat \<Rightarrow> io \<Rightarrow> bool" where
  "copies d src dst m k v \<longleftrightarrow> io_ok d v {} \<and>
     disks v = writes (block_writes (drive d) dst (\<lambda>t. view m d (src t)) k) (disks m) \<and>
     served v = served m @ block_writes (drive d) dst (\<lambda>t. view m d (src t)) k \<and>
     (\<forall>t < k. view v d (dst t) = view m d (src t)) \<and>
     (\<forall>c. (\<forall>t < k. dst t \<noteq> c) \<longrightarrow> view v d c = view m d c) \<and>
     (\<forall>c. dirty_at v d c \<longleftrightarrow> dirty_at m d c \<and> (\<forall>t < k. dst t \<noteq> c)) \<and>
     keeps m v"

lemma copiesD:
  assumes "copies d src dst m k v"
  shows "io_ok d v {}" "disks v = writes (block_writes (drive d) dst (\<lambda>t. view m d (src t)) k) (disks m)"
    "served v = served m @ block_writes (drive d) dst (\<lambda>t. view m d (src t)) k"
    "t < k \<Longrightarrow> view v d (dst t) = view m d (src t)" "\<forall>t < k. dst t \<noteq> c \<Longrightarrow> view v d c = view m d c"
    "dirty_at v d c \<longleftrightarrow> dirty_at m d c \<and> (\<forall>t < k. dst t \<noteq> c)" "b_dirty (buf v j) \<Longrightarrow> b_dirty (buf m j)" "keeps m v"
  using assms keeps_dirty unfolding copies_def by blast+

lemma copies_none: "io_ok d m {} \<Longrightarrow> copies d src dst m 0 m"
  by (simp add: copies_def block_writes_def keeps_refl)

lemma copies_next:
  assumes c: "copies d src dst m k v" and w: "copied_block d (src k) (dst k) v w"
    and ne: "\<forall>t < k. dst t \<noteq> src k" "\<forall>t < k. dst t \<noteq> dst k"
  shows "copies d src dst m (Suc k) w"
proof -
  have src: "view v d (src k) = view m d (src k)" by (rule copiesD(5) [OF c ne(1)])
  show ?thesis
    unfolding copies_def
  proof (intro conjI allI impI)
    show "io_ok d w {}" by (rule wrote_blockD(1) [OF w])
    show "disks w = writes (block_writes (drive d) dst (\<lambda>t. view m d (src t)) (Suc k)) (disks m)"
      using wrote_blockD(2) [OF w] copiesD(2) [OF c] src by (simp add: block_writes_Suc)
    show "served w = served m @ block_writes (drive d) dst (\<lambda>t. view m d (src t)) (Suc k)"
      using wrote_blockD(3) [OF w] copiesD(3) [OF c] src by (simp add: block_writes_Suc)
    show "view w d (dst t) = view m d (src t)" if "t < Suc k" for t
      using wrote_blockD(4) [OF w] copiesD(4) [OF c, of t] ne(2) src that by (cases "t = k") auto
    show "view w d e = view m d e" if "\<forall>t < Suc k. dst t \<noteq> e" for e
      using wrote_blockD(4) [OF w, of e] copiesD(5) [OF c, of e] that by auto
    show "dirty_at w d e \<longleftrightarrow> dirty_at m d e \<and> (\<forall>t < Suc k. dst t \<noteq> e)" for e
      using wrote_blockD(5) [OF w, of e] copiesD(6) [OF c, of e] by (auto simp: less_Suc_eq)
    show "keeps m w" by (rule keeps_trans [OF copiesD(8) [OF c] wrote_blockD(7) [OF w]])
  qed
qed

text \<open>
  The blocks that may be logged, and a header that names such blocks: the superblock and the log
  itself are not among them, and the log has a block for each.
\<close>

definition home :: "u32 \<Rightarrow> u32 \<Rightarrow> u32 \<Rightarrow> bool" where
  "home st sz b \<longleftrightarrow> b < FSSIZE \<and> b \<noteq> 1 \<and> \<not> (unat st \<le> unat b \<and> unat b < unat st + unat sz)"

definition wf_head :: "u32 \<Rightarrow> u32 \<Rightarrow> int \<Rightarrow> (nat \<Rightarrow> u32) \<Rightarrow> bool" where
  "wf_head st sz n blk \<longleftrightarrow> 1 < unat st \<and> unat st + unat sz \<le> 20000 \<and> unat sz \<le> 30 \<and>
     0 \<le> n \<and> n < int (unat sz) \<and> inj_on blk {..<nat n} \<and> (\<forall>t < nat n. home st sz (blk t))"

abbreviation wf_log :: "log \<Rightarrow> bool" where
  "wf_log s \<equiv> wf_head (l_start s) (l_size s) (lh_n s) (lh_block s)"

lemma wf_headD:
  assumes "wf_head st sz n blk"
  shows "1 < unat st" "unat st + unat sz \<le> 20000" "unat sz \<le> 30" "0 \<le> n" "n < int (unat sz)" "inj_on blk {..<nat n}"
    "t < nat n \<Longrightarrow> home st sz (blk t)" "n \<le> 30" "st < FSSIZE"
proof -
  have f: "unat sz \<le> 30" "0 \<le> n" "n < int (unat sz)" "unat st + unat sz \<le> 20000"
    using assms unfolding wf_head_def by blast+
  show "n \<le> 30" using f by linarith
  have "unat st < 20000" using f by linarith
  then show "st < FSSIZE" by (simp add: word_less_nat_alt)
qed (use assms in \<open>unfold wf_head_def, blast+\<close>)

lemma wf_head_cong: "wf_head st sz n blk \<Longrightarrow> (\<And>t. t < nat n \<Longrightarrow> blk' t = blk t) \<Longrightarrow> wf_head st sz n blk'"
  unfolding wf_head_def by (simp add: inj_on_def)

text \<open>The block of the log for entry \<open>t\<close>.\<close>

abbreviation entry :: "u32 \<Rightarrow> nat \<Rightarrow> u32" where
  "entry st t \<equiv> st + word_of_nat t + 1"

lemma entry_unat:
  assumes "wf_head st sz n blk" "t < nat n"
  shows "unat (entry st t) = unat st + t + 1" "unat st + t + 1 < unat st + unat sz"
proof -
  show l: "unat st + t + 1 < unat st + unat sz" using wf_headD(5) [OF assms(1)] assms(2) by linarith
  have "unat (word_of_nat t :: u32) = t" using l wf_headD(2) [OF assms(1)] by (simp add: unat_of_nat)
  then show "unat (entry st t) = unat st + t + 1"
    using l wf_headD(2) [OF assms(1)] by (simp add: unat_word_ariths)
qed

lemma entries:
  assumes "wf_head st sz n blk" "t < nat n"
  shows "entry st t < FSSIZE" "entry st t \<noteq> st" "\<not> home st sz (entry st t)" "entry st t \<noteq> 1"
    "u < nat n \<Longrightarrow> blk u \<noteq> entry st t" "inj_on (entry st) {..<nat n}"
    "u < nat n \<Longrightarrow> blk u < FSSIZE"
proof -
  note lb = entry_unat [OF assms] and w = wf_headD [OF assms(1)]
  show "entry st t < FSSIZE" using lb w(2) by (simp add: word_less_nat_alt)
  have "unat (entry st t) \<noteq> unat st" using lb by simp
  then show "entry st t \<noteq> st" unfolding word_unat_eq_iff .
  show nh: "\<not> home st sz (entry st t)" using lb by (auto simp: home_def)
  have "unat (entry st t) \<noteq> unat (1 :: u32)" using lb w(1) by simp
  then show "entry st t \<noteq> 1" unfolding word_unat_eq_iff .
  show "u < nat n \<Longrightarrow> blk u \<noteq> entry st t" using w(7) nh by metis
  show "inj_on (entry st) {..<nat n}"
    using entry_unat(1) [OF assms(1)] by (intro inj_onI) (metis add_right_cancel add_left_cancel lessThan_iff)
  show "u < nat n \<Longrightarrow> blk u < FSSIZE" using w(7) by (simp add: home_def)
qed

lemma start_not_home: "wf_head st sz n blk \<Longrightarrow> \<not> home st sz st"
proof -
  assume w: "wf_head st sz n blk"
  have "0 < unat sz" using wf_headD(4,5) [OF w] by linarith
  then show ?thesis by (simp add: home_def)
qed

lemma blk_not_start: "wf_head st sz n blk \<Longrightarrow> t < nat n \<Longrightarrow> blk t \<noteq> st"
  using wf_headD(7) [of st sz n blk t] start_not_home [of st sz n blk] by metis

text \<open>Copying the log to the blocks, for blocks that are pinned or when nothing is dirty.\<close>

lemma install_ok:
  assumes wf: "wf_log s" and ok: "io_ok (l_dev s) (io_of s) {}" and sec: "\<forall>c. sector (view (io_of s) (l_dev s) c)"
    and room: "\<exists>i < NBUF. \<not> b_dirty (buf (io_of s) i)"
    and pin: "(\<forall>t < nat (lh_n s). dirty_at (io_of s) (l_dev s) (lh_block s t)) \<or> (\<forall>i < NBUF. \<not> b_dirty (buf (io_of s) i))"
  shows "\<exists>v. install_trans s = Some (s\<lparr>io_of := v\<rparr>) \<and> copies (l_dev s) (log_block s) (lh_block s) (io_of s) (nat (lh_n s)) v"
proof -
  define f where "f = (\<lambda>tail m. do {
         (lbuf, m) \<leftarrow> bread (l_dev s) (log_block s tail) m;
         (dbuf, m) \<leftarrow> bread (l_dev s) (lh_block s tail) m;
         m \<leftarrow> bwrite dbuf (copy_buf dbuf lbuf m);
         m \<leftarrow> brelse lbuf m;
         brelse dbuf m })"
  have "\<exists>v. for_opt [0..<nat (lh_n s)] f (io_of s) = Some v \<and>
      copies (l_dev s) (log_block s) (lh_block s) (io_of s) (nat (lh_n s)) v"
  proof (rule for_opt_rule)
    fix t v assume t: "t < nat (lh_n s)" and c: "copies (l_dev s) (log_block s) (lh_block s) (io_of s) t v"
    note lb = entries [OF wf t, folded log_block_def]
    have ne: "\<forall>u < t. lh_block s u \<noteq> log_block s t" "\<forall>u < t. lh_block s u \<noteq> lh_block s t"
      using lb(5) wf_headD(6) [OF wf] t by (auto dest!: inj_onD)
    have r1: "\<exists>i < NBUF. \<not> b_dirty (buf v i)" using room copiesD(7) [OF c] by blast
    have r2: "dirty_at v (l_dev s) (lh_block s t) \<or> (\<forall>i < NBUF. \<not> b_dirty (buf v i))"
      using pin copiesD(6) [OF c, of "lh_block s t"] copiesD(7) [OF c] ne(2) t by blast
    have sc: "sector (view v (l_dev s) (log_block s t))" "sector (view v (l_dev s) (lh_block s t))"
      using copiesD(5) [OF c ne(1)] copiesD(5) [OF c ne(2)] sec by simp_all
    have ab: "log_block s t \<noteq> lh_block s t" using lb(5) [OF t] by simp
    obtain w where w: "f t v = Some w" "copied_block (l_dev s) (log_block s t) (lh_block s t) v w"
      unfolding f_def by (rule install_step [OF copiesD(1) [OF c] ab lb(1) lb(7) [OF t] r1 r2 sc])
    show "\<exists>w. f t v = Some w \<and> copies (l_dev s) (log_block s) (lh_block s) (io_of s) (Suc t) w"
      using w(1) copies_next [OF c w(2) ne] by blast
  qed (rule copies_none [OF ok])
  then show ?thesis by (auto simp: install_trans_def f_def)
qed

lemma write_log_ok:
  assumes wf: "wf_log s" and ok: "io_ok (l_dev s) (io_of s) {}" and sec: "\<forall>c. sector (view (io_of s) (l_dev s) c)"
    and room: "\<exists>i < NBUF. \<not> b_dirty (buf (io_of s) i)"
    and pin: "\<forall>t < nat (lh_n s). dirty_at (io_of s) (l_dev s) (lh_block s t)"
  shows "\<exists>v. write_log s = Some (s\<lparr>io_of := v\<rparr>) \<and> copies (l_dev s) (lh_block s) (log_block s) (io_of s) (nat (lh_n s)) v"
proof -
  define f where "f = (\<lambda>tail m. do {
         (to, m) \<leftarrow> bread (l_dev s) (log_block s tail) m;
         (from, m) \<leftarrow> bread (l_dev s) (lh_block s tail) m;
         m \<leftarrow> bwrite to (copy_buf to from m);
         m \<leftarrow> brelse from m;
         brelse to m })"
  have "\<exists>v. for_opt [0..<nat (lh_n s)] f (io_of s) = Some v \<and>
      copies (l_dev s) (lh_block s) (log_block s) (io_of s) (nat (lh_n s)) v"
  proof (rule for_opt_rule)
    fix t v assume t: "t < nat (lh_n s)" and c: "copies (l_dev s) (lh_block s) (log_block s) (io_of s) t v"
    note lb = entries [OF wf t, folded log_block_def]
    have ne: "\<forall>u < t. log_block s u \<noteq> lh_block s t" "\<forall>u < t. log_block s u \<noteq> log_block s t"
      using entries(5) [OF wf _ t, folded log_block_def] lb(6) t by (auto dest!: inj_onD) (metis order.strict_trans)
    have r1: "\<exists>i < NBUF. \<not> b_dirty (buf v i)" using room copiesD(7) [OF c] by blast
    have r2: "dirty_at v (l_dev s) (lh_block s t) \<or> (\<forall>i < NBUF. \<not> b_dirty (buf v i))"
      using pin copiesD(6) [OF c, of "lh_block s t"] ne(1) t by blast
    have sc: "sector (view v (l_dev s) (log_block s t))" "sector (view v (l_dev s) (lh_block s t))"
      using copiesD(5) [OF c ne(1)] copiesD(5) [OF c ne(2)] sec by simp_all
    have ab: "log_block s t \<noteq> lh_block s t" using lb(5) [OF t] by simp
    obtain w where w: "f t v = Some w" "copied_block (l_dev s) (lh_block s t) (log_block s t) v w"
      unfolding f_def by (rule save_step [OF copiesD(1) [OF c] ab lb(1) lb(7) [OF t] r1 r2 sc])
    show "\<exists>w. f t v = Some w \<and> copies (l_dev s) (lh_block s) (log_block s) (io_of s) (Suc t) w"
      using w(1) copies_next [OF c w(2) ne] by blast
  qed (rule copies_none [OF ok])
  then show ?thesis by (auto simp: write_log_def f_def)
qed

section \<open>The header\<close>

lemma read_block:
  assumes ok: "io_ok d m {}" and a: "a < FSSIZE" and room: "\<exists>i < NBUF. \<not> b_dirty (buf m i)"
  obtains i m1 v where "bread d a m = Some (i, m1)" "b_data (buf m1 i) = view m d a" "brelse i m1 = Some v" "io_ok d v {}"
    "disks v = disks m" "served v = served m" "\<And>c. view v d c = view m d c" "\<And>c. dirty_at v d c = dirty_at m d c"
    "keeps m v"
proof -
  have n0: "\<forall>i \<in> {}. \<not> holds m d a i" by simp
  have r0: "dirty_at m d a \<or> (\<exists>i < NBUF. i \<notin> {} \<and> \<not> b_dirty (buf m i))" using room by auto
  obtain i m1 where o1: "bread d a m = Some (i, m1)" "opened d {} m a i m1" by (rule bread_ok [OF ok n0 a r0])
  note D = openedD [OF o1(2)]
  have cl: "b_data (buf m1 i) = disks m1 (drive d) c" if "holds m1 d c i" "\<not> b_dirty (buf m1 i)" for c
  proof -
    have "c = a" using that(1) D(3) by (simp add: holds_def)
    then show ?thesis using that(2) D(4-6) view_clean [OF ok, of a] by simp
  qed
  obtain v where v: "brelse i m1 = Some v" "io_ok d v (insert i {} - {i})" "disks v = disks m1" "served v = served m1"
    "\<And>c. view v d c = view m1 d c" "\<And>c. dirty_at v d c = dirty_at m1 d c" "keeps m1 v"
    by (rule brelse_ok [OF D(1) insertI1 cl]) blast+
  show thesis using that [OF o1(1) D(4) v(1)] v D keeps_trans [OF D(12) v(7)] by simp
qed

lemma write_block:
  assumes ok: "io_ok d m {}" and a: "a < FSSIZE" and room: "\<exists>i < NBUF. \<not> b_dirty (buf m i)"
  obtains i m1 where "bread d a m = Some (i, m1)" "b_data (buf m1 i) = view m d a"
    "\<And>x. \<exists>t v. bwrite i (set_data i x m1) = Some t \<and> brelse i t = Some v \<and> wrote_block d a x m v"
proof -
  have n0: "\<forall>i \<in> {}. \<not> holds m d a i" by simp
  have r0: "dirty_at m d a \<or> (\<exists>i < NBUF. i \<notin> {} \<and> \<not> b_dirty (buf m i))" using room by auto
  obtain i m1 where o1: "bread d a m = Some (i, m1)" "opened d {} m a i m1" by (rule bread_ok [OF ok n0 a r0])
  note D = openedD [OF o1(2)]
  have "\<exists>t v. bwrite i (set_data i x m1) = Some t \<and> brelse i t = Some v \<and> wrote_block d a x m v" for x
  proof -
    note sd = set_data_ok [OF D(1) insertI1 D(3), of x]
    have h: "holds (set_data i x m1) d a i" using sd(4) D(3) by simp
    obtain t where t: "bwrite i (set_data i x m1) = Some t" "io_ok d t (insert i {})"
      "buf t = (buf (set_data i x m1))(i := (buf (set_data i x m1) i)\<lparr>b_dirty := False\<rparr>)"
      "disks t = put_disk (drive d, a, b_data (buf (set_data i x m1) i)) (disks (set_data i x m1))"
      "served t = served (set_data i x m1) @ [(drive d, a, b_data (buf (set_data i x m1) i))]"
      "\<And>c. view t d c = view (set_data i x m1) d c" "\<And>c. dirty_at t d c \<longleftrightarrow> dirty_at (set_data i x m1) d c \<and> c \<noteq> a"
      by (rule bwrite_ok [OF sd(1) insertI1 h a]) blast
    have ht: "holds t d c i \<Longrightarrow> c = a" for c using D(3) t(3) by (simp add: holds_def set_data_def)
    have cl: "b_data (buf t i) = disks t (drive d) c" if "holds t d c i" "\<not> b_dirty (buf t i)" for c
      using ht [OF that(1)] by (simp add: t(3,4) put_disk_def)
    obtain v where v: "brelse i t = Some v" "io_ok d v (insert i {} - {i})" "disks v = disks t" "served v = served t"
      "\<And>c. view v d c = view t d c" "\<And>c. dirty_at v d c = dirty_at t d c" "keeps t v"
      by (rule brelse_ok [OF t(2) insertI1 cl]) blast+
    have "keeps m1 t" using t(3) by (simp add: keeps_def set_data_def)
    then have "keeps m v" using keeps_trans D(12) v(7) by blast
    then have "wrote_block d a x m v" using v t D sd by (simp add: wrote_block_def)
    then show ?thesis using t(1) v(1) by blast
  qed
  with o1(1) D(4) show thesis by (rule that)
qed

text \<open>The header block as the words it holds.\<close>

definition hd_n :: "bytes \<Rightarrow> int" where "hd_n h = sint (load32 h 0)"
definition hd_block :: "bytes \<Rightarrow> nat \<Rightarrow> u32" where "hd_block h k = load32 h (4 + 4 * k)"

definition head_bytes :: "int \<Rightarrow> (nat \<Rightarrow> u32) \<Rightarrow> bytes \<Rightarrow> bytes" where
  "head_bytes n blk h = fold (\<lambda>k h. store32 h (4 + 4 * k) (blk k)) [0..<nat n] (store32 h 0 (word_of_int n))"

lemma head_bytes_words:
  assumes "0 \<le> n" "n \<le> 30"
  shows "hd_n (head_bytes n blk h) = n" "k < nat n \<Longrightarrow> hd_block (head_bytes n blk h) k = blk k"
    "sector h \<Longrightarrow> sector (head_bytes n blk h)"
proof -
  have "load32 (head_bytes n blk h) 0 = load32 (store32 h 0 (word_of_int n)) 0"
    by (rule load32_cong) (simp add: head_bytes_def fold_store_other)
  moreover have "sint (word_of_int n :: u32) = n" using sint_of_nat_small [of "nat n"] assms by simp
  ultimately show "hd_n (head_bytes n blk h) = n" by (simp add: hd_n_def)
  show "k < nat n \<Longrightarrow> hd_block (head_bytes n blk h) k = blk k" by (simp add: hd_block_def head_bytes_def fold_store_at)
  assume "sector h"
  then have s0: "sector (store32 h 0 (word_of_int n))" by (rule store_sector) simp
  show "sector (head_bytes n blk h)"
    unfolding sector_def
  proof (intro allI impI)
    fix k :: nat assume "BSIZE \<le> k"
    then show "head_bytes n blk h k = 0"
      using s0 assms by (simp add: head_bytes_def fold_store_other sector_def)
  qed
qed

lemma write_head_ok:
  assumes ok: "io_ok (l_dev s) (io_of s) {}" and st: "l_start s < FSSIZE" and room: "\<exists>i < NBUF. \<not> b_dirty (buf (io_of s) i)"
  shows "\<exists>v. write_head s = Some (s\<lparr>io_of := v\<rparr>) \<and>
    wrote_block (l_dev s) (l_start s) (head_bytes (lh_n s) (lh_block s) (view (io_of s) (l_dev s) (l_start s))) (io_of s) v"
proof -
  obtain i m1 where o1: "bread (l_dev s) (l_start s) (io_of s) = Some (i, m1)"
    and dt: "b_data (buf m1 i) = view (io_of s) (l_dev s) (l_start s)"
    and w: "\<And>x. \<exists>t v. bwrite i (set_data i x m1) = Some t \<and> brelse i t = Some v \<and> wrote_block (l_dev s) (l_start s) x (io_of s) v"
    by (rule write_block [OF ok st room]) blast
  show ?thesis
    using o1 w [of "head_bytes (lh_n s) (lh_block s) (view (io_of s) (l_dev s) (l_start s))"]
    by (auto simp: write_head_def Let_def dt head_bytes_def)
qed

lemma read_head_ok:
  assumes ok: "io_ok (l_dev s) (io_of s) {}" and st: "l_start s < FSSIZE" and room: "\<exists>i < NBUF. \<not> b_dirty (buf (io_of s) i)"
    and n: "hd_n (view (io_of s) (l_dev s) (l_start s)) \<le> 30"
  obtains v where "read_head s = Some (s\<lparr>io_of := v, lh_n := hd_n (view (io_of s) (l_dev s) (l_start s)),
      lh_block := (\<lambda>k. if k < nat (hd_n (view (io_of s) (l_dev s) (l_start s)))
        then hd_block (view (io_of s) (l_dev s) (l_start s)) k else lh_block s k)\<rparr>)"
    "io_ok (l_dev s) v {}" "disks v = disks (io_of s)" "served v = served (io_of s)"
    "\<And>c. view v (l_dev s) c = view (io_of s) (l_dev s) c" "keeps (io_of s) v"
proof -
  obtain i m1 v where r: "bread (l_dev s) (l_start s) (io_of s) = Some (i, m1)"
    "b_data (buf m1 i) = view (io_of s) (l_dev s) (l_start s)" "brelse i m1 = Some v" "io_ok (l_dev s) v {}"
    "disks v = disks (io_of s)" "served v = served (io_of s)" "\<And>c. view v (l_dev s) c = view (io_of s) (l_dev s) c"
    "keeps (io_of s) v"
    by (rule read_block [OF ok st room]) blast
  show thesis
    by (rule that [OF _ r(4-8)]) (use r(1-3) n in \<open>simp add: read_head_def Let_def hd_n_def hd_block_def not_less cong: if_cong\<close>)
qed

end
