(* ===== verification/LogSpec.thy ===== *)
theory LogSpec
  imports LogLoops
begin

text \<open>
  Crashes. The power can fail between any two writes of the disk; then memory is lost and the next boot
  runs the recovery. Whatever the moment, all changes of a transaction are there afterwards or
  none, and a recovery that is itself cut short is repeated without loss.
\<close>

section \<open>What recovery and commit write\<close>

definition redo_list :: "nat \<Rightarrow> u32 \<Rightarrow> (nat \<Rightarrow> u32 \<Rightarrow> bytes) \<Rightarrow> (nat \<times> u32 \<times> bytes) list" where
  "redo_list k st D = block_writes k (hd_block (D k st)) (\<lambda>t. D k (entry st t)) (nat (hd_n (D k st))) @
     [(k, st, head_bytes 0 (\<lambda>_. 0) (D k st))]"

definition commit_list :: "nat \<Rightarrow> u32 \<Rightarrow> int \<Rightarrow> (nat \<Rightarrow> u32) \<Rightarrow> (nat \<Rightarrow> bytes) \<Rightarrow> bytes \<Rightarrow> (nat \<times> u32 \<times> bytes) list" where
  "commit_list k st n blk new h = block_writes k (entry st) new (nat n) @ [(k, st, head_bytes n blk h)] @
     block_writes k blk new (nat n) @ [(k, st, head_bytes 0 blk (head_bytes n blk h))]"

lemma block_writes_cong: "(\<And>t. t < n \<Longrightarrow> g t = g' t \<and> f t = f' t) \<Longrightarrow> block_writes k g f n = block_writes k g' f' n"
  by (simp add: block_writes_def)

lemma head_bytes_0: "head_bytes 0 blk h = head_bytes 0 (\<lambda>_. 0) h"
  by (simp add: head_bytes_def)

definition clean :: "io \<Rightarrow> bool" where
  "clean m \<longleftrightarrow> (\<forall>i < NBUF. \<not> b_dirty (buf m i))"

lemma clean_room: "clean m \<Longrightarrow> \<exists>i < NBUF. \<not> b_dirty (buf m i)"
  unfolding clean_def by (rule exI [of _ 0]) simp

lemma clean_view: "io_ok d m {} \<Longrightarrow> clean m \<Longrightarrow> view m d c = disks m (drive d) c"
  by (rule view_clean) (auto simp: dirty_at_def clean_def holds_def)

lemma recover_ok:
  assumes ok: "io_ok (l_dev s) (io_of s) {}" and cl: "clean (io_of s)"
    and sec: "\<forall>c. sector (disks (io_of s) (drive (l_dev s)) c)"
    and wf: "wf_head (l_start s) (l_size s) (hd_n (disks (io_of s) (drive (l_dev s)) (l_start s)))
      (hd_block (disks (io_of s) (drive (l_dev s)) (l_start s)))"
  obtains blk v where "recover_from_log s = Some (s\<lparr>io_of := v, lh_n := 0, lh_block := blk\<rparr>)" "io_ok (l_dev s) v {}" "clean v"
    "served v = served (io_of s) @ redo_list (drive (l_dev s)) (l_start s) (disks (io_of s))"
    "disks v = writes (redo_list (drive (l_dev s)) (l_start s) (disks (io_of s))) (disks (io_of s))"
proof -
  define d st D where "d = l_dev s" and "st = l_start s" and "D = disks (io_of s)"
  define h where "h = D (drive d) st"
  note fold = d_def [symmetric] st_def [symmetric] D_def [symmetric] h_def [symmetric]
  have vw: "view (io_of s) d c = D (drive d) c" for c using clean_view [OF ok cl] by (simp add: fold)
  have wfh: "wf_head st (l_size s) (hd_n h) (hd_block h)" using wf by (simp add: fold)
  obtain m1 where r: "read_head s = Some (s\<lparr>io_of := m1, lh_n := hd_n h,
      lh_block := (\<lambda>k. if k < nat (hd_n h) then hd_block h k else lh_block s k)\<rparr>)"
    "io_ok d m1 {}" "disks m1 = D" "served m1 = served (io_of s)" "\<And>c. view m1 d c = D (drive d) c"
    "keeps (io_of s) m1"
    using read_head_ok [OF ok wf_headD(9) [OF wf] clean_room [OF cl], unfolded fold vw, OF wf_headD(8) [OF wfh]]
    by blast
  define blk where "blk = (\<lambda>k. if k < nat (hd_n h) then hd_block h k else lh_block s k)"
  define s1 where "s1 = s\<lparr>io_of := m1, lh_n := hd_n h, lh_block := blk\<rparr>"
  have s1: "l_dev s1 = d" "io_of s1 = m1" "l_start s1 = st" "lh_n s1 = hd_n h" "lh_block s1 = blk"
    by (simp_all add: s1_def fold)
  have wf1: "wf_log s1" using wf_head_cong [OF wfh, of blk] by (simp add: s1_def blk_def st_def)
  have cl1: "clean m1" using cl keeps_dirty [OF r(6)] unfolding clean_def by blast
  have sec1: "\<forall>c. sector (view (io_of s1) (l_dev s1) c)" using sec r(5) by (simp add: s1 fold)
  obtain m2 where m2: "install_trans s1 = Some (s1\<lparr>io_of := m2\<rparr>)" "copies d (log_block s1) blk m1 (nat (hd_n h)) m2"
    using install_ok [OF wf1 _ sec1] r(2) clean_room [OF cl1] cl1 unfolding s1 clean_def by blast
  note C = copiesD [OF m2(2)]
  have cl2: "clean m2" using C(7) cl1 unfolding clean_def by blast
  define s2 where "s2 = s1\<lparr>io_of := m2, lh_n := 0\<rparr>"
  have s2: "l_dev s2 = d" "io_of s2 = m2" "l_start s2 = st" "lh_n s2 = 0" by (simp_all add: s2_def s1)
  have ns: "\<forall>t < nat (hd_n h). blk t \<noteq> st" using blk_not_start [OF wf1] s1 by simp
  have hv: "view m2 d st = h" using C(5) [OF ns] r(5) by (simp add: h_def)
  obtain v where v: "write_head s2 = Some (s2\<lparr>io_of := v\<rparr>)"
    "wrote_block d st (head_bytes 0 (\<lambda>_. 0) h) m2 v"
    using write_head_ok [of s2] C(1) wf_headD(9) [OF wfh] clean_room [OF cl2] unfolding s2 hv head_bytes_0 [of "lh_block s2"] by blast
  note W = wrote_blockD [OF v(2)]
  have cl3: "clean v" using W(6) cl2 unfolding clean_def by blast
  have src: "block_writes (drive d) blk (\<lambda>t. view m1 d (log_block s1 t)) (nat (hd_n h)) =
      block_writes (drive d) (hd_block h) (\<lambda>t. D (drive d) (entry st t)) (nat (hd_n h))"
    by (rule block_writes_cong) (simp add: blk_def r(5) log_block_def s1)
  have rl: "redo_list (drive d) st D = block_writes (drive d) blk (\<lambda>t. view m1 d (log_block s1 t)) (nat (hd_n h)) @
      [(drive d, st, head_bytes 0 (\<lambda>_. 0) h)]"
    unfolding src by (simp add: redo_list_def h_def)
  have rec: "recover_from_log s = Some (s\<lparr>io_of := v, lh_n := 0, lh_block := blk\<rparr>)"
    using r(1) m2(1) v(1) by (simp add: recover_from_log_def blk_def [symmetric] s1_def [symmetric]) (simp add: s2_def s1_def)
  show thesis
    by (rule that [OF rec W(1) [unfolded d_def] cl3]) (use W(2,3) C(2,3) r(3,4) rl in \<open>simp_all add: fold\<close>)
qed

text \<open>A state in which a transaction can be committed: its blocks, and no others, are dirty.\<close>

definition logged :: "log \<Rightarrow> bool" where
  "logged s \<longleftrightarrow> wf_log s \<and> io_ok (l_dev s) (io_of s) {} \<and> (\<forall>c. sector (view (io_of s) (l_dev s) c)) \<and>
     (\<forall>c. sector (disks (io_of s) (drive (l_dev s)) c)) \<and>
     (\<forall>c. dirty_at (io_of s) (l_dev s) c \<longleftrightarrow> (\<exists>t < nat (lh_n s). lh_block s t = c)) \<and>
     (\<forall>i < NBUF. b_dirty (buf (io_of s) i) \<longrightarrow> (\<exists>t < nat (lh_n s). holds (io_of s) (l_dev s) (lh_block s t) i)) \<and>
     lh_n s < int NBUF \<and> hd_n (disks (io_of s) (drive (l_dev s)) (l_start s)) = 0"

lemma loggedD:
  assumes "logged s"
  shows "wf_log s" "io_ok (l_dev s) (io_of s) {}" "sector (view (io_of s) (l_dev s) c)"
    "sector (disks (io_of s) (drive (l_dev s)) c)"
    "dirty_at (io_of s) (l_dev s) c \<longleftrightarrow> (\<exists>t < nat (lh_n s). lh_block s t = c)"
    "i < NBUF \<Longrightarrow> b_dirty (buf (io_of s) i) \<Longrightarrow> \<exists>t < nat (lh_n s). holds (io_of s) (l_dev s) (lh_block s t) i"
    "lh_n s < int NBUF" "hd_n (disks (io_of s) (drive (l_dev s)) (l_start s)) = 0"
  using assms unfolding logged_def by blast+

text \<open>Fewer than 30 blocks cannot fill 30 buffers.\<close>

lemma logged_room:
  assumes "logged s" shows "\<exists>i < NBUF. \<not> b_dirty (buf (io_of s) i)"
proof (rule ccontr)
  assume "\<not> ?thesis"
  then have "\<forall>i < NBUF. \<exists>t. t < nat (lh_n s) \<and> holds (io_of s) (l_dev s) (lh_block s t) i" using loggedD(6) [OF assms] by blast
  then obtain g where g: "\<And>i. i < NBUF \<Longrightarrow> g i < nat (lh_n s) \<and> holds (io_of s) (l_dev s) (lh_block s (g i)) i" by metis
  have "inj_on g {..<NBUF}"
  proof (rule inj_onI)
    fix i j assume "i \<in> {..<NBUF}" "j \<in> {..<NBUF}" "g i = g j"
    then show "i = j" using g [of i] g [of j] io_okD(11) [OF loggedD(2) [OF assms]] by (metis lessThan_iff)
  qed
  moreover have "g ` {..<NBUF} \<subseteq> {..<nat (lh_n s)}" using g by auto
  ultimately have "card {..<NBUF} \<le> card {..<nat (lh_n s)}" by (metis card_inj_on_le finite_lessThan)
  then show False using loggedD(7) [OF assms] by simp
qed

lemma commit_ok:
  assumes lg: "logged s" and n: "0 < lh_n s"
  defines "d \<equiv> l_dev s" and "st \<equiv> l_start s" and "m \<equiv> io_of s"
  obtains v where "commit s = Some (s\<lparr>io_of := v, lh_n := 0\<rparr>)" "io_ok d v {}" "clean v"
    "served v = served m @ commit_list (drive d) st (lh_n s) (lh_block s) (\<lambda>t. view m d (lh_block s t)) (disks m (drive d) st)"
    "disks v = writes (commit_list (drive d) st (lh_n s) (lh_block s) (\<lambda>t. view m d (lh_block s t)) (disks m (drive d) st)) (disks m)"
    "\<And>c. home st (l_size s) c \<or> c = 1 \<Longrightarrow> view v d c = view m d c" "\<And>c. sector (disks v (drive d) c)"
proof -
  let ?n = "nat (lh_n s)" and ?blk = "lh_block s" and ?k = "drive d"
  let ?new = "\<lambda>t. view m d (?blk t)"
  note wf = loggedD(1) [OF lg]
  note fold = d_def [symmetric] st_def [symmetric] m_def [symmetric]
  have nsd: "\<not> dirty_at m d st" using loggedD(5) [OF lg, of st] blk_not_start [OF wf] by (auto simp: fold)
  have hst: "view m d st = disks m ?k st" using view_clean [OF loggedD(2) [OF lg]] nsd by (simp add: fold)
  have room: "\<exists>i < NBUF. \<not> b_dirty (buf m i)" using logged_room [OF lg] by (simp add: fold)
  obtain m1 where w1: "write_log s = Some (s\<lparr>io_of := m1\<rparr>)" "copies d ?blk (log_block s) m ?n m1"
    using write_log_ok [OF wf loggedD(2) [OF lg]] loggedD(3,5) [OF lg] room unfolding fold by blast
  note C1 = copiesD [OF w1(2)]
  have room1: "\<exists>i < NBUF. \<not> b_dirty (buf m1 i)" using room C1(7) by blast
  have e_st: "\<forall>t < ?n. log_block s t \<noteq> st" using entries(2) [OF wf] by (simp add: log_block_def st_def)
  have h1: "view m1 d st = disks m ?k st" using C1(5) [OF e_st] hst by simp
  define s1 where "s1 = s\<lparr>io_of := m1\<rparr>"
  have s1: "l_dev s1 = d" "io_of s1 = m1" "l_start s1 = st" "lh_n s1 = lh_n s" "lh_block s1 = ?blk" by (simp_all add: s1_def fold)
  let ?H = "head_bytes (lh_n s) ?blk (disks m ?k st)"
  obtain m2 where w2: "write_head s1 = Some (s1\<lparr>io_of := m2\<rparr>)" "wrote_block d st ?H m1 m2"
    using write_head_ok [of s1] C1(1) wf_headD(9) [OF wf] room1 unfolding s1 h1 fold by blast
  note W2 = wrote_blockD [OF w2(2)]
  have room2: "\<exists>i < NBUF. \<not> b_dirty (buf m2 i)" using room1 W2(6) by blast
  define s2 where "s2 = s\<lparr>io_of := m2\<rparr>"
  have s2: "l_dev s2 = d" "io_of s2 = m2" "l_start s2 = st" "lh_n s2 = lh_n s" "lh_block s2 = ?blk" "l_size s2 = l_size s"
    by (simp_all add: s2_def fold)
  have wf2: "wf_log s2" using wf by (simp add: s2 fold)
  have lbs: "log_block s2 = log_block s" by (simp add: log_block_def fun_eq_iff s2 st_def)
  have bst: "?blk t \<noteq> st" if "t < ?n" for t using blk_not_start [OF wf that] by (simp add: fold)
  have bent: "\<forall>u < ?n. log_block s u \<noteq> ?blk t" if "t < ?n" for t
    using entries(5) [OF wf _ that] by (metis log_block_def)
  have pin2: "\<forall>t < nat (lh_n s2). dirty_at (io_of s2) (l_dev s2) (lh_block s2 t)"
    using W2(5) C1(6) bst bent loggedD(5) [OF lg] by (auto simp: s2 fold)
  have sec2: "\<forall>c. sector (view (io_of s2) (l_dev s2) c)"
  proof
    fix c
    have "sector ?H" using head_bytes_words(3) wf_headD(4,8) [OF wf] loggedD(4) [OF lg] by (simp add: fold)
    moreover have "sector (view m1 d c)"
    proof (cases "\<exists>t < ?n. log_block s t = c")
      case True
      then show ?thesis using C1(4) loggedD(3) [OF lg] by (auto simp: fold)
    next
      case False
      then show ?thesis using C1(5) [of c] loggedD(3) [OF lg] by (simp add: fold)
    qed
    ultimately show "sector (view (io_of s2) (l_dev s2) c)" using W2(4) [of c] by (simp add: s2)
  qed
  obtain m3 where w3: "install_trans s2 = Some (s2\<lparr>io_of := m3\<rparr>)" "copies d (log_block s) ?blk m2 ?n m3"
    using install_ok [OF wf2 _ sec2] W2(1) room2 pin2 unfolding s2 lbs by blast
  note C3 = copiesD [OF w3(2)]
  have room3: "\<exists>i < NBUF. \<not> b_dirty (buf m3 i)" using room2 C3(7) by blast
  have h3: "view m3 d st = ?H" using C3(5) [of st] bst W2(4) by simp
  define s3 where "s3 = s\<lparr>io_of := m3, lh_n := 0\<rparr>"
  have s3: "l_dev s3 = d" "io_of s3 = m3" "l_start s3 = st" "lh_n s3 = 0" "lh_block s3 = ?blk" by (simp_all add: s3_def fold)
  obtain v where w4: "write_head s3 = Some (s3\<lparr>io_of := v\<rparr>)" "wrote_block d st (head_bytes 0 ?blk ?H) m3 v"
    using write_head_ok [of s3] C3(1) wf_headD(9) [OF wf] room3 unfolding s3 h3 fold by blast
  note W4 = wrote_blockD [OF w4(2)]
  have src: "view m2 d (log_block s t) = ?new t" if "t < ?n" for t
    using W2(4) [of "log_block s t"] C1(4) [OF that] e_st that by simp
  have b3: "block_writes ?k ?blk (\<lambda>t. view m2 d (log_block s t)) ?n = block_writes ?k ?blk ?new ?n"
    by (rule block_writes_cong) (simp add: src)
  have b1: "block_writes ?k (log_block s) ?new ?n = block_writes ?k (entry st) ?new ?n"
    by (rule block_writes_cong) (simp add: log_block_def st_def)
  have cm: "commit s = Some (s\<lparr>io_of := v, lh_n := 0\<rparr>)"
    using n w1(1) w2(1) w3(1) w4(1) by (simp add: commit_def s1_def s2_def s3_def)
  have sv: "served v = served m @ commit_list ?k st (lh_n s) ?blk ?new (disks m ?k st)"
    using W4(3) C3(3) W2(3) C1(3) b1 b3 by (simp add: commit_list_def)
  have dv: "disks v = writes (commit_list ?k st (lh_n s) ?blk ?new (disks m ?k st)) (disks m)"
    using W4(2) C3(2) W2(2) C1(2) b1 b3 by (simp add: commit_list_def)
  have kp: "keeps m v"
    by (rule keeps_trans [OF keeps_trans [OF C1(8) W2(7)] keeps_trans [OF C3(8) W4(7)]])
  have nd: "\<not> dirty_at v d c" for c
    using W4(5) [of c] C3(6) [of c] W2(5) [of c] C1(6) [of c] loggedD(5) [OF lg, of c] by (auto simp: fold)
  have "\<not> b_dirty (buf v i)" if i: "i < NBUF" for i
  proof
    assume b: "b_dirty (buf v i)"
    then obtain t where "holds m d (?blk t) i"
      using loggedD(6) [OF lg i] keeps_dirty [OF kp b] unfolding fold by blast
    then have "holds v d (?blk t) i" using keeps_holds [OF kp b] by simp
    then show False using nd b unfolding dirty_at_def by blast
  qed
  then have cl: "clean v" by (simp add: clean_def)
  have vw: "view v d c = view m d c" if c: "home st (l_size s) c \<or> c = 1" for c
  proof -
    have ne: "c \<noteq> st" "\<forall>t < ?n. log_block s t \<noteq> c"
      using c start_not_home [OF wf] entries(3,4) [OF wf] wf_headD(1) [OF wf] by (auto simp: fold log_block_def)
    show ?thesis
    proof (cases "\<exists>t < ?n. ?blk t = c")
      case True
      then obtain t where t: "t < ?n" "?blk t = c" by blast
      have "view m3 d c = view m2 d (log_block s t)" using C3(4) [OF t(1)] t(2) by simp
      then show ?thesis using W4(4) [of c] ne(1) src [OF t(1)] t(2) by simp
    next
      case False
      then have "view m3 d c = view m2 d c" by (intro C3(5)) simp
      then show ?thesis using W4(4) [of c] W2(4) [of c] C1(5) [OF ne(2)] ne(1) by simp
    qed
  qed
  have sec: "sector (disks v (drive d) c)" for c
  proof -
    have sH: "sector ?H" using head_bytes_words(3) wf_headD(4,8) [OF wf] loggedD(4) [OF lg] by (simp add: fold)
    then have "sector (head_bytes 0 ?blk ?H)" using head_bytes_words(3) [of 0] by simp
    moreover have "sector (view m3 d c)"
    proof (cases "\<exists>t < ?n. ?blk t = c")
      case True
      then show ?thesis using C3(4) src loggedD(3) [OF lg] by (auto simp: fold)
    next
      case False
      then have "view m3 d c = view m2 d c" by (intro C3(5)) simp
      then show ?thesis using sec2 by (simp add: s2)
    qed
    ultimately show ?thesis using W4(4) [of c] clean_view [OF W4(1) cl, of c] by (simp split: if_splits)
  qed
  show thesis using that [OF cm W4(1) cl] sv dv vw sec by blast
qed

section \<open>Power failures\<close>

text \<open>What recovery makes of a disk.\<close>

lemma redo_at:
  assumes "wf_head st sz (hd_n (E k st)) (hd_block (E k st))" "t < nat (hd_n (E k st))"
  shows "writes (redo_list k st E) E k (hd_block (E k st) t) = E k (entry st t)"
  using writes_at [OF assms(2) wf_headD(6) [OF assms(1)]] blk_not_start [OF assms]
  by (simp add: redo_list_def put_disk_def)

lemma redo_other:
  assumes "\<forall>t < nat (hd_n (E k st)). hd_block (E k st) t \<noteq> c" "c \<noteq> st"
  shows "writes (redo_list k st E) E k c = E k c"
  using writes_other [OF assms(1)] assms(2) by (simp add: redo_list_def put_disk_def)

lemma hd_n_zero: "hd_n (head_bytes 0 blk h) = 0"
  using head_bytes_words(1) [of 0] by simp

text \<open>
  A commit that is cut off after \<open>j\<close> writes: recovery gives the old contents of all blocks or the new ones
  of all blocks.
\<close>

lemma commit_crash:
  fixes j :: nat
  assumes wf: "wf_head st sz n blk" and h0: "hd_n (D k st) = 0"
    and same: "\<forall>c. (\<forall>t < nat n. blk t \<noteq> c) \<longrightarrow> home st sz c \<longrightarrow> V c = D k c"
  defines "C \<equiv> commit_list k st n blk (\<lambda>t. V (blk t)) (D k st)"
  defines "E \<equiv> writes (take j C) D"
  shows "wf_head st sz (hd_n (E k st)) (hd_block (E k st))"
    and "(\<forall>c. home st sz c \<longrightarrow> writes (redo_list k st E) E k c = D k c) \<or>
         (\<forall>c. home st sz c \<longrightarrow> writes (redo_list k st E) E k c = V c)"
proof -
  let ?new = "\<lambda>t. V (blk t)" and ?H = "head_bytes n blk (D k st)"
  have nst: "c \<noteq> st" if "home st sz c" for c using that start_not_home [OF wf] by auto
  have ent: "\<forall>t < m. entry st t \<noteq> c" if "home st sz c" "m \<le> nat n" for c m
    using entries(3) [OF wf] that by (metis order_less_le_trans)
  have est: "\<forall>t < m. entry st t \<noteq> st" if "m \<le> nat n" for m using entries(2) [OF wf] that by simp
  have bst: "\<forall>t < m. blk t \<noteq> st" if "m \<le> nat n" for m using blk_not_start [OF wf] that by simp
  have z: "wf_head st sz 0 b" for b
    using wf_headD(1-5) [OF wf] by (auto simp: wf_head_def)
  have empty: "writes (redo_list k st E) E k c = E k c" if "hd_n (E k st) = 0" "home st sz c" for c
    using redo_other [of E k st c] that nst by simp
  consider (early) "j \<le> nat n" | (mid) i where "j = nat n + 1 + i" "i \<le> nat n" | (late) "2 * nat n + 2 \<le> j"
  proof -
    note cs = that
    consider "j \<le> nat n" | "nat n < j" "j < 2 * nat n + 2" | "2 * nat n + 2 \<le> j" by linarith
    then show thesis
    proof cases
      case 1
      then show thesis by (rule cs(1))
    next
      case 2
      then have "j = nat n + 1 + (j - nat n - 1)" "j - nat n - 1 \<le> nat n" by simp_all
      then show thesis by (rule cs(2))
    next
      case 3
      then show thesis by (rule cs(3))
    qed
  qed
  then have "wf_head st sz (hd_n (E k st)) (hd_block (E k st)) \<and>
    ((\<forall>c. home st sz c \<longrightarrow> writes (redo_list k st E) E k c = D k c) \<or>
         (\<forall>c. home st sz c \<longrightarrow> writes (redo_list k st E) E k c = V c))"
  proof (cases)
    case early
    have E: "E = writes (block_writes k (entry st) ?new j) D"
      using early by (simp add: E_def C_def commit_list_def take_block_writes)
    have "E k st = D k st" unfolding E by (rule writes_other [OF est [OF early]])
    then have z0: "hd_n (E k st) = 0" using h0 by simp
    then have w0: "wf_head st sz (hd_n (E k st)) (hd_block (E k st))" using z by simp
    have "E k c = D k c" if "home st sz c" for c unfolding E by (rule writes_other [OF ent [OF that early]])
    then show ?thesis using w0 empty [OF z0] by simp
  next
    case mid
    define D1 where "D1 = put_disk (k, st, ?H) (writes (block_writes k (entry st) ?new (nat n)) D)"
    have E: "E = writes (block_writes k blk ?new i) D1"
      using mid by (simp add: E_def C_def commit_list_def take_block_writes D1_def)
    have est': "E k st = ?H" unfolding E using writes_other [OF bst [OF mid(2)]] by (simp add: D1_def put_disk_def)
    have hn: "hd_n (E k st) = n" and hb: "\<And>t. t < nat n \<Longrightarrow> hd_block (E k st) t = blk t"
      using head_bytes_words(1,2) [OF wf_headD(4,8) [OF wf]] est' by simp_all
    have w0: "wf_head st sz (hd_n (E k st)) (hd_block (E k st))"
      unfolding hn by (rule wf_head_cong [OF wf hb])
    have ee: "E k (entry st t) = ?new t" if t: "t < nat n" for t
    proof -
      have "\<forall>u < i. blk u \<noteq> entry st t" using entries(5) [OF wf t] mid(2) by simp
      then have "E k (entry st t) = D1 k (entry st t)" unfolding E by (rule writes_other)
      also have "\<dots> = ?new t"
        using entries(2) [OF wf t] writes_at [OF t entries(6) [OF wf t]] by (simp add: D1_def put_disk_def)
      finally show ?thesis .
    qed
    have "writes (redo_list k st E) E k c = V c" if c: "home st sz c" for c
    proof (cases "\<exists>t < nat n. blk t = c")
      case True
      then obtain t where t: "t < nat n" "blk t = c" by blast
      then show ?thesis using redo_at [where E = E, OF w0, of t] hb ee hn by simp
    next
      case False
      then have ne: "\<forall>t < nat n. blk t \<noteq> c" by blast
      then have "writes (redo_list k st E) E k c = E k c" by (intro redo_other) (simp_all add: hn hb nst [OF c])
      also have "\<dots> = D1 k c" unfolding E by (rule writes_other) (use ne mid(2) in simp)
      also have "\<dots> = D k c"
        using writes_other [OF ent [OF c order_refl]] nst [OF c] by (simp add: D1_def put_disk_def)
      finally show ?thesis using same ne c by simp
    qed
    then show ?thesis using w0 by blast
  next
    case late
    define D1 where "D1 = put_disk (k, st, ?H) (writes (block_writes k (entry st) ?new (nat n)) D)"
    have E: "E = put_disk (k, st, head_bytes 0 blk ?H) (writes (block_writes k blk ?new (nat n)) D1)"
      using late by (simp add: E_def C_def commit_list_def D1_def)
    have "E k st = head_bytes 0 blk ?H" unfolding E by (simp add: put_disk_def)
    then have z0: "hd_n (E k st) = 0" using hd_n_zero by simp
    then have w0: "wf_head st sz (hd_n (E k st)) (hd_block (E k st))" using z by simp
    have "E k c = V c" if c: "home st sz c" for c
    proof (cases "\<exists>t < nat n. blk t = c")
      case True
      then obtain t where t: "t < nat n" "blk t = c" by blast
      then show ?thesis using writes_at [OF t(1) wf_headD(6) [OF wf]] nst [OF c] by (auto simp: E put_disk_def)
    next
      case False
      then have ne: "\<forall>t < nat n. blk t \<noteq> c" by blast
      have "E k c = D1 k c" using writes_other [OF ne] nst [OF c] by (simp add: E put_disk_def)
      also have "\<dots> = D k c" using writes_other [OF ent [OF c order_refl]] nst [OF c] by (simp add: D1_def put_disk_def)
      finally show ?thesis using same ne c by simp
    qed
    then show ?thesis using w0 empty [OF z0] by simp
  qed
  then show "wf_head st sz (hd_n (E k st)) (hd_block (E k st))"
    and "(\<forall>c. home st sz c \<longrightarrow> writes (redo_list k st E) E k c = D k c) \<or>
         (\<forall>c. home st sz c \<longrightarrow> writes (redo_list k st E) E k c = V c)"
    by blast+
qed

text \<open>A recovery that is cut off after \<open>j\<close> writes is repeated to the same effect.\<close>

lemma redo_crash:
  fixes j :: nat
  assumes wf: "wf_head st sz (hd_n (D k st)) (hd_block (D k st))"
  defines "E \<equiv> writes (take j (redo_list k st D)) D"
  shows "wf_head st sz (hd_n (E k st)) (hd_block (E k st))"
    and "\<forall>c. home st sz c \<longrightarrow> writes (redo_list k st E) E k c = writes (redo_list k st D) D k c"
proof -
  let ?n = "nat (hd_n (D k st))" and ?b = "hd_block (D k st)"
  have nst: "c \<noteq> st" if "home st sz c" for c using that start_not_home [OF wf] by auto
  have "wf_head st sz (hd_n (E k st)) (hd_block (E k st)) \<and>
    (\<forall>c. home st sz c \<longrightarrow> writes (redo_list k st E) E k c = writes (redo_list k st D) D k c)"
  proof (cases "j \<le> ?n")
    case True
    have E: "E = writes (block_writes k ?b (\<lambda>t. D k (entry st t)) j) D"
      using True by (simp add: E_def redo_list_def take_block_writes)
    have st: "E k st = D k st" unfolding E by (rule writes_other) (use blk_not_start [OF wf] True in simp)
    have w: "wf_head st sz (hd_n (E k st)) (hd_block (E k st))" using wf st by simp
    have en: "E k (entry st t) = D k (entry st t)" if "t < ?n" for t
      unfolding E by (rule writes_other) (use entries(5) [OF wf that] True in simp)
    have "writes (redo_list k st E) E k c = writes (redo_list k st D) D k c" if c: "home st sz c" for c
    proof (cases "\<exists>t < ?n. ?b t = c")
      case True
      then obtain t where t: "t < ?n" "?b t = c" by blast
      then show ?thesis using redo_at [where E = E, OF w, of t] redo_at [where E = D, OF wf t(1)] en st by auto
    next
      case False
      then have ne: "\<forall>t < ?n. ?b t \<noteq> c" by blast
      have "E k c = D k c" unfolding E by (rule writes_other) (use ne True in simp)
      then show ?thesis using redo_other [where E = D, OF ne nst [OF c]] redo_other [of E k st c] ne nst [OF c] st by simp
    qed
    then show ?thesis using w by blast
  next
    case False
    then have E: "E = writes (redo_list k st D) D" by (simp add: E_def redo_list_def)
    have "E k st = head_bytes 0 (\<lambda>_. 0) (D k st)" by (simp add: E redo_list_def put_disk_def)
    then have z: "hd_n (E k st) = 0" using hd_n_zero by simp
    have "writes (redo_list k st E) E k c = E k c" if "home st sz c" for c
      using redo_other [of E k st c] z nst [OF that] by simp
    then show ?thesis using wf_headD(1-5) [OF wf] z E by (auto simp: wf_head_def)
  qed
  then show "wf_head st sz (hd_n (E k st)) (hd_block (E k st))"
    and "\<forall>c. home st sz c \<longrightarrow> writes (redo_list k st E) E k c = writes (redo_list k st D) D k c" by blast+
qed

section \<open>Booting\<close>

definition no_buf :: buf where
  "no_buf = \<lparr>b_dev = 0, blockno = 0, b_valid = False, b_dirty = False, refcnt = 0, locked = False, b_data = (\<lambda>_. 0)\<rparr>"

text \<open>The kernel before \<open>initlog\<close>: its memory is zero, \<open>binit\<close> has run.\<close>

definition power_on :: "(nat \<Rightarrow> u32 \<Rightarrow> bytes) \<Rightarrow> log" where
  "power_on D = \<lparr>io_of = binit \<lparr>buf = (\<lambda>_. no_buf), order = [], disks = D, served = [], havedisk1 = True\<rparr>,
     l_start = 0, l_size = 0, outstanding = 0, committing = False, l_dev = 0, lh_n = 0, lh_block = (\<lambda>_. 0)\<rparr>"

lemma power_on_ok: "io_ok 1 (io_of (power_on D)) {}" "clean (io_of (power_on D))"
  by (auto simp: io_ok_def power_on_def binit_def no_buf_def holds_def clean_def)

text \<open>
  C15. The buffer cache is transparent: with some buffers \<open>L\<close> held, none of them for the block \<open>b\<close>, and one buffer that is
  neither held nor dirty, \<open>bread\<close> of \<open>b\<close> returns a locked buffer with the current contents of the block, the last
  data put into its buffer or else those of the disk; no held buffer and no dirty one is given away, the
  contents of every block are unchanged and no block gets a second buffer.
\<close>

theorem bread_current:
  assumes ok: "io_ok d s L" and n: "\<forall>i \<in> L. \<not> holds s d b i" and b: "b < FSSIZE"
    and room: "\<exists>i < NBUF. i \<notin> L \<and> \<not> b_dirty (buf s i)"
  shows "\<exists>i t. bread d b s = Some (i, t) \<and> i \<notin> L \<and> holds t d b i \<and> locked (buf t i) \<and> b_data (buf t i) = view s d b \<and>
    (\<forall>j. j \<noteq> i \<longrightarrow> buf t j = buf s j) \<and> (b_dirty (buf s i) \<longrightarrow> holds s d b i) \<and> (\<forall>c. view t d c = view s d c) \<and>
    disks t = disks s \<and> io_ok d t (insert i L)"
proof -
  obtain i t where t: "bread d b s = Some (i, t)" "opened d L s b i t"
    by (rule bread_ok [OF ok n b disjI2 [OF room]])
  note T = openedD [OF t(2)]
  have "holds s d b i" if "b_dirty (buf s i)"
    using keeps_holds [OF T(12), of i d b] T(3,11) that by simp
  then show ?thesis using t(1) T io_okD(6) [OF T(1), of i] by (intro exI [of _ i] exI [of _ t]) simp
qed

lemma bread_current_witness:
  "\<exists>i t. bread 1 2 (io_of (power_on (\<lambda>_ _ _. 5))) = Some (i, t) \<and> locked (buf t i) \<and> b_data (buf t i) = (\<lambda>_. 5)"
proof -
  let ?s = "io_of (power_on (\<lambda>_ _ _. 5))"
  have r: "\<exists>i < NBUF. i \<notin> {} \<and> \<not> b_dirty (buf ?s i)" using clean_room [OF power_on_ok(2)] by simp
  have b: "2 < FSSIZE" by simp
  have n: "\<forall>i \<in> {}. \<not> holds ?s 1 2 i" by simp
  have v: "view ?s 1 2 = (\<lambda>_. 5)" using clean_view [OF power_on_ok] by (simp add: power_on_def binit_def)
  show ?thesis using bread_current [OF power_on_ok(1) n b r] unfolding v by blast
qed

text \<open>A disk with a file system: the superblock says where the log is, and the header is in order.\<close>

definition wf_disk :: "u32 \<Rightarrow> u32 \<Rightarrow> (nat \<Rightarrow> u32 \<Rightarrow> bytes) \<Rightarrow> bool" where
  "wf_disk st sz D \<longleftrightarrow> load32 (D 1 1) 16 = st \<and> load32 (D 1 1) 12 = sz \<and> (\<forall>c. sector (D 1 c)) \<and>
     wf_head st sz (hd_n (D 1 st)) (hd_block (D 1 st))"

lemma wf_diskD:
  assumes "wf_disk st sz D"
  shows "load32 (D 1 1) 16 = st" "load32 (D 1 1) 12 = sz" "sector (D 1 c)" "wf_head st sz (hd_n (D 1 st)) (hd_block (D 1 st))"
  using assms unfolding wf_disk_def by blast+

lemma drive_1 [simp]: "drive 1 = 1"
  by (simp add: drive_def)

text \<open>Writes of blocks other than the superblock, each of a sector.\<close>

definition fine_writes :: "(nat \<times> u32 \<times> bytes) list \<Rightarrow> bool" where
  "fine_writes ws \<longleftrightarrow> (\<forall>(k, b, v) \<in> set ws. b \<noteq> 1 \<and> sector v)"

lemma fine_take: "fine_writes ws \<Longrightarrow> fine_writes (take j ws)"
  unfolding fine_writes_def by (auto dest: in_set_takeD)

lemma fine_block_writes: "(\<And>t. t < n \<Longrightarrow> g t \<noteq> 1 \<and> sector (f t)) \<Longrightarrow> fine_writes (block_writes k g f n)"
  by (auto simp: fine_writes_def block_writes_def)

lemma fine_append: "fine_writes (xs @ ys) \<longleftrightarrow> fine_writes xs \<and> fine_writes ys"
  by (simp add: fine_writes_def ball_Un)

lemma fine_one: "fine_writes [(k, b, v)] \<longleftrightarrow> b \<noteq> 1 \<and> sector v"
  by (simp add: fine_writes_def)

lemma writes_fine:
  "fine_writes ws \<Longrightarrow> \<forall>c. sector (D k c) \<Longrightarrow> writes ws D k 1 = D k 1 \<and> (\<forall>c. sector (writes ws D k c))"
proof (induction ws arbitrary: D)
  case (Cons w ws)
  obtain l b v where w: "w = (l, b, v)" by (cases w)
  have f: "b \<noteq> 1" "sector v" "fine_writes ws" using Cons.prems(1) by (simp_all add: fine_writes_def w)
  have "\<forall>c. sector (put_disk w D k c)" using Cons.prems(2) f(2) by (auto simp: w put_disk_def)
  from Cons.IH [where D = "put_disk w D", OF f(3) this] have "writes (w # ws) D k 1 = put_disk w D k 1 \<and> (\<forall>c. sector (writes (w # ws) D k c))"
    by simp
  moreover have "put_disk w D k 1 = D k 1" using f(1) by (simp add: w put_disk_def)
  ultimately show ?case by simp
qed simp

lemma home_not_1: "home st sz c \<Longrightarrow> c \<noteq> 1" by (simp add: home_def)

lemma st_not_1: "wf_head st sz n blk \<Longrightarrow> st \<noteq> 1"
  using wf_headD(1) [of st sz n blk] by auto

lemma blk_not_1: "wf_head st sz n blk \<Longrightarrow> t < nat n \<Longrightarrow> blk t \<noteq> 1"
  by (rule home_not_1 [OF wf_headD(7)])

lemma fine_redo:
  assumes "wf_head st sz (hd_n (D k st)) (hd_block (D k st))" "\<forall>c. sector (D k c)"
  shows "fine_writes (redo_list k st D)"
  unfolding redo_list_def fine_append fine_one
  using blk_not_1 [OF assms(1)] st_not_1 [OF assms(1)] assms(2) head_bytes_words(3) [of 0] by (simp add: fine_block_writes)

lemma fine_commit:
  assumes wf: "wf_head st sz n blk" and s: "\<And>t. t < nat n \<Longrightarrow> sector (new t)" "sector h"
  shows "fine_writes (commit_list k st n blk new h)"
proof -
  have h: "sector (head_bytes n blk h)" "sector (head_bytes 0 blk (head_bytes n blk h))"
    using head_bytes_words(3) [OF wf_headD(4,8) [OF wf]] s(2) head_bytes_words(3) [of 0] by simp_all
  show ?thesis
    unfolding commit_list_def fine_append fine_one
    using h st_not_1 [OF wf] entries(4) [OF wf] blk_not_1 [OF wf] s(1) by (simp add: fine_block_writes)
qed

lemma boot_ok:
  assumes D: "wf_disk st sz D"
  obtains r where "initlog 1 (power_on D) = Some r" "logged r" "lh_n r = 0" "outstanding r = 0" "\<not> committing r"
    "l_dev r = 1" "l_start r = st" "l_size r = sz" "disks (io_of r) = writes (redo_list 1 st D) D"
    "served (io_of r) = redo_list 1 st D"
proof -
  define m where "m = io_of (power_on D)"
  have ok: "io_ok 1 m {}" and cl: "clean m" unfolding m_def by (rule power_on_ok)+
  have dm: "disks m = D" "served m = []" by (simp_all add: m_def power_on_def binit_def)
  have one: "(1 :: u32) < FSSIZE" by simp
  obtain i m1 v where r: "bread 1 1 m = Some (i, m1)" "b_data (buf m1 i) = view m 1 1" "brelse i m1 = Some v" "io_ok 1 v {}"
    "disks v = disks m" "served v = served m" "keeps m v"
    by (rule read_block [OF ok one clean_room [OF cl]]) blast
  have sb: "b_data (buf m1 i) = D 1 1" using r(2) clean_view [OF ok cl, of 1] dm by simp
  have clv: "clean v" using cl keeps_dirty [OF r(7)] unfolding clean_def by blast
  define s where "s = (power_on D)\<lparr>io_of := v, l_start := st, l_size := sz, l_dev := 1\<rparr>"
  have s: "l_dev s = 1" "io_of s = v" "l_start s = st" "l_size s = sz" "outstanding s = 0" "\<not> committing s"
    by (simp_all add: s_def power_on_def)
  have start: "initlog 1 (power_on D) = recover_from_log s"
    using r(1,3) sb wf_diskD(1,2) [OF D] by (simp add: initlog_def Let_def s_def m_def)
  have a1: "io_ok (l_dev s) (io_of s) {}" "clean (io_of s)" using r(4) clv s by simp_all
  have a2: "\<forall>c. sector (disks (io_of s) (drive (l_dev s)) c)" using wf_diskD(3) [OF D] s r(5) dm by simp
  have a3: "wf_head (l_start s) (l_size s) (hd_n (disks (io_of s) (drive (l_dev s)) (l_start s)))
      (hd_block (disks (io_of s) (drive (l_dev s)) (l_start s)))" using wf_diskD(4) [OF D] s r(5) dm by simp
  obtain blk w where w: "recover_from_log s = Some (s\<lparr>io_of := w, lh_n := 0, lh_block := blk\<rparr>)" "io_ok (l_dev s) w {}" "clean w"
    "served w = served (io_of s) @ redo_list (drive (l_dev s)) (l_start s) (disks (io_of s))"
    "disks w = writes (redo_list (drive (l_dev s)) (l_start s) (disks (io_of s))) (disks (io_of s))"
    by (rule recover_ok [OF a1 a2 a3])
  define t where "t = s\<lparr>io_of := w, lh_n := 0, lh_block := blk\<rparr>"
  have t: "l_dev t = 1" "io_of t = w" "l_start t = st" "l_size t = sz" "lh_n t = 0" "outstanding t = 0" "\<not> committing t"
    "lh_block t = blk"
    using s by (simp_all add: t_def)
  have dw: "disks w = writes (redo_list 1 st D) D" "served w = redo_list 1 st D" using w(4,5) s r(5,6) dm by simp_all
  have sec: "sector (disks w 1 c)" for c
    using writes_fine [OF fine_redo [of st sz D 1]] wf_diskD(3,4) [OF D] dw by simp
  have okw: "io_ok 1 w {}" using w(2) s by simp
  have "hd_n (disks w 1 st) = 0" using hd_n_zero by (simp add: dw redo_list_def put_disk_def)
  moreover have "wf_head st sz 0 blk" using wf_headD(1-5) [OF wf_diskD(4) [OF D]] by (auto simp: wf_head_def)
  moreover have "\<not> dirty_at w 1 c" for c using w(3) by (auto simp: dirty_at_def clean_def holds_def)
  ultimately have "logged t"
    using okw sec clean_view [OF okw w(3)] w(3) by (auto simp: logged_def t clean_def)
  then show thesis using that [of t] start w(1) t dw by (simp add: t_def)
qed

end
