(* ===== verification/LogCrash.thy ===== *)
theory LogCrash
  imports LogSpec
begin

text \<open>
  Histories of the log: sequences of \<open>begin_op\<close>, changes of blocks and \<open>end_op\<close>, by any number of system
  calls that overlap. The abstract log is the contents of the blocks after a prefix of the history; a
  power failure at any write of the disk leaves, after the next boot, the contents after a prefix that ends
  with no operation outstanding.
\<close>

section \<open>A change of a block\<close>

lemma set_dirty_ok:
  assumes ok: "io_ok d s L" and i: "i \<in> L" "holds s d b i"
  defines "t \<equiv> upd_buf i (\<lambda>x. x\<lparr>b_dirty := True\<rparr>) s"
  shows "io_ok d t L" "view t d c = view s d c" "dirty_at t d c \<longleftrightarrow> dirty_at s d c \<or> c = b" "holds t d c j = holds s d c j"
proof -
  show hs: "holds t d c j = holds s d c j" for c j by (simp add: holds_def t_def)
  show okt: "io_ok d t L"
    unfolding io_ok_def hs using io_okD [OF ok] i by (simp add: t_def)
  show "view t d c = view s d c"
  proof (cases "\<exists>j. holds s d c j")
    case True
    then obtain j where j: "holds s d c j" by blast
    then show ?thesis using view_held [OF ok j] view_held [OF okt, of c j] hs by (simp add: t_def)
  next
    case False
    then have "\<forall>j. \<not> holds s d c j" "\<forall>j. \<not> holds t d c j" by (simp_all add: hs)
    then show ?thesis using view_free [OF ok] view_free [OF okt] by (simp add: t_def)
  qed
  have bd: "b_dirty (buf t j) \<longleftrightarrow> b_dirty (buf s j) \<or> j = i" for j by (simp add: t_def)
  have "holds s d c i \<longleftrightarrow> c = b" using i(2) by (auto simp: holds_def)
  then show "dirty_at t d c \<longleftrightarrow> dirty_at s d c \<or> c = b" unfolding dirty_at_def hs bd by blast
qed

text \<open>The place of a block in the header.\<close>

abbreviation slot :: "(nat \<Rightarrow> u32) \<Rightarrow> nat \<Rightarrow> u32 \<Rightarrow> nat" where
  "slot blk n b \<equiv> (case List.find (\<lambda>i. blk i = b) [0..<n] of Some i \<Rightarrow> i | None \<Rightarrow> n)"

lemma slot_cases:
  obtains (old) "slot blk n b < n" "blk (slot blk n b) = b" | (new) "slot blk n b = n" "\<forall>t < n. blk t \<noteq> b"
proof (cases "List.find (\<lambda>i. blk i = b) [0..<n]")
  case None
  then have "slot blk n b = n" by simp
  moreover have "\<forall>t < n. blk t \<noteq> b" using None by (simp add: find_None_iff)
  ultimately show thesis by (rule new)
next
  case (Some i)
  then have "slot blk n b < n" "blk (slot blk n b) = b" using find_member [OF Some] by simp_all
  then show thesis by (rule old)
qed

definition room_for :: "log \<Rightarrow> u32 \<Rightarrow> bool" where
  "room_for s b \<longleftrightarrow> 1 \<le> outstanding s \<and> lh_n s < int (unat (l_size s)) - 1"

lemma wf_head_add:
  assumes wf: "wf_head st sz n blk" and b: "home st sz b" and room: "n < int (unat sz) - 1"
  defines "i \<equiv> slot blk (nat n) b"
  shows "wf_head st sz (if int i = n then n + 1 else n) (blk(i := b))"
    and "(\<exists>t < nat (if int i = n then n + 1 else n). (blk(i := b)) t = c) \<longleftrightarrow> (\<exists>t < nat n. blk t = c) \<or> c = b"
proof -
  have n0: "0 \<le> n" by (rule wf_headD(4) [OF wf])
  have "wf_head st sz (if int i = n then n + 1 else n) (blk(i := b)) \<and>
    ((\<exists>t < nat (if int i = n then n + 1 else n). (blk(i := b)) t = c) \<longleftrightarrow> (\<exists>t < nat n. blk t = c) \<or> c = b)"
  proof -
    consider (old) "i < nat n" "blk i = b" | (new) "i = nat n" "\<forall>t < nat n. blk t \<noteq> b"
      unfolding i_def by (rule slot_cases)
    then show ?thesis
    proof cases
      case old
      then have "blk(i := b) = blk" "int i \<noteq> n" using n0 by auto
      then show ?thesis using wf old by auto
    next
      case new
      then have e: "int i = n" "nat (n + 1) = Suc i" using n0 by simp_all
      have j: "inj_on (blk(i := b)) {..<Suc i}"
        using wf_headD(6) [OF wf] new by (auto simp: inj_on_def less_Suc_eq)
      have "wf_head st sz (n + 1) (blk(i := b))"
        unfolding wf_head_def e(2)
        using wf_headD(1-5) [OF wf] wf_headD(7) [OF wf] room j b new by (auto simp: less_Suc_eq)
      moreover have "(\<exists>t < Suc i. (blk(i := b)) t = c) \<longleftrightarrow> (\<exists>t < i. (blk(i := b)) t = c) \<or> b = c"
        by (metis fun_upd_same less_Suc_eq)
      moreover have "(\<exists>t < i. (blk(i := b)) t = c) \<longleftrightarrow> (\<exists>t < i. blk t = c)" by auto
      ultimately show ?thesis using e new(1) by auto
    qed
  qed
  then show "wf_head st sz (if int i = n then n + 1 else n) (blk(i := b))"
    and "(\<exists>t < nat (if int i = n then n + 1 else n). (blk(i := b)) t = c) \<longleftrightarrow> (\<exists>t < nat n. blk t = c) \<or> c = b" by blast+
qed

lemma change_ok:
  assumes lg: "logged s" and b: "home (l_start s) (l_size s) b" and v: "sector v" and room: "room_for s b"
  obtains w n blk where "change_block b v s = Some (s\<lparr>io_of := w, lh_n := n, lh_block := blk\<rparr>)"
    "logged (s\<lparr>io_of := w, lh_n := n, lh_block := blk\<rparr>)" "lh_n s \<le> n" "n \<le> lh_n s + 1"
    "(\<exists>t < nat (lh_n s). lh_block s t = b) \<longrightarrow> n = lh_n s" "(\<forall>t < nat (lh_n s). lh_block s t \<noteq> b) \<longrightarrow> n = lh_n s + 1"
    "disks w = disks (io_of s)" "served w = served (io_of s)"
    "\<And>c. view w (l_dev s) c = (if c = b then v else view (io_of s) (l_dev s) c)"
    "\<And>c. (\<exists>t < nat n. blk t = c) \<longleftrightarrow> (\<exists>t < nat (lh_n s). lh_block s t = c) \<or> c = b"
proof -
  define d m where "d = l_dev s" and "m = io_of s"
  note fold = d_def [symmetric] m_def [symmetric]
  define i where "i = slot (lh_block s) (nat (lh_n s)) b"
  define n where "n = (if int i = lh_n s then lh_n s + 1 else lh_n s)"
  define blk where "blk = (lh_block s)(i := b)"
  note wf = loggedD(1) [OF lg]
  have rm: "lh_n s < int (unat (l_size s)) - 1" "1 \<le> outstanding s" using room by (simp_all add: room_for_def)
  note A = wf_head_add [OF wf b rm(1), folded i_def n_def blk_def]
  have bf: "b < FSSIZE" using b by (simp add: home_def)
  have n0: "\<forall>k \<in> {}. \<not> holds m d b k" by simp
  have r0: "dirty_at m d b \<or> (\<exists>k < NBUF. k \<notin> {} \<and> \<not> b_dirty (buf m k))" using logged_room [OF lg] by (auto simp: fold)
  have ok: "io_ok d m {}" using loggedD(2) [OF lg] by (simp add: fold)
  obtain k m1 where o1: "bread d b m = Some (k, m1)" "opened d {} m b k m1" by (rule bread_ok [OF ok n0 bf r0])
  note D = openedD [OF o1(2)]
  define m2 where "m2 = set_data k v m1"
  note sd = set_data_ok [OF D(1) insertI1 D(3), of v, folded m2_def]
  have h2: "holds m2 d b k" using sd(4) D(3) by simp
  define m3 where "m3 = upd_buf k (\<lambda>x. x\<lparr>b_dirty := True\<rparr>) m2"
  note di = set_dirty_ok [OF sd(1) insertI1 h2, folded m3_def]
  have cl: "b_data (buf m3 k) = disks m3 (drive d) c" if "holds m3 d c k" "\<not> b_dirty (buf m3 k)" for c
    using that by (simp add: m3_def)
  obtain w where w: "brelse k m3 = Some w" "io_ok d w (insert k {} - {k})" "disks w = disks m3" "served w = served m3"
    "\<And>c. view w d c = view m3 d c" "\<And>c. dirty_at w d c = dirty_at m3 d c" "\<And>j. j \<noteq> k \<Longrightarrow> buf w j = buf m3 j"
    "\<And>c j. holds w d c j = holds m3 d c j" "keeps m3 w"
    by (rule brelse_ok [OF di(1) insertI1 cl]) blast+
  have sz: "sint (l_size s) = int (unat (l_size s))" using sint_small [of "l_size s"] wf_headD(3) [OF wf] by simp
  have bk: "blockno (buf m2 k) = b" using h2 by (simp add: holds_def)
  have l30: "lh_n s < 30" "lh_n s < int (unat (l_size s)) - 1" using rm(1) wf_headD(3) [OF wf] by linarith+
  have lw: "log_write k (s\<lparr>io_of := m2\<rparr>) = Some (s\<lparr>io_of := m3, lh_n := n, lh_block := blk\<rparr>)"
    using l30 rm(2)
    by (cases "List.find (\<lambda>i. lh_block s i = b) [0..<nat (lh_n s)]")
      (simp_all add: log_write_def sz Let_def bk i_def n_def blk_def m3_def)
  define t where "t = s\<lparr>io_of := w, lh_n := n, lh_block := blk\<rparr>"
  have run: "change_block b v s = Some t"
    using o1(1) lw w(1) by (simp add: change_block_def fold m2_def [symmetric] t_def)
  have nb: "lh_n s \<le> n" "n \<le> lh_n s + 1" by (simp_all add: n_def)
  have vw: "view w d c = (if c = b then v else view m d c)" for c
    using w(5) di(2) sd(2) D(9) by simp
  have dw: "disks w = disks m" "served w = served m" using w(3,4) D(6,7) by (simp_all add: m3_def m2_def)
  have dt: "dirty_at w d c \<longleftrightarrow> (\<exists>t < nat n. blk t = c)" for c
    using w(6) di(3) sd(3) D(10) A(2) loggedD(5) [OF lg] by (simp add: fold)
  have hm: "holds w d c j \<longleftrightarrow> holds m1 d c j" for c j using w(8) di(4) sd(4) by simp
  have bd: "\<exists>t < nat n. holds w d (blk t) j" if j: "j < NBUF" "b_dirty (buf w j)" for j
  proof (cases "j = k")
    case True
    obtain t where "t < nat n" "blk t = b" using A(2) [of b] by blast
    then show ?thesis using True hm D(3) by metis
  next
    case False
    then have "b_dirty (buf m j)" "buf m1 j = buf m j"
      using j(2) w(7) D(8) by (simp_all add: m3_def m2_def)
    then obtain t where t: "t < nat (lh_n s)" "holds m d (lh_block s t) j" using loggedD(6) [OF lg j(1)] by (auto simp: fold)
    then obtain u where "u < nat n" "blk u = lh_block s t" using A(2) [of "lh_block s t"] by blast
    then show ?thesis using t(2) hm \<open>buf m1 j = buf m j\<close> by (metis holds_def)
  qed
  have "n < int NBUF" using wf_headD(3,5) [OF A(1)] by linarith
  then have "logged t"
    unfolding logged_def
    using A(1) w(2) loggedD(3,4,8) [OF lg] v bd dt by (simp add: t_def fold vw dw)
  moreover have "n = lh_n s" if "\<exists>t < nat (lh_n s). lh_block s t = b"
    by (rule slot_cases [where blk = "lh_block s" and n = "nat (lh_n s)" and b = b, folded i_def])
      (use that in \<open>auto simp: n_def\<close>)
  moreover have "n = lh_n s + 1" if "\<forall>t < nat (lh_n s). lh_block s t \<noteq> b"
    by (rule slot_cases [where blk = "lh_block s" and n = "nat (lh_n s)" and b = b, folded i_def])
      (use that wf_headD(4) [OF wf] in \<open>auto simp: n_def\<close>)
  ultimately show thesis using that [where w = w and n = n and blk = blk] run nb vw dw A(2) by (simp add: t_def fold)
qed

section \<open>A commit\<close>

text \<open>A disk from which the next boot makes the contents \<open>cs\<close>.\<close>

definition recovers :: "u32 \<Rightarrow> u32 \<Rightarrow> (nat \<Rightarrow> u32 \<Rightarrow> bytes) \<Rightarrow> (u32 \<Rightarrow> bytes) \<Rightarrow> bool" where
  "recovers st sz E cs \<longleftrightarrow> wf_disk st sz E \<and> (\<forall>c. home st sz c \<longrightarrow> writes (redo_list 1 st E) E 1 c = cs c)"

lemma recovers_cong: "recovers st sz E cs \<Longrightarrow> (\<And>c. home st sz c \<Longrightarrow> cs c = cs' c) \<Longrightarrow> recovers st sz E cs'"
  by (simp add: recovers_def)

lemma recovers_empty:
  assumes D: "wf_disk st sz D" and z: "hd_n (D 1 st) = 0" and same: "\<And>c. home st sz c \<Longrightarrow> D 1 c = cs c"
  shows "recovers st sz D cs"
  unfolding recovers_def
proof (intro conjI allI impI)
  fix c assume h: "home st sz c"
  then have "c \<noteq> st" using start_not_home [OF wf_diskD(4) [OF D]] by auto
  then show "writes (redo_list 1 st D) D 1 c = cs c" using redo_other [of D 1 st c] z same [OF h] by simp
qed (rule D)

lemma commit_logged:
  assumes lg: "logged s" and n: "0 < lh_n s" and d: "l_dev s = 1" and D: "wf_disk (l_start s) (l_size s) (disks (io_of s))"
  obtains v ws where "commit s = Some (s\<lparr>io_of := v, lh_n := 0\<rparr>)" "logged (s\<lparr>io_of := v, lh_n := 0\<rparr>)"
    "served v = served (io_of s) @ ws" "disks v = writes ws (disks (io_of s))" "wf_disk (l_start s) (l_size s) (disks v)"
    "\<And>c. home (l_start s) (l_size s) c \<Longrightarrow> view v 1 c = view (io_of s) 1 c"
    "\<And>c. home (l_start s) (l_size s) c \<Longrightarrow> disks v 1 c = view (io_of s) 1 c"
    "\<And>j. recovers (l_start s) (l_size s) (writes (take j ws) (disks (io_of s))) (disks (io_of s) 1) \<or>
      recovers (l_start s) (l_size s) (writes (take j ws) (disks (io_of s))) (view (io_of s) 1)"
proof -
  define st sz m where "st = l_start s" and "sz = l_size s" and "m = io_of s"
  note fold = st_def [symmetric] sz_def [symmetric] m_def [symmetric]
  define ws where "ws = commit_list 1 st (lh_n s) (lh_block s) (\<lambda>t. view m 1 (lh_block s t)) (disks m 1 st)"
  note wf = loggedD(1) [OF lg, unfolded fold] and Dm = D [unfolded fold]
  obtain v where v: "commit s = Some (s\<lparr>io_of := v, lh_n := 0\<rparr>)" "io_ok 1 v {}" "clean v" "served v = served m @ ws"
    "disks v = writes ws (disks m)" "\<And>c. home st sz c \<or> c = 1 \<Longrightarrow> view v 1 c = view m 1 c" "\<And>c. sector (disks v 1 c)"
    by (rule commit_ok [OF lg n, unfolded d drive_1 fold, folded ws_def]) blast
  have fw: "fine_writes ws"
    unfolding ws_def by (rule fine_commit [OF wf]) (use loggedD(3,4) [OF lg] d in \<open>simp_all add: fold\<close>)
  have keep: "writes (take j ws) (disks m) 1 1 = disks m 1 1 \<and> (\<forall>c. sector (writes (take j ws) (disks m) 1 c))" for j
    by (rule writes_fine [OF fine_take [OF fw]]) (use wf_diskD(3) [OF Dm] in blast)
  have h0: "hd_n (disks m 1 st) = 0" using loggedD(8) [OF lg] d by (simp add: fold)
  have same: "\<forall>c. (\<forall>t < nat (lh_n s). lh_block s t \<noteq> c) \<longrightarrow> home st sz c \<longrightarrow> view m 1 c = disks m 1 c"
  proof (intro allI impI)
    fix c assume "\<forall>t < nat (lh_n s). lh_block s t \<noteq> c"
    then have "\<not> dirty_at m 1 c" using loggedD(5) [OF lg, of c] d by (simp add: fold)
    then show "view m 1 c = disks m 1 c" using view_clean [of 1 m c] loggedD(2) [OF lg] d by (simp add: fold)
  qed
  have cut: "recovers st sz (writes (take j ws) (disks m)) (disks m 1) \<or> recovers st sz (writes (take j ws) (disks m)) (view m 1)" for j
    using commit_crash [where D = "disks m" and V = "view m 1" and k = 1 and j = j, OF wf h0 same, folded ws_def] keep [of j] wf_diskD(1,2) [OF Dm]
    by (auto simp: recovers_def wf_disk_def)
  have vd: "view v 1 c = disks v 1 c" for c using clean_view [OF v(2,3)] by simp
  have hz: "hd_n (disks v 1 st) = 0" by (simp add: v(5) ws_def commit_list_def put_disk_def hd_n_zero)
  have wz: "wf_head st sz 0 b" for b using wf_headD(1-5) [OF wf] by (auto simp: wf_head_def)
  have "\<not> dirty_at v 1 c" for c using v(3) by (auto simp: dirty_at_def clean_def holds_def)
  then have lv: "logged (s\<lparr>io_of := v, lh_n := 0\<rparr>)"
    using v(2,3,7) vd hz wz by (simp add: logged_def d fold clean_def)
  have wd: "wf_disk st sz (disks v)"
    using keep [of "length ws"] v(5,7) hz wz wf_diskD(1,2) [OF Dm] by (simp add: wf_disk_def)
  show thesis
    by (rule that [where v = v and ws = ws]) (use v(1,4-6) lv wd vd cut in \<open>simp_all add: fold\<close>)
qed

section \<open>Histories\<close>

datatype log_op = Op_begin | Op_write u32 bytes | Op_end

primrec log_event :: "log_op \<Rightarrow> log \<Rightarrow> log option" where
  "log_event Op_begin s = begin_op s"
| "log_event (Op_write b v) s = change_block b v s"
| "log_event Op_end s = end_op s"

abbreviation log_run :: "log_op list \<Rightarrow> log \<Rightarrow> log option" where
  "log_run es \<equiv> for_opt es log_event"

text \<open>The abstract log: the contents of the blocks and the operations outstanding after some events.\<close>

primrec put_event :: "log_op \<Rightarrow> (u32 \<Rightarrow> bytes) \<Rightarrow> u32 \<Rightarrow> bytes" where
  "put_event Op_begin cs = cs"
| "put_event (Op_write b v) cs = cs(b := v)"
| "put_event Op_end cs = cs"

abbreviation contents :: "log_op list \<Rightarrow> (u32 \<Rightarrow> bytes) \<Rightarrow> u32 \<Rightarrow> bytes" where
  "contents es \<equiv> fold put_event es"

definition open_ops :: "log_op list \<Rightarrow> int" where
  "open_ops es = int (length (filter ((=) Op_begin) es)) - int (length (filter ((=) Op_end) es))"

definition allowed :: "u32 \<Rightarrow> u32 \<Rightarrow> log_op \<Rightarrow> bool" where
  "allowed st sz e \<longleftrightarrow> (case e of Op_write b v \<Rightarrow> home st sz b \<and> sector v | _ \<Rightarrow> True)"

lemma open_ops_snoc:
  "open_ops (es @ [Op_begin]) = open_ops es + 1" "open_ops (es @ [Op_write b v]) = open_ops es"
  "open_ops (es @ [Op_end]) = open_ops es - 1" "open_ops [] = 0"
  by (simp_all add: open_ops_def)

text \<open>
  Between the events: the log is in order, the blocks hold what all events have made of them, and a power
  failure at any write since \<open>u\<close> brings back what the events made of them up to a point where no operation
  was outstanding.
\<close>

definition between :: "log \<Rightarrow> log_op list \<Rightarrow> log \<Rightarrow> bool" where
  "between u es t \<longleftrightarrow> logged t \<and> \<not> committing t \<and> l_dev t = 1 \<and> l_start t = l_start u \<and> l_size t = l_size u \<and>
     outstanding t = open_ops es \<and> (outstanding t \<le> 0 \<longrightarrow> lh_n t = 0) \<and> wf_disk (l_start u) (l_size u) (disks (io_of t)) \<and>
     (\<forall>c. home (l_start u) (l_size u) c \<longrightarrow> view (io_of t) 1 c = contents es (view (io_of u) 1) c) \<and>
     (\<exists>q \<le> length es. open_ops (take q es) = 0 \<and>
        (\<forall>c. home (l_start u) (l_size u) c \<longrightarrow> disks (io_of t) 1 c = contents (take q es) (view (io_of u) 1) c)) \<and>
     (\<exists>ws. served (io_of t) = served (io_of u) @ ws \<and> disks (io_of t) = writes ws (disks (io_of u)) \<and>
        (\<forall>j. \<exists>p \<le> length es. open_ops (take p es) = 0 \<and>
           recovers (l_start u) (l_size u) (writes (take j ws) (disks (io_of u))) (contents (take p es) (view (io_of u) 1))))"

lemma betweenD:
  assumes "between u es t"
  shows "logged t" "\<not> committing t" "l_dev t = 1" "l_start t = l_start u" "l_size t = l_size u" "outstanding t = open_ops es"
    "outstanding t \<le> 0 \<Longrightarrow> lh_n t = 0" "wf_disk (l_start u) (l_size u) (disks (io_of t))"
    "home (l_start u) (l_size u) c \<Longrightarrow> view (io_of t) 1 c = contents es (view (io_of u) 1) c"
  using assms unfolding between_def by blast+

text \<open>An event that writes nothing to the disk.\<close>

lemma between_quiet:
  assumes b: "between u es t" and s: "logged s" "\<not> committing s" "l_dev s = 1" "l_start s = l_start t" "l_size s = l_size t"
    "outstanding s = open_ops (es @ [e])" "outstanding s \<le> 0 \<longrightarrow> lh_n s = 0"
    "disks (io_of s) = disks (io_of t)" "served (io_of s) = served (io_of t)"
    "\<And>c. view (io_of s) 1 c = put_event e (view (io_of t) 1) c"
  shows "between u (es @ [e]) s"
proof -
  note B = betweenD [OF b]
  obtain q where q: "q \<le> length es" "open_ops (take q es) = 0"
    "\<forall>c. home (l_start u) (l_size u) c \<longrightarrow> disks (io_of t) 1 c = contents (take q es) (view (io_of u) 1) c"
    using b unfolding between_def by blast
  obtain ws where ws: "served (io_of t) = served (io_of u) @ ws" "disks (io_of t) = writes ws (disks (io_of u))"
    "\<And>j. \<exists>p \<le> length es. open_ops (take p es) = 0 \<and>
       recovers (l_start u) (l_size u) (writes (take j ws) (disks (io_of u))) (contents (take p es) (view (io_of u) 1))"
    using b unfolding between_def by blast
  have v: "view (io_of s) 1 c = contents (es @ [e]) (view (io_of u) 1) c" if "home (l_start u) (l_size u) c" for c
    using s(10) [of c] B(9) [OF that] by (cases e) simp_all
  have p: "\<exists>p \<le> length (es @ [e]). open_ops (take p (es @ [e])) = 0 \<and>
      recovers (l_start u) (l_size u) (writes (take j ws) (disks (io_of u))) (contents (take p (es @ [e])) (view (io_of u) 1))" for j
  proof -
    obtain p where "p \<le> length es" "open_ops (take p es) = 0"
      "recovers (l_start u) (l_size u) (writes (take j ws) (disks (io_of u))) (contents (take p es) (view (io_of u) 1))"
      using ws(3) by blast
    then show ?thesis by (intro exI [of _ p]) simp
  qed
  have q': "\<exists>q \<le> length (es @ [e]). open_ops (take q (es @ [e])) = 0 \<and>
      (\<forall>c. home (l_start u) (l_size u) c \<longrightarrow> disks (io_of t) 1 c = contents (take q (es @ [e])) (view (io_of u) 1) c)"
    using q by (intro exI [of _ q]) simp
  show ?thesis
    unfolding between_def s(8,9) s(4,5) B(4,5)
    using s(1-3,6,7) B(8) v q' ws(1,2) p by blast
qed

lemma logged_flags: "logged (s\<lparr>outstanding := a, committing := b\<rparr>) = logged s"
  by (simp add: logged_def)

lemma logged_flag: "logged (s\<lparr>outstanding := a\<rparr>) = logged s" "logged (s\<lparr>committing := b\<rparr>) = logged s"
  by (simp_all add: logged_def)

lemma between_begin:
  assumes b: "between u es t" and e: "begin_op t = Some s"
  shows "between u (es @ [Op_begin]) s"
proof -
  note B = betweenD [OF b]
  have s: "s = t\<lparr>outstanding := outstanding t + 1\<rparr>" using e by (auto simp: begin_op_def split: if_splits)
  show ?thesis
    by (rule between_quiet [OF b]) (use B in \<open>simp_all add: s logged_flag open_ops_snoc\<close>)
qed

lemma change_room:
  assumes "change_block b v s = Some t" "wf_log s"
  shows "room_for s b"
proof -
  have "\<not> (lh_n s \<ge> sint (l_size s) - 1)" "\<not> outstanding s < 1"
    using assms(1) by (auto simp: change_block_def log_write_def Let_def split: bind_splits if_splits prod.splits)
  then show ?thesis using sint_small [of "l_size s"] wf_headD(3) [OF assms(2)] by (simp add: room_for_def)
qed

lemma between_write:
  assumes b: "between u es t" and e: "change_block c v t = Some s" and h: "home (l_start u) (l_size u) c" "sector v"
  shows "between u (es @ [Op_write c v]) s"
proof -
  note B = betweenD [OF b]
  have r: "room_for t c" by (rule change_room [OF e loggedD(1) [OF B(1)]])
  have hc: "home (l_start t) (l_size t) c" using h(1) B(4,5) by simp
  obtain w n blk where w: "change_block c v t = Some (t\<lparr>io_of := w, lh_n := n, lh_block := blk\<rparr>)"
    "logged (t\<lparr>io_of := w, lh_n := n, lh_block := blk\<rparr>)" "disks w = disks (io_of t)" "served w = served (io_of t)"
    "\<And>a. view w (l_dev t) a = (if a = c then v else view (io_of t) (l_dev t) a)"
    by (rule change_ok [OF B(1) hc h(2) r]) blast
  have s: "s = t\<lparr>io_of := w, lh_n := n, lh_block := blk\<rparr>" using e w(1) by simp
  show ?thesis
    by (rule between_quiet [OF b]) (use B w(2-5) r in \<open>simp_all add: s open_ops_snoc room_for_def\<close>)
qed

lemma between_end:
  assumes b: "between u es t" and e: "end_op t = Some s"
  shows "between u (es @ [Op_end]) s"
proof -
  note B = betweenD [OF b]
  show ?thesis
  proof (cases "outstanding t = 1 \<and> 0 < lh_n t")
    case False
    have s: "s = t\<lparr>outstanding := outstanding t - 1\<rparr>"
    proof (cases "outstanding t = 1")
      case True
      then have "\<not> 0 < lh_n t" using False by simp
      then show ?thesis using e True B(2) by (cases t) (auto simp: end_op_def commit_def Let_def)
    next
      case False
      then show ?thesis using e B(2) by (simp add: end_op_def)
    qed
    have n: "outstanding t - 1 \<le> 0 \<longrightarrow> lh_n t = 0"
      using False B(7) wf_headD(4) [OF loggedD(1) [OF B(1)]] by (cases "outstanding t = 1") auto
    show ?thesis
      by (rule between_quiet [OF b]) (use B n in \<open>simp_all add: s logged_flag open_ops_snoc\<close>)
  next
    case True
    define x where "x = t\<lparr>outstanding := 0, committing := True\<rparr>"
    have x: "logged x" "0 < lh_n x" "l_dev x = 1" "io_of x = io_of t" "l_start x = l_start u" "l_size x = l_size u"
      using B True by (simp_all add: x_def logged_flags)
    have D: "wf_disk (l_start x) (l_size x) (disks (io_of x))" using B(8) x by simp
    obtain v w2 where v: "commit x = Some (x\<lparr>io_of := v, lh_n := 0\<rparr>)" "logged (x\<lparr>io_of := v, lh_n := 0\<rparr>)"
      "served v = served (io_of t) @ w2" "disks v = writes w2 (disks (io_of t))" "wf_disk (l_start u) (l_size u) (disks v)"
      "\<And>c. home (l_start u) (l_size u) c \<Longrightarrow> view v 1 c = view (io_of t) 1 c"
      "\<And>c. home (l_start u) (l_size u) c \<Longrightarrow> disks v 1 c = view (io_of t) 1 c"
      "\<And>j. recovers (l_start u) (l_size u) (writes (take j w2) (disks (io_of t))) (disks (io_of t) 1) \<or>
        recovers (l_start u) (l_size u) (writes (take j w2) (disks (io_of t))) (view (io_of t) 1)"
      by (rule commit_logged [OF x(1-3) D, unfolded x(4-6)]) blast
    define y where "y = x\<lparr>io_of := v, lh_n := 0, committing := False\<rparr>"
    have s: "s = y" using e B(2) True v(1) by (simp add: end_op_def Let_def x_def y_def)
    have y: "logged y" "\<not> committing y" "l_dev y = 1" "l_start y = l_start u" "l_size y = l_size u" "outstanding y = 0"
      "lh_n y = 0" "io_of y = v"
      using v(2) x by (simp_all add: y_def logged_def) (simp add: x_def)
    have o: "open_ops (es @ [Op_end]) = 0" using B(6) True by (simp add: open_ops_snoc)
    obtain q where q: "q \<le> length es" "open_ops (take q es) = 0"
      "\<And>c. home (l_start u) (l_size u) c \<Longrightarrow> disks (io_of t) 1 c = contents (take q es) (view (io_of u) 1) c"
      using b unfolding between_def by blast
    obtain ws where ws: "served (io_of t) = served (io_of u) @ ws" "disks (io_of t) = writes ws (disks (io_of u))"
      "\<And>j. \<exists>p \<le> length es. open_ops (take p es) = 0 \<and>
         recovers (l_start u) (l_size u) (writes (take j ws) (disks (io_of u))) (contents (take p es) (view (io_of u) 1))"
      using b unfolding between_def by blast
    have p: "\<exists>p \<le> length (es @ [Op_end]). open_ops (take p (es @ [Op_end])) = 0 \<and>
        recovers (l_start u) (l_size u) (writes (take j (ws @ w2)) (disks (io_of u))) (contents (take p (es @ [Op_end])) (view (io_of u) 1))" for j
    proof (cases "j \<le> length ws")
      case True
      then obtain p where "p \<le> length es" "open_ops (take p es) = 0"
        "recovers (l_start u) (l_size u) (writes (take j (ws @ w2)) (disks (io_of u))) (contents (take p es) (view (io_of u) 1))"
        using ws(3) [of j] by auto
      then show ?thesis by (intro exI [of _ p]) simp
    next
      case False
      then have "writes (take j (ws @ w2)) (disks (io_of u)) = writes (take (j - length ws) w2) (disks (io_of t))"
        using ws(2) by simp
      then consider "recovers (l_start u) (l_size u) (writes (take j (ws @ w2)) (disks (io_of u))) (disks (io_of t) 1)"
        | "recovers (l_start u) (l_size u) (writes (take j (ws @ w2)) (disks (io_of u))) (view (io_of t) 1)"
        using v(8) [of "j - length ws"] by metis
      then show ?thesis
      proof cases
        case 1
        from recovers_cong [OF this q(3)] show ?thesis using q(1,2) by (intro exI [of _ q]) simp
      next
        case 2
        from recovers_cong [OF this B(9)] show ?thesis using o by (intro exI [of _ "Suc (length es)"]) simp
      qed
    qed
    have q': "\<exists>q \<le> length (es @ [Op_end]). open_ops (take q (es @ [Op_end])) = 0 \<and>
        (\<forall>c. home (l_start u) (l_size u) c \<longrightarrow> disks v 1 c = contents (take q (es @ [Op_end])) (view (io_of u) 1) c)"
      using o v(7) B(9) by (intro exI [of _ "Suc (length es)"]) simp
    have sv: "served v = served (io_of u) @ ws @ w2" "disks v = writes (ws @ w2) (disks (io_of u))"
      using v(3,4) ws(1,2) by simp_all
    have vw: "\<forall>c. home (l_start u) (l_size u) c \<longrightarrow> view v 1 c = contents (es @ [Op_end]) (view (io_of u) 1) c"
      using v(6) B(9) by simp
    show ?thesis
      unfolding s between_def y(8)
      using y(1-7) o v(5) q' sv vw p by metis
  qed
qed

lemma between_run:
  assumes "between u es t" "log_run fs t = Some s" "\<forall>e \<in> set fs. allowed (l_start u) (l_size u) e"
  shows "between u (es @ fs) s"
  using assms
proof (induction fs arbitrary: es t)
  case (Cons e fs)
  obtain x where x: "log_event e t = Some x" "log_run fs x = Some s" using Cons.prems(2) by (auto split: bind_splits)
  have "between u (es @ [e]) x"
    using x(1) Cons.prems(1,3) between_begin between_write between_end by (cases e) (auto simp: allowed_def)
  from Cons.IH [OF this x(2)] show ?case using Cons.prems(3) by simp
qed simp

lemma contents_cong: "f c = g c \<Longrightarrow> contents es f c = contents es g c"
proof (induction es arbitrary: f g)
  case (Cons e es)
  have "put_event e f c = put_event e g c" using Cons.prems by (cases e) simp_all
  then show ?case using Cons.IH [of "put_event e f" "put_event e g"] by simp
qed simp

text \<open>A state in which no operation is outstanding is a new beginning.\<close>

lemma between_fresh:
  assumes lg: "logged t" "\<not> committing t" "l_dev t = 1" "outstanding t = 0" "lh_n t = 0"
    and D: "wf_disk (l_start t) (l_size t) (disks (io_of t))"
  shows "between t [] t"
proof -
  have vd: "view (io_of t) 1 c = disks (io_of t) 1 c" for c
    using view_clean [OF loggedD(2) [OF lg(1)], of c] loggedD(5) [OF lg(1), of c] lg(3,5) by simp
  have "recovers (l_start t) (l_size t) (disks (io_of t)) (view (io_of t) 1)"
    by (rule recovers_empty [OF D]) (use loggedD(8) [OF lg(1)] lg(3) vd in simp_all)
  then show ?thesis
    unfolding between_def using lg D vd by (simp add: open_ops_snoc)
qed

lemma boot_between:
  assumes D: "wf_disk st sz D"
  obtains r where "initlog 1 (power_on D) = Some r" "between r [] r" "l_start r = st" "l_size r = sz"
    "\<And>c. home st sz c \<Longrightarrow> view (io_of r) 1 c = writes (redo_list 1 st D) D 1 c"
    "served (io_of r) = redo_list 1 st D" "disks (io_of r) = writes (redo_list 1 st D) D" "outstanding r = 0"
proof -
  obtain r where r: "initlog 1 (power_on D) = Some r" "logged r" "lh_n r = 0" "outstanding r = 0" "\<not> committing r"
    "l_dev r = 1" "l_start r = st" "l_size r = sz" "disks (io_of r) = writes (redo_list 1 st D) D"
    "served (io_of r) = redo_list 1 st D"
    by (rule boot_ok [OF D])
  have h: "hd_n (disks (io_of r) 1 st) = 0" using loggedD(8) [OF r(2)] r(6,7) by simp
  have "\<forall>c. sector (D 1 c)" using wf_diskD(3) [OF D] by blast
  then have w: "disks (io_of r) 1 1 = D 1 1"
    using writes_fine [where k = 1 and D = D, OF fine_redo [where k = 1 and D = D, OF wf_diskD(4) [OF D]]] r(9) by simp
  have "wf_head st sz 0 b" for b using wf_headD(1-5) [OF wf_diskD(4) [OF D]] by (auto simp: wf_head_def)
  then have W: "wf_disk (l_start r) (l_size r) (disks (io_of r))"
    using wf_diskD(1,2) [OF D] loggedD(4) [OF r(2)] r(6-8) w h by (simp add: wf_disk_def)
  have vd: "view (io_of r) 1 c = disks (io_of r) 1 c" for c
    using view_clean [OF loggedD(2) [OF r(2)], of c] loggedD(5) [OF r(2), of c] r(3,6) by simp
  show thesis
    by (rule that [OF r(1) between_fresh [OF r(2,5,6,4,3) W] r(7,8) _ r(10,9,4)]) (simp add: vd r(9))
qed

text \<open>What the next boot makes of a disk that recovers.\<close>

lemma recovers_boot:
  assumes "recovers st sz E cs"
  obtains r where "initlog 1 (power_on E) = Some r" "\<And>c. home st sz c \<Longrightarrow> view (io_of r) 1 c = cs c"
proof -
  have E: "wf_disk st sz E" using assms by (simp add: recovers_def)
  obtain r where r: "initlog 1 (power_on E) = Some r" "between r [] r" "l_start r = st" "l_size r = sz"
    "\<And>c. home st sz c \<Longrightarrow> view (io_of r) 1 c = writes (redo_list 1 st E) E 1 c"
    by (rule boot_between [OF E]) blast
  show thesis using that [OF r(1)] r(5) assms by (simp add: recovers_def)
qed

section \<open>What the log promises\<close>

text \<open>The blocks of the header.\<close>

abbreviation in_log :: "log \<Rightarrow> u32 set" where
  "in_log s \<equiv> lh_block s ` {..<nat (lh_n s)}"

lemma card_in_log: "wf_log s \<Longrightarrow> int (card (in_log s)) = lh_n s"
  using wf_headD(4,6) by (simp add: card_image)

lemma in_log_write:
  assumes b: "between u es t" and h: "home (l_start u) (l_size u) c" "sector v" and r: "room_for t c"
  obtains s where "change_block c v t = Some s" "between u (es @ [Op_write c v]) s" "in_log s = insert c (in_log t)"
    "outstanding s = outstanding t"
proof -
  note B = betweenD [OF b]
  have hc: "home (l_start t) (l_size t) c" using h(1) B(4,5) by simp
  obtain w n blk where w: "change_block c v t = Some (t\<lparr>io_of := w, lh_n := n, lh_block := blk\<rparr>)"
    "\<And>a. (\<exists>i < nat n. blk i = a) \<longleftrightarrow> (\<exists>i < nat (lh_n t). lh_block t i = a) \<or> a = c"
    by (rule change_ok [OF B(1) hc h(2) r]) blast
  have "in_log (t\<lparr>io_of := w, lh_n := n, lh_block := blk\<rparr>) = insert c (in_log t)"
  proof (rule set_eqI)
    fix a :: u32
    have e: "a \<in> f ` {..<k} \<longleftrightarrow> (\<exists>i < k. f i = a)" for f :: "nat \<Rightarrow> u32" and k by auto
    show "a \<in> in_log (t\<lparr>io_of := w, lh_n := n, lh_block := blk\<rparr>) \<longleftrightarrow> a \<in> insert c (in_log t)"
      unfolding insert_iff e using w(2) [of a] by (simp add: disj_commute)
  qed
  then show thesis using that [OF w(1) between_write [OF b w(1) h]] by simp
qed

lemma room_iff:
  assumes "wf_log t" "1 \<le> outstanding t"
  shows "room_for t c \<longleftrightarrow> card (in_log t) + 1 < unat (l_size t)"
  unfolding room_for_def using card_in_log [OF assms(1)] assms(2) by linarith

text \<open>The changes of a list of blocks.\<close>

abbreviation changes :: "(u32 \<times> bytes) list \<Rightarrow> log_op list" where
  "changes cs \<equiv> map (\<lambda>(b, v). Op_write b v) cs"

definition proper :: "u32 \<Rightarrow> u32 \<Rightarrow> (u32 \<times> bytes) list \<Rightarrow> bool" where
  "proper st sz cs \<longleftrightarrow> (\<forall>(b, v) \<in> set cs. home st sz b \<and> sector v)"

lemma changes_run:
  assumes "between u es t" "proper (l_start u) (l_size u) cs" "1 \<le> outstanding t"
    "card (in_log t \<union> fst ` set cs) + 1 < unat (l_size u)"
  shows "\<exists>s. log_run (changes cs) t = Some s \<and> between u (es @ changes cs) s \<and> outstanding s = outstanding t"
  using assms
proof (induction cs arbitrary: es t)
  case (Cons p cs)
  obtain c v where p: "p = (c, v)" by (cases p)
  have h: "home (l_start u) (l_size u) c" "sector v" "proper (l_start u) (l_size u) cs"
    using Cons.prems(2) by (simp_all add: proper_def p)
  have "card (in_log t) \<le> card (in_log t \<union> fst ` set (p # cs))" by (rule card_mono) auto
  then have r: "room_for t c"
    using room_iff [OF loggedD(1) [OF betweenD(1) [OF Cons.prems(1)]] Cons.prems(3)] Cons.prems(4)
      betweenD(5) [OF Cons.prems(1)] by simp
  obtain x where x: "change_block c v t = Some x" "between u (es @ [Op_write c v]) x" "in_log x = insert c (in_log t)"
    "outstanding x = outstanding t"
    by (rule in_log_write [OF Cons.prems(1) h(1,2) r])
  have "in_log x \<union> fst ` set cs = in_log t \<union> fst ` set (p # cs)" by (auto simp: x(3) p)
  then have "card (in_log x \<union> fst ` set cs) + 1 < unat (l_size u)" using Cons.prems(4) by simp
  with Cons.IH [OF x(2) h(3)] x(4) Cons.prems(3) obtain s
    where "log_run (changes cs) x = Some s" "between u ((es @ [Op_write c v]) @ changes cs) s" "outstanding s = outstanding x"
    by auto
  then show ?case using x(1,4) by (simp add: p)
qed simp

lemma changes_count:
  assumes "between u es t" "proper (l_start u) (l_size u) cs" "distinct (map fst cs)" "in_log t \<inter> fst ` set cs = {}"
    "log_run (changes cs) t = Some s"
  shows "card (in_log s) = card (in_log t) + length cs \<and> (cs \<noteq> [] \<longrightarrow> card (in_log s) < unat (l_size u))"
  using assms
proof (induction cs arbitrary: es t)
  case (Cons p cs)
  obtain c v where p: "p = (c, v)" by (cases p)
  have h: "home (l_start u) (l_size u) c" "sector v" "proper (l_start u) (l_size u) cs"
    using Cons.prems(2) by (simp_all add: proper_def p)
  obtain y where y: "change_block c v t = Some y" "log_run (changes cs) y = Some s"
    using Cons.prems(5) by (auto simp: p split: bind_splits)
  have r: "room_for t c" by (rule change_room [OF y(1) loggedD(1) [OF betweenD(1) [OF Cons.prems(1)]]])
  obtain x where x: "change_block c v t = Some x" "between u (es @ [Op_write c v]) x" "in_log x = insert c (in_log t)"
    by (rule in_log_write [OF Cons.prems(1) h(1,2) r])
  have "c \<notin> in_log t" using Cons.prems(4) by (auto simp: p)
  then have cx: "card (in_log x) = card (in_log t) + 1" using x(3) by simp
  have dj: "in_log x \<inter> fst ` set cs = {}" using Cons.prems(3,4) x(3) by (auto simp: p)
  have ds: "distinct (map fst cs)" using Cons.prems(3) by simp
  have run: "log_run (changes cs) x = Some s" using x(1) y by simp
  note IH = Cons.IH [OF x(2) h(3) ds dj run]
  have rm: "card (in_log t) + 1 < unat (l_size u)"
    using r room_iff [OF loggedD(1) [OF betweenD(1) [OF Cons.prems(1)]]] betweenD(5) [OF Cons.prems(1)]
    by (simp add: room_for_def)
  show ?case using IH cx rm by (cases "cs = []") simp_all
qed simp

section \<open>An example\<close>

text \<open>The disk that \<open>mkfs\<close> makes, as far as the log reads it: \<open>logstart\<close> is 2 and \<open>nlog\<close> is 30.\<close>

definition new_disk :: "nat \<Rightarrow> u32 \<Rightarrow> bytes" where
  "new_disk k b = (if b = 1 then store32 (store32 (\<lambda>_. 0) 12 30) 16 2 else (\<lambda>_. 0))"

definition some_block :: bytes where
  "some_block = (\<lambda>_. 0)(0 := 7)"

lemma new_disk_ok: "wf_disk 2 30 new_disk"
proof -
  have s: "sector (\<lambda>_. 0)" by (simp add: sector_def)
  have "sector (new_disk 1 c)" for c by (simp add: new_disk_def s store_sector)
  moreover have "load32 (new_disk 1 1) 16 = 2" "load32 (new_disk 1 1) 12 = 30"
    by (simp_all add: new_disk_def load_store32_other)
  moreover have "hd_n (new_disk 1 2) = 0" by (simp add: new_disk_def hd_n_def load32_def)
  ultimately show ?thesis by (simp add: wf_disk_def wf_head_def)
qed

lemma some_block_ok: "proper 2 30 [(100, some_block)]"
  by (simp add: proper_def home_def sector_def some_block_def)

text \<open>The blocks of a history, as the list of changes makes them.\<close>

lemma contents_changes: "contents (Op_begin # changes cs @ [Op_end]) f = fold (\<lambda>(b, v) g. g(b := v)) cs f"
proof -
  have "contents (changes cs) f = fold (\<lambda>(b, v) g. g(b := v)) cs f"
    by (induction cs arbitrary: f) auto
  then show ?thesis by simp
qed

lemma booted:
  assumes "wf_disk st sz D" "initlog 1 (power_on D) = Some r"
  shows "between r [] r" "l_start r = st" "l_size r = sz" "outstanding r = 0" "served (io_of r) = redo_list 1 st D"
    "\<And>c. home st sz c \<Longrightarrow> view (io_of r) 1 c = writes (redo_list 1 st D) D 1 c"
  using boot_between [OF assms(1)] assms(2) by (metis option.inject)+

lemma transaction_runs:
  assumes D: "wf_disk st sz D" and r: "initlog 1 (power_on D) = Some r"
    and cs: "proper st sz cs" "card (fst ` set cs) + 1 < unat sz"
  shows "\<exists>t. log_run (Op_begin # changes cs @ [Op_end]) r = Some t \<and> outstanding t = 0 \<and>
    (\<forall>c. home st sz c \<longrightarrow> view (io_of t) 1 c = fold (\<lambda>(b, v) f. f(b := v)) cs (view (io_of r) 1) c \<and>
      disks (io_of t) 1 c = view (io_of t) 1 c)"
proof -
  note R = booted [OF D r]
  note B = betweenD [OF R(1)]
  define x where "x = r\<lparr>outstanding := 1\<rparr>"
  have n0: "lh_n r = 0" by (rule B(7)) (simp add: R(4))
  have bx: "begin_op r = Some x" using B(2) R(4) n0 by (simp add: begin_op_def x_def)
  have x: "between r [Op_begin] x" using between_begin [OF R(1) bx] by simp
  have il: "in_log x = {}" by (simp add: x_def n0)
  have "card (in_log x \<union> fst ` set cs) + 1 < unat (l_size r)" using cs(2) R(3) unfolding il by simp
  then obtain y where y: "log_run (changes cs) x = Some y" "between r ([Op_begin] @ changes cs) y" "outstanding y = 1"
    using changes_run [OF x, of cs] cs(1) R(2,3) by (auto simp: x_def)
  note Y = betweenD [OF y(2)]
  have "end_op y \<noteq> None"
  proof (cases "0 < lh_n y")
    case True
    define z where "z = y\<lparr>outstanding := 0, committing := True\<rparr>"
    have z: "logged z" "0 < lh_n z" "l_dev z = 1" "wf_disk (l_start z) (l_size z) (disks (io_of z))"
      using Y True by (simp_all add: z_def logged_flags)
    obtain v where "commit z = Some (z\<lparr>io_of := v, lh_n := 0\<rparr>)" by (rule commit_logged [OF z])
    then show ?thesis using Y(2) y(3) by (simp add: end_op_def z_def)
  qed (use Y(2) y(3) in \<open>simp add: end_op_def commit_def\<close>)
  then obtain t where t: "end_op y = Some t" by blast
  have run: "log_run (Op_begin # changes cs @ [Op_end]) r = Some t" using bx y(1) t by (simp add: for_opt_append)
  have bt: "between r (Op_begin # changes cs @ [Op_end]) t" using between_end [OF y(2) t] by simp
  note T = betweenD [OF bt]
  have o: "outstanding t = 0" using Y(6) y(3) T(6) open_ops_snoc(3) [of "[Op_begin] @ changes cs"] by simp
  have "view (io_of t) 1 c = disks (io_of t) 1 c" for c
    using view_clean [OF loggedD(2) [OF T(1)], of c] loggedD(5) [OF T(1), of c] T(3,7) o by simp
  then show ?thesis using run o T(9) R(2,3) contents_changes by (intro exI [of _ t]) metis
qed

text \<open>
  C13. A system call whose blocks fit the log is carried out: after \<open>initlog\<close>, \<open>begin_op\<close>, changes of fewer than
  \<open>nlog - 1\<close> different blocks with \<open>log_write\<close> and \<open>end_op\<close> return without a panic or a sleep, no operation is
  outstanding then, and every block holds the last change made to it, on the disk as well.
\<close>

theorem transaction_durable:
  assumes D: "wf_disk st sz D" and r: "initlog 1 (power_on D) = Some r"
    and cs: "proper st sz cs" "card (fst ` set cs) + 1 < unat sz"
  shows "\<exists>t. log_run (Op_begin # changes cs @ [Op_end]) r = Some t \<and> outstanding t = 0 \<and>
    (\<forall>c. home st sz c \<longrightarrow> view (io_of t) 1 c = fold (\<lambda>(b, v) f. f(b := v)) cs (view (io_of r) 1) c \<and>
      disks (io_of t) 1 c = view (io_of t) 1 c)"
  by (rule transaction_runs [OF assms])

lemma transaction_durable_witness:
  "\<exists>r t. initlog 1 (power_on new_disk) = Some r \<and> log_run (Op_begin # changes [(100, some_block)] @ [Op_end]) r = Some t \<and>
     view (io_of t) 1 100 = some_block \<and> disks (io_of t) 1 100 = some_block"
proof -
  obtain r where r: "initlog 1 (power_on new_disk) = Some r" by (rule boot_between [OF new_disk_ok])
  have c: "card (fst ` set [(100 :: u32, some_block)]) + 1 < unat (30 :: u32)" by simp
  have h: "home 2 30 100" by (simp add: home_def)
  obtain t where t: "log_run (Op_begin # changes [(100, some_block)] @ [Op_end]) r = Some t"
    "\<And>c. home 2 30 c \<Longrightarrow> view (io_of t) 1 c = fold (\<lambda>(b, v) f. f(b := v)) [(100, some_block)] (view (io_of r) 1) c \<and>
      disks (io_of t) 1 c = view (io_of t) 1 c"
    using transaction_durable [OF new_disk_ok r some_block_ok c] by blast
  show ?thesis using r t(1) t(2) [OF h] by (intro exI [of _ r] exI [of _ t]) (simp del: for_opt.simps)
qed


text \<open>
  C12. A system crash loses nothing that was committed and keeps nothing that was not: after \<open>initlog\<close> and a history \<open>es\<close>
  that ends with no operation outstanding, let a history \<open>fs\<close> follow, of any operations that overlap, and
  let the power fail after any write \<open>j\<close> of the disk during \<open>fs\<close>. The next boot succeeds, and every block holds
  what \<open>es\<close> and a prefix of \<open>fs\<close> have made of it, where the prefix ends with no operation outstanding.
\<close>

theorem crash_atomic:
  assumes D: "wf_disk st sz D" and r: "initlog 1 (power_on D) = Some r"
    and es: "log_run es r = Some u" "outstanding u = 0" "log_run fs u = Some t" "\<forall>e \<in> set (es @ fs). allowed st sz e"
    and j: "length (served (io_of u)) \<le> j"
  shows "\<exists>p r'. p \<le> length fs \<and> open_ops (take p fs) = 0 \<and>
    initlog 1 (power_on (writes (take j (served (io_of t))) D)) = Some r' \<and>
    (\<forall>c. home st sz c \<longrightarrow> view (io_of r') 1 c = contents (es @ take p fs) (view (io_of r) 1) c)"
proof -
  obtain q where q: "initlog 1 (power_on D) = Some q" "between q [] q" "l_start q = st" "l_size q = sz"
    "served (io_of q) = redo_list 1 st D" "disks (io_of q) = writes (redo_list 1 st D) D"
    by (rule boot_between [OF D]) blast
  have r0: "between r [] r" "l_start r = st" "l_size r = sz" "disks (io_of r) = writes (served (io_of r)) D"
    using q r by simp_all
  have a: "\<forall>e \<in> set es. allowed (l_start r) (l_size r) e" using es(4) r0(2,3) by simp
  have u: "between r es u" using between_run [OF r0(1) es(1) a] by simp
  note U = betweenD [OF u]
  have f: "between u [] u" by (rule between_fresh [OF U(1-3) es(2) U(7)]) (use es(2) U(4,5,8) in simp_all)
  have uw: "disks (io_of u) = writes (served (io_of u)) D"
    using u r0(4) unfolding between_def by auto
  have b: "\<forall>e \<in> set fs. allowed (l_start u) (l_size u) e" using es(4) U(4,5) r0(2,3) by simp
  have t: "between u fs t" using between_run [OF f es(3) b] by simp
  then obtain ws where ws: "served (io_of t) = served (io_of u) @ ws"
    "\<And>j. \<exists>p \<le> length fs. open_ops (take p fs) = 0 \<and>
       recovers (l_start u) (l_size u) (writes (take j ws) (disks (io_of u))) (contents (take p fs) (view (io_of u) 1))"
    unfolding between_def by blast
  obtain p where p: "p \<le> length fs" "open_ops (take p fs) = 0"
    "recovers st sz (writes (take (j - length (served (io_of u))) ws) (disks (io_of u))) (contents (take p fs) (view (io_of u) 1))"
    using ws(2) U(4,5) r0(2,3) by metis
  have E: "writes (take j (served (io_of t))) D = writes (take (j - length (served (io_of u))) ws) (disks (io_of u))"
    using j ws(1) uw by simp
  obtain r' where r': "initlog 1 (power_on (writes (take j (served (io_of t))) D)) = Some r'"
    "\<And>c. home st sz c \<Longrightarrow> view (io_of r') 1 c = contents (take p fs) (view (io_of u) 1) c"
    using recovers_boot [OF p(3)] E by metis
  have "view (io_of u) 1 c = contents es (view (io_of r) 1) c" if "home st sz c" for c using U(9) that r0(2,3) by simp
  then have "contents (take p fs) (view (io_of u) 1) c = contents (es @ take p fs) (view (io_of r) 1) c" if "home st sz c" for c
    using that contents_cong [of "view (io_of u) 1" c "contents es (view (io_of r) 1)"] by simp
  then show ?thesis using p(1,2) r' by metis
qed

lemma crash_atomic_witness:
  "\<exists>r t p r'. initlog 1 (power_on new_disk) = Some r \<and>
     log_run (Op_begin # changes [(100, some_block)] @ [Op_end]) r = Some t \<and> p \<le> 3 \<and>
     open_ops (take p (Op_begin # changes [(100, some_block)] @ [Op_end])) = 0 \<and>
     initlog 1 (power_on (writes (take (length (served (io_of r)) + 2) (served (io_of t))) new_disk)) = Some r' \<and>
     (\<forall>c. home 2 30 c \<longrightarrow> view (io_of r') 1 c =
       contents ([] @ take p (Op_begin # changes [(100, some_block)] @ [Op_end])) (view (io_of r) 1) c)"
proof -
  let ?fs = "Op_begin # changes [(100, some_block)] @ [Op_end]"
  obtain r where r: "initlog 1 (power_on new_disk) = Some r" "outstanding r = 0" by (rule boot_between [OF new_disk_ok])
  have c: "card (fst ` set [(100 :: u32, some_block)]) + 1 < unat (30 :: u32)" by simp
  obtain t where t: "log_run ?fs r = Some t" using transaction_runs [OF new_disk_ok r(1) some_block_ok c] by blast
  have a: "\<forall>e \<in> set ([] @ ?fs). allowed 2 30 e" using some_block_ok by (simp add: allowed_def proper_def)
  have e: "log_run [] r = Some r" by simp
  have j: "length (served (io_of r)) \<le> length (served (io_of r)) + 2" by simp
  obtain p r' where p: "p \<le> length ?fs" "open_ops (take p ?fs) = 0"
    "initlog 1 (power_on (writes (take (length (served (io_of r)) + 2) (served (io_of t))) new_disk)) = Some r'"
    "\<forall>c. home 2 30 c \<longrightarrow> view (io_of r') 1 c = contents ([] @ take p ?fs) (view (io_of r) 1) c"
    using crash_atomic [OF new_disk_ok r(1) e r(2) t a j] by blast
  have "p \<le> 3" using p(1) by simp
  then show ?thesis using r(1) t p(2-4) by blast
qed

text \<open>
  C14. A recovery can itself be cut off by a power failure: when only the first \<open>j\<close> of the writes of \<open>initlog\<close> reach
  the disk, the next \<open>initlog\<close> succeeds and every block holds what it would have held.
\<close>

theorem recovery_repeats:
  assumes D: "wf_disk st sz D" and r: "initlog 1 (power_on D) = Some r"
  shows "\<exists>r'. initlog 1 (power_on (writes (take j (served (io_of r))) D)) = Some r' \<and>
    (\<forall>c. home st sz c \<longrightarrow> view (io_of r') 1 c = view (io_of r) 1 c)"
proof -
  note R = booted [OF D r]
  define E where "E = writes (take j (redo_list 1 st D)) D"
  have "\<forall>c. sector (D 1 c)" using wf_diskD(3) [OF D] by blast
  then have "E 1 1 = D 1 1 \<and> (\<forall>c. sector (E 1 c))"
    unfolding E_def by (intro writes_fine fine_take fine_redo [where k = 1 and D = D, OF wf_diskD(4) [OF D]])
  then have "recovers st sz E (view (io_of r) 1)"
    using redo_crash [where k = 1 and D = D and j = j, OF wf_diskD(4) [OF D], folded E_def] wf_diskD(1,2) [OF D] R(6)
    by (simp add: recovers_def wf_disk_def)
  from recovers_boot [OF this] show ?thesis unfolding R(5) E_def [symmetric] by metis
qed

lemma recovery_repeats_witness:
  "\<exists>r r'. initlog 1 (power_on new_disk) = Some r \<and>
     initlog 1 (power_on (writes (take 1 (served (io_of r))) new_disk)) = Some r' \<and>
     (\<forall>c. home 2 30 c \<longrightarrow> view (io_of r') 1 c = view (io_of r) 1 c)"
proof -
  obtain r where r: "initlog 1 (power_on new_disk) = Some r" by (rule boot_between [OF new_disk_ok])
  show ?thesis using recovery_repeats [where j = 1, OF new_disk_ok r] r by blast
qed

lemma changes_fill:
  assumes t: "between u es t" "1 \<le> outstanding t" "lh_n t = 0"
    and cs: "proper (l_start u) (l_size u) cs" "distinct (map fst cs)" "length cs + 1 = unat (l_size u)"
  shows "\<exists>s. log_run (changes cs) t = Some s \<and> between u (es @ changes cs) s \<and> outstanding s = outstanding t \<and>
    lh_n s = int (length cs)"
proof -
  have il: "in_log t = {}" using t(3) by simp
  have "\<exists>s. log_run (changes cs) t = Some s \<and> between u (es @ changes cs) s \<and> outstanding s = outstanding t"
  proof (cases cs rule: rev_cases)
    case (snoc ds p)
    obtain c v where p: "p = (c, v)" by (cases p)
    have pr: "proper (l_start u) (l_size u) ds" "home (l_start u) (l_size u) c" "sector v"
      using cs(1) by (auto simp: proper_def snoc p)
    have ds: "length ds + 2 = unat (l_size u)" "distinct (map fst ds)" using cs(2,3) by (simp_all add: snoc)
    have cd: "card (in_log t \<union> fst ` set ds) + 1 < unat (l_size u)"
      using ds distinct_card [OF ds(2)] il by simp
    obtain x where x: "log_run (changes ds) t = Some x" "between u (es @ changes ds) x" "outstanding x = outstanding t"
      using changes_run [OF t(1) pr(1) t(2) cd] by blast
    have "card (in_log x) = card (in_log t) + length ds"
      using changes_count [OF t(1) pr(1) ds(2) _ x(1)] il by simp
    then have "room_for x c"
      using room_iff [OF loggedD(1) [OF betweenD(1) [OF x(2)]], of c] betweenD(5) [OF x(2)] x(3) t(2) ds(1) il by simp
    then obtain y where y: "change_block c v x = Some y" "between u ((es @ changes ds) @ [Op_write c v]) y"
      "outstanding y = outstanding x"
      using in_log_write [OF x(2) pr(2,3)] by blast
    have "log_run (changes cs) t = Some y" using x(1) y(1) by (simp add: snoc p for_opt_append)
    then show ?thesis using y(2,3) x(3) by (auto simp: snoc p)
  qed (use t in simp)
  then obtain s where s: "log_run (changes cs) t = Some s" "between u (es @ changes cs) s" "outstanding s = outstanding t"
    by blast
  have "card (in_log s) = length cs" using changes_count [OF t(1) cs(1,2) _ s(1)] il by simp
  then have "lh_n s = int (length cs)" using card_in_log [OF loggedD(1) [OF betweenD(1) [OF s(2)]]] by simp
  with s show ?thesis by blast
qed

text \<open>
  C16. Three operations are admitted to the log that \<open>mkfs\<close> makes (\<open>nlog\<close> = 30), each with its 10 blocks, and
  their first 29 changes, of different blocks, are carried out; then \<open>bread\<close> of a further block returns, but its
  \<open>log_write\<close> panics, whatever block and data it is for: 29 blocks fill the log (\<open>too big a transaction\<close>).
\<close>

theorem third_operation_panics:
  assumes D: "wf_disk st 30 D" and r: "initlog 1 (power_on D) = Some r"
    and cs: "proper st 30 cs" "distinct (map fst cs)" "length cs = 29" and c: "home st 30 c"
  shows "\<exists>t i m. log_run ([Op_begin, Op_begin, Op_begin] @ changes cs) r = Some t \<and> outstanding t = 3 \<and>
    lh_n t = 29 \<and> l_size t = 30 \<and> bread 1 c (io_of t) = Some (i, m) \<and>
    (\<forall>v. log_write i (t\<lparr>io_of := set_data i v m\<rparr>) = None)"
proof -
  note R = booted [OF D r]
  note B = betweenD [OF R(1)]
  define x where "x = r\<lparr>outstanding := 3\<rparr>"
  have n0: "lh_n r = 0" by (rule B(7)) (simp add: R(4))
  have run: "log_run [Op_begin, Op_begin, Op_begin] r = Some x"
    using B(2) R(4) n0 by (simp add: begin_op_def x_def)
  have x: "between r [Op_begin, Op_begin, Op_begin] x" "1 \<le> outstanding x" "lh_n x = 0"
    using between_run [OF R(1) run] n0 by (simp_all add: allowed_def x_def)
  have p: "proper (l_start r) (l_size r) cs" "length cs + 1 = unat (l_size r)" using cs(1,3) R(2,3) by simp_all
  obtain t where t: "log_run (changes cs) x = Some t" "between r ([Op_begin, Op_begin, Op_begin] @ changes cs) t"
    "outstanding t = 3" "lh_n t = 29"
    using changes_fill [OF x p(1) cs(2) p(2)] cs(3) by (auto simp: x_def)
  note T = betweenD [OF t(2)]
  have lg: "logged t" and d1: "l_dev t = 1" by (rule T(1), rule T(3))
  have ok: "io_ok 1 (io_of t) {}" using loggedD(2) [OF lg] d1 by simp
  have cf: "c < FSSIZE" using c by (simp add: home_def)
  have rm: "dirty_at (io_of t) 1 c \<or> (\<exists>k < NBUF. k \<notin> {} \<and> \<not> b_dirty (buf (io_of t) k))"
    using logged_room [OF lg] by simp
  obtain i m where m: "bread 1 c (io_of t) = Some (i, m)"
    by (rule bread_ok [OF ok _ cf rm]) simp_all
  have z: "l_size t = 30" using T(5) R(3) by simp
  have "log_write i (t\<lparr>io_of := set_data i v m\<rparr>) = None" for v
    using t(4) z by (simp add: log_write_def)
  moreover have "log_run ([Op_begin, Op_begin, Op_begin] @ changes cs) r = Some t"
    unfolding for_opt_append run using t(1) by simp
  ultimately show ?thesis using t(3,4) z m by blast
qed

lemma third_operation_panics_witness:
  "\<exists>r t i m. initlog 1 (power_on new_disk) = Some r \<and>
     log_run ([Op_begin, Op_begin, Op_begin] @ changes (map (\<lambda>i. (word_of_nat (100 + i), some_block)) [0..<29])) r = Some t \<and>
     lh_n t = 29 \<and> bread 1 100 (io_of t) = Some (i, m) \<and> log_write i (t\<lparr>io_of := set_data i some_block m\<rparr>) = None"
proof -
  obtain r where r: "initlog 1 (power_on new_disk) = Some r" by (rule boot_between [OF new_disk_ok])
  let ?cs = "map (\<lambda>i. (word_of_nat (100 + i) :: u32, some_block)) [0..<29]"
  have u: "unat (word_of_nat (100 + i) :: u32) = 100 + i" if "i < 29" for i
    by (subst unat_of_nat) (use that in simp)
  have hw: "home 2 30 w" if "100 \<le> unat w" "unat w < 130" for w
    using that by (auto simp: home_def word_less_nat_alt)
  have h: "home 2 30 (word_of_nat (100 + i))" if "i < 29" for i
    using hw [of "word_of_nat (100 + i)"] that unfolding u [OF that] by linarith
  have h1: "home 2 30 100" by (rule hw) simp_all
  have "home 2 30 b \<and> sector v" if "(b, v) \<in> set ?cs" for b v
  proof -
    from that have "(b, v) \<in> (\<lambda>i. (word_of_nat (100 + i), some_block)) ` {0..<29}" unfolding set_map set_upt .
    then obtain i where "i < 29" "b = word_of_nat (100 + i)" "v = some_block"
      unfolding image_iff Bex_def prod.inject by (metis atLeastLessThan_iff)
    then show ?thesis using h some_block_ok by (simp add: proper_def)
  qed
  then have p: "proper 2 30 ?cs" unfolding proper_def by blast
  have "inj_on (\<lambda>i. word_of_nat (100 + i) :: u32) {0..<29}"
    by (rule inj_onI) (metis u atLeastLessThan_iff add_left_cancel)
  then have d: "distinct (map fst ?cs)"
    unfolding map_map comp_def fst_conv distinct_map set_upt by simp
  have l: "length ?cs = 29" by simp
  show ?thesis using third_operation_panics [OF new_disk_ok r p d l h1] r by blast
qed

end
