(* ===== verification/Seats.thy ===== *)
theory Seats
  imports Prelude
begin

text \<open>
  The seat reservation server of the third programming assignment,
  \<open>2-2/PA3/workspace/20201218/submit2/pa3_server.c\<close>: one thread per client, and one mutex for each
  client, user and seat. The threads run interleaved, one event at a time: a request arrives, a
  thread takes one mutex, runs the part of a handler that touches only what its mutexes guard,
  reads one seat in the loop of \<open>check_reservation\<close> (which reads seats whose mutexes it does not
  hold), or gives one mutex back. An event that cannot happen now, because the mutex is taken or
  because the access is outside an array, has the value \<open>None\<close>. The replies are the list \<open>sent\<close>;
  lines printed for the operator are left out.
\<close>

abbreviation (input) "MAXUSER \<equiv> (1050 :: nat)"
abbreviation (input) "MAXSEAT \<equiv> (256 :: nat)"

section \<open>State\<close>

record query =
  user :: int
  action :: int
  qseat :: int

text \<open>Where a thread is in its loop: the value of \<open>ret\<close> is kept until the last mutex is given back.\<close>

datatype phase = Receive | LockC | LockU | LockS | Body | Scan nat "int list"
  | UnlockC int | UnlockU int | UnlockS int

datatype message = Reply query | Found int "int list"

record server =
  client2fd :: "nat \<Rightarrow> int"
  client2user :: "nat \<Rightarrow> int"
  user2client :: "nat \<Rightarrow> int"
  password :: "nat \<Rightarrow> int"
  seat :: "nat \<Rightarrow> int"
  c2u_mutex :: "nat \<Rightarrow> nat option"   \<comment> \<open>the thread that holds it, named by its socket\<close>
  u2c_mutex :: "nat \<Rightarrow> nat option"
  seat_mutex :: "nat \<Rightarrow> nat option"
  threads :: "nat \<Rightarrow> (query option \<times> phase) option"   \<comment> \<open>the last query, if any, and the phase\<close>
  sent :: "(nat \<times> message) list"

definition initialize :: server where
  "initialize = \<lparr>client2fd = (\<lambda>i. int i - 3), client2user = (\<lambda>_. -1), user2client = (\<lambda>_. -1),
     password = (\<lambda>_. -1), seat = (\<lambda>_. -1), c2u_mutex = (\<lambda>_. None), u2c_mutex = (\<lambda>_. None),
     seat_mutex = (\<lambda>_. None), threads = (\<lambda>_. None), sent = []\<rparr>"

definition send :: "nat \<Rightarrow> message \<Rightarrow> server \<Rightarrow> server" where
  "send k m s = s\<lparr>sent := sent s @ [(k, m)]\<rparr>"

definition reply :: "nat \<Rightarrow> int \<Rightarrow> int \<Rightarrow> server \<Rightarrow> server" where
  "reply k act ret = send k (Reply \<lparr>user = ret, action = act, qseat = ret\<rparr>)"

definition is_client_busy :: "int \<Rightarrow> server \<Rightarrow> int" where
  "is_client_busy client_sock s = (if \<exists>i \<in> set [0..<MAXUSER]. user2client s i = client_sock then 1 else 0)"

section \<open>What the handlers do between taking and giving back their mutexes\<close>

definition login :: "nat \<Rightarrow> int \<Rightarrow> int \<Rightarrow> server \<Rightarrow> (int \<times> server) option" where
  "login sock usernum passwd s = do {
     c \<leftarrow> get1 MAXUSER (client2fd s) (int sock);
     cu \<leftarrow> get1 MAXUSER (client2user s) c;
     uc \<leftarrow> get1 MAXUSER (user2client s) usernum;
     pw \<leftarrow> get1 MAXUSER (password s) usernum;
     c2u \<leftarrow> set1 MAXUSER (client2user s) c usernum;
     u2c \<leftarrow> set1 MAXUSER (user2client s) usernum c;
     pws \<leftarrow> set1 MAXUSER (password s) usernum passwd;
     let (ret, s) =
       (if cu \<noteq> -1 then (-1, s)
        else if uc \<noteq> -1 then (-1, s)
        else if pw = -1 then (1, s\<lparr>password := pws, client2user := c2u, user2client := u2c\<rparr>)
        else if pw \<noteq> passwd then (-1, s)
        else (1, s\<lparr>client2user := c2u, user2client := u2c\<rparr>));
     Some (ret, reply sock 1 ret s) }"

text \<open>The tests with which \<open>reserve\<close>, \<open>check_reservation\<close> and \<open>cancel_reservation\<close> begin.\<close>

definition refused :: "nat \<Rightarrow> int \<Rightarrow> int \<Rightarrow> server \<Rightarrow> bool option" where
  "refused sock usernum seatnum s = do {
     c \<leftarrow> get1 MAXUSER (client2fd s) (int sock);
     cu \<leftarrow> get1 MAXUSER (client2user s) c;
     uc \<leftarrow> get1 MAXUSER (user2client s) usernum;
     Some (cu \<noteq> usernum \<or> uc \<noteq> c \<or> seatnum > 255 \<or> seatnum < 0) }"

definition reserve :: "nat \<Rightarrow> int \<Rightarrow> int \<Rightarrow> server \<Rightarrow> (int \<times> server) option" where
  "reserve sock usernum seatnum s = do {
     no \<leftarrow> refused sock usernum seatnum s;
     (ret, s) \<leftarrow>
       (if no then Some (-1, s)
        else do {
          v \<leftarrow> get1 MAXSEAT (seat s) seatnum;
          if v \<noteq> -1 then Some (-1, s)
          else do {
            st \<leftarrow> set1 MAXSEAT (seat s) seatnum usernum;
            Some (seatnum, s\<lparr>seat := st\<rparr>) } });
     Some (ret, reply sock 2 ret s) }"

definition cancel_reservation :: "nat \<Rightarrow> int \<Rightarrow> int \<Rightarrow> server \<Rightarrow> (int \<times> server) option" where
  "cancel_reservation sock usernum seatnum s = do {
     no \<leftarrow> refused sock usernum seatnum s;
     (ret, s) \<leftarrow>
       (if no then Some (-1, s)
        else do {
          v \<leftarrow> get1 MAXSEAT (seat s) seatnum;
          if v \<noteq> usernum then Some (-1, s)
          else do {
            st \<leftarrow> set1 MAXSEAT (seat s) seatnum (-1);
            Some (seatnum, s\<lparr>seat := st\<rparr>) } });
     Some (ret, reply sock 4 ret s) }"

definition logout :: "nat \<Rightarrow> int \<Rightarrow> server \<Rightarrow> (int \<times> server) option" where
  "logout sock usernum s = do {
     c \<leftarrow> get1 MAXUSER (client2fd s) (int sock);
     cu \<leftarrow> get1 MAXUSER (client2user s) c;
     uc \<leftarrow> get1 MAXUSER (user2client s) usernum;
     c2u \<leftarrow> set1 MAXUSER (client2user s) c (-1);
     u2c \<leftarrow> set1 MAXUSER (user2client s) usernum (-1);
     let (ret, s) =
       (if cu = -1 then (-1, s)
        else if uc = -1 then (-1, s)
        else (1, s\<lparr>client2user := c2u, user2client := u2c\<rparr>));
     Some (ret, reply sock 5 ret s) }"

text \<open>
  The end of \<open>check_reservation\<close> after its loop, with the seats found; \<open>send\<close> has room for 256
  numbers, and the one after the last is set to 0.
\<close>

definition check_done :: "nat \<Rightarrow> int list \<Rightarrow> server \<Rightarrow> (int \<times> server) option" where
  "check_done sock found s =
     (if length found \<ge> MAXSEAT then None
      else
        let cnt = int (length found); ret = (if cnt = 0 then -1 else 1); s = reply sock 3 ret s in
        Some (ret, if ret \<noteq> -1 then send sock (Found cnt found) s else s))"

section \<open>The loop of a thread\<close>

definition set_thread :: "nat \<Rightarrow> query option \<Rightarrow> phase \<Rightarrow> server \<Rightarrow> server" where
  "set_thread k q ph s = s\<lparr>threads := (threads s)(k := Some (q, ph))\<rparr>"

text \<open>The requests that take the mutex of a seat.\<close>

definition takes_seat :: "query \<Rightarrow> bool" where
  "takes_seat q \<longleftrightarrow> action q = 2 \<or> action q = 3 \<or> action q = 4"

text \<open>The \<open>switch\<close> over the action of the query just read.\<close>

definition dispatch :: "nat \<Rightarrow> query \<Rightarrow> server \<Rightarrow> server" where
  "dispatch k q s =
     (if action q = 0 \<and> user q = 0 \<and> qseat q = 0 then
        (send k (Reply q) s)\<lparr>threads := (threads s)(k := None)\<rparr>
      else if 1 \<le> action q \<and> action q \<le> 5 then set_thread k (Some q) LockC s
      else set_thread k (Some q) Receive s)"

definition lock :: "nat \<Rightarrow> (nat \<Rightarrow> nat option) \<Rightarrow> nat \<Rightarrow> int \<Rightarrow> (nat \<Rightarrow> nat option) option" where
  "lock n m k i = do {
     holder \<leftarrow> get1 n m i;
     if holder = None then set1 n m i (Some k) else None }"

text \<open>One handler up to the reply: the reply follows at once except in \<open>check_reservation\<close>.\<close>

definition handle :: "nat \<Rightarrow> query \<Rightarrow> server \<Rightarrow> server option" where
  "handle k q s =
     (if action q = 1 then map_option (\<lambda>(r, s). set_thread k (Some q) (UnlockC r) s) (login k (user q) (qseat q) s)
      else if action q = 2 then
        map_option (\<lambda>(r, s). set_thread k (Some q) (UnlockC r) s) (reserve k (user q) (qseat q) s)
      else if action q = 3 then do {
        no \<leftarrow> refused k (user q) (qseat q) s;
        Some (if no then set_thread k (Some q) (UnlockC (-1)) (reply k 3 (-1) s)
              else set_thread k (Some q) (Scan 0 []) s) }
      else if action q = 4 then
        map_option (\<lambda>(r, s). set_thread k (Some q) (UnlockC r) s) (cancel_reservation k (user q) (qseat q) s)
      else map_option (\<lambda>(r, s). set_thread k (Some q) (UnlockC r) s) (logout k (user q) s))"

definition run :: "nat \<Rightarrow> server \<Rightarrow> server option" where
  "run k s =
     (case threads s k of
        Some (Some q, ph) \<Rightarrow>
          (case ph of
             Receive \<Rightarrow> None
           | LockC \<Rightarrow> do {
               c \<leftarrow> get1 MAXUSER (client2fd s) (int k);
               m \<leftarrow> lock MAXUSER (c2u_mutex s) k c;
               Some (set_thread k (Some q) LockU (s\<lparr>c2u_mutex := m\<rparr>)) }
           | LockU \<Rightarrow> do {
               m \<leftarrow> lock MAXUSER (u2c_mutex s) k (user q);
               Some (set_thread k (Some q) (if takes_seat q then LockS else Body) (s\<lparr>u2c_mutex := m\<rparr>)) }
           | LockS \<Rightarrow> do {
               m \<leftarrow> lock MAXSEAT (seat_mutex s) k (qseat q);
               Some (set_thread k (Some q) Body (s\<lparr>seat_mutex := m\<rparr>)) }
           | Body \<Rightarrow> handle k q s
           | Scan i found \<Rightarrow>
               if i < MAXSEAT then
                 Some (set_thread k (Some q) (Scan (i + 1) (if seat s i = user q then found @ [int i] else found)) s)
               else map_option (\<lambda>(r, s). set_thread k (Some q) (UnlockC r) s) (check_done k found s)
           | UnlockC r \<Rightarrow> do {
               c \<leftarrow> get1 MAXUSER (client2fd s) (int k);
               m \<leftarrow> set1 MAXUSER (c2u_mutex s) c None;
               Some (set_thread k (Some q) (UnlockU r) (s\<lparr>c2u_mutex := m\<rparr>)) }
           | UnlockU r \<Rightarrow> do {
               m \<leftarrow> set1 MAXUSER (u2c_mutex s) (user q) None;
               Some (set_thread k (Some q) (if takes_seat q then UnlockS r else Receive) (s\<lparr>u2c_mutex := m\<rparr>)) }
           | UnlockS r \<Rightarrow> do {
               m \<leftarrow> set1 MAXSEAT (seat_mutex s) (qseat q) None;
               Some (set_thread k (Some q) Receive (s\<lparr>seat_mutex := m\<rparr>)) })
      | _ \<Rightarrow> None)"

text \<open>
  A client connects on a socket, sends a request, or closes its end: then \<open>read\<close> returns 0, which
  the test \<open>read(...) < 0\<close> does not catch, and the thread serves the last query again.
\<close>

datatype event = Accept nat | Request nat query | Closed nat | Run nat

fun step :: "event \<Rightarrow> server \<Rightarrow> server option" where
  "step (Accept k) s =
     (if 3 \<le> k \<and> k < MAXUSER \<and> threads s k = None then Some (set_thread k None Receive s) else None)"
| "step (Request k q) s =
     (case threads s k of Some (_, Receive) \<Rightarrow> Some (dispatch k q s) | _ \<Rightarrow> None)"
| "step (Closed k) s =
     (case threads s k of Some (Some q, Receive) \<Rightarrow> Some (dispatch k q s) | _ \<Rightarrow> None)"
| "step (Run k) s = run k s"

fun steps :: "event list \<Rightarrow> server \<Rightarrow> server option" where
  "steps [] s = Some s"
| "steps (e # es) s = Option.bind (step e s) (steps es)"

end
