(* ===== verification/SeatsSpec.thy ===== *)
theory SeatsSpec
  imports Seats
begin

text \<open>
  What holds for the reservation server whatever the interleaving: each mutex is held by the
  thread whose phase says so, the threads never block each other for ever, a seat changes hands
  only through its owner; and what its sessions do not guarantee.
\<close>

section \<open>Mutexes\<close>

text \<open>The requests whose user and seat index the arrays.\<close>

definition good_query :: "query \<Rightarrow> bool" where
  "good_query q \<longleftrightarrow> 0 \<le> user q \<and> user q < int MAXUSER \<and> (takes_seat q \<longrightarrow> 0 \<le> qseat q \<and> qseat q < int MAXSEAT)"

fun good_event :: "event \<Rightarrow> bool" where
  "good_event (Request k q) \<longleftrightarrow> good_query q"
| "good_event _ \<longleftrightarrow> True"

fun c_phase :: "phase \<Rightarrow> bool" where
  "c_phase LockU \<longleftrightarrow> True" | "c_phase LockS \<longleftrightarrow> True" | "c_phase Body \<longleftrightarrow> True"
| "c_phase (Scan i f) \<longleftrightarrow> True" | "c_phase (UnlockC r) \<longleftrightarrow> True" | "c_phase _ \<longleftrightarrow> False"

fun u_phase :: "phase \<Rightarrow> bool" where
  "u_phase LockS \<longleftrightarrow> True" | "u_phase Body \<longleftrightarrow> True" | "u_phase (Scan i f) \<longleftrightarrow> True"
| "u_phase (UnlockC r) \<longleftrightarrow> True" | "u_phase (UnlockU r) \<longleftrightarrow> True" | "u_phase _ \<longleftrightarrow> False"

fun s_phase :: "phase \<Rightarrow> bool" where
  "s_phase Body \<longleftrightarrow> True" | "s_phase (Scan i f) \<longleftrightarrow> True" | "s_phase (UnlockC r) \<longleftrightarrow> True"
| "s_phase (UnlockU r) \<longleftrightarrow> True" | "s_phase (UnlockS r) \<longleftrightarrow> True" | "s_phase _ \<longleftrightarrow> False"

text \<open>The mutex of each kind that a thread holds, according to its phase.\<close>

definition holds_c :: "server \<Rightarrow> nat \<Rightarrow> nat option" where
  "holds_c s k = (case threads s k of Some (Some q, ph) \<Rightarrow> if c_phase ph then Some (k - 3) else None | _ \<Rightarrow> None)"

definition holds_u :: "server \<Rightarrow> nat \<Rightarrow> nat option" where
  "holds_u s k = (case threads s k of Some (Some q, ph) \<Rightarrow> if u_phase ph then Some (nat (user q)) else None | _ \<Rightarrow> None)"

definition holds_s :: "server \<Rightarrow> nat \<Rightarrow> nat option" where
  "holds_s s k = (case threads s k of Some (Some q, ph) \<Rightarrow>
     if s_phase ph \<and> takes_seat q then Some (nat (qseat q)) else None | _ \<Rightarrow> None)"

text \<open>A thread in a phase that its query can be in.\<close>

fun fits :: "query \<Rightarrow> phase \<Rightarrow> bool" where
  "fits q LockS \<longleftrightarrow> takes_seat q"
| "fits q (Scan i f) \<longleftrightarrow> action q = 3 \<and> i \<le> MAXSEAT \<and> length f \<le> i"
| "fits q (UnlockS r) \<longleftrightarrow> takes_seat q"
| "fits q Receive \<longleftrightarrow> True"
| "fits q _ \<longleftrightarrow> 1 \<le> action q \<and> action q \<le> 5"

lemma takes_seat_action: "takes_seat q \<Longrightarrow> 1 \<le> action q \<and> action q \<le> 5"
  by (auto simp: takes_seat_def)

definition thread_ok :: "nat \<Rightarrow> (query option \<times> phase) option \<Rightarrow> bool" where
  "thread_ok k th \<longleftrightarrow> (case th of None \<Rightarrow> True
     | Some (None, ph) \<Rightarrow> 3 \<le> k \<and> k < MAXUSER \<and> ph = Receive
     | Some (Some q, ph) \<Rightarrow> 3 \<le> k \<and> k < MAXUSER \<and> good_query q \<and> fits q ph)"

text \<open>The mutexes name exactly the threads that hold them.\<close>

definition agree :: "(nat \<Rightarrow> nat option) \<Rightarrow> (nat \<Rightarrow> nat option) \<Rightarrow> bool" where
  "agree m h \<longleftrightarrow> (\<forall>i k. m i = Some k \<longleftrightarrow> h k = Some i)"

lemma agree_take: "agree m h \<Longrightarrow> m i = None \<Longrightarrow> h k = None \<Longrightarrow> agree (m(i := Some k)) (h(k := Some i))"
  by (auto simp: agree_def) (metis option.distinct(1))+

lemma agree_drop: "agree m h \<Longrightarrow> h k = Some i \<Longrightarrow> agree (m(i := None)) (h(k := None))"
  by (auto simp: agree_def) (metis option.inject)+

definition server_ok :: "server \<Rightarrow> bool" where
  "server_ok s \<longleftrightarrow> client2fd s = (\<lambda>i. int i - 3) \<and> (\<forall>k. thread_ok k (threads s k)) \<and>
     agree (c2u_mutex s) (holds_c s) \<and> agree (u2c_mutex s) (holds_u s) \<and> agree (seat_mutex s) (holds_s s)"

lemma server_okD:
  assumes "server_ok s"
  shows "client2fd s = (\<lambda>i. int i - 3)" "thread_ok k (threads s k)"
    "agree (c2u_mutex s) (holds_c s)" "agree (u2c_mutex s) (holds_u s)" "agree (seat_mutex s) (holds_s s)"
  using assms by (simp_all add: server_ok_def)

lemma initialize_ok: "server_ok initialize"
  by (simp add: server_ok_def initialize_def thread_ok_def holds_c_def holds_u_def holds_s_def agree_def)

text \<open>What a handler leaves alone.\<close>

definition same_locks :: "server \<Rightarrow> server \<Rightarrow> bool" where
  "same_locks s t \<longleftrightarrow> client2fd t = client2fd s \<and> c2u_mutex t = c2u_mutex s \<and> u2c_mutex t = u2c_mutex s \<and>
     seat_mutex t = seat_mutex s \<and> threads t = threads s"

lemma same_locks_reply [simp]: "same_locks s (reply k a r t) \<longleftrightarrow> same_locks s t"
  "same_locks s (send k m t) \<longleftrightarrow> same_locks s t"
  by (simp_all add: same_locks_def reply_def send_def)

lemma login_locks: "login k u p s = Some (r, t) \<Longrightarrow> same_locks s t"
  by (auto simp: login_def split: bind_splits if_splits) (simp_all add: same_locks_def)

lemma reserve_locks: "reserve k u n s = Some (r, t) \<Longrightarrow> same_locks s t"
  by (auto simp: reserve_def split: bind_splits if_splits) (simp_all add: same_locks_def)

lemma cancel_locks: "cancel_reservation k u n s = Some (r, t) \<Longrightarrow> same_locks s t"
  by (auto simp: cancel_reservation_def split: bind_splits if_splits) (simp_all add: same_locks_def)

lemma logout_locks: "logout k u s = Some (r, t) \<Longrightarrow> same_locks s t"
  by (auto simp: logout_def split: bind_splits if_splits) (simp_all add: same_locks_def)

lemma check_done_locks: "check_done k f s = Some (r, t) \<Longrightarrow> same_locks s t"
  by (auto simp: check_done_def Let_def split: if_splits) (simp_all add: same_locks_def)

text \<open>
  A thread goes on to the phase \<open>ph'\<close>, and the mutexes agree with what it then holds.
\<close>

lemma moved_ok:
  assumes ok: "server_ok s" and th: "threads s k = Some (q0, ph)" and q: "good_query q" and f: "fits q ph'"
    and t: "client2fd t = client2fd s" "threads t = threads s"
    and c: "agree (c2u_mutex t) ((holds_c s)(k := if c_phase ph' then Some (k - 3) else None))"
    and u: "agree (u2c_mutex t) ((holds_u s)(k := if u_phase ph' then Some (nat (user q)) else None))"
    and n: "agree (seat_mutex t) ((holds_s s)(k := if s_phase ph' \<and> takes_seat q then Some (nat (qseat q)) else None))"
  shows "server_ok (set_thread k (Some q) ph' t)"
proof -
  let ?t = "set_thread k (Some q) ph' t"
  have "holds_c ?t = (holds_c s)(k := if c_phase ph' then Some (k - 3) else None)"
    "holds_u ?t = (holds_u s)(k := if u_phase ph' then Some (nat (user q)) else None)"
    "holds_s ?t = (holds_s s)(k := if s_phase ph' \<and> takes_seat q then Some (nat (qseat q)) else None)"
    using t(2) by (auto simp: fun_eq_iff holds_c_def holds_u_def holds_s_def set_thread_def)
  moreover have "c2u_mutex ?t = c2u_mutex t" "u2c_mutex ?t = u2c_mutex t" "seat_mutex ?t = seat_mutex t"
    "client2fd ?t = (\<lambda>i. int i - 3)"
    using server_okD(1) [OF ok] t(1) by (simp_all add: set_thread_def)
  moreover have "thread_ok j (threads ?t j)" for j
    using server_okD(2) [OF ok, of j] server_okD(2) [OF ok, of k] th f t(2) q
    by (auto simp: thread_ok_def set_thread_def split: option.splits)
  ultimately show ?thesis using c u n by (simp add: server_ok_def)
qed

text \<open>What a thread holds in its phase.\<close>

lemma holds_at:
  assumes "threads s k = Some (Some q, ph)"
  shows "holds_c s k = (if c_phase ph then Some (k - 3) else None)"
    "holds_u s k = (if u_phase ph then Some (nat (user q)) else None)"
    "holds_s s k = (if s_phase ph \<and> takes_seat q then Some (nat (qseat q)) else None)"
  using assms by (simp_all add: holds_c_def holds_u_def holds_s_def)

lemma move_ok:
  assumes ok: "server_ok s" and sl: "same_locks s t" and th: "threads s k = Some (Some q, ph)"
    and ph: "c_phase ph' = c_phase ph" "u_phase ph' = u_phase ph" "s_phase ph' = s_phase ph" and f: "fits q ph'"
  shows "server_ok (set_thread k (Some q) ph' t)"
proof (rule moved_ok [OF ok th _ f])
  show "good_query q" using server_okD(2) [OF ok, of k] th by (simp add: thread_ok_def)
  show "client2fd t = client2fd s" "threads t = threads s" using sl by (simp_all add: same_locks_def)
  note h = holds_at [OF th, folded ph]
  show "agree (c2u_mutex t) ((holds_c s)(k := if c_phase ph' then Some (k - 3) else None))"
    using server_okD(3) [OF ok] sl unfolding h(1) [symmetric] fun_upd_triv by (simp add: same_locks_def)
  show "agree (u2c_mutex t) ((holds_u s)(k := if u_phase ph' then Some (nat (user q)) else None))"
    using server_okD(4) [OF ok] sl unfolding h(2) [symmetric] fun_upd_triv by (simp add: same_locks_def)
  show "agree (seat_mutex t) ((holds_s s)(k := if s_phase ph' \<and> takes_seat q then Some (nat (qseat q)) else None))"
    using server_okD(5) [OF ok] sl unfolding h(3) [symmetric] fun_upd_triv by (simp add: same_locks_def)
qed

lemma handle_ok:
  assumes ok: "server_ok s" and th: "threads s k = Some (Some q, Body)" and h: "handle k q s = Some t"
  shows "server_ok t"
proof -
  have sl: "same_locks s s" by (simp add: same_locks_def)
  have "fits q Body" using server_okD(2) [OF ok, of k] th by (simp add: thread_ok_def)
  then have U: "server_ok (set_thread k (Some q) (UnlockC r) u)" if "same_locks s u" for r u
    using ok that th by (intro move_ok [OF ok that th]) simp_all
  have S: "server_ok (set_thread k (Some q) (Scan 0 []) s)" if "action q = 3"
    using ok sl th by (rule move_ok) (simp_all add: that)
  show ?thesis
    using h U S login_locks reserve_locks cancel_locks logout_locks sl
    by (auto simp: handle_def split: if_splits bind_splits)
qed

lemma lock_SomeD: "lock n m k i = Some m' \<Longrightarrow> 0 \<le> i \<and> i < int n \<and> m (nat i) = None \<and> m' = m(nat i := Some k)"
  by (auto simp: lock_def get1_def set1_def split: if_splits bind_splits)

lemma set1_SomeD: "set1 n m i v = Some m' \<Longrightarrow> 0 \<le> i \<and> i < int n \<and> m' = m(nat i := v)"
  by (auto simp: set1_def split: if_splits)

lemma run_ok:
  assumes ok: "server_ok s" and r: "run k s = Some t"
  shows "server_ok t"
proof -
  obtain q ph where th: "threads s k = Some (Some q, ph)"
    using r by (auto simp: run_def split: option.splits)
  have q: "good_query q" and f: "fits q ph" and k: "3 \<le> k"
    using server_okD(2) [OF ok, of k] th by (simp_all add: thread_ok_def)
  note h = holds_at [OF th]
  note A = server_okD(3-5) [OF ok]
  have cl: "client2fd s = (\<lambda>i. int i - 3)" using ok by (rule server_okD)
  have kc: "nat (int k - 3) = k - 3" using k by simp
  have hc: "(holds_c s)(k := holds_c s k) = holds_c s" "(holds_u s)(k := holds_u s k) = holds_u s"
    "(holds_s s)(k := holds_s s k) = holds_s s" by simp_all
  show ?thesis
  proof (cases ph)
    case Receive
    then show ?thesis using r th by (simp add: run_def)
  next
    case LockC
    obtain m where t: "t = set_thread k (Some q) LockU (s\<lparr>c2u_mutex := m\<rparr>)"
      and m: "lock MAXUSER (c2u_mutex s) k (int k - 3) = Some m"
      using r th LockC by (auto simp: run_def cl get1_def split: bind_splits if_splits)
    note m = lock_SomeD [OF m]
    show ?thesis unfolding t
      by (rule moved_ok [OF ok th q]) (use LockC A h m k hc f in \<open>auto intro!: agree_take simp: kc\<close>)
  next
    case LockU
    obtain m where t: "t = set_thread k (Some q) (if takes_seat q then LockS else Body) (s\<lparr>u2c_mutex := m\<rparr>)"
      and m: "lock MAXUSER (u2c_mutex s) k (user q) = Some m"
      using r th LockU by (auto simp: run_def split: bind_splits)
    note m = lock_SomeD [OF m]
    show ?thesis unfolding t
      by (rule moved_ok [OF ok th q]) (use LockU A h m k hc f in \<open>auto intro!: agree_take\<close>)
  next
    case LockS
    obtain m where t: "t = set_thread k (Some q) Body (s\<lparr>seat_mutex := m\<rparr>)"
      and m: "lock MAXSEAT (seat_mutex s) k (qseat q) = Some m"
      using r th LockS by (auto simp: run_def split: bind_splits)
    note m = lock_SomeD [OF m]
    show ?thesis unfolding t
      by (rule moved_ok [OF ok th q]) (use LockS A h m k hc f takes_seat_action in \<open>auto intro!: agree_take\<close>)
  next
    case Body
    then show ?thesis using handle_ok [OF ok] th r by (simp add: run_def)
  next
    case (Scan i found)
    have sl: "same_locks s s" by (simp add: same_locks_def)
    show ?thesis
    proof (cases "i < MAXSEAT")
      case True
      then have t: "t = set_thread k (Some q) (Scan (i + 1) (if seat s i = user q then found @ [int i] else found)) s"
        using r th Scan by (simp add: run_def)
      show ?thesis unfolding t using ok sl th by (rule move_ok) (use Scan f True in auto)
    next
      case False
      then obtain x u where "check_done k found s = Some (x, u)" "t = set_thread k (Some q) (UnlockC x) u"
        using r th Scan by (auto simp: run_def)
      then show ?thesis using move_ok [OF ok check_done_locks th] Scan f by simp
    qed
  next
    case (UnlockC x)
    obtain m where t: "t = set_thread k (Some q) (UnlockU x) (s\<lparr>c2u_mutex := m\<rparr>)"
      and m: "set1 MAXUSER (c2u_mutex s) (int k - 3) None = Some m"
      using r th UnlockC by (auto simp: run_def cl get1_def split: bind_splits if_splits)
    note m = set1_SomeD [OF m]
    show ?thesis unfolding t
      by (rule moved_ok [OF ok th q]) (use UnlockC A h m k hc f in \<open>auto intro!: agree_drop simp: kc\<close>)
  next
    case (UnlockU x)
    obtain m where t: "t = set_thread k (Some q) (if takes_seat q then UnlockS x else Receive) (s\<lparr>u2c_mutex := m\<rparr>)"
      and m: "set1 MAXUSER (u2c_mutex s) (user q) None = Some m"
      using r th UnlockU by (auto simp: run_def split: bind_splits)
    note m = set1_SomeD [OF m]
    show ?thesis unfolding t
      by (rule moved_ok [OF ok th q]) (use UnlockU A h m k hc f in \<open>auto intro!: agree_drop\<close>)
  next
    case (UnlockS x)
    obtain m where t: "t = set_thread k (Some q) Receive (s\<lparr>seat_mutex := m\<rparr>)"
      and m: "set1 MAXSEAT (seat_mutex s) (qseat q) None = Some m"
      using r th UnlockS by (auto simp: run_def split: bind_splits)
    note m = set1_SomeD [OF m]
    show ?thesis unfolding t
      by (rule moved_ok [OF ok th q]) (use UnlockS A h m k hc f in \<open>auto intro!: agree_drop\<close>)
  qed
qed

lemma set_receive_ok:
  assumes ok: "server_ok s" and k: "3 \<le> k" "k < MAXUSER"
    and th: "threads s k = None \<or> threads s k = Some (q0, Receive)" and q: "q = None \<or> good_query (the q)"
    and ph: "ph = Receive \<or> ph = LockC \<and> q \<noteq> None \<and> fits (the q) LockC"
  shows "server_ok (set_thread k q ph s)"
proof -
  let ?t = "set_thread k q ph s"
  have "holds_c ?t = holds_c s" "holds_u ?t = holds_u s" "holds_s ?t = holds_s s"
    using th ph by (auto simp: fun_eq_iff holds_c_def holds_u_def holds_s_def set_thread_def split: option.splits)
  moreover have "thread_ok j (threads ?t j)" for j
    using server_okD(2) [OF ok, of j] k q ph by (auto simp: thread_ok_def set_thread_def split: option.splits)
  ultimately show ?thesis using ok by (simp add: server_ok_def set_thread_def)
qed

lemma close_ok:
  assumes ok: "server_ok s" and th: "threads s k = Some (q0, Receive)"
  shows "server_ok (s\<lparr>threads := (threads s)(k := None)\<rparr>)"
proof -
  let ?t = "s\<lparr>threads := (threads s)(k := None)\<rparr>"
  have "holds_c ?t = holds_c s" "holds_u ?t = holds_u s" "holds_s ?t = holds_s s"
    using th by (auto simp: fun_eq_iff holds_c_def holds_u_def holds_s_def split: option.splits)
  moreover have "thread_ok j (threads ?t j)" for j
    using server_okD(2) [OF ok, of j] by (simp add: thread_ok_def)
  ultimately show ?thesis using ok by (simp add: server_ok_def)
qed

lemma send_ok: "server_ok (send k m s) = server_ok s"
proof -
  have "holds_c (send k m s) = holds_c s" "holds_u (send k m s) = holds_u s" "holds_s (send k m s) = holds_s s"
    by (simp_all add: fun_eq_iff holds_c_def holds_u_def holds_s_def send_def)
  then show ?thesis by (simp add: server_ok_def) (simp add: send_def)
qed

lemma hand_over_ok:
  assumes ok: "server_ok s" and th: "threads s k = Some (q0, Receive)" and q: "good_query q"
  shows "server_ok (dispatch k q s)"
proof -
  have k: "3 \<le> k" "k < MAXUSER"
    using server_okD(2) [OF ok, of k] th by (auto simp: thread_ok_def split: option.splits)
  have th': "threads (send k (Reply q) s) k = Some (q0, Receive)" using th by (simp add: send_def)
  have "server_ok (send k (Reply q) s)" using ok by (simp add: send_ok)
  from close_ok [OF this th'] have "server_ok ((send k (Reply q) s)\<lparr>threads := (threads s)(k := None)\<rparr>)"
    by (simp add: send_def)
  then show ?thesis using set_receive_ok [OF ok k, of q0 "Some q"] th q by (simp add: dispatch_def)
qed

lemma step_ok:
  assumes ok: "server_ok s" and e: "good_event e" and st: "step e s = Some t"
  shows "server_ok t"
proof (cases e)
  case (Accept k)
  then show ?thesis using st set_receive_ok [OF ok, of k undefined None Receive] by (auto split: if_splits)
next
  case (Request k q)
  then show ?thesis using st e hand_over_ok [OF ok] by (auto split: option.splits phase.splits)
next
  case (Closed k)
  then obtain q where th: "threads s k = Some (Some q, Receive)" "t = dispatch k q s"
    using st by (auto split: option.splits phase.splits)
  moreover have "good_query q" using server_okD(2) [OF ok, of k] th by (simp add: thread_ok_def)
  ultimately show ?thesis using hand_over_ok [OF ok] by simp
next
  case (Run k)
  then show ?thesis using st run_ok [OF ok] by simp
qed

lemma steps_ok:
  assumes "server_ok s" "\<forall>e \<in> set es. good_event e" "steps es s = Some t"
  shows "server_ok t"
  using assms
proof (induction es arbitrary: s)
  case (Cons e es)
  then obtain u where "step e s = Some u" "steps es u = Some t" by (auto split: bind_splits)
  then show ?case using Cons.IH [of u] step_ok [of s e u] Cons.prems by simp
qed simp

text \<open>The states that the server can reach from its start.\<close>

inductive reachable :: "server \<Rightarrow> bool" where
  start: "reachable initialize"
| event: "reachable s \<Longrightarrow> good_event e \<Longrightarrow> step e s = Some t \<Longrightarrow> reachable t"

lemma reachable_ok: "reachable s \<Longrightarrow> server_ok s"
  by (induction rule: reachable.induct) (auto intro: initialize_ok step_ok)

lemma reachable_steps: "reachable s \<Longrightarrow> \<forall>e \<in> set es. good_event e \<Longrightarrow> steps es s = Some t \<Longrightarrow> reachable t"
proof (induction es arbitrary: s)
  case (Cons e es)
  then obtain u where "step e s = Some u" "steps es u = Some t" by (auto split: bind_splits)
  then show ?case using Cons.IH [of u] Cons.prems reachable.event [of s e u] by simp
qed simp

section \<open>The threads do not block each other\<close>

text \<open>A thread that is serving a request can go on unless its next mutex is taken.\<close>

fun waits :: "phase \<Rightarrow> bool" where
  "waits LockC \<longleftrightarrow> True" | "waits LockU \<longleftrightarrow> True" | "waits LockS \<longleftrightarrow> True" | "waits _ \<longleftrightarrow> False"

lemma get1_range: "0 \<le> i \<Longrightarrow> i < int n \<Longrightarrow> get1 n a i = Some (a (nat i))"
  by (simp add: get1_def)

lemma set1_range: "0 \<le> i \<Longrightarrow> i < int n \<Longrightarrow> set1 n a i v = Some (a(nat i := v))"
  by (simp add: set1_def)

lemma lock_free: "0 \<le> i \<Longrightarrow> i < int n \<Longrightarrow> m (nat i) = None \<Longrightarrow> lock n m k i = Some (m(nat i := Some k))"
  by (simp add: lock_def get1_def set1_def)

lemma handlers_return:
  assumes k: "3 \<le> k" "k < MAXUSER" and cl: "client2fd s = (\<lambda>i. int i - 3)" and u: "0 \<le> u" "u < int MAXUSER"
  shows "\<exists>r t. login k u p s = Some (r, t)" "\<exists>r t. logout k u s = Some (r, t)" "\<exists>b. refused k u n s = Some b"
    "0 \<le> n \<Longrightarrow> n < int MAXSEAT \<Longrightarrow> \<exists>r t. reserve k u n s = Some (r, t)"
    "0 \<le> n \<Longrightarrow> n < int MAXSEAT \<Longrightarrow> \<exists>r t. cancel_reservation k u n s = Some (r, t)"
  using k u
  by (simp_all add: login_def logout_def refused_def reserve_def cancel_reservation_def cl get1_range set1_range Let_def)

lemma handle_returns:
  assumes k: "3 \<le> k" "k < MAXUSER" and cl: "client2fd s = (\<lambda>i. int i - 3)" and q: "good_query q"
  shows "\<exists>t. handle k q s = Some t"
proof -
  have u: "0 \<le> user q" "user q < int MAXUSER" using q by (simp_all add: good_query_def)
  note H = handlers_return [OF k cl u]
  obtain r t where l: "login k (user q) (qseat q) s = Some (r, t)" using H(1) by blast
  obtain r' t' where o: "logout k (user q) s = Some (r', t')" using H(2) by blast
  obtain b where b: "refused k (user q) (qseat q) s = Some b" using H(3) by blast
  show ?thesis
  proof (cases "takes_seat q")
    case True
    then have n: "0 \<le> qseat q" "qseat q < int MAXSEAT" using q by (simp_all add: good_query_def)
    show ?thesis using l o b H(4) [OF n] H(5) [OF n] by (auto simp: handle_def)
  qed (use l o in \<open>simp add: handle_def takes_seat_def\<close>)
qed

text \<open>
  The loop of \<open>check_reservation\<close> overruns its array only for a user who has all seats; \<open>spare\<close>
  says that this is not so.
\<close>

definition spare :: "server \<Rightarrow> bool" where
  "spare s \<longleftrightarrow> (\<forall>k q i f. threads s k = Some (Some q, Scan i f) \<longrightarrow> length f < MAXSEAT)"

lemma can_run:
  assumes ok: "server_ok s" and sp: "spare s" and th: "threads s k = Some (Some q, ph)"
    and ph: "ph \<noteq> Receive" "\<not> waits ph"
  shows "\<exists>t. run k s = Some t"
proof -
  have T: "3 \<le> k" "k < MAXUSER" "good_query q" "fits q ph"
    using server_okD(2) [OF ok, of k] th by (simp_all add: thread_ok_def)
  have cl: "client2fd s = (\<lambda>i. int i - 3)" using ok by (rule server_okD)
  show ?thesis
  proof (cases ph)
    case Body
    then show ?thesis using handle_returns [OF T(1,2) cl T(3)] th by (simp add: run_def)
  next
    case (Scan i f)
    then have "length f < MAXSEAT" using sp th by (auto simp: spare_def)
    then show ?thesis using th Scan by (auto simp: run_def check_done_def Let_def)
  qed (use T th ph in \<open>simp_all add: run_def cl get1_range set1_range good_query_def\<close>)
qed

text \<open>A mutex that is taken is held by a thread in a later phase.\<close>

lemma holderD:
  assumes ok: "server_ok s"
  shows "c2u_mutex s c = Some k \<Longrightarrow> \<exists>q ph. threads s k = Some (Some q, ph) \<and> c_phase ph"
    "u2c_mutex s u = Some k \<Longrightarrow> \<exists>q ph. threads s k = Some (Some q, ph) \<and> u_phase ph"
    "seat_mutex s n = Some k \<Longrightarrow> \<exists>q ph. threads s k = Some (Some q, ph) \<and> s_phase ph"
  using server_okD(3-5) [OF ok]
  by (auto simp: agree_def holds_c_def holds_u_def holds_s_def split: option.splits if_splits)

lemma some_thread_runs:
  assumes ok: "server_ok s" and sp: "spare s" and busy: "threads s k = Some (Some q, ph)" "ph \<noteq> Receive"
  shows "\<exists>k t. run k s = Some t"
proof (cases "\<exists>k q ph. threads s k = Some (Some q, ph) \<and> ph \<noteq> Receive \<and> \<not> waits ph")
  case True
  then show ?thesis using can_run [OF ok sp] by blast
next
  case False
  then have w: "ph = Receive \<or> waits ph" if "threads s k = Some (Some q, ph)" for k q ph using that by blast
  have cl: "client2fd s = (\<lambda>i. int i - 3)" using ok by (rule server_okD)
  have S: "seat_mutex s n = None" for n
    using holderD(3) [OF ok, of n] w by (cases "seat_mutex s n") (fastforce elim: s_phase.elims)+
  show ?thesis
  proof (cases "\<exists>k q. threads s k = Some (Some q, LockS)")
    case True
    then obtain k q where th: "threads s k = Some (Some q, LockS)" by blast
    have "good_query q" "takes_seat q" using server_okD(2) [OF ok, of k] th by (simp_all add: thread_ok_def)
    then have "run k s \<noteq> None" using th S by (simp add: run_def lock_free good_query_def)
    then show ?thesis by blast
  next
    case noS: False
    have U: "u2c_mutex s n = None" for n
      using holderD(2) [OF ok, of n] w noS by (cases "u2c_mutex s n") (fastforce elim: u_phase.elims)+
    show ?thesis
    proof (cases "\<exists>k q. threads s k = Some (Some q, LockU)")
      case True
      then obtain k q where th: "threads s k = Some (Some q, LockU)" by blast
      have "good_query q" using server_okD(2) [OF ok, of k] th by (simp add: thread_ok_def)
      then have "run k s \<noteq> None" using th U by (simp add: run_def lock_free good_query_def)
      then show ?thesis by blast
    next
      case noU: False
      have C: "c2u_mutex s n = None" for n
        using holderD(1) [OF ok, of n] w noS noU by (cases "c2u_mutex s n") (fastforce elim: c_phase.elims)+
      have ph: "ph = LockC" using w [OF busy(1)] busy noS noU by (auto elim: waits.elims)
      have "3 \<le> k" "k < MAXUSER" using server_okD(2) [OF ok, of k] busy by (simp_all add: thread_ok_def)
      then have "run k s \<noteq> None" using busy(1) ph C by (simp add: run_def cl get1_range lock_free)
      then show ?thesis by blast
    qed
  qed
qed

text \<open>How many events a request still needs.\<close>

fun rank :: "phase \<Rightarrow> nat" where
  "rank Receive = 0" | "rank LockC = 264" | "rank LockU = 263" | "rank LockS = 262" | "rank Body = 261"
| "rank (Scan i f) = 3 + (257 - i)" | "rank (UnlockC r) = 3" | "rank (UnlockU r) = 2" | "rank (UnlockS r) = 1"

definition todo :: "(query option \<times> phase) option \<Rightarrow> nat" where
  "todo th = (case th of None \<Rightarrow> 0 | Some (q, ph) \<Rightarrow> rank ph)"

definition work :: "server \<Rightarrow> nat" where
  "work s = (\<Sum>k < MAXUSER. todo (threads s k))"

lemma handler_threads:
  "login k u p s = Some (r, t) \<Longrightarrow> threads t = threads s"
  "reserve k u n s = Some (r, t) \<Longrightarrow> threads t = threads s"
  "cancel_reservation k u n s = Some (r, t) \<Longrightarrow> threads t = threads s"
  "logout k u s = Some (r, t) \<Longrightarrow> threads t = threads s"
  "check_done k f s = Some (r, t) \<Longrightarrow> threads t = threads s"
  using login_locks reserve_locks cancel_locks logout_locks check_done_locks
  by (auto simp: same_locks_def)

lemma run_thread:
  assumes ok: "server_ok s" and r: "run k s = Some t"
  shows "\<exists>q ph ph'. threads s k = Some (Some q, ph) \<and> threads t = (threads s)(k := Some (Some q, ph')) \<and>
    rank ph' < rank ph"
proof -
  obtain q ph where th: "threads s k = Some (Some q, ph)"
    using r by (auto simp: run_def split: option.splits)
  have f: "fits q ph" using server_okD(2) [OF ok, of k] th by (simp add: thread_ok_def)
  have "\<exists>ph'. threads t = (threads s)(k := Some (Some q, ph')) \<and> rank ph' < rank ph"
  proof (cases ph)
    case Body
    then have "handle k q s = Some t" using r th by (simp add: run_def)
    then show ?thesis using Body handler_threads
      by (auto simp: handle_def set_thread_def reply_def send_def split: if_splits bind_splits)
  next
    case (Scan i found)
    then show ?thesis using r th f handler_threads(5) [of k found s]
      by (auto simp: run_def set_thread_def split: if_splits)
  qed (use r th in \<open>auto simp: run_def set_thread_def split: bind_splits if_splits\<close>)
  then show ?thesis using th by blast
qed

lemma run_work:
  assumes ok: "server_ok s" and r: "run k s = Some t"
  shows "work t < work s"
proof -
  obtain q ph ph' where th: "threads s k = Some (Some q, ph)" and t: "threads t = (threads s)(k := Some (Some q, ph'))"
    and rk: "rank ph' < rank ph"
    using run_thread [OF ok r] by blast
  have k: "k \<in> {..<MAXUSER}" using server_okD(2) [OF ok, of k] th by (simp add: thread_ok_def)
  have "\<forall>j \<in> {..<MAXUSER}. todo (threads t j) \<le> todo (threads s j)"
    using rk th by (simp add: t todo_def)
  moreover have "todo (threads t k) < todo (threads s k)" using rk th by (simp add: t todo_def)
  ultimately show ?thesis unfolding work_def using k by (intro sum_strict_mono_ex1) auto
qed

lemma runs_work:
  assumes "server_ok s" "steps (map Run ks) s = Some t"
  shows "length ks + work t \<le> work s"
  using assms
proof (induction ks arbitrary: s)
  case (Cons k ks)
  then obtain u where u: "run k s = Some u" "steps (map Run ks) u = Some t" by (auto split: bind_splits)
  have "length ks + work t \<le> work u" using Cons.IH [OF run_ok [OF Cons.prems(1) u(1)] u(2)] .
  then show ?case using run_work [OF Cons.prems(1) u(1)] by simp
qed simp

text \<open>All threads wait for a request and no mutex is taken.\<close>

definition idle :: "server \<Rightarrow> bool" where
  "idle s \<longleftrightarrow> (\<forall>k q ph. threads s k = Some (q, ph) \<longrightarrow> ph = Receive) \<and>
     c2u_mutex s = (\<lambda>_. None) \<and> u2c_mutex s = (\<lambda>_. None) \<and> seat_mutex s = (\<lambda>_. None)"

lemma stuck_idle:
  assumes ok: "server_ok s" and sp: "spare s" and st: "\<And>k. run k s = None"
  shows "idle s"
proof -
  have r: "ph = Receive" if th: "threads s k = Some (q, ph)" for k q ph
  proof (cases q)
    case None
    then show ?thesis using server_okD(2) [OF ok, of k] th by (simp add: thread_ok_def)
  next
    case (Some q')
    then show ?thesis using some_thread_runs [OF ok sp, of k q' ph] th st by auto
  qed
  have "c2u_mutex s n = None" for n
    using holderD(1) [OF ok, of n] r by (cases "c2u_mutex s n") fastforce+
  moreover have "u2c_mutex s n = None" for n
    using holderD(2) [OF ok, of n] r by (cases "u2c_mutex s n") fastforce+
  moreover have "seat_mutex s n = None" for n
    using holderD(3) [OF ok, of n] r by (cases "seat_mutex s n") fastforce+
  ultimately show ?thesis using r by (auto simp: idle_def)
qed

section \<open>Seats and sessions\<close>

text \<open>The user \<open>u\<close> is logged in at the client of thread \<open>k\<close>, in both tables.\<close>

definition logged_in :: "server \<Rightarrow> nat \<Rightarrow> int \<Rightarrow> bool" where
  "logged_in s k u \<longleftrightarrow> client2user s (k - 3) = u \<and> user2client s (nat u) = int (k - 3)"

lemma login_seat: "login k u p s = Some (r, t) \<Longrightarrow> seat t = seat s"
  by (auto simp: login_def reply_def send_def split: bind_splits if_splits)

lemma logout_seat: "logout k u s = Some (r, t) \<Longrightarrow> seat t = seat s"
  by (auto simp: logout_def reply_def send_def split: bind_splits if_splits)

lemma refusedD:
  assumes "client2fd s = (\<lambda>i. int i - 3)" "3 \<le> k" "refused k u n s = Some False"
  shows "logged_in s k u" "0 \<le> n" "n \<le> 255"
  using assms by (auto simp: refused_def logged_in_def get1_def of_nat_diff nat_diff_distrib split: if_splits)

lemma reserve_seat:
  assumes "client2fd s = (\<lambda>i. int i - 3)" "3 \<le> k" "reserve k u n s = Some (r, t)" "seat t m \<noteq> seat s m"
  shows "m = nat n \<and> seat s m = -1 \<and> seat t m = u \<and> logged_in s k u"
  using assms refusedD [OF assms(1,2)]
  by (auto simp: reserve_def reply_def send_def get1_def set1_def split: bind_splits if_splits)

lemma cancel_seat:
  assumes "client2fd s = (\<lambda>i. int i - 3)" "3 \<le> k" "cancel_reservation k u n s = Some (r, t)" "seat t m \<noteq> seat s m"
  shows "m = nat n \<and> seat s m = u \<and> seat t m = -1 \<and> logged_in s k u"
  using assms refusedD [OF assms(1,2)]
  by (auto simp: cancel_reservation_def reply_def send_def get1_def set1_def split: bind_splits if_splits)

lemma run_seat:
  assumes ok: "server_ok s" and r: "run k s = Some t" and d: "seat t m \<noteq> seat s m"
  shows "\<exists>q. threads s k = Some (Some q, Body) \<and> nat (qseat q) = m \<and> logged_in s k (user q) \<and>
    (action q = 2 \<and> seat s m = -1 \<and> seat t m = user q \<or> action q = 4 \<and> seat s m = user q \<and> seat t m = -1)"
proof -
  obtain q ph where th: "threads s k = Some (Some q, ph)"
    using r by (auto simp: run_def split: option.splits)
  have k: "3 \<le> k" using server_okD(2) [OF ok, of k] th by (simp add: thread_ok_def)
  note cl = server_okD(1) [OF ok]
  have "ph = Body"
  proof (rule ccontr)
    assume "ph \<noteq> Body"
    then have "seat t = seat s" using r th
      by (cases ph) (auto simp: run_def set_thread_def check_done_def Let_def reply_def send_def
        split: bind_splits if_splits)
    with d show False by simp
  qed
  then have h: "handle k q s = Some t" using r th by (simp add: run_def)
  have "action q = 2 \<or> action q = 4"
    using h d login_seat logout_seat
    by (auto simp: handle_def set_thread_def reply_def send_def split: if_splits bind_splits)
  then show ?thesis using h d th \<open>ph = Body\<close> reserve_seat [OF cl k] cancel_seat [OF cl k]
    by (auto simp: handle_def set_thread_def)
qed

lemma step_seat:
  assumes ok: "server_ok s" and st: "step e s = Some t" and d: "seat t m \<noteq> seat s m"
  shows "\<exists>k q. e = Run k \<and> threads s k = Some (Some q, Body) \<and> nat (qseat q) = m \<and> logged_in s k (user q) \<and>
    (action q = 2 \<and> seat s m = -1 \<and> seat t m = user q \<or> action q = 4 \<and> seat s m = user q \<and> seat t m = -1)"
proof (cases e)
  case (Run k)
  then show ?thesis using run_seat [OF ok, of k t m] st d by simp
qed (use st d in \<open>auto simp: dispatch_def set_thread_def send_def split: if_splits option.splits phase.splits\<close>)

lemma seat_lost:
  assumes "server_ok s" "\<forall>e \<in> set es. good_event e" "steps es s = Some t"
    and "seat s m = u" "u \<noteq> -1" "seat t m \<noteq> u"
  shows "\<exists>es1 k es2 v q. es = es1 @ Run k # es2 \<and> steps es1 s = Some v \<and> threads v k = Some (Some q, Body) \<and>
    action q = 4 \<and> user q = u \<and> nat (qseat q) = m \<and> logged_in v k u"
  using assms
proof (induction es arbitrary: s)
  case (Cons e es)
  then obtain v where v: "step e s = Some v" "steps es v = Some t" by (auto split: bind_splits)
  show ?case
  proof (cases "seat v m = u")
    case True
    have "server_ok v" using step_ok [OF Cons.prems(1) _ v(1)] Cons.prems(2) by simp
    then obtain es1 k es2 w q where "es = es1 @ Run k # es2 \<and> steps es1 v = Some w \<and>
        threads w k = Some (Some q, Body) \<and> action q = 4 \<and> user q = u \<and> nat (qseat q) = m \<and> logged_in w k u"
      using Cons.IH [of v] Cons.prems v True by auto
    then show ?thesis using v(1) by (intro exI [of _ "e # es1"] exI [of _ k] exI [of _ es2] exI [of _ w] exI [of _ q]) simp
  next
    case False
    then obtain k q where "e = Run k" "threads s k = Some (Some q, Body)" "nat (qseat q) = m" "logged_in s k (user q)"
      "action q = 4" "user q = u"
      using step_seat [OF Cons.prems(1) v(1), of m] Cons.prems(4,5) by auto
    then show ?thesis
      by (intro exI [of _ "[]"] exI [of _ k] exI [of _ es] exI [of _ s] exI [of _ q]) simp
  qed
qed simp

text \<open>The two tables of sessions are inverse to each other.\<close>

definition inverse_tables :: "(nat \<Rightarrow> int) \<Rightarrow> (nat \<Rightarrow> int) \<Rightarrow> bool" where
  "inverse_tables f g \<longleftrightarrow>
     (\<forall>c. f c \<noteq> -1 \<longrightarrow> 0 \<le> f c \<and> g (nat (f c)) = int c) \<and> (\<forall>u. g u \<noteq> -1 \<longrightarrow> 0 \<le> g u \<and> f (nat (g u)) = int u)"

definition paired :: "server \<Rightarrow> bool" where
  "paired s \<longleftrightarrow> inverse_tables (client2user s) (user2client s)"

lemma inverse_tablesD:
  assumes "inverse_tables f g"
  shows "f c \<noteq> -1 \<Longrightarrow> 0 \<le> f c" "f c \<noteq> -1 \<Longrightarrow> g (nat (f c)) = int c"
    "g u \<noteq> -1 \<Longrightarrow> 0 \<le> g u" "g u \<noteq> -1 \<Longrightarrow> f (nat (g u)) = int u"
  using assms by (simp_all add: inverse_tables_def)

lemma inverse_add:
  assumes i: "inverse_tables f g" and e: "f c = -1" "g u = -1"
  shows "inverse_tables (f(c := int u)) (g(u := int c))"
proof -
  have "nat (f d) \<noteq> u" if "f d \<noteq> -1" for d using inverse_tablesD(2) [OF i that] e(2) by auto
  moreover have "nat (g v) \<noteq> c" if "g v \<noteq> -1" for v using inverse_tablesD(4) [OF i that] e(1) by auto
  ultimately show ?thesis using inverse_tablesD [OF i] by (simp add: inverse_tables_def) blast
qed

lemma inverse_remove:
  assumes i: "inverse_tables f g" and e: "f c = int u" "g u = int c"
  shows "inverse_tables (f(c := -1)) (g(u := -1))"
proof -
  have "nat (f d) \<noteq> u" if "f d \<noteq> -1" "d \<noteq> c" for d using inverse_tablesD(2) [OF i that(1)] e(2) that(2) by auto
  moreover have "nat (g v) \<noteq> c" if "g v \<noteq> -1" "v \<noteq> u" for v using inverse_tablesD(4) [OF i that(1)] e(1) that(2) by auto
  ultimately show ?thesis using inverse_tablesD [OF i] by (simp add: inverse_tables_def) blast
qed

text \<open>The event is not the logout of a user from the client of another.\<close>

fun own_logout :: "event \<Rightarrow> server \<Rightarrow> bool" where
  "own_logout (Run k) s \<longleftrightarrow> (case threads s k of
     Some (Some q, Body) \<Rightarrow> action q = 5 \<longrightarrow> client2user s (k - 3) = user q | _ \<Rightarrow> True)"
| "own_logout _ s \<longleftrightarrow> True"

lemma login_tables:
  assumes "client2fd s = (\<lambda>i. int i - 3)" "3 \<le> k" "login k u pw s = Some (r, t)"
  shows "client2user t = client2user s \<and> user2client t = user2client s \<or>
    0 \<le> u \<and> client2user s (k - 3) = -1 \<and> user2client s (nat u) = -1 \<and>
    client2user t = (client2user s)(k - 3 := u) \<and> user2client t = (user2client s)(nat u := int (k - 3))"
proof -
  have "nat (int k - 3) = k - 3" "int (k - 3) = int k - 3" using assms(2) by simp_all
  then show ?thesis using assms
    by (auto simp: login_def get1_def set1_def reply_def send_def split: bind_splits if_splits)
qed

lemma logout_tables:
  assumes "client2fd s = (\<lambda>i. int i - 3)" "3 \<le> k" "logout k u s = Some (r, t)"
  shows "client2user t = client2user s \<and> user2client t = user2client s \<or>
    0 \<le> u \<and> client2user s (k - 3) \<noteq> -1 \<and> user2client s (nat u) \<noteq> -1 \<and>
    client2user t = (client2user s)(k - 3 := -1) \<and> user2client t = (user2client s)(nat u := -1)"
proof -
  have "nat (int k - 3) = k - 3" using assms(2) by simp
  then show ?thesis using assms
    by (auto simp: logout_def get1_def set1_def reply_def send_def split: bind_splits if_splits)
qed

lemma login_paired:
  assumes p: "paired s" and cl: "client2fd s = (\<lambda>i. int i - 3)" and k: "3 \<le> k"
    and l: "login k u pw s = Some (r, t)"
  shows "paired t"
  using login_tables [OF cl k l]
proof (elim disjE conjE)
  assume "0 \<le> u" "client2user s (k - 3) = -1" "user2client s (nat u) = -1"
    "client2user t = (client2user s)(k - 3 := u)" "user2client t = (user2client s)(nat u := int (k - 3))"
  then show ?thesis using inverse_add [of "client2user s" "user2client s" "k - 3" "nat u"] p
    by (simp add: paired_def)
qed (use p in \<open>simp add: paired_def\<close>)

lemma logout_paired:
  assumes p: "paired s" and cl: "client2fd s = (\<lambda>i. int i - 3)" and k: "3 \<le> k"
    and own: "client2user s (k - 3) = u" and l: "logout k u s = Some (r, t)"
  shows "paired t"
  using logout_tables [OF cl k l]
proof (elim disjE conjE)
  assume T: "0 \<le> u" "client2user s (k - 3) \<noteq> -1"
    "client2user t = (client2user s)(k - 3 := -1)" "user2client t = (user2client s)(nat u := -1)"
  have i: "inverse_tables (client2user s) (user2client s)" using p by (simp add: paired_def)
  have "user2client s (nat u) = int (k - 3)" using inverse_tablesD(2) [OF i T(2)] own by simp
  then show ?thesis using inverse_remove [OF i, of "k - 3" "nat u"] T own by (simp add: paired_def)
qed (use p in \<open>simp add: paired_def\<close>)

lemma seat_handlers_tables:
  "reserve k u n s = Some (r, t) \<Longrightarrow> client2user t = client2user s \<and> user2client t = user2client s"
  "cancel_reservation k u n s = Some (r, t) \<Longrightarrow> client2user t = client2user s \<and> user2client t = user2client s"
  by (auto simp: reserve_def cancel_reservation_def reply_def send_def split: bind_splits if_splits)

lemma run_paired:
  assumes ok: "server_ok s" and p: "paired s" and own: "own_logout (Run k) s" and r: "run k s = Some t"
  shows "paired t"
proof -
  obtain q ph where th: "threads s k = Some (Some q, ph)"
    using r by (auto simp: run_def split: option.splits)
  have k: "3 \<le> k" using server_okD(2) [OF ok, of k] th by (simp add: thread_ok_def)
  note cl = server_okD(1) [OF ok]
  have pc: "paired t" if "client2user t = client2user s \<and> user2client t = user2client s" for t
    using that p by (simp add: paired_def)
  have ps: "paired (set_thread k x ph' u) = paired u" for x ph' u by (simp add: paired_def set_thread_def)
  have pr: "paired (s\<lparr>sent := x\<rparr>)" for x using p by (simp add: paired_def)
  show ?thesis
  proof (cases ph)
    case Body
    then have h: "handle k q s = Some t" using r th by (simp add: run_def)
    have act: "1 \<le> action q" "action q \<le> 5" using server_okD(2) [OF ok, of k] th Body by (simp_all add: thread_ok_def)
    consider "action q = 1" | "action q = 2" | "action q = 3" | "action q = 4" | "action q = 5" using act by linarith
    then show ?thesis
    proof cases
      case 1
      then show ?thesis using h login_paired [OF p cl k] by (auto simp: handle_def ps)
    next
      case 2
      then show ?thesis using h by (auto simp: handle_def ps dest!: seat_handlers_tables(1) intro: pc)
    next
      case 3
      then show ?thesis using h by (auto simp: handle_def ps pr p reply_def send_def split: bind_splits if_splits)
    next
      case 4
      then show ?thesis using h by (auto simp: handle_def ps dest!: seat_handlers_tables(2) intro: pc)
    next
      case 5
      then have "client2user s (k - 3) = user q" using own th Body by simp
      then show ?thesis using h 5 logout_paired [OF p cl k] by (auto simp: handle_def ps)
    qed
  qed (use r th in \<open>auto simp: run_def set_thread_def check_done_def Let_def reply_def send_def
      split: bind_splits if_splits intro!: pc\<close>)
qed

lemma step_paired:
  assumes ok: "server_ok s" and p: "paired s" and own: "own_logout e s" and st: "step e s = Some t"
  shows "paired t"
proof (cases e)
  case (Run k)
  then show ?thesis using run_paired [OF ok p, of k t] own st by simp
qed (use p st in \<open>auto simp: paired_def dispatch_def set_thread_def send_def
    split: if_splits option.splits phase.splits\<close>)

text \<open>A run in which nobody logs another out.\<close>

fun own_logouts :: "event list \<Rightarrow> server \<Rightarrow> bool" where
  "own_logouts [] s \<longleftrightarrow> True"
| "own_logouts (e # es) s \<longleftrightarrow> own_logout e s \<and> (case step e s of None \<Rightarrow> True | Some t \<Rightarrow> own_logouts es t)"

lemma steps_paired:
  assumes "server_ok s" "paired s" "\<forall>e \<in> set es. good_event e" "own_logouts es s" "steps es s = Some t"
  shows "paired t"
  using assms
proof (induction es arbitrary: s)
  case (Cons e es)
  then obtain v where v: "step e s = Some v" "steps es v = Some t" by (auto split: bind_splits)
  show ?case
  proof (rule Cons.IH [OF _ _ _ _ v(2)])
    show "server_ok v" using step_ok [OF Cons.prems(1) _ v(1)] Cons.prems(3) by simp
    show "paired v" using step_paired [OF Cons.prems(1,2) _ v(1)] Cons.prems(4) by simp
  qed (use Cons.prems v(1) in simp_all)
qed simp

section \<open>Properties\<close>

definition the_query :: "int \<Rightarrow> int \<Rightarrow> int \<Rightarrow> query" where
  "the_query u a n = \<lparr>user = u, action = a, qseat = n\<rparr>"

text \<open>
  C28. Two threads are never at the same time between taking and giving back the mutex of the same
  user, or of the same seat, in any reachable state.
\<close>

theorem mutual_exclusion:
  assumes "reachable s" "threads s j = Some (Some p, ph)" "threads s k = Some (Some q, ph')" "j \<noteq> k"
  shows "(u_phase ph \<and> u_phase ph' \<longrightarrow> user p \<noteq> user q) \<and>
    (s_phase ph \<and> s_phase ph' \<and> takes_seat p \<and> takes_seat q \<longrightarrow> qseat p \<noteq> qseat q)"
proof -
  have ok: "server_ok s" using assms(1) by (rule reachable_ok)
  note J = holds_at [OF assms(2)] and K = holds_at [OF assms(3)]
  have "\<not> (holds_u s j = Some n \<and> holds_u s k = Some n)" "\<not> (holds_s s j = Some n \<and> holds_s s k = Some n)" for n
    using server_okD(4,5) [OF ok] assms(4) unfolding agree_def by (metis option.inject)+
  then show ?thesis using J K by metis
qed

text \<open>Two clients, on the sockets 4 and 5, log in: the first is past its mutexes, the second waits.\<close>

definition two_logins :: "event list" where
  "two_logins = [Accept 4, Accept 5, Request 4 (the_query 7 1 99), Request 5 (the_query 8 1 98),
     Run 4, Run 4, Run 5, Run 5]"

lemma mutual_exclusion_witness:
  "\<exists>s. reachable s \<and> map_option snd (threads s 4) = Some Body \<and> map_option snd (threads s 5) = Some Body \<and>
    user (the (fst (the (threads s 4)))) \<noteq> user (the (fst (the (threads s 5))))"
proof -
  have c: "map_option (\<lambda>s. (threads s 4, threads s 5)) (steps two_logins initialize) =
      Some (Some (Some (the_query 7 1 99), Body), Some (Some (the_query 8 1 98), Body))"
    by code_simp
  then obtain s where s: "steps two_logins initialize = Some s" "threads s 4 = Some (Some (the_query 7 1 99), Body)"
    "threads s 5 = Some (Some (the_query 8 1 98), Body)" by auto
  have "reachable s"
    using reachable_steps [OF reachable.start _ s(1)] by (simp add: two_logins_def good_query_def the_query_def takes_seat_def)
  with mutual_exclusion [OF this s(2,3)] s(2,3) show ?thesis by auto
qed

text \<open>
  C27. Every request is answered. From a reachable state, without further requests, each schedule
  of the threads has at most \<open>work s\<close> steps, and where no thread can go on all threads wait for a
  request and all mutexes are free: there is no deadlock. (A user that \<open>check_reservation\<close> finds
  on all 256 seats is excluded: its array has no room for the number after the last.)
\<close>

theorem requests_end:
  assumes "reachable s" "steps (map Run ks) s = Some t"
  shows "length ks \<le> work s \<and> ((\<forall>k. run k t = None) \<and> spare t \<longrightarrow> idle t)"
proof -
  have ok: "server_ok s" using assms(1) by (rule reachable_ok)
  have "server_ok t" using ok _ assms(2) by (rule steps_ok) auto
  then show ?thesis using runs_work [OF ok assms(2)] stuck_idle by auto
qed

lemma requests_end_witness:
  "\<exists>s t. steps two_logins initialize = Some s \<and> steps (map Run [5, 4, 4, 5, 5, 4]) s = Some t \<and>
    6 \<le> work s \<and> sent t = [(5, Reply (the_query 1 1 1)), (4, Reply (the_query 1 1 1))]"
proof -
  have "map_option (\<lambda>s. map_option sent (steps (map Run [5, 4, 4, 5, 5, 4]) s)) (steps two_logins initialize) =
      Some (Some [(5, Reply (the_query 1 1 1)), (4, Reply (the_query 1 1 1))])"
    by code_simp
  then obtain s t where s: "steps two_logins initialize = Some s" and t: "steps (map Run [5, 4, 4, 5, 5, 4]) s = Some t"
    "sent t = [(5, Reply (the_query 1 1 1)), (4, Reply (the_query 1 1 1))]" by auto
  have "reachable s"
    using reachable_steps [OF reachable.start _ s] by (simp add: two_logins_def good_query_def the_query_def takes_seat_def)
  from requests_end [OF this t(1)] show ?thesis using s t by auto
qed

text \<open>
  C29. A reserved seat is lost only through a cancellation: if the seat \<open>m\<close> belongs to the user \<open>u\<close>
  and later, whatever the clients ask and however the threads are scheduled, it does not, then in
  between a thread has served a request of \<open>u\<close> to cancel that seat from a client where \<open>u\<close> was
  logged in.
\<close>

theorem seat_needs_cancel:
  assumes "reachable s" "\<forall>e \<in> set es. good_event e" "steps es s = Some t"
    and "seat s m = u" "u \<noteq> -1" "seat t m \<noteq> u"
  shows "\<exists>es1 k es2 v q. es = es1 @ Run k # es2 \<and> steps es1 s = Some v \<and> threads v k = Some (Some q, Body) \<and>
    action q = 4 \<and> user q = u \<and> nat (qseat q) = m \<and> logged_in v k u"
  using reachable_ok [OF assms(1)] assms(2-) by (rule seat_lost)

definition reserve_run :: "event list" where
  "reserve_run = [Accept 4, Request 4 (the_query 7 1 99)] @ replicate 5 (Run 4) @
     [Request 4 (the_query 7 2 3)] @ replicate 7 (Run 4)"

definition cancel_run :: "event list" where
  "cancel_run = Request 4 (the_query 7 4 3) # replicate 7 (Run 4)"

lemma seat_needs_cancel_witness:
  "\<exists>s t. steps reserve_run initialize = Some s \<and> steps cancel_run s = Some t \<and> seat s 3 = 7 \<and> seat t 3 = -1 \<and>
    (\<exists>es1 k es2 v q. cancel_run = es1 @ Run k # es2 \<and> steps es1 s = Some v \<and>
      threads v k = Some (Some q, Body) \<and> action q = 4 \<and> user q = 7 \<and> nat (qseat q) = 3 \<and> logged_in v k 7)"
proof -
  have "map_option (\<lambda>s. (seat s 3, map_option (\<lambda>t. seat t 3) (steps cancel_run s))) (steps reserve_run initialize) =
      Some (7, Some (-1))"
    by code_simp
  then obtain s t where s: "steps reserve_run initialize = Some s" "seat s 3 = 7"
    and t: "steps cancel_run s = Some t" "seat t 3 = -1" by auto
  have "reachable s"
    using reachable_steps [OF reachable.start _ s(1)] by (simp add: reserve_run_def good_query_def the_query_def takes_seat_def)
  moreover have "\<forall>e \<in> set cancel_run. good_event e"
    by (simp add: cancel_run_def good_query_def the_query_def takes_seat_def)
  ultimately show ?thesis using seat_needs_cancel [of s cancel_run t 3 7] s t by auto
qed

text \<open>
  C30. As long as nobody logs out another user, the table of the users at the clients and the table
  of the clients of the users stay inverse to each other: a user is logged in at one client at
  most, and a client has one user at most.
\<close>

theorem sessions_paired:
  assumes "\<forall>e \<in> set es. good_event e" "own_logouts es initialize" "steps es initialize = Some t"
  shows "paired t"
proof (rule steps_paired [OF initialize_ok _ assms])
  show "paired initialize" by (simp add: paired_def inverse_tables_def initialize_def)
qed

lemma sessions_paired_witness:
  "\<exists>t. steps reserve_run initialize = Some t \<and> paired t \<and> client2user t 1 = 7"
proof -
  have "own_logouts reserve_run initialize \<and>
      map_option (\<lambda>t. client2user t 1) (steps reserve_run initialize) = Some 7"
    by code_simp
  then obtain t where t: "steps reserve_run initialize = Some t" "client2user t 1 = 7" "own_logouts reserve_run initialize"
    by auto
  moreover have "\<forall>e \<in> set reserve_run. good_event e"
    by (simp add: reserve_run_def good_query_def the_query_def takes_seat_def)
  ultimately show ?thesis using sessions_paired [of reserve_run t] by blast
qed

text \<open>
  C31. A client can log out the user of another client, and then nothing fits: its own user stays
  marked as logged in and cannot log in anywhere, while the other user, who is told nothing, is
  refused every seat at its client.
\<close>

theorem logout_of_another:
  assumes cl: "client2fd s = (\<lambda>i. int i - 3)" and j: "3 \<le> j" "j < MAXUSER" and k: "3 \<le> k" "k < MAXUSER" "j \<noteq> k"
    and u: "0 \<le> u" "u < int MAXUSER" "logged_in s j u" and v: "0 \<le> v" "v < int MAXUSER" "logged_in s k v" "u \<noteq> v"
  shows "\<exists>t. logout j v s = Some (1, t) \<and> client2user t (j - 3) = -1 \<and> client2user t (k - 3) = v \<and>
    (\<forall>i p. 3 \<le> i \<and> i < MAXUSER \<longrightarrow> map_option fst (login i u p t) = Some (-1)) \<and>
    (\<forall>n. map_option fst (reserve k v n t) = Some (-1))"
proof -
  have jk: "nat (int j - 3) = j - 3" "nat (int k - 3) = k - 3" "j - 3 \<noteq> k - 3" using j k by simp_all
  have uv: "nat u \<noteq> nat v" using u v by simp
  define t where "t = reply j 5 1 (s\<lparr>client2user := (client2user s)(j - 3 := -1),
    user2client := (user2client s)(nat v := -1)\<rparr>)"
  have l: "logout j v s = Some (1, t)"
    using cl j u v jk by (simp add: logout_def get1_range set1_range logged_in_def t_def Let_def)
  have f: "client2fd t = (\<lambda>i. int i - 3)" "client2user t = (client2user s)(j - 3 := -1)"
    "user2client t = (user2client s)(nat v := -1)"
    by (simp_all add: t_def reply_def send_def cl)
  have "map_option fst (login i u p t) = Some (-1)" if i: "3 \<le> i" "i < MAXUSER" for i p
    using i u uv by (simp add: login_def f get1_range set1_range logged_in_def Let_def)
  moreover have "map_option fst (reserve k v n t) = Some (-1)" for n
    using k v jk by (simp add: reserve_def refused_def f get1_range)
  moreover have "client2user t (j - 3) = -1" "client2user t (k - 3) = v" using jk v by (simp_all add: f logged_in_def)
  ultimately show ?thesis using l by blast
qed

lemma logout_of_another_witness:
  "\<exists>s t. steps (two_logins @ [Run 4, Run 5]) initialize = Some s \<and> logout 4 8 s = Some (1, t) \<and>
    client2user t 2 = 8 \<and> map_option fst (login 5 7 99 t) = Some (-1) \<and>
    map_option fst (reserve 5 8 3 t) = Some (-1)"
proof -
  have "map_option (\<lambda>s. (client2user s 1, user2client s 7, client2user s 2, user2client s 8))
      (steps (two_logins @ [Run 4, Run 5]) initialize) = Some (7, 1, 8, 2)"
    by code_simp
  then obtain s where s: "steps (two_logins @ [Run 4, Run 5]) initialize = Some s"
    "client2user s 1 = 7" "user2client s 7 = 1" "client2user s 2 = 8" "user2client s 8 = 2" by auto
  have "\<forall>e \<in> set (two_logins @ [Run 4, Run 5]). good_event e"
    by (simp add: two_logins_def good_query_def the_query_def takes_seat_def)
  from server_okD(1) [OF steps_ok [OF initialize_ok this s(1)]]
  have "client2fd s = (\<lambda>i. int i - 3)" .
  from logout_of_another [OF this, of 4 5 7 8] s show ?thesis by (auto simp: logged_in_def)
qed

text \<open>
  A session outlives its client. When a client leaves without logging out, the next one that
  gets the same socket is logged in as the same user from the start: its first request, without
  a login, reserves a seat for that user.
\<close>

theorem session_inherited:
  assumes ok: "server_ok s" and id: "idle s" and k: "threads s k = Some (q0, Receive)"
    and u: "0 \<le> u" "u < int MAXUSER" "logged_in s k u" and n: "n < MAXSEAT" "seat s n = -1"
  shows "\<exists>t. steps ([Request k (the_query 0 0 0), Accept k, Request k (the_query u 2 (int n))] @ replicate 7 (Run k)) s =
      Some t \<and> seat t n = u \<and> last (sent t) = (k, Reply (the_query (int n) 2 (int n)))"
proof -
  have kk: "3 \<le> k" "k < MAXUSER"
    using server_okD(2) [OF ok, of k] k by (auto simp: thread_ok_def split: option.splits)
  have cl: "client2fd s = (\<lambda>i. int i - 3)" using ok by (rule server_okD)
  have c: "nat (int k - 3) = k - 3" "int (k - 3) = int k - 3" using kk by simp_all
  have m: "c2u_mutex s = (\<lambda>_. None)" "u2c_mutex s = (\<lambda>_. None)" "seat_mutex s = (\<lambda>_. None)"
    using id by (simp_all add: idle_def)
  have l: "client2user s (k - 3) = u" "user2client s (nat u) = int k - 3" using u c by (simp_all add: logged_in_def)
  show ?thesis
    using k kk u(1,2) n l
    by (simp add: numeral_eq_Suc dispatch_def the_query_def set_thread_def send_def run_def cl get1_range set1_range
        lock_free m c takes_seat_def handle_def reserve_def refused_def reply_def)
qed

text \<open>The server after the user 7 has logged in from the socket 4.\<close>

definition one_session :: server where
  "one_session = initialize\<lparr>client2user := (\<lambda>_. -1)(1 := 7), user2client := (\<lambda>_. -1)(7 := 1),
     password := (\<lambda>_. -1)(7 := 99), threads := (\<lambda>_. None)(4 := Some (Some (the_query 7 1 99), Receive)),
     sent := [(4, Reply (the_query 1 1 1))]\<rparr>"

lemma session_inherited_witness:
  "\<exists>t. steps ([Request 4 (the_query 0 0 0), Accept 4, Request 4 (the_query 7 2 3)] @ replicate 7 (Run 4)) one_session =
      Some t \<and> seat t 3 = 7"
proof -
  have "holds_c one_session = (\<lambda>_. None)" "holds_u one_session = (\<lambda>_. None)" "holds_s one_session = (\<lambda>_. None)"
    by (auto simp: fun_eq_iff holds_c_def holds_u_def holds_s_def one_session_def)
  moreover have "thread_ok k (threads one_session k)" for k
    by (simp add: thread_ok_def one_session_def good_query_def the_query_def takes_seat_def)
  ultimately have "server_ok one_session"
    by (simp add: server_ok_def agree_def) (simp add: one_session_def initialize_def)
  moreover have "idle one_session" "threads one_session 4 = Some (Some (the_query 7 1 99), Receive)"
    "logged_in one_session 4 7" "seat one_session 3 = -1"
    by (auto simp: idle_def one_session_def initialize_def logged_in_def split: if_splits)
  ultimately show ?thesis using session_inherited [of one_session 4 "Some (the_query 7 1 99)" 7 3] by auto
qed

end
