(* ===== verification/Spec2Isabelle.thy ===== *)
theory Spec2Isabelle
  imports Prelude Bytes Nand Ftl FtlGc FtlIo FtlSpec Lab1Nand Sfp Lru Zns ZnsLog BufFtl Cfs Dftl DftlMap DftlSpec VmSpec Mmap MmapPages MmapRegions MmapSpec FsSpec FsDir Bio Log LogLoops LogSpec LogCrash SeatsSpec
begin

text \<open>
  The C programs of this repository that carry logic of their own are course projects of three
  kinds: layers of a simulated flash drive, parts of the teaching kernel xv6, and a few
  programs for one machine (a floating point format, a reservation server). Each is modelled as
  it is written: a record for its globals, one function for each C function with every branch and
  early return, words where the code has \<open>unsigned\<close>, and the value \<open>None\<close> where the C program has no
  result (a failed \<open>assert\<close>, a panic, an access outside an array, an undefined shift or signed
  overflow, a wait for a lock the caller itself holds). So a theorem that a call is \<open>Some\<close>
  also says that the code runs into none of these. Only counters that grow with every request are
  unbounded where the code has \<open>int\<close>: the statistics of the flash layers (\<open>ftl_stats\<close>), and the ages and
  erase counts of \<open>BufFtl\<close>. No address and no data depend on the first, and with the greedy policy
  none on the others; what C2 says of the counter holds in C until it reaches its limit.

  Parts, and the theories that model them (paths under \<open>src/\<close>):

  \<^item> Flash simulators. \<open>Nand\<close>: \<open>3-2/EmbeddedSul/HW2/HW2_Submit/nand.c\<close>; \<open>Lab1Nand\<close>: \<open>HW1/nand.c\<close>. Both are
    programmed page by page within a block and provide the locale \<open>flash_log\<close> of \<open>Prelude\<close>, the
    first also \<open>flash\<close>, whose erase frees one block. Every layer below is a client.
  \<^item> The page-mapping layer, \<open>HW2_Submit/ftl.c\<close>. \<open>Ftl\<close> has the state (\<open>L2P\<close>, page states, free blocks)
    and the functions of one page write with garbage collection; \<open>FtlGc\<close> shows that they keep the
    invariant \<open>ftl_ok\<close>, that a collection always frees a page and moves no data from the
    reader's point of view; \<open>FtlIo\<close> has \<open>ftl_read\<close> and \<open>ftl_write\<close> with the split of a request into pages;
    \<open>FtlSpec\<close> shows that the drive is an array of sectors.
  \<^item> The buffered layer, \<open>HW3/2300_submit/ftl.c\<close>: \<open>BufFtl\<close>, on top of \<open>FtlSpec\<close>; with the greedy policy its
    page write is the one of \<open>Ftl\<close>.
  \<^item> The demand-based layer, \<open>PRJ1/workspace/ftl.c\<close>, where the mapping table lies on flash itself and is
    cached. \<open>Dftl\<close> is the program, \<open>DftlMap\<close> shows that its caches and map pages together are one table,
    \<open>DftlSpec\<close> states this for all banks and all histories.
  \<^item> The zoned device, \<open>HW5/20211030_submit/zns.c\<close>: \<open>Zns\<close> (with its queues of free block groups, locale
    \<open>fifo\<close>), and \<open>ZnsLog\<close>, where a zone is an append-only list of sectors.
  \<^item> xv6, project 2, \<open>3-1/OS/xv6-sse-local/proc.c\<close> and \<open>trap.c\<close>: \<open>Cfs\<close>, the process table, the fair scheduler
    and the timer.
  \<^item> xv6, project 3, \<open>3-1/OS/PRJ3/xv6-sse-local\<close>. \<open>Vm\<close> is its virtual memory, \<open>vm.c\<close> over the free list of
    \<open>kalloc.c\<close>, in a memory that is one array of bytes. \<open>VmMap\<close> gives every frame a use (free, directory,
    table, page) and shows that the two-level tables are a map from pages to entries; \<open>VmSpace\<close> has
    the growth and shrinking of a space, \<open>VmCopy\<close> the kernel's map, copying and destruction, \<open>VmSpec\<close>
    the promises of the operations. \<open>Mmap\<close>, over \<open>Vm\<close>, has the mapping of files: \<open>mmap\<close>, \<open>munmap\<close>,
    \<open>growproc\<close> and the regions in \<open>exit\<close> of \<open>proc.c\<close>, the page faults of \<open>trap.c\<close>. \<open>MmapPages\<close> shows what
    the pages hold that it enters, \<open>MmapRegions\<close> has the table of regions as a state machine, and
    \<open>MmapSpec\<close> states what mappings do and what they do not.
  \<^item> xv6, project 4, \<open>3-1/OS/PRJ4/xv6\<close>: \<open>Lru\<close>, the page allocator of \<open>kalloc.c\<close> that evicts pages to disk, with
    \<open>walkpgdir\<close> and \<open>swapwrite\<close>.
  \<^item> xv6, project 5, \<open>3-1/OS/PRJ5/xv6-sse-local/fs.c\<close>: \<open>Fs\<close> is the file system. \<open>FsMap\<close> has words in blocks and the
    block allocator, \<open>FsFile\<close> the tree of pointers of an inode and the file as bytes, \<open>FsBmap\<close> the
    allocation of blocks (\<open>bmap\<close>, \<open>bmap2\<close>), \<open>FsNode\<close> inodes on disk, \<open>FsRw\<close> the loops of \<open>readi\<close> and
    \<open>writei\<close>, \<open>FsTrunc\<close> the return of blocks, \<open>FsSpec\<close> the file as a sequence of bytes (locale
    \<open>byte_file\<close>), \<open>FsDir\<close> directories as clients of it. The one current log operation is part of its state: \<open>log_write\<close>
    collects the blocks of the operation and panics, as in \<open>log.c\<close>, when there are too many or no operation is open.
    Below it are the buffer cache \<open>bio.c\<close>, with the requests
    of \<open>ide.c\<close>, in \<open>Bio\<close>, and the log \<open>log.c\<close> in \<open>Log\<close>; the disk is a sequence of writes, any of which may be the
    last before a power failure. \<open>LogLoops\<close> gives the writes of each loop of the log, \<open>LogSpec\<close> those of a
    commit and of a recovery and what a crash among them leaves, \<open>LogCrash\<close> lifts this to histories of
    overlapping operations.
  \<^item> The seat reservation server, \<open>2-2/PA3/workspace/20201218/submit2/pa3_server.c\<close>: \<open>Seats\<close>, its threads as
    interleaved events over the mutexes, and \<open>SeatsSpec\<close>, what holds for every interleaving.
  \<^item> The small floating point format, \<open>2-1/SKKU/SiPu/HW1/hw1_skeleton-3/sfp.c\<close>: \<open>Sfp\<close>.

  The programs share no code at run time except through the simulator and, within one xv6 tree,
  through its headers. \<open>Bytes\<close> has little-endian words in byte arrays, \<open>Prelude\<close> the rest that the
  theories share: C integer types, arrays with bounds, \<open>for\<close> loops over fallible steps,
  row-major indices, the flash interface.

  Interfaces. The locales \<open>flash_log\<close> and \<open>flash\<close> (\<open>Prelude\<close>) are interpreted by both simulators (\<open>nd\<close>, \<open>nd1\<close>),
  \<open>fifo\<close> (\<open>Zns\<close>) by the ring buffers of free block groups (\<open>zq\<close>), \<open>byte_file\<close> (\<open>FsSpec\<close>) by \<open>readi\<close> and
  \<open>writei\<close> (\<open>xv6\<close>). The read-back properties are instances of their lemmas.

  What the properties show. C1 to C4: the page-mapping layer is a disk, under any history of
  requests and the collections they cause. C5 and C6: so is the mapping table of the demand-based
  layer. C7 to C11: a file is its bytes, what a directory entry names is found again, and what
  truncation forgets. C12 to C16: the log makes the changes of operations atomic and durable under power
  failures at any write, recovery may itself be interrupted, the cache is transparent, and where the
  log is too small. C17 to C20: an address space is copied, grown, destroyed and written without
  a change to any other. C21 to C26: the mappings of a process stay apart, which bytes their pages
  show, and what goes wrong when they are unmapped or the process ends. C27 to C31: the server's
  requests end, its mutexes exclude, its seats change hands only through the owner, and how its
  sessions mix. C32 and after: floating point addition, the eviction of pages,
  zones, the buffered layer, the process table of a machine with one processor. The \<open>findings\<close> of the manifest are the places where
  the code does not do what it means to; several are theorems here (a read of a zone that never
  ends, \<open>kalloc\<close> returning a frame that is still free, an \<open>iput\<close> that leaks the doubly indirect blocks,
  a logout of somebody else, memory that is unmapped and stays in use).

  Bounds and fuel. The geometries of the flash layers are parameters; \<open>wf_geom\<close> and its relatives ask
  that sizes fit the C \<open>int\<close>s, and hold for the headers in the repository. Loops whose length is known
  are structural; the searches of the layers stop by a proof (a collection finds an invalid page
  by counting). The recursion of \<open>kalloc\<close>, \<open>swapout\<close> and \<open>clock\<close> and the read loops of zones take fuel; the
  theorems give the amount (one turn of the ring and the calls above it, one step for each page of the
  request), or show that after any number of iterations the loop is where it started. The room that
  writes need in the log is a hypothesis of C7, C8, C10 and C11 (3 blocks for each block of the range, which is
  what \<open>filewrite\<close> reckons with, lemma \<open>filewrite_piece_fits\<close>).

  Not modelled. The join of the file system with the crashes of its log: \<open>Fs\<close> counts the blocks that an operation
  logs, and \<open>LogCrash\<close> speaks of any changes of blocks, but a file system operation is not run on \<open>Log\<close>; a write of
  a sector is whole or absent. Of project 3, segment registers and the switch of page tables (\<open>seginit\<close>,
  \<open>switchuvm\<close>, \<open>switchkvm\<close>), \<open>loaduvm\<close>, and the disk behind mapped files, whose contents are an array; other
  processes that run while \<open>swapout\<close> waits for the disk; drivers, console, boot code, \<open>exec\<close>, pipes and user programs
  of the kernel as distributed; interrupts other than the timer; the simulator rv8 (third-party C++); saved
  earlier copies of the same programs; test drivers; course work that is console input and
  output or one system call after the other. Locks of the kernel parts are left out where one
  operation runs under one lock (the lock of the allocator of project 4, which is released and taken again
  within \<open>kalloc\<close>, is modelled); in the server, where interleaving matters, they are modelled.
\<close>

end
